(* ===== verification/Prelude.thy ===== *)
theory Prelude
  imports Main "HOL-Library.Word"
begin

text \<open>
  Shared vocabulary of the development: the machine integer types of the C++ source, the
  undefined-behaviour checks of the C++ operators the source uses, the collections of
  rewrite rules that the component theories extend, and generic facts on words, bits and
  lists that several components need.
\<close>

unbundle bit_operations_syntax

section \<open>Machine integers\<close>

text \<open>
  \<open>uint8_t\<close>, \<open>uint16_t\<close>, \<open>uint32_t\<close> and \<open>uint64_t\<close>.  A signed integer is stored in the
  same word type and read with \<open>sint\<close>; C++20 fixes two's complement, so the casts between
  the signed and the unsigned type of one width are the identity on the word.
\<close>

type_synonym u8 = "8 word"
type_synonym u16 = "16 word"
type_synonym u32 = "32 word"
type_synonym u64 = "64 word"

text \<open>Rewrite rules that evaluate the operations of a component on its state record.\<close>

named_theorems op_simps

text \<open>Facts that unfold the invariants of the components.\<close>

named_theorems inv_defs

section \<open>Words\<close>

lemma unat_less_pow32: "unat (w :: u32) < 4294967296"
  using unsigned_less [of w] by simp

lemma unat_add_small32:
  "unat a + unat b < 4294967296 \<Longrightarrow> unat (a + b :: u32) = unat a + unat b"
  by (simp add: unat_word_ariths)

lemma unat_diff_small32: "b \<le> a \<Longrightarrow> unat (a - b :: u32) = unat a - unat b"
  by (rule unat_sub)

lemma unat_pred32:
  assumes "w \<noteq> (0 :: u32)"
  shows "unat (w - 1) = unat w - 1"
proof -
  have "0 < unat w" using assms by (simp add: unat_gt_0)
  then show ?thesis by (simp add: unat_diff_small32 word_le_nat_alt)
qed

lemma unat_Suc_small32:
  "unat a + 1 < 4294967296 \<Longrightarrow> unat (a + 1 :: u32) = Suc (unat a)"
  using unat_add_small32 [of a 1] by simp

lemma unat_of_nat_32: "n < 4294967296 \<Longrightarrow> unat (word_of_nat n :: u32) = n"
  by (simp add: unsigned_of_nat take_bit_nat_eq_self)

lemma word_neq_0_less: "(w :: 'a::len word) \<noteq> 0 \<Longrightarrow> 0 < unat w"
  by (simp add: unat_gt_0)

text \<open>
  A statement about all bits of a 32-bit word, as 32 statements about concrete bits that
  the simplifier decides one by one.
\<close>

lemma all_less_32:
  "(\<forall>n<32. P n) \<longleftrightarrow>
     (P 0 \<and> P 1 \<and> P 2 \<and> P 3 \<and> P 4 \<and> P 5 \<and> P 6 \<and> P 7 \<and>
      P 8 \<and> P 9 \<and> P 10 \<and> P 11 \<and> P 12 \<and> P 13 \<and> P 14 \<and> P 15 \<and>
      P 16 \<and> P 17 \<and> P 18 \<and> P 19 \<and> P 20 \<and> P 21 \<and> P 22 \<and> P 23 \<and>
      P 24 \<and> P 25 \<and> P 26 \<and> P 27 \<and> P 28 \<and> P 29 \<and> P 30 \<and> P (31::nat))"
proof -
  have upt: "[0..<32] =
    [0, 1, 2, 3, 4, 5, 6, 7, 8, 9, 10, 11, 12, 13, 14, 15,
     16, 17, 18, 19, 20, 21, 22, 23, 24, 25, 26, 27, 28, 29, 30, 31::nat]"
    by code_simp
  have "(\<forall>n<32. P n) \<longleftrightarrow> list_all P [0..<32]"
    by (auto simp: list_all_iff)
  then show ?thesis by (simp only: upt list.pred_inject simp_thms)
qed

lemma word32_eqI: "(\<forall>n<32. bit v n = bit w n) \<Longrightarrow> v = (w :: u32)"
  by (rule bit_word_eqI) simp

lemma bit32_iff:
  assumes "\<forall>n<32. bit (w :: u32) n = P n"
  shows "bit w n \<longleftrightarrow> n < 32 \<and> P n"
proof (cases "n < 32")
  case True
  with assms show ?thesis by simp
next
  case False
  then show ?thesis using bit_imp_le_length [of w n] by auto
qed

text \<open>\<^verbatim>\<open>w & (w - 1)\<close> clears the lowest set bit and nothing else.\<close>

lemma bit_pred_lowest:
  fixes w :: "'a::len word"
  assumes "bit w m" "\<And>i. i < m \<Longrightarrow> \<not> bit w i"
  shows "bit (w AND (w - 1)) n \<longleftrightarrow> bit w n \<and> n \<noteq> m"
proof -
  have m: "m < LENGTH('a)" using assms(1) by (rule bit_imp_le_length)
  define v where "v = unset_bit m w"
  have v: "bit v i \<longleftrightarrow> bit w i \<and> i \<noteq> m" for i
    by (auto simp: v_def bit_unset_bit_iff)
  have disj: "v AND 2 ^ m = 0" "v AND mask m = 0"
    by (rule bit_word_eqI; use v assms(2) in \<open>auto simp: bit_simps\<close>)+
  have "w = v OR 2 ^ m"
    by (rule bit_word_eqI) (use v assms(1) m in \<open>auto simp: bit_simps\<close>)
  also have "\<dots> = v + 2 ^ m" by (simp only: disjunctive_add_eq_or [OF disj(1)])
  finally have "w - 1 = v + 2 ^ m - 1" by (rule arg_cong)
  also have "\<dots> = v + mask m" by (simp add: mask_eq_exp_minus_1)
  also have "\<dots> = v OR mask m" by (simp only: disjunctive_add_eq_or [OF disj(2)])
  finally have "bit (w AND (w - 1)) n = bit (w AND (v OR mask m)) n" by (rule arg_cong)
  then show ?thesis
    using v assms(2) [of n] by (auto simp: bit_simps dest: bit_imp_le_length)
qed

text \<open>A word with a single bit is a power of two.\<close>

lemma single_bit_power:
  fixes w :: "'a::len word"
  assumes "w \<noteq> 0" "w AND (w - 1) = 0"
  obtains n where "n < LENGTH('a)" "w = 2 ^ n" "unat w = 2 ^ n"
proof -
  have "\<exists>n. bit w n"
  proof (rule ccontr)
    assume "\<not> ?thesis"
    then have "w = 0" by (intro bit_word_eqI) simp
    with assms(1) show False by contradiction
  qed
  then obtain m where m: "bit w m" "\<And>i. i < m \<Longrightarrow> \<not> bit w i"
    by (metis LeastI not_less_Least)
  have len: "m < LENGTH('a)" using m(1) by (rule bit_imp_le_length)
  have "bit w n \<longleftrightarrow> n = m" for n
    using bit_pred_lowest [OF m, of n] assms(2) m(1) by auto
  then have "w = 2 ^ m" by (intro bit_word_eqI) (auto simp: bit_simps)
  moreover from this have "unat w = take_bit LENGTH('a) (2 ^ m)"
    using unsigned_of_nat [of "2 ^ m :: nat", where 'b = 'a and 'a = nat] by simp
  then have "unat w = 2 ^ m" using len by (simp add: take_bit_nat_eq_self)
  ultimately show ?thesis using that len by blast
qed

section \<open>Lists\<close>

lemma nth_list_update_if:
  "i < length xs \<Longrightarrow> xs[j := x] ! i = (if i = j then x else xs ! i)"
  by simp

lemma butlast_map_upt:
  "butlast (map f [0..<n]) = map f [0..<n - 1]"
  by (cases n) simp_all

lemma tl_map_upt:
  "tl (map f [0..<n]) = map (\<lambda>k. f (Suc k)) [0..<n - 1]"
proof (cases n)
  case (Suc m)
  have "map f [0..<Suc m] = f 0 # map (\<lambda>k. f (Suc k)) [0..<m]"
    by (rule map_upt_Suc)
  then show ?thesis by (simp add: Suc)
qed simp

lemma filter_upt_cong:
  "(\<And>i. m \<le> i \<Longrightarrow> i < n \<Longrightarrow> P i = Q i) \<Longrightarrow> filter P [m..<n] = filter Q [m..<n]"
  by (rule filter_cong) simp_all

lemma count_update:
  "i < length xs \<Longrightarrow> length (filter P (xs[i := v])) + (if P (xs ! i) then 1 else 0) =
     length (filter P xs) + (if P v then 1 else 0)"
proof (induction xs arbitrary: i)
  case (Cons x xs)
  then show ?case by (cases i) auto
qed simp

section \<open>Fallible operations\<close>

text \<open>
  The simulator reports a fatal error by printing a message and calling \<^verbatim>\<open>exit(1)\<close>; in the
  model such an operation returns \<open>Inl\<close> of the error.  \<open>Undefined\<close> stands for a C++
  operation outside its defined domain: no message exists for it, and the components prove
  that it does not occur.
\<close>

datatype fatal =
    OutOfRange u32 string
  | Misaligned u32 string u32
  | MisalignedFetch u32
  | MisalignedBranch u32 u32
  | DisplayFail string
  | Undefined

type_synonym 'a result = "fatal + 'a"

definition bind_result :: "'a result \<Rightarrow> ('a \<Rightarrow> 'b result) \<Rightarrow> 'b result" where
  "bind_result r f = (case r of Inl e \<Rightarrow> Inl e | Inr x \<Rightarrow> f x)"

lemma bind_result_simps [simp]:
  "bind_result (Inl e) f = Inl e" "bind_result (Inr x) f = f x"
  by (simp_all add: bind_result_def)

lemma bind_result_Inr:
  "bind_result r f = Inr y \<longleftrightarrow> (\<exists>x. r = Inr x \<and> f x = Inr y)"
  by (cases r) simp_all

lemma bind_resultE:
  assumes "bind_result r f = Inr y"
  obtains x where "r = Inr x" "f x = Inr y"
  using assms by (cases r) auto

lemma bind_result_Inl:
  "bind_result r f = Inl e \<longleftrightarrow> r = Inl e \<or> (\<exists>x. r = Inr x \<and> f x = Inl e)"
  by (cases r) auto

end
