(* ===== verification/Isa.thy ===== *)
theory Isa
  imports Prelude
begin

text \<open>
  Model of \<^verbatim>\<open>isa/isa.h\<close>: the operation codes, the decoded instruction, and the
  classification functions that stand for the control signals of a decoder.
\<close>

section \<open>Operations\<close>

text \<open>
  \<^verbatim>\<open>enum class Op\<close>, in the order of \<^verbatim>\<open>OP_LIST\<close>.  The operations xor, or, and carry a
  suffix because their names are infix operators on words.
\<close>

datatype op =
    LUI | AUIPC
  | JAL | JALR
  | BEQ | BNE | BLT | BGE | BLTU | BGEU
  | LB | LH | LW | LBU | LHU
  | SB | SH | SW
  | ADDI | SLTI | SLTIU | XORI | ORI | ANDI | SLLI | SRLI | SRAI
  | ADD | SUB | SLL | SLT | SLTU | XOR_op | SRL | SRA | OR_op | AND_op
  | MUL | MULH | MULHSU | MULHU | DIV | DIVU | REM | REMU
  | FENCE | ECALL | EBREAK
  | ILLEGAL

text \<open>The enumerators are numbered in this order; the source compares them with \<open>\<ge>\<close>, \<open>\<le>\<close>.\<close>

definition op_list :: "op list" where
  "op_list =
    [LUI, AUIPC, JAL, JALR, BEQ, BNE, BLT, BGE, BLTU, BGEU, LB, LH, LW, LBU, LHU, SB, SH, SW,
     ADDI, SLTI, SLTIU, XORI, ORI, ANDI, SLLI, SRLI, SRAI,
     ADD, SUB, SLL, SLT, SLTU, XOR_op, SRL, SRA, OR_op, AND_op,
     MUL, MULH, MULHSU, MULHU, DIV, DIVU, REM, REMU, FENCE, ECALL, EBREAK, ILLEGAL]"

primrec op_index :: "op \<Rightarrow> nat" where
  "op_index LUI = 0" | "op_index AUIPC = 1" | "op_index JAL = 2" | "op_index JALR = 3"
| "op_index BEQ = 4" | "op_index BNE = 5" | "op_index BLT = 6" | "op_index BGE = 7"
| "op_index BLTU = 8" | "op_index BGEU = 9"
| "op_index LB = 10" | "op_index LH = 11" | "op_index LW = 12" | "op_index LBU = 13"
| "op_index LHU = 14"
| "op_index SB = 15" | "op_index SH = 16" | "op_index SW = 17"
| "op_index ADDI = 18" | "op_index SLTI = 19" | "op_index SLTIU = 20" | "op_index XORI = 21"
| "op_index ORI = 22" | "op_index ANDI = 23" | "op_index SLLI = 24" | "op_index SRLI = 25"
| "op_index SRAI = 26"
| "op_index ADD = 27" | "op_index SUB = 28" | "op_index SLL = 29" | "op_index SLT = 30"
| "op_index SLTU = 31" | "op_index XOR_op = 32" | "op_index SRL = 33" | "op_index SRA = 34"
| "op_index OR_op = 35" | "op_index AND_op = 36"
| "op_index MUL = 37" | "op_index MULH = 38" | "op_index MULHSU = 39" | "op_index MULHU = 40"
| "op_index DIV = 41" | "op_index DIVU = 42" | "op_index REM = 43" | "op_index REMU = 44"
| "op_index FENCE = 45" | "op_index ECALL = 46" | "op_index EBREAK = 47" | "op_index ILLEGAL = 48"

lemma op_list_index: "op_list ! op_index x = x"
  by (cases x) (simp_all add: op_list_def)

lemma op_index_inj: "op_index x = op_index y \<Longrightarrow> x = y"
  by (metis op_list_index)

instantiation op :: linorder
begin

definition less_eq_op :: "op \<Rightarrow> op \<Rightarrow> bool" where
  "less_eq_op x y \<longleftrightarrow> op_index x \<le> op_index y"

definition less_op :: "op \<Rightarrow> op \<Rightarrow> bool" where
  "less_op x y \<longleftrightarrow> op_index x < op_index y"

instance
  by standard (auto simp: less_eq_op_def less_op_def intro: op_index_inj)

end

section \<open>Decoded instructions\<close>

text \<open>\<^verbatim>\<open>struct Instr\<close> with its default member values (\<open>Instr{}\<close>).\<close>

record instr =
  ins_op :: op
  ins_rd :: u8
  ins_rs1 :: u8
  ins_rs2 :: u8
  ins_imm :: u32
  ins_raw :: u32

definition instr0 :: instr where
  "instr0 = \<lparr>ins_op = ILLEGAL, ins_rd = 0, ins_rs1 = 0, ins_rs2 = 0, ins_imm = 0, ins_raw = 0\<rparr>"

section \<open>Classification\<close>

definition isLoad :: "op \<Rightarrow> bool" where
  "isLoad x \<longleftrightarrow> LB \<le> x \<and> x \<le> LHU"

definition isStore :: "op \<Rightarrow> bool" where
  "isStore x \<longleftrightarrow> SB \<le> x \<and> x \<le> SW"

definition isBranch :: "op \<Rightarrow> bool" where
  "isBranch x \<longleftrightarrow> BEQ \<le> x \<and> x \<le> BGEU"

definition writesRd :: "op \<Rightarrow> bool" where
  "writesRd x =
     (if isBranch x \<or> isStore x then False
      else case x of FENCE \<Rightarrow> False | ECALL \<Rightarrow> False | EBREAK \<Rightarrow> False | ILLEGAL \<Rightarrow> False
           | _ \<Rightarrow> True)"

definition usesRs1 :: "op \<Rightarrow> bool" where
  "usesRs1 x =
     (case x of LUI \<Rightarrow> False | AUIPC \<Rightarrow> False | JAL \<Rightarrow> False | FENCE \<Rightarrow> False | ECALL \<Rightarrow> False
      | EBREAK \<Rightarrow> False | ILLEGAL \<Rightarrow> False | _ \<Rightarrow> True)"

definition usesRs2 :: "op \<Rightarrow> bool" where
  "usesRs2 x \<longleftrightarrow> isBranch x \<or> isStore x \<or> (ADD \<le> x \<and> x \<le> REMU)"

datatype fuKind = FU_ALU | FU_BRANCH | FU_MUL | FU_DIV | FU_LSU | FU_NONE

definition fuKindOf :: "op \<Rightarrow> fuKind" where
  "fuKindOf x =
     (if isLoad x \<or> isStore x then FU_LSU
      else if isBranch x \<or> x = JAL \<or> x = JALR then FU_BRANCH
      else if MUL \<le> x \<and> x \<le> MULHU then FU_MUL
      else if DIV \<le> x \<and> x \<le> REMU then FU_DIV
      else case x of FENCE \<Rightarrow> FU_NONE | ECALL \<Rightarrow> FU_NONE | EBREAK \<Rightarrow> FU_NONE | ILLEGAL \<Rightarrow> FU_NONE
           | _ \<Rightarrow> FU_ALU)"

definition accessSize :: "op \<Rightarrow> u32" where
  "accessSize x =
     (case x of LB \<Rightarrow> 1 | LBU \<Rightarrow> 1 | SB \<Rightarrow> 1 | LH \<Rightarrow> 2 | LHU \<Rightarrow> 2 | SH \<Rightarrow> 2 | _ \<Rightarrow> 4)"

text \<open>
  Sub-word loads: \<^verbatim>\<open>(uint32_t)(int32_t)(int8_t)raw\<close> truncates to the narrow type and
  sign-extends back.
\<close>

definition extendLoad :: "op \<Rightarrow> u32 \<Rightarrow> u32" where
  "extendLoad x raw =
     (case x of
        LB \<Rightarrow> scast (ucast raw :: u8)
      | LBU \<Rightarrow> raw AND 0xFF
      | LH \<Rightarrow> scast (ucast raw :: u16)
      | LHU \<Rightarrow> raw AND 0xFFFF
      | _ \<Rightarrow> raw)"

lemmas class_defs = isLoad_def isStore_def isBranch_def writesRd_def usesRs1_def usesRs2_def
  fuKindOf_def less_eq_op_def

text \<open>The order of the enumerators gives the classes as sets of operations.\<close>

lemma isLoad_iff: "isLoad x \<longleftrightarrow> x \<in> {LB, LH, LW, LBU, LHU}"
  by (cases x) (simp_all add: isLoad_def less_eq_op_def)

lemma isStore_iff: "isStore x \<longleftrightarrow> x \<in> {SB, SH, SW}"
  by (cases x) (simp_all add: isStore_def less_eq_op_def)

lemma isBranch_iff: "isBranch x \<longleftrightarrow> x \<in> {BEQ, BNE, BLT, BGE, BLTU, BGEU}"
  by (cases x) (simp_all add: isBranch_def less_eq_op_def)

lemma load_not_store: "isLoad x \<Longrightarrow> \<not> isStore x"
  by (auto simp: isLoad_iff isStore_iff)

lemma writesRd_iff:
  "writesRd x \<longleftrightarrow> \<not> isBranch x \<and> \<not> isStore x \<and> fuKindOf x \<noteq> FU_NONE"
  by (cases x) (simp_all add: class_defs)

lemma accessSize_cases: "accessSize x = 1 \<or> accessSize x = 2 \<or> accessSize x = 4"
  by (cases x) (simp_all add: accessSize_def)

end
