(* ===== verification/Decode.thy ===== *)
theory Decode
  imports Isa
begin

text \<open>
  Model of \<^verbatim>\<open>isa/decode.cpp\<close>: the five immediate formats and \<^verbatim>\<open>decode\<close>.  The reference
  is an encoder written from the format diagrams of the RISC-V manual that the source
  repeats as comments; decoding an encoded instruction gives the instruction back.
\<close>

section \<open>Immediates\<close>

text \<open>
  \<^verbatim>\<open>(int32_t)w >> n\<close> is an arithmetic shift, \<^verbatim>\<open>w >> n\<close> on \<^verbatim>\<open>uint32_t\<close> a logical one.
\<close>

definition immI :: "u32 \<Rightarrow> u32" where
  "immI w = signed_drop_bit 20 w"

definition immS :: "u32 \<Rightarrow> u32" where
  "immS w = signed_drop_bit 20 (w AND 0xFE000000) OR (drop_bit 7 w AND 0x1F)"

definition immB :: "u32 \<Rightarrow> u32" where
  "immB w =
     signed_drop_bit 19 (w AND 0x80000000) OR
     push_bit 4 (w AND 0x00000080) OR (drop_bit 20 w AND 0x7E0) OR
     (drop_bit 7 w AND 0x1E)"

definition immU :: "u32 \<Rightarrow> u32" where
  "immU w = w AND 0xFFFFF000"

definition immJ :: "u32 \<Rightarrow> u32" where
  "immJ w =
     signed_drop_bit 11 (w AND 0x80000000) OR (w AND 0x000FF000) OR
     (drop_bit 9 w AND 0x800) OR (drop_bit 20 w AND 0x7FE)"

section \<open>Opcode groups\<close>

definition kBranch :: "op list" where
  "kBranch = [BEQ, BNE, ILLEGAL, ILLEGAL, BLT, BGE, BLTU, BGEU]"

definition kLoad :: "op list" where
  "kLoad = [LB, LH, LW, ILLEGAL, LBU, LHU, ILLEGAL, ILLEGAL]"

definition kStore :: "op list" where
  "kStore = [SB, SH, SW, ILLEGAL, ILLEGAL, ILLEGAL, ILLEGAL, ILLEGAL]"

definition kOpImm :: "op list" where
  "kOpImm = [ADDI, SLLI, SLTI, SLTIU, XORI, SRLI, ORI, ANDI]"

definition kOp :: "op list" where
  "kOp = [ADD, SLL, SLT, SLTU, XOR_op, SRL, OR_op, AND_op]"

definition kOpAlt :: "op list" where
  "kOpAlt = [SUB, ILLEGAL, ILLEGAL, ILLEGAL, ILLEGAL, SRA, ILLEGAL, ILLEGAL]"

definition kMulDiv :: "op list" where
  "kMulDiv = [MUL, MULH, MULHSU, MULHU, DIV, DIVU, REM, REMU]"

lemmas op_tables = kBranch_def kLoad_def kStore_def kOpImm_def kOp_def kOpAlt_def kMulDiv_def

section \<open>The decoder\<close>

definition funct3 :: "u32 \<Rightarrow> u32" where
  "funct3 w = drop_bit 12 w AND 7"

definition funct7 :: "u32 \<Rightarrow> u32" where
  "funct7 w = drop_bit 25 w"

text \<open>The operation of a shift-immediate or other OP-IMM word (case \<open>0x13\<close>).\<close>

definition decode_opimm :: "u32 \<Rightarrow> op" where
  "decode_opimm w =
     (if funct3 w = 1 \<or> funct3 w = 5
      then (if funct3 w = 5 \<and> funct7 w = 0x20 then SRAI
            else if funct7 w \<noteq> 0 then ILLEGAL
            else kOpImm ! unat (funct3 w))
      else kOpImm ! unat (funct3 w))"

definition decode :: "u32 \<Rightarrow> instr" where
  "decode w =
    (let I = instr0\<lparr>ins_raw := w,
                    ins_rd := ucast (drop_bit 7 w AND 31),
                    ins_rs1 := ucast (drop_bit 15 w AND 31),
                    ins_rs2 := ucast (drop_bit 20 w AND 31)\<rparr>;
         f3 = funct3 w; f7 = funct7 w; opc = w AND 0x7F
     in if opc = 0x37 then I\<lparr>ins_op := LUI, ins_imm := immU w\<rparr>
        else if opc = 0x17 then I\<lparr>ins_op := AUIPC, ins_imm := immU w\<rparr>
        else if opc = 0x6F then I\<lparr>ins_op := JAL, ins_imm := immJ w\<rparr>
        else if opc = 0x67 then
          (if f3 = 0 then I\<lparr>ins_op := JALR, ins_imm := immI w\<rparr> else I)
        else if opc = 0x63 then I\<lparr>ins_op := kBranch ! unat f3, ins_imm := immB w\<rparr>
        else if opc = 0x03 then I\<lparr>ins_op := kLoad ! unat f3, ins_imm := immI w\<rparr>
        else if opc = 0x23 then I\<lparr>ins_op := kStore ! unat f3, ins_imm := immS w\<rparr>
        else if opc = 0x13 then
          (let J = I\<lparr>ins_op := decode_opimm w, ins_imm := immI w\<rparr>
           in if (f3 = 1 \<or> f3 = 5) \<and> ins_op J \<noteq> ILLEGAL
              then J\<lparr>ins_imm := ucast (ins_rs2 J)\<rparr> else J)
        else if opc = 0x33 then
          (if f7 = 0x00 then I\<lparr>ins_op := kOp ! unat f3\<rparr>
           else if f7 = 0x20 then I\<lparr>ins_op := kOpAlt ! unat f3\<rparr>
           else if f7 = 0x01 then I\<lparr>ins_op := kMulDiv ! unat f3\<rparr>
           else I)
        else if opc = 0x0F then I\<lparr>ins_op := FENCE\<rparr>
        else if opc = 0x73 then
          (if w = 0x00000073 then I\<lparr>ins_op := ECALL\<rparr>
           else if w = 0x00100073 then I\<lparr>ins_op := EBREAK\<rparr>
           else I)
        else I)"

section \<open>Bits of the immediates\<close>

text \<open>Each immediate, bit by bit, as the diagram of its format places it.\<close>

lemma bit_immI: "bit (immI w) n \<longleftrightarrow> n < 32 \<and> bit w (if n < 11 then n + 20 else 31)"
  by (rule bit32_iff) (simp add: all_less_32 immI_def bit_simps)

lemma bit_immS:
  "bit (immS w) n \<longleftrightarrow>
     n < 32 \<and> bit w (if n < 5 then n + 7 else if n < 11 then n + 20 else 31)"
  by (rule bit32_iff) (simp add: all_less_32 immS_def bit_simps)

lemma bit_immB:
  "bit (immB w) n \<longleftrightarrow>
     n < 32 \<and> n \<noteq> 0 \<and>
     bit w (if n < 5 then n + 7 else if n < 11 then n + 20 else if n = 11 then 7 else 31)"
  by (rule bit32_iff) (simp add: all_less_32 immB_def bit_simps)

lemma bit_immU: "bit (immU w) n \<longleftrightarrow> n < 32 \<and> 12 \<le> n \<and> bit w n"
  by (rule bit32_iff) (simp add: all_less_32 immU_def bit_simps)

lemma bit_immJ:
  "bit (immJ w) n \<longleftrightarrow>
     n < 32 \<and> n \<noteq> 0 \<and>
     bit w (if n < 11 then n + 20 else if n = 11 then 20 else if n < 20 then n else 31)"
  by (rule bit32_iff) (simp add: all_less_32 immJ_def bit_simps)


section \<open>The encoder\<close>

text \<open>
  The six fields every 32-bit format is cut into, at their fixed positions, and for each
  format the way an immediate is spread over them.  This is the assembler's side of the
  diagrams in \<^verbatim>\<open>isa/decode.cpp\<close>.
\<close>

definition mkword :: "7 word \<Rightarrow> 5 word \<Rightarrow> 3 word \<Rightarrow> 5 word \<Rightarrow> 5 word \<Rightarrow> 7 word \<Rightarrow> u32" where
  "mkword opc rd f3 rs1 rs2 f7 =
     ucast opc OR push_bit 7 (ucast rd) OR push_bit 12 (ucast f3) OR
     push_bit 15 (ucast rs1) OR push_bit 20 (ucast rs2) OR push_bit 25 (ucast f7)"

datatype fmt = FmtR | FmtI | FmtShift | FmtS | FmtB | FmtU | FmtJ | FmtSys

definition fmt_of :: "op \<Rightarrow> fmt" where
  "fmt_of x =
     (if x \<in> {LUI, AUIPC} then FmtU
      else if x = JAL then FmtJ
      else if x \<in> {SLLI, SRLI, SRAI} then FmtShift
      else if isBranch x then FmtB
      else if isStore x then FmtS
      else if isLoad x \<or> x = JALR \<or> (ADDI \<le> x \<and> x \<le> ANDI) then FmtI
      else if ADD \<le> x \<and> x \<le> REMU then FmtR
      else FmtSys)"

definition opcode_of :: "op \<Rightarrow> 7 word" where
  "opcode_of x =
     (if x = LUI then 0x37 else if x = AUIPC then 0x17 else if x = JAL then 0x6F
      else if x = JALR then 0x67 else if isBranch x then 0x63 else if isLoad x then 0x03
      else if isStore x then 0x23 else if ADDI \<le> x \<and> x \<le> SRAI then 0x13
      else if ADD \<le> x \<and> x \<le> REMU then 0x33 else if x = FENCE then 0x0F else 0x73)"

definition funct3_of :: "op \<Rightarrow> 3 word" where
  "funct3_of x =
     (if x \<in> {BNE, LH, SH, SLLI, SLL, MULH} then 1
      else if x \<in> {LW, SW, SLTI, SLT, MULHSU} then 2
      else if x \<in> {SLTIU, SLTU, MULHU} then 3
      else if x \<in> {BLT, LBU, XORI, XOR_op, DIV} then 4
      else if x \<in> {BGE, LHU, SRLI, SRAI, SRL, SRA, DIVU} then 5
      else if x \<in> {BLTU, ORI, OR_op, REM} then 6
      else if x \<in> {BGEU, ANDI, AND_op, REMU} then 7
      else 0)"

definition funct7_of :: "op \<Rightarrow> 7 word" where
  "funct7_of x =
     (if x \<in> {SRAI, SUB, SRA} then 0x20 else if MUL \<le> x \<and> x \<le> REMU then 1 else 0)"

definition encode :: "op \<Rightarrow> 5 word \<Rightarrow> 5 word \<Rightarrow> 5 word \<Rightarrow> u32 \<Rightarrow> u32" where
  "encode x rd rs1 rs2 imm =
    (let opc = opcode_of x; f3 = funct3_of x; f7 = funct7_of x;
         lo = ucast (imm AND 0x1E);
         b11 = ucast (drop_bit 11 imm AND 1)
     in case fmt_of x of
       FmtR \<Rightarrow> mkword opc rd f3 rs1 rs2 f7
     | FmtI \<Rightarrow> mkword opc rd f3 rs1 (ucast imm) (ucast (drop_bit 5 imm))
     | FmtShift \<Rightarrow> mkword opc rd f3 rs1 (ucast imm) f7
     | FmtS \<Rightarrow> mkword opc (ucast imm) f3 rs1 rs2 (ucast (drop_bit 5 imm))
     | FmtB \<Rightarrow> mkword opc (lo OR b11) f3 rs1 rs2
                 (ucast (drop_bit 5 imm AND 0x3F) OR push_bit 6 (ucast (drop_bit 12 imm)))
     | FmtU \<Rightarrow> mkword opc rd (ucast (drop_bit 12 imm)) (ucast (drop_bit 15 imm))
                 (ucast (drop_bit 20 imm)) (ucast (drop_bit 25 imm))
     | FmtJ \<Rightarrow> mkword opc rd (ucast (drop_bit 12 imm)) (ucast (drop_bit 15 imm))
                 (lo OR b11)
                 (ucast (drop_bit 5 imm AND 0x3F) OR push_bit 6 (ucast (drop_bit 20 imm)))
     | FmtSys \<Rightarrow> mkword opc 0 0 0 (if x = EBREAK then 1 else 0) 0)"

text \<open>The immediates a format can hold.\<close>

definition imm_ok :: "op \<Rightarrow> u32 \<Rightarrow> bool" where
  "imm_ok x imm \<longleftrightarrow>
     (case fmt_of x of
        FmtR \<Rightarrow> imm = 0
      | FmtI \<Rightarrow> imm = signed_take_bit 11 imm
      | FmtShift \<Rightarrow> imm = take_bit 5 imm
      | FmtS \<Rightarrow> imm = signed_take_bit 11 imm
      | FmtB \<Rightarrow> imm = signed_take_bit 12 imm \<and> \<not> bit imm 0
      | FmtU \<Rightarrow> take_bit 12 imm = 0
      | FmtJ \<Rightarrow> imm = signed_take_bit 20 imm \<and> \<not> bit imm 0
      | FmtSys \<Rightarrow> imm = 0)"

lemma bit_beyond:
  "7 \<le> n \<Longrightarrow> \<not> bit (v7 :: 7 word) n"
  "5 \<le> n \<Longrightarrow> \<not> bit (v5 :: 5 word) n"
  "3 \<le> n \<Longrightarrow> \<not> bit (v3 :: 3 word) n"
  "32 \<le> n \<Longrightarrow> \<not> bit (v32 :: u32) n"
  "8 \<le> n \<Longrightarrow> \<not> bit (v8 :: u8) n"
  by (auto dest: bit_imp_le_length)

lemma bit_mkword:
  "bit (mkword opc rd f3 rs1 rs2 f7) n \<longleftrightarrow>
     n < 32 \<and> (if n < 7 then bit opc n else if n < 12 then bit rd (n - 7)
       else if n < 15 then bit f3 (n - 12) else if n < 20 then bit rs1 (n - 15)
       else if n < 25 then bit rs2 (n - 20) else bit f7 (n - 25))"
  by (auto simp: mkword_def bit_simps bit_beyond)

lemma mkword_fields:
  "mkword opc rd f3 rs1 rs2 f7 AND 0x7F = ucast opc"
  "funct3 (mkword opc rd f3 rs1 rs2 f7) = ucast f3"
  "funct7 (mkword opc rd f3 rs1 rs2 f7) = ucast f7"
  "drop_bit 7 (mkword opc rd f3 rs1 rs2 f7) AND 31 = ucast rd"
  "drop_bit 15 (mkword opc rd f3 rs1 rs2 f7) AND 31 = ucast rs1"
  "drop_bit 20 (mkword opc rd f3 rs1 rs2 f7) AND 31 = ucast rs2"
  by (rule word32_eqI, simp add: all_less_32 funct3_def funct7_def bit_mkword bit_simps bit_beyond)+


lemma signed_take_bit_bits:
  assumes "imm = signed_take_bit k (imm :: u32)" "k < n" "n < 32"
  shows "bit imm n \<longleftrightarrow> bit imm k"
  using arg_cong [OF assms(1), of "\<lambda>v. bit v n"] assms(2,3)
  by (simp add: bit_signed_take_bit_iff min_def)

lemma imm_roundtrip_I:
  assumes "imm = signed_take_bit 11 imm"
  shows "immI (mkword opc rd f3 rs1 (ucast imm) (ucast (drop_bit 5 imm))) = imm"
  by (rule word32_eqI)
    (simp add: all_less_32 bit_immI bit_mkword bit_simps signed_take_bit_bits [OF assms])

lemma imm_roundtrip_S:
  assumes "imm = signed_take_bit 11 imm"
  shows "immS (mkword opc (ucast imm) f3 rs1 rs2 (ucast (drop_bit 5 imm))) = imm"
  by (rule word32_eqI)
    (simp add: all_less_32 bit_immS bit_mkword bit_simps signed_take_bit_bits [OF assms])

lemma imm_roundtrip_B:
  assumes "imm = signed_take_bit 12 imm" "\<not> bit imm 0"
  shows "immB (mkword opc (ucast (imm AND 0x1E) OR
                 ucast (drop_bit 11 imm AND 1)) f3 rs1 rs2
               (ucast (drop_bit 5 imm AND 0x3F) OR push_bit 6 (ucast (drop_bit 12 imm)))) = imm"
  using assms(2)
  by (intro word32_eqI)
    (simp add: all_less_32 bit_immB bit_mkword bit_simps bit_beyond
      signed_take_bit_bits [OF assms(1)])

lemma imm_roundtrip_U:
  assumes "take_bit 12 (imm :: u32) = 0"
  shows "immU (mkword opc rd (ucast (drop_bit 12 imm)) (ucast (drop_bit 15 imm))
                (ucast (drop_bit 20 imm)) (ucast (drop_bit 25 imm))) = imm"
proof -
  have "\<not> bit imm n" if "n < 12" for n
    using arg_cong [OF assms, of "\<lambda>v. bit v n"] that by (simp add: bit_take_bit_iff)
  then show ?thesis
    by (intro word32_eqI) (simp add: all_less_32 bit_immU bit_mkword bit_simps)
qed

lemma imm_roundtrip_J:
  assumes "imm = signed_take_bit 20 imm" "\<not> bit imm 0"
  shows "immJ (mkword opc rd (ucast (drop_bit 12 imm)) (ucast (drop_bit 15 imm))
                (ucast (imm AND 0x1E) OR ucast (drop_bit 11 imm AND 1))
                (ucast (drop_bit 5 imm AND 0x3F) OR push_bit 6 (ucast (drop_bit 20 imm)))) = imm"
  using assms(2)
  by (intro word32_eqI)
    (simp add: all_less_32 bit_immJ bit_mkword bit_simps bit_beyond
      signed_take_bit_bits [OF assms(1)])

lemmas imm_roundtrips = imm_roundtrip_I imm_roundtrip_S imm_roundtrip_B imm_roundtrip_U
  imm_roundtrip_J


section \<open>Decoding an encoded instruction\<close>

lemma ucast_5_32_8: "(ucast (ucast (v :: 5 word) :: u32) :: u8) = ucast v"
  by (rule bit_word_eqI) (simp add: bit_simps)

lemma ucast_shamt:
  assumes "imm = take_bit 5 (imm :: u32)"
  shows "(ucast (ucast (ucast imm :: 5 word) :: u8) :: u32) = imm"
proof (rule word32_eqI, intro allI impI)
  fix n :: nat
  assume "n < 32"
  then show "bit (ucast (ucast (ucast imm :: 5 word) :: u8) :: u32) n = bit imm n"
    using arg_cong [OF assms, of "\<lambda>v. bit v n"] by (auto simp: bit_simps)
qed

lemma decode_mkword_regs:
  "ins_raw (decode w) = w"
  "ins_rd (decode (mkword opc rd f3 rs1 rs2 f7)) = ucast rd"
  "ins_rs1 (decode (mkword opc rd f3 rs1 rs2 f7)) = ucast rs1"
  "ins_rs2 (decode (mkword opc rd f3 rs1 rs2 f7)) = ucast rs2"
  by (simp_all add: decode_def instr0_def Let_def mkword_fields ucast_5_32_8)

lemma decode_encode_regs:
  "writesRd x \<Longrightarrow> ins_rd (decode (encode x rd rs1 rs2 imm)) = ucast rd"
  "usesRs1 x \<Longrightarrow> ins_rs1 (decode (encode x rd rs1 rs2 imm)) = ucast rs1"
  "usesRs2 x \<Longrightarrow> ins_rs2 (decode (encode x rd rs1 rs2 imm)) = ucast rs2"
  by (cases x; simp add: encode_def fmt_of_def class_defs decode_mkword_regs)+

lemma mkword_sys:
  "mkword 0x73 0 0 0 0 0 = 0x73" "mkword 0x73 0 0 0 1 0 = 0x100073"
  by (simp_all add: mkword_def)

lemmas encode_simps = encode_def fmt_of_def opcode_of_def funct3_of_def funct7_of_def
  isLoad_def isStore_def isBranch_def less_eq_op_def

lemmas decode_simps = decode_def instr0_def Let_def decode_opimm_def op_tables

lemma decode_encode_op:
  "x \<noteq> ILLEGAL \<Longrightarrow> ins_op (decode (encode x rd rs1 rs2 imm)) = x"
  by (cases x; simp add: encode_simps decode_simps mkword_fields mkword_sys)

text \<open>Which immediate \<^verbatim>\<open>decode\<close> extracts, by format.\<close>

lemma decode_imm_fmt:
  "fmt_of x = FmtR \<Longrightarrow> ins_imm (decode (encode x rd rs1 rs2 imm)) = 0"
  "fmt_of x = FmtI \<Longrightarrow>
     ins_imm (decode (encode x rd rs1 rs2 imm)) = immI (encode x rd rs1 rs2 imm)"
  "fmt_of x = FmtS \<Longrightarrow>
     ins_imm (decode (encode x rd rs1 rs2 imm)) = immS (encode x rd rs1 rs2 imm)"
  "fmt_of x = FmtB \<Longrightarrow>
     ins_imm (decode (encode x rd rs1 rs2 imm)) = immB (encode x rd rs1 rs2 imm)"
  "fmt_of x = FmtU \<Longrightarrow>
     ins_imm (decode (encode x rd rs1 rs2 imm)) = immU (encode x rd rs1 rs2 imm)"
  "fmt_of x = FmtJ \<Longrightarrow>
     ins_imm (decode (encode x rd rs1 rs2 imm)) = immJ (encode x rd rs1 rs2 imm)"
  "fmt_of x = FmtShift \<Longrightarrow>
     ins_imm (decode (encode x rd rs1 rs2 imm)) = ucast (ucast (ucast imm :: 5 word) :: u8)"
  "fmt_of x = FmtSys \<Longrightarrow> x \<noteq> ILLEGAL \<Longrightarrow> ins_imm (decode (encode x rd rs1 rs2 imm)) = 0"
  by (cases x; simp add: encode_simps decode_simps mkword_fields mkword_sys ucast_5_32_8)+

lemma decode_encode_imm:
  assumes "x \<noteq> ILLEGAL" and ok: "imm_ok x imm"
  shows "ins_imm (decode (encode x rd rs1 rs2 imm)) = imm"
proof (cases "fmt_of x")
  case FmtI
  with ok have "imm = signed_take_bit 11 imm" by (simp only: imm_ok_def fmt.case)
  from imm_roundtrip_I [OF this] show ?thesis
    by (simp only: decode_imm_fmt(2) [OF FmtI]) (simp add: encode_def FmtI)
next
  case FmtS
  with ok have "imm = signed_take_bit 11 imm" by (simp only: imm_ok_def fmt.case)
  from imm_roundtrip_S [OF this] show ?thesis
    by (simp only: decode_imm_fmt(3) [OF FmtS]) (simp add: encode_def FmtS)
next
  case FmtB
  with ok have "imm = signed_take_bit 12 imm \<and> \<not> bit imm 0"
    by (simp only: imm_ok_def fmt.case simp_thms)
  from imm_roundtrip_B [OF conjunct1 [OF this] conjunct2 [OF this]] show ?thesis
    by (simp only: decode_imm_fmt(4) [OF FmtB]) (simp add: encode_def FmtB)
next
  case FmtU
  with ok have "take_bit 12 imm = 0" by (simp only: imm_ok_def fmt.case)
  from imm_roundtrip_U [OF this] show ?thesis
    by (simp only: decode_imm_fmt(5) [OF FmtU]) (simp add: encode_def FmtU)
next
  case FmtJ
  with ok have "imm = signed_take_bit 20 imm \<and> \<not> bit imm 0"
    by (simp only: imm_ok_def fmt.case simp_thms)
  from imm_roundtrip_J [OF conjunct1 [OF this] conjunct2 [OF this]] show ?thesis
    by (simp only: decode_imm_fmt(6) [OF FmtJ]) (simp add: encode_def FmtJ)
next
  case FmtShift
  with ok have "imm = take_bit 5 imm" by (simp only: imm_ok_def fmt.case)
  from ucast_shamt [OF this] show ?thesis
    by (simp only: decode_imm_fmt(7) [OF FmtShift])
next
  case FmtR
  with ok show ?thesis by (simp add: decode_imm_fmt imm_ok_def)
next
  case FmtSys
  with assms show ?thesis by (simp add: decode_imm_fmt imm_ok_def)
qed

section \<open>Encoding a decoded instruction\<close>

text \<open>Every word is cut into the six fields.\<close>

lemma mkword_split:
  "w = mkword (ucast w) (ucast (drop_bit 7 w)) (ucast (drop_bit 12 w)) (ucast (drop_bit 15 w))
         (ucast (drop_bit 20 w)) (ucast (drop_bit 25 w))"
  by (rule word32_eqI) (simp add: all_less_32 bit_mkword bit_simps)

lemma mkword_exhaust:
  obtains opc rd f3 rs1 rs2 f7 where "w = mkword opc rd f3 rs1 rs2 f7"
  using mkword_split by blast

lemma all_less_small:
  "(\<forall>n<5. P n) \<longleftrightarrow> P 0 \<and> P 1 \<and> P 2 \<and> P 3 \<and> P (4::nat)"
  "(\<forall>n<7. P n) \<longleftrightarrow> P 0 \<and> P 1 \<and> P 2 \<and> P 3 \<and> P 4 \<and> P 5 \<and> P (6::nat)"
  "(\<forall>n<3. P n) \<longleftrightarrow> P 0 \<and> P 1 \<and> P (2::nat)"
  by (simp_all add: numeral_eq_Suc All_less_Suc conj_ac)

lemma word_small_eqI:
  "\<forall>n<5. bit v5 n = bit w5 n \<Longrightarrow> v5 = (w5 :: 5 word)"
  "\<forall>n<7. bit v7 n = bit w7 n \<Longrightarrow> v7 = (w7 :: 7 word)"
  "\<forall>n<3. bit v3 n = bit w3 n \<Longrightarrow> v3 = (w3 :: 3 word)"
  by (auto intro: bit_word_eqI)

text \<open>The immediate of a word, spread again, gives the fields it came from.\<close>

lemma imm_fields_lo:
  "ucast (immI (mkword opc rd f3 rs1 rs2 f7)) = rs2"
  "ucast (immS (mkword opc rd f3 rs1 rs2 f7)) = rd"
  "ucast (immB (mkword opc rd f3 rs1 rs2 f7) AND 0x1E) OR
     ucast (drop_bit 11 (immB (mkword opc rd f3 rs1 rs2 f7)) AND 1) = rd"
  "ucast (immJ (mkword opc rd f3 rs1 rs2 f7) AND 0x1E) OR
     ucast (drop_bit 11 (immJ (mkword opc rd f3 rs1 rs2 f7)) AND 1) = rs2"
  "ucast (drop_bit 20 (immU (mkword opc rd f3 rs1 rs2 f7))) = rs2"
  "ucast (drop_bit 15 (immU (mkword opc rd f3 rs1 rs2 f7))) = rs1"
  "ucast (drop_bit 15 (immJ (mkword opc rd f3 rs1 rs2 f7))) = rs1"
  by (rule word_small_eqI(1),
      simp add: all_less_small bit_simps bit_immI bit_immS bit_immB bit_immU bit_immJ bit_mkword)+

lemma imm_fields_hi:
  "ucast (drop_bit 5 (immI (mkword opc rd f3 rs1 rs2 f7))) = f7"
  "ucast (drop_bit 5 (immS (mkword opc rd f3 rs1 rs2 f7))) = f7"
  "ucast (drop_bit 5 (immB (mkword opc rd f3 rs1 rs2 f7)) AND 0x3F) OR
     push_bit 6 (ucast (drop_bit 12 (immB (mkword opc rd f3 rs1 rs2 f7)))) = f7"
  "ucast (drop_bit 5 (immJ (mkword opc rd f3 rs1 rs2 f7)) AND 0x3F) OR
     push_bit 6 (ucast (drop_bit 20 (immJ (mkword opc rd f3 rs1 rs2 f7)))) = f7"
  "ucast (drop_bit 25 (immU (mkword opc rd f3 rs1 rs2 f7))) = f7"
  by (rule word_small_eqI(2),
      simp add: all_less_small bit_simps bit_immI bit_immS bit_immB bit_immU bit_immJ bit_mkword)+

lemma imm_fields_mid:
  "ucast (drop_bit 12 (immU (mkword opc rd f3 rs1 rs2 f7))) = f3"
  "ucast (drop_bit 12 (immJ (mkword opc rd f3 rs1 rs2 f7))) = f3"
  by (rule word_small_eqI(3), simp add: all_less_small bit_simps bit_immU bit_immJ bit_mkword)+

lemmas imm_fields = imm_fields_lo imm_fields_mid imm_fields_hi

text \<open>The immediate of a word is one its format can hold.\<close>

lemma imm_ok_bits:
  "signed_take_bit 11 (immI w) = immI w"
  "signed_take_bit 11 (immS w) = immS w"
  "signed_take_bit 12 (immB w) = immB w" "\<not> bit (immB w) 0"
  "take_bit 12 (immU w) = 0"
  "signed_take_bit 20 (immJ w) = immJ w" "\<not> bit (immJ w) 0"
  by (auto intro!: bit_word_eqI
      simp: bit_simps bit_immI bit_immS bit_immB bit_immU bit_immJ min_def)

lemma ucast_field_eq:
  "(ucast v = (ucast c :: u32)) = (v = (c :: 7 word))"
  "(ucast v3 = (ucast c3 :: u32)) = (v3 = (c3 :: 3 word))"
proof -
  have "ucast (ucast w :: u32) = w" for w :: "7 word"
    by (rule bit_word_eqI) (simp add: bit_simps)
  then show "(ucast v = (ucast c :: u32)) = (v = c)" by metis
  have "ucast (ucast w :: u32) = w" for w :: "3 word"
    by (rule bit_word_eqI) (simp add: bit_simps)
  then show "(ucast v3 = (ucast c3 :: u32)) = (v3 = c3)" by metis
qed

lemmas opcode_eqs =
  ucast_field_eq(1) [of _ "0x37", simplified] ucast_field_eq(1) [of _ "0x17", simplified]
  ucast_field_eq(1) [of _ "0x6F", simplified] ucast_field_eq(1) [of _ "0x67", simplified]
  ucast_field_eq(1) [of _ "0x63", simplified] ucast_field_eq(1) [of _ "0x03", simplified]
  ucast_field_eq(1) [of _ "0x23", simplified] ucast_field_eq(1) [of _ "0x13", simplified]
  ucast_field_eq(1) [of _ "0x33", simplified] ucast_field_eq(1) [of _ "0x0F", simplified]
  ucast_field_eq(1) [of _ "0x73", simplified] ucast_field_eq(1) [of _ "0x20", simplified]
  ucast_field_eq(1) [of _ "0", simplified] ucast_field_eq(1) [of _ "1", simplified]

lemma word3_cases:
  "f3 = 0 \<or> f3 = 1 \<or> f3 = 2 \<or> f3 = 3 \<or> f3 = 4 \<or> f3 = 5 \<or> f3 = 6 \<or> f3 = (7 :: 3 word)"
proof -
  have "unat f3 < 8" using unsigned_less [of f3] by simp
  then have "unat f3 \<in> {0, 1, 2, 3, 4, 5, 6, 7}" by auto
  then show ?thesis by (simp add: word_unat_eq_iff)
qed

lemma ucast_5_8_5: "(ucast (ucast (v :: 5 word) :: u8) :: 5 word) = v"
  by (rule bit_word_eqI) (simp add: bit_simps)

text \<open>The part of \<^verbatim>\<open>decode\<close> that fills in the operation, on a word cut into its fields.\<close>

lemma decode_mkword_op:
  "ins_op (decode (mkword opc rd f3 rs1 rs2 f7)) =
    (if opc = 0x37 then LUI else if opc = 0x17 then AUIPC else if opc = 0x6F then JAL
     else if opc = 0x67 then (if f3 = 0 then JALR else ILLEGAL)
     else if opc = 0x63 then kBranch ! unat f3
     else if opc = 0x03 then kLoad ! unat f3
     else if opc = 0x23 then kStore ! unat f3
     else if opc = 0x13 then
       (if f3 = 1 \<or> f3 = 5
        then (if f3 = 5 \<and> f7 = 0x20 then SRAI else if f7 \<noteq> 0 then ILLEGAL
              else kOpImm ! unat f3)
        else kOpImm ! unat f3)
     else if opc = 0x33 then
       (if f7 = 0 then kOp ! unat f3 else if f7 = 0x20 then kOpAlt ! unat f3
        else if f7 = 1 then kMulDiv ! unat f3 else ILLEGAL)
     else if opc = 0x0F then FENCE
     else if opc = 0x73 then
       (if mkword opc rd f3 rs1 rs2 f7 = 0x73 then ECALL
        else if mkword opc rd f3 rs1 rs2 f7 = 0x100073 then EBREAK else ILLEGAL)
     else ILLEGAL)"
proof -
  have "unat f3 < 8" using unsigned_less [of f3] by simp
  then have f3s: "unat (ucast f3 :: u32) = unat f3"
    by (simp add: unsigned_ucast_eq take_bit_nat_eq_self)
  have f3eq: "(ucast f3 = (0 :: u32)) = (f3 = 0)" "(ucast f3 = (1 :: u32)) = (f3 = 1)"
    "(ucast f3 = (5 :: u32)) = (f3 = 5)"
    using ucast_field_eq(2) [of f3 0] ucast_field_eq(2) [of f3 1] ucast_field_eq(2) [of f3 5]
    by simp_all
  show ?thesis
    by (simp add: decode_def decode_opimm_def instr0_def Let_def mkword_fields opcode_eqs
        f3s f3eq if_distrib [of ins_op] cong: if_cong)
qed


lemma decode_opc_cases:
  assumes "ins_op (decode (mkword opc rd f3 rs1 rs2 f7)) \<noteq> ILLEGAL"
  shows "opc = 0x37 \<or> opc = 0x17 \<or> opc = 0x6F \<or> opc = 0x67 \<or> opc = 0x63 \<or> opc = 0x03 \<or>
    opc = 0x23 \<or> opc = 0x13 \<or> opc = 0x33 \<or> opc = 0x0F \<or> opc = 0x73"
  by (rule ccontr) (use assms in \<open>simp add: decode_mkword_op\<close>)

text \<open>An operation agrees with its opcode, funct3 and funct7.\<close>

definition op_fields :: "op \<Rightarrow> 7 word \<Rightarrow> 3 word \<Rightarrow> 7 word \<Rightarrow> bool" where
  "op_fields x opc f3 f7 \<longleftrightarrow>
     opcode_of x = opc \<and>
     (fmt_of x \<notin> {FmtU, FmtJ, FmtSys} \<longrightarrow> funct3_of x = f3) \<and>
     (fmt_of x \<in> {FmtR, FmtShift} \<longrightarrow> funct7_of x = f7)"

lemma op_fields_tables:
  "kBranch ! unat f3 \<noteq> ILLEGAL \<Longrightarrow> op_fields (kBranch ! unat f3) 0x63 f3 f7"
  "kLoad ! unat f3 \<noteq> ILLEGAL \<Longrightarrow> op_fields (kLoad ! unat f3) 0x03 f3 f7"
  "kStore ! unat f3 \<noteq> ILLEGAL \<Longrightarrow> op_fields (kStore ! unat f3) 0x23 f3 f7"
  "kOp ! unat f3 \<noteq> ILLEGAL \<Longrightarrow> op_fields (kOp ! unat f3) 0x33 f3 0"
  "kOpAlt ! unat f3 \<noteq> ILLEGAL \<Longrightarrow> op_fields (kOpAlt ! unat f3) 0x33 f3 0x20"
  "kMulDiv ! unat f3 \<noteq> ILLEGAL \<Longrightarrow> op_fields (kMulDiv ! unat f3) 0x33 f3 1"
  "f3 \<noteq> 1 \<Longrightarrow> f3 \<noteq> 5 \<Longrightarrow> op_fields (kOpImm ! unat f3) 0x13 f3 f7"
  "op_fields (kOpImm ! Suc 0) 0x13 1 0" "op_fields (kOpImm ! 5) 0x13 5 0"
  "op_fields SRAI 0x13 5 0x20" "op_fields LUI 0x37 f3 f7" "op_fields AUIPC 0x17 f3 f7"
  "op_fields JAL 0x6F f3 f7" "op_fields JALR 0x67 0 f7" "op_fields ECALL 0x73 f3 f7"
  "op_fields EBREAK 0x73 f3 f7"
  by (use word3_cases [of f3] in \<open>elim disjE; simp add: op_tables op_fields_def encode_simps\<close>)+

lemma decode_op_fields:
  assumes "ins_op (decode (mkword opc rd f3 rs1 rs2 f7)) \<noteq> ILLEGAL"
    "ins_op (decode (mkword opc rd f3 rs1 rs2 f7)) \<noteq> FENCE"
  shows "op_fields (ins_op (decode (mkword opc rd f3 rs1 rs2 f7))) opc f3 f7"
  using decode_opc_cases [OF assms(1)] assms unfolding decode_mkword_op
  by (elim disjE) (simp_all add: op_fields_tables split: if_splits)


lemma decode_imm_word:
  assumes "ins_op (decode (mkword opc rd f3 rs1 rs2 f7)) = x" "op_fields x opc f3 f7"
    "x \<noteq> ILLEGAL" "x \<noteq> FENCE"
  shows "ins_imm (decode (mkword opc rd f3 rs1 rs2 f7)) =
    (case fmt_of x of
       FmtI \<Rightarrow> immI (mkword opc rd f3 rs1 rs2 f7) | FmtS \<Rightarrow> immS (mkword opc rd f3 rs1 rs2 f7)
     | FmtB \<Rightarrow> immB (mkword opc rd f3 rs1 rs2 f7) | FmtU \<Rightarrow> immU (mkword opc rd f3 rs1 rs2 f7)
     | FmtJ \<Rightarrow> immJ (mkword opc rd f3 rs1 rs2 f7) | FmtShift \<Rightarrow> ucast (ucast rs2 :: u8)
     | _ \<Rightarrow> 0)"
  using assms(2-4)
  by (cases x; simp add: op_fields_def encode_simps decode_simps mkword_fields opcode_eqs
      ucast_5_32_8 if_distrib [of ins_imm] cong: if_cong)

lemma encode_decode_word:
  assumes legal: "ins_op (decode w) \<noteq> ILLEGAL" "ins_op (decode w) \<noteq> FENCE"
  shows "encode (ins_op (decode w)) (ucast (ins_rd (decode w))) (ucast (ins_rs1 (decode w)))
           (ucast (ins_rs2 (decode w))) (ins_imm (decode w)) = w \<and>
         imm_ok (ins_op (decode w)) (ins_imm (decode w))"
proof -
  obtain opc rd f3 rs1 rs2 f7 where w: "w = mkword opc rd f3 rs1 rs2 f7"
    by (rule mkword_exhaust)
  define x where "x = ins_op (decode w)"
  have fields: "op_fields x opc f3 f7"
    using decode_op_fields legal by (simp add: x_def w)
  have regs: "ucast (ins_rd (decode w)) = rd" "ucast (ins_rs1 (decode w)) = rs1"
    "ucast (ins_rs2 (decode w)) = rs2"
    by (simp_all add: w decode_mkword_regs ucast_5_8_5)
  have imm: "ins_imm (decode w) =
    (case fmt_of x of FmtI \<Rightarrow> immI w | FmtS \<Rightarrow> immS w | FmtB \<Rightarrow> immB w | FmtU \<Rightarrow> immU w
     | FmtJ \<Rightarrow> immJ w | FmtShift \<Rightarrow> ucast (ucast rs2 :: u8) | _ \<Rightarrow> 0)"
    unfolding w by (rule decode_imm_word) (use fields legal in \<open>simp_all add: x_def w\<close>)
  have sys: "mkword opc rd f3 rs1 rs2 f7 = (if x = EBREAK then 0x100073 else 0x73)"
    if fmt: "fmt_of x = FmtSys"
  proof -
    have "x \<in> {FENCE, ECALL, EBREAK, ILLEGAL}"
      using fmt by (cases x) (simp_all add: fmt_of_def class_defs)
    with legal have x: "x = ECALL \<or> x = EBREAK" by (auto simp: x_def)
    with fields have "opc = 0x73" by (auto simp: op_fields_def encode_simps)
    with x legal show ?thesis
      by (auto simp: x_def w decode_mkword_op split: if_splits)
  qed
  have shamt: "ucast (ucast (ucast rs2 :: u8) :: u32) = rs2"
    by (rule bit_word_eqI) (simp add: bit_simps)
  have shamt_ok: "take_bit 5 (ucast (ucast rs2 :: u8)) = (ucast (ucast rs2 :: u8) :: u32)"
    by (rule bit_word_eqI) (auto simp: bit_simps dest: bit_imp_le_length)
  have sys_word: "mkword (opcode_of x) 0 0 0 (if x = EBREAK then 1 else 0) 0
      = mkword opc rd f3 rs1 rs2 f7" if fmt: "fmt_of x = FmtSys"
  proof -
    have "x \<in> {FENCE, ECALL, EBREAK, ILLEGAL}"
      using fmt by (cases x) (simp_all add: fmt_of_def class_defs)
    with legal have "x = ECALL \<or> x = EBREAK" by (auto simp: x_def)
    then have "opcode_of x = 0x73" by (auto simp: encode_simps)
    with sys [OF fmt] show ?thesis by (simp add: mkword_sys)
  qed
  show ?thesis
    unfolding x_def [symmetric] regs imm
    using fields sys_word
    by (cases "fmt_of x")
      (simp_all add: encode_def imm_ok_def op_fields_def w imm_fields imm_ok_bits shamt shamt_ok)
qed

section \<open>What the decoder guarantees\<close>

text \<open>
  C14. Decoding inverts encoding: for every operation and every immediate its format can
  hold, \<^verbatim>\<open>decode\<close> recovers the operation and the immediate exactly, keeps the raw word,
  and recovers each register specifier that the operation really uses.
\<close>

theorem decode_encode:
  assumes "x \<noteq> ILLEGAL" "imm_ok x imm"
  shows "ins_op (decode (encode x rd rs1 rs2 imm)) = x
       \<and> ins_imm (decode (encode x rd rs1 rs2 imm)) = imm
       \<and> ins_raw (decode (encode x rd rs1 rs2 imm)) = encode x rd rs1 rs2 imm
       \<and> (writesRd x \<longrightarrow> ins_rd (decode (encode x rd rs1 rs2 imm)) = ucast rd)
       \<and> (usesRs1 x \<longrightarrow> ins_rs1 (decode (encode x rd rs1 rs2 imm)) = ucast rs1)
       \<and> (usesRs2 x \<longrightarrow> ins_rs2 (decode (encode x rd rs1 rs2 imm)) = ucast rs2)"
  using assms
  by (simp add: decode_encode_op decode_encode_imm decode_mkword_regs decode_encode_regs)

theorem decode_encode_witness:
  "imm_ok BLTU (- 6) \<and> encode BLTU 0 10 11 (- 6) = 0xFEB56DE3
   \<and> ins_op (decode 0xFEB56DE3) = BLTU \<and> ins_imm (decode 0xFEB56DE3) = - 6"
proof -
  have ok: "imm_ok BLTU (- 6)" by (simp add: imm_ok_def encode_simps)
  have enc: "encode BLTU 0 10 11 (- 6) = 0xFEB56DE3"
    by (simp add: encode_simps mkword_def)
  from decode_encode [of BLTU "- 6" 0 10 11] ok enc show ?thesis by simp
qed

lemma table_no_fence:
  "kBranch ! unat (funct3 w) \<noteq> FENCE" "kLoad ! unat (funct3 w) \<noteq> FENCE" "kStore ! unat (funct3 w) \<noteq> FENCE"
  "kOp ! unat (funct3 w) \<noteq> FENCE" "kOpAlt ! unat (funct3 w) \<noteq> FENCE" "kMulDiv ! unat (funct3 w) \<noteq> FENCE"
  "decode_opimm w \<noteq> FENCE"
proof -
  have "funct3 w = take_bit 3 (drop_bit 12 w)" by (simp add: funct3_def take_bit_eq_mask mask_eq_exp_minus_1)
  then have f: "unat (funct3 w) < 8"
    using take_bit_nat_less_exp [of 3 "unat (drop_bit 12 w)"] by (simp add: unsigned_take_bit_eq)
  have no: "xs ! unat (funct3 w) \<noteq> FENCE" if "FENCE \<notin> set xs" "length xs = 8" for xs
    using that f nth_mem [of "unat (funct3 w)" xs] by metis
  show "kBranch ! unat (funct3 w) \<noteq> FENCE" "kLoad ! unat (funct3 w) \<noteq> FENCE" "kStore ! unat (funct3 w) \<noteq> FENCE"
    "kOp ! unat (funct3 w) \<noteq> FENCE" "kOpAlt ! unat (funct3 w) \<noteq> FENCE" "kMulDiv ! unat (funct3 w) \<noteq> FENCE"
    by (rule no; simp add: op_tables)+
  have "kOpImm ! unat (funct3 w) \<noteq> FENCE" by (rule no) (simp_all add: op_tables)
  then show "decode_opimm w \<noteq> FENCE" by (auto simp: decode_opimm_def Let_def split: if_splits)
qed

lemma decode_fence: "ins_op (decode w) = FENCE \<longleftrightarrow> w AND 0x7F = 0x0F"
  using table_no_fence [of w] by (simp add: decode_def Let_def instr0_def)

text \<open>
  C15. What the decoder accepts, exactly.  Every word whose opcode is \<^verbatim>\<open>0x0F\<close> decodes to
  \<^verbatim>\<open>FENCE\<close>, whatever its other bits are, and no other word does; apart from these the
  accepted words are exactly the encodings of the instruction formats, each of them the encoding
  of its own decoded fields, with an immediate its format can hold.  So no reserved funct3 or
  funct7 pattern of another opcode is taken for an instruction, and outside \<^verbatim>\<open>FENCE\<close> no two words
  decode to the same instruction.
\<close>

theorem encode_decode:
  "(ins_op (decode w) = FENCE \<longleftrightarrow> w AND 0x7F = 0x0F) \<and>
   (ins_op (decode w) \<noteq> ILLEGAL \<longleftrightarrow> w AND 0x7F = 0x0F \<or>
     (\<exists>x rd rs1 rs2 imm. x \<noteq> ILLEGAL \<and> imm_ok x imm \<and> w = encode x rd rs1 rs2 imm)) \<and>
   (ins_op (decode w) \<notin> {ILLEGAL, FENCE} \<longrightarrow>
     imm_ok (ins_op (decode w)) (ins_imm (decode w)) \<and>
     encode (ins_op (decode w)) (ucast (ins_rd (decode w))) (ucast (ins_rs1 (decode w)))
       (ucast (ins_rs2 (decode w))) (ins_imm (decode w)) = w)"
proof -
  let ?x = "ins_op (decode w)"
  have enc: "imm_ok ?x (ins_imm (decode w)) \<and> encode ?x (ucast (ins_rd (decode w))) (ucast (ins_rs1 (decode w)))
       (ucast (ins_rs2 (decode w))) (ins_imm (decode w)) = w" if "?x \<notin> {ILLEGAL, FENCE}"
    using encode_decode_word [of w] that by simp
  have "\<exists>x rd rs1 rs2 imm. x \<noteq> ILLEGAL \<and> imm_ok x imm \<and> w = encode x rd rs1 rs2 imm"
    if "?x \<noteq> ILLEGAL" "w AND 0x7F \<noteq> 0x0F"
    using enc that decode_fence [of w] by (metis empty_iff insert_iff)
  then show ?thesis using enc decode_fence [of w] decode_encode_op by auto
qed

theorem encode_decode_witness:
  "ins_op (decode 0x40B50533) = SUB \<and>
   encode SUB (ucast (ins_rd (decode 0x40B50533))) (ucast (ins_rs1 (decode 0x40B50533)))
     (ucast (ins_rs2 (decode 0x40B50533))) (ins_imm (decode 0x40B50533)) = 0x40B50533"
proof -
  have "ins_op (decode 0x40B50533) = SUB"
    by (simp add: decode_simps funct3_def funct7_def)
  with encode_decode [of "0x40B50533"] show ?thesis by simp
qed

end
