(* ===== verification/Execute.thy ===== *)
theory Execute
  imports Decode "HOL-Library.Signed_Division"
begin

text \<open>
  Model of \<^verbatim>\<open>isa/execute.cpp\<close>: the timing-free result of one instruction.  The C++
  operators that have undefined behaviour (over-wide shifts, division by zero and
  \<^verbatim>\<open>INT_MIN / -1\<close>, signed 64-bit overflow) return \<open>None\<close> there, so that the absence of
  undefined behaviour is a theorem about \<^verbatim>\<open>execute\<close> and not a convention.
\<close>

section \<open>C++ operators with undefined behaviour\<close>

definition c_shl :: "u32 \<Rightarrow> u32 \<Rightarrow> u32 option" where
  "c_shl a n = (if n < 32 then Some (push_bit (unat n) a) else None)"

definition c_shr :: "u32 \<Rightarrow> u32 \<Rightarrow> u32 option" where
  "c_shr a n = (if n < 32 then Some (drop_bit (unat n) a) else None)"

definition c_sar :: "u32 \<Rightarrow> u32 \<Rightarrow> u32 option" where
  "c_sar a n = (if n < 32 then Some (signed_drop_bit (unat n) a) else None)"

definition c_sdiv :: "u32 \<Rightarrow> u32 \<Rightarrow> u32 option" where
  "c_sdiv a b =
     (if b = 0 \<or> (a = 0x80000000 \<and> b = - 1) then None
      else Some (word_of_int (sint a sdiv sint b)))"

definition c_smod :: "u32 \<Rightarrow> u32 \<Rightarrow> u32 option" where
  "c_smod a b =
     (if b = 0 \<or> (a = 0x80000000 \<and> b = - 1) then None
      else Some (word_of_int (sint a smod sint b)))"

definition c_udiv :: "u32 \<Rightarrow> u32 \<Rightarrow> u32 option" where
  "c_udiv a b = (if b = 0 then None else Some (a div b))"

definition c_umod :: "u32 \<Rightarrow> u32 \<Rightarrow> u32 option" where
  "c_umod a b = (if b = 0 then None else Some (a mod b))"

text \<open>Signed 64-bit multiplication, and the high half of a 64-bit product.\<close>

definition c_smul64 :: "u64 \<Rightarrow> u64 \<Rightarrow> u64 option" where
  "c_smul64 x y =
     (let p = sint x * sint y
      in if - (2 ^ 63) \<le> p \<and> p < 2 ^ 63 then Some (word_of_int p) else None)"

section \<open>The result of an instruction\<close>

text \<open>\<^verbatim>\<open>struct ExecResult\<close>.\<close>

record exec_result =
  x_value :: u32
  x_redirect :: bool
  x_target :: u32

definition result0 :: exec_result where
  "result0 = \<lparr>x_value = 0, x_redirect = False, x_target = 0\<rparr>"

definition value_of :: "u32 option \<Rightarrow> exec_result option" where
  "value_of v = map_option (\<lambda>v. result0\<lparr>x_value := v\<rparr>) v"

definition bool_word :: "bool \<Rightarrow> u32" where
  "bool_word b = (if b then 1 else 0)"

text \<open>The switch of \<^verbatim>\<open>execute\<close>, before the branch target is filled in.\<close>

definition execute_op :: "instr \<Rightarrow> u32 \<Rightarrow> u32 \<Rightarrow> u32 \<Rightarrow> exec_result option" where
  "execute_op I pc a b =
    (let imm = ins_imm I;
         branch = (\<lambda>taken. Some (result0\<lparr>x_redirect := taken\<rparr>));
         val = (\<lambda>v. value_of (Some v))
     in case ins_op I of
       LUI \<Rightarrow> val imm
     | AUIPC \<Rightarrow> val (pc + imm)
     | JAL \<Rightarrow> Some \<lparr>x_value = pc + 4, x_redirect = True, x_target = pc + imm\<rparr>
     | JALR \<Rightarrow> Some \<lparr>x_value = pc + 4, x_redirect = True, x_target = (a + imm) AND NOT 1\<rparr>
     | BEQ \<Rightarrow> branch (a = b)
     | BNE \<Rightarrow> branch (a \<noteq> b)
     | BLT \<Rightarrow> branch (sint a < sint b)
     | BGE \<Rightarrow> branch (sint a \<ge> sint b)
     | BLTU \<Rightarrow> branch (a < b)
     | BGEU \<Rightarrow> branch (a \<ge> b)
     | LB \<Rightarrow> val (a + imm) | LH \<Rightarrow> val (a + imm) | LW \<Rightarrow> val (a + imm)
     | LBU \<Rightarrow> val (a + imm) | LHU \<Rightarrow> val (a + imm)
     | SB \<Rightarrow> val (a + imm) | SH \<Rightarrow> val (a + imm) | SW \<Rightarrow> val (a + imm)
     | ADDI \<Rightarrow> val (a + imm)
     | SLTI \<Rightarrow> val (bool_word (sint a < sint imm))
     | SLTIU \<Rightarrow> val (bool_word (a < imm))
     | XORI \<Rightarrow> val (a XOR imm)
     | ORI \<Rightarrow> val (a OR imm)
     | ANDI \<Rightarrow> val (a AND imm)
     | SLLI \<Rightarrow> value_of (c_shl a (imm AND 31))
     | SRLI \<Rightarrow> value_of (c_shr a (imm AND 31))
     | SRAI \<Rightarrow> value_of (c_sar a (imm AND 31))
     | ADD \<Rightarrow> val (a + b)
     | SUB \<Rightarrow> val (a - b)
     | SLL \<Rightarrow> value_of (c_shl a (b AND 31))
     | SLT \<Rightarrow> val (bool_word (sint a < sint b))
     | SLTU \<Rightarrow> val (bool_word (a < b))
     | XOR_op \<Rightarrow> val (a XOR b)
     | SRL \<Rightarrow> value_of (c_shr a (b AND 31))
     | SRA \<Rightarrow> value_of (c_sar a (b AND 31))
     | OR_op \<Rightarrow> val (a OR b)
     | AND_op \<Rightarrow> val (a AND b)
     | MUL \<Rightarrow> val (a * b)
     | MULH \<Rightarrow> value_of (map_option (\<lambda>p. ucast (signed_drop_bit 32 p))
                             (c_smul64 (scast a) (scast b)))
     | MULHSU \<Rightarrow> value_of (map_option (\<lambda>p. ucast (signed_drop_bit 32 p))
                             (c_smul64 (scast a) (ucast b)))
     | MULHU \<Rightarrow> val (ucast (drop_bit 32 ((ucast a :: u64) * ucast b)))
     | DIV \<Rightarrow> if b = 0 then val 0xFFFFFFFF
              else if a = 0x80000000 \<and> sint b = - 1 then val a
              else value_of (c_sdiv a b)
     | DIVU \<Rightarrow> if b = 0 then val 0xFFFFFFFF else value_of (c_udiv a b)
     | REM \<Rightarrow> if b = 0 then val a
              else if a = 0x80000000 \<and> sint b = - 1 then val 0
              else value_of (c_smod a b)
     | REMU \<Rightarrow> if b = 0 then val a else value_of (c_umod a b)
     | FENCE \<Rightarrow> Some result0 | ECALL \<Rightarrow> Some result0 | EBREAK \<Rightarrow> Some result0
     | ILLEGAL \<Rightarrow> Some result0)"

definition execute :: "instr \<Rightarrow> u32 \<Rightarrow> u32 \<Rightarrow> u32 \<Rightarrow> exec_result option" where
  "execute I pc a b =
     map_option
       (\<lambda>out. if isBranch (ins_op I) \<and> x_redirect out
              then out\<lparr>x_target := pc + ins_imm I\<rparr> else out)
       (execute_op I pc a b)"

section \<open>No undefined behaviour\<close>

lemma and_31_less: "(v :: u32) AND 31 < 32"
proof -
  have "v AND 31 \<le> 31" by (rule word_and_le1)
  then show ?thesis by (rule order.strict_trans1) simp
qed

lemma sint_range32: "- (2 ^ 31) \<le> sint (w :: u32)" "sint (w :: u32) < 2 ^ 31"
  using sint_ge [of w] sint_lt [of w] by simp_all

lemma uint_range32: "0 \<le> uint (w :: u32)" "uint (w :: u32) < 2 ^ 32"
proof -
  have "uint w < 2 ^ LENGTH(32)" by (rule unsigned_less)
  then show "0 \<le> uint w" "uint w < 2 ^ 32" by simp_all
qed

lemma sint_of_int32:
  "- (2 ^ 31) \<le> k \<Longrightarrow> k < 2 ^ 31 \<Longrightarrow> sint (word_of_int k :: u32) = k"
  by (simp add: sint_sbintrunc' signed_take_bit_int_eq_self)

lemma sint_of_int64:
  "- (2 ^ 63) \<le> k \<Longrightarrow> k < 2 ^ 63 \<Longrightarrow> sint (word_of_int k :: u64) = k"
  by (simp add: sint_sbintrunc' signed_take_bit_int_eq_self)

text \<open>The conversions \<^verbatim>\<open>(int64_t)sa\<close> and \<^verbatim>\<open>(int64_t)(uint64_t)b\<close> keep the value.\<close>

lemma sint_widen_signed: "sint (scast (a :: u32) :: u64) = sint a"
  by (rule sint_up_scast) (simp add: is_up)

lemma sint_widen_unsigned: "sint (ucast (b :: u32) :: u64) = uint b"
proof -
  have b: "0 \<le> uint b" "uint b < 2 ^ 32" by (rule uint_range32)+
  have "uint (ucast b :: u64) = uint b"
    unfolding unsigned_ucast_eq by (rule take_bit_int_eq_self) (use b in simp_all)
  moreover have "signed_take_bit 63 (uint b) = uint b"
    by (rule signed_take_bit_int_eq_self, rule order_trans [OF _ b(1)]) (use b(2) in simp_all)
  ultimately show ?thesis by (simp add: sint_uint)
qed

lemma mul_bound:
  assumes "- (2 ^ 31) \<le> (x :: int)" "x < 2 ^ 31" "- (2 ^ 31) \<le> y" "y < 2 ^ 32"
  shows "- (2 ^ 63) \<le> x * y \<and> x * y < 2 ^ 63"
proof -
  have "\<bar>x * y\<bar> \<le> 2 ^ 31 * (2 ^ 32 - 1)"
    unfolding abs_mult by (rule mult_mono) (use assms in auto)
  then have "x * y \<le> 2 ^ 31 * (2 ^ 32 - 1)" "- (x * y) \<le> 2 ^ 31 * (2 ^ 32 - 1)"
    by (simp_all add: abs_le_iff)
  then show ?thesis by simp
qed

lemma smul64_signed:
  "c_smul64 (scast (a :: u32)) (scast (b :: u32)) = Some (word_of_int (sint a * sint b))"
  using mul_bound [of "sint a" "sint b"] sint_range32 [of a] sint_range32 [of b]
  by (simp add: c_smul64_def sint_widen_signed)

lemma smul64_mixed:
  "c_smul64 (scast (a :: u32)) (ucast (b :: u32)) = Some (word_of_int (sint a * uint b))"
  using mul_bound [of "sint a" "uint b"] sint_range32 [of a] uint_range32 [of b]
  by (simp add: c_smul64_def sint_widen_signed sint_widen_unsigned)

lemma sint_eq_word: "sint (v :: u32) = sint w \<longleftrightarrow> v = w"
  by (rule word_eq_iff_signed [symmetric])

lemma sint_minus1: "sint (b :: u32) = - 1 \<longleftrightarrow> b = - 1"
  using sint_eq_word [of b "- 1"] by simp

lemma shifts_defined:
  "c_shl a (n AND 31) = Some (push_bit (unat (n AND 31)) a)"
  "c_shr a (n AND 31) = Some (drop_bit (unat (n AND 31)) a)"
  "c_sar a (n AND 31) = Some (signed_drop_bit (unat (n AND 31)) a)"
  by (simp_all add: c_shl_def c_shr_def c_sar_def and_31_less)

lemma value_of_Some [simp]: "value_of (Some v) = Some (result0\<lparr>x_value := v\<rparr>)"
  by (simp add: value_of_def)

lemma execute_op_defined: "\<exists>r. execute_op I pc a b = Some r"
  by (cases "ins_op I")
    (simp_all add: execute_op_def shifts_defined smul64_signed smul64_mixed c_sdiv_def c_smod_def
      c_udiv_def c_umod_def sint_minus1)

lemma execute_total: "\<exists>r. execute I pc a b = Some r"
  using execute_op_defined [of I pc a b] by (auto simp: execute_def)


text \<open>
  C16. No instruction has undefined behaviour: whatever the word decoded, the program
  counter and the operands are, no shift is over-wide, no division traps or overflows, and
  no signed product overflows 64 bits.
\<close>

theorem execute_defined: "\<exists>r. execute I pc a b = Some r"
  by (rule execute_total)

section \<open>Division\<close>

lemma sdiv_smod_ranges:
  fixes a b :: u32
  assumes "b \<noteq> 0" "\<not> (a = 0x80000000 \<and> b = - 1)"
  shows "sint (word_of_int (sint a sdiv sint b) :: u32) = sint a sdiv sint b"
    and "sint (word_of_int (sint a smod sint b) :: u32) = sint a smod sint b"
proof -
  have a: "- (2 ^ 31) \<le> sint a" "sint a < 2 ^ 31" and b: "- (2 ^ 31) \<le> sint b" "sint b < 2 ^ 31"
    using sint_range32 [of a] sint_range32 [of b] by simp_all
  have b0: "sint b \<noteq> 0" using assms(1) sint_eq_word [of b 0] by simp
  have m: "- \<bar>sint b\<bar> + 1 \<le> sint a smod sint b" "sint a smod sint b \<le> \<bar>sint b\<bar> - 1"
    using smod_int_range [OF b0, of "sint a"] by simp_all
  show "sint (word_of_int (sint a smod sint b) :: u32) = sint a smod sint b"
    by (rule sint_of_int32) (use m b in linarith)+
  have q: "- \<bar>sint a\<bar> \<le> sint a sdiv sint b" "sint a sdiv sint b \<le> \<bar>sint a\<bar>"
    using sdiv_int_range [of "sint a" "sint b"] by simp_all
  have "sint a sdiv sint b \<noteq> 2 ^ 31"
  proof
    assume eq: "sint a sdiv sint b = 2 ^ 31"
    with q a have mn: "sint a = - (2 ^ 31)" by linarith
    with eq have "sint a sdiv sint b = - sint a" by simp
    moreover have "sint a \<noteq> 0" using mn by simp
    ultimately have "sint b = - 1" by (metis int_sdiv_negated_is_minus1)
    moreover have "a = 0x80000000" using mn sint_eq_word [of a "0x80000000"] by simp
    ultimately show False using assms(2) by (simp add: sint_minus1)
  qed
  then show "sint (word_of_int (sint a sdiv sint b) :: u32) = sint a sdiv sint b"
    by (intro sint_of_int32) (use q a in linarith)+
qed


text \<open>The result word of an operation, for fixed operands.\<close>

definition op_value :: "op \<Rightarrow> u32 \<Rightarrow> u32 \<Rightarrow> u32" where
  "op_value x a b =
     (case execute (instr0\<lparr>ins_op := x\<rparr>) 0 a b of Some r \<Rightarrow> x_value r | None \<Rightarrow> 0)"

lemma op_value_div:
  "op_value DIV a b = (if b = 0 then - 1 else if a = 0x80000000 \<and> b = - 1 then a
     else word_of_int (sint a sdiv sint b))"
  "op_value REM a b = (if b = 0 then a else if a = 0x80000000 \<and> b = - 1 then 0
     else word_of_int (sint a smod sint b))"
  "op_value DIVU a b = (if b = 0 then - 1 else a div b)"
  "op_value REMU a b = (if b = 0 then a else a mod b)"
  by (simp_all add: op_value_def execute_def execute_op_def instr0_def result0_def class_defs
      c_sdiv_def c_smod_def c_udiv_def c_umod_def sint_minus1)

lemma uint_pos: "(b :: u32) \<noteq> 0 \<Longrightarrow> 0 < uint b"
  using uint_range32(1) [of b] unsigned_eq_0_iff [of b] by (simp add: less_le)

lemma sgn_smod: "(x :: int) smod y = 0 \<or> sgn (x smod y) = sgn x"
proof (cases "\<bar>x\<bar> mod \<bar>y\<bar> = 0")
  case False
  then have "0 < \<bar>x\<bar> mod \<bar>y\<bar>"
    by (metis abs_ge_zero abs_zero less_le mod_by_0 pos_mod_sign zero_less_abs_iff)
  then show ?thesis by (simp add: signed_modulo_int_def sgn_mult)
qed (simp add: signed_modulo_int_def)

text \<open>
  C17. Division follows the RISC-V rules: with a non-zero divisor and no overflow, quotient
  and remainder are those of the signed division that rounds towards zero (the remainder is
  smaller than the divisor and takes the sign of the dividend); division by zero gives all
  ones and the dividend, the overflow of the most negative number by minus one gives the
  dividend and zero; and the unsigned pair is the Euclidean division.
\<close>

theorem division_results:
  "(if b = 0 then op_value DIV a b = - 1 \<and> op_value REM a b = a
    else if sint a = - (2 ^ 31) \<and> sint b = - 1 then op_value DIV a b = a \<and> op_value REM a b = 0
    else sint a = sint (op_value DIV a b) * sint b + sint (op_value REM a b)
       \<and> \<bar>sint (op_value REM a b)\<bar> < \<bar>sint b\<bar>
       \<and> (op_value REM a b = 0 \<or> sgn (sint (op_value REM a b)) = sgn (sint a)))
   \<and> (if b = 0 then op_value DIVU a b = - 1 \<and> op_value REMU a b = a
      else uint a = uint (op_value DIVU a b) * uint b + uint (op_value REMU a b)
         \<and> uint (op_value REMU a b) < uint b)"
proof -
  have mn: "sint a = - (2 ^ 31) \<longleftrightarrow> a = 0x80000000"
    using sint_eq_word [of a "0x80000000"] by simp
  have u: "b \<noteq> 0 \<Longrightarrow> uint a = uint (a div b) * uint b + uint (a mod b) \<and> uint (a mod b) < uint b"
    by (simp add: uint_div_distrib uint_mod_distrib uint_pos)
  have s: "sint a = sint (op_value DIV a b) * sint b + sint (op_value REM a b)
       \<and> \<bar>sint (op_value REM a b)\<bar> < \<bar>sint b\<bar>
       \<and> (op_value REM a b = 0 \<or> sgn (sint (op_value REM a b)) = sgn (sint a))"
    if b: "b \<noteq> 0" and ov: "\<not> (a = 0x80000000 \<and> b = - 1)"
  proof -
    have r: "sint (op_value DIV a b) = sint a sdiv sint b"
      "sint (op_value REM a b) = sint a smod sint b"
      using b ov by (simp_all only: op_value_div if_False sdiv_smod_ranges [OF b ov])
    have "sint b \<noteq> 0" using b sint_eq_word [of b 0] by simp
    from smod_int_range [OF this, of "sint a"] have "\<bar>sint a smod sint b\<bar> < \<bar>sint b\<bar>" by auto
    moreover have "op_value REM a b = 0 \<longleftrightarrow> sint a smod sint b = 0"
      using r(2) sint_eq_word [of "op_value REM a b" 0] by simp
    ultimately show ?thesis
      using sgn_smod [of "sint a" "sint b"] sdiv_mult_smod_eq [of "sint a" "sint b"]
      by (auto simp: r)
  qed
  show ?thesis
  proof (cases "b = 0")
    case True
    then show ?thesis by (simp add: op_value_div)
  next
    case nz: False
    have u': "uint a = uint (op_value DIVU a b) * uint b + uint (op_value REMU a b)
         \<and> uint (op_value REMU a b) < uint b"
      using u [OF nz] nz by (simp add: op_value_div(3,4))
    show ?thesis
    proof (cases "a = 0x80000000 \<and> b = - 1")
      case True
      then show ?thesis using u' by (simp add: op_value_div(1,2))
    next
      case False
      then have ov: "\<not> (sint a = - (2 ^ 31) \<and> sint b = - 1)" by (simp only: mn sint_minus1) simp
      from s [OF nz False] u' show ?thesis
        unfolding if_not_P [OF nz] if_not_P [OF ov] by blast
    qed
  qed
qed


section \<open>Multiplication\<close>

lemma op_value_mul:
  "op_value MUL a b = a * b"
  "op_value MULH a b = ucast (signed_drop_bit 32 (word_of_int (sint a * sint b) :: u64))"
  "op_value MULHSU a b = ucast (signed_drop_bit 32 (word_of_int (sint a * uint b) :: u64))"
  "op_value MULHU a b = ucast (drop_bit 32 ((ucast a :: u64) * ucast b))"
  by (simp_all add: op_value_def execute_def execute_op_def instr0_def result0_def class_defs
      smul64_signed smul64_mixed)

text \<open>The high half of a signed 64-bit product, with the low half, is the product.\<close>

lemma high_low_signed:
  assumes "- (2 ^ 63) \<le> (p :: int)" "p < 2 ^ 63"
  shows "sint (ucast (signed_drop_bit 32 (word_of_int p :: u64)) :: u32) = p div 2 ^ 32"
proof -
  have d: "- (2 ^ 31) \<le> p div 2 ^ 32" "p div 2 ^ 32 < 2 ^ 31"
    using assms by auto
  have "sint (signed_drop_bit 32 (word_of_int p :: u64)) = p div 2 ^ 32"
    by (simp add: sint_signed_drop_bit_eq sint_of_int64 [OF assms] drop_bit_eq_div)
  then have "signed_drop_bit 32 (word_of_int p :: u64) = word_of_int (p div 2 ^ 32)"
    using of_int_sint [of "signed_drop_bit 32 (word_of_int p :: u64)", where ?'a = "64 word"] by simp
  then have "(ucast (signed_drop_bit 32 (word_of_int p :: u64)) :: u32) = word_of_int (p div 2 ^ 32)"
    by (simp add: ucast_down_wi is_down)
  then show ?thesis by (simp only: sint_of_int32 [OF d])
qed


lemma word_of_int_mod: "(word_of_int p :: u32) = word_of_int q \<longleftrightarrow> p mod 2 ^ 32 = q mod 2 ^ 32"
  by (simp add: word_of_int_eq_iff take_bit_eq_mod)

lemma low_half:
  "uint (a * b :: u32) = sint a * sint b mod 2 ^ 32"
  "uint (a * b :: u32) = sint a * uint b mod 2 ^ 32"
  "uint (a * b :: u32) = uint a * uint b mod 2 ^ 32"
proof -
  have u: "uint (word_of_int k :: u32) = k mod 2 ^ 32" for k
    by (simp add: uint_word_of_int_eq take_bit_eq_mod)
  have p: "a * b = word_of_int (sint a * sint b)" "a * b = word_of_int (sint a * uint b)"
    "a * b = word_of_int (uint a * uint b)"
    by simp_all
  show "uint (a * b) = sint a * sint b mod 2 ^ 32"
    using arg_cong [OF p(1), of uint] by (simp only: u)
  show "uint (a * b) = sint a * uint b mod 2 ^ 32"
    using arg_cong [OF p(2), of uint] by (simp only: u)
  show "uint (a * b) = uint a * uint b mod 2 ^ 32"
    using arg_cong [OF p(3), of uint] by (simp only: u)
qed

lemma high_unsigned:
  "uint (ucast (drop_bit 32 ((ucast a :: u64) * ucast b)) :: u32) = uint (a :: u32) * uint (b :: u32) div 2 ^ 32"
proof -
  have a: "0 \<le> uint a" "uint a < 2 ^ 32" and b: "0 \<le> uint b" "uint b < 2 ^ 32"
    using uint_range32 [of a] uint_range32 [of b] by simp_all
  have lt: "uint a * uint b < 2 ^ 32 * 2 ^ 32"
    by (rule mult_strict_mono) (use a b in auto)
  have wide: "uint (ucast v :: u64) = uint v" for v :: u32
    unfolding unsigned_ucast_eq
    by (rule take_bit_int_eq_self) (use uint_range32 [of v] in simp_all)
  have tb: "take_bit 64 (uint a * uint b) = uint a * uint b"
    by (rule take_bit_int_eq_self) (use lt a b in simp_all)
  have "uint ((ucast a :: u64) * ucast b) = uint a * uint b"
    by (simp add: uint_word_ariths wide) (use lt a b in \<open>simp add: mod_pos_pos_trivial\<close>)
  then have "uint (drop_bit 32 ((ucast a :: u64) * ucast b)) = uint a * uint b div 2 ^ 32"
    by (subst unsigned_drop_bit_eq) (simp add: drop_bit_eq_div tb)
  moreover have "uint a * uint b div 2 ^ 32 < 2 ^ 32" using lt by auto
  ultimately show ?thesis
    using a b by (simp add: unsigned_ucast_eq take_bit_int_eq_self pos_imp_zdiv_nonneg_iff)
qed

text \<open>
  C18. The four multiplications together give the exact 64-bit products: the low half is the
  same for all of them, and \<^verbatim>\<open>MULH\<close>, \<^verbatim>\<open>MULHSU\<close>, \<^verbatim>\<open>MULHU\<close> are the high halves of the
  signed, mixed and unsigned product.
\<close>

theorem multiplication_results:
  "sint (op_value MULH a b) * 2 ^ 32 + uint (op_value MUL a b) = sint a * sint b
   \<and> sint (op_value MULHSU a b) * 2 ^ 32 + uint (op_value MUL a b) = sint a * uint b
   \<and> uint (op_value MULHU a b) * 2 ^ 32 + uint (op_value MUL a b) = uint a * uint b"
proof -
  have s: "- (2 ^ 63) \<le> sint a * sint b \<and> sint a * sint b < 2 ^ 63"
    "- (2 ^ 63) \<le> sint a * uint b \<and> sint a * uint b < 2 ^ 63"
    using mul_bound [of "sint a" "sint b"] mul_bound [of "sint a" "uint b"]
      sint_range32 [of a] sint_range32 [of b] uint_range32 [of b] by simp_all
  have "sint (op_value MULH a b) = sint a * sint b div 2 ^ 32"
    "sint (op_value MULHSU a b) = sint a * uint b div 2 ^ 32"
    "uint (op_value MULHU a b) = uint a * uint b div 2 ^ 32"
    using s by (simp_all only: op_value_mul high_low_signed high_unsigned)
  then show ?thesis
    using low_half [of a b] by (simp only: op_value_mul(1)) (metis div_mult_mod_eq)
qed

section \<open>Operands\<close>

lemma execute_op_operands:
  "\<not> usesRs1 (ins_op I) \<Longrightarrow> execute_op I pc a b = execute_op I pc a' b"
  "\<not> usesRs2 (ins_op I) \<Longrightarrow> execute_op I pc a b = execute_op I pc a b'"
  by (cases "ins_op I"; simp add: execute_op_def class_defs)+

text \<open>
  \<^verbatim>\<open>execute\<close> ignores the operands an operation does not use: the core reads whatever
  the rename map holds for an unused specifier, the reference model passes zero, and both
  get the same result.
\<close>

theorem execute_ignores_unused:
  "execute I pc a b =
   execute I pc (if usesRs1 (ins_op I) then a else a') (if usesRs2 (ins_op I) then b else b')"
  using execute_op_operands(1) [of I pc a b a'] execute_op_operands(1) [of I pc a b' a'] execute_op_operands(2) [of I pc a b b']
    execute_op_operands(2) [of I pc a' b b']
  by (simp add: execute_def)

end
