(* ===== verification/Flat_Memory.thy ===== *)
theory Flat_Memory
  imports Isa
begin

text \<open>
  Model of \<^verbatim>\<open>memory/memory.h\<close>: the flat, byte-addressable, little-endian backing store
  shared by the timed memory system and the reference model.
\<close>

section \<open>State and range check\<close>

record memory =
  bytes :: "u8 list"

text \<open>\<^verbatim>\<open>Memory(size)\<close>: zero-initialized.\<close>

definition memory_new :: "nat \<Rightarrow> memory" where
  "memory_new n = \<lparr>bytes = replicate n 0\<rparr>"

text \<open>
  \<^verbatim>\<open>check\<close>: the sum is formed in 64 bits, where it cannot wrap, so it is a sum of
  naturals here.
\<close>

definition mem_check :: "memory \<Rightarrow> u32 \<Rightarrow> u32 \<Rightarrow> string \<Rightarrow> unit result" where
  "mem_check m addr len what =
     (if length (bytes m) < unat addr + unat len then Inl (OutOfRange addr what) else Inr ())"

section \<open>Little-endian scalar access\<close>

text \<open>
  The loops over \<^verbatim>\<open>b < size\<close>.  The index \<^verbatim>\<open>a + b\<close> is a 32-bit sum.
\<close>

definition load_bytes :: "u8 list \<Rightarrow> u32 \<Rightarrow> nat \<Rightarrow> u32" where
  "load_bytes bs a n =
     fold (\<lambda>b v. v OR push_bit (8 * b) (ucast (bs ! unat (a + word_of_nat b)))) [0..<n] 0"

definition store_bytes :: "u8 list \<Rightarrow> u32 \<Rightarrow> nat \<Rightarrow> u32 \<Rightarrow> u8 list" where
  "store_bytes bs a n v =
     fold (\<lambda>b bs. bs[unat (a + word_of_nat b) := ucast (drop_bit (8 * b) v)]) [0..<n] bs"

definition mem_load :: "memory \<Rightarrow> u32 \<Rightarrow> u32 \<Rightarrow> u32 result" where
  "mem_load m a sz =
     bind_result (mem_check m a sz ''load'')
       (\<lambda>_. Inr (load_bytes (bytes m) a (unat sz)))"

definition mem_store :: "memory \<Rightarrow> u32 \<Rightarrow> u32 \<Rightarrow> u32 \<Rightarrow> memory result" where
  "mem_store m a sz v =
     bind_result (mem_check m a sz ''store'')
       (\<lambda>_. Inr (m\<lparr>bytes := store_bytes (bytes m) a (unat sz) v\<rparr>))"

definition mem_load8 :: "memory \<Rightarrow> u32 \<Rightarrow> u8 result" where
  "mem_load8 m a = bind_result (mem_load m a 1) (\<lambda>v. Inr (ucast v))"

definition mem_load32 :: "memory \<Rightarrow> u32 \<Rightarrow> u32 result" where
  "mem_load32 m a = mem_load m a 4"

section \<open>Program images\<close>

text \<open>
  \<^verbatim>\<open>loadWords\<close> stores one word after the other; the loop stops at the first word that does
  not fit.  \<open>i\<close> is the index of the next word.
\<close>

primrec loadWords_from :: "nat \<Rightarrow> memory \<Rightarrow> u32 list \<Rightarrow> memory result" where
  "loadWords_from i m [] = Inr m"
| "loadWords_from i m (w # ws) =
     bind_result (mem_store m (word_of_nat (i * 4)) 4 w) (\<lambda>m'. loadWords_from (Suc i) m' ws)"

definition loadWords :: "memory \<Rightarrow> u32 list \<Rightarrow> memory result" where
  "loadWords m ws = loadWords_from 0 m ws"

text \<open>
  \<^verbatim>\<open>loadBytes\<close> checks \<^verbatim>\<open>(uint32_t)image.size()\<close> but copies \<^verbatim>\<open>image.size()\<close> bytes; a copy
  beyond the vector is undefined.
\<close>

definition loadBytes :: "memory \<Rightarrow> u8 list \<Rightarrow> memory result" where
  "loadBytes m img =
     bind_result (mem_check m 0 (word_of_nat (length img)) ''program image'')
       (\<lambda>_. if length (bytes m) < length img then Inl Undefined
             else Inr (m\<lparr>bytes := img @ drop (length img) (bytes m)\<rparr>))"

section \<open>Bytes of an access\<close>

text \<open>
  A memory no larger than the 32-bit address space; then the indices of an access that
  passed the check are consecutive.
\<close>

definition addressable :: "memory \<Rightarrow> bool" where
  "addressable m \<longleftrightarrow> length (bytes m) \<le> 2 ^ 32"

lemma unat_index:
  assumes "unat (a :: u32) + n \<le> 2 ^ 32" "b < n"
  shows "unat (a + word_of_nat b) = unat a + b"
proof -
  have "b < 2 ^ 32" using assms by linarith
  then have "unat (word_of_nat b :: u32) = b"
    by (simp add: unsigned_of_nat take_bit_nat_eq_self)
  then show ?thesis using assms by (simp add: unat_add_small32)
qed

lemma store_bytes_Suc:
  "store_bytes bs a (Suc n) v =
     (store_bytes bs a n v)[unat (a + word_of_nat n) := ucast (drop_bit (8 * n) v)]"
  by (simp add: store_bytes_def)

lemma load_bytes_Suc:
  "load_bytes bs a (Suc n) =
     load_bytes bs a n OR push_bit (8 * n) (ucast (bs ! unat (a + word_of_nat n)))"
  by (simp add: load_bytes_def)

lemma length_store_bytes [simp]: "length (store_bytes bs a n v) = length bs"
  by (induction n) (simp_all add: store_bytes_Suc, simp add: store_bytes_def)

lemma nth_store_bytes:
  assumes "unat a + n \<le> 2 ^ 32" "unat a + n \<le> length bs" "i < length bs"
  shows "store_bytes bs a n v ! i =
    (if unat a \<le> i \<and> i < unat a + n then ucast (drop_bit (8 * (i - unat a)) v) else bs ! i)"
  using assms
proof (induction n)
  case 0
  then show ?case by (auto simp: store_bytes_def)
next
  case (Suc n)
  have "unat (a + word_of_nat n) = unat a + n"
    by (rule unat_index [of a "Suc n"]) (use Suc.prems in simp_all)
  with Suc show ?case by (auto simp: store_bytes_Suc nth_list_update)
qed

lemma bit_load_bytes:
  assumes "unat a + n \<le> 2 ^ 32" "n \<le> 4"
  shows "bit (load_bytes bs a n) k \<longleftrightarrow> k < 8 * n \<and> bit (bs ! (unat a + k div 8)) (k mod 8)"
  using assms
proof (induction n)
  case 0
  then show ?case by (simp add: load_bytes_def)
next
  case (Suc n)
  have idx: "unat (a + word_of_nat n) = unat a + n"
    by (rule unat_index [of a "Suc n"]) (use Suc.prems in simp_all)
  have "bit (push_bit (8 * n) (ucast (bs ! (unat a + n))) :: u32) k \<longleftrightarrow>
      8 * n \<le> k \<and> k < 8 * n + 8 \<and> bit (bs ! (unat a + k div 8)) (k mod 8)"
  proof (cases "8 * n \<le> k \<and> k < 8 * n + 8")
    case True
    then have "k div 8 = n" "k mod 8 = k - 8 * n" by (auto simp: div_nat_eqI modulo_nat_def)
    then show ?thesis using True Suc.prems by (auto simp: bit_simps)
  next
    case False
    then show ?thesis by (auto simp: bit_simps dest: bit_imp_le_length)
  qed
  with Suc show ?case
    by (auto simp: load_bytes_Suc idx bit_or_iff)
qed


lemma mem_load_Inr:
  "mem_load m a sz = Inr v \<longleftrightarrow>
     unat a + unat sz \<le> length (bytes m) \<and> v = load_bytes (bytes m) a (unat sz)"
  by (auto simp: mem_load_def mem_check_def)

lemma mem_store_Inr:
  "mem_store m a sz v = Inr m' \<longleftrightarrow>
     unat a + unat sz \<le> length (bytes m) \<and>
     m' = m\<lparr>bytes := store_bytes (bytes m) a (unat sz) v\<rparr>"
  by (auto simp: mem_store_def mem_check_def)

lemma mem_errors:
  "mem_load m a sz = Inl e \<longleftrightarrow>
     length (bytes m) < unat a + unat sz \<and> e = OutOfRange a ''load''"
  "mem_store m a sz v = Inl e \<longleftrightarrow>
     length (bytes m) < unat a + unat sz \<and> e = OutOfRange a ''store''"
  by (auto simp: mem_load_def mem_store_def mem_check_def)

lemma mem_store_length: "mem_store m a sz v = Inr m' \<Longrightarrow> length (bytes m') = length (bytes m)"
  by (auto simp: mem_store_Inr)

lemma mem_store_nth:
  assumes "addressable m" "mem_store m a sz v = Inr m'" "i < length (bytes m)"
  shows "bytes m' ! i =
    (if unat a \<le> i \<and> i < unat a + unat sz then ucast (drop_bit (8 * (i - unat a)) v)
     else bytes m ! i)"
  using assms by (auto simp: mem_store_Inr addressable_def nth_store_bytes)

text \<open>A load sees the bytes of the memory it reads and nothing else.\<close>

lemma load_bytes_cong:
  assumes "unat a + n \<le> 2 ^ 32" "n \<le> 4" "\<And>b. b < n \<Longrightarrow> bs ! (unat a + b) = cs ! (unat a + b)"
  shows "load_bytes bs a n = load_bytes cs a n"
proof (rule bit_word_eqI)
  fix k
  have "k < 8 * n \<Longrightarrow> k div 8 < n" by (simp add: less_mult_imp_div_less mult.commute)
  then show "bit (load_bytes bs a n) k = bit (load_bytes cs a n) k"
    using assms by (auto simp: bit_load_bytes)
qed

lemma load_after_store:
  assumes ok: "addressable m" "mem_store m a sz v = Inr m'" and sz: "unat sz \<le> 4"
  shows "mem_load m' a sz = Inr (take_bit (8 * unat sz) v)"
proof -
  have fit: "unat a + unat sz \<le> length (bytes m)" "unat a + unat sz \<le> 2 ^ 32"
    using ok by (auto simp: mem_store_Inr addressable_def)
  have "load_bytes (bytes m') a (unat sz) = take_bit (8 * unat sz) v"
  proof (rule bit_word_eqI)
    fix k
    have k: "k < 8 * unat sz \<Longrightarrow> unat a + k div 8 < unat a + unat sz"
      by (simp add: less_mult_imp_div_less mult.commute)
    then have "k < 8 * unat sz \<Longrightarrow> bytes m' ! (unat a + k div 8) = ucast (drop_bit (8 * (k div 8)) v)"
      using mem_store_nth [OF ok, of "unat a + k div 8"] fit by simp
    then show "bit (load_bytes (bytes m') a (unat sz)) k = bit (take_bit (8 * unat sz) v) k"
      using fit sz by (auto simp: bit_load_bytes bit_simps)
  qed
  then show ?thesis using fit ok by (simp add: mem_load_Inr mem_store_length)
qed

lemma load_disjoint_store:
  assumes ok: "addressable m" "mem_store m a sz v = Inr m'"
    and ld: "mem_load m c cz = Inr w" "unat cz \<le> 4"
    and disj: "unat c + unat cz \<le> unat a \<or> unat a + unat sz \<le> unat c"
  shows "mem_load m' c cz = Inr w"
proof -
  have fit: "unat c + unat cz \<le> length (bytes m)" "unat c + unat cz \<le> 2 ^ 32"
    using ok(1) ld(1) by (auto simp: mem_load_Inr addressable_def)
  have "load_bytes (bytes m') c (unat cz) = load_bytes (bytes m) c (unat cz)"
    by (rule load_bytes_cong) (use fit ld disj mem_store_nth [OF ok] in auto)
  then show ?thesis using ld fit ok by (simp add: mem_load_Inr mem_store_length)
qed

text \<open>
  The backing store behaves as memory: an access succeeds exactly when it lies inside;
  a load after a store to the same address and width returns the stored value cut to the
  width; a load of a disjoint range is unaffected; and the size never changes.
\<close>

theorem store_load:
  assumes "addressable m" "unat sz \<le> 4" "unat cz \<le> 4"
  shows "(if length (bytes m) < unat a + unat sz
          then mem_store m a sz v = Inl (OutOfRange a ''store'')
             \<and> mem_load m a sz = Inl (OutOfRange a ''load'')
          else (\<exists>m'. mem_store m a sz v = Inr m'
             \<and> length (bytes m') = length (bytes m)
             \<and> mem_load m' a sz = Inr (take_bit (8 * unat sz) v)
             \<and> (unat c + unat cz \<le> unat a \<or> unat a + unat sz \<le> unat c
                \<longrightarrow> mem_load m' c cz = mem_load m c cz)))"
proof (cases "length (bytes m) < unat a + unat sz")
  case True
  then show ?thesis by (simp add: mem_errors)
next
  case False
  then obtain m' where st: "mem_store m a sz v = Inr m'" by (auto simp: mem_store_Inr)
  have "mem_load m' c cz = mem_load m c cz"
    if disj: "unat c + unat cz \<le> unat a \<or> unat a + unat sz \<le> unat c"
  proof (cases "mem_load m c cz")
    case (Inl e)
    then have "mem_load m' c cz = Inl e" using st by (simp add: mem_errors mem_store_length)
    with Inl show ?thesis by simp
  next
    case (Inr w)
    then show ?thesis using load_disjoint_store [OF assms(1) st Inr assms(3) disj] by simp
  qed
  then show ?thesis
    using False st load_after_store [OF assms(1) st assms(2)] by (auto simp: mem_store_length)
qed

theorem store_load_witness:
  "addressable (memory_new 16) \<and>
   (\<exists>m'. mem_store (memory_new 16) 8 4 0x12345678 = Inr m'
      \<and> mem_load m' 8 4 = Inr 0x12345678 \<and> mem_load m' 12 2 = mem_load (memory_new 16) 12 2)"
proof -
  have "addressable (memory_new 16)" by (simp add: addressable_def memory_new_def)
  then show ?thesis
    using store_load [of "memory_new 16" 4 2 8 "0x12345678" 12]
    by (auto simp: memory_new_def take_bit_word_eq_self)
qed

section \<open>Loading a program\<close>

lemma loadWords_from_spec:
  assumes "addressable m" "loadWords_from i m ws = Inr m'" "i * 4 + 4 * length ws \<le> 2 ^ 32"
  shows "length (bytes m') = length (bytes m) \<and>
    (\<forall>j. j < i * 4 \<longrightarrow> bytes m' ! j = bytes m ! j) \<and>
    (\<forall>k<length ws. mem_load32 m' (word_of_nat ((i + k) * 4)) = Inr (ws ! k))"
  using assms
proof (induction ws arbitrary: i m)
  case Nil
  then show ?case by simp
next
  case (Cons w ws)
  from Cons.prems(2) obtain m1 where st: "mem_store m (word_of_nat (i * 4)) 4 w = Inr m1"
    and rest: "loadWords_from (Suc i) m1 ws = Inr m'"
    by (auto simp: bind_result_Inr)
  have "unat (word_of_nat (i * 4) :: u32) = i * 4"
    by (rule unat_of_nat_32) (use Cons.prems(3) in simp)
  then have ua: "unat (word_of_nat i * 4 :: u32) = i * 4" by simp
  have len: "length (bytes m1) = length (bytes m)" using st by (rule mem_store_length)
  have ad: "addressable m1" using Cons.prems(1) len by (simp add: addressable_def)
  have fit: "i * 4 + 4 \<le> length (bytes m)" using st by (simp add: mem_store_Inr ua)
  have IH: "length (bytes m') = length (bytes m1)" "\<And>j. j < Suc i * 4 \<Longrightarrow> bytes m' ! j = bytes m1 ! j"
    "\<And>k. k < length ws \<Longrightarrow> mem_load32 m' (word_of_nat ((Suc i + k) * 4)) = Inr (ws ! k)"
    using Cons.IH [OF ad rest] Cons.prems(3) by auto
  have old: "bytes m' ! j = bytes m ! j" if "j < i * 4" for j
    using IH(2) [of j] that mem_store_nth [OF Cons.prems(1) st, of j] fit by (simp add: ua)
  have "mem_load m1 (word_of_nat (i * 4)) 4 = Inr w"
    using load_after_store [OF Cons.prems(1) st] by (simp add: take_bit_word_eq_self)
  moreover have "load_bytes (bytes m') (word_of_nat (i * 4)) 4 = load_bytes (bytes m1) (word_of_nat (i * 4)) 4"
    by (rule load_bytes_cong) (use IH(2) Cons.prems(3) in \<open>auto simp: ua\<close>)
  ultimately have hd: "mem_load32 m' (word_of_nat (i * 4)) = Inr w"
    using IH(1) by (simp add: mem_load32_def mem_load_Inr)
  show ?case
  proof (intro conjI allI impI)
    fix k
    assume "k < length (w # ws)"
    then show "mem_load32 m' (word_of_nat ((i + k) * 4)) = Inr ((w # ws) ! k)"
      using hd IH(3) by (cases k) simp_all
  qed (use IH(1) len old in auto)
qed

text \<open>
  A hexadecimal program image is laid out from address zero: after \<^verbatim>\<open>loadWords\<close> the word
  at four times the index is the word of the image, for every index.
\<close>

theorem loadWords_layout:
  assumes "addressable m" "loadWords m ws = Inr m'" "k < length ws" "4 * length ws \<le> 2 ^ 32"
  shows "mem_load32 m' (word_of_nat (k * 4)) = Inr (ws ! k)"
  using loadWords_from_spec [of m 0 ws m'] assms by (simp add: loadWords_def)

theorem loadWords_layout_witness:
  "\<exists>m'. loadWords (memory_new 12) [0x13, 0x73] = Inr m' \<and> mem_load32 m' 4 = Inr 0x73"
proof -
  obtain m' where m': "loadWords (memory_new 12) [0x13, 0x73] = Inr m'"
    by (auto simp: loadWords_def mem_store_def mem_check_def memory_new_def)
  have "addressable (memory_new 12)" by (simp add: addressable_def memory_new_def)
  from loadWords_layout [OF this m', of 1] m' show ?thesis by simp
qed

text \<open>
  The check of a raw image is on its length modulo \<open>2\<^sup>3\<^sup>2\<close>, so it does not protect the copy
  from an image of four gigabytes or more.
\<close>

lemma loadBytes_ok:
  assumes "length img < 2 ^ 32"
  shows "loadBytes m img \<noteq> Inl Undefined"
  using assms by (simp add: loadBytes_def mem_check_def unsigned_of_nat take_bit_nat_eq_self)

lemma loadBytes_overflow:
  assumes "length img = 2 ^ 32" "length (bytes m) < 2 ^ 32"
  shows "loadBytes m img = Inl Undefined"
proof -
  have "(word_of_nat (2 ^ 32) :: u32) = 0" by (simp add: word_eq_iff_unsigned unsigned_of_nat)
  then show ?thesis using assms by (simp add: loadBytes_def mem_check_def)
qed

end
