(* ===== verification/Syscall.thy ===== *)
theory Syscall
  imports Flat_Memory
begin

text \<open>
  Model of \<^verbatim>\<open>sim/syscall.h\<close> and \<^verbatim>\<open>sim/display.h\<close>: the system calls of the simulated programs.
  The operating system is a parameter: what \<^verbatim>\<open>poll\<close>, \<^verbatim>\<open>read\<close>, \<^verbatim>\<open>write\<close> and \<^verbatim>\<open>fcntl\<close> answer is
  a script in the host state.  What the simulator prints or sends is a list of output events.
  A fatal error ends the process; the output of the failing call itself is not kept.
\<close>

section \<open>Host state\<close>

datatype output_event =
    Print_Int int          \<comment> \<open>\<^verbatim>\<open>printf("%d\n")\<close>\<close>
  | Put_Char u8            \<comment> \<open>\<^verbatim>\<open>putchar\<close>\<close>
  | Print_String "u8 list" \<comment> \<open>the characters of one syscall 3\<close>
  | Print_Hex u32          \<comment> \<open>\<^verbatim>\<open>printf("%08x\n")\<close>\<close>
  | Warn_Syscall u32 u32   \<comment> \<open>number and pc of an unknown syscall, on stderr\<close>
  | Frame "u8 list"        \<comment> \<open>bytes written to the frame pipe\<close>

text \<open>Outcomes of \<^verbatim>\<open>read\<close> on the key pipe and of \<^verbatim>\<open>write\<close> on the frame pipe.\<close>

datatype read_outcome = Got "u8 list" | Read_Intr | Read_Again | Read_Err

datatype write_outcome = Sent nat | Write_Intr | Write_Pipe | Write_Err

record host =
  h_out :: "output_event list"
  h_stdin :: "u8 option list"
  h_frameFd :: int
  h_keyFd :: int
  h_partialKey :: "u8 list"
  h_keyReads :: "read_outcome list"
  h_writes :: "write_outcome list"

definition emit :: "output_event \<Rightarrow> host \<Rightarrow> host" where
  "emit e h = h\<lparr>h_out := h_out h @ [e]\<rparr>"

abbreviation UINT32_MAX :: u32 where
  "UINT32_MAX \<equiv> 0xFFFFFFFF"

section \<open>Input\<close>

text \<open>\<^verbatim>\<open>pollInputByte\<close>: \<^const>\<open>None\<close> in the script is a poll that finds no byte.\<close>

definition pollInputByte :: "host \<Rightarrow> u32 \<times> host" where
  "pollInputByte h =
     (case h_stdin h of
        [] \<Rightarrow> (UINT32_MAX, h)
      | None # r \<Rightarrow> (UINT32_MAX, h\<lparr>h_stdin := r\<rparr>)
      | Some b # r \<Rightarrow> (ucast b, h\<lparr>h_stdin := r\<rparr>))"

definition readWord :: "u8 list \<Rightarrow> u32" where
  "readWord p =
     ucast (p ! 0) OR push_bit 8 (ucast (p ! 1)) OR push_bit 16 (ucast (p ! 2))
       OR push_bit 24 (ucast (p ! 3))"

definition appendWord :: "u8 list \<Rightarrow> u32 \<Rightarrow> u8 list" where
  "appendWord out v = out @ map (\<lambda>b. ucast (drop_bit (8 * b) v)) [0..<4]"

text \<open>
  The loop of \<^verbatim>\<open>pollKey\<close>.  The bytes collected so far are \<^verbatim>\<open>partialKey[0..keyBytes)\<close>; a \<^verbatim>\<open>read\<close>
  takes at most the missing bytes and leaves the others in the pipe.  The result says
  whether a whole word was collected.  After its script the pipe answers \<^verbatim>\<open>EAGAIN\<close>.
\<close>

primrec poll_key_loop ::
  "read_outcome list \<Rightarrow> u8 list \<Rightarrow> (bool \<times> read_outcome list \<times> u8 list) result" where
  "poll_key_loop [] buf = Inr (4 \<le> length buf, [], buf)"
| "poll_key_loop (r # rs) buf =
     (if 4 \<le> length buf then Inr (True, r # rs, buf)
      else case r of
        Got bs \<Rightarrow>
          (if bs = [] then Inr (False, rs, buf)
           else if length bs \<le> 4 - length buf then poll_key_loop rs (buf @ bs)
           else Inr (True, Got (drop (4 - length buf) bs) # rs, buf @ take (4 - length buf) bs))
      | Read_Intr \<Rightarrow> poll_key_loop rs buf
      | Read_Again \<Rightarrow> Inr (False, rs, buf)
      | Read_Err \<Rightarrow> Inl (DisplayFail ''key pipe read failed''))"

definition pollKey :: "host \<Rightarrow> (u32 \<times> host) result" where
  "pollKey h =
     (if h_keyFd h < 0 then Inr (UINT32_MAX, h)
      else bind_result (poll_key_loop (h_keyReads h) (h_partialKey h))
        (\<lambda>(full, reads, buf).
           if \<not> full then Inr (UINT32_MAX, h\<lparr>h_keyReads := reads, h_partialKey := buf\<rparr>)
           else let event = readWord buf in
             if 0x1FF < event then Inl (DisplayFail ''invalid key event'')
             else Inr (event, h\<lparr>h_keyReads := reads, h_partialKey := []\<rparr>)))"

text \<open>
  \<^verbatim>\<open>configure\<close>: \<open>ff\<close> and \<open>kf\<close> are the access modes \<^verbatim>\<open>fcntl(F_GETFL)\<close> reports, \<^const>\<open>None\<close> for
  an error, and \<open>nb\<close> says whether the key pipe could be made nonblocking.
\<close>

datatype access_mode = Read_Only | Write_Only | Read_Write

definition configure ::
  "int \<Rightarrow> int \<Rightarrow> access_mode option \<Rightarrow> access_mode option \<Rightarrow> bool \<Rightarrow> host \<Rightarrow> host result" where
  "configure frames keys ff kf nb h =
     (if frames < 0 \<and> keys < 0 then Inr h
      else if frames < 3 \<or> keys < 3 \<or> frames = keys
      then Inl (DisplayFail ''--frame-fd and --key-fd must name distinct inherited descriptors >= 3'')
      else if ff = None \<or> kf = None \<or> ff = Some Read_Only \<or> kf = Some Write_Only \<or> \<not> nb
      then Inl (DisplayFail ''invalid frame or key pipe'')
      else Inr (h\<lparr>h_frameFd := frames, h_keyFd := keys\<rparr>))"

section \<open>Frames\<close>

abbreviation RV_FRAME_MAGIC :: u32 where "RV_FRAME_MAGIC \<equiv> 0x31465652"
abbreviation RV_PIXEL_XRGB8888 :: u32 where "RV_PIXEL_XRGB8888 \<equiv> 1"
abbreviation RV_PIXEL_INDEXED8 :: u32 where "RV_PIXEL_INDEXED8 \<equiv> 2"
abbreviation RV_MAX_WIDTH :: u32 where "RV_MAX_WIDTH \<equiv> 640"
abbreviation RV_MAX_HEIGHT :: u32 where "RV_MAX_HEIGHT \<equiv> 480"

text \<open>The bytes at \<open>n\<close> successive addresses; the first failing read is the result.\<close>

primrec read_range :: "(u32 \<Rightarrow> u8 result) \<Rightarrow> u32 \<Rightarrow> nat \<Rightarrow> u8 list result" where
  "read_range rb a 0 = Inr []"
| "read_range rb a (Suc n) =
     bind_result (rb a) (\<lambda>b. bind_result (read_range rb (a + 1) n) (\<lambda>bs. Inr (b # bs)))"

definition display_check :: "nat \<Rightarrow> u32 \<Rightarrow> nat \<Rightarrow> unit result" where
  "display_check memoryBytes addr n =
     (if memoryBytes < unat addr + n
      then Inl (DisplayFail ''frame descriptor or pixels outside guest memory'') else Inr ())"

text \<open>The lambda \<^verbatim>\<open>word\<close> of \<^verbatim>\<open>present\<close>.\<close>

definition display_word :: "(u32 \<Rightarrow> u8 result) \<Rightarrow> u32 \<Rightarrow> u32 result" where
  "display_word rb addr =
     bind_result (read_range rb addr 4)
       (\<lambda>bs. Inr (fold (\<lambda>b v. v OR push_bit (8 * b) (ucast (bs ! b))) [0..<4] 0))"

text \<open>The pixel bytes of a packet, read from guest memory.\<close>

definition frame_pixels ::
  "(u32 \<Rightarrow> u8 result) \<Rightarrow> bool \<Rightarrow> u32 \<Rightarrow> u32 \<Rightarrow> nat \<Rightarrow> u8 list result" where
  "frame_pixels rb indexed pixels palette count =
     (if indexed then
        bind_result (read_range rb palette (256 * 4)) (\<lambda>colors.
        bind_result (read_range rb pixels count) (\<lambda>px.
          Inr (concat (map (\<lambda>p. take 4 (drop (4 * unat p) colors)) px))))
      else read_range rb pixels (count * 4))"

text \<open>
  The sending loop: \<open>sent\<close> of \<open>n\<close> bytes are written.  The result is the number of bytes
  written when the loop ends, normally or because the viewer closed the pipe.  After its
  script the pipe takes everything.
\<close>

primrec send_loop :: "write_outcome list \<Rightarrow> nat \<Rightarrow> nat \<Rightarrow> (nat \<times> write_outcome list) result" where
  "send_loop [] sent n = Inr (max sent n, [])"
| "send_loop (w # ws) sent n =
     (if n \<le> sent then Inr (sent, w # ws)
      else case w of
        Sent k \<Rightarrow>
          (if k = 0 then Inl (DisplayFail ''frame pipe write failed'')
           else send_loop ws (sent + min k (n - sent)) n)
      | Write_Intr \<Rightarrow> send_loop ws sent n
      | Write_Pipe \<Rightarrow> Inr (sent, ws)
      | Write_Err \<Rightarrow> Inl (DisplayFail ''frame pipe write failed''))"

text \<open>The checks of \<^verbatim>\<open>present\<close>, up to the test of \<^verbatim>\<open>quiet\<close>.\<close>

record frame_params =
  f_pixels :: u32
  f_width :: u32
  f_height :: u32
  f_indexed :: bool
  f_palette :: u32

definition f_count :: "frame_params \<Rightarrow> nat" where
  "f_count f = unat (f_width f) * unat (f_height f)"

definition present_validate :: "u32 \<Rightarrow> nat \<Rightarrow> (u32 \<Rightarrow> u8 result) \<Rightarrow> frame_params result" where
  "present_validate descriptor memoryBytes rb =
     bind_result (display_check memoryBytes descriptor 16) (\<lambda>_.
     bind_result (display_word rb descriptor) (\<lambda>pixels.
     bind_result (display_word rb (descriptor + 4)) (\<lambda>width.
     bind_result (display_word rb (descriptor + 8)) (\<lambda>height.
     bind_result (display_word rb (descriptor + 12)) (\<lambda>format.
       if width = 0 \<or> RV_MAX_WIDTH < width \<or> height = 0 \<or> RV_MAX_HEIGHT < height
          \<or> (format \<noteq> RV_PIXEL_XRGB8888 \<and> format \<noteq> RV_PIXEL_INDEXED8)
       then Inl (DisplayFail ''invalid dimensions or pixel format'')
       else
         let count = unat width * unat height in
         if format = RV_PIXEL_INDEXED8 then
           bind_result (display_check memoryBytes descriptor 20) (\<lambda>_.
           bind_result (display_word rb (descriptor + 16)) (\<lambda>palette.
           bind_result (display_check memoryBytes palette (256 * 4)) (\<lambda>_.
           bind_result (display_check memoryBytes pixels count) (\<lambda>_.
             Inr \<lparr>f_pixels = pixels, f_width = width, f_height = height, f_indexed = True,
                  f_palette = palette\<rparr>))))
         else
           bind_result (display_check memoryBytes pixels (count * 4)) (\<lambda>_.
             Inr \<lparr>f_pixels = pixels, f_width = width, f_height = height, f_indexed = False,
                  f_palette = 0\<rparr>))))))"

text \<open>The packet, and the whole syscall.\<close>

definition frame_header :: "frame_params \<Rightarrow> u8 list" where
  "frame_header f =
     appendWord (appendWord (appendWord [] RV_FRAME_MAGIC) (f_width f)) (f_height f)"

definition present_send :: "(u32 \<Rightarrow> u8 result) \<Rightarrow> frame_params \<Rightarrow> host \<Rightarrow> host result" where
  "present_send rb f h =
     bind_result (frame_pixels rb (f_indexed f) (f_pixels f) (f_palette f) (f_count f)) (\<lambda>px.
       let packet = frame_header f @ px in
       bind_result (send_loop (h_writes h) 0 (length packet)) (\<lambda>(sent, ws).
         Inr (emit (Frame (take sent packet)) (h\<lparr>h_writes := ws\<rparr>))))"

definition present ::
  "u32 \<Rightarrow> nat \<Rightarrow> (u32 \<Rightarrow> u8 result) \<Rightarrow> bool \<Rightarrow> host \<Rightarrow> host result" where
  "present descriptor memoryBytes rb quiet h =
     bind_result (present_validate descriptor memoryBytes rb) (\<lambda>f.
       if quiet then Inr h
       else if h_frameFd h < 0
       then Inl (DisplayFail ''frame syscall requires --frame-fd and --key-fd'')
       else present_send rb f h)"

section \<open>System calls\<close>

definition syscallReturnsInput :: "u32 \<Rightarrow> bool" where
  "syscallReturnsInput num \<longleftrightarrow> num = 5 \<or> num = 7"

text \<open>
  The string loop of syscall 3.  It does not end on a memory without a zero byte in reach, so
  it is a partial function: \<^const>\<open>None\<close> is a run that never returns.
\<close>

partial_function (option) print_string ::
  "(u32 \<Rightarrow> u8 result) \<Rightarrow> u32 \<Rightarrow> u8 list \<Rightarrow> u8 list result option" where
  "print_string rb a acc =
     (case rb a of
        Inl e \<Rightarrow> Some (Inl e)
      | Inr c \<Rightarrow> if c = 0 then Some (Inr acc) else print_string rb (a + 1) (acc @ [c]))"

text \<open>
  \<^verbatim>\<open>runSyscall\<close>.  The result carries the new value of the argument register, whether the
  program asked to exit, the exit code and the host.
\<close>

record syscall_result =
  s_arg :: u32
  s_exit :: bool
  s_code :: int
  s_host :: host

definition runSyscall ::
  "u32 \<Rightarrow> u32 \<Rightarrow> u32 \<Rightarrow> bool \<Rightarrow> (u32 \<Rightarrow> u8 result) \<Rightarrow> int \<Rightarrow> nat \<Rightarrow> u32 \<Rightarrow> host
     \<Rightarrow> syscall_result result option" where
  "runSyscall num arg pc quiet rb exitCode memoryBytes replayInput h =
     (let go_on = (\<lambda>a h'. Inr \<lparr>s_arg = a, s_exit = False, s_code = exitCode, s_host = h'\<rparr>)
      in
      if num = 1 then Some (go_on arg (if quiet then h else emit (Print_Int (sint arg)) h))
      else if num = 2 then
        Some (go_on arg (if quiet then h else emit (Put_Char (ucast (arg AND 0xFF))) h))
      else if num = 3 then
        (if quiet then Some (go_on arg h)
         else case print_string rb arg [] of
             None \<Rightarrow> None
           | Some r \<Rightarrow> Some (bind_result r (\<lambda>s. go_on arg (emit (Print_String s) h))))
      else if num = 4 then Some (go_on arg (if quiet then h else emit (Print_Hex arg) h))
      else if num = 5 then
        Some (if quiet then go_on replayInput h
              else let (v, h') = pollInputByte h in go_on v h')
      else if num = 6 then
        Some (bind_result (present arg memoryBytes rb quiet h) (go_on arg))
      else if num = 7 then
        Some (if quiet then go_on replayInput h
              else bind_result (pollKey h) (\<lambda>(v, h'). go_on v h'))
      else if num = 10 \<or> num = 93 then
        Some (Inr \<lparr>s_arg = arg, s_exit = True, s_code = uint (arg AND 0xFF), s_host = h\<rparr>)
      else Some (go_on arg (if quiet then h else emit (Warn_Syscall num pc) h)))"

section \<open>Words and ranges\<close>

lemma upt_4: "[0..<4] = [0, 1, 2, 3::nat]"
  by code_simp

text \<open>The three little-endian readers and writers of the display code agree.\<close>

lemma display_word_Inr:
  "display_word rb a = Inr v \<longleftrightarrow> (\<exists>bs. read_range rb a 4 = Inr bs \<and> v = readWord bs)"
  by (auto simp: display_word_def bind_result_Inr readWord_def upt_4 or.assoc)

lemma length_appendWord [simp]: "length (appendWord out v) = length out + 4"
  by (simp add: appendWord_def)

lemma readWord_appendWord: "readWord (drop (length out) (appendWord out v)) = v"
  by (rule word32_eqI)
    (simp add: readWord_def appendWord_def upt_4 nth_append all_less_32 bit_simps)

lemma read_range_numeral:
  "read_range rb a (numeral k) =
     bind_result (rb a)
       (\<lambda>b. bind_result (read_range rb (a + 1) (pred_numeral k)) (\<lambda>bs. Inr (b # bs)))"
  by (simp add: numeral_eq_Suc)

lemma read_range_Inr:
  "read_range rb a n = Inr bs \<longleftrightarrow>
     length bs = n \<and> (\<forall>i<n. rb (a + word_of_nat i) = Inr (bs ! i))"
proof (induction n arbitrary: a bs)
  case 0
  then show ?case by auto
next
  case (Suc n)
  have "read_range rb a (Suc n) = Inr bs \<longleftrightarrow>
      (\<exists>b cs. bs = b # cs \<and> rb a = Inr b \<and> length cs = n \<and>
         (\<forall>i<n. rb (a + 1 + word_of_nat i) = Inr (cs ! i)))"
    using Suc.IH by (auto simp: bind_result_Inr)
  also have "\<dots> \<longleftrightarrow> length bs = Suc n \<and> (\<forall>i<Suc n. rb (a + word_of_nat i) = Inr (bs ! i))"
    by (cases bs) (auto simp: All_less_Suc2 add_ac)
  finally show ?case .
qed

lemma read_range_cong:
  "(\<And>i. i < n \<Longrightarrow> rb (a + word_of_nat i) = rb' (a + word_of_nat i)) \<Longrightarrow>
     read_range rb a n = read_range rb' a n"
proof (induction n arbitrary: a)
  case 0
  then show ?case by simp
next
  case (Suc n)
  have "rb a = rb' a" using Suc.prems [of 0] by simp
  moreover have "read_range rb (a + 1) n = read_range rb' (a + 1) n"
    by (rule Suc.IH) (use Suc.prems [of "Suc i" for i] in \<open>auto simp: add_ac\<close>)
  ultimately show ?case by simp
qed

section \<open>Presenting a frame\<close>

text \<open>Two readers that agree on the guest memory give the same words and ranges inside it.\<close>

definition agree_on :: "nat \<Rightarrow> (u32 \<Rightarrow> u8 result) \<Rightarrow> (u32 \<Rightarrow> u8 result) \<Rightarrow> bool" where
  "agree_on n rb rb' \<longleftrightarrow> (\<forall>a. unat a < n \<longrightarrow> rb a = rb' a)"

lemma agree_range:
  assumes "agree_on n rb rb'" "n \<le> 2 ^ 32" "unat a + k \<le> n"
  shows "read_range rb a k = read_range rb' a k"
proof (rule read_range_cong)
  fix i
  assume i: "i < k"
  then have "unat (a + word_of_nat i) = unat a + i"
    using assms by (intro unat_index [of a k]) simp_all
  then show "rb (a + word_of_nat i) = rb' (a + word_of_nat i)"
    using assms i by (simp add: agree_on_def)
qed

lemma agree_word:
  assumes "agree_on n rb rb'" "n \<le> 2 ^ 32" "unat d + k + 4 \<le> n"
  shows "display_word rb (d + word_of_nat k) = display_word rb' (d + word_of_nat k)"
proof -
  have "unat (d + word_of_nat k) = unat d + k"
    using assms by (intro unat_index [of d "k + 4"]) simp_all
  then have "read_range rb (d + word_of_nat k) 4 = read_range rb' (d + word_of_nat k) 4"
    by (intro agree_range [OF assms(1,2)]) (use assms in simp)
  then show ?thesis by (simp add: display_word_def)
qed

lemma display_check_Inr: "display_check n a k = Inr u \<longleftrightarrow> unat a + k \<le> n"
  by (auto simp: display_check_def)

lemma bind_result_cong:
  "r = r' \<Longrightarrow> (\<And>x. r' = Inr x \<Longrightarrow> f x = g x) \<Longrightarrow> bind_result r f = bind_result r' g"
  by (cases r') simp_all

lemma agree_pixels:
  assumes "agree_on n rb rb'" "n \<le> 2 ^ 32"
    and "if indexed then unat palette + 1024 \<le> n \<and> unat pixels + count \<le> n
         else unat pixels + count * 4 \<le> n"
  shows "frame_pixels rb indexed pixels palette count = frame_pixels rb' indexed pixels palette count"
proof (cases indexed)
  case True
  then have "read_range rb palette 1024 = read_range rb' palette 1024"
    "read_range rb pixels count = read_range rb' pixels count"
    using assms by (auto intro: agree_range)
  then show ?thesis using True by (simp add: frame_pixels_def)
next
  case False
  then show ?thesis using assms by (auto simp: frame_pixels_def intro: agree_range)
qed

text \<open>
  Presenting a frame reads only guest memory: whatever the reader would answer beyond the
  end of memory, the result, the output and the error are the same.  So the range checks of
  \<^verbatim>\<open>present\<close> cover every byte it goes on to read, in both pixel formats.
\<close>

theorem present_in_bounds:
  assumes "memoryBytes \<le> 2 ^ 32" "agree_on memoryBytes rb rb'"
  shows "present d memoryBytes rb quiet h = present d memoryBytes rb' quiet h"
proof -
  have w: "display_word rb (d + word_of_nat k) = display_word rb' (d + word_of_nat k)"
    if "unat d + 16 \<le> memoryBytes" "k + 4 \<le> 16 \<or> unat d + 20 \<le> memoryBytes \<and> k = 16" for k
    by (rule agree_word [OF assms(2,1)]) (use that in auto)
  note ws = w [of 0, simplified] w [of 4, simplified] w [of 8, simplified] w [of 12, simplified]
    w [of 16, simplified]
  have v: "present_validate d memoryBytes rb = present_validate d memoryBytes rb'"
    unfolding present_validate_def
    by (intro bind_result_cong refl)
      (auto simp: display_check_Inr ws Let_def intro!: bind_result_cong)
  have "present_send rb f h = present_send rb' f h"
    if "present_validate d memoryBytes rb' = Inr f" for f
    unfolding present_send_def
    by (subst agree_pixels [OF assms(2,1)]) (use that in
      \<open>auto simp: present_validate_def bind_result_Inr display_check_Inr f_count_def Let_def
        split: if_splits\<close>)
  then show ?thesis unfolding present_def v by (intro bind_result_cong refl) auto
qed

theorem present_in_bounds_witness:
  "\<forall>h. present 0 16 (\<lambda>a. if a < 16 then Inr 0 else Inr 7) True h =
       present 0 16 (\<lambda>a. if a < 16 then Inr 0 else Inl Undefined) True h"
  by (intro allI, rule present_in_bounds) (simp_all add: agree_on_def word_less_nat_alt)

text \<open>What a packet holds: every pixel, looked up in the palette for indexed frames.\<close>

lemma length_concat_quads:
  "(\<And>p. p \<in> set ps \<Longrightarrow> length (f p) = 4) \<Longrightarrow> length (concat (map f ps)) = 4 * length ps"
  by (induction ps) auto

lemma nth_concat_quads:
  assumes "\<And>p. p \<in> set ps \<Longrightarrow> length (f p) = 4" "i < length ps" "k < 4"
  shows "concat (map f ps) ! (4 * i + k) = f (ps ! i) ! k"
  using assms
proof (induction ps arbitrary: i)
  case (Cons p ps)
  then show ?case by (cases i) (auto simp: nth_append)
qed simp

definition pixel_bytes ::
  "(u32 \<Rightarrow> u8 result) \<Rightarrow> bool \<Rightarrow> u32 \<Rightarrow> u32 \<Rightarrow> nat \<Rightarrow> u8 list \<Rightarrow> bool" where
  "pixel_bytes rb indexed pixels palette count px \<longleftrightarrow>
     length px = 4 * count \<and>
     (\<forall>i<count. \<forall>k<4.
        if indexed
        then \<exists>p. rb (pixels + word_of_nat i) = Inr p \<and>
                 rb (palette + word_of_nat (4 * unat p + k)) = Inr (px ! (4 * i + k))
        else rb (pixels + word_of_nat (4 * i + k)) = Inr (px ! (4 * i + k)))"

lemma frame_pixels_Inr:
  assumes "frame_pixels rb indexed pixels palette count = Inr px"
  shows "pixel_bytes rb indexed pixels palette count px"
proof (cases indexed)
  case True
  then obtain colors ps where
    c: "length colors = 1024" "\<And>i. i < 1024 \<Longrightarrow> rb (palette + word_of_nat i) = Inr (colors ! i)"
    and p: "length ps = count" "\<And>i. i < count \<Longrightarrow> rb (pixels + word_of_nat i) = Inr (ps ! i)"
    and px: "px = concat (map (\<lambda>p. take 4 (drop (4 * unat p) colors)) ps)"
    using assms by (auto simp: frame_pixels_def bind_result_Inr read_range_Inr)
  have p256: "unat (p :: u8) < 256" for p using unsigned_less [of p] by simp
  have quad: "length (take 4 (drop (4 * unat p) colors)) = 4" for p :: u8
    using c(1) p256 [of p] by simp
  have "length px = 4 * count" using px p(1) by (simp add: length_concat_quads [OF quad])
  moreover have "rb (palette + word_of_nat (4 * unat (ps ! i) + k)) = Inr (px ! (4 * i + k))"
    if "i < count" "k < 4" for i k
    using that p(1) c(1) c(2) [of "4 * unat (ps ! i) + k"] p256 [of "ps ! i"]
    by (simp add: px nth_concat_quads [OF quad])
  ultimately show ?thesis using True p(2) by (auto simp: pixel_bytes_def)
next
  case False
  then have px: "length px = count * 4" "\<And>i. i < count * 4 \<Longrightarrow> rb (pixels + word_of_nat i) = Inr (px ! i)"
    using assms by (auto simp: frame_pixels_def read_range_Inr)
  have "rb (pixels + word_of_nat (4 * i + k)) = Inr (px ! (4 * i + k))" if "i < count" "k < 4" for i k
    by (rule px(2)) (use that in linarith)
  then show ?thesis using False px(1) by (simp add: pixel_bytes_def)
qed

lemma send_loop_bound:
  "send_loop ws sent n = Inr (sent', ws') \<Longrightarrow> sent \<le> n \<Longrightarrow> sent' \<le> n \<and>
     (Write_Pipe \<notin> set ws \<longrightarrow> sent' = n)"
  by (induction ws arbitrary: sent) (auto split: if_splits write_outcome.splits)

text \<open>The contract of the checks.\<close>

definition frame_params_ok :: "u32 \<Rightarrow> nat \<Rightarrow> (u32 \<Rightarrow> u8 result) \<Rightarrow> frame_params \<Rightarrow> bool" where
  "frame_params_ok d n rb f \<longleftrightarrow>
     display_word rb d = Inr (f_pixels f) \<and>
     display_word rb (d + 4) = Inr (f_width f) \<and> 1 \<le> f_width f \<and> f_width f \<le> 640 \<and>
     display_word rb (d + 8) = Inr (f_height f) \<and> 1 \<le> f_height f \<and> f_height f \<le> 480 \<and>
     display_word rb (d + 12) = Inr (if f_indexed f then 2 else 1) \<and>
     (if f_indexed f
      then display_word rb (d + 16) = Inr (f_palette f) \<and> unat d + 20 \<le> n \<and>
        unat (f_palette f) + 1024 \<le> n \<and> unat (f_pixels f) + f_count f \<le> n
      else unat d + 16 \<le> n \<and> unat (f_pixels f) + 4 * f_count f \<le> n)"

lemma present_validate_ok:
  "present_validate d n rb = Inr f \<Longrightarrow> frame_params_ok d n rb f"
  using word_neq_0_less [of "f_width f"] word_neq_0_less [of "f_height f"]
  by (auto simp: present_validate_def frame_params_ok_def bind_result_Inr display_check_Inr
      f_count_def Let_def word_le_nat_alt word_less_nat_alt split: if_splits)

text \<open>
  C23. A successful, not quiet, frame syscall: the descriptor it read satisfies every check,
  and the bytes put on the frame pipe are the magic word, the width, the height and four
  bytes per pixel (the pixel's own, or its palette entry), in order, cut short only when the
  viewer closed the pipe.
\<close>

theorem present_frame:
  assumes "present d memoryBytes rb False h = Inr h'"
  shows "\<exists>f px sent.
      frame_params_ok d memoryBytes rb f \<and>
      pixel_bytes rb (f_indexed f) (f_pixels f) (f_palette f) (f_count f) px \<and>
      h_out h' = h_out h @ [Frame (take sent (frame_header f @ px))] \<and>
      sent \<le> 12 + 4 * f_count f \<and>
      (Write_Pipe \<notin> set (h_writes h) \<longrightarrow> sent = 12 + 4 * f_count f)"
proof -
  from assms obtain f px sent ws where
    v: "present_validate d memoryBytes rb = Inr f"
    and px: "frame_pixels rb (f_indexed f) (f_pixels f) (f_palette f) (f_count f) = Inr px"
    and sd: "send_loop (h_writes h) 0 (length (frame_header f @ px)) = Inr (sent, ws)"
    and h': "h' = emit (Frame (take sent (frame_header f @ px))) (h\<lparr>h_writes := ws\<rparr>)"
    unfolding present_def present_send_def bind_result_Inr Let_def
    by (auto split: if_splits simp del: length_append take_append simp: bind_result_Inr)
  have pb: "pixel_bytes rb (f_indexed f) (f_pixels f) (f_palette f) (f_count f) px"
    using px by (rule frame_pixels_Inr)
  then have "length (frame_header f @ px) = 12 + 4 * f_count f"
    by (simp add: pixel_bytes_def frame_header_def)
  then show ?thesis
    using present_validate_ok [OF v] pb send_loop_bound [OF sd] h'
    by (intro exI [of _ f] exI [of _ px] exI [of _ sent]) (simp add: emit_def)
qed

definition frame_demo_reader :: "u32 \<Rightarrow> u8 result" where
  "frame_demo_reader a =
     (let bs = [16, 0, 0, 0, 1, 0, 0, 0, 1, 0, 0, 0, 1, 0, 0, 0, 7, 8, 9, 0] :: u8 list in
      if unat a < length bs then Inr (bs ! unat a) else Inl (OutOfRange a ''load''))"

definition host_demo :: host where
  "host_demo = \<lparr>h_out = [], h_stdin = [], h_frameFd = 3, h_keyFd = 4, h_partialKey = [],
     h_keyReads = [], h_writes = []\<rparr>"

lemma frame_demo_word:
  "display_word frame_demo_reader a = Inr (if a = 0 then 16 else 1)"
  if "a = 0 \<or> a = 4 \<or> a = 8 \<or> a = 12"
  using that by (auto simp: display_word_def frame_demo_reader_def upt_4 read_range_numeral)

lemma frame_demo_pixels:
  "frame_pixels frame_demo_reader False 16 0 1 = Inr [7, 8, 9, 0]"
  by (simp add: frame_pixels_def frame_demo_reader_def read_range_numeral)

lemma frame_demo_present: "\<exists>h'. present 0 20 frame_demo_reader False host_demo = Inr h'"
  by (simp add: present_def present_validate_def present_send_def display_check_def
      frame_demo_word frame_demo_pixels [simplified]
      host_demo_def f_count_def)

theorem present_frame_witness:
  "\<exists>h' f px. present 0 20 frame_demo_reader False host_demo = Inr h' \<and> f_pixels f = 16 \<and>
     f_count f = 1 \<and> length px = 4 \<and> h_out h' = [Frame (frame_header f @ px)]"
proof -
  obtain h' where h': "present 0 20 frame_demo_reader False host_demo = Inr h'"
    using frame_demo_present by blast
  from present_frame [OF h'] h' show ?thesis
    by (auto simp: frame_params_ok_def frame_demo_word host_demo_def pixel_bytes_def f_count_def
        frame_header_def)
qed

section \<open>Quiet system calls\<close>

lemma present_quiet: "present d n rb False h = Inr h' \<Longrightarrow> present d n rb True h2 = Inr h2"
  by (auto simp: present_def bind_result_Inr)

text \<open>
  C22. The differential shadow replays a syscall: when the primary's syscall returns, the same
  syscall run quietly, with the primary's resulting argument register as the replayed input,
  returns the same register, the same exit request and the same exit code, and changes
  nothing on the host.
\<close>

theorem quiet_replay:
  assumes "runSyscall num arg pc False rb ec n ri h = Some (Inr r)"
  shows "runSyscall num arg pc True rb ec n (s_arg r) h2 = Some (Inr (r\<lparr>s_host := h2\<rparr>))"
  using assms
  by (auto simp: runSyscall_def Let_def bind_result_Inr dest: present_quiet
      split: if_splits option.splits prod.splits)

theorem quiet_replay_witness:
  "runSyscall 5 0 0 True (\<lambda>a. Inr 0) 0 16 65 host_demo =
     Some (Inr \<lparr>s_arg = 65, s_exit = False, s_code = 0, s_host = host_demo\<rparr>)"
  using quiet_replay [of 5 0 0 "\<lambda>a. Inr 0" 0 16 0 "host_demo\<lparr>h_stdin := [Some 65]\<rparr>" 
      "\<lparr>s_arg = 65, s_exit = False, s_code = 0, s_host = host_demo\<rparr>" host_demo]
  by (simp add: runSyscall_def pollInputByte_def host_demo_def)

lemma quiet_host:
  "runSyscall num arg pc True rb ec n ri h = Some (Inr r) \<Longrightarrow> s_host r = h"
  by (auto simp: runSyscall_def present_def Let_def bind_result_Inr split: if_splits)

lemma quiet_returns: "\<exists>r. runSyscall num arg pc True rb ec n ri h = Some r"
  by (auto simp: runSyscall_def Let_def)

section \<open>Strings\<close>

lemma print_string_step:
  "rb a = Inl e \<Longrightarrow> print_string rb a acc = Some (Inl e)"
  "rb a = Inr 0 \<Longrightarrow> print_string rb a acc = Some (Inr acc)"
  "rb a = Inr c \<Longrightarrow> c \<noteq> 0 \<Longrightarrow> print_string rb a acc = print_string rb (a + 1) (acc @ [c])"
  by (subst print_string.simps, simp)+

text \<open>Byte reads of the flat memory.\<close>

lemma mem_load8_eq:
  "mem_load8 m a = (if unat a < length (bytes m) then Inr (bytes m ! unat a)
                    else Inl (OutOfRange a ''load''))"
proof -
  have "ucast (load_bytes bs a 1) = bs ! unat a" for bs
    by (rule bit_word_eqI) (simp add: load_bytes_def bit_simps)
  then show ?thesis by (auto simp: mem_load8_def mem_load_def mem_check_def)
qed

lemma print_string_memory:
  assumes "length (bytes m) < 2 ^ 32" "k = length (bytes m) - unat a"
  shows "print_string (mem_load8 m) a acc =
    (let rest = drop (unat a) (bytes m) in
     if 0 \<in> set rest then Some (Inr (acc @ takeWhile (\<lambda>c. c \<noteq> 0) rest))
     else Some (Inl (OutOfRange (max a (word_of_nat (length (bytes m)))) ''load'')))"
  using assms(2)
proof (induction k arbitrary: a acc)
  case 0
  then have out: "length (bytes m) \<le> unat a" by simp
  moreover have "word_of_nat (length (bytes m)) \<le> a"
    using out assms(1) by (simp add: word_le_nat_alt unat_of_nat_32)
  ultimately show ?case by (simp add: print_string_step mem_load8_eq max_def)
next
  case (Suc k)
  let ?c = "bytes m ! unat a"
  have inside: "unat a < length (bytes m)" using Suc.prems by linarith
  then have rest: "drop (unat a) (bytes m) = ?c # drop (Suc (unat a)) (bytes m)"
    by (simp add: Cons_nth_drop_Suc)
  have rd: "mem_load8 m a = Inr ?c" using inside by (simp add: mem_load8_eq)
  show ?case
  proof (cases "?c = 0")
    case True
    then show ?thesis using rd by (simp add: print_string_step rest)
  next
    case False
    have ua: "unat (a + 1) = Suc (unat a)"
      by (rule unat_Suc_small32) (use inside assms(1) in simp)
    have "unat a < unat (word_of_nat (length (bytes m)) :: u32)"
      using inside assms(1) by (simp add: unat_of_nat_32)
    then have mx: "max (a + 1) (word_of_nat (length (bytes m))) =
        max a (word_of_nat (length (bytes m)))"
      by (simp add: max_def word_le_nat_alt ua)
    have "k = length (bytes m) - unat (a + 1)" using Suc.prems ua by simp
    from Suc.IH [OF this] show ?thesis using rd False
      by (simp add: print_string_step rest ua mx Let_def)
  qed
qed

text \<open>
  The same loop over an arbitrary reader: the core prints through \<^verbatim>\<open>msys.peek8\<close>, which looks in
  the caches first, the interpreter through \<^verbatim>\<open>Memory::load8\<close>.  A read stops the loop when it
  fails or gives zero.
\<close>

definition stops :: "u8 result \<Rightarrow> bool" where
  "stops r \<longleftrightarrow> (case r of Inl e \<Rightarrow> True | Inr c \<Rightarrow> c = 0)"

lemma print_string_runs:
  fixes rb :: "u32 \<Rightarrow> u8 result"
  assumes "\<forall>k < n. \<not> stops (rb (a + word_of_nat k))"
  shows "print_string rb a acc = print_string rb (a + word_of_nat n) (acc @ map (\<lambda>k. projr (rb (a + word_of_nat k))) [0..<n])"
  using assms
proof (induction n)
  case (Suc n)
  have "\<not> stops (rb (a + word_of_nat n))" using Suc.prems by simp
  then obtain c where c: "rb (a + word_of_nat n) = Inr c" "c \<noteq> 0"
    by (cases "rb (a + word_of_nat n)") (auto simp: stops_def)
  have "print_string rb (a + word_of_nat n) xs = print_string rb (a + word_of_nat (Suc n)) (xs @ [c])" for xs
    using print_string_step(3) [of rb "a + word_of_nat n", OF c] by (simp add: algebra_simps)
  then show ?case using Suc by (simp add: c)
qed simp

lemma print_string_Some: "print_string rb a acc = Some r \<Longrightarrow> \<exists>b. stops (rb b)"
proof (rule print_string.raw_induct [where P = "\<lambda>rb a acc r. \<exists>b. stops (rb b)"])
  fix ps rb a acc r
  assume ih: "\<And>rb a acc r. ps rb a acc = Some r \<Longrightarrow> \<exists>b. stops (rb b)"
    and body: "(case rb a of Inl e \<Rightarrow> Some (Inl e)
      | Inr c \<Rightarrow> if c = 0 then Some (Inr acc) else ps rb (a + 1) (acc @ [c])) = Some r"
  show "\<exists>b. stops (rb b)"
  proof (cases "stops (rb a)")
    case False
    then obtain c where "rb a = Inr c" "c \<noteq> 0" by (cases "rb a") (auto simp: stops_def)
    then show ?thesis using body ih by simp
  qed blast
qed

lemma print_string_never: "(\<And>b. \<not> stops (rb b)) \<Longrightarrow> print_string rb a acc = None"
  using print_string_Some [of rb a acc] by (cases "print_string rb a acc") auto

text \<open>A memory of 4 GiB without a zero byte, which \<^verbatim>\<open>validateConfig\<close> accepts: the call never returns.\<close>

lemma print_string_spins:
  assumes "length (bytes m) = 2 ^ 32" "0 \<notin> set (bytes m)"
  shows "print_string (mem_load8 m) a acc = None"
proof (rule print_string_never)
  fix b :: u32
  have "unat b < length (bytes m)" using unsigned_less [of b] assms(1) by simp
  moreover from this have "bytes m ! unat b \<noteq> 0" using assms(2) nth_mem by metis
  ultimately show "\<not> stops (mem_load8 m b)" by (simp add: stops_def mem_load8_eq)
qed

text \<open>
  C24. The loop of system call 3 (print string), exactly, for any byte reader.  It looks at the
  addresses \<^verbatim>\<open>a\<close>, \<^verbatim>\<open>a + 1\<close>, ... modulo \<^verbatim>\<open>2 ^ 32\<close>.  At the first one whose read fails it ends with
  that error; at the first one that holds zero it returns the bytes before it; and when no address
  of the whole 32-bit space does either, it never returns (the value \<^verbatim>\<open>None\<close>), which a memory of
  \<^verbatim>\<open>2 ^ 32\<close> bytes allows.
\<close>

theorem print_string_exact:
  "print_string rb a [] =
     (case find (\<lambda>k. stops (rb (a + word_of_nat k))) [0..<2 ^ 32] of
        None \<Rightarrow> None
      | Some k \<Rightarrow> Some (case rb (a + word_of_nat k) of
                        Inl e \<Rightarrow> Inl e
                      | Inr _ \<Rightarrow> Inr (map (\<lambda>i. projr (rb (a + word_of_nat i))) [0..<k])))"
proof (cases "find (\<lambda>k. stops (rb (a + word_of_nat k))) [0..<2 ^ 32]")
  case None
  have "\<not> stops (rb b)" for b
  proof -
    have "unat (b - a) < 2 ^ LENGTH(32)" by (rule unsigned_less)
    then have "\<not> stops (rb (a + word_of_nat (unat (b - a))))" using None by (auto simp: find_None_iff)
    then show ?thesis by simp
  qed
  then have "print_string rb a [] = None" by (rule print_string_never)
  then show ?thesis using None by simp
next
  case (Some k)
  then have k: "stops (rb (a + word_of_nat k))" "\<forall>i < k. \<not> stops (rb (a + word_of_nat i))"
    by (auto simp: find_Some_iff)
  have "print_string rb (a + word_of_nat k) xs =
      Some (case rb (a + word_of_nat k) of Inl e \<Rightarrow> Inl e | Inr _ \<Rightarrow> Inr xs)" for xs
    using k(1) by (cases "rb (a + word_of_nat k)") (auto simp: stops_def print_string_step)
  then show ?thesis using print_string_runs [OF k(2), of "[]"] Some by simp
qed
text \<open>The bytes a key pipe still has to deliver, those already collected first.\<close>

definition read_data :: "read_outcome list \<Rightarrow> u8 list" where
  "read_data rs = concat (map (\<lambda>r. case r of Got bs \<Rightarrow> bs | _ \<Rightarrow> []) rs)"

definition pending_bytes :: "host \<Rightarrow> u8 list" where
  "pending_bytes h = h_partialKey h @ read_data (h_keyReads h)"

lemma read_data_simps [simp]:
  "read_data [] = []" "read_data (Got bs # rs) = bs @ read_data rs"
  "read_data (Read_Intr # rs) = read_data rs" "read_data (Read_Again # rs) = read_data rs"
  "read_data (Read_Err # rs) = read_data rs"
  by (simp_all add: read_data_def)

lemma poll_key_loop_data:
  "poll_key_loop rs buf = Inr (full, rs', buf') \<Longrightarrow> length buf \<le> 4 \<Longrightarrow>
     buf' @ read_data rs' = buf @ read_data rs \<and> length buf' \<le> 4 \<and> full = (length buf' = 4)"
proof (induction rs arbitrary: buf)
  case Nil
  then show ?case by auto
next
  case (Cons r rs)
  then show ?case by (cases r) (auto split: if_splits)
qed

text \<open>
  Key events keep their framing however the pipe splits the bytes: a poll either reports
  no event and loses no byte, or takes exactly the next four bytes of the stream and returns
  their little-endian word.  Between polls fewer than four bytes are buffered.
\<close>

theorem pollKey_framing:
  assumes "pollKey h = Inr (v, h')" "0 \<le> h_keyFd h" "length (h_partialKey h) < 4"
  shows "length (h_partialKey h') < 4 \<and>
    (if v = UINT32_MAX then pending_bytes h' = pending_bytes h
     else v \<le> 0x1FF \<and> v = readWord (take 4 (pending_bytes h)) \<and>
          4 \<le> length (pending_bytes h) \<and> pending_bytes h' = drop 4 (pending_bytes h))"
proof -
  obtain full rs buf where l: "poll_key_loop (h_keyReads h) (h_partialKey h) = Inr (full, rs, buf)"
    and r: "if \<not> full then v = UINT32_MAX \<and> h' = h\<lparr>h_keyReads := rs, h_partialKey := buf\<rparr>
            else \<not> 0x1FF < readWord buf \<and> v = readWord buf \<and>
                 h' = h\<lparr>h_keyReads := rs, h_partialKey := []\<rparr>"
    using assms(1,2) by (auto simp: pollKey_def bind_result_Inr Let_def split: if_splits)
  have d: "h_partialKey h @ read_data (h_keyReads h) = buf @ read_data rs" "length buf \<le> 4"
    "full = (length buf = 4)"
    using poll_key_loop_data [OF l] assms(3) by auto
  show ?thesis
  proof (cases full)
    case True
    then have "v \<le> 0x1FF" using r by (auto simp: not_less)
    moreover from this have "v \<noteq> UINT32_MAX" by auto
    ultimately show ?thesis using r d True by (auto simp: pending_bytes_def)
  next
    case False
    then show ?thesis using r d by (auto simp: pending_bytes_def)
  qed
qed

theorem pollKey_framing_witness:
  "\<exists>h'. pollKey (host_demo\<lparr>h_keyReads := [Got [65], Read_Intr, Got [1, 0, 0, 66]]\<rparr>) = Inr (0x141, h') \<and>
     pending_bytes h' = [66]"
proof -
  let ?h = "host_demo\<lparr>h_keyReads := [Got [65], Read_Intr, Got [1, 0, 0, 66]]\<rparr>"
  have "\<exists>h'. pollKey ?h = Inr (0x141, h')"
    by (simp add: pollKey_def host_demo_def readWord_def)
  then obtain h' where h': "pollKey ?h = Inr (0x141, h')" by blast
  from pollKey_framing [OF h'] have "pending_bytes h' = drop 4 (pending_bytes ?h)"
    by (simp add: host_demo_def)
  with h' show ?thesis by (simp add: pending_bytes_def host_demo_def)
qed

end
