(* ===== verification/Reference.thy ===== *)
theory Reference
  imports Execute Syscall
begin

text \<open>
  Model of \<^verbatim>\<open>core/commit.h\<close> and \<^verbatim>\<open>core/refmodel.cpp\<close>: the architectural commit stream and
  the functional reference interpreter that the out-of-order core is compared with.
\<close>

section \<open>Commit records\<close>

record RegisterWrite =
  rw_rd :: u8
  rw_value :: u32

record MemoryWrite =
  mw_addr :: u32
  mw_value :: u32
  mw_size :: u8

datatype ExceptionKind = IllegalInstruction

record CommitRecord =
  cr_sequence :: u64
  cr_pc :: u32
  cr_instruction :: u32
  cr_registerWrite :: "RegisterWrite option"
  cr_memoryWrite :: "MemoryWrite option"
  cr_exception :: "ExceptionKind option"

text \<open>
  The constructor \<^verbatim>\<open>MemoryWrite(addr, value, size)\<close> cuts the value to the size.  The shift
  \<^verbatim>\<open>1u << (8 * size)\<close> is undefined from 32 on.
\<close>

definition memory_write :: "u32 \<Rightarrow> u32 \<Rightarrow> u8 \<Rightarrow> MemoryWrite result" where
  "memory_write addr v sz =
     (if sz = 4 then Inr \<lparr>mw_addr = addr, mw_value = v, mw_size = sz\<rparr>
      else if 32 \<le> 8 * unat sz then Inl Undefined
      else Inr \<lparr>mw_addr = addr, mw_value = v AND (push_bit (8 * unat sz) 1 - 1), mw_size = sz\<rparr>)"

section \<open>The reference model\<close>

record refmodel =
  rm_mem :: memory
  rm_replayInput :: u32
  rm_regs :: "u32 list"
  rm_pc :: u32
  rm_halted :: bool
  rm_exitCode :: int
  rm_retired :: u64

definition refmodel_new :: "nat \<Rightarrow> refmodel" where
  "refmodel_new memBytes =
     \<lparr>rm_mem = memory_new memBytes, rm_replayInput = UINT32_MAX, rm_regs = replicate 32 0,
      rm_pc = 0, rm_halted = False, rm_exitCode = 0, rm_retired = 0\<rparr>"

definition option_result :: "'a option \<Rightarrow> 'a result" where
  "option_result x = (case x of None \<Rightarrow> Inl Undefined | Some y \<Rightarrow> Inr y)"

text \<open>Case \<^verbatim>\<open>ECALL\<close>; the syscall is quiet and leaves the host alone.\<close>

definition ref_ecall ::
  "host \<Rightarrow> refmodel \<Rightarrow> CommitRecord \<Rightarrow> (CommitRecord \<times> refmodel) result option" where
  "ref_ecall h m r =
     (let num = rm_regs m ! 17;
          m1 = m\<lparr>rm_retired := rm_retired m + 1\<rparr>
      in case runSyscall num (rm_regs m ! 10) (rm_pc m) True (mem_load8 (rm_mem m))
                (rm_exitCode m) (length (bytes (rm_mem m))) (rm_replayInput m) h of
           None \<Rightarrow> None
         | Some out \<Rightarrow> Some (bind_result out (\<lambda>s.
             let m2 = m1\<lparr>rm_regs := (rm_regs m)[10 := s_arg s], rm_exitCode := s_code s,
                         rm_halted := s_exit s\<rparr>
             in Inr (if syscallReturnsInput num
                     then r\<lparr>cr_registerWrite := Some \<lparr>rw_rd = 10, rw_value = rm_regs m2 ! 10\<rparr>\<rparr>
                     else r, m2))))"

text \<open>
  The default case.  \<open>ref_access\<close> is the memory part: the result register's value, the new
  memory and the record.
\<close>

definition ref_access ::
  "instr \<Rightarrow> u32 \<Rightarrow> u32 \<Rightarrow> u32 \<Rightarrow> memory \<Rightarrow> CommitRecord
     \<Rightarrow> (u32 \<times> memory \<times> CommitRecord) result" where
  "ref_access I pc v b mem r =
     (if isLoad (ins_op I) \<or> isStore (ins_op I) then
        let sz = accessSize (ins_op I) in
        if v mod sz \<noteq> 0
        then Inl (Misaligned v (if isStore (ins_op I) then ''store'' else ''load'') pc)
        else if isLoad (ins_op I)
        then bind_result (mem_load mem v sz) (\<lambda>raw. Inr (extendLoad (ins_op I) raw, mem, r))
        else bind_result (mem_store mem v sz b) (\<lambda>mem'.
             bind_result (memory_write v b (ucast sz)) (\<lambda>w.
               Inr (v, mem', r\<lparr>cr_memoryWrite := Some w\<rparr>)))
      else Inr (v, mem, r))"

definition ref_writeback ::
  "instr \<Rightarrow> refmodel \<Rightarrow> exec_result \<Rightarrow> u32 \<times> memory \<times> CommitRecord
     \<Rightarrow> CommitRecord \<times> u32 \<times> refmodel" where
  "ref_writeback I m x = (\<lambda>(v, mem', r).
     let m1 = m\<lparr>rm_mem := mem', rm_retired := rm_retired m + 1\<rparr>;
         next_pc = if x_redirect x then x_target x else rm_pc m + 4
     in if writesRd (ins_op I) \<and> ins_rd I \<noteq> 0
        then (r\<lparr>cr_registerWrite := Some \<lparr>rw_rd = ins_rd I, rw_value = v\<rparr>\<rparr>, next_pc,
              m1\<lparr>rm_regs := (rm_regs m)[unat (ins_rd I) := v]\<rparr>)
        else (r, next_pc, m1))"

definition ref_default ::
  "instr \<Rightarrow> refmodel \<Rightarrow> CommitRecord \<Rightarrow> (CommitRecord \<times> u32 \<times> refmodel) result" where
  "ref_default I m r =
     (let a = if usesRs1 (ins_op I) then rm_regs m ! unat (ins_rs1 I) else 0;
          b = if usesRs2 (ins_op I) then rm_regs m ! unat (ins_rs2 I) else 0
      in bind_result (option_result (execute I (rm_pc m) a b)) (\<lambda>x.
         bind_result (ref_access I (rm_pc m) (x_value x) b (rm_mem m) r) (\<lambda>out.
           Inr (ref_writeback I m x out))))"

text \<open>
  \<^verbatim>\<open>step\<close>.  \<^const>\<open>None\<close> in the pair is the return value \<open>false\<close>; otherwise it is the record.
  The outer \<^typ>\<open>'a option\<close> is \<^const>\<open>None\<close> for a call that never returns.
\<close>

definition ref_step ::
  "host \<Rightarrow> refmodel \<Rightarrow> (CommitRecord option \<times> refmodel) result option" where
  "ref_step h m =
     (if rm_halted m then Some (Inr (None, m))
      else if rm_pc m mod 4 \<noteq> 0 then Some (Inl (MisalignedFetch (rm_pc m)))
      else case mem_load32 (rm_mem m) (rm_pc m) of
        Inl e \<Rightarrow> Some (Inl e)
      | Inr raw \<Rightarrow>
          let I = decode raw;
              r = \<lparr>cr_sequence = rm_retired m, cr_pc = rm_pc m, cr_instruction = raw,
                   cr_registerWrite = None, cr_memoryWrite = None, cr_exception = None\<rparr>;
              finish = (\<lambda>(r, next_pc, m).
                Inr (Some r, if rm_halted m then m else m\<lparr>rm_pc := next_pc\<rparr>))
          in if ins_op I = ECALL then
               (case ref_ecall h m r of
                  None \<Rightarrow> None
                | Some out \<Rightarrow> Some (bind_result out (\<lambda>(r', m'). finish (r', rm_pc m + 4, m'))))
             else if ins_op I = EBREAK then
               Some (finish (r, rm_pc m + 4,
                 m\<lparr>rm_retired := rm_retired m + 1, rm_halted := True\<rparr>))
             else if ins_op I = ILLEGAL then
               Some (finish (r\<lparr>cr_exception := Some IllegalInstruction\<rparr>, rm_pc m + 4,
                 m\<lparr>rm_halted := True, rm_exitCode := 1\<rparr>))
             else Some (bind_result (ref_default I m r) finish))"

text \<open>Up to \<open>n\<close> steps; the run ends early when the model has halted.\<close>

primrec ref_run ::
  "nat \<Rightarrow> host \<Rightarrow> refmodel \<Rightarrow> (CommitRecord list \<times> refmodel) result option" where
  "ref_run 0 h m = Some (Inr ([], m))"
| "ref_run (Suc n) h m =
     (case ref_step h m of
        None \<Rightarrow> None
      | Some (Inl e) \<Rightarrow> Some (Inl e)
      | Some (Inr (None, m')) \<Rightarrow> Some (Inr ([], m'))
      | Some (Inr (Some r, m')) \<Rightarrow>
          map_option (\<lambda>out. bind_result out (\<lambda>(rs, m''). Inr (r # rs, m''))) (ref_run n h m'))"

section \<open>Preservation of the state invariant\<close>

text \<open>
  The register file has 32 registers, register zero reads as zero, and the memory fits the
  address space.
\<close>

definition ref_ok :: "refmodel \<Rightarrow> bool" where
  "ref_ok m \<longleftrightarrow> length (rm_regs m) = 32 \<and> rm_regs m ! 0 = 0 \<and> addressable (rm_mem m)"

lemma ref_ok_new: "n \<le> 2 ^ 32 \<Longrightarrow> ref_ok (refmodel_new n)"
  by (simp add: ref_ok_def refmodel_new_def addressable_def memory_new_def)

lemma accessSize_unat: "unat (accessSize x) \<in> {1, 2, 4}"
  using accessSize_cases [of x] by auto

lemma and_ones32: "v AND 0xFFFFFFFF = (v :: u32)"
proof -
  have "(0xFFFFFFFF :: u32) = - 1" by simp
  then show ?thesis by (simp only: and.right_neutral)
qed

lemma memory_write_ok:
  "memory_write a v (ucast (accessSize x)) =
     Inr \<lparr>mw_addr = a, mw_value = take_bit (8 * unat (accessSize x)) v,
          mw_size = ucast (accessSize x)\<rparr>"
  using accessSize_cases [of x]
  by (auto simp: memory_write_def take_bit_eq_mask mask_eq_exp_minus_1 and_ones32)

text \<open>Storing the truncated value of a record is storing the whole register.\<close>

lemma store_bytes_truncated:
  "store_bytes bs a n (take_bit (8 * n) v) = store_bytes bs a n v"
proof -
  have "(ucast (drop_bit (8 * b) (take_bit (8 * n) v)) :: u8) = ucast (drop_bit (8 * b) v)"
    if "b < n" for b
    by (rule bit_word_eqI) (use that in \<open>auto simp: bit_simps\<close>)
  then have "store_bytes bs a k (take_bit (8 * n) v) = store_bytes bs a k v" if "k \<le> n" for k
    using that by (induction k) (simp_all add: store_bytes_def)
  then show ?thesis by simp
qed

lemma mem_store_truncated:
  "mem_store m a sz (take_bit (8 * unat sz) v) = mem_store m a sz v"
  by (simp add: mem_store_def store_bytes_truncated)

lemma ucast_accessSize: "ucast (ucast (accessSize x) :: u8) = accessSize x"
  using accessSize_cases [of x] by auto

section \<open>Decoded fields\<close>

lemma field_less_32: "unat (ucast (w AND 31 :: u32) :: u8) < 32"
proof -
  have le: "unat (w AND 31) \<le> 31" using word_and_le1 [of w 31] by (simp add: word_le_nat_alt)
  then have "take_bit 8 (unat (w AND 31)) = unat (w AND 31)"
    by (intro take_bit_nat_eq_self) simp
  then show ?thesis using le by (simp add: unsigned_ucast_eq)
qed

lemma decode_fields:
  "unat (ins_rd (decode w)) < 32" "unat (ins_rs1 (decode w)) < 32" "unat (ins_rs2 (decode w)) < 32"
  using field_less_32 by (simp_all add: decode_def Let_def instr0_def)

section \<open>What a step does\<close>

text \<open>
  The architectural meaning of a record: write the register, then the memory.
\<close>

definition apply_record :: "CommitRecord \<Rightarrow> u32 list \<times> memory \<Rightarrow> (u32 list \<times> memory) result" where
  "apply_record r = (\<lambda>(regs, mem).
     bind_result
       (case cr_memoryWrite r of
          None \<Rightarrow> Inr mem
        | Some w \<Rightarrow> mem_store mem (mw_addr w) (ucast (mw_size w)) (mw_value w))
       (\<lambda>mem'. Inr
         (case cr_registerWrite r of
            None \<Rightarrow> regs
          | Some w \<Rightarrow> regs[unat (rw_rd w) := rw_value w], mem')))"

lemma ref_access_Inr:
  assumes "ref_access I pc v b mem r = Inr (v', mem', r')" "cr_memoryWrite r = None"
    "cr_registerWrite r = None"
  shows "apply_record r' (regs, mem) = Inr (regs, mem')"
    and "length (bytes mem') = length (bytes mem)"
    and "r' = r\<lparr>cr_memoryWrite := cr_memoryWrite r'\<rparr>"
  using assms load_not_store [of "ins_op I"]
  by (auto simp: ref_access_def Let_def bind_result_Inr memory_write_ok apply_record_def
      ucast_accessSize mem_store_truncated mem_store_length split: if_splits)

text \<open>The facts about one committed instruction that the properties below need.\<close>

definition step_ok :: "refmodel \<Rightarrow> CommitRecord \<Rightarrow> refmodel \<Rightarrow> bool" where
  "step_ok m r m' \<longleftrightarrow>
     cr_sequence r = rm_retired m \<and> cr_pc r = rm_pc m \<and>
     mem_load32 (rm_mem m) (rm_pc m) = Inr (cr_instruction r) \<and>
     apply_record r (rm_regs m, rm_mem m) = Inr (rm_regs m', rm_mem m') \<and>
     (\<forall>w. cr_registerWrite r = Some w \<longrightarrow> rw_rd w \<noteq> 0 \<and> unat (rw_rd w) < 32) \<and>
     (cr_exception r \<noteq> None \<longleftrightarrow> ins_op (decode (cr_instruction r)) = ILLEGAL) \<and>
     rm_retired m' = (if cr_exception r = None then rm_retired m + 1 else rm_retired m) \<and>
     (cr_exception r \<noteq> None \<longrightarrow> rm_halted m' \<and> rm_exitCode m' = 1) \<and>
     (rm_halted m' \<longrightarrow> rm_pc m' = rm_pc m) \<and>
     rm_replayInput m' = rm_replayInput m \<and>
     length (bytes (rm_mem m')) = length (bytes (rm_mem m))"

lemma quiet_arg:
  "runSyscall num arg pc True rb ec n ri h = Some (Inr s) \<Longrightarrow>
     s_arg s = (if syscallReturnsInput num then ri else arg)"
  by (auto simp: runSyscall_def present_def Let_def bind_result_Inr syscallReturnsInput_def
      split: if_splits)

lemma ref_ecall_Some:
  assumes "ref_ecall h m r = Some (Inr (r', m'))" "length (rm_regs m) = 32"
  shows "rm_regs m' = (if syscallReturnsInput (rm_regs m ! 17)
          then (rm_regs m)[10 := rm_replayInput m] else rm_regs m)"
    and "r' = (if syscallReturnsInput (rm_regs m ! 17)
          then r\<lparr>cr_registerWrite := Some \<lparr>rw_rd = 10, rw_value = rm_replayInput m\<rparr>\<rparr> else r)"
    and "rm_mem m' = rm_mem m" "rm_pc m' = rm_pc m" "rm_retired m' = rm_retired m + 1"
    and "rm_replayInput m' = rm_replayInput m"
proof -
  from assms(1) obtain s where
    s: "runSyscall (rm_regs m ! 17) (rm_regs m ! 10) (rm_pc m) True (mem_load8 (rm_mem m))
      (rm_exitCode m) (length (bytes (rm_mem m))) (rm_replayInput m) h = Some (Inr s)"
    and m': "m' = m\<lparr>rm_retired := rm_retired m + 1, rm_regs := (rm_regs m)[10 := s_arg s],
       rm_exitCode := s_code s, rm_halted := s_exit s\<rparr>"
    and r': "r' = (if syscallReturnsInput (rm_regs m ! 17)
       then r\<lparr>cr_registerWrite := Some \<lparr>rw_rd = 10, rw_value = rm_regs m' ! 10\<rparr>\<rparr> else r)"
    unfolding ref_ecall_def Let_def
    by (auto simp: bind_result_Inr split: option.splits)
  note arg = quiet_arg [OF s]
  show "rm_regs m' = (if syscallReturnsInput (rm_regs m ! 17)
          then (rm_regs m)[10 := rm_replayInput m] else rm_regs m)"
    using arg by (simp add: m')
  show "r' = (if syscallReturnsInput (rm_regs m ! 17)
          then r\<lparr>cr_registerWrite := Some \<lparr>rw_rd = 10, rw_value = rm_replayInput m\<rparr>\<rparr> else r)"
    using arg assms(2) by (simp add: r' m')
  show "rm_mem m' = rm_mem m" "rm_pc m' = rm_pc m" "rm_retired m' = rm_retired m + 1"
    "rm_replayInput m' = rm_replayInput m"
    by (simp_all add: m')
qed

lemma ref_default_Inr:
  assumes "ref_default (decode w) m r = Inr (r', next_pc, m')"
    and "cr_memoryWrite r = None" "cr_registerWrite r = None"
  shows "apply_record r' (rm_regs m, rm_mem m) = Inr (rm_regs m', rm_mem m')"
    and "length (bytes (rm_mem m')) = length (bytes (rm_mem m))"
    and "cr_sequence r' = cr_sequence r" "cr_pc r' = cr_pc r"
    and "cr_instruction r' = cr_instruction r" "cr_exception r' = cr_exception r"
    and "\<forall>w. cr_registerWrite r' = Some w \<longrightarrow> rw_rd w \<noteq> 0 \<and> unat (rw_rd w) < 32"
    and "rm_retired m' = rm_retired m + 1" "rm_halted m' = rm_halted m"
    and "rm_replayInput m' = rm_replayInput m" "rm_pc m' = rm_pc m"
proof -
  let ?I = "decode w"
  obtain b x v' mem' r1 where acc: "ref_access ?I (rm_pc m) (x_value x) b (rm_mem m) r = Inr (v', mem', r1)"
    and fin: "ref_writeback ?I m x (v', mem', r1) = (r', next_pc, m')"
    using assms(1) unfolding ref_default_def Let_def
    by (elim bind_resultE) auto
  note a = ref_access_Inr [OF acc assms(2,3)]
  let ?w = "writesRd (ins_op ?I) \<and> ins_rd ?I \<noteq> 0"
  have eqs: "r' = (if ?w
        then r1\<lparr>cr_registerWrite := Some \<lparr>rw_rd = ins_rd ?I, rw_value = v'\<rparr>\<rparr> else r1)"
      "m' = (if ?w
        then m\<lparr>rm_mem := mem', rm_retired := rm_retired m + 1,
               rm_regs := (rm_regs m)[unat (ins_rd ?I) := v']\<rparr>
        else m\<lparr>rm_mem := mem', rm_retired := rm_retired m + 1\<rparr>)"
    using fin by (auto simp: ref_writeback_def Let_def split: if_splits)
  obtain mw where r1: "r1 = r\<lparr>cr_memoryWrite := mw\<rparr>" using a(3) by blast
  show "apply_record r' (rm_regs m, rm_mem m) = Inr (rm_regs m', rm_mem m')"
    using a(1) [of "rm_regs m"] assms(3)
    by (auto simp: eqs r1 apply_record_def bind_result_Inr)
  show "length (bytes (rm_mem m')) = length (bytes (rm_mem m))" using a(2) by (simp add: eqs)
  show "\<forall>w. cr_registerWrite r' = Some w \<longrightarrow> rw_rd w \<noteq> 0 \<and> unat (rw_rd w) < 32"
    using assms(3) decode_fields(1) [of w] by (simp add: eqs r1)
  show "cr_sequence r' = cr_sequence r" "cr_pc r' = cr_pc r"
    "cr_instruction r' = cr_instruction r" "cr_exception r' = cr_exception r"
    "rm_retired m' = rm_retired m + 1" "rm_halted m' = rm_halted m"
    "rm_replayInput m' = rm_replayInput m" "rm_pc m' = rm_pc m"
    by (simp_all add: eqs r1)
qed

lemma ref_step_ok:
  assumes st: "ref_step h m = Some (Inr (Some r, m'))" and ok: "ref_ok m"
  shows "step_ok m r m'"
proof -
  have run: "\<not> rm_halted m" using st by (auto simp: ref_step_def)
  have al: "rm_pc m mod 4 = 0"
  proof (rule ccontr)
    assume "rm_pc m mod 4 \<noteq> 0"
    then show False using st run unfolding ref_step_def by simp
  qed
  obtain raw where raw: "mem_load32 (rm_mem m) (rm_pc m) = Inr raw"
    using st run by (cases "mem_load32 (rm_mem m) (rm_pc m)") (auto simp: ref_step_def split: if_splits)
  define I where "I = decode raw"
  define r0 where "r0 = \<lparr>cr_sequence = rm_retired m, cr_pc = rm_pc m, cr_instruction = raw,
     cr_registerWrite = None, cr_memoryWrite = None, cr_exception = None\<rparr>"
  have r0: "cr_sequence r0 = rm_retired m" "cr_pc r0 = rm_pc m" "cr_instruction r0 = raw"
    "cr_registerWrite r0 = None" "cr_memoryWrite r0 = None" "cr_exception r0 = None"
    by (simp_all add: r0_def)
  have len: "length (rm_regs m) = 32" using ok by (simp add: ref_ok_def)
  consider "ins_op I = ECALL" | "ins_op I = EBREAK" | "ins_op I = ILLEGAL"
    | "ins_op I \<notin> {ECALL, EBREAK, ILLEGAL}" by blast
  then show ?thesis
  proof cases
    case 1
    then obtain r' m1 where e: "ref_ecall h m r0 = Some (Inr (r', m1))" and
      fin: "r = r'" "m' = (if rm_halted m1 then m1 else m1\<lparr>rm_pc := rm_pc m + 4\<rparr>)"
      using st run raw
      by (auto simp: ref_step_def Let_def I_def r0_def split: if_splits option.splits elim!: bind_resultE)
    note ec = ref_ecall_Some [OF e len]
    show ?thesis
      using 1 raw r0 ec by (auto simp: step_ok_def fin apply_record_def I_def)
  next
    case 2
    then show ?thesis using st run raw r0
      by (auto simp: ref_step_def Let_def I_def step_ok_def apply_record_def split: if_splits)
  next
    case 3
    then show ?thesis using st run raw r0
      by (auto simp: ref_step_def Let_def I_def step_ok_def apply_record_def split: if_splits)
  next
    case 4
    then have ops: "(ins_op (decode raw) = ECALL) = False" "(ins_op (decode raw) = EBREAK) = False"
      "(ins_op (decode raw) = ILLEGAL) = False"
      by (simp_all add: I_def)
    have "ref_step h m = Some (bind_result (ref_default (decode raw) m r0)
        (\<lambda>(r, next_pc, m). Inr (Some r, if rm_halted m then m else m\<lparr>rm_pc := next_pc\<rparr>)))"
      unfolding ref_step_def Let_def r0_def
      by (simp only: run al raw ops not_not if_False if_True sum.case simp_thms)
    then obtain out where out: "ref_default (decode raw) m r0 = Inr out" and
      fin: "(\<lambda>(r, next_pc, m). (Some r, if rm_halted m then m else m\<lparr>rm_pc := next_pc\<rparr>)) out = (Some r, m')"
      using st by (cases "ref_default (decode raw) m r0") (auto simp: case_prod_beta)
    obtain r1 next_pc m1 where out1: "out = (r1, next_pc, m1)" by (cases out)
    have fin: "r1 = r" "m' = (if rm_halted m1 then m1 else m1\<lparr>rm_pc := next_pc\<rparr>)"
      using fin by (simp_all add: out1)
    note e = out [unfolded out1 fin(1)]
    note d = ref_default_Inr [OF e r0(5,4)]
    show ?thesis
      unfolding step_ok_def fin(2) using run d(7) by (simp add: d(1-6,8-11) r0 raw ops)
  qed
qed

lemma apply_record_regs:
  assumes "apply_record r (regs, mem) = Inr (regs', mem')"
  shows "regs' = (case cr_registerWrite r of None \<Rightarrow> regs
                  | Some w \<Rightarrow> regs[unat (rw_rd w) := rw_value w])"
  using assms unfolding apply_record_def by (auto elim!: bind_resultE)

lemma step_ok_ref_ok:
  assumes "step_ok m r m'" "ref_ok m"
  shows "ref_ok m'"
proof -
  have regs: "rm_regs m' = (case cr_registerWrite r of None \<Rightarrow> rm_regs m
                  | Some w \<Rightarrow> (rm_regs m)[unat (rw_rd w) := rw_value w])"
    by (rule apply_record_regs [of _ _ "rm_mem m" _ "rm_mem m'"])
      (use assms(1) in \<open>simp add: step_ok_def\<close>)
  have w: "0 < unat (rw_rd w)" if "cr_registerWrite r = Some w" for w
    using assms(1) that word_neq_0_less [of "rw_rd w"] by (simp add: step_ok_def)
  have "length (rm_regs m') = 32" "rm_regs m' ! 0 = 0"
    using assms(2) w by (simp_all add: regs ref_ok_def split: option.split)
  moreover have "length (bytes (rm_mem m')) = length (bytes (rm_mem m))"
    using assms(1) by (simp add: step_ok_def)
  ultimately show ?thesis using assms(2) by (simp add: ref_ok_def addressable_def)
qed

section \<open>Steps never get stuck\<close>

lemma ref_access_errors:
  "ref_access I pc v b mem r = Inl e \<Longrightarrow> e \<noteq> Undefined"
  by (auto simp: ref_access_def Let_def bind_result_Inl memory_write_ok mem_errors split: if_splits)

lemma ref_default_errors:
  assumes "ref_default I m r = Inl e"
  shows "e \<noteq> Undefined"
proof -
  obtain x where "execute I (rm_pc m) (if usesRs1 (ins_op I) then rm_regs m ! unat (ins_rs1 I) else 0)
      (if usesRs2 (ins_op I) then rm_regs m ! unat (ins_rs2 I) else 0) = Some x"
    using execute_total by blast
  then show ?thesis
    using assms by (auto simp: ref_default_def Let_def option_result_def bind_result_Inl
        dest: ref_access_errors)
qed

lemma display_word_errors:
  "display_word (mem_load8 m) a = Inl e \<Longrightarrow> e \<noteq> Undefined"
proof -
  have "read_range (mem_load8 m) a n = Inl e \<Longrightarrow> e \<noteq> Undefined" for n
    by (induction n arbitrary: a) (auto simp: bind_result_Inl mem_load8_eq split: if_splits)
  then show "display_word (mem_load8 m) a = Inl e \<Longrightarrow> e \<noteq> Undefined"
    by (auto simp: display_word_def bind_result_Inl)
qed

lemma quiet_errors:
  assumes "runSyscall num arg pc True (mem_load8 m) ec n ri h = Some (Inl e)"
  shows "e \<noteq> Undefined"
proof -
  have v: "present_validate d n (mem_load8 m) \<noteq> Inl Undefined" for d
    unfolding present_validate_def
    by (auto simp: bind_result_Inl display_check_def Let_def dest: display_word_errors split: if_splits)
  show ?thesis using assms v [of arg]
    by (auto simp: runSyscall_def Let_def present_def bind_result_Inl split: if_splits)
qed

lemma ref_ecall_returns:
  "ref_ecall h m r \<noteq> None \<and> ref_ecall h m r \<noteq> Some (Inl Undefined)"
proof -
  obtain s where s: "runSyscall (rm_regs m ! 17) (rm_regs m ! 10) (rm_pc m) True (mem_load8 (rm_mem m))
      (rm_exitCode m) (length (bytes (rm_mem m))) (rm_replayInput m) h = Some s"
    using quiet_returns by blast
  then have "s \<noteq> Inl Undefined" using quiet_errors by blast
  then show ?thesis by (cases s) (simp_all add: ref_ecall_def Let_def s)
qed

lemma mem_load32_errors: "mem_load32 m a \<noteq> Inl Undefined"
  by (simp add: mem_load32_def mem_errors)

lemma ref_step_returns: "\<exists>out. ref_step h m = Some out \<and> out \<noteq> Inl Undefined"
proof (cases "mem_load32 (rm_mem m) (rm_pc m)")
  case (Inl err)
  then have "err \<noteq> Undefined" using mem_load32_errors [of "rm_mem m" "rm_pc m"] by auto
  then show ?thesis using Inl by (simp add: ref_step_def)
next
  case (Inr raw)
  have e: "ref_ecall h m r = Some out \<Longrightarrow> out \<noteq> Inl Undefined" for r out
    using ref_ecall_returns [of h m r] by auto
  have d: "ref_default I m r \<noteq> Inl Undefined" for I r
    using ref_default_errors by blast
  show ?thesis
    unfolding ref_step_def Let_def Inr sum.case
    by (auto simp: ref_ecall_returns bind_result_Inl d dest: e split: option.split)
qed

lemma ref_step_total:
  assumes "ref_ok m"
  shows "\<exists>out. ref_step h m = Some out \<and> out \<noteq> Inl Undefined \<and>
    (\<forall>rec m'. out = Inr (rec, m') \<longrightarrow> ref_ok m' \<and> (rec = None \<longleftrightarrow> rm_halted m))"
proof -
  obtain out where out: "ref_step h m = Some out" "out \<noteq> Inl Undefined"
    using ref_step_returns by blast
  have "ref_ok m' \<and> (rec = None \<longleftrightarrow> rm_halted m)" if "out = Inr (rec, m')" for rec m'
  proof (cases rec)
    case None
    then have "rm_halted m \<and> m' = m"
      using out(1) that unfolding ref_step_def Let_def
      by (auto split: if_splits sum.splits option.splits elim!: bind_resultE)
    then show ?thesis using assms None by simp
  next
    case (Some r)
    have "\<not> rm_halted m" using out(1) that Some by (auto simp: ref_step_def)
    moreover have "ref_ok m'"
      using step_ok_ref_ok [OF ref_step_ok assms] out(1) that Some assms by simp
    ultimately show ?thesis using Some by simp
  qed
  then show ?thesis using out by blast
qed

text \<open>
  C13. The reference model cannot be stuck: from every state, a step returns; it never runs
  into an undefined C++ operation; and when it commits an instruction, the invariant of its
  state (32 registers, register zero is zero, memory inside the address space) is kept.
\<close>

theorem ref_step_safe:
  assumes "ref_ok m"
  shows "\<exists>out. ref_step h m = Some out \<and> out \<noteq> Inl Undefined \<and>
    (\<forall>rec m'. out = Inr (rec, m') \<longrightarrow> ref_ok m' \<and> (rec = None \<longleftrightarrow> rm_halted m))"
  using assms by (rule ref_step_total)

text \<open>A machine whose memory holds the two words \<^verbatim>\<open>addi a0, zero, 5; sw a0, 8(zero)\<close>.\<close>

definition demo_ref :: refmodel where
  "demo_ref = (refmodel_new 12)\<lparr>rm_mem := \<lparr>bytes =
     [0x13, 0x05, 0x50, 0x00, 0x23, 0x24, 0xA0, 0x00, 0, 0, 0, 0]\<rparr>\<rparr>"

lemma demo_ref_ok: "ref_ok demo_ref"
  by (simp add: demo_ref_def ref_ok_def refmodel_new_def addressable_def)

theorem ref_step_safe_witness:
  "\<exists>out. ref_step host_demo demo_ref = Some out \<and> out \<noteq> Inl Undefined"
  using ref_step_safe [OF demo_ref_ok, of host_demo] by blast

text \<open>
  C6. The commit record is a complete account of the instruction: it names the instruction's
  sequence number, pc and encoding; applying its register and memory writes to the
  architectural state before the step gives the state after it; register zero is never
  written; an exception is recorded exactly for an encoding that does not decode, which does
  not retire and halts with exit code 1; and a halted model keeps its pc.
\<close>

theorem commit_record_complete:
  assumes "ref_ok m" "ref_step h m = Some (Inr (Some r, m'))"
  shows "cr_sequence r = rm_retired m \<and> cr_pc r = rm_pc m \<and>
    mem_load32 (rm_mem m) (rm_pc m) = Inr (cr_instruction r) \<and>
    apply_record r (rm_regs m, rm_mem m) = Inr (rm_regs m', rm_mem m') \<and>
    (\<forall>w. cr_registerWrite r = Some w \<longrightarrow> rw_rd w \<noteq> 0 \<and> unat (rw_rd w) < 32) \<and>
    (cr_exception r \<noteq> None \<longleftrightarrow> ins_op (decode (cr_instruction r)) = ILLEGAL) \<and>
    rm_retired m' = (if cr_exception r = None then rm_retired m + 1 else rm_retired m) \<and>
    (cr_exception r \<noteq> None \<longrightarrow> rm_halted m' \<and> rm_exitCode m' = 1) \<and>
    (rm_halted m' \<longrightarrow> rm_pc m' = rm_pc m)"
  using ref_step_ok [OF assms(2,1)] by (simp add: step_ok_def)

lemma demo_fetch: "mem_load32 (rm_mem demo_ref) 0 = Inr 0x00500513"
  by (simp add: demo_ref_def refmodel_new_def mem_load32_def mem_load_def mem_check_def
      load_bytes_def upt_4)

lemma demo_decode: "decode 0x00500513 =
    \<lparr>ins_op = ADDI, ins_rd = 10, ins_rs1 = 0, ins_rs2 = 5, ins_imm = 5, ins_raw = 0x00500513\<rparr>"
  by (simp add: decode_simps funct3_def funct7_def immI_def)

lemma demo_step:
  "ref_step host_demo demo_ref = Some (Inr (
     Some \<lparr>cr_sequence = 0, cr_pc = 0, cr_instruction = 0x00500513,
           cr_registerWrite = Some \<lparr>rw_rd = 10, rw_value = 5\<rparr>, cr_memoryWrite = None,
           cr_exception = None\<rparr>,
     demo_ref\<lparr>rm_regs := (replicate 32 0)[10 := 5], rm_pc := 4, rm_retired := 1\<rparr>))"
proof -
  have "rm_pc demo_ref = 0" "rm_regs demo_ref = replicate 32 0" "rm_halted demo_ref = False"
    "rm_retired demo_ref = 0"
    by (simp_all add: demo_ref_def refmodel_new_def)
  then show ?thesis
    by (simp add: ref_step_def demo_fetch demo_decode ref_default_def ref_access_def
        ref_writeback_def execute_def execute_op_def option_result_def result0_def class_defs
        Let_def)
qed

theorem commit_record_complete_witness:
  "\<exists>r m'. ref_step host_demo demo_ref = Some (Inr (Some r, m')) \<and>
     apply_record r (rm_regs demo_ref, rm_mem demo_ref) = Inr (rm_regs m', rm_mem m') \<and>
     rm_regs m' ! 10 = 5"
  using commit_record_complete [OF demo_ref_ok demo_step] demo_step by auto

section \<open>Commit streams\<close>

text \<open>Applying the records of a stream one after the other.\<close>

primrec apply_records ::
  "CommitRecord list \<Rightarrow> u32 list \<times> memory \<Rightarrow> (u32 list \<times> memory) result" where
  "apply_records [] s = Inr s"
| "apply_records (r # rs) s = bind_result (apply_record r s) (apply_records rs)"

lemma ref_run_ok:
  assumes "ref_run n h m = Some (Inr (rs, m'))" "ref_ok m"
  shows "ref_ok m' \<and> apply_records rs (rm_regs m, rm_mem m) = Inr (rm_regs m', rm_mem m') \<and>
    map cr_sequence rs = map (\<lambda>i. rm_retired m + word_of_nat i) [0..<length rs] \<and>
    (\<forall>r \<in> set (butlast rs). cr_exception r = None)"
  using assms
proof (induction n arbitrary: m rs)
  case 0
  then show ?case by simp
next
  case (Suc n)
  obtain out where out: "ref_step h m = Some out" using ref_step_returns by blast
  then obtain rec m1 where rec: "out = Inr (rec, m1)"
    using Suc.prems(1) by (cases out) auto
  show ?case
  proof (cases rec)
    case None
    then have "rm_halted m" using ref_step_total [OF Suc.prems(2), of h] out rec by auto
    then have "rs = [] \<and> m' = m" using Suc.prems(1) by (simp add: ref_step_def)
    then show ?thesis using Suc.prems(2) by simp
  next
    case (Some r)
    note st = out [unfolded rec Some]
    have ok: "step_ok m r m1" and ok1: "ref_ok m1"
      using ref_step_ok [OF st Suc.prems(2)] step_ok_ref_ok Suc.prems(2) by blast+
    obtain rs1 where rest: "ref_run n h m1 = Some (Inr (rs1, m'))" and rs: "rs = r # rs1"
      using Suc.prems(1) st by (auto elim!: bind_resultE)
    note IH = Suc.IH [OF rest ok1]
    have ret: "cr_exception r = None \<or> rs1 = []"
    proof (cases "cr_exception r")
      case (Some x)
      then have "rm_halted m1" using ok by (simp add: step_ok_def)
      then show ?thesis using rest by (cases n) (simp_all add: ref_step_def)
    qed simp
    then have seq: "map cr_sequence rs = map (\<lambda>i. rm_retired m + word_of_nat i) [0..<length rs]"
      using IH ok by (auto simp: rs step_ok_def map_upt_Suc add_ac simp del: upt_Suc)
    have "apply_records rs (rm_regs m, rm_mem m) = Inr (rm_regs m', rm_mem m')"
      using IH ok by (simp add: rs step_ok_def)
    then show ?thesis using IH seq ret by (auto simp: rs)
  qed
qed

text \<open>
  C12. The commit stream determines the architectural state: applying the records of a run,
  in order, to the initial registers and memory gives the final ones, the records are
  numbered consecutively, and an exception can only be the last record.  So comparing commit
  streams compares executions, and a run that differs from the reference in a register or in
  memory differs in its stream.
\<close>

theorem commit_stream_replay:
  assumes "ref_ok m" "ref_run n h m = Some (Inr (rs, m'))"
  shows "apply_records rs (rm_regs m, rm_mem m) = Inr (rm_regs m', rm_mem m') \<and>
    map cr_sequence rs = map (\<lambda>i. rm_retired m + word_of_nat i) [0..<length rs] \<and>
    (\<forall>i < length rs - 1. cr_exception (rs ! i) = None)"
proof -
  note run = ref_run_ok [OF assms(2,1)]
  have "cr_exception (rs ! i) = None" if i: "i < length rs - 1" for i
  proof -
    have "rs ! i \<in> set (butlast rs)"
      using i by (auto simp: in_set_conv_nth nth_butlast intro!: exI [of _ i])
    then show ?thesis using run by blast
  qed
  then show ?thesis using run by blast
qed

theorem commit_stream_replay_witness:
  "\<exists>rs m'. ref_run 1 host_demo demo_ref = Some (Inr (rs, m')) \<and> length rs = 1 \<and>
     apply_records rs (rm_regs demo_ref, rm_mem demo_ref) = Inr (rm_regs m', rm_mem m')"
proof -
  obtain rs m' where run: "ref_run 1 host_demo demo_ref = Some (Inr (rs, m'))" "length rs = 1"
    by (simp add: demo_step)
  from commit_stream_replay [OF demo_ref_ok run(1)] run show ?thesis by blast
qed

section \<open>Failures\<close>

definition ref_effective :: "refmodel \<Rightarrow> instr \<Rightarrow> u32" where
  "ref_effective m I = rm_regs m ! unat (ins_rs1 I) + ins_imm I"

lemma execute_address:
  assumes "isLoad (ins_op I) \<or> isStore (ins_op I)"
  shows "execute I pc a b = Some (result0\<lparr>x_value := a + ins_imm I\<rparr>)"
  using assms by (auto simp: isLoad_iff isStore_iff execute_def execute_op_def isBranch_iff)

lemma ref_default_fails:
  assumes "ref_default I m r = Inl e" "usesRs1 (ins_op I)" "isLoad (ins_op I) \<or> isStore (ins_op I)"
  shows "if ref_effective m I mod accessSize (ins_op I) \<noteq> 0
    then e = Misaligned (ref_effective m I) (if isStore (ins_op I) then ''store'' else ''load'') (rm_pc m)
    else length (bytes (rm_mem m)) < unat (ref_effective m I) + unat (accessSize (ins_op I)) \<and>
      e = OutOfRange (ref_effective m I) (if isStore (ins_op I) then ''store'' else ''load'')"
  using assms load_not_store [of "ins_op I"] execute_address [OF assms(3)]
  by (auto simp: ref_default_def Let_def option_result_def ref_access_def ref_effective_def
      result0_def bind_result_Inl mem_errors memory_write_ok split: if_splits)

definition access_fault :: "refmodel \<Rightarrow> instr \<Rightarrow> fatal \<Rightarrow> bool" where
  "access_fault m I e \<longleftrightarrow>
     (isLoad (ins_op I) \<or> isStore (ins_op I)) \<and>
     (let a = ref_effective m I; sz = accessSize (ins_op I);
          what = (if isStore (ins_op I) then ''store'' else ''load'')
      in if a mod sz \<noteq> 0 then e = Misaligned a what (rm_pc m)
         else length (bytes (rm_mem m)) < unat a + unat sz \<and> e = OutOfRange a what)"

lemma ref_default_fault:
  assumes "ref_default I m r = Inl e"
  shows "access_fault m I e"
proof -
  have ls: "isLoad (ins_op I) \<or> isStore (ins_op I)"
  proof (rule ccontr)
    assume n: "\<not> ?thesis"
    obtain x where "execute I (rm_pc m) (if usesRs1 (ins_op I) then rm_regs m ! unat (ins_rs1 I) else 0)
        (if usesRs2 (ins_op I) then rm_regs m ! unat (ins_rs2 I) else 0) = Some x"
      using execute_total by blast
    then show False
      using assms n by (simp add: ref_default_def Let_def option_result_def ref_access_def)
  qed
  then have "usesRs1 (ins_op I)" by (auto simp: isLoad_iff isStore_iff usesRs1_def)
  from ref_default_fails [OF assms this ls] ls show ?thesis
    by (simp add: access_fault_def Let_def)
qed

lemma ref_ecall_fault: "ref_ecall h m r = Some (Inl e) \<Longrightarrow> rm_regs m ! 17 = 6"
  by (auto simp: ref_ecall_def Let_def bind_result_Inl runSyscall_def split: option.splits if_splits)

text \<open>The fault of a step, in the order the interpreter meets it.\<close>

definition access_error :: "refmodel \<Rightarrow> instr \<Rightarrow> fatal option" where
  "access_error m I =
     (let a = ref_effective m I; sz = accessSize (ins_op I); what = (if isStore (ins_op I) then ''store'' else ''load'')
      in if \<not> isLoad (ins_op I) \<and> \<not> isStore (ins_op I) then None
         else if a mod sz \<noteq> 0 then Some (Misaligned a what (rm_pc m))
         else if length (bytes (rm_mem m)) < unat a + unat sz then Some (OutOfRange a what) else None)"

definition step_fault :: "refmodel \<Rightarrow> fatal option" where
  "step_fault m =
     (if rm_halted m then None
      else if rm_pc m mod 4 \<noteq> 0 then Some (MisalignedFetch (rm_pc m))
      else if length (bytes (rm_mem m)) < unat (rm_pc m) + 4 then Some (OutOfRange (rm_pc m) ''load'')
      else let I = decode (load_bytes (bytes (rm_mem m)) (rm_pc m) 4) in
        if ins_op I = ECALL
        then (if rm_regs m ! 17 = 6
              then (case present_validate (rm_regs m ! 10) (length (bytes (rm_mem m))) (mem_load8 (rm_mem m)) of
                      Inl e \<Rightarrow> Some e | Inr _ \<Rightarrow> None)
              else None)
        else access_error m I)"

lemma access_errorI: "access_fault m I e \<longleftrightarrow> access_error m I = Some e"
  by (auto simp: access_fault_def access_error_def Let_def)

lemma ref_default_fault_iff: "ref_default I m r = Inl e \<longleftrightarrow> access_fault m I e"
proof
  assume f: "access_fault m I e"
  then have ls: "isLoad (ins_op I) \<or> isStore (ins_op I)" by (simp add: access_fault_def)
  then have u: "usesRs1 (ins_op I)" by (auto simp: isLoad_iff isStore_iff usesRs1_def)
  show "ref_default I m r = Inl e"
    using f ls u load_not_store [of "ins_op I"] execute_address [OF ls]
    by (auto simp: access_fault_def ref_default_def Let_def option_result_def ref_access_def ref_effective_def
        result0_def bind_result_Inl mem_errors memory_write_ok split: if_splits)
qed (rule ref_default_fault)

lemma ref_ecall_fault_iff:
  "ref_ecall h m r = Some (Inl e) \<longleftrightarrow> rm_regs m ! 17 = 6 \<and>
     present_validate (rm_regs m ! 10) (length (bytes (rm_mem m))) (mem_load8 (rm_mem m)) = Inl e"
  by (auto simp: ref_ecall_def Let_def bind_result_Inl runSyscall_def present_def split: option.splits if_splits)

text \<open>
  C19. Exactly which steps fail, and with which error: the step fails with \<^verbatim>\<open>e\<close> if and only if
  the model is not halted and, in this order, its pc is not a multiple of four; or the pc is not
  inside memory; or the instruction is an \<^verbatim>\<open>ECALL\<close> with number 6 in \<^verbatim>\<open>a7\<close> whose frame the display
  call rejects (with the error of that check); or it is a load or store whose effective address is
  not a multiple of the access size, or is not inside memory.  Every other step, \<^verbatim>\<open>EBREAK\<close>, an
  illegal instruction and every other system call included, does not fail.
\<close>

theorem ref_step_failures:
  "ref_step h m = Some (Inl e) \<longleftrightarrow> step_fault m = Some e"
proof (cases "rm_halted m \<or> rm_pc m mod 4 \<noteq> 0")
  case True
  then show ?thesis by (auto simp: ref_step_def step_fault_def)
next
  case False
  show ?thesis
  proof (cases "mem_load32 (rm_mem m) (rm_pc m)")
    case (Inl x)
    moreover have "length (bytes (rm_mem m)) < unat (rm_pc m) + 4 \<and> x = OutOfRange (rm_pc m) ''load''"
      using Inl by (simp add: mem_load32_def mem_errors)
    ultimately show ?thesis using False by (auto simp: ref_step_def step_fault_def)
  next
    case (Inr raw)
    then have raw: "\<not> length (bytes (rm_mem m)) < unat (rm_pc m) + 4" "raw = load_bytes (bytes (rm_mem m)) (rm_pc m) 4"
      by (auto simp: mem_load32_def mem_load_def mem_check_def bind_result_Inr split: if_splits)
    show ?thesis
    proof (cases "ins_op (decode raw) = ECALL")
      case True
      then show ?thesis using False Inr raw(1) ref_ecall_fault_iff [of h m _ e]
        by (auto simp: ref_step_def step_fault_def Let_def bind_result_Inl simp flip: raw(2) split: option.splits sum.splits)
    next
      case no: False
      have "access_error m (decode raw) = None" if "ins_op (decode raw) = EBREAK \<or> ins_op (decode raw) = ILLEGAL"
        using that by (auto simp: access_error_def isLoad_iff isStore_iff)
      then show ?thesis using False Inr raw(1) no ref_default_fault_iff [of "decode raw" m _ e]
        by (auto simp: ref_step_def step_fault_def Let_def bind_result_Inl access_errorI simp flip: raw(2))
    qed
  qed
qed

end
