(* ===== verification/Slot_Set.thy ===== *)
theory Slot_Set
  imports Prelude
begin

text \<open>
  Model of \<^verbatim>\<open>core/slot_set.h\<close>: a set of ring slots stored as a bitmap of 64-bit words, with
  walks in ring age order.  A visitor is a function from a slot and the caller's state to the
  flag that continues the walk and the new state.  The caller's state contains the bitmap
  (\<open>getw\<close> reads it), because visitors may remove the slot they are given, and the walk reads
  the words while it goes.  Slot numbers are below the size of the bitmap, so no arithmetic on
  them wraps, and they are naturals here.
\<close>

section \<open>Counting zeros\<close>

text \<open>
  \<^verbatim>\<open>__builtin_ctzll\<close> and \<^verbatim>\<open>__builtin_clzll\<close>; the source calls them on words other than zero.
\<close>

definition ctz64 :: "u64 \<Rightarrow> nat" where
  "ctz64 w = length (takeWhile (\<lambda>i. \<not> bit w i) [0..<64])"

definition clz64 :: "u64 \<Rightarrow> nat" where
  "clz64 w = length (takeWhile (\<lambda>i. \<not> bit w (63 - i)) [0..<64])"

definition bits_of :: "u64 \<Rightarrow> nat list" where
  "bits_of w = filter (bit w) [0..<64]"

lemma word64_nonzero:
  assumes "(w :: u64) \<noteq> 0"
  obtains n where "n < 64" "bit w n"
proof -
  have "\<exists>n<64. bit w n"
  proof (rule ccontr)
    assume "\<not> ?thesis"
    then have "w = 0" by (intro bit_word_eqI) simp
    with assms show False by contradiction
  qed
  with that show ?thesis by blast
qed

lemma takeWhile_first:
  assumes "n < 64" "P n"
  defines "k \<equiv> length (takeWhile (\<lambda>i. \<not> P i) [0..<64::nat])"
  shows "k < 64" "P k" "\<And>i. i < k \<Longrightarrow> \<not> P i"
proof -
  have "takeWhile (\<lambda>i. \<not> P i) [0..<64] \<noteq> [0..<64]"
    using assms(1,2) by (auto simp: takeWhile_eq_all_conv)
  then have len: "k < length [0..<64]"
    unfolding k_def by (metis append_Nil2 length_takeWhile_le nat_less_le takeWhile_dropWhile_id
        append_eq_conv_conj takeWhile_eq_take take_all_iff)
  then show "k < 64" by simp
  show "P k" using nth_length_takeWhile [of "\<lambda>i. \<not> P i" "[0..<64]"] len by (simp add: k_def)
  show "\<not> P i" if "i < k" for i
  proof -
    have "takeWhile (\<lambda>i. \<not> P i) [0..<64] ! i = [0..<64] ! i"
      by (rule takeWhile_nth) (use that in \<open>simp add: k_def\<close>)
    moreover have "takeWhile (\<lambda>i. \<not> P i) [0..<64] ! i \<in> set (takeWhile (\<lambda>i. \<not> P i) [0..<64])"
      by (rule nth_mem) (use that in \<open>simp add: k_def\<close>)
    ultimately show ?thesis using that \<open>k < 64\<close> by (auto dest: set_takeWhileD)
  qed
qed

lemma ctz64_bit:
  assumes "w \<noteq> 0"
  shows "ctz64 w < 64" "bit w (ctz64 w)" "\<And>i. i < ctz64 w \<Longrightarrow> \<not> bit w i"
proof -
  obtain n where "n < 64" "bit w n" using assms by (rule word64_nonzero)
  from takeWhile_first [of n "bit w", OF this]
  show "ctz64 w < 64" "bit w (ctz64 w)" "\<And>i. i < ctz64 w \<Longrightarrow> \<not> bit w i"
    by (simp_all add: ctz64_def)
qed

lemma clz64_bit:
  assumes "w \<noteq> 0"
  shows "clz64 w < 64" "bit w (63 - clz64 w)" "\<And>i. 63 - clz64 w < i \<Longrightarrow> \<not> bit w i"
proof -
  obtain n where n: "n < 64" "bit w n" using assms by (rule word64_nonzero)
  have k: "63 - n < 64" "bit w (63 - (63 - n))" using n by simp_all
  from takeWhile_first [of _ "\<lambda>i. bit w (63 - i)", OF k]
  have f: "clz64 w < 64" "bit w (63 - clz64 w)" "\<And>i. i < clz64 w \<Longrightarrow> \<not> bit w (63 - i)"
    by (simp_all add: clz64_def)
  show "clz64 w < 64" "bit w (63 - clz64 w)" by (rule f)+
  show "\<not> bit w i" if "63 - clz64 w < i" for i
  proof (cases "i < 64")
    case True
    then have "\<not> bit w (63 - (63 - i))" using that f(1) by (intro f(3)) linarith
    then show ?thesis using True by simp
  next
    case False
    then show ?thesis by (auto dest: bit_imp_le_length)
  qed
qed

text \<open>\<^verbatim>\<open>bits & (bits - 1)\<close> clears the lowest set bit and nothing else.\<close>

lemma bit_clear_lowest:
  assumes "w \<noteq> 0"
  shows "bit (w AND (w - 1)) n \<longleftrightarrow> bit w n \<and> n \<noteq> ctz64 w"
  using ctz64_bit [OF assms] by (intro bit_pred_lowest) simp_all

lemma upt_split64:
  assumes "m < 64"
  shows "[0..<64] = [0..<m] @ m # [Suc m..<64]"
proof -
  have "[0..<64] = [0..<m] @ [m..<64]" using upt_add_eq_append [of 0 m "64 - m"] assms by simp
  then show ?thesis using assms by (simp add: upt_conv_Cons)
qed

lemma bits_of_lowest:
  assumes "w \<noteq> 0"
  shows "bits_of w = ctz64 w # bits_of (w AND (w - 1))"
proof -
  note m = ctz64_bit [OF assms]
  let ?m = "ctz64 w" and ?v = "w AND (w - 1)"
  have split: "[0..<64] = [0..<?m] @ ?m # [Suc ?m..<64]"
    using m(1) by (rule upt_split64)
  have "filter (bit w) [0..<?m] = []" "filter (bit ?v) [0..<?m] = []"
    using m(3) bit_clear_lowest [OF assms] by (auto simp: filter_empty_conv)
  moreover have "filter (bit ?v) [Suc ?m..<64] = filter (bit w) [Suc ?m..<64]"
    using bit_clear_lowest [OF assms] by (intro filter_cong) auto
  ultimately show ?thesis
    using m(2) bit_clear_lowest [OF assms, of ?m] unfolding bits_of_def split by simp
qed

lemma bits_of_highest:
  assumes "w \<noteq> 0"
  shows "bits_of w = bits_of (w AND NOT (push_bit (63 - clz64 w) 1)) @ [63 - clz64 w]"
proof -
  note m = clz64_bit [OF assms]
  let ?m = "63 - clz64 w"
  let ?v = "w AND NOT (push_bit ?m 1)"
  have v: "bit ?v i \<longleftrightarrow> bit w i \<and> i \<noteq> ?m" for i
    by (auto simp: bit_simps dest: bit_imp_le_length)
  have split: "[0..<64] = [0..<?m] @ ?m # [Suc ?m..<64]"
    by (rule upt_split64) simp
  have "filter (bit w) [Suc ?m..<64] = []" "filter (bit ?v) [Suc ?m..<64] = []"
    using m(3) v by (auto simp: filter_empty_conv)
  moreover have "filter (bit ?v) [0..<?m] = filter (bit w) [0..<?m]"
    using v by (intro filter_cong) auto
  ultimately show ?thesis
    using m(2) v [of ?m] unfolding bits_of_def split by simp
qed

lemma bits_of_0 [simp]: "bits_of 0 = []"
  by (simp add: bits_of_def)

lemma bits_of_Nil: "bits_of w = [] \<longleftrightarrow> w = 0"
  by (cases "w = 0") (simp_all add: bits_of_lowest)

section \<open>Walks\<close>

text \<open>The reference walk: visit the slots of a list until the visitor stops.\<close>

type_synonym 's visitor = "nat \<Rightarrow> 's \<Rightarrow> bool \<times> 's"

primrec walk :: "'s visitor \<Rightarrow> nat list \<Rightarrow> 's \<Rightarrow> bool \<times> 's" where
  "walk f [] s = (True, s)"
| "walk f (x # xs) s = (case f x s of (go, s') \<Rightarrow> if go then walk f xs s' else (False, s'))"

lemma walk_append:
  "walk f (xs @ ys) s = (case walk f xs s of (go, s') \<Rightarrow> if go then walk f ys s' else (False, s'))"
  by (induction xs arbitrary: s) (auto split: prod.split)

section \<open>The set\<close>

text \<open>A set is its capacity and its words.\<close>

record slot_set =
  ss_capacity :: nat
  ss_words :: "u64 list"

definition slot_set_new :: "nat \<Rightarrow> slot_set" where
  "slot_set_new capacity =
     \<lparr>ss_capacity = capacity, ss_words = replicate ((capacity + 63) div 64) 0\<rparr>"

definition word_set :: "nat \<Rightarrow> u64 list \<Rightarrow> u64 list" where
  "word_set x ws = ws[x div 64 := (ws ! (x div 64)) OR push_bit (x mod 64) 1]"

definition word_reset :: "nat \<Rightarrow> u64 list \<Rightarrow> u64 list" where
  "word_reset x ws = ws[x div 64 := (ws ! (x div 64)) AND NOT (push_bit (x mod 64) 1)]"

definition ss_set :: "nat \<Rightarrow> slot_set \<Rightarrow> slot_set" where
  "ss_set x S = S\<lparr>ss_words := word_set x (ss_words S)\<rparr>"

definition ss_reset :: "nat \<Rightarrow> slot_set \<Rightarrow> slot_set" where
  "ss_reset x S = S\<lparr>ss_words := word_reset x (ss_words S)\<rparr>"

definition below :: "nat \<Rightarrow> u64" where
  "below b = (if b \<noteq> 0 then push_bit b 1 - 1 else - 1)"

function forwardBits :: "'s visitor \<Rightarrow> u64 \<Rightarrow> nat \<Rightarrow> 's \<Rightarrow> bool \<times> 's" where
  "forwardBits f bits base s =
     (if bits = 0 then (True, s)
      else case f (base + ctz64 bits) s of
        (go, s') \<Rightarrow> if go then forwardBits f (bits AND (bits - 1)) base s' else (False, s'))"
  by pat_completeness auto
termination
proof (relation "measure (\<lambda>(f, bits, base, s). length (bits_of bits))", goal_cases)
  case 1
  then show ?case by simp
next
  case (2 f bits base s)
  then show ?case using bits_of_lowest [of bits] by simp
qed

declare forwardBits.simps [simp del]

text \<open>The loop over the words of \<^verbatim>\<open>forward\<close>; \<open>ws\<close> are the word numbers still to visit.\<close>

primrec forward_words ::
  "('s \<Rightarrow> u64 list) \<Rightarrow> 's visitor \<Rightarrow> nat \<Rightarrow> nat \<Rightarrow> nat list \<Rightarrow> 's \<Rightarrow> bool \<times> 's" where
  "forward_words getw f b e [] s = (True, s)"
| "forward_words getw f b e (w # ws) s =
     (let bits = getw s ! w;
          bits = if w = b div 64 then bits AND push_bit (b mod 64) (- 1) else bits;
          bits = if w = (e - 1) div 64 then bits AND below (e mod 64) else bits
      in case forwardBits f bits (w * 64) s of
           (go, s') \<Rightarrow> if go then forward_words getw f b e ws s' else (False, s'))"

definition forward :: "('s \<Rightarrow> u64 list) \<Rightarrow> 's visitor \<Rightarrow> nat \<Rightarrow> nat \<Rightarrow> 's \<Rightarrow> bool \<times> 's" where
  "forward getw f b e s =
     (if b = e then (True, s)
      else forward_words getw f b e [b div 64..<Suc ((e - 1) div 64)] s)"

text \<open>The inner loop of \<^verbatim>\<open>reverse\<close>, from the highest set bit down.\<close>

function reverseBits :: "'s visitor \<Rightarrow> u64 \<Rightarrow> nat \<Rightarrow> 's \<Rightarrow> bool \<times> 's" where
  "reverseBits f bits base s =
     (if bits = 0 then (True, s)
      else let b = 63 - clz64 bits in
        case f (base + b) s of
          (go, s') \<Rightarrow> if go then reverseBits f (bits AND NOT (push_bit b 1)) base s' else (False, s'))"
  by pat_completeness auto
termination
proof (relation "measure (\<lambda>(f, bits, base, s). length (bits_of bits))", goal_cases)
  case 1
  then show ?case by simp
next
  case (2 f bits base s)
  then show ?case using bits_of_highest [of bits] by simp
qed

declare reverseBits.simps [simp del]

primrec reverse_words ::
  "('s \<Rightarrow> u64 list) \<Rightarrow> 's visitor \<Rightarrow> nat \<Rightarrow> nat \<Rightarrow> nat list \<Rightarrow> 's \<Rightarrow> bool \<times> 's" where
  "reverse_words getw f b e [] s = (True, s)"
| "reverse_words getw f b e (w # ws) s =
     (let bits = getw s ! w;
          bits = if w = b div 64 then bits AND push_bit (b mod 64) (- 1) else bits;
          bits = if w = (e - 1) div 64 then bits AND below (e mod 64) else bits
      in case reverseBits f bits (w * 64) s of
           (go, s') \<Rightarrow> if go then reverse_words getw f b e ws s' else (False, s'))"

definition reverse :: "('s \<Rightarrow> u64 list) \<Rightarrow> 's visitor \<Rightarrow> nat \<Rightarrow> nat \<Rightarrow> 's \<Rightarrow> bool \<times> 's" where
  "reverse getw f b e s =
     (if b = e then (True, s)
      else reverse_words getw f b e (rev [b div 64..<Suc ((e - 1) div 64)]) s)"

definition ss_visit ::
  "nat \<Rightarrow> ('s \<Rightarrow> u64 list) \<Rightarrow> nat \<Rightarrow> 's visitor \<Rightarrow> 's \<Rightarrow> 's" where
  "ss_visit capacity getw head f s =
     (if capacity \<le> 64 then
        (case forwardBits f (getw s ! 0 AND push_bit head (- 1)) 0 s of
           (go, s') \<Rightarrow>
             if \<not> go then s'
             else if head \<noteq> 0
             then snd (forwardBits f (getw s' ! 0 AND (push_bit head 1 - 1)) 0 s')
             else s')
      else
        (case forward getw f head capacity s of
           (go, s') \<Rightarrow> if go then snd (forward getw f 0 head s') else s'))"

definition ss_visitOlder ::
  "nat \<Rightarrow> ('s \<Rightarrow> u64 list) \<Rightarrow> nat \<Rightarrow> nat \<Rightarrow> 's visitor \<Rightarrow> 's \<Rightarrow> 's" where
  "ss_visitOlder capacity getw head e f s =
     (if head \<le> e then snd (reverse getw f head e s)
      else case reverse getw f 0 e s of
        (go, s') \<Rightarrow> if go then snd (reverse getw f head capacity s') else s')"

section \<open>Membership\<close>

definition member :: "u64 list \<Rightarrow> nat \<Rightarrow> bool" where
  "member ws x \<longleftrightarrow> bit (ws ! (x div 64)) (x mod 64)"

lemma member_word_set:
  assumes "x < 64 * length ws" "y < 64 * length ws"
  shows "member (word_set x ws) y \<longleftrightarrow> y = x \<or> member ws y"
proof -
  have "x div 64 < length ws" "y div 64 < length ws" using assms by linarith+
  moreover have "y = x \<longleftrightarrow> y div 64 = x div 64 \<and> y mod 64 = x mod 64"
    by (metis div_mult_mod_eq)
  ultimately show ?thesis
    by (auto simp: member_def word_set_def nth_list_update bit_simps)
qed

lemma member_word_reset:
  assumes "x < 64 * length ws" "y < 64 * length ws"
  shows "member (word_reset x ws) y \<longleftrightarrow> y \<noteq> x \<and> member ws y"
proof -
  have "x div 64 < length ws" "y div 64 < length ws" using assms by linarith+
  moreover have "y = x \<longleftrightarrow> y div 64 = x div 64 \<and> y mod 64 = x mod 64"
    by (metis div_mult_mod_eq)
  ultimately show ?thesis
    by (auto simp: member_def word_reset_def nth_list_update bit_simps)
qed

lemma length_word_set [simp]: "length (word_set x ws) = length ws" "length (word_reset x ws) = length ws"
  by (simp_all add: word_set_def word_reset_def)

lemma member_replicate [simp]: "x div 64 < n \<Longrightarrow> \<not> member (replicate n 0) x"
  by (simp add: member_def)

section \<open>The word loops are walks\<close>

lemma forwardBits_walk:
  "forwardBits f bits base s = walk f (map (\<lambda>i. base + i) (bits_of bits)) s"
proof (induction f bits base s rule: forwardBits.induct)
  case (1 f bits base s)
  show ?case
  proof (cases "bits = 0")
    case True
    then show ?thesis by (simp add: forwardBits.simps)
  next
    case False
    then show ?thesis
      using 1 by (subst forwardBits.simps) (simp add: bits_of_lowest split: prod.split)
  qed
qed

lemma reverseBits_walk:
  "reverseBits f bits base s = walk f (rev (map (\<lambda>i. base + i) (bits_of bits))) s"
proof (induction f bits base s rule: reverseBits.induct)
  case (1 f bits base s)
  show ?case
  proof (cases "bits = 0")
    case True
    then show ?thesis by (simp add: reverseBits.simps)
  next
    case False
    then show ?thesis
      using 1 by (subst reverseBits.simps) (simp add: bits_of_highest Let_def split: prod.split)
  qed
qed

text \<open>
  One word with its masks is the part of the range \<open>[b, e)\<close> that falls into it.
\<close>

definition masked_word :: "u64 list \<Rightarrow> nat \<Rightarrow> nat \<Rightarrow> nat \<Rightarrow> u64" where
  "masked_word ws b e w =
     (let bits = ws ! w;
          bits = if w = b div 64 then bits AND push_bit (b mod 64) (- 1) else bits
      in if w = (e - 1) div 64 then bits AND below (e mod 64) else bits)"

definition range_part :: "u64 list \<Rightarrow> nat \<Rightarrow> nat \<Rightarrow> nat \<Rightarrow> nat list" where
  "range_part ws b e w = filter (\<lambda>x. member ws x \<and> b \<le> x \<and> x < e) [w * 64..<w * 64 + 64]"

lemma bit_below: "n < 64 \<Longrightarrow> k < 64 \<Longrightarrow> bit (below k) n \<longleftrightarrow> k = 0 \<or> n < k"
  by (auto simp: below_def mask_eq_exp_minus_1 [symmetric] bit_simps)

lemma map_add_upt64: "map (\<lambda>i. w * 64 + i) [0..<64] = [w * 64..<w * 64 + 64 :: nat]"
  by (rule nth_equalityI) simp_all

lemma range_low:
  fixes b :: nat
  assumes "b div 64 \<le> w" "i < 64"
  shows "b \<le> w * 64 + i \<longleftrightarrow> w \<noteq> b div 64 \<or> b mod 64 \<le> i"
proof -
  define q r where "q = b div 64" and "r = b mod 64"
  have b: "b = q * 64 + r" "r < 64" by (simp_all add: q_def r_def)
  have "b \<le> w * 64 + i \<longleftrightarrow> w \<noteq> q \<or> r \<le> i"
    using assms unfolding q_def [symmetric] b(1) using b(2) by (cases "w = q") simp_all
  then show ?thesis by (simp add: q_def r_def)
qed

lemma range_high:
  fixes e :: nat
  assumes "w \<le> (e - 1) div 64" "0 < e" "i < 64"
  shows "w * 64 + i < e \<longleftrightarrow> w \<noteq> (e - 1) div 64 \<or> e mod 64 = 0 \<or> i < e mod 64"
proof -
  define q r where "q = e div 64" and "r = e mod 64"
  have e: "e = q * 64 + r" "r < 64" by (simp_all add: q_def r_def)
  have "(e - 1) div 64 = (if r = 0 then q - 1 else q)"
    by (rule div_nat_eqI) (use e assms(2) in auto)
  then have "w * 64 + i < e \<longleftrightarrow> w \<noteq> (e - 1) div 64 \<or> r = 0 \<or> i < r"
    using assms e by (cases "w = (e - 1) div 64") auto
  then show ?thesis by (simp add: r_def)
qed

lemma masked_word_bits:
  assumes "b div 64 \<le> w" "w \<le> (e - 1) div 64" "b < e"
  shows "map (\<lambda>i. w * 64 + i) (bits_of (masked_word ws b e w)) = range_part ws b e w"
proof -
  have "bit (masked_word ws b e w) i \<longleftrightarrow>
      member ws (w * 64 + i) \<and> b \<le> w * 64 + i \<and> w * 64 + i < e" if i: "i < 64" for i
  proof -
    have m: "member ws (w * 64 + i) \<longleftrightarrow> bit (ws ! w) i" using i by (simp add: member_def)
    have lo: "b \<le> w * 64 + i \<longleftrightarrow> w \<noteq> b div 64 \<or> b mod 64 \<le> i"
      using assms(1) i by (rule range_low)
    have hi: "w * 64 + i < e \<longleftrightarrow> w \<noteq> (e - 1) div 64 \<or> e mod 64 = 0 \<or> i < e mod 64"
      using assms(2,3) i by (intro range_high) simp_all
    show ?thesis
      using i unfolding masked_word_def Let_def m lo hi
      by (auto simp: bit_simps bit_below)
  qed
  then have "bits_of (masked_word ws b e w) =
      filter (\<lambda>i. member ws (w * 64 + i) \<and> b \<le> w * 64 + i \<and> w * 64 + i < e) [0..<64]"
    unfolding bits_of_def by (intro filter_cong) auto
  then show ?thesis
    by (simp add: range_part_def map_add_upt64 [symmetric] filter_map o_def)
qed

lemma forward_words_Cons:
  "forward_words getw f b e (w # ws) s =
     (case forwardBits f (masked_word (getw s) b e w) (w * 64) s of
        (go, s') \<Rightarrow> if go then forward_words getw f b e ws s' else (False, s'))"
  by (simp add: masked_word_def Let_def)

lemma reverse_words_Cons:
  "reverse_words getw f b e (w # ws) s =
     (case reverseBits f (masked_word (getw s) b e w) (w * 64) s of
        (go, s') \<Rightarrow> if go then reverse_words getw f b e ws s' else (False, s'))"
  by (simp add: masked_word_def Let_def)

text \<open>
  The contract of a visitor: it changes membership of at most the slot it was given.
\<close>

definition own_slot :: "('s \<Rightarrow> u64 list) \<Rightarrow> nat \<Rightarrow> 's visitor \<Rightarrow> bool" where
  "own_slot getw n f \<longleftrightarrow>
     (\<forall>x s. length (getw s) = n \<longrightarrow>
        length (getw (snd (f x s))) = n \<and>
        (\<forall>y < 64 * n. y \<noteq> x \<longrightarrow> member (getw (snd (f x s))) y = member (getw s) y))"

lemma walk_own:
  assumes "own_slot getw n f" "walk f xs s = (go, s')" "length (getw s) = n"
  shows "length (getw s') = n \<and>
    (\<forall>y < 64 * n. y \<notin> set xs \<longrightarrow> member (getw s') y = member (getw s) y)"
  using assms(2,3)
proof (induction xs arbitrary: s)
  case Nil
  then show ?case by simp
next
  case (Cons x xs)
  obtain g1 s1 where f: "f x s = (g1, s1)" by fastforce
  have own: "length (getw s1) = n" "\<And>y. y < 64 * n \<Longrightarrow> y \<noteq> x \<Longrightarrow> member (getw s1) y = member (getw s) y"
    using assms(1) Cons.prems(2) f unfolding own_slot_def by (metis snd_conv)+
  show ?case
  proof (cases g1)
    case True
    then have "walk f xs s1 = (go, s')" using Cons.prems(1) f by simp
    from Cons.IH [OF this own(1)] own(2) show ?thesis by simp
  next
    case False
    then show ?thesis using Cons.prems(1) f own by simp
  qed
qed

lemma range_part_cong:
  assumes "\<And>y. w * 64 \<le> y \<Longrightarrow> y < w * 64 + 64 \<Longrightarrow> member ws y = member ws' y"
  shows "range_part ws b e w = range_part ws' b e w"
  unfolding range_part_def by (rule filter_cong) (use assms in auto)

lemma set_range_part: "x \<in> set (range_part ws b e w) \<Longrightarrow> x div 64 = w"
  by (auto simp: range_part_def)

text \<open>Reading the words while walking is the same as walking the initial snapshot.\<close>

lemma forward_words_walk:
  assumes "own_slot getw n f" "length (getw s) = n" "distinct ws"
    and "\<forall>w \<in> set ws. b div 64 \<le> w \<and> w \<le> (e - 1) div 64 \<and> w < n" "b < e"
  shows "forward_words getw f b e ws s = walk f (concat (map (range_part (getw s) b e) ws)) s"
  using assms(2-4)
proof (induction ws arbitrary: s)
  case Nil
  then show ?case by simp
next
  case (Cons w ws)
  let ?xs = "range_part (getw s) b e w"
  have head: "forwardBits f (masked_word (getw s) b e w) (w * 64) s = walk f ?xs s"
    using Cons.prems(3) masked_word_bits [OF _ _ assms(5)] by (simp add: forwardBits_walk)
  obtain go s' where w: "walk f ?xs s = (go, s')" by fastforce
  note own = walk_own [OF assms(1) w Cons.prems(1)]
  have "range_part (getw s') b e v = range_part (getw s) b e v" if "v \<in> set ws" for v
  proof (rule range_part_cong)
    fix y
    assume y: "v * 64 \<le> y" "y < v * 64 + 64"
    then have "y div 64 = v" by (intro div_nat_eqI) simp_all
    moreover have "v \<noteq> w" using Cons.prems(2) that by auto
    ultimately have "y \<notin> set ?xs" using set_range_part by blast
    moreover have "y < 64 * n" using y that Cons.prems(3) by auto
    ultimately show "member (getw s') y = member (getw s) y" using own by blast
  qed
  then have "concat (map (range_part (getw s') b e) ws) = concat (map (range_part (getw s) b e) ws)"
    by (intro arg_cong [where f = concat] map_cong refl) simp
  moreover have "forward_words getw f b e ws s' =
      walk f (concat (map (range_part (getw s') b e) ws)) s'"
    by (rule Cons.IH) (use own Cons.prems(2,3) in simp_all)
  ultimately show ?case
    unfolding forward_words_Cons head list.map concat.simps walk_append w by simp
qed

lemma reverse_words_walk:
  assumes "own_slot getw n f" "length (getw s) = n" "distinct ws"
    and "\<forall>w \<in> set ws. b div 64 \<le> w \<and> w \<le> (e - 1) div 64 \<and> w < n" "b < e"
  shows "reverse_words getw f b e ws s =
    walk f (concat (map (\<lambda>w. rev (range_part (getw s) b e w)) ws)) s"
  using assms(2-4)
proof (induction ws arbitrary: s)
  case Nil
  then show ?case by simp
next
  case (Cons w ws)
  let ?xs = "range_part (getw s) b e w"
  have head: "reverseBits f (masked_word (getw s) b e w) (w * 64) s = walk f (rev ?xs) s"
    using Cons.prems(3) masked_word_bits [OF _ _ assms(5)] by (simp add: reverseBits_walk)
  obtain go s' where w: "walk f (rev ?xs) s = (go, s')" by fastforce
  note own = walk_own [OF assms(1) w Cons.prems(1)]
  have "range_part (getw s') b e v = range_part (getw s) b e v" if "v \<in> set ws" for v
  proof (rule range_part_cong)
    fix y
    assume y: "v * 64 \<le> y" "y < v * 64 + 64"
    then have "y div 64 = v" by (intro div_nat_eqI) simp_all
    moreover have "v \<noteq> w" using Cons.prems(2) that by auto
    ultimately have "y \<notin> set (rev ?xs)" using set_range_part by auto
    moreover have "y < 64 * n" using y that Cons.prems(3) by auto
    ultimately show "member (getw s') y = member (getw s) y" using own by blast
  qed
  then have "concat (map (\<lambda>w. rev (range_part (getw s') b e w)) ws) =
      concat (map (\<lambda>w. rev (range_part (getw s) b e w)) ws)"
    by (intro arg_cong [where f = concat] map_cong refl) simp
  moreover have "reverse_words getw f b e ws s' =
      walk f (concat (map (\<lambda>w. rev (range_part (getw s') b e w)) ws)) s'"
    by (rule Cons.IH) (use own Cons.prems(2,3) in simp_all)
  ultimately show ?case
    unfolding reverse_words_Cons head list.map concat.simps walk_append w by simp
qed

lemma concat_blocks:
  "lo \<le> hi \<Longrightarrow> concat (map (\<lambda>w. filter P [w * 64..<w * 64 + 64 :: nat]) [lo..<hi]) =
     filter P [lo * 64..<hi * 64]"
proof (induction hi)
  case 0
  then show ?case by simp
next
  case (Suc hi)
  show ?case
  proof (cases "lo = Suc hi")
    case False
    then have lo: "lo \<le> hi" using Suc.prems by simp
    have "[lo * 64..<Suc hi * 64] = [lo * 64..<hi * 64] @ [hi * 64..<hi * 64 + 64]"
      using upt_add_eq_append [of "lo * 64" "hi * 64" 64] lo by (simp add: add.commute)
    then show ?thesis using Suc.IH [OF lo] lo by simp
  qed simp
qed

lemma filter_sub_range:
  assumes "lo \<le> b" "b \<le> e" "e \<le> (hi :: nat)"
  shows "filter (\<lambda>x. P x \<and> b \<le> x \<and> x < e) [lo..<hi] = filter P [b..<e]"
proof -
  have "[lo..<hi] = [lo..<b] @ [b..<e] @ [e..<hi]"
    using assms by (metis le_trans upt_add_eq_append le_add_diff_inverse)
  moreover have "filter (\<lambda>x. P x \<and> b \<le> x \<and> x < e) [b..<e] = filter P [b..<e]"
    by (rule filter_upt_cong) auto
  ultimately show ?thesis by (simp add: filter_empty_conv)
qed

lemma range_parts:
  assumes "b < e"
  shows "concat (map (range_part ws b e) [b div 64..<Suc ((e - 1) div 64)]) = filter (member ws) [b..<e]"
proof -
  have le: "b div 64 \<le> Suc ((e - 1) div 64)" using assms by (simp add: div_le_mono le_SucI)
  have "b div 64 * 64 \<le> b" "e \<le> Suc ((e - 1) div 64) * 64"
    using assms by (simp_all add: div_times_less_eq_dividend)
  then show ?thesis
    using concat_blocks [OF le] assms
    by (simp add: range_part_def [abs_def] filter_sub_range del: upt_Suc)
qed

lemma forward_walk:
  assumes "own_slot getw n f" "length (getw s) = n" "b \<le> e" "e \<le> 64 * n"
  shows "forward getw f b e s = walk f (filter (member (getw s)) [b..<e]) s"
proof (cases "b = e")
  case False
  then have lt: "b < e" using assms(3) by simp
  have "forward_words getw f b e [b div 64..<Suc ((e - 1) div 64)] s =
      walk f (concat (map (range_part (getw s) b e) [b div 64..<Suc ((e - 1) div 64)])) s"
  proof (rule forward_words_walk [OF assms(1,2) _ _ lt])
    have "w < n" if "w \<le> (e - 1) div 64" for w
    proof -
      have "(e - 1) div 64 < n" using assms(4) lt by (simp add: less_mult_imp_div_less mult.commute)
      then show ?thesis using that by simp
    qed
    then show "\<forall>w \<in> set [b div 64..<Suc ((e - 1) div 64)].
        b div 64 \<le> w \<and> w \<le> (e - 1) div 64 \<and> w < n"
      by auto
  qed simp
  then show ?thesis using False range_parts [OF lt] by (simp add: forward_def del: upt_Suc)
qed (simp add: forward_def)

lemma rev_concat: "rev (concat xss) = concat (rev (map rev xss))"
  by (induction xss) simp_all

lemma reverse_walk:
  assumes "own_slot getw n f" "length (getw s) = n" "b \<le> e" "e \<le> 64 * n"
  shows "reverse getw f b e s = walk f (rev (filter (member (getw s)) [b..<e])) s"
proof (cases "b = e")
  case False
  then have lt: "b < e" using assms(3) by simp
  let ?ws = "[b div 64..<Suc ((e - 1) div 64)]"
  have "reverse_words getw f b e (rev ?ws) s =
      walk f (concat (map (\<lambda>w. rev (range_part (getw s) b e w)) (rev ?ws))) s"
  proof (rule reverse_words_walk [OF assms(1,2) _ _ lt])
    have "w < n" if "w \<le> (e - 1) div 64" for w
    proof -
      have "(e - 1) div 64 < n" using assms(4) lt by (simp add: less_mult_imp_div_less mult.commute)
      then show ?thesis using that by simp
    qed
    then show "\<forall>w \<in> set (rev ?ws). b div 64 \<le> w \<and> w \<le> (e - 1) div 64 \<and> w < n"
      by auto
  qed simp
  moreover have "concat (map (\<lambda>w. rev (range_part (getw s) b e w)) (rev ?ws)) =
      rev (concat (map (range_part (getw s) b e) ?ws))"
    by (simp add: rev_concat rev_map o_def del: upt_Suc)
  ultimately show ?thesis using False range_parts [OF lt] by (simp add: reverse_def del: upt_Suc)
qed (simp add: reverse_def)

section \<open>Visits are walks in age order\<close>

text \<open>All slots of a ring from its head around, oldest first; those older than \<open>e\<close>.\<close>

definition age_order :: "nat \<Rightarrow> nat \<Rightarrow> nat list" where
  "age_order head capacity = [head..<capacity] @ [0..<head]"

definition age_before :: "nat \<Rightarrow> nat \<Rightarrow> nat \<Rightarrow> nat list" where
  "age_before head e capacity = (if head \<le> e then [head..<e] else [head..<capacity] @ [0..<e])"

text \<open>The bits beyond the capacity are never set.\<close>

definition slots_ok :: "nat \<Rightarrow> u64 list \<Rightarrow> bool" where
  "slots_ok capacity ws \<longleftrightarrow> 0 < capacity \<and> length ws = (capacity + 63) div 64 \<and>
     (\<forall>x. capacity \<le> x \<and> x < 64 * length ws \<longrightarrow> \<not> member ws x)"

lemma slots_ok_bound: "slots_ok capacity ws \<Longrightarrow> capacity \<le> 64 * length ws"
  by (simp add: slots_ok_def)

lemma slots_ok_new: "0 < capacity \<Longrightarrow> slots_ok capacity (ss_words (slot_set_new capacity))"
  by (auto simp: slots_ok_def slot_set_new_def)

lemma slots_ok_update:
  assumes "slots_ok capacity ws" "x < capacity"
  shows "slots_ok capacity (word_set x ws)" "slots_ok capacity (word_reset x ws)"
  using assms slots_ok_bound [OF assms(1)]
  by (auto simp: slots_ok_def member_word_set member_word_reset)

lemma walk_snd_append:
  "walk f xs s = (go, s') \<Longrightarrow> snd (walk f (xs @ ys) s) = (if go then snd (walk f ys s') else s')"
  by (simp add: walk_append)

lemma visit_walk:
  assumes own: "own_slot getw n f" and n: "length (getw s) = n"
    and ok: "slots_ok capacity (getw s)" and head: "head < capacity"
  shows "ss_visit capacity getw head f s =
    snd (walk f (filter (member (getw s)) (age_order head capacity)) s)"
proof -
  let ?up = "filter (member (getw s)) [head..<capacity]"
  let ?lo = "\<lambda>s. filter (member (getw s)) [0..<head]"
  have cap: "capacity \<le> 64 * n" using slots_ok_bound [OF ok] n by simp
  obtain go s' where w: "walk f ?up s = (go, s')" by fastforce
  note st = walk_own [OF own w n]
  have lo: "?lo s' = ?lo s"
    by (rule filter_cong) (use st head cap in auto)
  have len: "length (getw s') = n" using st by simp
  have "ss_visit capacity getw head f s = (if go then snd (walk f (?lo s) s') else s')"
  proof (cases "capacity \<le> 64")
    case False
    then show ?thesis
      using forward_walk [OF own n, of head capacity] forward_walk [OF own len, of 0 head]
        head cap w lo by (simp add: ss_visit_def)
  next
    case True
    then have n1: "n = 1" using ok head n by (auto simp: slots_ok_def)
    have split: "[0..<64] = [0..<head] @ [head..<capacity] @ [capacity..<64]"
      using upt_add_eq_append [of 0 head "64 - head"] upt_add_eq_append [of head capacity "64 - capacity"]
        head True by simp
    have mem: "member ws x = bit (ws ! 0) x" if "x < 64" for ws x using that by (simp add: member_def)
    have beyond: "\<not> bit (getw s ! 0) x" if "capacity \<le> x" "x < 64" for x
    proof -
      have "x < 64 * length (getw s)" using that(2) n n1 by simp
      then have "\<not> member (getw s) x" using ok that(1) unfolding slots_ok_def by blast
      then show ?thesis using mem [OF that(2), of "getw s"] by simp
    qed
    have "bits_of (getw s ! 0 AND push_bit head (- 1)) = ?up"
    proof -
      have "filter (bit (getw s ! 0 AND push_bit head (- 1))) [0..<head] = []"
        by (auto simp: filter_empty_conv bit_simps)
      moreover have "filter (bit (getw s ! 0 AND push_bit head (- 1))) [capacity..<64] = []"
        using beyond by (auto simp: filter_empty_conv bit_simps)
      moreover have "filter (bit (getw s ! 0 AND push_bit head (- 1))) [head..<capacity] = ?up"
        by (rule filter_upt_cong) (use True mem in \<open>auto simp: bit_simps\<close>)
      ultimately show ?thesis by (simp add: bits_of_def split)
    qed
    moreover have "bits_of (getw s' ! 0 AND (push_bit head 1 - 1)) = ?lo s'"
    proof -
      have "filter (bit (getw s' ! 0 AND mask head)) ([head..<capacity] @ [capacity..<64]) = []"
        using head by (auto simp: filter_empty_conv bit_simps)
      moreover have "filter (bit (getw s' ! 0 AND mask head)) [0..<head] = ?lo s'"
        by (rule filter_upt_cong) (use True head mem in \<open>auto simp: bit_simps\<close>)
      ultimately have "bits_of (getw s' ! 0 AND mask head) = ?lo s'"
        unfolding bits_of_def split by simp
      then show ?thesis by (simp add: mask_eq_exp_minus_1)
    qed
    ultimately show ?thesis
      using True w lo by (auto simp: ss_visit_def forwardBits_walk)
  qed
  then show ?thesis using w by (simp add: age_order_def walk_append)
qed

lemma visitOlder_walk:
  assumes own: "own_slot getw n f" and n: "length (getw s) = n"
    and ok: "slots_ok capacity (getw s)" and head: "head < capacity" and e: "e < capacity"
  shows "ss_visitOlder capacity getw head e f s =
    snd (walk f (rev (filter (member (getw s)) (age_before head e capacity))) s)"
proof -
  have cap: "capacity \<le> 64 * n" using slots_ok_bound [OF ok] n by simp
  show ?thesis
  proof (cases "head \<le> e")
    case True
    then show ?thesis
      using reverse_walk [OF own n, of head e] e cap by (simp add: ss_visitOlder_def age_before_def)
  next
    case False
    let ?lo = "rev (filter (member (getw s)) [0..<e])"
    obtain go s' where w: "walk f ?lo s = (go, s')" by fastforce
    note st = walk_own [OF own w n]
    have up: "filter (member (getw s')) [head..<capacity] = filter (member (getw s)) [head..<capacity]"
      by (rule filter_cong) (use st False cap in auto)
    have len: "length (getw s') = n" using st by simp
    show ?thesis
      using reverse_walk [OF own n, of 0 e] reverse_walk [OF own len, of head capacity] False
        head e cap w up
      by (simp add: ss_visitOlder_def age_before_def walk_append)
  qed
qed

text \<open>
  C26. A visit is a walk over the members of the set in ring age order, oldest first, wrapping
  around the end of the ring, until the visitor stops; this holds for one-word and many-word
  sets alike, also when the visitor removes the slot it is given while the walk goes on.  The
  walk for older slots goes over the members strictly older than the end slot, newest first.
\<close>

theorem visits_in_age_order:
  assumes "own_slot getw (length (getw s)) f" "slots_ok capacity (getw s)" "head < capacity"
    "e < capacity"
  shows "ss_visit capacity getw head f s =
      snd (walk f (filter (member (getw s)) (age_order head capacity)) s) \<and>
    ss_visitOlder capacity getw head e f s =
      snd (walk f (rev (filter (member (getw s)) (age_before head e capacity))) s)"
  using visit_walk [OF assms(1) refl assms(2,3)] visitOlder_walk [OF assms(1) refl assms(2-4)]
  by blast

text \<open>A visitor that removes what it is given and logs it.\<close>

definition log_visitor :: "(u64 list \<times> nat list) visitor" where
  "log_visitor x s = (True, (word_reset x (fst s), snd s @ [x]))"

theorem visits_in_age_order_witness:
  "snd (ss_visit 4 fst 1 log_visitor ([0xB], [])) = [1, 3, 0]"
proof -
  have own: "own_slot fst (length (fst ([0xB :: u64], [] :: nat list))) log_visitor"
    unfolding own_slot_def log_visitor_def
  proof (intro allI impI, goal_cases)
    case (1 x s)
    show ?case
    proof (intro conjI allI impI)
      show "length (fst (snd (True, word_reset x (fst s), snd s @ [x]))) = length (fst ([11 :: u64], [] :: nat list))"
        using 1 by simp
      fix y
      assume y: "y < 64 * length (fst ([11 :: u64], [] :: nat list))" "y \<noteq> x"
      then show "member (fst (snd (True, word_reset x (fst s), snd s @ [x]))) y = member (fst s) y"
      proof (cases "x < 64")
        case True
        then show ?thesis using y 1 by (simp add: member_word_reset)
      next
        case False
        then have "word_reset x (fst s) = fst s" using 1 by (simp add: word_reset_def list_update_beyond)
        then show ?thesis by simp
      qed
    qed
  qed
  have mem: "member [0xB] x \<longleftrightarrow> x \<in> {0, 1, 3}" if "x < 64" for x
  proof -
    have "list_all (\<lambda>x. member [0xB] x = (x \<in> {0, 1, 3})) [0..<64]" by code_simp
    then show ?thesis using that by (auto simp: list_all_iff)
  qed
  have ok: "slots_ok 4 (fst ([0xB :: u64], [] :: nat list))"
    using mem by (auto simp: slots_ok_def)
  have "filter (member [0xB]) (age_order 1 4) = [1, 3, 0]"
    by (simp add: age_order_def mem upt_rec)
  with visits_in_age_order [OF own ok, of 1 2] show ?thesis
    by (simp add: log_visitor_def)
qed

end
