(* ===== verification/Issue_Queue.thy ===== *)
theory Issue_Queue
  imports Isa Slot_Set
begin

text \<open>
  Model of \<^verbatim>\<open>core/iq.h\<close>: the issue queue, kept as bitmaps over reorder-buffer slots.  The
  specification is one record per slot: occupied or not, and which of its two sources it still
  waits for.  Entries are named by their slot, which is what the C++ pointers into \<^verbatim>\<open>e\<close> are.
\<close>

section \<open>State\<close>

record iq_entry =
  q_seq :: u64
  q_robIdx :: u32
  q_lsqIdx :: u32
  q_ps1 :: u8
  q_ps2 :: u8
  q_unit :: fuKind
  q_valid :: bool

definition iq_entry0 :: iq_entry where
  "iq_entry0 = \<lparr>q_seq = 0, q_robIdx = 0, q_lsqIdx = 0, q_ps1 = 0, q_ps2 = 0, q_unit = FU_NONE,
     q_valid = False\<rparr>"

record issue_queue =
  iq_e :: "iq_entry list"
  iq_capacity :: u32
  iq_words :: nat
  iq_occupied :: "u64 list"
  iq_ready :: "u64 list"
  iq_blocked1 :: "u64 list"
  iq_blocked2 :: "u64 list"
  iq_wait1 :: "u64 list"
  iq_wait2 :: "u64 list"
  iq_n :: u32

definition iq_new :: "u32 \<Rightarrow> nat \<Rightarrow> nat \<Rightarrow> issue_queue" where
  "iq_new capacity robSize physRegs =
     (let words = (robSize + 63) div 64; zeros = replicate words 0 in
      \<lparr>iq_e = replicate robSize iq_entry0, iq_capacity = capacity, iq_words = words,
       iq_occupied = zeros, iq_ready = zeros, iq_blocked1 = zeros, iq_blocked2 = zeros,
       iq_wait1 = replicate (physRegs * words) 0, iq_wait2 = replicate (physRegs * words) 0,
       iq_n = 0\<rparr>)"

section \<open>Operations\<close>

definition slot_bit :: "nat \<Rightarrow> u64" where
  "slot_bit x = push_bit (x mod 64) 1"

definition or_at :: "nat \<Rightarrow> u64 \<Rightarrow> u64 list \<Rightarrow> u64 list" where
  "or_at i b ws = ws[i := (ws ! i) OR b]"

definition andn_at :: "nat \<Rightarrow> u64 \<Rightarrow> u64 list \<Rightarrow> u64 list" where
  "andn_at i b ws = ws[i := (ws ! i) AND NOT b]"

definition iq_full :: "issue_queue \<Rightarrow> bool" where
  "iq_full q \<longleftrightarrow> iq_n q = iq_capacity q"

definition iq_count :: "issue_queue \<Rightarrow> u32" where
  "iq_count q = iq_n q"

definition iq_allocate :: "u32 \<Rightarrow> issue_queue \<Rightarrow> issue_queue option" where
  "iq_allocate robIdx q =
     (if iq_full q then None
      else Some (q\<lparr>iq_e := (iq_e q)[unat robIdx := iq_entry0\<lparr>q_valid := True, q_robIdx := robIdx\<rparr>],
                   iq_occupied := or_at (unat robIdx div 64) (slot_bit (unat robIdx)) (iq_occupied q),
                   iq_n := iq_n q + 1\<rparr>))"

text \<open>Assignments of the caller through the entry pointer.\<close>

definition iq_fill :: "nat \<Rightarrow> (iq_entry \<Rightarrow> iq_entry) \<Rightarrow> issue_queue \<Rightarrow> issue_queue" where
  "iq_fill x f q = q\<lparr>iq_e := (iq_e q)[x := f (iq_e q ! x)]\<rparr>"

definition row :: "issue_queue \<Rightarrow> u8 \<Rightarrow> nat" where
  "row q p = unat p * iq_words q"

definition iq_track :: "nat \<Rightarrow> bool \<Rightarrow> bool \<Rightarrow> issue_queue \<Rightarrow> issue_queue" where
  "iq_track x ready1 ready2 q =
     (let w = x div 64; b = slot_bit x; e = iq_e q ! x;
          q1 = (if \<not> ready1
                then q\<lparr>iq_wait1 := or_at (row q (q_ps1 e) + w) b (iq_wait1 q),
                       iq_blocked1 := or_at w b (iq_blocked1 q)\<rparr> else q);
          q2 = (if \<not> ready2
                then q1\<lparr>iq_wait2 := or_at (row q (q_ps2 e) + w) b (iq_wait2 q1),
                        iq_blocked2 := or_at w b (iq_blocked2 q1)\<rparr> else q1)
      in if ready1 \<and> ready2 then q2\<lparr>iq_ready := or_at w b (iq_ready q2)\<rparr> else q2)"

definition iq_sourceReady :: "nat \<Rightarrow> bool \<Rightarrow> issue_queue \<Rightarrow> bool" where
  "iq_sourceReady x second q \<longleftrightarrow>
     ((if second then iq_blocked2 q else iq_blocked1 q) ! (x div 64)) AND slot_bit x = 0"

definition iq_release :: "nat \<Rightarrow> issue_queue \<Rightarrow> issue_queue" where
  "iq_release x q =
     (let w = x div 64; b = slot_bit x; e = iq_e q ! x;
          q1 = (if (iq_blocked1 q ! w) AND b \<noteq> 0
                then q\<lparr>iq_wait1 := andn_at (row q (q_ps1 e) + w) b (iq_wait1 q)\<rparr> else q);
          q2 = (if (iq_blocked2 q ! w) AND b \<noteq> 0
                then q1\<lparr>iq_wait2 := andn_at (row q (q_ps2 e) + w) b (iq_wait2 q)\<rparr> else q1)
      in q2\<lparr>iq_blocked1 := andn_at w b (iq_blocked1 q2),
            iq_blocked2 := andn_at w b (iq_blocked2 q2),
            iq_occupied := andn_at w b (iq_occupied q2),
            iq_ready := andn_at w b (iq_ready q2),
            iq_e := (iq_e q2)[x := (iq_e q2 ! x)\<lparr>q_valid := False\<rparr>],
            iq_n := iq_n q2 - 1\<rparr>)"

text \<open>
  \<^verbatim>\<open>visitReady\<close>.  The visitor works on the caller's state, of which \<open>getq\<close> is the queue.  The
  loop of \<^verbatim>\<open>visitWord\<close> is that of \<^verbatim>\<open>forwardBits\<close>.
\<close>

primrec visit_words ::
  "('s \<Rightarrow> u64 list) \<Rightarrow> 's visitor \<Rightarrow> nat list \<Rightarrow> 's \<Rightarrow> bool \<times> 's" where
  "visit_words getw f [] s = (True, s)"
| "visit_words getw f (w # ws) s =
     (case forwardBits f (getw s ! w) (w * 64) s of
        (go, s') \<Rightarrow> if go then visit_words getw f ws s' else (False, s'))"

definition iq_visitReady :: "('s \<Rightarrow> issue_queue) \<Rightarrow> nat \<Rightarrow> 's visitor \<Rightarrow> 's \<Rightarrow> 's" where
  "iq_visitReady getq robHead f s =
     (let getw = (\<lambda>s. iq_ready (getq s)); headWord = robHead div 64;
          upper = push_bit (robHead mod 64) (- 1) :: u64
      in case forwardBits f (getw s ! headWord AND upper) (headWord * 64) s of
           (go, s1) \<Rightarrow> if \<not> go then s1 else
         (case visit_words getw f [Suc headWord..<iq_words (getq s)] s1 of
           (go, s2) \<Rightarrow> if \<not> go then s2 else
         (case visit_words getw f [0..<headWord] s2 of
           (go, s3) \<Rightarrow> if \<not> go then s3 else
           snd (forwardBits f (getw s3 ! headWord AND NOT upper) (headWord * 64) s3))))"

text \<open>One round of the loop of \<^verbatim>\<open>wakeup\<close>, and the loop.\<close>

definition wake_word :: "u8 \<Rightarrow> nat \<Rightarrow> issue_queue \<Rightarrow> issue_queue" where
  "wake_word preg w q =
     (let idx = row q preg + w; first = iq_wait1 q ! idx; second = iq_wait2 q ! idx;
          b1 = (iq_blocked1 q ! w) AND NOT first; b2 = (iq_blocked2 q ! w) AND NOT second
      in q\<lparr>iq_wait1 := (iq_wait1 q)[idx := 0], iq_wait2 := (iq_wait2 q)[idx := 0],
           iq_blocked1 := (iq_blocked1 q)[w := b1], iq_blocked2 := (iq_blocked2 q)[w := b2],
           iq_ready := (iq_ready q)[w := (iq_ready q ! w) OR ((first OR second) AND NOT (b1 OR b2))]\<rparr>)"

definition iq_wakeup :: "u8 \<Rightarrow> issue_queue \<Rightarrow> issue_queue" where
  "iq_wakeup preg q = fold (wake_word preg) [0..<iq_words q] q"

definition flush_visitor :: "u64 \<Rightarrow> issue_queue visitor" where
  "flush_visitor seq x q = (True, if seq < q_seq (iq_e q ! x) then iq_release x q else q)"

definition iq_flushYounger :: "u64 \<Rightarrow> issue_queue \<Rightarrow> issue_queue" where
  "iq_flushYounger seq q = snd (visit_words iq_occupied (flush_visitor seq) [0..<iq_words q] q)"

section \<open>Bits\<close>

lemma bit_or_at:
  "i < length ws \<Longrightarrow> bit (or_at i b ws ! j) k \<longleftrightarrow> bit (ws ! j) k \<or> (i = j \<and> bit b k)"
  by (auto simp: or_at_def nth_list_update bit_simps)

lemma bit_andn_at:
  "i < length ws \<Longrightarrow> k < 64 \<Longrightarrow>
     bit (andn_at i b ws ! j) k \<longleftrightarrow> bit (ws ! j) k \<and> \<not> (i = j \<and> bit b k)"
  by (auto simp: andn_at_def nth_list_update bit_simps)

lemma bit_slot_bit: "k < 64 \<Longrightarrow> bit (slot_bit x) k \<longleftrightarrow> k = x mod 64"
  by (auto simp: slot_bit_def bit_simps)

lemma slot_eq_iff: "(s :: nat) = x \<longleftrightarrow> s div 64 = x div 64 \<and> s mod 64 = x mod 64"
  by (metis div_mult_mod_eq)

lemma length_or_at [simp]: "length (or_at i b ws) = length ws" "length (andn_at i b ws) = length ws"
  by (simp_all add: or_at_def andn_at_def)

lemma member_or_at:
  "x div 64 < length ws \<Longrightarrow>
     member (or_at (x div 64) (slot_bit x) ws) s \<longleftrightarrow> member ws s \<or> s = x"
  by (auto simp: member_def bit_or_at bit_slot_bit slot_eq_iff [of s x])

lemma member_andn_at:
  "x div 64 < length ws \<Longrightarrow>
     member (andn_at (x div 64) (slot_bit x) ws) s \<longleftrightarrow> member ws s \<and> s \<noteq> x"
  by (auto simp: member_def bit_andn_at bit_slot_bit slot_eq_iff [of s x])

lemma and_slot_bit: "(ws ! (x div 64)) AND slot_bit x = 0 \<longleftrightarrow> \<not> member ws x"
proof -
  have "(v AND slot_bit x) = 0 \<longleftrightarrow> \<not> bit v (x mod 64)" for v
  proof
    assume "v AND slot_bit x = 0"
    then have "\<not> bit (v AND slot_bit x) (x mod 64)" by simp
    then show "\<not> bit v (x mod 64)" by (simp add: bit_and_iff bit_slot_bit)
  next
    assume "\<not> bit v (x mod 64)"
    then show "v AND slot_bit x = 0" by (intro bit_word_eqI) (auto simp: bit_and_iff bit_slot_bit)
  qed
  then show ?thesis by (simp add: member_def)
qed

section \<open>Rows\<close>

text \<open>Is slot \<open>s\<close> in the row of physical register \<open>p\<close>?\<close>

definition in_row :: "nat \<Rightarrow> u64 list \<Rightarrow> u8 \<Rightarrow> nat \<Rightarrow> bool" where
  "in_row words ws p s \<longleftrightarrow> bit (ws ! (unat p * words + s div 64)) (s mod 64)"

lemma row_index:
  assumes "w < words" "v < words"
  shows "unat p * words + w = unat q * words + v \<longleftrightarrow> p = q \<and> w = v"
proof
  assume eq: "unat p * words + w = unat q * words + v"
  have "(unat p * words + w) div words = unat p" "(unat q * words + v) div words = unat q"
    using assms by auto
  then have "unat p = unat q" using eq by metis
  then show "p = q \<and> w = v" using eq by (simp add: word_unat_eq_iff)
qed simp

lemma row_bound:
  assumes "unat p < P" "w < (words :: nat)"
  shows "unat p * words + w < P * words"
proof -
  have "unat p * words + w < Suc (unat p) * words" using assms(2) by simp
  also have "\<dots> \<le> P * words" using assms(1) by (intro mult_le_mono1) simp
  finally show ?thesis .
qed

lemma in_row_or_at:
  assumes "unat p < P" "length ws = P * words" "x div 64 < words" "s div 64 < words"
  shows "in_row words (or_at (unat p * words + x div 64) (slot_bit x) ws) p' s \<longleftrightarrow>
    in_row words ws p' s \<or> (p' = p \<and> s = x)"
  using row_bound [OF assms(1,3)] assms(2) row_index [OF assms(3,4), of p p']
  by (auto simp: in_row_def bit_or_at bit_slot_bit slot_eq_iff [of s x])

lemma in_row_andn_at:
  assumes "unat p < P" "length ws = P * words" "x div 64 < words" "s div 64 < words"
  shows "in_row words (andn_at (unat p * words + x div 64) (slot_bit x) ws) p' s \<longleftrightarrow>
    in_row words ws p' s \<and> \<not> (p' = p \<and> s = x)"
  using row_bound [OF assms(1,3)] assms(2) row_index [OF assms(3,4), of p p']
  by (auto simp: in_row_def bit_andn_at bit_slot_bit slot_eq_iff [of s x])

section \<open>Invariant\<close>

definition iq_shape :: "nat \<Rightarrow> issue_queue \<Rightarrow> bool" where
  "iq_shape P q \<longleftrightarrow>
     iq_words q = (length (iq_e q) + 63) div 64 \<and>
     length (iq_occupied q) = iq_words q \<and> length (iq_ready q) = iq_words q \<and>
     length (iq_blocked1 q) = iq_words q \<and> length (iq_blocked2 q) = iq_words q \<and>
     length (iq_wait1 q) = P * iq_words q \<and> length (iq_wait2 q) = P * iq_words q"

definition iq_slots :: "issue_queue \<Rightarrow> nat" where
  "iq_slots q = 64 * iq_words q"

abbreviation occ :: "issue_queue \<Rightarrow> nat \<Rightarrow> bool" where "occ q s \<equiv> member (iq_occupied q) s"
abbreviation rdy :: "issue_queue \<Rightarrow> nat \<Rightarrow> bool" where "rdy q s \<equiv> member (iq_ready q) s"
abbreviation blk1 :: "issue_queue \<Rightarrow> nat \<Rightarrow> bool" where "blk1 q s \<equiv> member (iq_blocked1 q) s"
abbreviation blk2 :: "issue_queue \<Rightarrow> nat \<Rightarrow> bool" where "blk2 q s \<equiv> member (iq_blocked2 q) s"
abbreviation wt1 :: "issue_queue \<Rightarrow> u8 \<Rightarrow> nat \<Rightarrow> bool" where
  "wt1 q \<equiv> in_row (iq_words q) (iq_wait1 q)"
abbreviation wt2 :: "issue_queue \<Rightarrow> u8 \<Rightarrow> nat \<Rightarrow> bool" where
  "wt2 q \<equiv> in_row (iq_words q) (iq_wait2 q)"

text \<open>
  The facts that tie the bitmaps to each other for one slot.  \<open>T\<close> holds the slots that were
  allocated and not tracked yet.
\<close>

definition slot_ok :: "nat \<Rightarrow> nat set \<Rightarrow> issue_queue \<Rightarrow> nat \<Rightarrow> bool" where
  "slot_ok P T q s \<longleftrightarrow>
     (occ q s \<longrightarrow> s < length (iq_e q)) \<and>
     (blk1 q s \<longrightarrow> occ q s \<and> unat (q_ps1 (iq_e q ! s)) < P \<and> s \<notin> T) \<and>
     (blk2 q s \<longrightarrow> occ q s \<and> unat (q_ps2 (iq_e q ! s)) < P \<and> s \<notin> T) \<and>
     (rdy q s \<longleftrightarrow> occ q s \<and> \<not> blk1 q s \<and> \<not> blk2 q s \<and> s \<notin> T) \<and>
     (\<forall>p. unat p < P \<longrightarrow> (wt1 q p s \<longleftrightarrow> blk1 q s \<and> q_ps1 (iq_e q ! s) = p) \<and>
                          (wt2 q p s \<longleftrightarrow> blk2 q s \<and> q_ps2 (iq_e q ! s) = p)) \<and>
     (s < length (iq_e q) \<longrightarrow> q_valid (iq_e q ! s) = occ q s)"

definition iq_ok :: "nat \<Rightarrow> nat set \<Rightarrow> issue_queue \<Rightarrow> bool" where
  "iq_ok P T q \<longleftrightarrow> iq_shape P q \<and> (\<forall>s < iq_slots q. slot_ok P T q s) \<and>
     unat (iq_n q) = card {s. s < iq_slots q \<and> occ q s} \<and> iq_n q \<le> iq_capacity q"

text \<open>The specification: an entry and its two pending sources for every occupied slot.\<close>

definition iq_view :: "issue_queue \<Rightarrow> nat \<Rightarrow> (iq_entry \<times> bool \<times> bool) option" where
  "iq_view q s = (if s < iq_slots q \<and> occ q s then Some (iq_e q ! s, blk1 q s, blk2 q s) else None)"

lemma iq_slot_div: "s < iq_slots q \<longleftrightarrow> s div 64 < iq_words q"
  by (simp add: iq_slots_def less_mult_imp_div_less mult.commute div_less_iff_less_mult)

lemma iq_okD:
  assumes "iq_ok P T q"
  shows "iq_shape P q" "\<And>s. s < iq_slots q \<Longrightarrow> slot_ok P T q s"
    "unat (iq_n q) = card {s. s < iq_slots q \<and> occ q s}" "iq_n q \<le> iq_capacity q"
  using assms by (simp_all add: iq_ok_def)

lemma slot_bound: "iq_shape P q \<Longrightarrow> s < length (iq_e q) \<Longrightarrow> s < iq_slots q"
  by (simp add: iq_shape_def iq_slots_def)

lemma iq_new_ok: "iq_ok P {} (iq_new capacity robSize P)"
proof -
  have "slot_ok P {} (iq_new capacity robSize P) s" if "s < iq_slots (iq_new capacity robSize P)" for s
  proof -
    have w: "s div 64 < (robSize + 63) div 64" using that by (simp add: iq_slot_div iq_new_def Let_def)
    have "\<not> in_row ((robSize + 63) div 64) (replicate (P * ((robSize + 63) div 64)) 0) p s"
      if "unat p < P" for p
      using row_bound [OF that w] by (simp add: in_row_def)
    then show ?thesis using w by (auto simp: slot_ok_def iq_new_def Let_def iq_entry0_def)
  qed
  moreover have "{s. s < iq_slots (iq_new capacity robSize P) \<and> occ (iq_new capacity robSize P) s} = {}"
    by (auto simp: iq_slot_div) (simp add: iq_new_def Let_def)
  ultimately show ?thesis
    by (simp add: iq_ok_def) (simp add: iq_new_def iq_shape_def Let_def)
qed

section \<open>Release\<close>

lemma release_effect:
  assumes "iq_shape P q" "x < iq_slots q" "s < iq_slots q"
    and "blk1 q x \<Longrightarrow> unat (q_ps1 (iq_e q ! x)) < P" "blk2 q x \<Longrightarrow> unat (q_ps2 (iq_e q ! x)) < P"
  shows "occ (iq_release x q) s \<longleftrightarrow> occ q s \<and> s \<noteq> x"
    and "rdy (iq_release x q) s \<longleftrightarrow> rdy q s \<and> s \<noteq> x"
    and "blk1 (iq_release x q) s \<longleftrightarrow> blk1 q s \<and> s \<noteq> x"
    and "blk2 (iq_release x q) s \<longleftrightarrow> blk2 q s \<and> s \<noteq> x"
    and "wt1 (iq_release x q) p s \<longleftrightarrow> wt1 q p s \<and> \<not> (blk1 q x \<and> s = x \<and> p = q_ps1 (iq_e q ! x))"
    and "wt2 (iq_release x q) p s \<longleftrightarrow> wt2 q p s \<and> \<not> (blk2 q x \<and> s = x \<and> p = q_ps2 (iq_e q ! x))"
  using assms(1) assms(2,3) [unfolded iq_slot_div] in_row_andn_at [OF assms(4)] in_row_andn_at [OF assms(5)]
  by (auto simp: iq_release_def Let_def iq_shape_def member_andn_at and_slot_bit row_def)

lemma release_simps [simp]:
  "iq_words (iq_release x q) = iq_words q" "iq_slots (iq_release x q) = iq_slots q"
  "length (iq_e (iq_release x q)) = length (iq_e q)"
  "iq_capacity (iq_release x q) = iq_capacity q" "iq_n (iq_release x q) = iq_n q - 1"
  "iq_e (iq_release x q) = (iq_e q)[x := (iq_e q ! x)\<lparr>q_valid := False\<rparr>]"
  by (simp_all add: iq_release_def Let_def iq_slots_def)

lemma release_shape: "iq_shape P q \<Longrightarrow> iq_shape P (iq_release x q)"
  by (simp add: iq_shape_def iq_release_def Let_def)

lemma release_slot_ok:
  assumes "iq_ok P T q" "x < iq_slots q" "s < iq_slots q"
  shows "slot_ok P T (iq_release x q) s"
proof -
  note ok = iq_okD [OF assms(1)]
  have x: "blk1 q x \<Longrightarrow> unat (q_ps1 (iq_e q ! x)) < P" "blk2 q x \<Longrightarrow> unat (q_ps2 (iq_e q ! x)) < P"
    using ok(2) [OF assms(2)] by (auto simp: slot_ok_def)
  note eff = release_effect [OF ok(1) assms(2,3) x]
  show ?thesis
  proof (cases "s = x")
    case True
    then show ?thesis
      using ok(2) [OF assms(2)] eff by (auto simp: slot_ok_def)
  next
    case False
    then show ?thesis
      using ok(2) [OF assms(3)] eff unfolding slot_ok_def by simp
  qed
qed

lemma release_ok:
  assumes "iq_ok P T q" "x < iq_slots q" "occ q x"
  shows "iq_ok P T (iq_release x q)"
    and "iq_view (iq_release x q) = (iq_view q)(x := None)"
proof -
  note ok = iq_okD [OF assms(1)]
  have x: "blk1 q x \<Longrightarrow> unat (q_ps1 (iq_e q ! x)) < P" "blk2 q x \<Longrightarrow> unat (q_ps2 (iq_e q ! x)) < P"
    using ok(2) [OF assms(2)] by (auto simp: slot_ok_def)
  note eff = release_effect [OF ok(1) assms(2) _ x]
  have set: "{s. s < iq_slots (iq_release x q) \<and> occ (iq_release x q) s} =
      {s. s < iq_slots q \<and> occ q s} - {x}"
    using eff(1) by auto
  have mem: "x \<in> {s. s < iq_slots q \<and> occ q s}" using assms by simp
  have "card {s. s < iq_slots q \<and> occ q s} \<noteq> 0"
    using mem by (auto simp only: card_eq_0_iff finite_Collect_less_nat finite_Collect_conjI)
  then have n0: "iq_n q \<noteq> 0" using ok(3) by (metis unat_0)
  then have n: "unat (iq_n q - 1) = unat (iq_n q) - 1"
    using word_neq_0_less [OF n0] by (simp add: unat_diff_small32 word_le_nat_alt)
  have card: "unat (iq_n q - 1) = card ({s. s < iq_slots q \<and> occ q s} - {x})"
    using card_Diff_singleton [OF mem] n ok(3) by simp
  have le: "iq_n q - 1 \<le> iq_capacity q"
    using ok(4) n by (simp add: word_le_nat_alt)
  have slots: "slot_ok P T (iq_release x q) s" if "s < iq_slots (iq_release x q)" for s
    using release_slot_ok [OF assms(1,2)] that by simp
  show "iq_ok P T (iq_release x q)"
    using release_shape [OF ok(1)] slots card le unfolding iq_ok_def set by simp
  show "iq_view (iq_release x q) = (iq_view q)(x := None)"
  proof
    fix s
    show "iq_view (iq_release x q) s = ((iq_view q)(x := None)) s"
      using eff [of s] by (cases "s < iq_slots q") (auto simp: iq_view_def)
  qed
qed

section \<open>Dispatch\<close>

lemma allocate_ok:
  assumes "iq_ok P {} q" "unat robIdx < length (iq_e q)" "\<not> occ q (unat robIdx)" "\<not> iq_full q"
  obtains q1 where "iq_allocate robIdx q = Some q1" "iq_ok P {unat robIdx} q1"
    "iq_slots q1 = iq_slots q" "occ q1 (unat robIdx)"
    "iq_e q1 ! unat robIdx = iq_entry0\<lparr>q_valid := True, q_robIdx := robIdx\<rparr>"
    "\<And>s. s \<noteq> unat robIdx \<Longrightarrow> iq_view q1 s = iq_view q s"
    "length (iq_e q1) = length (iq_e q)"
proof -
  let ?x = "unat robIdx"
  let ?e = "iq_entry0\<lparr>q_valid := True, q_robIdx := robIdx\<rparr>"
  define q1 where "q1 = q\<lparr>iq_e := (iq_e q)[?x := ?e],
     iq_occupied := or_at (?x div 64) (slot_bit ?x) (iq_occupied q), iq_n := iq_n q + 1\<rparr>"
  note ok = iq_okD [OF assms(1)]
  have x: "?x < iq_slots q" using ok(1) assms(2) by (rule slot_bound)
  have occ1: "occ q1 s \<longleftrightarrow> occ q s \<or> s = ?x" for s
    using ok(1) x by (simp add: q1_def iq_shape_def iq_slot_div member_or_at)
  have same: "iq_slots q1 = iq_slots q" "iq_words q1 = iq_words q" "iq_blocked1 q1 = iq_blocked1 q"
    "iq_blocked2 q1 = iq_blocked2 q" "iq_ready q1 = iq_ready q" "iq_wait1 q1 = iq_wait1 q"
    "iq_wait2 q1 = iq_wait2 q" "iq_e q1 = (iq_e q)[?x := ?e]"
    by (simp_all add: q1_def iq_slots_def)
  have slots: "slot_ok P {?x} q1 s" if s: "s < iq_slots q" for s
  proof (cases "s = ?x")
    case True
    then show ?thesis using ok(2) [OF s] assms(2,3) by (auto simp: slot_ok_def same occ1)
  next
    case False
    then show ?thesis using ok(2) [OF s] unfolding slot_ok_def by (simp add: same occ1)
  qed
  have "{s. s < iq_slots q1 \<and> occ q1 s} = insert ?x {s. s < iq_slots q \<and> occ q s}"
    using x by (auto simp: same occ1)
  then have card: "card {s. s < iq_slots q1 \<and> occ q1 s} = Suc (unat (iq_n q))"
    using assms(3) ok(3) by simp
  have lt: "unat (iq_n q) < unat (iq_capacity q)"
    using assms(4) ok(4) by (auto simp: iq_full_def word_le_nat_alt word_unat_eq_iff)
  then have n: "unat (iq_n q + 1) = Suc (unat (iq_n q))"
    using unat_less_pow32 [of "iq_capacity q"] by (intro unat_Suc_small32) simp
  have "iq_ok P {?x} q1"
    using ok(1) slots card n lt
    by (simp add: iq_ok_def) (simp add: q1_def iq_shape_def iq_slots_def word_le_nat_alt)
  moreover have "iq_view q1 s = iq_view q s" if "s \<noteq> ?x" for s
    using that by (simp add: iq_view_def same occ1)
  ultimately show ?thesis
    using that [of q1] assms(2,4) x occ1 by (simp add: iq_allocate_def q1_def iq_slots_def)
qed

lemma fill_ok:
  assumes "iq_ok P T q" "x \<in> T" "\<And>e. q_valid (f e) = q_valid e"
  shows "iq_ok P T (iq_fill x f q)"
    and "\<And>s. s \<noteq> x \<Longrightarrow> iq_view (iq_fill x f q) s = iq_view q s"
proof -
  note ok = iq_okD [OF assms(1)]
  have same: "iq_slots (iq_fill x f q) = iq_slots q" "iq_words (iq_fill x f q) = iq_words q"
    by (simp_all add: iq_fill_def iq_slots_def)
  have "slot_ok P T (iq_fill x f q) s" if s: "s < iq_slots q" for s
    using ok(2) [OF s] assms(2,3)
    by (cases "s = x") (auto simp: slot_ok_def iq_fill_def nth_list_update)
  then show "iq_ok P T (iq_fill x f q)"
    using ok by (simp add: iq_ok_def same) (simp add: iq_fill_def iq_shape_def)
  show "iq_view (iq_fill x f q) s = iq_view q s" if "s \<noteq> x" for s
    using that by (simp add: iq_view_def same) (simp add: iq_fill_def)
qed

lemma track_effect:
  assumes "iq_shape P q" "x < iq_slots q" "s < iq_slots q"
    and "\<not> r1 \<longrightarrow> unat (q_ps1 (iq_e q ! x)) < P" "\<not> r2 \<longrightarrow> unat (q_ps2 (iq_e q ! x)) < P"
  shows "occ (iq_track x r1 r2 q) s \<longleftrightarrow> occ q s"
    and "rdy (iq_track x r1 r2 q) s \<longleftrightarrow> rdy q s \<or> (s = x \<and> r1 \<and> r2)"
    and "blk1 (iq_track x r1 r2 q) s \<longleftrightarrow> blk1 q s \<or> (s = x \<and> \<not> r1)"
    and "blk2 (iq_track x r1 r2 q) s \<longleftrightarrow> blk2 q s \<or> (s = x \<and> \<not> r2)"
    and "wt1 (iq_track x r1 r2 q) p s \<longleftrightarrow> wt1 q p s \<or> (\<not> r1 \<and> s = x \<and> p = q_ps1 (iq_e q ! x))"
    and "wt2 (iq_track x r1 r2 q) p s \<longleftrightarrow> wt2 q p s \<or> (\<not> r2 \<and> s = x \<and> p = q_ps2 (iq_e q ! x))"
  using assms(1) assms(2,3) [unfolded iq_slot_div] in_row_or_at [OF assms(4) [rule_format]]
    in_row_or_at [OF assms(5) [rule_format]]
  by (auto simp: iq_track_def Let_def iq_shape_def member_or_at row_def)

lemma track_simps [simp]:
  "iq_words (iq_track x r1 r2 q) = iq_words q" "iq_slots (iq_track x r1 r2 q) = iq_slots q"
  "iq_e (iq_track x r1 r2 q) = iq_e q" "iq_capacity (iq_track x r1 r2 q) = iq_capacity q"
  "iq_n (iq_track x r1 r2 q) = iq_n q"
  by (simp_all add: iq_track_def Let_def iq_slots_def)

lemma track_shape: "iq_shape P q \<Longrightarrow> iq_shape P (iq_track x r1 r2 q)"
  by (simp add: iq_shape_def iq_track_def Let_def)

lemma track_ok:
  assumes "iq_ok P {x} q" "x < iq_slots q" "occ q x"
    and r: "\<not> r1 \<longrightarrow> unat (q_ps1 (iq_e q ! x)) < P" "\<not> r2 \<longrightarrow> unat (q_ps2 (iq_e q ! x)) < P"
  shows "iq_ok P {} (iq_track x r1 r2 q)"
    and "iq_view (iq_track x r1 r2 q) = (iq_view q)(x \<mapsto> (iq_e q ! x, \<not> r1, \<not> r2))"
proof -
  note ok = iq_okD [OF assms(1)]
  note eff = track_effect [OF ok(1) assms(2) _ r]
  have x: "\<not> blk1 q x" "\<not> blk2 q x" "\<not> rdy q x" using ok(2) [OF assms(2)] by (auto simp: slot_ok_def)
  have slots: "slot_ok P {} (iq_track x r1 r2 q) s" if s: "s < iq_slots q" for s
  proof (cases "s = x")
    case True
    then show ?thesis
      using ok(2) [OF s] eff [OF s] r x assms(3) by (auto simp: slot_ok_def)
  next
    case False
    then show ?thesis
      using ok(2) [OF s] eff [OF s] r unfolding slot_ok_def by simp
  qed
  have "{s. s < iq_slots q \<and> occ (iq_track x r1 r2 q) s} = {s. s < iq_slots q \<and> occ q s}"
    using eff(1) r by auto
  then show "iq_ok P {} (iq_track x r1 r2 q)"
    using ok track_shape slots by (simp add: iq_ok_def)
  show "iq_view (iq_track x r1 r2 q) = (iq_view q)(x \<mapsto> (iq_e q ! x, \<not> r1, \<not> r2))"
  proof
    fix s
    show "iq_view (iq_track x r1 r2 q) s = ((iq_view q)(x \<mapsto> (iq_e q ! x, \<not> r1, \<not> r2))) s"
      using eff [of s] r x assms(2,3) by (cases "s < iq_slots q") (auto simp: iq_view_def)
  qed
qed

section \<open>Wakeup\<close>

lemma wake_word_simps [simp]:
  "iq_words (wake_word p w q) = iq_words q" "iq_slots (wake_word p w q) = iq_slots q"
  "iq_e (wake_word p w q) = iq_e q" "iq_capacity (wake_word p w q) = iq_capacity q"
  "iq_n (wake_word p w q) = iq_n q" "iq_occupied (wake_word p w q) = iq_occupied q"
  by (simp_all add: wake_word_def Let_def iq_slots_def)

lemma wake_word_shape: "iq_shape P q \<Longrightarrow> iq_shape P (wake_word p w q)"
  by (simp add: iq_shape_def wake_word_def Let_def)

text \<open>One round clears what waited on the register in its word and nothing in the others.\<close>

lemma wake_word_effect:
  assumes "iq_shape P q" "unat p < P" "w < iq_words q" "s < iq_slots q"
  shows "wt1 (wake_word p w q) p' s \<longleftrightarrow> wt1 q p' s \<and> \<not> (p' = p \<and> s div 64 = w)"
    and "wt2 (wake_word p w q) p' s \<longleftrightarrow> wt2 q p' s \<and> \<not> (p' = p \<and> s div 64 = w)"
    and "blk1 (wake_word p w q) s \<longleftrightarrow> blk1 q s \<and> \<not> (s div 64 = w \<and> wt1 q p s)"
    and "blk2 (wake_word p w q) s \<longleftrightarrow> blk2 q s \<and> \<not> (s div 64 = w \<and> wt2 q p s)"
    and "rdy (wake_word p w q) s \<longleftrightarrow> rdy q s \<or>
      (s div 64 = w \<and> (wt1 q p s \<or> wt2 q p s) \<and> \<not> (blk1 q s \<and> \<not> wt1 q p s) \<and> \<not> (blk2 q s \<and> \<not> wt2 q p s))"
proof -
  have sw: "s div 64 < iq_words q" using assms(4) by (simp add: iq_slot_div)
  have b: "unat p * iq_words q + w < P * iq_words q" using row_bound [OF assms(2,3)] .
  note idx = row_index [OF assms(3) sw, of p p']
  show "wt1 (wake_word p w q) p' s \<longleftrightarrow> wt1 q p' s \<and> \<not> (p' = p \<and> s div 64 = w)"
    using assms(1) b idx
    by (auto simp: in_row_def wake_word_def Let_def iq_shape_def row_def nth_list_update)
  show "wt2 (wake_word p w q) p' s \<longleftrightarrow> wt2 q p' s \<and> \<not> (p' = p \<and> s div 64 = w)"
    using assms(1) b idx
    by (auto simp: in_row_def wake_word_def Let_def iq_shape_def row_def nth_list_update)
  show "blk1 (wake_word p w q) s \<longleftrightarrow> blk1 q s \<and> \<not> (s div 64 = w \<and> wt1 q p s)"
    using assms(1,3)
    by (auto simp: member_def in_row_def wake_word_def Let_def iq_shape_def row_def nth_list_update bit_simps)
  show "blk2 (wake_word p w q) s \<longleftrightarrow> blk2 q s \<and> \<not> (s div 64 = w \<and> wt2 q p s)"
    using assms(1,3)
    by (auto simp: member_def in_row_def wake_word_def Let_def iq_shape_def row_def nth_list_update bit_simps)
  show "rdy (wake_word p w q) s \<longleftrightarrow> rdy q s \<or>
      (s div 64 = w \<and> (wt1 q p s \<or> wt2 q p s) \<and> \<not> (blk1 q s \<and> \<not> wt1 q p s) \<and> \<not> (blk2 q s \<and> \<not> wt2 q p s))"
    using assms(1,3)
    by (auto simp: member_def in_row_def wake_word_def Let_def iq_shape_def row_def nth_list_update bit_simps)
qed

lemma wake_fold:
  assumes ok: "iq_ok P T q" and p: "unat p < P" and k: "k \<le> iq_words q"
  defines "q' \<equiv> fold (wake_word p) [0..<k] q"
  shows "iq_shape P q' \<and> iq_words q' = iq_words q \<and> iq_e q' = iq_e q \<and> iq_n q' = iq_n q \<and>
    iq_capacity q' = iq_capacity q \<and> iq_occupied q' = iq_occupied q \<and>
    (\<forall>s < iq_slots q. slot_ok P T q' s \<and>
       (blk1 q' s \<longleftrightarrow> blk1 q s \<and> \<not> (s div 64 < k \<and> q_ps1 (iq_e q ! s) = p)) \<and>
       (blk2 q' s \<longleftrightarrow> blk2 q s \<and> \<not> (s div 64 < k \<and> q_ps2 (iq_e q ! s) = p)))"
  using k unfolding q'_def
proof (induction k)
  case 0
  then show ?case using iq_okD [OF ok] by simp
next
  case (Suc k)
  let ?q = "fold (wake_word p) [0..<k] q"
  have IH: "iq_shape P ?q" "iq_words ?q = iq_words q" "iq_e ?q = iq_e q" "iq_n ?q = iq_n q"
    "iq_capacity ?q = iq_capacity q" "iq_occupied ?q = iq_occupied q"
    "\<And>s. s < iq_slots q \<Longrightarrow> slot_ok P T ?q s"
    "\<And>s. s < iq_slots q \<Longrightarrow> blk1 ?q s \<longleftrightarrow> blk1 q s \<and> \<not> (s div 64 < k \<and> q_ps1 (iq_e q ! s) = p)"
    "\<And>s. s < iq_slots q \<Longrightarrow> blk2 ?q s \<longleftrightarrow> blk2 q s \<and> \<not> (s div 64 < k \<and> q_ps2 (iq_e q ! s) = p)"
    using Suc by auto
  have kw: "k < iq_words ?q" using Suc.prems IH(2) by simp
  have sl: "iq_slots ?q = iq_slots q" using IH(2) by (simp add: iq_slots_def)
  have step: "slot_ok P T (wake_word p k ?q) s \<and>
       (blk1 (wake_word p k ?q) s \<longleftrightarrow> blk1 q s \<and> \<not> (s div 64 < Suc k \<and> q_ps1 (iq_e q ! s) = p)) \<and>
       (blk2 (wake_word p k ?q) s \<longleftrightarrow> blk2 q s \<and> \<not> (s div 64 < Suc k \<and> q_ps2 (iq_e q ! s) = p))"
    if s: "s < iq_slots q" for s
  proof -
    note eff = wake_word_effect [OF IH(1) p kw, of s, unfolded sl, OF s]
    have w: "wt1 ?q p s \<longleftrightarrow> blk1 ?q s \<and> q_ps1 (iq_e q ! s) = p"
      "wt2 ?q p s \<longleftrightarrow> blk2 ?q s \<and> q_ps2 (iq_e q ! s) = p"
      using IH(7) [OF s] p by (auto simp: slot_ok_def IH(3))
    have b: "blk1 (wake_word p k ?q) s \<longleftrightarrow> blk1 q s \<and> \<not> (s div 64 < Suc k \<and> q_ps1 (iq_e q ! s) = p)"
      "blk2 (wake_word p k ?q) s \<longleftrightarrow> blk2 q s \<and> \<not> (s div 64 < Suc k \<and> q_ps2 (iq_e q ! s) = p)"
      using eff(3,4) w IH(8,9) [OF s] by (auto simp: less_Suc_eq)
    have "slot_ok P T (wake_word p k ?q) s"
      using IH(7) [OF s] eff w unfolding slot_ok_def wake_word_simps IH(3) by (smt (verit) IH(6))
    with b show ?thesis by blast
  qed
  then show ?case
    using IH wake_word_shape by simp
qed

text \<open>
  The effect of a wakeup on the specification: the sources that waited on the register are no
  longer pending.
\<close>

definition wake_view :: "u8 \<Rightarrow> iq_entry \<times> bool \<times> bool \<Rightarrow> iq_entry \<times> bool \<times> bool" where
  "wake_view p = (\<lambda>(e, w1, w2). (e, w1 \<and> q_ps1 e \<noteq> p, w2 \<and> q_ps2 e \<noteq> p))"

lemma wakeup_ok:
  assumes ok: "iq_ok P T q" and p: "unat p < P"
  shows "iq_ok P T (iq_wakeup p q)"
    and "iq_view (iq_wakeup p q) s = map_option (wake_view p) (iq_view q s)"
    and "iq_words (iq_wakeup p q) = iq_words q" "iq_e (iq_wakeup p q) = iq_e q"
proof -
  note w = wake_fold [OF ok p order_refl, folded iq_wakeup_def]
  have sl: "iq_slots (iq_wakeup p q) = iq_slots q" using w by (simp add: iq_slots_def)
  show "iq_ok P T (iq_wakeup p q)" using iq_okD [OF ok] w by (simp add: iq_ok_def sl)
  show "iq_view (iq_wakeup p q) s = map_option (wake_view p) (iq_view q s)"
    using w by (auto simp: iq_view_def sl wake_view_def iq_slot_div)
  show "iq_words (iq_wakeup p q) = iq_words q" "iq_e (iq_wakeup p q) = iq_e q" using w by simp_all
qed

section \<open>Walks over the queue\<close>

lemma word_members:
  "map (\<lambda>i. w * 64 + i) (bits_of (ws ! w)) = filter (member ws) [w * 64..<w * 64 + 64]"
proof -
  have "bits_of (ws ! w) = filter (\<lambda>i. member ws (w * 64 + i)) [0..<64]"
    unfolding bits_of_def by (rule filter_cong) (auto simp: member_def)
  then show ?thesis by (simp add: map_add_upt64 [symmetric] filter_map o_def)
qed

lemma stable_members:
  assumes "own_slot getw n f" "walk f xs s = (go, s')" "length (getw s) = n"
    and "set ys \<inter> set xs = {}" "\<forall>y \<in> set ys. y < 64 * n"
  shows "filter (member (getw s')) ys = filter (member (getw s)) ys"
  by (rule filter_cong) (use walk_own [OF assms(1-3)] assms(4,5) in auto)

lemma visit_words_walk:
  assumes own: "own_slot getw n f"
  shows "length (getw s) = n \<Longrightarrow> lo \<le> hi \<Longrightarrow> hi \<le> n \<Longrightarrow>
    visit_words getw f [lo..<hi] s = walk f (filter (member (getw s)) [lo * 64..<hi * 64]) s"
proof (induction "hi - lo" arbitrary: lo s)
  case 0
  then show ?case by simp
next
  case (Suc d)
  then have lt: "lo < hi" by simp
  define block where "block = [lo * 64..<lo * 64 + 64]"
  let ?xs = "filter (member (getw s)) block"
  obtain go s' where w: "walk f ?xs s = (go, s')" by fastforce
  have len: "length (getw s') = n" using walk_own [OF own w Suc.prems(1)] by simp
  have st: "filter (member (getw s')) [Suc lo * 64..<hi * 64] = filter (member (getw s)) [Suc lo * 64..<hi * 64]"
    by (rule stable_members [OF own w Suc.prems(1)]) (use Suc.prems(3) in \<open>auto simp: block_def\<close>)
  have up: "[lo * 64..<hi * 64] = block @ [Suc lo * 64..<hi * 64]"
    using upt_add_eq_append [of "lo * 64" "lo * 64 + 64" "hi * 64 - (lo * 64 + 64)"] lt
    by (simp add: add.commute block_def)
  have "visit_words getw f [Suc lo..<hi] s' =
      walk f (filter (member (getw s')) [Suc lo * 64..<hi * 64]) s'"
    by (rule Suc.hyps(1)) (use Suc.hyps(2) Suc.prems len lt in simp_all)
  moreover have "forwardBits f (getw s ! lo) (lo * 64) s = (go, s')"
    using w by (simp only: forwardBits_walk word_members block_def)
  ultimately show ?case
    unfolding up filter_append walk_append w upt_conv_Cons [OF lt] visit_words.simps st [symmetric]
    by (simp del: upt_Suc)
qed

lemma visitReady_walk:
  assumes own: "own_slot (\<lambda>s. iq_ready (getq s)) (iq_words (getq s)) f"
    and len: "length (iq_ready (getq s)) = iq_words (getq s)"
    and head: "head < iq_slots (getq s)"
  shows "iq_visitReady getq head f s =
    snd (walk f (filter (rdy (getq s)) (age_order head (iq_slots (getq s)))) s)"
proof -
  let ?g = "\<lambda>s. iq_ready (getq s)" and ?n = "iq_words (getq s)"
  define h where "h = head div 64"
  have h: "h < ?n" using head by (simp add: iq_slot_div h_def)
  have lo: "h * 64 \<le> head" "head < h * 64 + 64" unfolding h_def by (simp_all add: div_times_less_eq_dividend dividend_less_div_times)
  define up :: u64 where "up = push_bit (head mod 64) (- 1)"
  have bits: "bit up i \<longleftrightarrow> head \<le> h * 64 + i" if "i < 64" for i
    using that range_low [of head h i] by (auto simp: up_def bit_simps h_def)
  have partA: "map (\<lambda>i. h * 64 + i) (bits_of (ws ! h AND up)) = filter (member ws) [head..<h * 64 + 64]" for ws
  proof -
    have "bits_of (ws ! h AND up) = filter (\<lambda>i. member ws (h * 64 + i) \<and> head \<le> h * 64 + i \<and> h * 64 + i < h * 64 + 64) [0..<64]"
      unfolding bits_of_def by (rule filter_cong) (auto simp: member_def bits bit_and_iff)
    then have "map (\<lambda>i. h * 64 + i) (bits_of (ws ! h AND up)) =
        filter (\<lambda>x. member ws x \<and> head \<le> x \<and> x < h * 64 + 64) [h * 64..<h * 64 + 64]"
      by (simp add: map_add_upt64 [symmetric] filter_map o_def)
    also have "\<dots> = filter (member ws) [head..<h * 64 + 64]"
      by (rule filter_sub_range) (use lo in simp_all)
    finally show ?thesis .
  qed
  have partD: "map (\<lambda>i. h * 64 + i) (bits_of (ws ! h AND NOT up)) = filter (member ws) [h * 64..<head]" for ws
  proof -
    have "bits_of (ws ! h AND NOT up) = filter (\<lambda>i. member ws (h * 64 + i) \<and> h * 64 \<le> h * 64 + i \<and> h * 64 + i < head) [0..<64]"
      unfolding bits_of_def by (rule filter_cong) (auto simp: member_def bits bit_and_iff bit_not_iff not_le)
    then have "map (\<lambda>i. h * 64 + i) (bits_of (ws ! h AND NOT up)) =
        filter (\<lambda>x. member ws x \<and> h * 64 \<le> x \<and> x < head) [h * 64..<h * 64 + 64]"
      by (simp add: map_add_upt64 [symmetric] filter_map o_def)
    also have "\<dots> = filter (member ws) [h * 64..<head]"
      by (rule filter_sub_range) (use lo in simp_all)
    finally show ?thesis .
  qed
  let ?F = "\<lambda>s. filter (rdy (getq s))"
  let ?A = "[head..<h * 64 + 64]" and ?B = "[Suc h * 64..<?n * 64]" and ?C = "[0..<h * 64]" and ?D = "[h * 64..<head]"
  obtain g1 s1 where w1: "walk f (?F s ?A) s = (g1, s1)" by fastforce
  have n1: "length (?g s1) = ?n" using walk_own [OF own w1 len] by simp
  have f1: "?F s1 ys = ?F s ys" if "set ys \<inter> {head..<h * 64 + 64} = {}" "\<forall>y \<in> set ys. y < 64 * ?n" for ys
    by (rule stable_members [OF own w1 len]) (use that in auto)
  obtain g2 s2 where w2: "walk f (?F s1 ?B) s1 = (g2, s2)" by fastforce
  have n2: "length (?g s2) = ?n" using walk_own [OF own w2 n1] by simp
  have f2: "?F s2 ys = ?F s1 ys" if "set ys \<inter> {Suc h * 64..<?n * 64} = {}" "\<forall>y \<in> set ys. y < 64 * ?n" for ys
    by (rule stable_members [OF own w2 n1]) (use that in auto)
  obtain g3 s3 where w3: "walk f (?F s2 ?C) s2 = (g3, s3)" by fastforce
  have n3: "length (?g s3) = ?n" using walk_own [OF own w3 n2] by simp
  have f3: "?F s3 ys = ?F s2 ys" if "set ys \<inter> {0..<h * 64} = {}" "\<forall>y \<in> set ys. y < 64 * ?n" for ys
    by (rule stable_members [OF own w3 n2]) (use that in auto)
  have B: "?F s1 ?B = ?F s ?B" by (rule f1) (use h in auto)
  have C: "?F s2 ?C = ?F s ?C" using f1 [of ?C] f2 [of ?C] h lo by auto
  have D: "?F s3 ?D = ?F s ?D" using f1 [of ?D] f2 [of ?D] f3 [of ?D] h lo by auto
  have v2: "visit_words ?g f [Suc h..<?n] s1 = (g2, s2)"
    using visit_words_walk [OF own n1, of "Suc h" ?n] h w2 by simp
  have v3: "visit_words ?g f [0..<h] s2 = (g3, s3)"
    using visit_words_walk [OF own n2, of 0 h] h w3 by simp
  have "iq_visitReady getq head f s =
      (if \<not> g1 then s1 else if \<not> g2 then s2 else if \<not> g3 then s3 else snd (walk f (?F s3 ?D) s3))"
    unfolding iq_visitReady_def Let_def h_def [symmetric] up_def [symmetric] forwardBits_walk partA partD
    by (simp only: w1 v2 v3 prod.case if_cancel not_not split: if_split)
  also have "\<dots> = snd (walk f (?F s ?A @ ?F s ?B @ ?F s ?C @ ?F s ?D) s)"
    by (cases g1; cases g2; cases g3)
      (simp_all only: walk_append w1 w2 [unfolded B] w3 [unfolded C] D prod.case if_True if_False
        snd_conv not_True_eq_False not_False_eq_True)
  also have "?F s ?A @ ?F s ?B @ ?F s ?C @ ?F s ?D = ?F s (age_order head (64 * ?n))"
  proof -
    have "[head..<64 * ?n] = ?A @ ?B"
      using upt_add_eq_append [of head "h * 64 + 64" "?n * 64 - (h * 64 + 64)"] h lo
      by (simp add: add.commute mult.commute)
    moreover have "[0..<head] = ?C @ ?D"
      using upt_add_eq_append [of 0 "h * 64" "head - h * 64"] lo by simp
    ultimately show ?thesis by (simp add: age_order_def)
  qed
  finally show ?thesis by (simp add: iq_slots_def)
qed

section \<open>Flush\<close>

lemma walk_always: "(\<And>x s. fst (f x s)) \<Longrightarrow> walk f xs s = (True, fold (\<lambda>x s. snd (f x s)) xs s)"
  by (induction xs arbitrary: s) (auto simp: case_prod_beta)

lemma own_release:
  "own_slot iq_occupied n (flush_visitor seq)"
  unfolding own_slot_def
proof (intro allI impI)
  fix x and q :: issue_queue
  assume n: "length (iq_occupied q) = n"
  have "member (andn_at (x div 64) (slot_bit x) (iq_occupied q)) y = member (iq_occupied q) y"
    if "y \<noteq> x" for y
    using that n member_andn_at [of x "iq_occupied q" y]
    by (cases "x div 64 < n") (simp_all add: andn_at_def [of "x div 64"] list_update_beyond)
  then show "length (iq_occupied (snd (flush_visitor seq x q))) = n \<and>
      (\<forall>y<64 * n. y \<noteq> x \<longrightarrow> member (iq_occupied (snd (flush_visitor seq x q))) y = member (iq_occupied q) y)"
    using n by (auto simp: flush_visitor_def iq_release_def Let_def)
qed

definition older_view :: "u64 \<Rightarrow> (iq_entry \<times> bool \<times> bool) option \<Rightarrow> (iq_entry \<times> bool \<times> bool) option" where
  "older_view seq v = (case v of None \<Rightarrow> None | Some (e, b) \<Rightarrow> if seq < q_seq e then None else Some (e, b))"

lemma flush_fold:
  assumes "distinct xs" "\<forall>x \<in> set xs. x < iq_slots q \<and> occ q x" "iq_ok P T q"
  shows "iq_ok P T (fold (\<lambda>x s. snd (flush_visitor seq x s)) xs q) \<and>
    iq_words (fold (\<lambda>x s. snd (flush_visitor seq x s)) xs q) = iq_words q \<and>
    iq_view (fold (\<lambda>x s. snd (flush_visitor seq x s)) xs q) =
      (\<lambda>s. if s \<in> set xs then older_view seq (iq_view q s) else iq_view q s)"
  using assms
proof (induction xs arbitrary: q)
  case Nil
  then show ?case by simp
next
  case (Cons x xs)
  let ?q = "snd (flush_visitor seq x q)"
  have x: "x < iq_slots q" "occ q x" "x \<notin> set xs" "distinct xs" using Cons.prems by simp_all
  note rel = release_ok [OF Cons.prems(3) x(1,2)]
  have v: "iq_view ?q = (iq_view q)(x := older_view seq (iq_view q x))"
  proof
    fix s
    show "iq_view ?q s = ((iq_view q)(x := older_view seq (iq_view q x))) s"
      using rel(2) x by (auto simp: flush_visitor_def older_view_def iq_view_def [of q x])
  qed
  have ok: "iq_ok P T ?q" using rel(1) Cons.prems(3) by (simp add: flush_visitor_def)
  have w: "iq_words ?q = iq_words q" "iq_slots ?q = iq_slots q" by (simp_all add: flush_visitor_def)
  have occs: "occ ?q y" if "y \<in> set xs" for y
  proof -
    have "y < iq_slots q" "occ q y" "y \<noteq> x" using that Cons.prems(2) x(3) by auto
    then have "iq_view ?q y \<noteq> None" using v by (simp add: iq_view_def)
    then show ?thesis by (simp add: iq_view_def split: if_splits)
  qed
  have "iq_ok P T (fold (\<lambda>x s. snd (flush_visitor seq x s)) xs ?q) \<and>
      iq_words (fold (\<lambda>x s. snd (flush_visitor seq x s)) xs ?q) = iq_words ?q \<and>
      iq_view (fold (\<lambda>x s. snd (flush_visitor seq x s)) xs ?q) =
        (\<lambda>s. if s \<in> set xs then older_view seq (iq_view ?q s) else iq_view ?q s)"
    by (rule Cons.IH) (use x(4) occs ok Cons.prems(2) w in auto)
  then show ?case using w x(3) by (auto simp: v fun_eq_iff)
qed

lemma flush_ok:
  assumes ok: "iq_ok P T q"
  shows "iq_ok P T (iq_flushYounger seq q)"
    and "iq_view (iq_flushYounger seq q) s = older_view seq (iq_view q s)"
proof -
  let ?xs = "filter (occ q) [0..<iq_words q * 64]"
  have len: "length (iq_occupied q) = iq_words q" using iq_okD(1) [OF ok] by (simp add: iq_shape_def)
  have "visit_words iq_occupied (flush_visitor seq) [0..<iq_words q] q = walk (flush_visitor seq) ?xs q"
    using visit_words_walk [OF own_release len, of 0 "iq_words q"] by simp
  then have f: "iq_flushYounger seq q = fold (\<lambda>x s. snd (flush_visitor seq x s)) ?xs q"
    by (simp add: iq_flushYounger_def walk_always flush_visitor_def)
  have r: "iq_ok P T (iq_flushYounger seq q) \<and> iq_words (iq_flushYounger seq q) = iq_words q \<and>
    iq_view (iq_flushYounger seq q) =
      (\<lambda>s. if s \<in> set ?xs then older_view seq (iq_view q s) else iq_view q s)"
    unfolding f by (rule flush_fold) (auto simp: ok iq_slots_def)
  then show "iq_ok P T (iq_flushYounger seq q)" by simp
  show "iq_view (iq_flushYounger seq q) s = older_view seq (iq_view q s)"
    using r by (auto simp: iq_view_def iq_slots_def older_view_def)
qed

lemma iq_dispatch_ok:
  assumes "iq_ok P {} q" "unat robIdx < length (iq_e q)" "\<not> occ q (unat robIdx)"
    and "\<And>e. q_valid (f e) = q_valid e"
    and "e = f (iq_entry0\<lparr>q_valid := True, q_robIdx := robIdx\<rparr>)"
    and "\<not> r1 \<longrightarrow> unat (q_ps1 e) < P" "\<not> r2 \<longrightarrow> unat (q_ps2 e) < P"
  shows "(iq_allocate robIdx q = None \<longleftrightarrow> iq_full q) \<and>
    (\<not> iq_full q \<longrightarrow> (\<exists>q1. iq_allocate robIdx q = Some q1 \<and>
       (let q2 = iq_track (unat robIdx) r1 r2 (iq_fill (unat robIdx) f q1) in
        iq_ok P {} q2 \<and> iq_view q2 = (iq_view q)(unat robIdx \<mapsto> (e, \<not> r1, \<not> r2)))))"
proof (cases "iq_full q")
  case True
  then show ?thesis by (simp add: iq_allocate_def)
next
  case False
  let ?x = "unat robIdx"
  obtain q1 where q1: "iq_allocate robIdx q = Some q1" "iq_ok P {?x} q1" "iq_slots q1 = iq_slots q"
    "occ q1 ?x" "iq_e q1 ! ?x = iq_entry0\<lparr>q_valid := True, q_robIdx := robIdx\<rparr>"
    "\<And>s. s \<noteq> ?x \<Longrightarrow> iq_view q1 s = iq_view q s" "length (iq_e q1) = length (iq_e q)"
    using allocate_ok [OF assms(1-3) False] by blast
  let ?q2 = "iq_fill ?x f q1"
  note fl = fill_ok [OF q1(2) insertI1 assms(4)]
  have e: "iq_e ?q2 ! ?x = e" using q1(5,7) assms(2,5) by (simp add: iq_fill_def)
  have x: "?x < iq_slots ?q2" "occ ?q2 ?x"
    using slot_bound [OF iq_okD(1) [OF assms(1)] assms(2)] q1(3,4)
    by (simp_all add: iq_fill_def iq_slots_def)
  note tr = track_ok [OF fl(1) x, unfolded e, OF assms(6,7)]
  have "iq_view (iq_track ?x r1 r2 ?q2) = (iq_view q)(?x \<mapsto> (e, \<not> r1, \<not> r2))"
    using tr(2) fl(2) q1(6) by (auto simp: fun_eq_iff)
  then show ?thesis using False q1(1) tr(1) by (simp add: Let_def)
qed

text \<open>A queue with one entry, in slot 3, whose first source waits for register 5.\<close>

definition demo_iq :: issue_queue where
  "demo_iq = (case iq_allocate 3 (iq_new 4 8 8) of
     Some q \<Rightarrow> iq_track 3 False True (iq_fill 3 (\<lambda>e. e\<lparr>q_seq := 9, q_ps1 := 5\<rparr>) q))"

definition demo_entry :: iq_entry where
  "demo_entry = iq_entry0\<lparr>q_valid := True, q_robIdx := 3, q_seq := 9, q_ps1 := 5\<rparr>"

lemma iq_new_empty: "iq_view (iq_new c n P) s = None"
  by (auto simp: iq_view_def iq_slot_div) (simp add: iq_new_def Let_def)

lemma demo_iq_ok: "iq_ok 8 {} demo_iq" "iq_view demo_iq = [3 \<mapsto> (demo_entry, True, False)]"
proof -
  let ?f = "\<lambda>e. e\<lparr>q_seq := 9, q_ps1 := 5\<rparr>"
  have free: "\<not> occ (iq_new 4 8 8) (unat (3 :: u32))" "unat (3 :: u32) < length (iq_e (iq_new 4 8 8))"
    "\<not> iq_full (iq_new 4 8 8)"
    by (simp_all add: iq_new_def Let_def iq_full_def member_def)
  from iq_dispatch_ok [OF iq_new_ok free(2,1), of ?f demo_entry False True] free(3)
  obtain q1 where q1: "iq_allocate 3 (iq_new 4 8 8) = Some q1"
    "iq_ok 8 {} (iq_track 3 False True (iq_fill 3 ?f q1))"
    "iq_view (iq_track 3 False True (iq_fill 3 ?f q1)) = (iq_view (iq_new 4 8 8))(3 \<mapsto> (demo_entry, True, False))"
    by (auto simp: demo_entry_def Let_def)
  have "iq_view (iq_new 4 8 8) = Map.empty" by (simp add: fun_eq_iff iq_new_empty)
  then show "iq_ok 8 {} demo_iq" "iq_view demo_iq = [3 \<mapsto> (demo_entry, True, False)]"
    using q1 by (simp_all add: demo_iq_def)
qed

section \<open>The queue implements its specification\<close>

text \<open>
  C9. The bitmap queue implements the per-slot specification.  From any state that satisfies
  the invariant: releasing an occupied slot removes it and nothing else; the writeback of a
  physical register unblocks exactly the sources that wait on it; a flush removes exactly the
  entries younger than the given sequence number; the readiness of a source is read
  correctly; and the invariant, which says that the ready bitmap is always exactly the
  occupied slots without a pending source, holds again.
\<close>

theorem iq_implements_spec:
  assumes "iq_ok P {} q"
  shows "(x < iq_slots q \<and> occ q x \<longrightarrow>
       iq_ok P {} (iq_release x q) \<and> iq_view (iq_release x q) = (iq_view q)(x := None)) \<and>
    (unat p < P \<longrightarrow>
       iq_ok P {} (iq_wakeup p q) \<and> iq_view (iq_wakeup p q) = map_option (wake_view p) \<circ> iq_view q) \<and>
    (iq_ok P {} (iq_flushYounger seq q) \<and>
       iq_view (iq_flushYounger seq q) = older_view seq \<circ> iq_view q) \<and>
    (iq_view q x = Some (e, w1, w2) \<longrightarrow>
       iq_sourceReady x False q = (\<not> w1) \<and> iq_sourceReady x True q = (\<not> w2) \<and>
       rdy q x = (\<not> w1 \<and> \<not> w2))"
proof -
  have "iq_sourceReady x False q = (\<not> w1) \<and> iq_sourceReady x True q = (\<not> w2) \<and>
      rdy q x = (\<not> w1 \<and> \<not> w2)" if v: "iq_view q x = Some (e, w1, w2)"
  proof -
    have x: "x < iq_slots q" "occ q x" "blk1 q x = w1" "blk2 q x = w2"
      using v by (auto simp: iq_view_def split: if_splits)
    then show ?thesis
      using iq_okD(2) [OF assms x(1)] by (simp add: iq_sourceReady_def and_slot_bit slot_ok_def)
  qed
  then show ?thesis
    using release_ok [OF assms] wakeup_ok(1,2) [OF assms] flush_ok [OF assms]
    by (auto simp: fun_eq_iff)
qed

theorem iq_implements_spec_witness:
  "iq_view (iq_wakeup 5 demo_iq) = [3 \<mapsto> (demo_entry, False, False)] \<and>
   iq_view (iq_flushYounger 8 demo_iq) = Map.empty \<and> \<not> rdy demo_iq 3"
  using iq_implements_spec [OF demo_iq_ok(1), of 0 5 8]
    iq_implements_spec [OF demo_iq_ok(1), of 3 0 0 demo_entry True False]
  by (auto simp: demo_iq_ok(2) wake_view_def older_view_def demo_entry_def iq_entry0_def fun_eq_iff)

text \<open>
  Dispatch: when the queue is not full and the slot is free, allocating the slot, filling
  the entry in and tracking its sources adds exactly that entry, waiting for exactly the
  sources that were not ready, and keeps the invariant; a full queue refuses.
\<close>

theorem iq_dispatch_spec:
  assumes "iq_ok P {} q" "unat robIdx < length (iq_e q)" "\<not> occ q (unat robIdx)"
    and "\<And>e. q_valid (f e) = q_valid e"
    and "e = f (iq_entry0\<lparr>q_valid := True, q_robIdx := robIdx\<rparr>)"
    and "\<not> r1 \<longrightarrow> unat (q_ps1 e) < P" "\<not> r2 \<longrightarrow> unat (q_ps2 e) < P"
  shows "(iq_allocate robIdx q = None \<longleftrightarrow> iq_full q) \<and>
    (\<not> iq_full q \<longrightarrow> (\<exists>q1. iq_allocate robIdx q = Some q1 \<and>
       (let q2 = iq_track (unat robIdx) r1 r2 (iq_fill (unat robIdx) f q1) in
        iq_ok P {} q2 \<and> iq_view q2 = (iq_view q)(unat robIdx \<mapsto> (e, \<not> r1, \<not> r2)))))"
  using assms by (rule iq_dispatch_ok)

theorem iq_dispatch_spec_witness:
  "\<exists>q1. iq_allocate 3 (iq_new 4 8 8) = Some q1 \<and>
     iq_view (iq_track 3 False True (iq_fill 3 (\<lambda>e. e\<lparr>q_seq := 9, q_ps1 := 5\<rparr>) q1)) 3 =
       Some (demo_entry, True, False)"
proof -
  have "\<not> occ (iq_new 4 8 8) (unat (3 :: u32))" "unat (3 :: u32) < length (iq_e (iq_new 4 8 8))"
    "\<not> iq_full (iq_new 4 8 8)"
    by (simp_all add: iq_new_def Let_def iq_full_def member_def)
  with iq_dispatch_spec [OF iq_new_ok, of 3 4 8 8 "\<lambda>e. e\<lparr>q_seq := 9, q_ps1 := 5\<rparr>" demo_entry False True]
  show ?thesis by (auto simp: demo_entry_def Let_def)
qed

lemma own_release_ready:
  "own_slot (\<lambda>s. iq_ready (fst s)) n (\<lambda>x s. (True, (iq_release x (fst s), snd s @ [x])))"
  unfolding own_slot_def
proof (intro allI impI)
  fix x and s :: "issue_queue \<times> nat list"
  let ?q = "fst s"
  assume n: "length (iq_ready ?q) = n"
  have "member (andn_at (x div 64) (slot_bit x) (iq_ready ?q)) y = member (iq_ready ?q) y"
    if "y \<noteq> x" for y
    using that n member_andn_at [of x "iq_ready ?q" y]
    by (cases "x div 64 < n") (simp_all add: andn_at_def [of "x div 64"] list_update_beyond)
  then show "length (iq_ready (fst (snd (True, (iq_release x ?q, snd s @ [x]))))) = n \<and>
      (\<forall>y<64 * n. y \<noteq> x \<longrightarrow> member (iq_ready (fst (snd (True, (iq_release x ?q, snd s @ [x]))))) y
         = member (iq_ready ?q) y)"
    using n by (auto simp: iq_release_def Let_def)
qed

text \<open>
  C27. Select: \<^verbatim>\<open>visitReady\<close> walks exactly the entries with no pending source, oldest first in
  ring order from the head of the reorder buffer, also when the visitor releases the entry it
  is given.
\<close>

theorem visitReady_oldest_first:
  assumes "iq_ok P {} (getq s)" "head < iq_slots (getq s)"
    and "own_slot (\<lambda>s. iq_ready (getq s)) (iq_words (getq s)) f"
  shows "iq_visitReady getq head f s = snd (walk f
    (filter (\<lambda>x. \<exists>e. iq_view (getq s) x = Some (e, False, False))
      (age_order head (iq_slots (getq s)))) s)"
proof -
  note ok = iq_okD [OF assms(1)]
  have len: "length (iq_ready (getq s)) = iq_words (getq s)" using ok(1) by (simp add: iq_shape_def)
  have "filter (rdy (getq s)) (age_order head (iq_slots (getq s))) =
      filter (\<lambda>x. \<exists>e. iq_view (getq s) x = Some (e, False, False)) (age_order head (iq_slots (getq s)))"
  proof (rule filter_cong [OF refl])
    fix x
    assume "x \<in> set (age_order head (iq_slots (getq s)))"
    then have "x < iq_slots (getq s)" using assms(2) by (auto simp: age_order_def)
    with ok(2) [OF this] show "rdy (getq s) x \<longleftrightarrow> (\<exists>e. iq_view (getq s) x = Some (e, False, False))"
      by (auto simp: slot_ok_def iq_view_def)
  qed
  then show ?thesis using visitReady_walk [of getq s f head, OF assms(3) len assms(2)] by simp
qed

theorem visitReady_oldest_first_witness:
  "snd (iq_visitReady fst 2 (\<lambda>x s. (True, (iq_release x (fst s), snd s @ [x]))) (iq_wakeup 5 demo_iq, [])) = [3]"
proof -
  let ?s = "(iq_wakeup 5 demo_iq, []) :: issue_queue \<times> nat list"
  have ok: "iq_ok 8 {} (fst ?s)" using wakeup_ok(1) [OF demo_iq_ok(1), of 5] by simp
  have v: "iq_view (fst ?s) x = (if x = 3 then Some (demo_entry, False, False) else None)" for x
    using wakeup_ok(2) [OF demo_iq_ok(1), of 5 x]
    by (simp add: demo_iq_ok(2) wake_view_def demo_entry_def iq_entry0_def)
  have "iq_view (fst ?s) 3 \<noteq> None" unfolding v by simp
  then have "3 < iq_slots (fst ?s)" by (simp add: iq_view_def split: if_splits)
  then have sl: "2 < iq_slots (fst ?s)" "3 < iq_slots (fst ?s)" by simp_all
  have p: "(\<lambda>x. \<exists>e. iq_view (fst ?s) x = Some (e, False, False)) = (\<lambda>x. x = 3)"
    unfolding v by (auto simp: fun_eq_iff)
  have "[2..<iq_slots (fst ?s)] = [2, 3] @ [4..<iq_slots (fst ?s)]"
    using sl by (simp add: upt_conv_Cons)
  moreover have "filter (\<lambda>x. x = 3) [4..<iq_slots (fst ?s)] = []" by (auto simp: filter_empty_conv)
  moreover have "[0..<2] = [0, 1 :: nat]" by (simp add: upt_rec)
  ultimately have "filter (\<lambda>x. \<exists>e. iq_view (fst ?s) x = Some (e, False, False))
      (age_order 2 (iq_slots (fst ?s))) = [3]"
    unfolding p age_order_def by simp
  with visitReady_oldest_first [of 8 fst ?s 2, OF ok sl(1) own_release_ready] show ?thesis by simp
qed

end
