(* ===== verification/Func_Unit.thy ===== *)
theory Func_Unit
  imports Isa
begin

text \<open>
  Model of \<^verbatim>\<open>core/fu.h\<close>: a functional unit of fixed latency, pipelined or not, with a one-entry
  output slot.  The circular pipeline with its moving input slot is shown to be a shift
  register, and from that every operation is shown to take exactly the unit's latency.
\<close>

section \<open>State\<close>

abbreviation kNoReg :: u8 where "kNoReg \<equiv> 0xFF"

record fu_op =
  o_seq :: u64
  o_robIdx :: u32
  o_value :: u32
  o_lsqIdx :: u32
  o_target :: u32
  o_pdst :: u8
  o_valid :: bool
  o_redirect :: bool

definition fu_op0 :: fu_op where
  "fu_op0 = \<lparr>o_seq = 0, o_robIdx = 0, o_value = 0, o_lsqIdx = 0, o_target = 0, o_pdst = kNoReg,
     o_valid = False, o_redirect = False\<rparr>"

text \<open>The field \<^verbatim>\<open>name\<close> is a label for the statistics and is left out.\<close>

record fu_unit =
  f_latency :: u32
  f_pipelined :: bool
  f_stages :: "fu_op list"
  f_cur :: fu_op
  f_remaining :: u32
  f_out :: fu_op
  f_ops :: u64
  f_busyCycles :: u64
  f_inputSlot :: u32
  f_inFlight :: u32

definition fu_new :: "u32 \<Rightarrow> bool \<Rightarrow> fu_unit" where
  "fu_new latency pipelined =
     \<lparr>f_latency = latency, f_pipelined = pipelined,
      f_stages = (if pipelined then replicate (unat latency) fu_op0 else []),
      f_cur = fu_op0, f_remaining = 0, f_out = fu_op0, f_ops = 0, f_busyCycles = 0,
      f_inputSlot = 0, f_inFlight = 0\<rparr>"

section \<open>Operations\<close>

definition fu_busy :: "fu_unit \<Rightarrow> bool" where
  "fu_busy u = (if f_pipelined u then f_inFlight u \<noteq> 0 else o_valid (f_cur u))"

definition fu_canAccept :: "fu_unit \<Rightarrow> bool" where
  "fu_canAccept u =
     (if f_pipelined u then \<not> o_valid (f_stages u ! unat (f_inputSlot u))
      else \<not> o_valid (f_cur u) \<and> \<not> o_valid (f_out u))"

definition fu_accept :: "fu_op \<Rightarrow> fu_unit \<Rightarrow> fu_unit" where
  "fu_accept op u =
     (let u = u\<lparr>f_ops := f_ops u + 1\<rparr> in
      if f_pipelined u
      then u\<lparr>f_stages := (f_stages u)[unat (f_inputSlot u) := op], f_inFlight := f_inFlight u + 1\<rparr>
      else u\<lparr>f_cur := op, f_remaining := f_latency u\<rparr>)"

text \<open>The slot before the input slot, which \<^verbatim>\<open>tick\<close> moves to.\<close>

definition prev_slot :: "fu_unit \<Rightarrow> u32" where
  "prev_slot u = (if f_inputSlot u \<noteq> 0 then f_inputSlot u - 1 else f_latency u - 1)"

definition fu_tick :: "fu_unit \<Rightarrow> bool \<times> fu_unit" where
  "fu_tick u =
     (if \<not> fu_busy u then (False, u)
      else let u = u\<lparr>f_busyCycles := f_busyCycles u + 1\<rparr> in
        if f_pipelined u then
          (if o_valid (f_out u) then (False, u)
           else let slot = prev_slot u;
                    last = f_stages u ! unat slot;
                    u = u\<lparr>f_inputSlot := slot\<rparr>
                in if o_valid last
                   then (True, u\<lparr>f_out := last,
                                 f_stages := (f_stages u)[unat slot := last\<lparr>o_valid := False\<rparr>],
                                 f_inFlight := f_inFlight u - 1\<rparr>)
                   else (False, u))
        else let u = u\<lparr>f_remaining := f_remaining u - 1\<rparr> in
          if f_remaining u = 0
          then (True, u\<lparr>f_out := f_cur u, f_cur := (f_cur u)\<lparr>o_valid := False\<rparr>\<rparr>)
          else (False, u))"

text \<open>The loop over the stages of \<^verbatim>\<open>flushYounger\<close>, with its count, and the whole.\<close>

definition fu_kill :: "u64 \<Rightarrow> fu_op \<Rightarrow> fu_op" where
  "fu_kill seq s = (if o_valid s \<and> seq < o_seq s then s\<lparr>o_valid := False\<rparr> else s)"

primrec flush_stages :: "u64 \<Rightarrow> fu_op list \<Rightarrow> u32 \<Rightarrow> fu_op list \<times> u32" where
  "flush_stages seq [] n = ([], n)"
| "flush_stages seq (s # ss) n =
     (let (ss', n') = flush_stages seq ss (if o_valid s \<and> seq < o_seq s then n - 1 else n)
      in (fu_kill seq s # ss', n'))"

definition fu_flushYounger :: "u64 \<Rightarrow> fu_unit \<Rightarrow> fu_unit" where
  "fu_flushYounger seq u =
     (let (ss, n) = flush_stages seq (f_stages u) (f_inFlight u);
          kill_cur = o_valid (f_cur u) \<and> seq < o_seq (f_cur u)
      in u\<lparr>f_stages := ss, f_inFlight := n, f_cur := fu_kill seq (f_cur u),
           f_remaining := (if kill_cur then 0 else f_remaining u),
           f_out := fu_kill seq (f_out u)\<rparr>)"

section \<open>The pipeline as a shift register\<close>

definition live_op :: "fu_op \<Rightarrow> fu_op option" where
  "live_op s = (if o_valid s then Some s else None)"

text \<open>
  Position \<open>k\<close> of the register holds the operation that comes out at the \<open>k+1\<close>-st advance.
\<close>

definition stage_at :: "fu_unit \<Rightarrow> nat \<Rightarrow> nat" where
  "stage_at u k = (unat (f_inputSlot u) + unat (f_latency u) - 1 - k) mod unat (f_latency u)"

definition fu_pipe :: "fu_unit \<Rightarrow> fu_op option list" where
  "fu_pipe u = map (\<lambda>k. live_op (f_stages u ! stage_at u k)) [0..<unat (f_latency u)]"

definition fu_ok :: "fu_unit \<Rightarrow> bool" where
  "fu_ok u \<longleftrightarrow> 0 < unat (f_latency u) \<and>
     (if f_pipelined u
      then length (f_stages u) = unat (f_latency u) \<and> f_inputSlot u < f_latency u \<and>
        unat (f_inFlight u) = length (filter o_valid (f_stages u)) \<and> \<not> o_valid (f_cur u)
      else f_stages u = [] \<and> f_inFlight u = 0 \<and>
        (o_valid (f_cur u) \<longrightarrow> \<not> o_valid (f_out u) \<and> 0 < unat (f_remaining u) \<and>
           f_remaining u \<le> f_latency u))"

lemma length_fu_pipe [simp]: "length (fu_pipe u) = unat (f_latency u)"
  by (simp add: fu_pipe_def)

lemma fu_okD:
  assumes "fu_ok u" "f_pipelined u"
  shows "0 < unat (f_latency u)" "length (f_stages u) = unat (f_latency u)"
    "unat (f_inputSlot u) < unat (f_latency u)"
    "unat (f_inFlight u) = length (filter o_valid (f_stages u))" "\<not> o_valid (f_cur u)"
  using assms by (auto simp: fu_ok_def word_less_nat_alt)

lemma stage_at_cases:
  assumes "fu_ok u" "f_pipelined u" "k < unat (f_latency u)"
  shows "stage_at u k = (if k < unat (f_inputSlot u) then unat (f_inputSlot u) - 1 - k
     else unat (f_inputSlot u) + unat (f_latency u) - 1 - k)"
proof -
  let ?i = "unat (f_inputSlot u)" and ?L = "unat (f_latency u)"
  have i: "?i < ?L" using assms(1,2) by (rule fu_okD(3))
  show ?thesis
  proof (cases "k < ?i")
    case True
    then have "?i + ?L - 1 - k = (?i - 1 - k) + ?L" by linarith
    moreover have "?i - 1 - k < ?L" using i by linarith
    ultimately have "stage_at u k = ?i - 1 - k" unfolding stage_at_def by (metis mod_add_self2 mod_less)
    then show ?thesis using True by simp
  next
    case False
    then have "?i + ?L - 1 - k < ?L" using assms(3) i by linarith
    then show ?thesis using False by (simp add: stage_at_def)
  qed
qed

lemma stage_at_inj:
  assumes "fu_ok u" "f_pipelined u" "j < unat (f_latency u)" "k < unat (f_latency u)"
  shows "stage_at u j = stage_at u k \<longleftrightarrow> j = k"
  using assms(3,4) fu_okD(3) [OF assms(1,2)] stage_at_cases [OF assms(1,2)] by auto

lemma stage_at_input:
  assumes "fu_ok u" "f_pipelined u"
  shows "stage_at u (unat (f_latency u) - 1) = unat (f_inputSlot u)"
  using fu_okD [OF assms] by (simp add: stage_at_def)

lemma stage_at_less: "fu_ok u \<Longrightarrow> stage_at u k < unat (f_latency u)"
  by (simp add: stage_at_def fu_ok_def)

text \<open>Moving the input slot back by one shifts every position down.\<close>

lemma prev_slot_busy [simp]: "prev_slot (u\<lparr>f_busyCycles := n\<rparr>) = prev_slot u"
  by (simp add: prev_slot_def)

lemma prev_slot:
  assumes "fu_ok u" "f_pipelined u"
  shows "unat (prev_slot u) = stage_at u 0" "prev_slot u < f_latency u"
    and "\<And>k. Suc k < unat (f_latency u) \<Longrightarrow>
      (unat (prev_slot u) + unat (f_latency u) - 1 - k) mod unat (f_latency u) = stage_at u (Suc k)"
proof -
  let ?i = "unat (f_inputSlot u)" and ?L = "unat (f_latency u)"
  note ok = fu_okD [OF assms]
  have "f_latency u \<noteq> 0" using ok(1) by auto
  then have p: "unat (prev_slot u) = (if ?i \<noteq> 0 then ?i - 1 else ?L - 1)"
    by (auto simp: prev_slot_def unat_pred32 unat_eq_zero)
  show "unat (prev_slot u) = stage_at u 0" using p stage_at_cases [OF assms ok(1)] by auto
  then show "prev_slot u < f_latency u"
    using stage_at_less [OF assms(1), of 0] by (simp add: word_less_nat_alt)
  fix k
  assume k: "Suc k < ?L"
  show "(unat (prev_slot u) + ?L - 1 - k) mod ?L = stage_at u (Suc k)"
  proof (cases "?i = 0")
    case True
    then have "unat (prev_slot u) + ?L - 1 - k = (?i + ?L - 1 - Suc k) + ?L" using p k by simp
    then show ?thesis unfolding stage_at_def by (metis mod_add_self2)
  next
    case False
    then have "unat (prev_slot u) + ?L - 1 - k = ?i + ?L - 1 - Suc k" using p k by simp
    then show ?thesis unfolding stage_at_def by simp
  qed
qed

section \<open>Every operation on the shift register\<close>

lemma fu_pipe_nth:
  "k < unat (f_latency u) \<Longrightarrow> fu_pipe u ! k = live_op (f_stages u ! stage_at u k)"
  by (simp add: fu_pipe_def)

lemma canAccept_pipe:
  assumes "fu_ok u" "f_pipelined u"
  shows "fu_canAccept u \<longleftrightarrow> last (fu_pipe u) = None"
proof -
  have "fu_pipe u \<noteq> []" using fu_okD(1) [OF assms] by (simp add: fu_pipe_def)
  then have "last (fu_pipe u) = live_op (f_stages u ! unat (f_inputSlot u))"
    using fu_okD(1) [OF assms] stage_at_input [OF assms] by (simp add: last_conv_nth fu_pipe_nth)
  then show ?thesis using assms(2) by (simp add: fu_canAccept_def live_op_def)
qed

lemma accept_pipe:
  assumes "fu_ok u" "f_pipelined u" "fu_canAccept u" "o_valid op"
  shows "fu_ok (fu_accept op u)" "fu_pipe (fu_accept op u) = butlast (fu_pipe u) @ [Some op]"
proof -
  note ok = fu_okD [OF assms(1,2)]
  let ?i = "unat (f_inputSlot u)" and ?L = "unat (f_latency u)"
  have free: "\<not> o_valid (f_stages u ! ?i)" using assms(2,3) by (simp add: fu_canAccept_def)
  have cnt: "length (filter o_valid ((f_stages u)[?i := op])) = Suc (length (filter o_valid (f_stages u)))"
    using count_update [of ?i "f_stages u" o_valid op] free assms(4) ok(2,3) by simp
  have "length (filter o_valid ((f_stages u)[?i := op])) \<le> ?L"
    using length_filter_le [of o_valid "(f_stages u)[?i := op]"] ok(2) by simp
  then have n: "unat (f_inFlight u + 1) = Suc (unat (f_inFlight u))"
    using cnt ok(4) unat_less_pow32 [of "f_latency u"] by (intro unat_Suc_small32) simp
  show "fu_ok (fu_accept op u)"
    using assms(1,2) ok cnt n by (simp add: fu_accept_def fu_ok_def Let_def)
  show "fu_pipe (fu_accept op u) = butlast (fu_pipe u) @ [Some op]"
  proof (rule nth_equalityI)
    show "length (fu_pipe (fu_accept op u)) = length (butlast (fu_pipe u) @ [Some op])"
      using assms(2) ok(1) by (simp add: fu_accept_def Let_def)
    fix k
    assume "k < length (fu_pipe (fu_accept op u))"
    then have k: "k < ?L" using assms(2) by (simp add: fu_accept_def Let_def)
    have "fu_pipe (fu_accept op u) ! k = live_op ((f_stages u)[?i := op] ! stage_at u k)"
      using k assms(2) by (simp add: fu_pipe_nth fu_accept_def Let_def stage_at_def)
    moreover have "stage_at u k = ?i \<longleftrightarrow> k = ?L - 1"
      using stage_at_inj [OF assms(1,2) k, of "?L - 1"] stage_at_input [OF assms(1,2)] ok(1) by simp
    ultimately show "fu_pipe (fu_accept op u) ! k = (butlast (fu_pipe u) @ [Some op]) ! k"
      using k ok assms(4) by (auto simp: nth_append nth_butlast fu_pipe_nth live_op_def)
  qed
qed

lemma idle_pipe:
  assumes "fu_ok u" "f_pipelined u" "\<not> fu_busy u"
  shows "fu_pipe u = replicate (unat (f_latency u)) None"
proof (rule nth_equalityI)
  fix k
  assume k: "k < length (fu_pipe u)"
  have "length (filter o_valid (f_stages u)) = 0"
    using assms fu_okD(4) [OF assms(1,2)] by (simp add: fu_busy_def)
  then have "\<forall>s \<in> set (f_stages u). \<not> o_valid s" by (auto simp: filter_empty_conv)
  moreover have "f_stages u ! stage_at u k \<in> set (f_stages u)"
    using stage_at_less [OF assms(1)] fu_okD(2) [OF assms(1,2)] by simp
  ultimately show "fu_pipe u ! k = replicate (unat (f_latency u)) None ! k"
    using k by (simp add: fu_pipe_nth live_op_def)
qed simp

lemma tick_pipe:
  assumes "fu_ok u" "f_pipelined u" "\<not> o_valid (f_out u)" "fu_tick u = (fin, u')"
  shows "fu_ok u' \<and> f_pipelined u' \<and> f_latency u' = f_latency u \<and>
    fu_pipe u' = tl (fu_pipe u) @ [None] \<and> (fin \<longleftrightarrow> hd (fu_pipe u) \<noteq> None) \<and>
    live_op (f_out u') = hd (fu_pipe u)"
proof (cases "fu_busy u")
  case False
  then have "u' = u" "\<not> fin" using assms(4) by (auto simp: fu_tick_def)
  moreover obtain n where "fu_pipe u = replicate (Suc n) None"
    using idle_pipe [OF assms(1,2) False] fu_okD(1) [OF assms(1,2)]
    by (cases "unat (f_latency u)") simp_all
  then have "fu_pipe u = tl (fu_pipe u) @ [None]" "hd (fu_pipe u) = None"
    by (simp_all add: replicate_append_same)
  ultimately show ?thesis using assms(1-3) by (simp add: live_op_def)
next
  case True
  note ok = fu_okD [OF assms(1,2)] and ps = prev_slot [OF assms(1,2)]
  let ?L = "unat (f_latency u)" and ?p = "unat (prev_slot u)"
  let ?last = "f_stages u ! ?p"
  have p: "?p < ?L" using ps(1) stage_at_less [OF assms(1)] by simp
  have hd: "hd (fu_pipe u) = live_op ?last"
    using ok(1) ps(1) by (simp add: hd_conv_nth fu_pipe_nth flip: length_greater_0_conv)
  have shape: "f_inputSlot u' = prev_slot u" "f_latency u' = f_latency u" "f_pipelined u'"
    "f_stages u' = (f_stages u)[?p := ?last\<lparr>o_valid := False\<rparr>] \<or> (\<not> o_valid ?last \<and> f_stages u' = f_stages u)"
    "f_cur u' = f_cur u" "fin \<longleftrightarrow> o_valid ?last" "f_out u' = (if o_valid ?last then ?last else f_out u)"
    "f_inFlight u' = (if o_valid ?last then f_inFlight u - 1 else f_inFlight u)"
    using assms(2-4) True by (auto simp: fu_tick_def Let_def split: if_splits)
  have st: "live_op (f_stages u' ! j) = (if j = ?p then None else live_op (f_stages u ! j))"
    if "j < ?L" for j
    using shape(4) p ok(2) that by (cases "j = ?p") (auto simp: live_op_def)
  have len: "length (f_stages u') = ?L" using shape(4) ok(2) by auto
  have cnt: "length (filter o_valid (f_stages u')) + (if o_valid ?last then 1 else 0) =
      length (filter o_valid (f_stages u))"
    using shape(4) count_update [of ?p "f_stages u" o_valid "?last\<lparr>o_valid := False\<rparr>"] p ok(2) by auto
  have "unat (f_inFlight u') = length (filter o_valid (f_stages u'))"
  proof (cases "o_valid ?last")
    case True
    then have "f_inFlight u \<noteq> 0" using cnt ok(4) by auto
    then show ?thesis using True cnt ok(4) shape(8) by (simp add: unat_pred32)
  qed (use cnt ok(4) shape(8) in simp)
  then have ok': "fu_ok u'"
    using assms(1) len shape ps(2) ok by (simp add: fu_ok_def)
  have "fu_pipe u' = tl (fu_pipe u) @ [None]"
  proof (rule nth_equalityI)
    show "length (fu_pipe u') = length (tl (fu_pipe u) @ [None])" using shape(2) ok(1) by simp
    fix k
    assume "k < length (fu_pipe u')"
    then have k: "k < ?L" using shape(2) by simp
    have at: "stage_at u' k = (?p + ?L - 1 - k) mod ?L" by (simp add: stage_at_def shape(1,2))
    have lt: "stage_at u' k < ?L" using stage_at_less [OF ok'] shape(2) by simp
    show "fu_pipe u' ! k = (tl (fu_pipe u) @ [None]) ! k"
    proof (cases "Suc k < ?L")
      case True
      then have e: "stage_at u' k = stage_at u (Suc k)" using at ps(3) by simp
      have "stage_at u (Suc k) \<noteq> ?p"
        using stage_at_inj [OF assms(1,2) True ok(1)] ps(1) by simp
      moreover have "k < ?L - 1" using True by linarith
      ultimately show ?thesis using True k e st [OF lt] shape(2)
        by (simp add: nth_append nth_tl fu_pipe_nth)
    next
      case False
      then have kL: "k = ?L - 1" using k by linarith
      then have "stage_at u' k = ?p" using at p by simp
      then show ?thesis using kL k st [OF lt] shape(2) by (simp add: nth_append fu_pipe_nth)
    qed
  qed
  then show ?thesis using ok' shape hd assms(3) by (auto simp: live_op_def)
qed

section \<open>Squash\<close>

definition older :: "u64 \<Rightarrow> fu_op option \<Rightarrow> fu_op option" where
  "older seq v = (case v of None \<Rightarrow> None | Some s \<Rightarrow> if seq < o_seq s then None else Some s)"

lemma live_kill: "live_op (fu_kill seq s) = older seq (live_op s)"
  by (simp add: live_op_def fu_kill_def older_def)

lemma flush_stages_spec:
  "unat n \<ge> length (filter o_valid ss) \<Longrightarrow>
     fst (flush_stages seq ss n) = map (fu_kill seq) ss \<and>
     unat (snd (flush_stages seq ss n)) =
       unat n - length (filter o_valid ss) + length (filter o_valid (map (fu_kill seq) ss))"
proof (induction ss arbitrary: n)
  case Nil
  then show ?case by simp
next
  case (Cons s ss)
  show ?case
  proof (cases "o_valid s \<and> seq < o_seq s")
    case True
    then have "n \<noteq> 0" using Cons.prems by auto
    then have "unat (n - 1) = unat n - 1" by (rule unat_pred32)
    then show ?thesis
      using Cons.IH [of "n - 1"] Cons.prems True by (auto simp: fu_kill_def case_prod_beta)
  next
    case False
    then have "fu_kill seq s = s" unfolding fu_kill_def by auto
    then show ?thesis
      using Cons.IH [of n] Cons.prems False by (cases "o_valid s") (simp_all add: case_prod_beta)
  qed
qed

lemma flush_pipe:
  assumes "fu_ok u" "f_pipelined u"
  shows "fu_ok (fu_flushYounger seq u)" "fu_pipe (fu_flushYounger seq u) = map (older seq) (fu_pipe u)"
proof -
  note ok = fu_okD [OF assms]
  have fl: "fst (flush_stages seq (f_stages u) (f_inFlight u)) = map (fu_kill seq) (f_stages u)"
    "unat (snd (flush_stages seq (f_stages u) (f_inFlight u))) =
      length (filter o_valid (map (fu_kill seq) (f_stages u)))"
    using flush_stages_spec [of "f_stages u" "f_inFlight u" seq] ok(4) by simp_all
  have st: "f_stages (fu_flushYounger seq u) = map (fu_kill seq) (f_stages u)"
    "f_latency (fu_flushYounger seq u) = f_latency u" "f_inputSlot (fu_flushYounger seq u) = f_inputSlot u"
    using fl by (simp_all add: fu_flushYounger_def case_prod_beta Let_def)
  show "fu_ok (fu_flushYounger seq u)"
    using assms ok fl by (simp add: fu_ok_def fu_flushYounger_def case_prod_beta Let_def fu_kill_def word_less_nat_alt)
  show "fu_pipe (fu_flushYounger seq u) = map (older seq) (fu_pipe u)"
    by (rule nth_equalityI)
      (use stage_at_less [OF assms(1)] ok(2) in
        \<open>auto simp: fu_pipe_nth st stage_at_def live_kill [symmetric]\<close>)
qed

section \<open>Latency\<close>

text \<open>
  A cycle in which the writeback port takes the output before the clock edge, and a number of
  such cycles.
\<close>

definition fu_drain :: "fu_unit \<Rightarrow> fu_unit" where
  "fu_drain u = u\<lparr>f_out := (f_out u)\<lparr>o_valid := False\<rparr>\<rparr>"

primrec fu_cycles :: "nat \<Rightarrow> fu_unit \<Rightarrow> fu_unit" where
  "fu_cycles 0 u = u"
| "fu_cycles (Suc n) u = snd (fu_tick (fu_drain (fu_cycles n u)))"

lemma drain_simps [simp]:
  "f_pipelined (fu_drain u) = f_pipelined u" "fu_pipe (fu_drain u) = fu_pipe u"
  "\<not> o_valid (f_out (fu_drain u))" "f_latency (fu_drain u) = f_latency u"
  "f_cur (fu_drain u) = f_cur u" "f_remaining (fu_drain u) = f_remaining u"
  by (simp_all add: fu_drain_def fu_pipe_def stage_at_def [abs_def])

lemma drain_ok: "fu_ok u \<Longrightarrow> fu_ok (fu_drain u)"
  by (auto simp: fu_ok_def fu_drain_def)

lemma cycles_pipe:
  assumes "fu_ok u" "f_pipelined u"
  shows "fu_ok (fu_cycles n u) \<and> f_pipelined (fu_cycles n u) \<and> f_latency (fu_cycles n u) = f_latency u \<and>
    fu_pipe (fu_cycles n u) = drop n (fu_pipe u) @ replicate (min n (unat (f_latency u))) None \<and>
    (0 < n \<and> n \<le> unat (f_latency u) \<longrightarrow> live_op (f_out (fu_cycles n u)) = fu_pipe u ! (n - 1))"
proof (induction n)
  case 0
  then show ?case using assms by simp
next
  case (Suc n)
  let ?u = "fu_drain (fu_cycles n u)" and ?L = "unat (f_latency u)"
  obtain b u' where t: "fu_tick ?u = (b, u')" by fastforce
  have IH: "fu_pipe ?u = drop n (fu_pipe u) @ replicate (min n ?L) None" "fu_ok ?u" "f_pipelined ?u"
    "f_latency ?u = f_latency u"
    using Suc.IH by (simp_all add: drain_ok)
  note tk = tick_pipe [OF IH(2,3) drain_simps(3) t]
  have L: "0 < ?L" using fu_okD(1) [OF assms] .
  have "tl (fu_pipe ?u) @ [None] = drop (Suc n) (fu_pipe u) @ replicate (min (Suc n) ?L) None"
  proof (cases "n < ?L")
    case True
    then have "tl (fu_pipe ?u) = drop (Suc n) (fu_pipe u) @ replicate n None"
      using IH(1) by (simp add: tl_append2 drop_Suc tl_drop min_def)
    then show ?thesis using True by (simp add: replicate_append_same min_def)
  next
    case False
    then obtain m where m: "?L = Suc m" using L by (cases ?L) auto
    have "fu_pipe ?u = replicate (Suc m) None" using False IH(1) m by (simp add: min_def)
    then show ?thesis using False m by (simp add: replicate_append_same min_def)
  qed
  moreover have "hd (fu_pipe ?u) = fu_pipe u ! n" if "n < ?L"
    using that IH(1) by (simp add: hd_append hd_drop_conv_nth)
  ultimately show ?case using tk t IH(4) by simp
qed

lemma cycles_single:
  assumes "fu_ok u" "\<not> f_pipelined u" "o_valid op" "k < unat (f_latency u)"
  shows "fu_cycles k (fu_accept op u) = u\<lparr>f_ops := f_ops u + 1, f_cur := op,
      f_remaining := f_latency u - word_of_nat k, f_busyCycles := f_busyCycles u + word_of_nat k,
      f_out := (if k = 0 then f_out u else (f_out u)\<lparr>o_valid := False\<rparr>)\<rparr>"
  using assms(4)
proof (induction k)
  case 0
  then show ?case using assms(2) by (simp add: fu_accept_def Let_def)
next
  case (Suc k)
  have "unat (f_latency u - word_of_nat (Suc k)) = unat (f_latency u) - Suc k"
    using Suc.prems unat_less_pow32 [of "f_latency u"]
    by (subst unat_diff_small32) (simp_all add: word_le_nat_alt unat_of_nat_32 del: of_nat_Suc)
  then have "f_latency u - word_of_nat (Suc k) \<noteq> 0" using Suc.prems by auto
  then have "f_latency u - word_of_nat k - 1 \<noteq> 0" by (simp add: algebra_simps)
  then show ?case
    using Suc assms(2,3)
    by (simp add: fu_drain_def fu_tick_def fu_busy_def Let_def algebra_simps)
qed

text \<open>What will come out of a unit in the cycles before an operation accepted now.\<close>

definition fu_ahead :: "fu_unit \<Rightarrow> fu_op option list" where
  "fu_ahead u = (if f_pipelined u then butlast (fu_pipe u) else replicate (unat (f_latency u) - 1) None)"

text \<open>
  C28. Latency is exact.  When the writeback port keeps up, the output slot after \<open>k\<close> cycles
  shows what was ahead in the pipeline, and after exactly the unit's latency it shows the
  accepted operation, for pipelined and non-pipelined units and every latency.  So a
  pipelined unit delivers one operation per cycle in order, and none is lost or duplicated.
\<close>

theorem fu_latency_exact:
  assumes "fu_ok u" "fu_canAccept u" "o_valid op" "0 < k" "k \<le> unat (f_latency u)"
  shows "live_op (f_out (fu_cycles k (fu_accept op u))) = (fu_ahead u @ [Some op]) ! (k - 1)"
proof (cases "f_pipelined u")
  case True
  note a = accept_pipe [OF assms(1) True assms(2,3)]
  have "f_pipelined (fu_accept op u)" "f_latency (fu_accept op u) = f_latency u"
    using True by (simp_all add: fu_accept_def Let_def)
  then show ?thesis
    using cycles_pipe [OF a(1), of k] assms(4,5) a(2) True by (simp add: fu_ahead_def)
next
  case False
  obtain j where j: "k = Suc j" using assms(4) by (cases k) auto
  note c = cycles_single [OF assms(1) False assms(3), of j]
  show ?thesis
  proof (cases "k = unat (f_latency u)")
    case True
    have jl: "j < unat (f_latency u)" using True j by simp
    have "f_latency u - word_of_nat j - 1 = 0"
    proof -
      have "word_of_nat (Suc j) = (word_of_nat (unat (f_latency u)) :: u32)" using True j by (simp only:)
      then have "word_of_nat j + 1 = f_latency u" by (simp add: add.commute)
      then show ?thesis by (simp add: algebra_simps)
    qed
    then have out: "f_out (fu_cycles (Suc j) (fu_accept op u)) = op"
      using c [OF jl] False assms(3) by (simp add: fu_drain_def fu_tick_def fu_busy_def Let_def)
    have "(fu_ahead u @ [Some op]) ! (k - 1) = Some op"
      using True False j by (simp add: fu_ahead_def nth_append)
    then show ?thesis unfolding j live_op_def out using assms(3) by simp
  next
    case False': False
    then have "k < unat (f_latency u)" using assms(5) by simp
    then have "\<not> o_valid (f_out (fu_cycles k (fu_accept op u)))"
      using cycles_single [OF assms(1) False assms(3), of k] assms(4) by simp
    then show ?thesis using False False' assms(4,5) by (simp add: fu_ahead_def live_op_def nth_append)
  qed
qed

lemma fu_new_ok: "l \<noteq> 0 \<Longrightarrow> fu_ok (fu_new l p)"
  by (auto simp: fu_ok_def fu_new_def fu_op0_def unat_gt_0 word_gt_0 filter_empty_conv)

theorem fu_latency_exact_witness:
  "live_op (f_out (fu_cycles 3 (fu_accept (fu_op0\<lparr>o_seq := 7, o_valid := True\<rparr>) (fu_new 3 True)))) =
     Some (fu_op0\<lparr>o_seq := 7, o_valid := True\<rparr>)"
proof -
  have "fu_canAccept (fu_new 3 True)" by (simp add: fu_canAccept_def fu_new_def fu_op0_def)
  from fu_latency_exact [OF fu_new_ok this, of "fu_op0\<lparr>o_seq := 7, o_valid := True\<rparr>" 3]
  show ?thesis by (simp add: fu_ahead_def nth_append) (simp add: fu_new_def)
qed

text \<open>
  C29. The pipelined unit is a shift register with a stall: it accepts exactly when its entry
  stage is free; a clock edge with an occupied output slot moves nothing; a clock edge with a
  free one delivers the oldest stage and reports exactly whether there was an operation in
  it; a squash removes exactly the operations younger than the given one from every stage, the
  output slot included; and the count of operations in flight stays exact throughout.
\<close>

theorem fu_shift_register:
  assumes "fu_ok u" "f_pipelined u"
  shows "fu_canAccept u = (last (fu_pipe u) = None) \<and>
    fu_busy u = (\<exists>v \<in> set (fu_pipe u). v \<noteq> None) \<and>
    (fu_canAccept u \<and> o_valid op \<longrightarrow>
      fu_ok (fu_accept op u) \<and> fu_pipe (fu_accept op u) = butlast (fu_pipe u) @ [Some op]) \<and>
    (if o_valid (f_out u)
     then \<not> fst (fu_tick u) \<and> fu_pipe (snd (fu_tick u)) = fu_pipe u \<and> f_out (snd (fu_tick u)) = f_out u
     else fu_ok (snd (fu_tick u)) \<and> fu_pipe (snd (fu_tick u)) = tl (fu_pipe u) @ [None] \<and>
       fst (fu_tick u) = (hd (fu_pipe u) \<noteq> None) \<and> live_op (f_out (snd (fu_tick u))) = hd (fu_pipe u)) \<and>
    (fu_ok (fu_flushYounger seq u) \<and> fu_pipe (fu_flushYounger seq u) = map (older seq) (fu_pipe u) \<and>
      live_op (f_out (fu_flushYounger seq u)) = older seq (live_op (f_out u)))"
proof (intro conjI)
  show "fu_canAccept u = (last (fu_pipe u) = None)" using canAccept_pipe [OF assms] .
  show "fu_canAccept u \<and> o_valid op \<longrightarrow>
      fu_ok (fu_accept op u) \<and> fu_pipe (fu_accept op u) = butlast (fu_pipe u) @ [Some op]"
    using accept_pipe [OF assms] by blast
  show "fu_busy u = (\<exists>v \<in> set (fu_pipe u). v \<noteq> None)"
  proof (cases "fu_busy u")
    case False
    then show ?thesis using idle_pipe [OF assms False] by auto
  next
    case True
    note ok = fu_okD [OF assms]
    have "0 < unat (f_inFlight u)" using True assms(2) word_neq_0_less by (simp add: fu_busy_def)
    then have "filter o_valid (f_stages u) \<noteq> []" using ok(4) by auto
    then obtain j where j: "j < unat (f_latency u)" "o_valid (f_stages u ! j)"
      using ok(2) by (auto simp: filter_empty_conv in_set_conv_nth)
    have "\<exists>k < unat (f_latency u). stage_at u k = j"
    proof (cases "j < unat (f_inputSlot u)")
      case True
      then show ?thesis using ok(3) stage_at_cases [OF assms, of "unat (f_inputSlot u) - 1 - j"]
        by (intro exI [of _ "unat (f_inputSlot u) - 1 - j"]) auto
    next
      case False
      let ?k = "unat (f_inputSlot u) + unat (f_latency u) - 1 - j"
      have "?k < unat (f_latency u)" "\<not> ?k < unat (f_inputSlot u)" using False j(1) ok(3) by linarith+
      then show ?thesis using stage_at_cases [OF assms, of ?k] j(1) by (intro exI [of _ ?k]) auto
    qed
    then obtain k where k: "k < unat (f_latency u)" "stage_at u k = j" by blast
    then have "fu_pipe u ! k \<noteq> None" using j(2) by (simp add: fu_pipe_nth live_op_def)
    moreover have "fu_pipe u ! k \<in> set (fu_pipe u)" using k(1) by simp
    ultimately show ?thesis using True by blast
  qed
  show "if o_valid (f_out u)
      then \<not> fst (fu_tick u) \<and> fu_pipe (snd (fu_tick u)) = fu_pipe u \<and> f_out (snd (fu_tick u)) = f_out u
      else fu_ok (snd (fu_tick u)) \<and> fu_pipe (snd (fu_tick u)) = tl (fu_pipe u) @ [None] \<and>
        fst (fu_tick u) = (hd (fu_pipe u) \<noteq> None) \<and> live_op (f_out (snd (fu_tick u))) = hd (fu_pipe u)"
  proof (cases "o_valid (f_out u)")
    case True
    then have "fu_tick u = (False, if fu_busy u then u\<lparr>f_busyCycles := f_busyCycles u + 1\<rparr> else u)"
      using assms(2) by (simp add: fu_tick_def Let_def)
    then show ?thesis using True by (simp add: fu_pipe_def stage_at_def [abs_def])
  next
    case False
    obtain b u' where t: "fu_tick u = (b, u')" by fastforce
    show ?thesis using tick_pipe [OF assms False t] False t by simp
  qed
  show "fu_ok (fu_flushYounger seq u)" "fu_pipe (fu_flushYounger seq u) = map (older seq) (fu_pipe u)"
    using flush_pipe [OF assms] by simp_all
  show "live_op (f_out (fu_flushYounger seq u)) = older seq (live_op (f_out u))"
    using live_kill by (simp add: fu_flushYounger_def case_prod_beta Let_def)
qed

theorem fu_shift_register_witness:
  "fu_pipe (fu_flushYounger 5 (fu_accept (fu_op0\<lparr>o_seq := 7, o_valid := True\<rparr>) (fu_new 2 True))) = [None, None]"
proof -
  let ?op = "fu_op0\<lparr>o_seq := 7, o_valid := True\<rparr>"
  have p: "f_pipelined (fu_new 2 True)" "fu_canAccept (fu_new 2 True)" "fu_ok (fu_new 2 True)"
    by (simp_all add: fu_canAccept_def fu_new_ok) (simp_all add: fu_new_def fu_op0_def)
  have a: "fu_ok (fu_accept ?op (fu_new 2 True))"
    "fu_pipe (fu_accept ?op (fu_new 2 True)) = butlast (fu_pipe (fu_new 2 True)) @ [Some ?op]"
    using fu_shift_register [OF p(3,1), of ?op 0] p(2) by simp_all
  have "fu_pipe (fu_new 2 True) = [None, None]"
    by (simp add: fu_pipe_def live_op_def fu_new_def fu_op0_def upt_rec stage_at_def)
  moreover have "f_pipelined (fu_accept ?op (fu_new 2 True))" by (simp add: fu_accept_def fu_new_def Let_def)
  ultimately show ?thesis using fu_shift_register [OF a(1), of ?op 5] a(2) by (simp add: older_def)
qed

end
