(* ===== verification/Ring_Buffer.thy ===== *)
theory Ring_Buffer
  imports Prelude
begin

text \<open>
  Model of \<^verbatim>\<open>core/ring.h\<close>: the fixed-capacity ring behind the reorder buffer, the load/store
  queue, the store buffer and the free list.  The abstract view of a ring is the list of its
  live entries, oldest first; the interface the clients rely on is the locale \<open>deque\<close>.
\<close>

section \<open>The interface of a double-ended queue\<close>

locale deque =
  fixes abs_of :: "'s \<Rightarrow> 'a list"
    and inv :: "'s \<Rightarrow> bool"
    and room :: "'s \<Rightarrow> bool"
    and push :: "'a \<Rightarrow> 's \<Rightarrow> 's"
    and pop_front :: "'s \<Rightarrow> 's"
    and pop_back :: "'s \<Rightarrow> 's"
    and front :: "'s \<Rightarrow> 'a"
    and rear :: "'s \<Rightarrow> 'a"
  assumes push_inv: "inv s \<Longrightarrow> room s \<Longrightarrow> inv (push v s)"
    and push_abs: "inv s \<Longrightarrow> room s \<Longrightarrow> abs_of (push v s) = abs_of s @ [v]"
    and pop_front_inv: "inv s \<Longrightarrow> abs_of s \<noteq> [] \<Longrightarrow> inv (pop_front s)"
    and pop_front_abs: "inv s \<Longrightarrow> abs_of s \<noteq> [] \<Longrightarrow> abs_of (pop_front s) = tl (abs_of s)"
    and pop_back_inv: "inv s \<Longrightarrow> abs_of s \<noteq> [] \<Longrightarrow> inv (pop_back s)"
    and pop_back_abs: "inv s \<Longrightarrow> abs_of s \<noteq> [] \<Longrightarrow> abs_of (pop_back s) = butlast (abs_of s)"
    and front_abs: "inv s \<Longrightarrow> abs_of s \<noteq> [] \<Longrightarrow> front s = hd (abs_of s)"
    and rear_abs: "inv s \<Longrightarrow> abs_of s \<noteq> [] \<Longrightarrow> rear s = last (abs_of s)"
begin

lemma drain_front:
  "inv s \<Longrightarrow> k \<le> length (abs_of s) \<Longrightarrow>
     inv ((pop_front ^^ k) s) \<and> abs_of ((pop_front ^^ k) s) = drop k (abs_of s)"
proof (induction k)
  case (Suc k)
  then show ?case
    by (auto simp: pop_front_inv pop_front_abs drop_Suc tl_drop)
qed simp

lemma drain_back:
  "inv s \<Longrightarrow> k \<le> length (abs_of s) \<Longrightarrow>
     inv ((pop_back ^^ k) s) \<and> abs_of ((pop_back ^^ k) s) = take (length (abs_of s) - k) (abs_of s)"
proof (induction k)
  case (Suc k)
  then have "abs_of ((pop_back ^^ k) s) \<noteq> []" by auto
  then show ?case using Suc by (simp add: pop_back_inv pop_back_abs butlast_take)
qed simp

text \<open>What the front shows while a queue is drained is the queue, in order.\<close>

lemma drain_order:
  assumes "inv s" "k \<le> length (abs_of s)"
  shows "map (\<lambda>i. front ((pop_front ^^ i) s)) [0..<k] = take k (abs_of s)"
proof (rule nth_equalityI)
  fix i
  assume "i < length (map (\<lambda>i. front ((pop_front ^^ i) s)) [0..<k])"
  then have "i < k" by simp
  with assms drain_front [OF assms(1), of i] show
    "map (\<lambda>i. front ((pop_front ^^ i) s)) [0..<k] ! i = take k (abs_of s) ! i"
    by (simp add: front_abs hd_drop_conv_nth)
qed (use assms in simp)

end

section \<open>The ring\<close>

record 'a ring =
  r_e :: "'a list"
  r_capacity :: u32
  r_headIdx :: u32
  r_n :: u32

definition ring_new :: "'a \<Rightarrow> u32 \<Rightarrow> 'a ring" where
  "ring_new dflt capacity =
     \<lparr>r_e = replicate (unat capacity) dflt, r_capacity = capacity, r_headIdx = 0, r_n = 0\<rparr>"

definition ring_empty :: "'a ring \<Rightarrow> bool" where
  "ring_empty r \<longleftrightarrow> r_n r = 0"

definition ring_full :: "'a ring \<Rightarrow> bool" where
  "ring_full r \<longleftrightarrow> r_n r = r_capacity r"

definition ring_count :: "'a ring \<Rightarrow> u32" where
  "ring_count r = r_n r"

definition ring_indexOf :: "'a ring \<Rightarrow> u32 \<Rightarrow> u32" where
  "ring_indexOf r k =
     (let toEnd = r_capacity r - r_headIdx r in
      if k < toEnd then r_headIdx r + k else k - toEnd)"

definition ring_at :: "'a ring \<Rightarrow> u32 \<Rightarrow> 'a" where
  "ring_at r idx = r_e r ! unat idx"

text \<open>Assignment through the reference \<^verbatim>\<open>at(idx)\<close>.\<close>

definition ring_put :: "u32 \<Rightarrow> 'a \<Rightarrow> 'a ring \<Rightarrow> 'a ring" where
  "ring_put idx v r = r\<lparr>r_e := (r_e r)[unat idx := v]\<rparr>"

text \<open>\<^verbatim>\<open>alloc\<close>; \<open>dflt\<close> is the default-constructed entry \<^verbatim>\<open>T{}\<close>.\<close>

definition ring_alloc :: "'a \<Rightarrow> 'a ring \<Rightarrow> u32 \<times> 'a ring" where
  "ring_alloc dflt r =
     (let idx = ring_indexOf r (r_n r) in
      (idx, (ring_put idx dflt r)\<lparr>r_n := r_n r + 1\<rparr>))"

definition ring_push :: "'a \<Rightarrow> 'a \<Rightarrow> 'a ring \<Rightarrow> 'a ring" where
  "ring_push dflt v r = (let (idx, r') = ring_alloc dflt r in ring_put idx v r')"

definition ring_head :: "'a ring \<Rightarrow> 'a" where
  "ring_head r = r_e r ! unat (r_headIdx r)"

definition ring_tail :: "'a ring \<Rightarrow> 'a" where
  "ring_tail r = r_e r ! unat (ring_indexOf r (r_n r - 1))"

definition ring_nth :: "'a ring \<Rightarrow> u32 \<Rightarrow> 'a" where
  "ring_nth r k = r_e r ! unat (ring_indexOf r k)"

definition ring_live :: "'a ring \<Rightarrow> u32 \<Rightarrow> bool" where
  "ring_live r idx =
     (let distance = if r_headIdx r \<le> idx then idx - r_headIdx r
                     else r_capacity r - (r_headIdx r - idx)
      in idx < r_capacity r \<and> distance < r_n r)"

definition ring_popHead :: "'a ring \<Rightarrow> 'a ring" where
  "ring_popHead r = r\<lparr>r_headIdx := ring_indexOf r 1, r_n := r_n r - 1\<rparr>"

definition ring_popTail :: "'a ring \<Rightarrow> 'a ring" where
  "ring_popTail r = r\<lparr>r_n := r_n r - 1\<rparr>"

definition ring_clear :: "'a ring \<Rightarrow> 'a ring" where
  "ring_clear r = r\<lparr>r_headIdx := 0, r_n := 0\<rparr>"

section \<open>Invariant and abstraction\<close>

definition ring_ok :: "'a ring \<Rightarrow> bool" where
  "ring_ok r \<longleftrightarrow> length (r_e r) = unat (r_capacity r) \<and> r_headIdx r < r_capacity r \<and>
     r_n r \<le> r_capacity r"

text \<open>The slot of the entry that is \<open>k\<close>-th oldest, as a natural number.\<close>

definition slot :: "'a ring \<Rightarrow> nat \<Rightarrow> nat" where
  "slot r k = (unat (r_headIdx r) + k) mod unat (r_capacity r)"

definition ring_list :: "'a ring \<Rightarrow> 'a list" where
  "ring_list r = map (\<lambda>k. r_e r ! slot r k) [0..<unat (r_n r)]"

lemma length_ring_list [simp]: "length (ring_list r) = unat (r_n r)"
  by (simp add: ring_list_def)

lemma ring_list_Nil: "ring_list r = [] \<longleftrightarrow> r_n r = 0"
  by (simp add: ring_list_def unat_eq_zero)

lemma ring_okD:
  assumes "ring_ok r"
  shows "length (r_e r) = unat (r_capacity r)" "unat (r_headIdx r) < unat (r_capacity r)"
    "unat (r_n r) \<le> unat (r_capacity r)" "0 < unat (r_capacity r)"
  using assms by (auto simp: ring_ok_def word_less_nat_alt word_le_nat_alt)

lemma slot_less: "ring_ok r \<Longrightarrow> slot r k < unat (r_capacity r)"
  using ring_okD(4) [of r] by (simp add: slot_def)

lemma ring_indexOf_slot:
  assumes "ring_ok r" "unat k \<le> unat (r_capacity r)"
  shows "unat (ring_indexOf r k) = slot r (unat k)"
proof -
  let ?h = "unat (r_headIdx r)" and ?c = "unat (r_capacity r)"
  have h: "?h < ?c" using assms(1) by (rule ring_okD(2))
  then have toEnd: "unat (r_capacity r - r_headIdx r) = ?c - ?h"
    by (intro unat_diff_small32) (simp add: word_le_nat_alt)
  show ?thesis
  proof (cases "unat k < ?c - ?h")
    case True
    then have "unat (r_headIdx r + k) = ?h + unat k"
      using unat_less_pow32 [of "r_capacity r"] by (intro unat_add_small32) simp
    then show ?thesis using True toEnd
      by (simp add: ring_indexOf_def slot_def Let_def word_less_nat_alt)
  next
    case False
    then have "unat (k - (r_capacity r - r_headIdx r)) = unat k - (?c - ?h)"
      using toEnd by (simp add: unat_diff_small32 word_le_nat_alt)
    moreover have "(?h + unat k) mod ?c = unat k - (?c - ?h)"
    proof -
      have "?h + unat k = (unat k - (?c - ?h)) + ?c" using False h by linarith
      moreover have "unat k - (?c - ?h) < ?c" using h assms(2) by linarith
      ultimately show ?thesis by (metis mod_add_self2 mod_less)
    qed
    ultimately show ?thesis using False toEnd
      by (simp add: ring_indexOf_def slot_def Let_def word_less_nat_alt)
  qed
qed

lemma slot_inj:
  assumes "ring_ok r" "j < unat (r_capacity r)" "k < unat (r_capacity r)" "slot r j = slot r k"
  shows "j = k"
  using assms ring_okD(2) [OF assms(1)] by (simp add: slot_def mod_if split: if_splits)

lemma slot_surj:
  assumes "ring_ok r" "i < unat (r_capacity r)"
  shows "\<exists>k < unat (r_capacity r). slot r k = i"
proof (cases "unat (r_headIdx r) \<le> i")
  case True
  then show ?thesis using assms by (intro exI [of _ "i - unat (r_headIdx r)"]) (simp add: slot_def)
next
  case False
  let ?k = "unat (r_capacity r) - unat (r_headIdx r) + i"
  have "unat (r_headIdx r) + ?k = unat (r_capacity r) + i"
    using ring_okD(2) [OF assms(1)] by simp
  then have "slot r ?k = i" using assms(2) unfolding slot_def by simp
  moreover have "?k < unat (r_capacity r)" using False ring_okD(2) [OF assms(1)] by linarith
  ultimately show ?thesis by blast
qed

lemma ring_nth_list:
  assumes "ring_ok r" "k < r_n r"
  shows "ring_nth r k = ring_list r ! unat k"
proof -
  have k: "unat k < unat (r_n r)" using assms(2) by (simp add: word_less_nat_alt)
  then have "unat (ring_indexOf r k) = slot r (unat k)"
    using ring_okD(3) [OF assms(1)] by (intro ring_indexOf_slot [OF assms(1)]) simp
  then show ?thesis using k by (simp add: ring_nth_def ring_list_def)
qed

section \<open>Every operation on the abstract list\<close>

lemma ring_list_put:
  assumes "ring_ok r" "k < unat (r_n r)" "unat idx = slot r k"
  shows "ring_list (ring_put idx v r) = (ring_list r)[k := v]"
proof (rule nth_equalityI)
  fix j
  assume "j < length (ring_list (ring_put idx v r))"
  then have j: "j < unat (r_n r)" by (simp add: ring_put_def)
  have s: "slot (ring_put idx v r) j = slot r j" by (simp add: slot_def ring_put_def)
  have "slot r j = slot r k \<longleftrightarrow> j = k"
    using slot_inj [OF assms(1)] j assms(2) ring_okD(3) [OF assms(1)] by auto
  then show "ring_list (ring_put idx v r) ! j = (ring_list r)[k := v] ! j"
    using j assms slot_less [OF assms(1), of k] ring_okD(1) [OF assms(1)]
    by (auto simp: ring_list_def ring_put_def nth_list_update slot_def)
qed (simp add: ring_put_def)

lemma ring_ok_put: "ring_ok r \<Longrightarrow> ring_ok (ring_put idx v r)"
  by (simp add: ring_ok_def ring_put_def)

lemma ring_alloc_ok:
  assumes "ring_ok r" "\<not> ring_full r"
  shows "ring_ok (snd (ring_alloc d r))"
    and "ring_list (snd (ring_alloc d r)) = ring_list r @ [d]"
    and "unat (fst (ring_alloc d r)) = slot r (unat (r_n r))"
proof -
  have n: "unat (r_n r) < unat (r_capacity r)"
    using assms by (auto simp: ring_full_def ring_ok_def word_le_nat_alt word_unat_eq_iff)
  then have n1: "unat (r_n r + 1) = Suc (unat (r_n r))"
    using unat_less_pow32 [of "r_capacity r"] by (intro unat_Suc_small32) simp
  show idx: "unat (fst (ring_alloc d r)) = slot r (unat (r_n r))"
    using n by (simp add: ring_alloc_def Let_def ring_indexOf_slot [OF assms(1)])
  show "ring_ok (snd (ring_alloc d r))"
    using assms(1) n n1
    by (simp add: ring_alloc_def Let_def ring_put_def ring_ok_def word_le_nat_alt)
  let ?i = "slot r (unat (r_n r))"
  have "?i \<noteq> slot r k" if "k < unat (r_n r)" for k
    using slot_inj [OF assms(1), of k "unat (r_n r)"] that n by auto
  then have "map (\<lambda>k. (r_e r)[?i := d] ! slot r k) [0..<unat (r_n r)] = ring_list r"
    by (auto simp: ring_list_def nth_list_update_neq)
  moreover have "(r_e r)[?i := d] ! ?i = d"
    using slot_less [OF assms(1), of "unat (r_n r)"] ring_okD(1) [OF assms(1)] by simp
  moreover have "ring_list (snd (ring_alloc d r)) =
      map (\<lambda>k. (r_e r)[?i := d] ! slot r k) [0..<Suc (unat (r_n r))]"
    using n1 idx by (simp add: ring_list_def ring_alloc_def Let_def ring_put_def slot_def del: upt_Suc)
  ultimately show "ring_list (snd (ring_alloc d r)) = ring_list r @ [d]" by simp
qed

lemma ring_push_ok:
  assumes "ring_ok r" "\<not> ring_full r"
  shows "ring_ok (ring_push d v r)" "ring_list (ring_push d v r) = ring_list r @ [v]"
proof -
  note a = ring_alloc_ok [OF assms, of d]
  let ?r' = "snd (ring_alloc d r)" and ?i = "fst (ring_alloc d r)"
  have p: "ring_push d v r = ring_put ?i v ?r'" by (simp add: ring_push_def case_prod_beta Let_def)
  show "ring_ok (ring_push d v r)" using a(1) by (simp add: p ring_ok_put)
  have len: "unat (r_n ?r') = Suc (unat (r_n r))"
    using arg_cong [OF a(2), of length] by simp
  have "slot ?r' = slot r" by (simp add: slot_def ring_alloc_def Let_def ring_put_def fun_eq_iff)
  then have "ring_list (ring_put ?i v ?r') = (ring_list ?r')[unat (r_n r) := v]"
    using a(1,3) len by (intro ring_list_put) simp_all
  then show "ring_list (ring_push d v r) = ring_list r @ [v]"
    by (simp add: p a(2) list_update_append)
qed

lemma ring_pop_count:
  assumes "ring_ok r" "r_n r \<noteq> 0"
  shows "unat (r_n r - 1) = unat (r_n r) - 1" "0 < unat (r_n r)"
  using word_neq_0_less [OF assms(2)] by (simp_all add: unat_diff_small32 word_le_nat_alt)

lemma ring_popHead_ok:
  assumes "ring_ok r" "r_n r \<noteq> 0"
  shows "ring_ok (ring_popHead r)" "ring_list (ring_popHead r) = tl (ring_list r)"
    "ring_head r = hd (ring_list r)"
proof -
  note n = ring_pop_count [OF assms]
  have i1: "unat (ring_indexOf r 1) = slot r 1"
    using ring_indexOf_slot [OF assms(1), of 1] ring_okD(4) [OF assms(1)] by simp
  show "ring_ok (ring_popHead r)"
    using assms(1) n i1 slot_less [OF assms(1), of 1]
    by (auto simp: ring_popHead_def ring_ok_def word_less_nat_alt word_le_nat_alt)
  have "slot (ring_popHead r) k = slot r (Suc k)" for k
    using i1 by (simp add: slot_def ring_popHead_def mod_add_left_eq)
  then show "ring_list (ring_popHead r) = tl (ring_list r)"
    using n by (simp add: ring_list_def tl_map_upt) (simp add: ring_popHead_def n)
  show "ring_head r = hd (ring_list r)"
    using n ring_okD(2) [OF assms(1)]
    by (simp add: ring_head_def ring_list_def hd_map upt_conv_Cons slot_def)
qed

lemma ring_popTail_ok:
  assumes "ring_ok r" "r_n r \<noteq> 0"
  shows "ring_ok (ring_popTail r)" "ring_list (ring_popTail r) = butlast (ring_list r)"
    "ring_tail r = last (ring_list r)"
proof -
  note n = ring_pop_count [OF assms]
  show "ring_ok (ring_popTail r)"
    using assms(1) n by (auto simp: ring_popTail_def ring_ok_def word_le_nat_alt)
  show "ring_list (ring_popTail r) = butlast (ring_list r)"
    using n by (simp add: ring_list_def ring_popTail_def slot_def butlast_map_upt)
  have "unat (ring_indexOf r (r_n r - 1)) = slot r (unat (r_n r) - 1)"
    using ring_indexOf_slot [OF assms(1), of "r_n r - 1"] n ring_okD(3) [OF assms(1)] by simp
  then show "ring_tail r = last (ring_list r)"
    using n by (simp add: ring_tail_def ring_list_def last_conv_nth)
qed

section \<open>Live slots\<close>

lemma ring_live_slot:
  assumes "ring_ok r"
  shows "ring_live r idx \<longleftrightarrow> (\<exists>k < unat (r_n r). unat idx = slot r k)"
proof -
  let ?h = "unat (r_headIdx r)" and ?c = "unat (r_capacity r)" and ?n = "unat (r_n r)"
  note ok = ring_okD [OF assms]
  show ?thesis
  proof (cases "unat idx < ?c")
    case False
    then show ?thesis using slot_less [OF assms] by (auto simp: ring_live_def Let_def word_less_nat_alt)
  next
    case idx: True
    define d where "d = (if ?h \<le> unat idx then unat idx - ?h else ?c - (?h - unat idx))"
    have "unat (if r_headIdx r \<le> idx then idx - r_headIdx r else r_capacity r - (r_headIdx r - idx)) = d"
    proof (cases "?h \<le> unat idx")
      case True
      then show ?thesis by (simp add: d_def unat_diff_small32 word_le_nat_alt)
    next
      case False
      then have "unat (r_headIdx r - idx) = ?h - unat idx"
        by (intro unat_diff_small32) (simp add: word_le_nat_alt)
      moreover from this have "unat (r_capacity r - (r_headIdx r - idx)) = ?c - (?h - unat idx)"
        using ok(2) by (subst unat_diff_small32) (simp_all add: word_le_nat_alt)
      ultimately show ?thesis using False by (simp add: d_def word_le_nat_alt)
    qed
    then have live: "ring_live r idx \<longleftrightarrow> d < ?n"
      using idx by (simp add: ring_live_def Let_def word_less_nat_alt)
    have d: "slot r d = unat idx" "d < ?c"
    proof -
      have "?h + d = (if ?h \<le> unat idx then unat idx else unat idx + ?c)"
        using ok(2) by (auto simp: d_def)
      then show "slot r d = unat idx" using idx by (simp add: slot_def)
      show "d < ?c" using ok(2) idx by (auto simp: d_def)
    qed
    show ?thesis
    proof
      assume "ring_live r idx"
      then show "\<exists>k < ?n. unat idx = slot r k" using live d(1) by (intro exI [of _ d]) simp
    next
      assume "\<exists>k < ?n. unat idx = slot r k"
      then obtain k where k: "k < ?n" "unat idx = slot r k" by blast
      have "k = d" by (rule slot_inj [OF assms]) (use k d ok(3) in simp_all)
      then show "ring_live r idx" using k(1) live by simp
    qed
  qed
qed

text \<open>A ring index names one position of the abstract list for as long as it is live.\<close>

lemma ring_at_list:
  "unat idx = slot r k \<Longrightarrow> k < unat (r_n r) \<Longrightarrow> ring_at r idx = ring_list r ! k"
  by (simp add: ring_at_def ring_list_def)

lemma slot_simps [simp]:
  "slot (snd (ring_alloc d r)) = slot r" "slot (ring_popTail r) = slot r" "slot (ring_put i v r) = slot r"
  by (simp_all add: slot_def ring_alloc_def Let_def ring_put_def ring_popTail_def fun_eq_iff)

section \<open>The ring implements the interface\<close>

interpretation rb: deque ring_list ring_ok "\<lambda>r. \<not> ring_full r" "ring_push d"
  ring_popHead ring_popTail ring_head ring_tail for d
  by unfold_locales
    (auto simp: ring_push_ok ring_popHead_ok ring_popTail_ok ring_list_Nil)

text \<open>
  C25. The ring refines the list of its live entries, oldest first: allocation appends a reset
  entry and names its slot, popping the head takes the oldest away, popping the tail takes
  the youngest away, clearing empties; head, tail and the \<open>k\<close>-th oldest read the list; the
  counts and the tests agree; and the invariant is kept.  No index arithmetic overflows for
  any 32-bit capacity.
\<close>

theorem ring_refines_list:
  assumes "ring_ok r"
  shows "(ring_empty r \<longleftrightarrow> ring_list r = []) \<and>
    (ring_full r \<longleftrightarrow> length (ring_list r) = unat (r_capacity r)) \<and>
    unat (ring_count r) = length (ring_list r) \<and>
    (\<forall>k < r_n r. ring_nth r k = ring_list r ! unat k) \<and>
    (\<not> ring_full r \<longrightarrow>
       ring_ok (snd (ring_alloc d r)) \<and> ring_list (snd (ring_alloc d r)) = ring_list r @ [d] \<and>
       \<not> ring_live r (fst (ring_alloc d r)) \<and> ring_at (snd (ring_alloc d r)) (fst (ring_alloc d r)) = d \<and>
       ring_ok (ring_push d v r) \<and> ring_list (ring_push d v r) = ring_list r @ [v]) \<and>
    (\<not> ring_empty r \<longrightarrow>
       ring_ok (ring_popHead r) \<and> ring_list (ring_popHead r) = tl (ring_list r) \<and>
       ring_ok (ring_popTail r) \<and> ring_list (ring_popTail r) = butlast (ring_list r) \<and>
       ring_head r = hd (ring_list r) \<and> ring_tail r = last (ring_list r)) \<and>
    ring_ok (ring_clear r) \<and> ring_list (ring_clear r) = []"
proof -
  note ok = ring_okD [OF assms]
  have full: "ring_full r \<longleftrightarrow> length (ring_list r) = unat (r_capacity r)"
    by (simp add: ring_full_def word_unat_eq_iff)
  have alloc: "\<not> ring_live r (fst (ring_alloc d r)) \<and>
      ring_at (snd (ring_alloc d r)) (fst (ring_alloc d r)) = d" if nf: "\<not> ring_full r"
  proof
    note a = ring_alloc_ok [OF assms nf, of d]
    have n: "unat (r_n r) < unat (r_capacity r)" using nf full ok(3) by simp
    show "\<not> ring_live r (fst (ring_alloc d r))"
    proof
      assume "ring_live r (fst (ring_alloc d r))"
      then obtain k where k: "k < unat (r_n r)" "slot r (unat (r_n r)) = slot r k"
        using a(3) ring_live_slot [OF assms] by auto
      have "unat (r_n r) = k" by (rule slot_inj [OF assms n]) (use k n in simp_all)
      with k(1) show False by simp
    qed
    have "unat (r_n (snd (ring_alloc d r))) = Suc (unat (r_n r))"
      using arg_cong [OF a(2), of length] by simp
    then show "ring_at (snd (ring_alloc d r)) (fst (ring_alloc d r)) = d"
      using ring_at_list [of _ "snd (ring_alloc d r)" "unat (r_n r)"] a(2,3) by (simp add: nth_append)
  qed
  have "ring_ok (ring_clear r) \<and> ring_list (ring_clear r) = []"
    using ok by (auto simp: ring_clear_def ring_ok_def ring_list_def word_less_nat_alt)
  then show ?thesis
    using full alloc ring_alloc_ok [OF assms] ring_push_ok [OF assms] ring_popHead_ok [OF assms]
      ring_popTail_ok [OF assms] ring_nth_list [OF assms]
    by (simp add: ring_empty_def ring_list_Nil ring_count_def)
qed

definition demo_ring :: "nat ring" where
  "demo_ring = \<lparr>r_e = [7, 8, 9], r_capacity = 3, r_headIdx = 2, r_n = 2\<rparr>"

theorem ring_refines_list_witness:
  "ring_list demo_ring = [9, 7] \<and> ring_list (ring_push 0 5 demo_ring) = [9, 7, 5] \<and>
   ring_list (ring_popHead demo_ring) = [7] \<and> ring_list (ring_popTail demo_ring) = [9]"
proof -
  have ok: "ring_ok demo_ring" by (simp add: demo_ring_def ring_ok_def)
  have l: "ring_list demo_ring = [9, 7]"
    by (simp add: demo_ring_def ring_list_def slot_def upt_rec)
  have "\<not> ring_full demo_ring" "\<not> ring_empty demo_ring"
    by (simp_all add: demo_ring_def ring_full_def ring_empty_def)
  with ring_refines_list [OF ok, of 0 5] show ?thesis by (simp add: l)
qed

text \<open>
  The index of a live entry is stable: allocating, and popping other entries from either
  end, leave the entry live under the same index with the same contents.  This is what lets
  operations in flight name their entries by ring index.
\<close>

theorem ring_index_stable:
  assumes "ring_ok r" "ring_live r idx"
  shows "(\<not> ring_full r \<longrightarrow> ring_live (snd (ring_alloc d r)) idx \<and>
            ring_at (snd (ring_alloc d r)) idx = ring_at r idx) \<and>
    (idx \<noteq> r_headIdx r \<longrightarrow> ring_live (ring_popHead r) idx \<and>
            ring_at (ring_popHead r) idx = ring_at r idx) \<and>
    (idx \<noteq> ring_indexOf r (r_n r - 1) \<longrightarrow> ring_live (ring_popTail r) idx \<and>
            ring_at (ring_popTail r) idx = ring_at r idx)"
proof -
  obtain k where k: "k < unat (r_n r)" "unat idx = slot r k"
    using assms ring_live_slot by blast
  have n0: "r_n r \<noteq> 0" using k(1) by auto
  note n = ring_pop_count [OF assms(1) n0] and ok = ring_okD [OF assms(1)]
  have 1: "ring_live (snd (ring_alloc d r)) idx \<and> ring_at (snd (ring_alloc d r)) idx = ring_at r idx"
    if nf: "\<not> ring_full r"
  proof -
    note a = ring_alloc_ok [OF assms(1) nf, of d]
    have len: "unat (r_n (snd (ring_alloc d r))) = Suc (unat (r_n r))"
      using arg_cong [OF a(2), of length] by simp
    then show ?thesis
      using k a ring_at_list [of idx r k] ring_at_list [of idx "snd (ring_alloc d r)" k]
      by (auto simp: ring_live_slot [OF a(1)] nth_append intro!: exI [of _ k])
  qed
  have 2: "ring_live (ring_popHead r) idx \<and> ring_at (ring_popHead r) idx = ring_at r idx"
    if "idx \<noteq> r_headIdx r"
  proof -
    note p = ring_popHead_ok [OF assms(1) n0]
    have "slot r 0 = unat (r_headIdx r)" using ok(2) by (simp add: slot_def)
    then have "k \<noteq> 0" using that k(2) by (metis word_unat_eq_iff)
    then obtain j where j: "k = Suc j" by (cases k) auto
    have "unat (ring_indexOf r 1) = slot r 1"
      using ring_indexOf_slot [OF assms(1), of 1] ok(4) by simp
    then have "slot (ring_popHead r) j = slot r k"
      by (simp add: slot_def ring_popHead_def mod_add_left_eq j)
    moreover have "j < unat (r_n (ring_popHead r))" using k n j by (simp add: ring_popHead_def)
    ultimately have "ring_live (ring_popHead r) idx"
      using k(2) ring_live_slot [OF p(1)] by auto
    then show ?thesis by (simp add: ring_at_def ring_popHead_def)
  qed
  have 3: "ring_live (ring_popTail r) idx \<and> ring_at (ring_popTail r) idx = ring_at r idx"
    if "idx \<noteq> ring_indexOf r (r_n r - 1)"
  proof -
    note p = ring_popTail_ok [OF assms(1) n0]
    have "unat (ring_indexOf r (r_n r - 1)) = slot r (unat (r_n r) - 1)"
      using ring_indexOf_slot [OF assms(1), of "r_n r - 1"] n ok(3) by simp
    then have "k \<noteq> unat (r_n r) - 1" using that k(2) by (auto simp: word_unat_eq_iff)
    then have "k < unat (r_n (ring_popTail r))" using k n by (simp add: ring_popTail_def)
    then have "ring_live (ring_popTail r) idx"
      using k(2) ring_live_slot [OF p(1)] by auto
    then show ?thesis by (simp add: ring_at_def ring_popTail_def)
  qed
  show ?thesis using 1 2 3 by blast
qed

theorem ring_index_stable_witness:
  "ring_live (ring_popHead demo_ring) 0 \<and> ring_at (ring_popHead demo_ring) 0 = 7"
proof -
  have ok: "ring_ok demo_ring" by (simp add: demo_ring_def ring_ok_def)
  have live: "ring_live demo_ring 0" by (simp add: demo_ring_def ring_live_def)
  have "0 \<noteq> r_headIdx demo_ring" by (simp add: demo_ring_def)
  then have "ring_live (ring_popHead demo_ring) 0 \<and>
      ring_at (ring_popHead demo_ring) 0 = ring_at demo_ring 0"
    using ring_index_stable [OF ok live] by blast
  then show ?thesis by (simp add: demo_ring_def ring_at_def)
qed

end
