(* ===== verification/Ring_Sets.thy ===== *)
theory Ring_Sets
  imports Ring_Buffer Slot_Set
begin

text \<open>
  Work sets over a ring: what it means that a bitmap holds exactly the slots of the live
  entries with a property, and that a counter counts them; how both follow the ring
  operations; and what a walk over such a bitmap visits, in terms of the list of entries.
\<close>

section \<open>Occupied slots\<close>

definition occupied :: "'a ring \<Rightarrow> nat \<Rightarrow> bool" where
  "occupied r i \<longleftrightarrow> (\<exists>k < unat (r_n r). slot r k = i)"

lemma occupied_live: "ring_ok r \<Longrightarrow> ring_live r idx \<longleftrightarrow> occupied r (unat idx)"
  by (auto simp: occupied_def ring_live_slot)

lemma occupied_less: "ring_ok r \<Longrightarrow> occupied r i \<Longrightarrow> i < unat (r_capacity r)"
  using slot_less by (auto simp: occupied_def)

lemma occupied_put [simp]: "occupied (ring_put idx v r) = occupied r"
  by (simp add: occupied_def fun_eq_iff) (simp add: ring_put_def)

lemma ring_put_put [simp]: "ring_put idx v (ring_put idx w r) = ring_put idx v r"
  by (simp add: ring_put_def)

lemma ring_put_sel [simp]:
  "r_capacity (ring_put idx v r) = r_capacity r" "r_headIdx (ring_put idx v r) = r_headIdx r"
  "r_n (ring_put idx v r) = r_n r"
  by (simp_all add: ring_put_def)

lemma ring_at_put:
  "unat idx < length (r_e r) \<Longrightarrow> ring_at (ring_put idx v r) idx = v"
  by (simp add: ring_at_def ring_put_def)

lemma occupied_alloc:
  assumes "ring_ok r" "\<not> ring_full r"
  shows "occupied (snd (ring_alloc d r)) i \<longleftrightarrow> i = slot r (unat (r_n r)) \<or> occupied r i"
proof -
  have "unat (r_n (snd (ring_alloc d r))) = Suc (unat (r_n r))"
    using arg_cong [OF ring_alloc_ok(2) [OF assms, of d], of length] by simp
  then show ?thesis by (auto simp: occupied_def less_Suc_eq)
qed

lemma not_occupied_next:
  assumes "ring_ok r" "\<not> ring_full r"
  shows "\<not> occupied r (slot r (unat (r_n r)))"
proof
  assume "occupied r (slot r (unat (r_n r)))"
  then obtain k where k: "k < unat (r_n r)" "slot r k = slot r (unat (r_n r))"
    by (auto simp: occupied_def)
  have "unat (r_n r) < unat (r_capacity r)"
    using assms by (auto simp: ring_full_def ring_ok_def word_le_nat_alt word_unat_eq_iff)
  then have "k = unat (r_n r)" using slot_inj [OF assms(1) _ _ k(2)] k(1) by simp
  with k(1) show False by simp
qed

lemma occupied_popTail:
  assumes "ring_ok r" "r_n r \<noteq> 0"
  shows "occupied (ring_popTail r) i \<longleftrightarrow> occupied r i \<and> i \<noteq> slot r (unat (r_n r) - 1)"
proof -
  have n: "unat (r_n (ring_popTail r)) = unat (r_n r) - 1"
    using ring_pop_count [OF assms] by (simp add: ring_popTail_def)
  show ?thesis
  proof
    assume "occupied (ring_popTail r) i"
    then obtain k where k: "k < unat (r_n r) - 1" "slot r k = i" by (auto simp: occupied_def n)
    have "k < unat (r_capacity r)" "unat (r_n r) - 1 < unat (r_capacity r)"
      using k(1) ring_okD(3) [OF assms(1)] by linarith+
    then have "slot r k \<noteq> slot r (unat (r_n r) - 1)"
      using slot_inj [OF assms(1), of k "unat (r_n r) - 1"] k(1) by auto
    then show "occupied r i \<and> i \<noteq> slot r (unat (r_n r) - 1)"
      using k by (auto simp: occupied_def intro!: exI [of _ k])
  next
    assume "occupied r i \<and> i \<noteq> slot r (unat (r_n r) - 1)"
    then obtain k where "k < unat (r_n r)" "slot r k = i" "k \<noteq> unat (r_n r) - 1"
      by (auto simp: occupied_def)
    then show "occupied (ring_popTail r) i" by (auto simp: occupied_def n intro!: exI [of _ k])
  qed
qed

lemma occupied_popHead:
  assumes "ring_ok r" "r_n r \<noteq> 0"
  shows "occupied (ring_popHead r) i \<longleftrightarrow> occupied r i \<and> i \<noteq> unat (r_headIdx r)"
proof -
  have i1: "unat (ring_indexOf r 1) = slot r 1"
    using ring_indexOf_slot [OF assms(1), of 1] ring_okD(4) [OF assms(1)] by simp
  have s: "slot (ring_popHead r) k = slot r (Suc k)" for k
    using i1 by (simp add: slot_def ring_popHead_def mod_add_left_eq)
  have n: "unat (r_n (ring_popHead r)) = unat (r_n r) - 1"
    using ring_pop_count [OF assms] by (simp add: ring_popHead_def)
  have h: "unat (r_headIdx r) = slot r 0" using ring_okD(2) [OF assms(1)] by (simp add: slot_def)
  show ?thesis
  proof
    assume "occupied (ring_popHead r) i"
    then obtain k where k: "k < unat (r_n r) - 1" "slot r (Suc k) = i" by (auto simp: occupied_def n s)
    have "Suc k < unat (r_capacity r)" "0 < unat (r_capacity r)"
      using k(1) ring_okD(3) [OF assms(1)] by linarith+
    then have "slot r (Suc k) \<noteq> slot r 0"
      using slot_inj [OF assms(1), of "Suc k" 0] by auto
    then show "occupied r i \<and> i \<noteq> unat (r_headIdx r)"
      using k h by (auto simp: occupied_def intro!: exI [of _ "Suc k"])
  next
    assume "occupied r i \<and> i \<noteq> unat (r_headIdx r)"
    then obtain k where k: "k < unat (r_n r)" "slot r k = i" "k \<noteq> 0"
      by (auto simp: occupied_def h)
    then obtain j where "k = Suc j" by (cases k) auto
    with k show "occupied (ring_popHead r) i" by (auto simp: occupied_def n s intro!: exI [of _ j])
  qed
qed

section \<open>Sets that track a property\<close>

definition tracks :: "'a ring \<Rightarrow> u64 list \<Rightarrow> ('a \<Rightarrow> bool) \<Rightarrow> bool" where
  "tracks r ws P \<longleftrightarrow> slots_ok (unat (r_capacity r)) ws \<and>
     (\<forall>i < unat (r_capacity r). member ws i \<longleftrightarrow> occupied r i \<and> P (r_e r ! i))"

lemma tracks_member:
  "tracks r ws P \<Longrightarrow> i < unat (r_capacity r) \<Longrightarrow> member ws i \<longleftrightarrow> occupied r i \<and> P (r_e r ! i)"
  by (simp add: tracks_def)

lemma tracks_slots: "tracks r ws P \<Longrightarrow> slots_ok (unat (r_capacity r)) ws"
  by (simp add: tracks_def)

lemma tracks_new:
  "c \<noteq> 0 \<Longrightarrow> tracks (ring_new d c) (ss_words (slot_set_new (unat c))) P"
  by (auto simp: tracks_def ring_new_def occupied_def slot_set_new_def member_def unat_gt_0
      intro!: slots_ok_new [unfolded slot_set_new_def, simplified])

text \<open>Membership after an update of one slot, within the capacity.\<close>

lemma member_updates:
  assumes "slots_ok c ws" "x < c" "i < c"
  shows "member (word_set x ws) i \<longleftrightarrow> i = x \<or> member ws i"
    and "member (word_reset x ws) i \<longleftrightarrow> i \<noteq> x \<and> member ws i"
  using assms slots_ok_bound [OF assms(1)]
  by (simp_all add: member_word_set member_word_reset)

definition bit_to :: "bool \<Rightarrow> nat \<Rightarrow> u64 list \<Rightarrow> u64 list" where
  "bit_to b x ws = (if b then word_set x ws else word_reset x ws)"

lemma member_bit_to:
  "slots_ok c ws \<Longrightarrow> x < c \<Longrightarrow> i < c \<Longrightarrow> member (bit_to b x ws) i \<longleftrightarrow> (if i = x then b else member ws i)"
  by (auto simp: bit_to_def member_updates)

lemma slots_ok_bit_to: "slots_ok c ws \<Longrightarrow> x < c \<Longrightarrow> slots_ok c (bit_to b x ws)"
  by (simp add: bit_to_def slots_ok_update)

lemma tracks_put_to:
  assumes "ring_ok r" "tracks r ws P" "occupied r (unat idx)"
  shows "tracks (ring_put idx v r) (bit_to (P v) (unat idx) ws) P"
proof -
  have i: "unat idx < unat (r_capacity r)" using assms occupied_less by blast
  show ?thesis
    using assms(2,3) i ring_okD(1) [OF assms(1)] tracks_slots [OF assms(2)]
    by (auto simp: tracks_def member_bit_to slots_ok_bit_to ring_put_def nth_list_update
        occupied_put [unfolded ring_put_def])
qed

lemma tracks_put_set:
  "ring_ok r \<Longrightarrow> tracks r ws P \<Longrightarrow> occupied r (unat idx) \<Longrightarrow> P v \<Longrightarrow>
     tracks (ring_put idx v r) (word_set (unat idx) ws) P"
  using tracks_put_to [of r ws P idx v] by (simp add: bit_to_def)

lemma tracks_put_reset:
  "ring_ok r \<Longrightarrow> tracks r ws P \<Longrightarrow> occupied r (unat idx) \<Longrightarrow> \<not> P v \<Longrightarrow>
     tracks (ring_put idx v r) (word_reset (unat idx) ws) P"
  using tracks_put_to [of r ws P idx v] by (simp add: bit_to_def)

lemma tracks_put_same:
  assumes "ring_ok r" "tracks r ws P" "P v = P (ring_at r idx)"
  shows "tracks (ring_put idx v r) ws P"
proof -
  have "P ((r_e r)[unat idx := v] ! i) = P (r_e r ! i)" if "i < unat (r_capacity r)" for i
    using assms(3) that ring_okD(1) [OF assms(1)] by (cases "i = unat idx") (simp_all add: ring_at_def)
  then show ?thesis
    using assms(2) by (simp add: tracks_def ring_put_def occupied_put [unfolded ring_put_def])
qed

lemma tracks_push:
  assumes "ring_ok r" "\<not> ring_full r" "tracks r ws P" "fst (ring_alloc d r) = idx"
  shows "tracks (ring_put idx v (snd (ring_alloc d r))) (if P v then word_set (unat idx) ws else ws) P"
proof -
  let ?r = "snd (ring_alloc d r)"
  have idx: "unat idx = slot r (unat (r_n r))" using ring_alloc_ok(3) [OF assms(1,2), of d] assms(4) by simp
  have i: "unat idx < unat (r_capacity r)" using slot_less [OF assms(1)] idx by simp
  have cap: "r_capacity ?r = r_capacity r" by (simp add: ring_alloc_def Let_def ring_put_def)
  have e: "r_e (ring_put idx v ?r) = (r_e r)[unat idx := v]"
    using assms(4) by (auto simp: ring_alloc_def Let_def ring_put_def)
  have occ: "occupied ?r j \<longleftrightarrow> j = unat idx \<or> occupied r j" for j
    using occupied_alloc [OF assms(1,2)] idx by simp
  have "\<not> occupied r (unat idx)" using not_occupied_next [OF assms(1,2)] idx by simp
  then show ?thesis
    using assms(3) i ring_okD(1) [OF assms(1)] tracks_slots [OF assms(3)]
    by (auto simp: tracks_def cap occ e nth_list_update member_updates slots_ok_update)
qed

lemma tracks_popHead:
  assumes "ring_ok r" "r_n r \<noteq> 0" "tracks r ws P"
  shows "tracks (ring_popHead r) (word_reset (unat (r_headIdx r)) ws) P"
  using assms(3) occupied_popHead [OF assms(1,2)] ring_okD(2) [OF assms(1)] tracks_slots [OF assms(3)]
  by (auto simp: tracks_def ring_popHead_def slots_ok_update member_updates)

lemma tracks_popTail:
  assumes "ring_ok r" "r_n r \<noteq> 0" "tracks r ws P"
  shows "tracks (ring_popTail r) (word_reset (slot r (unat (r_n r) - 1)) ws) P"
  using assms(3) occupied_popTail [OF assms(1,2)] slot_less [OF assms(1)] tracks_slots [OF assms(3)]
  by (auto simp: tracks_def ring_popTail_def slots_ok_update member_updates)

section \<open>Counters\<close>

definition ring_counts :: "'a ring \<Rightarrow> ('a \<Rightarrow> bool) \<Rightarrow> nat" where
  "ring_counts r P = length (filter P (ring_list r))"

lemma ring_counts_le: "ring_counts r P \<le> unat (r_n r)"
  using length_filter_le [of P "ring_list r"] by (simp add: ring_counts_def)

lemma ring_counts_put:
  assumes "ring_ok r" "occupied r (unat idx)"
  shows "ring_counts (ring_put idx v r) P + (if P (ring_at r idx) then 1 else 0) =
    ring_counts r P + (if P v then 1 else 0)"
proof -
  obtain k where k: "k < unat (r_n r)" "unat idx = slot r k" using assms(2) by (auto simp: occupied_def)
  show ?thesis
    using count_update [of k "ring_list r" P v] ring_list_put [OF assms(1) k] k ring_at_list [OF k(2,1)]
    by (simp add: ring_counts_def)
qed

lemma ring_counts_push:
  assumes "ring_ok r" "\<not> ring_full r" "fst (ring_alloc d r) = idx"
  shows "ring_counts (ring_put idx v (snd (ring_alloc d r))) P = ring_counts r P + (if P v then 1 else 0)"
proof -
  note p = ring_push_ok(2) [OF assms(1,2), of d v]
  have "ring_push d v r = ring_put idx v (snd (ring_alloc d r))"
    using assms(3) by (simp add: ring_push_def case_prod_beta Let_def)
  with p show ?thesis by (simp add: ring_counts_def)
qed

lemma ring_counts_popHead:
  assumes "ring_ok r" "r_n r \<noteq> 0"
  shows "ring_counts (ring_popHead r) P + (if P (ring_head r) then 1 else 0) = ring_counts r P"
proof -
  have "ring_list r \<noteq> []" using assms(2) by (simp add: ring_list_Nil)
  then show ?thesis using ring_popHead_ok(2,3) [OF assms]
    by (cases "ring_list r") (auto simp: ring_counts_def)
qed

lemma ring_counts_popTail:
  assumes "ring_ok r" "r_n r \<noteq> 0"
  shows "ring_counts (ring_popTail r) P + (if P (ring_tail r) then 1 else 0) = ring_counts r P"
proof -
  have "ring_list r \<noteq> []" using assms(2) by (simp add: ring_list_Nil)
  then show ?thesis using ring_popTail_ok(2,3) [OF assms]
    by (cases "ring_list r" rule: rev_cases) (auto simp: ring_counts_def)
qed

lemma ring_counts_occupied:
  assumes "ring_ok r" "occupied r (unat idx)" "P (ring_at r idx)"
  shows "0 < ring_counts r P"
proof -
  obtain k where k: "k < unat (r_n r)" "unat idx = slot r k" using assms(2) by (auto simp: occupied_def)
  then have "ring_at r idx \<in> set (ring_list r)" using ring_at_list [OF k(2,1)] by (simp add: nth_mem)
  then show ?thesis using assms(3) by (auto simp: ring_counts_def filter_empty_conv)
qed

text \<open>A 32-bit counter that counts entries never wraps: there are at most \<open>2 ^ 32 - 1\<close>.\<close>

lemma counter_up:
  "unat c = n \<Longrightarrow> Suc n < 4294967296 \<Longrightarrow> unat (c + 1 :: u32) = Suc n"
  using unat_Suc_small32 [of c] by simp

lemma counter_down:
  "unat c = Suc n \<Longrightarrow> unat (c - 1 :: u32) = n"
  using unat_pred32 [of c] by force

section \<open>Walks over a tracking set\<close>

text \<open>The slots of the live entries with a property, oldest first.\<close>

definition live_slots :: "'a ring \<Rightarrow> ('a \<Rightarrow> bool) \<Rightarrow> nat list" where
  "live_slots r P = map (slot r) (filter (\<lambda>k. P (ring_list r ! k)) [0..<unat (r_n r)])"

lemma slot_cases:
  assumes "ring_ok r" "k < unat (r_capacity r)"
  shows "slot r k =
    (if k < unat (r_capacity r) - unat (r_headIdx r) then unat (r_headIdx r) + k
     else k - (unat (r_capacity r) - unat (r_headIdx r)))"
proof -
  let ?h = "unat (r_headIdx r)" and ?c = "unat (r_capacity r)"
  have h: "?h < ?c" using ring_okD(2) [OF assms(1)] .
  show ?thesis
  proof (cases "k < ?c - ?h")
    case False
    then have "?h + k = (k - (?c - ?h)) + ?c" using h by linarith
    then have "slot r k = (k - (?c - ?h) + ?c) mod ?c" by (simp only: slot_def)
    also have "\<dots> = k - (?c - ?h)" using assms(2) by (simp only: mod_add_self2) simp
    finally show ?thesis using False by simp
  qed (simp add: slot_def)
qed

lemma age_order_slots:
  assumes "ring_ok r"
  shows "age_order (unat (r_headIdx r)) (unat (r_capacity r)) = map (slot r) [0..<unat (r_capacity r)]"
proof -
  let ?h = "unat (r_headIdx r)" and ?c = "unat (r_capacity r)"
  have h: "?h < ?c" using ring_okD(2) [OF assms] .
  show ?thesis
  proof (rule nth_equalityI)
    show "length (age_order ?h ?c) = length (map (slot r) [0..<?c])" using h by (simp add: age_order_def)
    fix k
    assume "k < length (age_order ?h ?c)"
    then have k: "k < ?c" using h by (simp add: age_order_def)
    have "slot r k = (if k < ?c - ?h then ?h + k else k - (?c - ?h))"
      by (rule slot_cases [OF assms k])
    then show "age_order ?h ?c ! k = map (slot r) [0..<?c] ! k"
      using k h by (simp add: age_order_def nth_append)
  qed
qed

lemma tracks_age_order:
  assumes "ring_ok r" "tracks r ws P"
  shows "filter (member ws) (age_order (unat (r_headIdx r)) (unat (r_capacity r))) = live_slots r P"
proof -
  let ?c = "unat (r_capacity r)" and ?n = "unat (r_n r)"
  have n: "?n \<le> ?c" using ring_okD(3) [OF assms(1)] .
  have split: "[0..<?c] = [0..<?n] @ [?n..<?c]" using upt_add_eq_append [of 0 ?n "?c - ?n"] n by simp
  have mem: "member ws (slot r k) \<longleftrightarrow> occupied r (slot r k) \<and> P (r_e r ! slot r k)" for k
    using tracks_member [OF assms(2)] slot_less [OF assms(1)] by blast
  have free: "\<not> member ws (slot r k)" if "k \<in> {?n..<?c}" for k
  proof
    assume "member ws (slot r k)"
    then obtain j where j: "j < ?n" "slot r j = slot r k" using mem by (auto simp: occupied_def)
    have "j = k" by (rule slot_inj [OF assms(1) _ _ j(2)]) (use j that n in simp_all)
    with j that show False by simp
  qed
  have live: "member ws (slot r k) \<longleftrightarrow> P (ring_list r ! k)" if "k < ?n" for k
    using mem [of k] that by (auto simp: occupied_def ring_list_def)
  have "filter (\<lambda>k. member ws (slot r k)) [?n..<?c] = []" using free by (auto simp: filter_empty_conv)
  moreover have "filter (\<lambda>k. member ws (slot r k)) [0..<?n] = filter (\<lambda>k. P (ring_list r ! k)) [0..<?n]"
    by (rule filter_upt_cong) (use live in auto)
  ultimately show ?thesis
    unfolding age_order_slots [OF assms(1)] filter_map o_def split live_slots_def by simp
qed

text \<open>Those older than the entry at position \<open>k\<close>.\<close>

lemma tracks_age_before:
  assumes "ring_ok r" "tracks r ws P" "k < unat (r_n r)"
  shows "filter (member ws) (age_before (unat (r_headIdx r)) (slot r k) (unat (r_capacity r))) =
    map (slot r) (filter (\<lambda>j. P (ring_list r ! j)) [0..<k])"
proof -
  let ?h = "unat (r_headIdx r)" and ?c = "unat (r_capacity r)"
  have h: "?h < ?c" and n: "unat (r_n r) \<le> ?c" using ring_okD [OF assms(1)] by simp_all
  have kc: "k < ?c" using assms(3) n by simp
  have "age_before ?h (slot r k) ?c = take k (age_order ?h ?c)"
  proof (cases "k < ?c - ?h")
    case True
    then have "slot r k = ?h + k" by (simp add: slot_def)
    then show ?thesis using True by (simp add: age_before_def age_order_def)
  next
    case False
    then have s: "slot r k = k - (?c - ?h)" using slot_cases [OF assms(1) kc] by simp
    then have "\<not> ?h \<le> slot r k" using kc h False by linarith
    then show ?thesis using False s h kc by (simp add: age_before_def age_order_def)
  qed
  also have "\<dots> = map (slot r) [0..<k]"
    unfolding age_order_slots [OF assms(1)] using kc by (simp add: take_map)
  finally have "filter (member ws) (age_before ?h (slot r k) ?c) =
      map (slot r) (filter (\<lambda>j. member ws (slot r j)) [0..<k])"
    by (simp add: filter_map o_def)
  moreover have "member ws (slot r j) \<longleftrightarrow> P (ring_list r ! j)" if "j < k" for j
  proof -
    have j: "j < unat (r_n r)" using that assms(3) by simp
    then have "occupied r (slot r j)" unfolding occupied_def by blast
    then show ?thesis
      using tracks_member [OF assms(2) slot_less [OF assms(1), of j]] j by (simp add: ring_list_def)
  qed
  ultimately show ?thesis
    using filter_upt_cong [of 0 k "\<lambda>j. member ws (slot r j)" "\<lambda>j. P (ring_list r ! j)"] by simp
qed

lemma live_slots_entries: "map (\<lambda>x. r_e r ! x) (live_slots r P) = filter P (ring_list r)"
proof -
  have "filter P (ring_list r) = map (\<lambda>k. ring_list r ! k) (filter (\<lambda>k. P (ring_list r ! k)) [0..<unat (r_n r)])"
    using filter_map [of P "\<lambda>k. ring_list r ! k" "[0..<unat (r_n r)]"] map_nth [of "ring_list r"]
    by (simp add: o_def)
  also have "\<dots> = map (\<lambda>k. r_e r ! slot r k) (filter (\<lambda>k. P (ring_list r ! k)) [0..<unat (r_n r)])"
    by (rule map_cong) (auto simp: ring_list_def)
  finally show ?thesis by (simp add: live_slots_def o_def)
qed

lemma live_slots_less: "ring_ok r \<Longrightarrow> x \<in> set (live_slots r P) \<Longrightarrow> x < unat (r_capacity r)"
  using slot_less by (auto simp: live_slots_def)

lemma ring_head_slot: "ring_ok r \<Longrightarrow> unat (ring_indexOf r 0) = unat (r_headIdx r)"
  using ring_indexOf_slot [of r 0] ring_okD(2) [of r] by (simp add: slot_def)

lemma visit_tracking:
  assumes "ring_ok r" "tracks r (getw s) P" "own_slot getw (length (getw s)) f"
  shows "ss_visit (unat (r_capacity r)) getw (unat (ring_indexOf r 0)) f s = snd (walk f (live_slots r P) s)"
  using visit_walk [OF assms(3) refl tracks_slots [OF assms(2)] ring_okD(2) [OF assms(1)]]
    tracks_age_order [OF assms(1,2)] ring_head_slot [OF assms(1)]
  by simp

lemma visitOlder_tracking:
  assumes "ring_ok r" "tracks r (getw s) P" "own_slot getw (length (getw s)) f" "k < unat (r_n r)"
  shows "ss_visitOlder (unat (r_capacity r)) getw (unat (ring_indexOf r 0)) (slot r k) f s =
    snd (walk f (rev (map (slot r) (filter (\<lambda>j. P (ring_list r ! j)) [0..<k]))) s)"
  using visitOlder_walk [OF assms(3) refl tracks_slots [OF assms(2)] ring_okD(2) [OF assms(1)]
      slot_less [OF assms(1)]]
    tracks_age_before [OF assms(1,2,4)] ring_head_slot [OF assms(1)]
  by simp

end
