(* ===== verification/Lsq.thy ===== *)
theory Lsq
  imports Isa Ring_Sets
begin

text \<open>
  Model of \<^verbatim>\<open>core/lsq.h\<close>: the load/store queue with its work sets, and the store buffer.  A
  method that takes a reference to an entry takes the entry's ring index here, which is what
  \<^verbatim>\<open>slotOf\<close> recovers from the reference.  The invariant says what every work set and counter
  stands for.
\<close>

section \<open>Entries\<close>

record lsq_entry =
  le_seq :: u64
  le_robIdx :: u32
  le_pc :: u32
  le_addr :: u32
  le_data :: u32
  le_value :: u32
  le_gen :: u16
  le_op :: op
  le_pdst :: u8
  le_size :: u8
  le_dataPreg :: u8
  le_isStore :: bool
  le_addrValid :: bool
  le_dataReady :: bool
  le_done :: bool
  le_issued :: bool
  le_reported :: bool

definition lsq_entry0 :: lsq_entry where
  "lsq_entry0 = \<lparr>le_seq = 0, le_robIdx = 0, le_pc = 0, le_addr = 0, le_data = 0, le_value = 0,
     le_gen = 0, le_op = ILLEGAL, le_pdst = 0xFF, le_size = 4, le_dataPreg = 0xFF,
     le_isStore = False, le_addrValid = False, le_dataReady = True, le_done = False,
     le_issued = False, le_reported = False\<rparr>"

definition overlaps :: "u32 \<Rightarrow> u32 \<Rightarrow> u32 \<Rightarrow> u32 \<Rightarrow> bool" where
  "overlaps a aSize b bSize \<longleftrightarrow> a + aSize > b \<and> b + bSize > a"

section \<open>The queue\<close>

record lsq =
  l_ring :: "lsq_entry ring"
  l_genCtr :: "u16 list"
  l_candidates :: "u64 list"
  l_pending :: "u64 list"
  l_updates :: "u64 list"
  l_knownStores :: "u64 list"
  l_unknownStores :: "u64 list"
  l_accessedLoads :: "u64 list"
  l_storeWords :: "u32 list"
  l_pendingLoads :: u32
  l_unreportedLoads :: u32
  l_waitingStores :: u32

definition lsq_new :: "u32 \<Rightarrow> lsq" where
  "lsq_new n =
     (let none = ss_words (slot_set_new (unat n)) in
      \<lparr>l_ring = ring_new lsq_entry0 n, l_genCtr = replicate (unat n) 0,
       l_candidates = none, l_pending = none, l_updates = none, l_knownStores = none,
       l_unknownStores = none, l_accessedLoads = none, l_storeWords = replicate 64 0,
       l_pendingLoads = 0, l_unreportedLoads = 0, l_waitingStores = 0\<rparr>)"

definition lsq_at :: "u32 \<Rightarrow> lsq \<Rightarrow> lsq_entry" where
  "lsq_at idx q = ring_at (l_ring q) idx"

text \<open>Assignments through a reference to an entry.\<close>

definition lsq_fill :: "u32 \<Rightarrow> (lsq_entry \<Rightarrow> lsq_entry) \<Rightarrow> lsq \<Rightarrow> lsq" where
  "lsq_fill idx f q = q\<lparr>l_ring := ring_put idx (f (lsq_at idx q)) (l_ring q)\<rparr>"

definition lsq_alloc :: "lsq \<Rightarrow> u32 \<times> lsq" where
  "lsq_alloc q =
     (let (idx, r) = ring_alloc lsq_entry0 (l_ring q);
          gen = l_genCtr q ! unat idx + 1
      in (idx, lsq_fill idx (\<lambda>e. e\<lparr>le_gen := gen\<rparr>)
                 (q\<lparr>l_ring := r, l_genCtr := (l_genCtr q)[unat idx := gen]\<rparr>)))"

definition lsq_issueLoad :: "u32 \<Rightarrow> lsq \<Rightarrow> lsq" where
  "lsq_issueLoad idx q =
     lsq_fill idx (\<lambda>e. e\<lparr>le_issued := True\<rparr>)
       (q\<lparr>l_candidates := word_reset (unat idx) (l_candidates q),
          l_pending := word_set (unat idx) (l_pending q),
          l_accessedLoads := word_set (unat idx) (l_accessedLoads q),
          l_pendingLoads := l_pendingLoads q + 1\<rparr>)"

definition lsq_completeLoad :: "u32 \<Rightarrow> u32 \<Rightarrow> lsq \<Rightarrow> lsq" where
  "lsq_completeLoad idx v q =
     lsq_fill idx (\<lambda>e. e\<lparr>le_value := v, le_done := True\<rparr>)
       (q\<lparr>l_candidates := word_reset (unat idx) (l_candidates q),
          l_pending := word_reset (unat idx) (l_pending q),
          l_updates := word_set (unat idx) (l_updates q),
          l_accessedLoads := word_set (unat idx) (l_accessedLoads q),
          l_pendingLoads := (if le_issued (lsq_at idx q) then l_pendingLoads q - 1 else l_pendingLoads q),
          l_unreportedLoads := l_unreportedLoads q + 1\<rparr>)"

definition lsq_reportLoad :: "u32 \<Rightarrow> lsq \<Rightarrow> lsq" where
  "lsq_reportLoad idx q =
     lsq_fill idx (\<lambda>e. e\<lparr>le_reported := True\<rparr>)
       (q\<lparr>l_updates := word_reset (unat idx) (l_updates q),
          l_unreportedLoads := l_unreportedLoads q - 1\<rparr>)"

definition lsq_setStoreSource :: "u32 \<Rightarrow> u8 \<Rightarrow> bool \<Rightarrow> u32 \<Rightarrow> lsq \<Rightarrow> lsq" where
  "lsq_setStoreSource idx preg ready v q =
     lsq_fill idx (\<lambda>e. let e' = e\<lparr>le_dataPreg := preg, le_dataReady := ready\<rparr>
                       in if ready then e'\<lparr>le_data := v\<rparr> else e')
       (q\<lparr>l_unknownStores := word_set (unat idx) (l_unknownStores q),
          l_updates := (if \<not> ready then word_set (unat idx) (l_updates q) else l_updates q),
          l_waitingStores := (if ready then l_waitingStores q else l_waitingStores q + 1)\<rparr>)"

definition lsq_captureStoreData :: "u32 \<Rightarrow> u32 \<Rightarrow> lsq \<Rightarrow> lsq" where
  "lsq_captureStoreData idx v q =
     lsq_fill idx (\<lambda>e. e\<lparr>le_data := v, le_dataReady := True\<rparr>)
       (q\<lparr>l_updates := word_reset (unat idx) (l_updates q),
          l_waitingStores := l_waitingStores q - 1\<rparr>)"

definition wordBucket :: "u32 \<Rightarrow> u32" where
  "wordBucket addr = drop_bit 2 addr AND 63"

definition firstBucket :: "lsq_entry \<Rightarrow> nat" where
  "firstBucket e = unat (wordBucket (le_addr e))"

definition lastBucket :: "lsq_entry \<Rightarrow> nat" where
  "lastBucket e = unat (wordBucket (le_addr e + ucast (le_size e) - 1))"

text \<open>Adds \<open>d\<close> to the counters of the buckets the resolved store \<open>e\<close> touches.\<close>

definition count_store :: "u32 \<Rightarrow> lsq_entry \<Rightarrow> u32 list \<Rightarrow> u32 list" where
  "count_store d e ws =
     (let ws' = ws[firstBucket e := ws ! firstBucket e + d]
      in if firstBucket e \<noteq> lastBucket e
         then ws'[lastBucket e := ws' ! lastBucket e + d] else ws')"

definition lsq_resolveAddress :: "u32 \<Rightarrow> lsq \<Rightarrow> lsq" where
  "lsq_resolveAddress idx q =
     (let q' = lsq_fill idx (\<lambda>e. e\<lparr>le_addrValid := True\<rparr>) q; e = lsq_at idx q' in
      if le_isStore e
      then q'\<lparr>l_unknownStores := word_reset (unat idx) (l_unknownStores q'),
              l_knownStores := word_set (unat idx) (l_knownStores q'),
              l_storeWords := count_store 1 e (l_storeWords q')\<rparr>
      else q'\<lparr>l_candidates := word_set (unat idx) (l_candidates q')\<rparr>)"

definition lsq_mayStoreToWord :: "u32 \<Rightarrow> lsq \<Rightarrow> bool" where
  "lsq_mayStoreToWord addr q \<longleftrightarrow> l_storeWords q ! unat (wordBucket addr) \<noteq> 0"

definition lsq_remove :: "u32 \<Rightarrow> lsq \<Rightarrow> lsq" where
  "lsq_remove idx q =
     (let e = lsq_at idx q in
      q\<lparr>l_candidates := word_reset (unat idx) (l_candidates q),
        l_pending := word_reset (unat idx) (l_pending q),
        l_updates := word_reset (unat idx) (l_updates q),
        l_knownStores := word_reset (unat idx) (l_knownStores q),
        l_unknownStores := word_reset (unat idx) (l_unknownStores q),
        l_accessedLoads := word_reset (unat idx) (l_accessedLoads q),
        l_storeWords := (if le_isStore e \<and> le_addrValid e
                         then count_store (- 1) e (l_storeWords q) else l_storeWords q),
        l_pendingLoads := (if le_issued e \<and> \<not> le_done e then l_pendingLoads q - 1 else l_pendingLoads q),
        l_unreportedLoads := (if \<not> le_isStore e \<and> le_done e \<and> \<not> le_reported e
                              then l_unreportedLoads q - 1 else l_unreportedLoads q),
        l_waitingStores := (if le_isStore e \<and> \<not> le_dataReady e
                            then l_waitingStores q - 1 else l_waitingStores q)\<rparr>)"

definition lsq_popHead :: "lsq \<Rightarrow> lsq" where
  "lsq_popHead q =
     (let q' = lsq_remove (r_headIdx (l_ring q)) q in q'\<lparr>l_ring := ring_popHead (l_ring q')\<rparr>)"

definition lsq_popTail :: "lsq \<Rightarrow> lsq" where
  "lsq_popTail q =
     (let q' = lsq_remove (ring_indexOf (l_ring q) (r_n (l_ring q) - 1)) q
      in q'\<lparr>l_ring := ring_popTail (l_ring q')\<rparr>)"

definition lsq_hasPendingLoads :: "lsq \<Rightarrow> bool" where
  "lsq_hasPendingLoads q \<longleftrightarrow> l_pendingLoads q \<noteq> 0"

definition lsq_needsUpdate :: "lsq \<Rightarrow> bool" where
  "lsq_needsUpdate q \<longleftrightarrow> l_unreportedLoads q \<noteq> 0 \<or> l_waitingStores q \<noteq> 0"

text \<open>
  The visits.  The visitor gets the slot and the caller's state, of which \<open>getq\<close> is the queue;
  the ring index of the head is that at the call.
\<close>

definition lsq_capacity :: "lsq \<Rightarrow> nat" where
  "lsq_capacity q = unat (r_capacity (l_ring q))"

definition lsq_head :: "lsq \<Rightarrow> nat" where
  "lsq_head q = unat (ring_indexOf (l_ring q) 0)"

definition lsq_visitUpdates :: "('s \<Rightarrow> lsq) \<Rightarrow> 's visitor \<Rightarrow> 's \<Rightarrow> 's" where
  "lsq_visitUpdates getq f s =
     ss_visit (lsq_capacity (getq s)) (\<lambda>s. l_updates (getq s)) (lsq_head (getq s)) f s"

definition lsq_visitCandidates :: "('s \<Rightarrow> lsq) \<Rightarrow> 's visitor \<Rightarrow> 's \<Rightarrow> 's" where
  "lsq_visitCandidates getq f s =
     ss_visit (lsq_capacity (getq s)) (\<lambda>s. l_candidates (getq s)) (lsq_head (getq s)) f s"

definition lsq_visitOlderStores :: "('s \<Rightarrow> lsq) \<Rightarrow> nat \<Rightarrow> 's visitor \<Rightarrow> 's \<Rightarrow> 's" where
  "lsq_visitOlderStores getq e f s =
     ss_visitOlder (lsq_capacity (getq s)) (\<lambda>s. l_knownStores (getq s)) (lsq_head (getq s)) e f s"

definition lsq_visitAccessedLoads :: "('s \<Rightarrow> lsq) \<Rightarrow> 's visitor \<Rightarrow> 's \<Rightarrow> 's" where
  "lsq_visitAccessedLoads getq f s =
     ss_visit (lsq_capacity (getq s)) (\<lambda>s. l_accessedLoads (getq s)) (lsq_head (getq s)) f s"

definition lsq_oldestSeq :: "(lsq \<Rightarrow> u64 list) \<Rightarrow> lsq \<Rightarrow> u64" where
  "lsq_oldestSeq getw q =
     ss_visit (lsq_capacity q) (\<lambda>seq. getw q) (lsq_head q)
       (\<lambda>x seq. (False, le_seq (lsq_at (word_of_nat x) q))) (- 1)"

definition lsq_oldestUnknownStore :: "lsq \<Rightarrow> u64" where
  "lsq_oldestUnknownStore q = lsq_oldestSeq l_unknownStores q"

definition lsq_oldestPendingLoad :: "lsq \<Rightarrow> u64" where
  "lsq_oldestPendingLoad q = lsq_oldestSeq l_pending q"

section \<open>The store buffer\<close>

record sb_entry =
  se_addr :: u32
  se_size :: u8
  se_data :: u32
  se_inflight :: bool
  se_acked :: bool
  se_txn :: u32

definition sb_entry0 :: sb_entry where
  "sb_entry0 = \<lparr>se_addr = 0, se_size = 4, se_data = 0, se_inflight = False, se_acked = False, se_txn = 0\<rparr>"

record store_buffer =
  sb_ring :: "sb_entry ring"
  sb_issued :: u32

definition sb_new :: "u32 \<Rightarrow> store_buffer" where
  "sb_new n = \<lparr>sb_ring = ring_new sb_entry0 n, sb_issued = 0\<rparr>"

text \<open>\<^verbatim>\<open>nextToIssue\<close> returns a pointer into the ring: here, the entry's ring index.\<close>

definition sb_nextIssueSlot :: "store_buffer \<Rightarrow> u32" where
  "sb_nextIssueSlot b = ring_indexOf (sb_ring b) (sb_issued b)"

definition sb_nextToIssue :: "store_buffer \<Rightarrow> u32 option" where
  "sb_nextToIssue b =
     (if sb_issued b < ring_count (sb_ring b) then Some (ring_indexOf (sb_ring b) (sb_issued b)) else None)"

definition sb_fill :: "u32 \<Rightarrow> (sb_entry \<Rightarrow> sb_entry) \<Rightarrow> store_buffer \<Rightarrow> store_buffer" where
  "sb_fill idx f b = b\<lparr>sb_ring := ring_put idx (f (ring_at (sb_ring b) idx)) (sb_ring b)\<rparr>"

definition sb_issue :: "store_buffer \<Rightarrow> store_buffer" where
  "sb_issue b =
     (sb_fill (ring_indexOf (sb_ring b) (sb_issued b)) (\<lambda>e. e\<lparr>se_inflight := True\<rparr>) b)
       \<lparr>sb_issued := sb_issued b + 1\<rparr>"

definition sb_popHead :: "store_buffer \<Rightarrow> store_buffer" where
  "sb_popHead b = b\<lparr>sb_issued := sb_issued b - 1, sb_ring := ring_popHead (sb_ring b)\<rparr>"


text \<open>The part of \<^verbatim>\<open>dispatchStage\<close> that enters a memory operation into the queue.\<close>

definition lsq_enter ::
  "u64 \<Rightarrow> u32 \<Rightarrow> u32 \<Rightarrow> op \<Rightarrow> u8 \<Rightarrow> u8 \<Rightarrow> bool \<Rightarrow> u32 \<Rightarrow> lsq \<Rightarrow> u32 \<times> lsq" where
  "lsq_enter seq robIdx pc p pdst preg ready v q =
     (let (idx, q1) = lsq_alloc q;
          q2 = lsq_fill idx (\<lambda>e. e\<lparr>le_seq := seq, le_robIdx := robIdx, le_pc := pc, le_op := p,
                                  le_isStore := isStore p, le_pdst := pdst\<rparr>) q1
      in (idx, if isStore p then lsq_setStoreSource idx preg ready v q2 else q2))"

section \<open>The invariant\<close>

definition is_candidate :: "lsq_entry \<Rightarrow> bool" where
  "is_candidate e \<longleftrightarrow> \<not> le_isStore e \<and> le_addrValid e \<and> \<not> le_issued e \<and> \<not> le_done e"

definition is_pending :: "lsq_entry \<Rightarrow> bool" where
  "is_pending e \<longleftrightarrow> \<not> le_isStore e \<and> le_issued e \<and> \<not> le_done e"

definition is_unreported :: "lsq_entry \<Rightarrow> bool" where
  "is_unreported e \<longleftrightarrow> \<not> le_isStore e \<and> le_done e \<and> \<not> le_reported e"

definition is_waiting :: "lsq_entry \<Rightarrow> bool" where
  "is_waiting e \<longleftrightarrow> le_isStore e \<and> \<not> le_dataReady e"

definition is_update :: "lsq_entry \<Rightarrow> bool" where
  "is_update e \<longleftrightarrow> is_unreported e \<or> is_waiting e"

definition is_known :: "lsq_entry \<Rightarrow> bool" where
  "is_known e \<longleftrightarrow> le_isStore e \<and> le_addrValid e"

definition is_unknown :: "lsq_entry \<Rightarrow> bool" where
  "is_unknown e \<longleftrightarrow> le_isStore e \<and> \<not> le_addrValid e"

definition is_accessed :: "lsq_entry \<Rightarrow> bool" where
  "is_accessed e \<longleftrightarrow> \<not> le_isStore e \<and> (le_issued e \<or> le_done e)"

definition in_bucket :: "nat \<Rightarrow> lsq_entry \<Rightarrow> bool" where
  "in_bucket b e \<longleftrightarrow> is_known e \<and> (firstBucket e = b \<or> lastBucket e = b)"

lemmas entry_kinds = is_candidate_def is_pending_def is_unreported_def is_waiting_def is_update_def
  is_known_def is_unknown_def is_accessed_def

text \<open>The states an entry can be in.\<close>

definition entry_ok :: "lsq_entry \<Rightarrow> bool" where
  "entry_ok e \<longleftrightarrow>
     (le_isStore e \<longrightarrow> \<not> le_issued e \<and> \<not> le_done e \<and> \<not> le_reported e) \<and>
     (\<not> le_isStore e \<longrightarrow> le_dataReady e \<and> (le_issued e \<or> le_done e \<longrightarrow> le_addrValid e) \<and>
        (le_reported e \<longrightarrow> le_done e))"

definition buckets_ok :: "lsq_entry ring \<Rightarrow> u32 list \<Rightarrow> bool" where
  "buckets_ok r ws \<longleftrightarrow> length ws = 64 \<and> (\<forall>b < 64. unat (ws ! b) = ring_counts r (in_bucket b))"

text \<open>A live entry carries the generation its slot is at.\<close>

definition gens_ok :: "lsq_entry ring \<Rightarrow> u16 list \<Rightarrow> bool" where
  "gens_ok r gs \<longleftrightarrow> length gs = unat (r_capacity r) \<and>
     (\<forall>i < unat (r_capacity r). occupied r i \<longrightarrow> le_gen (r_e r ! i) = gs ! i)"

definition lsq_ok :: "lsq \<Rightarrow> bool" where
  "lsq_ok q \<longleftrightarrow> ring_ok (l_ring q) \<and> gens_ok (l_ring q) (l_genCtr q) \<and>
     tracks (l_ring q) (l_candidates q) is_candidate \<and> tracks (l_ring q) (l_pending q) is_pending \<and>
     tracks (l_ring q) (l_updates q) is_update \<and> tracks (l_ring q) (l_knownStores q) is_known \<and>
     tracks (l_ring q) (l_unknownStores q) is_unknown \<and>
     tracks (l_ring q) (l_accessedLoads q) is_accessed \<and>
     unat (l_pendingLoads q) = ring_counts (l_ring q) is_pending \<and>
     unat (l_unreportedLoads q) = ring_counts (l_ring q) is_unreported \<and>
     unat (l_waitingStores q) = ring_counts (l_ring q) is_waiting \<and>
     buckets_ok (l_ring q) (l_storeWords q) \<and>
     (\<forall>e \<in> set (ring_list (l_ring q)). entry_ok e)"

declare lsq_ok_def [inv_defs] entry_ok_def [inv_defs]

definition lsq_live :: "u32 \<Rightarrow> lsq \<Rightarrow> bool" where
  "lsq_live idx q \<longleftrightarrow> ring_live (l_ring q) idx"

lemma lsq_okD:
  assumes "lsq_ok q"
  shows "ring_ok (l_ring q)" "gens_ok (l_ring q) (l_genCtr q)"
    "tracks (l_ring q) (l_candidates q) is_candidate" "tracks (l_ring q) (l_pending q) is_pending"
    "tracks (l_ring q) (l_updates q) is_update" "tracks (l_ring q) (l_knownStores q) is_known"
    "tracks (l_ring q) (l_unknownStores q) is_unknown"
    "tracks (l_ring q) (l_accessedLoads q) is_accessed"
    "buckets_ok (l_ring q) (l_storeWords q)"
  using assms by (simp_all add: lsq_ok_def)

lemma lsq_entry_ok:
  assumes "lsq_ok q" "lsq_live idx q"
  shows "entry_ok (lsq_at idx q)"
proof -
  obtain k where k: "k < unat (r_n (l_ring q))" "unat idx = slot (l_ring q) k"
    using assms(2) ring_live_slot [OF lsq_okD(1) [OF assms(1)]] by (auto simp: lsq_live_def)
  then have "lsq_at idx q \<in> set (ring_list (l_ring q))"
    using ring_at_list [OF k(2,1)] by (simp add: lsq_at_def nth_mem)
  then show ?thesis using assms(1) by (simp add: lsq_ok_def)
qed

subsection \<open>Buckets\<close>

lemma bucket_less: "firstBucket e < 64" "lastBucket e < 64"
proof -
  have "wordBucket a < 64" for a
  proof -
    have "wordBucket a = take_bit 6 (drop_bit 2 a)"
      by (simp add: wordBucket_def take_bit_eq_mask mask_eq_exp_minus_1)
    then have "unat (wordBucket a) = take_bit 6 (unat (drop_bit 2 a :: u32))"
      by (simp add: unsigned_take_bit_eq)
    moreover have "\<dots> < 2 ^ 6" by (rule take_bit_nat_less_exp)
    ultimately show ?thesis by (simp add: word_less_nat_alt)
  qed
  then show "firstBucket e < 64" "lastBucket e < 64"
    by (simp_all add: firstBucket_def lastBucket_def word_less_nat_alt)
qed

lemma count_store_nth:
  assumes "length ws = 64" "b < 64"
  shows "count_store d e ws ! b = (if firstBucket e = b \<or> lastBucket e = b then ws ! b + d else ws ! b)"
  using assms bucket_less [of e] by (auto simp: count_store_def Let_def nth_list_update)

lemma length_count_store [simp]: "length (count_store d e ws) = length ws"
  by (simp add: count_store_def Let_def)

lemma buckets_counter:
  "buckets_ok r ws \<Longrightarrow> ring_ok r \<Longrightarrow> b < 64 \<Longrightarrow> unat (ws ! b) = ring_counts r (in_bucket b)"
  by (simp add: buckets_ok_def)

subsection \<open>Steps on one entry\<close>

definition set_step :: "(lsq_entry \<Rightarrow> bool) \<Rightarrow> lsq_entry \<Rightarrow> lsq_entry \<Rightarrow> nat \<Rightarrow> u64 list \<Rightarrow> u64 list \<Rightarrow> bool" where
  "set_step P e v i ws ws' \<longleftrightarrow> (ws' = ws \<and> P v = P e) \<or> (ws' = word_set i ws \<and> P v) \<or>
     (ws' = word_reset i ws \<and> \<not> P v)"

definition count_step :: "(lsq_entry \<Rightarrow> bool) \<Rightarrow> lsq_entry \<Rightarrow> lsq_entry \<Rightarrow> u32 \<Rightarrow> u32 \<Rightarrow> bool" where
  "count_step P e v c c' \<longleftrightarrow> (c' = c \<and> P v = P e) \<or> (c' = c + 1 \<and> P v \<and> \<not> P e) \<or>
     (c' = c - 1 \<and> \<not> P v \<and> P e)"

definition bucket_step :: "lsq_entry \<Rightarrow> lsq_entry \<Rightarrow> u32 list \<Rightarrow> u32 list \<Rightarrow> bool" where
  "bucket_step e v ws ws' \<longleftrightarrow> (ws' = ws \<and> (\<forall>b. in_bucket b v = in_bucket b e)) \<or>
     (ws' = count_store 1 v ws \<and> is_known v \<and> \<not> is_known e)"

lemmas steps = set_step_def count_step_def bucket_step_def

lemma set_step_ok:
  assumes "ring_ok r" "occupied r (unat idx)" "tracks r ws P"
    "set_step P (ring_at r idx) v (unat idx) ws ws'"
  shows "tracks (ring_put idx v r) ws' P"
  using assms tracks_put_same [OF assms(1,3)] tracks_put_set [OF assms(1,3,2)]
    tracks_put_reset [OF assms(1,3,2)]
  by (auto simp: set_step_def)

lemma count_step_ok:
  assumes "ring_ok r" "occupied r (unat idx)" "unat c = ring_counts r P"
    "count_step P (ring_at r idx) v c c'"
  shows "unat c' = ring_counts (ring_put idx v r) P"
proof -
  note p = ring_counts_put [OF assms(1,2), of v P]
  have le: "ring_counts (ring_put idx v r) P < 4294967296"
    using ring_counts_le [of "ring_put idx v r" P] unat_less_pow32 [of "r_n r"] by simp
  from assms(4) consider "c' = c" "P v = P (ring_at r idx)" | "c' = c + 1" "P v" "\<not> P (ring_at r idx)" |
    "c' = c - 1" "\<not> P v" "P (ring_at r idx)"
    by (auto simp: count_step_def)
  then show ?thesis
  proof cases
    case 1
    then show ?thesis using p assms(3) by simp
  next
    case 2
    then show ?thesis using p assms(3) le counter_up [of c] by simp
  next
    case 3
    then show ?thesis using p assms(3) counter_down [of c "ring_counts (ring_put idx v r) P"] by simp
  qed
qed

lemma bucket_step_ok:
  assumes "ring_ok r" "occupied r (unat idx)" "buckets_ok r ws" "bucket_step (ring_at r idx) v ws ws'"
  shows "buckets_ok (ring_put idx v r) ws'"
proof -
  have "length ws' = 64" using assms(3,4)
    by (auto simp: buckets_ok_def bucket_step_def)
  moreover have "unat (ws' ! b) = ring_counts (ring_put idx v r) (in_bucket b)" if "b < 64" for b
  proof (rule count_step_ok [OF assms(1,2)])
    show "unat (ws ! b) = ring_counts r (in_bucket b)" using assms(3) that by (simp add: buckets_ok_def)
    have "length ws = 64" using assms(3) by (simp add: buckets_ok_def)
    then show "count_step (in_bucket b) (ring_at r idx) v (ws ! b) (ws' ! b)"
      using assms(4) that count_store_nth [of ws b 1 v]
      by (auto simp: bucket_step_def count_step_def in_bucket_def split: if_splits)
  qed
  ultimately show ?thesis by (simp add: buckets_ok_def)
qed

lemma lsq_ok_update:
  assumes "lsq_ok q" "lsq_live idx q" "entry_ok v"
    and "le_gen v = le_gen (lsq_at idx q)" "l_ring q' = ring_put idx v (l_ring q)" "l_genCtr q' = l_genCtr q"
    and "set_step is_candidate (lsq_at idx q) v (unat idx) (l_candidates q) (l_candidates q')"
    and "set_step is_pending (lsq_at idx q) v (unat idx) (l_pending q) (l_pending q')"
    and "set_step is_update (lsq_at idx q) v (unat idx) (l_updates q) (l_updates q')"
    and "set_step is_known (lsq_at idx q) v (unat idx) (l_knownStores q) (l_knownStores q')"
    and "set_step is_unknown (lsq_at idx q) v (unat idx) (l_unknownStores q) (l_unknownStores q')"
    and "set_step is_accessed (lsq_at idx q) v (unat idx) (l_accessedLoads q) (l_accessedLoads q')"
    and "count_step is_pending (lsq_at idx q) v (l_pendingLoads q) (l_pendingLoads q')"
    and "count_step is_unreported (lsq_at idx q) v (l_unreportedLoads q) (l_unreportedLoads q')"
    and "count_step is_waiting (lsq_at idx q) v (l_waitingStores q) (l_waitingStores q')"
    and "bucket_step (lsq_at idx q) v (l_storeWords q) (l_storeWords q')"
  shows "lsq_ok q' \<and> (\<forall>i. lsq_live i q' = lsq_live i q) \<and> lsq_at idx q' = v \<and>
    (\<forall>k. unat idx = slot (l_ring q) k \<and> k < unat (r_n (l_ring q)) \<longrightarrow>
       ring_list (l_ring q') = (ring_list (l_ring q))[k := v])"
proof -
  note ok = lsq_okD [OF assms(1)]
  have occ: "occupied (l_ring q) (unat idx)"
    using assms(2) occupied_live [OF ok(1)] by (simp add: lsq_live_def)
  obtain k where k: "k < unat (r_n (l_ring q))" "unat idx = slot (l_ring q) k"
    using occ by (auto simp: occupied_def)
  have l: "ring_list (l_ring q') = (ring_list (l_ring q))[j := v]"
    if "unat idx = slot (l_ring q) j" "j < unat (r_n (l_ring q))" for j
    using ring_list_put [OF ok(1) that(2,1)] assms(5) by simp
  have entries: "\<forall>e \<in> set (ring_list (l_ring q')). entry_ok e"
    using assms(1,3) l [OF k(2,1)] set_update_subset_insert [of "ring_list (l_ring q)" k v]
    by (auto simp: lsq_ok_def)
  note upd = assms(7-) [unfolded lsq_at_def]
  note set = set_step_ok [OF ok(1) occ] and count = count_step_ok [OF ok(1) occ]
  have "unat (l_pendingLoads q) = ring_counts (l_ring q) is_pending"
    "unat (l_unreportedLoads q) = ring_counts (l_ring q) is_unreported"
    "unat (l_waitingStores q) = ring_counts (l_ring q) is_waiting"
    using assms(1) by (simp_all add: lsq_ok_def)
  note counts = count [OF this(1) upd(7)] count [OF this(2) upd(8)] count [OF this(3) upd(9)]
  have "le_gen ((r_e (l_ring q))[unat idx := v] ! i) = le_gen (r_e (l_ring q) ! i)"
    if "i < unat (r_capacity (l_ring q))" for i
    using assms(4) that ring_okD(1) [OF ok(1)]
    by (cases "i = unat idx") (simp_all add: lsq_at_def ring_at_def)
  then have gens: "gens_ok (ring_put idx v (l_ring q)) (l_genCtr q)"
    using ok(2) by (simp add: gens_ok_def) (simp add: ring_put_def)
  have "lsq_ok q'"
    unfolding lsq_ok_def
    using entries gens ring_ok_put [OF ok(1)] counts
      set [OF ok(3) upd(1)] set [OF ok(4) upd(2)] set [OF ok(5) upd(3)] set [OF ok(6) upd(4)]
      set [OF ok(7) upd(5)] set [OF ok(8) upd(6)] bucket_step_ok [OF ok(1) occ ok(9) upd(10)]
    by (simp add: assms(5,6))
  moreover have "lsq_live i q' = lsq_live i q" for i
    using occupied_live [OF ok(1)] occupied_live [OF ring_ok_put [OF ok(1)]] assms(5)
    by (simp add: lsq_live_def)
  moreover have "lsq_at idx q' = v"
    using assms(5) ring_at_put [of idx "l_ring q" v] occupied_less [OF ok(1) occ] ring_okD(1) [OF ok(1)]
    by (simp add: lsq_at_def)
  ultimately show ?thesis using l by blast
qed


section \<open>Every operation keeps the invariant\<close>

lemma lsq_fill_sel [simp]:
  "l_ring (lsq_fill idx f q) = ring_put idx (f (lsq_at idx q)) (l_ring q)"
  "l_genCtr (lsq_fill idx f q) = l_genCtr q" "l_candidates (lsq_fill idx f q) = l_candidates q"
  "l_pending (lsq_fill idx f q) = l_pending q" "l_updates (lsq_fill idx f q) = l_updates q"
  "l_knownStores (lsq_fill idx f q) = l_knownStores q"
  "l_unknownStores (lsq_fill idx f q) = l_unknownStores q"
  "l_accessedLoads (lsq_fill idx f q) = l_accessedLoads q"
  "l_storeWords (lsq_fill idx f q) = l_storeWords q"
  "l_pendingLoads (lsq_fill idx f q) = l_pendingLoads q"
  "l_unreportedLoads (lsq_fill idx f q) = l_unreportedLoads q"
  "l_waitingStores (lsq_fill idx f q) = l_waitingStores q"
  by (simp_all add: lsq_fill_def)

lemma lsq_at_ring: "l_ring q' = l_ring q \<Longrightarrow> lsq_at idx q' = lsq_at idx q"
  by (simp add: lsq_at_def)

lemma lsq_at_sel [simp]:
  "lsq_at idx (q\<lparr>l_candidates := a\<rparr>) = lsq_at idx q" "lsq_at idx (q\<lparr>l_pending := a\<rparr>) = lsq_at idx q"
  "lsq_at idx (q\<lparr>l_updates := a\<rparr>) = lsq_at idx q" "lsq_at idx (q\<lparr>l_accessedLoads := a\<rparr>) = lsq_at idx q"
  "lsq_at idx (q\<lparr>l_knownStores := a\<rparr>) = lsq_at idx q" "lsq_at idx (q\<lparr>l_unknownStores := a\<rparr>) = lsq_at idx q"
  "lsq_at idx (q\<lparr>l_pendingLoads := c\<rparr>) = lsq_at idx q"
  "lsq_at idx (q\<lparr>l_unreportedLoads := c\<rparr>) = lsq_at idx q"
  "lsq_at idx (q\<lparr>l_waitingStores := c\<rparr>) = lsq_at idx q"
  by (simp_all add: lsq_at_def)

text \<open>What one operation on a live entry establishes: the entry becomes \<open>v\<close>, nothing else changes.\<close>

definition entry_becomes :: "u32 \<Rightarrow> lsq_entry \<Rightarrow> lsq \<Rightarrow> lsq \<Rightarrow> bool" where
  "entry_becomes idx v q q' \<longleftrightarrow>
     lsq_ok q' \<and> (\<forall>i. lsq_live i q' = lsq_live i q) \<and> lsq_at idx q' = v \<and>
     (\<forall>k. unat idx = slot (l_ring q) k \<and> k < unat (r_n (l_ring q)) \<longrightarrow>
        ring_list (l_ring q') = (ring_list (l_ring q))[k := v])"

lemmas becomesI = lsq_ok_update [folded entry_becomes_def]

lemma issueLoad_ok:
  assumes "lsq_ok q" "lsq_live idx q" "is_candidate (lsq_at idx q)"
  shows "entry_becomes idx ((lsq_at idx q)\<lparr>le_issued := True\<rparr>) q (lsq_issueLoad idx q)"
  using assms(3) lsq_entry_ok [OF assms(1,2)]
  by (intro becomesI [OF assms(1,2)])
    (simp_all add: lsq_issueLoad_def entry_ok_def entry_kinds steps in_bucket_def firstBucket_def lastBucket_def)

lemma completeLoad_ok:
  assumes "lsq_ok q" "lsq_live idx q" "is_candidate (lsq_at idx q) \<or> is_pending (lsq_at idx q)"
  shows "entry_becomes idx ((lsq_at idx q)\<lparr>le_value := v, le_done := True\<rparr>) q (lsq_completeLoad idx v q)"
  using assms(3) lsq_entry_ok [OF assms(1,2)]
  by (intro becomesI [OF assms(1,2)])
    (auto simp: lsq_completeLoad_def entry_ok_def entry_kinds steps in_bucket_def firstBucket_def lastBucket_def)

lemma reportLoad_ok:
  assumes "lsq_ok q" "lsq_live idx q" "is_unreported (lsq_at idx q)"
  shows "entry_becomes idx ((lsq_at idx q)\<lparr>le_reported := True\<rparr>) q (lsq_reportLoad idx q)"
  using assms(3) lsq_entry_ok [OF assms(1,2)]
  by (intro becomesI [OF assms(1,2)])
    (simp_all add: lsq_reportLoad_def entry_ok_def entry_kinds steps in_bucket_def firstBucket_def lastBucket_def)

lemma captureStoreData_ok:
  assumes "lsq_ok q" "lsq_live idx q" "is_waiting (lsq_at idx q)"
  shows "entry_becomes idx ((lsq_at idx q)\<lparr>le_data := v, le_dataReady := True\<rparr>) q
    (lsq_captureStoreData idx v q)"
  using assms(3) lsq_entry_ok [OF assms(1,2)]
  by (intro becomesI [OF assms(1,2)])
    (simp_all add: lsq_captureStoreData_def entry_ok_def entry_kinds steps in_bucket_def firstBucket_def
      lastBucket_def)

text \<open>The AGU drain fills in the address and the size, then resolves.\<close>

lemma resolve_ok:
  assumes "lsq_ok q" "lsq_live idx q" "\<not> le_addrValid (lsq_at idx q)"
  shows "entry_becomes idx ((lsq_at idx q)\<lparr>le_addr := a, le_size := n, le_addrValid := True\<rparr>) q
    (lsq_resolveAddress idx (lsq_fill idx (\<lambda>e. e\<lparr>le_addr := a, le_size := n\<rparr>) q))"
proof -
  let ?f = "\<lambda>e. e\<lparr>le_addr := a, le_size := n\<rparr>"
  have occ: "unat idx < length (r_e (l_ring q))"
    using assms(2) occupied_live [OF lsq_okD(1)] occupied_less lsq_okD(1) [OF assms(1)] ring_okD(1)
    by (metis lsq_live_def occupied_live)
  have at: "lsq_at idx (lsq_fill idx ?f q) = ?f (lsq_at idx q)"
    "lsq_at idx (lsq_fill idx (\<lambda>e. e\<lparr>le_addrValid := True\<rparr>) (lsq_fill idx ?f q)) =
      (lsq_at idx q)\<lparr>le_addr := a, le_size := n, le_addrValid := True\<rparr>"
    using occ by (simp_all add: lsq_at_def ring_at_put)
  show ?thesis
    using assms(3) lsq_entry_ok [OF assms(1,2)]
    by (intro becomesI [OF assms(1,2)])
      (auto simp: lsq_resolveAddress_def Let_def at entry_ok_def entry_kinds steps in_bucket_def)
qed


subsection \<open>Entering and leaving\<close>

definition entered :: "u64 \<Rightarrow> u32 \<Rightarrow> u32 \<Rightarrow> op \<Rightarrow> u8 \<Rightarrow> u8 \<Rightarrow> bool \<Rightarrow> u32 \<Rightarrow> u16 \<Rightarrow> lsq_entry" where
  "entered seq robIdx pc p pdst preg ready v gen =
     (let e = lsq_entry0\<lparr>le_gen := gen, le_seq := seq, le_robIdx := robIdx, le_pc := pc, le_op := p,
                le_isStore := isStore p, le_pdst := pdst\<rparr>
      in if isStore p
         then (if ready then e\<lparr>le_dataPreg := preg, le_dataReady := ready, le_data := v\<rparr>
               else e\<lparr>le_dataPreg := preg, le_dataReady := ready\<rparr>)
         else e)"

lemma lsq_ok_push:
  assumes "lsq_ok q" "\<not> ring_full (l_ring q)" "entry_ok v" "fst (ring_alloc d (l_ring q)) = idx"
    and "\<not> is_known v"
    and "l_ring q' = ring_put idx v (snd (ring_alloc d (l_ring q)))"
    and "l_genCtr q' = (l_genCtr q)[unat idx := le_gen v]"
    and "l_candidates q' = (if is_candidate v then word_set (unat idx) (l_candidates q) else l_candidates q)"
    and "l_pending q' = (if is_pending v then word_set (unat idx) (l_pending q) else l_pending q)"
    and "l_updates q' = (if is_update v then word_set (unat idx) (l_updates q) else l_updates q)"
    and "l_knownStores q' = l_knownStores q"
    and "l_unknownStores q' = (if is_unknown v then word_set (unat idx) (l_unknownStores q) else l_unknownStores q)"
    and "l_accessedLoads q' = (if is_accessed v then word_set (unat idx) (l_accessedLoads q) else l_accessedLoads q)"
    and "l_pendingLoads q' = (if is_pending v then l_pendingLoads q + 1 else l_pendingLoads q)"
    and "l_unreportedLoads q' = (if is_unreported v then l_unreportedLoads q + 1 else l_unreportedLoads q)"
    and "l_waitingStores q' = (if is_waiting v then l_waitingStores q + 1 else l_waitingStores q)"
    and "l_storeWords q' = l_storeWords q"
  shows "lsq_ok q' \<and> ring_list (l_ring q') = ring_list (l_ring q) @ [v]"
proof -
  note ok = lsq_okD [OF assms(1)]
  note a = ring_alloc_ok [OF ok(1) assms(2), of d]
  note push = tracks_push [OF ok(1) assms(2) _ assms(4), where v = v]
    and cnt = ring_counts_push [OF ok(1) assms(2,4), of v]
  have list: "ring_list (l_ring q') = ring_list (l_ring q) @ [v]"
    using ring_push_ok(2) [OF ok(1) assms(2), of d v] assms(4,6)
    by (simp add: ring_push_def case_prod_beta Let_def)
  have up: "unat (if P v then c + 1 else c :: u32) = ring_counts (l_ring q') P"
    if "unat c = ring_counts (l_ring q) P" for c P
  proof -
    have "ring_counts (l_ring q') P < 4294967296"
      using ring_counts_le [of "l_ring q'" P] unat_less_pow32 [of "r_n (l_ring q')"] by simp
    then show ?thesis using cnt [of P] that assms(6) counter_up [of c] by (cases "P v") simp_all
  qed
  have base: "unat (l_pendingLoads q) = ring_counts (l_ring q) is_pending"
    "unat (l_unreportedLoads q) = ring_counts (l_ring q) is_unreported"
    "unat (l_waitingStores q) = ring_counts (l_ring q) is_waiting"
    "\<forall>e \<in> set (ring_list (l_ring q)). entry_ok e"
    using assms(1) by (simp_all add: lsq_ok_def)
  have buckets: "buckets_ok (l_ring q') (l_storeWords q')"
    using ok(9) cnt assms(5,6,17) by (simp add: buckets_ok_def in_bucket_def)
  have known: "tracks (l_ring q') (l_knownStores q') is_known"
    using push [OF ok(6)] assms(5,6,11) by simp
  have ring: "ring_ok (l_ring q')" using a(1) assms(6) by (simp add: ring_ok_put)
  have idx: "unat idx = slot (l_ring q) (unat (r_n (l_ring q)))" using a(3) assms(4) by simp
  have "r_e (l_ring q') = (r_e (l_ring q))[unat idx := v]" "r_capacity (l_ring q') = r_capacity (l_ring q)"
    using assms(4,6) by (auto simp: ring_alloc_def Let_def ring_put_def)
  moreover have "occupied (l_ring q') i \<longleftrightarrow> i = unat idx \<or> occupied (l_ring q) i" for i
    using occupied_alloc [OF ok(1) assms(2)] idx assms(6) by simp
  moreover have "length (l_genCtr q) = length (r_e (l_ring q))"
    using ok(2) ring_okD(1) [OF ok(1)] by (simp add: gens_ok_def)
  then have "le_gen ((r_e (l_ring q))[unat idx := v] ! i) = (l_genCtr q)[unat idx := le_gen v] ! i"
    if "i = unat idx \<or> le_gen (r_e (l_ring q) ! i) = l_genCtr q ! i" "i < length (l_genCtr q)" for i
    using that by (cases "i = unat idx") simp_all
  ultimately have gens: "gens_ok (l_ring q') (l_genCtr q')"
    using ok(2) assms(7) by (auto simp: gens_ok_def)
  have "lsq_ok q'"
    unfolding lsq_ok_def
    using gens ring known buckets base(4) list assms(3) up [OF base(1)] up [OF base(2)] up [OF base(3)]
      push [OF ok(3)] push [OF ok(4)] push [OF ok(5)] push [OF ok(7)] push [OF ok(8)]
    by (simp add: assms(6,8-16))
  with list show ?thesis by blast
qed

lemma enter_facts:
  assumes "lsq_ok q" "\<not> ring_full (l_ring q)"
    "lsq_enter seq robIdx pc p pdst preg ready v q = (idx, q')"
  shows "lsq_ok q' \<and> \<not> lsq_live idx q \<and> lsq_live idx q' \<and>
    unat idx = slot (l_ring q) (unat (r_n (l_ring q))) \<and>
    l_genCtr q' = (l_genCtr q)[unat idx := l_genCtr q ! unat idx + 1] \<and>
    l_ring q' = ring_put idx (lsq_at idx q') (snd (ring_alloc lsq_entry0 (l_ring q))) \<and>
    (let e = entered seq robIdx pc p pdst preg ready v (l_genCtr q ! unat idx + 1) in
     lsq_at idx q' = e \<and> ring_list (l_ring q') = ring_list (l_ring q) @ [e])"
proof -
  note ok = lsq_okD [OF assms(1)]
  note a = ring_alloc_ok [OF ok(1) assms(2), of lsq_entry0]
  define r where "r = snd (ring_alloc lsq_entry0 (l_ring q))"
  have idx: "fst (ring_alloc lsq_entry0 (l_ring q)) = idx"
    using assms(3) by (simp add: lsq_enter_def lsq_alloc_def Let_def case_prod_beta)
  then have slot: "unat idx = slot (l_ring q) (unat (r_n (l_ring q)))" using a(3) by simp
  define e where "e = entered seq robIdx pc p pdst preg ready v (l_genCtr q ! unat idx + 1)"
  have pair: "ring_alloc lsq_entry0 (l_ring q) = (idx, r)" using idx by (simp add: r_def prod_eq_iff)
  have len: "unat idx < length (r_e r)"
    using slot_less [OF ok(1)] ring_okD(1) [OF ok(1)] slot idx pair
    by (auto simp: ring_alloc_def Let_def ring_put_def)
  have at0: "ring_at r idx = lsq_entry0"
    using pair len by (auto simp: ring_alloc_def Let_def ring_put_def ring_at_def)
  have st: "\<not> isStore p \<or> isStore p" by blast
  have ring: "l_ring q' = ring_put idx e r"
    using assms(3) len
    by (auto simp: lsq_enter_def lsq_alloc_def pair Let_def lsq_setStoreSource_def lsq_at_def
        ring_at_put at0 e_def entered_def lsq_fill_def split: if_splits)
  have fields: "l_genCtr q' = (l_genCtr q)[unat idx := l_genCtr q ! unat idx + 1]"
    "l_candidates q' = l_candidates q" "l_pending q' = l_pending q"
    "l_updates q' = (if isStore p \<and> \<not> ready then word_set (unat idx) (l_updates q) else l_updates q)"
    "l_knownStores q' = l_knownStores q"
    "l_unknownStores q' = (if isStore p then word_set (unat idx) (l_unknownStores q) else l_unknownStores q)"
    "l_accessedLoads q' = l_accessedLoads q" "l_pendingLoads q' = l_pendingLoads q"
    "l_unreportedLoads q' = l_unreportedLoads q"
    "l_waitingStores q' = (if isStore p \<and> \<not> ready then l_waitingStores q + 1 else l_waitingStores q)"
    "l_storeWords q' = l_storeWords q"
    using assms(3)
    by (auto simp: lsq_enter_def lsq_alloc_def pair Let_def lsq_setStoreSource_def split: if_splits)
  have kinds: "entry_ok e" "\<not> is_known e" "\<not> is_candidate e" "\<not> is_pending e"
    "is_update e \<longleftrightarrow> isStore p \<and> \<not> ready" "is_unknown e \<longleftrightarrow> isStore p" "\<not> is_accessed e"
    "\<not> is_unreported e" "is_waiting e \<longleftrightarrow> isStore p \<and> \<not> ready"
    "le_gen e = l_genCtr q ! unat idx + 1"
    by (simp_all add: e_def entered_def lsq_entry0_def entry_ok_def entry_kinds Let_def)
  have main: "lsq_ok q' \<and> ring_list (l_ring q') = ring_list (l_ring q) @ [e]"
    by (rule lsq_ok_push [OF assms(1,2) kinds(1) idx kinds(2)])
      (use ring fields kinds in \<open>simp_all add: r_def\<close>)
  moreover have "lsq_at idx q' = e" using ring len by (simp add: lsq_at_def ring_at_put)
  moreover have "\<not> lsq_live idx q"
    using not_occupied_next [OF ok(1) assms(2)] occupied_live [OF ok(1)] slot by (simp add: lsq_live_def)
  moreover have "lsq_live idx q'"
  proof -
    have "occupied (l_ring q') (unat idx)"
      using occupied_alloc [OF ok(1) assms(2), of lsq_entry0] slot by (simp add: ring r_def)
    then show ?thesis
      using occupied_live [OF lsq_okD(1) [OF conjunct1 [OF main]]] by (simp add: lsq_live_def)
  qed
  ultimately show ?thesis using slot fields(1) ring by (simp add: e_def Let_def r_def)
qed


lemma enter_ok:
  assumes "lsq_ok q" "\<not> ring_full (l_ring q)"
    "lsq_enter seq robIdx pc p pdst preg ready v q = (idx, q')"
  shows "lsq_ok q' \<and> \<not> lsq_live idx q \<and> lsq_live idx q' \<and>
    unat idx = slot (l_ring q) (unat (r_n (l_ring q))) \<and>
    l_genCtr q' = (l_genCtr q)[unat idx := l_genCtr q ! unat idx + 1] \<and>
    (let e = entered seq robIdx pc p pdst preg ready v (l_genCtr q ! unat idx + 1) in
     lsq_at idx q' = e \<and> ring_list (l_ring q') = ring_list (l_ring q) @ [e])"
  using enter_facts [OF assms] unfolding Let_def by blast

lemma enter_ring:
  assumes "lsq_ok q" "\<not> ring_full (l_ring q)"
    "lsq_enter seq robIdx pc p pdst preg ready v q = (idx, q')"
  shows "l_ring q' = ring_put idx (lsq_at idx q') (snd (ring_alloc lsq_entry0 (l_ring q)))"
  using enter_facts [OF assms] unfolding Let_def by blast

lemma remove_fields:
  assumes "lsq_ok q" "lsq_live idx q"
  defines "e \<equiv> lsq_at idx q" and "q' \<equiv> lsq_remove idx q"
  shows "l_candidates q' = word_reset (unat idx) (l_candidates q)"
    "l_pending q' = word_reset (unat idx) (l_pending q)"
    "l_updates q' = word_reset (unat idx) (l_updates q)"
    "l_knownStores q' = word_reset (unat idx) (l_knownStores q)"
    "l_unknownStores q' = word_reset (unat idx) (l_unknownStores q)"
    "l_accessedLoads q' = word_reset (unat idx) (l_accessedLoads q)"
    "l_storeWords q' = (if is_known e then count_store (- 1) e (l_storeWords q) else l_storeWords q)"
    "l_pendingLoads q' = (if is_pending e then l_pendingLoads q - 1 else l_pendingLoads q)"
    "l_unreportedLoads q' = (if is_unreported e then l_unreportedLoads q - 1 else l_unreportedLoads q)"
    "l_waitingStores q' = (if is_waiting e then l_waitingStores q - 1 else l_waitingStores q)"
    "l_ring q' = l_ring q" "l_genCtr q' = l_genCtr q"
  using lsq_entry_ok [OF assms(1,2)]
  by (auto simp: q'_def e_def lsq_remove_def Let_def entry_kinds entry_ok_def)

lemma lsq_ok_pop:
  assumes "lsq_ok q" "lsq_live idx q"
    and "\<And>ws P. tracks (l_ring q) ws P \<Longrightarrow> tracks r (word_reset (unat idx) ws) P"
    and "\<And>P. ring_counts r P + (if P (lsq_at idx q) then 1 else 0) = ring_counts (l_ring q) P"
    and "ring_ok r" "r_capacity r = r_capacity (l_ring q)" "r_e r = r_e (l_ring q)"
      "\<And>i. occupied r i \<Longrightarrow> occupied (l_ring q) i"
    and "set (ring_list r) \<subseteq> set (ring_list (l_ring q))"
  shows "lsq_ok ((lsq_remove idx q)\<lparr>l_ring := r\<rparr>)"
proof -
  note ok = lsq_okD [OF assms(1)] and rem = remove_fields [OF assms(1,2)]
  let ?e = "lsq_at idx q"
  have down: "unat (if P ?e then c - 1 else c :: u32) = ring_counts r P"
    if "unat c = ring_counts (l_ring q) P" for c P
    using assms(4) [of P] that counter_down [of c "ring_counts r P"] by (cases "P ?e") simp_all
  have base: "unat (l_pendingLoads q) = ring_counts (l_ring q) is_pending"
    "unat (l_unreportedLoads q) = ring_counts (l_ring q) is_unreported"
    "unat (l_waitingStores q) = ring_counts (l_ring q) is_waiting"
    "\<forall>e \<in> set (ring_list (l_ring q)). entry_ok e"
    using assms(1) by (simp_all add: lsq_ok_def)
  have "buckets_ok r (if is_known ?e then count_store (- 1) ?e (l_storeWords q) else l_storeWords q)"
    unfolding buckets_ok_def
  proof (intro conjI allI impI)
    show "length (if is_known ?e then count_store (- 1) ?e (l_storeWords q) else l_storeWords q) = 64"
      using ok(9) by (simp add: buckets_ok_def)
    fix b :: nat
    assume b: "b < 64"
    have ws: "length (l_storeWords q) = 64" "unat (l_storeWords q ! b) = ring_counts (l_ring q) (in_bucket b)"
      using ok(9) b by (simp_all add: buckets_ok_def)
    show "unat ((if is_known ?e then count_store (- 1) ?e (l_storeWords q) else l_storeWords q) ! b) =
        ring_counts r (in_bucket b)"
      using down [OF ws(2)] count_store_nth [OF ws(1) b, of "- 1" ?e] by (auto simp: in_bucket_def)
  qed
  moreover have "gens_ok r (l_genCtr q)" using ok(2) assms(6-8) by (simp add: gens_ok_def)
  ultimately show ?thesis
    unfolding lsq_ok_def
    using assms(5,9) base(4) down [OF base(1)] down [OF base(2)] down [OF base(3)]
      assms(3) [OF ok(3)] assms(3) [OF ok(4)] assms(3) [OF ok(5)] assms(3) [OF ok(6)]
      assms(3) [OF ok(7)] assms(3) [OF ok(8)]
    by (auto simp: rem)
qed

lemma popHead_ok:
  assumes "lsq_ok q" "r_n (l_ring q) \<noteq> 0"
  shows "lsq_ok (lsq_popHead q) \<and> ring_list (l_ring (lsq_popHead q)) = tl (ring_list (l_ring q)) \<and>
    l_genCtr (lsq_popHead q) = l_genCtr q"
proof -
  let ?r = "l_ring q"
  note ok = lsq_okD(1) [OF assms(1)]
  note pop = ring_popHead_ok [OF ok assms(2)]
  have n: "0 < unat (r_n ?r)" using assms(2) by (simp add: unat_gt_0)
  have h: "unat (r_headIdx ?r) = slot ?r 0" using ring_okD(2) [OF ok] by (simp add: slot_def)
  have live: "lsq_live (r_headIdx ?r) q"
    using n h by (auto simp: lsq_live_def occupied_live [OF ok] occupied_def)
  have head: "lsq_at (r_headIdx ?r) q = ring_head ?r" by (simp add: lsq_at_def ring_at_def ring_head_def)
  have "lsq_popHead q = (lsq_remove (r_headIdx ?r) q)\<lparr>l_ring := ring_popHead ?r\<rparr>"
    by (simp add: lsq_popHead_def Let_def remove_fields [OF assms(1) live])
  moreover have "lsq_ok \<dots>"
  proof (rule lsq_ok_pop [OF assms(1) live])
    show "set (ring_list (ring_popHead ?r)) \<subseteq> set (ring_list ?r)"
      using pop(2) by (simp add: list.set_sel(2) subsetI) (metis list.set_sel(2) subsetI tl_Nil)
  qed (use tracks_popHead [OF ok assms(2)] ring_counts_popHead [OF ok assms(2)] pop(1) head occupied_popHead [OF ok assms(2)]
        in \<open>simp_all add: ring_popHead_def\<close>)
  ultimately show ?thesis using pop(2) remove_fields [OF assms(1) live] by simp
qed

lemma popTail_ok:
  assumes "lsq_ok q" "r_n (l_ring q) \<noteq> 0"
  shows "lsq_ok (lsq_popTail q) \<and> ring_list (l_ring (lsq_popTail q)) = butlast (ring_list (l_ring q)) \<and>
    l_genCtr (lsq_popTail q) = l_genCtr q"
proof -
  let ?r = "l_ring q"
  let ?t = "ring_indexOf ?r (r_n ?r - 1)"
  note ok = lsq_okD(1) [OF assms(1)]
  note pop = ring_popTail_ok [OF ok assms(2)] and n = ring_pop_count [OF ok assms(2)]
  have t: "unat ?t = slot ?r (unat (r_n ?r) - 1)"
    using ring_indexOf_slot [OF ok, of "r_n ?r - 1"] n ring_okD(3) [OF ok] by simp
  have live: "lsq_live ?t q"
    using n t by (auto simp: lsq_live_def occupied_live [OF ok] occupied_def intro!: exI [of _ "unat (r_n ?r) - 1"])
  have tail: "lsq_at ?t q = ring_tail ?r" by (simp add: lsq_at_def ring_at_def ring_tail_def)
  have "lsq_popTail q = (lsq_remove ?t q)\<lparr>l_ring := ring_popTail ?r\<rparr>"
    by (simp add: lsq_popTail_def Let_def remove_fields [OF assms(1) live])
  moreover have "lsq_ok \<dots>"
  proof (rule lsq_ok_pop [OF assms(1) live])
    show "set (ring_list (ring_popTail ?r)) \<subseteq> set (ring_list ?r)"
      using pop(2) by (auto dest: in_set_butlastD)
  qed (use tracks_popTail [OF ok assms(2)] ring_counts_popTail [OF ok assms(2)] pop(1) tail t occupied_popTail [OF ok assms(2)]
        in \<open>simp_all add: ring_popTail_def\<close>)
  ultimately show ?thesis using pop(2) remove_fields [OF assms(1) live] by simp
qed

lemma lsq_new_ok: "n \<noteq> 0 \<Longrightarrow> lsq_ok (lsq_new n)"
  by (auto simp: lsq_ok_def lsq_new_def Let_def gens_ok_def occupied_def tracks_new buckets_ok_def
      ring_counts_def ring_list_def ring_ok_def) (auto simp: ring_new_def unat_gt_0 word_gt_0)


section \<open>The invariant, as one statement\<close>

lemma lsq_counters:
  assumes "lsq_ok q"
  shows "lsq_hasPendingLoads q \<longleftrightarrow> (\<exists>e \<in> set (ring_list (l_ring q)). is_pending e)"
    and "lsq_needsUpdate q \<longleftrightarrow> (\<exists>e \<in> set (ring_list (l_ring q)). is_update e)"
proof -
  have zero: "c \<noteq> 0 \<longleftrightarrow> (\<exists>e \<in> set (ring_list (l_ring q)). P e)"
    if "unat (c :: u32) = ring_counts (l_ring q) P" for c P
  proof -
    have "c \<noteq> 0 \<longleftrightarrow> ring_counts (l_ring q) P \<noteq> 0" using that by (simp add: unat_eq_zero flip: that)
    then show ?thesis by (auto simp: ring_counts_def filter_empty_conv)
  qed
  have c: "unat (l_pendingLoads q) = ring_counts (l_ring q) is_pending"
    "unat (l_unreportedLoads q) = ring_counts (l_ring q) is_unreported"
    "unat (l_waitingStores q) = ring_counts (l_ring q) is_waiting"
    using assms by (simp_all add: lsq_ok_def)
  show "lsq_hasPendingLoads q \<longleftrightarrow> (\<exists>e \<in> set (ring_list (l_ring q)). is_pending e)"
    using zero [OF c(1)] by (simp add: lsq_hasPendingLoads_def)
  show "lsq_needsUpdate q \<longleftrightarrow> (\<exists>e \<in> set (ring_list (l_ring q)). is_update e)"
    using zero [OF c(2)] zero [OF c(3)] by (auto simp: lsq_needsUpdate_def is_update_def)
qed

text \<open>
  C10. Every state change of the load/store queue keeps the six work sets, the three counters,
  the word-bucket counters and the generations exact: each set holds the slots of precisely the
  live entries it stands for, and no counter wraps.  Each operation changes its own entry and
  no other; the operations are complete for the life of an entry, from entering to being
  retired or squashed.
\<close>

theorem lsq_work_sets:
  assumes "lsq_ok q"
  shows "(lsq_hasPendingLoads q \<longleftrightarrow> (\<exists>e \<in> set (ring_list (l_ring q)). is_pending e)) \<and>
    (lsq_needsUpdate q \<longleftrightarrow> (\<exists>e \<in> set (ring_list (l_ring q)). is_update e)) \<and>
    (\<not> ring_full (l_ring q) \<longrightarrow>
       (let (idx, q') = lsq_enter seq robIdx pc p pdst preg ready v q in
        lsq_ok q' \<and> ring_list (l_ring q') =
          ring_list (l_ring q) @ [entered seq robIdx pc p pdst preg ready v (l_genCtr q ! unat idx + 1)])) \<and>
    (r_n (l_ring q) \<noteq> 0 \<longrightarrow>
       lsq_ok (lsq_popHead q) \<and> ring_list (l_ring (lsq_popHead q)) = tl (ring_list (l_ring q)) \<and>
       lsq_ok (lsq_popTail q) \<and> ring_list (l_ring (lsq_popTail q)) = butlast (ring_list (l_ring q))) \<and>
    (lsq_live i q \<longrightarrow>
       (\<not> le_addrValid (lsq_at i q) \<longrightarrow>
          entry_becomes i ((lsq_at i q)\<lparr>le_addr := a, le_size := n, le_addrValid := True\<rparr>) q
            (lsq_resolveAddress i (lsq_fill i (\<lambda>e. e\<lparr>le_addr := a, le_size := n\<rparr>) q))) \<and>
       (is_candidate (lsq_at i q) \<longrightarrow>
          entry_becomes i ((lsq_at i q)\<lparr>le_issued := True\<rparr>) q (lsq_issueLoad i q)) \<and>
       (is_candidate (lsq_at i q) \<or> is_pending (lsq_at i q) \<longrightarrow>
          entry_becomes i ((lsq_at i q)\<lparr>le_value := v, le_done := True\<rparr>) q (lsq_completeLoad i v q)) \<and>
       (is_unreported (lsq_at i q) \<longrightarrow>
          entry_becomes i ((lsq_at i q)\<lparr>le_reported := True\<rparr>) q (lsq_reportLoad i q)) \<and>
       (is_waiting (lsq_at i q) \<longrightarrow>
          entry_becomes i ((lsq_at i q)\<lparr>le_data := v, le_dataReady := True\<rparr>) q
            (lsq_captureStoreData i v q)))"
proof -
  obtain idx q' where e: "lsq_enter seq robIdx pc p pdst preg ready v q = (idx, q')" by fastforce
  show ?thesis
    using lsq_counters [OF assms] enter_ok [OF assms _ e] popHead_ok [OF assms] popTail_ok [OF assms]
      resolve_ok [OF assms, of i] issueLoad_ok [OF assms, of i] completeLoad_ok [OF assms, of i]
      reportLoad_ok [OF assms, of i] captureStoreData_ok [OF assms, of i]
    unfolding e Let_def prod.case by blast
qed

theorem lsq_work_sets_witness:
  "let (idx, q) = lsq_enter 5 1 0x40 LW 33 0 True 0 (lsq_new 4) in
   lsq_ok q \<and> map le_seq (ring_list (l_ring q)) = [5]"
proof -
  obtain idx q where e: "lsq_enter 5 1 0x40 LW 33 0 True 0 (lsq_new 4) = (idx, q)" by fastforce
  have "\<not> ring_full (l_ring (lsq_new 4))" by (simp add: ring_full_def lsq_new_def Let_def ring_new_def)
  with lsq_work_sets [OF lsq_new_ok [of 4], where seq = 5 and robIdx = 1 and pc = "0x40" and p = LW
      and pdst = 33 and preg = 0 and ready = True and v = 0]
  have "lsq_ok q \<and> ring_list (l_ring q) = ring_list (l_ring (lsq_new 4)) @
      [entered 5 1 0x40 LW 33 0 True 0 (l_genCtr (lsq_new 4) ! unat idx + 1)]"
    by (simp add: e)
  moreover have "ring_list (l_ring (lsq_new 4)) = []"
    by (simp add: ring_list_Nil) (simp add: lsq_new_def Let_def ring_new_def)
  ultimately show ?thesis by (simp add: e entered_def Let_def)
qed

section \<open>Overlap and the store filter\<close>

text \<open>
  When neither access ends at the top of the address space, \<^verbatim>\<open>overlaps\<close> is the intersection of
  the two byte ranges.  The bound is needed: the sums are 32-bit.
\<close>

lemma overlaps_exact:
  assumes "unat a + unat m < 4294967296" "unat b + unat n < 4294967296"
  shows "overlaps a m b n \<longleftrightarrow>
    unat a < unat b + unat n \<and> unat b < unat a + unat m"
  using assms by (auto simp: overlaps_def word_less_nat_alt unat_add_small32)

text \<open>
  With a memory of four gigabytes, which the configuration accepts, a load of the last word
  and a store to one of its bytes do not overlap for \<^verbatim>\<open>overlaps\<close>, although they share a byte:
  the end of the load wraps to zero.
\<close>

theorem overlaps_top_word:
  "\<not> overlaps 0xFFFFFFFD 1 0xFFFFFFFC 4 \<and>
   unat (0xFFFFFFFC :: u32) \<le> unat (0xFFFFFFFD :: u32) \<and>
   unat (0xFFFFFFFD :: u32) < unat (0xFFFFFFFC :: u32) + 4"
  by (simp add: overlaps_def)

lemma unat_ucast_8_32: "unat (ucast (w :: u8) :: u32) = unat w"
proof -
  have "unat w < 256" using unsigned_less [of w] by simp
  then show ?thesis by (simp add: unsigned_ucast_eq take_bit_nat_eq_self)
qed

lemma unat_bucket: "unat (wordBucket a) = (unat a div 4) mod 64"
proof -
  have "wordBucket a = take_bit 6 (drop_bit 2 a)"
    by (simp add: wordBucket_def take_bit_eq_mask mask_eq_exp_minus_1)
  then have "unat (wordBucket a) = take_bit 6 (drop_bit 2 (unat a))"
    by (simp add: unsigned_take_bit_eq unsigned_drop_bit_eq take_bit_nat_eq_self unat_less_pow32)
  then show ?thesis by (simp add: take_bit_eq_mod drop_bit_eq_div)
qed

lemma word_of_range:
  assumes "(a :: nat) < x + m" "m \<le> 4" "x div 4 \<le> a div 4"
  shows "a div 4 = x div 4 \<or> a div 4 = (x + m - 1) div 4"
proof (cases "a div 4 = x div 4")
  case False
  have "a div 4 \<le> (x + m - 1) div 4" using assms(1) by (intro div_le_mono) linarith
  moreover have "x + m - 1 < (x div 4 + 2) * 4"
  proof -
    have "x mod 4 < 4" by simp
    moreover have "x div 4 * 4 + x mod 4 = x" by (rule div_mult_mod_eq)
    moreover define d where "d = x div 4 * 4"
    ultimately have "x + m < d + 8" using assms(2) by linarith
    moreover have "(x div 4 + 2) * 4 = d + 8" by (simp add: d_def)
    ultimately show ?thesis by linarith
  qed
  then have "(x + m - 1) div 4 < x div 4 + 2" by (rule less_mult_imp_div_less)
  ultimately show ?thesis using False assms(3) by linarith
qed simp

text \<open>The word of an aligned access is the word of a store that touches it.\<close>

lemma overlap_word:
  assumes "overlaps x m a n" "unat m \<in> {1, 2, 4}" "unat n \<in> {1, 2, 4}" "unat a mod unat n = 0"
  shows "unat (wordBucket a) = unat (wordBucket x) \<or> unat (wordBucket a) = unat (wordBucket (x + m - 1))"
proof -
  have o: "unat a < unat (x + m)" "unat x < unat (a + n)"
    using assms(1) by (simp_all add: overlaps_def word_less_nat_alt)
  have bounds: "unat x < 4294967296" "unat a < 4294967296" by (simp_all add: unat_less_pow32)
  have n4: "unat a mod 4 + unat n \<le> 4"
  proof -
    have "unat n dvd 4" "unat n dvd unat a" using assms(3,4) by (auto simp: mod_eq_0_iff_dvd)
    then have "unat n dvd unat a mod 4" by (simp add: dvd_mod)
    moreover have "unat a mod 4 < 4" by simp
    ultimately show ?thesis using assms(3) by (auto elim!: dvdE)
  qed
  have an: "unat (a + n) = unat a + unat n"
  proof (rule unat_add_small32, rule ccontr)
    assume "\<not> unat a + unat n < 4294967296"
    moreover have "unat a div 4 \<le> 1073741823" using bounds(2) less_mult_imp_div_less [of "unat a" 1073741824 4] by linarith
    then have "unat a + unat n \<le> 4294967296" using n4 div_mult_mod_eq [of "unat a" 4] by linarith
    ultimately have "unat a + unat n = 4294967296" by linarith
    then have "unat (a + n) = 0" by (simp add: unat_word_ariths)
    with o(2) show False by simp
  qed
  have "unat x \<le> 4 * (unat a div 4) + 3" using o(2) an n4 div_mult_mod_eq [of "unat a" 4] by linarith
  then have xa: "unat x div 4 \<le> unat a div 4" using div_le_mono [of "unat x" _ 4] by fastforce
  have xm: "unat (x + m) \<noteq> 0" using o(1) by simp
  then have m1: "unat (x + m - 1) = unat (x + m) - 1" by (intro unat_pred32) auto
  show ?thesis
  proof (cases "unat x + unat m < 4294967296")
    case True
    then have s: "unat (x + m) = unat x + unat m" by (rule unat_add_small32)
    have "unat m \<le> 4" using assms(2) by auto
    then have "unat a div 4 = unat x div 4 \<or> unat a div 4 = (unat x + unat m - 1) div 4"
      using o(1) xa s by (intro word_of_range) simp_all
    then show ?thesis using m1 s by (auto simp: unat_bucket)
  next
    case False
    have m4: "unat m \<le> 4" using assms(2) by auto
    have "unat (x + m) = (unat x + unat m) mod 4294967296" by (simp add: unat_word_ariths)
    also have "\<dots> = unat x + unat m - 4294967296"
    proof -
      have "unat x + unat m = (unat x + unat m - 4294967296) + 4294967296" using False by linarith
      moreover have "unat x + unat m - 4294967296 < 4294967296" using bounds(1) m4 by linarith
      ultimately show ?thesis by (metis mod_add_self2 mod_less)
    qed
    finally have small: "unat (x + m) \<le> 3" using bounds(1) m4 by linarith
    then have "unat a div 4 = 0" "unat (x + m - 1) div 4 = 0" using o(1) m1 by simp_all
    then show ?thesis by (simp add: unat_bucket)
  qed
qed

text \<open>
  C30. The store filter is sound: when it says that no store may touch the word, no store in
  the queue with a known address overlaps a naturally aligned load at that address, or has its
  address and size; so skipping the forwarding search loses nothing.  This covers misaligned
  stores, which touch two words, and stores that wrap around the end of the address space.
\<close>

theorem store_filter_sound:
  assumes "lsq_ok q" "\<not> lsq_mayStoreToWord a q"
    "e \<in> set (ring_list (l_ring q))" "le_isStore e" "le_addrValid e" "unat (le_size e) \<in> {1, 2, 4}"
    "unat n \<in> {1, 2, 4}" "unat a mod unat n = 0"
  shows "\<not> overlaps (le_addr e) (ucast (le_size e)) a n \<and> le_addr e \<noteq> a"
proof -
  let ?b = "unat (wordBucket a)"
  have "?b < 64" by (simp add: unat_bucket)
  then have "ring_counts (l_ring q) (in_bucket ?b) = 0"
    using lsq_okD(9) [OF assms(1)] assms(2) by (auto simp: buckets_ok_def lsq_mayStoreToWord_def)
  then have "\<not> in_bucket ?b e" using assms(3) by (auto simp: ring_counts_def filter_empty_conv)
  then have ne: "firstBucket e \<noteq> ?b" "lastBucket e \<noteq> ?b"
    using assms(4,5) by (simp_all add: in_bucket_def is_known_def)
  then have "le_addr e \<noteq> a" by (auto simp: firstBucket_def)
  moreover have "unat (ucast (le_size e) :: u32) \<in> {1, 2, 4}" using assms(6) by (simp add: unat_ucast_8_32)
  then have "\<not> overlaps (le_addr e) (ucast (le_size e)) a n"
    using overlap_word [OF _ _ assms(7,8), of "le_addr e" "ucast (le_size e)"] ne
    unfolding firstBucket_def lastBucket_def by metis
  ultimately show ?thesis by blast
qed


lemma isStore_SW: "isStore SW"
  by code_simp

theorem store_filter_sound_witness:
  "\<not> overlaps 0x100 4 0x104 4 \<and> (0x100 :: u32) \<noteq> 0x104"
proof -
  define q0 where "q0 = lsq_new 4"
  obtain idx q1 where e: "lsq_enter 5 1 0x40 SW 0xFF 3 True 9 q0 = (idx, q1)" by fastforce
  have new: "lsq_ok q0" unfolding q0_def by (rule lsq_new_ok) simp
  have "\<not> ring_full (l_ring q0)" by (simp add: q0_def ring_full_def lsq_new_def Let_def ring_new_def)
  note en = enter_ok [OF new this e, unfolded Let_def]
  define q2 where "q2 = lsq_resolveAddress idx (lsq_fill idx (\<lambda>e. e\<lparr>le_addr := 0x100, le_size := 4\<rparr>) q1)"
  have r0: "ring_list (l_ring q0) = []" "r_n (l_ring q0) = 0"
    by (simp_all add: ring_list_Nil) (simp_all add: q0_def lsq_new_def Let_def ring_new_def)
  have e1: "\<not> le_addrValid (lsq_at idx q1)" "le_isStore (lsq_at idx q1)"
    using en by (simp_all add: entered_def lsq_entry0_def Let_def isStore_SW)
  let ?v = "(lsq_at idx q1)\<lparr>le_addr := 0x100, le_size := 4, le_addrValid := True\<rparr>"
  have b: "entry_becomes idx ?v q1 q2"
    unfolding q2_def by (rule resolve_ok) (use en e1 in simp_all)
  have n1: "unat (r_n (l_ring q1)) = 1" using arg_cong [OF conjunct2 [OF conjunct2 [OF conjunct2 [OF conjunct2 [OF conjunct2 [OF conjunct2 [OF en]]]]]], of length] r0
    by simp
  have "unat idx = slot (l_ring q1) 0"
  proof -
    obtain k where "k < unat (r_n (l_ring q1))" "unat idx = slot (l_ring q1) k"
      using en ring_live_slot [OF lsq_okD(1)] by (auto simp: lsq_live_def)
    then show ?thesis using n1 by simp
  qed
  then have "ring_list (l_ring q2) = (ring_list (l_ring q1))[0 := ?v]"
    using b n1 unfolding entry_becomes_def by (metis zero_less_one)
  moreover have "length (ring_list (l_ring q1)) = 1" using n1 by simp
  ultimately have l2: "ring_list (l_ring q2) = [?v]" by (cases "ring_list (l_ring q1)") simp_all
  have ok2: "lsq_ok q2" using b by (simp add: entry_becomes_def)
  have "\<not> lsq_mayStoreToWord 0x104 q2"
  proof -
    have "unat (l_storeWords q2 ! 1) = ring_counts (l_ring q2) (in_bucket 1)"
      using lsq_okD(9) [OF ok2] by (simp add: buckets_ok_def)
    moreover have "\<not> in_bucket 1 ?v"
      by (simp add: in_bucket_def firstBucket_def lastBucket_def wordBucket_def)
    ultimately have "l_storeWords q2 ! 1 = 0" by (simp add: ring_counts_def l2 unat_eq_zero)
    then show ?thesis by (simp add: lsq_mayStoreToWord_def wordBucket_def)
  qed
  from store_filter_sound [OF ok2 this, of ?v 4] show ?thesis using l2 e1 by simp
qed

section \<open>Walks in age order\<close>

lemma lsq_visits:
  assumes "lsq_ok (getq s)"
  shows "own_slot (\<lambda>s. l_candidates (getq s)) (length (l_candidates (getq s))) f \<Longrightarrow>
      lsq_visitCandidates getq f s = snd (walk f (live_slots (l_ring (getq s)) is_candidate) s)"
    and "own_slot (\<lambda>s. l_updates (getq s)) (length (l_updates (getq s))) f \<Longrightarrow>
      lsq_visitUpdates getq f s = snd (walk f (live_slots (l_ring (getq s)) is_update) s)"
    and "own_slot (\<lambda>s. l_accessedLoads (getq s)) (length (l_accessedLoads (getq s))) f \<Longrightarrow>
      lsq_visitAccessedLoads getq f s = snd (walk f (live_slots (l_ring (getq s)) is_accessed) s)"
    and "own_slot (\<lambda>s. l_knownStores (getq s)) (length (l_knownStores (getq s))) f \<Longrightarrow>
      k < unat (r_n (l_ring (getq s))) \<Longrightarrow>
      lsq_visitOlderStores getq (slot (l_ring (getq s)) k) f s =
        snd (walk f (rev (map (slot (l_ring (getq s)))
               (filter (\<lambda>j. is_known (ring_list (l_ring (getq s)) ! j)) [0..<k]))) s)"
  using lsq_okD [OF assms]
  by (simp_all add: lsq_visitCandidates_def lsq_visitUpdates_def lsq_visitAccessedLoads_def
      lsq_visitOlderStores_def lsq_capacity_def lsq_head_def visit_tracking visitOlder_tracking)

lemma lsq_oldest:
  assumes "lsq_ok q" "tracks (l_ring q) (getw q) P"
  shows "lsq_oldestSeq getw q =
    (case filter P (ring_list (l_ring q)) of [] \<Rightarrow> - 1 | e # _ \<Rightarrow> le_seq e)"
proof -
  let ?f = "\<lambda>x seq. (False, le_seq (lsq_at (word_of_nat x) q))"
  note ok = lsq_okD(1) [OF assms(1)]
  have "own_slot (\<lambda>seq. getw q) (length (getw q)) ?f" by (simp add: own_slot_def)
  then have v: "lsq_oldestSeq getw q = snd (walk ?f (live_slots (l_ring q) P) (- 1))"
    using visit_tracking [of "l_ring q" "\<lambda>seq. getw q" "- 1" P ?f] ok assms(2)
    by (simp add: lsq_oldestSeq_def lsq_capacity_def lsq_head_def)
  show ?thesis
  proof (cases "live_slots (l_ring q) P")
    case Nil
    then show ?thesis using v live_slots_entries [of "l_ring q" P] by simp
  next
    case (Cons x xs)
    then have "x < unat (r_capacity (l_ring q))"
      using live_slots_less [OF ok, of x P] by simp
    then have "unat (word_of_nat x :: u32) = x"
      using unat_less_pow32 [of "r_capacity (l_ring q)"] by (intro unat_of_nat_32) simp
    moreover have "filter P (ring_list (l_ring q)) = r_e (l_ring q) ! x # map (\<lambda>x. r_e (l_ring q) ! x) xs"
      using live_slots_entries [of "l_ring q" P] Cons by simp
    ultimately show ?thesis using v Cons by (simp add: lsq_at_def ring_at_def)
  qed
qed

text \<open>
  What the walks of the load/store queue visit: candidates, updates and accessed loads
  oldest first, all of them until the visitor stops, and the known stores older than an entry
  youngest first; also when the visitor takes the entry it is at out of the set.  The oldest
  sequence number of a set is that of the oldest entry in it, or the largest number if there
  is none.
\<close>

theorem lsq_walks:
  assumes "lsq_ok (getq s)"
  shows "(own_slot (\<lambda>s. l_candidates (getq s)) (length (l_candidates (getq s))) f \<longrightarrow>
      lsq_visitCandidates getq f s = snd (walk f (live_slots (l_ring (getq s)) is_candidate) s)) \<and>
    (own_slot (\<lambda>s. l_updates (getq s)) (length (l_updates (getq s))) f \<longrightarrow>
      lsq_visitUpdates getq f s = snd (walk f (live_slots (l_ring (getq s)) is_update) s)) \<and>
    (own_slot (\<lambda>s. l_accessedLoads (getq s)) (length (l_accessedLoads (getq s))) f \<longrightarrow>
      lsq_visitAccessedLoads getq f s = snd (walk f (live_slots (l_ring (getq s)) is_accessed) s)) \<and>
    (own_slot (\<lambda>s. l_knownStores (getq s)) (length (l_knownStores (getq s))) f \<and>
      k < unat (r_n (l_ring (getq s))) \<longrightarrow>
      lsq_visitOlderStores getq (slot (l_ring (getq s)) k) f s =
        snd (walk f (rev (map (slot (l_ring (getq s)))
               (filter (\<lambda>j. is_known (ring_list (l_ring (getq s)) ! j)) [0..<k]))) s)) \<and>
    lsq_oldestUnknownStore (getq s) =
      (case filter is_unknown (ring_list (l_ring (getq s))) of [] \<Rightarrow> - 1 | e # _ \<Rightarrow> le_seq e) \<and>
    lsq_oldestPendingLoad (getq s) =
      (case filter is_pending (ring_list (l_ring (getq s))) of [] \<Rightarrow> - 1 | e # _ \<Rightarrow> le_seq e)"
  unfolding lsq_oldestUnknownStore_def lsq_oldestPendingLoad_def
  using lsq_visits [of getq s, OF assms] lsq_oldest [of "getq s" l_unknownStores, OF assms lsq_okD(7) [OF assms]]
    lsq_oldest [of "getq s" l_pending, OF assms lsq_okD(4) [OF assms]]
  by blast

theorem lsq_walks_witness:
  "lsq_oldestUnknownStore (snd (lsq_enter 5 1 0x40 SW 0xFF 3 True 9 (lsq_new 4))) = 5 \<and>
   lsq_oldestPendingLoad (lsq_new 4) = - 1"
proof -
  obtain idx q where e: "lsq_enter 5 1 0x40 SW 0xFF 3 True 9 (lsq_new 4) = (idx, q)" by fastforce
  have new: "lsq_ok (lsq_new 4)" by (rule lsq_new_ok) simp
  have nf: "\<not> ring_full (l_ring (lsq_new 4))" by (simp add: ring_full_def lsq_new_def Let_def ring_new_def)
  have r0: "ring_list (l_ring (lsq_new 4)) = []"
    by (simp add: ring_list_Nil) (simp add: lsq_new_def Let_def ring_new_def)
  note en = enter_ok [OF new nf e, unfolded Let_def]
  have "lsq_oldestUnknownStore q = 5"
    using lsq_walks [of "\<lambda>_. q" "()"] en r0
    by (simp add: entered_def lsq_entry0_def is_unknown_def Let_def isStore_SW)
  moreover have "lsq_oldestPendingLoad (lsq_new 4) = - 1"
    using lsq_walks [of "\<lambda>_. lsq_new 4" "()"] new r0 by simp
  ultimately show ?thesis by (simp add: e)
qed

end
