(* ===== verification/Mem_Response.thy ===== *)
theory Mem_Response
  imports Lsq
begin

text \<open>
  What \<^verbatim>\<open>core/ooo.cpp\<close> does with the data port's answers: the tags of loads and stores, the
  matching of an answer to the queue entry that asked for it, and the store buffer's life cycle
  of push, issue, acknowledge and pop.
\<close>

section \<open>Tags\<close>

text \<open>The bit \<^verbatim>\<open>1ull << 63\<close> that marks a store.\<close>

definition store_bit :: u64 where
  "store_bit = push_bit 63 1"

definition store_tag :: "u32 \<Rightarrow> u32 \<Rightarrow> u64" where
  "store_tag i txn = store_bit OR push_bit 32 (ucast i) OR ucast txn"

definition load_tag :: "u32 \<Rightarrow> u16 \<Rightarrow> u64" where
  "load_tag i gen = push_bit 16 (ucast i) OR ucast gen"

definition is_store_tag :: "u64 \<Rightarrow> bool" where
  "is_store_tag t \<longleftrightarrow> t AND store_bit \<noteq> 0"

definition ack_txn :: "u64 \<Rightarrow> u32" where
  "ack_txn t = ucast t"

definition ack_slot :: "u64 \<Rightarrow> u32" where
  "ack_slot t = ucast (drop_bit 32 (t AND NOT store_bit))"

definition tag_slot :: "u64 \<Rightarrow> u32" where
  "tag_slot t = ucast (drop_bit 16 t)"

definition tag_gen :: "u64 \<Rightarrow> u16" where
  "tag_gen t = ucast t"

lemma bit_store_bit [bit_simps]: "bit store_bit n \<longleftrightarrow> n = 63"
  unfolding store_bit_def by (simp only: bit_simps) auto

lemma is_store_tag_bit: "is_store_tag t \<longleftrightarrow> bit t 63"
proof -
  have "t AND store_bit = (if bit t 63 then store_bit else 0)"
    by (rule bit_word_eqI) (auto simp: bit_simps)
  moreover have "store_bit \<noteq> 0" using bit_store_bit [of 63] by auto
  ultimately show ?thesis by (simp add: is_store_tag_def)
qed

lemma load_tag_codec:
  "\<not> is_store_tag (load_tag i gen)" "tag_slot (load_tag i gen) = i" "tag_gen (load_tag i gen) = gen"
proof -
  show "\<not> is_store_tag (load_tag i gen)"
    unfolding is_store_tag_bit by (auto simp: load_tag_def bit_simps dest: bit_imp_le_length)
  show "tag_slot (load_tag i gen) = i"
    by (rule bit_word_eqI) (auto simp: tag_slot_def load_tag_def bit_simps dest: bit_imp_le_length)
  show "tag_gen (load_tag i gen) = gen"
    by (rule bit_word_eqI) (auto simp: tag_gen_def load_tag_def bit_simps)
qed

lemma store_tag_codec:
  "is_store_tag (store_tag i txn)" "ack_txn (store_tag i txn) = txn"
  "i < 0x80000000 \<Longrightarrow> ack_slot (store_tag i txn) = i"
proof -
  show "is_store_tag (store_tag i txn)"
    unfolding is_store_tag_bit by (simp add: store_tag_def bit_simps)
  show "ack_txn (store_tag i txn) = txn"
    by (rule bit_word_eqI) (auto simp: ack_txn_def store_tag_def bit_simps)
  assume i: "i < 0x80000000"
  have top: "\<not> bit i 31"
  proof
    assume "bit i 31"
    then have "bit (unat i) 31" by (simp add: bit_unsigned_iff)
    then have "odd (unat i div 2 ^ 31)" unfolding bit_iff_odd .
    moreover have "unat i < 2 ^ 31" using i by (simp add: word_less_nat_alt)
    then have "unat i div 2 ^ 31 = 0" by (rule div_less)
    ultimately show False by (metis even_zero)
  qed
  show "ack_slot (store_tag i txn) = i"
  proof (rule bit_word_eqI)
    fix n
    assume n: "n < LENGTH(32)"
    have "n = 31 \<or> n < 31" using n by auto
    then show "bit (ack_slot (store_tag i txn)) n = bit i n"
      using top by (auto simp: ack_slot_def store_tag_def bit_simps dest: bit_imp_le_length)
  qed
qed

section \<open>Load answers\<close>

definition lsq_respond :: "u64 \<Rightarrow> u32 \<Rightarrow> lsq \<Rightarrow> lsq" where
  "lsq_respond tag data q =
     (let idx = tag_slot tag; gen = tag_gen tag in
      if \<not> ring_live (l_ring q) idx then q
      else let le = lsq_at idx q in
        if le_isStore le \<or> \<not> le_issued le \<or> le_done le \<or> le_gen le \<noteq> gen then q
        else lsq_completeLoad idx (extendLoad (le_op le) data) q)"

text \<open>
  The operations of the core on the queue, other than entering: each under the condition the
  core calls it with.
\<close>

inductive lsq_step :: "lsq \<Rightarrow> lsq \<Rightarrow> bool" where
  resolve: "lsq_live i q \<Longrightarrow> \<not> le_addrValid (lsq_at i q) \<Longrightarrow>
    lsq_step q (lsq_resolveAddress i (lsq_fill i (\<lambda>e. e\<lparr>le_addr := a, le_size := n\<rparr>) q))"
| issue: "lsq_live i q \<Longrightarrow> is_candidate (lsq_at i q) \<Longrightarrow> lsq_step q (lsq_issueLoad i q)"
| complete: "lsq_live i q \<Longrightarrow> is_candidate (lsq_at i q) \<or> is_pending (lsq_at i q) \<Longrightarrow>
    lsq_step q (lsq_completeLoad i v q)"
| report: "lsq_live i q \<Longrightarrow> is_unreported (lsq_at i q) \<Longrightarrow> lsq_step q (lsq_reportLoad i q)"
| capture: "lsq_live i q \<Longrightarrow> is_waiting (lsq_at i q) \<Longrightarrow> lsq_step q (lsq_captureStoreData i v q)"
| retire: "r_n (l_ring q) \<noteq> 0 \<Longrightarrow> lsq_step q (lsq_popHead q)"
| squash: "r_n (l_ring q) \<noteq> 0 \<Longrightarrow> lsq_step q (lsq_popTail q)"

text \<open>A run of the queue in which \<open>n\<close> operations enter at the slot \<open>idx\<close>.\<close>

inductive lsq_run :: "u32 \<Rightarrow> nat \<Rightarrow> lsq \<Rightarrow> lsq \<Rightarrow> bool" for idx where
  start: "lsq_run idx 0 q q"
| step: "lsq_run idx n q q' \<Longrightarrow> lsq_step q' q'' \<Longrightarrow> lsq_run idx n q q''"
| enter: "lsq_run idx n q q' \<Longrightarrow> \<not> ring_full (l_ring q') \<Longrightarrow>
    lsq_enter seq robIdx pc p pdst preg ready v q' = (i, q'') \<Longrightarrow>
    lsq_run idx (if i = idx then Suc n else n) q q''"

inductive_cases lsq_stepE: "lsq_step q q'"

lemma lsq_live_occupied: "lsq_ok q \<Longrightarrow> lsq_live i q \<longleftrightarrow> occupied (l_ring q) (unat i)"
  using occupied_live [OF lsq_okD(1)] by (simp add: lsq_live_def)

lemma live_gen: "lsq_ok q \<Longrightarrow> lsq_live i q \<Longrightarrow> le_gen (lsq_at i q) = l_genCtr q ! unat i"
  using lsq_okD(1,2) [of q] occupied_less [of "l_ring q"]
  by (auto simp: lsq_live_occupied gens_ok_def lsq_at_def ring_at_def)

text \<open>Between two entries into a slot, whoever lives there is the same operation.\<close>

definition same_op :: "u32 \<Rightarrow> lsq \<Rightarrow> lsq \<Rightarrow> bool" where
  "same_op i q q' \<longleftrightarrow> (lsq_live i q' \<longrightarrow> lsq_live i q \<and> le_seq (lsq_at i q') = le_seq (lsq_at i q))"

lemma put_same_op:
  assumes "lsq_ok q" "lsq_live j q" "entry_becomes j v q q'" "le_seq v = le_seq (lsq_at j q)"
    and "l_ring q' = ring_put j v (l_ring q)"
  shows "same_op i q q'"
proof -
  have "lsq_live i q' = lsq_live i q" using assms(3) by (simp add: entry_becomes_def)
  moreover have "unat i = unat j \<longleftrightarrow> i = j" by (simp add: word_unat_eq_iff)
  then have "lsq_at i q' = (if i = j then v else lsq_at i q)"
    using assms(5) occupied_less [OF lsq_okD(1) [OF assms(1)], of "unat j"] assms(2)
      lsq_live_occupied [OF assms(1)] ring_okD(1) [OF lsq_okD(1) [OF assms(1)]]
    by (auto simp: lsq_at_def ring_at_def ring_put_def)
  ultimately show ?thesis using assms(2,4) by (auto simp: same_op_def)
qed

lemma step_ok:
  assumes "lsq_step q q'" "lsq_ok q"
  shows "lsq_ok q' \<and> l_genCtr q' = l_genCtr q \<and> same_op i q q'"
  using assms(1)
proof (cases rule: lsq_step.cases)
  case (resolve j n a)
  note b = resolve_ok [OF assms(2) resolve(2,3), where a = a and n = n]
  have "l_genCtr q' = l_genCtr q" using resolve(1) by (simp add: lsq_resolveAddress_def Let_def)
  moreover have "unat j < length (r_e (l_ring q))"
    using resolve(2) occupied_less [OF lsq_okD(1) [OF assms(2)]] lsq_live_occupied [OF assms(2)]
      ring_okD(1) [OF lsq_okD(1) [OF assms(2)]] by simp
  then have "l_ring q' = ring_put j ((lsq_at j q)\<lparr>le_addr := a, le_size := n, le_addrValid := True\<rparr>) (l_ring q)"
    using resolve(1) by (simp add: lsq_resolveAddress_def Let_def lsq_at_def ring_at_put)
  then have "same_op i q q'"
    using put_same_op [OF assms(2) resolve(2) b] resolve(1) by simp
  ultimately show ?thesis using b resolve(1) by (simp add: entry_becomes_def)
next
  case (issue j)
  note b = issueLoad_ok [OF assms(2) issue(2,3)]
  show ?thesis using b put_same_op [OF assms(2) issue(2) b] issue(1)
    by (simp add: entry_becomes_def lsq_issueLoad_def)
next
  case (complete j v)
  note b = completeLoad_ok [OF assms(2) complete(2,3), of v]
  show ?thesis using b put_same_op [OF assms(2) complete(2) b] complete(1)
    by (simp add: entry_becomes_def lsq_completeLoad_def)
next
  case (report j)
  note b = reportLoad_ok [OF assms(2) report(2,3)]
  show ?thesis using b put_same_op [OF assms(2) report(2) b] report(1)
    by (simp add: entry_becomes_def lsq_reportLoad_def)
next
  case (capture j v)
  note b = captureStoreData_ok [OF assms(2) capture(2,3), of v]
  show ?thesis using b put_same_op [OF assms(2) capture(2) b] capture(1)
    by (simp add: entry_becomes_def lsq_captureStoreData_def)
next
  case retire
  note p = popHead_ok [OF assms(2) retire(2)] and ok = lsq_okD(1) [OF assms(2)]
  have r: "l_ring (lsq_popHead q) = ring_popHead (l_ring q)"
    by (simp add: lsq_popHead_def Let_def lsq_remove_def)
  have "same_op i q (lsq_popHead q)"
    using p lsq_live_occupied [of "lsq_popHead q" i] lsq_live_occupied [OF assms(2), of i]
      occupied_popHead [OF ok retire(2)]
    by (simp add: same_op_def r lsq_at_def ring_at_def) (simp add: ring_popHead_def)
  then show ?thesis using p retire(1) by simp
next
  case squash
  note p = popTail_ok [OF assms(2) squash(2)] and ok = lsq_okD(1) [OF assms(2)]
  have r: "l_ring (lsq_popTail q) = ring_popTail (l_ring q)"
    by (simp add: lsq_popTail_def Let_def lsq_remove_def)
  have "same_op i q (lsq_popTail q)"
    using p lsq_live_occupied [of "lsq_popTail q" i] lsq_live_occupied [OF assms(2), of i]
      occupied_popTail [OF ok squash(2)]
    by (simp add: same_op_def r lsq_at_def ring_at_def) (simp add: ring_popTail_def)
  then show ?thesis using p squash(1) by simp
qed

lemma enter_other:
  assumes "lsq_ok q" "\<not> ring_full (l_ring q)" "i \<noteq> idx"
    "lsq_enter seq robIdx pc p pdst preg ready v q = (i, q')"
  shows "same_op idx q q'"
proof -
  note en = enter_ok [OF assms(1,2,4), unfolded Let_def] and ok = lsq_okD(1) [OF assms(1)]
  have ring: "l_ring q' = ring_put i (lsq_at i q') (snd (ring_alloc lsq_entry0 (l_ring q)))" by (rule enter_ring [OF assms(1,2,4)])
  have ne: "unat idx \<noteq> unat i" using assms(3) by (simp add: word_unat_eq_iff)
  have "lsq_live idx q' = lsq_live idx q"
    using en ne occupied_alloc [OF ok assms(2), of lsq_entry0 "unat idx"]
      lsq_live_occupied [of q' idx] lsq_live_occupied [OF assms(1), of idx]
      arg_cong [OF ring, of "\<lambda>r. occupied r (unat idx)"]
    by simp
  moreover have "lsq_at idx q' = lsq_at idx q"
  proof -
    have "unat (fst (ring_alloc lsq_entry0 (l_ring q))) = unat i"
      using ring_alloc_ok(3) [OF ok assms(2), of lsq_entry0] en by simp
    then have "r_e (snd (ring_alloc lsq_entry0 (l_ring q))) = (r_e (l_ring q))[unat i := lsq_entry0]"
      by (simp add: ring_alloc_def Let_def ring_put_def)
    moreover have "r_e (l_ring q') = (r_e (snd (ring_alloc lsq_entry0 (l_ring q))))[unat i := lsq_at i q']"
      using arg_cong [OF ring, of r_e] by (simp add: ring_put_def)
    ultimately have "r_e (l_ring q') ! unat idx = r_e (l_ring q) ! unat idx"
      using ne by (metis nth_list_update_neq)
    then show ?thesis by (simp add: lsq_at_def ring_at_def)
  qed
  ultimately show ?thesis by (simp add: same_op_def)
qed

lemma run_ok:
  assumes "lsq_run idx n q q'" "lsq_ok q" "unat idx < lsq_capacity q"
  shows "lsq_ok q' \<and> lsq_capacity q' = lsq_capacity q \<and>
    l_genCtr q' ! unat idx = l_genCtr q ! unat idx + word_of_nat n \<and> (n = 0 \<longrightarrow> same_op idx q q')"
  using assms
proof (induction rule: lsq_run.induct)
  case (start q)
  then show ?case by (simp add: same_op_def)
next
  case (step n q q' q'')
  note IH = step.IH [OF step.prems]
  note s = step_ok [OF step.hyps(2) conjunct1 [OF IH], of idx]
  have "lsq_capacity q'' = lsq_capacity q'"
    using s IH lsq_okD(2) [of q'] lsq_okD(2) [of q''] by (simp add: gens_ok_def lsq_capacity_def)
  then show ?case using s IH by (auto simp: same_op_def)
next
  case (enter n q q' seq robIdx pc p pdst preg ready v i q'')
  note IH = enter.IH [OF enter.prems]
  note ok = conjunct1 [OF IH]
  note en = enter_ok [OF ok enter.hyps(2,3)]
  have len: "length (l_genCtr q') = lsq_capacity q'" "length (l_genCtr q'') = lsq_capacity q''"
    using ok en lsq_okD(2) [of q'] lsq_okD(2) [of q''] by (simp_all add: gens_ok_def lsq_capacity_def)
  have cap: "lsq_capacity q'' = lsq_capacity q'" using len en by simp
  have gen: "l_genCtr q'' ! unat idx = l_genCtr q ! unat idx + word_of_nat (if i = idx then Suc n else n)"
    using en IH enter.prems(2) len by (auto simp: nth_list_update word_unat_eq_iff [of i idx] add.assoc)
  have "same_op idx q q''" if "(if i = idx then Suc n else n) = 0"
  proof -
    have "i \<noteq> idx" "n = 0" using that by (auto split: if_splits)
    then show ?thesis
      using enter_other [OF ok enter.hyps(2) _ enter.hyps(3)] IH by (auto simp: same_op_def)
  qed
  then show ?case using en gen cap IH by simp
qed

text \<open>
  C11. An answer of the data port reaches the load that asked and nobody else.  A load is
  issued under the tag of its slot and generation; after any run of the queue in which fewer
  than 65536 operations entered at that slot, the answer leaves the queue unchanged if the slot
  was reused even once, and if it was not, it completes exactly that load, or is dropped because
  the load is gone or already has its value.
\<close>

theorem response_matches:
  assumes "lsq_ok q" "lsq_live idx q" "lsq_run idx n q q'" "n < 65536"
  shows "(0 < n \<longrightarrow> lsq_respond (load_tag idx (le_gen (lsq_at idx q))) data q' = q') \<and>
    (n = 0 \<longrightarrow> lsq_respond (load_tag idx (le_gen (lsq_at idx q))) data q' =
       (if lsq_live idx q' \<and> is_pending (lsq_at idx q')
        then lsq_completeLoad idx (extendLoad (le_op (lsq_at idx q')) data) q' else q')) \<and>
    (n = 0 \<and> lsq_live idx q' \<longrightarrow> le_seq (lsq_at idx q') = le_seq (lsq_at idx q))"
proof -
  have "unat idx < lsq_capacity q"
    using assms(1,2) occupied_less [OF lsq_okD(1)] by (auto simp: lsq_live_occupied lsq_capacity_def)
  note run = run_ok [OF assms(3,1) this]
  have gen: "le_gen (lsq_at idx q') = le_gen (lsq_at idx q) + word_of_nat n" if "lsq_live idx q'"
    using live_gen [OF assms(1,2)] live_gen [of q' idx] run that by simp
  have ne: "(word_of_nat n :: u16) \<noteq> 0" if "0 < n"
    using that assms(4) by (simp add: word_of_nat_eq_0_iff nat_dvd_not_less)
  show ?thesis
    using gen ne run
    by (auto simp: lsq_respond_def load_tag_codec Let_def is_pending_def lsq_live_def [symmetric] same_op_def)
qed


theorem response_matches_witness:
  "\<exists>q q' idx. lsq_live idx q \<and> lsq_run idx 1 q q' \<and> lsq_live idx q' \<and>
     lsq_respond (load_tag idx (le_gen (lsq_at idx q))) 7 q' = q'"
proof -
  define q0 where "q0 = lsq_new 1"
  have new: "lsq_ok q0" unfolding q0_def by (rule lsq_new_ok) simp
  have f0: "\<not> ring_full (l_ring q0)" "ring_list (l_ring q0) = []"
    by (simp_all add: ring_full_def ring_list_Nil) (simp_all add: q0_def lsq_new_def Let_def ring_new_def)
  obtain i q1 where e1: "lsq_enter 5 1 0x40 LW 33 0 True 0 q0 = (i, q1)" by fastforce
  note en1 = enter_ok [OF new f0(1) e1, unfolded Let_def]
  define q2 where "q2 = lsq_popTail q1"
  have n1: "r_n (l_ring q1) \<noteq> 0" using en1 ring_list_Nil [of "l_ring q1"] by auto
  note pop = popTail_ok [OF conjunct1 [OF en1] n1]
  have l2: "ring_list (l_ring q2) = []" using pop en1 f0 by (simp add: q2_def)
  have ok2: "lsq_ok q2" using pop by (simp add: q2_def)
  have "r_n (l_ring q2) = 0" using l2 by (simp add: ring_list_Nil)
  moreover have "r_capacity (l_ring q2) \<noteq> 0" using ring_okD(4) [OF lsq_okD(1) [OF ok2]] by auto
  ultimately have f2: "\<not> ring_full (l_ring q2)" by (auto simp: ring_full_def)
  obtain j q3 where e3: "lsq_enter 6 2 0x80 LW 34 0 True 0 q2 = (j, q3)" by fastforce
  note en3 = enter_ok [OF ok2 f2 e3, unfolded Let_def]
  have cap0: "r_capacity (l_ring q0) = 1" by (simp add: q0_def lsq_new_def Let_def ring_new_def)
  have "length (l_genCtr q2) = length (l_genCtr q0)" using en1 pop by (simp add: q2_def)
  then have cap: "unat (r_capacity (l_ring q2)) = 1"
    using cap0 lsq_okD(2) [OF ok2] lsq_okD(2) [OF new] by (simp add: gens_ok_def)
  have "unat j < 1" using slot_less [OF lsq_okD(1) [OF ok2]] en3 cap by metis
  moreover have "unat i < 1"
    using slot_less [OF lsq_okD(1) [OF new]] en1 cap0 by (metis unat_1)
  ultimately have j: "j = i" by (simp add: word_unat_eq_iff)
  have "lsq_run i 0 q1 q2" unfolding q2_def by (rule lsq_run.step [OF lsq_run.start lsq_step.squash [OF n1]])
  from lsq_run.enter [OF this f2 e3] have run: "lsq_run i 1 q1 q3" by (simp add: j)
  from response_matches [OF _ _ run, of 7]
  have "lsq_respond (load_tag i (le_gen (lsq_at i q1))) 7 q3 = q3" using en1 by simp
  then show ?thesis using run en1 en3 j by blast
qed

section \<open>The store buffer's life cycle\<close>

definition sb_push :: "u32 \<Rightarrow> u8 \<Rightarrow> u32 \<Rightarrow> store_buffer \<Rightarrow> store_buffer" where
  "sb_push a n d b = b\<lparr>sb_ring := ring_push sb_entry0
     (sb_entry0\<lparr>se_addr := a, se_size := n, se_data := d\<rparr>) (sb_ring b)\<rparr>"

text \<open>Sending the next store: the tag of the request, and the buffer with the store issued.\<close>

definition sb_send :: "u32 \<Rightarrow> store_buffer \<Rightarrow> u64 \<times> store_buffer" where
  "sb_send ctr b =
     (store_tag (sb_nextIssueSlot b) ctr,
      sb_issue (sb_fill (sb_nextIssueSlot b) (\<lambda>e. e\<lparr>se_txn := ctr\<rparr>) b))"

definition sb_ack :: "u64 \<Rightarrow> store_buffer \<Rightarrow> store_buffer" where
  "sb_ack tag b =
     (let txn = ack_txn tag; i = ack_slot tag in
      if ring_live (sb_ring b) i
      then let st = ring_at (sb_ring b) i in
           if se_inflight st \<and> \<not> se_acked st \<and> se_txn st = txn
           then sb_fill i (\<lambda>e. e\<lparr>se_acked := True\<rparr>) b else b
      else b)"

text \<open>The loop that pops acknowledged stores from the head.\<close>

function sb_drain :: "store_buffer \<Rightarrow> store_buffer" where
  "sb_drain b =
     (if \<not> ring_empty (sb_ring b) \<and> se_acked (ring_head (sb_ring b)) then sb_drain (sb_popHead b) else b)"
  by pat_completeness auto
termination
proof (relation "measure (\<lambda>b. unat (r_n (sb_ring b)))", goal_cases)
  case 1
  then show ?case by simp
next
  case (2 b)
  then have "r_n (sb_ring b) \<noteq> 0" by (simp add: ring_empty_def)
  then show ?case using unat_pred32 word_neq_0_less [of "r_n (sb_ring b)"]
    by (simp add: sb_popHead_def ring_popHead_def)
qed

declare sb_drain.simps [simp del]

definition sb_ok :: "store_buffer \<Rightarrow> bool" where
  "sb_ok b \<longleftrightarrow> ring_ok (sb_ring b) \<and> sb_issued b \<le> r_n (sb_ring b) \<and>
     (\<forall>k < unat (r_n (sb_ring b)).
        (se_inflight (ring_list (sb_ring b) ! k) \<longleftrightarrow> k < unat (sb_issued b)) \<and>
        (se_acked (ring_list (sb_ring b) ! k) \<longrightarrow> k < unat (sb_issued b)))"

abbreviation sb_list :: "store_buffer \<Rightarrow> sb_entry list" where
  "sb_list b \<equiv> ring_list (sb_ring b)"

lemma sb_new_ok: "n \<noteq> 0 \<Longrightarrow> sb_ok (sb_new n)"
  by (simp add: sb_ok_def sb_new_def ring_ok_def ring_new_def word_gt_0)

lemma sb_push_ok:
  assumes "sb_ok b" "\<not> ring_full (sb_ring b)"
  shows "sb_ok (sb_push a n d b) \<and>
    sb_list (sb_push a n d b) = sb_list b @ [sb_entry0\<lparr>se_addr := a, se_size := n, se_data := d\<rparr>]"
proof -
  have ok: "ring_ok (sb_ring b)" using assms(1) by (simp add: sb_ok_def)
  let ?v = "sb_entry0\<lparr>se_addr := a, se_size := n, se_data := d\<rparr>"
  note p = ring_push_ok [OF ok assms(2), of sb_entry0 ?v]
  have len: "unat (r_n (ring_push sb_entry0 ?v (sb_ring b))) = Suc (unat (r_n (sb_ring b)))"
    using arg_cong [OF p(2), of length] by simp
  have v: "\<not> se_inflight ?v" "\<not> se_acked ?v" by (simp_all add: sb_entry0_def)
  have "sb_issued b \<le> r_n (ring_push sb_entry0 ?v (sb_ring b))"
    using assms(1) len by (simp add: sb_ok_def word_le_nat_alt)
  then show ?thesis
    using assms(1) p len v
    by (auto simp: sb_ok_def sb_push_def nth_append less_Suc_eq word_le_nat_alt)
qed

lemma sb_next:
  assumes "sb_ok b"
  shows "sb_nextToIssue b = (if \<forall>e \<in> set (sb_list b). se_inflight e then None else Some (sb_nextIssueSlot b))"
    and "sb_issued b < r_n (sb_ring b) \<longleftrightarrow> \<not> (\<forall>e \<in> set (sb_list b). se_inflight e)"
proof -
  show i: "sb_issued b < r_n (sb_ring b) \<longleftrightarrow> \<not> (\<forall>e \<in> set (sb_list b). se_inflight e)"
    using assms by (auto simp: sb_ok_def word_less_nat_alt in_set_conv_nth)
      (metis length_ring_list nth_mem less_irrefl linorder_not_less le_less_trans)+
  show "sb_nextToIssue b = (if \<forall>e \<in> set (sb_list b). se_inflight e then None else Some (sb_nextIssueSlot b))"
    using i by (auto simp: sb_nextToIssue_def sb_nextIssueSlot_def ring_count_def)
qed

lemma sb_fill_list:
  assumes "ring_ok (sb_ring b)" "k < unat (r_n (sb_ring b))" "unat i = slot (sb_ring b) k"
  shows "sb_list (sb_fill i f b) = (sb_list b)[k := f (sb_list b ! k)]" "ring_ok (sb_ring (sb_fill i f b))"
    "sb_issued (sb_fill i f b) = sb_issued b" "r_n (sb_ring (sb_fill i f b)) = r_n (sb_ring b)"
    "slot (sb_ring (sb_fill i f b)) = slot (sb_ring b)"
    "ring_indexOf (sb_ring (sb_fill i f b)) = ring_indexOf (sb_ring b)"
  using ring_list_put [OF assms] ring_at_list [OF assms(3,2)] ring_ok_put [OF assms(1)]
  by (simp_all add: sb_fill_def) (simp add: ring_indexOf_def fun_eq_iff Let_def)

lemma sb_send_ok:
  assumes "sb_ok b" "sb_issued b < r_n (sb_ring b)"
  shows "sb_ok (snd (sb_send ctr b)) \<and> unat (sb_issued (snd (sb_send ctr b))) = Suc (unat (sb_issued b)) \<and>
    sb_list (snd (sb_send ctr b)) = (sb_list b)[unat (sb_issued b) :=
      (sb_list b ! unat (sb_issued b))\<lparr>se_txn := ctr, se_inflight := True\<rparr>]"
proof -
  have ok: "ring_ok (sb_ring b)" using assms(1) by (simp add: sb_ok_def)
  let ?k = "unat (sb_issued b)"
  have k: "?k < unat (r_n (sb_ring b))" using assms(2) by (simp add: word_less_nat_alt)
  have i: "unat (ring_indexOf (sb_ring b) (sb_issued b)) = slot (sb_ring b) ?k"
    using ring_indexOf_slot [OF ok] k ring_okD(3) [OF ok] by simp
  define b1 where "b1 = sb_fill (sb_nextIssueSlot b) (\<lambda>e. e\<lparr>se_txn := ctr\<rparr>) b"
  note f1 = sb_fill_list [OF ok k i, of "\<lambda>e. e\<lparr>se_txn := ctr\<rparr>", folded sb_nextIssueSlot_def, folded b1_def]
  have i1: "unat (ring_indexOf (sb_ring b1) (sb_issued b1)) = slot (sb_ring b1) ?k" using f1 i by simp
  have k1: "?k < unat (r_n (sb_ring b1))" using f1 k by simp
  note f2 = sb_fill_list [OF f1(2) k1 i1, of "\<lambda>e. e\<lparr>se_inflight := True\<rparr>"]
  have s: "snd (sb_send ctr b) =
      (sb_fill (ring_indexOf (sb_ring b1) (sb_issued b1)) (\<lambda>e. e\<lparr>se_inflight := True\<rparr>) b1)
        \<lparr>sb_issued := sb_issued b + 1\<rparr>"
    using f1 by (simp add: sb_send_def sb_issue_def b1_def)
  have n: "unat (sb_issued b + 1) = Suc ?k"
    using k unat_less_pow32 [of "r_n (sb_ring b)"] by (intro unat_Suc_small32) simp
  have l: "sb_list (snd (sb_send ctr b)) =
      (sb_list b)[?k := (sb_list b ! ?k)\<lparr>se_txn := ctr, se_inflight := True\<rparr>]"
    using s f1 f2 k by simp
  have "sb_ok (snd (sb_send ctr b))"
    unfolding sb_ok_def l
    using assms(1) s f1 f2 n k
    by (auto simp: sb_ok_def word_le_nat_alt nth_list_update less_Suc_eq)
  then show ?thesis using l s n by simp
qed

lemma sb_ack_ok:
  assumes "sb_ok b"
  shows "sb_ok (sb_ack tag b) \<and> sb_issued (sb_ack tag b) = sb_issued b \<and>
    map (\<lambda>e. e\<lparr>se_acked := False\<rparr>) (sb_list (sb_ack tag b)) = map (\<lambda>e. e\<lparr>se_acked := False\<rparr>) (sb_list b)"
proof (cases "sb_ack tag b = b")
  case True
  then show ?thesis using assms by simp
next
  case False
  let ?i = "ack_slot tag"
  have ok: "ring_ok (sb_ring b)" using assms by (simp add: sb_ok_def)
  have c: "ring_live (sb_ring b) ?i" "se_inflight (ring_at (sb_ring b) ?i)"
    "sb_ack tag b = sb_fill ?i (\<lambda>e. e\<lparr>se_acked := True\<rparr>) b"
    using False by (auto simp: sb_ack_def Let_def split: if_splits)
  obtain k where k: "k < unat (r_n (sb_ring b))" "unat ?i = slot (sb_ring b) k"
    using c(1) ring_live_slot [OF ok] by blast
  note f = sb_fill_list [OF ok k, of "\<lambda>e. e\<lparr>se_acked := True\<rparr>"]
  have fl: "se_inflight (sb_list b ! k)" using c(2) ring_at_list [OF k(2,1)] by simp
  have "sb_ok (sb_ack tag b)"
    using assms c(3) f k fl by (auto simp: sb_ok_def nth_list_update)
  moreover have "map (\<lambda>e. e\<lparr>se_acked := False\<rparr>) ((sb_list b)[k := (sb_list b ! k)\<lparr>se_acked := True\<rparr>]) =
      map (\<lambda>e. e\<lparr>se_acked := False\<rparr>) (sb_list b)"
    using k(1) by (simp add: map_update) (metis length_map length_ring_list list_update_id nth_map)
  ultimately show ?thesis using c(3) f by simp
qed

lemma sb_pop_ok:
  assumes "sb_ok b" "\<not> ring_empty (sb_ring b)" "se_acked (ring_head (sb_ring b))"
  shows "sb_ok (sb_popHead b) \<and> sb_list (sb_popHead b) = tl (sb_list b) \<and> se_acked (hd (sb_list b)) \<and>
    sb_list b \<noteq> []"
proof -
  have ok: "ring_ok (sb_ring b)" and ne: "r_n (sb_ring b) \<noteq> 0"
    using assms by (simp_all add: sb_ok_def ring_empty_def)
  note p = ring_popHead_ok [OF ok ne] and n = ring_pop_count [OF ok ne]
  have l: "sb_list b \<noteq> []" using ne by (simp add: ring_list_Nil)
  have a: "se_acked (sb_list b ! 0)" using assms(3) p(3) l by (simp add: hd_conv_nth)
  then have "0 < unat (sb_issued b)" using assms(1) n(2) by (auto simp: sb_ok_def)
  then have i: "unat (sb_issued b - 1) = unat (sb_issued b) - 1" by (intro unat_pred32) auto
  have n': "unat (r_n (ring_popHead (sb_ring b))) = unat (r_n (sb_ring b)) - 1"
    using n by (simp add: ring_popHead_def)
  have e: "(se_inflight (tl (sb_list b) ! k) \<longleftrightarrow> k < unat (sb_issued b) - 1) \<and>
      (se_acked (tl (sb_list b) ! k) \<longrightarrow> k < unat (sb_issued b) - 1)"
    if "k < unat (r_n (sb_ring b)) - 1" for k
  proof -
    have "Suc k < unat (r_n (sb_ring b))" using that by linarith
    moreover from this have "tl (sb_list b) ! k = sb_list b ! Suc k" using l by (simp add: nth_tl)
    ultimately show ?thesis using assms(1) unfolding sb_ok_def by (metis Suc_eq_plus1 less_diff_conv)
  qed
  have "unat (sb_issued b) - 1 \<le> unat (r_n (sb_ring b)) - 1"
    using assms(1) by (auto simp: sb_ok_def word_le_nat_alt)
  then have "sb_ok (sb_popHead b)"
    using p(1,2) i n' e by (simp add: sb_ok_def sb_popHead_def word_le_nat_alt)
  then show ?thesis using p l a by (simp add: sb_popHead_def hd_conv_nth)
qed

lemma sb_drain_ok:
  assumes "sb_ok b"
  shows "sb_ok (sb_drain b) \<and> sb_list (sb_drain b) = dropWhile se_acked (sb_list b)"
  using assms
proof (induction b rule: sb_drain.induct)
  case (1 b)
  show ?case
  proof (cases "\<not> ring_empty (sb_ring b) \<and> se_acked (ring_head (sb_ring b))")
    case True
    note p = sb_pop_ok [OF 1(2)] 
    have "sb_drain b = sb_drain (sb_popHead b)" using True by (subst sb_drain.simps) simp
    moreover have "dropWhile se_acked (sb_list b) = dropWhile se_acked (tl (sb_list b))"
      using p True by (cases "sb_list b") auto
    ultimately show ?thesis using 1(1) [OF True] p True by simp
  next
    case False
    have "dropWhile se_acked (sb_list b) = sb_list b"
    proof (cases "r_n (sb_ring b) = 0")
      case True
      then have "sb_list b = []" by (simp add: ring_list_Nil)
      then show ?thesis by simp
    next
      case ne: False
      have "\<not> se_acked (hd (sb_list b))"
        using False ne ring_popHead_ok(3) [OF _ ne] 1(2) by (auto simp: ring_empty_def sb_ok_def)
      moreover have "sb_list b \<noteq> []" using ne by (simp add: ring_list_Nil)
      ultimately show ?thesis by (cases "sb_list b") auto
    qed
    moreover have "sb_drain b = b" using False by (subst sb_drain.simps) auto
    ultimately show ?thesis using 1(2) by simp
  qed
qed

text \<open>An acknowledgement sets the bit of the one entry it names, by slot and transaction.\<close>

definition ack_names :: "u64 \<Rightarrow> store_buffer \<Rightarrow> nat \<Rightarrow> bool" where
  "ack_names tag b k \<longleftrightarrow> slot (sb_ring b) k = unat (ack_slot tag) \<and> se_inflight (sb_list b ! k) \<and>
     \<not> se_acked (sb_list b ! k) \<and> se_txn (sb_list b ! k) = ack_txn tag"

lemma sb_ack_exact:
  assumes "sb_ok b" "k < unat (r_n (sb_ring b))"
  shows "sb_list (sb_ack tag b) ! k =
    (if ack_names tag b k then (sb_list b ! k)\<lparr>se_acked := True\<rparr> else sb_list b ! k)"
proof -
  let ?i = "ack_slot tag"
  have ok: "ring_ok (sb_ring b)" using assms(1) by (simp add: sb_ok_def)
  show ?thesis
  proof (cases "ring_live (sb_ring b) ?i")
    case False
    then have "\<not> ack_names tag b k" using assms(2) ring_live_slot [OF ok, of ?i] by (auto simp: ack_names_def)
    then show ?thesis using False by (simp add: sb_ack_def Let_def)
  next
    case True
    then obtain j where j: "j < unat (r_n (sb_ring b))" "unat ?i = slot (sb_ring b) j"
      using ring_live_slot [OF ok] by blast
    have at: "ring_at (sb_ring b) ?i = sb_list b ! j" by (rule ring_at_list [OF j(2,1)])
    have eq: "slot (sb_ring b) k = unat ?i \<longleftrightarrow> j = k"
      using slot_inj [OF ok, of k j] assms(2) j ring_okD(3) [OF ok] by auto
    show ?thesis
      using True at eq j assms(2) sb_fill_list(1) [OF ok j, of "\<lambda>e. e\<lparr>se_acked := True\<rparr>"]
      by (auto simp: sb_ack_def Let_def ack_names_def nth_list_update)
  qed
qed

lemma sb_ack_sent:
  assumes ok: "sb_ok b" and i: "sb_issued b < r_n (sb_ring b)" and c: "r_capacity (sb_ring b) \<le> 0x80000000"
  shows "sb_list (sb_ack (fst (sb_send ctr b)) (snd (sb_send ctr b))) = (sb_list b)[unat (sb_issued b) :=
    (sb_list b ! unat (sb_issued b))\<lparr>se_txn := ctr, se_inflight := True, se_acked := True\<rparr>]"
proof -
  let ?k = "unat (sb_issued b)" and ?b = "snd (sb_send ctr b)" and ?t = "fst (sb_send ctr b)"
  have r: "ring_ok (sb_ring b)" using ok by (simp add: sb_ok_def)
  have k: "?k < unat (r_n (sb_ring b))" using i by (simp add: word_less_nat_alt)
  have s: "unat (sb_nextIssueSlot b) = slot (sb_ring b) ?k"
    using ring_indexOf_slot [OF r, of "sb_issued b"] k ring_okD(3) [OF r] by (simp add: sb_nextIssueSlot_def)
  have "sb_nextIssueSlot b < 0x80000000"
    using slot_less [OF r, of ?k] s c by (simp add: word_less_nat_alt word_le_nat_alt)
  then have a: "ack_slot ?t = sb_nextIssueSlot b" "ack_txn ?t = ctr"
    by (simp_all add: sb_send_def store_tag_codec)
  note snd_ok = sb_send_ok [OF ok i, of ctr]
  have ro: "ring_ok (sb_ring ?b)" using snd_ok by (simp add: sb_ok_def)
  have same: "r_n (sb_ring ?b) = r_n (sb_ring b)" "slot (sb_ring ?b) = slot (sb_ring b)"
    by (simp_all add: sb_send_def sb_issue_def sb_fill_def)
  have na: "\<not> se_acked (sb_list b ! ?k)" using ok k by (auto simp: sb_ok_def)
  have names: "ack_names ?t ?b j \<longleftrightarrow> j = ?k" if "j < unat (r_n (sb_ring b))" for j
    using slot_inj [OF r, of j ?k] that k ring_okD(3) [OF r] s a snd_ok na
    by (auto simp: ack_names_def same)
  show ?thesis
  proof (rule nth_equalityI)
    have "length (sb_list (sb_ack ?t ?b)) = length (sb_list ?b)"
      using sb_ack_ok [of ?b ?t] snd_ok by (metis length_map)
    then show "length (sb_list (sb_ack ?t ?b)) = length ((sb_list b)[?k :=
        (sb_list b ! ?k)\<lparr>se_txn := ctr, se_inflight := True, se_acked := True\<rparr>])"
      using same by simp
    fix j assume "j < length (sb_list (sb_ack ?t ?b))"
    then have j: "j < unat (r_n (sb_ring b))"
      using \<open>length (sb_list (sb_ack ?t ?b)) = length (sb_list ?b)\<close> same by simp
    show "sb_list (sb_ack ?t ?b) ! j = (sb_list b)[?k :=
        (sb_list b ! ?k)\<lparr>se_txn := ctr, se_inflight := True, se_acked := True\<rparr>] ! j"
      using sb_ack_exact [of ?b j ?t] snd_ok j same names [OF j] k by (auto simp: nth_list_update)
  qed
qed

text \<open>
  C31. The store buffer keeps program order although acknowledgements come back in any order.
  The stores sent to the cache are always a prefix of the committed ones; the next to be sent is
  the oldest not yet sent, and there is one exactly when not all are.  An acknowledgement sets
  the acknowledged bit of exactly the entry that its tag names by slot and transaction number,
  if that entry is sent and not yet acknowledged, and changes nothing else (so a late one, for a
  slot used again, is dropped); the tag given out with a store names that store, in a buffer of
  at most \<^verbatim>\<open>2 ^ 31\<close> slots.  Popping takes away exactly the longest acknowledged prefix, so the
  stores leave in program order.
\<close>

theorem store_buffer_order:
  assumes "sb_ok b"
  shows "(\<not> ring_full (sb_ring b) \<longrightarrow> sb_ok (sb_push a n d b) \<and>
      sb_list (sb_push a n d b) = sb_list b @ [sb_entry0\<lparr>se_addr := a, se_size := n, se_data := d\<rparr>]) \<and>
    sb_nextToIssue b = (if \<forall>e \<in> set (sb_list b). se_inflight e then None else Some (sb_nextIssueSlot b)) \<and>
    (sb_nextToIssue b \<noteq> None \<longrightarrow> sb_ok (snd (sb_send ctr b)) \<and>
      sb_list (snd (sb_send ctr b)) = (sb_list b)[unat (sb_issued b) :=
        (sb_list b ! unat (sb_issued b))\<lparr>se_txn := ctr, se_inflight := True\<rparr>] \<and>
      (r_capacity (sb_ring b) \<le> 0x80000000 \<longrightarrow>
        sb_list (sb_ack (fst (sb_send ctr b)) (snd (sb_send ctr b))) = (sb_list b)[unat (sb_issued b) :=
          (sb_list b ! unat (sb_issued b))\<lparr>se_txn := ctr, se_inflight := True, se_acked := True\<rparr>])) \<and>
    (\<forall>k < unat (r_n (sb_ring b)). se_inflight (sb_list b ! k) \<longleftrightarrow> k < unat (sb_issued b)) \<and>
    sb_ok (sb_ack tag b) \<and> length (sb_list (sb_ack tag b)) = length (sb_list b) \<and>
    (\<forall>k < length (sb_list b). sb_list (sb_ack tag b) ! k =
      (if slot (sb_ring b) k = unat (ack_slot tag) \<and> se_inflight (sb_list b ! k) \<and>
          \<not> se_acked (sb_list b ! k) \<and> se_txn (sb_list b ! k) = ack_txn tag
       then (sb_list b ! k)\<lparr>se_acked := True\<rparr> else sb_list b ! k)) \<and>
    map (\<lambda>e. e\<lparr>se_acked := False\<rparr>) (sb_list (sb_ack tag b)) = map (\<lambda>e. e\<lparr>se_acked := False\<rparr>) (sb_list b) \<and>
    sb_ok (sb_drain b) \<and> sb_list (sb_drain b) = dropWhile se_acked (sb_list b)"
proof -
  have l: "length (sb_list (sb_ack tag b)) = length (sb_list b)"
    using sb_ack_ok [OF assms, of tag] by (metis length_map)
  have e: "\<forall>k < length (sb_list b). sb_list (sb_ack tag b) ! k =
      (if slot (sb_ring b) k = unat (ack_slot tag) \<and> se_inflight (sb_list b ! k) \<and>
          \<not> se_acked (sb_list b ! k) \<and> se_txn (sb_list b ! k) = ack_txn tag
       then (sb_list b ! k)\<lparr>se_acked := True\<rparr> else sb_list b ! k)"
    using sb_ack_exact [OF assms, of _ tag] by (simp add: ack_names_def)
  show ?thesis
    using sb_push_ok [OF assms] sb_next [OF assms] sb_send_ok [OF assms, of ctr] sb_ack_sent [OF assms, of ctr]
      sb_ack_ok [OF assms, of tag] sb_drain_ok [OF assms] assms [unfolded sb_ok_def]
    by (intro conjI l e) auto
qed

theorem store_buffer_order_witness:
  "map se_addr (sb_list (sb_push 0x10 4 7 (sb_new 2))) = [0x10] \<and>
   map se_acked (sb_list (sb_ack (fst (sb_send 9 (sb_push 0x10 4 7 (sb_new 2))))
     (snd (sb_send 9 (sb_push 0x10 4 7 (sb_new 2)))))) = [True]"
proof -
  let ?b = "sb_push 0x10 4 7 (sb_new 2)"
  have ok: "sb_ok (sb_new 2)" by (rule sb_new_ok) simp
  have new: "\<not> ring_full (sb_ring (sb_new 2))" "sb_list (sb_new 2) = []"
    by (simp_all add: ring_full_def sb_new_def ring_new_def ring_list_def)
  from new store_buffer_order [OF ok, of "0x10" 4 7]
  have p: "sb_ok ?b" "sb_list ?b = [sb_entry0\<lparr>se_addr := 0x10, se_size := 4, se_data := 7\<rparr>]" by simp_all
  have n: "sb_nextToIssue ?b \<noteq> None" and c: "r_capacity (sb_ring ?b) \<le> 0x80000000" and i: "sb_issued ?b = 0"
    by (simp_all add: sb_nextToIssue_def sb_push_def sb_new_def ring_new_def ring_push_def ring_alloc_def ring_put_def
        ring_count_def ring_indexOf_def Let_def)
  from store_buffer_order [OF p(1), of _ _ _ 9] n c
  have "sb_list (sb_ack (fst (sb_send 9 ?b)) (snd (sb_send 9 ?b))) = (sb_list ?b)[unat (sb_issued ?b) :=
          (sb_list ?b ! unat (sb_issued ?b))\<lparr>se_txn := 9, se_inflight := True, se_acked := True\<rparr>]" by blast
  then show ?thesis using p i by simp
qed
end
