(* ===== verification/Config.thy ===== *)
theory Config
  imports Prelude
begin

text \<open>
  Model of \<^verbatim>\<open>sim/config.h\<close> and \<^verbatim>\<open>sim/config.cpp\<close>: the machine's knobs, reading them from an
  option or a file, writing them out, and validating them.  A fatal error is a value that says
  which check failed; the wording of the messages is not modelled.  A C string is the list of
  its characters before the terminating zero.
\<close>

section \<open>The configuration\<close>

record cache_config =
  cc_sizeBytes :: u32
  cc_ways :: u32
  cc_lineBytes :: u32
  cc_hitLatency :: u32
  cc_mshrs :: u32
  cc_wbq :: u32

datatype memOrder = Conservative | Bypass | Speculative

record sim_config =
  cfg_memBytes :: u64
  cfg_maxCycles :: u64
  cfg_trace :: bool
  cfg_dumpRegs :: bool
  cfg_diffCheck :: bool
  cfg_flatMemory :: bool
  cfg_flatLatency :: u32
  cfg_dramLatency :: u32
  cfg_l1i :: cache_config
  cfg_l1d :: cache_config
  cfg_l2 :: cache_config
  cfg_aluCount :: u32
  cfg_aguCount :: u32
  cfg_dataPorts :: u32
  cfg_mulLatency :: u32
  cfg_mulPipelined :: bool
  cfg_divLatency :: u32
  cfg_wbPorts :: u32
  cfg_width :: u32
  cfg_robSize :: u32
  cfg_iqSize :: u32
  cfg_lsqSize :: u32
  cfg_sbSize :: u32
  cfg_physRegs :: u32
  cfg_fetchQSize :: u32
  cfg_fetchBytes :: u32
  cfg_usePredictor :: bool
  cfg_memOrder :: memOrder
  cfg_depPredictor :: bool
  cfg_depTableSize :: u32
  cfg_phtBits :: u32
  cfg_ghrBits :: u32
  cfg_btbEntries :: u32
  cfg_btbWays :: u32
  cfg_rasEntries :: u32
  cfg_rasRepair :: bool
  cfg_tageTables :: u32
  cfg_tageTableBits :: u32
  cfg_tageTagBits :: u32
  cfg_tageMinHist :: u32
  cfg_tageMaxHist :: u32

definition default_config :: sim_config where
  "default_config =
     \<lparr>cfg_memBytes = push_bit 20 1, cfg_maxCycles = 10000000, cfg_trace = False, cfg_dumpRegs = False,
      cfg_diffCheck = False, cfg_flatMemory = False, cfg_flatLatency = 1, cfg_dramLatency = 30,
      cfg_l1i = \<lparr>cc_sizeBytes = 32 * 1024, cc_ways = 8, cc_lineBytes = 64, cc_hitLatency = 1,
                 cc_mshrs = 2, cc_wbq = 2\<rparr>,
      cfg_l1d = \<lparr>cc_sizeBytes = 32 * 1024, cc_ways = 8, cc_lineBytes = 64, cc_hitLatency = 1,
                 cc_mshrs = 4, cc_wbq = 4\<rparr>,
      cfg_l2 = \<lparr>cc_sizeBytes = 256 * 1024, cc_ways = 8, cc_lineBytes = 64, cc_hitLatency = 4,
                cc_mshrs = 4, cc_wbq = 4\<rparr>,
      cfg_aluCount = 2, cfg_aguCount = 1, cfg_dataPorts = 1, cfg_mulLatency = 3,
      cfg_mulPipelined = True, cfg_divLatency = 12, cfg_wbPorts = 2, cfg_width = 2, cfg_robSize = 32,
      cfg_iqSize = 16, cfg_lsqSize = 16, cfg_sbSize = 8, cfg_physRegs = 0, cfg_fetchQSize = 8,
      cfg_fetchBytes = 0, cfg_usePredictor = True, cfg_memOrder = Speculative,
      cfg_depPredictor = False, cfg_depTableSize = 64, cfg_phtBits = 10, cfg_ghrBits = 0,
      cfg_btbEntries = 64, cfg_btbWays = 1, cfg_rasEntries = 8, cfg_rasRepair = False,
      cfg_tageTables = 0, cfg_tageTableBits = 10, cfg_tageTagBits = 11, cfg_tageMinHist = 4,
      cfg_tageMaxHist = 128\<rparr>"

definition fetchBlockBytes :: "sim_config \<Rightarrow> u32" where
  "fetchBlockBytes c =
     (if cfg_fetchBytes c \<noteq> 0 then cfg_fetchBytes c
      else if cfg_width c \<le> 2 then 8 else if cfg_width c \<le> 4 then 16 else 32)"

section \<open>The knob table\<close>

text \<open>
  A knob is its name, its kind and the field it stands for.  The C++ table has the field's
  offset in the structure; here it is the pair of the field's selector and update.
\<close>

datatype knob_field =
    U32_field "sim_config \<Rightarrow> u32" "u32 \<Rightarrow> sim_config \<Rightarrow> sim_config"
  | U64_field "sim_config \<Rightarrow> u64" "u64 \<Rightarrow> sim_config \<Rightarrow> sim_config"
  | BOOL_field "sim_config \<Rightarrow> bool" "bool \<Rightarrow> sim_config \<Rightarrow> sim_config"
  | MEMORD_field "sim_config \<Rightarrow> memOrder" "memOrder \<Rightarrow> sim_config \<Rightarrow> sim_config"

definition kKnobs :: "(string \<times> knob_field) list" where
  "kKnobs =
     [(''memBytes'', U64_field cfg_memBytes (\<lambda>v c. c\<lparr>cfg_memBytes := v\<rparr>)),
      (''maxCycles'', U64_field cfg_maxCycles (\<lambda>v c. c\<lparr>cfg_maxCycles := v\<rparr>)),
      (''flatMemory'', BOOL_field cfg_flatMemory (\<lambda>v c. c\<lparr>cfg_flatMemory := v\<rparr>)),
      (''flatLatency'', U32_field cfg_flatLatency (\<lambda>v c. c\<lparr>cfg_flatLatency := v\<rparr>)),
      (''dramLatency'', U32_field cfg_dramLatency (\<lambda>v c. c\<lparr>cfg_dramLatency := v\<rparr>)),
      (''l1i.size'', U32_field (\<lambda>c. cc_sizeBytes (cfg_l1i c)) (\<lambda>v c. c\<lparr>cfg_l1i := (cfg_l1i c)\<lparr>cc_sizeBytes := v\<rparr>\<rparr>)),
      (''l1i.ways'', U32_field (\<lambda>c. cc_ways (cfg_l1i c)) (\<lambda>v c. c\<lparr>cfg_l1i := (cfg_l1i c)\<lparr>cc_ways := v\<rparr>\<rparr>)),
      (''l1i.line'', U32_field (\<lambda>c. cc_lineBytes (cfg_l1i c)) (\<lambda>v c. c\<lparr>cfg_l1i := (cfg_l1i c)\<lparr>cc_lineBytes := v\<rparr>\<rparr>)),
      (''l1i.latency'', U32_field (\<lambda>c. cc_hitLatency (cfg_l1i c)) (\<lambda>v c. c\<lparr>cfg_l1i := (cfg_l1i c)\<lparr>cc_hitLatency := v\<rparr>\<rparr>)),
      (''l1i.mshrs'', U32_field (\<lambda>c. cc_mshrs (cfg_l1i c)) (\<lambda>v c. c\<lparr>cfg_l1i := (cfg_l1i c)\<lparr>cc_mshrs := v\<rparr>\<rparr>)),
      (''l1i.wbq'', U32_field (\<lambda>c. cc_wbq (cfg_l1i c)) (\<lambda>v c. c\<lparr>cfg_l1i := (cfg_l1i c)\<lparr>cc_wbq := v\<rparr>\<rparr>)),
      (''l1d.size'', U32_field (\<lambda>c. cc_sizeBytes (cfg_l1d c)) (\<lambda>v c. c\<lparr>cfg_l1d := (cfg_l1d c)\<lparr>cc_sizeBytes := v\<rparr>\<rparr>)),
      (''l1d.ways'', U32_field (\<lambda>c. cc_ways (cfg_l1d c)) (\<lambda>v c. c\<lparr>cfg_l1d := (cfg_l1d c)\<lparr>cc_ways := v\<rparr>\<rparr>)),
      (''l1d.line'', U32_field (\<lambda>c. cc_lineBytes (cfg_l1d c)) (\<lambda>v c. c\<lparr>cfg_l1d := (cfg_l1d c)\<lparr>cc_lineBytes := v\<rparr>\<rparr>)),
      (''l1d.latency'', U32_field (\<lambda>c. cc_hitLatency (cfg_l1d c)) (\<lambda>v c. c\<lparr>cfg_l1d := (cfg_l1d c)\<lparr>cc_hitLatency := v\<rparr>\<rparr>)),
      (''l1d.mshrs'', U32_field (\<lambda>c. cc_mshrs (cfg_l1d c)) (\<lambda>v c. c\<lparr>cfg_l1d := (cfg_l1d c)\<lparr>cc_mshrs := v\<rparr>\<rparr>)),
      (''l1d.wbq'', U32_field (\<lambda>c. cc_wbq (cfg_l1d c)) (\<lambda>v c. c\<lparr>cfg_l1d := (cfg_l1d c)\<lparr>cc_wbq := v\<rparr>\<rparr>)),
      (''l2.size'', U32_field (\<lambda>c. cc_sizeBytes (cfg_l2 c)) (\<lambda>v c. c\<lparr>cfg_l2 := (cfg_l2 c)\<lparr>cc_sizeBytes := v\<rparr>\<rparr>)),
      (''l2.ways'', U32_field (\<lambda>c. cc_ways (cfg_l2 c)) (\<lambda>v c. c\<lparr>cfg_l2 := (cfg_l2 c)\<lparr>cc_ways := v\<rparr>\<rparr>)),
      (''l2.line'', U32_field (\<lambda>c. cc_lineBytes (cfg_l2 c)) (\<lambda>v c. c\<lparr>cfg_l2 := (cfg_l2 c)\<lparr>cc_lineBytes := v\<rparr>\<rparr>)),
      (''l2.latency'', U32_field (\<lambda>c. cc_hitLatency (cfg_l2 c)) (\<lambda>v c. c\<lparr>cfg_l2 := (cfg_l2 c)\<lparr>cc_hitLatency := v\<rparr>\<rparr>)),
      (''l2.mshrs'', U32_field (\<lambda>c. cc_mshrs (cfg_l2 c)) (\<lambda>v c. c\<lparr>cfg_l2 := (cfg_l2 c)\<lparr>cc_mshrs := v\<rparr>\<rparr>)),
      (''l2.wbq'', U32_field (\<lambda>c. cc_wbq (cfg_l2 c)) (\<lambda>v c. c\<lparr>cfg_l2 := (cfg_l2 c)\<lparr>cc_wbq := v\<rparr>\<rparr>)),
      (''aluCount'', U32_field cfg_aluCount (\<lambda>v c. c\<lparr>cfg_aluCount := v\<rparr>)),
      (''aguCount'', U32_field cfg_aguCount (\<lambda>v c. c\<lparr>cfg_aguCount := v\<rparr>)),
      (''dataPorts'', U32_field cfg_dataPorts (\<lambda>v c. c\<lparr>cfg_dataPorts := v\<rparr>)),
      (''mulLatency'', U32_field cfg_mulLatency (\<lambda>v c. c\<lparr>cfg_mulLatency := v\<rparr>)),
      (''mulPipelined'', BOOL_field cfg_mulPipelined (\<lambda>v c. c\<lparr>cfg_mulPipelined := v\<rparr>)),
      (''divLatency'', U32_field cfg_divLatency (\<lambda>v c. c\<lparr>cfg_divLatency := v\<rparr>)),
      (''wbPorts'', U32_field cfg_wbPorts (\<lambda>v c. c\<lparr>cfg_wbPorts := v\<rparr>)),
      (''width'', U32_field cfg_width (\<lambda>v c. c\<lparr>cfg_width := v\<rparr>)),
      (''robSize'', U32_field cfg_robSize (\<lambda>v c. c\<lparr>cfg_robSize := v\<rparr>)),
      (''iqSize'', U32_field cfg_iqSize (\<lambda>v c. c\<lparr>cfg_iqSize := v\<rparr>)),
      (''lsqSize'', U32_field cfg_lsqSize (\<lambda>v c. c\<lparr>cfg_lsqSize := v\<rparr>)),
      (''sbSize'', U32_field cfg_sbSize (\<lambda>v c. c\<lparr>cfg_sbSize := v\<rparr>)),
      (''physRegs'', U32_field cfg_physRegs (\<lambda>v c. c\<lparr>cfg_physRegs := v\<rparr>)),
      (''fetchQSize'', U32_field cfg_fetchQSize (\<lambda>v c. c\<lparr>cfg_fetchQSize := v\<rparr>)),
      (''fetchBytes'', U32_field cfg_fetchBytes (\<lambda>v c. c\<lparr>cfg_fetchBytes := v\<rparr>)),
      (''usePredictor'', BOOL_field cfg_usePredictor (\<lambda>v c. c\<lparr>cfg_usePredictor := v\<rparr>)),
      (''memOrder'', MEMORD_field cfg_memOrder (\<lambda>v c. c\<lparr>cfg_memOrder := v\<rparr>)),
      (''depPredictor'', BOOL_field cfg_depPredictor (\<lambda>v c. c\<lparr>cfg_depPredictor := v\<rparr>)),
      (''depTableSize'', U32_field cfg_depTableSize (\<lambda>v c. c\<lparr>cfg_depTableSize := v\<rparr>)),
      (''phtBits'', U32_field cfg_phtBits (\<lambda>v c. c\<lparr>cfg_phtBits := v\<rparr>)),
      (''ghrBits'', U32_field cfg_ghrBits (\<lambda>v c. c\<lparr>cfg_ghrBits := v\<rparr>)),
      (''btbEntries'', U32_field cfg_btbEntries (\<lambda>v c. c\<lparr>cfg_btbEntries := v\<rparr>)),
      (''btbWays'', U32_field cfg_btbWays (\<lambda>v c. c\<lparr>cfg_btbWays := v\<rparr>)),
      (''rasEntries'', U32_field cfg_rasEntries (\<lambda>v c. c\<lparr>cfg_rasEntries := v\<rparr>)),
      (''rasRepair'', BOOL_field cfg_rasRepair (\<lambda>v c. c\<lparr>cfg_rasRepair := v\<rparr>)),
      (''tageTables'', U32_field cfg_tageTables (\<lambda>v c. c\<lparr>cfg_tageTables := v\<rparr>)),
      (''tageTableBits'', U32_field cfg_tageTableBits (\<lambda>v c. c\<lparr>cfg_tageTableBits := v\<rparr>)),
      (''tageTagBits'', U32_field cfg_tageTagBits (\<lambda>v c. c\<lparr>cfg_tageTagBits := v\<rparr>)),
      (''tageMinHist'', U32_field cfg_tageMinHist (\<lambda>v c. c\<lparr>cfg_tageMinHist := v\<rparr>)),
      (''tageMaxHist'', U32_field cfg_tageMaxHist (\<lambda>v c. c\<lparr>cfg_tageMaxHist := v\<rparr>))]"

definition kMemOrders :: "(string \<times> memOrder) list" where
  "kMemOrders = [(''conservative'', Conservative), (''bypass'', Bypass), (''speculative'', Speculative)]"

section \<open>Numbers\<close>

definition c_isspace :: "char \<Rightarrow> bool" where
  "c_isspace c \<longleftrightarrow> of_char c = (32 :: nat) \<or> (9 \<le> (of_char c :: nat) \<and> (of_char c :: nat) \<le> 13)"

definition digit_val :: "char \<Rightarrow> nat" where
  "digit_val ch =
     (let c = of_char ch :: nat in
      if 48 \<le> c \<and> c \<le> 57 then c - 48
      else if 97 \<le> c \<and> c \<le> 122 then c - 87
      else if 65 \<le> c \<and> c \<le> 90 then c - 55 else 99)"

definition first_is :: "(char \<Rightarrow> bool) \<Rightarrow> string \<Rightarrow> bool" where
  "first_is P s \<longleftrightarrow> s \<noteq> [] \<and> P (hd s)"

primrec scan_digits :: "nat \<Rightarrow> nat \<Rightarrow> string \<Rightarrow> nat \<times> string" where
  "scan_digits base acc [] = (acc, [])"
| "scan_digits base acc (c # cs) =
     (if digit_val c < base then scan_digits base (acc * base + digit_val c) cs else (acc, c # cs))"

text \<open>
  \<^verbatim>\<open>strtoull(s, &end, 0)\<close> of the C standard: leading white space, a sign, the base by prefix,
  the value saturated when it does not fit.  \<open>None\<close> when there are no digits (\<^verbatim>\<open>end == s\<close>).
\<close>

definition strtoull :: "string \<Rightarrow> (u64 \<times> string) option" where
  "strtoull s =
     (let s1 = dropWhile c_isspace s;
          neg = first_is (\<lambda>c. c = CHR ''-'') s1;
          s2 = (if neg \<or> first_is (\<lambda>c. c = CHR ''+'') s1 then tl s1 else s1);
          hex = first_is (\<lambda>c. c = CHR ''0'') s2 \<and>
            first_is (\<lambda>c. c = CHR ''x'' \<or> c = CHR ''X'') (tl s2) \<and>
            first_is (\<lambda>c. digit_val c < 16) (tl (tl s2));
          base = (if hex then 16 else if first_is (\<lambda>c. c = CHR ''0'') s2 then 8 else 10);
          s3 = (if hex then tl (tl s2) else s2)
      in if \<not> first_is (\<lambda>c. digit_val c < base) s3 then None
         else let (v, rest) = scan_digits base 0 s3
              in Some (if 2 ^ 64 \<le> v then - 1 else if neg then - word_of_nat v else word_of_nat v, rest))"

definition parseNum :: "string \<Rightarrow> u64 option" where
  "parseNum s =
     (case strtoull s of
        None \<Rightarrow> None
      | Some (v, rest) \<Rightarrow>
          (let k = first_is (\<lambda>c. c = CHR ''k'' \<or> c = CHR ''K'') rest;
               m = first_is (\<lambda>c. c = CHR ''m'' \<or> c = CHR ''M'') rest;
               v' = (if k then push_bit 10 v else if m then push_bit 20 v else v);
               rest' = (if k \<or> m then tl rest else rest)
           in if rest' = [] then Some v' else None))"

section \<open>Setting knobs\<close>

datatype origin = Option_O | Config_line string nat

datatype config_error =
    Bad_value origin string
  | Unknown_knob origin string
  | Expects_key_value string
  | Key_too_long string
  | Cannot_open string
  | Expected_assignment origin string
  | Invalid string
  | Division_by_zero

text \<open>The assignment of one knob; \<open>None\<close> is a bad value.\<close>

definition set_field :: "knob_field \<Rightarrow> string \<Rightarrow> sim_config \<Rightarrow> sim_config option" where
  "set_field k val c =
     (case k of
        U32_field get put \<Rightarrow>
          (case parseNum val of
             None \<Rightarrow> None
           | Some n \<Rightarrow> if n > 0xFFFFFFFF then None else Some (put (ucast n) c))
      | U64_field get put \<Rightarrow> (case parseNum val of None \<Rightarrow> None | Some n \<Rightarrow> Some (put n c))
      | BOOL_field get put \<Rightarrow>
          (if val = ''1'' \<or> val = ''true'' then Some (put True c)
           else if val = ''0'' \<or> val = ''false'' then Some (put False c) else None)
      | MEMORD_field get put \<Rightarrow>
          (case map_of kMemOrders val of Some m \<Rightarrow> Some (put m c) | None \<Rightarrow> None))"

primrec set_knob_in ::
  "(string \<times> knob_field) list \<Rightarrow> string \<Rightarrow> string \<Rightarrow> origin \<Rightarrow> sim_config \<Rightarrow> config_error + sim_config" where
  "set_knob_in [] key val where c = Inl (Unknown_knob where key)"
| "set_knob_in (k # ks) key val where c =
     (if fst k \<noteq> key then set_knob_in ks key val where c
      else case set_field (snd k) val c of
             None \<Rightarrow> Inl (Bad_value where key)
           | Some c' \<Rightarrow> Inr c')"

definition setKnob :: "string \<Rightarrow> string \<Rightarrow> origin \<Rightarrow> sim_config \<Rightarrow> config_error + sim_config" where
  "setKnob key val where c = set_knob_in kKnobs key val where c"

definition is_blank :: "char \<Rightarrow> bool" where
  "is_blank c \<longleftrightarrow> c = CHR '' '' \<or> c = CHR 0x09"

definition is_trailing :: "char \<Rightarrow> bool" where
  "is_trailing c \<longleftrightarrow> is_blank c \<or> c = CHR 0x0A \<or> c = CHR 0x0D"

definition trim :: "string \<Rightarrow> string" where
  "trim s = rev (dropWhile is_trailing (rev (dropWhile is_blank s)))"

definition applyConfigOverride :: "string \<Rightarrow> sim_config \<Rightarrow> config_error + sim_config" where
  "applyConfigOverride kv c =
     (let key = takeWhile (\<lambda>ch. ch \<noteq> CHR ''='') kv; rest = dropWhile (\<lambda>ch. ch \<noteq> CHR ''='') kv in
      if rest = [] \<or> key = [] then Inl (Expects_key_value kv)
      else if 128 \<le> length key then Inl (Key_too_long kv)
      else setKnob (trim key) (tl rest) Option_O c)"

text \<open>
  \<^verbatim>\<open>fgets(line, 256, f)\<close>: up to 255 characters, through the first newline.  What the
  functions on strings see of the line ends at a zero character.
\<close>

definition fgets :: "string \<Rightarrow> string \<times> string" where
  "fgets s =
     (let upto = takeWhile (\<lambda>c. c \<noteq> CHR 0x0A) s;
          n = (if length upto < length s then length upto + 1 else length upto);
          n' = min 255 n
      in (take n' s, drop n' s))"

definition c_str :: "string \<Rightarrow> string" where
  "c_str s = takeWhile (\<lambda>c. c \<noteq> CHR 0x00) s"

definition config_line :: "string \<Rightarrow> nat \<Rightarrow> string \<Rightarrow> sim_config \<Rightarrow> config_error + sim_config" where
  "config_line path lineno line c =
     (let s = trim (takeWhile (\<lambda>ch. ch \<noteq> CHR ''#'') (c_str line));
          where = Config_line path lineno;
          key = takeWhile (\<lambda>ch. ch \<noteq> CHR ''='') s; rest = dropWhile (\<lambda>ch. ch \<noteq> CHR ''='') s in
      if s = [] then Inr c
      else if rest = [] then Inl (Expected_assignment where s)
      else setKnob (trim key) (trim (tl rest)) where c)"

lemma fgets_shrinks: "s \<noteq> [] \<Longrightarrow> length (snd (fgets s)) < length s"
  by (cases s) (auto simp: fgets_def Let_def min_def)

function config_lines :: "string \<Rightarrow> nat \<Rightarrow> string \<Rightarrow> sim_config \<Rightarrow> config_error + sim_config" where
  "config_lines path lineno s c =
     (if s = [] then Inr c
      else case config_line path (lineno + 1) (fst (fgets s)) c of
             Inl e \<Rightarrow> Inl e
           | Inr c' \<Rightarrow> config_lines path (lineno + 1) (snd (fgets s)) c')"
  by pat_completeness auto
termination
  by (relation "measure (\<lambda>(path, lineno, s, c). length s)") (simp_all add: fgets_shrinks)

declare config_lines.simps [simp del]

text \<open>\<open>None\<close> is a file that cannot be opened.\<close>

definition loadConfigFile :: "string \<Rightarrow> string option \<Rightarrow> sim_config \<Rightarrow> config_error + sim_config" where
  "loadConfigFile path contents c =
     (case contents of None \<Rightarrow> Inl (Cannot_open path) | Some s \<Rightarrow> config_lines path 0 s c)"

section \<open>Writing the knobs out\<close>

text \<open>\<^verbatim>\<open>%u\<close> and \<^verbatim>\<open>%llu\<close>.\<close>

definition digit_char :: "nat \<Rightarrow> char" where
  "digit_char d = char_of (48 + d)"

fun show_nat :: "nat \<Rightarrow> string" where
  "show_nat n = (if n < 10 then [digit_char n] else show_nat (n div 10) @ [digit_char (n mod 10)])"

declare show_nat.simps [simp del]

definition dump_field :: "knob_field \<Rightarrow> sim_config \<Rightarrow> string list" where
  "dump_field k c =
     (case k of
        U32_field get put \<Rightarrow> [show_nat (unat (get c))]
      | U64_field get put \<Rightarrow> [show_nat (unat (get c))]
      | BOOL_field get put \<Rightarrow> [if get c then ''1'' else ''0'']
      | MEMORD_field get put \<Rightarrow> map fst (filter (\<lambda>m. snd m = get c) kMemOrders))"

definition dumpConfig :: "sim_config \<Rightarrow> string" where
  "dumpConfig c =
     concat (concat (map (\<lambda>k. map (\<lambda>v. fst k @ '' = '' @ v @ [CHR 0x0A]) (dump_field (snd k) c)) kKnobs))"

section \<open>Validation\<close>

definition require :: "bool \<Rightarrow> string \<Rightarrow> config_error + unit" where
  "require ok what = (if ok then Inr () else Inl (Invalid what))"

definition andThen :: "config_error + 'a \<Rightarrow> ('a \<Rightarrow> config_error + 'b) \<Rightarrow> config_error + 'b" where
  "andThen r f = (case r of Inl e \<Rightarrow> Inl e | Inr x \<Rightarrow> f x)"

definition has_single_bit :: "u32 \<Rightarrow> bool" where
  "has_single_bit w \<longleftrightarrow> w \<noteq> 0 \<and> w AND (w - 1) = 0"

text \<open>
  The body of the loop over the caches.  The division comes first; a line size of zero is a
  division by zero there.
\<close>

definition validate_cache :: "cache_config \<Rightarrow> config_error + unit" where
  "validate_cache k =
     (if cc_ways k \<noteq> 0 \<and> cc_lineBytes k = 0 then Inl Division_by_zero
      else
        let nlines = (if cc_ways k \<noteq> 0 then cc_sizeBytes k div cc_lineBytes k else 0) in
        andThen (require (has_single_bit (cc_lineBytes k) \<and> cc_lineBytes k \<le> 128)
                   ''cache lines must be a power of two up to 128 bytes'') (\<lambda>_.
        andThen (require (cc_ways k \<ge> 1 \<and> nlines mod cc_ways k = 0 \<and> has_single_bit (nlines div cc_ways k))
                   ''cache size / (line size x ways) must be a power-of-two set count'') (\<lambda>_.
        require (cc_mshrs k \<ge> 1 \<and> cc_wbq k \<ge> 1)
          ''caches need at least 1 MSHR and 1 writeback-queue entry'')))"

definition validate_core :: "sim_config \<Rightarrow> config_error + unit" where
  "validate_core c =
     (let fetchBytes = fetchBlockBytes c in
      andThen (require (cfg_physRegs c \<ge> 33) ''physRegs must be at least 33 (32 arch + 1)'') (\<lambda>_.
      andThen (require (cfg_physRegs c \<le> 255) ''physRegs must fit 8-bit ids (max 255)'') (\<lambda>_.
      andThen (require (cfg_width c \<ge> 1 \<and> cfg_width c \<le> 8) ''width must be in 1..8'') (\<lambda>_.
      andThen (require (fetchBytes \<ge> 8 \<and> fetchBytes \<le> 64 \<and> fetchBytes AND (fetchBytes - 1) = 0)
                 ''fetchBytes must be 0 (automatic), 8, 16, 32, or 64'') (\<lambda>_.
      andThen (require (cfg_fetchQSize c \<ge> fetchBytes div 4)
                 ''fetchQSize must hold at least one fetch block'') (\<lambda>_.
      andThen (require (cfg_robSize c \<ge> 1 \<and> cfg_iqSize c \<ge> 1 \<and> cfg_lsqSize c \<ge> 1 \<and> cfg_sbSize c \<ge> 1)
                 ''robSize/iqSize/lsqSize/sbSize must be at least 1'') (\<lambda>_.
      andThen (require (cfg_aluCount c \<ge> 1 \<and> cfg_aluCount c \<le> 8) ''aluCount must be in 1..8'') (\<lambda>_.
      andThen (require (cfg_wbPorts c \<ge> 1) ''need at least 1 writeback port'') (\<lambda>_.
      andThen (require (cfg_aguCount c \<ge> 1 \<and> cfg_aguCount c \<le> 8) ''aguCount must be in 1..8'') (\<lambda>_.
      andThen (require (cfg_dataPorts c \<ge> 1 \<and> cfg_dataPorts c \<le> 8) ''dataPorts must be in 1..8'') (\<lambda>_.
      require (cfg_mulLatency c \<ge> 1 \<and> cfg_divLatency c \<ge> 1) ''unit latencies are >= 1'')))))))))))"

definition validate_caches :: "sim_config \<Rightarrow> config_error + unit" where
  "validate_caches c =
     (if cfg_flatMemory c then Inr ()
      else
        andThen (validate_cache (cfg_l1i c)) (\<lambda>_.
        andThen (validate_cache (cfg_l1d c)) (\<lambda>_.
        andThen (validate_cache (cfg_l2 c)) (\<lambda>_.
        andThen (require (cc_lineBytes (cfg_l1i c) = cc_lineBytes (cfg_l1d c) \<and>
                          cc_lineBytes (cfg_l1d c) = cc_lineBytes (cfg_l2 c))
                   ''all cache levels must share one line size'') (\<lambda>_.
        require (cc_lineBytes (cfg_l1i c) mod fetchBlockBytes c = 0)
          ''the fetch block must divide the line size'')))))"

definition validate_predictor :: "sim_config \<Rightarrow> config_error + unit" where
  "validate_predictor c =
     andThen (require (cfg_phtBits c \<ge> 1 \<and> cfg_phtBits c \<le> 24) ''phtBits must be 1..24'') (\<lambda>_.
     andThen (require (cfg_ghrBits c \<le> 30) ''ghrBits must be 0..30'') (\<lambda>_.
     andThen (require (cfg_btbEntries c \<ge> 1 \<and> cfg_rasEntries c \<ge> 1 \<and> cfg_depTableSize c \<ge> 1)
                ''predictor structures need at least 1 entry'') (\<lambda>_.
     andThen (require (cfg_btbWays c \<ge> 1 \<and> cfg_btbEntries c mod cfg_btbWays c = 0)
                ''btbEntries must be a multiple of btbWays'') (\<lambda>_.
     andThen (require (cfg_tageTables c \<le> 12) ''tageTables must be 0..12'') (\<lambda>_.
     if cfg_tageTables c \<noteq> 0
     then andThen (require (cfg_tageTableBits c \<ge> 4 \<and> cfg_tageTableBits c \<le> 16)
                     ''tageTableBits must be 4..16'') (\<lambda>_.
          andThen (require (cfg_tageTagBits c \<ge> 4 \<and> cfg_tageTagBits c \<le> 16)
                     ''tageTagBits must be 4..16'') (\<lambda>_.
          require (cfg_tageMinHist c \<ge> 1 \<and> cfg_tageMinHist c \<le> cfg_tageMaxHist c \<and>
                   cfg_tageMaxHist c \<le> 1024)
            ''TAGE history lengths must satisfy 1 <= min <= max <= 1024''))
     else Inr ())))))"

definition validateConfig :: "sim_config \<Rightarrow> config_error + sim_config" where
  "validateConfig c0 =
     (let c = (if cfg_physRegs c0 = 0 then c0\<lparr>cfg_physRegs := 32 + cfg_robSize c0\<rparr> else c0) in
      andThen (validate_core c) (\<lambda>_.
      andThen (validate_caches c) (\<lambda>_.
      andThen (validate_predictor c) (\<lambda>_.
      andThen (require (cfg_memBytes c \<ge> 64 * 1024) ''memBytes must be at least 64 KiB'') (\<lambda>_.
      Inr c)))))"


section \<open>Numbers survive printing and parsing\<close>

lemma digit_char_val: "d < 10 \<Longrightarrow> digit_val (digit_char d) = d"
  by (simp add: digit_val_def digit_char_def Let_def)

lemma scan_digits_append:
  "\<forall>c \<in> set ds. digit_val c < base \<Longrightarrow> scan_digits base acc (ds @ s) =
     scan_digits base (fst (scan_digits base acc ds)) s"
  by (induction ds arbitrary: acc) simp_all

lemma show_nat_digits: "\<forall>c \<in> set (show_nat n). \<exists>d < 10. c = digit_char d"
proof (induction n rule: show_nat.induct)
  case (1 n)
  have "\<exists>d < 10. digit_char (n mod 10) = digit_char d" by (rule exI [of _ "n mod 10"]) simp
  then show ?case using 1 by (subst show_nat.simps) auto
qed

lemma show_nat_digit_val: "c \<in> set (show_nat n) \<Longrightarrow> digit_val c < 10"
  using show_nat_digits [of n] digit_char_val by fastforce

lemma show_nat_ne [simp]: "show_nat n \<noteq> []"
  by (subst show_nat.simps) simp

lemma scan_show: "scan_digits 10 0 (show_nat n) = (n, [])"
proof (induction n rule: show_nat.induct)
  case (1 n)
  show ?case
  proof (cases "n < 10")
    case True
    then show ?thesis by (subst show_nat.simps) (simp add: digit_char_val)
  next
    case False
    have "\<forall>c \<in> set (show_nat (n div 10)). digit_val c < 10" using show_nat_digit_val by blast
    then show ?thesis
      using 1 False by (subst show_nat.simps) (simp add: scan_digits_append digit_char_val)
  qed
qed

text \<open>The first digit of a number of more than one digit is not zero.\<close>

lemma show_nat_head:
  "0 < n \<Longrightarrow> \<exists>d. 0 < d \<and> d < 10 \<and> hd (show_nat n) = digit_char d"
proof (induction n rule: show_nat.induct)
  case (1 n)
  show ?case
  proof (cases "n < 10")
    case True
    then show ?thesis using 1(2) by (subst show_nat.simps) auto
  next
    case False
    then have "0 < n div 10" by simp
    from 1(1) [OF False this] show ?thesis using False by (subst show_nat.simps) (simp add: hd_append)
  qed
qed

lemma digit_char_other:
  "d < 10 \<Longrightarrow> \<not> c_isspace (digit_char d)" "d < 10 \<Longrightarrow> digit_char d \<noteq> CHR ''-''"
  "d < 10 \<Longrightarrow> digit_char d \<noteq> CHR ''+''" "0 < d \<Longrightarrow> d < 10 \<Longrightarrow> digit_char d \<noteq> CHR ''0''"
proof -
  have all: "list_all (\<lambda>d. \<not> c_isspace (digit_char d) \<and> digit_char d \<noteq> CHR ''-'' \<and>
      digit_char d \<noteq> CHR ''+'' \<and> (0 < d \<longrightarrow> digit_char d \<noteq> CHR ''0'')) [0..<10]"
    by code_simp
  then show "d < 10 \<Longrightarrow> \<not> c_isspace (digit_char d)" "d < 10 \<Longrightarrow> digit_char d \<noteq> CHR ''-''"
    "d < 10 \<Longrightarrow> digit_char d \<noteq> CHR ''+''" "0 < d \<Longrightarrow> d < 10 \<Longrightarrow> digit_char d \<noteq> CHR ''0''"
    by (simp_all add: list_all_iff)
qed

lemma parse_show:
  assumes "n < 2 ^ 64"
  shows "parseNum (show_nat n) = Some (word_of_nat n)"
proof (cases "n = 0")
  case True
  have "digit_char 0 = CHR ''0''" by code_simp
  then have "show_nat 0 = ''0''" by (subst show_nat.simps) simp
  moreover have "parseNum ''0'' = Some 0"
    by (simp add: parseNum_def strtoull_def first_is_def c_isspace_def digit_val_def Let_def)
  ultimately show ?thesis using True by simp
next
  case False
  then obtain d where d: "0 < d" "d < 10" "hd (show_nat n) = digit_char d" using show_nat_head [of n] by auto
  then obtain ds where s: "show_nat n = digit_char d # ds" using show_nat_ne [of n] by (metis list.collapse)
  note other = digit_char_other(1-3) [OF d(2)] digit_char_other(4) [OF d(1,2)]
  have "strtoull (show_nat n) = Some (word_of_nat n, [])"
    using other scan_show [of n] assms d
    by (simp add: strtoull_def s first_is_def digit_char_val Let_def)
  then show ?thesis by (simp add: parseNum_def first_is_def)
qed

lemma length_show_nat: "n < 10 ^ Suc k \<Longrightarrow> length (show_nat n) \<le> Suc k"
proof (induction k arbitrary: n)
  case 0
  then show ?case by (subst show_nat.simps) simp
next
  case (Suc k)
  then have "n div 10 < 10 ^ Suc k" by (simp add: less_mult_imp_div_less)
  from Suc.IH [OF this] show ?case by (subst show_nat.simps) simp
qed

section \<open>Lines\<close>

definition plain :: "string \<Rightarrow> bool" where
  "plain s \<longleftrightarrow> s \<noteq> [] \<and> (\<forall>c \<in> set s. \<not> is_trailing c \<and> c \<noteq> CHR ''#'' \<and> c \<noteq> CHR ''='' \<and> c \<noteq> CHR 0x00)"

lemma dropWhile_plain: "\<forall>c \<in> set s. \<not> P c \<Longrightarrow> dropWhile P s = s"
  by (cases s) auto

lemma trim_plain:
  assumes "plain s"
  shows "trim s = s" "trim (s @ '' '') = s" "trim ('' '' @ s) = s" "trim (s @ [CHR 0x0A]) = s"
proof -
  have t: "\<forall>c \<in> set s. \<not> is_trailing c" using assms by (simp add: plain_def)
  then have b: "\<forall>c \<in> set s. \<not> is_blank c" by (auto simp: is_trailing_def)
  have ne: "s \<noteq> []" using assms by (simp add: plain_def)
  have d: "dropWhile is_blank (s @ u) = s @ u" for u
    using b ne by (cases s) auto
  have r: "dropWhile is_trailing (rev s) = rev s" using t by (intro dropWhile_plain) auto
  show "trim s = s" using d [of "[]"] r by (simp add: trim_def)
  show "trim (s @ '' '') = s" using d r by (simp add: trim_def is_trailing_def is_blank_def)
  show "trim ('' '' @ s) = s" using d [of "[]"] r by (simp add: trim_def is_blank_def)
  show "trim (s @ [CHR 0x0A]) = s" using d r by (simp add: trim_def is_trailing_def)
qed

lemma takeWhile_stop:
  "\<forall>x \<in> set xs. P x \<Longrightarrow> \<not> P y \<Longrightarrow> takeWhile P (xs @ y # ys) = xs"
  "\<forall>x \<in> set xs. P x \<Longrightarrow> \<not> P y \<Longrightarrow> dropWhile P (xs @ y # ys) = y # ys"
  by (induction xs) auto

lemma fgets_line:
  assumes "\<forall>c \<in> set l. c \<noteq> CHR 0x0A" "length l < 255"
  shows "fgets (l @ CHR 0x0A # s) = (l @ [CHR 0x0A], s)"
  using assms takeWhile_stop(1) [of l "\<lambda>c. c \<noteq> CHR 0x0A" "CHR 0x0A" s]
  by (simp add: fgets_def Let_def)

lemma assignment_line:
  assumes "plain key" "plain v" "length key + length v < 250"
  shows "config_lines path n (key @ '' = '' @ v @ [CHR 0x0A] @ s) c =
    (case setKnob key v (Config_line path (n + 1)) c of
       Inl e \<Rightarrow> Inl e | Inr c' \<Rightarrow> config_lines path (n + 1) s c')"
proof -
  let ?l = "key @ '' = '' @ v"
  have pk: "\<forall>c \<in> set key. c \<noteq> CHR 0x0A \<and> c \<noteq> CHR 0x00 \<and> c \<noteq> CHR ''#'' \<and> c \<noteq> CHR ''=''"
    and pv: "\<forall>c \<in> set v. c \<noteq> CHR 0x0A \<and> c \<noteq> CHR 0x00 \<and> c \<noteq> CHR ''#'' \<and> c \<noteq> CHR ''=''"
    using assms(1,2) by (auto simp: plain_def is_trailing_def)
  have g: "fgets (?l @ CHR 0x0A # s) = (?l @ [CHR 0x0A], s)"
    by (rule fgets_line) (use pk pv assms(3) in auto)
  have cs: "c_str (?l @ [CHR 0x0A]) = ?l @ [CHR 0x0A]"
    unfolding c_str_def by (rule takeWhile_eq_all_conv [THEN iffD2]) (use pk pv in auto)
  have hash: "takeWhile (\<lambda>ch. ch \<noteq> CHR ''#'') (?l @ [CHR 0x0A]) = ?l @ [CHR 0x0A]"
    by (rule takeWhile_eq_all_conv [THEN iffD2]) (use pk pv in auto)
  have trimmed: "trim (?l @ [CHR 0x0A]) = ?l"
  proof -
    have "key \<noteq> []" "\<forall>c \<in> set key. \<not> is_blank c" using assms(1) by (auto simp: plain_def is_trailing_def)
    then have d: "dropWhile is_blank (?l @ [CHR 0x0A]) = ?l @ [CHR 0x0A]" by (cases key) auto
    have "rev v \<noteq> []" "\<forall>c \<in> set (rev v). \<not> is_trailing c" using assms(2) by (auto simp: plain_def)
    then have "dropWhile is_trailing (rev v @ u) = rev v @ u" for u by (cases "rev v") auto
    with d show ?thesis by (simp add: trim_def is_trailing_def)
  qed
  have split: "takeWhile (\<lambda>ch. ch \<noteq> CHR ''='') ?l = key @ '' ''"
    "dropWhile (\<lambda>ch. ch \<noteq> CHR ''='') ?l = CHR ''='' # '' '' @ v"
    using takeWhile_stop [of "key @ '' ''" "\<lambda>ch. ch \<noteq> CHR ''=''" "CHR ''=''" "'' '' @ v"] pk by simp_all
  have "config_line path (n + 1) (?l @ [CHR 0x0A]) c = setKnob key v (Config_line path (n + 1)) c"
    using assms(1) trim_plain(2) [OF assms(1)] trim_plain(3) [OF assms(2)]
    unfolding config_line_def cs hash trimmed Let_def split by (simp add: plain_def)
  then have "config_lines path n (?l @ CHR 0x0A # s) c =
    (case setKnob key v (Config_line path (n + 1)) c of
       Inl e \<Rightarrow> Inl e | Inr c' \<Rightarrow> config_lines path (n + 1) s c')"
    unfolding config_lines.simps [of path n "?l @ CHR 0x0A # s" c] g by (auto split: sum.split)
  then show ?thesis by simp
qed


section \<open>The written configuration, read back\<close>

text \<open>The value of one knob is copied from \<open>c\<close>.\<close>

definition copy_field :: "knob_field \<Rightarrow> sim_config \<Rightarrow> sim_config \<Rightarrow> sim_config" where
  "copy_field k c c' =
     (case k of
        U32_field get put \<Rightarrow> put (get c) c'
      | U64_field get put \<Rightarrow> put (get c) c'
      | BOOL_field get put \<Rightarrow> put (get c) c'
      | MEMORD_field get put \<Rightarrow> put (get c) c')"

lemma memorder_dump: "map fst (filter (\<lambda>m. snd m = x) kMemOrders) =
    [case x of Conservative \<Rightarrow> ''conservative'' | Bypass \<Rightarrow> ''bypass'' | Speculative \<Rightarrow> ''speculative'']"
  by (cases x) (simp_all add: kMemOrders_def)

lemma plain_show: "plain (show_nat n)"
proof -
  have all: "list_all (\<lambda>d. \<not> is_trailing (digit_char d) \<and> digit_char d \<noteq> CHR ''#'' \<and>
      digit_char d \<noteq> CHR ''='' \<and> digit_char d \<noteq> CHR 0x00) [0..<10]"
    by code_simp
  then show ?thesis
    using show_nat_digits [of n] unfolding plain_def list_all_iff
    by (metis atLeastLessThan_iff le0 set_upt show_nat_ne)
qed

lemma plain_literals: "plain ''0''" "plain ''1''" "plain ''conservative''" "plain ''bypass''" "plain ''speculative''"
  unfolding plain_def is_trailing_def is_blank_def by simp_all

text \<open>What is written for a knob is one value, which reads back as the value of the field.\<close>

lemma dump_one:
  "\<exists>v. dump_field k c = [v] \<and> plain v \<and> length v \<le> 20 \<and> set_field k v c' = Some (copy_field k c c')"
proof (cases k)
  case (U32_field get put)
  have n: "unat (get c) < 10 ^ Suc 19" "unat (get c) < 2 ^ 64" "unat (get c) < 4294967296"
    using unat_less_pow32 [of "get c"] by simp_all
  have w: "word_of_nat (unat (get c)) = (ucast (get c) :: u64)" by simp
  have "unat (ucast (get c) :: u64) = unat (get c)"
    using n(3) by (simp add: unsigned_ucast_eq take_bit_nat_eq_self)
  then have "(ucast (get c) :: u64) \<le> 0xFFFFFFFF" using n(3) by (simp add: word_le_nat_alt)
  moreover have "ucast (ucast (get c) :: u64) = get c"
    by (rule bit_word_eqI) (simp add: bit_simps)
  ultimately show ?thesis
    using length_show_nat [OF n(1)] parse_show [OF n(2)] plain_show w
    by (simp add: U32_field dump_field_def set_field_def copy_field_def not_less)
next
  case (U64_field get put)
  have n: "unat (get c) < 2 ^ 64" using unsigned_less [of "get c"] by simp
  then have "unat (get c) < 10 ^ Suc 19" by simp
  from length_show_nat [OF this] show ?thesis
    using parse_show [OF n] plain_show
    by (simp add: U64_field dump_field_def set_field_def copy_field_def)
next
  case (BOOL_field get put)
  then show ?thesis using plain_literals by (simp add: dump_field_def set_field_def copy_field_def)
next
  case (MEMORD_field get put)
  then show ?thesis
    using plain_literals
    by (cases "get c") (simp_all add: dump_field_def memorder_dump set_field_def copy_field_def kMemOrders_def)
qed

lemma knob_names:
  "list_all (\<lambda>k. fst k \<noteq> [] \<and> length (fst k) \<le> 20 \<and> list_all (\<lambda>c. \<not> is_trailing c \<and> c \<noteq> CHR ''#'' \<and>
     c \<noteq> CHR ''='' \<and> c \<noteq> CHR 0x00) (fst k)) kKnobs"
  by (simp add: kKnobs_def is_trailing_def is_blank_def)

lemma knob_distinct: "distinct (map fst kKnobs)"
  by (simp add: kKnobs_def)

lemma set_knob_find:
  "distinct (map fst ks) \<Longrightarrow> k \<in> set ks \<Longrightarrow> set_field (snd k) v c = Some c' \<Longrightarrow>
     set_knob_in ks (fst k) v where c = Inr c'"
  by (induction ks) (auto simp: image_iff)

lemma dump_lines:
  assumes "set ks \<subseteq> set kKnobs"
  shows "config_lines path n
      (concat (concat (map (\<lambda>k. map (\<lambda>v. fst k @ '' = '' @ v @ [CHR 0x0A]) (dump_field (snd k) c)) ks))) c' =
    Inr (fold (\<lambda>k c'. copy_field (snd k) c c') ks c')"
  using assms
proof (induction ks arbitrary: n c')
  case Nil
  then show ?case by (simp add: config_lines.simps)
next
  case (Cons k ks)
  obtain v where v: "dump_field (snd k) c = [v]" "plain v" "length v \<le> 20"
      "set_field (snd k) v c' = Some (copy_field (snd k) c c')"
    using dump_one [of "snd k" c c'] by blast
  have "k \<in> set kKnobs" using Cons.prems by simp
  then have p: "plain (fst k)" "length (fst k) \<le> 20"
    using knob_names by (auto simp: list_all_iff plain_def)
  have "setKnob (fst k) v at c' = Inr (copy_field (snd k) c c')" for at
    unfolding setKnob_def by (rule set_knob_find [OF knob_distinct \<open>k \<in> set kKnobs\<close> v(4)])
  moreover have "length (fst k) + length v < 250" using p(2) v(3) by simp
  note assignment_line [OF p(1) v(2) this, of path n
      "concat (concat (map (\<lambda>k. map (\<lambda>v. fst k @ '' = '' @ v @ [CHR 0x0A]) (dump_field (snd k) c)) ks))" c']
  ultimately show ?case using Cons.IH Cons.prems v(1) by simp
qed

lemma copy_all:
  "fold (\<lambda>k c'. copy_field (snd k) c c') kKnobs c' =
     c\<lparr>cfg_trace := cfg_trace c', cfg_dumpRegs := cfg_dumpRegs c', cfg_diffCheck := cfg_diffCheck c'\<rparr>"
  by (simp add: kKnobs_def copy_field_def)

text \<open>
  C35. A written configuration reads back as itself: loading the text that \<^verbatim>\<open>dumpConfig\<close> writes
  into any configuration succeeds and gives every knob the value it had, whatever it had before;
  only the three command-line switches that are no knobs keep theirs.  So no knob is missing
  from the table, none shadows another, and no value is lost by printing or parsing.
\<close>

theorem dump_load_roundtrip:
  "loadConfigFile path (Some (dumpConfig c)) c' =
     Inr (c\<lparr>cfg_trace := cfg_trace c', cfg_dumpRegs := cfg_dumpRegs c', cfg_diffCheck := cfg_diffCheck c'\<rparr>)"
  using dump_lines [of kKnobs path 0 c c'] by (simp add: loadConfigFile_def dumpConfig_def copy_all)


section \<open>What a validated configuration guarantees\<close>

text \<open>
  The facts the components rely on: the geometry of a cache as exact powers of two, with the
  set count the cache's constructor computes, and no product that wraps.
\<close>

definition cache_ok :: "cache_config \<Rightarrow> bool" where
  "cache_ok k \<longleftrightarrow>
     (\<exists>lb \<le> 7. unat (cc_lineBytes k) = 2 ^ lb) \<and>
     (\<exists>sb < 32. unat (cc_sizeBytes k div (cc_lineBytes k * cc_ways k)) = 2 ^ sb) \<and>
     unat (cc_lineBytes k * cc_ways k) = unat (cc_lineBytes k) * unat (cc_ways k) \<and>
     cc_ways k \<noteq> 0 \<and> cc_mshrs k \<noteq> 0 \<and> cc_wbq k \<noteq> 0"

definition core_ok :: "sim_config \<Rightarrow> bool" where
  "core_ok c \<longleftrightarrow>
     33 \<le> unat (cfg_physRegs c) \<and> unat (cfg_physRegs c) \<le> 255 \<and>
     1 \<le> unat (cfg_width c) \<and> unat (cfg_width c) \<le> 8 \<and>
     unat (fetchBlockBytes c) \<in> {8, 16, 32, 64} \<and>
     unat (fetchBlockBytes c) div 4 \<le> unat (cfg_fetchQSize c) \<and>
     cfg_robSize c \<noteq> 0 \<and> cfg_iqSize c \<noteq> 0 \<and> cfg_lsqSize c \<noteq> 0 \<and> cfg_sbSize c \<noteq> 0 \<and>
     1 \<le> unat (cfg_aluCount c) \<and> unat (cfg_aluCount c) \<le> 8 \<and> cfg_wbPorts c \<noteq> 0 \<and>
     1 \<le> unat (cfg_aguCount c) \<and> unat (cfg_aguCount c) \<le> 8 \<and>
     1 \<le> unat (cfg_dataPorts c) \<and> unat (cfg_dataPorts c) \<le> 8 \<and>
     cfg_mulLatency c \<noteq> 0 \<and> cfg_divLatency c \<noteq> 0 \<and> 65536 \<le> unat (cfg_memBytes c)"

definition caches_ok :: "sim_config \<Rightarrow> bool" where
  "caches_ok c \<longleftrightarrow> cfg_flatMemory c \<or>
     (cache_ok (cfg_l1i c) \<and> cache_ok (cfg_l1d c) \<and> cache_ok (cfg_l2 c) \<and>
      cc_lineBytes (cfg_l1i c) = cc_lineBytes (cfg_l1d c) \<and>
      cc_lineBytes (cfg_l1d c) = cc_lineBytes (cfg_l2 c) \<and>
      unat (fetchBlockBytes c) dvd unat (cc_lineBytes (cfg_l1i c)))"

definition predictor_ok :: "sim_config \<Rightarrow> bool" where
  "predictor_ok c \<longleftrightarrow>
     1 \<le> unat (cfg_phtBits c) \<and> unat (cfg_phtBits c) \<le> 24 \<and> unat (cfg_ghrBits c) \<le> 30 \<and>
     cfg_btbEntries c \<noteq> 0 \<and> cfg_rasEntries c \<noteq> 0 \<and> cfg_depTableSize c \<noteq> 0 \<and> cfg_btbWays c \<noteq> 0 \<and>
     unat (cfg_btbWays c) dvd unat (cfg_btbEntries c) \<and> unat (cfg_tageTables c) \<le> 12 \<and>
     (cfg_tageTables c \<noteq> 0 \<longrightarrow>
        4 \<le> unat (cfg_tageTableBits c) \<and> unat (cfg_tageTableBits c) \<le> 16 \<and>
        4 \<le> unat (cfg_tageTagBits c) \<and> unat (cfg_tageTagBits c) \<le> 16 \<and>
        1 \<le> unat (cfg_tageMinHist c) \<and> unat (cfg_tageMinHist c) \<le> unat (cfg_tageMaxHist c) \<and>
        unat (cfg_tageMaxHist c) \<le> 1024)"

lemma andThen_Inr: "andThen r f = Inr y \<longleftrightarrow> (\<exists>x. r = Inr x \<and> f x = Inr y)"
  by (cases r) (simp_all add: andThen_def)

lemma require_Inr: "require b what = Inr u \<longleftrightarrow> b"
  by (simp add: require_def)

lemma one_le_word: "(1 :: u32) \<le> w \<longleftrightarrow> w \<noteq> 0"
  by (auto simp: word_le_nat_alt unat_gt_0 Suc_le_eq)

lemma small_power: "(2 :: nat) ^ n \<le> 2 ^ k \<longleftrightarrow> n \<le> k"
  by simp

lemma validate_cache_ok:
  assumes "validate_cache k = Inr u"
  shows "cache_ok k"
proof -
  let ?l = "unat (cc_lineBytes k)" and ?s = "unat (cc_sizeBytes k)" and ?w = "unat (cc_ways k)"
  define nl where "nl = (if cc_ways k \<noteq> 0 then cc_sizeBytes k div cc_lineBytes k else 0)"
  have "\<not> (cc_ways k \<noteq> 0 \<and> cc_lineBytes k = 0)" using assms by (auto simp: validate_cache_def)
  then have all: "(has_single_bit (cc_lineBytes k) \<and> cc_lineBytes k \<le> 128) \<and>
      (cc_ways k \<ge> 1 \<and> nl mod cc_ways k = 0 \<and> has_single_bit (nl div cc_ways k)) \<and>
      (cc_mshrs k \<ge> 1 \<and> cc_wbq k \<ge> 1)"
    using assms unfolding validate_cache_def nl_def [symmetric] Let_def
    by (simp only: if_False andThen_Inr require_Inr simp_thms ex_simps)
  then have c: "has_single_bit (cc_lineBytes k)" "cc_lineBytes k \<le> 128" "cc_ways k \<noteq> 0" "cc_mshrs k \<noteq> 0"
    "cc_wbq k \<noteq> 0"
    by (simp_all only: one_le_word simp_thms)
  have d: "has_single_bit (cc_sizeBytes k div cc_lineBytes k div cc_ways k)"
    using all c(3) by (simp only: nl_def if_True simp_thms not_False_eq_True)
  obtain lb where lb: "?l = 2 ^ lb"
    using c(1) single_bit_power [of "cc_lineBytes k"] unfolding has_single_bit_def by metis
  have "2 ^ lb \<le> (2 :: nat) ^ 7" using c(2) lb by (simp add: word_le_nat_alt)
  then have lb7: "lb \<le> 7" by (simp only: small_power)
  obtain sb where "sb < LENGTH(32)" and
      sb2: "unat (cc_sizeBytes k div cc_lineBytes k div cc_ways k) = 2 ^ sb"
    using d unfolding has_single_bit_def by (metis single_bit_power)
  then have sb: "sb < 32" "unat (cc_sizeBytes k div cc_lineBytes k div cc_ways k) = 2 ^ sb" by simp_all
  have div: "?s div ?l div ?w = 2 ^ sb" using sb(2) by (simp add: unat_div)
  then have "1 \<le> ?s div (?l * ?w)" by (simp add: div_mult2_eq)
  then have "?l * ?w \<le> ?s" using div_greater_zero_iff [of ?s "?l * ?w"] by simp
  then have small: "?l * ?w < 4294967296" using unat_less_pow32 [of "cc_sizeBytes k"] by simp
  then have m: "unat (cc_lineBytes k * cc_ways k) = ?l * ?w" by (simp add: unat_word_ariths)
  then have "unat (cc_sizeBytes k div (cc_lineBytes k * cc_ways k)) = 2 ^ sb"
    using div by (simp add: unat_div div_mult2_eq)
  then show ?thesis using lb lb7 sb(1) m c by (auto simp: cache_ok_def)
qed

lemma fetch_sizes:
  assumes "w \<ge> 8" "w \<le> 64" "w AND (w - 1) = (0 :: u32)"
  shows "unat w \<in> {8, 16, 32, 64}"
proof -
  have "w \<noteq> 0" using assms(1) by auto
  then obtain n where n: "unat w = 2 ^ n" using assms(3) by (rule single_bit_power)
  have "(2 :: nat) ^ 3 \<le> 2 ^ n" "(2 :: nat) ^ n \<le> 2 ^ 6" using assms(1,2) n by (simp_all add: word_le_nat_alt)
  then have "3 \<le> n" "n \<le> 6" by (simp_all only: small_power)
  then have "n = 3 \<or> n = 4 \<or> n = 5 \<or> n = 6" by linarith
  then show ?thesis using n by auto
qed

lemma validate_core_ok:
  assumes "validate_core c = Inr u" "cfg_memBytes c \<ge> 64 * 1024"
  shows "core_ok c"
proof -
  have f: "unat (fetchBlockBytes c) \<in> {8, 16, 32, 64}"
    by (rule fetch_sizes) (use assms(1) in \<open>simp_all add: validate_core_def Let_def andThen_Inr require_Inr\<close>)
  then show ?thesis
    using assms
    by (simp add: validate_core_def Let_def andThen_Inr require_Inr core_ok_def one_le_word
        word_le_nat_alt unat_div Suc_le_eq unat_gt_0)
qed

lemma validate_caches_ok:
  assumes "validate_caches c = Inr u"
  shows "caches_ok c"
proof (cases "cfg_flatMemory c")
  case False
  have "cc_lineBytes (cfg_l1i c) mod fetchBlockBytes c = 0"
    using assms False unfolding validate_caches_def andThen_Inr require_Inr if_not_P [OF False] by blast
  from arg_cong [OF this, of unat] have "unat (fetchBlockBytes c) dvd unat (cc_lineBytes (cfg_l1i c))"
    by (simp add: unat_mod mod_eq_0_iff_dvd)
  then show ?thesis
    using assms False validate_cache_ok
    by (auto simp: validate_caches_def andThen_Inr require_Inr caches_ok_def)
qed (simp add: caches_ok_def)

lemma validate_predictor_ok:
  assumes "validate_predictor c = Inr u"
  shows "predictor_ok c"
proof -
  have "unat (cfg_btbEntries c mod cfg_btbWays c) = 0"
    using assms by (simp add: validate_predictor_def andThen_Inr require_Inr)
  then have "unat (cfg_btbWays c) dvd unat (cfg_btbEntries c)" by (simp add: unat_mod mod_eq_0_iff_dvd)
  then show ?thesis
    using assms
    by (auto simp: validate_predictor_def andThen_Inr require_Inr predictor_ok_def one_le_word
        word_le_nat_alt Suc_le_eq unat_gt_0 split: if_splits)
qed

text \<open>
  C37. What validation guarantees, and no more.  An accepted configuration
  is the given one, with the derived number of physical registers filled in; accepting is
  stable; every capacity is positive; the fetch block is 8, 16, 32 or 64 bytes and divides the
  line; each cache has a power-of-two line size up to 128 and a power-of-two set count, and the
  product of line size and ways does not wrap; and the predictor's sizes are in range.  It bounds
  neither the memory size (4 GiB and more is accepted) nor the length of the TAGE history ring.
\<close>

theorem validate_guarantees:
  assumes "validateConfig c0 = Inr c"
  shows "core_ok c \<and> caches_ok c \<and> predictor_ok c \<and> validateConfig c = Inr c \<and>
    c = (if cfg_physRegs c0 = 0 then c0\<lparr>cfg_physRegs := 32 + cfg_robSize c0\<rparr> else c0)"
proof -
  have parts: "validate_core c = Inr ()" "validate_caches c = Inr ()" "validate_predictor c = Inr ()"
    "cfg_memBytes c \<ge> 64 * 1024"
    "c = (if cfg_physRegs c0 = 0 then c0\<lparr>cfg_physRegs := 32 + cfg_robSize c0\<rparr> else c0)"
    using assms by (auto simp: validateConfig_def Let_def andThen_Inr require_Inr)
  note core = validate_core_ok [OF parts(1,4)]
  then have "cfg_physRegs c \<noteq> 0" by (auto simp: core_ok_def)
  then have "validateConfig c = Inr c"
    using parts(1-4) by (simp add: validateConfig_def andThen_def require_def)
  then show ?thesis
    using core validate_caches_ok [OF parts(2)] validate_predictor_ok [OF parts(3)] parts(5) by blast
qed

theorem validate_guarantees_witness:
  "core_ok (default_config\<lparr>cfg_physRegs := 64\<rparr>)"
proof -
  have "validateConfig default_config = Inr (default_config\<lparr>cfg_physRegs := 64\<rparr>)"
    by (simp add: validateConfig_def default_config_def validate_core_def validate_caches_def
        validate_cache_def validate_predictor_def fetchBlockBytes_def has_single_bit_def andThen_def
        require_def Let_def)
  from validate_guarantees [OF this] show ?thesis by blast
qed

section \<open>Where the configuration code does not do what it says\<close>

text \<open>
  A cache line size of zero is not reported as a bad configuration: the set count is computed,
  with a division by the line size, before the line size is checked.
\<close>

theorem zero_line_divides:
  "validateConfig (default_config\<lparr>cfg_l1d := (cfg_l1d default_config)\<lparr>cc_lineBytes := 0\<rparr>\<rparr>) =
     Inl Division_by_zero"
  by (simp add: validateConfig_def default_config_def validate_core_def validate_caches_def
      validate_cache_def fetchBlockBytes_def has_single_bit_def andThen_def require_def Let_def)

text \<open>
  Errors of the configuration are meant to be fatal, but a number whose suffix makes it too
  large is taken modulo the word size: eighteen quadrillion kilobytes set a knob to one kilobyte.
\<close>

theorem suffix_wraps:
  "parseNum ''18014398509481985k'' = Some 1024 \<and>
   setKnob ''l1d.size'' ''18014398509481985k'' Option_O c =
     Inr (c\<lparr>cfg_l1d := (cfg_l1d c)\<lparr>cc_sizeBytes := 1024\<rparr>\<rparr>)"
proof -
  have p: "parseNum ''18014398509481985k'' = Some 1024"
    by (simp add: parseNum_def strtoull_def first_is_def c_isspace_def digit_val_def Let_def)
  then show ?thesis by (simp add: setKnob_def kKnobs_def set_field_def)
qed

text \<open>
  A comment line longer than the line buffer is read in pieces, and only the first piece is
  seen to be a comment: the text after the 255th character is taken as a setting.
\<close>

theorem long_comment_is_split:
  assumes "length cs = 254" "\<forall>c \<in> set cs. c \<noteq> CHR 0x0A" "plain key" "plain v" "length key + length v < 250"
  shows "config_lines path n (CHR ''#'' # cs @ key @ '' = '' @ v @ [CHR 0x0A]) c =
    setKnob key v (Config_line path (n + 2)) c"
proof -
  let ?rest = "key @ '' = '' @ v @ [CHR 0x0A]"
  let ?all = "CHR ''#'' # cs @ ?rest"
  have pre: "takeWhile (\<lambda>ch. ch \<noteq> CHR 0x0A) ((CHR ''#'' # cs) @ ?rest) =
      (CHR ''#'' # cs) @ takeWhile (\<lambda>ch. ch \<noteq> CHR 0x0A) ?rest"
    by (rule takeWhile_append2) (use assms(2) in auto)
  have f: "fgets ?all = (CHR ''#'' # cs, ?rest)"
    using assms(1) pre by (simp add: fgets_def Let_def)
  have l: "config_line path m (CHR ''#'' # cs) c = Inr c" for m
    by (simp add: config_line_def c_str_def trim_def Let_def)
  have "config_lines path n ?all c = config_lines path (n + 1) ?rest c"
    unfolding config_lines.simps [of path n ?all c] f by (simp add: l)
  moreover have "config_lines path (n + 1) ?rest c = setKnob key v (Config_line path (n + 2)) c"
    using assignment_line [OF assms(3-5), of path "n + 1" "[]" c]
    by (auto simp: config_lines.simps split: sum.split)
  ultimately show ?thesis by simp
qed

theorem long_comment_is_split_witness:
  "config_lines path 0 (CHR ''#'' # replicate 254 (CHR ''-'') @ ''width = 4'' @ [CHR 0x0A]) c =
     Inr (c\<lparr>cfg_width := 4\<rparr>)"
proof -
  have "plain ''width''" "plain ''4''"
    unfolding plain_def is_trailing_def is_blank_def by simp_all
  then have "config_lines path 0 (CHR ''#'' # replicate 254 (CHR ''-'') @ ''width'' @ '' = '' @ ''4'' @ [CHR 0x0A]) c =
      setKnob ''width'' ''4'' (Config_line path 2) c"
    using long_comment_is_split [of "replicate 254 (CHR ''-'')" "''width''" "''4''" path 0 c] by (simp add: numeral_2_eq_2)
  also have "\<dots> = Inr (c\<lparr>cfg_width := 4\<rparr>)"
  proof -
    have "parseNum ''4'' = Some 4"
      by (simp add: parseNum_def strtoull_def first_is_def c_isspace_def digit_val_def Let_def)
    then show ?thesis by (simp add: setKnob_def kKnobs_def set_field_def)
  qed
  finally show ?thesis by simp
qed

end
