(* ===== verification/Predictor.thy ===== *)
theory Predictor
  imports Isa Config
begin

text \<open>
  Model of \<^verbatim>\<open>core/predictor.h\<close> and \<^verbatim>\<open>core/predictor.cpp\<close>: gshare and TAGE direction prediction, the
  branch target buffer and the return-address stack, with checkpoints.  The history lengths of
  the TAGE tables are computed in floating point; they are an argument of the constructor here.
  The scratch vectors \<^verbatim>\<open>idx\<close> and \<^verbatim>\<open>tag\<close>, which \<^verbatim>\<open>tageLookup\<close> fills for its caller, are part of
  what the lookup returns.
\<close>

section \<open>State\<close>

record checkpoint =
  cp_hist :: u32
  cp_rasN :: u32
  cp_rasTop :: u32

definition checkpoint0 :: checkpoint where
  "checkpoint0 = \<lparr>cp_hist = 0, cp_rasN = 0, cp_rasTop = 0\<rparr>"

record prediction =
  pr_taken :: bool
  pr_target :: u32
  pr_phtIdx :: u32
  pr_before :: checkpoint

datatype kind = COND | UNCOND | CALL | RET

record btb_entry =
  b_valid :: bool
  b_kind :: kind
  b_pc :: u32
  b_target :: u32
  b_lastUse :: u64

definition btb_entry0 :: btb_entry where
  "btb_entry0 = \<lparr>b_valid = False, b_kind = COND, b_pc = 0, b_target = 0, b_lastUse = 0\<rparr>"

text \<open>The counter is a signed byte.\<close>

record tage_entry =
  t_ctr :: "8 word"
  t_u :: u8
  t_tag :: u16

definition tage_entry0 :: tage_entry where
  "tage_entry0 = \<lparr>t_ctr = 0, t_u = 0, t_tag = 0\<rparr>"

record predictor =
  p_rasRepair :: bool
  p_pht :: "u8 list"
  p_ghr :: u32
  p_ghrMask :: u32
  p_btb :: "btb_entry list"
  p_btbWays :: u32
  p_btbSets :: u32
  p_btbClock :: u64
  p_ras :: "u32 list"
  p_rasN :: u32
  p_nTables :: u32
  p_tableBits :: u32
  p_tagBits :: u32
  p_histLen :: "u32 list"
  p_tables :: "tage_entry list list"
  p_histBits :: "u8 list"
  p_folded :: "u16 list"
  p_histPos :: u32
  p_ringMask :: u32
  p_useAltOnWeak :: "8 word"
  p_updates :: u32
  p_lfsr :: u32

text \<open>The loop that doubles the ring; it does not end when the bound is above \<open>2 ^ 31\<close>.\<close>

partial_function (option) ring_size :: "u32 \<Rightarrow> u32 \<Rightarrow> u32 option" where
  "ring_size bound ring = (if ring < bound then ring_size bound (push_bit 1 ring) else Some ring)"

definition predictor_base :: "sim_config \<Rightarrow> predictor" where
  "predictor_base cfg =
     \<lparr>p_rasRepair = cfg_rasRepair cfg, p_pht = replicate (2 ^ unat (cfg_phtBits cfg)) 1, p_ghr = 0,
      p_ghrMask = (if cfg_ghrBits cfg \<noteq> 0 then push_bit (unat (cfg_ghrBits cfg)) 1 - 1 else 0),
      p_btb = replicate (unat (cfg_btbEntries cfg)) btb_entry0, p_btbWays = cfg_btbWays cfg,
      p_btbSets = cfg_btbEntries cfg div cfg_btbWays cfg, p_btbClock = 0,
      p_ras = replicate (unat (cfg_rasEntries cfg)) 0, p_rasN = 0, p_nTables = cfg_tageTables cfg,
      p_tableBits = cfg_tageTableBits cfg, p_tagBits = cfg_tageTagBits cfg, p_histLen = [],
      p_tables = [], p_histBits = [], p_folded = [], p_histPos = 0, p_ringMask = 0,
      p_useAltOnWeak = 0, p_updates = 0, p_lfsr = 0xace1\<rparr>"

definition predictor_new :: "u32 list \<Rightarrow> sim_config \<Rightarrow> predictor option" where
  "predictor_new histLen cfg =
     (let p = predictor_base cfg; n = cfg_tageTables cfg in
      if n = 0 then Some p
      else case ring_size (cfg_tageMaxHist cfg + 2 * (cfg_robSize cfg + cfg_fetchQSize cfg) + 64) 64 of
             None \<Rightarrow> None
           | Some ring \<Rightarrow>
               Some (p\<lparr>p_histLen := histLen,
                       p_tables := replicate (unat n) (replicate (2 ^ unat (cfg_tageTableBits cfg)) tage_entry0),
                       p_ringMask := ring - 1, p_histBits := replicate (unat ring) 0,
                       p_folded := replicate (unat ring * unat n * 3) 0\<rparr>))"

section \<open>Lookup\<close>

definition kindOf :: "instr \<Rightarrow> kind" where
  "kindOf ins =
     (if isBranch (ins_op ins) then COND
      else if ins_rd ins = 1 then CALL
      else if ins_op ins = JALR \<and> ins_rd ins = 0 \<and> ins_rs1 ins = 1 then RET
      else UNCOND)"

definition phtIndex :: "u32 \<Rightarrow> predictor \<Rightarrow> u32" where
  "phtIndex pc p =
     ((drop_bit 2 pc) XOR (if p_nTables p \<noteq> 0 then 0 else p_ghr p)) AND (word_of_nat (length (p_pht p) - 1))"

text \<open>The first entry of the set of \<open>pc\<close>.\<close>

definition btb_set :: "u32 \<Rightarrow> predictor \<Rightarrow> nat" where
  "btb_set pc p = unat (drop_bit 2 pc mod p_btbSets p) * unat (p_btbWays p)"

text \<open>The first way that satisfies the test, among those of the list.\<close>

primrec find_way :: "(nat \<Rightarrow> bool) \<Rightarrow> nat list \<Rightarrow> nat option" where
  "find_way f [] = None"
| "find_way f (w # ws) = (if f w then Some w else find_way f ws)"

text \<open>\<^verbatim>\<open>btbFind\<close> returns a pointer to the entry, here its index, and stamps the entry.\<close>

definition btbFind :: "u32 \<Rightarrow> predictor \<Rightarrow> nat option \<times> predictor" where
  "btbFind pc p =
     (case find_way (\<lambda>w. b_valid (p_btb p ! (btb_set pc p + w)) \<and> b_pc (p_btb p ! (btb_set pc p + w)) = pc)
             [0..<unat (p_btbWays p)] of
        None \<Rightarrow> (None, p)
      | Some w \<Rightarrow>
          (let i = btb_set pc p + w in
           (Some i, p\<lparr>p_btbClock := p_btbClock p + 1,
                      p_btb := (p_btb p)[i := (p_btb p ! i)\<lparr>b_lastUse := p_btbClock p + 1\<rparr>]\<rparr>)))"

definition hist_fold :: "u16 \<Rightarrow> u32 \<Rightarrow> u32 \<Rightarrow> u32 \<Rightarrow> u32 \<Rightarrow> u16" where
  "hist_fold cmp inb outb len width =
     (let c = push_bit 1 (ucast cmp) XOR inb;
          c = c XOR push_bit (unat (len mod width)) outb;
          c = c XOR drop_bit (unat width) c
      in ucast (c AND (push_bit (unat width) 1 - 1)))"

text \<open>Where the folds of a history position start.\<close>

definition folds_at :: "u32 \<Rightarrow> predictor \<Rightarrow> nat" where
  "folds_at pos p = unat (pos AND p_ringMask p) * unat (p_nTables p) * 3"

definition bool_bit :: "bool \<Rightarrow> 'a::len word" where
  "bool_bit b = (if b then 1 else 0)"

text \<open>The loop over the tables of \<^verbatim>\<open>pushHistory\<close>: the new folds of table \<open>i\<close>.\<close>

definition push_fold :: "bool \<Rightarrow> u32 \<Rightarrow> predictor \<Rightarrow> nat \<Rightarrow> u16 list \<Rightarrow> u16 list" where
  "push_fold taken old p i fs =
     (let outb = ucast (p_histBits p ! unat ((p_histPos p - p_histLen p ! i) AND p_ringMask p));
          ob = folds_at old p; nb = folds_at (p_histPos p) p; inb = bool_bit taken; len = p_histLen p ! i;
          fs = fs[nb + 3 * i := hist_fold (fs ! (ob + 3 * i)) inb outb len (p_tableBits p)];
          fs = fs[nb + 3 * i + 1 := hist_fold (fs ! (ob + 3 * i + 1)) inb outb len (p_tagBits p)]
      in fs[nb + 3 * i + 2 := hist_fold (fs ! (ob + 3 * i + 2)) inb outb len (p_tagBits p - 1)])"

definition pushHistory :: "bool \<Rightarrow> predictor \<Rightarrow> predictor" where
  "pushHistory taken p =
     (if p_nTables p = 0
      then p\<lparr>p_ghr := (push_bit 1 (p_ghr p) OR bool_bit taken) AND p_ghrMask p\<rparr>
      else
        let old = p_histPos p;
            p = p\<lparr>p_histPos := old + 1\<rparr>;
            p = p\<lparr>p_histBits := (p_histBits p)[unat (p_histPos p AND p_ringMask p) := bool_bit taken]\<rparr>
        in p\<lparr>p_folded := fold (push_fold taken old p) [0..<unat (p_nTables p)] (p_folded p)\<rparr>)"

record lookup =
  k_provider :: "nat option"
  k_alt :: "nat option"
  k_providerPred :: bool
  k_altPred :: bool
  k_pred :: bool
  k_weak :: bool

text \<open>The loop from the longest table down: the first match provides, the second is the alternative.\<close>

fun tage_scan :: "(nat \<Rightarrow> bool) \<Rightarrow> nat list \<Rightarrow> nat option \<Rightarrow> nat option \<times> nat option" where
  "tage_scan m [] provider = (provider, None)"
| "tage_scan m (i # is) provider =
     (if m i
      then (case provider of None \<Rightarrow> tage_scan m is (Some i) | Some q \<Rightarrow> (Some q, Some i))
      else tage_scan m is provider)"

definition tage_index :: "u32 \<Rightarrow> u32 \<Rightarrow> predictor \<Rightarrow> nat \<Rightarrow> u32" where
  "tage_index pc pos p i =
     (let pp = drop_bit 2 pc; f = p_folded p ! (folds_at pos p + 3 * i) in
      (pp XOR drop_bit (unat (p_tableBits p - word_of_nat i mod p_tableBits p)) pp XOR ucast f)
        AND (push_bit (unat (p_tableBits p)) 1 - 1))"

definition tage_tag :: "u32 \<Rightarrow> u32 \<Rightarrow> predictor \<Rightarrow> nat \<Rightarrow> u32" where
  "tage_tag pc pos p i =
     (let pp = drop_bit 2 pc; f1 = p_folded p ! (folds_at pos p + 3 * i + 1);
          f2 = p_folded p ! (folds_at pos p + 3 * i + 2) in
      (pp XOR ucast f1 XOR push_bit 1 (ucast f2)) AND (push_bit (unat (p_tagBits p)) 1 - 1))"

definition tage_at :: "nat \<Rightarrow> u32 list \<Rightarrow> predictor \<Rightarrow> tage_entry" where
  "tage_at i idx p = p_tables p ! i ! unat (idx ! i)"

definition base_index :: "u32 \<Rightarrow> predictor \<Rightarrow> nat" where
  "base_index pc p = unat (drop_bit 2 pc AND word_of_nat (length (p_pht p) - 1))"

definition tageLookup :: "u32 \<Rightarrow> u32 \<Rightarrow> predictor \<Rightarrow> lookup \<times> u32 list \<times> u32 list" where
  "tageLookup pc pos p =
     (let n = unat (p_nTables p);
          idx = map (tage_index pc pos p) [0..<n];
          tag = map (tage_tag pc pos p) [0..<n];
          (provider, alt) = tage_scan (\<lambda>i. ucast (t_tag (tage_at i idx p)) = tag ! i) (rev [0..<n]) None;
          base = 2 \<le> p_pht p ! base_index pc p;
          altPred = (case alt of Some a \<Rightarrow> 0 \<le> sint (t_ctr (tage_at a idx p)) | None \<Rightarrow> base)
      in (case provider of
            None \<Rightarrow> \<lparr>k_provider = None, k_alt = alt, k_providerPred = base, k_altPred = altPred,
                     k_pred = base, k_weak = False\<rparr>
          | Some q \<Rightarrow>
              (let c = t_ctr (tage_at q idx p); providerPred = 0 \<le> sint c; weak = (c = 0 \<or> c = - 1) in
               \<lparr>k_provider = Some q, k_alt = alt, k_providerPred = providerPred, k_altPred = altPred,
                k_pred = (if weak \<and> 0 \<le> sint (p_useAltOnWeak p) then altPred else providerPred),
                k_weak = weak\<rparr>),
          idx, tag))"

definition predict :: "u32 \<Rightarrow> predictor \<Rightarrow> prediction \<times> predictor" where
  "predict pc p =
     (let rasIndex = (\<lambda>n. unat n mod length (p_ras p));
          before = \<lparr>cp_hist = (if p_nTables p \<noteq> 0 then p_histPos p else p_ghr p), cp_rasN = p_rasN p,
                    cp_rasTop = (if p_rasN p \<noteq> 0 then p_ras p ! rasIndex (p_rasN p - 1) else 0)\<rparr>;
          r = \<lparr>pr_taken = False, pr_target = 0, pr_phtIdx = phtIndex pc p, pr_before = before\<rparr>;
          (b, p) = btbFind pc p
      in case b of
           None \<Rightarrow> (r, p)
         | Some i \<Rightarrow>
             (let e = p_btb p ! i in
              case b_kind e of
                COND \<Rightarrow>
                  (let taken = (if p_nTables p \<noteq> 0 then k_pred (fst (tageLookup pc (p_histPos p) p))
                                else 2 \<le> p_pht p ! unat (pr_phtIdx r)) in
                   (r\<lparr>pr_taken := taken, pr_target := b_target e\<rparr>, pushHistory taken p))
              | CALL \<Rightarrow>
                  (r\<lparr>pr_taken := True, pr_target := b_target e\<rparr>,
                   p\<lparr>p_ras := (p_ras p)[rasIndex (p_rasN p) := pc + 4], p_rasN := p_rasN p + 1\<rparr>)
              | RET \<Rightarrow>
                  (if 0 < p_rasN p
                   then (r\<lparr>pr_taken := True, pr_target := p_ras p ! rasIndex (p_rasN p - 1)\<rparr>,
                         p\<lparr>p_rasN := p_rasN p - 1\<rparr>)
                   else (r\<lparr>pr_taken := True, pr_target := b_target e\<rparr>, p))
              | UNCOND \<Rightarrow> (r\<lparr>pr_taken := True, pr_target := b_target e\<rparr>, p)))"

section \<open>Flushes\<close>

definition pred_restore :: "checkpoint \<Rightarrow> predictor \<Rightarrow> predictor" where
  "pred_restore cp p =
     (let p = (if p_nTables p \<noteq> 0 then p\<lparr>p_histPos := cp_hist cp\<rparr> else p\<lparr>p_ghr := cp_hist cp\<rparr>) in
      if p_rasRepair p
      then let p = p\<lparr>p_rasN := cp_rasN cp\<rparr> in
           if p_rasN p \<noteq> 0
           then p\<lparr>p_ras := (p_ras p)[unat (p_rasN p - 1) mod length (p_ras p) := cp_rasTop cp]\<rparr>
           else p
      else p)"

definition pred_replay :: "u32 \<Rightarrow> instr \<Rightarrow> bool \<Rightarrow> predictor \<Rightarrow> predictor" where
  "pred_replay pc ins taken p =
     (let k = kindOf ins in
      if k = COND then pushHistory taken p
      else if p_rasRepair p \<and> k = CALL
      then p\<lparr>p_ras := (p_ras p)[unat (p_rasN p) mod length (p_ras p) := pc + 4], p_rasN := p_rasN p + 1\<rparr>
      else if p_rasRepair p \<and> k = RET \<and> 0 < p_rasN p then p\<lparr>p_rasN := p_rasN p - 1\<rparr>
      else p)"

section \<open>Training\<close>

text \<open>\<^verbatim>\<open>nudge\<close> at a signed byte and at an unsigned one.\<close>

definition nudge_s :: "bool \<Rightarrow> int \<Rightarrow> int \<Rightarrow> 8 word \<Rightarrow> 8 word" where
  "nudge_s up lo hi c =
     (if up \<and> sint c < hi then c + 1 else if \<not> up \<and> lo < sint c then c - 1 else c)"

definition nudge_u :: "bool \<Rightarrow> int \<Rightarrow> int \<Rightarrow> u8 \<Rightarrow> u8" where
  "nudge_u up lo hi c =
     (if up \<and> uint c < hi then c + 1 else if \<not> up \<and> lo < uint c then c - 1 else c)"

definition tage_put :: "nat \<Rightarrow> u32 list \<Rightarrow> (tage_entry \<Rightarrow> tage_entry) \<Rightarrow> predictor \<Rightarrow> predictor" where
  "tage_put i idx f p =
     p\<lparr>p_tables := (p_tables p)[i := (p_tables p ! i)[unat (idx ! i) := f (tage_at i idx p)]]\<rparr>"

definition train_base :: "u32 \<Rightarrow> bool \<Rightarrow> predictor \<Rightarrow> predictor" where
  "train_base pc taken p =
     p\<lparr>p_pht := (p_pht p)[base_index pc p := nudge_u taken 0 3 (p_pht p ! base_index pc p)]\<rparr>"

text \<open>The first part of \<^verbatim>\<open>tageUpdate\<close>: the counters of the lookup.\<close>

definition tage_train :: "u32 \<Rightarrow> bool \<Rightarrow> lookup \<Rightarrow> u32 list \<Rightarrow> predictor \<Rightarrow> predictor" where
  "tage_train pc taken l idx p =
     (case k_provider l of
        None \<Rightarrow> train_base pc taken p
      | Some q \<Rightarrow>
          (let differ = (k_providerPred l \<noteq> k_altPred l);
               p = (if k_weak l \<and> differ
                    then p\<lparr>p_useAltOnWeak := nudge_s (k_altPred l = taken) (- 8) 7 (p_useAltOnWeak p)\<rparr>
                    else p);
               p = (if differ
                    then tage_put q idx (\<lambda>e. e\<lparr>t_u := nudge_u (k_providerPred l = taken) 0 3 (t_u e)\<rparr>) p
                    else p);
               p = tage_put q idx (\<lambda>e. e\<lparr>t_ctr := nudge_s taken (- 4) 3 (t_ctr e)\<rparr>) p
           in if k_alt l = None \<and> k_weak l then train_base pc taken p else p))"

text \<open>The tables above the provider.\<close>

definition longer_tables :: "lookup \<Rightarrow> predictor \<Rightarrow> nat list" where
  "longer_tables l p =
     [(case k_provider l of None \<Rightarrow> 0 | Some q \<Rightarrow> q + 1)..<unat (p_nTables p)]"

definition next_lfsr :: "u32 \<Rightarrow> u32" where
  "next_lfsr r = drop_bit 1 r XOR (- (r AND 1) AND 0xb400)"

text \<open>The second part: a misprediction allocates an entry in a longer table.\<close>

definition tage_allocate :: "bool \<Rightarrow> lookup \<Rightarrow> u32 list \<Rightarrow> u32 list \<Rightarrow> predictor \<Rightarrow> predictor" where
  "tage_allocate taken l idx tag p =
     (if k_pred l \<noteq> taken \<and> (case k_provider l of None \<Rightarrow> True | Some q \<Rightarrow> q < unat (p_nTables p) - 1)
      then
        let p = p\<lparr>p_lfsr := next_lfsr (p_lfsr p)\<rparr>;
            free = filter (\<lambda>j. t_u (tage_at j idx p) = 0) (longer_tables l p)
        in if free = []
           then fold (\<lambda>j p. if 0 < t_u (tage_at j idx p)
                           then tage_put j idx (\<lambda>e. e\<lparr>t_u := t_u e - 1\<rparr>) p else p)
                  (longer_tables l p) p
           else let j = (if tl free \<noteq> [] \<and> p_lfsr p AND 3 = 0 then free ! 1 else hd free)
                in tage_put j idx
                     (\<lambda>e. e\<lparr>t_tag := ucast (tag ! j), t_ctr := (if taken then 0 else - 1), t_u := 0\<rparr>) p
      else p)"

definition tage_age :: "predictor \<Rightarrow> predictor" where
  "tage_age p =
     (let p = p\<lparr>p_updates := p_updates p + 1\<rparr> in
      if p_updates p AND (push_bit 18 1 - 1) = 0
      then p\<lparr>p_tables := map (map (\<lambda>e. e\<lparr>t_u := drop_bit 1 (t_u e)\<rparr>)) (p_tables p)\<rparr>
      else p)"

definition tageUpdate :: "u32 \<Rightarrow> bool \<Rightarrow> u32 \<Rightarrow> predictor \<Rightarrow> predictor" where
  "tageUpdate pc taken pos p =
     (let (l, idx, tag) = tageLookup pc pos p
      in tage_age (tage_allocate taken l idx tag (tage_train pc taken l idx p)))"

text \<open>
  The victim of the branch target buffer: the first free way, else the least recently used one.
  \<open>best\<close> is the way chosen so far.
\<close>

primrec btb_victim :: "predictor \<Rightarrow> nat \<Rightarrow> nat list \<Rightarrow> nat \<Rightarrow> nat" where
  "btb_victim p base [] best = best"
| "btb_victim p base (w # ws) best =
     (if \<not> b_valid (p_btb p ! (base + w)) then w
      else btb_victim p base ws
             (if b_lastUse (p_btb p ! (base + w)) < b_lastUse (p_btb p ! (base + best)) then w else best))"

definition btb_allocate :: "u32 \<Rightarrow> kind \<Rightarrow> u32 \<Rightarrow> predictor \<Rightarrow> predictor" where
  "btb_allocate pc k target p =
     (let (b, p) = btbFind pc p;
          i = (case b of Some i \<Rightarrow> i
               | None \<Rightarrow> btb_set pc p + btb_victim p (btb_set pc p) [0..<unat (p_btbWays p)] 0)
      in p\<lparr>p_btbClock := p_btbClock p + 1,
           p_btb := (p_btb p)[i := \<lparr>b_valid = True, b_kind = k, b_pc = pc, b_target = target,
                                   b_lastUse = p_btbClock p + 1\<rparr>]\<rparr>)"

definition pred_update ::
  "u32 \<Rightarrow> instr \<Rightarrow> bool \<Rightarrow> u32 \<Rightarrow> u32 \<Rightarrow> checkpoint \<Rightarrow> predictor \<Rightarrow> predictor" where
  "pred_update pc ins taken target phtIdx before p =
     (let k = kindOf ins;
          p = (if k = COND
               then if p_nTables p \<noteq> 0 then tageUpdate pc taken (cp_hist before) p
                    else let c = p_pht p ! unat phtIdx;
                             c = (if taken \<and> c < 3 then c + 1 else if \<not> taken \<and> 0 < c then c - 1 else c)
                         in p\<lparr>p_pht := (p_pht p)[unat phtIdx := c]\<rparr>
               else p)
      in if taken then btb_allocate pc k target p else p)"


section \<open>Folded histories\<close>

text \<open>The parity of the positions below \<open>n\<close> with a property.\<close>

primrec parity :: "(nat \<Rightarrow> bool) \<Rightarrow> nat \<Rightarrow> bool" where
  "parity P 0 = False"
| "parity P (Suc n) = (parity P n \<noteq> P n)"

lemma parity_shift: "parity P (Suc n) = (P 0 \<noteq> parity (\<lambda>k. P (Suc k)) n)"
  by (induction n) auto

lemma parity_False: "\<not> parity (\<lambda>j. False) n"
  by (induction n) auto

lemma parity_cong: "(\<And>j. j < n \<Longrightarrow> P j = Q j) \<Longrightarrow> parity P n = parity Q n"
  by (induction n) auto

text \<open>
  The reference: bit \<open>b\<close> of the folded history is the exclusive or of the history bits whose age
  is congruent to \<open>b\<close>.
\<close>

definition fold_bit :: "(nat \<Rightarrow> bool) \<Rightarrow> nat \<Rightarrow> nat \<Rightarrow> nat \<Rightarrow> bool" where
  "fold_bit h len w b = parity (\<lambda>j. j mod w = b \<and> h j) len"

definition is_fold :: "u16 \<Rightarrow> (nat \<Rightarrow> bool) \<Rightarrow> nat \<Rightarrow> nat \<Rightarrow> bool" where
  "is_fold c h len w \<longleftrightarrow> (\<forall>b < 16. bit c b \<longleftrightarrow> b < w \<and> fold_bit h len w b)"

definition push_bit_hist :: "bool \<Rightarrow> (nat \<Rightarrow> bool) \<Rightarrow> nat \<Rightarrow> bool" where
  "push_bit_hist t h j = (case j of 0 \<Rightarrow> t | Suc k \<Rightarrow> h k)"

lemma is_fold_cong: "(\<And>j. j < len \<Longrightarrow> h j = h' j) \<Longrightarrow> is_fold c h len w = is_fold c h' len w"
  unfolding is_fold_def fold_bit_def by (metis (no_types, lifting) parity_cong)

lemma bit_bool_bit [bit_simps]: "bit (bool_bit t :: 'a::len word) n \<longleftrightarrow> n = 0 \<and> t"
  by (auto simp: bool_bit_def bit_simps)

lemma bit_hist_fold:
  assumes "is_fold c h len w" "0 < w" "w \<le> 16" "unat width = w" "unat l = len" "b < w"
  shows "bit (hist_fold c (bool_bit t) (bool_bit u) l width) b \<longleftrightarrow>
    ((if b = 0 then bit c (w - 1) else bit c (b - 1)) \<noteq> (b = 0 \<and> t)) \<noteq> (b = len mod w \<and> u)"
proof -
  have high: "\<not> bit c n" if "w \<le> n" for n
    using assms(1) that bit_imp_le_length [of c n] by (auto simp: is_fold_def)
  have m: "unat (l mod width) = len mod w" using assms(4,5) by (simp add: unat_mod)
  have lt: "len mod w < w" using assms(2) by simp
  define c1 where "c1 = push_bit 1 (ucast c :: u32) XOR bool_bit t"
  define c2 where "c2 = c1 XOR push_bit (len mod w) (bool_bit u)"
  have sh: "bit (push_bit 1 (ucast c :: u32)) n \<longleftrightarrow> 0 < n \<and> bit c (n - 1)" if "n < 32" for n
    using that unfolding bit_push_bit_iff by (auto simp: bit_simps Suc_le_eq dest: bit_imp_le_length)
  have b1: "bit c1 n \<longleftrightarrow> (0 < n \<and> bit c (n - 1)) \<noteq> (n = 0 \<and> t)" if "n < 32" for n
    unfolding c1_def bit_xor_iff sh [OF that] by (simp add: bit_simps)
  have b2: "bit c2 n \<longleftrightarrow> ((0 < n \<and> bit c (n - 1)) \<noteq> (n = 0 \<and> t)) \<noteq> (n = len mod w \<and> u)" if "n < 32" for n
    using that b1 [OF that] by (auto simp: c2_def bit_simps)
  have "hist_fold c (bool_bit t) (bool_bit u) l width = ucast ((c2 XOR drop_bit w c2) AND (2 ^ w - 1))"
    by (simp add: hist_fold_def Let_def c1_def c2_def m assms(4))
  then have "bit (hist_fold c (bool_bit t) (bool_bit u) l width) b \<longleftrightarrow> bit c2 b \<noteq> bit c2 (w + b)"
    using assms(3,6) by (auto simp: bit_simps simp flip: mask_eq_exp_minus_1)
  moreover have "bit c2 (w + b) \<longleftrightarrow> b = 0 \<and> bit c (w - 1)"
  proof -
    have "w + b < 32" using assms(3,6) by simp
    from b2 [OF this] show ?thesis using lt assms(2) high [of "w + b - 1"] by (cases b) auto
  qed
  moreover have "b < 32" using assms(3,6) by simp
  ultimately show ?thesis using b2 [of b] by auto
qed

lemma bit_hist_fold_high:
  assumes "unat width = w" "w \<le> n" "n < 16"
  shows "\<not> bit (hist_fold c a d l width) n"
  using assms by (auto simp: hist_fold_def Let_def bit_simps simp flip: mask_eq_exp_minus_1)

lemma mod_Suc_shift:
  assumes "0 < w" "b < w"
  shows "Suc k mod w = b \<longleftrightarrow> k mod w = (if b = 0 then w - 1 else b - 1)"
  using assms by (auto simp: mod_Suc split: if_splits)

lemma hist_fold_correct:
  assumes "is_fold c h len w" "0 < w" "w \<le> 16" "unat width = w" "unat l = len" "0 < len" "u = h (len - 1)"
  shows "is_fold (hist_fold c (bool_bit t) (bool_bit u) l width) (push_bit_hist t h) len w"
  unfolding is_fold_def
proof (intro allI impI)
  fix b :: nat
  assume b16: "b < 16"
  show "bit (hist_fold c (bool_bit t) (bool_bit u) l width) b \<longleftrightarrow>
      b < w \<and> fold_bit (push_bit_hist t h) len w b"
  proof (cases "b < w")
    case True
    let ?b = "if b = 0 then w - 1 else b - 1"
    obtain n where n: "len = Suc n" using assms(6) by (cases len) auto
    have "fold_bit (push_bit_hist t h) len w b =
        ((b = 0 \<and> t) \<noteq> parity (\<lambda>k. Suc k mod w = b \<and> h k) n)"
      unfolding fold_bit_def n parity_shift by (auto simp: push_bit_hist_def)
    moreover have "parity (\<lambda>k. Suc k mod w = b \<and> h k) n = parity (\<lambda>k. k mod w = ?b \<and> h k) n"
      by (rule parity_cong) (simp add: mod_Suc_shift [OF assms(2) True])
    moreover have "fold_bit h len w ?b = (parity (\<lambda>k. k mod w = ?b \<and> h k) n \<noteq> (len mod w = b \<and> h n))"
      unfolding fold_bit_def n using mod_Suc_shift [OF assms(2) True, of n] by simp
    moreover have "bit c ?b \<longleftrightarrow> fold_bit h len w ?b"
    proof -
      have "?b < w" "?b < 16" using True b16 assms(2,3) by auto
      then show ?thesis using assms(1) by (simp add: is_fold_def)
    qed
    moreover have "bit (hist_fold c (bool_bit t) (bool_bit u) l width) b \<longleftrightarrow>
        (bit c ?b \<noteq> (b = 0 \<and> t)) \<noteq> (b = len mod w \<and> h n)"
      using bit_hist_fold [OF assms(1-5) True, of t u] assms(7) n by auto
    ultimately show ?thesis using True by auto
  next
    case False
    then show ?thesis using bit_hist_fold_high [OF assms(4) _ b16] by simp
  qed
qed


section \<open>The folds in the predictor\<close>

text \<open>The history as seen from position \<open>pos\<close>: age 0 is the newest bit.\<close>

definition hbit :: "predictor \<Rightarrow> u32 \<Rightarrow> nat \<Rightarrow> bool" where
  "hbit p pos j \<longleftrightarrow> p_histBits p ! unat ((pos - word_of_nat j) AND p_ringMask p) = 1"

definition fold_exact :: "predictor \<Rightarrow> u32 \<Rightarrow> bool" where
  "fold_exact p pos \<longleftrightarrow> (\<forall>i < unat (p_nTables p).
     let len = unat (p_histLen p ! i); f = (\<lambda>k. p_folded p ! (folds_at pos p + 3 * i + k)) in
     is_fold (f 0) (hbit p pos) len (unat (p_tableBits p)) \<and>
     is_fold (f 1) (hbit p pos) len (unat (p_tagBits p)) \<and>
     is_fold (f 2) (hbit p pos) len (unat (p_tagBits p) - 1))"

text \<open>The folds of the current position and of the \<open>d\<close> positions before it are exact.\<close>

definition folds_exact :: "nat \<Rightarrow> predictor \<Rightarrow> bool" where
  "folds_exact d p \<longleftrightarrow> (\<forall>k \<le> d. fold_exact p (p_histPos p - word_of_nat k))"

text \<open>The shape of the history; \<open>b\<close> is the logarithm of the ring size.\<close>

definition hist_shape :: "nat \<Rightarrow> predictor \<Rightarrow> bool" where
  "hist_shape b p \<longleftrightarrow> b < 32 \<and> p_ringMask p = mask b \<and> length (p_histBits p) = 2 ^ b \<and>
     length (p_folded p) = 2 ^ b * unat (p_nTables p) * 3 \<and> (\<forall>h \<in> set (p_histBits p). h = 0 \<or> h = 1) \<and>
     1 \<le> unat (p_tableBits p) \<and> unat (p_tableBits p) \<le> 16 \<and>
     2 \<le> unat (p_tagBits p) \<and> unat (p_tagBits p) \<le> 16 \<and>
     (\<forall>i < unat (p_nTables p). 0 < unat (p_histLen p ! i))"

lemma masked_less: "unat (w AND mask b :: u32) < 2 ^ b"
proof -
  have "unat (w AND mask b) = take_bit b (unat w)"
    by (simp add: unsigned_take_bit_eq flip: take_bit_eq_mask)
  then show ?thesis by simp
qed

text \<open>Positions less than the ring size apart are different modulo the ring size.\<close>

lemma masked_diff:
  assumes "b < 32" "0 < k" "k < 2 ^ b"
  shows "(w - word_of_nat k) AND mask b \<noteq> w AND (mask b :: u32)"
proof
  assume e: "(w - word_of_nat k) AND mask b = w AND mask b"
  have "(2 :: nat) ^ b < 2 ^ 32" using assms(1) by (rule power_strict_increasing) simp
  then have uk: "unat (word_of_nat k :: u32) = k" using assms(3) by (intro unat_of_nat_32) simp
  have k: "uint (word_of_nat k :: u32) = int k" unfolding uint_nat uk ..
  have "take_bit b (w - word_of_nat k) = take_bit b w" using e by (simp add: take_bit_eq_mask)
  then have "take_bit b (uint (w - word_of_nat k)) = take_bit b (uint w)"
    by (metis unsigned_take_bit_eq)
  moreover have "uint (w - word_of_nat k) = take_bit 32 (uint w - int k)"
    using k by (simp add: uint_word_ariths take_bit_eq_mod)
  ultimately have "take_bit b (uint w - int k) = take_bit b (uint w)"
    using assms(1) by (simp add: min_def)
  then have "(2 :: int) ^ b dvd (uint w - int k) - uint w"
    by (simp only: take_bit_eq_mod mod_eq_dvd_iff)
  then have "(2 :: int) ^ b dvd int k" by simp
  then have "2 ^ b \<le> int k" using assms(2) by (intro zdvd_imp_le) simp_all
  then show False using assms(3) by (metis linorder_not_less of_nat_less_iff of_nat_numeral of_nat_power)
qed

text \<open>The loop over the tables: the new block is computed from the old one, nothing else changes.\<close>

lemma push_folds:
  fixes p :: predictor and taken :: bool and old :: u32 and fs :: "u16 list"
  assumes "\<And>i k. i < m \<Longrightarrow> k < 3 \<Longrightarrow> folds_at old p + 3 * i + k < length fs \<and>
      folds_at (p_histPos p) p + 3 * i + k < length fs"
    and "\<And>i j. i < 3 * m \<Longrightarrow> j < 3 * m \<Longrightarrow> folds_at old p + i \<noteq> folds_at (p_histPos p) p + j"
  defines "u \<equiv> \<lambda>i. ucast (p_histBits p ! unat ((p_histPos p - p_histLen p ! i) AND p_ringMask p))"
    and "nb \<equiv> folds_at (p_histPos p) p"
    and "widths \<equiv> \<lambda>k. if k = 0 then p_tableBits p else if k = 1 then p_tagBits p else p_tagBits p - 1"
    and "fs' \<equiv> fold (push_fold taken old p) [0..<m] fs"
  shows "length fs' = length fs \<and>
    (\<forall>i < m. \<forall>k < 3. fs' ! (nb + 3 * i + k) =
       hist_fold (fs ! (folds_at old p + 3 * i + k)) (bool_bit taken) (u i) (p_histLen p ! i) (widths k)) \<and>
    (\<forall>j. j < nb \<or> nb + 3 * m \<le> j \<longrightarrow> fs' ! j = fs ! j)"
  using assms(1,2) unfolding fs'_def
proof (induction m)
  case 0
  then show ?case by simp
next
  case (Suc m)
  define gs where "gs = fold (push_fold taken old p) [0..<m] fs"
  have IH0: "length gs = length fs \<and>
    (\<forall>i < m. \<forall>k < 3. gs ! (nb + 3 * i + k) =
       hist_fold (fs ! (folds_at old p + 3 * i + k)) (bool_bit taken) (u i) (p_histLen p ! i) (widths k)) \<and>
    (\<forall>j. j < nb \<or> nb + 3 * m \<le> j \<longrightarrow> gs ! j = fs ! j)"
    unfolding gs_def by (rule Suc.IH) (use Suc.prems in \<open>simp_all add: less_Suc_eq\<close>)
  have IH: "length gs = length fs"
    "\<And>i k. i < m \<Longrightarrow> k < 3 \<Longrightarrow> gs ! (nb + 3 * i + k) =
       hist_fold (fs ! (folds_at old p + 3 * i + k)) (bool_bit taken) (u i) (p_histLen p ! i) (widths k)"
    "\<And>j. j < nb \<or> nb + 3 * m \<le> j \<Longrightarrow> gs ! j = fs ! j"
    using IH0 by blast+
  let ?o = "folds_at old p"
  have new: "nb + 3 * m + 2 < length gs" "?o + 3 * m + 2 < length gs"
    using Suc.prems(1) [of m 2] IH(1) by (simp_all add: nb_def)
  have old: "gs ! (?o + 3 * m + k) = fs ! (?o + 3 * m + k)" if "k < 3" for k
  proof (rule IH(3), rule ccontr)
    assume c: "\<not> (?o + 3 * m + k < nb \<or> nb + 3 * m \<le> ?o + 3 * m + k)"
    from c have c1: "nb \<le> ?o + 3 * m + k" and c2: "?o + 3 * m + k < nb + 3 * m" by simp_all
    obtain e where e: "?o + 3 * m + k = nb + e" using c1 by (metis le_Suc_ex)
    then have "e < 3 * m" using c2 by simp
    moreover have "3 * m + k < 3 * Suc m" using that by simp
    ultimately show False using Suc.prems(2) [of "3 * m + k" e] e by (simp add: nb_def)
  qed
  have ne: "?o + 3 * m + 1 \<noteq> nb + 3 * m" "?o + 3 * m + 2 \<noteq> nb + 3 * m" "?o + 3 * m + 2 \<noteq> nb + 3 * m + 1"
    using Suc.prems(2) [of "3 * m + 1" "3 * m"] Suc.prems(2) [of "3 * m + 2" "3 * m"]
      Suc.prems(2) [of "3 * m + 2" "3 * m + 1"] by (simp_all add: nb_def)
  define v where "v k = hist_fold (fs ! (?o + 3 * m + k)) (bool_bit taken) (u m) (p_histLen p ! m) (widths k)" for k
  have step: "fold (push_fold taken old p) [0..<Suc m] fs =
      gs[nb + 3 * m := v 0, nb + 3 * m + 1 := v 1, nb + 3 * m + 2 := v 2]"
    using ne old [of 0] old [of 1] old [of 2]
    by (simp add: gs_def [symmetric] push_fold_def Let_def nb_def [symmetric] u_def v_def widths_def)
  have "fold (push_fold taken old p) [0..<Suc m] fs ! (nb + 3 * i + k) =
      hist_fold (fs ! (?o + 3 * i + k)) (bool_bit taken) (u i) (p_histLen p ! i) (widths k)"
    if "i < Suc m" "k < 3" for i k
  proof (cases "i = m")
    case True
    have "k = 0 \<or> k = 1 \<or> k = 2" using that(2) by linarith
    then show ?thesis using True new unfolding step by (auto simp: v_def)
  next
    case False
    then have "i < m" "nb + 3 * i + k < nb + 3 * m" using that by linarith+
    then show ?thesis using IH(2) [of i k] that(2) unfolding step by simp
  qed
  moreover have "fold (push_fold taken old p) [0..<Suc m] fs ! j = fs ! j"
    if "j < nb \<or> nb + 3 * Suc m \<le> j" for j
    using that IH(3) [of j] unfolding step by auto
  ultimately show ?case using IH(1) unfolding step by simp
qed


lemma folds_at_less:
  assumes "hist_shape b p" "i < unat (p_nTables p)" "k < 3"
  shows "folds_at pos p + 3 * i + k < length (p_folded p)"
proof -
  let ?n = "unat (p_nTables p)" and ?x = "unat (pos AND p_ringMask p)"
  have x: "?x < 2 ^ b" using assms(1) masked_less [of pos b] by (simp add: hist_shape_def)
  then have "Suc ?x * (?n * 3) \<le> 2 ^ b * (?n * 3)" by (intro mult_le_mono1) simp
  then have "?x * ?n * 3 + ?n * 3 \<le> 2 ^ b * ?n * 3" by simp
  moreover have "3 * i + k < ?n * 3" using assms(2,3) by linarith
  ultimately show ?thesis using assms(1) by (simp add: folds_at_def hist_shape_def)
qed

lemma folds_at_apart:
  assumes "pos AND p_ringMask p \<noteq> pos' AND p_ringMask p" "i < 3 * unat (p_nTables p)" "j < 3 * unat (p_nTables p)"
  shows "folds_at pos p + i \<noteq> folds_at pos' p + j"
proof
  let ?n = "3 * unat (p_nTables p)" and ?x = "unat (pos AND p_ringMask p)" and ?y = "unat (pos' AND p_ringMask p)"
  assume "folds_at pos p + i = folds_at pos' p + j"
  then have e: "?x * ?n + i = ?y * ?n + j" by (simp add: folds_at_def algebra_simps)
  have "(?x * ?n + i) div ?n = ?x" "(?y * ?n + j) div ?n = ?y" using assms(2,3) by simp_all
  then have "?x = ?y" using e by metis
  with assms(1) show False by (simp add: word_unat_eq_iff)
qed

lemma push_state:
  fixes t :: bool and x :: u32
  assumes "hist_shape b p" "p_nTables p \<noteq> 0" "1 < b"
  defines "p' \<equiv> pushHistory t p" and "pos \<equiv> p_histPos p"
  shows "p_histPos p' = pos + 1" "hist_shape b p'" "p_nTables p' = p_nTables p" "p_histLen p' = p_histLen p"
    "p_tableBits p' = p_tableBits p" "p_tagBits p' = p_tagBits p" "folds_at x p' = folds_at x p"
    "p_ringMask p' = mask b"
    and "p_histBits p' = (p_histBits p)[unat ((pos + 1) AND mask b) := bool_bit t]"
    and "p_folded p' = fold (push_fold t pos (p\<lparr>p_histPos := pos + 1,
           p_histBits := (p_histBits p)[unat ((pos + 1) AND mask b) := bool_bit t]\<rparr>))
         [0..<unat (p_nTables p)] (p_folded p)"
proof -
  have m: "p_ringMask p = mask b" using assms(1) by (simp add: hist_shape_def)
  let ?q = "p\<lparr>p_histPos := pos + 1, p_histBits := (p_histBits p)[unat ((pos + 1) AND mask b) := bool_bit t]\<rparr>"
  have p': "p' = ?q\<lparr>p_folded := fold (push_fold t pos ?q) [0..<unat (p_nTables p)] (p_folded p)\<rparr>"
    using assms(2) by (simp add: p'_def pushHistory_def Let_def pos_def m)
  then show "p_histPos p' = pos + 1" "p_nTables p' = p_nTables p" "p_histLen p' = p_histLen p"
    "p_tableBits p' = p_tableBits p" "p_tagBits p' = p_tagBits p" "folds_at x p' = folds_at x p"
    "p_ringMask p' = mask b"
    "p_histBits p' = (p_histBits p)[unat ((pos + 1) AND mask b) := bool_bit t]"
    "p_folded p' = fold (push_fold t pos ?q) [0..<unat (p_nTables p)] (p_folded p)"
    using m by (simp_all add: folds_at_def)
  have len: "length (fold (push_fold t pos ?q) xs fs) = length fs" for xs fs
    by (induction xs arbitrary: fs) (simp_all add: push_fold_def Let_def)
  have "h = 0 \<or> h = 1" if "h \<in> set (p_histBits p')" for h
    using that assms(1) set_update_subset_insert [of "p_histBits p" "unat ((pos + 1) AND mask b)" "bool_bit t :: u8"]
    by (auto simp: p' hist_shape_def bool_bit_def split: if_splits)
  then show "hist_shape b p'"
    using assms(1) len by (simp add: hist_shape_def p')
qed

lemma hbit_push:
  assumes "hist_shape b p" "p_nTables p \<noteq> 0" "1 < b"
  shows "hbit (pushHistory t p) (p_histPos p + 1) 0 = t"
    and "d + k + 1 < 2 ^ b \<Longrightarrow>
      hbit (pushHistory t p) (p_histPos p - word_of_nat d) k = hbit p (p_histPos p - word_of_nat d) k"
    and "Suc j < 2 ^ b \<Longrightarrow> hbit (pushHistory t p) (p_histPos p + 1) (Suc j) = hbit p (p_histPos p) j"
proof -
  note st = push_state [OF assms, where t = t]
  let ?pos = "p_histPos p" and ?p' = "pushHistory t p"
  have m: "p_ringMask p = mask b" and b: "b < 32" using assms(1) by (simp_all add: hist_shape_def)
  have x: "unat ((?pos + 1) AND mask b) < length (p_histBits p)"
    using assms(1) masked_less by (simp add: hist_shape_def)
  show "hbit ?p' (?pos + 1) 0 = t"
    using x by (simp add: hbit_def st(8,9) bool_bit_def)
  have other: "hbit ?p' q k = hbit p q k" if "(q - word_of_nat k) AND mask b \<noteq> (?pos + 1) AND mask b" for q k
  proof -
    have "unat ((q - word_of_nat k) AND mask b) \<noteq> unat ((?pos + 1) AND mask b)"
      using that by (simp add: word_unat_eq_iff)
    then show ?thesis by (simp add: hbit_def st(8,9) m)
  qed
  show "hbit ?p' (?pos - word_of_nat d) k = hbit p (?pos - word_of_nat d) k"
    if "d + k + 1 < 2 ^ b" for d k
  proof (rule other)
    have e: "?pos - word_of_nat d - word_of_nat k = (?pos + 1) - word_of_nat (d + k + 1)"
      by (simp add: algebra_simps)
    show "?pos - word_of_nat d - word_of_nat k AND mask b \<noteq> ?pos + 1 AND mask b"
      unfolding e by (rule masked_diff [OF b]) (use that in simp_all)
  qed
  show "hbit ?p' (?pos + 1) (Suc j) = hbit p ?pos j" if "Suc j < 2 ^ b" for j
  proof -
    have "hbit ?p' (?pos + 1) (Suc j) = hbit p (?pos + 1) (Suc j)"
      using other [of "?pos + 1" "Suc j"] masked_diff [OF b _ that, of "?pos + 1"] by simp
    then show ?thesis by (simp add: hbit_def algebra_simps)
  qed
qed


text \<open>A slot of the folded histories at a position more than zero but less than a ring size back.\<close>

lemma folded_push:
  fixes t :: bool
  assumes "hist_shape b p" "p_nTables p \<noteq> 0" "1 < b"
  defines "p' \<equiv> pushHistory t p" and "pos \<equiv> p_histPos p"
  defines "widths \<equiv> \<lambda>k. if k = 0 then p_tableBits p else if k = 1 then p_tagBits p else p_tagBits p - 1"
  shows "i < unat (p_nTables p) \<Longrightarrow> k < 3 \<Longrightarrow>
      p_folded p' ! (folds_at (pos + 1) p' + 3 * i + k) =
        hist_fold (p_folded p ! (folds_at pos p + 3 * i + k)) (bool_bit t)
          (ucast (p_histBits p' ! unat ((pos + 1 - p_histLen p ! i) AND mask b))) (p_histLen p ! i) (widths k)"
    and "i < unat (p_nTables p) \<Longrightarrow> k < 3 \<Longrightarrow> d + 1 < 2 ^ b \<Longrightarrow>
      p_folded p' ! (folds_at (pos - word_of_nat d) p' + 3 * i + k) =
        p_folded p ! (folds_at (pos - word_of_nat d) p + 3 * i + k)"
proof -
  note st = push_state [OF assms(1-3), where t = t, folded p'_def pos_def]
  define q where "q = p\<lparr>p_histPos := pos + 1, p_histBits := (p_histBits p)[unat ((pos + 1) AND mask b) := bool_bit t]\<rparr>"
  have m: "p_ringMask p = mask b" and b: "b < 32" using assms(1) by (simp_all add: hist_shape_def)
  have q: "p_histPos q = pos + 1" "p_ringMask q = mask b" "p_histLen q = p_histLen p"
    "p_tableBits q = p_tableBits p" "p_tagBits q = p_tagBits p" "folds_at x q = folds_at x p" for x
    by (simp_all add: q_def m folds_at_def)
  have apart: "pos AND p_ringMask p \<noteq> (pos + 1) AND p_ringMask p"
    using masked_diff [OF b, of 1 "pos + 1"] one_less_power [of "2 :: nat" b] assms(3) by (simp add: m)
  have pf: "p_folded p' = fold (push_fold t pos q) [0..<unat (p_nTables p)] (p_folded p)"
    using st(10) by (simp add: q_def)
  have bits: "p_histBits q = p_histBits p'" using st(9) by (simp add: q_def)
  have main: "length (p_folded p') = length (p_folded p) \<and>
    (\<forall>i < unat (p_nTables p). \<forall>k < 3. p_folded p' ! (folds_at (pos + 1) p + 3 * i + k) =
       hist_fold (p_folded p ! (folds_at pos p + 3 * i + k)) (bool_bit t)
         (ucast (p_histBits p' ! unat ((pos + 1 - p_histLen p ! i) AND mask b))) (p_histLen p ! i) (widths k)) \<and>
    (\<forall>j. j < folds_at (pos + 1) p \<or> folds_at (pos + 1) p + 3 * unat (p_nTables p) \<le> j \<longrightarrow>
       p_folded p' ! j = p_folded p ! j)"
    using push_folds [of "unat (p_nTables p)" pos q "p_folded p" t] folds_at_less [OF assms(1)]
      folds_at_apart [OF apart]
    unfolding q pf bits widths_def by blast
  show "p_folded p' ! (folds_at (pos + 1) p' + 3 * i + k) =
      hist_fold (p_folded p ! (folds_at pos p + 3 * i + k)) (bool_bit t)
        (ucast (p_histBits p' ! unat ((pos + 1 - p_histLen p ! i) AND mask b))) (p_histLen p ! i) (widths k)"
    if "i < unat (p_nTables p)" "k < 3"
    using main that unfolding st(7) by blast
  show "p_folded p' ! (folds_at (pos - word_of_nat d) p' + 3 * i + k) =
      p_folded p ! (folds_at (pos - word_of_nat d) p + 3 * i + k)"
    if "i < unat (p_nTables p)" "k < 3" "d + 1 < 2 ^ b"
  proof -
    let ?j = "folds_at (pos - word_of_nat d) p + (3 * i + k)"
    have "pos - word_of_nat d = (pos + 1) - word_of_nat (d + 1)" by (simp add: algebra_simps)
    then have ap: "(pos - word_of_nat d) AND p_ringMask p \<noteq> (pos + 1) AND p_ringMask p"
      using masked_diff [OF b _ that(3), of "pos + 1"] by (simp only: m) simp
    have ik: "3 * i + k < 3 * unat (p_nTables p)" using that by linarith
    have "?j < folds_at (pos + 1) p \<or> folds_at (pos + 1) p + 3 * unat (p_nTables p) \<le> ?j"
    proof (rule ccontr)
      assume c: "\<not> ?thesis"
      then obtain e where e: "?j = folds_at (pos + 1) p + e" by (metis le_Suc_ex linorder_not_less)
      then have "e < 3 * unat (p_nTables p)" using c by simp
      then show False using folds_at_apart [OF ap ik] e by blast
    qed
    then have "p_folded p' ! ?j = p_folded p ! ?j" using main by blast
    then show ?thesis unfolding st(7) by (simp add: add.assoc)
  qed
qed

text \<open>One push keeps the folds exact, at the new position and at all positions still in reach.\<close>

lemma folds_exact_push:
  assumes "hist_shape b p" "p_nTables p \<noteq> 0" "1 < b" "folds_exact d p"
    and "\<And>i. i < unat (p_nTables p) \<Longrightarrow> unat (p_histLen p ! i) + d + 1 < 2 ^ b"
  shows "folds_exact (Suc d) (pushHistory t p)"
proof -
  let ?p' = "pushHistory t p" and ?pos = "p_histPos p"
  note st = push_state [OF assms(1-3), where t = t] and fp = folded_push [OF assms(1-3), where t = t]
    and hb = hbit_push [OF assms(1-3), where t = t]
  have m: "p_ringMask p = mask b" and widths: "1 \<le> unat (p_tableBits p)" "unat (p_tableBits p) \<le> 16"
    "2 \<le> unat (p_tagBits p)" "unat (p_tagBits p) \<le> 16"
    using assms(1) by (simp_all add: hist_shape_def)
  have tag1: "unat (p_tagBits p - 1) = unat (p_tagBits p) - 1"
    using widths by (intro unat_pred32) auto
  have now: "fold_exact p ?pos" using assms(4) by (auto simp: folds_exact_def)
  have new: "fold_exact ?p' (?pos + 1)"
    unfolding fold_exact_def Let_def st(3-6)
  proof (intro allI impI)
    fix i
    assume i: "i < unat (p_nTables p)"
    let ?len = "unat (p_histLen p ! i)"
    have len: "0 < ?len" "?len + d + 1 < 2 ^ b" using i assms(1,5) by (simp_all add: hist_shape_def)
    have hist: "hbit ?p' (?pos + 1) j = push_bit_hist t (hbit p ?pos) j" if "j < ?len" for j
      using hb(1,3) that len by (cases j) (simp_all add: push_bit_hist_def)
    have out: "ucast (p_histBits ?p' ! unat ((?pos + 1 - p_histLen p ! i) AND mask b)) =
        (bool_bit (hbit p ?pos (?len - 1)) :: u32)"
    proof -
      let ?x = "unat ((?pos + 1 - p_histLen p ! i) AND mask b)"
      have "p_histBits ?p' ! ?x = 0 \<or> p_histBits ?p' ! ?x = 1"
        using st(2) masked_less by (simp add: hist_shape_def nth_mem)
      moreover have "(p_histBits ?p' ! ?x = 1) = hbit ?p' (?pos + 1) ?len"
        by (simp add: hbit_def st(8))
      moreover have "hbit ?p' (?pos + 1) ?len = hbit p ?pos (?len - 1)"
        using hb(3) [of "?len - 1"] len by simp
      ultimately show ?thesis by (auto simp: bool_bit_def)
    qed
    have old: "is_fold (p_folded p ! (folds_at ?pos p + 3 * i + k)) (hbit p ?pos) ?len
        (if k = 0 then unat (p_tableBits p) else if k = 1 then unat (p_tagBits p) else unat (p_tagBits p) - 1)"
      if "k < 3" for k
    proof -
      have "k = 0 \<or> k = 1 \<or> k = 2" using that by linarith
      then show ?thesis using now i unfolding fold_exact_def Let_def by auto
    qed
    have one: "is_fold (p_folded ?p' ! (folds_at (?pos + 1) ?p' + 3 * i + k)) (hbit ?p' (?pos + 1)) ?len
        (if k = 0 then unat (p_tableBits p) else if k = 1 then unat (p_tagBits p) else unat (p_tagBits p) - 1)"
      if "k < 3" for k
    proof -
      let ?w = "if k = 0 then unat (p_tableBits p) else if k = 1 then unat (p_tagBits p) else unat (p_tagBits p) - 1"
      have "is_fold (p_folded ?p' ! (folds_at (?pos + 1) ?p' + 3 * i + k)) (push_bit_hist t (hbit p ?pos)) ?len ?w"
        unfolding fp(1) [OF i that] out
        by (rule hist_fold_correct [OF old [OF that]]) (use widths tag1 len in auto)
      then show ?thesis using is_fold_cong [of ?len "hbit ?p' (?pos + 1)" "push_bit_hist t (hbit p ?pos)"] hist by blast
    qed
    show "is_fold (p_folded ?p' ! (folds_at (?pos + 1) ?p' + 3 * i + 0)) (hbit ?p' (?pos + 1)) ?len (unat (p_tableBits p)) \<and>
      is_fold (p_folded ?p' ! (folds_at (?pos + 1) ?p' + 3 * i + 1)) (hbit ?p' (?pos + 1)) ?len (unat (p_tagBits p)) \<and>
      is_fold (p_folded ?p' ! (folds_at (?pos + 1) ?p' + 3 * i + 2)) (hbit ?p' (?pos + 1)) ?len (unat (p_tagBits p) - 1)"
      using one [of 0] one [of 1] one [of 2] by simp
  qed
  have older: "fold_exact ?p' (?pos - word_of_nat k)" if "k \<le> d" for k
    unfolding fold_exact_def Let_def st(3-6)
  proof (intro allI impI)
    fix i
    assume i: "i < unat (p_nTables p)"
    let ?len = "unat (p_histLen p ! i)" and ?q = "?pos - word_of_nat k"
    have len: "?len + d + 1 < 2 ^ b" using i assms(5) by simp
    have h: "hbit ?p' ?q j = hbit p ?q j" if "j < ?len" for j
      using hb(2) [of k j] that len \<open>k \<le> d\<close> by simp
    have f: "p_folded ?p' ! (folds_at ?q ?p' + 3 * i + c) = p_folded p ! (folds_at ?q p + 3 * i + c)"
      if "c < 3" for c
      using fp(2) [OF i that, of k] len \<open>k \<le> d\<close> by simp
    have "fold_exact p ?q" using assms(4) that by (simp add: folds_exact_def)
    then show "is_fold (p_folded ?p' ! (folds_at ?q ?p' + 3 * i + 0)) (hbit ?p' ?q) ?len (unat (p_tableBits p)) \<and>
      is_fold (p_folded ?p' ! (folds_at ?q ?p' + 3 * i + 1)) (hbit ?p' ?q) ?len (unat (p_tagBits p)) \<and>
      is_fold (p_folded ?p' ! (folds_at ?q ?p' + 3 * i + 2)) (hbit ?p' ?q) ?len (unat (p_tagBits p) - 1)"
      using i f [of 0] f [of 1] f [of 2] is_fold_cong [of ?len "hbit ?p' ?q" "hbit p ?q"] h
      unfolding fold_exact_def Let_def by simp
  qed
  show ?thesis
    unfolding folds_exact_def st(1)
  proof (intro allI impI)
    fix k
    assume "k \<le> Suc d"
    then show "fold_exact ?p' (?pos + 1 - word_of_nat k)"
      using new older by (cases k) simp_all
  qed
qed

text \<open>A rewind moves the position back; the folds and the history stay.\<close>

lemma restore_state:
  assumes "p_nTables p \<noteq> 0"
  shows "p_histPos (pred_restore cp p) = cp_hist cp" "p_nTables (pred_restore cp p) = p_nTables p"
    "p_histLen (pred_restore cp p) = p_histLen p" "p_tableBits (pred_restore cp p) = p_tableBits p"
    "p_tagBits (pred_restore cp p) = p_tagBits p" "p_histBits (pred_restore cp p) = p_histBits p"
    "p_folded (pred_restore cp p) = p_folded p" "p_ringMask (pred_restore cp p) = p_ringMask p"
  using assms by (simp_all add: pred_restore_def Let_def)

lemma restore_views:
  assumes "p_nTables p \<noteq> 0"
  shows "hist_shape b (pred_restore cp p) = hist_shape b p" "hbit (pred_restore cp p) = hbit p"
    "fold_exact (pred_restore cp p) = fold_exact p"
proof -
  show h: "hbit (pred_restore cp p) = hbit p"
    by (intro ext) (simp add: hbit_def restore_state [OF assms])
  show "hist_shape b (pred_restore cp p) = hist_shape b p"
    by (simp add: hist_shape_def restore_state [OF assms])
  show "fold_exact (pred_restore cp p) = fold_exact p"
    by (intro ext) (simp add: fold_exact_def h folds_at_def restore_state [OF assms])
qed

subsection \<open>The history as a list\<close>

text \<open>
  What happens to the history: a prediction or a replay pushes a bit, a flush goes back \<open>k\<close>
  positions to a checkpoint.  The abstract history is the list of the bits, newest first.
\<close>

datatype hist_op = Push bool | Rewind nat checkpoint

primrec hist_step :: "hist_op \<Rightarrow> predictor \<Rightarrow> predictor" where
  "hist_step (Push t) p = pushHistory t p"
| "hist_step (Rewind k cp) p = pred_restore (cp\<lparr>cp_hist := p_histPos p - word_of_nat k\<rparr>) p"

primrec hist_abs :: "hist_op \<Rightarrow> bool list \<Rightarrow> bool list" where
  "hist_abs (Push t) h = t # h"
| "hist_abs (Rewind k cp) h = drop k h"

text \<open>No flush goes back further than the pushes in flight, of which there are at most \<open>D\<close>.\<close>

fun rewinds_ok :: "nat \<Rightarrow> nat \<Rightarrow> hist_op list \<Rightarrow> bool" where
  "rewinds_ok D d [] = True"
| "rewinds_ok D d (Push t # ops) = rewinds_ok D (min (Suc d) D) ops"
| "rewinds_ok D d (Rewind k cp # ops) = (k \<le> d \<and> rewinds_ok D (d - k) ops)"

definition hist_age :: "bool list \<Rightarrow> nat \<Rightarrow> bool" where
  "hist_age h j \<longleftrightarrow> j < length h \<and> h ! j"

definition hist_inv :: "nat \<Rightarrow> nat \<Rightarrow> nat \<Rightarrow> nat \<Rightarrow> bool list \<Rightarrow> predictor \<Rightarrow> bool" where
  "hist_inv b M D d h p \<longleftrightarrow> hist_shape b p \<and> p_nTables p \<noteq> 0 \<and> folds_exact d p \<and> d \<le> D \<and>
     (\<forall>j < M + d. hbit p (p_histPos p) j = hist_age h j) \<and>
     (\<forall>i < unat (p_nTables p). unat (p_histLen p ! i) \<le> M)"

lemma hist_inv_push:
  assumes "hist_inv b M D d h p" "1 < b" "M + D + 1 < 2 ^ b"
  shows "hist_inv b M D (min (Suc d) D) (t # h) (pushHistory t p)"
proof -
  have sh: "hist_shape b p" "p_nTables p \<noteq> 0" "folds_exact d p" "d \<le> D"
    "\<And>i. i < unat (p_nTables p) \<Longrightarrow> unat (p_histLen p ! i) \<le> M"
    "\<And>j. j < M + d \<Longrightarrow> hbit p (p_histPos p) j = hist_age h j"
    using assms(1) by (simp_all add: hist_inv_def)
  note st = push_state [OF sh(1,2) assms(2), where t = t]
    and hb = hbit_push [OF sh(1,2) assms(2), where t = t]
  have "folds_exact (Suc d) (pushHistory t p)"
  proof (rule folds_exact_push [OF sh(1,2) assms(2) sh(3)])
    fix i
    assume "i < unat (p_nTables p)"
    then show "unat (p_histLen p ! i) + d + 1 < 2 ^ b" using sh(4,5) assms(3) by fastforce
  qed
  then have "folds_exact (min (Suc d) D) (pushHistory t p)" by (simp add: folds_exact_def)
  moreover have "hbit (pushHistory t p) (p_histPos p + 1) j = hist_age (t # h) j"
    if "j < M + min (Suc d) D" for j
    using that hb(1,3) sh(6) assms(3) by (cases j) (auto simp: hist_age_def)
  ultimately show ?thesis using st(2-4) sh(2,5) by (simp add: hist_inv_def st(1))
qed

lemma hist_inv_rewind:
  assumes "hist_inv b M D d h p" "k \<le> d" "cp_hist cp = p_histPos p - word_of_nat k"
  shows "hist_inv b M D (d - k) (drop k h) (pred_restore cp p)"
proof -
  have n: "p_nTables p \<noteq> 0" using assms(1) by (simp add: hist_inv_def)
  have pos: "p_histPos p - word_of_nat k - word_of_nat j = p_histPos p - word_of_nat (k + j)" for j
    by simp
  have "fold_exact p (p_histPos p - word_of_nat (k + j))" if "j \<le> d - k" for j
    using assms(1,2) that by (simp add: hist_inv_def folds_exact_def del: of_nat_add)
  then have "folds_exact (d - k) (pred_restore cp p)"
    unfolding folds_exact_def restore_state [OF n] restore_views [OF n] assms(3) pos by blast
  moreover have "hbit p (p_histPos p - word_of_nat k) j = hist_age (drop k h) j" if "j < M + (d - k)" for j
  proof -
    have "hbit p (p_histPos p - word_of_nat k) j = hbit p (p_histPos p) (k + j)"
      unfolding hbit_def pos ..
    then show ?thesis using assms(1,2) that by (auto simp: hist_inv_def hist_age_def)
  qed
  moreover have "d - k \<le> D" using assms(1) by (auto simp: hist_inv_def)
  ultimately show ?thesis using assms unfolding hist_inv_def
    by (simp add: restore_state [OF n] restore_views [OF n])
qed

lemma hist_inv_run:
  assumes "hist_inv b M D d h p" "1 < b" "M + D + 1 < 2 ^ b" "rewinds_ok D d ops"
  shows "\<exists>d. hist_inv b M D d (fold hist_abs ops h) (fold hist_step ops p)"
  using assms(1,3,4)
proof (induction D d ops arbitrary: h p rule: rewinds_ok.induct)
  case (1 D d)
  then show ?case by auto
next
  case (2 D d t ops)
  then show ?case using hist_inv_push [OF _ assms(2)] by simp
next
  case (3 D d k cp ops)
  then show ?case using hist_inv_rewind by simp
qed

lemma unat_pow32: "a < 32 \<Longrightarrow> unat (2 ^ a :: u32) = 2 ^ a"
  using unat_of_nat_32 [of "2 ^ a"] power_strict_increasing [of a 32 "2 :: nat"] by simp

text \<open>The ring size: doubling stops at the first power of two that is not below the bound.\<close>

lemma ring_size_returns:
  assumes "a \<le> 31" "unat bound \<le> 2 ^ 31"
  shows "\<exists>c. a \<le> c \<and> c < 32 \<and> ring_size bound (2 ^ a) = Some (2 ^ c) \<and> unat bound \<le> 2 ^ c"
  using assms(1)
proof (induction "31 - a" arbitrary: a)
  case 0
  have "unat bound \<le> unat ((2 :: u32) ^ 31)" using assms(2) by simp
  then have "bound \<le> 2 ^ 31" by (simp only: word_le_nat_alt)
  then have "\<not> 2 ^ 31 < bound" by (simp only: not_less)
  then have "ring_size bound (2 ^ 31) = Some (2 ^ 31)"
    by (subst ring_size.simps) (rule if_not_P)
  moreover have "a = 31" using 0 by simp
  ultimately show ?case using assms(2) by auto
next
  case (Suc n)
  then have a: "a < 31" "n = 31 - Suc a" by simp_all
  show ?case
  proof (cases "2 ^ a < bound")
    case True
    have "push_bit 1 (2 ^ a :: u32) = 2 ^ Suc a" by simp
    then have "ring_size bound (2 ^ a) = ring_size bound (2 ^ Suc a)"
      using True by (subst ring_size.simps) (simp add: mult.commute)
    moreover have "Suc a \<le> 31" using a(1) by simp
    ultimately show ?thesis using Suc.hyps(1) [OF a(2)] by (metis Suc_leD)
  next
    case False
    have "unat ((2 :: u32) ^ a) = 2 ^ a" using a(1) by (simp add: unat_pow32)
    then have "unat bound \<le> 2 ^ a" using False by (simp add: not_less word_le_nat_alt)
    moreover have "ring_size bound (2 ^ a) = Some (2 ^ a)"
      using False by (subst ring_size.simps) simp
    ultimately show ?thesis using a(1) by (intro exI [of _ a]) simp
  qed
qed

text \<open>The bound on the ring the constructor asks for.\<close>

definition in_flight :: "sim_config \<Rightarrow> nat" where
  "in_flight c = 2 * (unat (cfg_robSize c) + unat (cfg_fetchQSize c))"

lemma fold_exact_new:
  assumes "\<forall>c \<in> set (p_folded p). c = 0" "\<forall>h \<in> set (p_histBits p). h = 0" "hist_shape b p"
  shows "fold_exact p pos" "\<not> hbit p pos j"
proof -
  show no: "\<not> hbit p pos j" for pos j
    using assms(2,3) masked_less unfolding hbit_def hist_shape_def by (metis nth_mem zero_neq_one)
  have "is_fold 0 (hbit p pos) len w" for len w
    using no by (simp add: is_fold_def fold_bit_def parity_False)
  moreover have z: "p_folded p ! (folds_at pos p + 3 * i + k) = 0" if "i < unat (p_nTables p)" "k < 3" for i k
    using assms(1) folds_at_less [OF assms(3) that] by simp
  ultimately show "fold_exact p pos"
    unfolding fold_exact_def Let_def using z [of _ 0] z [of _ 1] z [of _ 2] by simp
qed

lemma predictor_new_hist:
  assumes "predictor_ok c" "cfg_tageTables c \<noteq> 0" "length hl = unat (cfg_tageTables c)"
    and "\<forall>l \<in> set hl. 0 < unat l \<and> unat l \<le> unat (cfg_tageMaxHist c)"
    and "unat (cfg_tageMaxHist c) + in_flight c + 64 \<le> 2 ^ 31"
  obtains p b where "predictor_new hl c = Some p" "6 \<le> b"
    "unat (cfg_tageMaxHist c) + in_flight c + 1 < 2 ^ b"
    "hist_inv b (unat (cfg_tageMaxHist c)) (in_flight c) 0 [] p"
    "p_nTables p = cfg_tageTables c" "p_histLen p = hl"
proof -
  let ?bound = "cfg_tageMaxHist c + 2 * (cfg_robSize c + cfg_fetchQSize c) + 64"
  let ?n = "cfg_tageTables c"
  define N where "N = unat (cfg_tageMaxHist c) + in_flight c + 64"
  have "word_of_nat N = ?bound" by (simp add: N_def in_flight_def)
  moreover have "N < 4294967296" using assms(5) by (simp add: N_def)
  ultimately have u: "unat ?bound = N" using unat_of_nat_32 by metis
  moreover have "N \<le> 2 ^ 31" using assms(5) by (simp only: N_def)
  ultimately obtain b where b: "6 \<le> b" "b < 32" "ring_size ?bound (2 ^ 6) = Some (2 ^ b)" "N \<le> 2 ^ b"
    using ring_size_returns [of 6 ?bound] by auto
  define p where "p = (predictor_base c)\<lparr>p_histLen := hl,
      p_tables := replicate (unat ?n) (replicate (2 ^ unat (cfg_tageTableBits c)) tage_entry0),
      p_ringMask := 2 ^ b - 1, p_histBits := replicate (2 ^ b) 0, p_folded := replicate (2 ^ b * unat ?n * 3) 0\<rparr>"
  have "unat ((2 :: u32) ^ b) = 2 ^ b" using b(2) by (simp add: unat_pow32)
  then have new: "predictor_new hl c = Some p"
    using b(3) assms(2) by (simp add: predictor_new_def Let_def p_def)
  have shape: "hist_shape b p"
    using assms(1-4) b(2) by (auto simp: hist_shape_def p_def predictor_base_def predictor_ok_def mask_eq_exp_minus_1)
  have "hist_inv b (unat (cfg_tageMaxHist c)) (in_flight c) 0 [] p"
    using fold_exact_new [OF _ _ shape] shape assms(2-4)
    by (auto simp: hist_inv_def folds_exact_def hist_age_def p_def predictor_base_def)
  then show thesis
    using that [OF new b(1)] b(4) by (simp add: p_def predictor_base_def N_def)
qed

text \<open>
  C38. The folded histories of the TAGE predictor are exact.  For every configuration the
  validator accepts whose window fits the ring, the constructor returns; and after any
  predictions, replays and flushes, where no flush goes back further than what is in flight,
  each table's three folds at the current position are the foldings of its newest history bits,
  which are the bits of the abstract history: a push adds a bit, a flush drops the newest.
\<close>

theorem tage_history_exact:
  assumes "predictor_ok c" "cfg_tageTables c \<noteq> 0" "length hl = unat (cfg_tageTables c)"
    and "\<forall>l \<in> set hl. 0 < unat l \<and> unat l \<le> unat (cfg_tageMaxHist c)"
    and "unat (cfg_tageMaxHist c) + in_flight c + 64 \<le> 2 ^ 31"
    and "rewinds_ok (in_flight c) 0 ops"
  shows "\<exists>p. predictor_new hl c = Some p \<and>
    (let q = fold hist_step ops p; h = hist_age (fold hist_abs ops []) in
     \<forall>i < unat (p_nTables q).
       let len = unat (p_histLen q ! i); f = (\<lambda>k. p_folded q ! (folds_at (p_histPos q) q + 3 * i + k)) in
       is_fold (f 0) h len (unat (p_tableBits q)) \<and> is_fold (f 1) h len (unat (p_tagBits q)) \<and>
       is_fold (f 2) h len (unat (p_tagBits q) - 1))"
proof -
  obtain p b where p: "predictor_new hl c = Some p" "6 \<le> b"
    "unat (cfg_tageMaxHist c) + in_flight c + 1 < 2 ^ b"
    "hist_inv b (unat (cfg_tageMaxHist c)) (in_flight c) 0 [] p"
    using predictor_new_hist [OF assms(1-5)] by metis
  define q where "q = fold hist_step ops p"
  define h where "h = hist_age (fold hist_abs ops [])"
  obtain d where inv: "hist_inv b (unat (cfg_tageMaxHist c)) (in_flight c) d (fold hist_abs ops []) q"
    using hist_inv_run [OF p(4) _ p(3) assms(6)] p(2) by (auto simp: q_def)
  then have exact: "fold_exact q (p_histPos q)" by (auto simp: hist_inv_def folds_exact_def)
  have cong: "is_fold f (hbit q (p_histPos q)) len w = is_fold f h len w"
    if "len \<le> unat (cfg_tageMaxHist c)" for f len w
    by (rule is_fold_cong) (use inv that in \<open>simp add: hist_inv_def h_def\<close>)
  have len: "unat (p_histLen q ! i) \<le> unat (cfg_tageMaxHist c)" if "i < unat (p_nTables q)" for i
    using inv that by (simp add: hist_inv_def)
  have "\<forall>i < unat (p_nTables q).
       let len = unat (p_histLen q ! i); f = (\<lambda>k. p_folded q ! (folds_at (p_histPos q) q + 3 * i + k)) in
       is_fold (f 0) h len (unat (p_tableBits q)) \<and> is_fold (f 1) h len (unat (p_tagBits q)) \<and>
       is_fold (f 2) h len (unat (p_tagBits q) - 1)"
    using exact cong [OF len] unfolding fold_exact_def Let_def by blast
  then show ?thesis using p(1) by (simp add: q_def h_def Let_def)
qed

theorem tage_history_exact_witness:
  "\<exists>p. predictor_new [8] (default_config\<lparr>cfg_tageTables := 1\<rparr>) = Some p"
proof -
  have "rewinds_ok (in_flight (default_config\<lparr>cfg_tageTables := 1\<rparr>)) 0
      [Push True, Rewind 1 checkpoint0, Push False, Push True]"
    by (simp add: in_flight_def default_config_def)
  from tage_history_exact [OF _ _ _ _ _ this, of "[8]"] show ?thesis
    by (auto simp: predictor_ok_def default_config_def in_flight_def)
qed

section \<open>What the tables hold\<close>

definition entry_typed :: "tage_entry \<Rightarrow> bool" where
  "entry_typed e \<longleftrightarrow> - 4 \<le> sint (t_ctr e) \<and> sint (t_ctr e) \<le> 3 \<and> t_u e \<le> 3"

definition pred_typed :: "predictor \<Rightarrow> bool" where
  "pred_typed p \<longleftrightarrow>
     (\<forall>c \<in> set (p_pht p). c \<le> 3) \<and> (\<exists>b \<le> 24. length (p_pht p) = 2 ^ b) \<and>
     - 8 \<le> sint (p_useAltOnWeak p) \<and> sint (p_useAltOnWeak p) \<le> 7 \<and>
     length (p_tables p) = unat (p_nTables p) \<and>
     (\<forall>t \<in> set (p_tables p). length t = 2 ^ unat (p_tableBits p) \<and> (\<forall>e \<in> set t. entry_typed e)) \<and>
     (p_nTables p \<noteq> 0 \<longrightarrow> unat (p_tableBits p) \<le> 16) \<and>
     length (p_btb p) = unat (p_btbSets p) * unat (p_btbWays p) \<and> p_btbSets p \<noteq> 0 \<and> p_btbWays p \<noteq> 0 \<and>
     p_ras p \<noteq> []"

lemma nudge_s_range:
  assumes "lo \<le> sint c" "sint c \<le> hi" "- 8 \<le> lo" "hi \<le> 7"
  shows "lo \<le> sint (nudge_s up lo hi c) \<and> sint (nudge_s up lo hi c) \<le> hi"
proof -
  have "sint (c + 1) = sint c + 1" "sint (c - 1) = sint c - 1"
    using assms by (simp_all add: sint_word_ariths signed_take_bit_int_eq_self)
  then show ?thesis using assms by (auto simp: nudge_s_def)
qed

lemma word_le_3: "(c :: u8) \<le> 3 \<longleftrightarrow> c = 0 \<or> c = 1 \<or> c = 2 \<or> c = 3"
proof
  assume "c \<le> 3"
  then have "unat c \<in> {0, 1, 2, 3}" by (auto simp: word_le_nat_alt)
  then have "(word_of_nat (unat c) :: u8) \<in> word_of_nat ` {0, 1, 2, 3}" by (rule imageI)
  then show "c = 0 \<or> c = 1 \<or> c = 2 \<or> c = 3" by simp
qed auto

lemma nudge_u_range:
  assumes "c \<le> (3 :: u8)"
  shows "nudge_u up 0 3 c \<le> 3"
proof -
  have nums: "nudge_u up 0 3 0 \<le> (3 :: u8)" "nudge_u up 0 3 1 \<le> (3 :: u8)" "nudge_u up 0 3 2 \<le> (3 :: u8)"
    "nudge_u up 0 3 3 \<le> (3 :: u8)"
    by (simp_all add: nudge_u_def)
  have "c = 0 \<or> c = 1 \<or> c = 2 \<or> c = 3" using assms by (simp only: word_le_3)
  then show ?thesis by (elim disjE) (simp_all only: nums)
qed

lemma set_update_all: "(\<forall>x \<in> set xs. P x) \<Longrightarrow> P y \<Longrightarrow> \<forall>x \<in> set (xs[i := y]). P x"
  using set_update_subset_insert [of xs i y] by blast

lemma typed_entry_pht:
  assumes "pred_typed p" "c \<le> 3"
  shows "pred_typed (p\<lparr>p_pht := (p_pht p)[i := c]\<rparr>)"
proof -
  have "\<forall>c \<in> set ((p_pht p)[i := c]). c \<le> 3"
    by (rule set_update_all) (use assms in \<open>simp_all add: pred_typed_def\<close>)
  then show ?thesis using assms(1) by (simp add: pred_typed_def)
qed

lemma train_base_typed: 
  assumes "pred_typed p"
  shows "pred_typed (train_base pc taken p)"
proof (cases "base_index pc p < length (p_pht p)")
  case True
  then have "p_pht p ! base_index pc p \<le> 3" using assms by (simp add: pred_typed_def)
  then show ?thesis
    unfolding train_base_def by (intro typed_entry_pht assms nudge_u_range)
next
  case False
  then have "train_base pc taken p = p" by (simp add: train_base_def not_less list_update_beyond)
  then show ?thesis using assms by simp
qed

lemma tage_put_typed:
  assumes "pred_typed p" "entry_typed (tage_at i idx p) \<Longrightarrow> entry_typed (f (tage_at i idx p))"
  shows "pred_typed (tage_put i idx f p)"
proof (cases "i < length (p_tables p) \<and> unat (idx ! i) < length (p_tables p ! i)")
  case True
  then have t: "p_tables p ! i \<in> set (p_tables p)" by simp
  have "\<forall>e \<in> set (p_tables p ! i). entry_typed e" using assms(1) t by (simp add: pred_typed_def)
  then have "entry_typed (tage_at i idx p)" using True by (simp add: tage_at_def)
  then have "entry_typed (f (tage_at i idx p))" by (rule assms(2))
  then have "\<forall>e \<in> set ((p_tables p ! i)[unat (idx ! i) := f (tage_at i idx p)]). entry_typed e"
    by (intro set_update_all) (use assms(1) t in \<open>simp add: pred_typed_def\<close>)
  then have "\<forall>t \<in> set ((p_tables p)[i := (p_tables p ! i)[unat (idx ! i) := f (tage_at i idx p)]]).
      length t = 2 ^ unat (p_tableBits p) \<and> (\<forall>e \<in> set t. entry_typed e)"
    by (intro set_update_all) (use assms(1) t in \<open>simp_all add: pred_typed_def\<close>)
  then show ?thesis using assms(1) by (simp add: pred_typed_def tage_put_def)
next
  case False
  then have "(p_tables p)[i := (p_tables p ! i)[unat (idx ! i) := f (tage_at i idx p)]] = p_tables p"
    by (cases "i < length (p_tables p)") (simp_all add: not_less list_update_beyond)
  then show ?thesis using assms(1) by (simp add: tage_put_def)
qed

lemma tage_train_typed:
  assumes "pred_typed p"
  shows "pred_typed (tage_train pc taken l idx p)"
proof -
  have alt: "pred_typed (p\<lparr>p_useAltOnWeak := nudge_s up (- 8) 7 (p_useAltOnWeak p)\<rparr>)" if "pred_typed p" for p up
    using that nudge_s_range [of "- 8" "p_useAltOnWeak p" 7 up] by (simp add: pred_typed_def)
  show ?thesis
    unfolding tage_train_def Let_def
    by (auto split: option.split simp: entry_typed_def nudge_u_range nudge_s_range
        intro!: train_base_typed tage_put_typed alt assms)
qed

lemma tage_allocate_typed:
  assumes "pred_typed p"
  shows "pred_typed (tage_allocate taken l idx tag p)"
proof -
  have lf: "pred_typed (p\<lparr>p_lfsr := x\<rparr>)" for x using assms by (simp add: pred_typed_def)
  have dec: "pred_typed (fold (\<lambda>j p. if 0 < t_u (tage_at j idx p)
      then tage_put j idx (\<lambda>e. e\<lparr>t_u := t_u e - 1\<rparr>) p else p) js q)" if "pred_typed q" for js q
    using that
  proof (induction js arbitrary: q)
    case (Cons a js)
    have "pred_typed (tage_put a idx (\<lambda>e. e\<lparr>t_u := t_u e - 1\<rparr>) q)" if "0 < t_u (tage_at a idx q)"
      using that by (intro tage_put_typed Cons.prems) (auto simp: entry_typed_def word_le_3)
    then show ?case using Cons by simp
  qed simp
  have new: "entry_typed (e\<lparr>t_tag := x, t_ctr := (if taken then 0 else - 1), t_u := 0\<rparr>)" for e x
    by (simp add: entry_typed_def)
  show ?thesis
    unfolding tage_allocate_def Let_def if_distrib [of pred_typed]
    by (simp add: dec lf assms tage_put_typed new)
qed

lemma tage_age_typed:
  assumes "pred_typed p"
  shows "pred_typed (tage_age p)"
proof -
  have half: "drop_bit 1 u \<le> 3" if "u \<le> (3 :: u8)" for u
    using that unfolding word_le_3 by (elim disjE) simp_all
  then show ?thesis
    using assms by (auto simp: tage_age_def Let_def pred_typed_def entry_typed_def)
qed

lemma tageUpdate_typed: "pred_typed p \<Longrightarrow> pred_typed (tageUpdate pc taken pos p)"
  by (simp add: tageUpdate_def tage_age_typed tage_allocate_typed tage_train_typed split: prod.split)

text \<open>The fields a type says something of.\<close>

lemma pred_typed_same:
  assumes "pred_typed p" "p_pht q = p_pht p" "p_useAltOnWeak q = p_useAltOnWeak p" "p_tables q = p_tables p"
    "p_nTables q = p_nTables p" "p_tableBits q = p_tableBits p" "length (p_btb q) = length (p_btb p)"
    "p_btbSets q = p_btbSets p" "p_btbWays q = p_btbWays p" "length (p_ras q) = length (p_ras p)"
  shows "pred_typed q"
  using assms by (simp add: pred_typed_def flip: length_greater_0_conv)

lemma btbFind_typed: "pred_typed p \<Longrightarrow> pred_typed (snd (btbFind pc p))"
  by (erule pred_typed_same) (simp_all add: btbFind_def Let_def split: option.split)

lemma pushHistory_typed: "pred_typed p \<Longrightarrow> pred_typed (pushHistory t p)"
  by (erule pred_typed_same) (simp_all add: pushHistory_def Let_def)

lemma pred_restore_typed: "pred_typed p \<Longrightarrow> pred_typed (pred_restore cp p)"
  by (erule pred_typed_same) (simp_all add: pred_restore_def Let_def)

lemma pred_replay_typed: "pred_typed p \<Longrightarrow> pred_typed (pred_replay pc ins t p)"
  unfolding pred_replay_def Let_def
  by (simp add: pushHistory_typed if_distrib [of pred_typed])
    (auto elim!: pred_typed_same)

lemma btb_allocate_typed:
  assumes "pred_typed p"
  shows "pred_typed (btb_allocate pc k target p)"
proof -
  obtain b q where f: "btbFind pc p = (b, q)" by fastforce
  then have "pred_typed q" using btbFind_typed [OF assms, of pc] by simp
  then show ?thesis
    by (rule pred_typed_same) (simp_all add: btb_allocate_def Let_def f)
qed

lemma predict_typed:
  assumes "pred_typed p"
  shows "pred_typed (snd (predict pc p))"
proof -
  obtain b q where f: "btbFind pc p = (b, q)" by fastforce
  then have q: "pred_typed q" using btbFind_typed [OF assms, of pc] by simp
  have push: "pred_typed (q\<lparr>p_ras := (p_ras q)[i := x], p_rasN := n\<rparr>)" "pred_typed (q\<lparr>p_rasN := n\<rparr>)" for i x n
    by (rule pred_typed_same [OF q]; simp)+
  show ?thesis
    by (simp add: predict_def Let_def f q pushHistory_typed push split: option.split kind.split)
qed

lemma pred_update_typed:
  assumes "pred_typed p"
  shows "pred_typed (pred_update pc ins taken target phtIdx before p)"
proof -
  let ?c = "p_pht p ! unat phtIdx"
  let ?c' = "if taken \<and> ?c < 3 then ?c + 1 else if \<not> taken \<and> 0 < ?c then ?c - 1 else ?c"
  define q where "q = p\<lparr>p_pht := (p_pht p)[unat phtIdx := ?c']\<rparr>"
  define x where "x = (if kindOf ins = COND then if p_nTables p \<noteq> 0 then tageUpdate pc taken (cp_hist before) p else q else p)"
  have "pred_typed q"
  proof (cases "unat phtIdx < length (p_pht p)")
    case True
    then have "?c \<le> 3" using assms by (simp add: pred_typed_def)
    moreover have "?c' = nudge_u taken 0 3 ?c" by (simp add: nudge_u_def word_less_def)
    ultimately show ?thesis
      unfolding q_def by (intro typed_entry_pht assms) (simp only: nudge_u_range)
  qed (simp add: assms q_def not_less list_update_beyond)
  then have "pred_typed x" using assms by (simp add: x_def tageUpdate_typed)
  moreover have "pred_update pc ins taken target phtIdx before p =
      (if taken then btb_allocate pc (kindOf ins) target x else x)"
    by (simp only: pred_update_def Let_def x_def q_def)
  ultimately show ?thesis by (simp add: btb_allocate_typed)
qed

datatype pred_op = Predict u32 | Restore checkpoint | Replay u32 instr bool
  | Update u32 instr bool u32 u32 checkpoint

primrec pred_do :: "pred_op \<Rightarrow> predictor \<Rightarrow> predictor" where
  "pred_do (Predict pc) p = snd (predict pc p)"
| "pred_do (Restore cp) p = pred_restore cp p"
| "pred_do (Replay pc ins taken) p = pred_replay pc ins taken p"
| "pred_do (Update pc ins taken target phtIdx before) p = pred_update pc ins taken target phtIdx before p"

lemma pred_do_typed: "pred_typed p \<Longrightarrow> pred_typed (fold pred_do ops p)"
proof (induction ops arbitrary: p)
  case (Cons op ops)
  have "pred_typed (pred_do op p)"
    by (cases op) (simp_all add: Cons.prems predict_typed pred_restore_typed pred_replay_typed pred_update_typed)
  then show ?case by (simp add: Cons.IH)
qed simp

lemma predictor_new_typed:
  assumes "predictor_ok c" "predictor_new hl c = Some p"
  shows "pred_typed p"
proof -
  have d: "unat (cfg_btbWays c) dvd unat (cfg_btbEntries c)" and nz: "cfg_btbWays c \<noteq> 0" "cfg_btbEntries c \<noteq> 0"
    using assms(1) by (simp_all add: predictor_ok_def)
  have div: "unat (cfg_btbEntries c div cfg_btbWays c) = unat (cfg_btbEntries c) div unat (cfg_btbWays c)"
    by (simp add: unat_div)
  have e: "unat (cfg_btbEntries c) = unat (cfg_btbEntries c div cfg_btbWays c) * unat (cfg_btbWays c)"
    unfolding div using d by simp
  have s: "cfg_btbEntries c div cfg_btbWays c \<noteq> 0" using e nz(2) by (metis mult_zero_left unat_eq_zero)
  have base: "pred_typed (p\<lparr>p_tables := ts, p_nTables := n\<rparr>)"
    if "p_pht p = p_pht (predictor_base c)" "p_btb p = p_btb (predictor_base c)" "p_ras p = p_ras (predictor_base c)"
      "p_btbSets p = p_btbSets (predictor_base c)" "p_btbWays p = p_btbWays (predictor_base c)"
      "p_useAltOnWeak p = 0" "length ts = unat n" "p_tableBits p = cfg_tageTableBits c"
      "ts = replicate (unat n) (replicate (2 ^ unat (cfg_tageTableBits c)) tage_entry0)"
      "n \<noteq> 0 \<longrightarrow> unat (cfg_tageTableBits c) \<le> 16" for p ts n
    using that assms(1) e s nz word_neq_0_less [of "cfg_rasEntries c"] unfolding pred_typed_def
    by (auto simp: predictor_base_def predictor_ok_def entry_typed_def tage_entry0_def)
  show ?thesis
  proof (cases "cfg_tageTables c = 0")
    case True
    then have "p = predictor_base c" using assms(2) by (simp add: predictor_new_def Let_def)
    then show ?thesis using base [of p "[]" 0] True by (simp add: predictor_base_def)
  next
    case False
    then obtain ring where "p = (predictor_base c)\<lparr>p_histLen := hl,
        p_tables := replicate (unat (cfg_tageTables c)) (replicate (2 ^ unat (cfg_tageTableBits c)) tage_entry0),
        p_ringMask := ring - 1, p_histBits := replicate (unat ring) 0,
        p_folded := replicate (unat ring * unat (cfg_tageTables c) * 3) 0\<rparr>"
      using assms(2) by (auto simp: predictor_new_def Let_def split: option.splits)
    then show ?thesis using base [of p "p_tables p" "cfg_tageTables c"] assms(1) False
      by (simp add: predictor_base_def predictor_ok_def)
  qed
qed

lemma typed_indices:
  assumes "pred_typed p"
  shows "unat (phtIndex pc p) < length (p_pht p)" "base_index pc p < length (p_pht p)"
    "w < unat (p_btbWays p) \<Longrightarrow> btb_set pc p + w < length (p_btb p)"
    "i < unat (p_nTables p) \<Longrightarrow> unat (tage_index pc pos p i) < length (p_tables p ! i)"
    "unat n mod length (p_ras p) < length (p_ras p)"
proof -
  obtain b where b: "b \<le> 24" "length (p_pht p) = 2 ^ b" using assms by (auto simp: pred_typed_def)
  have m: "(word_of_nat (length (p_pht p) - 1) :: u32) = mask b"
    unfolding b(2) mask_eq_exp_minus_1 by (simp add: of_nat_diff)
  show "unat (phtIndex pc p) < length (p_pht p)" "base_index pc p < length (p_pht p)"
    unfolding phtIndex_def base_index_def m by (simp_all only: b(2) masked_less)
  show "btb_set pc p + w < length (p_btb p)" if "w < unat (p_btbWays p)"
  proof -
    have "unat (drop_bit 2 pc mod p_btbSets p) < unat (p_btbSets p)"
      using assms by (simp add: pred_typed_def unat_mod unat_gt_0)
    then have "Suc (unat (drop_bit 2 pc mod p_btbSets p)) * unat (p_btbWays p) \<le> unat (p_btbSets p) * unat (p_btbWays p)"
      by (intro mult_le_mono1) simp
    then show ?thesis using assms that by (simp add: pred_typed_def btb_set_def)
  qed
  show "unat (tage_index pc pos p i) < length (p_tables p ! i)" if "i < unat (p_nTables p)"
  proof -
    have "length (p_tables p ! i) = 2 ^ unat (p_tableBits p)"
      using assms that by (simp add: pred_typed_def)
    then show ?thesis
      unfolding tage_index_def Let_def by (metis masked_less mask_eq_exp_minus_1 push_bit_of_1)
  qed
  show "unat n mod length (p_ras p) < length (p_ras p)" using assms by (simp add: pred_typed_def)
qed

text \<open>
  C39. The predictor's tables are well typed and every index it computes is in range.  From the
  constructor on, whatever is predicted, restored, replayed and trained: the pattern counters
  stay in two bits, the TAGE counters in \<open>- 4..3\<close> and the useful counters in \<open>0..3\<close>, the alternative
  chooser in \<open>- 8..7\<close>; and the pattern, TAGE, BTB and return-stack indices are below the sizes of
  their tables.
\<close>

theorem predictor_typed:
  assumes "predictor_ok c" "predictor_new hl c = Some p0"
  shows "let p = fold pred_do ops p0 in pred_typed p \<and>
    unat (phtIndex pc p) < length (p_pht p) \<and> base_index pc p < length (p_pht p) \<and>
    (\<forall>w < unat (p_btbWays p). btb_set pc p + w < length (p_btb p)) \<and>
    (\<forall>i < unat (p_nTables p). unat (tage_index pc pos p i) < length (p_tables p ! i)) \<and>
    unat n mod length (p_ras p) < length (p_ras p)"
  using typed_indices [OF pred_do_typed [OF predictor_new_typed [OF assms]]]
    pred_do_typed [OF predictor_new_typed [OF assms]]
  by (simp add: Let_def)

theorem predictor_typed_witness:
  "pred_typed (fold pred_do [Predict 4, Update 4 instr0 True 64 1 checkpoint0]
     (predictor_base (default_config\<lparr>cfg_tageTables := 0\<rparr>)))"
proof -
  let ?c = "default_config\<lparr>cfg_tageTables := 0\<rparr>"
  have "predictor_ok ?c" "predictor_new [] ?c = Some (predictor_base ?c)"
    by (simp_all add: predictor_new_def predictor_ok_def default_config_def)
  from predictor_typed [OF this, of "[Predict 4, Update 4 instr0 True 64 1 checkpoint0]"] show ?thesis
    unfolding Let_def by blast
qed

section \<open>Targets\<close>

lemma find_way_Some: "find_way f ws = Some w \<Longrightarrow> w \<in> set ws \<and> f w"
  by (induction ws) (auto split: if_splits)

lemma find_way_None: "find_way f ws = None \<Longrightarrow> w \<in> set ws \<Longrightarrow> \<not> f w"
  by (induction ws) (auto split: if_splits)

text \<open>Marking the way found, or any way after a miss, makes the search find it.\<close>

lemma find_way_marked:
  assumes "w \<in> set ws" "f' w" "\<And>v. v \<noteq> w \<Longrightarrow> f' v = f v" "find_way f ws = Some w \<or> find_way f ws = None"
  shows "find_way f' ws = Some w"
  using assms(1,4)
proof (induction ws)
  case (Cons v ws)
  then show ?case using assms(2,3) by (cases "v = w") (auto split: if_splits)
qed simp

lemma btb_victim_in: "btb_victim p base ws best \<in> insert best (set ws)"
  by (induction ws arbitrary: best) auto

text \<open>What \<^verbatim>\<open>btbFind\<close> leaves: only the time stamp of the entry found changes.\<close>

lemma btbFind_state:
  assumes "btbFind pc p = (b, q)"
  shows "p_btbWays q = p_btbWays p" "p_btbSets q = p_btbSets p" "p_ras q = p_ras p" "p_rasN q = p_rasN p"
    "length (p_btb q) = length (p_btb p)" "b_valid (p_btb q ! j) = b_valid (p_btb p ! j)"
    "b_pc (p_btb q ! j) = b_pc (p_btb p ! j)" "b_kind (p_btb q ! j) = b_kind (p_btb p ! j)"
    "b_target (p_btb q ! j) = b_target (p_btb p ! j)"
proof -
  have upd: "F (xs[i := (xs ! i)\<lparr>b_lastUse := t\<rparr>] ! j) = F (xs ! j)"
    if "\<And>e. F (e\<lparr>b_lastUse := t\<rparr>) = F e" for F :: "btb_entry \<Rightarrow> 'x" and xs i t
    using that by (cases "i < length xs"; cases "i = j") (simp_all add: list_update_beyond)
  show "p_btbWays q = p_btbWays p" "p_btbSets q = p_btbSets p" "p_ras q = p_ras p" "p_rasN q = p_rasN p"
    "length (p_btb q) = length (p_btb p)" "b_valid (p_btb q ! j) = b_valid (p_btb p ! j)"
    "b_pc (p_btb q ! j) = b_pc (p_btb p ! j)" "b_kind (p_btb q ! j) = b_kind (p_btb p ! j)"
    "b_target (p_btb q ! j) = b_target (p_btb p ! j)"
    using assms upd [of b_valid] upd [of b_pc] upd [of b_kind] upd [of b_target]
    by (auto simp: btbFind_def Let_def split: option.splits)
qed

definition btb_hit :: "u32 \<Rightarrow> predictor \<Rightarrow> nat \<Rightarrow> bool" where
  "btb_hit pc p w \<longleftrightarrow> b_valid (p_btb p ! (btb_set pc p + w)) \<and> b_pc (p_btb p ! (btb_set pc p + w)) = pc"

lemma btbFind_fst:
  "fst (btbFind pc p) = map_option (\<lambda>w. btb_set pc p + w) (find_way (btb_hit pc p) [0..<unat (p_btbWays p)])"
proof -
  have "btb_hit pc p = (\<lambda>w. b_valid (p_btb p ! (btb_set pc p + w)) \<and> b_pc (p_btb p ! (btb_set pc p + w)) = pc)"
    by (rule ext) (simp add: btb_hit_def)
  then show ?thesis by (simp add: btbFind_def Let_def split: option.split)
qed

lemma btb_allocate_found:
  fixes pc target :: u32 and k :: kind
  assumes "pred_typed p"
  defines "q \<equiv> btb_allocate pc k target p"
  obtains i where "fst (btbFind pc q) = Some i" "b_kind (p_btb q ! i) = k" "b_target (p_btb q ! i) = target"
    "p_ras q = p_ras p" "p_rasN q = p_rasN p"
proof -
  obtain b r where f: "btbFind pc p = (b, r)" by fastforce
  note st = btbFind_state [OF f]
  have set: "btb_set pc r = btb_set pc p" by (simp add: btb_set_def st)
  have hit: "btb_hit pc r = btb_hit pc p" by (rule ext) (simp add: btb_hit_def set st)
  define w where "w = (case find_way (btb_hit pc p) [0..<unat (p_btbWays p)] of Some w \<Rightarrow> w
      | None \<Rightarrow> btb_victim r (btb_set pc r) [0..<unat (p_btbWays r)] 0)"
  define e where "e = \<lparr>b_valid = True, b_kind = k, b_pc = pc, b_target = target, b_lastUse = p_btbClock r + 1\<rparr>"
  have b: "b = map_option (\<lambda>w. btb_set pc p + w) (find_way (btb_hit pc p) [0..<unat (p_btbWays p)])"
    using btbFind_fst [of pc p] by (simp add: f)
  have q: "q = r\<lparr>p_btbClock := p_btbClock r + 1, p_btb := (p_btb r)[btb_set pc p + w := e]\<rparr>"
    by (simp add: q_def btb_allocate_def Let_def f w_def e_def b set split: option.split)
  have ways: "0 < unat (p_btbWays p)" using assms(1) by (simp add: pred_typed_def unat_gt_0)
  have w: "w < unat (p_btbWays p)"
    using find_way_Some [of "btb_hit pc p" "[0..<unat (p_btbWays p)]"]
      btb_victim_in [of r "btb_set pc r" "[0..<unat (p_btbWays r)]" 0] ways
    by (auto simp: w_def st split: option.split)
  have i: "btb_set pc p + w < length (p_btb r)" using typed_indices(3) [OF assms(1) w] by (simp add: st)
  have sq: "btb_set pc q = btb_set pc p" by (simp add: q btb_set_def st)
  have "find_way (btb_hit pc q) [0..<unat (p_btbWays p)] = Some w"
  proof (rule find_way_marked [where f = "btb_hit pc p"])
    show "btb_hit pc q w" using i by (simp add: btb_hit_def sq) (simp add: q e_def)
    show "btb_hit pc q v = btb_hit pc p v" if "v \<noteq> w" for v
      using that by (simp add: btb_hit_def sq) (simp add: q st)
  qed (use w in \<open>auto simp: w_def split: option.split\<close>)
  then have "fst (btbFind pc q) = Some (btb_set pc p + w)"
    unfolding btbFind_fst sq by (simp add: q st)
  then show thesis by (rule that) (use i in \<open>simp_all add: q e_def st\<close>)
qed

text \<open>
  A taken jump is learned, and calls and returns pair up.  After training a taken
  unconditional jump or call, the same pc predicts taken with that target; predicting the call
  pushes its return address, and a return predicted next goes there and pops it.
\<close>

theorem jumps_learned:
  assumes "pred_typed p" "kindOf ins = UNCOND \<or> kindOf ins = CALL"
  shows "let q = pred_update pc ins True target phtIdx before p; (r, q') = predict pc q in
    pr_taken r \<and> pr_target r = target \<and>
    (kindOf ins = CALL \<longrightarrow> p_rasN q' = p_rasN p + 1 \<and>
      (\<forall>rpc i. fst (btbFind rpc q') = Some i \<longrightarrow> b_kind (p_btb q' ! i) = RET \<longrightarrow> 0 < p_rasN q' \<longrightarrow>
         pr_taken (fst (predict rpc q')) \<and> pr_target (fst (predict rpc q')) = pc + 4 \<and>
         p_rasN (snd (predict rpc q')) = p_rasN p))"
proof -
  define q where "q = pred_update pc ins True target phtIdx before p"
  have "q = btb_allocate pc (kindOf ins) target p" using assms(2) by (auto simp: q_def pred_update_def)
  then obtain i where i: "fst (btbFind pc q) = Some i" "b_kind (p_btb q ! i) = kindOf ins"
    "b_target (p_btb q ! i) = target" "p_ras q = p_ras p" "p_rasN q = p_rasN p"
    using btb_allocate_found [OF assms(1), of pc "kindOf ins" target] by metis
  obtain s where s: "btbFind pc q = (Some i, s)" using i(1) by (cases "btbFind pc q") auto
  note st = btbFind_state [OF s]
  define q' where "q' = snd (predict pc q)"
  have p: "pr_taken (fst (predict pc q))" "pr_target (fst (predict pc q)) = target"
    using assms(2) i by (auto simp: predict_def Let_def s st split: kind.split)
  have call: "p_rasN q' = p_rasN p + 1 \<and> p_ras q' = (p_ras p)[unat (p_rasN p) mod length (p_ras p) := pc + 4]"
    if "kindOf ins = CALL"
    using that i by (simp add: q'_def predict_def Let_def s st)
  have ret: "pr_taken (fst (predict rpc q')) \<and> pr_target (fst (predict rpc q')) = pc + 4 \<and>
      p_rasN (snd (predict rpc q')) = p_rasN p"
    if "kindOf ins = CALL" "fst (btbFind rpc q') = Some j" "b_kind (p_btb q' ! j) = RET" "0 < p_rasN q'" for rpc j
  proof -
    note h = that
    obtain u where u: "btbFind rpc q' = (Some j, u)" using h(2) by (cases "btbFind rpc q'") auto
    have "unat (p_rasN p) mod length (p_ras p) < length (p_ras p)" by (rule typed_indices(5) [OF assms(1)])
    then show ?thesis
      using h(3,4) call [OF h(1)] by (simp add: predict_def Let_def u btbFind_state [OF u])
  qed
  show ?thesis
    using p call ret unfolding Let_def case_prod_beta q_def [symmetric] q'_def [symmetric] by blast
qed

theorem jumps_learned_witness:
  "pr_target (fst (predict 4 (pred_update 4 (instr0\<lparr>ins_op := JAL\<rparr>) True 64 0 checkpoint0
     (predictor_base default_config)))) = 64"
proof -
  have "pred_typed (predictor_base default_config)"
    by (rule predictor_new_typed [of default_config "[]"])
      (simp_all add: predictor_ok_def predictor_new_def default_config_def)
  moreover have "kindOf (instr0\<lparr>ins_op := JAL\<rparr>) = UNCOND" by code_simp
  ultimately show ?thesis
    using jumps_learned [of "predictor_base default_config" "instr0\<lparr>ins_op := JAL\<rparr>" 4 64 0 checkpoint0]
    by (simp add: Let_def case_prod_beta)
qed

end
