(* ===== verification/Dram.thy ===== *)
theory Dram
  imports Flat_Memory
begin

text \<open>
  Model of \<^verbatim>\<open>memory/request.h\<close>, \<^verbatim>\<open>memory/dram.h\<close> and \<^verbatim>\<open>memory/dram.cpp\<close>: the vocabulary of the
  timed memory system and the fixed-latency main memory.  The backing store the DRAM refers to
  is passed to the operations that use it.
\<close>

section \<open>Requests and responses\<close>

definition kMaxLineBytes :: nat where
  "kMaxLineBytes = 128"

text \<open>A \<^verbatim>\<open>Line\<close> is a list of 128 bytes.\<close>

type_synonym line = "u8 list"

record mem_request =
  rq_wline :: line
  rq_tag :: u64
  rq_addr :: u32
  rq_size :: u32
  rq_wdata :: u32
  rq_src :: u8
  rq_isWrite :: bool

record mem_response =
  rs_rline :: line
  rs_tag :: u64
  rs_rdata :: u32
  rs_src :: u8

text \<open>New records; the bytes of a new line are indeterminate in the program and zero here.\<close>

definition blank_line :: line where
  "blank_line = replicate kMaxLineBytes 0"

definition mem_request0 :: mem_request where
  "mem_request0 = \<lparr>rq_wline = blank_line, rq_tag = 0, rq_addr = 0, rq_size = 0, rq_wdata = 0, rq_src = 0,
     rq_isWrite = False\<rparr>"

definition mem_response0 :: mem_response where
  "mem_response0 = \<lparr>rs_rline = blank_line, rs_tag = 0, rs_rdata = 0, rs_src = 0\<rparr>"

text \<open>\<^verbatim>\<open>memcpy\<close> of \<open>bs\<close> to offset \<open>i\<close> of an array.\<close>

definition blit :: "nat \<Rightarrow> u8 list \<Rightarrow> u8 list \<Rightarrow> u8 list" where
  "blit i bs xs = take i xs @ bs @ drop (i + length bs) xs"

text \<open>A response and the cycle it is ready at.\<close>

record txn =
  x_resp :: mem_response
  x_readyAt :: u64

text \<open>The loop that moves the transactions that are ready from the front of a pipe to the responses.\<close>

primrec drain_ready :: "u64 \<Rightarrow> txn list \<Rightarrow> mem_response list \<Rightarrow> txn list \<times> mem_response list" where
  "drain_ready now [] q = ([], q)"
| "drain_ready now (t # ts) q =
     (if x_readyAt t \<le> now then drain_ready now ts (q @ [x_resp t]) else (t # ts, q))"

section \<open>Main memory\<close>

record dram =
  d_latency :: u32
  d_tickCount :: u64
  d_acceptedThisCycle :: bool
  d_inflight :: "txn list"
  d_respQ :: "mem_response list"

definition dram_new :: "u32 \<Rightarrow> dram" where
  "dram_new latency =
     \<lparr>d_latency = (if latency \<noteq> 0 then latency else 1), d_tickCount = 0, d_acceptedThisCycle = False,
      d_inflight = [], d_respQ = []\<rparr>"

definition dram_canAccept :: "dram \<Rightarrow> bool" where
  "dram_canAccept d \<longleftrightarrow> \<not> d_acceptedThisCycle d"

definition dram_hasResponse :: "dram \<Rightarrow> bool" where
  "dram_hasResponse d \<longleftrightarrow> d_respQ d \<noteq> []"

definition dram_frontResponse :: "dram \<Rightarrow> mem_response" where
  "dram_frontResponse d = hd (d_respQ d)"

definition dram_popResponse :: "dram \<Rightarrow> dram" where
  "dram_popResponse d = d\<lparr>d_respQ := tl (d_respQ d)\<rparr>"

definition dram_perform :: "mem_request \<Rightarrow> mem_response \<Rightarrow> memory \<Rightarrow> (memory \<times> mem_response) result" where
  "dram_perform req r m =
     (let r = r\<lparr>rs_src := rq_src req, rs_tag := rq_tag req\<rparr> in
      if rq_size req \<le> 4
      then if rq_isWrite req
           then bind_result (mem_store m (rq_addr req) (rq_size req) (rq_wdata req)) (\<lambda>m. Inr (m, r))
           else bind_result (mem_load m (rq_addr req) (rq_size req)) (\<lambda>v. Inr (m, r\<lparr>rs_rdata := v\<rparr>))
      else
        bind_result (mem_check m (rq_addr req) (rq_size req) (if rq_isWrite req then ''store'' else ''load''))
          (\<lambda>_. if rq_isWrite req
               then Inr (m\<lparr>bytes := blit (unat (rq_addr req)) (take (unat (rq_size req)) (rq_wline req)) (bytes m)\<rparr>, r)
               else Inr (m, r\<lparr>rs_rline := blit 0 (take (unat (rq_size req)) (drop (unat (rq_addr req)) (bytes m)))
                                             (rs_rline r)\<rparr>)))"

definition dram_access :: "mem_request \<Rightarrow> memory \<times> dram \<Rightarrow> (memory \<times> dram) result" where
  "dram_access req = (\<lambda>(m, d).
     let d = d\<lparr>d_acceptedThisCycle := True\<rparr> in
     bind_result (dram_perform req mem_response0 m) (\<lambda>(m, r).
       if d_latency d = 1 then Inr (m, d\<lparr>d_respQ := d_respQ d @ [r]\<rparr>)
       else Inr (m, d\<lparr>d_inflight := d_inflight d @
                     [\<lparr>x_resp = r, x_readyAt = d_tickCount d + ucast (d_latency d) - 1\<rparr>]\<rparr>)))"

definition dram_tick :: "dram \<Rightarrow> dram" where
  "dram_tick d =
     (let d = d\<lparr>d_tickCount := d_tickCount d + 1, d_acceptedThisCycle := False\<rparr>;
          (ts, q) = drain_ready (d_tickCount d) (d_inflight d) (d_respQ d)
      in d\<lparr>d_inflight := ts, d_respQ := q\<rparr>)"

section \<open>Delay lines\<close>

lemma drain_ready_eq:
  "drain_ready now ts q = (dropWhile (\<lambda>t. x_readyAt t \<le> now) ts, q @ map x_resp (takeWhile (\<lambda>t. x_readyAt t \<le> now) ts))"
  by (induction ts arbitrary: q) simp_all

lemma drain_ready_queue:
  assumes "drain_ready now ts q = (ts', q')"
  shows "q' @ map x_resp ts' = q @ map x_resp ts"
  using assms by (auto simp: drain_ready_eq simp flip: map_append)

text \<open>
  The abstract view: the responses in the order they will be popped, each with the number of
  ticks until it can be.
\<close>

definition dram_abs :: "dram \<Rightarrow> (nat \<times> mem_response) list" where
  "dram_abs d = map (\<lambda>r. (0, r)) (d_respQ d) @
     map (\<lambda>t. (unat (x_readyAt t) - unat (d_tickCount d), x_resp t)) (d_inflight d)"

definition dram_ok :: "dram \<Rightarrow> bool" where
  "dram_ok d \<longleftrightarrow> d_latency d \<noteq> 0 \<and> sorted (map (unat \<circ> x_readyAt) (d_inflight d)) \<and>
     (\<forall>t \<in> set (d_inflight d). unat (d_tickCount d) < unat (x_readyAt t) \<and>
        unat (x_readyAt t) < unat (d_tickCount d) + unat (d_latency d)) \<and>
     unat (d_tickCount d) + unat (d_latency d) < 2 ^ 64"

lemma dram_new_ok: "dram_ok (dram_new latency)"
  using unat_less_pow32 [of latency] by (simp add: dram_ok_def dram_new_def)

lemma sorted_dropWhile_ready:
  assumes "sorted (map f ts)" "t \<in> set (dropWhile (\<lambda>t. f t \<le> n) ts)"
  shows "(n :: nat) < f t"
  using assms by (induction ts) (auto split: if_splits)

lemma dram_tick_lemma:
  assumes "dram_ok d" "unat (d_tickCount d) + unat (d_latency d) + 1 < 2 ^ 64"
  shows "dram_ok (dram_tick d)" "dram_abs (dram_tick d) = map (\<lambda>(n, r). (n - 1, r)) (dram_abs d)"
    "d_latency (dram_tick d) = d_latency d" "dram_canAccept (dram_tick d)"
    "unat (d_tickCount (dram_tick d)) = unat (d_tickCount d) + 1"
proof -
  let ?now = "d_tickCount d + 1" and ?ts = "d_inflight d"
  have now: "unat ?now = unat (d_tickCount d) + 1" using assms(2) by (simp add: unat_word_ariths)
  have le: "(x_readyAt t \<le> ?now) = (unat (x_readyAt t) \<le> unat (d_tickCount d) + 1)" for t
    by (simp add: word_le_nat_alt now)
  let ?P = "\<lambda>t. unat (x_readyAt t) \<le> unat (d_tickCount d) + 1"
  have tick: "dram_tick d = d\<lparr>d_tickCount := ?now, d_acceptedThisCycle := False,
      d_inflight := dropWhile ?P ?ts, d_respQ := d_respQ d @ map x_resp (takeWhile ?P ?ts)\<rparr>"
    by (simp add: dram_tick_def Let_def drain_ready_eq le)
  show "d_latency (dram_tick d) = d_latency d" "dram_canAccept (dram_tick d)"
    "unat (d_tickCount (dram_tick d)) = unat (d_tickCount d) + 1"
    using now by (simp_all add: tick dram_canAccept_def)
  have sorted: "sorted (map (unat \<circ> x_readyAt) ?ts)" using assms(1) by (simp add: dram_ok_def)
  have old: "unat (d_tickCount d) < unat (x_readyAt t) \<and> unat (x_readyAt t) < unat (d_tickCount d) + unat (d_latency d)"
    if "t \<in> set ?ts" for t
    using assms(1) that by (simp add: dram_ok_def)
  have "sorted (map (unat \<circ> x_readyAt) (dropWhile ?P ?ts))"
    using sorted by (metis sorted_append map_append takeWhile_dropWhile_id)
  moreover have "unat (d_tickCount d) + 1 < unat (x_readyAt t)" if "t \<in> set (dropWhile ?P ?ts)" for t
    using sorted_dropWhile_ready [of "unat \<circ> x_readyAt" ?ts t "unat (d_tickCount d) + 1"] sorted that by simp
  moreover have "unat (x_readyAt t) < unat (d_tickCount d) + 1 + unat (d_latency d)"
    if "t \<in> set (dropWhile ?P ?ts)" for t
    using old [of t] set_dropWhileD [OF that] by simp
  ultimately show "dram_ok (dram_tick d)"
    using assms unfolding dram_ok_def tick by (simp add: now)
  have dr: "n - (m + 1) = n - m - 1" for n m :: nat by simp
  have tk: "unat (x_readyAt t) - unat (d_tickCount d) - 1 = 0" if "t \<in> set (takeWhile ?P ?ts)" for t
    using set_takeWhileD [OF that] by simp
  let ?F = "\<lambda>t. (unat (x_readyAt t) - unat (d_tickCount d) - 1, x_resp t)"
  have "map ?F ?ts = map ?F (takeWhile ?P ?ts) @ map ?F (dropWhile ?P ?ts)"
    by (metis map_append takeWhile_dropWhile_id)
  moreover have "map ?F (takeWhile ?P ?ts) = map (\<lambda>r. (0, r)) (map x_resp (takeWhile ?P ?ts))"
    unfolding map_map by (rule map_cong [OF refl]) (use tk in simp)
  ultimately show "dram_abs (dram_tick d) = map (\<lambda>(n, r). (n - 1, r)) (dram_abs d)"
    by (simp add: dram_abs_def tick now comp_def)
qed

lemma dram_access_lemma:
  assumes "dram_ok d" "dram_access req (m, d) = Inr (m', d')"
  obtains r where "dram_perform req mem_response0 m = Inr (m', r)" "dram_ok d'"
    "dram_abs d' = dram_abs d @ [(unat (d_latency d) - 1, r)]" "d_latency d' = d_latency d"
    "d_tickCount d' = d_tickCount d" "\<not> dram_canAccept d'"
proof -
  from assms(2) obtain r where r: "dram_perform req mem_response0 m = Inr (m', r)"
    and d': "d' = (if d_latency d = 1 then d\<lparr>d_acceptedThisCycle := True, d_respQ := d_respQ d @ [r]\<rparr>
      else d\<lparr>d_acceptedThisCycle := True, d_inflight := d_inflight d @
          [\<lparr>x_resp = r, x_readyAt = d_tickCount d + ucast (d_latency d) - 1\<rparr>]\<rparr>)"
    by (auto simp: dram_access_def Let_def bind_result_Inr split: if_splits)
  have lat: "0 < unat (d_latency d)" using assms(1) by (simp add: dram_ok_def unat_gt_0)
  show thesis
  proof (cases "d_latency d = 1")
    case True
    then have "d_inflight d = []" using assms(1) by (cases "d_inflight d") (auto simp: dram_ok_def)
    then show thesis using that [OF r] True assms(1)
      by (simp add: d' dram_ok_def dram_abs_def dram_canAccept_def)
  next
    case False
    let ?ra = "d_tickCount d + ucast (d_latency d) - 1"
    have b: "unat (d_tickCount d) + unat (d_latency d) < 2 ^ 64" using assms(1) by (simp add: dram_ok_def)
    have u: "unat (ucast (d_latency d) :: u64) = unat (d_latency d)"
      using unat_less_pow32 [of "d_latency d"] by (simp add: unsigned_ucast_eq take_bit_nat_eq_self)
    have "unat (d_tickCount d + ucast (d_latency d)) = unat (d_tickCount d) + unat (d_latency d)"
      using b by (simp add: unat_word_ariths u)
    moreover have "?ra = (d_tickCount d + ucast (d_latency d)) - 1" ..
    ultimately have ra: "unat ?ra = unat (d_tickCount d) + (unat (d_latency d) - 1)"
      using lat by (simp add: unat_sub_if_size word_size unat_word_ariths)
    have "unat (d_latency d) \<noteq> 1" using False by (metis unat_1 word_unat_eq_iff)
    then have l1: "1 < unat (d_latency d)" using lat by simp
    have "dram_ok d'" using assms(1) False l1 ra
      by (auto simp: d' dram_ok_def sorted_append less_Suc_eq_le)
    then show thesis using that [OF r] False ra by (simp add: d' dram_abs_def dram_canAccept_def)
  qed
qed


section \<open>Latency and order\<close>

text \<open>The cycles that pass: a number of ticks.\<close>

lemma dram_ticks:
  assumes "dram_ok d" "unat (d_tickCount d) + unat (d_latency d) + n < 2 ^ 64"
  shows "dram_ok ((dram_tick ^^ n) d) \<and> dram_abs ((dram_tick ^^ n) d) = map (\<lambda>(k, r). (k - n, r)) (dram_abs d) \<and>
    unat (d_tickCount ((dram_tick ^^ n) d)) = unat (d_tickCount d) + n \<and> d_latency ((dram_tick ^^ n) d) = d_latency d"
  using assms(2)
proof (induction n)
  case 0
  then show ?case using assms(1) by simp
next
  case (Suc n)
  let ?e = "(dram_tick ^^ n) d"
  have IH: "dram_ok ?e" "dram_abs ?e = map (\<lambda>(k, r). (k - n, r)) (dram_abs d)"
    "unat (d_tickCount ?e) = unat (d_tickCount d) + n" "d_latency ?e = d_latency d"
    using Suc by simp_all
  have "unat (d_tickCount ?e) + unat (d_latency ?e) + 1 < 2 ^ 64" using Suc.prems IH by simp
  note t = dram_tick_lemma [OF IH(1) this]
  show ?case
    using t IH by (simp add: case_prod_beta comp_def)
qed

lemma dram_hasResponse_abs:
  assumes "dram_ok d"
  shows "dram_hasResponse d \<longleftrightarrow> (\<exists>r rest. dram_abs d = (0, r) # rest)"
    and "dram_hasResponse d \<Longrightarrow> dram_abs d = (0, dram_frontResponse d) # dram_abs (dram_popResponse d)"
proof -
  show pop: "dram_abs d = (0, dram_frontResponse d) # dram_abs (dram_popResponse d)" if "dram_hasResponse d"
    using that by (cases "d_respQ d")
      (simp_all add: dram_hasResponse_def dram_abs_def dram_frontResponse_def dram_popResponse_def)
  show "dram_hasResponse d \<longleftrightarrow> (\<exists>r rest. dram_abs d = (0, r) # rest)"
  proof
    assume "\<exists>r rest. dram_abs d = (0, r) # rest"
    then show "dram_hasResponse d"
      using assms by (cases "d_inflight d") (auto simp: dram_hasResponse_def dram_abs_def dram_ok_def)
  qed (use pop in blast)
qed

text \<open>
  C40. Main memory answers every request in order and after exactly its latency.  A request
  accepted now is behind all the earlier ones; after \<open>latency - 1\<close> ticks, and not earlier, it and
  everything before it can be popped; popping takes the oldest; and one request is accepted per
  cycle.
\<close>

theorem dram_latency_exact:
  assumes "dram_ok d" "dram_canAccept d" "dram_access req (m, d) = Inr (m', d')"
    and "unat (d_tickCount d) + 2 * unat (d_latency d) < 2 ^ 64"
  shows "\<exists>r. dram_perform req mem_response0 m = Inr (m', r) \<and>
    dram_abs d' = dram_abs d @ [(unat (d_latency d) - 1, r)] \<and> \<not> dram_canAccept d' \<and>
    (\<forall>n < unat (d_latency d). let e = (dram_tick ^^ n) d' in
       (n \<noteq> 0 \<longrightarrow> dram_canAccept e) \<and>
       dram_abs e = map (\<lambda>(k, r). (k - n, r)) (dram_abs d) @ [(unat (d_latency d) - 1 - n, r)] \<and>
       (dram_hasResponse e \<longrightarrow> dram_abs e = (0, dram_frontResponse e) # dram_abs (dram_popResponse e)) \<and>
       (n = unat (d_latency d) - 1 \<longrightarrow> last (d_respQ e) = r \<and> length (d_respQ e) = length (dram_abs d')))"
proof -
  obtain r where r: "dram_perform req mem_response0 m = Inr (m', r)" and ok: "dram_ok d'"
    and a: "dram_abs d' = dram_abs d @ [(unat (d_latency d) - 1, r)]" "d_latency d' = d_latency d"
      "d_tickCount d' = d_tickCount d" "\<not> dram_canAccept d'"
    using dram_access_lemma [OF assms(1,3)] by metis
  have tick: "dram_canAccept ((dram_tick ^^ Suc n) d')" for n
    by (simp add: dram_canAccept_def dram_tick_def Let_def case_prod_beta)
  have main: "let e = (dram_tick ^^ n) d' in
       (n \<noteq> 0 \<longrightarrow> dram_canAccept e) \<and>
       dram_abs e = map (\<lambda>(k, r). (k - n, r)) (dram_abs d) @ [(unat (d_latency d) - 1 - n, r)] \<and>
       (dram_hasResponse e \<longrightarrow> dram_abs e = (0, dram_frontResponse e) # dram_abs (dram_popResponse e)) \<and>
       (n = unat (d_latency d) - 1 \<longrightarrow> last (d_respQ e) = r \<and> length (d_respQ e) = length (dram_abs d'))"
    if n: "n < unat (d_latency d)" for n
  proof -
    let ?e = "(dram_tick ^^ n) d'"
    have e: "dram_ok ?e" "dram_abs ?e = map (\<lambda>(k, r). (k - n, r)) (dram_abs d')"
      using dram_ticks [OF ok, of n] assms(4) a n by simp_all
    have abs: "dram_abs ?e = map (\<lambda>(k, r). (k - n, r)) (dram_abs d) @ [(unat (d_latency d) - 1 - n, r)]"
      using e(2) a(1) by simp
    have all: "last (d_respQ ?e) = r \<and> length (d_respQ ?e) = length (dram_abs d')"
      if "n = unat (d_latency d) - 1"
    proof -
      have "d_inflight ?e = []"
      proof (rule ccontr)
        assume "d_inflight ?e \<noteq> []"
        then have "last (dram_abs ?e) =
            (unat (x_readyAt (last (d_inflight ?e))) - unat (d_tickCount ?e), x_resp (last (d_inflight ?e)))"
          by (simp add: dram_abs_def last_map)
        moreover have "fst (last (dram_abs ?e)) = 0" using abs that by simp
        ultimately show False
          using e(1) last_in_set [OF \<open>d_inflight ?e \<noteq> []\<close>] by (fastforce simp: dram_ok_def)
      qed
      then have q: "dram_abs ?e = map (\<lambda>r. (0, r)) (d_respQ ?e)" by (simp add: dram_abs_def)
      moreover have "length (dram_abs ?e) = length (dram_abs d')" using e(2) by simp
      moreover have "d_respQ ?e \<noteq> []" using q abs by (cases "d_respQ ?e") auto
      moreover have "last (dram_abs ?e) = (0, r)" using abs that by simp
      ultimately show ?thesis by (simp add: last_map)
    qed
    have "n \<noteq> 0 \<longrightarrow> dram_canAccept ?e" using tick [of "n - 1"] by (cases n) simp_all
    then show ?thesis
      unfolding Let_def using abs all dram_hasResponse_abs(2) [OF e(1)] by blast
  qed
  show ?thesis using r a(1,4) main by blast
qed

text \<open>A read of the first word with latency 3.\<close>

theorem dram_latency_exact_witness:
  "\<exists>r m' d'. dram_access (mem_request0\<lparr>rq_size := 4\<rparr>) (memory_new 64, dram_new 3) = Inr (m', d') \<and>
     dram_abs d' = [(2, r)]"
proof -
  obtain m' d' where a: "dram_access (mem_request0\<lparr>rq_size := 4\<rparr>) (memory_new 64, dram_new 3) = Inr (m', d')"
    by (simp add: dram_access_def dram_perform_def mem_request0_def mem_load_def mem_check_def
        memory_new_def dram_new_def Let_def)
  have "dram_canAccept (dram_new 3)" "unat (d_tickCount (dram_new 3)) + 2 * unat (d_latency (dram_new 3)) < 2 ^ 64"
    "dram_abs (dram_new 3) = []" "unat (d_latency (dram_new 3)) - 1 = 2"
    by (simp_all add: dram_new_def dram_canAccept_def dram_abs_def)
  with dram_latency_exact [OF dram_new_ok _ a] a show ?thesis by fastforce
qed

end
