(* ===== verification/Cache.thy ===== *)
theory Cache
  imports Dram Config
begin

text \<open>
  Model of \<^verbatim>\<open>memory/cache.h\<close> and \<^verbatim>\<open>memory/cache.cpp\<close>: the nonblocking write-back cache with its
  miss registers, writeback queue and response queue.  The port below is what the caller of
  \<open>cache_tick\<close> says about it: whether it accepts, and the request it is given.  A pointer into the
  data array is the index of the line.
\<close>

section \<open>State\<close>

record cache_stats =
  cs_accesses :: u64
  cs_hits :: u64
  cs_misses :: u64
  cs_mergedMisses :: u64
  cs_wbqRestores :: u64
  cs_hitUnderMiss :: u64
  cs_overlapCycles :: u64
  cs_dirtyEvictions :: u64
  cs_bytesRead :: u64
  cs_bytesWritten :: u64
  cs_latencySum :: u64
  cs_mshrOccSum :: u64
  cs_ticks :: u64

definition cache_stats0 :: cache_stats where
  "cache_stats0 = \<lparr>cs_accesses = 0, cs_hits = 0, cs_misses = 0, cs_mergedMisses = 0, cs_wbqRestores = 0,
     cs_hitUnderMiss = 0, cs_overlapCycles = 0, cs_dirtyEvictions = 0, cs_bytesRead = 0,
     cs_bytesWritten = 0, cs_latencySum = 0, cs_mshrOccSum = 0, cs_ticks = 0\<rparr>"

record waiting =
  w_req :: mem_request
  w_issueTick :: u64

record mshr =
  m_valid :: bool
  m_lineAddr :: u32
  m_refillSent :: bool
  m_waiting :: "waiting list"

definition mshr0 :: mshr where
  "mshr0 = \<lparr>m_valid = False, m_lineAddr = 0, m_refillSent = False, m_waiting = []\<rparr>"

record wb_entry =
  wb_addr :: u32
  wb_line :: line

record pending_install =
  pi_mshrIdx :: u32
  pi_line :: line

text \<open>A dirty flag is 0 or 1 in the program.\<close>

record cache =
  c_cfg :: cache_config
  c_sets :: u32
  c_lineShift :: nat
  c_tagShift :: nat
  c_srcId :: u8
  c_data :: "u8 list"
  c_tags :: "u32 list"
  c_dirty :: "bool list"
  c_lru :: "u64 list"
  c_lruTick :: u64
  c_mshrs :: "mshr list"
  c_pendingMisses :: u32
  c_wbq :: "wb_entry list"
  c_pendingInstalls :: "pending_install list"
  c_hitPipe :: "txn list"
  c_respQ :: "mem_response list"
  c_tickCount :: u64
  c_stats :: cache_stats

definition invalidTag :: u32 where
  "invalidTag = - 1"

definition kWbTag :: u64 where
  "kWbTag = - 1"

definition countr_zero :: "u32 \<Rightarrow> nat" where
  "countr_zero w = length (takeWhile (\<lambda>i. \<not> bit w i) [0..<32])"

definition cache_new :: "cache_config \<Rightarrow> u8 \<Rightarrow> cache" where
  "cache_new cfg srcId =
     (let sets = cc_sizeBytes cfg div (cc_lineBytes cfg * cc_ways cfg);
          lineShift = countr_zero (cc_lineBytes cfg);
          lines = unat sets * unat (cc_ways cfg)
      in \<lparr>c_cfg = (if cc_hitLatency cfg = 0 then cfg\<lparr>cc_hitLatency := 1\<rparr> else cfg), c_sets = sets,
          c_lineShift = lineShift, c_tagShift = lineShift + countr_zero sets, c_srcId = srcId,
          c_data = replicate (lines * unat (cc_lineBytes cfg)) 0, c_tags = replicate lines invalidTag,
          c_dirty = replicate lines False, c_lru = replicate lines 0, c_lruTick = 0,
          c_mshrs = replicate (unat (cc_mshrs cfg)) mshr0, c_pendingMisses = 0, c_wbq = [],
          c_pendingInstalls = [], c_hitPipe = [], c_respQ = [], c_tickCount = 0, c_stats = cache_stats0\<rparr>)"

section \<open>Geometry\<close>

definition setOf :: "u32 \<Rightarrow> cache \<Rightarrow> u32" where
  "setOf addr c = drop_bit (c_lineShift c) addr AND (c_sets c - 1)"

definition tagOf :: "u32 \<Rightarrow> cache \<Rightarrow> u32" where
  "tagOf addr c = drop_bit (c_tagShift c) addr"

definition offsetOf :: "u32 \<Rightarrow> cache \<Rightarrow> u32" where
  "offsetOf addr c = addr AND (cc_lineBytes (c_cfg c) - 1)"

text \<open>The index \<^verbatim>\<open>set * cfg.ways + way\<close>.\<close>

definition slot :: "u32 \<Rightarrow> nat \<Rightarrow> cache \<Rightarrow> nat" where
  "slot sx way c = unat (sx * cc_ways (c_cfg c) + word_of_nat way)"

definition lineAddrOf :: "u32 \<Rightarrow> nat \<Rightarrow> cache \<Rightarrow> u32" where
  "lineAddrOf sx way c =
     push_bit (c_tagShift c) (c_tags c ! slot sx way c) OR push_bit (c_lineShift c) sx"

text \<open>The bytes \<^verbatim>\<open>lineData\<close> points to, and overwriting them.\<close>

definition lineData :: "nat \<Rightarrow> cache \<Rightarrow> u8 list" where
  "lineData i c = take (unat (cc_lineBytes (c_cfg c))) (drop (i * unat (cc_lineBytes (c_cfg c))) (c_data c))"

definition setLineData :: "nat \<Rightarrow> u8 list \<Rightarrow> cache \<Rightarrow> cache" where
  "setLineData i l c = c\<lparr>c_data := blit (i * unat (cc_lineBytes (c_cfg c))) l (c_data c)\<rparr>"

definition touchLRU :: "u32 \<Rightarrow> nat \<Rightarrow> cache \<Rightarrow> cache" where
  "touchLRU sx way c =
     c\<lparr>c_lruTick := c_lruTick c + 1, c_lru := (c_lru c)[slot sx way c := c_lruTick c + 1]\<rparr>"

definition findWay :: "u32 \<Rightarrow> u32 \<Rightarrow> cache \<Rightarrow> nat option" where
  "findWay sx tag c = find (\<lambda>w. c_tags c ! slot sx w c = tag) [0..<unat (cc_ways (c_cfg c))]"

primrec victim_scan :: "u32 \<Rightarrow> cache \<Rightarrow> nat list \<Rightarrow> nat \<Rightarrow> u64 \<Rightarrow> nat" where
  "victim_scan sx c [] victim oldest = victim"
| "victim_scan sx c (w # ws) victim oldest =
     (let i = slot sx w c in
      if c_tags c ! i = invalidTag then w
      else if c_lru c ! i < oldest then victim_scan sx c ws w (c_lru c ! i)
      else victim_scan sx c ws victim oldest)"

definition victimWay :: "u32 \<Rightarrow> cache \<Rightarrow> nat" where
  "victimWay sx c = victim_scan sx c [0..<unat (cc_ways (c_cfg c))] 0 (- 1)"

definition freeMshr :: "cache \<Rightarrow> nat option" where
  "freeMshr c = find (\<lambda>i. \<not> m_valid (c_mshrs c ! i)) [0..<length (c_mshrs c)]"

definition mshrFor :: "u32 \<Rightarrow> cache \<Rightarrow> nat option" where
  "mshrFor lineAddr c =
     find (\<lambda>i. m_valid (c_mshrs c ! i) \<and> m_lineAddr (c_mshrs c ! i) = lineAddr) [0..<length (c_mshrs c)]"

definition cache_canAccept :: "cache \<Rightarrow> bool" where
  "cache_canAccept c \<longleftrightarrow>
     unat (c_pendingMisses c) < length (c_mshrs c) \<and> length (c_wbq c) < unat (cc_wbq (c_cfg c))"

definition cache_hasResponse :: "cache \<Rightarrow> bool" where
  "cache_hasResponse c \<longleftrightarrow> c_respQ c \<noteq> []"

definition cache_frontResponse :: "cache \<Rightarrow> mem_response" where
  "cache_frontResponse c = hd (c_respQ c)"

definition cache_popResponse :: "cache \<Rightarrow> cache" where
  "cache_popResponse c = c\<lparr>c_respQ := tl (c_respQ c)\<rparr>"

section \<open>Serving a request\<close>

text \<open>No access reaches past the end of its line.\<close>

definition performOnLine :: "mem_request \<Rightarrow> u32 \<Rightarrow> nat \<Rightarrow> mem_response \<Rightarrow> cache \<Rightarrow> mem_response \<times> cache" where
  "performOnLine req sx way resp c =
     (let i = slot sx way c; line = lineData i c; off = offsetOf (rq_addr req) c;
          resp = resp\<lparr>rs_src := rq_src req, rs_tag := rq_tag req\<rparr>;
          (resp, c) =
            (if rq_isWrite req
             then let line = (if rq_size req = cc_lineBytes (c_cfg c)
                              then take (unat (cc_lineBytes (c_cfg c))) (rq_wline req)
                              else store_bytes line off (unat (rq_size req)) (rq_wdata req))
                  in (resp, (setLineData i line c)\<lparr>c_dirty := (c_dirty c)[i := True]\<rparr>)
             else if 4 < rq_size req
             then (resp\<lparr>rs_rline := blit 0 (take (unat (rq_size req)) (drop (unat off) line)) (rs_rline resp)\<rparr>, c)
             else (resp\<lparr>rs_rdata := load_bytes line off (unat (rq_size req))\<rparr>, c))
      in (resp, touchLRU sx way c))"

text \<open>
  \<^verbatim>\<open>reserveHit\<close> returns the slot the caller writes the response to; here the caller passes the
  response it writes.
\<close>

definition reserveHit :: "mem_response \<Rightarrow> cache \<Rightarrow> cache" where
  "reserveHit resp c =
     (let lat = ucast (cc_hitLatency (c_cfg c));
          c = c\<lparr>c_stats := (c_stats c)\<lparr>cs_latencySum := cs_latencySum (c_stats c) + lat\<rparr>\<rparr> in
      if cc_hitLatency (c_cfg c) = 1 then c\<lparr>c_respQ := c_respQ c @ [resp]\<rparr>
      else c\<lparr>c_hitPipe := c_hitPipe c @ [\<lparr>x_resp = resp, x_readyAt = c_tickCount c + lat - 1\<rparr>]\<rparr>)"

text \<open>The set and the way are returned also when there is no room for the victim.\<close>

definition installLine :: "u32 \<Rightarrow> u8 list \<Rightarrow> bool \<Rightarrow> cache \<Rightarrow> bool \<times> u32 \<times> nat \<times> cache" where
  "installLine lineAddr src isDirty c =
     (let sx = setOf lineAddr c; way = victimWay sx c; i = slot sx way c;
          evict = (c_tags c ! i \<noteq> invalidTag \<and> c_dirty c ! i)
      in if evict \<and> unat (cc_wbq (c_cfg c)) \<le> length (c_wbq c) then (False, sx, way, c)
         else
           let c = (if evict
                    then c\<lparr>c_stats := (c_stats c)\<lparr>cs_dirtyEvictions := cs_dirtyEvictions (c_stats c) + 1\<rparr>,
                           c_wbq := c_wbq c @ [\<lparr>wb_addr = lineAddrOf sx way c,
                                                wb_line = blit 0 (lineData i c) blank_line\<rparr>]\<rparr>
                    else c);
               c = setLineData i (take (unat (cc_lineBytes (c_cfg c))) src) c
           in (True, sx, way, c\<lparr>c_tags := (c_tags c)[i := tagOf lineAddr c], c_dirty := (c_dirty c)[i := isDirty]\<rparr>))"

text \<open>Queue a request behind the miss of register \<open>i\<close>.\<close>

definition add_waiting :: "nat \<Rightarrow> mem_request \<Rightarrow> cache \<Rightarrow> cache" where
  "add_waiting i req c =
     c\<lparr>c_mshrs := (c_mshrs c)[i := (c_mshrs c ! i)\<lparr>m_waiting :=
         m_waiting (c_mshrs c ! i) @ [\<lparr>w_req = req, w_issueTick = c_tickCount c\<rparr>]\<rparr>]\<rparr>"

text \<open>The hit, and a hit on a line pulled back from the writeback queue.\<close>

definition serve_hit :: "mem_request \<Rightarrow> u32 \<Rightarrow> nat \<Rightarrow> cache \<Rightarrow> cache" where
  "serve_hit req sx way c =
     (let (resp, c) = performOnLine req sx way mem_response0 c in reserveHit resp c)"

definition remove_nth :: "nat \<Rightarrow> 'a list \<Rightarrow> 'a list" where
  "remove_nth i xs = take i xs @ drop (Suc i) xs"

definition access_restore :: "mem_request \<Rightarrow> nat \<Rightarrow> cache \<Rightarrow> cache" where
  "access_restore req i c =
     (let lineAddr = rq_addr req - offsetOf (rq_addr req) c;
          (_, s, w, c) = installLine lineAddr (wb_line (c_wbq c ! i)) True c;
          c = c\<lparr>c_wbq := remove_nth i (c_wbq c),
                c_stats := (c_stats c)\<lparr>cs_hits := cs_hits (c_stats c) + 1,
                                        cs_wbqRestores := cs_wbqRestores (c_stats c) + 1\<rparr>\<rparr>
      in serve_hit req s w c)"

text \<open>
  The miss.  Without a free register the program would use an index of -1; \<open>cache_canAccept\<close>
  excludes that, and the model leaves the cache as it is.
\<close>

definition access_miss :: "mem_request \<Rightarrow> cache \<Rightarrow> cache" where
  "access_miss req c =
     (let lineAddr = rq_addr req - offsetOf (rq_addr req) c;
          c = c\<lparr>c_stats := (c_stats c)\<lparr>cs_misses := cs_misses (c_stats c) + 1\<rparr>\<rparr>;
          merged = c\<lparr>c_stats := (c_stats c)\<lparr>cs_mergedMisses := cs_mergedMisses (c_stats c) + 1\<rparr>\<rparr>
      in case mshrFor lineAddr c of
           Some i \<Rightarrow> add_waiting i req merged
         | None \<Rightarrow>
             if rq_isWrite req \<and> rq_size req = cc_lineBytes (c_cfg c)
             then let (_, s, w, c) = installLine lineAddr (rq_wline req) True c
                  in reserveHit (mem_response0\<lparr>rs_src := rq_src req, rs_tag := rq_tag req\<rparr>) (touchLRU s w c)
             else case freeMshr c of
                    None \<Rightarrow> c
                  | Some i \<Rightarrow>
                      c\<lparr>c_mshrs := (c_mshrs c)[i := \<lparr>m_valid = True, m_lineAddr = lineAddr, m_refillSent = False,
                           m_waiting = [\<lparr>w_req = req, w_issueTick = c_tickCount c\<rparr>]\<rparr>],
                        c_pendingMisses := c_pendingMisses c + 1\<rparr>)"

definition cache_access :: "mem_request \<Rightarrow> cache \<Rightarrow> cache" where
  "cache_access req c =
     (let c = c\<lparr>c_stats := (c_stats c)\<lparr>cs_accesses := cs_accesses (c_stats c) + 1\<rparr>\<rparr>;
          lineAddr = rq_addr req - offsetOf (rq_addr req) c; sx = setOf (rq_addr req) c
      in case findWay sx (tagOf (rq_addr req) c) c of
           Some way \<Rightarrow>
             (let st = (c_stats c)\<lparr>cs_hits := cs_hits (c_stats c) + 1\<rparr>;
                  st = (if c_pendingMisses c \<noteq> 0 then st\<lparr>cs_hitUnderMiss := cs_hitUnderMiss st + 1\<rparr> else st)
              in serve_hit req sx way (c\<lparr>c_stats := st\<rparr>))
         | None \<Rightarrow>
             (case find (\<lambda>i. wb_addr (c_wbq c ! i) = lineAddr) [0..<length (c_wbq c)] of
                Some i \<Rightarrow> access_restore req i c
              | None \<Rightarrow> access_miss req c))"

section \<open>Refills\<close>

definition serve_waiting :: "u32 \<Rightarrow> nat \<Rightarrow> waiting \<Rightarrow> cache \<Rightarrow> cache" where
  "serve_waiting sx way w c =
     (let (resp, c) = performOnLine (w_req w) sx way mem_response0 c
      in c\<lparr>c_respQ := c_respQ c @ [resp],
           c_stats := (c_stats c)\<lparr>cs_latencySum := cs_latencySum (c_stats c) + (c_tickCount c - w_issueTick w + 1)\<rparr>\<rparr>)"

definition tryInstall :: "nat \<Rightarrow> line \<Rightarrow> cache \<Rightarrow> bool \<times> cache" where
  "tryInstall x line c =
     (let m = c_mshrs c ! x; (ok, sx, way, c) = installLine (m_lineAddr m) line False c in
      if \<not> ok then (False, c)
      else
        let c = c\<lparr>c_stats := (c_stats c)\<lparr>cs_bytesRead := cs_bytesRead (c_stats c) + ucast (cc_lineBytes (c_cfg c))\<rparr>\<rparr>;
            c = fold (serve_waiting sx way) (m_waiting m) c
        in (True, c\<lparr>c_mshrs := (c_mshrs c)[x := mshr0], c_pendingMisses := c_pendingMisses c - 1\<rparr>))"

definition deliverBelowResponse :: "mem_response \<Rightarrow> cache \<Rightarrow> cache" where
  "deliverBelowResponse r c =
     (if rs_tag r = kWbTag then c
      else let x = ucast (rs_tag r) :: u32; (ok, c) = tryInstall (unat x) (rs_rline r) c in
           if ok then c
           else c\<lparr>c_pendingInstalls := c_pendingInstalls c @ [\<lparr>pi_mshrIdx = x, pi_line = rs_rline r\<rparr>]\<rparr>)"

section \<open>One cycle\<close>

text \<open>The loop over the installs that wait for room; the argument is the rest of the queue.\<close>

primrec install_pending :: "pending_install list \<Rightarrow> cache \<Rightarrow> cache" where
  "install_pending [] c = c\<lparr>c_pendingInstalls := []\<rparr>"
| "install_pending (p # ps) c =
     (let (ok, c) = tryInstall (unat (pi_mshrIdx p)) (pi_line p) c in
      if ok then install_pending ps c else c\<lparr>c_pendingInstalls := p # ps\<rparr>)"

text \<open>The one transaction to the level below, if it accepts one.\<close>

definition send_below :: "bool \<Rightarrow> cache \<Rightarrow> cache \<times> mem_request option" where
  "send_below ready c =
     (if (c_pendingMisses c \<noteq> 0 \<or> c_wbq c \<noteq> []) \<and> ready
      then
        let wbFirst = unat (cc_wbq (c_cfg c)) \<le> length (c_wbq c);
            refill = find (\<lambda>i. m_valid (c_mshrs c ! i) \<and> \<not> m_refillSent (c_mshrs c ! i)) [0..<length (c_mshrs c)]
        in if c_wbq c \<noteq> [] \<and> (wbFirst \<or> refill = None)
           then (c\<lparr>c_wbq := tl (c_wbq c),
                   c_stats := (c_stats c)\<lparr>cs_bytesWritten := cs_bytesWritten (c_stats c) + ucast (cc_lineBytes (c_cfg c))\<rparr>\<rparr>,
                 Some (mem_request0\<lparr>rq_addr := wb_addr (hd (c_wbq c)), rq_size := cc_lineBytes (c_cfg c), rq_isWrite := True,
                                    rq_wline := wb_line (hd (c_wbq c)), rq_src := c_srcId c, rq_tag := kWbTag\<rparr>))
           else case refill of
                  None \<Rightarrow> (c, None)
                | Some i \<Rightarrow>
                    (c\<lparr>c_mshrs := (c_mshrs c)[i := (c_mshrs c ! i)\<lparr>m_refillSent := True\<rparr>]\<rparr>,
                     Some (mem_request0\<lparr>rq_addr := m_lineAddr (c_mshrs c ! i), rq_size := cc_lineBytes (c_cfg c),
                                        rq_src := c_srcId c, rq_tag := word_of_nat i\<rparr>))
      else (c, None))"

definition cache_tick :: "bool \<Rightarrow> cache \<Rightarrow> cache \<times> mem_request option" where
  "cache_tick ready c =
     (let c = c\<lparr>c_tickCount := c_tickCount c + 1\<rparr>;
          (ts, q) = drain_ready (c_tickCount c) (c_hitPipe c) (c_respQ c);
          c = install_pending (c_pendingInstalls c) (c\<lparr>c_hitPipe := ts, c_respQ := q\<rparr>);
          (c, out) = send_below ready c;
          st = c_stats c;
          st = (if 2 \<le> c_pendingMisses c then st\<lparr>cs_overlapCycles := cs_overlapCycles st + 1\<rparr> else st)
      in (c\<lparr>c_stats := st\<lparr>cs_mshrOccSum := cs_mshrOccSum st + ucast (c_pendingMisses c), cs_ticks := cs_ticks st + 1\<rparr>\<rparr>,
          out))"

section \<open>Peeking\<close>

definition waiting_byte :: "u32 \<Rightarrow> mem_request \<Rightarrow> u8" where
  "waiting_byte addr r =
     (if 4 < rq_size r then rq_wline r ! unat (addr - rq_addr r)
      else ucast (drop_bit (8 * unat (addr - rq_addr r)) (rq_wdata r)))"

definition cache_peek8 :: "u32 \<Rightarrow> cache \<Rightarrow> u8 option" where
  "cache_peek8 addr c =
     (case findWay (setOf addr c) (tagOf addr c) c of
        Some w \<Rightarrow> Some (lineData (slot (setOf addr c) w c) c ! unat (offsetOf addr c))
      | None \<Rightarrow>
          (case find (\<lambda>wb. wb_addr wb \<le> addr \<and> addr < wb_addr wb + cc_lineBytes (c_cfg c)) (c_wbq c) of
             Some wb \<Rightarrow> Some (wb_line wb ! unat (addr - wb_addr wb))
           | None \<Rightarrow>
               map_option (waiting_byte addr)
                 (find (\<lambda>r. rq_isWrite r \<and> \<not> (addr < rq_addr r \<or> rq_addr r + rq_size r \<le> addr))
                    (concat (map (\<lambda>m. rev (map w_req (m_waiting m))) (filter m_valid (c_mshrs c)))))))"

end
