(* ===== verification/Cache_Lines.thy ===== *)
theory Cache_Lines
  imports Cache
begin

text \<open>
  The cache seen by lines: address arithmetic, the slot that holds a line, and what installing
  and serving do to the lines.  A line is named by its number, the address divided by the line
  size.
\<close>

section \<open>Bytes of a line\<close>

lemma length_blit: "i + length bs \<le> length xs \<Longrightarrow> length (blit i bs xs) = length xs"
  by (simp add: blit_def)

lemma take_drop_blit_same:
  "i + length bs \<le> length xs \<Longrightarrow> take (length bs) (drop i (blit i bs xs)) = bs"
  by (simp add: blit_def)

lemma take_drop_blit_other:
  assumes "i + length bs \<le> length xs" "j + n \<le> i \<or> i + length bs \<le> j"
  shows "take n (drop j (blit i bs xs)) = take n (drop j xs)"
proof (rule nth_equalityI)
  show "length (take n (drop j (blit i bs xs))) = length (take n (drop j xs))"
    using assms(1) by (simp add: length_blit)
  fix k
  assume "k < length (take n (drop j (blit i bs xs)))"
  then show "take n (drop j (blit i bs xs)) ! k = take n (drop j xs) ! k"
    using assms by (auto simp: blit_def nth_append)
qed

section \<open>Geometry\<close>

abbreviation lineSize :: "cache \<Rightarrow> u32" where
  "lineSize c \<equiv> cc_lineBytes (c_cfg c)"

abbreviation nways :: "cache \<Rightarrow> nat" where
  "nways c \<equiv> unat (cc_ways (c_cfg c))"

abbreviation setBits :: "cache \<Rightarrow> nat" where
  "setBits c \<equiv> c_tagShift c - c_lineShift c"

definition nslots :: "cache \<Rightarrow> nat" where
  "nslots c = 2 ^ setBits c * nways c"

definition geom :: "cache \<Rightarrow> bool" where
  "geom c \<longleftrightarrow> unat (lineSize c) = 2 ^ c_lineShift c \<and> 3 \<le> c_lineShift c \<and> c_lineShift c \<le> 7 \<and>
     c_lineShift c \<le> c_tagShift c \<and> unat (c_sets c) = 2 ^ setBits c \<and> 0 < nways c \<and>
     nslots c * 2 ^ c_lineShift c < 2 ^ 32 \<and>
     length (c_tags c) = nslots c \<and> length (c_dirty c) = nslots c \<and>
     length (c_data c) = nslots c * 2 ^ c_lineShift c"

text \<open>The number of the line of an address.\<close>

definition lineNo :: "u32 \<Rightarrow> cache \<Rightarrow> nat" where
  "lineNo a c = unat a div 2 ^ c_lineShift c"

lemma geom_tagShift:
  assumes "geom c"
  shows "c_tagShift c < 32" "c_tagShift c = c_lineShift c + setBits c" "2 ^ setBits c * 2 ^ c_lineShift c < (2 :: nat) ^ 32"
proof -
  show e: "c_tagShift c = c_lineShift c + setBits c" using assms by (simp add: geom_def)
  have "2 ^ setBits c * 1 \<le> nslots c" using assms unfolding nslots_def geom_def by (intro mult_le_mono) simp_all
  then have "2 ^ setBits c * 2 ^ c_lineShift c \<le> nslots c * 2 ^ c_lineShift c" by simp
  then show l: "2 ^ setBits c * 2 ^ c_lineShift c < (2 :: nat) ^ 32" using assms unfolding geom_def by linarith
  then have "(2 :: nat) ^ c_tagShift c < 2 ^ 32" by (subst e) (simp add: power_add mult.commute)
  then show "c_tagShift c < 32" by (rule power_less_imp_less_exp [rotated]) simp
qed

lemma mask_pred:
  assumes "unat (w :: u32) = 2 ^ k"
  shows "w - 1 = mask k"
proof -
  have "k < 32"
  proof -
    have "(2 :: nat) ^ k < 2 ^ 32" using unat_less_pow32 [of w] assms by simp
    then show ?thesis by (rule power_less_imp_less_exp [rotated]) simp
  qed
  have "word_of_nat (unat w) = w" by simp
  then have "w = 2 ^ k" using assms by simp
  then show ?thesis by (simp add: mask_eq_exp_minus_1)
qed

lemma unat_take_bit: "unat (take_bit k (w :: 'a::len word)) = unat w mod 2 ^ k"
  by (simp only: unsigned_take_bit_eq take_bit_nat_def)

lemma unat_drop_bit: "unat (drop_bit k (w :: 'a::len word)) = unat w div 2 ^ k"
  by (simp only: unat_drop_bit_eq drop_bit_nat_def)

lemma setOf_val:
  assumes "geom c"
  shows "unat (setOf a c) = lineNo a c mod 2 ^ setBits c"
proof -
  have "c_sets c - 1 = mask (setBits c)" using assms by (intro mask_pred) (simp add: geom_def)
  then show ?thesis
    by (simp only: setOf_def lineNo_def unat_take_bit unat_drop_bit flip: take_bit_eq_mask)
qed

lemma offsetOf_val:
  assumes "geom c"
  shows "unat (offsetOf a c) = unat a mod 2 ^ c_lineShift c"
proof -
  have "lineSize c - 1 = mask (c_lineShift c)" using assms by (intro mask_pred) (simp add: geom_def)
  then show ?thesis
    by (simp only: offsetOf_def unat_take_bit flip: take_bit_eq_mask)
qed

lemma tagOf_val:
  assumes "geom c"
  shows "unat (tagOf a c) = lineNo a c div 2 ^ setBits c"
proof -
  have "unat (tagOf a c) = unat a div 2 ^ c_tagShift c" by (simp only: tagOf_def unat_drop_bit)
  also have "\<dots> = unat a div (2 ^ c_lineShift c * 2 ^ setBits c)"
    using geom_tagShift(2) [OF assms] by (metis power_add)
  finally show ?thesis by (simp add: lineNo_def div_mult2_eq)
qed

lemma lineNo_less:
  assumes "geom c"
  shows "lineNo a c < 2 ^ (32 - c_lineShift c)" "lineNo a c div 2 ^ setBits c < 2 ^ (32 - c_tagShift c)"
proof -
  have e: "32 = c_lineShift c + (32 - c_lineShift c)" "32 = c_tagShift c + (32 - c_tagShift c)"
    using assms geom_tagShift(1) [OF assms] by (simp_all add: geom_def)
  have a: "unat a < 2 ^ 32" using unat_less_pow32 [of a] by simp
  then show "lineNo a c < 2 ^ (32 - c_lineShift c)"
    unfolding lineNo_def by (subst (asm) e(1)) (simp only: less_mult_imp_div_less power_add mult.commute)
  have "lineNo a c div 2 ^ setBits c = unat a div 2 ^ c_tagShift c"
    unfolding lineNo_def by (subst (2) geom_tagShift(2) [OF assms]) (simp add: power_add div_mult2_eq)
  then show "lineNo a c div 2 ^ setBits c < 2 ^ (32 - c_tagShift c)"
    using a by (subst (asm) e(2)) (simp only: less_mult_imp_div_less power_add mult.commute)
qed

text \<open>The address of the line is its number times the line size.\<close>

lemma lineAddr_val:
  assumes "geom c"
  shows "unat (a - offsetOf a c) = lineNo a c * 2 ^ c_lineShift c" "unat a = unat (a - offsetOf a c) + unat (offsetOf a c)"
proof -
  have "unat (offsetOf a c) \<le> unat a" by (simp only: offsetOf_val [OF assms] mod_less_eq_dividend)
  then have "offsetOf a c \<le> a" by (simp add: word_le_nat_alt)
  then have d: "unat (a - offsetOf a c) = unat a - unat (offsetOf a c)" by (rule unat_diff_small32)
  then show "unat (a - offsetOf a c) = lineNo a c * 2 ^ c_lineShift c"
    by (simp only: offsetOf_val [OF assms] lineNo_def minus_mod_eq_div_mult)
  show "unat a = unat (a - offsetOf a c) + unat (offsetOf a c)"
    using d \<open>unat (offsetOf a c) \<le> unat a\<close> by simp
qed

lemma lineNo_lineAddr:
  assumes "geom c"
  shows "lineNo (a - offsetOf a c) c = lineNo a c" "2 ^ c_lineShift c dvd unat (a - offsetOf a c)"
proof -
  have "unat (a - offsetOf a c) div 2 ^ c_lineShift c = lineNo a c"
    by (simp only: lineAddr_val(1) [OF assms]) simp
  then show "lineNo (a - offsetOf a c) c = lineNo a c" by (simp only: lineNo_def [of "a - offsetOf a c"])
  show "2 ^ c_lineShift c dvd unat (a - offsetOf a c)" by (simp only: lineAddr_val(1) [OF assms]) simp
qed

text \<open>Aligned addresses are equal when their lines are.\<close>

lemma aligned_lineNo_inj:
  assumes "2 ^ c_lineShift c dvd unat a" "2 ^ c_lineShift c dvd unat b" "lineNo a c = lineNo b c"
  shows "a = b"
proof -
  have "unat a = unat b" using assms unfolding lineNo_def by (metis dvd_div_mult_self)
  then show ?thesis by (simp add: word_unat_eq_iff)
qed

section \<open>Slots\<close>

lemma slot_val:
  assumes "geom c" "unat sx < 2 ^ setBits c" "w < nways c"
  shows "slot sx w c = unat sx * nways c + w" "slot sx w c < nslots c"
    "slot sx w c div nways c = unat sx" "slot sx w c mod nways c = w"
proof -
  have "Suc (unat sx) * nways c \<le> nslots c" unfolding nslots_def using assms(2) by (intro mult_le_mono1) simp
  then have b: "unat sx * nways c + w < nslots c" using assms(3) by simp
  moreover have "nslots c * 1 \<le> nslots c * 2 ^ c_lineShift c" by (intro mult_le_mono2) simp
  ultimately have "unat sx * nways c + w < 2 ^ 32" using assms(1) unfolding geom_def by linarith
  then have "unat (word_of_nat (unat sx * nways c + w) :: u32) = unat sx * nways c + w"
    by (intro unat_of_nat_32) simp
  then show e: "slot sx w c = unat sx * nways c + w" by (simp add: slot_def)
  show "slot sx w c < nslots c" using b e by simp
  show "slot sx w c div nways c = unat sx" "slot sx w c mod nways c = w"
    using assms(3) by (simp_all add: e)
qed

lemma setOf_slot:
  assumes "geom c" "w < nways c"
  shows "slot (setOf a c) w c < nslots c" "slot (setOf a c) w c div nways c = lineNo a c mod 2 ^ setBits c"
proof -
  have "unat (setOf a c) < 2 ^ setBits c" by (simp add: setOf_val [OF assms(1)])
  then show "slot (setOf a c) w c < nslots c" "slot (setOf a c) w c div nways c = lineNo a c mod 2 ^ setBits c"
    using slot_val [OF assms(1) _ assms(2), of "setOf a c"] by (simp_all add: setOf_val [OF assms(1)])
qed

text \<open>Every slot of the set of an address is a way of it.\<close>

lemma way_of_slot:
  assumes "geom c" "i < nslots c" "i div nways c = lineNo a c mod 2 ^ setBits c"
  shows "i mod nways c < nways c" "slot (setOf a c) (i mod nways c) c = i"
proof -
  show w: "i mod nways c < nways c" using assms(1) by (simp add: geom_def)
  have "unat (setOf a c) < 2 ^ setBits c" by (simp add: setOf_val [OF assms(1)])
  then show "slot (setOf a c) (i mod nways c) c = i"
    using slot_val(1) [OF assms(1) _ w, of "setOf a c"] assms(3) setOf_val [OF assms(1), of a]
    by (metis div_mult_mod_eq)
qed

text \<open>The line a slot holds, if it is valid.\<close>

definition slot_valid :: "cache \<Rightarrow> nat \<Rightarrow> bool" where
  "slot_valid c i \<longleftrightarrow> i < length (c_tags c) \<and> c_tags c ! i \<noteq> invalidTag"

definition slot_line :: "cache \<Rightarrow> nat \<Rightarrow> nat" where
  "slot_line c i = unat (c_tags c ! i) * 2 ^ setBits c + i div nways c"

text \<open>The tags are tags of addresses, and no line is in two slots.\<close>

definition tags_ok :: "cache \<Rightarrow> bool" where
  "tags_ok c \<longleftrightarrow> (\<forall>i. slot_valid c i \<longrightarrow> unat (c_tags c ! i) < 2 ^ (32 - c_tagShift c)) \<and>
     (\<forall>i j. slot_valid c i \<longrightarrow> slot_valid c j \<longrightarrow> slot_line c i = slot_line c j \<longrightarrow> i = j)"

lemma slot_set_less: "geom c \<Longrightarrow> i < nslots c \<Longrightarrow> i div nways c < 2 ^ setBits c"
  by (simp add: nslots_def less_mult_imp_div_less geom_def)

lemma slot_line_parts:
  assumes "geom c" "i < nslots c"
  shows "slot_line c i mod 2 ^ setBits c = i div nways c" "slot_line c i div 2 ^ setBits c = unat (c_tags c ! i)"
  using slot_set_less [OF assms] by (simp_all add: slot_line_def)

lemma tag_not_invalid:
  assumes "geom c"
  shows "tagOf a c \<noteq> invalidTag"
proof
  assume "tagOf a c = invalidTag"
  then have "unat (tagOf a c) = 4294967295" by (simp add: invalidTag_def unsigned_minus_1_eq_mask mask_eq_exp_minus_1)
  moreover have "unat (tagOf a c) < 2 ^ (32 - c_tagShift c)"
    using lineNo_less(2) [OF assms] by (simp add: tagOf_val [OF assms])
  moreover have "(2 :: nat) ^ (32 - c_tagShift c) \<le> 2 ^ 29"
  proof (rule power_increasing)
    show "32 - c_tagShift c \<le> 29" using assms unfolding geom_def by linarith
  qed simp
  ultimately show False by simp
qed

text \<open>A slot of the right set with the tag of an address holds its line, and conversely.\<close>

lemma tag_match:
  assumes "geom c" "i < nslots c" "i div nways c = lineNo a c mod 2 ^ setBits c"
  shows "c_tags c ! i = tagOf a c \<longleftrightarrow> slot_valid c i \<and> slot_line c i = lineNo a c"
proof
  assume t: "c_tags c ! i = tagOf a c"
  then have "slot_valid c i" using assms(1,2) tag_not_invalid [OF assms(1)] by (simp add: slot_valid_def geom_def)
  moreover have "slot_line c i = lineNo a c"
    unfolding slot_line_def t tagOf_val [OF assms(1)] assms(3) by (rule div_mult_mod_eq)
  ultimately show "slot_valid c i \<and> slot_line c i = lineNo a c" ..
next
  assume "slot_valid c i \<and> slot_line c i = lineNo a c"
  then have "unat (c_tags c ! i) = unat (tagOf a c)"
    using slot_line_parts(2) [OF assms(1,2)] by (simp add: tagOf_val [OF assms(1)])
  then show "c_tags c ! i = tagOf a c" by (simp add: word_unat_eq_iff)
qed

section \<open>The lines in the arrays\<close>

definition slotOf :: "nat \<Rightarrow> cache \<Rightarrow> nat option" where
  "slotOf ln c = find (\<lambda>i. slot_valid c i \<and> slot_line c i = ln) [0..<nslots c]"

lemma slotOf_Some:
  assumes "geom c" "tags_ok c"
  shows "slotOf ln c = Some i \<longleftrightarrow> slot_valid c i \<and> slot_line c i = ln"
proof
  assume "slotOf ln c = Some i"
  then show "slot_valid c i \<and> slot_line c i = ln" by (auto simp: slotOf_def find_Some_iff)
next
  assume h: "slot_valid c i \<and> slot_line c i = ln"
  then have "i \<in> set [0..<nslots c]" using assms(1) by (simp add: slot_valid_def geom_def)
  then obtain j where j: "slotOf ln c = Some j"
    using h unfolding slotOf_def by (metis (mono_tags, lifting) find_None_iff option.exhaust)
  then have "slot_valid c j \<and> slot_line c j = ln" by (auto simp: slotOf_def find_Some_iff)
  then have "j = i" using assms(2) h by (simp add: tags_ok_def)
  with j show "slotOf ln c = Some i" by simp
qed

lemma slotOf_None:
  assumes "geom c"
  shows "slotOf ln c = None \<longleftrightarrow> (\<forall>i. slot_valid c i \<longrightarrow> slot_line c i \<noteq> ln)"
  using assms by (auto simp: slotOf_def find_None_iff slot_valid_def geom_def)

text \<open>\<^verbatim>\<open>findWay\<close> finds the slot of the line.\<close>

lemma findWay_slotOf:
  assumes "geom c" "tags_ok c"
  shows "slotOf (lineNo a c) c = map_option (\<lambda>w. slot (setOf a c) w c) (findWay (setOf a c) (tagOf a c) c)"
    and "findWay (setOf a c) (tagOf a c) c = Some w \<Longrightarrow> w < nways c"
proof -
  show less: "w < nways c" if "findWay (setOf a c) (tagOf a c) c = Some w" for w
    using that by (auto simp: findWay_def find_Some_iff)
  show "slotOf (lineNo a c) c = map_option (\<lambda>w. slot (setOf a c) w c) (findWay (setOf a c) (tagOf a c) c)"
  proof (cases "findWay (setOf a c) (tagOf a c) c")
    case (Some w)
    have "c_tags c ! slot (setOf a c) w c = tagOf a c" using Some by (auto simp: findWay_def find_Some_iff)
    then show ?thesis
      using tag_match [OF assms(1) setOf_slot [OF assms(1) less [OF Some]]] Some
      by (simp add: slotOf_Some [OF assms])
  next
    case None
    have "slot_line c i \<noteq> lineNo a c" if v: "slot_valid c i" for i
    proof
      assume l: "slot_line c i = lineNo a c"
      have i: "i < nslots c" using v assms(1) by (simp add: slot_valid_def geom_def)
      have s: "i div nways c = lineNo a c mod 2 ^ setBits c" using slot_line_parts(1) [OF assms(1) i] l by simp
      have "c_tags c ! i = tagOf a c" using tag_match [OF assms(1) i s] v l by simp
      moreover note way_of_slot [OF assms(1) i s]
      ultimately show False using None by (auto simp: findWay_def find_None_iff)
    qed
    then show ?thesis using None by (simp add: slotOf_None [OF assms(1)])
  qed
qed

text \<open>The address of the line in a slot.\<close>

lemma lineAddrOf_val:
  assumes "geom c" "tags_ok c" "unat sx < 2 ^ setBits c" "w < nways c" "slot_valid c (slot sx w c)"
  shows "unat (lineAddrOf sx w c) = slot_line c (slot sx w c) * 2 ^ c_lineShift c"
proof -
  let ?t = "c_tags c ! slot sx w c" and ?L = "c_lineShift c" and ?S = "setBits c"
  note ts = geom_tagShift [OF assms(1)]
  have t: "unat ?t < 2 ^ (32 - c_tagShift c)" using assms(2,5) by (simp add: tags_ok_def)
  have "\<not> bit (push_bit (c_tagShift c) ?t) n \<or> \<not> bit (push_bit ?L sx) n" for n
  proof (cases "n < c_tagShift c")
    case True
    then show ?thesis by (simp add: bit_push_bit_iff)
  next
    case False
    then have "\<not> bit sx (n - ?L)"
    proof -
      have "?S \<le> n - ?L" using False ts(2) by linarith
      moreover have "take_bit ?S sx = sx"
        using assms(3) by (simp add: word_unat_eq_iff unat_take_bit)
      ultimately show ?thesis by (metis bit_take_bit_iff not_less)
    qed
    then show ?thesis by (simp add: bit_push_bit_iff)
  qed
  then have "lineAddrOf sx w c = push_bit (c_tagShift c) ?t + push_bit ?L sx"
    unfolding lineAddrOf_def by (subst disjunctive_add) simp_all
  also have "\<dots> = word_of_nat (unat ?t * 2 ^ c_tagShift c + unat sx * 2 ^ ?L)"
    by (simp add: push_bit_eq_mult)
  finally have e: "lineAddrOf sx w c = word_of_nat (slot_line c (slot sx w c) * 2 ^ ?L)"
    unfolding slot_line_def slot_val(3) [OF assms(1,3,4)] by (subst (asm) ts(2)) (simp add: power_add algebra_simps)
  have "slot_line c (slot sx w c) < 2 ^ (32 - c_tagShift c) * 2 ^ ?S"
  proof -
    have "Suc (unat ?t) * 2 ^ ?S \<le> 2 ^ (32 - c_tagShift c) * 2 ^ ?S" using t by (intro mult_le_mono1) simp
    then show ?thesis using assms(3) unfolding slot_line_def slot_val(3) [OF assms(1,3,4)] by simp
  qed
  then have "slot_line c (slot sx w c) * 2 ^ ?L < 2 ^ (32 - c_tagShift c) * 2 ^ ?S * 2 ^ ?L" by simp
  also have "\<dots> = 2 ^ ((32 - c_tagShift c) + ?S + ?L)" by (simp only: power_add)
  also have "(32 - c_tagShift c) + ?S + ?L = 32" using ts(1,2) by linarith
  finally have "slot_line c (slot sx w c) * 2 ^ ?L < 4294967296" by simp
  then show ?thesis unfolding e by (rule unat_of_nat_32)
qed

text \<open>The data of a line.\<close>

lemma lineData_bounds:
  assumes "geom c" "i < nslots c"
  shows "i * unat (lineSize c) + 2 ^ c_lineShift c \<le> length (c_data c)" "length (lineData i c) = 2 ^ c_lineShift c"
proof -
  have e: "unat (lineSize c) = 2 ^ c_lineShift c" using assms(1) by (simp add: geom_def)
  have "Suc i * 2 ^ c_lineShift c \<le> nslots c * 2 ^ c_lineShift c" using assms(2) by (intro mult_le_mono1) simp
  then show b: "i * unat (lineSize c) + 2 ^ c_lineShift c \<le> length (c_data c)"
    using assms(1) e by (simp add: geom_def)
  then show "length (lineData i c) = 2 ^ c_lineShift c" by (simp add: lineData_def e)
qed

lemma setLineData_simps [simp]:
  "c_cfg (setLineData i l c) = c_cfg c" "c_sets (setLineData i l c) = c_sets c"
  "c_lineShift (setLineData i l c) = c_lineShift c" "c_tagShift (setLineData i l c) = c_tagShift c"
  "c_tags (setLineData i l c) = c_tags c" "c_dirty (setLineData i l c) = c_dirty c"
  "c_mshrs (setLineData i l c) = c_mshrs c" "c_wbq (setLineData i l c) = c_wbq c"
  "c_pendingMisses (setLineData i l c) = c_pendingMisses c" "c_respQ (setLineData i l c) = c_respQ c"
  "c_pendingInstalls (setLineData i l c) = c_pendingInstalls c" "c_hitPipe (setLineData i l c) = c_hitPipe c"
  "c_tickCount (setLineData i l c) = c_tickCount c"
  by (simp_all add: setLineData_def)

lemma setLineData_line:
  assumes "geom c" "i < nslots c" "j < nslots c" "length l = 2 ^ c_lineShift c"
  shows "lineData j (setLineData i l c) = (if j = i then l else lineData j c)"
    and "length (c_data (setLineData i l c)) = length (c_data c)"
proof -
  let ?n = "(2 :: nat) ^ c_lineShift c"
  have e: "unat (lineSize c) = ?n" using assms(1) by (simp add: geom_def)
  note b = lineData_bounds(1) [OF assms(1,2)]
  show "length (c_data (setLineData i l c)) = length (c_data c)"
    using b assms(4) by (simp add: setLineData_def length_blit)
  show "lineData j (setLineData i l c) = (if j = i then l else lineData j c)"
  proof (cases "j = i")
    case True
    then show ?thesis
      using take_drop_blit_same [of "i * unat (lineSize c)" l "c_data c"] b assms(4)
      by (simp add: lineData_def setLineData_def e)
  next
    case False
    then have "j * ?n + ?n \<le> i * ?n \<or> i * ?n + ?n \<le> j * ?n"
    proof -
      have "Suc j * ?n \<le> i * ?n \<or> Suc i * ?n \<le> j * ?n"
        using False by (metis Suc_leI linorder_neqE_nat mult_le_mono1)
      then show ?thesis by (simp add: add.commute)
    qed
    then show ?thesis
      using take_drop_blit_other [of "i * unat (lineSize c)" l "c_data c" "j * unat (lineSize c)" ?n] b assms(4) False
      by (simp add: lineData_def setLineData_def e)
  qed
qed

text \<open>
  The lines in the arrays as a map: the bytes and the dirty flag of a line that is present.
\<close>

definition arr :: "cache \<Rightarrow> nat \<Rightarrow> (u8 list \<times> bool) option" where
  "arr c ln = map_option (\<lambda>i. (lineData i c, c_dirty c ! i)) (slotOf ln c)"

text \<open>What the lines depend on.\<close>

definition same_arrays :: "cache \<Rightarrow> cache \<Rightarrow> bool" where
  "same_arrays c c' \<longleftrightarrow> c_cfg c' = c_cfg c \<and> c_sets c' = c_sets c \<and> c_lineShift c' = c_lineShift c \<and>
     c_tagShift c' = c_tagShift c \<and> c_data c' = c_data c \<and> c_tags c' = c_tags c \<and> c_dirty c' = c_dirty c"

lemma same_arrays_eqs:
  assumes "same_arrays c c'"
  shows "geom c' = geom c" "tags_ok c' = tags_ok c" "arr c' = arr c" "slotOf ln c' = slotOf ln c"
    "lineData i c' = lineData i c" "setOf a c' = setOf a c" "tagOf a c' = tagOf a c" "offsetOf a c' = offsetOf a c"
    "slot sx w c' = slot sx w c" "lineNo a c' = lineNo a c" "findWay sx t c' = findWay sx t c"
    "nslots c' = nslots c"
proof -
  note d = assms [unfolded same_arrays_def]
  show n: "nslots c' = nslots c" using d by (simp add: nslots_def)
  then show "geom c' = geom c" using d by (simp add: geom_def)
  have v: "slot_valid c' i = slot_valid c i" "slot_line c' i = slot_line c i" for i
    using d by (simp_all add: slot_valid_def slot_line_def)
  then show "tags_ok c' = tags_ok c" using d by (simp add: tags_ok_def)
  show s: "slotOf ln c' = slotOf ln c" for ln by (simp add: slotOf_def v n)
  show l: "lineData i c' = lineData i c" for i using d by (simp add: lineData_def)
  show "arr c' = arr c" using d by (intro ext) (simp add: arr_def s l)
  show "setOf a c' = setOf a c" "tagOf a c' = tagOf a c" "offsetOf a c' = offsetOf a c"
    "slot sx w c' = slot sx w c" "lineNo a c' = lineNo a c"
    using d by (simp_all add: setOf_def tagOf_def offsetOf_def slot_def lineNo_def)
  then show "findWay sx t c' = findWay sx t c"
    using d by (simp add: findWay_def slot_def)
qed

lemma arr_Some:
  assumes "geom c" "tags_ok c"
  shows "arr c ln = Some (l, d) \<longleftrightarrow>
    (\<exists>i. slot_valid c i \<and> slot_line c i = ln \<and> lineData i c = l \<and> c_dirty c ! i = d)"
  using slotOf_Some [OF assms, of ln] by (auto simp: arr_def)

lemma arr_None: "arr c ln = None \<longleftrightarrow> slotOf ln c = None"
  by (simp add: arr_def)

text \<open>Writing a line that is present.\<close>

lemma arr_write:
  fixes d :: bool
  assumes "geom c" "tags_ok c" "slotOf ln c = Some i" "length l = 2 ^ c_lineShift c"
  defines "c' \<equiv> (setLineData i l c)\<lparr>c_dirty := (c_dirty c)[i := d]\<rparr>"
  shows "geom c'" "tags_ok c'" "arr c' = (arr c)(ln \<mapsto> (l, d))" "slotOf ln' c' = slotOf ln' c"
proof -
  have i: "slot_valid c i" "slot_line c i = ln" using assms(3) slotOf_Some [OF assms(1,2)] by simp_all
  then have n: "i < nslots c" using assms(1) by (simp add: slot_valid_def geom_def)
  have ns: "nslots c' = nslots c" by (simp add: nslots_def c'_def)
  show g: "geom c'"
    using assms(1) setLineData_line(2) [OF assms(1) n n assms(4)] unfolding geom_def ns by (simp add: c'_def)
  have v: "slot_valid c' j = slot_valid c j" "slot_line c' j = slot_line c j" for j
    by (simp_all add: slot_valid_def slot_line_def c'_def)
  show t: "tags_ok c'" using assms(2) by (simp add: tags_ok_def v) (simp add: c'_def)
  show s: "slotOf ln' c' = slotOf ln' c" for ln' by (simp add: slotOf_def v ns)
  have ld: "lineData j c' = lineData j (setLineData i l c)" for j by (simp add: lineData_def c'_def)
  show "arr c' = (arr c)(ln \<mapsto> (l, d))"
  proof
    fix k
    show "arr c' k = ((arr c)(ln \<mapsto> (l, d))) k"
    proof (cases "slotOf k c")
      case None
      then show ?thesis using assms(3) by (auto simp: arr_def s)
    next
      case (Some j)
      then have j: "slot_valid c j" "slot_line c j = k" using slotOf_Some [OF assms(1,2)] by simp_all
      then have "j < nslots c" using assms(1) by (simp add: slot_valid_def geom_def)
      moreover have "j = i \<longleftrightarrow> k = ln" using i j assms(2) by (auto simp: tags_ok_def)
      moreover have "i < length (c_dirty c)" using n assms(1) by (simp add: geom_def)
      ultimately show ?thesis
        using Some setLineData_line(1) [OF assms(1) n _ assms(4), of j]
        by (auto simp: arr_def s ld) (simp_all add: c'_def)
    qed
  qed
qed

text \<open>Claiming slot \<open>i\<close> for line \<open>ln\<close>, which was not present.\<close>

lemma arr_claim:
  fixes d :: bool
  assumes "geom c" "tags_ok c" "i < nslots c" "i div nways c = lineNo a c mod 2 ^ setBits c"
    and "arr c (lineNo a c) = None" "length l = 2 ^ c_lineShift c"
  defines "c' \<equiv> (setLineData i l c)\<lparr>c_tags := (c_tags c)[i := tagOf a c], c_dirty := (c_dirty c)[i := d]\<rparr>"
  shows "geom c'" "tags_ok c'" "slotOf (lineNo a c) c' = Some i"
    "arr c' = (if slot_valid c i then (arr c)(slot_line c i := None) else arr c)(lineNo a c \<mapsto> (l, d))"
proof -
  let ?ln = "lineNo a c"
  have li: "i < length (c_tags c)" "i < length (c_dirty c)" using assms(1,3) by (simp_all add: geom_def)
  have ns: "nslots c' = nslots c" by (simp add: nslots_def c'_def)
  show g: "geom c'"
    using assms(1) setLineData_line(2) [OF assms(1,3,3,6)] unfolding geom_def ns by (simp add: c'_def)
  have tag: "c_tags c' ! i = tagOf a c" using li by (simp add: c'_def)
  have other: "c_tags c' ! j = c_tags c ! j" if "j \<noteq> i" for j using that by (simp add: c'_def)
  have vi: "slot_valid c' i" "slot_line c' i = ?ln"
    using li tag_not_invalid [OF assms(1)] tag assms(4) div_mult_mod_eq [of ?ln "2 ^ setBits c"]
    by (simp_all add: slot_valid_def slot_line_def tagOf_val [OF assms(1)]) (simp_all add: c'_def)
  have vo: "slot_valid c' j = slot_valid c j" "slot_line c' j = slot_line c j" if "j \<noteq> i" for j
    using other [OF that] by (simp_all add: slot_valid_def slot_line_def) (simp_all add: c'_def)
  have absent: "slot_line c j \<noteq> ?ln" if "slot_valid c j" for j
    using assms(5) that slotOf_None [OF assms(1)] by (simp add: arr_None)
  have bound: "unat (c_tags c' ! j) < 2 ^ (32 - c_tagShift c)" if "slot_valid c' j" for j
  proof (cases "j = i")
    case True
    then show ?thesis using tag lineNo_less(2) [OF assms(1)] tagOf_val [OF assms(1)] by simp
  next
    case False
    then show ?thesis using that assms(2) vo other by (simp add: tags_ok_def)
  qed
  show t: "tags_ok c'"
    unfolding tags_ok_def
  proof (intro conjI allI impI)
    show "unat (c_tags c' ! j) < 2 ^ (32 - c_tagShift c')" if "slot_valid c' j" for j
      using bound [OF that] by (simp add: c'_def)
    show "j = k" if "slot_valid c' j" "slot_valid c' k" "slot_line c' j = slot_line c' k" for j k
      using that vi vo absent assms(2) by (cases "j = i"; cases "k = i") (auto simp: tags_ok_def)
  qed
  show si: "slotOf ?ln c' = Some i" using vi slotOf_Some [OF g t] by simp
  have ld: "lineData j c' = (if j = i then l else lineData j c)" if "j < nslots c" for j
    using setLineData_line(1) [OF assms(1,3) that assms(6)] by (simp add: lineData_def c'_def)
  have dd: "c_dirty c' ! j = (if j = i then d else c_dirty c ! j)" for j using li by (simp add: c'_def)
  show "arr c' = (if slot_valid c i then (arr c)(slot_line c i := None) else arr c)(?ln \<mapsto> (l, d))"
  proof
    fix k
    show "arr c' k = ((if slot_valid c i then (arr c)(slot_line c i := None) else arr c)(?ln \<mapsto> (l, d))) k"
    proof (cases "k = ?ln")
      case True
      then show ?thesis using si ld [OF assms(3)] dd [of i] by (simp add: arr_def)
    next
      case False
      show ?thesis
      proof (cases "slotOf k c'")
        case (Some j)
        then have j: "slot_valid c' j" "slot_line c' j = k" using slotOf_Some [OF g t] by simp_all
        then have ji: "j \<noteq> i" using False vi by auto
        then have old: "slot_valid c j" "slot_line c j = k" using j vo by simp_all
        then have jn: "j < nslots c" using assms(1) by (simp add: slot_valid_def geom_def)
        have "slot_valid c i \<Longrightarrow> slot_line c i \<noteq> k" using old ji assms(2) by (auto simp: tags_ok_def)
        moreover have "slotOf k c = Some j" using old slotOf_Some [OF assms(1,2)] by simp
        ultimately show ?thesis using Some ji jn False ld dd by (auto simp: arr_def)
      next
        case None
        then have no: "slot_line c' j \<noteq> k" if "slot_valid c' j" for j
          using slotOf_None [OF g] that by simp
        have "slotOf k c = None \<or> (slot_valid c i \<and> slot_line c i = k)"
        proof (cases "slotOf k c")
          case (Some j)
          then have "slot_valid c j" "slot_line c j = k" using slotOf_Some [OF assms(1,2)] by simp_all
          then show ?thesis using no vo by (cases "j = i") auto
        qed simp
        then show ?thesis using None False by (auto simp: arr_def)
      qed
    qed
  qed
qed

end
