(* ===== verification/Cache_Memory.thy ===== *)
theory Cache_Memory
  imports Cache_Lines "HOL-Library.Multiset"
begin

text \<open>
  The cache refines a sequential memory.  The memory below is a function from line numbers to
  bytes; the contents of the system at a line are those in the arrays, else those in the
  writeback queue, else those below.  Every request is performed exactly once on these contents
  and answered exactly once, with what a sequential memory answers.
\<close>

section \<open>The reference\<close>

text \<open>What a request does to the bytes of its line, and its response; \<open>k\<close> is the line size.\<close>

definition lineAfter :: "u32 \<Rightarrow> mem_request \<Rightarrow> u8 list \<Rightarrow> u8 list" where
  "lineAfter k req l =
     (if rq_isWrite req
      then if rq_size req = k then take (unat k) (rq_wline req)
           else store_bytes l (rq_addr req AND (k - 1)) (unat (rq_size req)) (rq_wdata req)
      else l)"

definition lineResp :: "u32 \<Rightarrow> mem_request \<Rightarrow> u8 list \<Rightarrow> mem_response" where
  "lineResp k req l =
     (let r = mem_response0\<lparr>rs_src := rq_src req, rs_tag := rq_tag req\<rparr>; off = rq_addr req AND (k - 1) in
      if rq_isWrite req then r
      else if 4 < rq_size req
      then r\<lparr>rs_rline := blit 0 (take (unat (rq_size req)) (drop (unat off) l)) (rs_rline r)\<rparr>
      else r\<lparr>rs_rdata := load_bytes l off (unat (rq_size req))\<rparr>)"

text \<open>A request stays in its line, and a line write carries a line.\<close>

definition req_ok :: "u32 \<Rightarrow> mem_request \<Rightarrow> bool" where
  "req_ok k req \<longleftrightarrow> unat (rq_addr req AND (k - 1)) + unat (rq_size req) \<le> unat k \<and>
     length (rq_wline req) = kMaxLineBytes"

type_synonym lines = "nat \<Rightarrow> u8 list"

text \<open>A history of requests and responses that a sequential memory allows, and its effect.\<close>

definition perform_spec :: "cache \<Rightarrow> mem_request \<Rightarrow> lines \<Rightarrow> lines" where
  "perform_spec c req M =
     M(lineNo (rq_addr req) c := lineAfter (lineSize c) req (M (lineNo (rq_addr req) c)))"

primrec legal :: "cache \<Rightarrow> lines \<Rightarrow> (mem_request \<times> mem_response) list \<Rightarrow> bool" where
  "legal c M [] = True"
| "legal c M (e # es) =
     (snd e = lineResp (lineSize c) (fst e) (M (lineNo (rq_addr (fst e)) c)) \<and> legal c (perform_spec c (fst e) M) es)"

definition after :: "cache \<Rightarrow> (mem_request \<times> mem_response) list \<Rightarrow> lines \<Rightarrow> lines" where
  "after c es M = fold (perform_spec c \<circ> fst) es M"

lemma legal_append: "legal c M (xs @ ys) \<longleftrightarrow> legal c M xs \<and> legal c (after c xs M) ys"
  by (induction xs arbitrary: M) (simp_all add: after_def)

lemma after_append: "after c (xs @ ys) M = after c ys (after c xs M)"
  by (simp add: after_def)

text \<open>The reference depends on the geometry only.\<close>

definition same_geom :: "cache \<Rightarrow> cache \<Rightarrow> bool" where
  "same_geom c c' \<longleftrightarrow> c_cfg c' = c_cfg c \<and> c_lineShift c' = c_lineShift c \<and> c_tagShift c' = c_tagShift c \<and>
     c_sets c' = c_sets c"

lemma same_geom_trans: "same_geom a b \<Longrightarrow> same_geom b c \<Longrightarrow> same_geom a c"
  by (simp add: same_geom_def)

lemma same_geom_refl [simp]: "same_geom c c"
  by (simp add: same_geom_def)

lemma same_geom_eqs:
  assumes "same_geom c c'"
  shows "lineNo a c' = lineNo a c" "perform_spec c' = perform_spec c" "legal c' = legal c" "after c' = after c"
    "slot sx w c' = slot sx w c" "setOf a c' = setOf a c" "tagOf a c' = tagOf a c" "offsetOf a c' = offsetOf a c"
    "lineSize c' = lineSize c"
proof -
  note d = assms [unfolded same_geom_def]
  show n: "lineNo a c' = lineNo a c" for a using d by (simp add: lineNo_def)
  show p: "perform_spec c' = perform_spec c" using d by (intro ext) (simp add: perform_spec_def n)
  have "legal c' M es = legal c M es" for M es
    using d by (induction es arbitrary: M) (simp_all add: n p)
  then show "legal c' = legal c" by (intro ext) simp
  show "after c' = after c" by (intro ext) (simp add: after_def p)
  show "slot sx w c' = slot sx w c" "setOf a c' = setOf a c" "tagOf a c' = tagOf a c" "offsetOf a c' = offsetOf a c"
    "lineSize c' = lineSize c"
    using d by (simp_all add: slot_def setOf_def tagOf_def offsetOf_def)
qed

section \<open>Contents\<close>

definition parked :: "cache \<Rightarrow> nat \<Rightarrow> u8 list option" where
  "parked c = map_of (map (\<lambda>e. (lineNo (wb_addr e) c, take (2 ^ c_lineShift c) (wb_line e))) (c_wbq c))"

definition contents :: "lines \<Rightarrow> cache \<Rightarrow> lines" where
  "contents low c ln =
     (case arr c ln of Some (l, d) \<Rightarrow> l
      | None \<Rightarrow> (case parked c ln of Some l \<Rightarrow> l | None \<Rightarrow> low ln))"

text \<open>
  Clean lines agree with the level below; no line is twice in the writeback queue or both there
  and in the arrays.
\<close>

definition lines_ok :: "lines \<Rightarrow> cache \<Rightarrow> bool" where
  "lines_ok low c \<longleftrightarrow> geom c \<and> tags_ok c \<and> (\<forall>ln l. arr c ln = Some (l, False) \<longrightarrow> low ln = l) \<and>
     distinct (map (\<lambda>e. lineNo (wb_addr e) c) (c_wbq c)) \<and>
     (\<forall>e \<in> set (c_wbq c). 2 ^ c_lineShift c dvd unat (wb_addr e) \<and> length (wb_line e) = kMaxLineBytes \<and>
        arr c (lineNo (wb_addr e) c) = None)"

text \<open>What serving and installing leave.\<close>

definition frame :: "cache \<Rightarrow> cache \<Rightarrow> bool" where
  "frame c c' \<longleftrightarrow> same_geom c c' \<and> c_mshrs c' = c_mshrs c \<and> c_pendingMisses c' = c_pendingMisses c \<and>
     c_pendingInstalls c' = c_pendingInstalls c \<and> c_tickCount c' = c_tickCount c \<and> c_srcId c' = c_srcId c"

lemma frame_trans: "frame a b \<Longrightarrow> frame b c \<Longrightarrow> frame a c"
  by (simp add: frame_def same_geom_def)

lemma lines_ok_same:
  assumes "same_arrays c c'" "c_wbq c' = c_wbq c"
  shows "lines_ok low c' = lines_ok low c" "contents low c' = contents low c" "parked c' = parked c"
proof -
  note e = same_arrays_eqs [OF assms(1)]
  have L: "c_lineShift c' = c_lineShift c" using assms(1) by (simp add: same_arrays_def)
  show p: "parked c' = parked c" by (simp add: parked_def e assms(2) L)
  show "contents low c' = contents low c" unfolding contents_def p e ..
  show "lines_ok low c' = lines_ok low c" by (simp add: lines_ok_def e assms(2) L)
qed

lemma setLineData_srcId [simp]: "c_srcId (setLineData i l c) = c_srcId c"
  by (simp add: setLineData_def)

text \<open>Serving a request on a line that is present.\<close>

lemma performOnLine_eq:
  "performOnLine req sx w mem_response0 c =
     (let i = slot sx w c; l = lineData i c in
      (lineResp (lineSize c) req l,
       touchLRU sx w (if rq_isWrite req
          then (setLineData i (lineAfter (lineSize c) req l) c)\<lparr>c_dirty := (c_dirty c)[i := True]\<rparr> else c)))"
  by (simp add: performOnLine_def lineResp_def lineAfter_def Let_def offsetOf_def)

lemma touchLRU_same: "same_arrays c (touchLRU sx w c)" "frame c (touchLRU sx w c)"
  "c_wbq (touchLRU sx w c) = c_wbq c" "c_respQ (touchLRU sx w c) = c_respQ c" "c_hitPipe (touchLRU sx w c) = c_hitPipe c"
  by (simp_all add: touchLRU_def same_arrays_def frame_def same_geom_def)

lemma length_lineAfter:
  assumes "geom c" "req_ok (lineSize c) req" "length l = 2 ^ c_lineShift c"
  shows "length (lineAfter (lineSize c) req l) = 2 ^ c_lineShift c"
proof -
  have "unat (lineSize c) = 2 ^ c_lineShift c" "(2 :: nat) ^ c_lineShift c \<le> 2 ^ 7"
    using assms(1) unfolding geom_def by (simp, intro power_increasing) simp_all
  then show ?thesis using assms(2,3) by (simp add: lineAfter_def req_ok_def kMaxLineBytes_def min_def)
qed

lemma serve_line:
  assumes "lines_ok low c" "slotOf (lineNo (rq_addr req) c) c = Some (slot sx w c)" "req_ok (lineSize c) req"
    and "performOnLine req sx w mem_response0 c = (resp, c')"
  shows "resp = lineResp (lineSize c) req (contents low c (lineNo (rq_addr req) c))"
    "lines_ok low c'" "contents low c' = perform_spec c req (contents low c)" "dom (arr c') = dom (arr c)"
    "slotOf ln c' = slotOf ln c" "frame c c'" "c_wbq c' = c_wbq c" "c_respQ c' = c_respQ c" "c_hitPipe c' = c_hitPipe c"
proof -
  let ?ln = "lineNo (rq_addr req) c" and ?i = "slot sx w c"
  let ?l = "lineData ?i c"
  let ?l' = "lineAfter (lineSize c) req ?l"
  have gt: "geom c" "tags_ok c" using assms(1) by (simp_all add: lines_ok_def)
  have n: "?i < nslots c" using assms(2) slotOf_Some [OF gt] gt(1) by (simp add: slot_valid_def geom_def)
  have len: "length ?l' = 2 ^ c_lineShift c"
    using length_lineAfter [OF gt(1) assms(3)] lineData_bounds(2) [OF gt(1) n] by simp
  have now: "arr c ?ln = Some (?l, c_dirty c ! ?i)" "contents low c ?ln = ?l"
    using assms(2) by (simp_all add: arr_def contents_def)
  define c1 where "c1 = (if rq_isWrite req
      then (setLineData ?i ?l' c)\<lparr>c_dirty := (c_dirty c)[?i := True]\<rparr> else c)"
  have c': "resp = lineResp (lineSize c) req ?l" "c' = touchLRU sx w c1"
    using assms(4) by (simp_all add: performOnLine_eq Let_def c1_def)
  show "resp = lineResp (lineSize c) req (contents low c ?ln)" by (simp add: c' now)
  have fr: "frame c c1" "c_wbq c1 = c_wbq c" "c_respQ c1 = c_respQ c" "c_hitPipe c1 = c_hitPipe c"
    by (cases "rq_isWrite req"; simp add: c1_def frame_def same_geom_def)+
  then show "frame c c'" "c_wbq c' = c_wbq c" "c_respQ c' = c_respQ c" "c_hitPipe c' = c_hitPipe c"
    using touchLRU_same(2-5) [where c = c1 and sx = sx and w = w] frame_trans [of c c1 c'] by (simp_all add: c')
  have L: "c_lineShift c1 = c_lineShift c" "lineNo a c1 = lineNo a c" for a
    using fr(1) same_geom_eqs(1) [of c c1] by (simp_all add: frame_def same_geom_def)
  have a1: "geom c1" "tags_ok c1" "arr c1 = (if rq_isWrite req then (arr c)(?ln \<mapsto> (?l', True)) else arr c)"
    "slotOf ln c1 = slotOf ln c" for ln
    using arr_write [OF gt assms(2) len, where d = True] gt by (simp_all add: c1_def)
  have parked: "parked c1 = parked c" by (simp add: parked_def fr(2) L)
  have dom: "dom (arr c1) = dom (arr c)" using now(1) by (auto simp: a1(3))
  then have none: "arr c1 ln = None \<longleftrightarrow> arr c ln = None" for ln by (metis domIff)
  have "lines_ok low c1"
    using assms(1) a1(1,2) now(1) unfolding lines_ok_def fr(2) L none by (auto simp: a1(3))
  then show "lines_ok low c'" using lines_ok_same(1) [OF touchLRU_same(1,3)] by (simp add: c')
  have "contents low c1 ln = perform_spec c req (contents low c) ln" for ln
  proof (cases "ln = ?ln")
    case True
    then show ?thesis using now by (simp add: contents_def a1(3) perform_spec_def lineAfter_def)
  next
    case False
    then show ?thesis unfolding contents_def parked a1(3) perform_spec_def by simp
  qed
  then have "contents low c1 = perform_spec c req (contents low c)" by (rule ext)
  then show "contents low c' = perform_spec c req (contents low c)"
    using lines_ok_same(2) [OF touchLRU_same(1,3)] by (simp add: c')
  show "dom (arr c') = dom (arr c)" "slotOf ln c' = slotOf ln c"
    using dom a1(4) same_arrays_eqs(3,4) [OF touchLRU_same(1)] by (simp_all add: c')
qed

section \<open>Installing\<close>

lemma victim_scan_in: "victim_scan sx c ws v old \<in> insert v (set ws)"
  by (induction ws arbitrary: v old) (auto simp: Let_def)

lemma victimWay_less: "geom c \<Longrightarrow> victimWay sx c < nways c"
  using victim_scan_in [of sx c "[0..<nways c]" 0 "- 1"] by (auto simp: victimWay_def geom_def)

text \<open>The writeback queue as a map.\<close>

lemma parked_Some:
  assumes "distinct (map (\<lambda>e. lineNo (wb_addr e) c) (c_wbq c))"
  shows "parked c ln = Some l \<longleftrightarrow> (\<exists>e \<in> set (c_wbq c). lineNo (wb_addr e) c = ln \<and> take (2 ^ c_lineShift c) (wb_line e) = l)"
  unfolding parked_def using assms by (subst map_of_eq_Some_iff) (auto simp: comp_def)

lemma parked_None: "parked c ln = None \<longleftrightarrow> (\<forall>e \<in> set (c_wbq c). lineNo (wb_addr e) c \<noteq> ln)"
  unfolding parked_def map_of_eq_None_iff by (force simp: image_iff)

lemma lines_ok_apart:
  assumes "lines_ok low c" "parked c ln = Some l"
  shows "arr c ln = None"
  using assms parked_Some [of c ln l] by (auto simp: lines_ok_def)

text \<open>
  A successful install: the line is there with the bytes given, the rest of the contents is as
  before; what leaves the arrays is either clean or now in the writeback queue.
\<close>

lemma install_line:
  assumes "lines_ok low c" "arr c (lineNo la c) = None" "length src = kMaxLineBytes"
    and "installLine la src d c = (True, sx, w, c')" "d \<or> low (lineNo la c) = take (2 ^ c_lineShift c) src"
  obtains "sx = setOf la c" "w < nways c" "slotOf (lineNo la c) c' = Some (slot sx w c')" "frame c c'"
    "geom c'" "tags_ok c'" "\<And>ln l. arr c' ln = Some (l, False) \<Longrightarrow> low ln = l"
    "arr c' (lineNo la c) = Some (take (2 ^ c_lineShift c) src, d)"
    "\<And>ln. ln \<noteq> lineNo la c \<Longrightarrow> contents low c' ln = contents low c ln"
    "c_respQ c' = c_respQ c" "c_hitPipe c' = c_hitPipe c"
    "\<And>ln. ln \<noteq> lineNo la c \<Longrightarrow> arr c ln = None \<Longrightarrow> parked c ln = None \<Longrightarrow> arr c' ln = None \<and> parked c' ln = None"
    "\<exists>es. c_wbq c' = c_wbq c @ es \<and> length es \<le> 1 \<and> distinct (map (\<lambda>e. lineNo (wb_addr e) c) (c_wbq c @ es)) \<and>
       (\<forall>e \<in> set es. lineNo (wb_addr e) c \<noteq> lineNo la c \<and> 2 ^ c_lineShift c dvd unat (wb_addr e) \<and>
          length (wb_line e) = kMaxLineBytes) \<and>
       (\<forall>e \<in> set (c_wbq c @ es). lineNo (wb_addr e) c \<noteq> lineNo la c \<longrightarrow> arr c' (lineNo (wb_addr e) c) = None)"
proof -
  let ?L = "(2 :: nat) ^ c_lineShift c" and ?ln = "lineNo la c"
  have gt: "geom c" "tags_ok c" using assms(1) by (simp_all add: lines_ok_def)
  have size: "unat (lineSize c) = ?L" "?L \<le> 2 ^ 7"
    using gt(1) unfolding geom_def by (simp, intro power_increasing) simp_all
  define i where "i = slot sx w c"
  define evict where "evict \<longleftrightarrow> c_tags c ! i \<noteq> invalidTag \<and> c_dirty c ! i"
  have sw: "sx = setOf la c" "w = victimWay sx c"
    using assms(4) by (auto simp: installLine_def Let_def split: if_splits)
  have w: "w < nways c" using sw victimWay_less [OF gt(1)] by simp
  have i: "i < nslots c" "i div nways c = ?ln mod 2 ^ setBits c"
    using setOf_slot [OF gt(1) w, of la] by (simp_all add: i_def sw(1))
  define e where "e = \<lparr>wb_addr = lineAddrOf sx w c, wb_line = blit 0 (lineData i c) blank_line\<rparr>"
  define c1 where "c1 = (if evict
      then c\<lparr>c_stats := (c_stats c)\<lparr>cs_dirtyEvictions := cs_dirtyEvictions (c_stats c) + 1\<rparr>, c_wbq := c_wbq c @ [e]\<rparr> else c)"
  have sa: "same_arrays c c1" by (simp add: same_arrays_def c1_def)
  note eq = same_arrays_eqs [OF sa]
  have c': "c' = (setLineData i (take ?L src) c1)\<lparr>c_tags := (c_tags c1)[i := tagOf la c1], c_dirty := (c_dirty c1)[i := d]\<rparr>"
  proof -
    have "installLine la src d c =
        (if evict \<and> unat (cc_wbq (c_cfg c)) \<le> length (c_wbq c) then (False, sx, w, c)
         else (True, sx, w, (setLineData i (take (unat (lineSize c1)) src) c1)
           \<lparr>c_tags := (c_tags (setLineData i (take (unat (lineSize c1)) src) c1))
              [i := tagOf la (setLineData i (take (unat (lineSize c1)) src) c1)],
            c_dirty := (c_dirty (setLineData i (take (unat (lineSize c1)) src) c1))[i := d]\<rparr>))"
      by (simp only: installLine_def Let_def sw [symmetric] i_def [symmetric] evict_def [symmetric]
          e_def [symmetric] c1_def [symmetric])
    moreover have "lineSize c1 = lineSize c" by (simp add: c1_def)
    moreover have "tagOf la (setLineData i l c1) = tagOf la c1" for l by (simp add: tagOf_def)
    ultimately show ?thesis using assms(4) by (simp add: size split: if_splits)
  qed
  have len: "length (take ?L src) = ?L" using assms(3) size(2) by (simp add: kMaxLineBytes_def min_def)
  have L1: "c_lineShift c1 = c_lineShift c" "c_tagShift c1 = c_tagShift c" "nways c1 = nways c" by (simp_all add: c1_def)
  note cl = arr_claim [of c1 i la "take ?L src", where d = d, folded c', unfolded eq L1, OF gt i assms(2) len]
  have fr: "frame c c'" by (simp add: c' c1_def frame_def same_geom_def)
  then have sg: "same_geom c c'" by (simp add: frame_def)
  note ge = same_geom_eqs [OF sg]
  have L': "c_lineShift c' = c_lineShift c" using sg by (simp add: same_geom_def)
  have v: "slot_valid c1 i = slot_valid c i" "slot_line c1 i = slot_line c i"
    by (simp_all add: slot_valid_def slot_line_def c1_def)
  have arr': "arr c' = (if slot_valid c i then (arr c)(slot_line c i := None) else arr c)(?ln \<mapsto> (take ?L src, d))"
    using cl(4) by (simp only: v)
  have clean: "low ln = l" if "arr c' ln = Some (l, False)" for ln l
    using that assms(1,5) unfolding arr' lines_ok_def by (auto split: if_splits)
  have wbq': "c_wbq c' = c_wbq c @ (if evict then [e] else [])" by (simp add: c' c1_def)
  have vic: "arr c (slot_line c i) = Some (lineData i c, c_dirty c ! i)" if "slot_valid c i"
    using that arr_Some [OF gt] by blast
  have ev: "evict \<longleftrightarrow> slot_valid c i \<and> c_dirty c ! i"
    using i(1) gt(1) by (auto simp: evict_def slot_valid_def geom_def)
  have vne: "slot_line c i \<noteq> ?ln" if "slot_valid c i" using vic [OF that] assms(2) by auto
  have eaddr: "unat (wb_addr e) = slot_line c i * ?L" if "slot_valid c i"
  proof -
    have "unat sx < 2 ^ setBits c" by (simp add: sw(1) setOf_val [OF gt(1)])
    then show ?thesis using lineAddrOf_val [OF gt _ w] that by (simp add: e_def i_def)
  qed
  have eno: "lineNo (wb_addr e) c = slot_line c i" if "slot_valid c i"
    using eaddr [OF that] by (simp add: lineNo_def)
  have lend: "length (lineData i c) = ?L" using lineData_bounds(2) [OF gt(1) i(1)] .
  have eline: "length (wb_line e) = kMaxLineBytes" "take ?L (wb_line e) = lineData i c"
    using lend size(2) by (simp_all add: e_def blit_def blank_line_def kMaxLineBytes_def)
  have absent: "parked c (slot_line c i) = None" if "slot_valid c i"
    using lines_ok_apart [OF assms(1)] vic [OF that] by (metis option.distinct(1) option.exhaust)
  have parked': "parked c' ln = (if evict \<and> ln = slot_line c i then Some (lineData i c) else parked c ln)" for ln
  proof (cases evict)
    case True
    then have sv: "slot_valid c i" by (simp add: ev)
    have "parked c' = map_of (map (\<lambda>e. (lineNo (wb_addr e) c, take ?L (wb_line e))) (c_wbq c) @ [(slot_line c i, lineData i c)])"
      using True by (simp add: parked_def wbq' ge L' eno [OF sv] eline)
    then have "parked c' = parked c ++ [slot_line c i \<mapsto> lineData i c] \<or> parked c' = [slot_line c i \<mapsto> lineData i c] ++ parked c"
      by (simp add: parked_def)
    then show ?thesis using True absent [OF sv] by (auto simp: map_add_def split: option.split)
  next
    case False
    then show ?thesis by (simp add: parked_def wbq' ge L')
  qed
  have same: "contents low c' ln = contents low c ln" if "ln \<noteq> ?ln" for ln
  proof (cases "slot_valid c i \<and> ln = slot_line c i")
    case True
    then have "contents low c ln = lineData i c" using vic by (simp add: contents_def)
    moreover have "arr c' ln = None" using True that by (simp add: arr')
    moreover have "\<not> evict \<Longrightarrow> low ln = lineData i c \<and> parked c ln = None"
      using True vic ev assms(1) absent by (auto simp: lines_ok_def)
    ultimately show ?thesis using True by (auto simp: contents_def parked')
  next
    case False
    then have "arr c' ln = arr c ln" using that by (auto simp: arr')
    moreover have "parked c' ln = parked c ln" using False by (auto simp: parked' ev)
    ultimately show ?thesis by (simp only: contents_def)
  qed
  show thesis
  proof (rule that [OF sw(1) w _ fr cl(1,2) clean _ same])
    show "slotOf ?ln c' = Some (slot sx w c')" using cl(3) by (simp add: ge i_def)
    show "arr c' ?ln = Some (take ?L src, d)" by (simp add: arr')
    show "c_respQ c' = c_respQ c" "c_hitPipe c' = c_hitPipe c" by (simp_all add: c' c1_def)
    show "arr c' ln = None \<and> parked c' ln = None"
      if "ln \<noteq> ?ln" "arr c ln = None" "parked c ln = None" for ln
      using that vic ev by (auto simp: arr' parked')
    have d0: "distinct (map (\<lambda>e. lineNo (wb_addr e) c) (c_wbq c))" using assms(1) by (simp add: lines_ok_def)
    have nin: "\<forall>f \<in> set (c_wbq c). lineNo (wb_addr f) c \<noteq> slot_line c i" if "slot_valid c i"
      using absent [OF that] by (simp add: parked_None)
    show "\<exists>es. c_wbq c' = c_wbq c @ es \<and> length es \<le> 1 \<and> distinct (map (\<lambda>e. lineNo (wb_addr e) c) (c_wbq c @ es)) \<and>
       (\<forall>e \<in> set es. lineNo (wb_addr e) c \<noteq> ?ln \<and> ?L dvd unat (wb_addr e) \<and> length (wb_line e) = kMaxLineBytes) \<and>
       (\<forall>e \<in> set (c_wbq c @ es). lineNo (wb_addr e) c \<noteq> ?ln \<longrightarrow> arr c' (lineNo (wb_addr e) c) = None)"
    proof (intro exI [of _ "if evict then [e] else []"] conjI)
      show "distinct (map (\<lambda>e. lineNo (wb_addr e) c) (c_wbq c @ (if evict then [e] else [])))"
        using d0 nin eno by (auto simp: ev)
      show "\<forall>f \<in> set (if evict then [e] else []). lineNo (wb_addr f) c \<noteq> ?ln \<and> ?L dvd unat (wb_addr f) \<and>
          length (wb_line f) = kMaxLineBytes"
        using eno vne eaddr eline by (auto simp: ev)
      show "\<forall>f \<in> set (c_wbq c @ (if evict then [e] else [])). lineNo (wb_addr f) c \<noteq> ?ln \<longrightarrow> arr c' (lineNo (wb_addr f) c) = None"
        using assms(1) eno by (auto simp: arr' ev lines_ok_def)
    qed (use wbq' in simp_all)
  qed
qed

text \<open>After an install the line must leave the writeback queue, if it was there.\<close>

lemma install_lines:
  assumes "lines_ok low c" "arr c (lineNo la c) = None" "length src = kMaxLineBytes"
    and "installLine la src d c = (True, sx, w, c')" "d \<or> low (lineNo la c) = take (2 ^ c_lineShift c) src"
    and "ws = filter (\<lambda>e. lineNo (wb_addr e) c \<noteq> lineNo la c) (c_wbq c')"
  defines "c2 \<equiv> c'\<lparr>c_wbq := ws\<rparr>"
  shows "lines_ok low c2" "contents low c2 = (contents low c)(lineNo la c := take (2 ^ c_lineShift c) src)"
    "slotOf (lineNo la c) c2 = Some (slot sx w c2)" "frame c c2" "sx = setOf la c" "w < nways c"
    "c_respQ c2 = c_respQ c" "c_hitPipe c2 = c_hitPipe c" "frame c c'"
    "ln \<noteq> lineNo la c \<Longrightarrow> arr c ln = None \<Longrightarrow> parked c ln = None \<Longrightarrow> arr c2 ln = None \<and> parked c2 ln = None"
    "\<exists>es. c_wbq c' = c_wbq c @ es" "distinct (map (\<lambda>e. lineNo (wb_addr e) c) (c_wbq c'))"
proof -
  let ?L = "(2 :: nat) ^ c_lineShift c" and ?ln = "lineNo la c"
  obtain P where h: "sx = setOf la c" "w < nways c" "slotOf ?ln c' = Some (slot sx w c')" "frame c c'"
    "geom c'" "tags_ok c'" "\<And>ln l. arr c' ln = Some (l, False) \<Longrightarrow> low ln = l"
    "arr c' ?ln = Some (take ?L src, d)"
    "\<And>ln. ln \<noteq> ?ln \<Longrightarrow> contents low c' ln = contents low c ln"
    "c_respQ c' = c_respQ c" "c_hitPipe c' = c_hitPipe c"
    "\<And>ln. ln \<noteq> ?ln \<Longrightarrow> arr c ln = None \<Longrightarrow> parked c ln = None \<Longrightarrow> arr c' ln = None \<and> parked c' ln = None"
    and P: "P = (\<exists>es. c_wbq c' = c_wbq c @ es \<and> length es \<le> 1 \<and> distinct (map (\<lambda>e. lineNo (wb_addr e) c) (c_wbq c @ es)) \<and>
       (\<forall>e \<in> set es. lineNo (wb_addr e) c \<noteq> ?ln \<and> ?L dvd unat (wb_addr e) \<and> length (wb_line e) = kMaxLineBytes) \<and>
       (\<forall>e \<in> set (c_wbq c @ es). lineNo (wb_addr e) c \<noteq> ?ln \<longrightarrow> arr c' (lineNo (wb_addr e) c) = None))" and "P"
    by (rule install_line [OF assms(1-5)]) blast
  then obtain es where es: "c_wbq c' = c_wbq c @ es" "distinct (map (\<lambda>e. lineNo (wb_addr e) c) (c_wbq c @ es))"
    "\<forall>e \<in> set es. lineNo (wb_addr e) c \<noteq> ?ln \<and> ?L dvd unat (wb_addr e) \<and> length (wb_line e) = kMaxLineBytes"
    "\<forall>e \<in> set (c_wbq c @ es). lineNo (wb_addr e) c \<noteq> ?ln \<longrightarrow> arr c' (lineNo (wb_addr e) c) = None"
    by blast
  have sa: "same_arrays c' c2" by (simp add: same_arrays_def c2_def)
  note eq = same_arrays_eqs [OF sa]
  have sg: "same_geom c c'" "same_geom c c2" using h(4) by (simp_all add: frame_def same_geom_def c2_def)
  note g = same_geom_eqs(1) [OF sg(1)] same_geom_eqs(1) [OF sg(2)]
  have L: "c_lineShift c' = c_lineShift c" "c_lineShift c2 = c_lineShift c" using sg by (simp_all add: same_geom_def)
  have wq: "c_wbq c2 = ws" by (simp add: c2_def)
  show "sx = setOf la c" "w < nways c" "frame c c'" by (fact h)+
  show "\<exists>es. c_wbq c' = c_wbq c @ es" "distinct (map (\<lambda>e. lineNo (wb_addr e) c) (c_wbq c'))"
    using es(1,2) by (blast, simp only:)
  show "frame c c2" using h(4) by (simp add: frame_def same_geom_def c2_def)
  show "slotOf ?ln c2 = Some (slot sx w c2)" using h(3) by (simp add: eq)
  show "c_respQ c2 = c_respQ c" "c_hitPipe c2 = c_hitPipe c" using h(10,11) by (simp_all add: c2_def)
  have d: "distinct (map (\<lambda>e. lineNo (wb_addr e) c) ws)"
    using es(1,2) unfolding assms(6) by (metis distinct_map_filter)
  have "\<forall>e \<in> set ws. ?L dvd unat (wb_addr e) \<and> length (wb_line e) = kMaxLineBytes \<and> arr c' (lineNo (wb_addr e) c) = None"
    using es assms(1) unfolding assms(6) lines_ok_def by auto
  then show "lines_ok low c2"
    using h(5-7) d unfolding lines_ok_def eq g L wq by blast
  have parked_eq: "parked c2 ln = parked c' ln" if "ln \<noteq> ?ln" for ln
  proof -
    have "map_of (map (\<lambda>e. (lineNo (wb_addr e) c, take ?L (wb_line e))) (filter (\<lambda>e. lineNo (wb_addr e) c \<noteq> ?ln) xs)) ln =
        map_of (map (\<lambda>e. (lineNo (wb_addr e) c, take ?L (wb_line e))) xs) ln" for xs
      using that by (induction xs) auto
    then show ?thesis unfolding parked_def g L wq assms(6) .
  qed
  have gone: "parked c2 ?ln = None" unfolding parked_None g wq assms(6) by simp
  show "contents low c2 = (contents low c)(?ln := take ?L src)"
  proof
    fix ln
    show "contents low c2 ln = ((contents low c)(?ln := take ?L src)) ln"
    proof (cases "ln = ?ln")
      case True
      then show ?thesis using h(8) by (simp add: contents_def eq)
    next
      case False
      have "contents low c2 ln = contents low c' ln" unfolding contents_def eq parked_eq [OF False] ..
      then show ?thesis using h(9) [OF False] False by simp
    qed
  qed
  show "arr c2 ln = None \<and> parked c2 ln = None" if "ln \<noteq> ?ln" "arr c ln = None" "parked c ln = None"
    using h(12) [OF that] parked_eq [OF that(1)] by (simp add: eq)
qed

lemma install_fresh:
  assumes "lines_ok low c" "arr c (lineNo la c) = None" "length src = kMaxLineBytes"
    and "installLine la src d c = (True, sx, w, c')" "d \<or> low (lineNo la c) = take (2 ^ c_lineShift c) src"
    and "parked c (lineNo la c) = None"
  shows "filter (\<lambda>e. lineNo (wb_addr e) c \<noteq> lineNo la c) (c_wbq c') = c_wbq c'"
proof -
  let ?L = "(2 :: nat) ^ c_lineShift c"
  obtain P where "\<And>ln. ln \<noteq> lineNo la c \<Longrightarrow> contents low c' ln = contents low c ln"
    and P: "P = (\<exists>es. c_wbq c' = c_wbq c @ es \<and> length es \<le> 1 \<and>
       distinct (map (\<lambda>e. lineNo (wb_addr e) c) (c_wbq c @ es)) \<and>
     (\<forall>e \<in> set es. lineNo (wb_addr e) c \<noteq> lineNo la c \<and> ?L dvd unat (wb_addr e) \<and>
        length (wb_line e) = kMaxLineBytes) \<and>
     (\<forall>e \<in> set (c_wbq c @ es). lineNo (wb_addr e) c \<noteq> lineNo la c \<longrightarrow> arr c' (lineNo (wb_addr e) c) = None))" and P
    by (rule install_line [OF assms(1-5)]) blast+
  then show ?thesis using assms(6) by (auto simp: parked_None intro!: filter_True)
qed

lemma remove_nth_filter:
  assumes "k < length xs" "distinct (map f xs)"
  shows "remove_nth k xs = filter (\<lambda>x. f x \<noteq> f (xs ! k)) xs"
  using assms
proof (induction xs arbitrary: k)
  case (Cons x xs)
  show ?case
  proof (cases k)
    case 0
    have "filter (\<lambda>y. f y \<noteq> f x) xs = xs" using Cons.prems(2) by (auto intro!: filter_True) (metis image_eqI)
    then show ?thesis using 0 by (simp add: remove_nth_def)
  next
    case (Suc j)
    then have "f x \<noteq> f (xs ! j)" using Cons.prems by (metis distinct.simps(2) image_eqI length_Cons list.set_map list.simps(9) not_less_eq nth_mem Suc_less_eq)
    then show ?thesis using Cons.IH [of j] Cons.prems Suc by (simp add: remove_nth_def)
  qed
qed simp

lemma same_fresh_filter:
  "parked c ln = None \<Longrightarrow> filter (\<lambda>e. lineNo (wb_addr e) c \<noteq> ln) (c_wbq c) = c_wbq c"
  by (simp add: parked_None)

section \<open>Serving hits\<close>

text \<open>The responses under way, and their number for each request.\<close>

definition responses :: "cache \<Rightarrow> mem_response multiset" where
  "responses c = mset (c_respQ c) + mset (map x_resp (c_hitPipe c))"

lemma reserveHit_facts:
  "same_arrays c (reserveHit r c)" "frame c (reserveHit r c)" "c_wbq (reserveHit r c) = c_wbq c"
  "responses (reserveHit r c) = add_mset r (responses c)"
  by (simp_all add: reserveHit_def Let_def same_arrays_def frame_def same_geom_def responses_def)

lemma serve_hit_facts:
  assumes "lines_ok low c" "slotOf (lineNo (rq_addr req) c) c = Some (slot sx w c)" "req_ok (lineSize c) req"
  defines "c' \<equiv> serve_hit req sx w c" and "r \<equiv> lineResp (lineSize c) req (contents low c (lineNo (rq_addr req) c))"
  shows "lines_ok low c'" "contents low c' = perform_spec c req (contents low c)" "dom (arr c') = dom (arr c)"
    "parked c' = parked c" "frame c c'" "responses c' = add_mset r (responses c)" "c_wbq c' = c_wbq c"
proof -
  obtain resp c1 where p: "performOnLine req sx w mem_response0 c = (resp, c1)" by fastforce
  note s = serve_line [OF assms(1-3) p]
  have c': "c' = reserveHit resp c1" by (simp add: c'_def serve_hit_def p)
  note rf = reserveHit_facts [where c = c1 and r = resp]
  note same = lines_ok_same [OF rf(1,3)]
  show "lines_ok low c'" "contents low c' = perform_spec c req (contents low c)" "dom (arr c') = dom (arr c)"
    using s(2-4) same same_arrays_eqs(3) [OF rf(1)] by (simp_all add: c')
  show "frame c c'" using s(6) rf(2) frame_trans by (simp add: c')
  show w: "c_wbq c' = c_wbq c" using s(7) rf(3) by (simp add: c')
  show "responses c' = add_mset r (responses c)"
    using rf(4) s(1,8,9) by (simp add: c' r_def responses_def)
  have "same_geom c c'" using \<open>frame c c'\<close> by (simp add: frame_def)
  then show "parked c' = parked c" by (simp add: parked_def w same_geom_eqs(1)) (simp add: same_geom_def)
qed

section \<open>The whole state\<close>

text \<open>
  A valid miss register waits for a line that is nowhere in the cache; no two wait for the same
  line; the counter counts them.
\<close>

definition mshr_ok :: "cache \<Rightarrow> mshr \<Rightarrow> bool" where
  "mshr_ok c m \<longleftrightarrow>
     (if m_valid m
      then 2 ^ c_lineShift c dvd unat (m_lineAddr m) \<and> arr c (lineNo (m_lineAddr m) c) = None \<and>
        parked c (lineNo (m_lineAddr m) c) = None \<and>
        (\<forall>w \<in> set (m_waiting m). req_ok (lineSize c) (w_req w) \<and>
           lineNo (rq_addr (w_req w)) c = lineNo (m_lineAddr m) c)
      else m_waiting m = [])"

definition misses_ok :: "cache \<Rightarrow> bool" where
  "misses_ok c \<longleftrightarrow> length (c_mshrs c) < 2 ^ 32 \<and> unat (c_pendingMisses c) = length (filter m_valid (c_mshrs c)) \<and>
     (\<forall>x < length (c_mshrs c). mshr_ok c (c_mshrs c ! x)) \<and>
     (\<forall>x < length (c_mshrs c). \<forall>y < length (c_mshrs c). m_valid (c_mshrs c ! x) \<longrightarrow> m_valid (c_mshrs c ! y) \<longrightarrow>
        m_lineAddr (c_mshrs c ! x) = m_lineAddr (c_mshrs c ! y) \<longrightarrow> x = y)"

text \<open>The refills on their way carry the line below, one for a register.\<close>

definition refills_ok :: "lines \<Rightarrow> (nat \<times> line) list \<Rightarrow> cache \<Rightarrow> bool" where
  "refills_ok low R c \<longleftrightarrow> distinct (map fst R) \<and>
     (\<forall>(x, l) \<in> set R. x < length (c_mshrs c) \<and> m_valid (c_mshrs c ! x) \<and> m_refillSent (c_mshrs c ! x) \<and>
        length l = kMaxLineBytes \<and> take (2 ^ c_lineShift c) l = low (lineNo (m_lineAddr (c_mshrs c ! x)) c))"

definition cache_inv :: "lines \<Rightarrow> (nat \<times> line) list \<Rightarrow> cache \<Rightarrow> bool" where
  "cache_inv low R c \<longleftrightarrow> lines_ok low c \<and> misses_ok c \<and> refills_ok low R c"

text \<open>The requests that wait for a refill.\<close>

definition pending :: "cache \<Rightarrow> mem_request multiset" where
  "pending c = sum_list (map (\<lambda>m. mset (map w_req (m_waiting m))) (c_mshrs c))"

text \<open>
  A step that performed the events \<open>log\<close> and took in the requests \<open>acc\<close>: the contents changed as
  the sequential memory says, and requests and responses are accounted for.
\<close>

definition accounted ::
  "lines \<Rightarrow> cache \<Rightarrow> lines \<Rightarrow> cache \<Rightarrow> mem_request multiset \<Rightarrow> (mem_request \<times> mem_response) list \<Rightarrow> bool" where
  "accounted low c low' c' acc log \<longleftrightarrow> same_geom c c' \<and> legal c (contents low c) log \<and>
     contents low' c' = after c log (contents low c) \<and>
     responses c' = responses c + mset (map snd log) \<and> pending c' + mset (map fst log) = pending c + acc"

lemma accounted_trans:
  assumes "accounted low c low' c' acc log" "accounted low' c' low'' c'' acc' log'"
  shows "accounted low c low'' c'' (acc + acc') (log @ log')"
proof -
  have sg: "same_geom c c'" "same_geom c' c''" using assms by (simp_all add: accounted_def)
  note g = same_geom_eqs [OF sg(1)]
  have "pending c'' + mset (map fst (log @ log')) = (pending c'' + mset (map fst log')) + mset (map fst log)"
    by simp
  also have "\<dots> = (pending c' + mset (map fst log)) + acc'" using assms(2) by (simp add: accounted_def)
  also have "\<dots> = pending c + (acc + acc')" using assms(1) by (simp add: accounted_def)
  finally show ?thesis
    using assms same_geom_trans [OF sg] by (simp add: accounted_def g legal_append after_append)
qed

lemma sum_list_update:
  "i < length xs \<Longrightarrow> sum_list (map f (xs[i := v])) + f (xs ! i) = sum_list (map f xs) + (f v :: 'a multiset)"
proof (induction xs arbitrary: i)
  case (Cons x xs)
  then show ?case by (cases i) (simp_all add: ac_simps)
qed simp

lemma frame_pending: "frame c c' \<Longrightarrow> pending c' = pending c"
  by (simp add: frame_def pending_def)

lemma inv_same:
  assumes "same_arrays c c'" "c_wbq c' = c_wbq c" "c_mshrs c' = c_mshrs c" "c_pendingMisses c' = c_pendingMisses c"
  shows "cache_inv low R c' = cache_inv low R c" "same_geom c c'" "pending c' = pending c" "contents low c' = contents low c"
proof -
  note l = lines_ok_same [OF assms(1,2)] and a = same_arrays_eqs [OF assms(1)]
  show sg: "same_geom c c'" using assms(1) by (simp add: same_arrays_def same_geom_def)
  note g = same_geom_eqs [OF sg]
  have L: "c_lineShift c' = c_lineShift c" using sg by (simp add: same_geom_def)
  show "pending c' = pending c" "contents low c' = contents low c" by (simp_all add: pending_def assms l)
  have "mshr_ok c' = mshr_ok c" by (intro ext) (simp add: mshr_ok_def a l g L)
  then show "cache_inv low R c' = cache_inv low R c"
    by (simp add: cache_inv_def misses_ok_def refills_ok_def l assms(3,4) L g)
qed

text \<open>What keeps the misses: the registers stay, and their lines stay out of the cache.\<close>

lemma misses_frame:
  assumes "frame c c'" "misses_ok c"
    and "\<And>x. x < length (c_mshrs c) \<Longrightarrow> m_valid (c_mshrs c ! x) \<Longrightarrow>
      arr c' (lineNo (m_lineAddr (c_mshrs c ! x)) c) = None \<and> parked c' (lineNo (m_lineAddr (c_mshrs c ! x)) c) = None"
  shows "misses_ok c'" "refills_ok low R c' = refills_ok low R c"
proof -
  have sg: "same_geom c c'" and eq: "c_mshrs c' = c_mshrs c" "c_pendingMisses c' = c_pendingMisses c"
    using assms(1) by (simp_all add: frame_def)
  note g = same_geom_eqs [OF sg]
  have L: "c_lineShift c' = c_lineShift c" using sg by (simp add: same_geom_def)
  have "mshr_ok c' (c_mshrs c ! x)" if "x < length (c_mshrs c)" for x
    using assms(2,3) that unfolding misses_ok_def mshr_ok_def g L by auto
  then show "misses_ok c'" using assms(2) unfolding misses_ok_def eq by simp
  show "refills_ok low R c' = refills_ok low R c" by (simp add: refills_ok_def eq L g)
qed

lemma mshr_lines:
  assumes "misses_ok c" "x < length (c_mshrs c)" "m_valid (c_mshrs c ! x)"
  shows "arr c (lineNo (m_lineAddr (c_mshrs c ! x)) c) = None" "parked c (lineNo (m_lineAddr (c_mshrs c ! x)) c) = None"
    "2 ^ c_lineShift c dvd unat (m_lineAddr (c_mshrs c ! x))"
  using assms by (simp_all add: misses_ok_def mshr_ok_def)

text \<open>Serving a hit.\<close>

lemma serve_hit_step:
  assumes "cache_inv low R c" "slotOf (lineNo (rq_addr req) c) c = Some (slot sx w c)" "req_ok (lineSize c) req"
  shows "cache_inv low R (serve_hit req sx w c)"
    "\<exists>log. accounted low c low (serve_hit req sx w c) {#req#} log"
    "c_pendingInstalls (serve_hit req sx w c) = c_pendingInstalls c"
proof -
  let ?c' = "serve_hit req sx w c"
  have inv: "lines_ok low c" "misses_ok c" "refills_ok low R c" using assms(1) by (simp_all add: cache_inv_def)
  note s = serve_hit_facts [OF inv(1) assms(2,3)]
  have none: "arr ?c' ln = None \<longleftrightarrow> arr c ln = None" for ln using s(3) by (metis domIff)
  have m: "misses_ok ?c'" "refills_ok low R ?c' = refills_ok low R c"
    by (rule misses_frame [OF s(5) inv(2)]; use mshr_lines [OF inv(2)] none s(4) in simp)+
  show "cache_inv low R ?c'" using s(1) m inv(3) by (simp add: cache_inv_def)
  show "\<exists>log. accounted low c low ?c' {#req#} log"
    using s(2,5,6) frame_pending [OF s(5)]
    by (intro exI [of _ "[(req, lineResp (lineSize c) req (contents low c (lineNo (rq_addr req) c)))]"])
      (simp add: accounted_def after_def frame_def)
  show "c_pendingInstalls ?c' = c_pendingInstalls c" using s(5) by (simp add: frame_def)
qed

section \<open>Access\<close>

text \<open>The line address the program computes from a request.\<close>

abbreviation lineAddr :: "mem_request \<Rightarrow> cache \<Rightarrow> u32" where
  "lineAddr req c \<equiv> rq_addr req - offsetOf (rq_addr req) c"

lemma installLine_room:
  assumes "length (c_wbq c) < unat (cc_wbq (c_cfg c))"
  obtains sx w c' where "installLine la src d c = (True, sx, w, c')"
  using assms by (auto simp: installLine_def Let_def)

text \<open>The miss on a line that is still in the writeback queue.\<close>

lemma access_restore_step:
  assumes "cache_inv low R c" "length (c_wbq c) < unat (cc_wbq (c_cfg c))" "req_ok (lineSize c) req"
    and "k < length (c_wbq c)" "wb_addr (c_wbq c ! k) = lineAddr req c"
  shows "cache_inv low R (access_restore req k c)"
    "\<exists>log. accounted low c low (access_restore req k c) {#req#} log"
    "c_pendingInstalls (access_restore req k c) = c_pendingInstalls c"
proof -
  let ?la = "lineAddr req c" and ?src = "wb_line (c_wbq c ! k)"
  have inv: "lines_ok low c" "misses_ok c" "refills_ok low R c" using assms(1) by (simp_all add: cache_inv_def)
  have g: "geom c" using inv(1) by (simp add: lines_ok_def)
  have e: "c_wbq c ! k \<in> set (c_wbq c)" using assms(4) by simp
  have ln: "lineNo ?la c = lineNo (rq_addr req) c" by (rule lineNo_lineAddr(1) [OF g])
  have absent: "arr c (lineNo ?la c) = None" "length ?src = kMaxLineBytes"
    using inv(1) e assms(5) by (auto simp: lines_ok_def)
  have park: "parked c (lineNo ?la c) = Some (take (2 ^ c_lineShift c) ?src)"
    using inv(1) e assms(5) by (subst parked_Some) (auto simp: lines_ok_def intro!: bexI [of _ "c_wbq c ! k"])
  obtain sx w c1 where i: "installLine ?la ?src True c = (True, sx, w, c1)"
    using installLine_room [OF assms(2)] by blast
  define ws where "ws = filter (\<lambda>e. lineNo (wb_addr e) c \<noteq> lineNo ?la c) (c_wbq c1)"
  note il = install_lines [OF inv(1) absent i disjI1 ws_def]
  obtain es where es: "c_wbq c1 = c_wbq c @ es" using il(11) by blast
  have ws: "remove_nth k (c_wbq c1) = ws"
  proof -
    have "c_wbq c1 ! k = c_wbq c ! k" "k < length (c_wbq c1)" using assms(4) es by (simp_all add: nth_append)
    then show ?thesis
      using remove_nth_filter [OF _ il(12), of k] assms(5) by (simp add: ws_def)
  qed
  define c2 where "c2 = c1\<lparr>c_wbq := ws\<rparr>"
  define c3 where "c3 = c2\<lparr>c_stats := (c_stats c2)\<lparr>cs_hits := cs_hits (c_stats c2) + 1,
      cs_wbqRestores := cs_wbqRestores (c_stats c2) + 1\<rparr>\<rparr>"
  have sa: "same_arrays c2 c3" by (simp add: c3_def same_arrays_def)
  have f: "frame c c2" "frame c2 c3" "c_wbq c3 = c_wbq c2"
    using il(4) by (simp_all add: c2_def c3_def frame_def same_geom_def)
  have acc: "access_restore req k c = serve_hit req sx w c3"
    by (simp add: access_restore_def i ws c3_def c2_def)
  have same: "contents low c2 = contents low c"
    using il(2) park absent(1) by (intro ext) (simp add: c2_def contents_def)
  have m: "misses_ok c2" "refills_ok low R c2 = refills_ok low R c"
    by (rule misses_frame [OF f(1) inv(2)];
        use mshr_lines [OF inv(2)] il(10) [folded c2_def] park in \<open>metis option.distinct(1)\<close>)+
  have "cache_inv low R c2" using il(1) m inv(3) by (simp add: cache_inv_def c2_def)
  moreover note si = inv_same [OF sa f(3)]
  ultimately have inv3: "cache_inv low R c3" by (simp add: c3_def)
  have sg: "same_geom c c3" using f frame_trans by (metis frame_def)
  note ge = same_geom_eqs [OF sg]
  have slot: "slotOf (lineNo (rq_addr req) c3) c3 = Some (slot sx w c3)"
    using il(3) same_arrays_eqs(4,9) [OF sa] by (simp add: ge ln c2_def)
  have ok: "req_ok (lineSize c3) req" using assms(3) by (simp add: ge)
  note sh = serve_hit_step [OF inv3 slot ok]
  show "cache_inv low R (access_restore req k c)" using sh(1) by (simp add: acc)
  show "c_pendingInstalls (access_restore req k c) = c_pendingInstalls c"
    using sh(3) f by (simp add: acc frame_def)
  have "contents low c3 = contents low c"
    using lines_ok_same(2) [OF sa f(3)] same by simp
  moreover have "responses c3 = responses c"
    using il(7,8) by (simp add: responses_def c3_def c2_def)
  moreover have "pending c3 = pending c" using f frame_pending by (metis frame_trans)
  ultimately have "accounted low c low c3 {#} []" using sg by (simp add: accounted_def after_def)
  then show "\<exists>log. accounted low c low (access_restore req k c) {#req#} log"
    using sh(2) accounted_trans [of low c low c3 "{#}" "[]"] unfolding acc by fastforce
qed

text \<open>The write of a whole line that is nowhere in the cache.\<close>

lemma access_line_write_step:
  assumes "cache_inv low R c" "length (c_wbq c) < unat (cc_wbq (c_cfg c))" "req_ok (lineSize c) req"
    and "rq_isWrite req" "rq_size req = lineSize c"
    and "arr c (lineNo (rq_addr req) c) = None" "parked c (lineNo (rq_addr req) c) = None"
    and "\<And>x. x < length (c_mshrs c) \<Longrightarrow> m_valid (c_mshrs c ! x) \<Longrightarrow>
      lineNo (m_lineAddr (c_mshrs c ! x)) c \<noteq> lineNo (rq_addr req) c"
    and "installLine (lineAddr req c) (rq_wline req) True c = (True, sx, w, c1)"
  defines "c' \<equiv> reserveHit (mem_response0\<lparr>rs_src := rq_src req, rs_tag := rq_tag req\<rparr>) (touchLRU sx w c1)"
  shows "cache_inv low R c'" "\<exists>log. accounted low c low c' {#req#} log" "c_pendingInstalls c' = c_pendingInstalls c"
proof -
  let ?la = "lineAddr req c" and ?L = "(2 :: nat) ^ c_lineShift c"
  have inv: "lines_ok low c" "misses_ok c" "refills_ok low R c" using assms(1) by (simp_all add: cache_inv_def)
  have g: "geom c" using inv(1) by (simp add: lines_ok_def)
  have ln: "lineNo ?la c = lineNo (rq_addr req) c" by (rule lineNo_lineAddr(1) [OF g])
  have len: "length (rq_wline req) = kMaxLineBytes" using assms(3) by (simp add: req_ok_def)
  have size: "unat (lineSize c) = ?L" using g by (simp add: geom_def)
  define ws where "ws = filter (\<lambda>e. lineNo (wb_addr e) c \<noteq> lineNo ?la c) (c_wbq c1)"
  note il = install_lines [OF inv(1) assms(6) [folded ln] len assms(9) disjI1 ws_def]
  have "ws = c_wbq c1"
    using install_fresh [OF inv(1) assms(6) [folded ln] len assms(9) disjI1] assms(7) by (simp add: ws_def ln)
  then have c1: "c1\<lparr>c_wbq := ws\<rparr> = c1" by simp
  note il = il [unfolded c1]
  have m: "misses_ok c1" "refills_ok low R c1 = refills_ok low R c"
    by (rule misses_frame [OF il(4) inv(2)]; use mshr_lines [OF inv(2)] il(10) assms(8) ln in metis)+
  have inv1: "cache_inv low R c1" using il(1) m inv(3) by (simp add: cache_inv_def)
  define c2 where "c2 = touchLRU sx w c1"
  let ?r = "mem_response0\<lparr>rs_src := rq_src req, rs_tag := rq_tag req\<rparr>"
  have sa: "same_arrays c1 c'"
    using touchLRU_same(1) [of c1 sx w] reserveHit_facts(1) [where c = c2 and r = ?r]
    by (simp add: same_arrays_def c'_def c2_def)
  have fr: "frame c1 c'" "c_wbq c' = c_wbq c1" "responses c' = add_mset ?r (responses c1)"
    using touchLRU_same(2-5) [where c = c1 and sx = sx and w = w] reserveHit_facts(2-4) [where c = c2 and r = ?r]
      frame_trans [of c1 c2 c']
    by (simp_all add: c'_def c2_def responses_def)
  have eq: "c_mshrs c' = c_mshrs c1" "c_pendingMisses c' = c_pendingMisses c1" using fr(1) by (simp_all add: frame_def)
  note si = inv_same [OF sa fr(2) eq]
  show "cache_inv low R c'" using inv1 si(1) by simp
  have f: "frame c c'" using il(4) fr(1) frame_trans by blast
  then show "c_pendingInstalls c' = c_pendingInstalls c" by (simp add: frame_def)
  have "contents low c' = perform_spec c req (contents low c)"
    using il(2) assms(4,5) by (simp add: si perform_spec_def lineAfter_def ln size)
  moreover have "lineResp (lineSize c) req l = ?r" for l using assms(4) by (simp add: lineResp_def Let_def)
  moreover have "responses c1 = responses c" using il(7,8) by (simp add: responses_def)
  ultimately show "\<exists>log. accounted low c low c' {#req#} log"
    using f fr(3) frame_pending [OF f]
    by (intro exI [of _ "[(req, ?r)]"]) (simp add: accounted_def after_def frame_def)
qed

text \<open>Changing one miss register.\<close>

lemma set_mshr:
  assumes "misses_ok c" "x < length (c_mshrs c)" "mshr_ok c m"
    and "m_valid m \<Longrightarrow> (\<forall>y < length (c_mshrs c). y \<noteq> x \<longrightarrow> m_valid (c_mshrs c ! y) \<longrightarrow> m_lineAddr (c_mshrs c ! y) \<noteq> m_lineAddr m)"
    and "unat pm + (if m_valid (c_mshrs c ! x) then 1 else 0) = unat (c_pendingMisses c) + (if m_valid m then 1 else 0)"
  defines "c' \<equiv> c\<lparr>c_mshrs := (c_mshrs c)[x := m], c_pendingMisses := pm\<rparr>"
  shows "misses_ok c'" "lines_ok low c' = lines_ok low c" "contents low c' = contents low c" "same_geom c c'"
    "responses c' = responses c" "arr c' = arr c" "parked c' = parked c"
    "pending c' + mset (map w_req (m_waiting (c_mshrs c ! x))) = pending c + mset (map w_req (m_waiting m))"
proof -
  have sa: "same_arrays c c'" "c_wbq c' = c_wbq c" by (simp_all add: same_arrays_def c'_def)
  note l = lines_ok_same [OF sa] and a = same_arrays_eqs [OF sa(1)]
  show "lines_ok low c' = lines_ok low c" "contents low c' = contents low c" "arr c' = arr c" "parked c' = parked c"
    by (simp_all add: l a)
  show sg: "same_geom c c'" by (simp add: same_geom_def c'_def)
  show "responses c' = responses c" by (simp add: responses_def c'_def)
  show "pending c' + mset (map w_req (m_waiting (c_mshrs c ! x))) = pending c + mset (map w_req (m_waiting m))"
    using sum_list_update [OF assms(2), of "\<lambda>m. mset (map w_req (m_waiting m))" m]
    by (simp add: pending_def c'_def)
  have ok: "mshr_ok c' = mshr_ok c"
    by (intro ext) (simp add: mshr_ok_def a l same_geom_eqs [OF sg], simp add: c'_def)
  have "length (filter m_valid ((c_mshrs c)[x := m])) + (if m_valid (c_mshrs c ! x) then 1 else 0) =
      length (filter m_valid (c_mshrs c)) + (if m_valid m then 1 else 0)"
    by (rule count_update [OF assms(2)])
  then have "unat pm = length (filter m_valid ((c_mshrs c)[x := m]))"
    using assms(1,5) unfolding misses_ok_def by linarith
  moreover have "\<forall>y < length (c_mshrs c). mshr_ok c ((c_mshrs c)[x := m] ! y)"
    using assms(1-3) by (auto simp: misses_ok_def nth_list_update)
  moreover have "y = z" if "y < length (c_mshrs c)" "z < length (c_mshrs c)" "m_valid ((c_mshrs c)[x := m] ! y)"
    "m_valid ((c_mshrs c)[x := m] ! z)" "m_lineAddr ((c_mshrs c)[x := m] ! y) = m_lineAddr ((c_mshrs c)[x := m] ! z)" for y z
    using that assms(1,4) by (cases "y = x"; cases "z = x") (auto simp: misses_ok_def nth_list_update)
  ultimately show "misses_ok c'"
    using assms(1) unfolding misses_ok_def ok by (simp add: c'_def)
qed

lemma refills_cong:
  assumes "refills_ok low R c" "same_geom c c'" "length (c_mshrs c') = length (c_mshrs c)"
    and "\<And>x l. (x, l) \<in> set R \<Longrightarrow> m_valid (c_mshrs c' ! x) = m_valid (c_mshrs c ! x) \<and>
      m_refillSent (c_mshrs c' ! x) = m_refillSent (c_mshrs c ! x) \<and> m_lineAddr (c_mshrs c' ! x) = m_lineAddr (c_mshrs c ! x)"
  shows "refills_ok low R c'"
proof -
  have L: "c_lineShift c' = c_lineShift c" using assms(2) by (simp add: same_geom_def)
  show ?thesis
    using assms(1,3,4) unfolding refills_ok_def same_geom_eqs(1) [OF assms(2)] L by fastforce
qed

text \<open>Joining a miss that is under way.\<close>

lemma add_waiting_step:
  assumes "cache_inv low R c" "req_ok (lineSize c) req" "mshrFor (lineAddr req c) c = Some x"
  shows "cache_inv low R (add_waiting x req c)" "accounted low c low (add_waiting x req c) {#req#} []"
    "c_pendingInstalls (add_waiting x req c) = c_pendingInstalls c"
proof -
  have inv: "lines_ok low c" "misses_ok c" "refills_ok low R c" using assms(1) by (simp_all add: cache_inv_def)
  have g: "geom c" using inv(1) by (simp add: lines_ok_def)
  let ?m = "c_mshrs c ! x"
  have x: "x < length (c_mshrs c)" "m_valid ?m" "m_lineAddr ?m = lineAddr req c"
    using assms(3) by (auto simp: mshrFor_def find_Some_iff)
  define m where "m = ?m\<lparr>m_waiting := m_waiting ?m @ [\<lparr>w_req = req, w_issueTick = c_tickCount c\<rparr>]\<rparr>"
  have ok: "mshr_ok c m"
    using inv(2) x assms(2) lineNo_lineAddr(1) [OF g] by (auto simp: misses_ok_def mshr_ok_def m_def)
  have others: "\<forall>y < length (c_mshrs c). y \<noteq> x \<longrightarrow> m_valid (c_mshrs c ! y) \<longrightarrow> m_lineAddr (c_mshrs c ! y) \<noteq> m_lineAddr m"
    using inv(2) x by (auto simp: misses_ok_def m_def)
  have c': "add_waiting x req c = c\<lparr>c_mshrs := (c_mshrs c)[x := m], c_pendingMisses := c_pendingMisses c\<rparr>"
    by (simp add: add_waiting_def m_def)
  note sm = set_mshr [OF inv(2) x(1) ok others, of "c_pendingMisses c", folded c']
  have v: "m_valid m = m_valid ?m" by (simp add: m_def)
  have "refills_ok low R (add_waiting x req c)"
  proof (rule refills_cong [OF inv(3)])
    show "same_geom c (add_waiting x req c)" "length (c_mshrs (add_waiting x req c)) = length (c_mshrs c)"
      by (simp_all add: add_waiting_def same_geom_def)
    show "m_valid (c_mshrs (add_waiting x req c) ! y) = m_valid (c_mshrs c ! y) \<and>
        m_refillSent (c_mshrs (add_waiting x req c) ! y) = m_refillSent (c_mshrs c ! y) \<and>
        m_lineAddr (c_mshrs (add_waiting x req c) ! y) = m_lineAddr (c_mshrs c ! y)" for y
      using x(1) by (cases "y = x") (simp_all add: add_waiting_def)
  qed
  then show "cache_inv low R (add_waiting x req c)" using sm(1,2) inv(1) v by (simp add: cache_inv_def)
  show "accounted low c low (add_waiting x req c) {#req#} []"
    using sm(3-5,8) v by (simp add: accounted_def after_def m_def)
  show "c_pendingInstalls (add_waiting x req c) = c_pendingInstalls c" by (simp add: c')
qed

text \<open>A new miss.\<close>

lemma new_miss_step:
  assumes "cache_inv low R c" "req_ok (lineSize c) req" "mshrFor (lineAddr req c) c = None" "freeMshr c = Some x"
    and "arr c (lineNo (rq_addr req) c) = None" "parked c (lineNo (rq_addr req) c) = None"
  defines "m \<equiv> \<lparr>m_valid = True, m_lineAddr = lineAddr req c, m_refillSent = False,
      m_waiting = [\<lparr>w_req = req, w_issueTick = c_tickCount c\<rparr>]\<rparr>"
  defines "c' \<equiv> c\<lparr>c_mshrs := (c_mshrs c)[x := m], c_pendingMisses := c_pendingMisses c + 1\<rparr>"
  shows "cache_inv low R c'" "accounted low c low c' {#req#} []"
proof -
  have inv: "lines_ok low c" "misses_ok c" "refills_ok low R c" using assms(1) by (simp_all add: cache_inv_def)
  have g: "geom c" using inv(1) by (simp add: lines_ok_def)
  have x: "x < length (c_mshrs c)" "\<not> m_valid (c_mshrs c ! x)"
    using assms(4) by (auto simp: freeMshr_def find_Some_iff)
  have ok: "mshr_ok c m"
    using lineNo_lineAddr [OF g, of "rq_addr req"] assms(2,5,6) by (simp add: mshr_ok_def m_def)
  have others: "\<forall>y < length (c_mshrs c). y \<noteq> x \<longrightarrow> m_valid (c_mshrs c ! y) \<longrightarrow> m_lineAddr (c_mshrs c ! y) \<noteq> m_lineAddr m"
    using assms(3) by (auto simp: mshrFor_def find_None_iff m_def)
  have "length (filter m_valid (c_mshrs c)) < length (c_mshrs c)"
    using x by (intro length_filter_less [of "c_mshrs c ! x"]) simp_all
  then have "unat (c_pendingMisses c + 1) = unat (c_pendingMisses c) + 1"
    using inv(2) unat_Suc_small32 [of "c_pendingMisses c"] by (simp add: misses_ok_def)
  note sm = set_mshr [OF inv(2) x(1) ok others, of "c_pendingMisses c + 1", folded c'_def]
  have pm: "unat (c_pendingMisses c + 1) + (if m_valid (c_mshrs c ! x) then 1 else 0) =
      unat (c_pendingMisses c) + (if m_valid m then 1 else 0)"
    using \<open>unat (c_pendingMisses c + 1) = _\<close> x(2) by (simp add: m_def)
  have no: "m_waiting (c_mshrs c ! x) = []" using inv(2) x by (simp add: misses_ok_def mshr_ok_def)
  have ne: "x \<noteq> y" if "(y, l) \<in> set R" for y l using inv(3) x(2) that by (auto simp: refills_ok_def)
  then have "refills_ok low R c'"
    by (intro refills_cong [OF inv(3)]) (simp_all add: c'_def same_geom_def ne)
  then show "cache_inv low R c'" using sm(1,2) [OF pm] inv(1) by (simp add: cache_inv_def)
  show "accounted low c low c' {#req#} []"
    using sm(3-5,8) [OF pm] no by (simp add: accounted_def after_def m_def)
qed

lemma find_upt_None: "find P [0..<n] = None \<longleftrightarrow> (\<forall>i < n. \<not> P i)"
  by (auto simp: find_None_iff)

text \<open>
  The line of a request is not parked if its address is not in the writeback queue, and no
  register waits for it if none has its address.
\<close>

lemma aligned_absent:
  assumes "lines_ok low c" "misses_ok c"
  shows "(\<forall>i < length (c_wbq c). wb_addr (c_wbq c ! i) \<noteq> lineAddr req c) \<Longrightarrow> parked c (lineNo (rq_addr req) c) = None"
    and "mshrFor (lineAddr req c) c = None \<Longrightarrow> x < length (c_mshrs c) \<Longrightarrow> m_valid (c_mshrs c ! x) \<Longrightarrow>
      lineNo (m_lineAddr (c_mshrs c ! x)) c \<noteq> lineNo (rq_addr req) c"
proof -
  have g: "geom c" using assms(1) by (simp add: lines_ok_def)
  note la = lineNo_lineAddr [OF g, of "rq_addr req"]
  have inj: "a = lineAddr req c" if "2 ^ c_lineShift c dvd unat a" "lineNo a c = lineNo (rq_addr req) c" for a
    by (rule aligned_lineNo_inj [OF that(1) la(2)]) (simp add: that(2) la(1))
  show "parked c (lineNo (rq_addr req) c) = None" if "\<forall>i < length (c_wbq c). wb_addr (c_wbq c ! i) \<noteq> lineAddr req c"
    unfolding parked_None using that inj assms(1) by (metis in_set_conv_nth lines_ok_def)
  show "lineNo (m_lineAddr (c_mshrs c ! x)) c \<noteq> lineNo (rq_addr req) c"
    if "mshrFor (lineAddr req c) c = None" "x < length (c_mshrs c)" "m_valid (c_mshrs c ! x)"
    using that inj mshr_lines(3) [OF assms(2) that(2,3)] by (auto simp: mshrFor_def find_upt_None)
qed

lemma access_miss_step:
  assumes "cache_inv low R c" "cache_canAccept c" "req_ok (lineSize c) req"
    and "arr c (lineNo (rq_addr req) c) = None" "\<forall>i < length (c_wbq c). wb_addr (c_wbq c ! i) \<noteq> lineAddr req c"
  shows "cache_inv low R (access_miss req c) \<and> (\<exists>log. accounted low c low (access_miss req c) {#req#} log) \<and>
    c_pendingInstalls (access_miss req c) = c_pendingInstalls c"
proof -
  have inv: "lines_ok low c" "misses_ok c" "refills_ok low R c" using assms(1) by (simp_all add: cache_inv_def)
  note absent = aligned_absent [OF inv(1,2)]
  have room: "length (c_wbq c) < unat (cc_wbq (c_cfg c))" using assms(2) by (simp add: cache_canAccept_def)
  define c1 where "c1 = c\<lparr>c_stats := (c_stats c)\<lparr>cs_misses := cs_misses (c_stats c) + 1\<rparr>\<rparr>"
  define c2 where "c2 = c1\<lparr>c_stats := (c_stats c1)\<lparr>cs_mergedMisses := cs_mergedMisses (c_stats c1) + 1\<rparr>\<rparr>"
  have sa: "same_arrays c c1" "same_arrays c c2" by (simp_all add: same_arrays_def c1_def c2_def)
  have f: "c_wbq c1 = c_wbq c" "c_wbq c2 = c_wbq c" "c_mshrs c1 = c_mshrs c" "c_mshrs c2 = c_mshrs c"
    "c_pendingMisses c1 = c_pendingMisses c" "c_pendingMisses c2 = c_pendingMisses c" "c_cfg c1 = c_cfg c"
    "responses c1 = responses c" "responses c2 = responses c"
    "c_pendingInstalls c1 = c_pendingInstalls c" "c_pendingInstalls c2 = c_pendingInstalls c"
    by (simp_all add: c1_def c2_def responses_def)
  note s1 = inv_same [OF sa(1) f(1,3,5)] and s2 = inv_same [OF sa(2) f(2,4,6)]
  note g1 = same_geom_eqs [OF s1(2)] and g2 = same_geom_eqs [OF s2(2)]
  have free: "accounted low c low c1 {#} []" "accounted low c low c2 {#} []"
    using s1(2-4) s2(2-4) f(8,9) by (simp_all add: accounted_def after_def)
  have i1: "cache_inv low R c1" "cache_inv low R c2" using assms(1) s1(1) s2(1) by simp_all
  have la: "lineAddr req c1 = lineAddr req c" "lineAddr req c2 = lineAddr req c" by (simp_all add: g1 g2)
  have mf: "mshrFor a c1 = mshrFor a c" "mshrFor a c2 = mshrFor a c" for a by (simp_all add: mshrFor_def f)
  have miss: "access_miss req c = (case mshrFor (lineAddr req c) c1 of
        Some i \<Rightarrow> add_waiting i req c2
      | None \<Rightarrow>
          if rq_isWrite req \<and> rq_size req = lineSize c1
          then let (_, s, w, c) = installLine (lineAddr req c) (rq_wline req) True c1
               in reserveHit (mem_response0\<lparr>rs_src := rq_src req, rs_tag := rq_tag req\<rparr>) (touchLRU s w c)
          else case freeMshr c1 of
                 None \<Rightarrow> c1
               | Some i \<Rightarrow>
                   c1\<lparr>c_mshrs := (c_mshrs c1)[i := \<lparr>m_valid = True, m_lineAddr = lineAddr req c, m_refillSent = False,
                        m_waiting = [\<lparr>w_req = req, w_issueTick = c_tickCount c1\<rparr>]\<rparr>],
                      c_pendingMisses := c_pendingMisses c1 + 1\<rparr>)"
    by (simp only: access_miss_def Let_def c1_def [symmetric] c2_def [symmetric])
  show ?thesis
  proof (cases "mshrFor (lineAddr req c) c")
    case (Some x)
    have ok: "req_ok (lineSize c2) req" using assms(3) by (simp add: g2)
    have x: "mshrFor (lineAddr req c2) c2 = Some x" using Some by (simp add: la mf)
    note aw = add_waiting_step [OF i1(2) ok x]
    have "access_miss req c = add_waiting x req c2" using Some by (simp add: miss mf)
    then show ?thesis
      using aw(1,3) accounted_trans [OF free(2) aw(2)] f(11) by auto
  next
    case None
    note nl = absent(2) [OF None]
    have p: "parked c (lineNo (rq_addr req) c) = None" by (rule absent(1)) (use assms(5) in blast)
    have a1: "arr c1 (lineNo (rq_addr req) c1) = None" "parked c1 (lineNo (rq_addr req) c1) = None"
      using assms(4) p same_arrays_eqs(3) [OF sa(1)] lines_ok_same(3) [OF sa(1) f(1)] by (simp_all add: g1)
    have ok: "req_ok (lineSize c1) req" using assms(3) by (simp add: g1)
    show ?thesis
    proof (cases "rq_isWrite req \<and> rq_size req = lineSize c1")
      case True
      obtain s w c3 where i: "installLine (lineAddr req c1) (rq_wline req) True c1 = (True, s, w, c3)"
        using installLine_room [of c1] room f by metis
      have acc: "access_miss req c =
          reserveHit (mem_response0\<lparr>rs_src := rq_src req, rs_tag := rq_tag req\<rparr>) (touchLRU s w c3)"
        using None True i by (simp add: miss mf la)
      have "length (c_wbq c1) < unat (cc_wbq (c_cfg c1))" using room f by simp
      note lw = access_line_write_step [OF i1(1) this ok _ _ a1 _ i]
      have "lineNo (m_lineAddr (c_mshrs c1 ! x)) c1 \<noteq> lineNo (rq_addr req) c1"
        if "x < length (c_mshrs c1)" "m_valid (c_mshrs c1 ! x)" for x
        using nl that by (simp add: g1 f)
      then have "cache_inv low R (access_miss req c)" "\<exists>log. accounted low c1 low (access_miss req c) {#req#} log"
        "c_pendingInstalls (access_miss req c) = c_pendingInstalls c1"
        using lw True unfolding acc by blast+
      then show ?thesis using accounted_trans [OF free(1)] f(10) by fastforce
    next
      case False
      have "\<exists>x. freeMshr c1 = Some x"
      proof (rule ccontr)
        assume "\<nexists>x. freeMshr c1 = Some x"
        then have "\<forall>i < length (c_mshrs c). m_valid (c_mshrs c ! i)" by (simp add: freeMshr_def find_upt_None f)
        then have "filter m_valid (c_mshrs c) = c_mshrs c" by (intro filter_True) (metis in_set_conv_nth)
        then show False using inv(2) assms(2) by (simp add: misses_ok_def cache_canAccept_def)
      qed
      then obtain x where x: "freeMshr c1 = Some x" by blast
      have n: "mshrFor (lineAddr req c1) c1 = None" using None by (simp add: la mf)
      note nm = new_miss_step [OF i1(1) ok n x a1]
      show ?thesis
        using nm(1) accounted_trans [OF free(1) nm(2)] None False x f(10)
        by (auto simp: miss mf la)
    qed
  qed
qed

lemma access_step:
  assumes "cache_inv low R c" "cache_canAccept c" "req_ok (lineSize c) req"
  shows "cache_inv low R (cache_access req c) \<and> (\<exists>log. accounted low c low (cache_access req c) {#req#} log) \<and>
    c_pendingInstalls (cache_access req c) = c_pendingInstalls c"
proof -
  define c1 where "c1 = c\<lparr>c_stats := (c_stats c)\<lparr>cs_accesses := cs_accesses (c_stats c) + 1\<rparr>\<rparr>"
  have sa: "same_arrays c c1" by (simp add: same_arrays_def c1_def)
  have f: "c_wbq c1 = c_wbq c" "c_mshrs c1 = c_mshrs c" "c_pendingMisses c1 = c_pendingMisses c" "c_cfg c1 = c_cfg c"
    "responses c1 = responses c" "c_pendingInstalls c1 = c_pendingInstalls c"
    by (simp_all add: c1_def responses_def)
  note s1 = inv_same [OF sa f(1-3)]
  note g1 = same_geom_eqs [OF s1(2)]
  have free: "accounted low c low c1 {#} []" using s1(2-4) f(5) by (simp add: accounted_def after_def)
  have i1: "cache_inv low R c1" using assms(1) s1(1) by simp
  then have gt: "geom c1" "tags_ok c1" by (simp_all add: cache_inv_def lines_ok_def)
  have ok: "req_ok (lineSize c1) req" "cache_canAccept c1" using assms(2,3) by (simp_all add: g1 f cache_canAccept_def)
  note fw = findWay_slotOf [OF gt, of "rq_addr req"]
  let ?find = "find (\<lambda>i. wb_addr (c_wbq c1 ! i) = lineAddr req c1) [0..<length (c_wbq c1)]"
  have acc: "cache_access req c = (case findWay (setOf (rq_addr req) c1) (tagOf (rq_addr req) c1) c1 of
      Some way \<Rightarrow>
        (let st = (c_stats c1)\<lparr>cs_hits := cs_hits (c_stats c1) + 1\<rparr>;
             st = (if c_pendingMisses c1 \<noteq> 0 then st\<lparr>cs_hitUnderMiss := cs_hitUnderMiss st + 1\<rparr> else st)
         in serve_hit req (setOf (rq_addr req) c1) way (c1\<lparr>c_stats := st\<rparr>))
    | None \<Rightarrow> (case ?find of Some i \<Rightarrow> access_restore req i c1 | None \<Rightarrow> access_miss req c1))"
    by (simp only: cache_access_def Let_def c1_def [symmetric])
  have "cache_inv low R (cache_access req c) \<and> (\<exists>log. accounted low c1 low (cache_access req c) {#req#} log) \<and>
    c_pendingInstalls (cache_access req c) = c_pendingInstalls c1"
  proof (cases "findWay (setOf (rq_addr req) c1) (tagOf (rq_addr req) c1) c1")
    case (Some way)
    obtain st where c': "cache_access req c = serve_hit req (setOf (rq_addr req) c1) way (c1\<lparr>c_stats := st\<rparr>)"
      using Some by (simp add: acc Let_def)
    let ?c = "c1\<lparr>c_stats := st\<rparr>"
    have sa': "same_arrays c1 ?c" by (simp add: same_arrays_def)
    note s2 = inv_same [OF sa', simplified]
    note g2 = same_geom_eqs [OF s2(2)] and a2 = same_arrays_eqs [OF sa']
    have sl: "slotOf (lineNo (rq_addr req) ?c) ?c = Some (slot (setOf (rq_addr req) c1) way ?c)"
      using fw(1) Some by (simp add: g2 a2)
    have "cache_inv low R ?c" using i1 s2(1) by simp
    note sh = serve_hit_step [OF this sl]
    have "accounted low c1 low ?c {#} []"
      using s2(2-4) by (simp add: accounted_def after_def responses_def)
    then show ?thesis
      using sh ok(1) accounted_trans unfolding c' by (fastforce simp: g2)
  next
    case None
    then have arr: "arr c1 (lineNo (rq_addr req) c1) = None" using fw(1) by (simp add: arr_None)
    show ?thesis
    proof (cases ?find)
      case (Some i)
      then have i: "i < length (c_wbq c1)" "wb_addr (c_wbq c1 ! i) = lineAddr req c1" by (auto simp: find_Some_iff)
      have "length (c_wbq c1) < unat (cc_wbq (c_cfg c1))" using ok(2) by (simp add: cache_canAccept_def)
      note rs = access_restore_step [OF i1 this ok(1) i]
      have "cache_access req c = access_restore req i c1" using None Some by (simp add: acc)
      then show ?thesis using rs by simp
    next
      case no: None
      then have "\<forall>i < length (c_wbq c1). wb_addr (c_wbq c1 ! i) \<noteq> lineAddr req c1" by (simp add: find_upt_None)
      note ms = access_miss_step [OF i1 ok(2,1) arr this]
      have "cache_access req c = access_miss req c1" using None no by (simp add: acc)
      then show ?thesis using ms by simp
    qed
  qed
  then show ?thesis using accounted_trans [OF free] f(6) by fastforce
qed

section \<open>Refills\<close>

lemma serve_waiting_fold:
  assumes "lines_ok low c" "slotOf ln c = Some (slot sx w c)"
    and "\<forall>v \<in> set ws. req_ok (lineSize c) (w_req v) \<and> lineNo (rq_addr (w_req v)) c = ln"
  shows "\<exists>log. map fst log = map w_req ws \<and> lines_ok low (fold (serve_waiting sx w) ws c) \<and>
    legal c (contents low c) log \<and> contents low (fold (serve_waiting sx w) ws c) = after c log (contents low c) \<and>
    responses (fold (serve_waiting sx w) ws c) = responses c + mset (map snd log) \<and>
    dom (arr (fold (serve_waiting sx w) ws c)) = dom (arr c) \<and> parked (fold (serve_waiting sx w) ws c) = parked c \<and>
    frame c (fold (serve_waiting sx w) ws c)"
  using assms
proof (induction ws arbitrary: c)
  case Nil
  then show ?case by (intro exI [of _ "[]"]) (simp add: after_def frame_def)
next
  case (Cons v ws)
  obtain resp c1 where p: "performOnLine (w_req v) sx w mem_response0 c = (resp, c1)" by fastforce
  have sl: "slotOf (lineNo (rq_addr (w_req v)) c) c = Some (slot sx w c)" and ok: "req_ok (lineSize c) (w_req v)"
    using Cons.prems(2,3) by simp_all
  note s = serve_line [OF Cons.prems(1) sl ok p]
  let ?c2 = "serve_waiting sx w v c"
  have c2: "?c2 = c1\<lparr>c_respQ := c_respQ c1 @ [resp], c_stats := (c_stats c1)\<lparr>cs_latencySum :=
      cs_latencySum (c_stats c1) + (c_tickCount c1 - w_issueTick v + 1)\<rparr>\<rparr>"
    by (simp add: serve_waiting_def p)
  have sa: "same_arrays c1 ?c2" "c_wbq ?c2 = c_wbq c1" by (simp_all add: c2 same_arrays_def)
  note l = lines_ok_same [OF sa] and a = same_arrays_eqs [OF sa(1)]
  have f: "frame c ?c2" using s(6) by (simp add: c2 frame_def same_geom_def)
  then have sg: "same_geom c ?c2" by (simp add: frame_def)
  note g = same_geom_eqs [OF sg]
  have "same_geom c c1" using s(6) by (simp add: frame_def)
  note g1 = same_geom_eqs [OF this]
  have "lines_ok low ?c2" "slotOf ln ?c2 = Some (slot sx w ?c2)"
    "\<forall>v \<in> set ws. req_ok (lineSize ?c2) (w_req v) \<and> lineNo (rq_addr (w_req v)) ?c2 = ln"
    using s(2,5) Cons.prems(2,3) by (simp_all add: l a g1 g(9))
  from Cons.IH [OF this] obtain log where log: "map fst log = map w_req ws"
    "lines_ok low (fold (serve_waiting sx w) ws ?c2)" "legal ?c2 (contents low ?c2) log"
    "contents low (fold (serve_waiting sx w) ws ?c2) = after ?c2 log (contents low ?c2)"
    "responses (fold (serve_waiting sx w) ws ?c2) = responses ?c2 + mset (map snd log)"
    "dom (arr (fold (serve_waiting sx w) ws ?c2)) = dom (arr ?c2)"
    "parked (fold (serve_waiting sx w) ws ?c2) = parked ?c2" "frame ?c2 (fold (serve_waiting sx w) ws ?c2)"
    by blast
  have r: "responses ?c2 = add_mset resp (responses c)"
    using s(8,9) by (simp add: c2 responses_def)
  have d: "dom (arr ?c2) = dom (arr c)" using s(4) a(3) by simp
  have pk: "parked ?c2 = parked c"
  proof -
    have "c_wbq ?c2 = c_wbq c" "c_lineShift ?c2 = c_lineShift c" using sa(2) s(7) sg by (simp_all add: same_geom_def)
    then show ?thesis by (simp add: parked_def g)
  qed
  have ct: "contents low ?c2 = perform_spec c (w_req v) (contents low c)" using s(3) by (simp add: l)
  show ?case
    using log r d pk ct s(1) frame_trans [OF f log(8)]
    by (intro exI [of _ "(w_req v, resp) # log"]) (simp add: g after_def)
qed

lemma refills_subset: "refills_ok low R c \<Longrightarrow> refills_ok low (filter P R) c"
  by (auto simp: refills_ok_def distinct_map_filter)

lemma tryInstall_step:
  assumes "cache_inv low R c" "(x, l) \<in> set R" "tryInstall x l c = (ok, c')"
  shows "if ok then cache_inv low (filter (\<lambda>p. fst p \<noteq> x) R) c' \<and> (\<exists>log. accounted low c low c' {#} log) \<and>
      c_pendingInstalls c' = c_pendingInstalls c else c' = c"
proof -
  have inv: "lines_ok low c" "misses_ok c" "refills_ok low R c" using assms(1) by (simp_all add: cache_inv_def)
  let ?m = "c_mshrs c ! x"
  let ?la = "m_lineAddr ?m"
  let ?ln = "lineNo ?la c"
  have x: "x < length (c_mshrs c)" "m_valid ?m" "length l = kMaxLineBytes" "take (2 ^ c_lineShift c) l = low ?ln"
    using assms(2) inv(3) by (auto simp: refills_ok_def)
  note ml = mshr_lines [OF inv(2) x(1,2)]
  obtain ok' sx w c1 where i: "installLine ?la l False c = (ok', sx, w, c1)" by (metis prod_cases4)
  show ?thesis
  proof (cases ok')
    case False
    then have "c1 = c" using i by (auto simp: installLine_def Let_def split: if_splits)
    then show ?thesis using assms(3) False i by (simp add: tryInstall_def Let_def)
  next
    case True
    note i' = i [unfolded True eqTrueI [OF True]]
    have i2: "installLine ?la l False c = (True, sx, w, c1)" using i True by simp
    define ws where "ws = filter (\<lambda>e. lineNo (wb_addr e) c \<noteq> ?ln) (c_wbq c1)"
    have lo: "False \<or> low ?ln = take (2 ^ c_lineShift c) l" using x(4) by simp
    note il = install_lines [OF inv(1) ml(1) x(3) i2 lo ws_def]
    have "c1\<lparr>c_wbq := ws\<rparr> = c1" using install_fresh [OF inv(1) ml(1) x(3) i2 lo ml(2)] by (simp add: ws_def)
    note il = il [unfolded this]
    have ct1: "contents low c1 = contents low c"
      using il(2) ml(1,2) x(4) by (intro ext) (simp add: contents_def)
    have sg1: "same_geom c c1" using il(4) by (simp add: frame_def)
    note g1 = same_geom_eqs [OF sg1]
    define c2 where "c2 = c1\<lparr>c_stats := (c_stats c1)\<lparr>cs_bytesRead := cs_bytesRead (c_stats c1) + ucast (lineSize c1)\<rparr>\<rparr>"
    have sa: "same_arrays c1 c2" "c_wbq c2 = c_wbq c1" by (simp_all add: c2_def same_arrays_def)
    note l2 = lines_ok_same [OF sa] and a2 = same_arrays_eqs [OF sa(1)]
    have f2: "frame c c2" using il(4) by (simp add: c2_def frame_def same_geom_def)
    then have sg2: "same_geom c c2" by (simp add: frame_def)
    note g2 = same_geom_eqs [OF sg2]
    have wok: "\<forall>v \<in> set (m_waiting ?m). req_ok (lineSize c2) (w_req v) \<and> lineNo (rq_addr (w_req v)) c2 = ?ln"
      using inv(2) x(1,2) unfolding g2 misses_ok_def mshr_ok_def by auto
    have "lines_ok low c2" "slotOf ?ln c2 = Some (slot sx w c2)" using il(1,3) by (simp_all add: l2 a2)
    from serve_waiting_fold [OF this wok] obtain log where log: "map fst log = map w_req (m_waiting ?m)"
      "lines_ok low (fold (serve_waiting sx w) (m_waiting ?m) c2)" "legal c2 (contents low c2) log"
      "contents low (fold (serve_waiting sx w) (m_waiting ?m) c2) = after c2 log (contents low c2)"
      "responses (fold (serve_waiting sx w) (m_waiting ?m) c2) = responses c2 + mset (map snd log)"
      "dom (arr (fold (serve_waiting sx w) (m_waiting ?m) c2)) = dom (arr c2)"
      "parked (fold (serve_waiting sx w) (m_waiting ?m) c2) = parked c2"
      "frame c2 (fold (serve_waiting sx w) (m_waiting ?m) c2)"
      by blast
    define c3 where "c3 = fold (serve_waiting sx w) (m_waiting ?m) c2"
    have f3: "frame c c3" using frame_trans [OF f2 log(8)] by (simp add: c3_def)
    then have fe: "c_mshrs c3 = c_mshrs c" "c_pendingMisses c3 = c_pendingMisses c"
      "c_pendingInstalls c3 = c_pendingInstalls c" "same_geom c c3" by (simp_all add: frame_def)
    have c': "ok" "c' = c3\<lparr>c_mshrs := (c_mshrs c)[x := mshr0], c_pendingMisses := c_pendingMisses c - 1\<rparr>"
      using assms(3) i2 fe by (simp_all add: tryInstall_def Let_def c2_def [symmetric] c3_def [symmetric])
    define c0 where "c0 = c\<lparr>c_mshrs := (c_mshrs c)[x := mshr0], c_pendingMisses := c_pendingMisses c - 1\<rparr>"
    have "0 < length (filter m_valid (c_mshrs c))" using x(1,2) by (auto simp: filter_empty_conv)
    then have pos: "0 < unat (c_pendingMisses c)" using inv(2) by (simp add: misses_ok_def)
    then have "c_pendingMisses c \<noteq> 0" by auto
    then have pm: "unat (c_pendingMisses c - 1) + (if m_valid ?m then 1 else 0) =
        unat (c_pendingMisses c) + (if m_valid mshr0 then 1 else 0)"
      using x(2) pos unat_pred32 [of "c_pendingMisses c"] by (simp add: mshr0_def)
    have ok0: "mshr_ok c mshr0" by (simp add: mshr_ok_def mshr0_def)
    have nv: "m_valid mshr0 \<Longrightarrow> P" for P by (simp add: mshr0_def)
    note sm = set_mshr [OF inv(2) x(1) ok0 nv pm, folded c0_def]
    have f: "frame c0 c'" using f3 by (simp add: c' c0_def frame_def same_geom_def)
    have sa3: "same_arrays c3 c'" "c_wbq c' = c_wbq c3" by (simp_all add: c' same_arrays_def)
    note l3 = lines_ok_same [OF sa3] and a3 = same_arrays_eqs [OF sa3(1)]
    note g0 = same_geom_eqs [OF sm(4)]
    have out: "arr c' (lineNo (m_lineAddr (c_mshrs c0 ! y)) c0) = None \<and> parked c' (lineNo (m_lineAddr (c_mshrs c0 ! y)) c0) = None"
      if y: "y < length (c_mshrs c0)" "m_valid (c_mshrs c0 ! y)" for y
    proof -
      have yx: "y \<noteq> x" using y x(1) by (auto simp: c0_def mshr0_def)
      then have ym: "c_mshrs c0 ! y = c_mshrs c ! y" "y < length (c_mshrs c)" "m_valid (c_mshrs c ! y)"
        using y by (simp_all add: c0_def)
      note yl = mshr_lines [OF inv(2) ym(2,3)]
      have "lineNo (m_lineAddr (c_mshrs c ! y)) c \<noteq> ?ln"
      proof
        assume "lineNo (m_lineAddr (c_mshrs c ! y)) c = ?ln"
        then have "m_lineAddr (c_mshrs c ! y) = ?la" by (rule aligned_lineNo_inj [OF yl(3) ml(3)])
        then show False using inv(2) x(1,2) ym yx by (auto simp: misses_ok_def)
      qed
      then have "arr c1 (lineNo (m_lineAddr (c_mshrs c ! y)) c) = None \<and> parked c1 (lineNo (m_lineAddr (c_mshrs c ! y)) c) = None"
        using il(10) yl(1,2) by blast
      moreover have dp: "dom (arr c') = dom (arr c1)" "parked c' = parked c1"
        unfolding a3(3) l3(3) c3_def log(6,7) a2(3) l2(3) by (rule refl)+
      have "arr c' k = None \<longleftrightarrow> arr c1 k = None" for k using dp(1) domIff by metis
      ultimately show ?thesis by (simp only: ym(1) g0 dp(2))
    qed
    have m': "misses_ok c'" by (rule misses_frame(1) [OF f sm(1) out])
    have "refills_ok low (filter (\<lambda>p. fst p \<noteq> x) R) c'"
      using fe(4) by (intro refills_cong [OF refills_subset [OF inv(3)]]) (auto simp: c' same_geom_def)
    then have "cache_inv low (filter (\<lambda>p. fst p \<noteq> x) R) c'"
      using m' log(2) by (simp add: cache_inv_def l3 c3_def)
    moreover have "accounted low c low c' {#} log"
    proof -
      have sg': "same_geom c c'" using fe(4) by (simp add: c' same_geom_def)
      have "responses c2 = responses c" using il(7,8) by (simp add: c2_def responses_def)
      moreover have "responses c' = responses c3" by (simp add: c' responses_def)
      moreover have "pending c' = pending c0" by (rule frame_pending [OF f])
      moreover have "contents low c2 = contents low c" using ct1 by (simp add: l2)
      ultimately show ?thesis
        using sg' log(1,3-5) sm(8) by (simp add: accounted_def g2 l3 c3_def mshr0_def)
    qed
    ultimately show ?thesis using c' fe(3) by auto
  qed
qed

text \<open>The refills that wait for room in the writeback queue, as pairs.\<close>

definition installs :: "pending_install list \<Rightarrow> (nat \<times> line) list" where
  "installs ps = map (\<lambda>p. (unat (pi_mshrIdx p), pi_line p)) ps"

lemma accounted_refl: "accounted low c low c {#} []"
  by (simp add: accounted_def after_def)

lemma inv_installs:
  shows "cache_inv low R (c\<lparr>c_pendingInstalls := ps\<rparr>) = cache_inv low R c"
    and "accounted low c low' (c'\<lparr>c_pendingInstalls := ps\<rparr>) acc log = accounted low c low' c' acc log"
proof -
  show "cache_inv low R (c\<lparr>c_pendingInstalls := ps\<rparr>) = cache_inv low R c"
    by (rule inv_same(1)) (simp_all add: same_arrays_def)
  have "contents low' (c'\<lparr>c_pendingInstalls := ps\<rparr>) = contents low' c'"
    by (rule lines_ok_same(2)) (simp_all add: same_arrays_def)
  then show "accounted low c low' (c'\<lparr>c_pendingInstalls := ps\<rparr>) acc log = accounted low c low' c' acc log"
    by (simp add: accounted_def responses_def pending_def same_geom_def)
qed

lemma accounted_installs: "\<exists>log. accounted low c low (c\<lparr>c_pendingInstalls := ps\<rparr>) {#} log"
  using accounted_refl [of low c] by (intro exI [of _ "[]"]) (simp add: inv_installs(2))

lemma filter_key:
  assumes "distinct (map fst ((x, l) # R))"
  shows "filter (\<lambda>p. fst p \<noteq> x) ((x, l) # R) = R"
proof -
  have "x \<notin> fst ` set R" using assms by simp
  then have "\<forall>p \<in> set R. fst p \<noteq> x" by force
  then show ?thesis by simp
qed

lemma inv_distinct: "cache_inv low R c \<Longrightarrow> distinct (map fst R)"
  by (simp add: cache_inv_def refills_ok_def)

lemma install_pending_step:
  assumes "cache_inv low (installs ps @ infl) c"
  shows "let c' = install_pending ps c in
    cache_inv low (installs (c_pendingInstalls c') @ infl) c' \<and> (\<exists>log. accounted low c low c' {#} log)"
  using assms
proof (induction ps arbitrary: c)
  case Nil
  then show ?case using accounted_installs by (simp add: installs_def Let_def inv_installs(1))
next
  case (Cons p ps)
  let ?x = "unat (pi_mshrIdx p)"
  obtain ok c1 where t: "tryInstall ?x (pi_line p) c = (ok, c1)" by fastforce
  have R: "installs (p # ps) @ infl = (?x, pi_line p) # (installs ps @ infl)" by (simp add: installs_def)
  have "filter (\<lambda>q. fst q \<noteq> ?x) (installs (p # ps) @ infl) = installs ps @ infl"
    unfolding R by (rule filter_key) (use inv_distinct [OF Cons.prems] in \<open>simp only: R\<close>)
  note step = tryInstall_step [OF Cons.prems _ t, unfolded this]
  show ?case
  proof (cases ok)
    case True
    then have "cache_inv low (installs ps @ infl) c1" "\<exists>log. accounted low c low c1 {#} log"
      using step by (simp_all add: R)
    then show ?thesis
      using Cons.IH [of c1] True t accounted_trans by (fastforce simp: Let_def)
  next
    case False
    then have "c1 = c" using step by (simp add: R)
    then show ?thesis using False t Cons.prems accounted_installs by (simp add: Let_def inv_installs(1))
  qed
qed

lemma refills_mset:
  assumes "mset R = mset R'"
  shows "refills_ok low R c = refills_ok low R' c" "cache_inv low R c = cache_inv low R' c"
proof -
  have "mset (map fst R) = mset (map fst R')" using assms by simp
  then have "distinct (map fst R) = distinct (map fst R')" by (rule mset_eq_imp_distinct_iff)
  moreover have "set R = set R'" using assms by (metis set_mset_mset)
  ultimately show "refills_ok low R c = refills_ok low R' c" by (simp add: refills_ok_def)
  then show "cache_inv low R c = cache_inv low R' c" by (simp add: cache_inv_def)
qed

text \<open>The answer to a refill request; the answer to a writeback is dropped.\<close>

lemma deliver_step:
  assumes "cache_inv low (installs (c_pendingInstalls c) @ infl) c" "(x, l) \<in> set infl"
    and "rs_tag r = word_of_nat x" "rs_rline r = l"
  shows "let c' = deliverBelowResponse r c in
    cache_inv low (installs (c_pendingInstalls c') @ remove1 (x, l) infl) c' \<and> (\<exists>log. accounted low c low c' {#} log)"
proof -
  let ?R = "installs (c_pendingInstalls c) @ infl" and ?R' = "installs (c_pendingInstalls c) @ remove1 (x, l) infl"
  have x: "x < 2 ^ 32"
  proof -
    have "x < length (c_mshrs c)" "length (c_mshrs c) < 2 ^ 32"
      using assms(1,2) by (auto simp: cache_inv_def refills_ok_def misses_ok_def)
    then show ?thesis by linarith
  qed
  have "unat (word_of_nat x :: u64) = x" using x by (simp add: unsigned_of_nat take_bit_nat_eq_self)
  moreover have "unat kWbTag = 2 ^ 64 - 1"
    by (simp add: kWbTag_def unsigned_minus_1_eq_mask mask_eq_exp_minus_1)
  ultimately have "(word_of_nat x :: u64) \<noteq> kWbTag" using x by auto
  moreover have u: "unat (ucast (word_of_nat x :: u64) :: u32) = x"
    using x \<open>unat (word_of_nat x :: u64) = x\<close> by (simp add: unsigned_ucast_eq take_bit_nat_eq_self)
  moreover obtain ok c1 where t: "tryInstall x l c = (ok, c1)" by fastforce
  ultimately have c': "deliverBelowResponse r c = (if ok then c1
      else c1\<lparr>c_pendingInstalls := c_pendingInstalls c1 @ [\<lparr>pi_mshrIdx = ucast (rs_tag r), pi_line = l\<rparr>]\<rparr>)"
    using assms(3,4) by (simp add: deliverBelowResponse_def Let_def)
  have perm: "mset ?R = mset ((x, l) # ?R')" using assms(2) by simp
  have inv: "cache_inv low ((x, l) # ?R') c" using assms(1) refills_mset(2) [OF perm] by simp
  have "filter (\<lambda>p. fst p \<noteq> x) ((x, l) # ?R') = ?R'" by (rule filter_key [OF inv_distinct [OF inv]])
  note step = tryInstall_step [OF inv _ t, unfolded this]
  show ?thesis
  proof (cases ok)
    case True
    then show ?thesis using step by (simp add: c' Let_def)
  next
    case False
    then have "c1 = c" using step by simp
    moreover have "mset ((x, l) # ?R') = mset (installs (c_pendingInstalls c @ [\<lparr>pi_mshrIdx = ucast (rs_tag r), pi_line = l\<rparr>])
        @ remove1 (x, l) infl)"
      using u assms(3) by (simp add: installs_def)
    note refills_mset(2) [OF this, of low c]
    ultimately show ?thesis
      using False inv accounted_installs by (simp add: c' Let_def inv_installs(1))
  qed
qed

section \<open>A cycle\<close>

text \<open>What the level below makes of a request: a line write, or a refill on its way.\<close>

definition below_lines :: "cache \<Rightarrow> mem_request option \<Rightarrow> lines \<Rightarrow> lines" where
  "below_lines c out low =
     (case out of None \<Rightarrow> low
      | Some q \<Rightarrow> if rq_isWrite q then low(lineNo (rq_addr q) c := take (2 ^ c_lineShift c) (rq_wline q)) else low)"

definition below_refills :: "cache \<Rightarrow> mem_request option \<Rightarrow> lines \<Rightarrow> (nat \<times> line) list" where
  "below_refills c out low =
     (case out of None \<Rightarrow> []
      | Some q \<Rightarrow> if rq_isWrite q then [] else [(unat (rq_tag q), blit 0 (low (lineNo (rq_addr q) c)) blank_line)])"

text \<open>A request to the level below is for a whole line.\<close>

definition line_request :: "cache \<Rightarrow> mem_request \<Rightarrow> bool" where
  "line_request c q \<longleftrightarrow> 2 ^ c_lineShift c dvd unat (rq_addr q) \<and> rq_size q = lineSize c \<and>
     length (rq_wline q) = kMaxLineBytes"

lemma send_below_step:
  assumes "cache_inv low R c" "\<forall>ln. length (low ln) = 2 ^ c_lineShift c" "send_below ready c = (c', out)"
  shows "cache_inv (below_lines c out low) (R @ below_refills c out low) c'"
    "accounted low c (below_lines c out low) c' {#} []" "c_pendingInstalls c' = c_pendingInstalls c"
    "\<And>q. out = Some q \<Longrightarrow> line_request c q \<and> ready"
proof -
  let ?L = "(2 :: nat) ^ c_lineShift c"
  have inv: "lines_ok low c" "misses_ok c" "refills_ok low R c" using assms(1) by (simp_all add: cache_inv_def)
  have g: "geom c" using inv(1) by (simp add: lines_ok_def)
  let ?refill = "find (\<lambda>i. m_valid (c_mshrs c ! i) \<and> \<not> m_refillSent (c_mshrs c ! i)) [0..<length (c_mshrs c)]"
  define wr where "wr = mem_request0\<lparr>rq_addr := wb_addr (hd (c_wbq c)), rq_size := lineSize c, rq_isWrite := True,
      rq_wline := wb_line (hd (c_wbq c)), rq_src := c_srcId c, rq_tag := kWbTag\<rparr>"
  define rq where "rq i = mem_request0\<lparr>rq_addr := m_lineAddr (c_mshrs c ! i), rq_size := lineSize c,
      rq_src := c_srcId c, rq_tag := word_of_nat i\<rparr>" for i
  have send: "send_below ready c =
      (if (c_pendingMisses c \<noteq> 0 \<or> c_wbq c \<noteq> []) \<and> ready
       then if c_wbq c \<noteq> [] \<and> (unat (cc_wbq (c_cfg c)) \<le> length (c_wbq c) \<or> ?refill = None)
            then (c\<lparr>c_wbq := tl (c_wbq c), c_stats := (c_stats c)
                     \<lparr>cs_bytesWritten := cs_bytesWritten (c_stats c) + ucast (lineSize c)\<rparr>\<rparr>, Some wr)
            else case ?refill of None \<Rightarrow> (c, None)
                 | Some i \<Rightarrow> (c\<lparr>c_mshrs := (c_mshrs c)[i := (c_mshrs c ! i)\<lparr>m_refillSent := True\<rparr>]\<rparr>, Some (rq i))
       else (c, None))"
    by (simp only: send_below_def Let_def wr_def rq_def)
  consider (none) "c' = c" "out = None"
    | (wb) st where "ready" "c_wbq c \<noteq> []" "c' = c\<lparr>c_wbq := tl (c_wbq c), c_stats := st\<rparr>" "out = Some wr"
    | (rd) i where "ready" "?refill = Some i"
        "c' = c\<lparr>c_mshrs := (c_mshrs c)[i := (c_mshrs c ! i)\<lparr>m_refillSent := True\<rparr>]\<rparr>" "out = Some (rq i)"
  proof (cases "(c_pendingMisses c \<noteq> 0 \<or> c_wbq c \<noteq> []) \<and> ready")
    case False
    then show thesis using assms(3) none unfolding send if_not_P [OF False] by simp
  next
    case True
    show thesis
    proof (cases "c_wbq c \<noteq> [] \<and> (unat (cc_wbq (c_cfg c)) \<le> length (c_wbq c) \<or> ?refill = None)")
      case w: True
      have "(c', out) = (c\<lparr>c_wbq := tl (c_wbq c), c_stats := (c_stats c)
          \<lparr>cs_bytesWritten := cs_bytesWritten (c_stats c) + ucast (lineSize c)\<rparr>\<rparr>, Some wr)"
        using assms(3) unfolding send if_P [OF True] if_P [OF w] by (rule sym)
      then show thesis using True w by (intro wb) (simp_all only: prod.inject simp_thms)
    next
      case nw: False
      note s = assms(3) [unfolded send if_P [OF True] if_not_P [OF nw], symmetric]
      show thesis
      proof (cases ?refill)
        case None
        then show thesis using s none by (simp only: option.case prod.inject)
      next
        case (Some i)
        then show thesis using s True by (intro rd [of i]) (simp_all only: option.case prod.inject simp_thms)
      qed
    qed
  qed
  then have "cache_inv (below_lines c out low) (R @ below_refills c out low) c' \<and>
    accounted low c (below_lines c out low) c' {#} [] \<and> c_pendingInstalls c' = c_pendingInstalls c \<and>
    (\<forall>q. out = Some q \<longrightarrow> line_request c q \<and> ready)"
  proof cases
    case none
    then show ?thesis using assms(1) accounted_refl by (simp add: below_lines_def below_refills_def)
  next
    case wb
    let ?e = "hd (c_wbq c)" and ?ws = "tl (c_wbq c)"
    let ?k = "lineNo (wb_addr ?e) c"
    have q: "c_wbq c = ?e # ?ws" using wb(2) by simp
    have e: "?L dvd unat (wb_addr ?e)" "length (wb_line ?e) = kMaxLineBytes" "arr c ?k = None"
      using inv(1) wb(2) by (simp_all add: lines_ok_def)
    have low': "below_lines c out low = low(?k := take ?L (wb_line ?e))" "below_refills c out low = []"
      by (simp_all add: wb(4) wr_def below_lines_def below_refills_def)
    have sa: "same_arrays c c'" and fr: "frame c c'" and wq: "c_wbq c' = ?ws"
      by (subst wb(3), simp add: same_arrays_def frame_def same_geom_def)+
    note a = same_arrays_eqs [OF sa]
    have sg: "same_geom c c'" using fr by (simp add: frame_def)
    note ge = same_geom_eqs [OF sg]
    have L: "c_lineShift c' = c_lineShift c" using sg by (simp add: same_geom_def)
    have dist: "?k \<notin> (\<lambda>e. lineNo (wb_addr e) c) ` set ?ws"
    proof -
      have "distinct (map (\<lambda>e. lineNo (wb_addr e) c) (c_wbq c))" using inv(1) by (simp only: lines_ok_def)
      then have "distinct (map (\<lambda>e. lineNo (wb_addr e) c) (?e # ?ws))" by (simp only: q [symmetric])
      then show ?thesis by (simp only: list.map distinct.simps list.set_map simp_thms)
    qed
    have pk: "parked c = (\<lambda>ln. if ln = ?k then Some (take ?L (wb_line ?e)) else parked c' ln)"
      unfolding parked_def ge L wq by (subst q) (auto simp: fun_upd_def)
    have pk0: "parked c' ?k = None" using dist unfolding parked_None ge wq by (metis (mono_tags, lifting) imageI)
    have "lines_ok (low(?k := take ?L (wb_line ?e))) c'"
    proof -
      have "distinct (map (\<lambda>e. lineNo (wb_addr e) c) ?ws)" "set ?ws \<subseteq> set (c_wbq c)"
        using inv(1) q unfolding lines_ok_def by (metis distinct.simps(2) list.simps(9), metis set_subset_Cons)
      then show ?thesis using inv(1) e(3) unfolding lines_ok_def a ge L wq by auto
    qed
    moreover have "misses_ok c'" "refills_ok (low(?k := take ?L (wb_line ?e))) R c' = refills_ok (low(?k := take ?L (wb_line ?e))) R c"
    proof -
      have "parked c' ln = None" if "parked c ln = None" for ln
        using that fun_cong [OF pk, of ln] by (simp split: if_splits)
      then have none: "arr c' (lineNo (m_lineAddr (c_mshrs c ! x)) c) = None \<and>
          parked c' (lineNo (m_lineAddr (c_mshrs c ! x)) c) = None"
        if "x < length (c_mshrs c)" "m_valid (c_mshrs c ! x)" for x
        using mshr_lines(1,2) [OF inv(2) that] by (simp add: a(3))
      show "misses_ok c'" "refills_ok (low(?k := take ?L (wb_line ?e))) R c' = refills_ok (low(?k := take ?L (wb_line ?e))) R c"
        using misses_frame [OF fr inv(2) none] by blast+
    qed
    moreover have "refills_ok (low(?k := take ?L (wb_line ?e))) R c"
    proof -
      have "lineNo (m_lineAddr (c_mshrs c ! x)) c \<noteq> ?k" if "(x, l) \<in> set R" for x l
      proof -
        have "x < length (c_mshrs c)" "m_valid (c_mshrs c ! x)" using inv(3) that by (auto simp: refills_ok_def)
        then show ?thesis using mshr_lines(2) [OF inv(2)] pk by (metis option.distinct(1))
      qed
      then show ?thesis using inv(3) by (fastforce simp: refills_ok_def)
    qed
    moreover have "contents (low(?k := take ?L (wb_line ?e))) c' = contents low c"
    proof
      fix ln
      show "contents (low(?k := take ?L (wb_line ?e))) c' ln = contents low c ln"
      proof (cases "ln = ?k")
        case True
        then show ?thesis using e(3) pk0 by (simp add: contents_def a(3) pk)
      next
        case False
        then have "parked c' ln = parked c ln" by (simp add: pk)
        then show ?thesis using False by (simp add: contents_def a(3) split: option.split prod.split)
      qed
    qed
    moreover have "responses c' = responses c" by (subst wb(3)) (simp add: responses_def)
    moreover have "\<forall>q. out = Some q \<longrightarrow> line_request c q \<and> ready"
      using wb(1) e(1,2) by (simp add: wb(4) wr_def line_request_def)
    ultimately show ?thesis
      using frame_pending [OF fr] sg fr unfolding low' append_Nil2
      by (simp add: cache_inv_def accounted_def after_def frame_def)
  next
    case (rd i)
    let ?m = "c_mshrs c ! i"
    let ?k = "lineNo (m_lineAddr ?m) c"
    have i: "i < length (c_mshrs c)" "m_valid ?m" "\<not> m_refillSent ?m" using rd(2) by (auto simp: find_Some_iff)
    note ml = mshr_lines [OF inv(2) i(1,2)]
    let ?m' = "?m\<lparr>m_refillSent := True\<rparr>"
    have ok: "mshr_ok c ?m'" using inv(2) i by (auto simp: misses_ok_def mshr_ok_def)
    have others: "\<forall>y < length (c_mshrs c). y \<noteq> i \<longrightarrow> m_valid (c_mshrs c ! y) \<longrightarrow> m_lineAddr (c_mshrs c ! y) \<noteq> m_lineAddr ?m'"
      using inv(2) i by (auto simp: misses_ok_def)
    have c': "c' = c\<lparr>c_mshrs := (c_mshrs c)[i := ?m'], c_pendingMisses := c_pendingMisses c\<rparr>" by (simp add: rd(3))
    note sm = set_mshr [OF inv(2) i(1) ok others, of "c_pendingMisses c", folded c', simplified]
    have "length (c_mshrs c) < 2 ^ 32" using inv(2) by (simp add: misses_ok_def)
    then have len: "i < 2 ^ 64" using i(1) by simp
    then have u: "unat (word_of_nat i :: u64) = i" by (simp add: unsigned_of_nat take_bit_nat_eq_self)
    have low': "below_lines c out low = low" "below_refills c out low = [(i, blit 0 (low ?k) blank_line)]"
      using u by (simp_all add: rd(4) rq_def below_lines_def below_refills_def mem_request0_def)
    have new: "i \<noteq> x" if "(x, l) \<in> set R" for x l using inv(3) i(3) that by (auto simp: refills_ok_def)
    have R1: "refills_ok low R c'" using new
      by (intro refills_cong [OF inv(3) sm(4)]) (simp_all add: rd(3))
    have ll: "length (low ?k) = ?L" "?L \<le> 2 ^ 7"
      using assms(2) g unfolding geom_def by (simp, intro power_increasing) simp_all
    have "refills_ok low (R @ [(i, blit 0 (low ?k) blank_line)]) c'"
    proof -
      have "i \<notin> fst ` set R" using new by force
      moreover have "m_valid (c_mshrs c' ! i)" "m_refillSent (c_mshrs c' ! i)" "m_lineAddr (c_mshrs c' ! i) = m_lineAddr ?m"
        "length (c_mshrs c') = length (c_mshrs c)" "c_lineShift c' = c_lineShift c" "lineNo a c' = lineNo a c" for a
        using i(1,2) sm(4) by (simp_all add: rd(3) same_geom_def lineNo_def)
      ultimately show ?thesis
        using R1 i(1) ll unfolding refills_ok_def
        by (simp add: blit_def blank_line_def kMaxLineBytes_def)
    qed
    then have "cache_inv low (R @ [(i, blit 0 (low ?k) blank_line)]) c'"
      using sm(1,2) inv(1) by (simp add: cache_inv_def)
    moreover have "accounted low c low c' {#} []" using sm(3-5,8) by (simp add: accounted_def after_def)
    moreover have "\<forall>q. out = Some q \<longrightarrow> line_request c q \<and> ready"
      using ml(3) rd(1) by (simp add: rd(4) rq_def line_request_def mem_request0_def blank_line_def kMaxLineBytes_def)
    moreover have "c_pendingInstalls c' = c_pendingInstalls c" by (simp add: rd(3))
    ultimately show ?thesis unfolding low' by (intro conjI)
  qed
  then show "cache_inv (below_lines c out low) (R @ below_refills c out low) c'"
    "accounted low c (below_lines c out low) c' {#} []" "c_pendingInstalls c' = c_pendingInstalls c"
    "\<And>q. out = Some q \<Longrightarrow> line_request c q \<and> ready"
    by blast+
qed

lemma tick_step:
  assumes "cache_inv low (installs (c_pendingInstalls c) @ infl) c" "\<forall>ln. length (low ln) = 2 ^ c_lineShift c"
    and "cache_tick ready c = (c', out)"
  shows "cache_inv (below_lines c out low) (installs (c_pendingInstalls c') @ infl @ below_refills c out low) c'"
    "\<exists>log. accounted low c (below_lines c out low) c' {#} log" "\<And>q. out = Some q \<Longrightarrow> line_request c q \<and> ready"
proof -
  define c1 where "c1 = c\<lparr>c_tickCount := c_tickCount c + 1\<rparr>"
  obtain ts q where d: "drain_ready (c_tickCount c1) (c_hitPipe c1) (c_respQ c1) = (ts, q)" by fastforce
  define c2 where "c2 = c1\<lparr>c_hitPipe := ts, c_respQ := q\<rparr>"
  define c3 where "c3 = install_pending (c_pendingInstalls c1) c2"
  obtain c4 out' where s4: "send_below ready c3 = (c4, out')" by fastforce
  obtain st where c': "c' = c4\<lparr>c_stats := st\<rparr>" and out: "out' = out"
    using assms(3) by (fastforce simp: cache_tick_def Let_def c1_def [symmetric] d c2_def [symmetric] c3_def [symmetric] s4)
  have sa: "same_arrays c c2" "c_wbq c2 = c_wbq c" "c_mshrs c2 = c_mshrs c" "c_pendingMisses c2 = c_pendingMisses c"
    by (simp_all add: same_arrays_def c2_def c1_def)
  note s2 = inv_same [OF sa]
  have "responses c2 = responses c"
  proof -
    have "q @ map x_resp ts = c_respQ c @ map x_resp (c_hitPipe c)"
      using drain_ready_queue [OF d] by (simp add: c1_def)
    then have "mset (q @ map x_resp ts) = mset (c_respQ c @ map x_resp (c_hitPipe c))" by simp
    then show ?thesis by (simp add: responses_def c2_def)
  qed
  then have a2: "accounted low c low c2 {#} []" using s2(2-4) by (simp add: accounted_def after_def)
  have i2: "cache_inv low (installs (c_pendingInstalls c1) @ infl) c2" using assms(1) s2(1) by (simp add: c1_def)
  obtain log where i3: "cache_inv low (installs (c_pendingInstalls c3) @ infl) c3" and a3: "accounted low c2 low c3 {#} log"
    using install_pending_step [OF i2] by (auto simp: Let_def c3_def)
  note a23 = accounted_trans [OF a2 a3]
  have sg: "same_geom c c3" using a23 by (simp add: accounted_def)
  have L: "c_lineShift c3 = c_lineShift c" using sg by (simp add: same_geom_def)
  have low: "\<forall>ln. length (low ln) = 2 ^ c_lineShift c3" using assms(2) by (simp add: L)
  have bl: "below_lines c3 out low = below_lines c out low" "below_refills c3 out low = below_refills c out low"
    using same_geom_eqs(1) [OF sg] by (simp_all add: below_lines_def below_refills_def L split: option.split)
  note s = send_below_step [OF i3 low s4, unfolded out bl]
  have sa4: "same_arrays c4 c'" by (simp add: c' same_arrays_def)
  have "accounted low c (below_lines c out low) c4 {#} (log @ [])"
    using accounted_trans [OF a23 s(2)] by simp
  moreover have "contents (below_lines c out low) c' = contents (below_lines c out low) c4"
    by (rule lines_ok_same(2) [OF sa4]) (simp add: c')
  ultimately show "\<exists>log. accounted low c (below_lines c out low) c' {#} log"
    by (intro exI [of _ "log @ []"]) (simp add: accounted_def c' responses_def pending_def same_geom_def)
  have "cache_inv (below_lines c out low) ((installs (c_pendingInstalls c3) @ infl) @ below_refills c out low) c'"
    using s(1) inv_same(1) [OF sa4] by (simp add: c')
  then show "cache_inv (below_lines c out low) (installs (c_pendingInstalls c') @ infl @ below_refills c out low) c'"
    using s(3) by (simp add: c')
  show "line_request c q \<and> ready" if "out = Some q" for q
    using s(4) [OF that] same_geom_eqs(9) [OF sg] by (simp add: line_request_def L)
qed

section \<open>The initial state\<close>

lemma countr_zero_val:
  assumes "unat w = 2 ^ k"
  shows "countr_zero w = k"
proof -
  have k: "k < 32"
  proof -
    have "(2 :: nat) ^ k < 2 ^ 32" using unat_less_pow32 [of w] assms by simp
    then show ?thesis by (rule power_less_imp_less_exp [rotated]) simp
  qed
  have "word_of_nat (unat w) = w" by simp
  then have w: "w = 2 ^ k" using assms by simp
  have b: "bit w i \<longleftrightarrow> i = k" for i using k by (auto simp: w bit_simps)
  have "[0..<32] = [0..<k] @ [k..<32]" using k upt_add_eq_append [of 0 k "32 - k"] by simp
  also have "[k..<32] = k # [Suc k..<32]" using k by (rule upt_conv_Cons)
  finally have "takeWhile (\<lambda>i. \<not> bit w i) [0..<32] = [0..<k]" by (simp add: b takeWhile_append)
  then show ?thesis by (simp add: countr_zero_def)
qed

lemma cache_new_geom:
  assumes "cache_ok cfg" "8 \<le> unat (cc_lineBytes cfg)"
  shows "geom (cache_new cfg srcId)" "unat (lineSize (cache_new cfg srcId)) = unat (cc_lineBytes cfg)"
    "2 ^ c_lineShift (cache_new cfg srcId) = unat (cc_lineBytes cfg)"
proof -
  let ?c = "cache_new cfg srcId" and ?sets = "cc_sizeBytes cfg div (cc_lineBytes cfg * cc_ways cfg)"
  obtain lb sb where lb: "lb \<le> 7" "unat (cc_lineBytes cfg) = 2 ^ lb" and sb: "unat ?sets = 2 ^ sb"
    and prod: "unat (cc_lineBytes cfg * cc_ways cfg) = unat (cc_lineBytes cfg) * unat (cc_ways cfg)"
    and ways: "cc_ways cfg \<noteq> 0"
    using assms(1) by (auto simp: cache_ok_def)
  have f: "c_lineShift ?c = lb" "c_tagShift ?c = lb + sb" "c_sets ?c = ?sets" "lineSize ?c = cc_lineBytes cfg"
    "cc_ways (c_cfg ?c) = cc_ways cfg"
    using countr_zero_val [OF lb(2)] countr_zero_val [OF sb] by (simp_all add: cache_new_def Let_def)
  then show "unat (lineSize ?c) = unat (cc_lineBytes cfg)" "2 ^ c_lineShift ?c = unat (cc_lineBytes cfg)"
    using lb(2) by simp_all
  have n: "nslots ?c = 2 ^ sb * unat (cc_ways cfg)" by (simp add: nslots_def f)
  have "(2 :: nat) ^ 3 \<le> 2 ^ lb" using assms(2) lb(2) by simp
  then have "3 \<le> lb" by (rule power_le_imp_le_exp [rotated]) simp
  moreover have "nslots ?c * 2 ^ lb < 2 ^ 32"
  proof -
    have "unat ?sets * unat (cc_lineBytes cfg * cc_ways cfg) \<le> unat (cc_sizeBytes cfg)"
      by (simp add: unat_div)
    then have "nslots ?c * 2 ^ lb \<le> unat (cc_sizeBytes cfg)"
      by (simp add: n prod lb(2) sb ac_simps)
    then show ?thesis using unat_less_pow32 [of "cc_sizeBytes cfg"] by simp
  qed
  moreover have "length (c_tags ?c) = nslots ?c" "length (c_dirty ?c) = nslots ?c" "length (c_data ?c) = nslots ?c * 2 ^ lb"
    unfolding n using sb lb(2) by (simp_all add: cache_new_def Let_def)
  moreover have "0 < unat (cc_ways cfg)" using ways by (rule word_neq_0_less)
  ultimately show "geom ?c" using lb sb unfolding geom_def f by simp
qed

lemma cache_new_inv:
  assumes "cache_ok cfg" "8 \<le> unat (cc_lineBytes cfg)"
  shows "cache_inv low [] (cache_new cfg srcId)" "contents low (cache_new cfg srcId) = low"
    "c_pendingInstalls (cache_new cfg srcId) = []" "responses (cache_new cfg srcId) = {#}"
    "pending (cache_new cfg srcId) = {#}"
proof -
  let ?c = "cache_new cfg srcId"
  note g = cache_new_geom(1) [OF assms, of srcId]
  have q: "c_wbq ?c = []" "c_respQ ?c = []" "c_hitPipe ?c = []" "c_pendingMisses ?c = 0"
    "c_mshrs ?c = replicate (unat (cc_mshrs cfg)) mshr0" "c_tags ?c = replicate (length (c_tags ?c)) invalidTag"
    by (simp_all add: cache_new_def Let_def)
  show "c_pendingInstalls ?c = []" by (simp add: cache_new_def Let_def)
  have v: "\<not> slot_valid ?c i" for i
    unfolding slot_valid_def by (subst (2) q(6)) simp
  have none: "arr ?c ln = None" for ln using slotOf_None [OF g] v by (simp add: arr_None)
  have pk: "parked ?c ln = None" for ln by (simp add: parked_None q)
  show "contents low ?c = low" by (intro ext) (simp add: contents_def none pk)
  show "responses ?c = {#}" by (simp add: responses_def q)
  have "sum_list (map f (replicate n mshr0)) = {#}" if "f mshr0 = {#}" for f :: "mshr \<Rightarrow> mem_request multiset" and n
    using that by (induction n) simp_all
  then show "pending ?c = {#}" by (simp add: pending_def q mshr0_def)
  have "tags_ok ?c" using v by (simp add: tags_ok_def)
  moreover have "misses_ok ?c"
    using unat_less_pow32 [of "cc_mshrs cfg"]
    by (auto simp: misses_ok_def q mshr_ok_def mshr0_def)
  ultimately show "cache_inv low [] ?c"
    using g none by (simp add: cache_inv_def lines_ok_def refills_ok_def q)
qed

section \<open>Runs\<close>

text \<open>
  The cache, the lines below, the refills on their way, the requests accepted and the responses
  popped so far.
\<close>

record cstate =
  y_cache :: cache
  y_low :: lines
  y_refills :: "(nat \<times> line) list"
  y_accepted :: "mem_request list"
  y_answered :: "mem_response list"

definition cstate_new :: "cache_config \<Rightarrow> u8 \<Rightarrow> lines \<Rightarrow> cstate" where
  "cstate_new cfg srcId low =
     \<lparr>y_cache = cache_new cfg srcId, y_low = low, y_refills = [], y_accepted = [], y_answered = []\<rparr>"

inductive cache_step :: "cstate \<Rightarrow> cstate \<Rightarrow> bool" where
  access: "cache_canAccept (y_cache s) \<Longrightarrow> req_ok (lineSize (y_cache s)) req \<Longrightarrow>
    cache_step s (s\<lparr>y_cache := cache_access req (y_cache s), y_accepted := y_accepted s @ [req]\<rparr>)"
| deliver: "(x, l) \<in> set (y_refills s) \<Longrightarrow> rs_tag r = word_of_nat x \<Longrightarrow> rs_rline r = l \<Longrightarrow>
    cache_step s (s\<lparr>y_cache := deliverBelowResponse r (y_cache s), y_refills := remove1 (x, l) (y_refills s)\<rparr>)"
| wb_ack: "rs_tag r = kWbTag \<Longrightarrow> cache_step s (s\<lparr>y_cache := deliverBelowResponse r (y_cache s)\<rparr>)"
| tick: "cache_tick ready (y_cache s) = (c', out) \<Longrightarrow>
    cache_step s (s\<lparr>y_cache := c', y_low := below_lines (y_cache s) out (y_low s),
      y_refills := y_refills s @ below_refills (y_cache s) out (y_low s)\<rparr>)"
| pop: "cache_hasResponse (y_cache s) \<Longrightarrow>
    cache_step s (s\<lparr>y_cache := cache_popResponse (y_cache s),
      y_answered := y_answered s @ [cache_frontResponse (y_cache s)]\<rparr>)"

definition run_inv :: "cache \<Rightarrow> lines \<Rightarrow> cstate \<Rightarrow> bool" where
  "run_inv c0 low0 s \<longleftrightarrow> same_geom c0 (y_cache s) \<and>
     cache_inv (y_low s) (installs (c_pendingInstalls (y_cache s)) @ y_refills s) (y_cache s) \<and>
     (\<forall>ln. length (y_low s ln) = 2 ^ c_lineShift c0) \<and>
     (\<exists>log. legal c0 low0 log \<and> contents (y_low s) (y_cache s) = after c0 log low0 \<and>
        mset (y_accepted s) = mset (map fst log) + pending (y_cache s) \<and>
        mset (map snd log) = mset (y_answered s) + responses (y_cache s))"

text \<open>A step that is accounted for keeps the account of the run.\<close>

lemma run_inv_accounted:
  assumes "run_inv c0 low0 s" "accounted (y_low s) (y_cache s) low' c' acc log'"
    and "cache_inv low' (installs (c_pendingInstalls c') @ R') c'" "\<forall>ln. length (low' ln) = 2 ^ c_lineShift c0"
    and "mset xs = mset (y_accepted s) + acc"
  shows "run_inv c0 low0 (s\<lparr>y_cache := c', y_low := low', y_refills := R', y_accepted := xs\<rparr>)"
proof -
  obtain log where log: "legal c0 low0 log" "contents (y_low s) (y_cache s) = after c0 log low0"
    "mset (y_accepted s) = mset (map fst log) + pending (y_cache s)"
    "mset (map snd log) = mset (y_answered s) + responses (y_cache s)"
    using assms(1) by (auto simp: run_inv_def)
  have sg: "same_geom c0 (y_cache s)" "same_geom (y_cache s) c'"
    using assms(1,2) by (simp_all add: run_inv_def accounted_def)
  note g = same_geom_eqs [OF sg(1)]
  have "pending c' + mset (map fst log') = pending (y_cache s) + acc" using assms(2) by (simp add: accounted_def)
  then have "mset xs = mset (map fst (log @ log')) + pending c'"
    using assms(5) log(3) by (simp add: ac_simps)
  moreover have "mset (map snd (log @ log')) = mset (y_answered s) + responses c'"
    using assms(2) log(4) by (simp add: accounted_def)
  moreover have "legal c0 low0 (log @ log')" "contents low' c' = after c0 (log @ log') low0"
    using assms(2) log(1,2) by (simp_all add: accounted_def g legal_append after_append)
  ultimately show ?thesis
    using same_geom_trans [OF sg] assms(3,4) unfolding run_inv_def by auto
qed

lemma cache_step_inv:
  assumes "cache_step s t" "run_inv c0 low0 s"
  shows "run_inv c0 low0 t"
  using assms
proof (cases rule: cache_step.cases)
  case (access req)
  have inv: "cache_inv (y_low s) (installs (c_pendingInstalls (y_cache s)) @ y_refills s) (y_cache s)"
    "\<forall>ln. length (y_low s ln) = 2 ^ c_lineShift c0" using assms(2) by (simp_all add: run_inv_def)
  from access_step [OF inv(1) access(2,3)] obtain log where
    a: "cache_inv (y_low s) (installs (c_pendingInstalls (y_cache s)) @ y_refills s) (cache_access req (y_cache s))"
      "accounted (y_low s) (y_cache s) (y_low s) (cache_access req (y_cache s)) {#req#} log"
      "c_pendingInstalls (cache_access req (y_cache s)) = c_pendingInstalls (y_cache s)" by blast
  have "run_inv c0 low0 (s\<lparr>y_cache := cache_access req (y_cache s), y_low := y_low s, y_refills := y_refills s,
      y_accepted := y_accepted s @ [req]\<rparr>)"
    by (rule run_inv_accounted [OF assms(2) a(2)]) (use a inv(2) in simp_all)
  then show ?thesis by (simp add: access(1))
next
  case (deliver x l r)
  have inv: "cache_inv (y_low s) (installs (c_pendingInstalls (y_cache s)) @ y_refills s) (y_cache s)"
    "\<forall>ln. length (y_low s ln) = 2 ^ c_lineShift c0" using assms(2) by (simp_all add: run_inv_def)
  let ?c' = "deliverBelowResponse r (y_cache s)"
  from deliver_step [OF inv(1) deliver(2-4)] obtain log where
    a: "cache_inv (y_low s) (installs (c_pendingInstalls ?c') @ remove1 (x, l) (y_refills s)) ?c'"
      "accounted (y_low s) (y_cache s) (y_low s) ?c' {#} log" by (auto simp: Let_def)
  have "run_inv c0 low0 (s\<lparr>y_cache := ?c', y_low := y_low s, y_refills := remove1 (x, l) (y_refills s),
      y_accepted := y_accepted s\<rparr>)"
    by (rule run_inv_accounted [OF assms(2) a(2,1)]) (use inv(2) in simp_all)
  then show ?thesis by (simp add: deliver(1))
next
  case (wb_ack r)
  then show ?thesis using assms(2) by (simp add: deliverBelowResponse_def)
next
  case (tick ready c' out)
  have inv: "cache_inv (y_low s) (installs (c_pendingInstalls (y_cache s)) @ y_refills s) (y_cache s)"
    "\<forall>ln. length (y_low s ln) = 2 ^ c_lineShift c0" and sg: "same_geom c0 (y_cache s)"
    using assms(2) by (simp_all add: run_inv_def)
  have L: "c_lineShift (y_cache s) = c_lineShift c0" using sg by (simp add: same_geom_def)
  note t = tick_step [OF inv(1) inv(2) [folded L] tick(2)]
  obtain log where "accounted (y_low s) (y_cache s) (below_lines (y_cache s) out (y_low s)) c' {#} log" using t(2) by blast
  moreover have "\<forall>ln. length (below_lines (y_cache s) out (y_low s) ln) = 2 ^ c_lineShift c0"
  proof -
    have "(2 :: nat) ^ c_lineShift (y_cache s) \<le> 2 ^ 7"
      using inv(1) by (intro power_increasing) (simp_all add: cache_inv_def lines_ok_def geom_def)
    then show ?thesis
      using inv(2) t(3) by (auto simp: below_lines_def line_request_def kMaxLineBytes_def L split: option.split)
  qed
  ultimately have "run_inv c0 low0 (s\<lparr>y_cache := c', y_low := below_lines (y_cache s) out (y_low s),
      y_refills := y_refills s @ below_refills (y_cache s) out (y_low s), y_accepted := y_accepted s\<rparr>)"
    using t(1) by (intro run_inv_accounted [OF assms(2)]) simp_all
  then show ?thesis by (simp add: tick(1))
next
  case pop
  let ?c' = "cache_popResponse (y_cache s)"
  have sa: "same_arrays (y_cache s) ?c'" by (simp add: cache_popResponse_def same_arrays_def)
  note si = inv_same [OF sa]
  have eq: "c_wbq ?c' = c_wbq (y_cache s)" "c_mshrs ?c' = c_mshrs (y_cache s)"
    "c_pendingMisses ?c' = c_pendingMisses (y_cache s)" "c_pendingInstalls ?c' = c_pendingInstalls (y_cache s)"
    by (simp_all add: cache_popResponse_def)
  note si = inv_same [OF sa eq(1-3)]
  have "responses (y_cache s) = add_mset (cache_frontResponse (y_cache s)) (responses ?c')"
    using pop(2) by (cases "c_respQ (y_cache s)")
      (simp_all add: responses_def cache_popResponse_def cache_hasResponse_def cache_frontResponse_def)
  then show ?thesis
    using assms(2) same_geom_trans [OF _ si(2)] unfolding run_inv_def pop(1)
    by (auto simp: si eq)
qed

text \<open>
  C3. The cache is a memory.  Whatever requests are accepted, in whatever order refills arrive,
  and whenever the level below accepts or the responses are popped: the requests performed so
  far form a history a sequential memory allows from the initial contents, with exactly the
  responses given or still queued; the requests not yet performed are those in the miss
  registers; and the contents of the cache and the memory below together are the contents of
  that sequential memory.
\<close>

theorem cache_refines_memory:
  assumes "cache_ok cfg" "8 \<le> unat (cc_lineBytes cfg)" "\<forall>ln. length (low ln) = unat (cc_lineBytes cfg)"
    and "rtranclp cache_step (cstate_new cfg srcId low) s"
  shows "\<exists>log. legal (cache_new cfg srcId) low log \<and>
    contents (y_low s) (y_cache s) = after (cache_new cfg srcId) log low \<and>
    mset (y_accepted s) = mset (map fst log) + pending (y_cache s) \<and>
    mset (map snd log) = mset (y_answered s) + responses (y_cache s)"
proof -
  let ?c0 = "cache_new cfg srcId"
  note n = cache_new_inv [OF assms(1,2)]
  have start: "run_inv ?c0 low (cstate_new cfg srcId low)"
    using n assms(3) cache_new_geom(3) [OF assms(1,2)]
    by (auto simp: run_inv_def cstate_new_def installs_def after_def intro!: exI [of _ "[]"])
  have "run_inv ?c0 low s"
    using assms(4) by (induction rule: rtranclp_induct) (auto intro: cache_step_inv start)
  then show ?thesis by (simp add: run_inv_def)
qed

text \<open>A read accepted by an empty cache of two sets of two lines.\<close>

lemma cache_refines_memory_witness:
  "let cfg = \<lparr>cc_sizeBytes = 256, cc_ways = 2, cc_lineBytes = 64, cc_hitLatency = 1, cc_mshrs = 2, cc_wbq = 2\<rparr>;
       low = \<lambda>ln. replicate 64 (0 :: u8);
       req = mem_request0\<lparr>rq_addr := 68, rq_size := 4\<rparr>;
       s = (cstate_new cfg 1 low)\<lparr>y_cache := cache_access req (cache_new cfg 1), y_accepted := [req]\<rparr>
   in \<exists>log. legal (cache_new cfg 1) low log \<and>
        contents (y_low s) (y_cache s) = after (cache_new cfg 1) log low \<and>
        mset (y_accepted s) = mset (map fst log) + pending (y_cache s) \<and>
        mset (map snd log) = mset (y_answered s) + responses (y_cache s)"
proof -
  let ?cfg = "\<lparr>cc_sizeBytes = 256, cc_ways = 2, cc_lineBytes = 64, cc_hitLatency = 1, cc_mshrs = 2, cc_wbq = 2\<rparr>"
  let ?low = "\<lambda>ln :: nat. replicate 64 (0 :: u8)"
  let ?req = "mem_request0\<lparr>rq_addr := 68, rq_size := 4\<rparr>"
  let ?s = "(cstate_new ?cfg 1 ?low)\<lparr>y_cache := cache_access ?req (cache_new ?cfg 1), y_accepted := [?req]\<rparr>"
  have ok: "cache_ok ?cfg"
  proof -
    have "\<exists>lb \<le> 7. (64 :: nat) = 2 ^ lb" by (rule exI [of _ 6]) simp
    moreover have "\<exists>sb < 32. (2 :: nat) = 2 ^ sb" by (rule exI [of _ 1]) simp
    ultimately show ?thesis by (simp add: cache_ok_def)
  qed
  have "cache_canAccept (cache_new ?cfg 1)" by (simp add: cache_canAccept_def cache_new_def Let_def)
  moreover have "req_ok 64 ?req"
    by (simp add: req_ok_def mem_request0_def blank_line_def kMaxLineBytes_def)
  ultimately have "cache_step (cstate_new ?cfg 1 ?low) ?s"
    using cache_step.access [of "cstate_new ?cfg 1 ?low" ?req]
    by (simp add: cstate_new_def cache_new_def Let_def)
  then have "rtranclp cache_step (cstate_new ?cfg 1 ?low) ?s" by (rule r_into_rtranclp)
  from cache_refines_memory [OF ok _ _ this] show ?thesis by (simp add: Let_def)
qed

end
