(* ===== verification/System.thy ===== *)
theory System
  imports Cache Dram Flat_Memory Config
begin

text \<open>
  The assembled memory system of \<^verbatim>\<open>memory/system.h\<close> and \<^verbatim>\<open>memory/system.cpp\<close>: in cache mode the
  two first-level caches over the shared second level over main memory, in flat mode two
  fixed-latency ports on the backing store.  \<open>msys_tick\<close> advances the levels bottom-up and routes
  every completion to the level that asked for it.  \<^verbatim>\<open>printStats\<close> only prints.
\<close>

section \<open>State\<close>

definition SRC_L1I :: u8 where "SRC_L1I = 0"
definition SRC_L1D :: u8 where "SRC_L1D = 1"
definition SRC_L2 :: u8 where "SRC_L2 = 2"

text \<open>
  The program holds the levels that depend on the mode in \<^verbatim>\<open>std::optional\<close>s, of which those of the
  other mode stay empty and are never read; here every level is present and the mode decides
  which are used.
\<close>

record msys =
  ms_backing :: memory
  ms_flat :: bool
  ms_dram :: dram
  ms_flatI :: dram
  ms_l2 :: cache
  ms_l1i :: cache
  ms_l1d :: cache

definition msys_new :: "sim_config \<Rightarrow> msys" where
  "msys_new cfg =
     \<lparr>ms_backing = memory_new (unat (cfg_memBytes cfg)), ms_flat = cfg_flatMemory cfg,
      ms_dram = dram_new (if cfg_flatMemory cfg then cfg_flatLatency cfg else cfg_dramLatency cfg),
      ms_flatI = dram_new (cfg_flatLatency cfg), ms_l2 = cache_new (cfg_l2 cfg) SRC_L2,
      ms_l1i = cache_new (cfg_l1i cfg) SRC_L1I, ms_l1d = cache_new (cfg_l1d cfg) SRC_L1D\<rparr>"

section \<open>The two ports of the core\<close>

definition imem_canAccept :: "msys \<Rightarrow> bool" where
  "imem_canAccept m = (if ms_flat m then dram_canAccept (ms_flatI m) else cache_canAccept (ms_l1i m))"

definition imem_access :: "mem_request \<Rightarrow> msys \<Rightarrow> msys result" where
  "imem_access req m =
     (if ms_flat m
      then bind_result (dram_access req (ms_backing m, ms_flatI m))
             (\<lambda>(b, d). Inr (m\<lparr>ms_backing := b, ms_flatI := d\<rparr>))
      else Inr (m\<lparr>ms_l1i := cache_access req (ms_l1i m)\<rparr>))"

definition imem_hasResponse :: "msys \<Rightarrow> bool" where
  "imem_hasResponse m = (if ms_flat m then dram_hasResponse (ms_flatI m) else cache_hasResponse (ms_l1i m))"

definition imem_frontResponse :: "msys \<Rightarrow> mem_response" where
  "imem_frontResponse m =
     (if ms_flat m then dram_frontResponse (ms_flatI m) else cache_frontResponse (ms_l1i m))"

definition imem_popResponse :: "msys \<Rightarrow> msys" where
  "imem_popResponse m =
     (if ms_flat m then m\<lparr>ms_flatI := dram_popResponse (ms_flatI m)\<rparr>
      else m\<lparr>ms_l1i := cache_popResponse (ms_l1i m)\<rparr>)"

definition dmem_canAccept :: "msys \<Rightarrow> bool" where
  "dmem_canAccept m = (if ms_flat m then dram_canAccept (ms_dram m) else cache_canAccept (ms_l1d m))"

definition dmem_access :: "mem_request \<Rightarrow> msys \<Rightarrow> msys result" where
  "dmem_access req m =
     (if ms_flat m
      then bind_result (dram_access req (ms_backing m, ms_dram m))
             (\<lambda>(b, d). Inr (m\<lparr>ms_backing := b, ms_dram := d\<rparr>))
      else Inr (m\<lparr>ms_l1d := cache_access req (ms_l1d m)\<rparr>))"

definition dmem_hasResponse :: "msys \<Rightarrow> bool" where
  "dmem_hasResponse m = (if ms_flat m then dram_hasResponse (ms_dram m) else cache_hasResponse (ms_l1d m))"

definition dmem_frontResponse :: "msys \<Rightarrow> mem_response" where
  "dmem_frontResponse m =
     (if ms_flat m then dram_frontResponse (ms_dram m) else cache_frontResponse (ms_l1d m))"

definition dmem_popResponse :: "msys \<Rightarrow> msys" where
  "dmem_popResponse m =
     (if ms_flat m then m\<lparr>ms_dram := dram_popResponse (ms_dram m)\<rparr>
      else m\<lparr>ms_l1d := cache_popResponse (ms_l1d m)\<rparr>)"

section \<open>One cycle\<close>

text \<open>The loop that hands every completion of main memory to the second level.\<close>

function drainDram :: "msys \<Rightarrow> msys" where
  "drainDram m =
     (if dram_hasResponse (ms_dram m)
      then drainDram (m\<lparr>ms_l2 := deliverBelowResponse (dram_frontResponse (ms_dram m)) (ms_l2 m),
                       ms_dram := dram_popResponse (ms_dram m)\<rparr>)
      else m)"
  by pat_completeness auto

termination
  by (relation "measure (\<lambda>m. length (d_respQ (ms_dram m)))")
    (auto simp: dram_hasResponse_def dram_popResponse_def)

declare drainDram.simps [simp del]

text \<open>A completion of the second level goes to the first-level cache that asked for it.\<close>

definition route :: "mem_response \<Rightarrow> msys \<Rightarrow> msys" where
  "route r m =
     (if rs_src r = SRC_L1I then m\<lparr>ms_l1i := deliverBelowResponse r (ms_l1i m)\<rparr>
      else m\<lparr>ms_l1d := deliverBelowResponse r (ms_l1d m)\<rparr>)"

function drainL2 :: "msys \<Rightarrow> msys" where
  "drainL2 m =
     (if cache_hasResponse (ms_l2 m)
      then let m = route (cache_frontResponse (ms_l2 m)) m
           in drainL2 (m\<lparr>ms_l2 := cache_popResponse (ms_l2 m)\<rparr>)
      else m)"
  by pat_completeness auto

termination
  by (relation "measure (\<lambda>m. length (c_respQ (ms_l2 m)))")
    (auto simp: cache_hasResponse_def cache_popResponse_def route_def)

declare drainL2.simps [simp del]

text \<open>The ticks of the three caches; each hands its transaction to the level below.\<close>

definition tick_l2 :: "msys \<Rightarrow> msys result" where
  "tick_l2 m =
     (let (c, out) = cache_tick (dram_canAccept (ms_dram m)) (ms_l2 m); m = m\<lparr>ms_l2 := c\<rparr>
      in case out of
           None \<Rightarrow> Inr m
         | Some req \<Rightarrow> bind_result (dram_access req (ms_backing m, ms_dram m))
                         (\<lambda>(b, d). Inr (m\<lparr>ms_backing := b, ms_dram := d\<rparr>)))"

definition tick_l1i :: "msys \<Rightarrow> msys" where
  "tick_l1i m =
     (let (c, out) = cache_tick (cache_canAccept (ms_l2 m)) (ms_l1i m); m = m\<lparr>ms_l1i := c\<rparr>
      in case out of None \<Rightarrow> m | Some req \<Rightarrow> m\<lparr>ms_l2 := cache_access req (ms_l2 m)\<rparr>)"

definition tick_l1d :: "msys \<Rightarrow> msys" where
  "tick_l1d m =
     (let (c, out) = cache_tick (cache_canAccept (ms_l2 m)) (ms_l1d m); m = m\<lparr>ms_l1d := c\<rparr>
      in case out of None \<Rightarrow> m | Some req \<Rightarrow> m\<lparr>ms_l2 := cache_access req (ms_l2 m)\<rparr>)"

definition msys_tick :: "msys \<Rightarrow> msys result" where
  "msys_tick m =
     (let m = m\<lparr>ms_dram := dram_tick (ms_dram m)\<rparr> in
      if ms_flat m then Inr (m\<lparr>ms_flatI := dram_tick (ms_flatI m)\<rparr>)
      else bind_result (tick_l2 (drainDram m)) (\<lambda>m.
             Inr (drainL2 (tick_l1d (tick_l1i (drainL2 (drainDram m)))))))"

section \<open>Functional reads\<close>

definition msys_peek8 :: "msys \<Rightarrow> u32 \<Rightarrow> u8 result" where
  "msys_peek8 m addr =
     bind_result (mem_check (ms_backing m) addr 1 ''load'') (\<lambda>_.
       case (if ms_flat m then None else cache_peek8 addr (ms_l1d m)) of
         Some b \<Rightarrow> Inr b
       | None \<Rightarrow>
           (case (if ms_flat m then None else cache_peek8 addr (ms_l2 m)) of
              Some b \<Rightarrow> Inr b
            | None \<Rightarrow> mem_load8 (ms_backing m) addr))"

end
