(* ===== verification/Core.thy ===== *)
theory Core
  imports System Predictor Issue_Queue Func_Unit Mem_Response Reference
begin

text \<open>
  The state of the out-of-order core: register renaming (\<^verbatim>\<open>core/rename.h\<close>), the reorder buffer
  (\<^verbatim>\<open>core/rob.h\<close>), the statistics (\<^verbatim>\<open>sim/stats.h\<close>), and the class \<^verbatim>\<open>OoOCore\<close> of \<^verbatim>\<open>core/ooo.h\<close> with
  its constructor and its recovery from \<^verbatim>\<open>core/ooo.cpp\<close>.  The textual trace (\<^verbatim>\<open>note\<close>,
  \<^verbatim>\<open>captureView\<close>, \<^verbatim>\<open>printTrace\<close>) and the final report only print.
\<close>

section \<open>The reorder buffer\<close>

record rob_entry =
  re_seq :: u64
  re_pc :: u32
  re_ins :: instr
  re_done :: bool
  re_pdst :: u8
  re_prevPhys :: u8
  re_isMem :: bool
  re_isSystem :: bool
  re_fault :: u8
  re_isBranch :: bool
  re_predictedTaken :: bool
  re_actualTaken :: bool
  re_predictedTarget :: u32
  re_actualTarget :: u32
  re_predIdx :: u32
  re_predBefore :: checkpoint
  re_sysA0 :: u8
  re_sysA7 :: u8

definition rob_entry0 :: rob_entry where
  "rob_entry0 =
     \<lparr>re_seq = 0, re_pc = 0, re_ins = instr0, re_done = False, re_pdst = kNoReg, re_prevPhys = kNoReg,
      re_isMem = False, re_isSystem = False, re_fault = 0, re_isBranch = False, re_predictedTaken = False,
      re_actualTaken = False, re_predictedTarget = 0, re_actualTarget = 0, re_predIdx = 0,
      re_predBefore = checkpoint0, re_sysA0 = 0, re_sysA7 = 0\<rparr>"

definition mispredicted :: "rob_entry \<Rightarrow> bool" where
  "mispredicted e \<longleftrightarrow> re_actualTaken e \<noteq> re_predictedTaken e \<or>
     (re_actualTaken e \<and> re_actualTarget e \<noteq> re_predictedTarget e)"

section \<open>Statistics\<close>

record stats =
  st_cycles :: u64
  st_retired :: u64
  st_dsRobFull :: u64
  st_dsIqFull :: u64
  st_dsLsqFull :: u64
  st_dsNoPreg :: u64
  st_dsSerialize :: u64
  st_dsFetchEmpty :: u64
  st_branches :: u64
  st_mispredicts :: u64
  st_flushes :: u64
  st_wbConflicts :: u64
  st_loadsForwarded :: u64
  st_specLoads :: u64
  st_loadReplays :: u64
  st_sbCommitStalls :: u64
  st_issuedOps :: u64
  st_dataStallCycles :: u64
  st_badFetchWaitCycles :: u64
  st_robOccSum :: u64
  st_iqOccSum :: u64
  st_lsqOccSum :: u64
  st_sbOccSum :: u64
  st_pregsUsedSum :: u64
  st_recoveryLossCycles :: u64
  st_memRetireStallCycles :: u64

definition stats0 :: stats where
  "stats0 =
     \<lparr>st_cycles = 0, st_retired = 0, st_dsRobFull = 0, st_dsIqFull = 0, st_dsLsqFull = 0, st_dsNoPreg = 0,
      st_dsSerialize = 0, st_dsFetchEmpty = 0, st_branches = 0, st_mispredicts = 0, st_flushes = 0,
      st_wbConflicts = 0, st_loadsForwarded = 0, st_specLoads = 0, st_loadReplays = 0, st_sbCommitStalls = 0,
      st_issuedOps = 0, st_dataStallCycles = 0, st_badFetchWaitCycles = 0, st_robOccSum = 0, st_iqOccSum = 0,
      st_lsqOccSum = 0, st_sbOccSum = 0, st_pregsUsedSum = 0, st_recoveryLossCycles = 0,
      st_memRetireStallCycles = 0\<rparr>"

section \<open>The core\<close>

record fetched =
  ft_pc :: u32
  ft_raw :: u32
  ft_predTaken :: bool
  ft_predTarget :: u32
  ft_predIdx :: u32
  ft_predBefore :: checkpoint

definition fetched0 :: fetched where
  "fetched0 = \<lparr>ft_pc = 0, ft_raw = 0, ft_predTaken = False, ft_predTarget = 0, ft_predIdx = 0,
     ft_predBefore = checkpoint0\<rparr>"

text \<open>A pointer of \<^verbatim>\<open>wbReady\<close> is the output slot of a unit or a load completion slot.\<close>

datatype wb_ref = Unit_Out nat | Load_Out nat

text \<open>
  The units that produce results stand in one list, in the order of the vector \<^verbatim>\<open>units\<close>: the
  \<^verbatim>\<open>aluCount\<close> ALUs, then the branch unit, the multiplier and the divider.  The host is the world of
  the system calls, and \<open>oc_commits\<close> is what \<^verbatim>\<open>onCommit\<close> was called with.
\<close>

record core =
  oc_cfg :: sim_config
  oc_msys :: msys
  oc_map :: "u8 list"
  oc_free :: "u8 ring"
  oc_val :: "u32 list"
  oc_ready :: "bool list"
  oc_rob :: "rob_entry ring"
  oc_iq :: issue_queue
  oc_lsq :: lsq
  oc_sb :: store_buffer
  oc_pred :: predictor
  oc_units :: "fu_unit list"
  oc_agus :: "fu_unit list"
  oc_wbReady :: "wb_ref list"
  oc_pc :: u32
  oc_fetchQ :: "fetched ring"
  oc_fOutstanding :: bool
  oc_fStale :: bool
  oc_fBlock :: u32
  oc_fFetchPc :: u32
  oc_loadOuts :: "fu_op list"
  oc_sbTxnCtr :: u32
  oc_depTable :: "u8 list"
  oc_seqCtr :: u64
  oc_pendRedirect :: bool
  oc_pendTarget :: u32
  oc_recTimerArmed :: bool
  oc_recTimerStart :: u64
  oc_halted :: bool
  oc_exitCode :: int
  oc_stats :: stats
  oc_host :: host
  oc_commits :: "CommitRecord list"

abbreviation alu_count :: "core \<Rightarrow> nat" where
  "alu_count c \<equiv> unat (cfg_aluCount (oc_cfg c))"

abbreviation fBytes :: "core \<Rightarrow> u32" where
  "fBytes c \<equiv> fetchBlockBytes (oc_cfg c)"

text \<open>The identity map of \<^verbatim>\<open>RenameMap::reset\<close>, and the free list of the constructor.\<close>

definition rmap_reset :: "u8 list" where
  "rmap_reset = map word_of_nat [0..<32]"

definition free_new :: "u32 \<Rightarrow> u8 ring" where
  "free_new physRegs = fold (ring_push 0) (map word_of_nat [32..<unat physRegs]) (ring_new 0 physRegs)"

definition core_new :: "u32 list \<Rightarrow> sim_config \<Rightarrow> msys \<Rightarrow> host \<Rightarrow> core option" where
  "core_new histLen cfg m h =
     map_option (\<lambda>p.
       \<lparr>oc_cfg = cfg, oc_msys = m, oc_map = rmap_reset, oc_free = free_new (cfg_physRegs cfg),
        oc_val = replicate (unat (cfg_physRegs cfg)) 0, oc_ready = replicate (unat (cfg_physRegs cfg)) True,
        oc_rob = ring_new rob_entry0 (cfg_robSize cfg),
        oc_iq = iq_new (cfg_iqSize cfg) (unat (cfg_robSize cfg)) (unat (cfg_physRegs cfg)),
        oc_lsq = lsq_new (cfg_lsqSize cfg), oc_sb = sb_new (cfg_sbSize cfg), oc_pred = p,
        oc_units = replicate (unat (cfg_aluCount cfg)) (fu_new 1 True) @
          [fu_new 1 True, fu_new (cfg_mulLatency cfg) (cfg_mulPipelined cfg), fu_new (cfg_divLatency cfg) False],
        oc_agus = replicate (unat (cfg_aguCount cfg)) (fu_new 1 True), oc_wbReady = [], oc_pc = 0,
        oc_fetchQ = ring_new fetched0 (cfg_fetchQSize cfg), oc_fOutstanding = False, oc_fStale = False,
        oc_fBlock = 0, oc_fFetchPc = 0,
        oc_loadOuts = replicate (unat (if 2 < cfg_width cfg then cfg_width cfg else 2)) fu_op0,
        oc_sbTxnCtr = 0, oc_depTable = replicate (unat (cfg_depTableSize cfg)) 0, oc_seqCtr = 0,
        oc_pendRedirect = False, oc_pendTarget = 0, oc_recTimerArmed = False, oc_recTimerStart = 0,
        oc_halted = False, oc_exitCode = 0, oc_stats = stats0, oc_host = h, oc_commits = []\<rparr>)
       (predictor_new histLen cfg)"

text \<open>The architectural value of a register, and the entry of the dependence table.\<close>

definition core_reg :: "core \<Rightarrow> nat \<Rightarrow> u32" where
  "core_reg c i = oc_val c ! unat (oc_map c ! i)"

definition dep_index :: "core \<Rightarrow> u32 \<Rightarrow> nat" where
  "dep_index c pc = unat (drop_bit 2 pc) mod length (oc_depTable c)"

abbreviation count_stat :: "(stats \<Rightarrow> stats) \<Rightarrow> core \<Rightarrow> core" where
  "count_stat f c \<equiv> c\<lparr>oc_stats := f (oc_stats c)\<rparr>"

definition rob_update :: "u32 \<Rightarrow> (rob_entry \<Rightarrow> rob_entry) \<Rightarrow> core \<Rightarrow> core" where
  "rob_update idx f c = c\<lparr>oc_rob := ring_put idx (f (ring_at (oc_rob c) idx)) (oc_rob c)\<rparr>"

section \<open>Recovery\<close>

text \<open>The slot a pointer of \<^verbatim>\<open>wbReady\<close> refers to.\<close>

primrec wb_slot :: "core \<Rightarrow> wb_ref \<Rightarrow> fu_op" where
  "wb_slot c (Unit_Out i) = f_out (oc_units c ! i)"
| "wb_slot c (Load_Out i) = oc_loadOuts c ! i"

primrec wb_invalidate :: "wb_ref \<Rightarrow> core \<Rightarrow> core" where
  "wb_invalidate (Unit_Out i) c = c\<lparr>oc_units := (oc_units c)[i := fu_drain (oc_units c ! i)]\<rparr>"
| "wb_invalidate (Load_Out i) c = c\<lparr>oc_loadOuts := (oc_loadOuts c)[i := (oc_loadOuts c ! i)\<lparr>o_valid := False\<rparr>]\<rparr>"

text \<open>The two loops over the tails; a pop shortens the queue, so they end.\<close>

function lsq_squash :: "u64 \<Rightarrow> lsq \<Rightarrow> lsq" where
  "lsq_squash seq q =
     (if r_n (l_ring q) \<noteq> 0 \<and> seq < le_seq (ring_tail (l_ring q)) then lsq_squash seq (lsq_popTail q) else q)"
  by pat_completeness auto

termination
  by (relation "measure (\<lambda>(seq, q). unat (r_n (l_ring q)))")
    (auto simp: lsq_popTail_def lsq_remove_def ring_popTail_def Let_def word_neq_0_less unat_minus_one)

declare lsq_squash.simps [simp del]

text \<open>One step of the walk: restore the displaced mapping and return the register.\<close>

definition undo_rename :: "rob_entry \<Rightarrow> u8 list \<times> u8 ring \<Rightarrow> u8 list \<times> u8 ring" where
  "undo_rename t = (\<lambda>(m, fl).
     if re_pdst t \<noteq> kNoReg
     then (m[unat (ins_rd (re_ins t)) := re_prevPhys t], ring_push 0 (re_pdst t) fl) else (m, fl))"

function rob_squash :: "u64 \<Rightarrow> rob_entry ring \<Rightarrow> u8 list \<times> u8 ring \<Rightarrow> rob_entry ring \<times> u8 list \<times> u8 ring" where
  "rob_squash seq r mf =
     (if r_n r \<noteq> 0 \<and> seq < re_seq (ring_tail r)
      then rob_squash seq (ring_popTail r) (undo_rename (ring_tail r) mf) else (r, mf))"
  by pat_completeness auto

termination
  by (relation "measure (\<lambda>(seq, r, mf). unat (r_n r))")
    (auto simp: ring_popTail_def word_neq_0_less unat_minus_one)

declare rob_squash.simps [simp del]

definition recover :: "u64 \<Rightarrow> core \<Rightarrow> core" where
  "recover seq c =
     (let c = c\<lparr>oc_stats := (oc_stats c)\<lparr>st_flushes := st_flushes (oc_stats c) + 1\<rparr>,
               oc_iq := iq_flushYounger seq (oc_iq c),
               oc_units := map (fu_flushYounger seq) (oc_units c),
               oc_agus := map (fu_flushYounger seq) (oc_agus c),
               oc_loadOuts := map (fu_kill seq) (oc_loadOuts c)\<rparr>;
          c = c\<lparr>oc_wbReady := filter (\<lambda>p. o_valid (wb_slot c p)) (oc_wbReady c)\<rparr>;
          c = c\<lparr>oc_lsq := lsq_squash seq (oc_lsq c)\<rparr>;
          (r, m, fl) = rob_squash seq (oc_rob c) (oc_map c, oc_free c);
          c = c\<lparr>oc_rob := r, oc_map := m, oc_free := fl, oc_fetchQ := ring_clear (oc_fetchQ c)\<rparr>;
          c = (if oc_fOutstanding c then c\<lparr>oc_fStale := True\<rparr> else c)
      in c\<lparr>oc_recTimerArmed := True, oc_recTimerStart := st_cycles (oc_stats c)\<rparr>)"

end
