(* ===== verification/Core_Stages.thy ===== *)
theory Core_Stages
  imports Core
begin

text \<open>
  The pipeline stages of \<^verbatim>\<open>core/ooo.cpp\<close>, one definition per stage, loop body or branch, and
  \<^verbatim>\<open>stepCycle\<close> and \<^verbatim>\<open>run\<close> over them.  A stage that can end the program with a fatal error gives a
  \<open>result\<close>; committing a system call may also not return (a string without end), and is an
  option on top.
\<close>

type_synonym 'a io = "'a result option"

definition bind_io :: "'a io \<Rightarrow> ('a \<Rightarrow> 'b io) \<Rightarrow> 'b io" where
  "bind_io r f = (case r of None \<Rightarrow> None | Some (Inl e) \<Rightarrow> Some (Inl e) | Some (Inr x) \<Rightarrow> f x)"

section \<open>Commit\<close>

text \<open>The checks on the head of the reorder buffer that end the program.\<close>

definition commit_fault :: "rob_entry \<Rightarrow> core \<Rightarrow> fatal option" where
  "commit_fault e c =
     (let what = (if isStore (ins_op (re_ins e)) then ''store'' else ''load'');
          addr = le_addr (ring_head (l_ring (oc_lsq c)))
      in if re_isBranch e \<and> re_actualTaken e \<and> re_actualTarget e AND 3 \<noteq> 0
         then Some (MisalignedBranch (re_actualTarget e) (re_pc e))
         else if re_fault e = 0 then None
         else if re_fault e = 1 then Some (Misaligned addr what (re_pc e)) else Some (OutOfRange addr what))"

definition commit_ecall :: "rob_entry \<Rightarrow> CommitRecord \<Rightarrow> core \<Rightarrow> (CommitRecord \<times> core) io" where
  "commit_ecall e rec c =
     (let c = count_stat (\<lambda>s. s\<lparr>st_retired := st_retired s + 1\<rparr>) c in
      map_option (\<lambda>out. bind_result out (\<lambda>s.
          let c = c\<lparr>oc_val := (oc_val c)[unat (re_sysA0 e) := s_arg s], oc_exitCode := s_code s, oc_host := s_host s\<rparr>;
              c = (if s_exit s then c\<lparr>oc_halted := True\<rparr> else c)
          in Inr (if syscallReturnsInput (oc_val c ! unat (re_sysA7 e))
                  then rec\<lparr>cr_registerWrite := Some \<lparr>rw_rd = 10, rw_value = oc_val c ! unat (re_sysA0 e)\<rparr>\<rparr>
                  else rec, c)))
        (runSyscall (oc_val c ! unat (re_sysA7 e)) (oc_val c ! unat (re_sysA0 e)) (re_pc e) False
           (msys_peek8 (oc_msys c)) (oc_exitCode c) (length (bytes (ms_backing (oc_msys c)))) UINT32_MAX (oc_host c)))"

definition commit_system :: "rob_entry \<Rightarrow> CommitRecord \<Rightarrow> core \<Rightarrow> (CommitRecord \<times> core) io" where
  "commit_system e rec c =
     (let retire = count_stat (\<lambda>s. s\<lparr>st_retired := st_retired s + 1\<rparr>) c in
      case ins_op (re_ins e) of
        ECALL \<Rightarrow> commit_ecall e rec c
      | EBREAK \<Rightarrow> Some (Inr (rec, retire\<lparr>oc_halted := True\<rparr>))
      | ILLEGAL \<Rightarrow> Some (Inr (rec\<lparr>cr_exception := Some IllegalInstruction\<rparr>,
                             c\<lparr>oc_halted := True, oc_exitCode := 1\<rparr>))
      | _ \<Rightarrow> Some (Inr (rec, retire)))"

text \<open>
  The memory part of an ordinary commit; \<open>None\<close> when a store finds the store buffer full and the
  loop stops.
\<close>

definition commit_mem :: "rob_entry \<Rightarrow> CommitRecord \<Rightarrow> core \<Rightarrow> (CommitRecord \<times> core) option result" where
  "commit_mem e rec c =
     (if \<not> re_isMem e then Inr (Some (rec, c))
      else
        let le = ring_head (l_ring (oc_lsq c)); pop = (\<lambda>c. c\<lparr>oc_lsq := lsq_popHead (oc_lsq c)\<rparr>) in
        if \<not> le_isStore le then Inr (Some (rec, pop c))
        else if ring_full (sb_ring (oc_sb c)) then Inr None
        else bind_result (memory_write (le_addr le) (le_data le) (le_size le)) (\<lambda>w.
               Inr (Some (rec\<lparr>cr_memoryWrite := Some w\<rparr>,
                          pop (c\<lparr>oc_sb := sb_push (le_addr le) (le_size le) (le_data le) (oc_sb c)\<rparr>)))))"

definition commit_dest :: "rob_entry \<Rightarrow> CommitRecord \<Rightarrow> core \<Rightarrow> CommitRecord \<times> core" where
  "commit_dest e rec c =
     (if re_pdst e \<noteq> kNoReg
      then (rec\<lparr>cr_registerWrite :=
              Some \<lparr>rw_rd = ins_rd (re_ins e), rw_value = oc_val c ! unat (re_pdst e)\<rparr>\<rparr>,
            c\<lparr>oc_free := ring_push 0 (re_prevPhys e) (oc_free c)\<rparr>)
      else (rec, c))"

definition commit_branch :: "rob_entry \<Rightarrow> core \<Rightarrow> core" where
  "commit_branch e c =
     (if re_isBranch e then
        let c = count_stat (\<lambda>s. s\<lparr>st_branches := st_branches s + 1\<rparr>) c;
            c = (if mispredicted e then count_stat (\<lambda>s. s\<lparr>st_mispredicts := st_mispredicts s + 1\<rparr>) c else c)
        in if cfg_usePredictor (oc_cfg c)
           then c\<lparr>oc_pred := pred_update (re_pc e) (re_ins e) (re_actualTaken e) (re_actualTarget e)
                              (re_predIdx e) (re_predBefore e) (oc_pred c)\<rparr>
           else c
      else c)"

definition commit_dep :: "rob_entry \<Rightarrow> core \<Rightarrow> core" where
  "commit_dep e c =
     (let i = dep_index c (re_pc e) in
      if cfg_depPredictor (oc_cfg c) \<and> re_isMem e \<and> isLoad (ins_op (re_ins e)) \<and> 0 < oc_depTable c ! i
      then c\<lparr>oc_depTable := (oc_depTable c)[i := oc_depTable c ! i - 1]\<rparr> else c)"

text \<open>The end of an iteration: \<^verbatim>\<open>onCommit\<close> and the pop.\<close>

definition commit_finish :: "CommitRecord \<Rightarrow> core \<Rightarrow> core" where
  "commit_finish rec c = c\<lparr>oc_commits := oc_commits c @ [rec], oc_rob := ring_popHead (oc_rob c)\<rparr>"

text \<open>What an ordinary commit does after the memory part.\<close>

definition commit_rest :: "rob_entry \<Rightarrow> CommitRecord \<Rightarrow> core \<Rightarrow> core" where
  "commit_rest e rec c =
     (let (rec, c) = commit_dest e rec c; c = commit_dep e (commit_branch e c);
          c = count_stat (\<lambda>s. s\<lparr>st_retired := st_retired s + 1\<rparr>) c
      in commit_finish rec c)"

text \<open>One iteration; the flag says that an instruction was committed and the loop goes on.\<close>

definition commit_one :: "core \<Rightarrow> (bool \<times> core) io" where
  "commit_one c =
     (let e = ring_head (oc_rob c);
          rec = \<lparr>cr_sequence = st_retired (oc_stats c), cr_pc = re_pc e, cr_instruction = ins_raw (re_ins e),
                 cr_registerWrite = None, cr_memoryWrite = None, cr_exception = None\<rparr>
      in case commit_fault e c of
           Some f \<Rightarrow> Some (Inl f)
         | None \<Rightarrow>
             if re_isSystem e
             then bind_io (commit_system e rec c) (\<lambda>(rec, c). Some (Inr (True, commit_finish rec c)))
             else Some (bind_result (commit_mem e rec c) (\<lambda>out.
               case out of
                 None \<Rightarrow> Inr (False, count_stat (\<lambda>s. s\<lparr>st_sbCommitStalls := st_sbCommitStalls s + 1\<rparr>) c)
               | Some (rec, c) \<Rightarrow> Inr (True, commit_rest e rec c))))"

text \<open>The loop; the argument is the width that is left, and the result counts the commits.\<close>

primrec commit_loop :: "nat \<Rightarrow> nat \<Rightarrow> core \<Rightarrow> (nat \<times> core) io" where
  "commit_loop 0 k c = Some (Inr (k, c))"
| "commit_loop (Suc n) k c =
     (if ring_empty (oc_rob c) \<or> \<not> re_done (ring_head (oc_rob c)) \<or> oc_halted c then Some (Inr (k, c))
      else bind_io (commit_one c) (\<lambda>(go, c). if go then commit_loop n (Suc k) c else Some (Inr (k, c))))"

definition commitStage :: "core \<Rightarrow> core io" where
  "commitStage c =
     bind_io (commit_loop (unat (cfg_width (oc_cfg c))) 0 c) (\<lambda>(k, c).
       let e = ring_head (oc_rob c) in
       Some (Inr
         (if k = 0 \<and> \<not> oc_halted c \<and> \<not> ring_empty (oc_rob c) \<and> \<not> re_done e \<and> re_isMem e \<and>
             isLoad (ins_op (re_ins e)) \<and> \<not> ring_empty (l_ring (oc_lsq c)) \<and>
             \<not> le_done (ring_head (l_ring (oc_lsq c)))
          then count_stat (\<lambda>s. s\<lparr>st_memRetireStallCycles := st_memRetireStallCycles s + 1\<rparr>) c
          else c)))"

section \<open>Writeback\<close>

text \<open>\<^verbatim>\<open>std::min_element\<close> by sequence number: the first of the oldest.\<close>

fun min_index :: "u64 list \<Rightarrow> nat" where
  "min_index [] = 0"
| "min_index [x] = 0"
| "min_index (x # xs) = (let j = min_index xs in if xs ! j < x then Suc j else 0)"

text \<open>The winner leaves \<^verbatim>\<open>wbReady\<close>: the last pointer takes its place.\<close>

definition wb_take :: "core \<Rightarrow> wb_ref \<times> core" where
  "wb_take c =
     (let ps = oc_wbReady c; i = min_index (map (\<lambda>p. o_seq (wb_slot c p)) ps)
      in (ps ! i, c\<lparr>oc_wbReady := butlast (ps[i := last ps])\<rparr>))"

text \<open>The result reaches the register file, the issue queue and the reorder buffer.\<close>

definition wb_result :: "fu_op \<Rightarrow> core \<Rightarrow> core" where
  "wb_result x c =
     (let c = (if o_pdst x \<noteq> kNoReg
               then c\<lparr>oc_val := (oc_val c)[unat (o_pdst x) := o_value x],
                     oc_ready := (oc_ready c)[unat (o_pdst x) := True], oc_iq := iq_wakeup (o_pdst x) (oc_iq c)\<rparr>
               else c);
          c = rob_update (o_robIdx x) (\<lambda>e. e\<lparr>re_done := True\<rparr>) c
      in if re_isBranch (ring_at (oc_rob c) (o_robIdx x))
         then rob_update (o_robIdx x) (\<lambda>e. e\<lparr>re_actualTaken := o_redirect x,
                re_actualTarget := (if o_redirect x then o_target x else re_pc e + 4)\<rparr>) c
         else c)"

text \<open>The recovery of a branch that was predicted wrong.\<close>

definition wb_mispredict :: "wb_ref \<Rightarrow> u64 \<Rightarrow> rob_entry \<Rightarrow> core \<Rightarrow> core" where
  "wb_mispredict p seq e c =
     (let c = (if cfg_usePredictor (oc_cfg c)
               then c\<lparr>oc_pred := pred_replay (re_pc e) (re_ins e) (re_actualTaken e)
                                  (pred_restore (re_predBefore e) (oc_pred c))\<rparr> else c);
          c = recover seq (wb_invalidate p c)
      in c\<lparr>oc_pendRedirect := True, oc_pendTarget := re_actualTarget e\<rparr>)"

definition writeback_one :: "core \<Rightarrow> bool \<times> core" where
  "writeback_one c =
     (let (p, c) = wb_take c; x = wb_slot c p; c = wb_result x c; e = ring_at (oc_rob c) (o_robIdx x)
      in if re_isBranch e \<and> mispredicted e then (False, wb_mispredict p (o_seq x) e c)
         else (True, wb_invalidate p c))"

primrec writeback_loop :: "nat \<Rightarrow> core \<Rightarrow> core" where
  "writeback_loop 0 c = c"
| "writeback_loop (Suc n) c = (let (go, c) = writeback_one c in if go then writeback_loop n c else c)"

definition writebackStage :: "core \<Rightarrow> core" where
  "writebackStage c =
     (let c = writeback_loop (min (unat (cfg_wbPorts (oc_cfg c))) (length (oc_wbReady c))) c
      in if \<not> oc_pendRedirect c
         then count_stat (\<lambda>s. s\<lparr>st_wbConflicts := st_wbConflicts s + word_of_nat (length (oc_wbReady c))\<rparr>) c
         else c)"

section \<open>Address generation and ordering violations\<close>

text \<open>The oldest younger load that already read an overlapping address.\<close>

definition violation_victim :: "lsq_entry \<Rightarrow> lsq \<Rightarrow> u32 option" where
  "violation_victim st q =
     lsq_visitAccessedLoads (\<lambda>v. q)
       (\<lambda>x v. let le = lsq_at (word_of_nat x) q in
          if le_seq st < le_seq le \<and> overlaps (le_addr st) (ucast (le_size st)) (le_addr le) (ucast (le_size le))
          then (False, Some (word_of_nat x)) else (True, v))
       None"

definition violationScan :: "lsq_entry \<Rightarrow> core \<Rightarrow> core" where
  "violationScan st c =
     (case violation_victim st (oc_lsq c) of
        None \<Rightarrow> c
      | Some v \<Rightarrow>
          let le = lsq_at v (oc_lsq c);
              c = count_stat (\<lambda>s. s\<lparr>st_loadReplays := st_loadReplays s + 1\<rparr>) c;
              c = (if cfg_depPredictor (oc_cfg c)
                   then c\<lparr>oc_depTable := (oc_depTable c)[dep_index c (le_pc le) := 3]\<rparr> else c);
              c = (if cfg_usePredictor (oc_cfg c)
                   then c\<lparr>oc_pred := pred_restore (re_predBefore (ring_at (oc_rob c) (le_robIdx le))) (oc_pred c)\<rparr>
                   else c);
              c = recover (le_seq le - 1) c
          in c\<lparr>oc_pendRedirect := True, oc_pendTarget := le_pc le\<rparr>)"

text \<open>The loop over the address units that picks the oldest valid output.\<close>

definition agu_ready :: "fu_unit list \<Rightarrow> nat option" where
  "agu_ready us =
     fold (\<lambda>i r. if o_valid (f_out (us ! i)) \<and>
                   (case r of None \<Rightarrow> True | Some j \<Rightarrow> o_seq (f_out (us ! i)) < o_seq (f_out (us ! j)))
                 then Some i else r)
       [0..<length us] None"

definition agu_complete :: "nat \<Rightarrow> core \<Rightarrow> core" where
  "agu_complete i c =
     (let x = f_out (oc_agus c ! i);
          c = c\<lparr>oc_agus := (oc_agus c)[i := fu_drain (oc_agus c ! i)],
               oc_lsq := lsq_resolveAddress (o_lsqIdx x)
                 (lsq_fill (o_lsqIdx x) (\<lambda>e. e\<lparr>le_addr := o_value x, le_size := ucast (accessSize (le_op e))\<rparr>)
                    (oc_lsq c))\<rparr>;
          le = lsq_at (o_lsqIdx x) (oc_lsq c);
          c = (if le_addr le mod ucast (le_size le) \<noteq> 0
               then rob_update (o_robIdx x) (\<lambda>e. e\<lparr>re_fault := 1\<rparr>) c
               else if length (bytes (ms_backing (oc_msys c))) < unat (le_addr le) + unat (le_size le)
               then rob_update (o_robIdx x) (\<lambda>e. e\<lparr>re_fault := 2\<rparr>) c else c)
      in if le_isStore le
         then let c = (if le_dataReady le then rob_update (o_robIdx x) (\<lambda>e. e\<lparr>re_done := True\<rparr>) c else c)
              in if cfg_memOrder (oc_cfg c) = Speculative \<and> re_fault (ring_at (oc_rob c) (o_robIdx x)) = 0
                 then violationScan le c else c
         else c)"

text \<open>
  The endless loop ends when no output is valid; every round invalidates one output and none
  becomes valid, so as many rounds as there are units are enough (\<open>aguDrain_empty\<close>).
\<close>

primrec agu_loop :: "nat \<Rightarrow> core \<Rightarrow> core" where
  "agu_loop 0 c = c"
| "agu_loop (Suc n) c = (case agu_ready (oc_agus c) of None \<Rightarrow> c | Some i \<Rightarrow> agu_loop n (agu_complete i c))"

definition aguDrain :: "core \<Rightarrow> core" where
  "aguDrain c = agu_loop (length (oc_agus c)) c"

end
