(* ===== verification/Core_Cycle.thy ===== *)
theory Core_Cycle
  imports Core_Stages
begin

text \<open>
  The second half of the pipeline of \<^verbatim>\<open>core/ooo.cpp\<close>: the memory engine, issue, dispatch and
  fetch, and \<^verbatim>\<open>stepCycle\<close> and \<^verbatim>\<open>run\<close>.
\<close>

section \<open>The memory engine\<close>

definition respond :: "mem_response \<Rightarrow> core \<Rightarrow> core" where
  "respond r c =
     (if is_store_tag (rs_tag r) then c\<lparr>oc_sb := sb_ack (rs_tag r) (oc_sb c)\<rparr>
      else c\<lparr>oc_lsq := lsq_respond (rs_tag r) (rs_rdata r) (oc_lsq c)\<rparr>)"

text \<open>A popped response leaves a shorter queue.\<close>

definition dmem_queue :: "msys \<Rightarrow> mem_response list" where
  "dmem_queue m = (if ms_flat m then d_respQ (ms_dram m) else c_respQ (ms_l1d m))"

lemma dmem_pop_shorter:
  assumes "dmem_hasResponse m"
  shows "length (dmem_queue (dmem_popResponse m)) < length (dmem_queue m)"
  using assms
  by (auto simp: dmem_queue_def dmem_hasResponse_def dmem_popResponse_def dram_hasResponse_def
      dram_popResponse_def cache_hasResponse_def cache_popResponse_def)

lemma respond_msys [simp]: "oc_msys (respond r c) = oc_msys c"
  by (simp add: respond_def)

function drainDataResponses :: "core \<Rightarrow> core" where
  "drainDataResponses c =
     (if dmem_hasResponse (oc_msys c)
      then drainDataResponses (respond (dmem_frontResponse (oc_msys c))
             (c\<lparr>oc_msys := dmem_popResponse (oc_msys c)\<rparr>))
      else c)"
  by pat_completeness auto

termination
  by (relation "measure (\<lambda>c. length (dmem_queue (oc_msys c)))") (simp_all add: dmem_pop_shorter)

declare drainDataResponses.simps [simp del]

text \<open>
  The visitor of the pending updates: store data whose register is ready is captured, and a
  completed load takes a free completion slot.  The number beside the state is \<^verbatim>\<open>nextOutput\<close>.
\<close>

definition capture_store :: "u32 \<Rightarrow> core \<Rightarrow> core" where
  "capture_store i c =
     (let le = lsq_at i (oc_lsq c) in
      if le_isStore le \<and> \<not> le_dataReady le \<and> oc_ready c ! unat (le_dataPreg le)
      then let c = c\<lparr>oc_lsq := lsq_captureStoreData i (oc_val c ! unat (le_dataPreg le)) (oc_lsq c)\<rparr>
           in if le_addrValid le then rob_update (le_robIdx le) (\<lambda>e. e\<lparr>re_done := True\<rparr>) c else c
      else c)"

definition next_output :: "nat \<Rightarrow> fu_op list \<Rightarrow> nat" where
  "next_output k outs =
     (case find (\<lambda>i. \<not> o_valid (outs ! i)) [k..<length outs] of None \<Rightarrow> max k (length outs) | Some i \<Rightarrow> i)"

definition surface_load :: "u32 \<Rightarrow> core \<times> nat \<Rightarrow> core \<times> nat" where
  "surface_load i = (\<lambda>(c, k).
     let le = lsq_at i (oc_lsq c) in
     if \<not> le_isStore le \<and> le_done le \<and> \<not> le_reported le
     then let k = next_output k (oc_loadOuts c) in
       if length (oc_loadOuts c) \<le> k then (c, k)
       else (c\<lparr>oc_loadOuts := (oc_loadOuts c)[k := (oc_loadOuts c ! k)
                \<lparr>o_valid := True, o_seq := le_seq le, o_robIdx := le_robIdx le, o_pdst := le_pdst le,
                 o_value := le_value le\<rparr>],
              oc_wbReady := oc_wbReady c @ [Load_Out k], oc_lsq := lsq_reportLoad i (oc_lsq c)\<rparr>, Suc k)
     else (c, k))"

definition update_visitor :: "(core \<times> nat) visitor" where
  "update_visitor x = (\<lambda>(c, k). (True, surface_load (word_of_nat x) (capture_store (word_of_nat x) c, k)))"

definition lsq_updates :: "core \<Rightarrow> core" where
  "lsq_updates c =
     (if lsq_needsUpdate (oc_lsq c)
      then fst (lsq_visitUpdates (\<lambda>(c, k). oc_lsq c) update_visitor (c, 0)) else c)"

text \<open>What the nearest older store means for a load: wait, take its data, or nothing.\<close>

datatype forwarding = Blocked | Forward u32 | Independent

definition olderStore :: "lsq_entry \<Rightarrow> u32 \<Rightarrow> u32 \<Rightarrow> bool \<Rightarrow> u32 \<Rightarrow> forwarding" where
  "olderStore le addr n dataReady data =
     (if addr = le_addr le \<and> n = ucast (le_size le)
      then if \<not> dataReady then Blocked else Forward (extendLoad (le_op le) data)
      else if overlaps addr n (le_addr le) (ucast (le_size le)) then Blocked else Independent)"

definition lsq_forward :: "nat \<Rightarrow> lsq_entry \<Rightarrow> lsq \<Rightarrow> forwarding" where
  "lsq_forward x le q =
     (if lsq_mayStoreToWord (le_addr le) q
      then lsq_visitOlderStores (\<lambda>d. q) x
             (\<lambda>y d. let st = lsq_at (word_of_nat y) q;
                        d = olderStore le (le_addr st) (ucast (le_size st)) (le_dataReady st) (le_data st)
                    in (d = Independent, d))
             Independent
      else Independent)"

text \<open>The store buffer from its newest entry on.\<close>

primrec sb_forward :: "lsq_entry \<Rightarrow> sb_entry list \<Rightarrow> forwarding" where
  "sb_forward le [] = Independent"
| "sb_forward le (st # sts) =
     (let d = olderStore le (se_addr st) (ucast (se_size st)) True (se_data st)
      in if d = Independent then sb_forward le sts else d)"

definition forward_search :: "nat \<Rightarrow> core \<Rightarrow> forwarding" where
  "forward_search x c =
     (let le = lsq_at (word_of_nat x) (oc_lsq c); b = sb_ring (oc_sb c); d = lsq_forward x le (oc_lsq c)
      in if d = Independent then sb_forward le (map (\<lambda>j. ring_nth b (word_of_nat j)) (rev [0..<unat (ring_count b)]))
         else d)"

text \<open>
  The visitor of the candidates.  Beside the state stands the load chosen for the port, with its
  slot and whether it passes a store of unknown address.
\<close>

definition candidate_visitor :: "u64 \<Rightarrow> u64 \<Rightarrow> (core \<times> (u32 \<times> bool) option) visitor" where
  "candidate_visitor unknownSeq pendingSeq x = (\<lambda>(c, cand).
     let i = word_of_nat x; le = lsq_at i (oc_lsq c); wall = unknownSeq < le_seq le;
         complete = (\<lambda>v c. c\<lparr>oc_lsq := lsq_completeLoad i v (oc_lsq c)\<rparr>);
         cautious = cfg_memOrder (oc_cfg c) \<noteq> Speculative \<or>
           (cfg_depPredictor (oc_cfg c) \<and> 2 \<le> oc_depTable c ! dep_index c (le_pc le));
         go = cfg_memOrder (oc_cfg c) \<noteq> Conservative
     in if pendingSeq < le_seq le then (False, c, cand)
        else if re_fault (ring_at (oc_rob c) (le_robIdx le)) \<noteq> 0 then (True, complete 0 c, cand)
        else if wall \<and> cautious then (True, c, cand)
        else case forward_search x c of
               Forward v \<Rightarrow>
                 let c = count_stat (\<lambda>s. s\<lparr>st_loadsForwarded := st_loadsForwarded s + 1\<rparr>) (complete v c);
                     c = (if wall then count_stat (\<lambda>s. s\<lparr>st_specLoads := st_specLoads s + 1\<rparr>) c else c)
                 in (go, c, cand)
             | Independent \<Rightarrow> (False, c, Some (i, wall))
             | Blocked \<Rightarrow> (go, c, cand))"

definition find_candidate :: "core \<Rightarrow> core \<times> (u32 \<times> bool) option" where
  "find_candidate c =
     (let unknownSeq = lsq_oldestUnknownStore (oc_lsq c);
          pendingSeq = (if cfg_memOrder (oc_cfg c) = Conservative then lsq_oldestPendingLoad (oc_lsq c) else - 1)
      in lsq_visitCandidates (\<lambda>(c, cand). oc_lsq c) (candidate_visitor unknownSeq pendingSeq) (c, None))"

text \<open>The store at the front of the unissued ones goes to the cache.\<close>

definition send_store :: "core \<Rightarrow> core result" where
  "send_store c =
     (let st = ring_at (sb_ring (oc_sb c)) (sb_nextIssueSlot (oc_sb c));
          (tag, b) = sb_send (oc_sbTxnCtr c) (oc_sb c);
          req = mem_request0\<lparr>rq_addr := se_addr st, rq_size := ucast (se_size st), rq_isWrite := True,
                             rq_wdata := se_data st, rq_tag := tag\<rparr>
      in bind_result (dmem_access req (oc_msys c)) (\<lambda>m.
           Inr (c\<lparr>oc_sb := b, oc_sbTxnCtr := oc_sbTxnCtr c + 1, oc_msys := m\<rparr>)))"

definition send_load :: "u32 \<Rightarrow> bool \<Rightarrow> core \<Rightarrow> core result" where
  "send_load i speculative c =
     (let le = lsq_at i (oc_lsq c);
          req = mem_request0\<lparr>rq_addr := le_addr le, rq_size := ucast (le_size le), rq_tag := load_tag i (le_gen le)\<rparr>;
          c = c\<lparr>oc_lsq := lsq_issueLoad i (oc_lsq c)\<rparr>;
          c = (if speculative then count_stat (\<lambda>s. s\<lparr>st_specLoads := st_specLoads s + 1\<rparr>) c else c)
      in bind_result (dmem_access req (oc_msys c)) (\<lambda>m. Inr (c\<lparr>oc_msys := m\<rparr>)))"

text \<open>One access of the data port; the flag is \<^verbatim>\<open>sent\<close>.\<close>

definition port_access :: "core \<Rightarrow> (bool \<times> core) result" where
  "port_access c =
     (let (c, cand) = find_candidate c in
      if sb_nextToIssue (oc_sb c) \<noteq> None \<and> (ring_full (sb_ring (oc_sb c)) \<or> cand = None)
      then if dmem_canAccept (oc_msys c) then bind_result (send_store c) (\<lambda>c. Inr (True, c)) else Inr (False, c)
      else case cand of
             None \<Rightarrow> Inr (False, c)
           | Some (i, speculative) \<Rightarrow>
               if dmem_canAccept (oc_msys c) then bind_result (send_load i speculative c) (\<lambda>c. Inr (True, c))
               else Inr (False, c))"

primrec port_loop :: "nat \<Rightarrow> core \<Rightarrow> core result" where
  "port_loop 0 c = Inr c"
| "port_loop (Suc n) c =
     bind_result (port_access c) (\<lambda>(sent, c). if sent then port_loop n c else Inr c)"

definition lsqOperate :: "core \<Rightarrow> core result" where
  "lsqOperate c =
     (let c = drainDataResponses c; c = lsq_updates (c\<lparr>oc_sb := sb_drain (oc_sb c)\<rparr>)
      in bind_result (port_loop (unat (cfg_dataPorts (oc_cfg c))) c) (\<lambda>c.
           let c = drainDataResponses c
           in Inr (if lsq_hasPendingLoads (oc_lsq c)
                   then count_stat (\<lambda>s. s\<lparr>st_dataStallCycles := st_dataStallCycles s + 1\<rparr>) c else c)))"

section \<open>Issue\<close>

text \<open>The position the search for a free unit stops at.\<close>

definition next_free :: "fu_unit list \<Rightarrow> nat \<Rightarrow> nat \<Rightarrow> nat" where
  "next_free us k n = (case find (\<lambda>i. fu_canAccept (us ! i)) [k..<n] of None \<Rightarrow> max k n | Some i \<Rightarrow> i)"

datatype unit_ref = Wb_Unit nat | Agu_Unit nat

primrec unit_at :: "core \<Rightarrow> unit_ref \<Rightarrow> fu_unit" where
  "unit_at c (Wb_Unit i) = oc_units c ! i"
| "unit_at c (Agu_Unit i) = oc_agus c ! i"

primrec unit_accept :: "unit_ref \<Rightarrow> fu_op \<Rightarrow> core \<Rightarrow> core" where
  "unit_accept (Wb_Unit i) x c = c\<lparr>oc_units := (oc_units c)[i := fu_accept x (oc_units c ! i)]\<rparr>"
| "unit_accept (Agu_Unit i) x c = c\<lparr>oc_agus := (oc_agus c)[i := fu_accept x (oc_agus c ! i)]\<rparr>"

text \<open>The state of the visitor: the core, \<^verbatim>\<open>issued\<close>, \<^verbatim>\<open>nextAlu\<close> and \<^verbatim>\<open>nextAgu\<close>.\<close>

type_synonym issue_state = "core \<times> nat \<times> nat \<times> nat"

definition pick_unit :: "fuKind \<Rightarrow> issue_state \<Rightarrow> unit_ref option \<times> issue_state" where
  "pick_unit k = (\<lambda>(c, n, a, g).
     case k of
       FU_ALU \<Rightarrow> let a = next_free (oc_units c) a (alu_count c) in
                 if a < alu_count c then (Some (Wb_Unit a), c, n, Suc a, g) else (None, c, n, a, g)
     | FU_BRANCH \<Rightarrow> (Some (Wb_Unit (alu_count c)), c, n, a, g)
     | FU_MUL \<Rightarrow> (Some (Wb_Unit (alu_count c + 1)), c, n, a, g)
     | FU_DIV \<Rightarrow> (Some (Wb_Unit (alu_count c + 2)), c, n, a, g)
     | FU_LSU \<Rightarrow> let g = next_free (oc_agus c) g (length (oc_agus c)) in
                 if g < length (oc_agus c) then (Some (Agu_Unit g), c, n, a, Suc g) else (None, c, n, a, g)
     | FU_NONE \<Rightarrow> (None, c, n, a, g))"

text \<open>\<open>execute\<close> is defined for every instruction (\<open>execute_defined\<close>), so \<open>the\<close> takes a value that is there.\<close>

definition issue_op :: "iq_entry \<Rightarrow> core \<Rightarrow> fu_op" where
  "issue_op q c =
     (let e = ring_at (oc_rob c) (q_robIdx q);
          r = the (execute (re_ins e) (re_pc e) (oc_val c ! unat (q_ps1 q)) (oc_val c ! unat (q_ps2 q)))
      in fu_op0\<lparr>o_valid := True, o_seq := q_seq q, o_robIdx := q_robIdx q, o_lsqIdx := q_lsqIdx q,
                o_pdst := re_pdst e, o_value := x_value r, o_redirect := x_redirect r, o_target := x_target r\<rparr>)"

definition issue_visitor :: "issue_state visitor" where
  "issue_visitor x = (\<lambda>s0.
     let q = iq_e (oc_iq (fst s0)) ! x; (u, c, n, a, g) = pick_unit (q_unit q) s0
     in case u of
          None \<Rightarrow> (True, c, n, a, g)
        | Some u \<Rightarrow>
            if \<not> fu_canAccept (unit_at c u) then (True, c, n, a, g)
            else let c = unit_accept u (issue_op q c) c; c = c\<lparr>oc_iq := iq_release x (oc_iq c)\<rparr>;
                     c = count_stat (\<lambda>s. s\<lparr>st_issuedOps := st_issuedOps s + 1\<rparr>) c
                 in (Suc n < unat (cfg_width (oc_cfg c)), c, Suc n, a, g))"

definition issueStage :: "core \<Rightarrow> core" where
  "issueStage c =
     fst (iq_visitReady (\<lambda>(c, n, a, g). oc_iq c) (unat (ring_indexOf (oc_rob c) 0)) issue_visitor (c, 0, 0, 0))"

section \<open>Dispatch\<close>

text \<open>
  The resource that stops an instruction, if any: its stall counter.  A stall is counted for the
  first instruction of the cycle only.
\<close>

definition dispatch_stall :: "bool \<Rightarrow> instr \<Rightarrow> core \<Rightarrow> (stats \<Rightarrow> stats) option" where
  "dispatch_stall first I c =
     (let sys = (fuKindOf (ins_op I) = FU_NONE); mem = (isLoad (ins_op I) \<or> isStore (ins_op I));
          hasDest = (writesRd (ins_op I) \<and> ins_rd I \<noteq> 0)
      in if sys \<and> (\<not> first \<or> \<not> ring_empty (oc_rob c) \<or> \<not> ring_empty (sb_ring (oc_sb c)))
         then Some (\<lambda>s. s\<lparr>st_dsSerialize := st_dsSerialize s + 1\<rparr>)
         else if ring_full (oc_rob c) then Some (\<lambda>s. s\<lparr>st_dsRobFull := st_dsRobFull s + 1\<rparr>)
         else if mem \<and> ring_full (l_ring (oc_lsq c)) then Some (\<lambda>s. s\<lparr>st_dsLsqFull := st_dsLsqFull s + 1\<rparr>)
         else if iq_full (oc_iq c) then Some (\<lambda>s. s\<lparr>st_dsIqFull := st_dsIqFull s + 1\<rparr>)
         else if hasDest \<and> ring_empty (oc_free c) then Some (\<lambda>s. s\<lparr>st_dsNoPreg := st_dsNoPreg s + 1\<rparr>)
         else None)"

text \<open>The entry of the reorder buffer as allocated, before renaming.\<close>

definition dispatch_entry :: "u64 \<Rightarrow> fetched \<Rightarrow> instr \<Rightarrow> rob_entry" where
  "dispatch_entry seq f I =
     rob_entry0\<lparr>re_seq := seq, re_pc := ft_pc f, re_ins := I, re_predBefore := ft_predBefore f\<rparr>"

text \<open>Renaming the destination.\<close>

definition rename_dest :: "u32 \<Rightarrow> instr \<Rightarrow> core \<Rightarrow> core" where
  "rename_dest idx I c =
     (if writesRd (ins_op I) \<and> ins_rd I \<noteq> 0
      then let p = ring_head (oc_free c); prev = oc_map c ! unat (ins_rd I) in
           rob_update idx (\<lambda>e. e\<lparr>re_pdst := p, re_prevPhys := prev\<rparr>)
             (c\<lparr>oc_free := ring_popHead (oc_free c), oc_map := (oc_map c)[unat (ins_rd I) := p],
                oc_ready := (oc_ready c)[unat p := False]\<rparr>)
      else c)"

text \<open>The load/store queue entry; the index is 0 for other instructions.\<close>

definition dispatch_mem :: "u64 \<Rightarrow> u32 \<Rightarrow> u8 \<Rightarrow> u32 \<Rightarrow> instr \<Rightarrow> core \<Rightarrow> u32 \<times> core" where
  "dispatch_mem seq idx ps2 pc I c =
     (if isLoad (ins_op I) \<or> isStore (ins_op I)
      then let (li, q) = lsq_enter seq idx pc (ins_op I) (re_pdst (ring_at (oc_rob c) idx)) ps2
                           (oc_ready c ! unat ps2) (oc_val c ! unat ps2) (oc_lsq c)
           in (li, c\<lparr>oc_lsq := q\<rparr>)
      else (0, c))"

definition dispatch_iq :: "u64 \<Rightarrow> u32 \<Rightarrow> u32 \<Rightarrow> u8 \<Rightarrow> u8 \<Rightarrow> instr \<Rightarrow> core \<Rightarrow> core" where
  "dispatch_iq seq idx li ps1 ps2 I c =
     (case iq_allocate idx (oc_iq c) of
        None \<Rightarrow> c
      | Some q \<Rightarrow>
          c\<lparr>oc_iq := iq_track (unat idx)
              (\<not> usesRs1 (ins_op I) \<or> oc_ready c ! unat ps1)
              (\<not> usesRs2 (ins_op I) \<or> isStore (ins_op I) \<or> oc_ready c ! unat ps2)
              (iq_fill (unat idx)
                 (\<lambda>e. e\<lparr>q_seq := seq, q_lsqIdx := li, q_unit := fuKindOf (ins_op I), q_ps1 := ps1, q_ps2 := ps2\<rparr>) q)\<rparr>)"

definition dispatch_normal :: "u64 \<Rightarrow> u32 \<Rightarrow> fetched \<Rightarrow> instr \<Rightarrow> core \<Rightarrow> core" where
  "dispatch_normal seq idx f I c =
     (let ps1 = oc_map c ! unat (ins_rs1 I); ps2 = oc_map c ! unat (ins_rs2 I);
          c = rename_dest idx I c;
          c = rob_update idx (\<lambda>e. e\<lparr>re_isMem := isLoad (ins_op I) \<or> isStore (ins_op I)\<rparr>) c;
          (li, c) = dispatch_mem seq idx ps2 (ft_pc f) I c;
          c = (if fuKindOf (ins_op I) = FU_BRANCH
               then rob_update idx (\<lambda>e. e\<lparr>re_isBranch := True, re_predictedTaken := ft_predTaken f,
                      re_predictedTarget := ft_predTarget f, re_predIdx := ft_predIdx f\<rparr>) c
               else c)
      in dispatch_iq seq idx li ps1 ps2 I c)"

text \<open>The instruction leaves the fetch queue and takes an entry of the reorder buffer.\<close>

definition dispatch_alloc :: "fetched \<Rightarrow> instr \<Rightarrow> core \<Rightarrow> u32 \<times> core" where
  "dispatch_alloc f I c =
     (let c = (if oc_recTimerArmed c
               then (count_stat (\<lambda>s. s\<lparr>st_recoveryLossCycles :=
                       st_recoveryLossCycles s + (st_cycles s - oc_recTimerStart c)\<rparr>) c)\<lparr>oc_recTimerArmed := False\<rparr>
               else c);
          (idx, r) = ring_alloc rob_entry0 (oc_rob c)
      in (idx, c\<lparr>oc_fetchQ := ring_popHead (oc_fetchQ c), oc_seqCtr := oc_seqCtr c + 1,
                oc_rob := ring_put idx (dispatch_entry (oc_seqCtr c) f I) r\<rparr>))"

text \<open>A system instruction is done at once and captures the argument registers.\<close>

definition dispatch_system :: "u32 \<Rightarrow> core \<Rightarrow> core" where
  "dispatch_system idx c =
     rob_update idx (\<lambda>e. e\<lparr>re_done := True, re_isSystem := True, re_sysA0 := oc_map c ! 10,
       re_sysA7 := oc_map c ! 17\<rparr>) c"

text \<open>One instruction; the flag says that the loop goes on.\<close>

definition dispatch_one :: "bool \<Rightarrow> core \<Rightarrow> bool \<times> core" where
  "dispatch_one first c =
     (if ring_empty (oc_fetchQ c)
      then (False, if first then count_stat (\<lambda>s. s\<lparr>st_dsFetchEmpty := st_dsFetchEmpty s + 1\<rparr>) c else c)
      else
        let f = ring_head (oc_fetchQ c); I = decode (ft_raw f) in
        case dispatch_stall first I c of
          Some st \<Rightarrow> (False, if first then count_stat st c else c)
        | None \<Rightarrow>
            let seq = oc_seqCtr c; (idx, c) = dispatch_alloc f I c
            in if fuKindOf (ins_op I) = FU_NONE then (False, dispatch_system idx c)
               else (True, dispatch_normal seq idx f I c))"

primrec dispatch_loop :: "nat \<Rightarrow> bool \<Rightarrow> core \<Rightarrow> core" where
  "dispatch_loop 0 first c = c"
| "dispatch_loop (Suc n) first c =
     (let (go, c) = dispatch_one first c in if go then dispatch_loop n False c else c)"

definition dispatchStage :: "core \<Rightarrow> core" where
  "dispatchStage c = dispatch_loop (unat (cfg_width (oc_cfg c))) True c"

section \<open>Fetch\<close>

text \<open>The loop over the words of a block; a predicted taken branch leaves it.\<close>

definition fetch_word :: "mem_response \<Rightarrow> nat \<Rightarrow> core \<Rightarrow> bool \<times> core" where
  "fetch_word r idx c =
     (let b = (\<lambda>k. ucast (rs_rline r ! (idx * 4 + k)) :: u32);
          raw = b 0 OR push_bit 8 (b 1) OR push_bit 16 (b 2) OR push_bit 24 (b 3);
          wpc = oc_fBlock c + word_of_nat idx * 4;
          (p, pd) = (if cfg_usePredictor (oc_cfg c) then predict wpc (oc_pred c)
                     else (\<lparr>pr_taken = False, pr_target = 0, pr_phtIdx = 0, pr_before = checkpoint0\<rparr>, oc_pred c));
          c = c\<lparr>oc_pred := pd, oc_fetchQ := ring_push fetched0
                 \<lparr>ft_pc = wpc, ft_raw = raw, ft_predTaken = pr_taken p, ft_predTarget = pr_target p,
                  ft_predIdx = pr_phtIdx p, ft_predBefore = pr_before p\<rparr> (oc_fetchQ c)\<rparr>
      in if pr_taken p then (False, c\<lparr>oc_pc := pr_target p\<rparr>) else (True, c))"

primrec fetch_words :: "mem_response \<Rightarrow> nat list \<Rightarrow> core \<Rightarrow> core" where
  "fetch_words r [] c = c\<lparr>oc_pc := oc_fBlock c + fBytes c\<rparr>"
| "fetch_words r (i # xs) c = (let (go, c) = fetch_word r i c in if go then fetch_words r xs c else c)"

definition processFetch :: "mem_response \<Rightarrow> core \<Rightarrow> core" where
  "processFetch r c =
     fetch_words r [unat ((oc_fFetchPc c - oc_fBlock c) div 4)..<unat (fBytes c div 4)] c"

definition fetch_consume :: "core \<Rightarrow> core" where
  "fetch_consume c =
     (let r = imem_frontResponse (oc_msys c); c = c\<lparr>oc_fOutstanding := False\<rparr>;
          c = (if oc_fStale c then c\<lparr>oc_fStale := False\<rparr> else processFetch r c)
      in c\<lparr>oc_msys := imem_popResponse (oc_msys c)\<rparr>)"

text \<open>The request for the next block.\<close>

definition fetch_request :: "core \<Rightarrow> core result" where
  "fetch_request c =
     (let addr = oc_pc c AND NOT (fBytes c - 1);
          req = mem_request0\<lparr>rq_addr := addr, rq_size := fBytes c\<rparr>
      in bind_result (imem_access req (oc_msys c)) (\<lambda>m.
           let c = c\<lparr>oc_msys := m, oc_fOutstanding := True, oc_fBlock := addr, oc_fFetchPc := oc_pc c\<rparr>
           in Inr (if imem_hasResponse m then fetch_consume c else c)))"

definition fetchStage :: "core \<Rightarrow> core result" where
  "fetchStage c =
     (let c = (if oc_fOutstanding c \<and> imem_hasResponse (oc_msys c) then fetch_consume c else c);
          wait = count_stat (\<lambda>s. s\<lparr>st_badFetchWaitCycles := st_badFetchWaitCycles s + 1\<rparr>) c
      in if oc_fOutstanding c \<or> oc_pendRedirect c \<or>
            cfg_fetchQSize (oc_cfg c) < ring_count (oc_fetchQ c) + fBytes c div 4
         then Inr c
         else if oc_pc c mod 4 \<noteq> 0 then Inr wait
         else if length (bytes (ms_backing (oc_msys c))) \<le> unat (oc_pc c)
         then if ring_empty (oc_rob c) \<and> ring_count (oc_fetchQ c) = 0
              then Inl (OutOfRange (oc_pc c) ''instruction fetch'') else Inr wait
         else if \<not> imem_canAccept (oc_msys c) then Inr c
         else fetch_request c)"

section \<open>One cycle, and the run\<close>

definition sample_occupancy :: "core \<Rightarrow> core" where
  "sample_occupancy c =
     count_stat (\<lambda>s. s\<lparr>st_cycles := st_cycles s + 1,
       st_robOccSum := st_robOccSum s + ucast (ring_count (oc_rob c)),
       st_iqOccSum := st_iqOccSum s + ucast (iq_count (oc_iq c)),
       st_lsqOccSum := st_lsqOccSum s + ucast (ring_count (l_ring (oc_lsq c))),
       st_sbOccSum := st_sbOccSum s + ucast (ring_count (sb_ring (oc_sb c))),
       st_pregsUsedSum := st_pregsUsedSum s +
         ucast (cfg_physRegs (oc_cfg c) - 32 - ring_count (oc_free c))\<rparr>) c"

definition apply_redirect :: "core \<Rightarrow> core" where
  "apply_redirect c =
     (if oc_pendRedirect c
      then (if oc_fOutstanding c then c\<lparr>oc_fStale := True\<rparr> else c)
             \<lparr>oc_pc := oc_pendTarget c, oc_pendRedirect := False\<rparr>
      else c)"

text \<open>The clock edge of the units: a result that appears enters \<^verbatim>\<open>wbReady\<close>.\<close>

definition tick_unit :: "nat \<Rightarrow> core \<Rightarrow> core" where
  "tick_unit i c =
     (let (fired, u) = fu_tick (oc_units c ! i); c = c\<lparr>oc_units := (oc_units c)[i := u]\<rparr>
      in if fired then c\<lparr>oc_wbReady := oc_wbReady c @ [Unit_Out i]\<rparr> else c)"

definition clock_edge :: "core \<Rightarrow> core result" where
  "clock_edge c =
     (let c = apply_redirect c; c = fold tick_unit [0..<length (oc_units c)] c;
          c = c\<lparr>oc_agus := map (\<lambda>u. snd (fu_tick u)) (oc_agus c)\<rparr>
      in bind_result (msys_tick (oc_msys c)) (\<lambda>m. Inr (c\<lparr>oc_msys := m\<rparr>)))"

definition stepCycle :: "core \<Rightarrow> core io" where
  "stepCycle c =
     bind_io (commitStage (sample_occupancy c)) (\<lambda>c.
       if oc_halted c then Some (Inr c)
       else Some (bind_result (lsqOperate (aguDrain (writebackStage c))) (\<lambda>c.
              bind_result (fetchStage (dispatchStage (issueStage c))) clock_edge)))"

text \<open>
  \<^verbatim>\<open>run\<close>, without the report it prints: a cycle at a time until the machine halts or the budget
  is used up.  A run that does not end is \<open>None\<close>.
\<close>

partial_function (option) core_run :: "core \<Rightarrow> core result option" where
  "core_run c =
     (if oc_halted c then Some (Inr c)
      else if cfg_maxCycles (oc_cfg c) \<le> st_cycles (oc_stats c) then Some (Inr (c\<lparr>oc_exitCode := 2\<rparr>))
      else (case stepCycle c of
              None \<Rightarrow> None
            | Some (Inl e) \<Rightarrow> Some (Inl e)
            | Some (Inr c) \<Rightarrow> core_run c))"

end
