(* ===== verification/Frames.thy ===== *)
theory Frames
  imports Issue_Queue Lsq
begin

text \<open>
  What a walk leaves: a property every visit preserves is preserved by the walks over slot sets
  and over the issue queue; and the image of a ring under a projection of its entries, which
  commutes with the operations of the ring.
\<close>

section \<open>Walks preserve what every visit preserves\<close>

definition keeps :: "('s \<Rightarrow> bool) \<Rightarrow> 's visitor \<Rightarrow> bool" where
  "keeps P f \<longleftrightarrow> (\<forall>x s. P s \<longrightarrow> P (snd (f x s)))"

lemma keepsI: "(\<And>x s. P s \<Longrightarrow> P (snd (f x s))) \<Longrightarrow> keeps P f"
  by (simp add: keeps_def)

lemma snd_split: "P (snd x) \<Longrightarrow> x = (a, b) \<Longrightarrow> P b"
  by simp

lemma forwardBits_keeps: "keeps P f \<Longrightarrow> P s \<Longrightarrow> P (snd (forwardBits f bits base s))"
proof (induction f bits base s rule: forwardBits.induct)
  case (1 f bits base s)
  have v: "P (snd (f (base + ctz64 bits) s))" using "1.prems" by (simp add: keeps_def)
  show ?case
  proof (cases "bits = 0")
    case True
    then show ?thesis using "1.prems" by (simp add: forwardBits.simps)
  next
    case False
    then show ?thesis
      using v "1.prems" "1.IH" [OF False]
      by (cases "f (base + ctz64 bits) s") (subst forwardBits.simps, auto)
  qed
qed

lemma reverseBits_keeps: "keeps P f \<Longrightarrow> P s \<Longrightarrow> P (snd (reverseBits f bits base s))"
proof (induction f bits base s rule: reverseBits.induct)
  case (1 f bits base s)
  have v: "P (snd (f (base + (63 - clz64 bits)) s))" using "1.prems" by (simp add: keeps_def)
  show ?case
  proof (cases "bits = 0")
    case True
    then show ?thesis using "1.prems" by (simp add: reverseBits.simps)
  next
    case False
    then show ?thesis
      using v "1.prems" "1.IH" [OF False refl]
      by (cases "f (base + (63 - clz64 bits)) s") (subst reverseBits.simps, auto simp: Let_def)
  qed
qed

lemma forward_words_keeps: "keeps P f \<Longrightarrow> P s \<Longrightarrow> P (snd (forward_words getw f b e ws s))"
proof (induction ws arbitrary: s)
  case (Cons w ws)
  obtain go s' where v: "forwardBits f (masked_word (getw s) b e w) (w * 64) s = (go, s')" by fastforce
  have "P s'" using forwardBits_keeps [OF Cons.prems] v by (rule snd_split)
  then show ?case unfolding forward_words_Cons v prod.case using Cons by simp
qed simp

lemma reverse_words_keeps: "keeps P f \<Longrightarrow> P s \<Longrightarrow> P (snd (reverse_words getw f b e ws s))"
proof (induction ws arbitrary: s)
  case (Cons w ws)
  obtain go s' where v: "reverseBits f (masked_word (getw s) b e w) (w * 64) s = (go, s')" by fastforce
  have "P s'" using reverseBits_keeps [OF Cons.prems] v by (rule snd_split)
  then show ?case unfolding reverse_words_Cons v prod.case using Cons by simp
qed simp

lemma visit_words_keeps: "keeps P f \<Longrightarrow> P s \<Longrightarrow> P (snd (visit_words getw f ws s))"
proof (induction ws arbitrary: s)
  case (Cons w ws)
  obtain go s' where v: "forwardBits f (getw s ! w) (w * 64) s = (go, s')" by fastforce
  then show ?case using forwardBits_keeps [OF Cons.prems, of "getw s ! w" "w * 64"] Cons by simp
qed simp

lemma forward_keeps: "keeps P f \<Longrightarrow> P s \<Longrightarrow> P (snd (forward getw f b e s))"
  by (simp add: forward_def forward_words_keeps)

lemma reverse_keeps: "keeps P f \<Longrightarrow> P s \<Longrightarrow> P (snd (reverse getw f b e s))"
  by (simp add: reverse_def reverse_words_keeps)

lemma ss_visit_keeps:
  assumes f: "keeps P f" and s: "P s"
  shows "P (ss_visit capacity getw head f s)"
proof (cases "capacity \<le> 64")
  case True
  obtain g1 s1 where 1: "forwardBits f (getw s ! 0 AND push_bit head (- 1)) 0 s = (g1, s1)" by fastforce
  have p1: "P s1" using forwardBits_keeps [OF f s] 1 by (rule snd_split)
  show ?thesis
    unfolding ss_visit_def if_P [OF True] 1 prod.case using p1 forwardBits_keeps [OF f p1] by simp
next
  case False
  obtain g1 s1 where 1: "forward getw f head capacity s = (g1, s1)" by fastforce
  have p1: "P s1" using forward_keeps [OF f s] 1 by (rule snd_split)
  show ?thesis
    unfolding ss_visit_def if_not_P [OF False] 1 prod.case using p1 forward_keeps [OF f p1] by simp
qed

lemma ss_visitOlder_keeps:
  assumes f: "keeps P f" and s: "P s"
  shows "P (ss_visitOlder capacity getw head e f s)"
proof (cases "head \<le> e")
  case True
  then show ?thesis using reverse_keeps [OF assms] by (simp add: ss_visitOlder_def)
next
  case False
  obtain g1 s1 where 1: "reverse getw f 0 e s = (g1, s1)" by fastforce
  have p1: "P s1" using reverse_keeps [OF f s] 1 by (rule snd_split)
  show ?thesis
    unfolding ss_visitOlder_def if_not_P [OF False] 1 prod.case using p1 reverse_keeps [OF f p1] by simp
qed

lemma iq_visitReady_keeps: 
  assumes f: "keeps P f" and s: "P s"
  shows "P (iq_visitReady getq robHead f s)"
proof -
  let ?w = "\<lambda>s. iq_ready (getq s)" and ?u = "push_bit (robHead mod 64) (- 1) :: u64" and ?h = "robHead div 64"
  obtain g1 s1 where 1: "forwardBits f (?w s ! ?h AND ?u) (?h * 64) s = (g1, s1)" by fastforce
  obtain g2 s2 where 2: "visit_words ?w f [Suc ?h..<iq_words (getq s)] s1 = (g2, s2)" by fastforce
  obtain g3 s3 where 3: "visit_words ?w f [0..<?h] s2 = (g3, s3)" by fastforce
  have p1: "P s1" using forwardBits_keeps [OF f s] 1 by (rule snd_split)
  have p2: "P s2" using visit_words_keeps [OF f p1] 2 by (rule snd_split)
  have p3: "P s3" using visit_words_keeps [OF f p2] 3 by (rule snd_split)
  obtain g4 s4 where 4: "forwardBits f (?w s3 ! ?h AND NOT ?u) (?h * 64) s3 = (g4, s4)" by fastforce
  have p4: "P s4" using forwardBits_keeps [OF f p3] 4 by (rule snd_split)
  show ?thesis
    unfolding iq_visitReady_def Let_def 1 prod.case 2 3 4 snd_conv using p1 p2 p3 p4 by simp
qed

section \<open>The image of a ring\<close>

definition ring_map :: "('a \<Rightarrow> 'b) \<Rightarrow> 'a ring \<Rightarrow> 'b ring" where
  "ring_map f r = \<lparr>r_e = map f (r_e r), r_capacity = r_capacity r, r_headIdx = r_headIdx r, r_n = r_n r\<rparr>"

lemma ring_map_sel [simp]:
  "r_e (ring_map f r) = map f (r_e r)" "r_capacity (ring_map f r) = r_capacity r"
  "r_headIdx (ring_map f r) = r_headIdx r" "r_n (ring_map f r) = r_n r"
  "ring_indexOf (ring_map f r) = ring_indexOf r"
  "ring_empty (ring_map f r) = ring_empty r" "ring_full (ring_map f r) = ring_full r"
  "ring_ok (ring_map f r) = ring_ok r"
  by (auto simp: ring_map_def ring_indexOf_def ring_empty_def ring_full_def ring_ok_def fun_eq_iff Let_def)

lemma ring_map_list:
  assumes "ring_ok r"
  shows "ring_list (ring_map f r) = map f (ring_list r)"
proof -
  have "Ring_Buffer.slot r k < length (r_e r)" for k
    using slot_less [OF assms, of k] assms by (simp add: ring_ok_def)
  then show ?thesis by (simp add: ring_list_def Ring_Buffer.slot_def)
qed

lemma ring_map_put [simp]: "ring_map f (ring_put i v r) = ring_put i (f v) (ring_map f r)"
  by (simp add: ring_map_def ring_put_def map_update)

text \<open>An update that keeps the projection of the entry keeps the image.\<close>

lemma ring_map_update:
  assumes "\<And>e. f (g e) = f e"
  shows "ring_map f (ring_put i (g (ring_at r i)) r) = ring_map f r"
proof (cases "unat i < length (r_e r)")
  case True
  then have "map f ((r_e r)[unat i := g (r_e r ! unat i)]) = map f (r_e r)"
    by (simp add: map_update assms list_update_same_conv)
  then show ?thesis by (simp add: ring_map_def ring_put_def ring_at_def)
next
  case False
  then show ?thesis by (simp add: ring_map_def ring_put_def list_update_beyond)
qed

lemma ring_map_pop [simp]:
  "ring_map f (ring_popHead r) = ring_popHead (ring_map f r)"
  "ring_map f (ring_popTail r) = ring_popTail (ring_map f r)"
  by (simp_all add: ring_map_def ring_popHead_def ring_popTail_def ring_indexOf_def Let_def)

text \<open>Allocating and then filling in an entry is a push.\<close>

lemma ring_map_alloc:
  assumes "ring_alloc d r = (i, r')"
  shows "ring_map f (ring_put i v r') = ring_push (f d) (f v) (ring_map f r)"
proof -
  have i: "i = ring_indexOf r (r_n r)" and r': "r' = (ring_put i d r)\<lparr>r_n := r_n r + 1\<rparr>"
    using assms by (auto simp: ring_alloc_def Let_def)
  show ?thesis
    by (simp add: i r' ring_push_def ring_alloc_def Let_def)
      (simp add: ring_map_def ring_put_def map_update)
qed

lemma ring_map_front:
  assumes "ring_ok r" "r_n r \<noteq> 0"
  shows "ring_head (ring_map f r) = f (ring_head r)" "ring_tail (ring_map f r) = f (ring_tail r)"
proof -
  have ne: "ring_list r \<noteq> []" using assms by (simp add: ring_list_Nil)
  have ok: "ring_ok (ring_map f r)" "ring_list (ring_map f r) = map f (ring_list r)"
    using assms(1) by (simp_all add: ring_map_list)
  show "ring_head (ring_map f r) = f (ring_head r)"
    using rb.front_abs [OF assms(1) ne] rb.front_abs [OF ok(1)] ne by (simp add: ok(2) hd_map)
  show "ring_tail (ring_map f r) = f (ring_tail r)"
    using rb.rear_abs [OF assms(1) ne] rb.rear_abs [OF ok(1)] ne by (simp add: ok(2) last_map)
qed

text \<open>The entry a push adds, and overwriting it.\<close>

lemma ring_put_push: "ring_put (ring_indexOf r (r_n r)) w (ring_push d v r) = ring_push d w r"
  by (simp add: ring_push_def ring_alloc_def Let_def)

lemma ring_at_push:
  assumes "ring_ok r" "\<not> ring_full r"
  shows "ring_at (ring_push d v r) (ring_indexOf r (r_n r)) = v"
proof -
  have "unat (ring_indexOf r (r_n r)) < length (r_e r)"
    using ring_alloc_ok(3) [OF assms, of d] slot_less [OF assms(1), of "unat (r_n r)"] assms(1)
    by (simp add: ring_alloc_def Let_def ring_ok_def)
  then show ?thesis by (simp add: ring_push_def ring_alloc_def Let_def ring_at_def ring_put_def)
qed

end
