(* ===== verification/Core_Rename.thy ===== *)
theory Core_Rename
  imports Core_Cycle Frames "HOL-Library.Multiset"
begin

text \<open>
  Register renaming across the whole pipeline.  The part of the state that renaming lives in is
  projected out; every stage either keeps the projection or changes it by one of three moves:
  a dispatched instruction takes a register, a committed one frees the register it displaced, a
  squashed one is undone.  The invariant says that the map is the committed map with the
  destinations of the instructions in flight on top, that each of them remembers what it displaced,
  and that every physical register is in exactly one place.
\<close>

section \<open>The projection\<close>

record rename =
  n_pdst :: u8
  n_prev :: u8
  n_rd :: u8
  n_seq :: u64
  n_sys :: bool

definition name_of :: "rob_entry \<Rightarrow> rename" where
  "name_of e = \<lparr>n_pdst = re_pdst e, n_prev = re_prevPhys e, n_rd = ins_rd (re_ins e), n_seq = re_seq e,
     n_sys = re_isSystem e\<rparr>"

record view =
  v_map :: "u8 list"
  v_free :: "u8 ring"
  v_rob :: "rename ring"
  v_seqCtr :: u64
  v_cfg :: sim_config
  v_cycles :: u64

definition view :: "core \<Rightarrow> view" where
  "view c =
     \<lparr>v_map = oc_map c, v_free = oc_free c, v_rob = ring_map name_of (oc_rob c), v_seqCtr = oc_seqCtr c,
      v_cfg = oc_cfg c, v_cycles = st_cycles (oc_stats c)\<rparr>"

section \<open>The invariant\<close>

text \<open>The effect of an instruction on the map, and the registers that instructions own.\<close>

definition rename_upd :: "rename \<Rightarrow> u8 list \<Rightarrow> u8 list" where
  "rename_upd e m = (if n_pdst e \<noteq> kNoReg then m[unat (n_rd e) := n_pdst e] else m)"

definition renamed :: "rename list \<Rightarrow> u8 list \<Rightarrow> u8 list" where
  "renamed es m = fold rename_upd es m"

definition owned :: "rename list \<Rightarrow> u8 list" where
  "owned es = map n_pdst (filter (\<lambda>e. n_pdst e \<noteq> kNoReg) es)"

primrec chained :: "u8 list \<Rightarrow> rename list \<Rightarrow> bool" where
  "chained m [] = True"
| "chained m (e # es) =
     ((n_pdst e \<noteq> kNoReg \<longrightarrow> n_prev e = m ! unat (n_rd e) \<and> n_rd e \<noteq> 0 \<and> unat (n_rd e) < 32) \<and>
      (n_sys e \<longrightarrow> n_pdst e = kNoReg) \<and> chained (rename_upd e m) es)"

definition all_regs :: "nat \<Rightarrow> u8 multiset" where
  "all_regs P = mset (map word_of_nat [0..<P])"

definition rename_inv :: "u8 list \<Rightarrow> view \<Rightarrow> bool" where
  "rename_inv arch v \<longleftrightarrow>
     (let es = ring_list (v_rob v); P = unat (cfg_physRegs (v_cfg v)) in
      ring_ok (v_rob v) \<and> ring_ok (v_free v) \<and> 33 \<le> P \<and> P \<le> 255 \<and> r_capacity (v_free v) = cfg_physRegs (v_cfg v) \<and>
      length arch = 32 \<and> arch ! 0 = 0 \<and> v_map v = renamed es arch \<and> chained arch es \<and>
      mset arch + mset (owned es) + mset (ring_list (v_free v)) = all_regs P)"

definition order_inv :: "nat \<Rightarrow> view \<Rightarrow> bool" where
  "order_inv k v \<longleftrightarrow>
     (let es = ring_list (v_rob v) in
      sorted_wrt (<) (map n_seq es) \<and> (\<forall>e \<in> set es. n_seq e < v_seqCtr v) \<and> unat (v_seqCtr v) \<le> k)"

lemma renamed_append: "renamed (xs @ ys) m = renamed ys (renamed xs m)"
  by (simp add: renamed_def)

lemma owned_append [simp]: "owned (xs @ ys) = owned xs @ owned ys"
  by (simp add: owned_def)

lemma chained_append: "chained m (xs @ ys) \<longleftrightarrow> chained m xs \<and> chained (renamed xs m) ys"
  by (induction xs arbitrary: m) (simp_all add: renamed_def)

lemma length_renamed [simp]: "length (renamed es m) = length m"
proof (induction es arbitrary: m)
  case (Cons e es)
  then show ?case using Cons [of "rename_upd e m"] by (simp add: renamed_def rename_upd_def)
qed (simp add: renamed_def)

lemma renamed_zero:
  assumes "chained m es" "m ! 0 = 0"
  shows "renamed es m ! 0 = 0"
  using assms
proof (induction es arbitrary: m)
  case (Cons e es)
  have "rename_upd e m ! 0 = 0"
  proof (cases "n_pdst e = kNoReg")
    case False
    then have "unat (n_rd e) \<noteq> 0" using Cons.prems(1) by (simp add: unat_eq_0)
    then show ?thesis using Cons.prems(2) by (simp add: rename_upd_def)
  qed (simp add: rename_upd_def Cons.prems)
  then show ?case using Cons.IH [of "rename_upd e m"] Cons.prems by (simp add: renamed_def)
qed (simp add: renamed_def)

lemma size_all_regs [simp]: "size (all_regs P) = P"
  by (simp add: all_regs_def)

text \<open>There is always room to free a register.\<close>

lemma free_room:
  assumes "rename_inv arch v"
  shows "\<not> ring_full (v_free v)"
proof -
  let ?P = "unat (cfg_physRegs (v_cfg v))" and ?es = "ring_list (v_rob v)"
  have "size (mset arch + mset (owned ?es) + mset (ring_list (v_free v))) = size (all_regs ?P)"
    using assms by (simp add: rename_inv_def Let_def)
  then have "32 + length (ring_list (v_free v)) \<le> ?P"
    using assms by (simp add: rename_inv_def Let_def)
  moreover have "r_capacity (v_free v) = cfg_physRegs (v_cfg v)" using assms by (simp add: rename_inv_def Let_def)
  ultimately show ?thesis by (auto simp: ring_full_def)
qed

lemma unat_reg: "k < 256 \<Longrightarrow> unat (word_of_nat k :: u8) = k"
  by (simp add: unsigned_of_nat take_bit_nat_eq_self)

lemma all_regs_mem:
  assumes "P \<le> 255" "p \<in># all_regs P"
  shows "unat p < P" "p \<noteq> kNoReg"
proof -
  obtain k where k: "k < P" "p = word_of_nat k" using assms(2) by (auto simp: all_regs_def)
  then show u: "unat p < P" using unat_reg [of k] assms(1) by simp
  then show "p \<noteq> kNoReg" using assms(1) by auto
qed

lemma all_regs_count:
  assumes "P \<le> 256"
  shows "count (all_regs P) p \<le> 1"
proof -
  have "inj_on (word_of_nat :: nat \<Rightarrow> u8) {0..<P}"
  proof (rule inj_onI)
    fix x y :: nat
    assume h: "x \<in> {0..<P}" "y \<in> {0..<P}" "word_of_nat x = (word_of_nat y :: u8)"
    have "x = unat (word_of_nat x :: u8)" using h(1) assms by (intro unat_reg [symmetric]) simp
    also have "\<dots> = unat (word_of_nat y :: u8)" by (rule arg_cong [OF h(3)])
    also have "\<dots> = y" using h(2) assms by (intro unat_reg) simp
    finally show "x = y" .
  qed
  then have "distinct (map (word_of_nat :: nat \<Rightarrow> u8) [0..<P])" by (simp add: distinct_map)
  then show ?thesis by (simp add: all_regs_def distinct_count_atmost_1)
qed

lemma ring_push_capacity [simp]: "r_capacity (ring_push d v r) = r_capacity r"
  by (simp add: ring_push_def ring_alloc_def ring_put_def Let_def)

lemma ring_pop_capacity [simp]:
  "r_capacity (ring_popHead r) = r_capacity r" "r_capacity (ring_popTail r) = r_capacity r"
  by (simp_all add: ring_popHead_def ring_popTail_def)

section \<open>The three moves\<close>

lemma owned_single [simp]: "owned [e] = (if n_pdst e \<noteq> kNoReg then [n_pdst e] else [])"
  by (simp add: owned_def)

lemma owned_Cons: "owned (e # es) = owned [e] @ owned es"
  by (simp add: owned_def)

text \<open>The youngest instruction is undone.\<close>

definition undo_move :: "view \<Rightarrow> view" where
  "undo_move v =
     (let e = ring_tail (v_rob v); v = v\<lparr>v_rob := ring_popTail (v_rob v)\<rparr> in
      if n_pdst e \<noteq> kNoReg
      then v\<lparr>v_map := (v_map v)[unat (n_rd e) := n_prev e], v_free := ring_push 0 (n_pdst e) (v_free v)\<rparr> else v)"

lemma undo_move_inv:
  assumes "rename_inv arch v" "r_n (v_rob v) \<noteq> 0"
  shows "rename_inv arch (undo_move v)" "ring_list (v_rob (undo_move v)) = butlast (ring_list (v_rob v))"
proof -
  let ?e = "ring_tail (v_rob v)" and ?es = "ring_list (v_rob v)"
  note i = assms(1) [unfolded rename_inv_def Let_def]
  have ok: "ring_ok (v_rob v)" "ring_ok (v_free v)" using i by simp_all
  note pt = ring_popTail_ok [OF ok(1) assms(2)] and ps = ring_push_ok [OF ok(2) free_room [OF assms(1)]]
  have es: "?es = butlast ?es @ [?e]" using assms(2) by (simp add: pt(3) ring_list_Nil)
  let ?m = "renamed (butlast ?es) arch"
  have ch: "chained arch (butlast ?es)" "n_pdst ?e \<noteq> kNoReg \<Longrightarrow> n_prev ?e = ?m ! unat (n_rd ?e)"
    using i es chained_append [of arch "butlast ?es" "[?e]"] by simp_all
  have m: "v_map v = rename_upd ?e ?m" using i es renamed_append [of "butlast ?es" "[?e]" arch] by (simp add: renamed_def)
  have ow: "owned ?es = owned (butlast ?es) @ owned [?e]" using es owned_append by metis
  show "ring_list (v_rob (undo_move v)) = butlast ?es" by (simp add: undo_move_def Let_def pt(2))
  show "rename_inv arch (undo_move v)"
  proof (cases "n_pdst ?e = kNoReg")
    case True
    then show ?thesis using i m ch(1) pt ow by (simp add: undo_move_def Let_def rename_inv_def rename_upd_def)
  next
    case False
    then have "(v_map v)[unat (n_rd ?e) := n_prev ?e] = ?m" using m ch(2) by (simp add: rename_upd_def)
    then show ?thesis using False i ch(1) pt ps ow by (simp add: undo_move_def Let_def rename_inv_def)
  qed
qed

text \<open>The oldest instruction commits; the displaced register is free.\<close>

definition commit_move :: "view \<Rightarrow> view" where
  "commit_move v =
     (let e = ring_head (v_rob v); v = v\<lparr>v_rob := ring_popHead (v_rob v)\<rparr> in
      if n_pdst e \<noteq> kNoReg then v\<lparr>v_free := ring_push 0 (n_prev e) (v_free v)\<rparr> else v)"

lemma mset_upd:
  assumes "i < length xs"
  shows "mset (xs[i := x]) + {# xs ! i #} = mset xs + {# x #}"
  using assms by (simp add: mset_update)

lemma commit_move_inv:
  assumes "rename_inv arch v" "r_n (v_rob v) \<noteq> 0"
  shows "rename_inv (rename_upd (ring_head (v_rob v)) arch) (commit_move v)"
    "ring_list (v_rob (commit_move v)) = tl (ring_list (v_rob v))"
proof -
  let ?e = "ring_head (v_rob v)" and ?es = "ring_list (v_rob v)"
  note i = assms(1) [unfolded rename_inv_def Let_def]
  have ok: "ring_ok (v_rob v)" "ring_ok (v_free v)" using i by simp_all
  note ph = ring_popHead_ok [OF ok(1) assms(2)] and ps = ring_push_ok [OF ok(2) free_room [OF assms(1)]]
  have es: "?es = ?e # tl ?es" using assms(2) by (simp add: ph(3) ring_list_Nil)
  have ch: "chained (rename_upd ?e arch) (tl ?es)"
    "n_pdst ?e \<noteq> kNoReg \<Longrightarrow> n_prev ?e = arch ! unat (n_rd ?e) \<and> n_rd ?e \<noteq> 0 \<and> unat (n_rd ?e) < 32"
    using i es chained.simps(2) [of arch ?e "tl ?es"] by simp_all
  have m: "v_map v = renamed (tl ?es) (rename_upd ?e arch)"
    using i es by (metis fold_simps(2) renamed_def)
  have ow: "owned ?es = owned [?e] @ owned (tl ?es)" using es owned_Cons by metis
  show "ring_list (v_rob (commit_move v)) = tl ?es" by (simp add: commit_move_def Let_def ph(2))
  show "rename_inv (rename_upd ?e arch) (commit_move v)"
  proof (cases "n_pdst ?e = kNoReg")
    case True
    then show ?thesis using i m ch(1) ph ow by (simp add: commit_move_def Let_def rename_inv_def rename_upd_def)
  next
    case False
    note c = ch(2) [OF False]
    let ?a = "arch[unat (n_rd ?e) := n_pdst ?e]" and ?o = "owned (tl ?es)" and ?f = "ring_list (v_free v)"
    have mu: "mset ?a + {# n_prev ?e #} = mset arch + {# n_pdst ?e #}"
    proof -
      have "unat (n_rd ?e) < length arch" using c i by simp
      from mset_upd [OF this, of "n_pdst ?e"] show ?thesis using c by (simp only: conjunct1 [OF c])
    qed
    have "mset ?a + mset ?o + mset (?f @ [n_prev ?e]) = (mset ?a + {# n_prev ?e #}) + mset ?o + mset ?f" by simp
    also have "\<dots> = mset arch + mset (owned ?es) + mset ?f" unfolding mu using False by (simp add: ow)
    also have "\<dots> = all_regs (unat (cfg_physRegs (v_cfg v)))" using i by blast
    finally have all: "mset ?a + mset ?o + mset (?f @ [n_prev ?e]) = all_regs (unat (cfg_physRegs (v_cfg v)))" .
    have z: "?a ! 0 = 0" using c i by (simp add: unat_eq_0)
    have v': "v_rob (commit_move v) = ring_popHead (v_rob v)" "v_free (commit_move v) = ring_push 0 (n_prev ?e) (v_free v)"
      "v_cfg (commit_move v) = v_cfg v" "v_map (commit_move v) = v_map v" "rename_upd ?e arch = ?a"
      using False by (simp_all add: commit_move_def Let_def rename_upd_def)
    show ?thesis unfolding rename_inv_def Let_def v' ph(2) ps(2) ring_push_capacity
    proof (intro conjI)
      show "v_map v = renamed (tl ?es) ?a" "chained ?a (tl ?es)" using m ch(1) by (simp_all only: v')
    qed (use i ph(1) ps(1) z all in simp_all)
  qed
qed

text \<open>A new instruction enters, with a destination register or without.\<close>

definition enter_move :: "bool \<Rightarrow> bool \<Rightarrow> u8 \<Rightarrow> view \<Rightarrow> view" where
  "enter_move sys hasDest rd v =
     (let n = \<lparr>n_pdst = kNoReg, n_prev = kNoReg, n_rd = rd, n_seq = v_seqCtr v, n_sys = sys\<rparr>; p = ring_head (v_free v);
          n = (if hasDest then n\<lparr>n_pdst := p, n_prev := v_map v ! unat rd\<rparr> else n);
          v = v\<lparr>v_rob := ring_push (name_of rob_entry0) n (v_rob v), v_seqCtr := v_seqCtr v + 1\<rparr>
      in if hasDest then v\<lparr>v_free := ring_popHead (v_free v), v_map := (v_map v)[unat rd := p]\<rparr> else v)"

lemma enter_move_inv:
  assumes "rename_inv arch v" "\<not> ring_full (v_rob v)"
    and "hasDest \<Longrightarrow> rd \<noteq> 0 \<and> unat rd < 32 \<and> \<not> ring_empty (v_free v) \<and> \<not> sys"
  shows "rename_inv arch (enter_move sys hasDest rd v)"
    "\<exists>n. ring_list (v_rob (enter_move sys hasDest rd v)) = ring_list (v_rob v) @ [n] \<and> n_seq n = v_seqCtr v"
proof -
  let ?es = "ring_list (v_rob v)" and ?p = "ring_head (v_free v)"
  note i = assms(1) [unfolded rename_inv_def Let_def]
  have ok: "ring_ok (v_rob v)" "ring_ok (v_free v)" using i by simp_all
  note ps = ring_push_ok [OF ok(1) assms(2)]
  define n where "n = (let n = \<lparr>n_pdst = kNoReg, n_prev = kNoReg, n_rd = rd, n_seq = v_seqCtr v, n_sys = sys\<rparr> in
      if hasDest then n\<lparr>n_pdst := ?p, n_prev := v_map v ! unat rd\<rparr> else n)"
  have rob: "v_rob (enter_move sys hasDest rd v) = ring_push (name_of rob_entry0) n (v_rob v)"
    by (simp add: enter_move_def n_def Let_def)
  have sq: "n_seq n = v_seqCtr v" by (simp add: n_def Let_def)
  then show "\<exists>n. ring_list (v_rob (enter_move sys hasDest rd v)) = ?es @ [n] \<and> n_seq n = v_seqCtr v"
    by (intro exI [of _ n]) (simp add: rob ps)
  have map: "renamed (?es @ [n]) arch = rename_upd n (v_map v)" using i by (simp add: renamed_append) (simp add: renamed_def)
  have chain: "chained arch (?es @ [n]) \<longleftrightarrow>
      (n_pdst n \<noteq> kNoReg \<longrightarrow> n_prev n = v_map v ! unat (n_rd n) \<and> n_rd n \<noteq> 0 \<and> unat (n_rd n) < 32) \<and>
      (n_sys n \<longrightarrow> n_pdst n = kNoReg)"
    using i by (simp add: chained_append)
  show "rename_inv arch (enter_move sys hasDest rd v)"
  proof (cases hasDest)
    case False
    then show ?thesis using i map chain ps
      by (simp add: enter_move_def n_def Let_def rename_inv_def rename_upd_def)
  next
    case True
    then have d: "rd \<noteq> 0" "unat rd < 32" "\<not> sys" and ne: "r_n (v_free v) \<noteq> 0" using assms(3) by (simp_all add: ring_empty_def)
    note ph = ring_popHead_ok [OF ok(2) ne]
    have fl: "ring_list (v_free v) = ?p # tl (ring_list (v_free v))" using ne by (simp add: ph(3) ring_list_Nil)
    then have "?p \<in># mset (ring_list (v_free v))" by (metis list.set_intros(1) set_mset_mset)
    then have "?p \<in># all_regs (unat (cfg_physRegs (v_cfg v)))" using i by (metis union_iff)
    then have p: "?p \<noteq> kNoReg" using all_regs_mem(2) i by blast
    have "mset (ring_list (v_free v)) = add_mset ?p (mset (tl (ring_list (v_free v))))" using fl by (metis mset.simps(2))
    then have all: "mset arch + mset (owned (?es @ [n])) + mset (tl (ring_list (v_free v))) =
        all_regs (unat (cfg_physRegs (v_cfg v)))"
      using i True p by (simp add: n_def Let_def)
    have nn: "n_pdst n = ?p" "n_prev n = v_map v ! unat rd" "n_rd n = rd" "n_sys n = sys" using True by (simp_all add: n_def Let_def)
    have v': "v_free (enter_move sys hasDest rd v) = ring_popHead (v_free v)" "v_cfg (enter_move sys hasDest rd v) = v_cfg v"
      "v_map (enter_move sys hasDest rd v) = rename_upd n (v_map v)"
      using True p by (simp_all add: enter_move_def n_def Let_def rename_upd_def)
    show ?thesis unfolding rename_inv_def Let_def v' rob ph(2) ps(2) ring_pop_capacity
    proof (intro conjI)
      show "rename_upd n (v_map v) = renamed (?es @ [n]) arch" by (simp only: map)
      show "chained arch (?es @ [n])" unfolding chain nn using d by simp
      show "mset arch + mset (owned (?es @ [n])) + mset (tl (ring_list (v_free v))) =
        all_regs (unat (cfg_physRegs (v_cfg v)))" by (rule all)
    qed (use i ph(1) ps(1) in simp_all)
  qed
qed

text \<open>Program order under the moves.\<close>

lemma undo_move_fields [simp]:
  "v_seqCtr (undo_move v) = v_seqCtr v" "v_cfg (undo_move v) = v_cfg v" "v_cycles (undo_move v) = v_cycles v"
  by (simp_all add: undo_move_def Let_def)

lemma commit_move_fields [simp]:
  "v_seqCtr (commit_move v) = v_seqCtr v" "v_cfg (commit_move v) = v_cfg v" "v_cycles (commit_move v) = v_cycles v"
  by (simp_all add: commit_move_def Let_def)

lemma enter_move_fields [simp]:
  "v_seqCtr (enter_move sys hasDest rd v) = v_seqCtr v + 1" "v_cfg (enter_move sys hasDest rd v) = v_cfg v"
  "v_cycles (enter_move sys hasDest rd v) = v_cycles v"
  by (simp_all add: enter_move_def Let_def)

lemma order_sub:
  assumes "order_inv k v" "ring_list (v_rob v') = take n (ring_list (v_rob v)) \<or> ring_list (v_rob v') = tl (ring_list (v_rob v))"
    and "v_seqCtr v' = v_seqCtr v"
  shows "order_inv k v'"
proof -
  have "sorted_wrt (<) (map n_seq (take n es)) \<and> sorted_wrt (<) (map n_seq (tl es)) \<and>
      set (take n es) \<subseteq> set es \<and> set (tl es) \<subseteq> set es" if "sorted_wrt (<) (map n_seq es)" for es
    using that sorted_wrt_take [of "(<)" "map n_seq es" n] sorted_wrt_drop [of "(<)" "map n_seq es" 1] set_drop_subset [of 1 es]
    by (simp add: take_map drop_map drop_Suc set_take_subset)
  from this [of "ring_list (v_rob v)"] show ?thesis using assms unfolding order_inv_def Let_def by auto
qed

lemma order_enter:
  assumes "order_inv k v" "ring_list (v_rob v') = ring_list (v_rob v) @ [n]" "n_seq n = v_seqCtr v"
    and "v_seqCtr v' = v_seqCtr v + 1" "k + 1 < 2 ^ 64"
  shows "order_inv (k + 1) v'"
proof -
  have "unat (v_seqCtr v) \<le> k" using assms(1) by (simp add: order_inv_def Let_def)
  then have "unat (v_seqCtr v) + 1 < 2 ^ 64" using assms(5) by simp
  then have u: "unat (v_seqCtr v + 1) = unat (v_seqCtr v) + 1" by (simp add: unat_word_ariths)
  have lt: "s < v_seqCtr v \<Longrightarrow> s < v_seqCtr v + 1" "v_seqCtr v < v_seqCtr v + 1" for s
    using u by (simp_all add: word_less_nat_alt)
  show ?thesis using assms(1-4) u lt by (auto simp: order_inv_def Let_def sorted_wrt_append)
qed

section \<open>Recovery\<close>

lemma undo_moves:
  assumes "rename_inv arch v" "n \<le> length (ring_list (v_rob v))"
  shows "rename_inv arch ((undo_move ^^ n) v)"
    "ring_list (v_rob ((undo_move ^^ n) v)) = take (length (ring_list (v_rob v)) - n) (ring_list (v_rob v))"
    "v_seqCtr ((undo_move ^^ n) v) = v_seqCtr v" "v_cfg ((undo_move ^^ n) v) = v_cfg v"
    "v_cycles ((undo_move ^^ n) v) = v_cycles v"
proof -
  have "rename_inv arch ((undo_move ^^ n) v) \<and>
    ring_list (v_rob ((undo_move ^^ n) v)) = take (length (ring_list (v_rob v)) - n) (ring_list (v_rob v))"
    using assms(2)
  proof (induction n)
    case 0
    then show ?case using assms(1) by simp
  next
    case (Suc n)
    let ?v = "(undo_move ^^ n) v" and ?es = "ring_list (v_rob v)"
    have i: "rename_inv arch ?v" "ring_list (v_rob ?v) = take (length ?es - n) ?es" using Suc by simp_all
    have "0 < length (ring_list (v_rob ?v))" using i(2) Suc.prems by (simp del: length_ring_list)
    then have "ring_list (v_rob ?v) \<noteq> []" by (rule length_greater_0_conv [THEN iffD1])
    then have "r_n (v_rob ?v) \<noteq> 0" by (simp add: ring_list_Nil)
    note u = undo_move_inv [OF i(1) this]
    have "butlast (take (length ?es - n) ?es) = take (length ?es - Suc n) ?es"
      by (simp add: butlast_take)
    then show ?case using u i(2) by simp
  qed
  then show "rename_inv arch ((undo_move ^^ n) v)"
    "ring_list (v_rob ((undo_move ^^ n) v)) = take (length (ring_list (v_rob v)) - n) (ring_list (v_rob v))" by blast+
  show "v_seqCtr ((undo_move ^^ n) v) = v_seqCtr v" "v_cfg ((undo_move ^^ n) v) = v_cfg v"
    "v_cycles ((undo_move ^^ n) v) = v_cycles v"
    by (induction n) simp_all
qed

text \<open>The walk over the tail is a number of undo moves: it stops at the first entry that stays.\<close>

lemma rob_squash_moves:
  assumes "ring_ok r" "rob_squash seq r mf = (r', mf')"
  shows "\<exists>n \<le> length (ring_list r).
    v\<lparr>v_map := fst mf', v_free := snd mf', v_rob := ring_map name_of r'\<rparr> =
      (undo_move ^^ n) (v\<lparr>v_map := fst mf, v_free := snd mf, v_rob := ring_map name_of r\<rparr>) \<and>
    ring_ok r' \<and> ring_list r' = take (length (ring_list r) - n) (ring_list r) \<and>
    (\<forall>e \<in> set (drop (length (ring_list r) - n) (ring_list r)). seq < re_seq e) \<and>
    (ring_list r' \<noteq> [] \<longrightarrow> re_seq (last (ring_list r')) \<le> seq)"
  using assms
proof (induction seq r mf rule: rob_squash.induct)
  case (1 seq r mf)
  let ?es = "ring_list r" and ?V = "\<lambda>r mf. v\<lparr>v_map := fst mf, v_free := snd mf, v_rob := ring_map name_of r\<rparr>"
  show ?case
  proof (cases "r_n r \<noteq> 0 \<and> seq < re_seq (ring_tail r)")
    case False
    then have "r' = r" "mf' = mf" using "1.prems"(2) by (subst (asm) rob_squash.simps, auto)+
    moreover have "?es \<noteq> [] \<longrightarrow> re_seq (last ?es) \<le> seq"
      using False ring_popTail_ok(3) [OF "1.prems"(1)] by (auto simp: ring_list_Nil)
    ultimately show ?thesis using "1.prems"(1) by (intro exI [of _ 0]) simp
  next
    case True
    note pt = ring_popTail_ok [OF "1.prems"(1) conjunct1 [OF True]]
    have ne: "?es \<noteq> []" using True by (simp add: ring_list_Nil)
    have "rob_squash seq (ring_popTail r) (undo_rename (ring_tail r) mf) = (r', mf')"
      using "1.prems"(2) True by (subst (asm) rob_squash.simps) simp
    from "1.IH" [OF True pt(1) this] obtain n where n: "n \<le> length (butlast ?es)"
      "?V r' mf' = (undo_move ^^ n) (?V (ring_popTail r) (undo_rename (ring_tail r) mf))" "ring_ok r'"
      "ring_list r' = take (length (butlast ?es) - n) (butlast ?es)"
      "\<forall>e \<in> set (drop (length (butlast ?es) - n) (butlast ?es)). seq < re_seq e"
      "ring_list r' \<noteq> [] \<longrightarrow> re_seq (last (ring_list r')) \<le> seq"
      unfolding pt(2) by blast
    have "?V (ring_popTail r) (undo_rename (ring_tail r) mf) = undo_move (?V r mf)"
      using ring_map_front(2) [OF "1.prems"(1) conjunct1 [OF True], of name_of]
      by (simp add: undo_move_def undo_rename_def name_of_def Let_def case_prod_beta)
    then have "?V r' mf' = (undo_move ^^ Suc n) (?V r mf)" using n(2) by (simp add: funpow_swap1)
    moreover have es: "?es = butlast ?es @ [ring_tail r]" using ne by (simp add: pt(3))
    have len: "length ?es - Suc n \<le> length (butlast ?es)" "length (butlast ?es) - n = length ?es - Suc n"
      "Suc n \<le> length ?es"
      using n(1) ne by (simp_all del: length_ring_list add: Suc_le_eq) (cases ?es; simp del: length_ring_list)
    have "take (length ?es - Suc n) ?es = take (length ?es - Suc n) (butlast ?es)"
      "drop (length ?es - Suc n) ?es = drop (length ?es - Suc n) (butlast ?es) @ [ring_tail r]"
      by (subst (2) es, simp only: take_append drop_append len(1) diff_is_0_eq [THEN iffD2] take_0 append_Nil2 drop_0)+
    ultimately show ?thesis
      using n(3-6) True len(3) unfolding len(2) by (intro exI [of _ "Suc n"]) (auto simp del: length_ring_list)
  qed
qed

lemma name_of_sel [simp]: "n_seq (name_of e) = re_seq e" "n_pdst (name_of e) = re_pdst e"
  "n_prev (name_of e) = re_prevPhys e" "n_rd (name_of e) = ins_rd (re_ins e)" "n_sys (name_of e) = re_isSystem e"
  by (simp_all add: name_of_def)

lemma recover_moves:
  assumes "ring_ok (oc_rob c)"
  shows "\<exists>n \<le> length (ring_list (oc_rob c)).
    view (recover seq c) = (undo_move ^^ n) (view c) \<and> ring_ok (oc_rob (recover seq c)) \<and>
    ring_list (oc_rob (recover seq c)) = take (length (ring_list (oc_rob c)) - n) (ring_list (oc_rob c)) \<and>
    (\<forall>e \<in> set (drop (length (ring_list (oc_rob c)) - n) (ring_list (oc_rob c))). seq < re_seq e) \<and>
    (ring_list (oc_rob (recover seq c)) \<noteq> [] \<longrightarrow> re_seq (last (ring_list (oc_rob (recover seq c)))) \<le> seq)"
proof -
  obtain r m fl where s: "rob_squash seq (oc_rob c) (oc_map c, oc_free c) = (r, m, fl)" by (metis prod_cases3)
  have sel: "oc_map (recover seq c) = m" "oc_free (recover seq c) = fl" "oc_rob (recover seq c) = r"
    "oc_seqCtr (recover seq c) = oc_seqCtr c" "oc_cfg (recover seq c) = oc_cfg c"
    "st_cycles (oc_stats (recover seq c)) = st_cycles (oc_stats c)"
    by (simp_all add: recover_def Let_def s)
  then have "view (recover seq c) = (view c)\<lparr>v_map := fst (m, fl), v_free := snd (m, fl), v_rob := ring_map name_of r\<rparr>"
    by (simp add: view_def)
  moreover have "view c = (view c)\<lparr>v_map := fst (oc_map c, oc_free c), v_free := snd (oc_map c, oc_free c),
      v_rob := ring_map name_of (oc_rob c)\<rparr>"
    by (simp add: view_def)
  ultimately show ?thesis using rob_squash_moves [OF assms s, of "view c"] sel(3) by simp
qed

text \<open>The two invariants together, on a state of the core.\<close>

definition core_inv :: "u8 list \<Rightarrow> nat \<Rightarrow> core \<Rightarrow> bool" where
  "core_inv arch k c \<longleftrightarrow> rename_inv arch (view c) \<and> order_inv k (view c)"

lemma core_inv_cong: "view c' = view c \<Longrightarrow> core_inv arch k c' = core_inv arch k c"
  by (simp add: core_inv_def)

lemma view_rob_ok: "rename_inv arch (view c) \<Longrightarrow> ring_ok (oc_rob c)"
  by (simp add: rename_inv_def Let_def view_def)

lemma view_rob_list: "ring_ok (oc_rob c) \<Longrightarrow> ring_list (v_rob (view c)) = map name_of (ring_list (oc_rob c))"
  by (simp add: view_def ring_map_list)

lemma recover_inv:
  assumes "core_inv arch k c"
  shows "core_inv arch k (recover seq c)"
    "ring_list (oc_rob (recover seq c)) = filter (\<lambda>e. re_seq e \<le> seq) (ring_list (oc_rob c))"
    "v_cycles (view (recover seq c)) = v_cycles (view c)" "v_cfg (view (recover seq c)) = v_cfg (view c)"
proof -
  let ?es = "ring_list (oc_rob c)" and ?r = "recover seq c"
  have i: "rename_inv arch (view c)" "order_inv k (view c)" using assms by (simp_all add: core_inv_def)
  note ok = view_rob_ok [OF i(1)] and es = view_rob_list [OF view_rob_ok [OF i(1)]]
  from recover_moves [OF ok, of seq] obtain n where n: "n \<le> length ?es"
    "view ?r = (undo_move ^^ n) (view c)" "ring_ok (oc_rob ?r)"
    "ring_list (oc_rob ?r) = take (length ?es - n) ?es"
    "\<forall>e \<in> set (drop (length ?es - n) ?es). seq < re_seq e"
    "ring_list (oc_rob ?r) \<noteq> [] \<longrightarrow> re_seq (last (ring_list (oc_rob ?r))) \<le> seq"
    by blast
  have "n \<le> length (ring_list (v_rob (view c)))" unfolding es length_map by (rule n(1))
  note u = undo_moves [OF i(1) this, folded n(2)]
  have "ring_list (v_rob (view ?r)) = take (length ?es - n) (ring_list (v_rob (view c)))"
    by (simp add: view_rob_list [OF n(3)] n(4) es take_map)
  then show "core_inv arch k ?r" using u order_sub [OF i(2) disjI1 u(3)] by (simp add: core_inv_def)
  show "v_cycles (view ?r) = v_cycles (view c)" "v_cfg (view ?r) = v_cfg (view c)" using u by simp_all
  have sorted: "sorted_wrt (\<lambda>a b. re_seq a < re_seq b) ?es"
    using i(2) by (simp add: order_inv_def es sorted_wrt_map Let_def)
  let ?t = "take (length ?es - n) ?es"
  have "\<forall>e \<in> set ?t. re_seq e \<le> seq"
  proof (cases "?t = []")
    case False
    then have l: "re_seq (last ?t) \<le> seq" using n(4,6) by simp
    have "sorted_wrt (\<lambda>a b. re_seq a < re_seq b) (butlast ?t @ [last ?t])"
      using sorted False by (simp add: sorted_wrt_take)
    then have "\<forall>e \<in> set (butlast ?t). re_seq e < re_seq (last ?t)" by (simp only: sorted_wrt_append) simp
    moreover have "set ?t = insert (last ?t) (set (butlast ?t))" using append_butlast_last_id [OF False]
      by (metis (no_types, lifting) Un_commute Un_insert_left list.simps(15) list.set(1) set_append sup_bot_left)
    ultimately show ?thesis using l by auto
  next
    case True
    then show ?thesis by (simp only: list.set ball_simps)
  qed
  then have "filter (\<lambda>e. re_seq e \<le> seq) ?t = ?t" by (simp add: filter_id_conv)
  moreover have "filter (\<lambda>e. re_seq e \<le> seq) (drop (length ?es - n) ?es) = []"
    using n(5) by (auto simp: filter_empty_conv not_le simp del: length_ring_list)
  moreover have "?es = ?t @ drop (length ?es - n) ?es" by simp
  ultimately have "filter (\<lambda>e. re_seq e \<le> seq) ?es = ?t" by (metis append_Nil2 filter_append)
  then show "ring_list (oc_rob ?r) = filter (\<lambda>e. re_seq e \<le> seq) ?es" by (simp add: n(4))
qed

end
