(* ===== verification/Core_Invariant.thy ===== *)
theory Core_Invariant
  imports Core_Rename
begin

text \<open>
  The renaming invariant over the stages: which stages leave the projection alone, and how commit,
  dispatch and recovery move it; reachable states; and the properties of the whole core.
\<close>

section \<open>Stages that leave the projection alone\<close>

text \<open>Only some components matter.\<close>

lemma view_fields [simp]:
  "view (c\<lparr>oc_msys := x_msys\<rparr>) = view c"
  "view (c\<lparr>oc_val := x_val\<rparr>) = view c"
  "view (c\<lparr>oc_ready := x_ready\<rparr>) = view c"
  "view (c\<lparr>oc_iq := x_iq\<rparr>) = view c"
  "view (c\<lparr>oc_lsq := x_lsq\<rparr>) = view c"
  "view (c\<lparr>oc_sb := x_sb\<rparr>) = view c"
  "view (c\<lparr>oc_pred := x_pred\<rparr>) = view c"
  "view (c\<lparr>oc_units := x_units\<rparr>) = view c"
  "view (c\<lparr>oc_agus := x_agus\<rparr>) = view c"
  "view (c\<lparr>oc_wbReady := x_wbReady\<rparr>) = view c"
  "view (c\<lparr>oc_pc := x_pc\<rparr>) = view c"
  "view (c\<lparr>oc_fetchQ := x_fetchQ\<rparr>) = view c"
  "view (c\<lparr>oc_fOutstanding := x_fOutstanding\<rparr>) = view c"
  "view (c\<lparr>oc_fStale := x_fStale\<rparr>) = view c"
  "view (c\<lparr>oc_fBlock := x_fBlock\<rparr>) = view c"
  "view (c\<lparr>oc_fFetchPc := x_fFetchPc\<rparr>) = view c"
  "view (c\<lparr>oc_loadOuts := x_loadOuts\<rparr>) = view c"
  "view (c\<lparr>oc_sbTxnCtr := x_sbTxnCtr\<rparr>) = view c"
  "view (c\<lparr>oc_depTable := x_depTable\<rparr>) = view c"
  "view (c\<lparr>oc_pendRedirect := x_pendRedirect\<rparr>) = view c"
  "view (c\<lparr>oc_pendTarget := x_pendTarget\<rparr>) = view c"
  "view (c\<lparr>oc_recTimerArmed := x_recTimerArmed\<rparr>) = view c"
  "view (c\<lparr>oc_recTimerStart := x_recTimerStart\<rparr>) = view c"
  "view (c\<lparr>oc_halted := x_halted\<rparr>) = view c"
  "view (c\<lparr>oc_exitCode := x_exitCode\<rparr>) = view c"
  "view (c\<lparr>oc_host := x_host\<rparr>) = view c"
  "view (c\<lparr>oc_commits := x_commits\<rparr>) = view c"
  "st_cycles st = st_cycles (oc_stats c) \<Longrightarrow> view (c\<lparr>oc_stats := st\<rparr>) = view c"
  by (simp_all add: view_def)

lemma view_cycles [simp]: "(view c)\<lparr>v_cycles := st_cycles (oc_stats c)\<rparr> = view c"
  "v_cycles (view c) = st_cycles (oc_stats c)" "v_cfg (view c) = oc_cfg c"
  by (simp_all add: view_def)

lemma view_rob_update:
  assumes "\<And>e. name_of (f e) = name_of e"
  shows "view (rob_update idx f c) = view c"
proof -
  have "ring_map name_of (ring_put idx (f (ring_at (oc_rob c) idx)) (oc_rob c)) = ring_map name_of (oc_rob c)"
    by (rule ring_map_update) (rule assms)
  then show ?thesis by (simp add: rob_update_def view_def)
qed

lemma view_wb_invalidate [simp]: "view (wb_invalidate p c) = view c"
  by (cases p) simp_all

lemma view_wb_result [simp]: "view (wb_result x c) = view c"
  by (simp add: wb_result_def Let_def view_rob_update name_of_def)

lemma view_respond [simp]: "view (respond r c) = view c"
  by (simp add: respond_def)

lemma view_drainDataResponses [simp]: "view (drainDataResponses c) = view c"
proof (induction c rule: drainDataResponses.induct)
  case (1 c)
  then show ?case by (subst drainDataResponses.simps) simp
qed

lemma view_capture_store [simp]: "view (capture_store i c) = view c"
  by (simp add: capture_store_def Let_def view_rob_update name_of_def)

lemma view_surface_load [simp]: "view (fst (surface_load i s)) = view (fst s)"
  by (cases s) (simp add: surface_load_def Let_def)

lemma view_lsq_updates [simp]: "view (lsq_updates c) = view c"
proof -
  have "keeps (\<lambda>s. view (fst s) = view c) update_visitor"
    by (rule keepsI) (simp add: update_visitor_def case_prod_beta)
  from ss_visit_keeps [OF this, of "(c, 0)"] show ?thesis by (simp add: lsq_updates_def lsq_visitUpdates_def)
qed

lemma view_candidate_visitor: "view (fst (snd (candidate_visitor u p x s))) = view (fst s)"
  by (cases s) (simp add: candidate_visitor_def Let_def split: forwarding.split)

lemma view_find_candidate [simp]: "view (fst (find_candidate c)) = view c"
proof -
  have "keeps (\<lambda>s. view (fst s) = view c) (candidate_visitor u p)" for u p
    by (rule keepsI) (simp add: view_candidate_visitor)
  from ss_visit_keeps [OF this, of "(c, None)"] show ?thesis
    by (simp add: find_candidate_def lsq_visitCandidates_def Let_def)
qed

text \<open>A stage with a result: every successful outcome has the projection of the argument.\<close>

lemma view_send_store: "send_store c = Inr c' \<Longrightarrow> view c' = view c"
  by (auto simp: send_store_def Let_def bind_result_Inr view_def split: prod.splits)

lemma view_send_load: "send_load i sp c = Inr c' \<Longrightarrow> view c' = view c"
  by (auto simp: send_load_def Let_def bind_result_Inr view_def split: if_splits)

lemma view_port_access:
  assumes "port_access c = Inr (sent, c')"
  shows "view c' = view c"
proof -
  obtain d cand where f: "find_candidate c = (d, cand)" by fastforce
  have d: "view d = view c" using view_find_candidate [of c] by (simp add: f)
  then show ?thesis using assms
    by (auto simp: port_access_def f bind_result_Inr dest: view_send_store view_send_load
        split: if_splits option.splits prod.splits)
qed

lemma view_port_loop: "port_loop n c = Inr c' \<Longrightarrow> view c' = view c"
proof (induction n arbitrary: c)
  case (Suc n)
  then obtain sent d where "port_access c = Inr (sent, d)" "(if sent then port_loop n d else Inr d) = Inr c'"
    by (auto simp: bind_result_Inr)
  then show ?case using Suc.IH [of d] view_port_access [of c sent d] by (simp split: if_splits)
qed simp

lemma view_lsqOperate: "lsqOperate c = Inr c' \<Longrightarrow> view c' = view c"
proof -
  assume a: "lsqOperate c = Inr c'"
  obtain d where d: "port_loop (unat (cfg_dataPorts (oc_cfg (lsq_updates ((drainDataResponses c)
      \<lparr>oc_sb := sb_drain (oc_sb (drainDataResponses c))\<rparr>)))))
      (lsq_updates ((drainDataResponses c)\<lparr>oc_sb := sb_drain (oc_sb (drainDataResponses c))\<rparr>)) = Inr d"
    "c' = (let e = drainDataResponses d in if lsq_hasPendingLoads (oc_lsq e)
       then count_stat (\<lambda>s. s\<lparr>st_dataStallCycles := st_dataStallCycles s + 1\<rparr>) e else e)"
    using a by (auto simp: lsqOperate_def Let_def bind_result_Inr)
  have "view c' = view (drainDataResponses d)" by (simp add: d(2) Let_def)
  also have "\<dots> = view c" using view_port_loop [OF d(1)] by simp
  finally show ?thesis .
qed

lemma view_unit_accept [simp]: "view (unit_accept u x c) = view c"
  by (cases u) simp_all

lemma pick_unit_core: "fst (snd (pick_unit k s)) = fst s"
  by (cases s) (simp add: pick_unit_def Let_def split: fuKind.split)

lemma view_issue_visitor: "view (fst (snd (issue_visitor x s))) = view (fst s)"
proof -
  obtain u c n a g where p: "pick_unit (q_unit (iq_e (oc_iq (fst s)) ! x)) s = (u, c, n, a, g)" by (metis prod_cases5)
  then have "c = fst s" using pick_unit_core [of "q_unit (iq_e (oc_iq (fst s)) ! x)" s] by simp
  moreover have "v_cycles (view c) = st_cycles (oc_stats (unit_accept r y c))" for r y
    by (cases r) simp_all
  ultimately show ?thesis by (cases u) (simp_all add: issue_visitor_def Let_def p)
qed

lemma view_issueStage [simp]: "view (issueStage c) = view c"
proof -
  have "keeps (\<lambda>s. view (fst s) = view c) issue_visitor"
    by (rule keepsI) (simp add: view_issue_visitor)
  from iq_visitReady_keeps [OF this, of "(c, 0, 0, 0)"] show ?thesis by (simp add: issueStage_def)
qed

lemma view_fetch_word: "view (snd (fetch_word r i c)) = view c"
  by (simp add: fetch_word_def Let_def case_prod_beta)

lemma view_fetch_words [simp]: "view (fetch_words r xs c) = view c"
proof (induction xs arbitrary: c)
  case (Cons i xs)
  then show ?case using view_fetch_word [of r i c] by (simp add: case_prod_beta)
qed simp

lemma view_fetch_consume [simp]: "view (fetch_consume c) = view c"
  by (simp add: fetch_consume_def Let_def processFetch_def)

lemma view_fetch_request: "fetch_request c = Inr c' \<Longrightarrow> view c' = view c"
  by (auto simp: fetch_request_def Let_def bind_result_Inr)

lemma view_fetchStage: "fetchStage c = Inr c' \<Longrightarrow> view c' = view c"
  by (auto simp: fetchStage_def Let_def dest!: view_fetch_request split: if_splits)

lemma view_tick_unit: "view (tick_unit i c) = view c"
  by (simp add: tick_unit_def Let_def case_prod_beta)

lemma view_fold_tick [simp]: "view (fold tick_unit xs c) = view c"
  by (induction xs arbitrary: c) (simp_all add: view_tick_unit)

lemma view_clock_edge: "clock_edge c = Inr c' \<Longrightarrow> view c' = view c"
  by (auto simp: clock_edge_def Let_def bind_result_Inr apply_redirect_def split: if_splits)

section \<open>Commit\<close>

lemma bind_io_Inr: "bind_io r f = Some (Inr y) \<longleftrightarrow> (\<exists>x. r = Some (Inr x) \<and> f x = Some (Inr y))"
  by (simp add: bind_io_def split: option.split sum.split)

lemma view_commit_system:
  assumes "commit_system e rec c = Some (Inr (rec', c'))"
  shows "view c' = view c"
  using assms
  by (auto simp: commit_system_def commit_ecall_def Let_def bind_result_Inr split: op.splits if_splits)

lemma view_commit_mem: "commit_mem e rec c = Inr (Some (rec', c')) \<Longrightarrow> view c' = view c"
  by (auto simp: commit_mem_def Let_def bind_result_Inr split: if_splits)

lemma view_commit_branch [simp]: "view (commit_branch e c) = view c"
  by (simp add: commit_branch_def Let_def)

lemma view_commit_dep [simp]: "view (commit_dep e c) = view c"
  by (simp add: commit_dep_def Let_def)

text \<open>A committed instruction is the commit move; without a commit nothing moves.\<close>

lemma commit_one_view:
  assumes "commit_one c = Some (Inr (go, c'))" "ring_ok (oc_rob c)" "r_n (oc_rob c) \<noteq> 0"
    and "re_isSystem (ring_head (oc_rob c)) \<Longrightarrow> re_pdst (ring_head (oc_rob c)) = kNoReg"
  shows "view c' = (if go then commit_move (view c) else view c)"
proof -
  let ?e = "ring_head (oc_rob c)"
  have hd: "ring_head (ring_map name_of (oc_rob c)) = name_of ?e" using ring_map_front(1) [OF assms(2,3)] .
  have fin: "view (commit_finish rec d) = (view d)\<lparr>v_rob := ring_popHead (v_rob (view d))\<rparr>" for rec d
    by (simp add: commit_finish_def view_def)
  have free: "view (d\<lparr>oc_free := fl\<rparr>) = (view d)\<lparr>v_free := fl\<rparr>" for d fl by (simp add: view_def)
  have vr: "v_rob (view c) = ring_map name_of (oc_rob c)" by (simp add: view_def)
  have no: "commit_fault ?e c = None" using assms(1) by (auto simp: commit_one_def Let_def split: option.splits)
  show ?thesis
  proof (cases "re_isSystem ?e")
    case True
    then obtain rec d where "commit_system ?e
        \<lparr>cr_sequence = st_retired (oc_stats c), cr_pc = re_pc ?e, cr_instruction = ins_raw (re_ins ?e),
         cr_registerWrite = None, cr_memoryWrite = None, cr_exception = None\<rparr> c = Some (Inr (rec, d))"
      "c' = commit_finish rec d" "go"
      using assms(1) no by (auto simp: commit_one_def Let_def bind_io_Inr)
    then have "view c' = (view c)\<lparr>v_rob := ring_popHead (v_rob (view c))\<rparr>" "go"
      using view_commit_system by (simp_all add: fin)
    then show ?thesis using assms(4) [OF True] by (simp add: commit_move_def vr hd Let_def)
  next
    case False
    then obtain out where out: "commit_mem ?e
        \<lparr>cr_sequence = st_retired (oc_stats c), cr_pc = re_pc ?e, cr_instruction = ins_raw (re_ins ?e),
         cr_registerWrite = None, cr_memoryWrite = None, cr_exception = None\<rparr> c = Inr out"
      "(case out of None \<Rightarrow> Inr (False, count_stat (\<lambda>s. s\<lparr>st_sbCommitStalls := st_sbCommitStalls s + 1\<rparr>) c)
        | Some (rec, c) \<Rightarrow> Inr (True, commit_rest ?e rec c)) = (Inr (go, c') :: (bool \<times> core) result)"
      using assms(1) no by (auto simp: commit_one_def Let_def bind_result_Inr)
    show ?thesis
    proof (cases out)
      case None
      then show ?thesis using out(2) by auto
    next
      case (Some p)
      then obtain rec d where p: "out = Some (rec, d)" by (cases p) simp
      have d: "view d = view c" using view_commit_mem [of ?e _ c rec d] out(1) p by simp
      let ?d = "snd (commit_dest ?e rec d)"
      have v: "view c' = (view ?d)\<lparr>v_rob := ring_popHead (v_rob (view ?d))\<rparr>" "go"
        using out(2) by (auto simp: p commit_rest_def Let_def case_prod_beta fin)
      have "view ?d = (if re_pdst ?e \<noteq> kNoReg
          then (view c)\<lparr>v_free := ring_push 0 (re_prevPhys ?e) (v_free (view c))\<rparr> else view c)"
        using d by (simp add: commit_dest_def free) (simp add: view_def)
      then show ?thesis using v hd by (simp add: commit_move_def Let_def view_def)
    qed
  qed
qed

lemma chained_system:
  assumes "chained m es" "e \<in> set es" "n_sys e"
  shows "n_pdst e = kNoReg"
  using assms by (induction es arbitrary: m) auto

lemma head_system:
  assumes "rename_inv arch (view c)" "r_n (oc_rob c) \<noteq> 0" "re_isSystem (ring_head (oc_rob c))"
  shows "re_pdst (ring_head (oc_rob c)) = kNoReg"
proof -
  have ok: "ring_ok (oc_rob c)" by (rule view_rob_ok [OF assms(1)])
  have "ring_list (oc_rob c) \<noteq> []" using assms(2) by (simp add: ring_list_Nil)
  then have "ring_head (oc_rob c) \<in> set (ring_list (oc_rob c))" using ring_popHead_ok(3) [OF ok assms(2)] by simp
  then have "name_of (ring_head (oc_rob c)) \<in> set (ring_list (v_rob (view c)))" by (simp add: view_rob_list [OF ok])
  moreover have "chained arch (ring_list (v_rob (view c)))" using assms(1) by (simp add: rename_inv_def Let_def)
  ultimately show ?thesis using chained_system [of arch _ "name_of (ring_head (oc_rob c))"] assms(3) by simp
qed

lemma commit_loop_inv:
  assumes "commit_loop n j c = Some (Inr (j', c'))" "core_inv arch k c"
  shows "\<exists>m. core_inv (renamed (take m (ring_list (v_rob (view c)))) arch) k c' \<and>
    ring_list (v_rob (view c')) = drop m (ring_list (v_rob (view c))) \<and> j' = j + m \<and>
    v_cycles (view c') = v_cycles (view c) \<and> v_cfg (view c') = v_cfg (view c)"
  using assms
proof (induction n arbitrary: j c arch)
  case 0
  then show ?case by (intro exI [of _ 0]) (simp add: renamed_def)
next
  case (Suc n)
  show ?case
  proof (cases "ring_empty (oc_rob c) \<or> \<not> re_done (ring_head (oc_rob c)) \<or> oc_halted c")
    case True
    then show ?thesis using Suc.prems by (intro exI [of _ 0]) (simp add: renamed_def)
  next
    case False
    then obtain go d where d: "commit_one c = Some (Inr (go, d))"
      "(if go then commit_loop n (Suc j) d else Some (Inr (j, d))) = Some (Inr (j', c'))"
      using Suc.prems(1) by (auto simp: bind_io_Inr)
    have i: "rename_inv arch (view c)" "order_inv k (view c)" using Suc.prems(2) by (simp_all add: core_inv_def)
    have ne: "r_n (oc_rob c) \<noteq> 0" using False by (simp add: ring_empty_def)
    have v: "view d = (if go then commit_move (view c) else view c)"
      by (rule commit_one_view [OF d(1) view_rob_ok [OF i(1)] ne head_system [OF i(1) ne]])
    show ?thesis
    proof (cases go)
      case False
      then show ?thesis using d v Suc.prems(2) by (intro exI [of _ 0]) (simp add: renamed_def core_inv_def)
    next
      case True
      let ?es = "ring_list (v_rob (view c))" and ?h = "ring_head (v_rob (view c))"
      have "r_n (v_rob (view c)) \<noteq> 0" using ne by (simp add: view_def)
      note m = commit_move_inv [OF i(1) this] and ph = ring_popHead_ok [OF _ this]
      have es: "?es = ?h # tl ?es"
        using ph(3) i(1) ne by (simp add: rename_inv_def Let_def ring_list_Nil view_def)
      have inv: "core_inv (rename_upd ?h arch) k d"
        using m order_sub [OF i(2) disjI2, of "view d"] True v by (simp add: core_inv_def)
      have "commit_loop n (Suc j) d = Some (Inr (j', c'))" using d(2) True by simp
      from Suc.IH [OF this inv] obtain q where q:
        "core_inv (renamed (take q (tl ?es)) (rename_upd ?h arch)) k c'"
        "ring_list (v_rob (view c')) = drop q (tl ?es)" "j' = Suc j + q"
        "v_cycles (view c') = v_cycles (view d)" "v_cfg (view c') = v_cfg (view d)"
        using m(2) True v by auto
      have "take (Suc q) ?es = ?h # take q (tl ?es)" "drop (Suc q) ?es = drop q (tl ?es)"
        by (subst es, simp)+
      then have "renamed (take (Suc q) ?es) arch = renamed (take q (tl ?es)) (rename_upd ?h arch)"
        by (simp add: renamed_def)
      then show ?thesis using q True v \<open>drop (Suc q) ?es = drop q (tl ?es)\<close> by (intro exI [of _ "Suc q"]) simp
    qed
  qed
qed

lemma commitStage_inv:
  assumes "commitStage c = Some (Inr c')" "core_inv arch k c"
  shows "\<exists>m. core_inv (renamed (take m (ring_list (v_rob (view c)))) arch) k c' \<and>
    ring_list (v_rob (view c')) = drop m (ring_list (v_rob (view c))) \<and>
    v_cycles (view c') = v_cycles (view c) \<and> v_cfg (view c') = v_cfg (view c)"
proof -
  obtain j d where d: "commit_loop (unat (cfg_width (oc_cfg c))) 0 c = Some (Inr (j, d))" "view c' = view d"
    using assms(1) by (auto simp: commitStage_def bind_io_Inr Let_def split: if_splits)
  from commit_loop_inv [OF d(1) assms(2)] show ?thesis by (auto simp: d(2) core_inv_cong [OF d(2)])
qed

section \<open>Writeback, address generation and dispatch\<close>

text \<open>A stage that keeps the committed map: the rest of the invariant survives, and the clock stands.\<close>

definition keeps_arch :: "(core \<Rightarrow> core) \<Rightarrow> bool" where
  "keeps_arch f \<longleftrightarrow> (\<forall>c arch k. core_inv arch k c \<longrightarrow> core_inv arch k (f c) \<and>
     st_cycles (oc_stats (f c)) = st_cycles (oc_stats c) \<and> oc_cfg (f c) = oc_cfg c)"

lemma keeps_archD:
  assumes "keeps_arch f" "core_inv arch k c"
  shows "core_inv arch k (f c)" "st_cycles (oc_stats (f c)) = st_cycles (oc_stats c)" "oc_cfg (f c) = oc_cfg c"
  using assms by (simp_all add: keeps_arch_def)

lemma view_eqD:
  assumes "view c' = view c"
  shows "core_inv arch k c' = core_inv arch k c" "st_cycles (oc_stats c') = st_cycles (oc_stats c)" "oc_cfg c' = oc_cfg c"
proof -
  show "core_inv arch k c' = core_inv arch k c" by (rule core_inv_cong [OF assms])
  show "st_cycles (oc_stats c') = st_cycles (oc_stats c)" "oc_cfg c' = oc_cfg c"
    using arg_cong [OF assms, of v_cycles] arg_cong [OF assms, of v_cfg] by simp_all
qed

lemma keeps_arch_view: "(\<And>c. view (f c) = view c) \<Longrightarrow> keeps_arch f"
  using view_eqD [of "f c" c for c] by (simp add: keeps_arch_def)

lemma keeps_arch_recover: "keeps_arch (recover seq)"
  using recover_inv(1) recover_inv(3,4) [unfolded view_cycles] by (auto simp: keeps_arch_def)

text \<open>A state whose projection is that of a recovered one.\<close>

lemma recovered:
  assumes "view d = view c" "view e = view (recover seq d)" "core_inv arch k c"
  shows "core_inv arch k e \<and> st_cycles (oc_stats e) = st_cycles (oc_stats c) \<and> oc_cfg e = oc_cfg c"
proof -
  note v = view_eqD [OF assms(1)] and w = view_eqD [OF assms(2)]
  have "core_inv arch k d" using assms(3) v by simp
  from keeps_archD [OF keeps_arch_recover this] show ?thesis using v w by simp
qed

lemma view_wb_take [simp]: "view (snd (wb_take c)) = view c"
  by (simp add: wb_take_def Let_def)

lemma writeback_one_inv:
  assumes "core_inv arch k c" "writeback_one c = (go, c')"
  shows "core_inv arch k c' \<and> st_cycles (oc_stats c') = st_cycles (oc_stats c) \<and> oc_cfg c' = oc_cfg c"
proof -
  obtain p d where t: "wb_take c = (p, d)" by fastforce
  let ?x = "wb_slot d p"
  let ?w = "wb_result ?x d"
  have w: "view ?w = view c" using view_wb_take [of c] by (simp add: t)
  show ?thesis
  proof (cases "go")
    case True
    then have "c' = wb_invalidate p ?w" using assms(2) by (simp add: writeback_one_def t Let_def split: if_splits)
    then show ?thesis using view_eqD [of c' c] w assms(1) by simp
  next
    case False
    let ?e = "ring_at (oc_rob ?w) (o_robIdx ?x)"
    have c': "c' = wb_mispredict p (o_seq ?x) ?e ?w"
      using assms(2) False by (simp add: writeback_one_def t Let_def split: if_splits)
    let ?u = "wb_invalidate p (if cfg_usePredictor (oc_cfg ?w)
        then ?w\<lparr>oc_pred := pred_replay (re_pc ?e) (re_ins ?e) (re_actualTaken ?e)
                         (pred_restore (re_predBefore ?e) (oc_pred ?w))\<rparr> else ?w)"
    have "view ?u = view c" using w by simp
    moreover have "view c' = view (recover (o_seq ?x) ?u)" by (simp add: c' wb_mispredict_def Let_def)
    ultimately show ?thesis using assms(1) by (rule recovered)
  qed
qed

lemma writeback_loop_inv:
  assumes "core_inv arch k c"
  shows "core_inv arch k (writeback_loop n c) \<and>
    st_cycles (oc_stats (writeback_loop n c)) = st_cycles (oc_stats c) \<and> oc_cfg (writeback_loop n c) = oc_cfg c"
  using assms
proof (induction n arbitrary: c)
  case (Suc n)
  obtain go d where d: "writeback_one c = (go, d)" by fastforce
  note i = writeback_one_inv [OF Suc.prems d]
  then show ?case using Suc.IH [of d] by (simp add: d)
qed simp

lemma keeps_arch_writeback: "keeps_arch writebackStage"
  unfolding keeps_arch_def
proof (intro allI impI)
  fix c arch k
  assume "core_inv arch k c"
  from writeback_loop_inv [OF this, of "min (unat (cfg_wbPorts (oc_cfg c))) (length (oc_wbReady c))"]
  show "core_inv arch k (writebackStage c) \<and> st_cycles (oc_stats (writebackStage c)) = st_cycles (oc_stats c) \<and>
    oc_cfg (writebackStage c) = oc_cfg c"
    by (simp add: writebackStage_def Let_def core_inv_def)
qed

lemma keeps_arch_violationScan: "keeps_arch (violationScan st)"
  unfolding keeps_arch_def
proof (intro allI impI)
  fix c arch k
  assume inv: "core_inv arch k c"
  show "core_inv arch k (violationScan st c) \<and> st_cycles (oc_stats (violationScan st c)) = st_cycles (oc_stats c) \<and>
    oc_cfg (violationScan st c) = oc_cfg c"
  proof (cases "violation_victim st (oc_lsq c)")
    case None
    then show ?thesis using inv by (simp add: violationScan_def)
  next
    case (Some v)
    define le where "le = lsq_at v (oc_lsq c)"
    define d1 where "d1 = count_stat (\<lambda>s. s\<lparr>st_loadReplays := st_loadReplays s + 1\<rparr>) c"
    define d2 where "d2 = (if cfg_depPredictor (oc_cfg d1)
        then d1\<lparr>oc_depTable := (oc_depTable d1)[dep_index d1 (le_pc le) := 3]\<rparr> else d1)"
    define d3 where "d3 = (if cfg_usePredictor (oc_cfg d2)
        then d2\<lparr>oc_pred := pred_restore (re_predBefore (ring_at (oc_rob d2) (le_robIdx le))) (oc_pred d2)\<rparr> else d2)"
    have "view d3 = view c" by (simp add: d1_def d2_def d3_def)
    moreover have "view (violationScan st c) = view (recover (le_seq le - 1) d3)"
      by (simp add: violationScan_def Some le_def d1_def d2_def d3_def Let_def del: if_split)
    ultimately show ?thesis using inv by (rule recovered)
  qed
qed

lemma keeps_arch_agu_complete: "keeps_arch (agu_complete i)"
  unfolding keeps_arch_def
proof (intro allI impI)
  fix c arch k
  assume inv: "core_inv arch k c"
  obtain d le where d: "view d = view c" "agu_complete i c = d \<or> agu_complete i c = violationScan le d"
  proof -
    define x where "x = f_out (oc_agus c ! i)"
    define d1 where "d1 = c\<lparr>oc_agus := (oc_agus c)[i := fu_drain (oc_agus c ! i)],
        oc_lsq := lsq_resolveAddress (o_lsqIdx x)
          (lsq_fill (o_lsqIdx x) (\<lambda>e. e\<lparr>le_addr := o_value x, le_size := ucast (accessSize (le_op e))\<rparr>) (oc_lsq c))\<rparr>"
    define le where "le = lsq_at (o_lsqIdx x) (oc_lsq d1)"
    define d2 where "d2 = (if le_addr le mod ucast (le_size le) \<noteq> 0
        then rob_update (o_robIdx x) (\<lambda>e. e\<lparr>re_fault := 1\<rparr>) d1
        else if length (bytes (ms_backing (oc_msys d1))) < unat (le_addr le) + unat (le_size le)
        then rob_update (o_robIdx x) (\<lambda>e. e\<lparr>re_fault := 2\<rparr>) d1 else d1)"
    define d3 where "d3 = (if le_isStore le \<and> le_dataReady le
        then rob_update (o_robIdx x) (\<lambda>e. e\<lparr>re_done := True\<rparr>) d2 else d2)"
    have "view d3 = view c" by (simp add: d3_def d2_def d1_def view_rob_update name_of_def)
    moreover have "agu_complete i c = d3 \<or> agu_complete i c = violationScan le d3"
      by (simp add: agu_complete_def Let_def flip: x_def) (simp add: d3_def d2_def le_def d1_def)
    ultimately show thesis by (rule that)
  qed
  then show "core_inv arch k (agu_complete i c) \<and>
    st_cycles (oc_stats (agu_complete i c)) = st_cycles (oc_stats c) \<and> oc_cfg (agu_complete i c) = oc_cfg c"
    using view_eqD [OF d(1)] keeps_archD [OF keeps_arch_violationScan, of arch k d] inv by auto
qed

lemma keeps_arch_aguDrain: "keeps_arch aguDrain"
proof -
  have "keeps_arch (agu_loop n)" for n
  proof (induction n)
    case (Suc n)
    have "core_inv arch k (agu_loop n (agu_complete i c)) \<and>
        st_cycles (oc_stats (agu_loop n (agu_complete i c))) = st_cycles (oc_stats c) \<and>
        oc_cfg (agu_loop n (agu_complete i c)) = oc_cfg c" if "core_inv arch k c" for arch k c i
    proof -
      note a = keeps_archD [OF keeps_arch_agu_complete [of i] that]
      show ?thesis using keeps_archD [OF Suc.IH a(1)] a by simp
    qed
    then show ?case by (simp add: keeps_arch_def split: option.split)
  qed (simp add: keeps_arch_def)
  then show ?thesis by (simp add: aguDrain_def keeps_arch_def)
qed

section \<open>Dispatch\<close>

lemma decode_rd: "unat (ins_rd (decode w)) < 32"
proof -
  obtain opc rd f3 rs1 rs2 f7 where "w = mkword opc rd f3 rs1 rs2 f7" by (rule mkword_exhaust)
  then have "ins_rd (decode w) = ucast (rd :: 5 word)" by (simp add: decode_mkword_regs)
  moreover have "unat rd < 2 ^ LENGTH(5)" by (rule unsigned_less)
  ultimately show ?thesis by (simp add: unsigned_ucast_eq take_bit_nat_eq_self)
qed

text \<open>Changing the entry that was just pushed.\<close>

lemma view_update_pushed:
  assumes "v_rob (view d) = ring_push d0 n vr" "ring_ok vr" "\<not> ring_full vr" "idx = ring_indexOf vr (r_n vr)"
    and "\<And>e. name_of (g e) = h (name_of e)"
  shows "view (rob_update idx g d) = (view d)\<lparr>v_rob := ring_push d0 (h n) vr\<rparr>"
proof -
  have "ring_at (v_rob (view d)) idx = n" unfolding assms(1,4) by (rule ring_at_push [OF assms(2,3)])
  moreover have "unat idx < length (r_e (oc_rob d))"
  proof -
    have "length (r_e (oc_rob d)) = length (r_e (v_rob (view d)))" by (simp add: view_def)
    also have "\<dots> = length (r_e vr)"
      unfolding assms(1) by (simp add: ring_push_def ring_alloc_def ring_put_def Let_def)
    finally show ?thesis
      using ring_alloc_ok(3) [OF assms(2,3)] slot_less [OF assms(2), of "unat (r_n vr)"] assms(2)
      by (simp add: assms(4) ring_alloc_def Let_def ring_ok_def)
  qed
  ultimately have "name_of (ring_at (oc_rob d) idx) = n" by (simp add: view_def ring_at_def)
  then have "ring_map name_of (ring_put idx (g (ring_at (oc_rob d) idx)) (oc_rob d)) = ring_put idx (h n) (v_rob (view d))"
    by (simp add: view_def assms(5))
  also have "\<dots> = ring_push d0 (h n) vr" unfolding assms(1,4) by (rule ring_put_push)
  finally show ?thesis by (simp add: rob_update_def view_def)
qed

lemma view_dispatch_alloc:
  assumes "dispatch_alloc f I c = (idx, d)"
  shows "view d = enter_move False False (ins_rd I) (view c)"
    "idx = ring_indexOf (v_rob (view c)) (r_n (v_rob (view c)))"
proof -
  define c1 where "c1 = (if oc_recTimerArmed c
      then (count_stat (\<lambda>s. s\<lparr>st_recoveryLossCycles :=
              st_recoveryLossCycles s + (st_cycles s - oc_recTimerStart c)\<rparr>) c)\<lparr>oc_recTimerArmed := False\<rparr> else c)"
  obtain i r where a: "ring_alloc rob_entry0 (oc_rob c1) = (i, r)" by fastforce
  have c1: "oc_rob c1 = oc_rob c" "view c1 = view c" by (simp_all add: c1_def)
  have s: "idx = i" "d = c1\<lparr>oc_fetchQ := ring_popHead (oc_fetchQ c1), oc_seqCtr := oc_seqCtr c1 + 1,
      oc_rob := ring_put i (dispatch_entry (oc_seqCtr c1) f I) r\<rparr>"
    using assms unfolding dispatch_alloc_def c1_def [symmetric] Let_def a by auto
  show "idx = ring_indexOf (v_rob (view c)) (r_n (v_rob (view c)))"
    using a by (simp add: s c1(1) ring_alloc_def Let_def view_def)
  have "view d = enter_move False False (ins_rd I) (view c1)"
    by (simp add: s view_def enter_move_def Let_def ring_map_alloc [OF a] del: ring_map_put)
      (simp add: name_of_def dispatch_entry_def rob_entry0_def)
  then show "view d = enter_move False False (ins_rd I) (view c)" by (simp only: c1(2))
qed

lemma enter_rob:
  "v_rob (enter_move sys False rd v) =
     ring_push (name_of rob_entry0) \<lparr>n_pdst = kNoReg, n_prev = kNoReg, n_rd = rd, n_seq = v_seqCtr v, n_sys = sys\<rparr> (v_rob v)"
  by (simp add: enter_move_def Let_def)

lemma view_rename_dest:
  assumes "ring_ok (v_rob v)" "\<not> ring_full (v_rob v)" "idx = ring_indexOf (v_rob v) (r_n (v_rob v))"
    and "view d = enter_move False False (ins_rd I) v"
  shows "view (rename_dest idx I d) = enter_move False (writesRd (ins_op I) \<and> ins_rd I \<noteq> 0) (ins_rd I) v"
proof (cases "writesRd (ins_op I) \<and> ins_rd I \<noteq> 0")
  case False
  have "rename_dest idx I d = d" unfolding rename_dest_def if_not_P [OF False] ..
  moreover have "(writesRd (ins_op I) \<and> ins_rd I \<noteq> 0) = False" using False by simp
  ultimately show ?thesis using assms(4) by (simp only:)
next
  case True
  let ?p = "ring_head (oc_free d)" and ?q = "oc_map d ! unat (ins_rd I)"
  let ?d = "d\<lparr>oc_free := ring_popHead (oc_free d), oc_map := (oc_map d)[unat (ins_rd I) := ?p],
      oc_ready := (oc_ready d)[unat ?p := False]\<rparr>"
  have f: "oc_free d = v_free v" "oc_map d = v_map v"
    using arg_cong [OF assms(4), of v_free] arg_cong [OF assms(4), of v_map]
    by (simp_all add: enter_move_def Let_def) (simp_all add: view_def)
  have vd: "view ?d = (view d)\<lparr>v_free := ring_popHead (v_free v), v_map := (v_map v)[unat (ins_rd I) := ?p]\<rparr>"
    by (simp add: f) (simp add: view_def f)
  have "v_rob (view ?d) = v_rob (view d)" unfolding vd by simp
  note r = this [unfolded assms(4) enter_rob]
  have nm: "name_of (e\<lparr>re_pdst := ?p, re_prevPhys := ?q\<rparr>) = (name_of e)\<lparr>n_pdst := ?p, n_prev := ?q\<rparr>" for e
    by (simp add: name_of_def)
  note u = view_update_pushed [OF r assms(1-3), of "\<lambda>e. e\<lparr>re_pdst := ?p, re_prevPhys := ?q\<rparr>"
      "\<lambda>n. n\<lparr>n_pdst := ?p, n_prev := ?q\<rparr>", OF nm]
  have "rename_dest idx I d = rob_update idx (\<lambda>e. e\<lparr>re_pdst := ?p, re_prevPhys := ?q\<rparr>) ?d"
    unfolding rename_dest_def if_P [OF True] Let_def ..
  then have "view (rename_dest idx I d) = (view ?d)\<lparr>v_rob := ring_push (name_of rob_entry0)
      (\<lparr>n_pdst = kNoReg, n_prev = kNoReg, n_rd = ins_rd I, n_seq = v_seqCtr v, n_sys = False\<rparr>
        \<lparr>n_pdst := ?p, n_prev := ?q\<rparr>) (v_rob v)\<rparr>"
    by (simp only: u)
  then show ?thesis using True unfolding vd assms(4) by (simp add: enter_move_def Let_def f)
qed

lemma view_dispatch_system:
  assumes "ring_ok (v_rob v)" "\<not> ring_full (v_rob v)" "idx = ring_indexOf (v_rob v) (r_n (v_rob v))"
    and "view d = enter_move False False rd v"
  shows "view (dispatch_system idx d) = enter_move True False rd v"
proof -
  have nm: "name_of (e\<lparr>re_done := True, re_isSystem := True, re_sysA0 := a, re_sysA7 := b\<rparr>) =
      (name_of e)\<lparr>n_sys := True\<rparr>" for e a b
    by (simp add: name_of_def)
  note u = view_update_pushed [OF _ assms(1-3), of d "name_of rob_entry0" _
      "\<lambda>e. e\<lparr>re_done := True, re_isSystem := True, re_sysA0 := oc_map d ! 10, re_sysA7 := oc_map d ! 17\<rparr>"
      "\<lambda>n. n\<lparr>n_sys := True\<rparr>", OF _ nm]
  show ?thesis unfolding dispatch_system_def
    by (subst u) (simp_all add: assms(4) enter_rob, simp add: enter_move_def Let_def)
qed

lemma view_dispatch_mem [simp]: "view (snd (dispatch_mem seq idx ps2 pc I c)) = view c"
  by (simp add: dispatch_mem_def Let_def case_prod_beta)

lemma view_dispatch_iq [simp]: "view (dispatch_iq seq idx li ps1 ps2 I c) = view c"
  by (simp add: dispatch_iq_def split: option.split)

lemma view_dispatch_normal: "view (dispatch_normal seq idx f I c) = view (rename_dest idx I c)"
proof -
  let ?c1 = "rob_update idx (\<lambda>e. e\<lparr>re_isMem := isLoad (ins_op I) \<or> isStore (ins_op I)\<rparr>) (rename_dest idx I c)"
  have "view ?c1 = view (rename_dest idx I c)" by (simp add: view_rob_update name_of_def)
  moreover have "view (snd (dispatch_mem seq idx (oc_map c ! unat (ins_rs2 I)) (ft_pc f) I ?c1)) = view ?c1" by simp
  ultimately show ?thesis
    unfolding dispatch_normal_def Let_def
    by (cases "dispatch_mem seq idx (oc_map c ! unat (ins_rs2 I)) (ft_pc f) I ?c1")
      (simp add: view_rob_update name_of_def)
qed

lemma sys_no_dest: "fuKindOf x = FU_NONE \<Longrightarrow> \<not> writesRd x"
  by (cases x) (simp_all add: fuKindOf_def writesRd_def isBranch_def isStore_def isLoad_def less_eq_op_def)

text \<open>A dispatched instruction is the enter move; nothing moves when dispatch stalls.\<close>

lemma dispatch_one_view:
  assumes "dispatch_one first c = (go, c')" "ring_ok (oc_rob c)"
  shows "view c' = view c \<or>
    (\<exists>sys hasDest rd. view c' = enter_move sys hasDest rd (view c) \<and> \<not> ring_full (v_rob (view c)) \<and>
      (hasDest \<longrightarrow> rd \<noteq> 0 \<and> unat rd < 32 \<and> \<not> ring_empty (v_free (view c)) \<and> \<not> sys))"
proof -
  let ?f = "ring_head (oc_fetchQ c)"
  let ?I = "decode (ft_raw ?f)"
  let ?hasDest = "writesRd (ins_op ?I) \<and> ins_rd ?I \<noteq> 0"
  show ?thesis
  proof (cases "ring_empty (oc_fetchQ c)")
    case True
    then show ?thesis using assms(1) by (auto simp: dispatch_one_def)
  next
    case False
    show ?thesis
    proof (cases "dispatch_stall first ?I c")
      case (Some st)
      have "st_cycles (st s) = st_cycles s" for s
        using Some by (auto simp: dispatch_stall_def Let_def split: if_splits)
      then show ?thesis using assms(1) False Some by (auto simp: dispatch_one_def Let_def)
    next
      case None
      have room: "\<not> ring_full (oc_rob c)" "?hasDest \<Longrightarrow> \<not> ring_empty (oc_free c)"
        using None by (auto simp: dispatch_stall_def Let_def split: if_splits)
      have ok: "ring_ok (v_rob (view c))" "\<not> ring_full (v_rob (view c))" "v_free (view c) = oc_free c"
        using assms(2) room(1) by (simp_all add: view_def)
      obtain idx d where a: "dispatch_alloc ?f ?I c = (idx, d)" by fastforce
      note va = view_dispatch_alloc [OF a]
      have "c' = (if fuKindOf (ins_op ?I) = FU_NONE then dispatch_system idx d
          else dispatch_normal (oc_seqCtr c) idx ?f ?I d)"
        using assms(1) False None by (auto simp: dispatch_one_def Let_def a split: if_splits)
      then have "view c' = (if fuKindOf (ins_op ?I) = FU_NONE then enter_move True False (ins_rd ?I) (view c)
          else enter_move False ?hasDest (ins_rd ?I) (view c))"
        using view_dispatch_system [OF ok(1,2) va(2,1)] view_rename_dest [OF ok(1,2) va(2,1)]
        by (simp add: view_dispatch_normal)
      then show ?thesis using room ok decode_rd [of "ft_raw ?f"] by (intro disjI2) (fastforce split: if_splits)
    qed
  qed
qed

end
