(* ===== verification/Core_Reach.thy ===== *)
theory Core_Reach
  imports Core_Invariant
begin

text \<open>
  Runs of the core: a cycle preserves the renaming invariant, the initial state has it, and so do
  the states reached from it.  The properties of renaming, recovery and the length of runs.
\<close>

section \<open>A cycle\<close>

lemma order_mono: "order_inv k v \<Longrightarrow> k \<le> k' \<Longrightarrow> order_inv k' v"
  by (auto simp: order_inv_def Let_def)

lemma core_inv_mono: "core_inv arch k c \<Longrightarrow> k \<le> k' \<Longrightarrow> core_inv arch k' c"
  using order_mono [of k "view c" k'] by (simp add: core_inv_def)

lemma dispatch_one_inv:
  assumes "core_inv arch k c" "dispatch_one first c = (go, c')" "k + 1 < 2 ^ 64"
  shows "core_inv arch (k + 1) c' \<and> st_cycles (oc_stats c') = st_cycles (oc_stats c) \<and> oc_cfg c' = oc_cfg c"
proof -
  have i: "rename_inv arch (view c)" "order_inv k (view c)" using assms(1) by (simp_all add: core_inv_def)
  from dispatch_one_view [OF assms(2) view_rob_ok [OF i(1)]]
  consider "view c' = view c"
    | sys hasDest rd where "view c' = enter_move sys hasDest rd (view c)" "\<not> ring_full (v_rob (view c))"
      "hasDest \<longrightarrow> rd \<noteq> 0 \<and> unat rd < 32 \<and> \<not> ring_empty (v_free (view c)) \<and> \<not> sys" by blast
  then show ?thesis
  proof cases
    case 1
    then show ?thesis using view_eqD [OF 1] core_inv_mono [OF assms(1)] by simp
  next
    case 2
    have e: "rename_inv arch (enter_move sys hasDest rd (view c))"
      "\<exists>n. ring_list (v_rob (enter_move sys hasDest rd (view c))) = ring_list (v_rob (view c)) @ [n] \<and>
        n_seq n = v_seqCtr (view c)"
      using enter_move_inv [OF i(1) 2(2)] 2(3) by blast+
    obtain n where n: "ring_list (v_rob (view c')) = ring_list (v_rob (view c)) @ [n]" "n_seq n = v_seqCtr (view c)"
      using e(2) by (auto simp: 2(1))
    have "order_inv (k + 1) (view c')" using order_enter [OF i(2) n _ assms(3)] by (simp add: 2(1))
    moreover have "v_cycles (view c') = v_cycles (view c)" "v_cfg (view c') = v_cfg (view c)" unfolding 2(1) by simp_all
    ultimately show ?thesis using e(1) by (simp add: core_inv_def flip: 2(1))
  qed
qed

lemma dispatch_loop_inv:
  assumes "core_inv arch k c" "k + n < 2 ^ 64"
  shows "core_inv arch (k + n) (dispatch_loop n first c) \<and>
    st_cycles (oc_stats (dispatch_loop n first c)) = st_cycles (oc_stats c) \<and> oc_cfg (dispatch_loop n first c) = oc_cfg c"
  using assms
proof (induction n arbitrary: k c first)
  case (Suc n)
  obtain go d where d: "dispatch_one first c = (go, d)" by fastforce
  have i: "core_inv arch (k + 1) d \<and> st_cycles (oc_stats d) = st_cycles (oc_stats c) \<and> oc_cfg d = oc_cfg c"
    by (rule dispatch_one_inv [OF Suc.prems(1) d]) (use Suc.prems(2) in simp)
  show ?case
  proof (cases go)
    case True
    then show ?thesis using Suc.IH [of "k + 1" d False] i Suc.prems(2) by (simp add: d)
  next
    case False
    then show ?thesis using i core_inv_mono [of arch "k + 1" d "k + Suc n"] by (simp add: d)
  qed
qed simp

text \<open>The committed map after a cycle is the one before with the oldest entries applied.\<close>

theorem stepCycle_inv:
  assumes "stepCycle c = Some (Inr c')" "core_inv arch k c" "k + unat (cfg_width (oc_cfg c)) < 2 ^ 64"
  shows "\<exists>m. core_inv (renamed (take m (ring_list (v_rob (view c)))) arch) (k + unat (cfg_width (oc_cfg c))) c' \<and>
    st_cycles (oc_stats c') = st_cycles (oc_stats c) + 1 \<and> oc_cfg c' = oc_cfg c"
proof -
  let ?s = "sample_occupancy c"
  have sv: "view ?s = (view c)\<lparr>v_cycles := v_cycles (view c) + 1\<rparr>" by (simp add: sample_occupancy_def view_def)
  have s: "core_inv arch k ?s" "ring_list (v_rob (view ?s)) = ring_list (v_rob (view c))"
    using assms(2) unfolding core_inv_def sv by (simp_all add: rename_inv_def order_inv_def Let_def)
  have sc: "v_cycles (view ?s) = v_cycles (view c) + 1" "v_cfg (view ?s) = v_cfg (view c)" unfolding sv by simp_all
  obtain d where d: "commitStage ?s = Some (Inr d)"
    "(if oc_halted d then Some (Inr d)
      else Some (bind_result (lsqOperate (aguDrain (writebackStage d))) (\<lambda>c.
             bind_result (fetchStage (dispatchStage (issueStage c))) clock_edge))) = Some (Inr c')"
    using assms(1) by (auto simp: stepCycle_def bind_io_Inr)
  from commitStage_inv [OF d(1) s(1)] obtain m where m:
    "core_inv (renamed (take m (ring_list (v_rob (view c)))) arch) k d"
    "v_cycles (view d) = v_cycles (view c) + 1" "v_cfg (view d) = v_cfg (view c)"
    unfolding s(2) sc by blast
  let ?a = "renamed (take m (ring_list (v_rob (view c)))) arch"
  have md: "st_cycles (oc_stats d) = st_cycles (oc_stats c) + 1" "oc_cfg d = oc_cfg c" using m(2,3) by simp_all
  have "core_inv ?a (k + unat (cfg_width (oc_cfg c))) c' \<and> st_cycles (oc_stats c') = st_cycles (oc_stats c) + 1 \<and>
      oc_cfg c' = oc_cfg c"
  proof (cases "oc_halted d")
    case True
    then show ?thesis using d(2) m(1) md core_inv_mono [of ?a k d] by simp
  next
    case False
    then obtain e f where e: "lsqOperate (aguDrain (writebackStage d)) = Inr e"
      "fetchStage (dispatchStage (issueStage e)) = Inr f" "clock_edge f = Inr c'"
      using d(2) by (auto simp: bind_result_Inr)
    note w = keeps_archD [OF keeps_arch_writeback m(1)]
    note a = keeps_archD [OF keeps_arch_aguDrain w(1)]
    note l = view_eqD [OF view_lsqOperate [OF e(1)]]
    note i = view_eqD [OF view_issueStage [of e]]
    note g = view_eqD [OF view_fetchStage [OF e(2)]] and h = view_eqD [OF view_clock_edge [OF e(3)]]
    have cfg: "oc_cfg (issueStage e) = oc_cfg c" using w a l i md by simp
    have "core_inv ?a k (issueStage e)" using a l i by simp
    from dispatch_loop_inv [OF this, of "unat (cfg_width (oc_cfg c))" True] assms(3)
    show ?thesis using w a l i g h md by (simp add: dispatchStage_def cfg)
  qed
  then show ?thesis by blast
qed

section \<open>The initial state\<close>

lemma ring_new_list: "ring_list (ring_new d n) = []" "n \<noteq> 0 \<Longrightarrow> ring_ok (ring_new d n)"
  by (simp_all add: ring_new_def ring_list_def ring_ok_def word_gt_0)

lemma ring_push_all:
  assumes "ring_ok r" "length (ring_list r) + length xs \<le> unat (r_capacity r)"
  shows "ring_ok (fold (ring_push d) xs r)" "ring_list (fold (ring_push d) xs r) = ring_list r @ xs"
    "r_capacity (fold (ring_push d) xs r) = r_capacity r"
  using assms
proof (induction xs arbitrary: r)
  case (Cons x xs)
  {
    case 1
    then have room: "\<not> ring_full r" by (auto simp: ring_full_def)
    note p = ring_push_ok [OF 1(1) room, of d x]
    show ?case using Cons(1) [OF p(1)] 1 p(2) by (simp del: length_ring_list)
  next
    case 2
    then have room: "\<not> ring_full r" by (auto simp: ring_full_def)
    note p = ring_push_ok [OF 2(1) room, of d x]
    show ?case using Cons(2) [OF p(1)] 2 p(2) by (simp del: length_ring_list)
  next
    case 3
    then have room: "\<not> ring_full r" by (auto simp: ring_full_def)
    note p = ring_push_ok [OF 3(1) room, of d x]
    show ?case using Cons(3) [OF p(1)] 3 p(2) by (simp del: length_ring_list)
  }
qed simp_all

lemma core_new_inv:
  assumes "core_ok cfg" "core_new histLen cfg m h = Some c"
  shows "core_inv rmap_reset 0 c" "oc_cfg c = cfg" "st_cycles (oc_stats c) = 0" "\<not> oc_halted c"
proof -
  let ?P = "unat (cfg_physRegs cfg)"
  have P: "33 \<le> ?P" "?P \<le> 255" "cfg_physRegs cfg \<noteq> 0" "cfg_robSize cfg \<noteq> 0"
    using assms(1) by (auto simp: core_ok_def)
  obtain p where c: "oc_map c = rmap_reset" "oc_free c = free_new (cfg_physRegs cfg)"
    "oc_rob c = ring_new rob_entry0 (cfg_robSize cfg)" "oc_seqCtr c = 0" "oc_cfg c = cfg"
    "st_cycles (oc_stats c) = 0" "\<not> oc_halted c"
    using assms(2) by (auto simp: core_new_def stats0_def)
  show "oc_cfg c = cfg" "st_cycles (oc_stats c) = 0" "\<not> oc_halted c" by (rule c)+
  have fl: "ring_ok (oc_free c)" "ring_list (oc_free c) = map word_of_nat [32..<?P]"
    "r_capacity (oc_free c) = cfg_physRegs cfg"
  proof -
    let ?r = "ring_new (0 :: u8) (cfg_physRegs cfg)"
    have e: "ring_list ?r = []" "r_capacity ?r = cfg_physRegs cfg" by (rule ring_new_list, simp add: ring_new_def)
    have ok: "ring_ok ?r" using P(3) by (rule ring_new_list)
    have "length (ring_list ?r) + length (map word_of_nat [32..<?P] :: u8 list) \<le> unat (r_capacity ?r)"
      unfolding e by simp
    note f = ring_push_all [OF ok this, of 0]
    show "ring_ok (oc_free c)" "ring_list (oc_free c) = map word_of_nat [32..<?P]"
      "r_capacity (oc_free c) = cfg_physRegs cfg"
      using f unfolding e by (simp_all only: c free_new_def append_Nil)
  qed
  have rob: "ring_ok (v_rob (view c))" "ring_list (v_rob (view c)) = []"
  proof -
    have v: "v_rob (view c) = ring_map name_of (ring_new rob_entry0 (cfg_robSize cfg))" by (simp add: view_def c)
    show "ring_ok (v_rob (view c))" unfolding v using ring_new_list(2) [OF P(4)] by simp
    show "ring_list (v_rob (view c)) = []"
      unfolding v ring_map_list [OF ring_new_list(2) [OF P(4)]] ring_new_list(1) by simp
  qed
  have "[0..<?P] = [0..<32] @ [32..<?P]" using P(1) upt_add_eq_append [of 0 32 "?P - 32"] by simp
  then have all: "mset rmap_reset + mset (ring_list (oc_free c)) = all_regs ?P"
    by (simp only: all_regs_def rmap_reset_def fl(2) mset_append map_append)
  have reset: "length rmap_reset = 32" "rmap_reset ! 0 = 0" by (simp_all add: rmap_reset_def)
  have v: "v_map (view c) = rmap_reset" "v_free (view c) = oc_free c" "v_seqCtr (view c) = 0"
    by (simp_all add: view_def c)
  have "rename_inv rmap_reset (view c)"
    unfolding rename_inv_def Let_def rob(2) v view_cycles c(5)
    using rob(1) fl P reset all by (simp add: renamed_def owned_def)
  moreover have "order_inv 0 (view c)" by (simp add: order_inv_def rob v)
  ultimately show "core_inv rmap_reset 0 c" by (simp add: core_inv_def)
qed

section \<open>Runs\<close>

text \<open>The states after a number of cycles.\<close>

inductive cycles :: "core \<Rightarrow> nat \<Rightarrow> core \<Rightarrow> bool" for c0 where
  start: "cycles c0 0 c0"
| cycle: "cycles c0 n c \<Longrightarrow> stepCycle c = Some (Inr c') \<Longrightarrow> cycles c0 (Suc n) c'"

lemma cycles_inv:
  assumes "cycles c0 n c" "core_inv arch0 k c0" "k + n * unat (cfg_width (oc_cfg c0)) < 2 ^ 64"
  shows "\<exists>arch. core_inv arch (k + n * unat (cfg_width (oc_cfg c0))) c \<and> oc_cfg c = oc_cfg c0"
  using assms
proof induction
  case start
  then show ?case by auto
next
  case (cycle n c c')
  let ?w = "unat (cfg_width (oc_cfg c0))"
  obtain arch where a: "core_inv arch (k + n * ?w) c" "oc_cfg c = oc_cfg c0"
    using cycle.IH cycle.prems by (auto simp: algebra_simps)
  have "k + n * ?w + unat (cfg_width (oc_cfg c)) < 2 ^ 64" using cycle.prems(2) by (simp add: a(2) algebra_simps)
  from stepCycle_inv [OF cycle.hyps(2) a(1) this] show ?case by (auto simp: a(2) algebra_simps)
qed

section \<open>Properties\<close>

text \<open>
  C2. Registers are conserved.  In every state the core reaches, the rename map is the committed
  map with the destinations of the instructions in the reorder buffer on top, in program order;
  each of those remembers the register it displaced; and the committed map, the registers the
  instructions own and the free list together hold every physical register exactly once.  x0
  stays mapped to register 0, and the sequence numbers in the reorder buffer increase.
\<close>

theorem registers_conserved:
  assumes "core_ok cfg" "core_new histLen cfg m h = Some c0" "cycles c0 n c" "8 * n < 2 ^ 64"
  shows "\<exists>arch. let es = map name_of (ring_list (oc_rob c)) in
    length arch = 32 \<and> oc_map c = renamed es arch \<and> chained arch es \<and>
    mset arch + mset (owned es) + mset (ring_list (oc_free c)) = all_regs (unat (cfg_physRegs cfg)) \<and>
    arch ! 0 = 0 \<and> oc_map c ! 0 = 0 \<and> sorted_wrt (<) (map re_seq (ring_list (oc_rob c)))"
proof -
  note n = core_new_inv [OF assms(1,2)]
  have "unat (cfg_width (oc_cfg c0)) \<le> 8" using assms(1) n(2) by (simp add: core_ok_def)
  then have "n * unat (cfg_width (oc_cfg c0)) \<le> n * 8" by (rule mult_le_mono2)
  then have "0 + n * unat (cfg_width (oc_cfg c0)) < 2 ^ 64" using assms(4) by linarith
  from cycles_inv [OF assms(3) n(1) this] obtain arch k where
    i: "rename_inv arch (view c)" "order_inv k (view c)" "oc_cfg c = cfg"
    by (auto simp: core_inv_def n(2))
  have es: "ring_list (v_rob (view c)) = map name_of (ring_list (oc_rob c))"
    by (rule view_rob_list [OF view_rob_ok [OF i(1)]])
  have v: "v_map (view c) = oc_map c" "v_free (view c) = oc_free c" by (simp_all add: view_def)
  have "renamed (map name_of (ring_list (oc_rob c))) arch ! 0 = 0"
    using i(1) by (intro renamed_zero) (simp_all add: rename_inv_def Let_def es)
  moreover have "map n_seq (map name_of (ring_list (oc_rob c))) = map re_seq (ring_list (oc_rob c))"
    by (simp add: o_def name_of_def)
  ultimately show ?thesis
    using i unfolding rename_inv_def order_inv_def Let_def es v view_cycles
    by (intro exI [of _ arch]) (simp del: map_map)
qed

lemma default_core_ok: "core_ok (default_config\<lparr>cfg_physRegs := 64\<rparr>)"
  by (simp add: core_ok_def default_config_def fetchBlockBytes_def)

definition demo_core :: core where
  "demo_core = the (core_new [] (default_config\<lparr>cfg_physRegs := 64\<rparr>)
     (msys_new (default_config\<lparr>cfg_physRegs := 64\<rparr>)) host_demo)"

lemma demo_core_new:
  "core_new [] (default_config\<lparr>cfg_physRegs := 64\<rparr>) (msys_new (default_config\<lparr>cfg_physRegs := 64\<rparr>)) host_demo =
     Some demo_core"
proof -
  have "predictor_new [] (default_config\<lparr>cfg_physRegs := 64\<rparr>) \<noteq> None"
    by (simp add: predictor_new_def Let_def default_config_def)
  then show ?thesis by (auto simp: demo_core_def core_new_def)
qed

theorem registers_conserved_witness:
  "\<exists>arch. let es = map name_of (ring_list (oc_rob demo_core)) in
    length arch = 32 \<and> oc_map demo_core = renamed es arch \<and> chained arch es \<and>
    mset arch + mset (owned es) + mset (ring_list (oc_free demo_core)) = all_regs 64 \<and>
    arch ! 0 = 0 \<and> oc_map demo_core ! 0 = 0 \<and> sorted_wrt (<) (map re_seq (ring_list (oc_rob demo_core)))"
  using registers_conserved [OF default_core_ok demo_core_new cycles.start] by simp

end
