(* ===== verification/Core_Run.thy ===== *)
theory Core_Run
  imports Core_Reach "HOL-Library.Sublist"
begin

text \<open>
  The clock of a run: every stage leaves the cycle counter, the configuration and the size of the
  memory alone, whatever state it starts from, so a cycle counts exactly one and \<^verbatim>\<open>run\<close> returns.
\<close>

section \<open>The clock\<close>

abbreviation mem_len :: "msys \<Rightarrow> nat" where
  "mem_len m \<equiv> length (bytes (ms_backing m))"

text \<open>The time of a core, and the ledger of what it committed.\<close>

definition time_of :: "core \<Rightarrow> u64 \<times> sim_config \<times> nat" where
  "time_of c = (st_cycles (oc_stats c), oc_cfg c, mem_len (oc_msys c))"

definition clock :: "core \<Rightarrow> (u64 \<times> sim_config \<times> nat) \<times> u64 \<times> CommitRecord list \<times> bool" where
  "clock c = (time_of c, st_retired (oc_stats c), oc_commits c, oc_halted c)"

lemma time_fields [simp]:
  "time_of (c\<lparr>oc_map := x_map\<rparr>) = time_of c"
  "time_of (c\<lparr>oc_free := x_free\<rparr>) = time_of c"
  "time_of (c\<lparr>oc_val := x_val\<rparr>) = time_of c"
  "time_of (c\<lparr>oc_ready := x_ready\<rparr>) = time_of c"
  "time_of (c\<lparr>oc_rob := x_rob\<rparr>) = time_of c"
  "time_of (c\<lparr>oc_iq := x_iq\<rparr>) = time_of c"
  "time_of (c\<lparr>oc_lsq := x_lsq\<rparr>) = time_of c"
  "time_of (c\<lparr>oc_sb := x_sb\<rparr>) = time_of c"
  "time_of (c\<lparr>oc_pred := x_pred\<rparr>) = time_of c"
  "time_of (c\<lparr>oc_units := x_units\<rparr>) = time_of c"
  "time_of (c\<lparr>oc_agus := x_agus\<rparr>) = time_of c"
  "time_of (c\<lparr>oc_wbReady := x_wbReady\<rparr>) = time_of c"
  "time_of (c\<lparr>oc_pc := x_pc\<rparr>) = time_of c"
  "time_of (c\<lparr>oc_fetchQ := x_fetchQ\<rparr>) = time_of c"
  "time_of (c\<lparr>oc_fOutstanding := x_fOutstanding\<rparr>) = time_of c"
  "time_of (c\<lparr>oc_fStale := x_fStale\<rparr>) = time_of c"
  "time_of (c\<lparr>oc_fBlock := x_fBlock\<rparr>) = time_of c"
  "time_of (c\<lparr>oc_fFetchPc := x_fFetchPc\<rparr>) = time_of c"
  "time_of (c\<lparr>oc_loadOuts := x_loadOuts\<rparr>) = time_of c"
  "time_of (c\<lparr>oc_sbTxnCtr := x_sbTxnCtr\<rparr>) = time_of c"
  "time_of (c\<lparr>oc_depTable := x_depTable\<rparr>) = time_of c"
  "time_of (c\<lparr>oc_seqCtr := x_seqCtr\<rparr>) = time_of c"
  "time_of (c\<lparr>oc_pendRedirect := x_pendRedirect\<rparr>) = time_of c"
  "time_of (c\<lparr>oc_pendTarget := x_pendTarget\<rparr>) = time_of c"
  "time_of (c\<lparr>oc_recTimerArmed := x_recTimerArmed\<rparr>) = time_of c"
  "time_of (c\<lparr>oc_recTimerStart := x_recTimerStart\<rparr>) = time_of c"
  "time_of (c\<lparr>oc_exitCode := x_exitCode\<rparr>) = time_of c"
  "time_of (c\<lparr>oc_host := x_host\<rparr>) = time_of c"
  "time_of (c\<lparr>oc_commits := x_commits\<rparr>) = time_of c"
  "time_of (c\<lparr>oc_halted := x_halted\<rparr>) = time_of c"
  "st_cycles st = st_cycles (oc_stats c) \<Longrightarrow> time_of (c\<lparr>oc_stats := st\<rparr>) = time_of c"
  "mem_len m = mem_len (oc_msys c) \<Longrightarrow> time_of (c\<lparr>oc_msys := m\<rparr>) = time_of c"
  by (simp_all add: time_of_def)

lemma clock_fields [simp]:
  "clock (c\<lparr>oc_map := x_map\<rparr>) = clock c"
  "clock (c\<lparr>oc_free := x_free\<rparr>) = clock c"
  "clock (c\<lparr>oc_val := x_val\<rparr>) = clock c"
  "clock (c\<lparr>oc_ready := x_ready\<rparr>) = clock c"
  "clock (c\<lparr>oc_rob := x_rob\<rparr>) = clock c"
  "clock (c\<lparr>oc_iq := x_iq\<rparr>) = clock c"
  "clock (c\<lparr>oc_lsq := x_lsq\<rparr>) = clock c"
  "clock (c\<lparr>oc_sb := x_sb\<rparr>) = clock c"
  "clock (c\<lparr>oc_pred := x_pred\<rparr>) = clock c"
  "clock (c\<lparr>oc_units := x_units\<rparr>) = clock c"
  "clock (c\<lparr>oc_agus := x_agus\<rparr>) = clock c"
  "clock (c\<lparr>oc_wbReady := x_wbReady\<rparr>) = clock c"
  "clock (c\<lparr>oc_pc := x_pc\<rparr>) = clock c"
  "clock (c\<lparr>oc_fetchQ := x_fetchQ\<rparr>) = clock c"
  "clock (c\<lparr>oc_fOutstanding := x_fOutstanding\<rparr>) = clock c"
  "clock (c\<lparr>oc_fStale := x_fStale\<rparr>) = clock c"
  "clock (c\<lparr>oc_fBlock := x_fBlock\<rparr>) = clock c"
  "clock (c\<lparr>oc_fFetchPc := x_fFetchPc\<rparr>) = clock c"
  "clock (c\<lparr>oc_loadOuts := x_loadOuts\<rparr>) = clock c"
  "clock (c\<lparr>oc_sbTxnCtr := x_sbTxnCtr\<rparr>) = clock c"
  "clock (c\<lparr>oc_depTable := x_depTable\<rparr>) = clock c"
  "clock (c\<lparr>oc_seqCtr := x_seqCtr\<rparr>) = clock c"
  "clock (c\<lparr>oc_pendRedirect := x_pendRedirect\<rparr>) = clock c"
  "clock (c\<lparr>oc_pendTarget := x_pendTarget\<rparr>) = clock c"
  "clock (c\<lparr>oc_recTimerArmed := x_recTimerArmed\<rparr>) = clock c"
  "clock (c\<lparr>oc_recTimerStart := x_recTimerStart\<rparr>) = clock c"
  "clock (c\<lparr>oc_exitCode := x_exitCode\<rparr>) = clock c"
  "clock (c\<lparr>oc_host := x_host\<rparr>) = clock c"
  "st_cycles st = st_cycles (oc_stats c) \<Longrightarrow> st_retired st = st_retired (oc_stats c) \<Longrightarrow>
     clock (c\<lparr>oc_stats := st\<rparr>) = clock c"
  "mem_len m = mem_len (oc_msys c) \<Longrightarrow> clock (c\<lparr>oc_msys := m\<rparr>) = clock c"
  by (simp_all add: clock_def)

lemma time_ofD:
  assumes "time_of d = time_of c"
  shows "st_cycles (oc_stats d) = st_cycles (oc_stats c)" "oc_cfg d = oc_cfg c"
    "mem_len (oc_msys d) = mem_len (oc_msys c)"
  using assms by (simp_all add: time_of_def)

lemma clockD:
  assumes "clock d = clock c"
  shows "time_of d = time_of c" "st_retired (oc_stats d) = st_retired (oc_stats c)" "oc_commits d = oc_commits c"
    "oc_halted d = oc_halted c"
  using assms by (simp_all add: clock_def)

section \<open>The memory system\<close>

lemma blit_within: "i + length bs \<le> length xs \<Longrightarrow> length (blit i bs xs) = length xs"
  by (simp add: blit_def)

lemma dram_perform_length:
  assumes "dram_perform req r m = Inr (m', r')"
  shows "length (bytes m') = length (bytes m)"
  using assms
  by (auto simp: dram_perform_def Let_def bind_result_Inr mem_check_def blit_within
      dest: mem_store_length split: if_splits)

lemma dram_access_length: "dram_access req (m, d) = Inr (m', d') \<Longrightarrow> length (bytes m') = length (bytes m)"
  by (auto simp: dram_access_def Let_def bind_result_Inr dest: dram_perform_length split: if_splits)

lemma dmem_access_length: "dmem_access req m = Inr m' \<Longrightarrow> mem_len m' = mem_len m"
  by (auto simp: dmem_access_def bind_result_Inr dest: dram_access_length split: if_splits)

lemma imem_access_length: "imem_access req m = Inr m' \<Longrightarrow> mem_len m' = mem_len m"
  by (auto simp: imem_access_def bind_result_Inr dest: dram_access_length split: if_splits)

lemma pop_length [simp]: "mem_len (dmem_popResponse m) = mem_len m" "mem_len (imem_popResponse m) = mem_len m"
  by (simp_all add: dmem_popResponse_def imem_popResponse_def)

lemma drainDram_length [simp]: "ms_backing (drainDram m) = ms_backing m"
proof (induction m rule: drainDram.induct)
  case (1 m)
  then show ?case by (subst drainDram.simps) simp
qed

lemma drainL2_length [simp]: "ms_backing (drainL2 m) = ms_backing m"
proof (induction m rule: drainL2.induct)
  case (1 m)
  then show ?case by (subst drainL2.simps) (simp add: Let_def route_def)
qed

lemma tick_l1_length [simp]: "ms_backing (tick_l1i m) = ms_backing m" "ms_backing (tick_l1d m) = ms_backing m"
  by (simp_all add: tick_l1i_def tick_l1d_def Let_def split: prod.split option.split)

lemma msys_tick_length: "msys_tick m = Inr m' \<Longrightarrow> mem_len m' = mem_len m"
  by (auto simp: msys_tick_def tick_l2_def Let_def bind_result_Inr dest!: dram_access_length
      split: if_splits prod.splits option.splits)

section \<open>The stages\<close>

lemma clock_rob_update [simp]: "clock (rob_update idx f c) = clock c"
  by (simp add: rob_update_def)

lemma clock_recover [simp]: "clock (recover seq c) = clock c"
  by (simp add: recover_def Let_def case_prod_beta)

lemma time_commit_system:
  "commit_system e rec c = Some (Inr (rec', c')) \<Longrightarrow> time_of c' = time_of c"
  by (auto simp: commit_system_def commit_ecall_def Let_def bind_result_Inr split: op.splits if_splits)

lemma time_commit_mem: "commit_mem e rec c = Inr (Some (rec', c')) \<Longrightarrow> time_of c' = time_of c"
  by (auto simp: commit_mem_def Let_def bind_result_Inr split: if_splits)

lemma time_commit_rest [simp]: "time_of (commit_rest e rec c) = time_of c"
  by (simp add: commit_rest_def commit_dest_def commit_branch_def commit_dep_def commit_finish_def Let_def
      case_prod_beta)

lemma time_commit_one:
  assumes "commit_one c = Some (Inr (go, c'))"
  shows "time_of c' = time_of c"
  using assms
  by (auto simp: commit_one_def Let_def bind_io_Inr bind_result_Inr commit_finish_def
      dest!: time_commit_system time_commit_mem split: option.splits if_splits)

lemma time_commit_loop: "commit_loop n k c = Some (Inr (k', c')) \<Longrightarrow> time_of c' = time_of c"
proof (induction n arbitrary: k c)
  case (Suc n)
  show ?case
  proof (cases "ring_empty (oc_rob c) \<or> \<not> re_done (ring_head (oc_rob c)) \<or> oc_halted c")
    case True
    then show ?thesis using Suc.prems by simp
  next
    case False
    then obtain go d where d: "commit_one c = Some (Inr (go, d))"
      "(if go then commit_loop n (Suc k) d else Some (Inr (k, d))) = Some (Inr (k', c'))"
      using Suc.prems by (auto simp: bind_io_Inr)
    then show ?thesis using Suc.IH [of "Suc k" d] time_commit_one [OF d(1)] by (simp split: if_splits)
  qed
qed simp

lemma time_commitStage: "commitStage c = Some (Inr c') \<Longrightarrow> time_of c' = time_of c"
  by (auto simp: commitStage_def bind_io_Inr Let_def dest: time_commit_loop split: if_splits)

lemma clock_wb_invalidate [simp]: "clock (wb_invalidate p c) = clock c"
  by (cases p) simp_all

lemma clock_wb_result [simp]: "clock (wb_result x c) = clock c"
  by (simp add: wb_result_def Let_def)

lemma clock_writeback_one [simp]: "clock (snd (writeback_one c)) = clock c"
  by (simp add: writeback_one_def wb_take_def wb_mispredict_def Let_def case_prod_beta)

lemma clock_writeback_loop [simp]: "clock (writeback_loop n c) = clock c"
  by (induction n arbitrary: c) (simp_all add: case_prod_beta)

lemma clock_writebackStage [simp]: "clock (writebackStage c) = clock c"
  by (simp add: writebackStage_def Let_def)

lemma clock_violationScan [simp]: "clock (violationScan st c) = clock c"
  by (simp add: violationScan_def Let_def split: option.split)

lemma clock_agu_complete [simp]: "clock (agu_complete i c) = clock c"
  by (simp add: agu_complete_def Let_def)

lemma clock_agu_loop [simp]: "clock (agu_loop n c) = clock c"
  by (induction n arbitrary: c) (simp_all split: option.split)

lemma clock_drainDataResponses [simp]: "clock (drainDataResponses c) = clock c"
proof (induction c rule: drainDataResponses.induct)
  case (1 c)
  have "clock (respond r (c\<lparr>oc_msys := dmem_popResponse (oc_msys c)\<rparr>)) = clock c" for r
    by (simp add: respond_def)
  then show ?case using 1 by (subst drainDataResponses.simps) simp
qed

lemma clock_lsq_updates [simp]: "clock (lsq_updates c) = clock c"
proof -
  have "keeps (\<lambda>s. clock (fst s) = clock c) update_visitor"
    by (rule keepsI) (simp add: update_visitor_def surface_load_def capture_store_def Let_def case_prod_beta)
  from ss_visit_keeps [OF this, of "(c, 0)"] show ?thesis by (simp add: lsq_updates_def lsq_visitUpdates_def)
qed

lemma clock_find_candidate [simp]: "clock (fst (find_candidate c)) = clock c"
proof -
  have "keeps (\<lambda>s. clock (fst s) = clock c) (candidate_visitor u p)" for u p
    by (rule keepsI) (simp add: candidate_visitor_def Let_def case_prod_beta split: forwarding.split)
  from ss_visit_keeps [OF this, of "(c, None)"] show ?thesis
    by (simp add: find_candidate_def lsq_visitCandidates_def Let_def)
qed

lemma clock_send_store: "send_store c = Inr c' \<Longrightarrow> clock c' = clock c"
  by (auto simp: send_store_def Let_def bind_result_Inr clock_def time_of_def dest: dmem_access_length split: prod.splits)

lemma clock_send_load: "send_load i sp c = Inr c' \<Longrightarrow> clock c' = clock c"
  by (auto simp: send_load_def Let_def bind_result_Inr clock_def time_of_def dest: dmem_access_length split: if_splits)

lemma clock_port_access:
  assumes "port_access c = Inr (sent, c')"
  shows "clock c' = clock c"
proof -
  obtain d cand where f: "find_candidate c = (d, cand)" by fastforce
  have d: "clock d = clock c" using clock_find_candidate [of c] by (simp add: f)
  then show ?thesis using assms
    by (auto simp: port_access_def f bind_result_Inr dest: clock_send_store clock_send_load
        split: if_splits option.splits prod.splits)
qed

lemma clock_port_loop: "port_loop n c = Inr c' \<Longrightarrow> clock c' = clock c"
proof (induction n arbitrary: c)
  case (Suc n)
  then obtain sent d where "port_access c = Inr (sent, d)" "(if sent then port_loop n d else Inr d) = Inr c'"
    by (auto simp: bind_result_Inr)
  then show ?case using Suc.IH [of d] clock_port_access [of c sent d] by (simp split: if_splits)
qed simp

lemma clock_lsqOperate:
  assumes "lsqOperate c = Inr c'"
  shows "clock c' = clock c"
proof -
  let ?c = "lsq_updates ((drainDataResponses c)\<lparr>oc_sb := sb_drain (oc_sb (drainDataResponses c))\<rparr>)"
  obtain d where d: "port_loop (unat (cfg_dataPorts (oc_cfg ?c))) ?c = Inr d"
    "c' = (let e = drainDataResponses d in if lsq_hasPendingLoads (oc_lsq e)
       then count_stat (\<lambda>s. s\<lparr>st_dataStallCycles := st_dataStallCycles s + 1\<rparr>) e else e)"
    using assms by (auto simp: lsqOperate_def Let_def bind_result_Inr)
  have "clock c' = clock (drainDataResponses d)" by (simp add: d(2) Let_def)
  also have "\<dots> = clock c" using clock_port_loop [OF d(1)] by simp
  finally show ?thesis .
qed

lemma clock_unit_accept [simp]: "clock (unit_accept u x c) = clock c"
  by (cases u) simp_all

lemma clock_issue_visitor: "clock (fst (snd (issue_visitor x s))) = clock (fst s)"
proof -
  obtain u c n a g where p: "pick_unit (q_unit (iq_e (oc_iq (fst s)) ! x)) s = (u, c, n, a, g)" by (metis prod_cases5)
  then have "c = fst s" using pick_unit_core [of "q_unit (iq_e (oc_iq (fst s)) ! x)" s] by simp
  then show ?thesis by (cases u) (simp_all add: issue_visitor_def Let_def p)
qed

lemma clock_issueStage [simp]: "clock (issueStage c) = clock c"
proof -
  have "keeps (\<lambda>s. clock (fst s) = clock c) issue_visitor"
    by (rule keepsI) (simp add: clock_issue_visitor)
  from iq_visitReady_keeps [OF this, of "(c, 0, 0, 0)"] show ?thesis by (simp add: issueStage_def)
qed

lemma clock_dispatch_alloc [simp]: "clock (snd (dispatch_alloc f I c)) = clock c"
  by (simp add: dispatch_alloc_def Let_def case_prod_beta)

lemma clock_dispatch_normal [simp]: "clock (dispatch_normal seq idx f I c) = clock c"
  by (simp add: dispatch_normal_def rename_dest_def dispatch_mem_def dispatch_iq_def Let_def case_prod_beta
      split: option.split)

lemma clock_dispatch_one [simp]: "clock (snd (dispatch_one first c)) = clock c"
proof -
  have "clock (count_stat st c) = clock c" if "dispatch_stall first I c = Some st" for st I
  proof -
    have "st_cycles (st s) = st_cycles s" "st_retired (st s) = st_retired s" for s
      using that by (auto simp: dispatch_stall_def Let_def split: if_splits)
    then show ?thesis by simp
  qed
  then show ?thesis
    by (simp add: dispatch_one_def dispatch_system_def Let_def case_prod_beta split: option.split)
qed

lemma clock_dispatch_loop [simp]: "clock (dispatch_loop n first c) = clock c"
  by (induction n arbitrary: first c) (simp_all add: case_prod_beta)

lemma clock_fetch_words [simp]: "clock (fetch_words r xs c) = clock c"
proof (induction xs arbitrary: c)
  case (Cons i xs)
  have "clock (snd (fetch_word r i c)) = clock c" by (simp add: fetch_word_def Let_def case_prod_beta)
  then show ?case using Cons by (simp add: case_prod_beta)
qed simp

lemma clock_fetch_consume [simp]: "clock (fetch_consume c) = clock c"
  by (simp add: fetch_consume_def Let_def processFetch_def)

lemma clock_fetch_request: "fetch_request c = Inr c' \<Longrightarrow> clock c' = clock c"
  by (auto simp: fetch_request_def Let_def bind_result_Inr dest!: imem_access_length)

lemma clock_fetchStage:
  assumes "fetchStage c = Inr c'"
  shows "clock c' = clock c"
proof -
  define d where "d = (if oc_fOutstanding c \<and> imem_hasResponse (oc_msys c) then fetch_consume c else c)"
  have "clock d = clock c" by (simp add: d_def)
  moreover have "c' = d \<or> c' = count_stat (\<lambda>s. s\<lparr>st_badFetchWaitCycles := st_badFetchWaitCycles s + 1\<rparr>) d \<or>
      fetch_request d = Inr c'"
    using assms by (auto simp: fetchStage_def Let_def simp flip: d_def split: if_splits)
  ultimately show ?thesis using clock_fetch_request [of d c'] by auto
qed

lemma clock_fold_tick [simp]: "clock (fold tick_unit xs c) = clock c"
proof (induction xs arbitrary: c)
  case (Cons i xs)
  then show ?case by (simp add: tick_unit_def Let_def case_prod_beta)
qed simp

lemma clock_clock_edge:
  assumes "clock_edge c = Inr c'"
  shows "clock c' = clock c"
proof -
  define d where "d = fold tick_unit [0..<length (oc_units (apply_redirect c))] (apply_redirect c)"
  define e where "e = d\<lparr>oc_agus := map (\<lambda>u. snd (fu_tick u)) (oc_agus d)\<rparr>"
  have e: "clock e = clock c" by (simp add: e_def d_def apply_redirect_def)
  obtain m where m: "msys_tick (oc_msys e) = Inr m" "c' = e\<lparr>oc_msys := m\<rparr>"
    using assms by (auto simp: clock_edge_def Let_def bind_result_Inr e_def d_def)
  show ?thesis using msys_tick_length [OF m(1)] e by (simp add: m(2))
qed

section \<open>A cycle counts one\<close>

text \<open>After commit only the time and the ledger stand, in every stage.\<close>

lemma stepCycle_stages:
  assumes "stepCycle c = Some (Inr c')"
  obtains d where "commitStage (sample_occupancy c) = Some (Inr d)" "clock c' = clock d"
proof -
  obtain d where d: "commitStage (sample_occupancy c) = Some (Inr d)"
    "(if oc_halted d then Some (Inr d)
      else Some (bind_result (lsqOperate (aguDrain (writebackStage d))) (\<lambda>c.
             bind_result (fetchStage (dispatchStage (issueStage c))) clock_edge))) = Some (Inr c')"
    using assms by (auto simp: stepCycle_def bind_io_Inr)
  have "clock c' = clock d"
  proof (cases "oc_halted d")
    case False
    then obtain e f where "lsqOperate (aguDrain (writebackStage d)) = Inr e"
      "fetchStage (dispatchStage (issueStage e)) = Inr f" "clock_edge f = Inr c'"
      using d(2) by (auto simp: bind_result_Inr)
    then show ?thesis
      using clock_lsqOperate clock_fetchStage clock_clock_edge by (simp add: aguDrain_def dispatchStage_def)
  qed (use d in simp)
  then show thesis using d(1) that by blast
qed

lemma stepCycle_clock:
  assumes "stepCycle c = Some (Inr c')"
  shows "st_cycles (oc_stats c') = st_cycles (oc_stats c) + 1" "oc_cfg c' = oc_cfg c"
    "mem_len (oc_msys c') = mem_len (oc_msys c)"
proof -
  obtain d where d: "commitStage (sample_occupancy c) = Some (Inr d)" "clock c' = clock d"
    using assms by (rule stepCycle_stages)
  have "time_of (sample_occupancy c) = (st_cycles (oc_stats c) + 1, oc_cfg c, mem_len (oc_msys c))"
    by (simp add: sample_occupancy_def time_of_def)
  then have "time_of c' = (st_cycles (oc_stats c) + 1, oc_cfg c, mem_len (oc_msys c))"
    using time_commitStage [OF d(1)] clockD(1) [OF d(2)] by simp
  then show "st_cycles (oc_stats c') = st_cycles (oc_stats c) + 1" "oc_cfg c' = oc_cfg c"
    "mem_len (oc_msys c') = mem_len (oc_msys c)"
    by (simp_all add: time_of_def)
qed

section \<open>A cycle returns\<close>

text \<open>A string ends at a zero byte or where the memory ends.\<close>

lemma print_string_total:
  assumes "\<And>a. n \<le> unat a \<Longrightarrow> \<exists>e. rb a = Inl e" "n < 2 ^ 32"
  shows "print_string rb a acc \<noteq> None"
proof (induction "n - unat a" arbitrary: a acc rule: less_induct)
  case less
  show ?case
  proof (cases "rb a")
    case (Inl e)
    then show ?thesis by (simp add: print_string.simps)
  next
    case (Inr b)
    then have "unat a < n" using assms(1) [of a] by (fastforce simp: not_le)
    moreover from this have "unat (a + 1) = unat a + 1" using assms(2) by (simp add: unat_word_ariths)
    ultimately have "print_string rb (a + 1) (acc @ [b]) \<noteq> None" by (intro less) simp
    then show ?thesis by (simp add: print_string.simps [of rb a] Inr)
  qed
qed

lemma runSyscall_total:
  assumes "\<And>a. n \<le> unat a \<Longrightarrow> \<exists>e. rb a = Inl e" "n < 2 ^ 32"
  shows "runSyscall num x pc q rb ec n ri h \<noteq> None"
proof -
  have "print_string rb x [] \<noteq> None" by (rule print_string_total [of n]) (erule assms(1), rule assms(2))
  then obtain s where "print_string rb x [] = Some s" by blast
  then show ?thesis by (simp add: runSyscall_def Let_def)
qed

lemma msys_peek8_beyond: "mem_len m \<le> unat a \<Longrightarrow> \<exists>e. msys_peek8 m a = Inl e"
  by (simp add: msys_peek8_def mem_check_def)

lemma bind_io_total: "r \<noteq> None \<Longrightarrow> (\<And>x. r = Some (Inr x) \<Longrightarrow> f x \<noteq> None) \<Longrightarrow> bind_io r f \<noteq> None"
  by (auto simp: bind_io_def split: sum.split)

lemma commit_system_total:
  assumes "mem_len (oc_msys c) < 2 ^ 32"
  shows "commit_system e rec c \<noteq> None"
  using runSyscall_total [OF msys_peek8_beyond assms]
  by (simp add: commit_system_def commit_ecall_def Let_def split: op.split)

lemma commit_one_total:
  assumes "mem_len (oc_msys c) < 2 ^ 32"
  shows "commit_one c \<noteq> None"
proof (cases "commit_fault (ring_head (oc_rob c)) c")
  case None
  have "bind_io (commit_system e rec c) (\<lambda>(rec, c). Some (Inr (True, commit_finish rec c))) \<noteq> None" for e rec
    by (rule bind_io_total [OF commit_system_total [OF assms]]) auto
  then show ?thesis unfolding commit_one_def Let_def None option.case if_split [where P = "\<lambda>x. x \<noteq> None"] by simp
qed (simp add: commit_one_def Let_def)

lemma commit_loop_total:
  assumes "mem_len (oc_msys c) < 2 ^ 32"
  shows "commit_loop n k c \<noteq> None"
  using assms
proof (induction n arbitrary: k c)
  case (Suc n)
  have "(if go then commit_loop n (Suc k) d else Some (Inr (k, d))) \<noteq> None"
    if "commit_one c = Some (Inr (go, d))" for go d
    using Suc.IH [of d] time_ofD(3) [OF time_commit_one [OF that]] Suc.prems by simp
  then have "bind_io (commit_one c) (\<lambda>(go, c). if go then commit_loop n (Suc k) c else Some (Inr (k, c))) \<noteq> None"
    by (intro bind_io_total [OF commit_one_total [OF Suc.prems]]) auto
  then show ?case by simp
qed simp

lemma stepCycle_total:
  assumes "mem_len (oc_msys c) < 2 ^ 32"
  shows "stepCycle c \<noteq> None"
proof -
  have "mem_len (oc_msys (sample_occupancy c)) < 2 ^ 32" using assms by (simp add: sample_occupancy_def)
  note l = commit_loop_total [OF this]
  have "commitStage (sample_occupancy c) \<noteq> None"
    unfolding commitStage_def by (rule bind_io_total [OF l]) (auto simp: Let_def)
  then show ?thesis unfolding stepCycle_def by (rule bind_io_total) simp
qed

section \<open>The run\<close>

text \<open>
  C7. With a memory of less than \<^verbatim>\<open>2 ^ 32\<close> bytes and a cycle count within the budget, \<^verbatim>\<open>run\<close>
  returns, whatever program is loaded and whatever the queues, units and registers hold: it ends
  with a fatal error, or with the machine halted, or with the exit code 2 exactly when the budget
  of cycles is used up.  The bound on the memory is needed: with all \<^verbatim>\<open>2 ^ 32\<close> bytes, which the
  validation accepts, a print-string call over a memory without a zero byte never returns
  (\<open>print_string_spins\<close>).
\<close>

theorem core_run_returns:
  assumes "mem_len (oc_msys c) < 2 ^ 32" "st_cycles (oc_stats c) \<le> cfg_maxCycles (oc_cfg c)"
  shows "\<exists>r. core_run c = Some r \<and>
    (\<forall>c'. r = Inr c' \<longrightarrow> st_cycles (oc_stats c) \<le> st_cycles (oc_stats c') \<and>
       (oc_halted c' \<and> st_cycles (oc_stats c') \<le> cfg_maxCycles (oc_cfg c) \<or>
        st_cycles (oc_stats c') = cfg_maxCycles (oc_cfg c) \<and> oc_exitCode c' = 2))"
  using assms
proof (induction "unat (cfg_maxCycles (oc_cfg c) - st_cycles (oc_stats c))" arbitrary: c rule: less_induct)
  case less
  let ?max = "cfg_maxCycles (oc_cfg c)" and ?now = "st_cycles (oc_stats c)"
  show ?case
  proof (cases "oc_halted c \<or> ?max \<le> ?now")
    case True
    then show ?thesis using less.prems by (subst core_run.simps) auto
  next
    case False
    then have now: "?now < ?max" by (simp add: not_le)
    obtain r where r: "stepCycle c = Some r" using stepCycle_total [OF less.prems(1)] by blast
    have run: "core_run c = (case r of Inl e \<Rightarrow> Some (Inl e) | Inr d \<Rightarrow> core_run d)"
      using False by (subst core_run.simps) (simp add: r)
    show ?thesis
    proof (cases r)
      case (Inl e)
      then show ?thesis by (simp add: run)
    next
      case (Inr d)
      note s = stepCycle_clock [OF r [unfolded Inr]]
      have n: "?now + 1 \<le> ?max" "?now \<le> ?now + 1" "unat (?max - (?now + 1)) < unat (?max - ?now)"
        using now by unat_arith+
      have "unat (cfg_maxCycles (oc_cfg d) - st_cycles (oc_stats d)) < unat (?max - ?now)"
        "mem_len (oc_msys d) < 2 ^ 32" "st_cycles (oc_stats d) \<le> cfg_maxCycles (oc_cfg d)"
        using s n less.prems(1) by simp_all
      from less.hyps [OF this] show ?thesis using order_trans [OF n(2)] unfolding run Inr s by auto
    qed
  qed
qed

lemma core_new_fields:
  assumes "core_new histLen cfg m h = Some c"
  shows "oc_msys c = m" "st_cycles (oc_stats c) = 0" "oc_cfg c = cfg"
  using assms by (auto simp: core_new_def stats0_def)

theorem core_run_returns_witness: "\<exists>r. core_run demo_core = Some r"
proof -
  note f = core_new_fields [OF demo_core_new]
  have "mem_len (oc_msys demo_core) < 2 ^ 32" "st_cycles (oc_stats demo_core) = 0"
    "cfg_maxCycles (oc_cfg demo_core) = 10000000"
    by (simp_all add: f msys_new_def memory_new_def default_config_def)
  then show ?thesis using core_run_returns [of demo_core] by auto
qed

section \<open>The commit stream\<close>

text \<open>
  The records are numbered from zero; while the machine runs, the next number is the count of
  retired instructions.
\<close>

definition numbered :: "core \<Rightarrow> bool" where
  "numbered c \<longleftrightarrow> map cr_sequence (oc_commits c) = map word_of_nat [0..<length (oc_commits c)] \<and>
     (oc_halted c \<or> st_retired (oc_stats c) = word_of_nat (length (oc_commits c)))"

lemma numbered_finish:
  assumes "numbered c" "\<not> oc_halted c" "cr_sequence rec = st_retired (oc_stats c)"
    and "oc_commits d = oc_commits c @ [rec]" "oc_halted d \<or> st_retired (oc_stats d) = st_retired (oc_stats c) + 1"
  shows "numbered d"
  using assms by (auto simp: numbered_def)

lemma commit_system_ledger:
  assumes "commit_system e rec c = Some (Inr (rec', d))"
  shows "cr_sequence rec' = cr_sequence rec" "oc_commits d = oc_commits c"
    "oc_halted d \<or> st_retired (oc_stats d) = st_retired (oc_stats c) + 1"
  using assms
  by (auto simp: commit_system_def commit_ecall_def Let_def bind_result_Inr split: op.splits if_splits)

lemma commit_mem_ledger:
  assumes "commit_mem e rec c = Inr (Some (rec', d))"
  shows "cr_sequence rec' = cr_sequence rec" "clock d = clock c"
  using assms by (auto simp: commit_mem_def Let_def bind_result_Inr split: if_splits)

lemma commit_rest_ledger:
  "\<exists>rec'. cr_sequence rec' = cr_sequence rec \<and> oc_commits (commit_rest e rec c) = oc_commits c @ [rec']"
  "st_retired (oc_stats (commit_rest e rec c)) = st_retired (oc_stats c) + 1"
  by (simp_all add: commit_rest_def commit_dest_def commit_branch_def commit_dep_def commit_finish_def Let_def)

lemma commit_one_numbered:
  assumes "commit_one c = Some (Inr (go, c'))" "numbered c" "\<not> oc_halted c"
  shows "numbered c' \<and> (\<exists>rs. oc_commits c' = oc_commits c @ rs \<and> length rs = (if go then 1 else 0))"
proof -
  let ?e = "ring_head (oc_rob c)"
  let ?rec = "\<lparr>cr_sequence = st_retired (oc_stats c), cr_pc = re_pc ?e, cr_instruction = ins_raw (re_ins ?e),
         cr_registerWrite = None, cr_memoryWrite = None, cr_exception = None\<rparr>"
  have no: "commit_fault ?e c = None" using assms(1) by (auto simp: commit_one_def Let_def split: option.splits)
  show ?thesis
  proof (cases "re_isSystem ?e")
    case True
    then obtain rec d where d: "commit_system ?e ?rec c = Some (Inr (rec, d))" "c' = commit_finish rec d" "go"
      using assms(1) no by (auto simp: commit_one_def Let_def bind_io_Inr)
    note l = commit_system_ledger [OF d(1)]
    have "numbered c'"
      by (rule numbered_finish [OF assms(2,3), of rec]) (use l in \<open>simp_all add: d(2) commit_finish_def\<close>)
    then show ?thesis using d(3) l(2) by (simp add: d(2) commit_finish_def)
  next
    case False
    then obtain out where out: "commit_mem ?e ?rec c = Inr out"
      "(case out of None \<Rightarrow> Inr (False, count_stat (\<lambda>s. s\<lparr>st_sbCommitStalls := st_sbCommitStalls s + 1\<rparr>) c)
        | Some (rec, c) \<Rightarrow> Inr (True, commit_rest ?e rec c)) = (Inr (go, c') :: (bool \<times> core) result)"
      using assms(1) no by (auto simp: commit_one_def Let_def bind_result_Inr)
    show ?thesis
    proof (cases out)
      case None
      then show ?thesis using out(2) assms(2) by (auto simp: numbered_def)
    next
      case (Some p)
      then obtain rec d where p: "out = Some (rec, d)" by (cases p) simp
      note l = commit_mem_ledger [OF out(1) [unfolded p]]
      note k = clockD [OF l(2)]
      have c': "c' = commit_rest ?e rec d" "go" using out(2) by (auto simp: p)
      obtain rec' where r: "cr_sequence rec' = cr_sequence rec" "oc_commits c' = oc_commits d @ [rec']"
        using commit_rest_ledger(1) [of rec ?e d] by (auto simp: c')
      have "numbered c'"
        by (rule numbered_finish [OF assms(2,3), of rec'])
          (use l k r in \<open>simp_all add: commit_rest_ledger(2) c'(1)\<close>)
      then show ?thesis using c'(2) r k by simp
    qed
  qed
qed

lemma commit_loop_numbered:
  assumes "commit_loop n k c = Some (Inr (k', c'))" "numbered c"
  shows "numbered c' \<and> (\<exists>rs. oc_commits c' = oc_commits c @ rs \<and> length rs \<le> n)"
  using assms
proof (induction n arbitrary: k c)
  case (Suc n)
  show ?case
  proof (cases "ring_empty (oc_rob c) \<or> \<not> re_done (ring_head (oc_rob c)) \<or> oc_halted c")
    case True
    then show ?thesis using Suc.prems by simp
  next
    case False
    then obtain go d where d: "commit_one c = Some (Inr (go, d))"
      "(if go then commit_loop n (Suc k) d else Some (Inr (k, d))) = Some (Inr (k', c'))"
      using Suc.prems by (auto simp: bind_io_Inr)
    obtain rs where s: "numbered d" "oc_commits d = oc_commits c @ rs" "length rs = (if go then 1 else 0)"
      using commit_one_numbered [OF d(1) Suc.prems(2)] False by auto
    show ?thesis
    proof (cases go)
      case True
      then obtain ts where "numbered c'" "oc_commits c' = oc_commits d @ ts" "length ts \<le> n"
        using Suc.IH [of "Suc k" d] d(2) s(1) by auto
      then show ?thesis using s True by simp
    qed (use d s in simp)
  qed
qed simp

lemma stepCycle_numbered:
  assumes "stepCycle c = Some (Inr c')" "numbered c"
  shows "numbered c' \<and> (\<exists>rs. oc_commits c' = oc_commits c @ rs \<and> length rs \<le> unat (cfg_width (oc_cfg c)))"
proof -
  obtain d where d: "commitStage (sample_occupancy c) = Some (Inr d)" "clock c' = clock d"
    using assms(1) by (rule stepCycle_stages)
  obtain k e where e: "commit_loop (unat (cfg_width (oc_cfg c))) 0 (sample_occupancy c) = Some (Inr (k, e))"
    "clock d = clock e"
    using d(1) by (auto simp: commitStage_def bind_io_Inr Let_def sample_occupancy_def split: if_splits)
  have n: "numbered (sample_occupancy c)" "oc_commits (sample_occupancy c) = oc_commits c"
    using assms(2) by (simp_all add: numbered_def sample_occupancy_def)
  have k: "oc_commits c' = oc_commits e" "numbered c' = numbered e"
    using clockD [OF d(2) [unfolded e(2)]] by (simp_all add: numbered_def)
  show ?thesis using commit_loop_numbered [OF e(1) n(1)] by (simp add: k n(2))
qed

text \<open>
  C8. The commit stream of the pipeline.  In every state the core reaches, the records handed to
  the observer are numbered 0, 1, 2, and so on without a gap; a cycle only appends to them, and
  no more than the width of the machine.
\<close>

theorem commits_numbered:
  assumes "core_new histLen cfg m h = Some c0" "cycles c0 n c"
  shows "map cr_sequence (oc_commits c) = map word_of_nat [0..<length (oc_commits c)] \<and>
    length (oc_commits c) \<le> n * unat (cfg_width cfg) \<and>
    (\<forall>c'. stepCycle c = Some (Inr c') \<longrightarrow> prefix (oc_commits c) (oc_commits c') \<and>
       length (oc_commits c') \<le> length (oc_commits c) + unat (cfg_width cfg))"
proof -
  have "numbered c \<and> oc_cfg c = cfg \<and> length (oc_commits c) \<le> n * unat (cfg_width cfg)"
    using assms(2)
  proof induction
    case start
    then show ?case using assms(1) by (auto simp: core_new_def numbered_def stats0_def)
  next
    case (cycle n c c')
    then show ?case using stepCycle_numbered [OF cycle.hyps(2)] stepCycle_clock(2) [OF cycle.hyps(2)] by auto
  qed
  then show ?thesis using stepCycle_numbered [of c] by (fastforce simp: numbered_def)
qed

theorem commits_numbered_witness:
  "map cr_sequence (oc_commits demo_core) = map word_of_nat [0..<length (oc_commits demo_core)] \<and>
    length (oc_commits demo_core) \<le> 0 * 2"
  using commits_numbered [OF demo_core_new cycles.start] by (simp add: default_config_def)

section \<open>The address units\<close>

text \<open>The loop over the address units ends with no output left, as the endless loop of the program does.\<close>

definition outputs :: "fu_unit list \<Rightarrow> nat" where
  "outputs us = length (filter (\<lambda>u. o_valid (f_out u)) us)"

lemma agu_ready_cases:
  "case agu_ready us of None \<Rightarrow> outputs us = 0 | Some i \<Rightarrow> i < length us \<and> o_valid (f_out (us ! i))"
proof -
  let ?f = "\<lambda>i r. if o_valid (f_out (us ! i)) \<and>
      (case r of None \<Rightarrow> True | Some j \<Rightarrow> o_seq (f_out (us ! i)) < o_seq (f_out (us ! j))) then Some i else r"
  have "case fold ?f [0..<n] None of None \<Rightarrow> \<forall>i < n. \<not> o_valid (f_out (us ! i))
      | Some i \<Rightarrow> i < n \<and> o_valid (f_out (us ! i))" for n
  proof (induction n)
    case (Suc n)
    then show ?case
      by (cases "fold ?f [0..<n] None") (auto simp: less_Suc_eq)
  qed simp
  from this [of "length us"] show ?thesis
    by (auto simp: agu_ready_def outputs_def filter_empty_conv in_set_conv_nth split: option.splits)
qed

lemma outputs_drain:
  assumes "i < length us" "o_valid (f_out (us ! i))"
  shows "outputs (us[i := fu_drain (us ! i)]) < outputs us"
proof -
  have e: "us = take i us @ us ! i # drop (Suc i) us" using assms(1) by (rule id_take_nth_drop)
  have "us[i := fu_drain (us ! i)] = take i us @ fu_drain (us ! i) # drop (Suc i) us"
    using assms(1) by (rule upd_conv_take_nth_drop)
  then have "outputs (us[i := fu_drain (us ! i)]) = outputs (take i us) + outputs (drop (Suc i) us)"
    by (simp add: outputs_def fu_drain_def)
  moreover have "outputs us = outputs (take i us) + Suc (outputs (drop (Suc i) us))"
    by (subst e) (simp add: outputs_def assms(2))
  ultimately show ?thesis by simp
qed

lemma outputs_flush: "outputs (map (fu_flushYounger seq) us) \<le> outputs us"
proof (induction us)
  case (Cons u us)
  have "o_valid (f_out (fu_flushYounger seq u)) \<Longrightarrow> o_valid (f_out u)"
    by (auto simp: fu_flushYounger_def Let_def case_prod_beta fu_kill_def split: if_splits)
  then show ?case using Cons by (auto simp: outputs_def)
qed simp

lemma recover_agus: "oc_agus (recover seq c) = map (fu_flushYounger seq) (oc_agus c)"
  by (simp add: recover_def Let_def case_prod_beta)

lemma violationScan_agus: "outputs (oc_agus (violationScan st c)) \<le> outputs (oc_agus c)"
  by (simp add: violationScan_def Let_def recover_agus outputs_flush split: option.split)

lemma agu_complete_outputs:
  "outputs (oc_agus (agu_complete i c)) \<le> outputs ((oc_agus c)[i := fu_drain (oc_agus c ! i)])"
proof -
  have r: "oc_agus (rob_update j g d) = oc_agus d" for j g d by (simp add: rob_update_def)
  obtain d where "oc_agus d = (oc_agus c)[i := fu_drain (oc_agus c ! i)]"
    "agu_complete i c = d \<or> (\<exists>st. agu_complete i c = violationScan st d)"
  proof -
    define x where "x = f_out (oc_agus c ! i)"
    define d1 where "d1 = c\<lparr>oc_agus := (oc_agus c)[i := fu_drain (oc_agus c ! i)],
        oc_lsq := lsq_resolveAddress (o_lsqIdx x)
          (lsq_fill (o_lsqIdx x) (\<lambda>e. e\<lparr>le_addr := o_value x, le_size := ucast (accessSize (le_op e))\<rparr>) (oc_lsq c))\<rparr>"
    define le where "le = lsq_at (o_lsqIdx x) (oc_lsq d1)"
    define d2 where "d2 = (if le_addr le mod ucast (le_size le) \<noteq> 0
        then rob_update (o_robIdx x) (\<lambda>e. e\<lparr>re_fault := 1\<rparr>) d1
        else if length (bytes (ms_backing (oc_msys d1))) < unat (le_addr le) + unat (le_size le)
        then rob_update (o_robIdx x) (\<lambda>e. e\<lparr>re_fault := 2\<rparr>) d1 else d1)"
    define d3 where "d3 = (if le_isStore le \<and> le_dataReady le
        then rob_update (o_robIdx x) (\<lambda>e. e\<lparr>re_done := True\<rparr>) d2 else d2)"
    have "oc_agus d3 = (oc_agus c)[i := fu_drain (oc_agus c ! i)]" by (simp add: d3_def d2_def d1_def r)
    moreover have "agu_complete i c = d3 \<or> agu_complete i c = violationScan le d3"
      by (simp add: agu_complete_def Let_def flip: x_def) (simp add: d3_def d2_def le_def d1_def)
    ultimately show thesis using that by blast
  qed
  then show ?thesis using violationScan_agus [of _ d] by auto
qed

theorem aguDrain_empty: "agu_ready (oc_agus (aguDrain c)) = None"
proof -
  have len: "length (oc_agus (violationScan st d)) = length (oc_agus d)" for st d
    by (simp add: violationScan_def Let_def recover_agus split: option.split)
  have "outputs (oc_agus c) \<le> n \<Longrightarrow> agu_ready (oc_agus (agu_loop n c)) = None" for n c
  proof (induction n arbitrary: c)
    case 0
    then show ?case using agu_ready_cases [of "oc_agus c"] outputs_drain [of _ "oc_agus c"]
      by (auto split: option.splits)
  next
    case (Suc n)
    show ?case
    proof (cases "agu_ready (oc_agus c)")
      case (Some i)
      then have "outputs ((oc_agus c)[i := fu_drain (oc_agus c ! i)]) < outputs (oc_agus c)"
        using agu_ready_cases [of "oc_agus c"] outputs_drain by simp
      then show ?thesis using Suc agu_complete_outputs [of i c] by (simp add: Some)
    qed simp
  qed
  moreover have "outputs (oc_agus c) \<le> length (oc_agus c)" by (simp add: outputs_def)
  ultimately show ?thesis by (simp add: aguDrain_def)
qed

end
