(* ===== verification/Flight.thy ===== *)
theory Flight
  imports Core_Reach
begin

text \<open>
  What is in flight.  The live entries of a ring together with their slots, and the operations a
  functional unit holds as a multiset: the views on which the data flow of the core is stated.
\<close>

section \<open>Entries of a ring with their slots\<close>

definition entries :: "'a ring \<Rightarrow> (nat \<times> 'a) list" where
  "entries r = map (\<lambda>k. (slot r k, r_e r ! slot r k)) [0..<unat (r_n r)]"

text \<open>An assignment through a reference to an entry.\<close>

definition upd_at :: "nat \<Rightarrow> ('a \<Rightarrow> 'a) \<Rightarrow> (nat \<times> 'a) list \<Rightarrow> (nat \<times> 'a) list" where
  "upd_at i f xs = map (\<lambda>(j, e). (j, if j = i then f e else e)) xs"

lemma entries_list: "map snd (entries r) = ring_list r"
  by (simp add: entries_def ring_list_def)

lemma entries_slots: "map fst (entries r) = map (slot r) [0..<unat (r_n r)]"
  by (simp add: entries_def)

lemma entries_distinct:
  assumes "ring_ok r"
  shows "distinct (map fst (entries r))"
  unfolding entries_slots distinct_map
  using slot_inj [OF assms] ring_okD(3) [OF assms] by (auto simp: inj_on_def)

lemma occupied_entries: "occupied r i \<longleftrightarrow> i \<in> fst ` set (entries r)"
  by (force simp: occupied_def entries_def)

lemma entries_at:
  assumes "(unat i, e) \<in> set (entries r)"
  shows "ring_at r i = e"
  using assms by (auto simp: entries_def ring_at_def)

lemma occupied_at: "occupied r (unat i) \<Longrightarrow> (unat i, ring_at r i) \<in> set (entries r)"
  by (force simp: occupied_def entries_def ring_at_def)

lemma entries_put:
  assumes "ring_ok r"
  shows "entries (ring_put i (f (ring_at r i)) r) = upd_at (unat i) f (entries r)"
proof -
  have len: "slot r k < length (r_e r)" for k using slot_less [OF assms] ring_okD(1) [OF assms] by simp
  then have "slot r k = unat i \<Longrightarrow> unat i < length (r_e r)" for k by metis
  with len show ?thesis
    unfolding entries_def slot_simps ring_put_sel
    by (simp add: upd_at_def) (auto simp: ring_put_def ring_at_def nth_list_update)
qed

lemma slot_popHead: "ring_ok r \<Longrightarrow> slot (ring_popHead r) k = slot r (Suc k)"
  using ring_indexOf_slot [of r 1] ring_okD(4) [of r] by (simp add: slot_def ring_popHead_def mod_add_left_eq)

lemma entries_pop:
  assumes "ring_ok r" "r_n r \<noteq> 0"
  shows "entries (ring_popHead r) = tl (entries r)" "entries (ring_popTail r) = butlast (entries r)"
proof -
  note n = ring_pop_count [OF assms]
  show "entries (ring_popHead r) = tl (entries r)"
    using n by (simp add: entries_def slot_popHead [OF assms(1)] tl_map_upt) (simp add: ring_popHead_def n)
  show "entries (ring_popTail r) = butlast (entries r)"
    using n by (simp add: entries_def butlast_map_upt) (simp add: ring_popTail_def)
qed

lemma entries_alloc:
  assumes "ring_ok r" "\<not> ring_full r" "ring_alloc d r = (i, r')"
  shows "entries (ring_put i v r') = entries r @ [(unat i, v)]" "\<not> occupied r (unat i)"
proof -
  note a = ring_alloc_ok [OF assms(1,2), of d, unfolded assms(3) fst_conv snd_conv]
  have n: "unat (r_n r') = Suc (unat (r_n r))" using arg_cong [OF a(2), of length] by simp
  show "\<not> occupied r (unat i)" using not_occupied_next [OF assms(1,2)] a(3) by simp
  then have other: "slot r k \<noteq> unat i" if "k < unat (r_n r)" for k using that by (auto simp: occupied_def)
  have i: "unat i < length (r_e r)" using slot_less [OF assms(1)] ring_okD(1) [OF assms(1)] a(3) by simp
  have r': "slot r' = slot r" "r_e r' = (r_e r)[unat i := d]"
    using assms(3) by (auto simp: ring_alloc_def Let_def ring_put_def slot_def fun_eq_iff)
  show "entries (ring_put i v r') = entries r @ [(unat i, v)]"
    unfolding entries_def slot_simps ring_put_sel n r'(1)
    using other i a(3) by (simp add: ring_put_def r'(2)) (auto simp: nth_list_update_neq [OF not_sym])
qed

lemma entries_Nil: "ring_ok r \<Longrightarrow> entries r = [] \<longleftrightarrow> r_n r = 0"
  by (simp add: entries_def unat_eq_zero)

lemma entries_hd:
  assumes "ring_ok r" "r_n r \<noteq> 0"
  shows "hd (entries r) = (unat (r_headIdx r), ring_head r)"
  using ring_pop_count [OF assms] ring_okD(2) [OF assms(1)]
  by (simp add: entries_def hd_map slot_def ring_head_def)

lemma in_entries_list: "(i, e) \<in> set (entries r) \<Longrightarrow> e \<in> set (ring_list r)"
  by (metis entries_list image_eqI list.set_map snd_conv)

text \<open>Updating an entry.\<close>

lemma upd_at_fst [simp]: "map fst (upd_at i f xs) = map fst xs"
  by (simp add: upd_at_def case_prod_beta)

lemma upd_at_in:
  "(j, e') \<in> set (upd_at i f xs) \<longleftrightarrow> (\<exists>e. (j, e) \<in> set xs \<and> e' = (if j = i then f e else e))"
  by (force simp: upd_at_def)

lemma upd_at_keeps: "(\<And>e. g (f e) = g e) \<Longrightarrow> map (\<lambda>(j, e). h j (g e)) (upd_at i f xs) = map (\<lambda>(j, e). h j (g e)) xs"
  by (simp add: upd_at_def case_prod_beta)

lemma upd_at_snd: "(\<And>e. g (f e) = g e) \<Longrightarrow> map (g \<circ> snd) (upd_at i f xs) = map (g \<circ> snd) xs"
  by (simp add: upd_at_def case_prod_beta)

lemma distinct_slots:
  assumes "distinct (map fst xs)" "(i, a) \<in> set xs" "(i, b) \<in> set xs"
  shows "a = b"
  using assms by (metis distinct_map inj_onD prod.inject fst_conv)

section \<open>The operations a unit holds\<close>

definition fu_ops :: "fu_unit \<Rightarrow> fu_op multiset" where
  "fu_ops u = mset (filter o_valid (f_cur u # f_out u # f_stages u))"

definition units_ops :: "fu_unit list \<Rightarrow> fu_op multiset" where
  "units_ops us = sum_list (map fu_ops us)"

definition slots_ops :: "fu_op list \<Rightarrow> fu_op multiset" where
  "slots_ops xs = mset (filter o_valid xs)"

lemma mset_filter_upd:
  assumes "i < length xs" "\<not> P (xs ! i)"
  shows "mset (filter P (xs[i := y])) = mset (filter P xs) + (if P y then {#y#} else {#})"
  using assms by (induction xs arbitrary: i) (auto split: nat.splits simp: nth_Cons')

lemma mset_filter_del:
  assumes "i < length xs" "P (xs ! i)" "\<not> P y"
  shows "mset (filter P (xs[i := y])) = mset (filter P xs) - {# xs ! i #}" "xs ! i \<in># mset (filter P xs)"
proof -
  have "mset (filter P (xs[i := y])) = mset (filter P xs) - {# xs ! i #} \<and> xs ! i \<in># mset (filter P xs)"
    using assms
  proof (induction xs arbitrary: i)
    case (Cons a xs)
    then show ?case by (cases i) auto
  qed simp
  then show "mset (filter P (xs[i := y])) = mset (filter P xs) - {# xs ! i #}" "xs ! i \<in># mset (filter P xs)"
    by blast+
qed

lemma fu_ops_new [simp]: "fu_ops (fu_new l p) = {#}"
  by (auto simp: fu_ops_def fu_new_def fu_op0_def)

lemma fu_ops_accept:
  assumes "fu_ok u" "fu_canAccept u" "o_valid x"
  shows "fu_ops (fu_accept x u) = add_mset x (fu_ops u)"
proof (cases "f_pipelined u")
  case True
  note ok = fu_okD [OF assms(1) True]
  have "\<not> o_valid (f_stages u ! unat (f_inputSlot u))" using assms(2) True by (simp add: fu_canAccept_def)
  with mset_filter_upd [of "unat (f_inputSlot u)" "f_stages u" o_valid x] ok(2,3) assms(3) True
  show ?thesis by (simp add: fu_accept_def fu_ops_def Let_def)
next
  case False
  then show ?thesis using assms by (simp add: fu_accept_def fu_ops_def fu_canAccept_def fu_ok_def Let_def)
qed

lemma fu_ok_accept:
  assumes "fu_ok u" "fu_canAccept u" "o_valid x"
  shows "fu_ok (fu_accept x u)"
proof (cases "f_pipelined u")
  case True
  then show ?thesis using accept_pipe(1) assms by blast
next
  case False
  then show ?thesis using assms by (simp add: fu_accept_def fu_canAccept_def fu_ok_def Let_def)
qed

lemma fu_ops_drain:
  assumes "o_valid (f_out u)"
  shows "fu_ops (fu_drain u) = fu_ops u - {# f_out u #}" "f_out u \<in># fu_ops u"
  using assms by (auto simp: fu_ops_def fu_drain_def)

lemma fu_tick_keeps:
  assumes "fu_ok u" "fu_tick u = (fired, u')"
  shows "fu_ok u'" "fu_ops u' = fu_ops u" "fired \<Longrightarrow> \<not> o_valid (f_out u) \<and> o_valid (f_out u')"
    "\<not> fired \<Longrightarrow> f_out u' = f_out u"
proof -
  have "fu_ok u' \<and> fu_ops u' = fu_ops u \<and> (fired \<longrightarrow> \<not> o_valid (f_out u) \<and> o_valid (f_out u')) \<and>
    (\<not> fired \<longrightarrow> f_out u' = f_out u)"
  proof (cases "f_pipelined u")
    case True
    note ok = fu_okD [OF assms(1) True]
    show ?thesis
    proof (cases "o_valid (f_out u) \<or> \<not> fu_busy u")
      case True
      then show ?thesis using assms \<open>f_pipelined u\<close>
        by (auto simp: fu_tick_def Let_def fu_ops_def fu_ok_def split: if_splits)
    next
      case False
      let ?p = "unat (prev_slot u)"
      let ?last = "f_stages u ! ?p"
      have p: "?p < length (f_stages u)"
        using prev_slot(1) [OF assms(1) True] stage_at_less [OF assms(1), of 0] ok(2) by simp
      have ok': "fu_ok u'" using tick_pipe [OF assms(1) True _ assms(2)] False by blast
      show ?thesis
      proof (cases "o_valid ?last")
        case True
        then have "u' = u\<lparr>f_busyCycles := f_busyCycles u + 1, f_inputSlot := prev_slot u, f_out := ?last,
            f_stages := (f_stages u)[?p := ?last\<lparr>o_valid := False\<rparr>], f_inFlight := f_inFlight u - 1\<rparr>" "fired"
          using assms(2) False \<open>f_pipelined u\<close> by (auto simp: fu_tick_def Let_def)
        then show ?thesis
          using ok' False True ok(5) mset_filter_del [OF p, of o_valid "?last\<lparr>o_valid := False\<rparr>"]
          by (simp add: fu_ops_def)
      next
        case False
        then show ?thesis using assms ok' \<open>f_pipelined u\<close>
          by (auto simp: fu_tick_def Let_def fu_ops_def split: if_splits)
      qed
    qed
  next
    case False
    show ?thesis
    proof (cases "o_valid (f_cur u)")
      case True
      have r: "\<not> o_valid (f_out u)" "f_stages u = []" "0 < unat (f_remaining u)" "f_remaining u \<le> f_latency u"
        using assms(1) True False by (auto simp: fu_ok_def)
      then have "f_remaining u \<noteq> 0" by auto
      then have "unat (f_remaining u - 1) = unat (f_remaining u) - 1" by (rule unat_pred32)
      then have "f_remaining u - 1 \<noteq> 0 \<Longrightarrow> 0 < unat (f_remaining u - 1) \<and> f_remaining u - 1 \<le> f_latency u"
        using r(4) word_neq_0_less [of "f_remaining u - 1"] by (simp add: word_le_nat_alt)
      then show ?thesis using assms True False r
        by (auto simp: fu_tick_def fu_busy_def Let_def fu_ops_def fu_ok_def split: if_splits)
    next
      case False
      then show ?thesis using assms \<open>\<not> f_pipelined u\<close> by (auto simp: fu_tick_def fu_busy_def)
    qed
  qed
  then show "fu_ok u'" "fu_ops u' = fu_ops u" "fired \<Longrightarrow> \<not> o_valid (f_out u) \<and> o_valid (f_out u')"
    "\<not> fired \<Longrightarrow> f_out u' = f_out u" by blast+
qed

lemma filter_kill: "filter o_valid (map (fu_kill seq) xs) = filter (\<lambda>x. o_seq x \<le> seq) (filter o_valid xs)"
  by (induction xs) (auto simp: fu_kill_def)

lemma slots_ops_kill: "slots_ops (map (fu_kill seq) xs) = filter_mset (\<lambda>x. o_seq x \<le> seq) (slots_ops xs)"
  by (simp add: slots_ops_def filter_kill flip: mset_filter)

lemma flush_fst: "fst (flush_stages seq ss n) = map (fu_kill seq) ss"
  by (induction ss arbitrary: n) (simp_all add: case_prod_beta)

lemma fu_ops_flush: "fu_ops (fu_flushYounger seq u) = filter_mset (\<lambda>x. o_seq x \<le> seq) (fu_ops u)"
proof -
  have "fu_ops (fu_flushYounger seq u) = slots_ops (map (fu_kill seq) (f_cur u # f_out u # f_stages u))"
    by (simp add: fu_ops_def slots_ops_def fu_flushYounger_def Let_def case_prod_beta flush_fst)
  then show ?thesis by (simp only: slots_ops_kill) (simp add: slots_ops_def fu_ops_def)
qed

lemma fu_ok_flush:
  assumes "fu_ok u"
  shows "fu_ok (fu_flushYounger seq u)"
proof (cases "f_pipelined u")
  case True
  then show ?thesis using flush_pipe(1) [OF assms] by blast
next
  case False
  then show ?thesis using assms
    by (auto simp: fu_ok_def fu_flushYounger_def Let_def fu_kill_def split: if_splits)
qed

lemma units_ops_upd:
  assumes "i < length us" "fu_ops u = fu_ops (us ! i) + m"
  shows "units_ops (us[i := u]) = units_ops us + m"
  using assms by (induction us arbitrary: i) (auto simp: units_ops_def nth_Cons' split: nat.splits)

lemma units_ops_mem:
  assumes "i < length us" "x \<in># fu_ops (us ! i)"
  shows "x \<in># units_ops us"
  using assms by (induction us arbitrary: i) (auto simp: units_ops_def nth_Cons' split: if_splits)

lemma units_ops_del:
  assumes "i < length us" "x \<in># fu_ops (us ! i)" "fu_ops u = fu_ops (us ! i) - {#x#}"
  shows "units_ops (us[i := u]) = units_ops us - {#x#}"
  using assms
proof (induction us arbitrary: i)
  case (Cons v us)
  show ?case
  proof (cases i)
    case 0
    then show ?thesis using Cons.prems by (simp add: units_ops_def)
  next
    case (Suc j)
    then have "x \<in># units_ops us" using Cons.prems units_ops_mem [of j us x] by simp
    then show ?thesis using Suc Cons by (simp add: units_ops_def)
  qed
qed simp

lemma units_ops_flush: "units_ops (map (fu_flushYounger seq) us) = filter_mset (\<lambda>x. o_seq x \<le> seq) (units_ops us)"
  by (induction us) (simp_all add: units_ops_def fu_ops_flush)

lemma units_ops_same: "map fu_ops us' = map fu_ops us \<Longrightarrow> units_ops us' = units_ops us"
  by (simp add: units_ops_def)

lemma units_ops_empty: "(\<And>u. u \<in> set us \<Longrightarrow> fu_ops u = {#}) \<Longrightarrow> units_ops us = {#}"
  by (induction us) (simp_all add: units_ops_def)

end
