(* ===== verification/Dataflow.thy ===== *)
theory Dataflow
  imports Flight
begin

text \<open>
  The data flow of the core, on the views of \<open>Flight\<close>.  An environment says which physical register
  an instruction reads for an architectural one, which registers hold their value, and the values.
  The invariant says that whatever stands anywhere in the core for an instruction - an entry of the
  issue queue, an operation in a unit, an address on its way, an entry of the load/store queue, a
  finished entry of the reorder buffer - carries what the instruction computes from its operands,
  that nothing unfinished is in two places, and that a register is ready exactly when its producer
  has finished.
\<close>

section \<open>Operands\<close>

record env =
  ev_src :: "u64 \<Rightarrow> u8 \<Rightarrow> u8"
  ev_ready :: "bool list"
  ev_val :: "u32 list"

abbreviation opc :: "rob_entry \<Rightarrow> op" where
  "opc e \<equiv> ins_op (re_ins e)"

definition src_ready :: "env \<Rightarrow> u64 \<Rightarrow> u8 \<Rightarrow> bool" where
  "src_ready v s r \<longleftrightarrow> ev_ready v ! unat (ev_src v s r)"

definition opnd :: "env \<Rightarrow> u64 \<Rightarrow> u8 \<Rightarrow> u32" where
  "opnd v s r = ev_val v ! unat (ev_src v s r)"

definition avail :: "env \<Rightarrow> rob_entry \<Rightarrow> bool" where
  "avail v e \<longleftrightarrow> (usesRs1 (opc e) \<longrightarrow> src_ready v (re_seq e) (ins_rs1 (re_ins e))) \<and>
     (usesRs2 (opc e) \<longrightarrow> src_ready v (re_seq e) (ins_rs2 (re_ins e)))"

definition outcome :: "env \<Rightarrow> rob_entry \<Rightarrow> exec_result" where
  "outcome v e = the (execute (re_ins e) (re_pc e) (opnd v (re_seq e) (ins_rs1 (re_ins e)))
     (opnd v (re_seq e) (ins_rs2 (re_ins e))))"

definition addr_of :: "env \<Rightarrow> rob_entry \<Rightarrow> u32" where
  "addr_of v e = opnd v (re_seq e) (ins_rs1 (re_ins e)) + ins_imm (re_ins e)"

text \<open>The fields of an entry that never change, and what they are.\<close>

definition ekey where
  "ekey e = (re_seq e, re_pc e, re_ins e, re_pdst e, re_isMem e, re_isSystem e, re_isBranch e,
     re_sysA0 e, re_sysA7 e)"

definition entry_static :: "rob_entry \<Rightarrow> bool" where
  "entry_static e \<longleftrightarrow> re_isMem e = (isLoad (opc e) \<or> isStore (opc e)) \<and>
     re_isBranch e = (fuKindOf (opc e) = FU_BRANCH) \<and> re_isSystem e = (fuKindOf (opc e) = FU_NONE) \<and>
     (re_pdst e \<noteq> kNoReg) = (writesRd (opc e) \<and> ins_rd (re_ins e) \<noteq> 0) \<and>
     re_ins e = decode (ins_raw (re_ins e))"

lemma ekeyD:
  assumes "ekey e' = ekey e"
  shows "re_seq e' = re_seq e" "re_pc e' = re_pc e" "re_ins e' = re_ins e" "re_pdst e' = re_pdst e"
    "re_isMem e' = re_isMem e" "re_isSystem e' = re_isSystem e" "re_isBranch e' = re_isBranch e"
    "re_sysA0 e' = re_sysA0 e" "re_sysA7 e' = re_sysA7 e" "avail v e' = avail v e" "outcome v e' = outcome v e"
    "addr_of v e' = addr_of v e" "entry_static e' = entry_static e"
  using assms by (simp_all add: ekey_def avail_def outcome_def addr_of_def entry_static_def)

lemma static_regs:
  assumes "entry_static e"
  shows "unat (ins_rs1 (re_ins e)) < 32" "unat (ins_rs2 (re_ins e)) < 32" "unat (ins_rd (re_ins e)) < 32"
  using assms decode_fields by (metis entry_static_def)+

section \<open>Environments that grow\<close>

text \<open>For the instructions of \<open>S\<close> the sources stand, and what was ready is still ready and unchanged.\<close>

definition env_step :: "env \<Rightarrow> env \<Rightarrow> u64 set \<Rightarrow> bool" where
  "env_step v v' S \<longleftrightarrow>
     (\<forall>s \<in> S. \<forall>r. unat r < 32 \<longrightarrow> ev_src v' s r = ev_src v s r \<and> (src_ready v s r \<longrightarrow> src_ready v' s r)) \<and>
     (\<forall>p. ev_ready v ! p \<longrightarrow> ev_val v' ! p = ev_val v ! p)"

lemma env_stepD:
  assumes "env_step v v' S" "s \<in> S" "unat r < 32"
  shows "ev_src v' s r = ev_src v s r" "src_ready v s r \<Longrightarrow> src_ready v' s r" "src_ready v s r \<Longrightarrow> opnd v' s r = opnd v s r"
proof -
  show e: "ev_src v' s r = ev_src v s r" and "src_ready v s r \<Longrightarrow> src_ready v' s r"
    using assms by (simp_all add: env_step_def)
  show "opnd v' s r = opnd v s r" if "src_ready v s r"
    using assms(1) that by (simp add: env_step_def opnd_def e) (simp add: src_ready_def)
qed

lemma env_step_refl [simp]: "env_step v v S"
  by (simp add: env_step_def)

lemma outcome_step:
  assumes "env_step v v' S" "re_seq e \<in> S" "entry_static e" "avail v e"
  shows "avail v' e" "outcome v' e = outcome v e"
proof -
  note r = static_regs [OF assms(3)]
  note d = env_stepD [OF assms(1,2)]
  show "avail v' e" using assms(4) d(2) [OF r(1)] d(2) [OF r(2)] by (simp add: avail_def)
  have "execute (re_ins e) (re_pc e) (opnd v' (re_seq e) (ins_rs1 (re_ins e))) (opnd v' (re_seq e) (ins_rs2 (re_ins e))) =
      execute (re_ins e) (re_pc e) (opnd v (re_seq e) (ins_rs1 (re_ins e))) (opnd v (re_seq e) (ins_rs2 (re_ins e)))"
    using assms(4) d(3) [OF r(1)] d(3) [OF r(2)]
    by (subst (1 2) execute_ignores_unused [where a' = 0 and b' = 0]) (simp add: avail_def)
  then show "outcome v' e = outcome v e" by (simp add: outcome_def)
qed

lemma addr_step:
  assumes "env_step v v' S" "re_seq e \<in> S" "entry_static e" "src_ready v (re_seq e) (ins_rs1 (re_ins e))"
  shows "addr_of v' e = addr_of v e"
  using env_stepD(3) [OF assms(1,2) static_regs(1) [OF assms(3)]] assms(4) by (simp add: addr_of_def)

section \<open>The invariant\<close>

record flight =
  fl_rob :: "(nat \<times> rob_entry) list"
  fl_lsq :: "(nat \<times> lsq_entry) list"
  fl_iq :: "nat \<Rightarrow> (iq_entry \<times> bool \<times> bool) option"
  fl_wb :: "fu_op multiset"
  fl_agu :: "fu_op multiset"

text \<open>A finished entry: its result is in its register, and a branch knows its outcome.\<close>

definition done_ok :: "env \<Rightarrow> rob_entry \<Rightarrow> bool" where
  "done_ok v e \<longleftrightarrow> re_done e \<and> \<not> re_isMem e \<and> \<not> re_isSystem e \<longrightarrow>
     avail v e \<and> (re_pdst e \<noteq> kNoReg \<longrightarrow> ev_val v ! unat (re_pdst e) = x_value (outcome v e)) \<and>
     (re_isBranch e \<longrightarrow> re_actualTaken e = x_redirect (outcome v e) \<and>
        re_actualTarget e = (if x_redirect (outcome v e) then x_target (outcome v e) else re_pc e + 4))"

text \<open>A system instruction is finished at once and names its argument registers.\<close>

definition sys_ok :: "env \<Rightarrow> rob_entry \<Rightarrow> bool" where
  "sys_ok v e \<longleftrightarrow> re_isSystem e \<longrightarrow>
     re_done e \<and> re_sysA0 e = ev_src v (re_seq e) 10 \<and> re_sysA7 e = ev_src v (re_seq e) 17"

definition ready_ok :: "env \<Rightarrow> rob_entry \<Rightarrow> bool" where
  "ready_ok v e \<longleftrightarrow> re_pdst e \<noteq> kNoReg \<longrightarrow> (ev_ready v ! unat (re_pdst e) \<longleftrightarrow> re_done e)"

definition rob_ok :: "env \<Rightarrow> flight \<Rightarrow> bool" where
  "rob_ok v fl \<longleftrightarrow> distinct (map fst (fl_rob fl)) \<and> sorted_wrt (<) (map (re_seq \<circ> snd) (fl_rob fl)) \<and>
     (\<forall>(i, e) \<in> set (fl_rob fl). entry_static e \<and> done_ok v e \<and> sys_ok v e \<and> ready_ok v e)"

text \<open>The load/store queue holds the memory operations of the reorder buffer, in order.\<close>

definition lkey :: "nat \<times> lsq_entry \<Rightarrow> u64 \<times> nat \<times> op \<times> bool \<times> u8 \<times> u32" where
  "lkey x = (le_seq (snd x), unat (le_robIdx (snd x)), le_op (snd x), le_isStore (snd x), le_pdst (snd x), le_pc (snd x))"

definition rkey :: "nat \<times> rob_entry \<Rightarrow> u64 \<times> nat \<times> op \<times> bool \<times> u8 \<times> u32" where
  "rkey x = (re_seq (snd x), fst x, opc (snd x), isStore (opc (snd x)), re_pdst (snd x), re_pc (snd x))"

definition pair_ok :: "flight \<Rightarrow> bool" where
  "pair_ok fl \<longleftrightarrow> distinct (map fst (fl_lsq fl)) \<and> map lkey (fl_lsq fl) = map rkey (filter (re_isMem \<circ> snd) (fl_rob fl))"

definition mem_entry :: "env \<Rightarrow> rob_entry \<Rightarrow> lsq_entry \<Rightarrow> bool" where
  "mem_entry v e le \<longleftrightarrow>
     (if isStore (opc e)
      then le_dataPreg le = ev_src v (re_seq e) (ins_rs2 (re_ins e)) \<and>
        (le_dataReady le \<longrightarrow> src_ready v (re_seq e) (ins_rs2 (re_ins e)) \<and> le_data le = opnd v (re_seq e) (ins_rs2 (re_ins e))) \<and>
        (le_addrValid le \<longrightarrow> src_ready v (re_seq e) (ins_rs1 (re_ins e)) \<and> le_addr le = addr_of v e \<and>
           le_size le = ucast (accessSize (opc e))) \<and>
        (re_done e \<longrightarrow> le_addrValid le \<and> le_dataReady le)
      else re_done e \<longrightarrow> le_reported le)"

definition mem_ok :: "env \<Rightarrow> flight \<Rightarrow> bool" where
  "mem_ok v fl \<longleftrightarrow> (\<forall>(i, e) \<in> set (fl_rob fl). \<forall>(j, le) \<in> set (fl_lsq fl). le_seq le = re_seq e \<longrightarrow> mem_entry v e le)"

text \<open>An operation on its way to a writeback port.\<close>

definition wb_op :: "env \<Rightarrow> flight \<Rightarrow> fu_op \<Rightarrow> bool" where
  "wb_op v fl x \<longleftrightarrow> o_valid x \<and> (\<exists>e. (unat (o_robIdx x), e) \<in> set (fl_rob fl) \<and> re_seq e = o_seq x \<and>
     \<not> re_done e \<and> \<not> re_isSystem e \<and> o_pdst x = re_pdst e \<and>
     (if re_isMem e
      then isLoad (opc e) \<and> (\<exists>j le. (j, le) \<in> set (fl_lsq fl) \<and> le_seq le = o_seq x \<and> le_addrValid le \<and> le_reported le)
      else avail v e \<and> o_value x = x_value (outcome v e) \<and> o_redirect x = x_redirect (outcome v e) \<and>
        o_target x = x_target (outcome v e)))"

text \<open>An operation in an address unit.\<close>

definition agu_op :: "env \<Rightarrow> flight \<Rightarrow> fu_op \<Rightarrow> bool" where
  "agu_op v fl x \<longleftrightarrow> o_valid x \<and> (\<exists>e. (unat (o_robIdx x), e) \<in> set (fl_rob fl) \<and> re_seq e = o_seq x \<and>
     \<not> re_done e \<and> re_isMem e \<and> src_ready v (re_seq e) (ins_rs1 (re_ins e)) \<and> o_value x = addr_of v e \<and>
     (\<exists>le. (unat (o_lsqIdx x), le) \<in> set (fl_lsq fl) \<and> le_seq le = o_seq x \<and> \<not> le_addrValid le))"

text \<open>An entry of the issue queue.\<close>

definition iq_op :: "env \<Rightarrow> flight \<Rightarrow> nat \<Rightarrow> iq_entry \<Rightarrow> bool \<Rightarrow> bool \<Rightarrow> bool" where
  "iq_op v fl i q w1 w2 \<longleftrightarrow> unat (q_robIdx q) = i \<and> (\<exists>e. (i, e) \<in> set (fl_rob fl) \<and> re_seq e = q_seq q \<and>
     \<not> re_done e \<and> \<not> re_isSystem e \<and> q_unit q = fuKindOf (opc e) \<and>
     q_ps1 q = ev_src v (re_seq e) (ins_rs1 (re_ins e)) \<and> q_ps2 q = ev_src v (re_seq e) (ins_rs2 (re_ins e)) \<and>
     (usesRs1 (opc e) \<and> \<not> w1 \<longrightarrow> src_ready v (re_seq e) (ins_rs1 (re_ins e))) \<and>
     (usesRs2 (opc e) \<and> \<not> isStore (opc e) \<and> \<not> w2 \<longrightarrow> src_ready v (re_seq e) (ins_rs2 (re_ins e))) \<and>
     (re_isMem e \<longrightarrow> (\<exists>le. (unat (q_lsqIdx q), le) \<in> set (fl_lsq fl) \<and> le_seq le = q_seq q \<and> \<not> le_addrValid le)))"

definition uniq_ok :: "flight \<Rightarrow> bool" where
  "uniq_ok fl \<longleftrightarrow> (\<forall>s. count (image_mset o_seq (fl_wb fl + fl_agu fl)) s \<le> 1) \<and>
     (\<forall>i q w1 w2. fl_iq fl i = Some (q, w1, w2) \<longrightarrow> q_seq q \<notin># image_mset o_seq (fl_wb fl + fl_agu fl))"

definition flight_inv :: "env \<Rightarrow> flight \<Rightarrow> bool" where
  "flight_inv v fl \<longleftrightarrow> rob_ok v fl \<and> pair_ok fl \<and> mem_ok v fl \<and> (\<forall>x \<in># fl_wb fl. wb_op v fl x) \<and>
     (\<forall>x \<in># fl_agu fl. agu_op v fl x) \<and>
     (\<forall>i q w1 w2. fl_iq fl i = Some (q, w1, w2) \<longrightarrow> iq_op v fl i q w1 w2) \<and> uniq_ok fl"

lemma flight_invD:
  assumes "flight_inv v fl"
  shows "rob_ok v fl" "pair_ok fl" "mem_ok v fl" "\<And>x. x \<in># fl_wb fl \<Longrightarrow> wb_op v fl x"
    "\<And>x. x \<in># fl_agu fl \<Longrightarrow> agu_op v fl x" "\<And>i q w1 w2. fl_iq fl i = Some (q, w1, w2) \<Longrightarrow> iq_op v fl i q w1 w2"
    "uniq_ok fl"
  using assms by (simp_all add: flight_inv_def)

lemma rob_okD:
  assumes "rob_ok v fl"
  shows "distinct (map fst (fl_rob fl))" "sorted_wrt (<) (map (re_seq \<circ> snd) (fl_rob fl))"
    "\<And>i e. (i, e) \<in> set (fl_rob fl) \<Longrightarrow> entry_static e" "\<And>i e. (i, e) \<in> set (fl_rob fl) \<Longrightarrow> done_ok v e"
    "\<And>i e. (i, e) \<in> set (fl_rob fl) \<Longrightarrow> sys_ok v e" "\<And>i e. (i, e) \<in> set (fl_rob fl) \<Longrightarrow> ready_ok v e"
  using assms by (auto simp: rob_ok_def)

text \<open>A sequence number names one entry.\<close>

lemma sorted_inj:
  assumes "sorted_wrt (<) (map f xs)" "x \<in> set xs" "y \<in> set xs" "f x = (f y :: u64)"
  shows "x = y"
proof -
  have "distinct (map f xs)" using assms(1) strict_sorted_iff by blast
  then show ?thesis using assms(2-4) by (auto simp: distinct_map inj_on_def)
qed

lemma rob_seq_inj:
  assumes "rob_ok v fl" "(i, e) \<in> set (fl_rob fl)" "(j, e') \<in> set (fl_rob fl)" "re_seq e = re_seq e'"
  shows "i = j \<and> e = e'"
  using sorted_inj [OF rob_okD(2) [OF assms(1)] assms(2,3)] assms(4) by simp

lemma pair_seqs:
  assumes "pair_ok fl"
  shows "map (le_seq \<circ> snd) (fl_lsq fl) = map (re_seq \<circ> snd) (filter (re_isMem \<circ> snd) (fl_rob fl))"
proof -
  have "map fst (map lkey (fl_lsq fl)) = map fst (map rkey (filter (re_isMem \<circ> snd) (fl_rob fl)))"
    using assms by (simp add: pair_ok_def)
  then show ?thesis by (simp add: lkey_def rkey_def o_def)
qed

lemma lsq_seq_inj:
  assumes "rob_ok v fl" "pair_ok fl" "(i, a) \<in> set (fl_lsq fl)" "(j, b) \<in> set (fl_lsq fl)" "le_seq a = le_seq b"
  shows "i = j \<and> a = b"
proof -
  have "sorted_wrt (<) (map (le_seq \<circ> snd) (fl_lsq fl))"
    unfolding pair_seqs [OF assms(2)] using rob_okD(2) [OF assms(1)]
    by (simp add: sorted_wrt_map sorted_wrt_filter)
  from sorted_inj [OF this assms(3,4)] show ?thesis using assms(5) by simp
qed

lemma lsq_to_rob:
  assumes "pair_ok fl" "(j, le) \<in> set (fl_lsq fl)"
  obtains e where "(unat (le_robIdx le), e) \<in> set (fl_rob fl)" "re_isMem e" "le_seq le = re_seq e" "le_op le = opc e"
    "le_isStore le = isStore (opc e)" "le_pdst le = re_pdst e" "le_pc le = re_pc e"
proof -
  have "lkey (j, le) \<in> set (map lkey (fl_lsq fl))" using assms(2) by simp
  then have "lkey (j, le) \<in> set (map rkey (filter (re_isMem \<circ> snd) (fl_rob fl)))"
    using assms(1) by (simp only: pair_ok_def)
  then show thesis using that by (auto simp: lkey_def rkey_def)
qed

lemma rob_to_lsq:
  assumes "pair_ok fl" "(i, e) \<in> set (fl_rob fl)" "re_isMem e"
  obtains j le where "(j, le) \<in> set (fl_lsq fl)" "unat (le_robIdx le) = i" "le_seq le = re_seq e" "le_op le = opc e"
    "le_isStore le = isStore (opc e)" "le_pdst le = re_pdst e" "le_pc le = re_pc e"
proof -
  have "rkey (i, e) \<in> set (map rkey (filter (re_isMem \<circ> snd) (fl_rob fl)))" using assms(2,3) by simp
  then have "rkey (i, e) \<in> set (map lkey (fl_lsq fl))"
    using assms(1) by (simp only: pair_ok_def)
  then show thesis using that by (auto simp: lkey_def rkey_def)
qed

section \<open>Carrying the facts over a change\<close>

text \<open>
  What a change does for the instructions of \<open>K\<close>: unfinished entries stay, entries of the load/store
  queue keep their address state, and operands that were there are still there.
\<close>

definition evolves :: "env \<Rightarrow> flight \<Rightarrow> env \<Rightarrow> flight \<Rightarrow> u64 set \<Rightarrow> bool" where
  "evolves v fl v' fl' K \<longleftrightarrow> rob_ok v fl \<and> env_step v v' ((re_seq \<circ> snd) ` set (fl_rob fl) \<inter> K) \<and>
     (\<forall>i e. (i, e) \<in> set (fl_rob fl) \<and> \<not> re_done e \<and> re_seq e \<in> K \<longrightarrow>
        (\<exists>e'. (i, e') \<in> set (fl_rob fl') \<and> ekey e' = ekey e \<and> \<not> re_done e')) \<and>
     (\<forall>j le. (j, le) \<in> set (fl_lsq fl) \<and> le_seq le \<in> K \<longrightarrow>
        (\<exists>le'. (j, le') \<in> set (fl_lsq fl') \<and> le_seq le' = le_seq le \<and> le_addrValid le' = le_addrValid le \<and>
           (le_reported le \<longrightarrow> le_reported le')))"

lemma evolvesD:
  assumes "evolves v fl v' fl' K"
  shows "rob_ok v fl" "env_step v v' ((re_seq \<circ> snd) ` set (fl_rob fl) \<inter> K)"
    "\<And>i e. (i, e) \<in> set (fl_rob fl) \<Longrightarrow> \<not> re_done e \<Longrightarrow> re_seq e \<in> K \<Longrightarrow>
        \<exists>e'. (i, e') \<in> set (fl_rob fl') \<and> ekey e' = ekey e \<and> \<not> re_done e'"
    "\<And>j le. (j, le) \<in> set (fl_lsq fl) \<Longrightarrow> le_seq le \<in> K \<Longrightarrow>
        \<exists>le'. (j, le') \<in> set (fl_lsq fl') \<and> le_seq le' = le_seq le \<and> le_addrValid le' = le_addrValid le \<and>
           (le_reported le \<longrightarrow> le_reported le')"
  using assms by (auto simp: evolves_def)

lemma evolves_entry:
  assumes "evolves v fl v' fl' K" "(i, e) \<in> set (fl_rob fl)" "\<not> re_done e" "re_seq e \<in> K"
  obtains e' where "(i, e') \<in> set (fl_rob fl')" "ekey e' = ekey e" "\<not> re_done e'" "entry_static e"
    "re_seq e \<in> (re_seq \<circ> snd) ` set (fl_rob fl) \<inter> K"
proof -
  obtain e' where "(i, e') \<in> set (fl_rob fl')" "ekey e' = ekey e" "\<not> re_done e'"
    using evolvesD(3) [OF assms] by blast
  moreover have "entry_static e" by (rule rob_okD(3) [OF evolvesD(1) [OF assms(1)] assms(2)])
  moreover have "re_seq e \<in> (re_seq \<circ> snd) ` set (fl_rob fl) \<inter> K" using assms(2,4) by force
  ultimately show thesis using that by blast
qed

lemma wb_op_evolves:
  assumes "evolves v fl v' fl' K" "wb_op v fl x" "o_seq x \<in> K"
  shows "wb_op v' fl' x"
proof -
  obtain e where e: "o_valid x" "(unat (o_robIdx x), e) \<in> set (fl_rob fl)" "re_seq e = o_seq x" "\<not> re_done e"
    "\<not> re_isSystem e" "o_pdst x = re_pdst e"
    "if re_isMem e
      then isLoad (opc e) \<and> (\<exists>j le. (j, le) \<in> set (fl_lsq fl) \<and> le_seq le = o_seq x \<and> le_addrValid le \<and> le_reported le)
      else avail v e \<and> o_value x = x_value (outcome v e) \<and> o_redirect x = x_redirect (outcome v e) \<and>
        o_target x = x_target (outcome v e)"
    using assms(2) unfolding wb_op_def by blast
  have K: "re_seq e \<in> K" using assms(3) e(3) by simp
  obtain e' where e': "(unat (o_robIdx x), e') \<in> set (fl_rob fl')" "ekey e' = ekey e" "\<not> re_done e'"
    "entry_static e" "re_seq e \<in> (re_seq \<circ> snd) ` set (fl_rob fl) \<inter> K"
    using evolves_entry [OF assms(1) e(2,4) K] .
  note k = ekeyD [OF e'(2)] and o = outcome_step [OF evolvesD(2) [OF assms(1)] e'(5,4)]
  show ?thesis
  proof (cases "re_isMem e")
    case True
    then obtain j le where l: "(j, le) \<in> set (fl_lsq fl)" "le_seq le = o_seq x" "le_addrValid le" "le_reported le"
      using e(7) by auto
    have "le_seq le \<in> K" using l(2) assms(3) by simp
    from evolvesD(4) [OF assms(1) l(1) this] show ?thesis
      using e e' k True l by (fastforce simp: wb_op_def)
  next
    case False
    then show ?thesis using e e' k o by (auto simp: wb_op_def)
  qed
qed

lemma agu_op_evolves:
  assumes "evolves v fl v' fl' K" "agu_op v fl x" "o_seq x \<in> K"
  shows "agu_op v' fl' x"
proof -
  obtain e le where e: "o_valid x" "(unat (o_robIdx x), e) \<in> set (fl_rob fl)" "re_seq e = o_seq x" "\<not> re_done e"
    "re_isMem e" "src_ready v (re_seq e) (ins_rs1 (re_ins e))" "o_value x = addr_of v e"
    "(unat (o_lsqIdx x), le) \<in> set (fl_lsq fl)" "le_seq le = o_seq x" "\<not> le_addrValid le"
    using assms(2) unfolding agu_op_def by blast
  have K: "re_seq e \<in> K" "le_seq le \<in> K" using assms(3) e(3,9) by simp_all
  obtain e' where e': "(unat (o_robIdx x), e') \<in> set (fl_rob fl')" "ekey e' = ekey e" "\<not> re_done e'"
    "entry_static e" "re_seq e \<in> (re_seq \<circ> snd) ` set (fl_rob fl) \<inter> K"
    using evolves_entry [OF assms(1) e(2,4) K(1)] .
  note k = ekeyD [OF e'(2)] and s = evolvesD(2) [OF assms(1)]
  obtain le' where le': "(unat (o_lsqIdx x), le') \<in> set (fl_lsq fl')" "le_seq le' = le_seq le" "\<not> le_addrValid le'"
    using evolvesD(4) [OF assms(1) e(8) K(2)] e(10) by auto
  show ?thesis
    using e e' le' k env_stepD(2) [OF s e'(5) static_regs(1) [OF e'(4)] e(6)] addr_step [OF s e'(5,4) e(6)]
    by (auto simp: agu_op_def)
qed

lemma iq_op_evolves:
  assumes "evolves v fl v' fl' K" "iq_op v fl i q w1 w2" "q_seq q \<in> K"
  shows "iq_op v' fl' i q w1 w2"
proof -
  obtain e where e: "unat (q_robIdx q) = i" "(i, e) \<in> set (fl_rob fl)" "re_seq e = q_seq q" "\<not> re_done e"
    "\<not> re_isSystem e" "q_unit q = fuKindOf (opc e)" "q_ps1 q = ev_src v (re_seq e) (ins_rs1 (re_ins e))"
    "q_ps2 q = ev_src v (re_seq e) (ins_rs2 (re_ins e))"
    "usesRs1 (opc e) \<and> \<not> w1 \<longrightarrow> src_ready v (re_seq e) (ins_rs1 (re_ins e))"
    "usesRs2 (opc e) \<and> \<not> isStore (opc e) \<and> \<not> w2 \<longrightarrow> src_ready v (re_seq e) (ins_rs2 (re_ins e))"
    "re_isMem e \<longrightarrow> (\<exists>le. (unat (q_lsqIdx q), le) \<in> set (fl_lsq fl) \<and> le_seq le = q_seq q \<and> \<not> le_addrValid le)"
    using assms(2) unfolding iq_op_def by blast
  have K: "re_seq e \<in> K" using assms(3) e(3) by simp
  obtain e' where e': "(i, e') \<in> set (fl_rob fl')" "ekey e' = ekey e" "\<not> re_done e'"
    "entry_static e" "re_seq e \<in> (re_seq \<circ> snd) ` set (fl_rob fl) \<inter> K"
    using evolves_entry [OF assms(1) e(2,4) K] .
  note k = ekeyD [OF e'(2)] and d = env_stepD [OF evolvesD(2) [OF assms(1)] e'(5)] and r = static_regs [OF e'(4)]
  have "re_isMem e \<longrightarrow> (\<exists>le. (unat (q_lsqIdx q), le) \<in> set (fl_lsq fl') \<and> le_seq le = q_seq q \<and> \<not> le_addrValid le)"
  proof
    assume "re_isMem e"
    then obtain le where le: "(unat (q_lsqIdx q), le) \<in> set (fl_lsq fl)" "le_seq le = q_seq q" "\<not> le_addrValid le"
      using e(11) by blast
    have "le_seq le \<in> K" using le(2) assms(3) by simp
    from evolvesD(4) [OF assms(1) le(1) this]
    show "\<exists>le. (unat (q_lsqIdx q), le) \<in> set (fl_lsq fl') \<and> le_seq le = q_seq q \<and> \<not> le_addrValid le"
      using le(2,3) by auto
  qed
  note mem = this
  show ?thesis
    unfolding iq_op_def
  proof (intro conjI exI [of _ e'])
    show "re_isMem e' \<longrightarrow>
        (\<exists>le. (unat (q_lsqIdx q), le) \<in> set (fl_lsq fl') \<and> le_seq le = q_seq q \<and> \<not> le_addrValid le)"
      unfolding k by (rule mem)
  qed (use e(1,3-10) e'(1,3) k d(1,2) [OF r(1)] d(1,2) [OF r(2)] in simp_all)
qed

end
