(* ===== verification/Dataflow_Moves.thy ===== *)
theory Dataflow_Moves
  imports Dataflow
begin

text \<open>
  The moves of the data flow - an instruction enters, issues, has its address, is completed, is
  squashed or retires - and that each keeps the invariant of \<open>Dataflow\<close>.
\<close>

section \<open>Tools\<close>

lemma entry_step:
  assumes "env_step v v' S" "re_seq e \<in> S" "entry_static e" "done_ok v e" "sys_ok v e" "ready_ok v e"
    and "re_pdst e \<noteq> kNoReg \<Longrightarrow> ev_ready v' ! unat (re_pdst e) = ev_ready v ! unat (re_pdst e)"
  shows "done_ok v' e" "sys_ok v' e" "ready_ok v' e"
proof -
  show "ready_ok v' e" using assms(6,7) by (simp add: ready_ok_def)
  show "sys_ok v' e"
    using assms(5) env_stepD(1) [OF assms(1,2), of 10] env_stepD(1) [OF assms(1,2), of 17] by (simp add: sys_ok_def)
  show "done_ok v' e"
    unfolding done_ok_def
  proof (rule impI)
    assume d: "re_done e \<and> \<not> re_isMem e \<and> \<not> re_isSystem e"
    then have a: "avail v e" using assms(4) by (simp add: done_ok_def)
    have "ev_val v' ! unat (re_pdst e) = ev_val v ! unat (re_pdst e)" if "re_pdst e \<noteq> kNoReg"
      using that d assms(1,6) by (simp add: env_step_def ready_ok_def)
    then show "avail v' e \<and> (re_pdst e \<noteq> kNoReg \<longrightarrow> ev_val v' ! unat (re_pdst e) = x_value (outcome v' e)) \<and>
        (re_isBranch e \<longrightarrow> re_actualTaken e = x_redirect (outcome v' e) \<and>
        re_actualTarget e = (if x_redirect (outcome v' e) then x_target (outcome v' e) else re_pc e + 4))"
      using assms(4) d outcome_step [OF assms(1-3) a] by (simp add: done_ok_def)
  qed
qed

lemma mem_entry_step:
  assumes "env_step v v' S" "re_seq e \<in> S" "entry_static e" "mem_entry v e le"
  shows "mem_entry v' e le"
proof (cases "isStore (opc e)")
  case True
  note r = static_regs [OF assms(3)]
  note d = env_stepD [OF assms(1,2)]
  note m = assms(4) [unfolded mem_entry_def if_P [OF True]]
  have "le_dataReady le \<Longrightarrow> src_ready v' (re_seq e) (ins_rs2 (re_ins e)) \<and>
      opnd v' (re_seq e) (ins_rs2 (re_ins e)) = opnd v (re_seq e) (ins_rs2 (re_ins e))"
    using d(2,3) [OF r(2)] m by blast
  moreover have "le_addrValid le \<Longrightarrow> src_ready v' (re_seq e) (ins_rs1 (re_ins e)) \<and> addr_of v' e = addr_of v e"
    using d(2) [OF r(1)] addr_step [OF assms(1-3)] m by blast
  ultimately show ?thesis using m d(1) [OF r(2)] True by (simp add: mem_entry_def)
qed (use assms(4) in \<open>simp add: mem_entry_def\<close>)

lemma mem_entry_key:
  assumes "ekey e' = ekey e" "re_done e' = re_done e" "mem_entry v e le"
  shows "mem_entry v e' le"
  using assms(2,3) ekeyD [OF assms(1)] by (simp add: mem_entry_def)

lemma upd_at_map:
  assumes "\<And>e. (i, e) \<in> set xs \<Longrightarrow> g (i, f e) = g (i, e)"
  shows "map g (upd_at i f xs) = map g xs"
  using assms by (auto simp: upd_at_def)

lemma upd_at_filter:
  assumes "\<And>e. (i, e) \<in> set xs \<Longrightarrow> g (i, f e) = g (i, e) \<and> P (i, f e) = P (i, e)"
  shows "map g (filter P (upd_at i f xs)) = map g (filter P xs)"
  using assms
proof (induction xs)
  case (Cons x xs)
  obtain j e where "x = (j, e)" by fastforce
  then show ?case using Cons by (cases "j = i") (auto simp: upd_at_def)
qed (simp add: upd_at_def)

lemma rob_ok_upd:
  assumes rob: "rob_ok v fl" and step: "env_step v v' ((re_seq \<circ> snd) ` set (fl_rob fl))"
    and upd: "fl_rob fl' = upd_at i f (fl_rob fl)" and mem: "(i, e0) \<in> set (fl_rob fl)"
    and key: "ekey (f e0) = ekey e0"
    and new: "done_ok v' (f e0)" "sys_ok v' (f e0)" "ready_ok v' (f e0)"
    and others: "\<And>j e. (j, e) \<in> set (fl_rob fl) \<Longrightarrow> j \<noteq> i \<Longrightarrow> re_pdst e \<noteq> kNoReg \<Longrightarrow>
      ev_ready v' ! unat (re_pdst e) = ev_ready v ! unat (re_pdst e)"
  shows "rob_ok v' fl'"
proof -
  note r = rob_okD [OF rob]
  have only: "e = e0" if "(i, e) \<in> set (fl_rob fl)" for e using distinct_slots [OF r(1) that mem] .
  have "map (re_seq \<circ> snd) (fl_rob fl') = map (re_seq \<circ> snd) (fl_rob fl)"
    unfolding upd by (rule upd_at_map) (use only ekeyD(1) [OF key] in auto)
  moreover have "map fst (fl_rob fl') = map fst (fl_rob fl)" by (simp add: upd)
  moreover have "entry_static e \<and> done_ok v' e \<and> sys_ok v' e \<and> ready_ok v' e" if m: "(j, e) \<in> set (fl_rob fl')" for j e
  proof -
    obtain a where a: "(j, a) \<in> set (fl_rob fl)" "e = (if j = i then f a else a)"
      using m unfolding upd upd_at_in by blast
    show ?thesis
    proof (cases "j = i")
      case True
      then show ?thesis using a only new ekeyD(13) [OF key] r(3) [OF a(1)] by auto
    next
      case False
      have "re_seq a \<in> (re_seq \<circ> snd) ` set (fl_rob fl)" using a(1) by force
      from entry_step [OF step this r(3-6) [OF a(1)] others [OF a(1) False]] show ?thesis
        using a(2) False r(3) [OF a(1)] by simp
    qed
  qed
  ultimately show ?thesis using r(1,2) by (auto simp: rob_ok_def)
qed

lemma pair_ok_upd:
  assumes "pair_ok fl" "fl_rob fl' = upd_at i f (fl_rob fl)" "fl_lsq fl' = upd_at j g (fl_lsq fl)"
    and "\<And>e. (i, e) \<in> set (fl_rob fl) \<Longrightarrow> ekey (f e) = ekey e"
    and "\<And>le. (j, le) \<in> set (fl_lsq fl) \<Longrightarrow> lkey (j, g le) = lkey (j, le)"
  shows "pair_ok fl'"
proof -
  have "map rkey (filter (re_isMem \<circ> snd) (fl_rob fl')) = map rkey (filter (re_isMem \<circ> snd) (fl_rob fl))"
    unfolding assms(2) by (rule upd_at_filter) (use ekeyD [OF assms(4)] in \<open>simp add: rkey_def\<close>)
  moreover have "map lkey (fl_lsq fl') = map lkey (fl_lsq fl)"
    unfolding assms(3) by (rule upd_at_map) (rule assms(5))
  moreover have "map fst (fl_lsq fl') = map fst (fl_lsq fl)" by (simp add: assms(3))
  ultimately show ?thesis using assms(1) by (simp add: pair_ok_def)
qed

lemma upd_at_id [simp]: "upd_at i (\<lambda>x. x) xs = xs"
  by (induction xs) (auto simp: upd_at_def)

lemma mem_ok_rob:
  assumes "mem_ok v fl" "rob_ok v fl" "env_step v v' ((re_seq \<circ> snd) ` set (fl_rob fl))"
    and "fl_rob fl' = upd_at i f (fl_rob fl)" "fl_lsq fl' = fl_lsq fl" "(i, e0) \<in> set (fl_rob fl)"
    and "ekey (f e0) = ekey e0"
    and "\<And>j le. (j, le) \<in> set (fl_lsq fl) \<Longrightarrow> le_seq le = re_seq e0 \<Longrightarrow> mem_entry v' (f e0) le"
  shows "mem_ok v' fl'"
  unfolding mem_ok_def
proof (clarify)
  fix j e k le
  assume a: "(j, e) \<in> set (fl_rob fl')" "(k, le) \<in> set (fl_lsq fl')" "le_seq le = re_seq e"
  obtain b where b: "(j, b) \<in> set (fl_rob fl)" "e = (if j = i then f b else b)"
    using a(1) unfolding assms(4) upd_at_in by blast
  show "mem_entry v' e le"
  proof (cases "j = i")
    case True
    then have "b = e0" using distinct_slots [OF rob_okD(1) [OF assms(2)] _ assms(6)] b(1) by blast
    then show ?thesis using True b(2) a(2,3) assms(5,8) ekeyD(1) [OF assms(7)] by simp
  next
    case False
    have "re_seq b \<in> (re_seq \<circ> snd) ` set (fl_rob fl)" using b(1) by force
    moreover have "mem_entry v b le" using assms(1,5) a b False by (auto simp: mem_ok_def)
    ultimately show ?thesis using mem_entry_step [OF assms(3) _ rob_okD(3) [OF assms(2) b(1)]] False b(2) by simp
  qed
qed

lemma mem_ok_lsq:
  assumes "mem_ok v fl" "pair_ok fl" "fl_rob fl' = fl_rob fl" "fl_lsq fl' = upd_at j g (fl_lsq fl)"
    and "(j, le0) \<in> set (fl_lsq fl)" "le_seq (g le0) = le_seq le0"
    and "\<And>i e. (i, e) \<in> set (fl_rob fl) \<Longrightarrow> le_seq le0 = re_seq e \<Longrightarrow> mem_entry v e (g le0)"
  shows "mem_ok v fl'"
  unfolding mem_ok_def
proof (clarify)
  fix i e k le
  assume a: "(i, e) \<in> set (fl_rob fl')" "(k, le) \<in> set (fl_lsq fl')" "le_seq le = re_seq e"
  obtain b where b: "(k, b) \<in> set (fl_lsq fl)" "le = (if k = j then g b else b)"
    using a(2) unfolding assms(4) upd_at_in by blast
  show "mem_entry v e le"
  proof (cases "k = j")
    case True
    have "distinct (map fst (fl_lsq fl))" using assms(2) by (simp add: pair_ok_def)
    from distinct_slots [OF this _ assms(5)] have "b = le0" using True b(1) by blast
    then show ?thesis using True b(2) a(1,3) assms(3,6,7) by simp
  next
    case False
    then show ?thesis using assms(1,3) a b by (auto simp: mem_ok_def)
  qed
qed

text \<open>What the operations in flight refer to is unfinished.\<close>

lemma op_refers:
  assumes "flight_inv v fl" "x \<in># fl_wb fl + fl_agu fl"
  obtains e where "(unat (o_robIdx x), e) \<in> set (fl_rob fl)" "re_seq e = o_seq x" "\<not> re_done e"
  using assms by (auto simp: flight_inv_def wb_op_def agu_op_def)

lemma iq_refers:
  assumes "flight_inv v fl" "fl_iq fl i = Some (q, w1, w2)"
  obtains e where "(i, e) \<in> set (fl_rob fl)" "re_seq e = q_seq q" "\<not> re_done e"
  using assms(2) flight_invD(6) [OF assms(1)] unfolding iq_op_def by blast

text \<open>A finished entry has nothing in flight.\<close>

lemma done_no_op:
  assumes "flight_inv v fl" "(i, e) \<in> set (fl_rob fl)" "re_done e"
  shows "x \<in># fl_wb fl + fl_agu fl \<Longrightarrow> o_seq x \<noteq> re_seq e"
    "fl_iq fl j = Some (q, w1, w2) \<Longrightarrow> q_seq q \<noteq> re_seq e"
proof -
  show "o_seq x \<noteq> re_seq e" if m: "x \<in># fl_wb fl + fl_agu fl"
  proof
    assume s: "o_seq x = re_seq e"
    obtain e' where e': "(unat (o_robIdx x), e') \<in> set (fl_rob fl)" "re_seq e' = o_seq x" "\<not> re_done e'"
      using op_refers [OF assms(1) m] .
    have "re_seq e = re_seq e'" using e'(2) s by simp
    then have "e = e'" using rob_seq_inj [OF flight_invD(1) [OF assms(1)] assms(2) e'(1)] by blast
    then show False using assms(3) e'(3) by blast
  qed
  show "q_seq q \<noteq> re_seq e" if m: "fl_iq fl j = Some (q, w1, w2)"
  proof
    assume s: "q_seq q = re_seq e"
    obtain e' where e': "(j, e') \<in> set (fl_rob fl)" "re_seq e' = q_seq q" "\<not> re_done e'"
      using iq_refers [OF assms(1) m] .
    have "re_seq e = re_seq e'" using e'(2) s by simp
    then have "e = e'" using rob_seq_inj [OF flight_invD(1) [OF assms(1)] assms(2) e'(1)] by blast
    then show False using assms(3) e'(3) by blast
  qed
qed

text \<open>No two operations of one instruction.\<close>

lemma uniq_removed:
  assumes "uniq_ok fl" "x \<in># fl_wb fl + fl_agu fl" "y \<in># fl_wb fl + fl_agu fl - {#x#}"
  shows "o_seq y \<noteq> o_seq x"
proof
  assume s: "o_seq y = o_seq x"
  let ?M = "fl_wb fl + fl_agu fl"
  have "image_mset o_seq ?M = add_mset (o_seq x) (image_mset o_seq (?M - {#x#}))"
    using assms(2) by (metis image_mset_add_mset insert_DiffM)
  moreover have "o_seq y \<in># image_mset o_seq (?M - {#x#})" unfolding set_image_mset by (rule imageI) (rule assms(3))
  ultimately have "2 \<le> count (image_mset o_seq ?M) (o_seq x)" using s by (simp flip: count_greater_zero_iff)
  moreover have "count (image_mset o_seq ?M) (o_seq x) \<le> 1" using assms(1) by (simp add: uniq_ok_def)
  ultimately show False by simp
qed

lemma uniq_iq:
  assumes "uniq_ok fl" "x \<in># fl_wb fl + fl_agu fl" "fl_iq fl i = Some (q, w1, w2)"
  shows "q_seq q \<noteq> o_seq x"
proof -
  have "q_seq q \<notin># image_mset o_seq (fl_wb fl + fl_agu fl)" using assms(1,3) unfolding uniq_ok_def by blast
  then show ?thesis using assms(2) by auto
qed

lemma uniq_sub:
  assumes "uniq_ok fl" "fl_wb fl' + fl_agu fl' \<subseteq># fl_wb fl + fl_agu fl"
    and "\<And>i q w1 w2. fl_iq fl' i = Some (q, w1, w2) \<Longrightarrow> \<exists>w1 w2. fl_iq fl i = Some (q, w1, w2)"
  shows "uniq_ok fl'"
  unfolding uniq_ok_def
proof (intro conjI allI impI)
  let ?M = "fl_wb fl + fl_agu fl" and ?N = "fl_wb fl' + fl_agu fl'"
  have sub: "image_mset o_seq ?N \<subseteq># image_mset o_seq ?M" by (rule image_mset_subseteq_mono [OF assms(2)])
  show "count (image_mset o_seq ?N) s \<le> 1" for s
    using mset_subset_eq_count [OF sub, of s] assms(1) by (meson order_trans uniq_ok_def)
  fix i q w1 w2
  assume "fl_iq fl' i = Some (q, w1, w2)"
  then obtain w3 w4 where "fl_iq fl i = Some (q, w3, w4)" using assms(3) by blast
  then have "q_seq q \<notin># image_mset o_seq ?M" using assms(1) unfolding uniq_ok_def by blast
  then show "q_seq q \<notin># image_mset o_seq ?N" using mset_subset_eqD [OF sub] by blast
qed

lemma uniq_add:
  assumes "uniq_ok fl" "fl_wb fl' + fl_agu fl' = add_mset y (fl_wb fl + fl_agu fl)"
    and "\<And>x. x \<in># fl_wb fl + fl_agu fl \<Longrightarrow> o_seq x \<noteq> o_seq y"
    and "\<And>i q w1 w2. fl_iq fl' i = Some (q, w1, w2) \<Longrightarrow> q_seq q \<noteq> o_seq y \<and> (\<exists>w1 w2. fl_iq fl i = Some (q, w1, w2))"
  shows "uniq_ok fl'"
  unfolding uniq_ok_def assms(2)
proof (intro conjI allI impI)
  let ?M = "fl_wb fl + fl_agu fl"
  have "o_seq y \<notin> o_seq ` set_mset ?M" using assms(3) by (metis imageE)
  then have "o_seq y \<notin># image_mset o_seq ?M" by (simp only: set_image_mset not_False_eq_True)
  then have "count (image_mset o_seq ?M) (o_seq y) = 0" by (rule count_eq_zero_iff [THEN iffD2])
  then show "count (image_mset o_seq (add_mset y ?M)) s \<le> 1" for s
    using assms(1) by (cases "s = o_seq y") (simp_all add: uniq_ok_def)
  fix i q w1 w2
  assume "fl_iq fl' i = Some (q, w1, w2)"
  then obtain w3 w4 where q: "q_seq q \<noteq> o_seq y" "fl_iq fl i = Some (q, w3, w4)" using assms(4) by blast
  have "q_seq q \<notin># image_mset o_seq ?M" using assms(1) q(2) unfolding uniq_ok_def by blast
  then show "q_seq q \<notin># image_mset o_seq (add_mset y ?M)" using q(1) by simp
qed

text \<open>Putting a change together.\<close>

lemma flight_inv_evolves:
  assumes "flight_inv v fl" "evolves v fl v' fl' K" "rob_ok v' fl'" "pair_ok fl'" "mem_ok v' fl'"
    and "\<And>x. x \<in># fl_wb fl' \<Longrightarrow> (x \<in># fl_wb fl \<and> o_seq x \<in> K) \<or> wb_op v' fl' x"
    and "\<And>x. x \<in># fl_agu fl' \<Longrightarrow> (x \<in># fl_agu fl \<and> o_seq x \<in> K) \<or> agu_op v' fl' x"
    and "\<And>i q w1 w2. fl_iq fl' i = Some (q, w1, w2) \<Longrightarrow>
      (fl_iq fl i = Some (q, w1, w2) \<and> q_seq q \<in> K) \<or> iq_op v' fl' i q w1 w2"
    and "uniq_ok fl'"
  shows "flight_inv v' fl'"
  unfolding flight_inv_def
proof (intro conjI ballI allI impI)
  show "wb_op v' fl' x" if "x \<in># fl_wb fl'" for x
    using assms(6) [OF that] wb_op_evolves [OF assms(2)] flight_invD(4) [OF assms(1)] by blast
  show "agu_op v' fl' x" if "x \<in># fl_agu fl'" for x
    using assms(7) [OF that] agu_op_evolves [OF assms(2)] flight_invD(5) [OF assms(1)] by blast
  show "iq_op v' fl' i q w1 w2" if "fl_iq fl' i = Some (q, w1, w2)" for i q w1 w2
    using assms(8) [OF that] iq_op_evolves [OF assms(2)] flight_invD(6) [OF assms(1)] by blast
qed (fact assms)+


section \<open>Squash and retirement\<close>

lemma map_filter_same:
  assumes "map f xs = map g ys" "\<And>x. P x = R (f x)" "\<And>y. Q y = R (g y)"
  shows "map f (filter P xs) = map g (filter Q ys)"
proof -
  have "map f (filter P xs) = filter R (map f xs)" "map g (filter Q ys) = filter R (map g ys)"
    by (simp_all add: filter_map o_def assms(2,3) [abs_def, symmetric])
  then show ?thesis using assms(1) by simp
qed

lemma distinct_map_filter: "distinct (map f xs) \<Longrightarrow> distinct (map f (filter P xs))"
  by (induction xs) auto

definition squashed :: "u64 \<Rightarrow> flight \<Rightarrow> flight" where
  "squashed s fl =
     \<lparr>fl_rob = filter (\<lambda>x. re_seq (snd x) \<le> s) (fl_rob fl), fl_lsq = filter (\<lambda>x. le_seq (snd x) \<le> s) (fl_lsq fl),
      fl_iq = (\<lambda>i. older_view s (fl_iq fl i)), fl_wb = filter_mset (\<lambda>x. o_seq x \<le> s) (fl_wb fl),
      fl_agu = filter_mset (\<lambda>x. o_seq x \<le> s) (fl_agu fl)\<rparr>"

lemma squash_inv:
  assumes inv: "flight_inv v fl"
    and step: "env_step v v' ((re_seq \<circ> snd) ` set (fl_rob fl) \<inter> {..s})" "ev_ready v' = ev_ready v"
  shows "flight_inv v' (squashed s fl)"
proof -
  let ?fl = "squashed s fl"
  note i = flight_invD [OF inv] and r = rob_okD [OF flight_invD(1) [OF inv]]
  have rob: "rob_ok v' ?fl"
    unfolding rob_ok_def
  proof (intro conjI ballI)
    show "distinct (map fst (fl_rob ?fl))" using r(1) by (simp add: squashed_def distinct_map_filter)
    show "sorted_wrt (<) (map (re_seq \<circ> snd) (fl_rob ?fl))"
      using r(2) by (simp add: squashed_def sorted_wrt_map sorted_wrt_filter)
    fix y
    assume m: "y \<in> set (fl_rob ?fl)"
    obtain k e where y1: "y = (k, e)" by fastforce
    then have y: "y = (k, e)" "(k, e) \<in> set (fl_rob fl)" "re_seq e \<le> s"
      using m by (auto simp: squashed_def)
    have "re_seq e \<in> (re_seq \<circ> snd) ` set (fl_rob fl) \<inter> {..s}" using y by force
    from entry_step [OF step(1) this r(3-6) [OF y(2)]] show "case y of (k, e) \<Rightarrow>
        entry_static e \<and> done_ok v' e \<and> sys_ok v' e \<and> ready_ok v' e"
      using r(3) [OF y(2)] step(2) by (simp add: y(1))
  qed
  have pair: "pair_ok ?fl"
  proof -
    have "map lkey (filter (\<lambda>x. le_seq (snd x) \<le> s) (fl_lsq fl)) =
        map rkey (filter (\<lambda>x. re_seq (snd x) \<le> s) (filter (re_isMem \<circ> snd) (fl_rob fl)))"
      by (rule map_filter_same [where R = "\<lambda>k. fst k \<le> s"]) (use i(2) in \<open>auto simp: pair_ok_def lkey_def rkey_def\<close>)
    then show ?thesis using i(2) by (simp add: pair_ok_def squashed_def distinct_map_filter conj_commute)
  qed
  have mem: "mem_ok v' ?fl"
    unfolding mem_ok_def
  proof (clarify)
    fix k e j le
    assume a: "(k, e) \<in> set (fl_rob ?fl)" "(j, le) \<in> set (fl_lsq ?fl)" "le_seq le = re_seq e"
    then have b: "(k, e) \<in> set (fl_rob fl)" "(j, le) \<in> set (fl_lsq fl)" "re_seq e \<le> s" by (auto simp: squashed_def)
    have "re_seq e \<in> (re_seq \<circ> snd) ` set (fl_rob fl) \<inter> {..s}" using b by force
    moreover have "mem_entry v e le" using i(3) b a(3) by (auto simp: mem_ok_def)
    ultimately show "mem_entry v' e le" using mem_entry_step [OF step(1) _ r(3) [OF b(1)]] by blast
  qed
  have ev: "evolves v fl v' ?fl {..s}"
    unfolding evolves_def using i(1) step(1) by (auto simp: squashed_def)
  have old: "older_view s w = Some (q, w1, w2) \<longleftrightarrow> w = Some (q, w1, w2) \<and> q_seq q \<le> s" for w q w1 w2
    by (auto simp: older_view_def split: option.splits)
  have sub: "fl_wb ?fl + fl_agu ?fl \<subseteq># fl_wb fl + fl_agu fl"
    by (simp add: squashed_def subset_mset.add_mono)
  show ?thesis
  proof (rule flight_inv_evolves [OF inv ev rob pair mem])
    show "uniq_ok ?fl" by (rule uniq_sub [OF i(7) sub]) (auto simp: squashed_def old)
  qed (auto simp: squashed_def old)
qed

lemma retire_inv:
  assumes inv: "flight_inv v fl" and rob: "fl_rob fl = (i0, e0) # rest" and fin: "re_done e0"
    and fl': "fl' = fl\<lparr>fl_rob := rest, fl_lsq := (if re_isMem e0 then tl (fl_lsq fl) else fl_lsq fl)\<rparr>"
    and step: "env_step v v' ((re_seq \<circ> snd) ` set rest)" "ev_ready v' = ev_ready v"
  shows "flight_inv v' fl'"
proof -
  note i = flight_invD [OF inv] and r = rob_okD [OF flight_invD(1) [OF inv]]
  have sub: "set rest \<subseteq> set (fl_rob fl)" "set (fl_lsq fl') \<subseteq> set (fl_lsq fl)"
    by (auto simp: rob fl' dest: list.set_sel(2) split: if_splits) (metis list.sel(2) list.set_sel(2))
  have rob': "rob_ok v' fl'"
    unfolding rob_ok_def
  proof (intro conjI ballI)
    show "distinct (map fst (fl_rob fl'))" "sorted_wrt (<) (map (re_seq \<circ> snd) (fl_rob fl'))"
      using r(1,2) by (simp_all add: fl' rob)
    fix y
    assume m: "y \<in> set (fl_rob fl')"
    obtain k e where y1: "y = (k, e)" by fastforce
    then have y: "y = (k, e)" "(k, e) \<in> set rest" using m by (auto simp: fl')
    then have m: "(k, e) \<in> set (fl_rob fl)" using sub(1) by blast
    have "re_seq e \<in> (re_seq \<circ> snd) ` set rest" using y by force
    from entry_step [OF step(1) this r(3-6) [OF m]] show "case y of (k, e) \<Rightarrow>
        entry_static e \<and> done_ok v' e \<and> sys_ok v' e \<and> ready_ok v' e"
      using r(3) [OF m] step(2) by (simp add: y(1))
  qed
  have later: "re_seq e0 \<notin> (re_seq \<circ> snd) ` set rest" using r(2) by (auto simp: rob)
  have pair: "pair_ok fl'"
  proof (cases "re_isMem e0")
    case True
    then have "map lkey (tl (fl_lsq fl)) = map rkey (filter (re_isMem \<circ> snd) rest)"
      using i(2) by (simp add: pair_ok_def rob map_tl)
    then show ?thesis using i(2) True by (simp add: pair_ok_def fl' map_tl distinct_tl)
  next
    case False
    then show ?thesis using i(2) by (simp add: pair_ok_def fl' rob)
  qed
  have mem: "mem_ok v' fl'"
    unfolding mem_ok_def
  proof (clarify)
    fix k e j le
    assume a: "(k, e) \<in> set (fl_rob fl')" "(j, le) \<in> set (fl_lsq fl')" "le_seq le = re_seq e"
    then have b: "(k, e) \<in> set rest" "(k, e) \<in> set (fl_rob fl)" "(j, le) \<in> set (fl_lsq fl)"
      using sub by (auto simp: fl')
    have "re_seq e \<in> (re_seq \<circ> snd) ` set rest" using b by force
    moreover have "mem_entry v e le" using i(3) b a(3) by (auto simp: mem_ok_def)
    ultimately show "mem_entry v' e le" using mem_entry_step [OF step(1) _ r(3) [OF b(2)]] by blast
  qed
  let ?K = "(re_seq \<circ> snd) ` set rest"
  have lsq: "(j, le) \<in> set (fl_lsq fl')" if "(j, le) \<in> set (fl_lsq fl)" "le_seq le \<in> ?K" for j le
  proof (cases "re_isMem e0")
    case True
    have "map lkey (fl_lsq fl) = rkey (i0, e0) # map rkey (filter (re_isMem \<circ> snd) rest)"
      using i(2) True by (simp add: pair_ok_def rob)
    then obtain l ls where l: "fl_lsq fl = l # ls" "lkey l = rkey (i0, e0)" by (cases "fl_lsq fl") auto
    then have "le_seq (snd l) = re_seq e0" by (simp add: lkey_def rkey_def)
    then have "(j, le) = l \<Longrightarrow> le_seq le = re_seq e0" by (metis snd_conv)
    then have "(j, le) \<noteq> l" using that(2) later by metis
    then show ?thesis using that(1) True by (simp add: fl' l)
  qed (use that in \<open>simp add: fl'\<close>)
  have K: "(re_seq \<circ> snd) ` set (fl_rob fl) \<inter> ?K = ?K" using sub(1) by blast
  have ev: "evolves v fl v' fl' ?K"
    unfolding evolves_def K
  proof (intro conjI allI impI)
    fix k e
    assume a: "(k, e) \<in> set (fl_rob fl) \<and> \<not> re_done e \<and> re_seq e \<in> ?K"
    then have "(k, e) \<in> set rest" using fin by (auto simp: rob)
    then show "\<exists>e'. (k, e') \<in> set (fl_rob fl') \<and> ekey e' = ekey e \<and> \<not> re_done e'" using a by (auto simp: fl')
  next
    fix j le
    assume "(j, le) \<in> set (fl_lsq fl) \<and> le_seq le \<in> ?K"
    then show "\<exists>le'. (j, le') \<in> set (fl_lsq fl') \<and> le_seq le' = le_seq le \<and> le_addrValid le' = le_addrValid le \<and>
        (le_reported le \<longrightarrow> le_reported le')"
      using lsq by blast
  qed (use i(1) step(1) in simp_all)
  have refs: "s \<in> ?K" if "(k, e) \<in> set (fl_rob fl)" "re_seq e = s" "\<not> re_done e" for k e s
    using that fin by (force simp: rob)
  show ?thesis
  proof (rule flight_inv_evolves [OF inv ev rob' pair mem])
    show "uniq_ok fl'" using i(7) by (simp add: uniq_ok_def fl')
    show "x \<in># fl_wb fl \<and> o_seq x \<in> ?K \<or> wb_op v' fl' x" if m: "x \<in># fl_wb fl'" for x
    proof -
      have "x \<in># fl_wb fl + fl_agu fl" "x \<in># fl_wb fl" using m by (simp_all add: fl')
      with op_refers [OF inv, of x] refs show ?thesis by metis
    qed
    show "x \<in># fl_agu fl \<and> o_seq x \<in> ?K \<or> agu_op v' fl' x" if m: "x \<in># fl_agu fl'" for x
    proof -
      have "x \<in># fl_wb fl + fl_agu fl" "x \<in># fl_agu fl" using m by (simp_all add: fl')
      with op_refers [OF inv, of x] refs show ?thesis by metis
    qed
    show "fl_iq fl k = Some (q, w1, w2) \<and> q_seq q \<in> ?K \<or> iq_op v' fl' k q w1 w2"
      if m: "fl_iq fl' k = Some (q, w1, w2)" for k q w1 w2
    proof -
      have "fl_iq fl k = Some (q, w1, w2)" using m by (simp add: fl')
      with iq_refers [OF inv this] refs show ?thesis by metis
    qed
  qed
qed


section \<open>Completion\<close>

text \<open>What the writeback of an operation does to its entry, and to the registers.\<close>

definition complete :: "fu_op \<Rightarrow> rob_entry \<Rightarrow> rob_entry" where
  "complete x e =
     (let e = e\<lparr>re_done := True\<rparr> in
      if re_isBranch e
      then e\<lparr>re_actualTaken := o_redirect x, re_actualTarget := (if o_redirect x then o_target x else re_pc e + 4)\<rparr>
      else e)"

definition written :: "fu_op \<Rightarrow> env \<Rightarrow> env" where
  "written x v =
     (if o_pdst x \<noteq> kNoReg
      then v\<lparr>ev_ready := (ev_ready v)[unat (o_pdst x) := True], ev_val := (ev_val v)[unat (o_pdst x) := o_value x]\<rparr>
      else v)"

definition completed :: "fu_op \<Rightarrow> flight \<Rightarrow> flight" where
  "completed x fl =
     fl\<lparr>fl_rob := upd_at (unat (o_robIdx x)) (complete x) (fl_rob fl), fl_wb := fl_wb fl - {#x#},
        fl_iq := (if o_pdst x \<noteq> kNoReg then map_option (wake_view (o_pdst x)) \<circ> fl_iq fl else fl_iq fl)\<rparr>"

lemma complete_sel [simp]:
  "ekey (complete x e) = ekey e" "re_done (complete x e)" "re_isMem (complete x e) = re_isMem e"
  "re_isSystem (complete x e) = re_isSystem e" "re_pdst (complete x e) = re_pdst e" "re_seq (complete x e) = re_seq e"
  "re_isBranch (complete x e) = re_isBranch e" "re_ins (complete x e) = re_ins e" "re_pc (complete x e) = re_pc e"
  by (simp_all add: complete_def ekey_def Let_def)

lemma iq_op_wake:
  assumes "iq_op v fl i q w1 w2"
    and "w1 \<Longrightarrow> \<not> w1' \<Longrightarrow> ev_ready v ! unat (q_ps1 q)" "w2 \<Longrightarrow> \<not> w2' \<Longrightarrow> ev_ready v ! unat (q_ps2 q)"
  shows "iq_op v fl i q w1' w2'"
proof -
  obtain e where e: "unat (q_robIdx q) = i" "(i, e) \<in> set (fl_rob fl)" "re_seq e = q_seq q" "\<not> re_done e"
    "\<not> re_isSystem e" "q_unit q = fuKindOf (opc e)" "q_ps1 q = ev_src v (re_seq e) (ins_rs1 (re_ins e))"
    "q_ps2 q = ev_src v (re_seq e) (ins_rs2 (re_ins e))"
    "usesRs1 (opc e) \<and> \<not> w1 \<longrightarrow> src_ready v (re_seq e) (ins_rs1 (re_ins e))"
    "usesRs2 (opc e) \<and> \<not> isStore (opc e) \<and> \<not> w2 \<longrightarrow> src_ready v (re_seq e) (ins_rs2 (re_ins e))"
    "re_isMem e \<longrightarrow> (\<exists>le. (unat (q_lsqIdx q), le) \<in> set (fl_lsq fl) \<and> le_seq le = q_seq q \<and> \<not> le_addrValid le)"
    using assms(1) unfolding iq_op_def by blast
  have "w1 \<Longrightarrow> \<not> w1' \<Longrightarrow> src_ready v (re_seq e) (ins_rs1 (re_ins e))"
    "w2 \<Longrightarrow> \<not> w2' \<Longrightarrow> src_ready v (re_seq e) (ins_rs2 (re_ins e))"
    using assms(2,3) unfolding e(7,8) src_ready_def by blast+
  then show ?thesis unfolding iq_op_def using e by blast
qed

lemma mset_del_left: "x \<in># A \<Longrightarrow> A + B - {#x#} = A - {#x#} + (B :: 'a multiset)"
  using diff_union_single_conv [of x A B] by (simp add: ac_simps)

lemma complete_inv:
  assumes inv: "flight_inv v fl" and x: "x \<in># fl_wb fl"
    and one: "\<And>i a j b. (i, a) \<in> set (fl_rob fl) \<Longrightarrow> (j, b) \<in> set (fl_rob fl) \<Longrightarrow> re_pdst a = re_pdst b \<Longrightarrow>
      re_pdst a \<noteq> kNoReg \<Longrightarrow> i = j"
    and len: "o_pdst x \<noteq> kNoReg \<Longrightarrow> unat (o_pdst x) < length (ev_ready v) \<and> unat (o_pdst x) < length (ev_val v)"
  shows "flight_inv (written x v) (completed x fl)"
proof -
  let ?v = "written x v" and ?fl = "completed x fl" and ?i = "unat (o_robIdx x)"
  note i = flight_invD [OF inv] and r = rob_okD [OF flight_invD(1) [OF inv]]
  obtain e where e: "o_valid x" "(?i, e) \<in> set (fl_rob fl)" "re_seq e = o_seq x" "\<not> re_done e"
    "\<not> re_isSystem e" "o_pdst x = re_pdst e"
    "if re_isMem e
      then isLoad (opc e) \<and> (\<exists>j le. (j, le) \<in> set (fl_lsq fl) \<and> le_seq le = o_seq x \<and> le_addrValid le \<and> le_reported le)
      else avail v e \<and> o_value x = x_value (outcome v e) \<and> o_redirect x = x_redirect (outcome v e) \<and>
        o_target x = x_target (outcome v e)"
    using i(4) [OF x] unfolding wb_op_def by blast
  have unready: "o_pdst x \<noteq> kNoReg \<Longrightarrow> \<not> ev_ready v ! unat (o_pdst x)"
    using r(6) [OF e(2)] e(4,6) by (simp add: ready_ok_def)
  have src: "ev_src ?v = ev_src v" by (simp add: written_def)
  have rdy: "ev_ready v ! p \<Longrightarrow> ev_ready ?v ! p" for p
    using len by (cases "p = unat (o_pdst x)") (auto simp: written_def)
  have step: "env_step v ?v S" for S
    unfolding env_step_def src_ready_def src using rdy unready
    by (auto simp: written_def nth_list_update_neq) (metis nth_list_update_neq)
  have pd: "re_pdst e \<noteq> kNoReg \<Longrightarrow> ev_ready ?v ! unat (re_pdst e) \<and> ev_val ?v ! unat (re_pdst e) = o_value x"
    using len by (simp add: written_def e(6))
  have seqs: "re_seq e \<in> (re_seq \<circ> snd) ` set (fl_rob fl)" using e(2) by force
  have rob: "rob_ok ?v ?fl"
  proof (rule rob_ok_upd [OF i(1) step _ e(2)])
    show "fl_rob ?fl = upd_at ?i (complete x) (fl_rob fl)" by (simp add: completed_def)
    show "sys_ok ?v (complete x e)" using e(5) by (simp add: sys_ok_def)
    show "ready_ok ?v (complete x e)" using pd by (simp add: ready_ok_def)
    show "done_ok ?v (complete x e)"
    proof (cases "re_isMem e")
      case False
      then have a: "avail v e" using e(7) by simp
      note o = outcome_step [OF step seqs r(3) [OF e(2)] a] and k = ekeyD [OF complete_sel(1) [of x e]]
      show ?thesis unfolding done_ok_def k using e(7) False o pd
        by (simp add: complete_def Let_def)
    qed (simp add: done_ok_def)
    show "ev_ready ?v ! unat (re_pdst a) = ev_ready v ! unat (re_pdst a)"
      if "(j, a) \<in> set (fl_rob fl)" "j \<noteq> ?i" "re_pdst a \<noteq> kNoReg" for j a
    proof -
      have "re_pdst a \<noteq> re_pdst e" using one [OF that(1) e(2) _ that(3)] that(2) by blast
      then have "unat (re_pdst a) \<noteq> unat (o_pdst x)" by (simp add: e(6) word_unat_eq_iff)
      then show ?thesis by (simp add: written_def)
    qed
  qed simp
  have pair: "pair_ok ?fl"
    by (rule pair_ok_upd [OF i(2), of _ ?i "complete x" 0 "\<lambda>l. l"]) (simp_all add: completed_def)
  have mem: "mem_ok ?v ?fl"
  proof (rule mem_ok_rob [OF i(3,1) step _ _ e(2)])
    show "mem_entry ?v (complete x e) le" if le: "(j, le) \<in> set (fl_lsq fl)" "le_seq le = re_seq e" for j le
    proof -
      obtain e' where e': "(unat (le_robIdx le), e') \<in> set (fl_rob fl)" "re_isMem e'" "le_seq le = re_seq e'"
        using lsq_to_rob [OF i(2) le(1)] by blast
      have "e' = e" using rob_seq_inj [OF i(1) e'(1) e(2)] e'(3) le(2) by simp
      then have m: "re_isMem e" using e'(2) by simp
      then obtain k l where l: "isLoad (opc e)" "(k, l) \<in> set (fl_lsq fl)" "le_seq l = o_seq x" "le_reported l"
        using e(7) by auto
      have "l = le" using lsq_seq_inj [OF i(1,2) l(2) le(1)] l(3) le(2) e(3) by simp
      then show ?thesis using l load_not_store by (simp add: mem_entry_def)
    qed
  qed (simp_all add: completed_def)
  let ?K = "- {o_seq x}"
  have ev: "evolves v fl ?v ?fl ?K"
    unfolding evolves_def
  proof (intro conjI allI impI)
    fix k a
    assume a: "(k, a) \<in> set (fl_rob fl) \<and> \<not> re_done a \<and> re_seq a \<in> ?K"
    then have "k \<noteq> ?i" using distinct_slots [OF r(1) _ e(2)] e(3) by auto
    then show "\<exists>e'. (k, e') \<in> set (fl_rob ?fl) \<and> ekey e' = ekey a \<and> \<not> re_done e'"
      using a by (intro exI [of _ a]) (simp add: completed_def upd_at_in)
  qed (use i(1) step in \<open>auto simp: completed_def\<close>)
  have xin: "x \<in># fl_wb fl + fl_agu fl" using x by simp
  show ?thesis
  proof (rule flight_inv_evolves [OF inv ev rob pair mem])
    show "y \<in># fl_wb fl \<and> o_seq y \<in> ?K \<or> wb_op ?v ?fl y" if m: "y \<in># fl_wb ?fl" for y
    proof -
      have y: "y \<in># fl_wb fl - {#x#}" using m by (simp add: completed_def)
      then have "y \<in># fl_wb fl + fl_agu fl - {#x#}" unfolding mset_del_left [OF x] union_iff ..
      then have "o_seq y \<noteq> o_seq x" by (rule uniq_removed [OF i(7) xin])
      then show ?thesis using in_diffD [OF y] by simp
    qed
    show "y \<in># fl_agu fl \<and> o_seq y \<in> ?K \<or> agu_op ?v ?fl y" if m: "y \<in># fl_agu ?fl" for y
    proof -
      have y: "y \<in># fl_agu fl" using m by (simp add: completed_def)
      then have "y \<in># fl_wb fl + fl_agu fl - {#x#}" unfolding mset_del_left [OF x] union_iff ..
      then have "o_seq y \<noteq> o_seq x" by (rule uniq_removed [OF i(7) xin])
      then show ?thesis using y by simp
    qed
    show "fl_iq fl k = Some (q, w1, w2) \<and> q_seq q \<in> ?K \<or> iq_op ?v ?fl k q w1 w2"
      if m: "fl_iq ?fl k = Some (q, w1, w2)" for k q w1 w2
    proof (cases "o_pdst x = kNoReg")
      case True
      then have q: "fl_iq fl k = Some (q, w1, w2)" using m by (simp add: completed_def)
      then show ?thesis using uniq_iq [OF i(7) xin q] by simp
    next
      case False
      then obtain u1 u2 where q: "fl_iq fl k = Some (q, u1, u2)"
        "w1 = (u1 \<and> q_ps1 q \<noteq> o_pdst x)" "w2 = (u2 \<and> q_ps2 q \<noteq> o_pdst x)"
        using m by (auto simp: completed_def wake_view_def)
      have "q_seq q \<in> ?K" using uniq_iq [OF i(7) xin q(1)] by simp
      note o = iq_op_evolves [OF ev i(6) [OF q(1)] this]
      have "ev_ready ?v ! unat (o_pdst x)" using pd False e(6) by simp
      then have "iq_op ?v ?fl k q w1 w2" using q(2,3) by (intro iq_op_wake [OF o]) auto
      then show ?thesis ..
    qed
    show "uniq_ok ?fl"
    proof (rule uniq_sub [OF i(7)])
      show "fl_wb ?fl + fl_agu ?fl \<subseteq># fl_wb fl + fl_agu fl" by (simp add: completed_def)
      show "\<exists>w1 w2. fl_iq fl k = Some (q, w1, w2)" if "fl_iq ?fl k = Some (q, w1, w2)" for k q w1 w2
        using that by (auto simp: completed_def wake_view_def split: if_splits)
    qed
  qed
qed

end
