(* ===== verification/Dataflow_Queues.thy ===== *)
theory Dataflow_Queues
  imports Dataflow_Moves
begin

text \<open>
  The moves of the load/store queue, of issue and of dispatch: an entry of the queue gets its
  address or its data or reports its value, an instruction leaves the issue queue for a unit, a
  new instruction enters.
\<close>

section \<open>The load/store queue\<close>

lemma wb_op_mem:
  assumes "wb_op v fl x"
  obtains e where "(unat (o_robIdx x), e) \<in> set (fl_rob fl)" "re_seq e = o_seq x"
    "re_isMem e \<Longrightarrow> isLoad (opc e)"
    "re_isMem e \<Longrightarrow> \<exists>j le. (j, le) \<in> set (fl_lsq fl) \<and> le_seq le = o_seq x \<and> le_reported le"
proof -
  obtain e where e: "(unat (o_robIdx x), e) \<in> set (fl_rob fl)" "re_seq e = o_seq x"
    "if re_isMem e
      then isLoad (opc e) \<and> (\<exists>j le. (j, le) \<in> set (fl_lsq fl) \<and> le_seq le = o_seq x \<and> le_addrValid le \<and> le_reported le)
      else avail v e \<and> o_value x = x_value (outcome v e) \<and> o_redirect x = x_redirect (outcome v e) \<and>
        o_target x = x_target (outcome v e)"
    using assms unfolding wb_op_def by blast
  show thesis by (rule that [OF e(1,2)]) (use e(3) in auto)
qed

text \<open>
  An entry of the load/store queue and the one of its instruction change together.  The operations
  in flight for that instruction are looked at separately, unless nothing they rest on changes.
\<close>

lemma mem_update_inv:
  assumes inv: "flight_inv v fl"
    and e0: "(i, e0) \<in> set (fl_rob fl)" and le0: "(j, le0) \<in> set (fl_lsq fl)" and seq: "le_seq le0 = re_seq e0"
    and f: "ekey (f e0) = ekey e0" "re_done (f e0) \<Longrightarrow> re_done e0 \<or> isStore (opc e0)" "re_done e0 \<Longrightarrow> re_done (f e0)"
    and g: "lkey (j, g le0) = lkey (j, le0)"
    and mem: "mem_entry v (f e0) (g le0)"
    and fl': "fl_rob fl' = upd_at i f (fl_rob fl)" "fl_lsq fl' = upd_at j g (fl_lsq fl)"
    and K: "re_seq e0 \<in> K \<Longrightarrow> re_done (f e0) = re_done e0 \<and> le_addrValid (g le0) = le_addrValid le0 \<and>
      (le_reported le0 \<longrightarrow> le_reported (g le0))"
    and ops: "\<And>x. x \<in># fl_wb fl' \<Longrightarrow> x \<in># fl_wb fl \<and> o_seq x \<in> K \<or> wb_op v fl' x"
      "\<And>x. x \<in># fl_agu fl' \<Longrightarrow> x \<in># fl_agu fl \<and> o_seq x \<in> K"
      "\<And>k q w1 w2. fl_iq fl' k = Some (q, w1, w2) \<Longrightarrow> fl_iq fl k = Some (q, w1, w2) \<and> q_seq q \<in> K"
    and uniq: "uniq_ok fl'"
  shows "flight_inv v fl'"
proof -
  note i = flight_invD [OF inv] and r = rob_okD [OF flight_invD(1) [OF inv]]
  have m: "re_isMem e0"
  proof -
    obtain e where e: "(unat (le_robIdx le0), e) \<in> set (fl_rob fl)" "re_isMem e" "le_seq le0 = re_seq e"
      using lsq_to_rob [OF i(2) le0] by blast
    have "e = e0" using rob_seq_inj [OF i(1) e(1) e0] e(3) seq by simp
    then show ?thesis using e(2) by simp
  qed
  note k = ekeyD [OF f(1)] and st = r(3) [OF e0]
  have nosys: "\<not> re_isSystem e0" using st m by (auto simp: entry_static_def fuKindOf_def)
  have store: "isStore (opc e0) \<Longrightarrow> re_pdst e0 = kNoReg" using st by (simp add: entry_static_def writesRd_def)
  have rob: "rob_ok v fl'"
  proof (rule rob_ok_upd [OF i(1) env_step_refl fl'(1) e0 f(1)])
    show "done_ok v (f e0)" using m by (simp add: done_ok_def k)
    show "sys_ok v (f e0)" using nosys by (simp add: sys_ok_def k)
    show "ready_ok v (f e0)" using r(6) [OF e0] f(2,3) store by (auto simp: ready_ok_def k)
  qed simp
  have onlyi: "e = e0" if "(i, e) \<in> set (fl_rob fl)" for e using distinct_slots [OF r(1) that e0] .
  have dl: "distinct (map fst (fl_lsq fl))" using i(2) by (simp add: pair_ok_def)
  have onlyj: "le = le0" if "(j, le) \<in> set (fl_lsq fl)" for le using distinct_slots [OF dl that le0] .
  have pair: "pair_ok fl'"
    by (rule pair_ok_upd [OF i(2) fl']) (use onlyi onlyj f(1) g in blast)+
  have gseq: "le_seq (g le0) = le_seq le0" using g by (simp add: lkey_def)
  have mem': "mem_ok v fl'"
    unfolding mem_ok_def
  proof (clarify)
    fix k e l le
    assume a: "(k, e) \<in> set (fl_rob fl')" "(l, le) \<in> set (fl_lsq fl')" "le_seq le = re_seq e"
    obtain a where ea: "(k, a) \<in> set (fl_rob fl)" "e = (if k = i then f a else a)"
      using a(1) unfolding fl' upd_at_in by blast
    obtain b where lb: "(l, b) \<in> set (fl_lsq fl)" "le = (if l = j then g b else b)"
      using a(2) unfolding fl' upd_at_in by blast
    have sa: "re_seq e = re_seq a" using ea onlyi ekeyD(1) [OF f(1)] by (cases "k = i") auto
    have sb: "le_seq le = le_seq b" using lb onlyj gseq by (cases "l = j") auto
    show "mem_entry v e le"
    proof (cases "re_seq a = re_seq e0")
      case True
      then have "k = i \<and> a = e0" using rob_seq_inj [OF i(1) ea(1) e0] by blast
      moreover have "l = j \<and> b = le0"
        by (rule lsq_seq_inj [OF i(1,2) lb(1) le0]) (use True a(3) sa sb seq in simp)
      ultimately show ?thesis using mem ea lb by simp
    next
      case False
      then have "k \<noteq> i" "l \<noteq> j" using ea(1) onlyi lb(1) onlyj a(3) sa sb seq by auto
      then show ?thesis using i(3) ea lb a(3) by (auto simp: mem_ok_def)
    qed
  qed
  have ev: "evolves v fl v fl' K"
    unfolding evolves_def
  proof (intro conjI allI impI)
    fix k e
    assume a: "(k, e) \<in> set (fl_rob fl) \<and> \<not> re_done e \<and> re_seq e \<in> K"
    show "\<exists>e'. (k, e') \<in> set (fl_rob fl') \<and> ekey e' = ekey e \<and> \<not> re_done e'"
    proof (cases "k = i")
      case True
      then have "e = e0" using a onlyi by blast
      then show ?thesis using a True K f(1) unfolding fl' upd_at_in by (intro exI [of _ "f e0"]) auto
    next
      case False
      then show ?thesis using a unfolding fl' upd_at_in by (intro exI [of _ e]) auto
    qed
  next
    fix k le
    assume a: "(k, le) \<in> set (fl_lsq fl) \<and> le_seq le \<in> K"
    show "\<exists>le'. (k, le') \<in> set (fl_lsq fl') \<and> le_seq le' = le_seq le \<and> le_addrValid le' = le_addrValid le \<and>
        (le_reported le \<longrightarrow> le_reported le')"
    proof (cases "k = j")
      case True
      then have "le = le0" using a onlyj by blast
      then show ?thesis using a True K gseq seq unfolding fl' upd_at_in by (intro exI [of _ "g le0"]) auto
    next
      case False
      then show ?thesis using a unfolding fl' upd_at_in by (intro exI [of _ le]) auto
    qed
  qed (simp_all add: i(1))
  show ?thesis
    by (rule flight_inv_evolves [OF inv ev rob pair mem' _ _ _ uniq]) (use ops in blast)+
qed

text \<open>The address arrives.\<close>

definition addressed :: "fu_op \<Rightarrow> (rob_entry \<Rightarrow> rob_entry) \<Rightarrow> flight \<Rightarrow> flight" where
  "addressed x f fl =
     fl\<lparr>fl_rob := upd_at (unat (o_robIdx x)) f (fl_rob fl), fl_agu := fl_agu fl - {#x#},
        fl_lsq := upd_at (unat (o_lsqIdx x))
          (\<lambda>le. le\<lparr>le_addr := o_value x, le_size := ucast (accessSize (le_op le)), le_addrValid := True\<rparr>) (fl_lsq fl)\<rparr>"

lemma agu_opE:
  assumes "flight_inv v fl" "x \<in># fl_agu fl"
  obtains e le where "(unat (o_robIdx x), e) \<in> set (fl_rob fl)" "re_seq e = o_seq x" "\<not> re_done e" "re_isMem e"
    "src_ready v (re_seq e) (ins_rs1 (re_ins e))" "o_value x = addr_of v e"
    "(unat (o_lsqIdx x), le) \<in> set (fl_lsq fl)" "le_seq le = re_seq e" "\<not> le_addrValid le" "le_op le = opc e"
    "le_isStore le = isStore (opc e)" "le_robIdx le = o_robIdx x" "le_pc le = re_pc e" "o_valid x"
proof -
  note i = flight_invD [OF assms(1)]
  obtain e le where e: "o_valid x" "(unat (o_robIdx x), e) \<in> set (fl_rob fl)" "re_seq e = o_seq x" "\<not> re_done e"
    "re_isMem e" "src_ready v (re_seq e) (ins_rs1 (re_ins e))" "o_value x = addr_of v e"
    "(unat (o_lsqIdx x), le) \<in> set (fl_lsq fl)" "le_seq le = o_seq x" "\<not> le_addrValid le"
    using i(5) [OF assms(2)] unfolding agu_op_def by blast
  obtain e' where e': "(unat (le_robIdx le), e') \<in> set (fl_rob fl)" "le_seq le = re_seq e'" "le_op le = opc e'"
    "le_isStore le = isStore (opc e')" "le_pc le = re_pc e'"
    using lsq_to_rob [OF i(2) e(8)] by blast
  have "unat (le_robIdx le) = unat (o_robIdx x) \<and> e' = e"
    by (rule rob_seq_inj [OF i(1) e'(1) e(2)]) (use e e' in simp)
  then show thesis using e e' that by (simp add: word_unat_eq_iff)
qed

lemma resolve_inv:
  assumes inv: "flight_inv v fl" and x: "x \<in># fl_agu fl"
    and f: "\<And>e le. (unat (o_robIdx x), e) \<in> set (fl_rob fl) \<Longrightarrow> (unat (o_lsqIdx x), le) \<in> set (fl_lsq fl) \<Longrightarrow>
      le_op le = opc e \<Longrightarrow> ekey (f e) = ekey e \<and> (re_done (f e) \<longleftrightarrow> re_done e \<or> isStore (opc e) \<and> le_dataReady le)"
  shows "flight_inv v (addressed x f fl)"
proof -
  note i = flight_invD [OF inv]
  obtain e le where e: "(unat (o_robIdx x), e) \<in> set (fl_rob fl)" "re_seq e = o_seq x" "\<not> re_done e" "re_isMem e"
    "src_ready v (re_seq e) (ins_rs1 (re_ins e))" "o_value x = addr_of v e"
    "(unat (o_lsqIdx x), le) \<in> set (fl_lsq fl)" "le_seq le = re_seq e" "\<not> le_addrValid le" "le_op le = opc e"
    "le_isStore le = isStore (opc e)"
    using agu_opE [OF inv x] by metis
  let ?g = "\<lambda>le. le\<lparr>le_addr := o_value x, le_size := ucast (accessSize (le_op le)), le_addrValid := True\<rparr>"
  let ?fl = "addressed x f fl" and ?K = "- {o_seq x}"
  note fe = f [OF e(1,7,10)]
  note k = ekeyD [OF conjunct1 [OF fe]]
  have xin: "x \<in># fl_wb fl + fl_agu fl" using x by simp
  have del: "fl_wb fl + fl_agu fl - {#x#} = fl_wb fl + (fl_agu fl - {#x#})"
    by (rule diff_union_single_conv [OF x])
  have old: "mem_entry v e le" using i(3) e(1,7,8) by (auto simp: mem_ok_def)
  show ?thesis
  proof (rule mem_update_inv [OF inv e(1,7,8), of f ?g ?fl ?K])
    show "mem_entry v (f e) (?g le)"
      using old fe e(3,5,6,10) by (auto simp: mem_entry_def k)
    show "re_seq e \<in> ?K \<Longrightarrow> re_done (f e) = re_done e \<and> le_addrValid (?g le) = le_addrValid le \<and>
        (le_reported le \<longrightarrow> le_reported (?g le))"
      using e(2) by simp
    show "y \<in># fl_wb fl \<and> o_seq y \<in> ?K \<or> wb_op v ?fl y" if m: "y \<in># fl_wb ?fl" for y
    proof -
      have y: "y \<in># fl_wb fl" using m by (simp add: addressed_def)
      then have "y \<in># fl_wb fl + fl_agu fl - {#x#}" unfolding del union_iff ..
      then show ?thesis using uniq_removed [OF i(7) xin] y by simp
    qed
    show "y \<in># fl_agu fl \<and> o_seq y \<in> ?K" if m: "y \<in># fl_agu ?fl" for y
    proof -
      have y: "y \<in># fl_agu fl - {#x#}" using m by (simp add: addressed_def)
      then have "y \<in># fl_wb fl + fl_agu fl - {#x#}" unfolding del union_iff ..
      then have "o_seq y \<noteq> o_seq x" by (rule uniq_removed [OF i(7) xin])
      then show ?thesis using in_diffD [OF y] by simp
    qed
    show "fl_iq fl k = Some (q, w1, w2) \<and> q_seq q \<in> ?K" if m: "fl_iq ?fl k = Some (q, w1, w2)" for k q w1 w2
    proof -
      have "fl_iq fl k = Some (q, w1, w2)" using m by (simp add: addressed_def)
      then show ?thesis using uniq_iq [OF i(7) xin] by simp
    qed
    show "uniq_ok ?fl"
    proof (rule uniq_sub [OF i(7)])
      show "fl_wb ?fl + fl_agu ?fl \<subseteq># fl_wb fl + fl_agu fl" by (simp add: addressed_def)
    qed (simp add: addressed_def)
  qed (use fe e in \<open>auto simp: addressed_def lkey_def\<close>)
qed

text \<open>The data of a store arrives.\<close>

definition captured :: "nat \<Rightarrow> u32 \<Rightarrow> nat \<Rightarrow> (rob_entry \<Rightarrow> rob_entry) \<Rightarrow> flight \<Rightarrow> flight" where
  "captured j d i f fl =
     fl\<lparr>fl_rob := upd_at i f (fl_rob fl),
        fl_lsq := upd_at j (\<lambda>le. le\<lparr>le_data := d, le_dataReady := True\<rparr>) (fl_lsq fl)\<rparr>"

lemma capture_inv:
  assumes inv: "flight_inv v fl" and le: "(j, le) \<in> set (fl_lsq fl)" "le_isStore le" "ev_ready v ! unat (le_dataPreg le)"
    and f: "\<And>e. (unat (le_robIdx le), e) \<in> set (fl_rob fl) \<Longrightarrow>
      ekey (f e) = ekey e \<and> (re_done (f e) \<longleftrightarrow> re_done e \<or> le_addrValid le)"
  shows "flight_inv v (captured j (ev_val v ! unat (le_dataPreg le)) (unat (le_robIdx le)) f fl)"
proof -
  note i = flight_invD [OF inv]
  obtain e where e: "(unat (le_robIdx le), e) \<in> set (fl_rob fl)" "re_isMem e" "le_seq le = re_seq e"
    "le_isStore le = isStore (opc e)"
    using lsq_to_rob [OF i(2) le(1)] by blast
  let ?d = "ev_val v ! unat (le_dataPreg le)"
  let ?g = "\<lambda>le. le\<lparr>le_data := ?d, le_dataReady := True\<rparr>" and ?fl = "captured j ?d (unat (le_robIdx le)) f fl"
  let ?K = "{s. le_addrValid le \<longrightarrow> s \<noteq> re_seq e}"
  note fe = f [OF e(1)]
  note k = ekeyD [OF conjunct1 [OF fe]]
  have old: "mem_entry v e le" using i(3) le(1) e(1,3) by (auto simp: mem_ok_def)
  have st: "isStore (opc e)" using le(2) e(4) by simp
  have src: "le_dataPreg le = ev_src v (re_seq e) (ins_rs2 (re_ins e))" using old st by (simp add: mem_entry_def)
  have noload: "\<not> isLoad (opc e)" using st load_not_store by blast
  show ?thesis
  proof (rule mem_update_inv [OF inv e(1) le(1) e(3), of f ?g ?fl ?K])
    show "mem_entry v (f e) (?g le)"
      using old fe st le(3) by (auto simp: mem_entry_def k src_ready_def opnd_def simp flip: src)
    show "x \<in># fl_wb fl \<and> o_seq x \<in> ?K \<or> wb_op v ?fl x" if m: "x \<in># fl_wb ?fl" for x
    proof -
      have x: "x \<in># fl_wb fl" using m by (simp add: captured_def)
      obtain e' where e': "(unat (o_robIdx x), e') \<in> set (fl_rob fl)" "re_seq e' = o_seq x"
        "re_isMem e' \<Longrightarrow> isLoad (opc e')"
        using wb_op_mem [OF i(4) [OF x]] by metis
      have "o_seq x \<noteq> re_seq e" using rob_seq_inj [OF i(1) e'(1) e(1)] e'(2,3) e(2) noload by auto
      then show ?thesis using x by simp
    qed
    show "x \<in># fl_agu fl \<and> o_seq x \<in> ?K" if m: "x \<in># fl_agu ?fl" for x
    proof -
      have x: "x \<in># fl_agu fl" using m by (simp add: captured_def)
      obtain l where l: "(unat (o_lsqIdx x), l) \<in> set (fl_lsq fl)" "le_seq l = o_seq x" "\<not> le_addrValid l"
        using i(5) [OF x] unfolding agu_op_def by blast
      have "o_seq x = re_seq e \<Longrightarrow> l = le" using lsq_seq_inj [OF i(1,2) l(1) le(1)] l(2) e(3) by simp
      then show ?thesis using x l(3) by auto
    qed
    show "fl_iq fl k = Some (q, w1, w2) \<and> q_seq q \<in> ?K" if m: "fl_iq ?fl k = Some (q, w1, w2)" for k q w1 w2
    proof -
      have q: "fl_iq fl k = Some (q, w1, w2)" using m by (simp add: captured_def)
      obtain e' where e': "(k, e') \<in> set (fl_rob fl)" "re_seq e' = q_seq q"
        "re_isMem e' \<longrightarrow> (\<exists>l. (unat (q_lsqIdx q), l) \<in> set (fl_lsq fl) \<and> le_seq l = q_seq q \<and> \<not> le_addrValid l)"
        using i(6) [OF q] unfolding iq_op_def by blast
      have "q_seq q = re_seq e \<Longrightarrow> \<not> le_addrValid le"
        using rob_seq_inj [OF i(1) e'(1) e(1)] e'(2,3) e(2,3) lsq_seq_inj [OF i(1,2) _ le(1)] by metis
      then show ?thesis using q by auto
    qed
    show "uniq_ok ?fl" using i(7) by (simp add: uniq_ok_def captured_def)
  qed (use fe st in \<open>auto simp: captured_def lkey_def\<close>)
qed

text \<open>A load reports its value to the writeback ports.\<close>

definition surfaced :: "nat \<Rightarrow> fu_op \<Rightarrow> flight \<Rightarrow> flight" where
  "surfaced j x fl =
     fl\<lparr>fl_wb := add_mset x (fl_wb fl), fl_lsq := upd_at j (\<lambda>le. le\<lparr>le_reported := True\<rparr>) (fl_lsq fl)\<rparr>"

lemma surface_inv:
  assumes inv: "flight_inv v fl" and le: "(j, le) \<in> set (fl_lsq fl)" "\<not> le_isStore le" "le_addrValid le" "\<not> le_reported le"
    and x: "o_valid x" "o_seq x = le_seq le" "o_robIdx x = le_robIdx le" "o_pdst x = le_pdst le"
  shows "flight_inv v (surfaced j x fl)"
proof -
  note i = flight_invD [OF inv]
  obtain e where e: "(unat (le_robIdx le), e) \<in> set (fl_rob fl)" "re_isMem e" "le_seq le = re_seq e"
    "le_isStore le = isStore (opc e)" "le_pdst le = re_pdst e"
    using lsq_to_rob [OF i(2) le(1)] by blast
  let ?g = "\<lambda>le. le\<lparr>le_reported := True\<rparr>" and ?fl = "surfaced j x fl"
  have st: "entry_static e" by (rule rob_okD(3) [OF i(1) e(1)])
  have ld: "\<not> isStore (opc e)" "isLoad (opc e)" using le(2) e(2,4) st by (simp_all add: entry_static_def)
  have nosys: "\<not> re_isSystem e" using st ld by (simp add: entry_static_def fuKindOf_def)
  have old: "mem_entry v e le" using i(3) le(1) e(1,3) by (auto simp: mem_ok_def)
  then have undone: "\<not> re_done e" using ld le(4) by (auto simp: mem_entry_def)
  have other: "o_seq y \<noteq> o_seq x" if "y \<in># fl_wb fl + fl_agu fl" for y
  proof
    assume s: "o_seq y = o_seq x"
    consider "y \<in># fl_wb fl" | "y \<in># fl_agu fl" using \<open>y \<in># fl_wb fl + fl_agu fl\<close> by auto
    then show False
    proof cases
      case 1
      obtain e' where e': "(unat (o_robIdx y), e') \<in> set (fl_rob fl)" "re_seq e' = o_seq y"
        "re_isMem e' \<Longrightarrow> \<exists>j le. (j, le) \<in> set (fl_lsq fl) \<and> le_seq le = o_seq y \<and> le_reported le"
        using wb_op_mem [OF i(4) [OF 1]] by metis
      have "e' = e" using rob_seq_inj [OF i(1) e'(1) e(1)] e'(2) s x(2) e(3) by simp
      then obtain k l where l: "(k, l) \<in> set (fl_lsq fl)" "le_seq l = o_seq y" "le_reported l" using e'(3) e(2) by blast
      then have "l = le" using lsq_seq_inj [OF i(1,2) l(1) le(1)] s x(2) by simp
      then show False using l(3) le(4) by simp
    next
      case 2
      obtain l where l: "(unat (o_lsqIdx y), l) \<in> set (fl_lsq fl)" "le_seq l = o_seq y" "\<not> le_addrValid l"
        using i(5) [OF 2] unfolding agu_op_def by blast
      have "l = le" using lsq_seq_inj [OF i(1,2) l(1) le(1)] l(2) s x(2) by simp
      then show False using l(3) le(3) by simp
    qed
  qed
  have new: "wb_op v ?fl x"
    unfolding wb_op_def
  proof (intro conjI exI [of _ e])
    have "(j, ?g le) \<in> set (fl_lsq ?fl)" using le(1) by (auto simp: surfaced_def upd_at_in)
    then show "if re_isMem e then isLoad (opc e) \<and> (\<exists>j le. (j, le) \<in> set (fl_lsq ?fl) \<and> le_seq le = o_seq x \<and>
        le_addrValid le \<and> le_reported le) else avail v e \<and> o_value x = x_value (outcome v e) \<and>
        o_redirect x = x_redirect (outcome v e) \<and> o_target x = x_target (outcome v e)"
      using e(2) ld(2) x(2) le(3) by force
  qed (use e x undone nosys in \<open>simp_all add: surfaced_def\<close>)
  show ?thesis
  proof (rule mem_update_inv [OF inv e(1) le(1) e(3), of "\<lambda>e. e" ?g ?fl UNIV])
    show "mem_entry v e (?g le)" using old ld by (simp add: mem_entry_def)
    show "uniq_ok ?fl"
    proof (rule uniq_add [OF i(7), of _ x])
      show "q_seq q \<noteq> o_seq x \<and> (\<exists>w1 w2. fl_iq fl k = Some (q, w1, w2))" if m: "fl_iq ?fl k = Some (q, w1, w2)"
        for k q w1 w2
      proof -
        have q: "fl_iq fl k = Some (q, w1, w2)" using m by (simp add: surfaced_def)
        obtain e' where e': "(k, e') \<in> set (fl_rob fl)" "re_seq e' = q_seq q"
          "re_isMem e' \<longrightarrow> (\<exists>l. (unat (q_lsqIdx q), l) \<in> set (fl_lsq fl) \<and> le_seq l = q_seq q \<and> \<not> le_addrValid l)"
          using i(6) [OF q] unfolding iq_op_def by blast
        have "q_seq q \<noteq> re_seq e"
          using rob_seq_inj [OF i(1) e'(1) e(1)] e'(2,3) e(2,3) lsq_seq_inj [OF i(1,2) _ le(1)] le(3) by metis
        then show ?thesis using q x(2) e(3) by simp
      qed
    qed (simp_all add: surfaced_def other)
    show "y \<in># fl_wb fl \<and> o_seq y \<in> UNIV \<or> wb_op v ?fl y" if "y \<in># fl_wb ?fl" for y
      using that new by (auto simp: surfaced_def)
  qed (simp_all add: surfaced_def lkey_def)
qed

text \<open>A change of a load that concerns the memory port only.\<close>

lemma touch_inv:
  assumes inv: "flight_inv v fl"
    and g: "\<And>le. (j, le) \<in> set (fl_lsq fl) \<Longrightarrow> lkey (j, g le) = lkey (j, le) \<and> \<not> le_isStore le \<and>
      le_addrValid (g le) = le_addrValid le \<and> le_reported (g le) = le_reported le"
  shows "flight_inv v (fl\<lparr>fl_lsq := upd_at j g (fl_lsq fl)\<rparr>)"
proof (cases "\<exists>le. (j, le) \<in> set (fl_lsq fl)")
  case True
  then obtain le where le: "(j, le) \<in> set (fl_lsq fl)" by blast
  note i = flight_invD [OF inv] and gle = g [OF le]
  obtain e where e: "(unat (le_robIdx le), e) \<in> set (fl_rob fl)" "le_seq le = re_seq e" "le_isStore le = isStore (opc e)"
    using lsq_to_rob [OF i(2) le] by blast
  let ?fl = "fl\<lparr>fl_lsq := upd_at j g (fl_lsq fl)\<rparr>"
  have old: "mem_entry v e le" using i(3) le e(1,2) by (auto simp: mem_ok_def)
  show ?thesis
  proof (rule mem_update_inv [OF inv e(1) le e(2), of "\<lambda>e. e" g ?fl UNIV])
    show "mem_entry v e (g le)" using old gle e(3) by (simp add: mem_entry_def)
    show "uniq_ok ?fl" using i(7) by (simp add: uniq_ok_def)
  qed (use gle in simp_all)
next
  case False
  then have "upd_at j g (fl_lsq fl) = fl_lsq fl" by (auto simp: upd_at_def intro!: map_idI)
  then show ?thesis using inv by simp
qed


section \<open>Issue\<close>

lemma execute_mem:
  assumes "isLoad (ins_op I) \<or> isStore (ins_op I)"
  shows "x_value (the (execute I pc a b)) = a + ins_imm I"
  using assms by (cases "ins_op I") (auto simp: isLoad_iff isStore_iff execute_def execute_op_def value_of_def result0_def
      isBranch_iff Let_def split: option.splits)

lemma mem_usesRs1: "isLoad x \<or> isStore x \<Longrightarrow> usesRs1 x"
  by (cases x) (auto simp: isLoad_iff isStore_iff usesRs1_def)

definition issued :: "nat \<Rightarrow> fuKind \<Rightarrow> fu_op \<Rightarrow> flight \<Rightarrow> flight" where
  "issued i k x fl =
     (let fl = fl\<lparr>fl_iq := (fl_iq fl)(i := None)\<rparr> in
      if k = FU_LSU then fl\<lparr>fl_agu := add_mset x (fl_agu fl)\<rparr> else fl\<lparr>fl_wb := add_mset x (fl_wb fl)\<rparr>)"

lemma issued_sel [simp]:
  "fl_rob (issued i k x fl) = fl_rob fl" "fl_lsq (issued i k x fl) = fl_lsq fl"
  "fl_iq (issued i k x fl) = (fl_iq fl)(i := None)"
  "fl_wb (issued i k x fl) = (if k = FU_LSU then fl_wb fl else add_mset x (fl_wb fl))"
  "fl_agu (issued i k x fl) = (if k = FU_LSU then add_mset x (fl_agu fl) else fl_agu fl)"
  by (simp_all add: issued_def Let_def)

lemma issue_inv:
  assumes inv: "flight_inv v fl" and q: "fl_iq fl i = Some (q, False, False)"
    and x: "o_valid x" "o_seq x = q_seq q" "o_robIdx x = q_robIdx q" "o_lsqIdx x = q_lsqIdx q"
    and res: "\<And>e. (i, e) \<in> set (fl_rob fl) \<Longrightarrow> o_pdst x = re_pdst e \<and>
      (let r = the (execute (re_ins e) (re_pc e) (ev_val v ! unat (q_ps1 q)) (ev_val v ! unat (q_ps2 q))) in
       o_value x = x_value r \<and> o_redirect x = x_redirect r \<and> o_target x = x_target r)"
  shows "flight_inv v (issued i (q_unit q) x fl)"
proof -
  note i = flight_invD [OF inv]
  let ?fl = "issued i (q_unit q) x fl"
  obtain e where e: "unat (q_robIdx q) = i" "(i, e) \<in> set (fl_rob fl)" "re_seq e = q_seq q" "\<not> re_done e"
    "\<not> re_isSystem e" "q_unit q = fuKindOf (opc e)" "q_ps1 q = ev_src v (re_seq e) (ins_rs1 (re_ins e))"
    "q_ps2 q = ev_src v (re_seq e) (ins_rs2 (re_ins e))"
    "usesRs1 (opc e) \<longrightarrow> src_ready v (re_seq e) (ins_rs1 (re_ins e))"
    "usesRs2 (opc e) \<and> \<not> isStore (opc e) \<longrightarrow> src_ready v (re_seq e) (ins_rs2 (re_ins e))"
    "re_isMem e \<longrightarrow> (\<exists>le. (unat (q_lsqIdx q), le) \<in> set (fl_lsq fl) \<and> le_seq le = q_seq q \<and> \<not> le_addrValid le)"
    using i(6) [OF q] unfolding iq_op_def by blast
  have st: "entry_static e" by (rule rob_okD(3) [OF i(1) e(2)])
  then have lsu: "q_unit q = FU_LSU \<longleftrightarrow> re_isMem e" "re_isMem e = (isLoad (opc e) \<or> isStore (opc e))"
    by (auto simp: entry_static_def e(6) fuKindOf_def split: op.splits)
  have out: "o_pdst x = re_pdst e" "o_value x = x_value (outcome v e)" "o_redirect x = x_redirect (outcome v e)"
    "o_target x = x_target (outcome v e)"
    using res [OF e(2)] by (simp_all add: outcome_def opnd_def e(7,8) Let_def)
  have idx: "(unat (o_robIdx x), e) \<in> set (fl_rob fl)" using e(1,2) x(3) by simp
  have new_agu: "agu_op v ?fl x" if m: "re_isMem e"
    unfolding agu_op_def
  proof (intro conjI exI [of _ e])
    show "o_value x = addr_of v e"
      using out(2) m lsu(2) by (simp add: outcome_def addr_of_def execute_mem)
    show "src_ready v (re_seq e) (ins_rs1 (re_ins e))" using e(9) m lsu(2) mem_usesRs1 by blast
    show "\<exists>le. (unat (o_lsqIdx x), le) \<in> set (fl_lsq ?fl) \<and> le_seq le = o_seq x \<and> \<not> le_addrValid le"
      using e(11) m x(2,4) by simp
  qed (use x e idx m in simp_all)
  have new_wb: "wb_op v ?fl x" if m: "\<not> re_isMem e"
    unfolding wb_op_def
  proof (intro conjI exI [of _ e])
    show "if re_isMem e then isLoad (opc e) \<and> (\<exists>j le. (j, le) \<in> set (fl_lsq ?fl) \<and> le_seq le = o_seq x \<and>
        le_addrValid le \<and> le_reported le) else avail v e \<and> o_value x = x_value (outcome v e) \<and>
        o_redirect x = x_redirect (outcome v e) \<and> o_target x = x_target (outcome v e)"
      using m e(9,10) out lsu(2) by (simp add: avail_def)
  qed (use x e idx out in simp_all)
  have ev: "evolves v fl v ?fl UNIV" using i(1) by (auto simp: evolves_def)
  have other: "o_seq y \<noteq> o_seq x" if "y \<in># fl_wb fl + fl_agu fl" for y
    using uniq_iq [OF i(7) that q] x(2) by simp
  show ?thesis
  proof (rule flight_inv_evolves [OF inv ev])
    show "rob_ok v ?fl" using i(1) by (simp add: rob_ok_def)
    show "pair_ok ?fl" using i(2) by (simp add: pair_ok_def)
    show "mem_ok v ?fl" using i(3) by (simp add: mem_ok_def)
    show "y \<in># fl_wb fl \<and> o_seq y \<in> UNIV \<or> wb_op v ?fl y" if "y \<in># fl_wb ?fl" for y
      using that new_wb lsu(1) by (auto split: if_splits)
    show "y \<in># fl_agu fl \<and> o_seq y \<in> UNIV \<or> agu_op v ?fl y" if "y \<in># fl_agu ?fl" for y
      using that new_agu lsu(1) by (auto split: if_splits)
    show "fl_iq fl k = Some (p, w1, w2) \<and> q_seq p \<in> UNIV \<or> iq_op v ?fl k p w1 w2"
      if "fl_iq ?fl k = Some (p, w1, w2)" for k p w1 w2
      using that by (auto split: if_splits)
    show "uniq_ok ?fl"
    proof (rule uniq_add [OF i(7), of _ x])
      show "fl_wb ?fl + fl_agu ?fl = add_mset x (fl_wb fl + fl_agu fl)" by simp
      show "q_seq p \<noteq> o_seq x \<and> (\<exists>w1 w2. fl_iq fl k = Some (p, w1, w2))" if m: "fl_iq ?fl k = Some (p, w1, w2)"
        for k p w1 w2
      proof -
        have p: "k \<noteq> i" "fl_iq fl k = Some (p, w1, w2)" using m by (simp_all split: if_splits)
        obtain e' where e': "(k, e') \<in> set (fl_rob fl)" "re_seq e' = q_seq p"
          using iq_refers [OF inv p(2)] by blast
        have "q_seq p \<noteq> q_seq q" using rob_seq_inj [OF i(1) e'(1) e(2)] e'(2) e(3) p(1) by auto
        then show ?thesis using p(2) x(2) by auto
      qed
    qed (rule other)
  qed
qed

section \<open>Dispatch\<close>

definition entered_flight ::
  "nat \<times> rob_entry \<Rightarrow> (nat \<times> lsq_entry) list \<Rightarrow> (iq_entry \<times> bool \<times> bool) option \<Rightarrow> flight \<Rightarrow> flight" where
  "entered_flight x ls q fl =
     fl\<lparr>fl_rob := fl_rob fl @ [x], fl_lsq := fl_lsq fl @ ls,
        fl_iq := (case q of None \<Rightarrow> fl_iq fl | Some e \<Rightarrow> (fl_iq fl)(fst x \<mapsto> e))\<rparr>"

lemma entered_flight_sel [simp]:
  "fl_rob (entered_flight x ls q fl) = fl_rob fl @ [x]" "fl_lsq (entered_flight x ls q fl) = fl_lsq fl @ ls"
  "fl_wb (entered_flight x ls q fl) = fl_wb fl" "fl_agu (entered_flight x ls q fl) = fl_agu fl"
  "fl_iq (entered_flight x ls q fl) = (case q of None \<Rightarrow> fl_iq fl | Some e \<Rightarrow> (fl_iq fl)(fst x \<mapsto> e))"
  by (simp_all add: entered_flight_def)

lemma enter_inv:
  assumes inv: "flight_inv v fl" and step: "env_step v v' ((re_seq \<circ> snd) ` set (fl_rob fl))"
    and ready: "\<And>j a. (j, a) \<in> set (fl_rob fl) \<Longrightarrow> re_pdst a \<noteq> kNoReg \<Longrightarrow>
      ev_ready v' ! unat (re_pdst a) = ev_ready v ! unat (re_pdst a)"
    and e: "i \<notin> fst ` set (fl_rob fl)" "entry_static e" "done_ok v' e" "sys_ok v' e" "ready_ok v' e"
    and young: "\<And>j a. (j, a) \<in> set (fl_rob fl) \<Longrightarrow> re_seq a < re_seq e"
    and ls: "if re_isMem e then \<exists>j le. ls = [(j, le)] \<and> j \<notin> fst ` set (fl_lsq fl) \<and> lkey (j, le) = rkey (i, e) \<and>
        mem_entry v' e le else ls = []"
    and q: "\<And>p w1 w2. q = Some (p, w1, w2) \<Longrightarrow> iq_op v' (entered_flight (i, e) ls q fl) i p w1 w2"
  shows "flight_inv v' (entered_flight (i, e) ls q fl)"
proof -
  let ?fl = "entered_flight (i, e) ls q fl"
  note h = flight_invD [OF inv] and r = rob_okD [OF flight_invD(1) [OF inv]]
  have old: "entry_static a \<and> done_ok v' a \<and> sys_ok v' a \<and> ready_ok v' a" if m: "(j, a) \<in> set (fl_rob fl)" for j a
  proof -
    have "re_seq a \<in> (re_seq \<circ> snd) ` set (fl_rob fl)" using m by force
    from entry_step [OF step this r(3-6) [OF m] ready [OF m]] show ?thesis using r(3) [OF m] by blast
  qed
  have rob: "rob_ok v' ?fl"
    unfolding rob_ok_def
  proof (intro conjI ballI)
    show "distinct (map fst (fl_rob ?fl))" using r(1) e(1) by simp
    show "sorted_wrt (<) (map (re_seq \<circ> snd) (fl_rob ?fl))"
      using r(2) young by (auto simp: sorted_wrt_append)
    show "case y of (k, a) \<Rightarrow> entry_static a \<and> done_ok v' a \<and> sys_ok v' a \<and> ready_ok v' a"
      if m: "y \<in> set (fl_rob ?fl)" for y
    proof -
      obtain k a where y: "y = (k, a)" by fastforce
      show ?thesis
      proof (cases "(k, a) \<in> set (fl_rob fl)")
        case True
        then show ?thesis using old [OF True] by (simp add: y)
      next
        case False
        then show ?thesis using m e by (simp add: y)
      qed
    qed
  qed
  have lsq_old: "le_seq l \<noteq> re_seq e" if m: "(k, l) \<in> set (fl_lsq fl)" for k l
  proof -
    obtain a where "(unat (le_robIdx l), a) \<in> set (fl_rob fl)" "le_seq l = re_seq a" using lsq_to_rob [OF h(2) m] by blast
    then show ?thesis using young by force
  qed
  have pair: "pair_ok ?fl"
  proof (cases "re_isMem e")
    case True
    then obtain j le where l: "ls = [(j, le)]" "j \<notin> fst ` set (fl_lsq fl)" "lkey (j, le) = rkey (i, e)" using ls by auto
    then show ?thesis using h(2) True by (simp add: pair_ok_def)
  next
    case False
    then show ?thesis using h(2) ls by (simp add: pair_ok_def)
  qed
  have new: "le_seq l = re_seq e \<and> mem_entry v' e l" if "(k, l) \<in> set ls" for k l
    using ls that by (auto simp: lkey_def rkey_def split: if_splits)
  have mem: "mem_ok v' ?fl"
    unfolding mem_ok_def
  proof (clarify)
    fix k a l le
    assume m: "(k, a) \<in> set (fl_rob ?fl)" "(l, le) \<in> set (fl_lsq ?fl)" "le_seq le = re_seq a"
    show "mem_entry v' a le"
    proof (cases "(k, a) \<in> set (fl_rob fl)")
      case True
      then have "re_seq a < re_seq e" by (rule young)
      then have "(l, le) \<in> set (fl_lsq fl)" using m(2,3) new by auto
      then have "mem_entry v a le" using h(3) True m(3) by (auto simp: mem_ok_def)
      moreover have "re_seq a \<in> (re_seq \<circ> snd) ` set (fl_rob fl)" using True by force
      ultimately show ?thesis using mem_entry_step [OF step _ r(3) [OF True]] by blast
    next
      case False
      then have "a = e" using m(1) by simp
      then show ?thesis using m(2,3) new lsq_old by auto
    qed
  qed
  have ev: "evolves v fl v' ?fl UNIV"
    unfolding evolves_def using h(1) step by auto
  have small: "q_seq p < re_seq e" if "fl_iq fl k = Some (p, w1, w2)" for k p w1 w2
    using iq_refers [OF inv that] young by metis
  show ?thesis
  proof (rule flight_inv_evolves [OF inv ev rob pair mem])
    show "fl_iq fl k = Some (p, w1, w2) \<and> q_seq p \<in> UNIV \<or> iq_op v' ?fl k p w1 w2"
      if m: "fl_iq ?fl k = Some (p, w1, w2)" for k p w1 w2
      using m q by (cases "k = i") (auto split: option.splits)
    show "uniq_ok ?fl"
      unfolding uniq_ok_def
    proof (intro conjI allI impI)
      show "count (image_mset o_seq (fl_wb ?fl + fl_agu ?fl)) s \<le> 1" for s using h(7) by (simp add: uniq_ok_def)
      fix k p w1 w2
      assume m: "fl_iq ?fl k = Some (p, w1, w2)"
      show "q_seq p \<notin># image_mset o_seq (fl_wb ?fl + fl_agu ?fl)"
      proof (cases "fl_iq fl k = Some (p, w1, w2)")
        case True
        then show ?thesis using h(7) unfolding uniq_ok_def entered_flight_sel by blast
      next
        case False
        then have "k = i" "q = Some (p, w1, w2)" using m by (auto split: option.splits if_splits)
        then obtain a where a: "(i, a) \<in> set (fl_rob ?fl)" "re_seq a = q_seq p" using q unfolding iq_op_def by blast
        then have "a = e" using e(1) by force
        then have s: "q_seq p = re_seq e" using a(2) by simp
        have "o_seq x \<noteq> q_seq p" if "x \<in># fl_wb fl + fl_agu fl" for x
          using op_refers [OF inv that] young s by (metis less_irrefl)
        then show ?thesis by (metis (no_types, lifting) entered_flight_sel(3,4) imageE set_image_mset)
      qed
    qed
  qed (simp_all)
qed

end
