(* ===== verification/Core_Data.thy ===== *)
theory Core_Data
  imports Dataflow_Queues Core_Run
begin

text \<open>
  The data flow of the core itself: what is in flight in a state of \<open>Core\<close>, the environment its
  instructions see, the shape of the parts they travel through, and the invariant of the three
  together.  The theories that follow show that every stage keeps it.
\<close>

section \<open>The views\<close>

definition flight_of :: "core \<Rightarrow> flight" where
  "flight_of c =
     \<lparr>fl_rob = entries (oc_rob c), fl_lsq = entries (l_ring (oc_lsq c)), fl_iq = iq_view (oc_iq c),
      fl_wb = units_ops (oc_units c) + slots_ops (oc_loadOuts c), fl_agu = units_ops (oc_agus c)\<rparr>"

text \<open>The sources of an instruction are those of the committed map with the older ones on top.\<close>

definition older_names :: "core \<Rightarrow> u64 \<Rightarrow> rename list" where
  "older_names c s = filter (\<lambda>n. n_seq n < s) (ring_list (v_rob (view c)))"

definition env_of :: "u8 list \<Rightarrow> core \<Rightarrow> env" where
  "env_of arch c =
     \<lparr>ev_src = (\<lambda>s r. renamed (older_names c s) arch ! unat r), ev_ready = oc_ready c, ev_val = oc_val c\<rparr>"

text \<open>The committed registers.\<close>

definition arch_regs :: "u8 list \<Rightarrow> core \<Rightarrow> u32 list" where
  "arch_regs arch c = map (\<lambda>p. oc_val c ! unat p) arch"

section \<open>The parts\<close>

abbreviation phys :: "core \<Rightarrow> nat" where
  "phys c \<equiv> unat (cfg_physRegs (oc_cfg c))"

definition regs_part :: "u8 list \<Rightarrow> core \<Rightarrow> bool" where
  "regs_part arch c \<longleftrightarrow> length (oc_val c) = phys c \<and> length (oc_ready c) = phys c \<and>
     (\<forall>p \<in> set arch. oc_ready c ! unat p)"

definition queue_part :: "core \<Rightarrow> bool" where
  "queue_part c \<longleftrightarrow> iq_ok (phys c) {} (oc_iq c) \<and> length (iq_e (oc_iq c)) = unat (r_capacity (oc_rob c)) \<and>
     lsq_ok (oc_lsq c)"

definition unit_part :: "core \<Rightarrow> bool" where
  "unit_part c \<longleftrightarrow> (\<forall>u \<in> set (oc_units c) \<union> set (oc_agus c). fu_ok u) \<and> length (oc_units c) = alu_count c + 3"

primrec wb_in :: "core \<Rightarrow> wb_ref \<Rightarrow> bool" where
  "wb_in c (Unit_Out i) = (i < length (oc_units c))"
| "wb_in c (Load_Out i) = (i < length (oc_loadOuts c))"

definition port_part :: "core \<Rightarrow> bool" where
  "port_part c \<longleftrightarrow> distinct (oc_wbReady c) \<and> (\<forall>p \<in> set (oc_wbReady c). wb_in c p \<and> o_valid (wb_slot c p))"

text \<open>A system instruction is alone in the reorder buffer.\<close>

definition alone_part :: "core \<Rightarrow> bool" where
  "alone_part c \<longleftrightarrow> (\<forall>e \<in> set (ring_list (oc_rob c)). re_isSystem e \<longrightarrow> ring_list (oc_rob c) = [e])"

definition data_inv :: "u8 list \<Rightarrow> nat \<Rightarrow> core \<Rightarrow> bool" where
  "data_inv arch k c \<longleftrightarrow> core_inv arch k c \<and> regs_part arch c \<and> queue_part c \<and> unit_part c \<and> port_part c \<and>
     alone_part c \<and> flight_inv (env_of arch c) (flight_of c)"

lemma data_invD:
  assumes "data_inv arch k c"
  shows "core_inv arch k c" "regs_part arch c" "queue_part c" "unit_part c" "port_part c" "alone_part c"
    "flight_inv (env_of arch c) (flight_of c)" "rename_inv arch (view c)" "order_inv k (view c)"
  using assms by (simp_all add: data_inv_def core_inv_def)

lemmas part_defs = regs_part_def queue_part_def unit_part_def port_part_def alone_part_def

lemma flight_of_sel [simp]:
  "fl_rob (flight_of c) = entries (oc_rob c)" "fl_lsq (flight_of c) = entries (l_ring (oc_lsq c))"
  "fl_iq (flight_of c) = iq_view (oc_iq c)" "fl_wb (flight_of c) = units_ops (oc_units c) + slots_ops (oc_loadOuts c)"
  "fl_agu (flight_of c) = units_ops (oc_agus c)"
  by (simp_all add: flight_of_def)

lemma env_of_sel [simp]:
  "ev_ready (env_of arch c) = oc_ready c" "ev_val (env_of arch c) = oc_val c"
  "ev_src (env_of arch c) s r = renamed (older_names c s) arch ! unat r"
  by (simp_all add: env_of_def)

lemma env_of_eq:
  assumes "view c' = view c" "oc_ready c' = oc_ready c" "oc_val c' = oc_val c"
  shows "env_of arch c' = env_of arch c"
  using assms by (simp add: env_of_def older_names_def)

text \<open>What the invariant reads of a state.\<close>

definition data_view where
  "data_view c = (view c, oc_val c, oc_ready c, oc_rob c, oc_iq c, oc_lsq c, oc_units c, oc_agus c, oc_wbReady c,
     oc_loadOuts c)"

lemma wb_cong:
  assumes "oc_units c' = oc_units c" "oc_loadOuts c' = oc_loadOuts c"
  shows "wb_in c' = wb_in c" "wb_slot c' = wb_slot c"
proof -
  show "wb_in c' = wb_in c"
  proof
    show "wb_in c' p = wb_in c p" for p by (cases p) (simp_all add: assms)
  qed
  show "wb_slot c' = wb_slot c"
  proof
    show "wb_slot c' p = wb_slot c p" for p by (cases p) (simp_all add: assms)
  qed
qed

lemma data_view_eq:
  assumes "data_view c' = data_view c"
  shows "data_inv arch k c' = data_inv arch k c" "arch_regs arch c' = arch_regs arch c" "view c' = view c"
    "oc_rob c' = oc_rob c"
proof -
  have d: "view c' = view c" "oc_val c' = oc_val c" "oc_ready c' = oc_ready c" "oc_rob c' = oc_rob c"
    "oc_iq c' = oc_iq c" "oc_lsq c' = oc_lsq c" "oc_units c' = oc_units c" "oc_agus c' = oc_agus c"
    "oc_wbReady c' = oc_wbReady c" "oc_loadOuts c' = oc_loadOuts c"
    using assms by (simp_all add: data_view_def)
  have cfg: "oc_cfg c' = oc_cfg c" using view_eqD [OF d(1)] by simp
  show "data_inv arch k c' = data_inv arch k c"
    using d cfg by (simp add: data_inv_def part_defs core_inv_def env_of_eq [OF d(1,3,2)] flight_of_def wb_cong [OF d(7,10)])
  show "arch_regs arch c' = arch_regs arch c" "view c' = view c" "oc_rob c' = oc_rob c"
    using d by (simp_all add: arch_regs_def)
qed

lemma data_view_fields [simp]:
  "data_view (c\<lparr>oc_msys := x_msys\<rparr>) = data_view c"
  "data_view (c\<lparr>oc_sb := x_sb\<rparr>) = data_view c"
  "data_view (c\<lparr>oc_pred := x_pred\<rparr>) = data_view c"
  "data_view (c\<lparr>oc_pc := x_pc\<rparr>) = data_view c"
  "data_view (c\<lparr>oc_fetchQ := x_fetchQ\<rparr>) = data_view c"
  "data_view (c\<lparr>oc_fOutstanding := x_fOutstanding\<rparr>) = data_view c"
  "data_view (c\<lparr>oc_fStale := x_fStale\<rparr>) = data_view c"
  "data_view (c\<lparr>oc_fBlock := x_fBlock\<rparr>) = data_view c"
  "data_view (c\<lparr>oc_fFetchPc := x_fFetchPc\<rparr>) = data_view c"
  "data_view (c\<lparr>oc_sbTxnCtr := x_sbTxnCtr\<rparr>) = data_view c"
  "data_view (c\<lparr>oc_depTable := x_depTable\<rparr>) = data_view c"
  "data_view (c\<lparr>oc_pendRedirect := x_pendRedirect\<rparr>) = data_view c"
  "data_view (c\<lparr>oc_pendTarget := x_pendTarget\<rparr>) = data_view c"
  "data_view (c\<lparr>oc_recTimerArmed := x_recTimerArmed\<rparr>) = data_view c"
  "data_view (c\<lparr>oc_recTimerStart := x_recTimerStart\<rparr>) = data_view c"
  "data_view (c\<lparr>oc_halted := x_halted\<rparr>) = data_view c"
  "data_view (c\<lparr>oc_exitCode := x_exitCode\<rparr>) = data_view c"
  "data_view (c\<lparr>oc_host := x_host\<rparr>) = data_view c"
  "data_view (c\<lparr>oc_commits := x_commits\<rparr>) = data_view c"
  "st_cycles st = st_cycles (oc_stats c) \<Longrightarrow> data_view (c\<lparr>oc_stats := st\<rparr>) = data_view c"
  by (simp_all add: data_view_def)

section \<open>Registers are apart\<close>

lemma renamed_mem: "i < length m \<Longrightarrow> renamed es m ! i \<in> set m \<union> set (owned es)"
proof (induction es arbitrary: m)
  case (Cons e es)
  have "renamed (e # es) m ! i = renamed es (rename_upd e m) ! i" by (simp add: renamed_def)
  also have "\<dots> \<in> set (rename_upd e m) \<union> set (owned es)" using Cons by (simp add: rename_upd_def)
  also have "\<dots> \<subseteq> set m \<union> set (owned (e # es))"
    using set_update_subset_insert [of m] by (auto simp: rename_upd_def owned_def)
  finally show ?case .
qed (simp add: renamed_def owned_def)

lemma owned_filter: "set (owned (filter P es)) \<subseteq> set (owned es)"
  by (auto simp: owned_def)

text \<open>The registers of the committed map, of the instructions in flight and of the free list.\<close>

lemma regs_apart:
  assumes "rename_inv arch (view c)"
  defines "es \<equiv> ring_list (v_rob (view c))"
  shows "length arch = 32"
    "distinct arch" "distinct (owned es)"
    "set arch \<inter> set (owned es) = {}" "set (ring_list (oc_free c)) \<inter> (set arch \<union> set (owned es)) = {}"
    "\<And>p. p \<in> set arch \<union> set (owned es) \<union> set (ring_list (oc_free c)) \<Longrightarrow> unat p < phys c \<and> p \<noteq> kNoReg"
proof -
  let ?M = "mset arch + mset (owned es) + mset (ring_list (oc_free c))"
  have M: "?M = all_regs (phys c)" and P: "phys c \<le> 255" and len: "length arch = 32"
    using assms by (simp_all add: rename_inv_def Let_def view_def)
  show "length arch = 32" by (rule len)
  have c1: "count ?M p \<le> 1" for p unfolding M using all_regs_count [of "phys c" p] P by simp
  have "distinct (arch @ owned es @ ring_list (oc_free c))"
    unfolding distinct_count_atmost_1
  proof
    fix p
    let ?xs = "arch @ owned es @ ring_list (oc_free c)"
    have "count (mset ?xs) p = count ?M p" by simp
    then have le: "count (mset ?xs) p \<le> 1" using c1 [of p] by simp
    have pos: "0 < count (mset ?xs) p \<longleftrightarrow> p \<in> set ?xs" by (simp only: count_greater_zero_iff set_mset_mset)
    have "n \<le> 1 \<Longrightarrow> 0 < n \<longleftrightarrow> b \<Longrightarrow> n = (if b then 1 else 0)" for n :: nat and b by auto
    from this [OF le pos] show "count (mset ?xs) p = (if p \<in> set ?xs then 1 else 0)" .
  qed
  then show "distinct arch" "distinct (owned es)" "set arch \<inter> set (owned es) = {}"
    "set (ring_list (oc_free c)) \<inter> (set arch \<union> set (owned es)) = {}" by auto
  show "unat p < phys c \<and> p \<noteq> kNoReg" if "p \<in> set arch \<union> set (owned es) \<union> set (ring_list (oc_free c))" for p
  proof -
    have "p \<in># ?M" using that by auto
    then show ?thesis unfolding M using all_regs_mem [OF P] by blast
  qed
qed

lemma rob_names:
  assumes "ring_ok (oc_rob c)"
  shows "ring_list (v_rob (view c)) = map (name_of \<circ> snd) (entries (oc_rob c))"
  using entries_list [of "oc_rob c"] by (simp add: view_rob_list [OF assms] flip: map_map)

lemma owned_entry:
  assumes "ring_ok (oc_rob c)" "(i, e) \<in> set (entries (oc_rob c))" "re_pdst e \<noteq> kNoReg"
  shows "re_pdst e \<in> set (owned (ring_list (v_rob (view c))))"
  using assms(2,3) by (force simp: rob_names [OF assms(1)] owned_def)

text \<open>Two entries do not share a destination.\<close>

lemma pdst_inj:
  assumes "rename_inv arch (view c)" "(i, a) \<in> set (entries (oc_rob c))" "(j, b) \<in> set (entries (oc_rob c))"
    "re_pdst a = re_pdst b" "re_pdst a \<noteq> kNoReg"
  shows "i = j"
proof -
  have d: "distinct (owned (ring_list (v_rob (view c))))" by (rule regs_apart(3) [OF assms(1)])
  have "owned (ring_list (v_rob (view c))) =
      map (re_pdst \<circ> snd) (filter (\<lambda>x. re_pdst (snd x) \<noteq> kNoReg) (entries (oc_rob c)))"
    by (simp add: rob_names [OF view_rob_ok [OF assms(1)]] owned_def filter_map o_def)
  then have "inj_on (re_pdst \<circ> snd) (set (filter (\<lambda>x. re_pdst (snd x) \<noteq> kNoReg) (entries (oc_rob c))))"
    using d by (simp add: distinct_map)
  from inj_onD [OF this, of "(i, a)" "(j, b)"] show ?thesis using assms(2-5) by simp
qed

lemma src_mem:
  assumes "rename_inv arch (view c)" "unat r < 32"
  shows "ev_src (env_of arch c) s r \<in> set arch \<union> set (owned (ring_list (v_rob (view c))))"
proof -
  have "unat r < length arch" using assms by (simp add: regs_apart(1))
  from renamed_mem [OF this, of "older_names c s"] show ?thesis
    using owned_filter [of "\<lambda>n. n_seq n < s" "ring_list (v_rob (view c))"] by (auto simp: older_names_def)
qed

text \<open>The head of the reorder buffer reads the committed map.\<close>

lemma older_head:
  assumes "order_inv k (view c)" "ring_list (v_rob (view c)) = n # ns"
  shows "older_names c (n_seq n) = []"
proof -
  have "sorted_wrt (<) (map n_seq (n # ns))" using assms by (simp add: order_inv_def Let_def)
  then show ?thesis by (auto simp: older_names_def assms(2) filter_empty_conv)
qed

text \<open>The youngest instruction reads the rename map.\<close>

lemma older_all:
  assumes "\<forall>n \<in> set (ring_list (v_rob (view c))). n_seq n < s"
  shows "older_names c s = ring_list (v_rob (view c))"
  using assms by (simp add: older_names_def)

end
