(* ===== verification/Core_Data_Back.thy ===== *)
theory Core_Data_Back
  imports Core_Data
begin

text \<open>
  The data flow through recovery, writeback and address generation: each keeps the invariant and the
  committed registers.
\<close>

section \<open>What a stage keeps\<close>

definition sysfree :: "core \<Rightarrow> bool" where
  "sysfree c \<longleftrightarrow> (\<forall>e \<in> set (ring_list (oc_rob c)). \<not> re_isSystem e)"

definition stays :: "u8 list \<Rightarrow> nat \<Rightarrow> core \<Rightarrow> core \<Rightarrow> bool" where
  "stays arch k c c' \<longleftrightarrow> data_inv arch k c' \<and> arch_regs arch c' = arch_regs arch c \<and> (sysfree c \<longrightarrow> sysfree c')"

lemma staysD:
  assumes "stays arch k c c'"
  shows "data_inv arch k c'" "arch_regs arch c' = arch_regs arch c" "sysfree c \<Longrightarrow> sysfree c'"
  using assms by (simp_all add: stays_def)

lemma stays_refl: "data_inv arch k c \<Longrightarrow> stays arch k c c"
  by (simp add: stays_def)

lemma stays_trans [trans]: "stays arch k c d \<Longrightarrow> stays arch k d e \<Longrightarrow> stays arch k c e"
  by (simp add: stays_def)

lemma stays_view:
  assumes "data_inv arch k c" "data_view c' = data_view c"
  shows "stays arch k c c'"
  using data_view_eq [OF assms(2)] assms(1) by (simp add: stays_def sysfree_def)

lemma stays_cong:
  assumes "data_view c' = data_view c" "data_view d' = data_view d"
  shows "stays arch k c' d' = stays arch k c d"
  using data_view_eq [OF assms(1)] data_view_eq [OF assms(2)] by (simp add: stays_def sysfree_def)

lemma view_sys:
  assumes "view c' = view c" "ring_ok (oc_rob c)"
  shows "map re_isSystem (ring_list (oc_rob c')) = map re_isSystem (ring_list (oc_rob c))"
proof -
  have ok: "ring_ok (oc_rob c')"
    using arg_cong [OF assms(1), of "\<lambda>v. ring_ok (v_rob v)"] assms(2) by (simp add: view_def)
  have "map name_of (ring_list (oc_rob c')) = map name_of (ring_list (oc_rob c))"
    using assms(1) by (simp add: view_rob_list [OF assms(2), symmetric] view_rob_list [OF ok, symmetric])
  then have "map n_sys (map name_of (ring_list (oc_rob c'))) = map n_sys (map name_of (ring_list (oc_rob c)))" by simp
  then show ?thesis by (simp add: o_def)
qed

lemma sysfree_sys: "sysfree c \<longleftrightarrow> True \<notin> set (map re_isSystem (ring_list (oc_rob c)))"
  by (auto simp: sysfree_def)

lemma alone_sys:
  "alone_part c \<longleftrightarrow> (True \<in> set (map re_isSystem (ring_list (oc_rob c))) \<longrightarrow> length (map re_isSystem (ring_list (oc_rob c))) = 1)"
proof
  show "alone_part c \<Longrightarrow> True \<in> set (map re_isSystem (ring_list (oc_rob c))) \<longrightarrow>
      length (map re_isSystem (ring_list (oc_rob c))) = 1"
  proof
    assume a: "alone_part c" "True \<in> set (map re_isSystem (ring_list (oc_rob c)))"
    then obtain e where "e \<in> set (ring_list (oc_rob c))" "re_isSystem e" by auto
    then have "ring_list (oc_rob c) = [e]" using a(1) by (simp add: alone_part_def)
    then show "length (map re_isSystem (ring_list (oc_rob c))) = 1" by (simp only: list.map list.size)
  qed
  assume h: "True \<in> set (map re_isSystem (ring_list (oc_rob c))) \<longrightarrow> length (map re_isSystem (ring_list (oc_rob c))) = 1"
  show "alone_part c"
    unfolding alone_part_def
  proof (intro ballI impI)
    fix e assume e: "e \<in> set (ring_list (oc_rob c))" "re_isSystem e"
    then have "length (ring_list (oc_rob c)) = 1" using h by force
    then obtain a where "ring_list (oc_rob c) = [a]" by (metis One_nat_def length_0_conv length_Suc_conv)
    then show "ring_list (oc_rob c) = [e]" using e(1) by simp
  qed
qed

lemma sys_view:
  assumes "view c' = view c" "ring_ok (oc_rob c)"
  shows "sysfree c' = sysfree c" "alone_part c' = alone_part c"
  unfolding sysfree_sys alone_sys view_sys [OF assms] by (rule refl)+

section \<open>Recovery\<close>

lemma sorted_filter_last:
  assumes "sorted_wrt (<) (map f xs)" "xs \<noteq> []"
  shows "s < f (last xs) \<Longrightarrow> filter (\<lambda>x. f x \<le> s) xs = filter (\<lambda>x. f x \<le> s) (butlast xs)"
    "\<not> s < (f (last xs) :: u64) \<Longrightarrow> filter (\<lambda>x. f x \<le> s) xs = xs"
proof -
  obtain ys y where xs: "xs = ys @ [y]" using assms(2) by (metis append_butlast_last_id)
  show "s < f (last xs) \<Longrightarrow> filter (\<lambda>x. f x \<le> s) xs = filter (\<lambda>x. f x \<le> s) (butlast xs)"
    by (simp add: xs not_le)
  have "\<forall>x \<in> set ys. f x < f y" using assms(1) by (simp add: xs sorted_wrt_append)
  then show "\<not> s < f (last xs) \<Longrightarrow> filter (\<lambda>x. f x \<le> s) xs = xs"
    by (auto simp: xs filter_id_conv not_less)
qed

lemma sorted_map_butlast: "sorted_wrt R (map f xs) \<Longrightarrow> sorted_wrt R (map f (butlast xs))"
  by (subst map_butlast, subst butlast_conv_take) (rule sorted_wrt_take)

lemma entries_tail:
  assumes "ring_ok r" "r_n r \<noteq> 0"
  shows "entries r \<noteq> []" "snd (last (entries r)) = ring_tail r"
proof -
  show ne: "entries r \<noteq> []" using assms by (simp add: entries_Nil)
  then show "snd (last (entries r)) = ring_tail r"
    using ring_popTail_ok(3) [OF assms] by (simp add: last_map flip: entries_list)
qed

lemma rob_squash_entries:
  assumes "ring_ok r" "sorted_wrt (<) (map (re_seq \<circ> snd) (entries r))" "rob_squash s r mf = (r', mf')"
  shows "entries r' = filter (\<lambda>x. re_seq (snd x) \<le> s) (entries r) \<and> r_capacity r' = r_capacity r"
  using assms
proof (induction s r mf rule: rob_squash.induct)
  case (1 s r mf)
  show ?case
  proof (cases "r_n r = 0")
    case True
    then have "r' = r" using "1.prems"(3) by (subst (asm) rob_squash.simps) auto
    moreover have "entries r = []" using True "1.prems"(1) by (simp add: entries_Nil)
    ultimately show ?thesis by simp
  next
    case False
    note t = entries_tail [OF "1.prems"(1) False]
    note f = sorted_filter_last [OF "1.prems"(2) t(1), of s, unfolded o_def t(2)]
    show ?thesis
    proof (cases "s < re_seq (ring_tail r)")
      case True
      then have sq: "rob_squash s (ring_popTail r) (undo_rename (ring_tail r) mf) = (r', mf')"
        using "1.prems"(3) False by (subst (asm) rob_squash.simps) simp
      have srt: "sorted_wrt (<) (map (re_seq \<circ> snd) (entries (ring_popTail r)))"
        unfolding entries_pop(2) [OF "1.prems"(1) False] by (rule sorted_map_butlast [OF "1.prems"(2)])
      from "1.IH" [OF conjI [OF False True] ring_popTail_ok(1) [OF "1.prems"(1) False] srt sq]
      show ?thesis using f(1) [OF True] by (simp add: entries_pop(2) [OF "1.prems"(1) False])
    next
      case out: False
      then have "r' = r" using "1.prems"(3) by (subst (asm) rob_squash.simps) auto
      then show ?thesis using f(2) [OF out] by simp
    qed
  qed
qed

lemma lsq_squash_entries:
  assumes "lsq_ok q" "sorted_wrt (<) (map (le_seq \<circ> snd) (entries (l_ring q)))"
  shows "lsq_ok (lsq_squash s q) \<and>
    entries (l_ring (lsq_squash s q)) = filter (\<lambda>x. le_seq (snd x) \<le> s) (entries (l_ring q))"
  using assms
proof (induction s q rule: lsq_squash.induct)
  case (1 s q)
  note ok = lsq_okD(1) [OF "1.prems"(1)]
  show ?case
  proof (cases "r_n (l_ring q) = 0")
    case True
    then have "entries (l_ring q) = []" using ok by (simp add: entries_Nil)
    then show ?thesis using True "1.prems"(1) by (subst (1 2) lsq_squash.simps) simp
  next
    case False
    note t = entries_tail [OF ok False]
    note f = sorted_filter_last [OF "1.prems"(2) t(1), of s, unfolded o_def t(2)]
    have ring: "l_ring (lsq_popTail q) = ring_popTail (l_ring q)"
      by (simp add: lsq_popTail_def lsq_remove_def Let_def)
    show ?thesis
    proof (cases "s < le_seq (ring_tail (l_ring q))")
      case True
      have "sorted_wrt (<) (map (le_seq \<circ> snd) (entries (l_ring (lsq_popTail q))))"
        unfolding ring entries_pop(2) [OF ok False] by (rule sorted_map_butlast [OF "1.prems"(2)])
      with "1.IH" popTail_ok [OF "1.prems"(1) False] True False
      have "lsq_ok (lsq_squash s (lsq_popTail q)) \<and> entries (l_ring (lsq_squash s (lsq_popTail q))) =
          filter (\<lambda>x. le_seq (snd x) \<le> s) (entries (l_ring (lsq_popTail q)))" by blast
      then show ?thesis using True False f(1) [OF True]
        by (subst (1 2) lsq_squash.simps) (simp add: ring entries_pop(2) [OF ok False])
    next
      case out: False
      then show ?thesis using "1.prems"(1) f(2) [OF out] by (subst (1 2) lsq_squash.simps) simp
    qed
  qed
qed

lemma iq_flush_length: "length (iq_e (iq_flushYounger s q)) = length (iq_e q)"
proof -
  have "keeps (\<lambda>p. length (iq_e p) = length (iq_e q)) (flush_visitor s)"
    by (rule keepsI) (simp add: flush_visitor_def)
  from visit_words_keeps [OF this, of q] show ?thesis by (simp add: iq_flushYounger_def)
qed

lemma recover_fields:
  "oc_iq (recover s c) = iq_flushYounger s (oc_iq c)" "oc_units (recover s c) = map (fu_flushYounger s) (oc_units c)"
  "oc_agus (recover s c) = map (fu_flushYounger s) (oc_agus c)" "oc_loadOuts (recover s c) = map (fu_kill s) (oc_loadOuts c)"
  "oc_lsq (recover s c) = lsq_squash s (oc_lsq c)" "oc_val (recover s c) = oc_val c" "oc_ready (recover s c) = oc_ready c"
  "oc_rob (recover s c) = fst (rob_squash s (oc_rob c) (oc_map c, oc_free c))" "oc_cfg (recover s c) = oc_cfg c"
  "oc_wbReady (recover s c) = filter (\<lambda>p. o_valid (wb_slot (recover s c) p)) (oc_wbReady c)"
proof -
  obtain r m fl where s: "rob_squash s (oc_rob c) (oc_map c, oc_free c) = (r, m, fl)" by (metis prod_cases3)
  show f: "oc_iq (recover s c) = iq_flushYounger s (oc_iq c)"
    "oc_units (recover s c) = map (fu_flushYounger s) (oc_units c)"
    "oc_agus (recover s c) = map (fu_flushYounger s) (oc_agus c)"
    "oc_loadOuts (recover s c) = map (fu_kill s) (oc_loadOuts c)"
    "oc_lsq (recover s c) = lsq_squash s (oc_lsq c)" "oc_val (recover s c) = oc_val c" "oc_ready (recover s c) = oc_ready c"
    "oc_rob (recover s c) = fst (rob_squash s (oc_rob c) (oc_map c, oc_free c))" "oc_cfg (recover s c) = oc_cfg c"
    by (simp_all add: recover_def Let_def s)
  let ?d = "c\<lparr>oc_stats := (oc_stats c)\<lparr>st_flushes := st_flushes (oc_stats c) + 1\<rparr>,
      oc_iq := iq_flushYounger s (oc_iq c), oc_units := map (fu_flushYounger s) (oc_units c),
      oc_agus := map (fu_flushYounger s) (oc_agus c), oc_loadOuts := map (fu_kill s) (oc_loadOuts c)\<rparr>"
  have "wb_slot (recover s c) = wb_slot ?d" by (rule wb_cong) (simp_all add: f)
  then show "oc_wbReady (recover s c) = filter (\<lambda>p. o_valid (wb_slot (recover s c) p)) (oc_wbReady c)"
    by (simp only: ) (simp add: recover_def Let_def s)
qed

lemma squash_older:
  assumes "core_inv arch k c" "t \<le> s"
  shows "older_names (recover s c) t = older_names c t"
proof -
  note r = recover_inv [OF assms(1), of s]
  have i: "rename_inv arch (view c)" "rename_inv arch (view (recover s c))" using assms(1) r(1) by (simp_all add: core_inv_def)
  show ?thesis
    unfolding older_names_def view_rob_list [OF view_rob_ok [OF i(1)]] view_rob_list [OF view_rob_ok [OF i(2)]] r(2)
    using assms(2) by (auto simp: filter_map o_def intro!: filter_cong arg_cong [of _ _ "map name_of"])
qed

theorem recover_stays:
  assumes "data_inv arch k c"
  shows "stays arch k c (recover s c)"
proof -
  let ?c = "recover s c"
  note d = data_invD [OF assms] and r = recover_inv [OF data_invD(1) [OF assms], of s] and f = recover_fields [of s c]
  note fl = flight_invD [OF d(7)]
  have ok: "ring_ok (oc_rob c)" by (rule view_rob_ok [OF d(8)])
  have rob: "entries (oc_rob ?c) = filter (\<lambda>x. re_seq (snd x) \<le> s) (entries (oc_rob c))"
    "r_capacity (oc_rob ?c) = r_capacity (oc_rob c)"
    using rob_squash_entries [OF ok, of s "(oc_map c, oc_free c)"] rob_okD(2) [OF fl(1)]
    by (metis f(8) flight_of_sel(1) prod.collapse)+
  have lok: "lsq_ok (oc_lsq c)" using d(3) by (simp add: queue_part_def)
  have "sorted_wrt (<) (map (le_seq \<circ> snd) (fl_lsq (flight_of c)))"
    unfolding pair_seqs [OF fl(2)] using rob_okD(2) [OF fl(1)] by (simp add: sorted_wrt_map sorted_wrt_filter)
  note lsq = lsq_squash_entries [OF lok this [unfolded flight_of_sel], of s]
  have iq: "iq_ok (phys c) {} (oc_iq c)" using d(3) by (simp add: queue_part_def)
  have "flight_of ?c = squashed s (flight_of c)"
    using lsq rob(1) flush_ok(2) [OF iq, of s]
    by (simp add: flight_of_def squashed_def f units_ops_flush slots_ops_kill fun_eq_iff)
  moreover have "env_step (env_of arch c) (env_of arch ?c) ((re_seq \<circ> snd) ` set (fl_rob (flight_of c)) \<inter> {..s})"
    using squash_older [OF d(1), of _ s] by (auto simp: env_step_def src_ready_def f)
  ultimately have flight: "flight_inv (env_of arch ?c) (flight_of ?c)"
    using squash_inv [OF d(7)] by (simp add: f)
  have regs: "regs_part arch ?c" using d(2) by (simp add: regs_part_def f)
  have queue: "queue_part ?c"
    using d(3) lsq flush_ok(1) [OF iq, of s] by (simp add: queue_part_def f iq_flush_length rob(2) [unfolded f])
  have unit: "unit_part ?c" using d(4) fu_ok_flush by (auto simp: unit_part_def f)
  have win: "wb_in ?c p = wb_in c p" for p by (cases p) (simp_all add: f)
  have "distinct (oc_wbReady ?c)" by (subst f(10)) (use d(5) in \<open>simp add: port_part_def\<close>)
  moreover have "wb_in ?c p \<and> o_valid (wb_slot ?c p)" if "p \<in> set (oc_wbReady ?c)" for p
    using that d(5) by (subst (asm) f(10)) (simp add: port_part_def win)
  ultimately have port: "port_part ?c" by (simp add: port_part_def)
  have alone: "alone_part ?c"
    unfolding alone_part_def r(2)
  proof (intro ballI impI)
    fix e assume e: "e \<in> set (filter (\<lambda>e. re_seq e \<le> s) (ring_list (oc_rob c)))" "re_isSystem e"
    then have "ring_list (oc_rob c) = [e]" using d(6) by (simp add: alone_part_def)
    then show "filter (\<lambda>e. re_seq e \<le> s) (ring_list (oc_rob c)) = [e]" using e(1) by (simp split: if_splits)
  qed
  have "sysfree c \<Longrightarrow> sysfree ?c" by (simp add: sysfree_def r(2))
  then show ?thesis
    using r(1) regs queue unit port alone flight by (simp add: stays_def data_inv_def arch_regs_def f)
qed

section \<open>Writeback\<close>

lemma min_index_less: "xs \<noteq> [] \<Longrightarrow> min_index xs < length xs"
  by (induction xs rule: min_index.induct) (simp_all add: Let_def)

text \<open>Taking a pointer out of a list by moving the last one into its place.\<close>

lemma take_out:
  assumes "i < length ps" "distinct ps"
  shows "set (butlast (ps[i := last ps])) = set ps - {ps ! i}" "distinct (butlast (ps[i := last ps]))"
    "length (butlast (ps[i := last ps])) = length ps - 1"
proof -
  show "length (butlast (ps[i := last ps])) = length ps - 1" by simp
  obtain ys y where ps: "ps = ys @ [y]" using assms(1) by (metis append_butlast_last_id list.size(3) not_less_zero)
  have "set (butlast (ps[i := last ps])) = set ps - {ps ! i} \<and> distinct (butlast (ps[i := last ps]))"
  proof (cases "i < length ys")
    case True
    have y: "y \<notin> set ys" and d: "distinct ys" using assms(2) by (simp_all add: ps)
    have b: "butlast (ps[i := last ps]) = ys[i := y]" using True by (simp add: ps list_update_append)
    have "set (ys[i := y]) = insert y (set ys - {ys ! i})" using set_update_distinct [OF d True] .
    moreover have "distinct (ys[i := y])" using d y by (intro distinct_list_update) auto
    ultimately show ?thesis using True y nth_mem [OF True] unfolding b by (auto simp: ps nth_append)
  next
    case False
    then have "i = length ys" using assms(1) by (simp add: ps)
    then show ?thesis using assms(2) by (auto simp: ps nth_append)
  qed
  then show "set (butlast (ps[i := last ps])) = set ps - {ps ! i}" "distinct (butlast (ps[i := last ps]))" by blast+
qed

lemma wb_take_ok:
  assumes "port_part c" "oc_wbReady c \<noteq> []" "wb_take c = (p, d)"
  obtains ps where "d = c\<lparr>oc_wbReady := ps\<rparr>" "p \<in> set (oc_wbReady c)" "set ps = set (oc_wbReady c) - {p}" "distinct ps"
    "length ps = length (oc_wbReady c) - 1"
proof -
  let ?i = "min_index (map (\<lambda>p. o_seq (wb_slot c p)) (oc_wbReady c))"
  have "min_index (map (\<lambda>p. o_seq (wb_slot c p)) (oc_wbReady c)) < length (map (\<lambda>p. o_seq (wb_slot c p)) (oc_wbReady c))"
    by (rule min_index_less) (simp add: assms(2))
  then have i: "?i < length (oc_wbReady c)" by simp
  have "distinct (oc_wbReady c)" using assms(1) by (simp add: port_part_def)
  note t = take_out [OF i this]
  have p: "p = oc_wbReady c ! ?i" "d = c\<lparr>oc_wbReady := butlast ((oc_wbReady c)[?i := last (oc_wbReady c)])\<rparr>"
    using assms(3) unfolding wb_take_def Let_def by blast+
  show thesis by (rule that [OF p(2) _ t(1) [folded p(1)] t(2,3)]) (unfold p(1), rule nth_mem [OF i])
qed

lemma rob_update_entries:
  assumes "ring_ok (oc_rob c)"
  shows "entries (oc_rob (rob_update idx f c)) = upd_at (unat idx) f (entries (oc_rob c))"
    "ring_ok (oc_rob (rob_update idx f c))" "r_capacity (oc_rob (rob_update idx f c)) = r_capacity (oc_rob c)"
  using entries_put [OF assms] ring_ok_put [OF assms] by (simp_all add: rob_update_def)

lemma rob_update_fields [simp]:
  "oc_val (rob_update idx f c) = oc_val c" "oc_ready (rob_update idx f c) = oc_ready c" "oc_iq (rob_update idx f c) = oc_iq c"
  "oc_lsq (rob_update idx f c) = oc_lsq c" "oc_units (rob_update idx f c) = oc_units c" "oc_agus (rob_update idx f c) = oc_agus c"
  "oc_wbReady (rob_update idx f c) = oc_wbReady c" "oc_loadOuts (rob_update idx f c) = oc_loadOuts c"
  "oc_cfg (rob_update idx f c) = oc_cfg c" "oc_map (rob_update idx f c) = oc_map c" "oc_free (rob_update idx f c) = oc_free c"
  "oc_msys (rob_update idx f c) = oc_msys c" "oc_seqCtr (rob_update idx f c) = oc_seqCtr c"
  by (simp_all add: rob_update_def)

lemma upd_at_upd: "upd_at i g (upd_at i f xs) = upd_at i (g \<circ> f) xs"
  by (auto simp: upd_at_def)

lemma upd_at_cong: "(\<And>e. (i, e) \<in> set xs \<Longrightarrow> f e = g e) \<Longrightarrow> upd_at i f xs = upd_at i g xs"
  by (auto simp: upd_at_def)

lemma wb_result_fields:
  "oc_units (wb_result x c) = oc_units c" "oc_loadOuts (wb_result x c) = oc_loadOuts c"
  "oc_agus (wb_result x c) = oc_agus c" "oc_lsq (wb_result x c) = oc_lsq c" "oc_wbReady (wb_result x c) = oc_wbReady c"
  "oc_cfg (wb_result x c) = oc_cfg c"
  "oc_val (wb_result x c) = (if o_pdst x \<noteq> kNoReg then (oc_val c)[unat (o_pdst x) := o_value x] else oc_val c)"
  "oc_ready (wb_result x c) = (if o_pdst x \<noteq> kNoReg then (oc_ready c)[unat (o_pdst x) := True] else oc_ready c)"
  "oc_iq (wb_result x c) = (if o_pdst x \<noteq> kNoReg then iq_wakeup (o_pdst x) (oc_iq c) else oc_iq c)"
  by (simp_all add: wb_result_def Let_def)

lemma wb_result_rob:
  assumes "ring_ok (oc_rob c)" "(unat (o_robIdx x), e) \<in> set (entries (oc_rob c))"
  shows "entries (oc_rob (wb_result x c)) = upd_at (unat (o_robIdx x)) (complete x) (entries (oc_rob c))"
    "r_capacity (oc_rob (wb_result x c)) = r_capacity (oc_rob c)"
proof -
  define d where "d = (if o_pdst x \<noteq> kNoReg
      then c\<lparr>oc_val := (oc_val c)[unat (o_pdst x) := o_value x],
            oc_ready := (oc_ready c)[unat (o_pdst x) := True], oc_iq := iq_wakeup (o_pdst x) (oc_iq c)\<rparr> else c)"
  define f :: "rob_entry \<Rightarrow> rob_entry" where "f = (\<lambda>e. e\<lparr>re_done := True\<rparr>)"
  define u where "u = rob_update (o_robIdx x) f d"
  have d: "oc_rob d = oc_rob c" by (simp add: d_def)
  note u1 = rob_update_entries [OF assms(1) [folded d], of "o_robIdx x" f, folded u_def, unfolded d]
  have "(unat (o_robIdx x), f e) \<in> set (entries (oc_rob u))" using assms(2) by (force simp: u1 upd_at_in)
  then have at: "ring_at (oc_rob u) (o_robIdx x) = f e" by (rule entries_at)
  have one: "a = e" if "(unat (o_robIdx x), a) \<in> set (entries (oc_rob c))" for a
    using distinct_slots [OF entries_distinct [OF assms(1)] that assms(2)] .
  have w: "wb_result x c = (if re_isBranch e then rob_update (o_robIdx x) (\<lambda>e. e\<lparr>re_actualTaken := o_redirect x,
      re_actualTarget := (if o_redirect x then o_target x else re_pc e + 4)\<rparr>) u else u)"
    unfolding wb_result_def Let_def d_def [symmetric] f_def [symmetric] u_def [symmetric] at by (simp add: f_def)
  show "entries (oc_rob (wb_result x c)) = upd_at (unat (o_robIdx x)) (complete x) (entries (oc_rob c))"
  proof (cases "re_isBranch e")
    case True
    then show ?thesis
      by (simp add: w rob_update_entries [OF u1(2)] u1 upd_at_upd) (rule upd_at_cong, drule one, simp add: complete_def f_def)
  next
    case False
    then show ?thesis by (simp add: w u1) (rule upd_at_cong, drule one, simp add: complete_def f_def)
  qed
  show "r_capacity (oc_rob (wb_result x c)) = r_capacity (oc_rob c)"
    using u1(3) rob_update_entries(3) [OF u1(2)] by (simp add: w)
qed

text \<open>The slot that was written back is empty again.\<close>

lemma fu_ok_drain: "fu_ok u \<Longrightarrow> fu_ok (fu_drain u)"
  by (simp add: fu_ok_def fu_drain_def)

lemma wb_slot_flight:
  assumes "wb_in c p" "o_valid (wb_slot c p)"
  shows "wb_slot c p \<in># fl_wb (flight_of c)"
proof (cases p)
  case (Unit_Out i)
  then have "wb_slot c p \<in># units_ops (oc_units c)"
    using assms fu_ops_drain(2) [of "oc_units c ! i"] by (intro units_ops_mem [of i]) simp_all
  then show ?thesis by simp
next
  case (Load_Out i)
  then have "oc_loadOuts c ! i \<in> set (oc_loadOuts c)" using assms(1) by simp
  then have "wb_slot c p \<in># slots_ops (oc_loadOuts c)" using assms(2) Load_Out by (simp add: slots_ops_def)
  then show ?thesis by simp
qed

lemma wb_invalidate_fields:
  "oc_val (wb_invalidate p c) = oc_val c" "oc_ready (wb_invalidate p c) = oc_ready c"
  "oc_iq (wb_invalidate p c) = oc_iq c" "oc_lsq (wb_invalidate p c) = oc_lsq c" "oc_rob (wb_invalidate p c) = oc_rob c"
  "oc_agus (wb_invalidate p c) = oc_agus c" "oc_wbReady (wb_invalidate p c) = oc_wbReady c"
  "oc_cfg (wb_invalidate p c) = oc_cfg c" "length (oc_units (wb_invalidate p c)) = length (oc_units c)"
  "length (oc_loadOuts (wb_invalidate p c)) = length (oc_loadOuts c)"
  by (cases p; simp)+

lemma wb_invalidate_ops:
  assumes "wb_in c p" "o_valid (wb_slot c p)"
  shows "units_ops (oc_units (wb_invalidate p c)) + slots_ops (oc_loadOuts (wb_invalidate p c)) =
      fl_wb (flight_of c) - {# wb_slot c p #}"
    "\<forall>u \<in> set (oc_units c). fu_ok u \<Longrightarrow> \<forall>u \<in> set (oc_units (wb_invalidate p c)). fu_ok u"
    "q \<noteq> p \<Longrightarrow> wb_slot (wb_invalidate p c) q = wb_slot c q"
proof -
  show "units_ops (oc_units (wb_invalidate p c)) + slots_ops (oc_loadOuts (wb_invalidate p c)) =
      fl_wb (flight_of c) - {# wb_slot c p #}"
  proof (cases p)
    case (Unit_Out i)
    then have i: "i < length (oc_units c)" "o_valid (f_out (oc_units c ! i))" using assms by simp_all
    note d = fu_ops_drain [OF i(2)]
    show ?thesis using units_ops_del [OF i(1) d(2) d(1)] mset_del_left [OF units_ops_mem [OF i(1) d(2)]]
      by (simp add: Unit_Out)
  next
    case (Load_Out i)
    then have i: "i < length (oc_loadOuts c)" "o_valid (oc_loadOuts c ! i)" using assms by simp_all
    have "\<not> o_valid ((oc_loadOuts c ! i)\<lparr>o_valid := False\<rparr>)" by simp
    note d = mset_filter_del [of i "oc_loadOuts c" o_valid, OF i this]
    have f: "oc_units (wb_invalidate p c) = oc_units c" "wb_slot c p = oc_loadOuts c ! i"
      "oc_loadOuts (wb_invalidate p c) = (oc_loadOuts c)[i := (oc_loadOuts c ! i)\<lparr>o_valid := False\<rparr>]"
      by (simp_all add: Load_Out)
    show ?thesis unfolding f flight_of_sel slots_ops_def d(1) by (rule diff_union_single_conv [OF d(2), symmetric])
  qed
  show "\<forall>u \<in> set (oc_units c). fu_ok u \<Longrightarrow> \<forall>u \<in> set (oc_units (wb_invalidate p c)). fu_ok u"
  proof (cases p)
    case (Unit_Out i)
    assume ok: "\<forall>u \<in> set (oc_units c). fu_ok u"
    then have "fu_ok (fu_drain (oc_units c ! i))" using assms(1) Unit_Out fu_ok_drain by simp
    then show ?thesis using ok set_update_subset_insert [of "oc_units c" i] by (auto simp: Unit_Out)
  qed simp
  show "q \<noteq> p \<Longrightarrow> wb_slot (wb_invalidate p c) q = wb_slot c q"
    by (cases p; cases q) simp_all
qed

lemma wb_invalidate_view: "data_view d = data_view c \<Longrightarrow> data_view (wb_invalidate p d) = data_view (wb_invalidate p c)"
  by (cases p) (auto simp: data_view_def view_def)

text \<open>The result of the winner reaches its register, its consumers and its entry.\<close>

lemma completed_stays:
  assumes inv: "data_inv arch k c" and p: "p \<in> set (oc_wbReady c)" and ps: "set ps = set (oc_wbReady c) - {p}" "distinct ps"
  defines "x \<equiv> wb_slot c p" and "d \<equiv> c\<lparr>oc_wbReady := ps\<rparr>"
  shows "stays arch k c (wb_invalidate p (wb_result x d))"
proof -
  let ?w = "wb_result x d"
  let ?c = "wb_invalidate p ?w"
  note i = data_invD [OF inv] and fl = flight_invD [OF data_invD(7) [OF inv]]
  have ok: "ring_ok (oc_rob c)" by (rule view_rob_ok [OF i(8)])
  have pin: "wb_in c p" "o_valid x" using i(5) p by (simp_all add: port_part_def x_def)
  have mem: "x \<in># fl_wb (flight_of c)" using wb_slot_flight pin by (simp add: x_def)
  obtain e where e: "(unat (o_robIdx x), e) \<in> set (entries (oc_rob c))" "o_pdst x = re_pdst e"
    using fl(4) [OF mem] unfolding wb_op_def flight_of_sel by blast
  have view: "view ?c = view c" by (simp add: d_def)
  have d: "oc_units d = oc_units c" "oc_loadOuts d = oc_loadOuts c" "oc_agus d = oc_agus c" "oc_lsq d = oc_lsq c"
    "oc_wbReady d = ps" "oc_cfg d = oc_cfg c" "oc_val d = oc_val c" "oc_ready d = oc_ready c" "oc_iq d = oc_iq c"
    "oc_rob d = oc_rob c" by (simp_all add: d_def)
  note w = wb_result_fields [of x d, unfolded d] and rob = wb_result_rob [of d x e, unfolded d, OF ok e(1)]
  have slots: "wb_in ?w = wb_in c" "wb_slot ?w = wb_slot c" by (rule wb_cong; simp add: w)+
  have pw: "wb_in ?w p" "o_valid (wb_slot ?w p)" "wb_slot ?w p = x" using pin unfolding slots by (simp_all add: x_def)
  note v = wb_invalidate_ops [OF pw(1,2), unfolded pw(3)] and f = wb_invalidate_fields [of p ?w]
  have preg: "unat (o_pdst x) < phys c" "o_pdst x \<notin> set arch" if "o_pdst x \<noteq> kNoReg"
    using regs_apart(4,6) [OF i(8)] owned_entry [OF ok e(1)] that by (auto simp: e(2))
  have len: "length (oc_val c) = phys c" "length (oc_ready c) = phys c" using i(2) by (simp_all add: regs_part_def)
  have iq: "iq_ok (phys c) {} (oc_iq c)" using i(3) by (simp add: queue_part_def)
  have "flight_of ?c = completed x (flight_of c)"
    using v(1) wakeup_ok(2) [OF iq preg(1)] by (auto simp: flight_of_def completed_def f w rob fun_eq_iff)
  moreover have "env_of arch ?c = written x (env_of arch c)"
    using view by (simp add: env_of_def older_names_def written_def f w)
  moreover have "flight_inv (written x (env_of arch c)) (completed x (flight_of c))"
    by (rule complete_inv [OF i(7) mem]) (use pdst_inj [OF i(8)] preg len in auto)
  ultimately have flight: "flight_inv (env_of arch ?c) (flight_of ?c)" by simp
  have neq: "unat q \<noteq> unat (o_pdst x)" if "q \<in> set arch" "o_pdst x \<noteq> kNoReg" for q
    using preg(2) that by (metis word_unat_eq_iff)
  have vals: "oc_val ?c ! unat q = oc_val c ! unat q" if "q \<in> set arch" for q
    using neq [OF that] by (auto simp: f w)
  have "oc_ready ?c ! unat q" if "q \<in> set arch" for q
    using neq [OF that] i(2) that by (auto simp: f w regs_part_def)
  then have regs: "regs_part arch ?c" using len by (simp add: regs_part_def f w)
  have queue: "queue_part ?c"
    using i(3) rob(2) wakeup_ok(1,4) [OF iq preg(1)] by (auto simp: queue_part_def f w)
  have unit: "unit_part ?c" using i(4) v(2) by (auto simp: unit_part_def f w)
  have win: "wb_in ?c q = wb_in c q" for q by (cases q) (simp_all add: f w)
  have "wb_in ?c q \<and> o_valid (wb_slot ?c q)" if "q \<in> set (oc_wbReady c)" "q \<noteq> p" for q
    using i(5) that v(3) [OF that(2)] by (simp add: port_part_def win slots)
  then have port: "port_part ?c" using ps by (simp add: port_part_def f w)
  have core: "core_inv arch k ?c" using view_eqD(1) [OF view] i(1) by simp
  have sys: "sysfree ?c = sysfree c" "alone_part ?c" using sys_view [OF view ok] i(6) by simp_all
  have "arch_regs arch ?c = arch_regs arch c" using vals by (simp add: arch_regs_def)
  then show ?thesis using core regs queue unit port flight sys by (simp add: stays_def data_inv_def)
qed

lemma writeback_one_stays:
  assumes inv: "data_inv arch k c" and ne: "oc_wbReady c \<noteq> []" and step: "writeback_one c = (go, c')"
  shows "stays arch k c c'" "go \<Longrightarrow> length (oc_wbReady c') = length (oc_wbReady c) - 1"
proof -
  obtain p d where t: "wb_take c = (p, d)" by fastforce
  obtain ps where ps: "d = c\<lparr>oc_wbReady := ps\<rparr>" "p \<in> set (oc_wbReady c)" "set ps = set (oc_wbReady c) - {p}" "distinct ps"
    "length ps = length (oc_wbReady c) - 1"
    using wb_take_ok [OF data_invD(5) [OF inv] ne t] .
  let ?x = "wb_slot c p"
  have x: "wb_slot d p = ?x" by (cases p) (simp_all add: ps(1))
  let ?w = "wb_result ?x d"
  let ?e = "ring_at (oc_rob ?w) (o_robIdx ?x)"
  have fin: "stays arch k c (wb_invalidate p ?w)" using completed_stays [OF inv ps(2-4)] by (simp add: ps(1))
  have "c' = (if go then wb_invalidate p ?w else wb_mispredict p (o_seq ?x) ?e ?w)"
    using step by (auto simp: writeback_one_def t x Let_def split: if_splits)
  note c' = this
  show "go \<Longrightarrow> length (oc_wbReady c') = length (oc_wbReady c) - 1"
    using ps(5) by (simp add: c' wb_invalidate_fields wb_result_fields ps(1))
  show "stays arch k c c'"
  proof (cases go)
    case True
    then show ?thesis using fin by (simp add: c')
  next
    case False
    define u where "u = (if cfg_usePredictor (oc_cfg ?w)
        then ?w\<lparr>oc_pred := pred_replay (re_pc ?e) (re_ins ?e) (re_actualTaken ?e) (pred_restore (re_predBefore ?e) (oc_pred ?w))\<rparr>
        else ?w)"
    have "data_view u = data_view ?w" by (simp add: u_def)
    note i = wb_invalidate_view [OF this, of p]
    have inv': "data_inv arch k (wb_invalidate p u)" using data_view_eq(1) [OF i] staysD(1) [OF fin] by simp
    have "stays arch k c (wb_invalidate p u)" using fin stays_cong [OF refl i] by simp
    also have "stays arch k (wb_invalidate p u) (recover (o_seq ?x) (wb_invalidate p u))" by (rule recover_stays [OF inv'])
    finally have s: "stays arch k c (recover (o_seq ?x) (wb_invalidate p u))" .
    have "data_view c' = data_view (recover (o_seq ?x) (wb_invalidate p u))"
      using False by (simp add: c' wb_mispredict_def Let_def u_def)
    then show ?thesis using s stays_cong [OF refl] by blast
  qed
qed

lemma writeback_loop_stays:
  assumes "data_inv arch k c" "n \<le> length (oc_wbReady c)"
  shows "stays arch k c (writeback_loop n c)"
  using assms
proof (induction n arbitrary: c)
  case 0
  then show ?case by (simp add: stays_refl)
next
  case (Suc n)
  obtain go d where d: "writeback_one c = (go, d)" by fastforce
  have ne: "oc_wbReady c \<noteq> []" using Suc.prems(2) by auto
  note w = writeback_one_stays [OF Suc.prems(1) ne d]
  show ?case
  proof (cases go)
    case True
    then have "stays arch k d (writeback_loop n d)" using Suc.IH [OF staysD(1) [OF w(1)]] w(2) Suc.prems(2) by simp
    then show ?thesis using stays_trans [OF w(1)] True by (simp add: d)
  qed (simp add: d w(1))
qed

theorem writebackStage_stays:
  assumes "data_inv arch k c"
  shows "stays arch k c (writebackStage c)"
proof -
  let ?d = "writeback_loop (min (unat (cfg_wbPorts (oc_cfg c))) (length (oc_wbReady c))) c"
  have "stays arch k c ?d" by (rule writeback_loop_stays [OF assms]) simp
  moreover have "data_view (writebackStage c) = data_view ?d" by (simp add: writebackStage_def Let_def)
  ultimately show ?thesis using stays_cong [OF refl] by blast
qed

section \<open>Address generation\<close>

lemma violationScan_stays:
  assumes "data_inv arch k c"
  shows "stays arch k c (violationScan st c)"
proof (cases "violation_victim st (oc_lsq c)")
  case None
  then show ?thesis using assms by (simp add: violationScan_def stays_refl)
next
  case (Some v)
  define le where "le = lsq_at v (oc_lsq c)"
  define d1 where "d1 = count_stat (\<lambda>s. s\<lparr>st_loadReplays := st_loadReplays s + 1\<rparr>) c"
  define d2 where "d2 = (if cfg_depPredictor (oc_cfg d1)
      then d1\<lparr>oc_depTable := (oc_depTable d1)[dep_index d1 (le_pc le) := 3]\<rparr> else d1)"
  define d3 where "d3 = (if cfg_usePredictor (oc_cfg d2)
      then d2\<lparr>oc_pred := pred_restore (re_predBefore (ring_at (oc_rob d2) (le_robIdx le))) (oc_pred d2)\<rparr> else d2)"
  have d: "data_view d3 = data_view c" by (simp add: d1_def d2_def d3_def)
  then have "data_inv arch k d3" using data_view_eq(1) [OF d] assms by simp
  from recover_stays [OF this] have "stays arch k c (recover (le_seq le - 1) d3)" using stays_cong [OF d refl] by blast
  moreover have "data_view (violationScan st c) = data_view (recover (le_seq le - 1) d3)"
    by (simp add: violationScan_def Some le_def d1_def d2_def d3_def Let_def del: if_split)
  ultimately show ?thesis using stays_cong [OF refl] by blast
qed

lemma rob_update_id: "rob_update idx (\<lambda>e. e) c = c"
  by (simp add: rob_update_def ring_put_def ring_at_def)

lemma lsq_fill_entries:
  assumes "ring_ok (l_ring q)"
  shows "entries (l_ring (lsq_fill idx f q)) = upd_at (unat idx) f (entries (l_ring q))"
  using entries_put [OF assms] by (simp add: lsq_at_def)

lemma resolve_ring: "l_ring (lsq_resolveAddress idx q) = l_ring (lsq_fill idx (\<lambda>e. e\<lparr>le_addrValid := True\<rparr>) q)"
  by (simp add: lsq_resolveAddress_def Let_def)

lemma resolve_entries:
  assumes "ring_ok (l_ring q)"
  shows "entries (l_ring (lsq_resolveAddress idx (lsq_fill idx f q))) =
    upd_at (unat idx) (\<lambda>e. (f e)\<lparr>le_addrValid := True\<rparr>) (entries (l_ring q))"
proof -
  have ok: "ring_ok (l_ring (lsq_fill idx f q))" using ring_ok_put [OF assms] by simp
  show ?thesis
    unfolding resolve_ring lsq_fill_entries [OF ok] lsq_fill_entries [OF assms] by (simp add: upd_at_upd o_def)
qed

lemma lsq_entry_live:
  assumes "lsq_ok q" "(unat i, le) \<in> set (entries (l_ring q))"
  shows "lsq_live i q" "lsq_at i q = le"
proof -
  have "occupied (l_ring q) (unat i)" using assms(2) by (force simp: occupied_entries)
  then show "lsq_live i q" using lsq_live_occupied [OF assms(1)] by simp
  show "lsq_at i q = le" using entries_at [OF assms(2)] by (simp add: lsq_at_def)
qed

lemma resolve_lsq_ok:
  assumes "lsq_ok q" "(unat i, le) \<in> set (entries (l_ring q))" "\<not> le_addrValid le"
  shows "lsq_ok (lsq_resolveAddress i (lsq_fill i (\<lambda>e. e\<lparr>le_addr := a, le_size := ucast (accessSize (le_op e))\<rparr>) q))"
proof -
  note l = lsq_entry_live [OF assms(1,2)]
  have f: "lsq_fill i (\<lambda>e. e\<lparr>le_addr := a, le_size := ucast (accessSize (le_op e))\<rparr>) q =
      lsq_fill i (\<lambda>e. e\<lparr>le_addr := a, le_size := ucast (accessSize (le_op le))\<rparr>) q"
    by (simp add: lsq_fill_def l(2))
  show ?thesis unfolding f using resolve_ok [OF assms(1) l(1), where a = a and n = "ucast (accessSize (le_op le))"] assms(3)
    by (simp add: entry_becomes_def l(2))
qed

lemma agu_complete_stays:
  assumes inv: "data_inv arch k c" and i: "i < length (oc_agus c)" "o_valid (f_out (oc_agus c ! i))"
  shows "stays arch k c (agu_complete i c)"
proof -
  define x where "x = f_out (oc_agus c ! i)"
  define q where "q = lsq_resolveAddress (o_lsqIdx x)
      (lsq_fill (o_lsqIdx x) (\<lambda>e. e\<lparr>le_addr := o_value x, le_size := ucast (accessSize (le_op e))\<rparr>) (oc_lsq c))"
  define d1 where "d1 = c\<lparr>oc_agus := (oc_agus c)[i := fu_drain (oc_agus c ! i)], oc_lsq := q\<rparr>"
  define le where "le = lsq_at (o_lsqIdx x) q"
  define f1 :: "rob_entry \<Rightarrow> rob_entry" where "f1 = (if le_addr le mod ucast (le_size le) \<noteq> 0 then \<lambda>e. e\<lparr>re_fault := 1\<rparr>
      else if length (bytes (ms_backing (oc_msys d1))) < unat (le_addr le) + unat (le_size le)
      then \<lambda>e. e\<lparr>re_fault := 2\<rparr> else (\<lambda>e. e))"
  define f2 :: "rob_entry \<Rightarrow> rob_entry" where
    "f2 = (if le_isStore le \<and> le_dataReady le then \<lambda>e. e\<lparr>re_done := True\<rparr> else (\<lambda>e. e))"
  define d3 where "d3 = rob_update (o_robIdx x) f2 (rob_update (o_robIdx x) f1 d1)"
  note v = data_invD [OF inv]
  have ok: "ring_ok (oc_rob c)" by (rule view_rob_ok [OF v(8)])
  have lok: "lsq_ok (oc_lsq c)" using v(3) by (simp add: queue_part_def)
  note rok = lsq_okD(1) [OF lok]
  note ops = fu_ops_drain [OF i(2), folded x_def]
  have mem: "x \<in># fl_agu (flight_of c)" using units_ops_mem [OF i(1) ops(2)] by simp
  obtain e0 le0 where a: "(unat (o_robIdx x), e0) \<in> set (entries (oc_rob c))"
    "(unat (o_lsqIdx x), le0) \<in> set (entries (l_ring (oc_lsq c)))" "\<not> le_addrValid le0"
    "le_isStore le0 = isStore (opc e0)"
    using agu_opE [OF v(7) mem] by (metis flight_of_sel(1,2))
  have q: "entries (l_ring q) = upd_at (unat (o_lsqIdx x))
      (\<lambda>le. le\<lparr>le_addr := o_value x, le_size := ucast (accessSize (le_op le)), le_addrValid := True\<rparr>) (entries (l_ring (oc_lsq c)))"
    unfolding q_def resolve_entries [OF rok] by simp
  have qok: "lsq_ok q" unfolding q_def by (rule resolve_lsq_ok [OF lok a(2,3)])
  have le: "le_isStore le = le_isStore le0" "le_dataReady le = le_dataReady le0"
  proof -
    have "(unat (o_lsqIdx x), le0\<lparr>le_addr := o_value x, le_size := ucast (accessSize (le_op le0)), le_addrValid := True\<rparr>)
        \<in> set (entries (l_ring q))" using a(2) by (auto simp: q upd_at_in)
    from lsq_entry_live(2) [OF qok this] show "le_isStore le = le_isStore le0" "le_dataReady le = le_dataReady le0"
      by (simp_all add: le_def)
  qed
  have view: "view d3 = view c"
    by (simp add: d3_def d1_def view_rob_update f1_def f2_def name_of_def)
  have r1: "ring_ok (oc_rob d1)" by (simp add: d1_def ok)
  note u1 = rob_update_entries [OF r1, of "o_robIdx x" f1] and u2 = rob_update_entries [OF rob_update_entries(2) [OF r1], of "o_robIdx x" f2]
  have rob: "entries (oc_rob d3) = upd_at (unat (o_robIdx x)) (f2 \<circ> f1) (entries (oc_rob c))"
    "r_capacity (oc_rob d3) = r_capacity (oc_rob c)"
    using u1 u2 by (simp_all add: d3_def upd_at_upd) (simp_all add: d1_def)
  have f: "oc_val d3 = oc_val c" "oc_ready d3 = oc_ready c" "oc_iq d3 = oc_iq c" "oc_units d3 = oc_units c"
    "oc_agus d3 = (oc_agus c)[i := fu_drain (oc_agus c ! i)]" "oc_lsq d3 = q" "oc_loadOuts d3 = oc_loadOuts c"
    "oc_wbReady d3 = oc_wbReady c" "oc_cfg d3 = oc_cfg c"
    by (simp_all add: d3_def) (simp_all add: d1_def)
  have fl: "flight_of d3 = addressed x (f2 \<circ> f1) (flight_of c)"
    using units_ops_del [OF i(1) ops(2,1)] by (simp add: flight_of_def addressed_def rob q f)
  have env: "env_of arch d3 = env_of arch c" by (rule env_of_eq [OF view f(2,1)])
  have one: "e = e0" if "(unat (o_robIdx x), e) \<in> set (entries (oc_rob c))" for e
    using distinct_slots [OF entries_distinct [OF ok] that a(1)] .
  have lone: "l = le0" if "(unat (o_lsqIdx x), l) \<in> set (entries (l_ring (oc_lsq c)))" for l
    using distinct_slots [OF entries_distinct [OF rok] that a(2)] .
  have flight: "flight_inv (env_of arch d3) (flight_of d3)"
    unfolding env fl
  proof (rule resolve_inv [OF v(7) mem])
    fix e l
    assume m: "(unat (o_robIdx x), e) \<in> set (fl_rob (flight_of c))" "(unat (o_lsqIdx x), l) \<in> set (fl_lsq (flight_of c))"
    have "e = e0" "l = le0" using one [OF m(1) [unfolded flight_of_sel]] lone [OF m(2) [unfolded flight_of_sel]] .
    then show "ekey ((f2 \<circ> f1) e) = ekey e \<and> (re_done ((f2 \<circ> f1) e) \<longleftrightarrow> re_done e \<or> isStore (opc e) \<and> le_dataReady l)"
      using le a(4) by (auto simp: f1_def f2_def ekey_def)
  qed
  have "set ((oc_agus c)[i := fu_drain (oc_agus c ! i)]) \<subseteq> insert (fu_drain (oc_agus c ! i)) (set (oc_agus c))"
    by (rule set_update_subset_insert)
  then have unit: "unit_part d3" using v(4) fu_ok_drain nth_mem [OF i(1)] by (auto simp: unit_part_def f)
  have regs: "regs_part arch d3" using v(2) by (simp add: regs_part_def f)
  have queue: "queue_part d3" using v(3) qok by (simp add: queue_part_def f rob)
  have port: "port_part d3" using v(5) by (simp add: port_part_def wb_cong [OF f(4,7)] f)
  note sys = sys_view [OF view ok]
  have "data_inv arch k d3"
    using view_eqD(1) [OF view] v(1) regs queue unit port sys v(6) flight by (simp add: data_inv_def)
  then have s: "stays arch k c d3" using sys by (simp add: stays_def arch_regs_def f)
  define c2 where "c2 = (if le_addr le mod ucast (le_size le) \<noteq> 0
      then rob_update (o_robIdx x) (\<lambda>e. e\<lparr>re_fault := 1\<rparr>) d1
      else if length (bytes (ms_backing (oc_msys d1))) < unat (le_addr le) + unat (le_size le)
      then rob_update (o_robIdx x) (\<lambda>e. e\<lparr>re_fault := 2\<rparr>) d1 else d1)"
  define c3 where "c3 = (if le_isStore le \<and> le_dataReady le
      then rob_update (o_robIdx x) (\<lambda>e. e\<lparr>re_done := True\<rparr>) c2 else c2)"
  have "c2 = rob_update (o_robIdx x) f1 d1" by (simp add: c2_def f1_def rob_update_id)
  then have "c3 = d3" by (simp add: c3_def d3_def f2_def rob_update_id)
  moreover have "agu_complete i c = c3 \<or> agu_complete i c = violationScan le c3"
    by (simp add: agu_complete_def Let_def flip: x_def) (simp add: c3_def c2_def le_def d1_def q_def)
  ultimately have "agu_complete i c = d3 \<or> agu_complete i c = violationScan le d3" by simp
  then show ?thesis using s stays_trans [OF s violationScan_stays [OF staysD(1) [OF s]]] by auto
qed

lemma agu_loop_stays:
  assumes "data_inv arch k c"
  shows "stays arch k c (agu_loop n c)"
  using assms
proof (induction n arbitrary: c)
  case (Suc n)
  show ?case
  proof (cases "agu_ready (oc_agus c)")
    case None
    then show ?thesis using Suc.prems by (simp add: stays_refl)
  next
    case (Some i)
    then have "i < length (oc_agus c)" "o_valid (f_out (oc_agus c ! i))" using agu_ready_cases [of "oc_agus c"] by simp_all
    note a = agu_complete_stays [OF Suc.prems this]
    show ?thesis using stays_trans [OF a Suc.IH [OF staysD(1) [OF a]]] Some by simp
  qed
qed (simp add: stays_refl)

theorem aguDrain_stays:
  assumes "data_inv arch k c"
  shows "stays arch k c (aguDrain c)"
  unfolding aguDrain_def by (rule agu_loop_stays [OF assms])

end
