(* ===== verification/Member_Walks.thy ===== *)
theory Member_Walks
  imports Frames
begin

text \<open>
  A rule for the walks over slot sets: a visitor that changes no membership but its own slot's sees
  only slots that are still members, so what every visit of a member keeps, the walk keeps.
\<close>

section \<open>Walks\<close>

lemma walk_members:
  assumes own: "own_slot getw n f" and len: "length (getw s) = n"
    and xs: "distinct xs" "\<forall>x \<in> set xs. x < 64 * n \<and> member (getw s) x"
    and start: "I s" and fin: "\<And>s. I s \<Longrightarrow> Q s"
    and step: "\<And>x s go s'. I s \<Longrightarrow> x < 64 * n \<Longrightarrow> length (getw s) = n \<Longrightarrow> member (getw s) x \<Longrightarrow>
      f x s = (go, s') \<Longrightarrow> if go then I s' else Q s'"
  shows "Q (snd (walk f xs s))"
  using len xs start
proof (induction xs arbitrary: s)
  case Nil
  then show ?case using fin by simp
next
  case (Cons x xs)
  obtain go s' where f: "f x s = (go, s')" by fastforce
  have x: "x < 64 * n" "member (getw s) x" using Cons.prems(3) by simp_all
  note st = step [OF Cons.prems(4) x(1) Cons.prems(1) x(2) f]
  show ?case
  proof (cases go)
    case True
    have n: "length (getw s') = n" and other: "\<And>y. y < 64 * n \<Longrightarrow> y \<noteq> x \<Longrightarrow> member (getw s') y = member (getw s) y"
      using own Cons.prems(1) f unfolding own_slot_def by (metis snd_conv)+
    have "\<forall>y \<in> set xs. y < 64 * n \<and> member (getw s') y" using Cons.prems(2,3) other by auto
    then show ?thesis using Cons.IH [OF n] Cons.prems(2) st True by (simp add: f)
  next
    case False
    then show ?thesis using st by (simp add: f)
  qed
qed

section \<open>Visitors of slots in range\<close>

text \<open>A visitor that takes its slot as a 32-bit number is the one it is on the slots there are.\<close>

definition clip :: "nat \<Rightarrow> 's visitor \<Rightarrow> 's visitor" where
  "clip n f x s = (if x < n then f x s else (True, s))"

lemma walk_clip: "\<forall>x \<in> set xs. x < n \<Longrightarrow> walk (clip n f) xs s = walk f xs s"
  by (induction xs arbitrary: s) (simp_all add: clip_def split: prod.split)

lemma forwardBits_clip:
  assumes "base + 64 \<le> n"
  shows "forwardBits (clip n f) bits base s = forwardBits f bits base s"
  unfolding forwardBits_walk by (rule walk_clip) (use assms in \<open>auto simp: bits_of_def\<close>)

lemma forward_words_clip:
  assumes "\<forall>w \<in> set ws. w * 64 + 64 \<le> n"
  shows "forward_words getw (clip n f) b e ws s = forward_words getw f b e ws s"
  using assms
proof (induction ws arbitrary: s)
  case (Cons w ws)
  have "forwardBits (clip n f) bits (w * 64) t = forwardBits f bits (w * 64) t" for bits t
    by (rule forwardBits_clip) (use Cons.prems in simp)
  moreover have "forward_words getw (clip n f) b e ws t = forward_words getw f b e ws t" for t
    by (rule Cons.IH) (use Cons.prems in simp)
  ultimately show ?case unfolding forward_words_Cons by (auto split: prod.split)
qed simp

lemma ss_visit_clip:
  assumes "0 < capacity" "head < capacity" "n = 64 * ((capacity + 63) div 64)"
  shows "ss_visit capacity getw head (clip n f) s = ss_visit capacity getw head f s"
proof -
  have n: "64 \<le> n" using assms by simp
  have bound: "w * 64 + 64 \<le> n" if "w < Suc ((e - 1) div 64)" "e \<le> capacity" for w e
  proof -
    have "w \<le> (capacity - 1) div 64" using that by (meson diff_le_mono div_le_mono le_trans less_Suc_eq_le)
    moreover have "capacity + 63 = (capacity - 1) + 64" using assms(1) by simp
    then have "(capacity + 63) div 64 = Suc ((capacity - 1) div 64)" by (simp only: div_add_self2)
    ultimately show ?thesis using assms(3) by simp
  qed
  have "forward_words getw (clip n f) b e [b div 64..<Suc ((e - 1) div 64)] t =
      forward_words getw f b e [b div 64..<Suc ((e - 1) div 64)] t" if "e \<le> capacity" for b e t
    by (rule forward_words_clip) (metis bound that atLeastLessThan_iff set_upt)
  then have "forward getw (clip n f) b e t = forward getw f b e t" if "e \<le> capacity" for b e t
    using that unfolding forward_def by metis
  note f = this
  have "forward getw (clip n f) head capacity t = forward getw f head capacity t"
    "forward getw (clip n f) 0 head t = forward getw f 0 head t"
    "forwardBits (clip n f) bits 0 t = forwardBits f bits 0 t" for t bits
    using f [of capacity] f [of head] forwardBits_clip [of 0 n] n assms(2) by simp_all
  then show ?thesis unfolding ss_visit_def by (simp only: cong: if_cong)
qed

section \<open>The load/store queue and the issue queue\<close>

lemma live_slots_distinct:
  assumes "ring_ok r"
  shows "distinct (live_slots r P)"
  unfolding live_slots_def distinct_map
  using slot_inj [OF assms] ring_okD(3) [OF assms] by (auto simp: inj_on_def)

lemma visit_tracking_members:
  assumes "ring_ok r" "tracks r (getw s) P" and n: "length (getw s) = n"
    and own: "own_slot getw n (clip (64 * n) f)" and start: "I s" and fin: "\<And>s. I s \<Longrightarrow> Q s"
    and step: "\<And>x s go s'. I s \<Longrightarrow> x < 64 * n \<Longrightarrow> length (getw s) = n \<Longrightarrow> member (getw s) x \<Longrightarrow>
      f x s = (go, s') \<Longrightarrow> if go then I s' else Q s'"
  shows "Q (ss_visit (unat (r_capacity r)) getw (unat (ring_indexOf r 0)) f s)"
proof -
  let ?xs = "live_slots r P"
  note so = tracks_slots [OF assms(2)]
  have cap: "0 < unat (r_capacity r)" "n = (unat (r_capacity r) + 63) div 64" "unat (r_capacity r) \<le> 64 * n"
    using so slots_ok_bound [OF so] by (simp_all add: slots_ok_def n)
  have head: "unat (ring_indexOf r 0) < unat (r_capacity r)"
    using ring_head_slot [OF assms(1)] ring_okD(2) [OF assms(1)] by simp
  have "own_slot getw (length (getw s)) (clip (64 * n) f)" using own by (simp add: n)
  from visit_tracking [where getw = getw and s = s, OF assms(1,2) this]
  have v: "ss_visit (unat (r_capacity r)) getw (unat (ring_indexOf r 0)) f s = snd (walk (clip (64 * n) f) ?xs s)"
    using ss_visit_clip [OF cap(1) head, of "64 * n" getw f s] cap(2) by simp
  have xs: "\<forall>x \<in> set ?xs. x < 64 * n \<and> member (getw s) x"
  proof
    fix x assume "x \<in> set ?xs"
    then have "x \<in> set (filter (member (getw s)) (age_order (unat (r_headIdx r)) (unat (r_capacity r))))"
      by (simp only: tracks_age_order [OF assms(1,2)])
    moreover have "x < unat (r_capacity r)" using \<open>x \<in> set ?xs\<close> by (rule live_slots_less [OF assms(1)])
    ultimately show "x < 64 * n \<and> member (getw s) x" using cap(3) by simp
  qed
  show ?thesis
    unfolding v
  proof (rule walk_members [where I = I and Q = Q, OF own n live_slots_distinct [OF assms(1)] xs start])
    show "Q t" if "I t" for t using that by (rule fin)
    show "if go then I s' else Q s'" if "I t" "x < 64 * n" "length (getw t) = n" "member (getw t) x"
      "clip (64 * n) f x t = (go, s')" for x t go s'
      using step [OF that(1-4), of go s'] that(5) that(2) by (simp add: clip_def)
  qed
qed

lemma visitReady_members:
  assumes ok: "iq_ok P {} (getq s)" and head: "head < iq_slots (getq s)"
    and own: "own_slot (\<lambda>s. iq_ready (getq s)) (iq_words (getq s)) f"
    and start: "I s" and fin: "\<And>s. I s \<Longrightarrow> Q s"
    and step: "\<And>x s go s'. I s \<Longrightarrow> x < 64 * length (iq_ready (getq s)) \<Longrightarrow> rdy (getq s) x \<Longrightarrow> f x s = (go, s') \<Longrightarrow>
      if go then I s' else Q s'"
  shows "Q (iq_visitReady getq head f s)"
proof -
  have len: "length (iq_ready (getq s)) = iq_words (getq s)" using iq_okD(1) [OF ok] by (simp add: iq_shape_def)
  have d: "distinct (filter (rdy (getq s)) (age_order head (iq_slots (getq s))))"
    by (auto simp: age_order_def)
  show ?thesis
    unfolding visitReady_walk [OF own len head]
  proof (rule walk_members [where getw = "\<lambda>s. iq_ready (getq s)" and I = I and Q = Q, OF own len d _ start])
    show "Q t" if "I t" for t using that by (rule fin)
    show "if go then I s' else Q s'" if "I t" "x < 64 * iq_words (getq s)" "length (iq_ready (getq t)) = iq_words (getq s)"
      "rdy (getq t) x" "f x t = (go, s')" for x t go s'
      using step [OF that(1) _ that(4,5)] that(2,3) by simp
    show "\<forall>x \<in> set (filter (rdy (getq s)) (age_order head (iq_slots (getq s)))).
        x < 64 * iq_words (getq s) \<and> rdy (getq s) x"
      using head by (auto simp: age_order_def iq_slots_def)
  qed
qed

end
