(* ===== verification/Core_Data_Mem.thy ===== *)
theory Core_Data_Mem
  imports Core_Data_Back Member_Walks
begin

text \<open>
  The data flow through the memory engine: answers of the data port, captured store data, loads that
  report their value, forwarded and issued loads.
\<close>

section \<open>Changes of the queue\<close>

lemma port_same:
  assumes "oc_units c' = oc_units c" "oc_loadOuts c' = oc_loadOuts c" "oc_wbReady c' = oc_wbReady c" "port_part c"
  shows "port_part c'"
  using assms(3,4) by (simp add: port_part_def wb_cong [OF assms(1,2)])

lemma unit_same:
  assumes "oc_units c' = oc_units c" "oc_agus c' = oc_agus c" "oc_cfg c' = oc_cfg c" "unit_part c"
  shows "unit_part c'"
  using assms by (simp add: unit_part_def)

lemma staysI:
  assumes inv: "data_inv arch k c" and view: "view c' = view c"
    and same: "oc_val c' = oc_val c" "oc_ready c' = oc_ready c"
    and parts: "queue_part c'" "unit_part c'" "port_part c'"
    and flight: "flight_inv (env_of arch c) (flight_of c')"
  shows "stays arch k c c'"
proof -
  note d = data_invD [OF inv] and v = view_eqD [OF view]
  note sys = sys_view [OF view view_rob_ok [OF d(8)]]
  have "regs_part arch c'" using d(2) by (simp add: regs_part_def same v)
  then show ?thesis
    using d parts flight sys by (simp add: stays_def data_inv_def v arch_regs_def env_of_eq [OF view same(2,1)] same)
qed

text \<open>A load changes in a way the instructions do not see.\<close>

lemma load_touch_stays:
  assumes inv: "data_inv arch k c" and m: "(unat i, le) \<in> set (entries (l_ring (oc_lsq c)))" "\<not> le_isStore le"
    and q: "lsq_ok q'" "l_ring q' = ring_put i (g (lsq_at i (oc_lsq c))) (l_ring (oc_lsq c))"
    and g: "lkey (unat i, g le) = lkey (unat i, le)" "le_addrValid (g le) = le_addrValid le"
      "le_reported (g le) = le_reported le"
  shows "stays arch k c (c\<lparr>oc_lsq := q'\<rparr>)"
proof -
  let ?c = "c\<lparr>oc_lsq := q'\<rparr>"
  note d = data_invD [OF inv]
  have lok: "lsq_ok (oc_lsq c)" using d(3) by (simp add: queue_part_def)
  note rok = lsq_okD(1) [OF lok]
  have one: "l = le" if "(unat i, l) \<in> set (entries (l_ring (oc_lsq c)))" for l
    using distinct_slots [OF entries_distinct [OF rok] that m(1)] .
  have "flight_of ?c = (flight_of c)\<lparr>fl_lsq := upd_at (unat i) g (fl_lsq (flight_of c))\<rparr>"
    using entries_put [OF rok, of i g] by (simp add: flight_of_def q(2) lsq_at_def)
  moreover have "flight_inv (env_of arch c) \<dots>"
    by (rule touch_inv [OF d(7)]) (use one m(2) g in auto)
  ultimately have "flight_inv (env_of arch c) (flight_of ?c)" by simp
  moreover have "queue_part ?c" using d(3) q(1) by (simp add: queue_part_def)
  moreover have "unit_part ?c" by (rule unit_same [OF _ _ _ d(4)]) simp_all
  moreover have "port_part ?c" by (rule port_same [OF _ _ _ d(5)]) simp_all
  ultimately show ?thesis by (intro staysI [OF inv]) simp_all
qed

lemma entries_put_eq:
  assumes "ring_ok r" "r' = ring_put i v r" "v = f (ring_at r i)"
  shows "entries r' = upd_at (unat i) f (entries r)"
  unfolding assms(2,3) by (rule entries_put [OF assms(1)])

lemma live_entry:
  assumes "lsq_ok q" "lsq_live i q"
  shows "(unat i, lsq_at i q) \<in> set (entries (l_ring q))"
  using occupied_at [of "l_ring q" i] lsq_live_occupied [OF assms(1)] assms(2) by (simp add: lsq_at_def)

lemma completeLoad_stays:
  assumes inv: "data_inv arch k c" and m: "lsq_live i (oc_lsq c)" "is_candidate (lsq_at i (oc_lsq c)) \<or> is_pending (lsq_at i (oc_lsq c))"
  shows "stays arch k c (c\<lparr>oc_lsq := lsq_completeLoad i v (oc_lsq c)\<rparr>)"
proof -
  let ?q = "oc_lsq c"
  have lok: "lsq_ok ?q" using data_invD(3) [OF inv] by (simp add: queue_part_def)
  have "lsq_ok (lsq_completeLoad i v ?q)" using completeLoad_ok [OF lok m, of v] by (simp add: entry_becomes_def)
  moreover have "\<not> le_isStore (lsq_at i ?q)" using m(2) by (auto simp: entry_kinds)
  moreover have "l_ring (lsq_completeLoad i v ?q) = ring_put i ((lsq_at i ?q)\<lparr>le_value := v, le_done := True\<rparr>) (l_ring ?q)"
    by (simp add: lsq_completeLoad_def)
  ultimately show ?thesis
    using load_touch_stays [OF inv live_entry [OF lok m(1)], where g = "\<lambda>e. e\<lparr>le_value := v, le_done := True\<rparr>"]
    by (simp add: lkey_def)
qed

lemma issueLoad_stays:
  assumes inv: "data_inv arch k c" and m: "lsq_live i (oc_lsq c)" "is_candidate (lsq_at i (oc_lsq c))"
  shows "stays arch k c (c\<lparr>oc_lsq := lsq_issueLoad i (oc_lsq c)\<rparr>)"
proof -
  let ?q = "oc_lsq c"
  have lok: "lsq_ok ?q" using data_invD(3) [OF inv] by (simp add: queue_part_def)
  have "lsq_ok (lsq_issueLoad i ?q)" using issueLoad_ok [OF lok m] by (simp add: entry_becomes_def)
  moreover have "\<not> le_isStore (lsq_at i ?q)" using m(2) by (auto simp: entry_kinds)
  moreover have "l_ring (lsq_issueLoad i ?q) = ring_put i ((lsq_at i ?q)\<lparr>le_issued := True\<rparr>) (l_ring ?q)"
    by (simp add: lsq_issueLoad_def)
  ultimately show ?thesis
    using load_touch_stays [OF inv live_entry [OF lok m(1)], where g = "\<lambda>e. e\<lparr>le_issued := True\<rparr>"]
    by (simp add: lkey_def)
qed

section \<open>Answers\<close>

lemma respond_stays:
  assumes "data_inv arch k c"
  shows "stays arch k c (respond r c)"
proof (cases "is_store_tag (rs_tag r)")
  case True
  then show ?thesis by (intro stays_view [OF assms]) (simp add: respond_def)
next
  case False
  let ?i = "tag_slot (rs_tag r)" and ?q = "oc_lsq c"
  show ?thesis
  proof (cases "lsq_respond (rs_tag r) (rs_rdata r) ?q = ?q")
    case True
    then show ?thesis using False by (intro stays_view [OF assms]) (simp add: respond_def data_view_def)
  next
    case act: False
    then have "lsq_live ?i ?q" "is_pending (lsq_at ?i ?q)"
      "lsq_respond (rs_tag r) (rs_rdata r) ?q = lsq_completeLoad ?i (extendLoad (le_op (lsq_at ?i ?q)) (rs_rdata r)) ?q"
      by (auto simp: lsq_respond_def Let_def lsq_live_def is_pending_def split: if_splits)
    then show ?thesis using completeLoad_stays [OF assms, of ?i] False by (simp add: respond_def)
  qed
qed

lemma drain_stays:
  assumes "data_inv arch k c"
  shows "stays arch k c (drainDataResponses c)"
  using assms
proof (induction c rule: drainDataResponses.induct)
  case (1 c)
  show ?case
  proof (cases "dmem_hasResponse (oc_msys c)")
    case True
    let ?d = "c\<lparr>oc_msys := dmem_popResponse (oc_msys c)\<rparr>"
    let ?e = "respond (dmem_frontResponse (oc_msys c)) ?d"
    have "stays arch k c ?d" by (rule stays_view [OF "1.prems"]) simp
    also have e: "stays arch k ?d ?e" by (rule respond_stays [OF staysD(1) [OF calculation]])
    also have "stays arch k ?e (drainDataResponses ?e)" by (rule "1.IH" [OF True staysD(1) [OF e]])
    finally show ?thesis using True by (subst drainDataResponses.simps) simp
  next
    case False
    then show ?thesis using "1.prems" by (subst drainDataResponses.simps) (simp add: stays_refl)
  qed
qed

section \<open>Updates\<close>

lemma capture_stays:
  assumes inv: "data_inv arch k c" and live: "lsq_live i (oc_lsq c)"
  shows "stays arch k c (capture_store i c)"
proof -
  let ?q = "oc_lsq c"
  let ?le = "lsq_at i ?q"
  let ?v = "oc_val c ! unat (le_dataPreg ?le)"
  note d = data_invD [OF inv]
  have lok: "lsq_ok ?q" using d(3) by (simp add: queue_part_def)
  note m = live_entry [OF lok live]
  show ?thesis
  proof (cases "le_isStore ?le \<and> \<not> le_dataReady ?le \<and> oc_ready c ! unat (le_dataPreg ?le)")
    case False
    then show ?thesis by (auto simp: capture_store_def Let_def stays_refl [OF inv])
  next
    case True
    define f :: "rob_entry \<Rightarrow> rob_entry" where "f = (if le_addrValid ?le then \<lambda>e. e\<lparr>re_done := True\<rparr> else (\<lambda>e. e))"
    let ?q' = "lsq_captureStoreData i ?v ?q"
    let ?c = "rob_update (le_robIdx ?le) f (c\<lparr>oc_lsq := ?q'\<rparr>)"
    have c: "capture_store i c = ?c"
    proof (cases "le_addrValid ?le")
      case True
      then show ?thesis using \<open>le_isStore ?le \<and> _\<close> by (simp add: capture_store_def Let_def f_def)
    next
      case False
      then have "f = (\<lambda>e. e)" by (simp add: f_def)
      then show ?thesis using \<open>le_isStore ?le \<and> _\<close> False rob_update_id by (simp add: capture_store_def Let_def)
    qed
    have q': "lsq_ok ?q'" using captureStoreData_ok [OF lok live, of ?v] True
      by (simp add: entry_becomes_def is_waiting_def)
    have lsq: "entries (l_ring ?q') = upd_at (unat i) (\<lambda>e. e\<lparr>le_data := ?v, le_dataReady := True\<rparr>) (entries (l_ring ?q))"
      by (rule entries_put_eq [OF lsq_okD(1) [OF lok], where v = "?le\<lparr>le_data := ?v, le_dataReady := True\<rparr>"])
        (simp add: lsq_captureStoreData_def, simp only: lsq_at_def)
    have rok: "ring_ok (oc_rob (c\<lparr>oc_lsq := ?q'\<rparr>))" using view_rob_ok [OF d(8)] by simp
    note u = rob_update_entries [OF rok, of "le_robIdx ?le" f]
    have "flight_of ?c = captured (unat i) ?v (unat (le_robIdx ?le)) f (flight_of c)"
      using u(1) by (simp add: flight_of_def captured_def lsq)
    moreover have "flight_inv (env_of arch c) (captured (unat i) ?v (unat (le_robIdx ?le)) f (flight_of c))"
      using capture_inv [OF d(7), of "unat i" ?le f] m True by (simp add: f_def ekey_def)
    ultimately have "flight_inv (env_of arch c) (flight_of ?c)" by simp
    moreover have "queue_part ?c" using d(3) q' u(3) by (simp add: queue_part_def)
    moreover have "unit_part ?c" by (rule unit_same [OF _ _ _ d(4)]) simp_all
    moreover have "port_part ?c" by (rule port_same [OF _ _ _ d(5)]) simp_all
    moreover have "view ?c = view c" by (simp add: view_rob_update f_def name_of_def)
    ultimately show ?thesis unfolding c by (intro staysI [OF inv]) simp_all
  qed
qed

lemma next_output_free:
  assumes "next_output k outs < length outs"
  shows "\<not> o_valid (outs ! next_output k outs)"
proof -
  obtain i where i: "find (\<lambda>i. \<not> o_valid (outs ! i)) [k..<length outs] = Some i"
    using assms by (auto simp: next_output_def split: option.splits)
  then have "\<not> o_valid (outs ! i)" by (auto simp: find_Some_iff)
  then show ?thesis by (simp add: next_output_def i)
qed

lemma surface_stays:
  assumes inv: "data_inv arch k c" and live: "lsq_live i (oc_lsq c)"
  shows "stays arch k c (fst (surface_load i (c, n)))"
proof -
  let ?q = "oc_lsq c"
  let ?le = "lsq_at i ?q" and ?j = "next_output n (oc_loadOuts c)"
  note d = data_invD [OF inv]
  have lok: "lsq_ok ?q" using d(3) by (simp add: queue_part_def)
  note m = live_entry [OF lok live]
  show ?thesis
  proof (cases "\<not> le_isStore ?le \<and> le_done ?le \<and> \<not> le_reported ?le \<and> ?j < length (oc_loadOuts c)")
    case False
    then show ?thesis using stays_refl [OF inv] by (auto simp: surface_load_def Let_def)
  next
    case True
    then have j: "?j < length (oc_loadOuts c)" by simp
    define x where "x = (oc_loadOuts c ! ?j)\<lparr>o_valid := True, o_seq := le_seq ?le, o_robIdx := le_robIdx ?le,
        o_pdst := le_pdst ?le, o_value := le_value ?le\<rparr>"
    let ?c = "c\<lparr>oc_loadOuts := (oc_loadOuts c)[?j := x], oc_wbReady := oc_wbReady c @ [Load_Out ?j],
        oc_lsq := lsq_reportLoad i ?q\<rparr>"
    have c: "fst (surface_load i (c, n)) = ?c" using True by (simp add: surface_load_def Let_def x_def)
    have q': "lsq_ok (lsq_reportLoad i ?q)" using reportLoad_ok [OF lok live] True
      by (simp add: entry_becomes_def is_unreported_def)
    have lsq: "entries (l_ring (lsq_reportLoad i ?q)) = upd_at (unat i) (\<lambda>e. e\<lparr>le_reported := True\<rparr>) (entries (l_ring ?q))"
      by (rule entries_put_eq [OF lsq_okD(1) [OF lok], where v = "?le\<lparr>le_reported := True\<rparr>"])
        (simp add: lsq_reportLoad_def, simp only: lsq_at_def)
    have x: "o_valid x" "o_seq x = le_seq ?le" "o_robIdx x = le_robIdx ?le" "o_pdst x = le_pdst ?le" by (simp_all add: x_def)
    note free = next_output_free [OF j]
    have "slots_ops ((oc_loadOuts c)[?j := x]) = add_mset x (slots_ops (oc_loadOuts c))"
      using mset_filter_upd [of ?j "oc_loadOuts c" o_valid x] j free x(1) by (simp add: slots_ops_def)
    then have "flight_of ?c = surfaced (unat i) x (flight_of c)"
      by (simp add: flight_of_def surfaced_def lsq)
    moreover have "le_addrValid ?le" using lsq_entry_ok [OF lok live] True by (simp add: entry_ok_def)
    then have "flight_inv (env_of arch c) (surfaced (unat i) x (flight_of c))"
      using surface_inv [OF d(7), of "unat i" ?le x] m True x by simp
    ultimately have "flight_inv (env_of arch c) (flight_of ?c)" by simp
    moreover have "queue_part ?c" using d(3) q' by (simp add: queue_part_def)
    moreover have "unit_part ?c" using d(4) by (simp add: unit_part_def)
    moreover have "port_part ?c"
    proof -
      have new: "Load_Out ?j \<notin> set (oc_wbReady c)" using d(5) free by (auto simp: port_part_def)
      have "wb_in ?c p \<and> o_valid (wb_slot ?c p)" if "p \<in> set (oc_wbReady c)" for p
      proof -
        have "p \<noteq> Load_Out ?j" using that new by blast
        then show ?thesis using d(5) that by (cases p) (auto simp: port_part_def)
      qed
      then show ?thesis using d(5) new j x(1) by (simp add: port_part_def)
    qed
    ultimately show ?thesis unfolding c by (intro staysI [OF inv]) simp_all
  qed
qed

section \<open>The walks\<close>

text \<open>A visitor that changes the set at its own slot only.\<close>

definition only_at :: "nat \<Rightarrow> u64 list \<Rightarrow> u64 list \<Rightarrow> bool" where
  "only_at x ws ws' \<longleftrightarrow> length ws' = length ws \<and>
     (\<forall>y < 64 * length ws. y \<noteq> x \<longrightarrow> member ws' y = member ws y)"

lemma only_at_refl [simp]: "only_at x ws ws"
  by (simp add: only_at_def)

lemma only_at_trans: "only_at x ws ws' \<Longrightarrow> only_at x ws' ws'' \<Longrightarrow> only_at x ws ws''"
  by (simp add: only_at_def)

lemma only_at_reset: "x < 64 * length ws \<Longrightarrow> only_at x ws (word_reset x ws)"
  by (simp add: only_at_def member_word_reset)

lemma own_slot_clip:
  assumes "\<And>x s. x < 64 * n \<Longrightarrow> length (getw s) = n \<Longrightarrow> only_at x (getw s) (getw (snd (f x s)))"
  shows "own_slot getw n (clip (64 * n) f)"
  using assms by (auto simp: own_slot_def clip_def only_at_def)

lemma tracked_entry:
  assumes "lsq_ok q" "tracks (l_ring q) ws P" "member ws x" "x < 64 * length ws"
  shows "unat (word_of_nat x :: u32) = x" "lsq_live (word_of_nat x) q" "P (lsq_at (word_of_nat x) q)"
proof -
  have "x < unat (r_capacity (l_ring q))"
    using tracks_slots [OF assms(2)] assms(3,4) by (meson not_le slots_ok_def)
  then show x: "unat (word_of_nat x :: u32) = x"
    using unat_less_pow32 [of "r_capacity (l_ring q)"] by (intro unat_of_nat_32) simp
  have "occupied (l_ring q) x \<and> P (r_e (l_ring q) ! x)"
    using tracks_member [OF assms(2) \<open>x < unat _\<close>] assms(3) by simp
  then show "lsq_live (word_of_nat x) q" "P (lsq_at (word_of_nat x) q)"
    using x lsq_live_occupied [OF assms(1)] by (simp_all add: lsq_at_def ring_at_def)
qed

text \<open>The slots of a queue fit 32-bit numbers.\<close>

lemma slots_32:
  assumes "lsq_ok q" "tracks (l_ring q) ws P"
  shows "64 * length ws \<le> 4294967296"
proof -
  have "length ws = (unat (r_capacity (l_ring q)) + 63) div 64"
    using tracks_slots [OF assms(2)] by (simp add: slots_ok_def)
  moreover have "(unat (r_capacity (l_ring q)) + 63) div 64 \<le> (4294967295 + 63) div 64"
    by (rule div_le_mono) (use unat_less_pow32 [of "r_capacity (l_ring q)"] in simp)
  ultimately show ?thesis by simp
qed

lemma ring_live_put [simp]: "ring_live (ring_put i v r) = ring_live r"
  by (simp add: ring_live_def fun_eq_iff)

lemma capture_updates:
  assumes "unat i < 64 * length (l_updates (oc_lsq c))"
  shows "only_at (unat i) (l_updates (oc_lsq c)) (l_updates (oc_lsq (capture_store i c)))"
  using only_at_reset [OF assms] by (simp add: capture_store_def Let_def lsq_captureStoreData_def)

lemma surface_updates:
  assumes "unat i < 64 * length (l_updates (oc_lsq c))"
  shows "only_at (unat i) (l_updates (oc_lsq c)) (l_updates (oc_lsq (fst (surface_load i (c, n)))))"
  using only_at_reset [OF assms] by (simp add: surface_load_def Let_def lsq_reportLoad_def)

lemma lsq_updates_stays:
  assumes inv: "data_inv arch k c"
  shows "stays arch k c (lsq_updates c)"
proof -
  let ?getw = "\<lambda>s. l_updates (oc_lsq (fst s)) :: u64 list"
  let ?I = "\<lambda>s. stays arch k c (fst s)" and ?n = "length (l_updates (oc_lsq c))"
  have lok: "lsq_ok (oc_lsq c)" using data_invD(3) [OF inv] by (simp add: queue_part_def)
  note ok = lsq_okD [OF lok]
  have b: "64 * ?n \<le> 4294967296" by (rule slots_32 [OF lok ok(5)])
  have own: "own_slot ?getw ?n (clip (64 * ?n) update_visitor)"
  proof (rule own_slot_clip)
    fix x and s :: "core \<times> nat"
    assume x: "x < 64 * ?n" "length (?getw s) = ?n"
    obtain e m where s: "s = (e, m)" by fastforce
    let ?i = "word_of_nat x :: u32"
    have i: "unat ?i = x" using x(1) b by (intro unat_of_nat_32) simp
    have cap: "only_at x (l_updates (oc_lsq e)) (l_updates (oc_lsq (capture_store ?i e)))"
      using capture_updates [of ?i e] x by (simp add: i s)
    then have "x < 64 * length (l_updates (oc_lsq (capture_store ?i e)))" using x by (simp add: only_at_def s)
    then show "only_at x (?getw s) (?getw (snd (update_visitor x s)))"
      using only_at_trans [OF cap] surface_updates [of ?i "capture_store ?i e" m] by (simp add: i s update_visitor_def)
  qed
  have "?I (ss_visit (unat (r_capacity (l_ring (oc_lsq c)))) ?getw (unat (ring_indexOf (l_ring (oc_lsq c)) 0)) update_visitor (c, 0))"
  proof (rule visit_tracking_members [where getw = ?getw and I = ?I and Q = ?I and s = "(c, 0)" and n = ?n and P = is_update])
    fix x s go s'
    assume h: "stays arch k c (fst s)" "x < 64 * ?n" "length (l_updates (oc_lsq (fst s))) = ?n"
      "member (l_updates (oc_lsq (fst s))) x" "update_visitor x s = (go, s')"
    obtain e m where s: "s = (e, m)" by fastforce
    let ?i = "word_of_nat x :: u32"
    note inv' = staysD(1) [OF h(1)]
    have lok': "lsq_ok (oc_lsq e)" using data_invD(3) [OF inv'] by (simp add: queue_part_def s)
    have live: "lsq_live ?i (oc_lsq e)"
      by (rule tracked_entry(2) [OF lok' lsq_okD(5) [OF lok']]) (use h in \<open>simp_all add: s\<close>)
    have inv'': "data_inv arch k e" using inv' by (simp add: s)
    note a = capture_stays [OF inv'' live]
    have live2: "lsq_live ?i (oc_lsq (capture_store ?i e))"
      using live by (simp add: capture_store_def Let_def lsq_live_def lsq_captureStoreData_def)
    note b = surface_stays [OF staysD(1) [OF a] live2]
    have "stays arch k c (fst s')"
      using stays_trans [OF h(1) [unfolded s fst_conv] stays_trans [OF a b]] h(5) by (auto simp: update_visitor_def s)
    then show "if go then stays arch k c (fst s') else stays arch k c (fst s')" by simp
  qed (use ok(1,5) own stays_refl [OF inv] in simp_all)
  then show ?thesis
    using stays_refl [OF inv]
    by (simp add: lsq_updates_def lsq_visitUpdates_def lsq_capacity_def lsq_head_def case_prod_beta)
qed

text \<open>The load chosen for the port is a candidate.\<close>

definition chosen :: "core \<Rightarrow> (u32 \<times> bool) option \<Rightarrow> bool" where
  "chosen c cand \<longleftrightarrow> (\<forall>i w. cand = Some (i, w) \<longrightarrow> lsq_live i (oc_lsq c) \<and> is_candidate (lsq_at i (oc_lsq c)))"

lemma candidate_step:
  assumes "candidate_visitor u p x (e, cand) = (go, e', cand')"
  defines "i \<equiv> word_of_nat x :: u32"
  shows "\<exists>v. (data_view e' = data_view e \<or> data_view e' = data_view (e\<lparr>oc_lsq := lsq_completeLoad i v (oc_lsq e)\<rparr>)) \<and>
    (oc_lsq e' = oc_lsq e \<or> oc_lsq e' = lsq_completeLoad i v (oc_lsq e)) \<and>
    (cand' = cand \<or> (\<not> go \<and> oc_lsq e' = oc_lsq e \<and> (\<exists>w. cand' = Some (i, w))))"
proof (cases "re_fault (ring_at (oc_rob e) (le_robIdx (lsq_at i (oc_lsq e)))) \<noteq> 0")
  case True
  then show ?thesis using assms
    by (intro exI [of _ 0]) (auto simp: candidate_visitor_def Let_def split: if_splits)
next
  case False
  show ?thesis
  proof (cases "forward_search x e")
    case (Forward v)
    then show ?thesis using assms False
      by (intro exI [of _ v]) (auto simp: candidate_visitor_def Let_def split: if_splits)
  qed (use assms False in \<open>auto simp: candidate_visitor_def Let_def split: if_splits\<close>)
qed

lemma find_candidate_stays:
  assumes inv: "data_inv arch k c"
  shows "stays arch k c (fst (find_candidate c)) \<and> chosen (fst (find_candidate c)) (snd (find_candidate c))"
proof -
  let ?getw = "\<lambda>s. l_candidates (oc_lsq (fst s)) :: u64 list"
  let ?I = "\<lambda>s. stays arch k c (fst s) \<and> snd s = None"
  let ?Q = "\<lambda>s. stays arch k c (fst s) \<and> chosen (fst s) (snd s)"
  let ?n = "length (l_candidates (oc_lsq c))"
  define u where "u = lsq_oldestUnknownStore (oc_lsq c)"
  define p where "p = (if cfg_memOrder (oc_cfg c) = Conservative then lsq_oldestPendingLoad (oc_lsq c) else - 1)"
  have lok: "lsq_ok (oc_lsq c)" using data_invD(3) [OF inv] by (simp add: queue_part_def)
  note ok = lsq_okD [OF lok]
  have b: "64 * ?n \<le> 4294967296" by (rule slots_32 [OF lok ok(3)])
  have own: "own_slot ?getw ?n (clip (64 * ?n) (candidate_visitor u p))"
  proof (rule own_slot_clip)
    fix x and s :: "core \<times> (u32 \<times> bool) option"
    assume x: "x < 64 * ?n" "length (?getw s) = ?n"
    obtain e cand where s: "s = (e, cand)" by fastforce
    obtain go e' cand' where v: "candidate_visitor u p x (e, cand) = (go, e', cand')" by (metis prod_cases3)
    have i: "unat (word_of_nat x :: u32) = x" using x(1) b by (intro unat_of_nat_32) simp
    have "only_at x (l_candidates (oc_lsq e)) (word_reset x (l_candidates (oc_lsq e)))"
      by (rule only_at_reset) (use x in \<open>simp add: s\<close>)
    then show "only_at x (?getw s) (?getw (snd (candidate_visitor u p x s)))"
      using candidate_step [OF v] by (auto simp: s v lsq_completeLoad_def i)
  qed
  have "?Q (ss_visit (unat (r_capacity (l_ring (oc_lsq c)))) ?getw (unat (ring_indexOf (l_ring (oc_lsq c)) 0))
      (candidate_visitor u p) (c, None))"
  proof (rule visit_tracking_members [where getw = ?getw and I = ?I and Q = ?Q and s = "(c, None)" and n = ?n and P = is_candidate])
    fix x s go s'
    assume h: "?I s" "x < 64 * ?n" "length (l_candidates (oc_lsq (fst s))) = ?n"
      "member (l_candidates (oc_lsq (fst s))) x" "candidate_visitor u p x s = (go, s')"
    obtain e where s: "s = (e, None)" using h(1) by (cases s) simp
    obtain e' cand' where s': "s' = (e', cand')" by fastforce
    let ?i = "word_of_nat x :: u32"
    have st: "stays arch k c e" using h(1) by (simp add: s)
    note inv' = staysD(1) [OF st]
    have lok': "lsq_ok (oc_lsq e)" using data_invD(3) [OF inv'] by (simp add: queue_part_def)
    have m: "lsq_live ?i (oc_lsq e)" "is_candidate (lsq_at ?i (oc_lsq e))"
      by (rule tracked_entry(2,3) [OF lok' lsq_okD(3) [OF lok']]; use h in \<open>simp add: s\<close>)+
    have v: "candidate_visitor u p x (e, None) = (go, e', cand')" using h(5) by (simp add: s s')
    obtain val where val: "data_view e' = data_view e \<or> data_view e' = data_view (e\<lparr>oc_lsq := lsq_completeLoad ?i val (oc_lsq e)\<rparr>)"
      "cand' = None \<or> (\<not> go \<and> oc_lsq e' = oc_lsq e \<and> (\<exists>w. cand' = Some (?i, w)))"
      using candidate_step [OF v] by blast
    have "stays arch k e (e\<lparr>oc_lsq := lsq_completeLoad ?i val (oc_lsq e)\<rparr>)"
      by (rule completeLoad_stays [OF inv' m(1)]) (simp add: m(2))
    then have "stays arch k e e'" using val(1) stays_view [OF inv'] stays_cong [OF refl] by blast
    then have "stays arch k c e'" by (rule stays_trans [OF st])
    then show "if go then ?I s' else ?Q s'" using val(2) m by (auto simp: s' chosen_def)
  qed (use ok(1,3) own stays_refl [OF inv] in \<open>simp_all add: chosen_def\<close>)
  moreover have "find_candidate c = ss_visit (unat (r_capacity (l_ring (oc_lsq c)))) ?getw
      (unat (ring_indexOf (l_ring (oc_lsq c)) 0)) (candidate_visitor u p) (c, None)"
    by (simp add: find_candidate_def lsq_visitCandidates_def lsq_capacity_def lsq_head_def case_prod_beta Let_def
        u_def p_def)
  ultimately show ?thesis by simp
qed

section \<open>The data port\<close>

lemma port_access_stays:
  assumes inv: "data_inv arch k c" and step: "port_access c = Inr (sent, c')"
  shows "stays arch k c c'"
proof -
  obtain d cand where f: "find_candidate c = (d, cand)" by fastforce
  have d: "stays arch k c d" "chosen d cand" using find_candidate_stays [OF inv] by (simp_all add: f)
  note inv' = staysD(1) [OF d(1)]
  have store: "stays arch k d e" if "send_store d = Inr e" for e
    using that by (intro stays_view [OF inv']) (auto simp: send_store_def Let_def bind_result_Inr data_view_def split: prod.splits)
  have load: "stays arch k d e" if l: "send_load i w d = Inr e" "cand = Some (i, w)" for i w e
  proof -
    have "stays arch k d (d\<lparr>oc_lsq := lsq_issueLoad i (oc_lsq d)\<rparr>)"
      by (rule issueLoad_stays [OF inv']) (use d(2) l(2) in \<open>simp_all add: chosen_def\<close>)
    moreover have "data_view e = data_view (d\<lparr>oc_lsq := lsq_issueLoad i (oc_lsq d)\<rparr>)"
      using l(1) by (auto simp: send_load_def Let_def bind_result_Inr split: if_splits)
    ultimately show ?thesis using stays_cong [OF refl] by blast
  qed
  have "c' = d \<or> send_store d = Inr c' \<or> (\<exists>i w. cand = Some (i, w) \<and> send_load i w d = Inr c')"
    using step by (auto simp: port_access_def f bind_result_Inr split: if_splits option.splits)
  then have "stays arch k d c'" using store load stays_refl [OF inv'] by blast
  then show ?thesis by (rule stays_trans [OF d(1)])
qed

lemma port_loop_stays:
  assumes "data_inv arch k c" "port_loop n c = Inr c'"
  shows "stays arch k c c'"
  using assms
proof (induction n arbitrary: c)
  case 0
  then show ?case by (simp add: stays_refl)
next
  case (Suc n)
  obtain sent d where d: "port_access c = Inr (sent, d)" "(if sent then port_loop n d else Inr d) = Inr c'"
    using Suc.prems(2) by (auto simp: bind_result_Inr)
  note p = port_access_stays [OF Suc.prems(1) d(1)]
  show ?case
  proof (cases sent)
    case True
    then have "stays arch k d c'" using Suc.IH [OF staysD(1) [OF p]] d(2) by simp
    then show ?thesis by (rule stays_trans [OF p])
  next
    case False
    then show ?thesis using p d(2) by simp
  qed
qed

theorem lsqOperate_stays:
  assumes inv: "data_inv arch k c" and step: "lsqOperate c = Inr c'"
  shows "stays arch k c c'"
proof -
  let ?a = "drainDataResponses c"
  let ?b = "?a\<lparr>oc_sb := sb_drain (oc_sb ?a)\<rparr>"
  let ?d = "lsq_updates ?b"
  obtain e where e: "port_loop (unat (cfg_dataPorts (oc_cfg ?d))) ?d = Inr e"
    "c' = (let c = drainDataResponses e
           in if lsq_hasPendingLoads (oc_lsq c)
              then count_stat (\<lambda>s. s\<lparr>st_dataStallCycles := st_dataStallCycles s + 1\<rparr>) c else c)"
    using step by (auto simp: lsqOperate_def Let_def bind_result_Inr)
  note a = drain_stays [OF inv]
  have b: "stays arch k c ?b" by (rule stays_trans [OF a stays_view [OF staysD(1) [OF a]]]) simp
  note d = stays_trans [OF b lsq_updates_stays [OF staysD(1) [OF b]]]
  note p = stays_trans [OF d port_loop_stays [OF staysD(1) [OF d] e(1)]]
  note q = stays_trans [OF p drain_stays [OF staysD(1) [OF p]]]
  have "data_view c' = data_view (drainDataResponses e)" by (simp add: e(2) Let_def)
  then show ?thesis using q stays_cong [OF refl] by blast
qed

end
