(* ===== verification/Core_Data_Issue.thy ===== *)
theory Core_Data_Issue
  imports Core_Data_Mem
begin

text \<open>
  The data flow through the issue stage, the fetch stage and the clock edge.
\<close>

section \<open>Issue\<close>

lemma own_issue: "own_slot (\<lambda>s. iq_ready (oc_iq (fst s))) n issue_visitor"
  unfolding own_slot_def
proof (intro allI impI)
  fix x and s :: issue_state
  let ?q = "oc_iq (fst s)"
  assume n: "length (iq_ready ?q) = n"
  have "member (andn_at (x div 64) (slot_bit x) (iq_ready ?q)) y = member (iq_ready ?q) y" if "y \<noteq> x" for y
    using that n member_andn_at [of x "iq_ready ?q" y]
    by (cases "x div 64 < n") (simp_all add: andn_at_def [of "x div 64"] list_update_beyond)
  moreover have "iq_ready (oc_iq (fst (snd (issue_visitor x s)))) \<in>
      {iq_ready ?q, andn_at (x div 64) (slot_bit x) (iq_ready ?q)}"
  proof -
    obtain u c m a g where p: "pick_unit (q_unit (iq_e (oc_iq (fst s)) ! x)) s = (u, c, m, a, g)" by (metis prod_cases5)
    then have "c = fst s" using pick_unit_core [of "q_unit (iq_e (oc_iq (fst s)) ! x)" s] by simp
    moreover have "oc_iq (unit_accept r y c) = oc_iq c" for r y by (cases r) simp_all
    ultimately show ?thesis by (cases u) (simp_all add: issue_visitor_def Let_def p iq_release_def)
  qed
  ultimately show "length (iq_ready (oc_iq (fst (snd (issue_visitor x s))))) = n \<and>
      (\<forall>y < 64 * n. y \<noteq> x \<longrightarrow> member (iq_ready (oc_iq (fst (snd (issue_visitor x s))))) y = member (iq_ready ?q) y)"
    using n by auto
qed

text \<open>The unit that is picked is there, and is an address unit exactly for memory operations.\<close>

primrec unit_in :: "core \<Rightarrow> unit_ref \<Rightarrow> bool" where
  "unit_in c (Wb_Unit i) = (i < length (oc_units c))"
| "unit_in c (Agu_Unit i) = (i < length (oc_agus c))"

lemma pick_unit_ok:
  assumes "pick_unit k (c, n, a, g) = (Some u, c', n', a', g')" "length (oc_units c) = alu_count c + 3"
  shows "unit_in c u" "k = FU_LSU \<longleftrightarrow> (\<exists>i. u = Agu_Unit i)" "c' = c"
  using assms by (auto simp: pick_unit_def Let_def split: fuKind.splits if_splits)

lemma fu_accept_out [simp]: "f_out (fu_accept x u) = f_out u"
  by (simp add: fu_accept_def Let_def)

text \<open>A unit takes an operation.\<close>

lemma unit_accept_ops:
  assumes "unit_in c u" "fu_canAccept (unit_at c u)" "o_valid x" "unit_part c" "port_part c"
  shows "fl_wb (flight_of (unit_accept u x c)) =
      (if \<exists>i. u = Agu_Unit i then fl_wb (flight_of c) else add_mset x (fl_wb (flight_of c)))"
    "fl_agu (flight_of (unit_accept u x c)) =
      (if \<exists>i. u = Agu_Unit i then add_mset x (fl_agu (flight_of c)) else fl_agu (flight_of c))"
    "unit_part (unit_accept u x c)" "port_part (unit_accept u x c)"
proof -
  have ok: "\<forall>v \<in> set (oc_units c) \<union> set (oc_agus c). fu_ok v" "length (oc_units c) = alu_count c + 3"
    using assms(4) by (simp_all add: unit_part_def)
  have "fl_wb (flight_of (unit_accept u x c)) =
      (if \<exists>i. u = Agu_Unit i then fl_wb (flight_of c) else add_mset x (fl_wb (flight_of c))) \<and>
    fl_agu (flight_of (unit_accept u x c)) =
      (if \<exists>i. u = Agu_Unit i then add_mset x (fl_agu (flight_of c)) else fl_agu (flight_of c)) \<and>
    unit_part (unit_accept u x c) \<and> port_part (unit_accept u x c)"
  proof (cases u)
    case (Wb_Unit i)
    then have i: "i < length (oc_units c)" "fu_canAccept (oc_units c ! i)" using assms by simp_all
    then have o: "fu_ok (oc_units c ! i)" using ok(1) by simp
    have "units_ops ((oc_units c)[i := fu_accept x (oc_units c ! i)]) = units_ops (oc_units c) + {#x#}"
      by (rule units_ops_upd [OF i(1)]) (simp add: fu_ops_accept [OF o i(2) assms(3)])
    moreover have "fu_ok (fu_accept x (oc_units c ! i))" by (rule fu_ok_accept [OF o i(2) assms(3)])
    then have "\<forall>v \<in> set ((oc_units c)[i := fu_accept x (oc_units c ! i)]). fu_ok v"
      using ok(1) set_update_subset_insert [of "oc_units c" i] by blast
    moreover have "wb_in (unit_accept u x c) p = wb_in c p" "o_valid (wb_slot (unit_accept u x c) p) = o_valid (wb_slot c p)"
      for p using i(1) by (cases p; auto simp: Wb_Unit nth_list_update)+
    ultimately show ?thesis using ok assms(5) by (simp add: Wb_Unit unit_part_def port_part_def ball_Un)
  next
    case (Agu_Unit i)
    then have i: "i < length (oc_agus c)" "fu_canAccept (oc_agus c ! i)" using assms by simp_all
    then have o: "fu_ok (oc_agus c ! i)" using ok(1) by simp
    have "units_ops ((oc_agus c)[i := fu_accept x (oc_agus c ! i)]) = units_ops (oc_agus c) + {#x#}"
      by (rule units_ops_upd [OF i(1)]) (simp add: fu_ops_accept [OF o i(2) assms(3)])
    moreover have "fu_ok (fu_accept x (oc_agus c ! i))" by (rule fu_ok_accept [OF o i(2) assms(3)])
    then have "\<forall>v \<in> set ((oc_agus c)[i := fu_accept x (oc_agus c ! i)]). fu_ok v"
      using ok(1) set_update_subset_insert [of "oc_agus c" i] by blast
    moreover have "port_part (unit_accept u x c)" by (rule port_same [OF _ _ _ assms(5)]) (simp_all add: Agu_Unit)
    ultimately show ?thesis using ok by (simp add: Agu_Unit unit_part_def ball_Un)
  qed
  then show "fl_wb (flight_of (unit_accept u x c)) =
      (if \<exists>i. u = Agu_Unit i then fl_wb (flight_of c) else add_mset x (fl_wb (flight_of c)))"
    "fl_agu (flight_of (unit_accept u x c)) =
      (if \<exists>i. u = Agu_Unit i then add_mset x (fl_agu (flight_of c)) else fl_agu (flight_of c))"
    "unit_part (unit_accept u x c)" "port_part (unit_accept u x c)" by blast+
qed

lemma unit_accept_same [simp]:
  "oc_val (unit_accept u x c) = oc_val c" "oc_ready (unit_accept u x c) = oc_ready c" "oc_rob (unit_accept u x c) = oc_rob c"
  "oc_lsq (unit_accept u x c) = oc_lsq c" "oc_iq (unit_accept u x c) = oc_iq c" "oc_cfg (unit_accept u x c) = oc_cfg c"
  by (cases u; simp)+

lemma issue_visitor_stays:
  assumes inv: "data_inv arch k c" and r: "x < 64 * length (iq_ready (oc_iq c))" "rdy (oc_iq c) x"
    and step: "issue_visitor x (c, n, a, g) = (go, c', s')"
  shows "stays arch k c c'"
proof -
  let ?q = "iq_e (oc_iq c) ! x"
  note d = data_invD [OF inv]
  have iq: "iq_ok (phys c) {} (oc_iq c)" using d(3) by (simp add: queue_part_def)
  have x: "x < iq_slots (oc_iq c)" using r(1) iq_okD(1) [OF iq] by (simp add: iq_shape_def iq_slots_def)
  have "slot_ok (phys c) {} (oc_iq c) x" by (rule iq_okD(2) [OF iq x])
  then have occ: "occ (oc_iq c) x" "\<not> blk1 (oc_iq c) x" "\<not> blk2 (oc_iq c) x" using r(2) by (auto simp: slot_ok_def)
  then have q: "fl_iq (flight_of c) x = Some (?q, False, False)" using x by (simp add: iq_view_def)
  obtain u c1 n1 a1 g1 where p: "pick_unit (q_unit ?q) (c, n, a, g) = (u, c1, n1, a1, g1)" by (metis prod_cases5)
  have c1: "c1 = c" using pick_unit_core [of "q_unit ?q" "(c, n, a, g)"] by (simp add: p)
  show ?thesis
  proof (cases "\<exists>v. u = Some v \<and> fu_canAccept (unit_at c v)")
    case False
    then have "c' = c" using step by (cases u) (auto simp: issue_visitor_def Let_def p c1)
    then show ?thesis by (simp add: stays_refl [OF inv])
  next
    case True
    then obtain v where v: "u = Some v" "fu_canAccept (unit_at c v)" by blast
    define y where "y = issue_op ?q c"
    define e where "e = unit_accept v y c"
    have c': "c' = count_stat (\<lambda>s. s\<lparr>st_issuedOps := st_issuedOps s + 1\<rparr>) (e\<lparr>oc_iq := iq_release x (oc_iq e)\<rparr>)"
      using step v by (auto simp: issue_visitor_def Let_def p c1 y_def e_def)
    have e: "oc_iq e = oc_iq c" "oc_rob e = oc_rob c" "oc_lsq e = oc_lsq c" "oc_val e = oc_val c" "oc_ready e = oc_ready c"
      "oc_cfg e = oc_cfg c" by (simp_all add: e_def)
    have len: "length (oc_units c) = alu_count c + 3" using d(4) by (simp add: unit_part_def)
    note pu = pick_unit_ok [OF p [unfolded v(1)] len]
    have y: "o_valid y" "o_seq y = q_seq ?q" "o_robIdx y = q_robIdx ?q" "o_lsqIdx y = q_lsqIdx ?q"
      by (simp_all add: y_def issue_op_def Let_def)
    note ops = unit_accept_ops [OF pu(1) v(2) y(1) d(4,5), folded e_def]
    note rel = release_ok [OF iq x occ(1)]
    let ?c = "e\<lparr>oc_iq := iq_release x (oc_iq c)\<rparr>"
    have "flight_of ?c = issued x (q_unit ?q) y (flight_of c)"
      using ops(1,2) pu(2) rel(2) by (auto simp: flight_of_def issued_def Let_def e)
    moreover have "flight_inv (env_of arch c) (issued x (q_unit ?q) y (flight_of c))"
    proof (rule issue_inv [OF d(7) q y])
      fix w assume w: "(x, w) \<in> set (fl_rob (flight_of c))"
      have "unat (q_robIdx ?q) = x"
        using flight_invD(6) [OF d(7) q] unfolding iq_op_def by blast
      then have "ring_at (oc_rob c) (q_robIdx ?q) = w" using entries_at [of "q_robIdx ?q" w "oc_rob c"] w by simp
      then show "o_pdst y = re_pdst w \<and>
          (let r = the (execute (re_ins w) (re_pc w) (ev_val (env_of arch c) ! unat (q_ps1 ?q)) (ev_val (env_of arch c) ! unat (q_ps2 ?q)))
           in o_value y = x_value r \<and> o_redirect y = x_redirect r \<and> o_target y = x_target r)"
        by (simp add: y_def issue_op_def Let_def)
    qed
    ultimately have flight: "flight_inv (env_of arch c) (flight_of ?c)" by simp
    have queue: "queue_part ?c" using d(3) rel(1) by (simp add: queue_part_def e)
    have port: "port_part ?c" by (rule port_same [OF _ _ _ ops(4)]) simp_all
    have unit: "unit_part ?c" by (rule unit_same [OF _ _ _ ops(3)]) simp_all
    have "view ?c = view c" by (simp add: e_def)
    then have s: "stays arch k c ?c" by (rule staysI [OF inv _ _ _ queue unit port flight]) (simp_all add: e)
    have "data_view c' = data_view ?c" by (simp add: c' e)
    then show ?thesis using s stays_cong [OF refl] by blast
  qed
qed

theorem issueStage_stays:
  assumes inv: "data_inv arch k c"
  shows "stays arch k c (issueStage c)"
proof -
  let ?getq = "\<lambda>s. oc_iq (fst s) :: issue_queue" and ?I = "\<lambda>s. stays arch k c (fst s)"
  note d = data_invD [OF inv]
  have iq: "iq_ok (phys c) {} (oc_iq c)" "length (iq_e (oc_iq c)) = unat (r_capacity (oc_rob c))"
    using d(3) by (simp_all add: queue_part_def)
  have rok: "ring_ok (oc_rob c)" by (rule view_rob_ok [OF d(8)])
  have head: "unat (ring_indexOf (oc_rob c) 0) < iq_slots (oc_iq c)"
    using slot_bound [OF iq_okD(1) [OF iq(1)]] ring_head_slot [OF rok] ring_okD(2) [OF rok] iq(2) by simp
  have "?I (iq_visitReady ?getq (unat (ring_indexOf (oc_rob c) 0)) issue_visitor (c, 0, 0, 0))"
  proof (rule visitReady_members [where getq = ?getq and I = ?I and Q = ?I and P = "phys c"])
    fix x s go s'
    assume h: "?I s" "x < 64 * length (iq_ready (?getq s))" "rdy (?getq s) x" "issue_visitor x s = (go, s')"
    obtain e n a g where s: "s = (e, n, a, g)" by (metis prod_cases4)
    obtain e' t where s': "s' = (e', t)" by (cases s') blast
    have "issue_visitor x (e, n, a, g) = (go, e', t)" using h(4) by (simp add: s s')
    from issue_visitor_stays [OF staysD(1) [OF h(1) [unfolded s fst_conv]] _ _ this]
    have "stays arch k e (fst s')" using h(2,3) by (simp add: s s')
    then show "if go then ?I s' else ?I s'" using stays_trans [OF h(1) [unfolded s fst_conv]] by simp
  qed (use iq(1) head own_issue stays_refl [OF inv] in simp_all)
  moreover have eq: "(\<lambda>(c, n, a, g). oc_iq c) = (\<lambda>s :: issue_state. oc_iq (fst s))" by (simp add: fun_eq_iff)
  ultimately show ?thesis unfolding issueStage_def eq by simp
qed

section \<open>Fetch and the clock\<close>

lemma data_view_fetch_word: "data_view (snd (fetch_word r i c)) = data_view c"
  by (simp add: fetch_word_def Let_def case_prod_beta)

lemma data_view_fetch_words: "data_view (fetch_words r xs c) = data_view c"
proof (induction xs arbitrary: c)
  case (Cons i xs)
  then show ?case using data_view_fetch_word [of r i c] by (simp add: case_prod_beta)
qed simp

lemma data_view_fetch_consume: "data_view (fetch_consume c) = data_view c"
  by (simp add: fetch_consume_def Let_def processFetch_def data_view_fetch_words)

lemma data_view_fetch_request: "fetch_request c = Inr c' \<Longrightarrow> data_view c' = data_view c"
  by (auto simp: fetch_request_def Let_def bind_result_Inr data_view_fetch_consume)

theorem fetchStage_stays:
  assumes "data_inv arch k c" "fetchStage c = Inr c'"
  shows "stays arch k c c'"
proof (rule stays_view [OF assms(1)])
  show "data_view c' = data_view c"
    using assms(2) data_view_fetch_consume [of c]
    by (auto simp: fetchStage_def Let_def dest!: data_view_fetch_request split: if_splits)
qed

text \<open>A tick moves operations inside a unit; a result that appears enters the list.\<close>

lemma units_ops_tick:
  assumes "i < length us" "fu_ops u = fu_ops (us ! i)"
  shows "units_ops (us[i := u]) = units_ops us"
  using units_ops_upd [OF assms(1), of u "{#}"] assms(2) by simp

lemma tick_unit_stays:
  assumes inv: "data_inv arch k c" and i: "i < length (oc_units c)"
  shows "stays arch k c (tick_unit i c)" "length (oc_units (tick_unit i c)) = length (oc_units c)"
proof -
  obtain fired u where t: "fu_tick (oc_units c ! i) = (fired, u)" by fastforce
  note d = data_invD [OF inv]
  have ok: "fu_ok (oc_units c ! i)" using d(4) i by (simp add: unit_part_def)
  note k = fu_tick_keeps [OF ok t]
  let ?c = "tick_unit i c"
  have c: "?c = (if fired then c\<lparr>oc_units := (oc_units c)[i := u], oc_wbReady := oc_wbReady c @ [Unit_Out i]\<rparr>
      else c\<lparr>oc_units := (oc_units c)[i := u]\<rparr>)"
    by (simp add: tick_unit_def t Let_def)
  then have f: "oc_units ?c = (oc_units c)[i := u]" "oc_agus ?c = oc_agus c" "oc_loadOuts ?c = oc_loadOuts c" "oc_cfg ?c = oc_cfg c"
    "oc_rob ?c = oc_rob c" "oc_iq ?c = oc_iq c" "oc_lsq ?c = oc_lsq c" "oc_val ?c = oc_val c" "oc_ready ?c = oc_ready c"
    "oc_wbReady ?c = (if fired then oc_wbReady c @ [Unit_Out i] else oc_wbReady c)"
    by simp_all
  show "length (oc_units ?c) = length (oc_units c)" by (simp add: f)
  have "flight_of ?c = flight_of c" using units_ops_tick [OF i k(2)] by (simp add: flight_of_def f)
  then have flight: "flight_inv (env_of arch c) (flight_of ?c)" using d(7) by simp
  have queue: "queue_part ?c" using d(3) by (simp add: queue_part_def f)
  have unit: "unit_part ?c"
    using d(4) k(1) set_update_subset_insert [of "oc_units c" i u] by (auto simp: unit_part_def f)
  have old: "wb_in ?c p \<and> o_valid (wb_slot ?c p)" if "p \<in> set (oc_wbReady c)" for p
  proof -
    have "wb_in c p \<and> o_valid (wb_slot c p)" using d(5) that by (simp add: port_part_def)
    then show ?thesis using k(3,4) i by (cases p; cases fired) (auto simp: f nth_list_update)
  qed
  have "port_part ?c"
  proof (cases fired)
    case True
    then have "Unit_Out i \<notin> set (oc_wbReady c)" using d(5) k(3) by (auto simp: port_part_def)
    then show ?thesis using old d(5) True k(3) i by (simp add: port_part_def f)
  next
    case False
    then show ?thesis using old d(5) by (simp add: port_part_def f)
  qed
  then show "stays arch k c ?c" by (intro staysI [OF inv] queue unit flight) (simp_all add: f view_tick_unit)
qed

lemma ticks_stays:
  assumes "data_inv arch k c" "\<forall>i \<in> set xs. i < length (oc_units c)"
  shows "stays arch k c (fold tick_unit xs c)"
  using assms
proof (induction xs arbitrary: c)
  case (Cons i xs)
  have i: "i < length (oc_units c)" using Cons.prems(2) by simp
  note t = tick_unit_stays [OF Cons.prems(1) i]
  have "stays arch k (tick_unit i c) (fold tick_unit xs (tick_unit i c))"
    by (rule Cons.IH [OF staysD(1) [OF t(1)]]) (use Cons.prems(2) t(2) in simp)
  then show ?case using stays_trans [OF t(1)] by simp
qed (simp add: stays_refl)

lemma agu_ticks_stays:
  assumes inv: "data_inv arch k c"
  shows "stays arch k c (c\<lparr>oc_agus := map (\<lambda>u. snd (fu_tick u)) (oc_agus c)\<rparr>)"
proof -
  let ?c = "c\<lparr>oc_agus := map (\<lambda>u. snd (fu_tick u)) (oc_agus c)\<rparr>"
  note d = data_invD [OF inv]
  have k: "fu_ok (snd (fu_tick u)) \<and> fu_ops (snd (fu_tick u)) = fu_ops u" if "u \<in> set (oc_agus c)" for u
  proof -
    have "fu_ok u" using d(4) that by (simp add: unit_part_def)
    then show ?thesis using fu_tick_keeps(1,2) [of u] by (cases "fu_tick u") auto
  qed
  have "units_ops (map (\<lambda>u. snd (fu_tick u)) (oc_agus c)) = units_ops (oc_agus c)"
    by (rule units_ops_same) (use k in simp)
  then have "flight_of ?c = flight_of c" by (simp add: flight_of_def)
  then have flight: "flight_inv (env_of arch c) (flight_of ?c)" using d(7) by simp
  have "queue_part ?c" using d(3) by (simp add: queue_part_def)
  moreover have "unit_part ?c" using d(4) k by (auto simp: unit_part_def)
  moreover have "port_part ?c" by (rule port_same [OF _ _ _ d(5)]) simp_all
  ultimately show ?thesis by (intro staysI [OF inv] flight) simp_all
qed

theorem clock_edge_stays:
  assumes inv: "data_inv arch k c" and step: "clock_edge c = Inr c'"
  shows "stays arch k c c'"
proof -
  let ?a = "apply_redirect c"
  let ?b = "fold tick_unit [0..<length (oc_units ?a)] ?a"
  let ?d = "?b\<lparr>oc_agus := map (\<lambda>u. snd (fu_tick u)) (oc_agus ?b)\<rparr>"
  obtain m where c': "c' = ?d\<lparr>oc_msys := m\<rparr>" using step by (auto simp: clock_edge_def Let_def bind_result_Inr)
  have a: "stays arch k c ?a" by (rule stays_view [OF inv]) (simp add: apply_redirect_def)
  have "stays arch k ?a ?b" by (rule ticks_stays [OF staysD(1) [OF a]]) simp
  note b = stays_trans [OF a this]
  note d = stays_trans [OF b agu_ticks_stays [OF staysD(1) [OF b]]]
  have "data_view c' = data_view ?d" by (simp add: c')
  then show ?thesis using d stays_cong [OF refl] by blast
qed

end
