(* ===== verification/Core_Data_Dispatch.thy ===== *)
theory Core_Data_Dispatch
  imports Core_Data_Issue
begin

text \<open>
  The data flow through dispatch: the new instruction enters with the sources of the rename map, its
  destination not ready, its entry of the load/store queue and its entry of the issue queue.
\<close>

section \<open>The entry under construction\<close>

lemma upd_at_new: "i \<notin> fst ` set xs \<Longrightarrow> upd_at i f (xs @ [(i, e)]) = xs @ [(i, f e)]"
  by (induction xs) (auto simp: upd_at_def)

definition pending :: "core \<Rightarrow> (nat \<times> rob_entry) list \<Rightarrow> u32 \<Rightarrow> rob_entry \<Rightarrow> bool" where
  "pending c xs idx e \<longleftrightarrow> ring_ok (oc_rob c) \<and> entries (oc_rob c) = xs @ [(unat idx, e)] \<and> unat idx \<notin> fst ` set xs"

lemma pendingD:
  assumes "pending c xs idx e"
  shows "ring_ok (oc_rob c)" "entries (oc_rob c) = xs @ [(unat idx, e)]" "unat idx \<notin> fst ` set xs"
    "ring_at (oc_rob c) idx = e"
  using assms entries_at [of idx e "oc_rob c"] by (simp_all add: pending_def)

lemma pending_update:
  assumes "pending c xs idx e"
  shows "pending (rob_update idx f c) xs idx (f e)"
  using pendingD [OF assms] rob_update_entries(1,2) [OF pendingD(1) [OF assms], of idx f]
  by (simp add: pending_def upd_at_new)

lemma pending_same: "oc_rob c' = oc_rob c \<Longrightarrow> pending c' xs idx e = pending c xs idx e"
  by (simp add: pending_def)

lemma dispatch_alloc_ok:
  assumes "ring_ok (oc_rob c)" "\<not> ring_full (oc_rob c)" "dispatch_alloc f I c = (idx, d)"
  shows "pending d (entries (oc_rob c)) idx (dispatch_entry (oc_seqCtr c) f I)"
    "unat idx < unat (r_capacity (oc_rob c))" "r_capacity (oc_rob d) = r_capacity (oc_rob c)"
    "oc_val d = oc_val c" "oc_ready d = oc_ready c" "oc_map d = oc_map c" "oc_free d = oc_free c" "oc_lsq d = oc_lsq c"
    "oc_iq d = oc_iq c" "oc_units d = oc_units c" "oc_agus d = oc_agus c" "oc_loadOuts d = oc_loadOuts c"
    "oc_wbReady d = oc_wbReady c" "oc_cfg d = oc_cfg c"
proof -
  define c1 where "c1 = (if oc_recTimerArmed c
      then (count_stat (\<lambda>s. s\<lparr>st_recoveryLossCycles :=
              st_recoveryLossCycles s + (st_cycles s - oc_recTimerStart c)\<rparr>) c)\<lparr>oc_recTimerArmed := False\<rparr> else c)"
  obtain i r where a: "ring_alloc rob_entry0 (oc_rob c) = (i, r)" by fastforce
  have c1: "oc_rob c1 = oc_rob c" "oc_val c1 = oc_val c" "oc_ready c1 = oc_ready c" "oc_map c1 = oc_map c"
    "oc_free c1 = oc_free c" "oc_lsq c1 = oc_lsq c" "oc_iq c1 = oc_iq c" "oc_units c1 = oc_units c"
    "oc_agus c1 = oc_agus c" "oc_loadOuts c1 = oc_loadOuts c" "oc_wbReady c1 = oc_wbReady c" "oc_cfg c1 = oc_cfg c"
    "oc_seqCtr c1 = oc_seqCtr c" by (simp_all add: c1_def)
  have s: "idx = i" "d = c1\<lparr>oc_fetchQ := ring_popHead (oc_fetchQ c1), oc_seqCtr := oc_seqCtr c1 + 1,
      oc_rob := ring_put i (dispatch_entry (oc_seqCtr c1) f I) r\<rparr>"
    using assms(3) unfolding dispatch_alloc_def c1_def [symmetric] Let_def c1(1) a by auto
  have d: "idx = i" "oc_rob d = ring_put i (dispatch_entry (oc_seqCtr c) f I) r" "oc_val d = oc_val c" "oc_ready d = oc_ready c"
    "oc_map d = oc_map c" "oc_free d = oc_free c" "oc_lsq d = oc_lsq c" "oc_iq d = oc_iq c" "oc_units d = oc_units c"
    "oc_agus d = oc_agus c" "oc_loadOuts d = oc_loadOuts c" "oc_wbReady d = oc_wbReady c" "oc_cfg d = oc_cfg c"
    by (simp_all add: s c1)
  note e = entries_alloc [OF assms(1,2) a] and n = ring_alloc_ok [OF assms(1,2), of rob_entry0, unfolded a fst_conv snd_conv]
  show "pending d (entries (oc_rob c)) idx (dispatch_entry (oc_seqCtr c) f I)"
    using e n(1) by (simp add: pending_def d ring_ok_put occupied_entries)
  show "unat idx < unat (r_capacity (oc_rob c))" using n(3) slot_less [OF assms(1)] by (simp add: d)
  have "r_capacity r = r_capacity (oc_rob c)" using a by (auto simp: ring_alloc_def Let_def ring_put_def)
  then show "r_capacity (oc_rob d) = r_capacity (oc_rob c)" by (simp add: d)
  show "oc_val d = oc_val c" "oc_ready d = oc_ready c" "oc_map d = oc_map c" "oc_free d = oc_free c" "oc_lsq d = oc_lsq c"
    "oc_iq d = oc_iq c" "oc_units d = oc_units c" "oc_agus d = oc_agus c" "oc_loadOuts d = oc_loadOuts c"
    "oc_wbReady d = oc_wbReady c" "oc_cfg d = oc_cfg c" by (rule d)+
qed

section \<open>The environment after dispatch\<close>

text \<open>Facts about a state whose reorder buffer has one more entry.\<close>

lemma entered_env:
  assumes inv: "data_inv arch k c" and pend: "pending c' (entries (oc_rob c)) idx e" and seq: "re_seq e = oc_seqCtr c"
    and val: "oc_val c' = oc_val c" and ready: "oc_ready c' = oc_ready c \<or>
      (\<exists>p. p \<in> set (ring_list (oc_free c)) \<and> oc_ready c' = (oc_ready c)[unat p := False])"
  shows "env_step (env_of arch c) (env_of arch c') ((re_seq \<circ> snd) ` set (fl_rob (flight_of c)))"
    "\<And>j a. (j, a) \<in> set (fl_rob (flight_of c)) \<Longrightarrow> re_pdst a \<noteq> kNoReg \<Longrightarrow>
      oc_ready c' ! unat (re_pdst a) = oc_ready c ! unat (re_pdst a)"
    "\<And>r. ev_src (env_of arch c') (re_seq e) r = oc_map c ! unat r"
    "\<And>j a. (j, a) \<in> set (fl_rob (flight_of c)) \<Longrightarrow> re_seq a < re_seq e"
    "\<And>p. p \<in> set arch \<Longrightarrow> oc_ready c' ! unat p"
proof -
  note d = data_invD [OF inv]
  have ok: "ring_ok (oc_rob c)" by (rule view_rob_ok [OF d(8)])
  note rl = rob_names [OF ok] and rl' = rob_names [OF pendingD(1) [OF pend]]
  have names: "ring_list (v_rob (view c')) = ring_list (v_rob (view c)) @ [name_of e]"
    using pendingD(2) [OF pend] by (simp add: rl rl')
  have sc: "v_seqCtr (view c) = oc_seqCtr c" by (simp add: view_def)
  have below: "n_seq n < re_seq e" if "n \<in> set (ring_list (v_rob (view c)))" for n
    using d(9) that by (simp add: order_inv_def Let_def seq sc)
  show young: "re_seq a < re_seq e" if "(j, a) \<in> set (fl_rob (flight_of c))" for j a
    using below [of "name_of a"] that by (force simp: rl)
  have older: "older_names c' s = older_names c s" if "s \<le> re_seq e" for s
    using that by (auto simp: older_names_def names)
  have apart: "oc_ready c' ! unat q = oc_ready c ! unat q" if "q \<in> set arch \<union> set (owned (ring_list (v_rob (view c))))" for q
  proof -
    have "unat p \<noteq> unat q" if "p \<in> set (ring_list (oc_free c))" for p
      using regs_apart(5) [OF d(8)] that \<open>q \<in> _\<close> by (metis disjoint_iff word_unat_eq_iff)
    then show ?thesis using ready by auto
  qed
  show "oc_ready c' ! unat (re_pdst a) = oc_ready c ! unat (re_pdst a)"
    if "(j, a) \<in> set (fl_rob (flight_of c))" "re_pdst a \<noteq> kNoReg" for j a
    by (rule apart) (use owned_entry [OF ok] that in auto)
  show "oc_ready c' ! unat p" if "p \<in> set arch" for p
    using apart [of p] d(2) that by (simp add: regs_part_def)
  show "env_step (env_of arch c) (env_of arch c') ((re_seq \<circ> snd) ` set (fl_rob (flight_of c)))"
    unfolding env_step_def
  proof (intro conjI ballI allI impI)
    fix s and r :: u8
    assume "s \<in> (re_seq \<circ> snd) ` set (fl_rob (flight_of c))" and r: "unat r < 32"
    then have s: "s \<le> re_seq e" using young by fastforce
    show src: "ev_src (env_of arch c') s r = ev_src (env_of arch c) s r" using older [OF s] by simp
    show "src_ready (env_of arch c') s r" if "src_ready (env_of arch c) s r"
      using that apart [OF src_mem [OF d(8) r, of s]] src by (simp add: src_ready_def)
  qed (simp add: val)
  show "ev_src (env_of arch c') (re_seq e) r = oc_map c ! unat r" for r
  proof -
    have "older_names c (re_seq e) = ring_list (v_rob (view c))" using older_all below by blast
    moreover have "oc_map c = renamed (ring_list (v_rob (view c))) arch"
      using d(8) by (simp add: rename_inv_def Let_def view_def)
    ultimately show ?thesis using older [of "re_seq e"] by simp
  qed
qed

section \<open>Putting the new state together\<close>

lemma entered_stays:
  assumes inv: "data_inv arch k c" and core: "core_inv arch (k + 1) c'" and cfg: "oc_cfg c' = oc_cfg c"
    and pend: "pending c' (entries (oc_rob c)) idx e" and seq: "re_seq e = oc_seqCtr c"
    and val: "oc_val c' = oc_val c" and ready: "oc_ready c' = oc_ready c \<or>
      (\<exists>p. p \<in> set (ring_list (oc_free c)) \<and> oc_ready c' = (oc_ready c)[unat p := False])"
    and same: "oc_units c' = oc_units c" "oc_agus c' = oc_agus c" "oc_loadOuts c' = oc_loadOuts c" "oc_wbReady c' = oc_wbReady c"
    and queue: "queue_part c'" and alone: "alone_part c'"
    and stat: "entry_static e" "done_ok (env_of arch c') e" "sys_ok (env_of arch c') e" "ready_ok (env_of arch c') e"
    and ls: "entries (l_ring (oc_lsq c')) = entries (l_ring (oc_lsq c)) @ ls"
      "if re_isMem e then \<exists>j le. ls = [(j, le)] \<and> j \<notin> fst ` set (entries (l_ring (oc_lsq c))) \<and>
        lkey (j, le) = rkey (unat idx, e) \<and> mem_entry (env_of arch c') e le else ls = []"
    and q: "iq_view (oc_iq c') = (case q of None \<Rightarrow> iq_view (oc_iq c) | Some w \<Rightarrow> (iq_view (oc_iq c))(unat idx \<mapsto> w))"
      "\<And>p w1 w2. q = Some (p, w1, w2) \<Longrightarrow> iq_op (env_of arch c') (flight_of c') (unat idx) p w1 w2"
  shows "data_inv arch (k + 1) c'" "arch_regs arch c' = arch_regs arch c"
proof -
  note d = data_invD [OF inv] and en = entered_env [OF inv pend seq val ready]
  have fl: "flight_of c' = entered_flight (unat idx, e) ls q (flight_of c)"
    using pendingD(2) [OF pend] by (simp add: flight_of_def entered_flight_def ls(1) q(1) same split: option.split)
  have "flight_inv (env_of arch c') (entered_flight (unat idx, e) ls q (flight_of c))"
  proof (rule enter_inv [OF d(7) en(1)])
    show "iq_op (env_of arch c') (entered_flight (unat idx, e) ls q (flight_of c)) (unat idx) p w1 w2"
      if "q = Some (p, w1, w2)" for p w1 w2
      using q(2) [OF that] by (simp only: fl)
  qed (use en(2,4) pendingD(3) [OF pend] stat ls(2) in simp_all)
  then have flight: "flight_inv (env_of arch c') (flight_of c')" by (simp only: fl)
  have "length (oc_ready c') = length (oc_ready c)" using ready by auto
  then have regs: "regs_part arch c'" using d(2) en(5) by (simp add: regs_part_def val cfg)
  have "port_part c'" by (rule port_same [OF same(1,3,4) d(5)])
  moreover have "unit_part c'" by (rule unit_same [OF same(1,2) cfg d(4)])
  ultimately show "data_inv arch (k + 1) c'" using core regs queue alone flight by (simp add: data_inv_def)
  show "arch_regs arch c' = arch_regs arch c" by (simp add: arch_regs_def val)
qed

section \<open>The steps of dispatch\<close>

abbreviation has_dest :: "instr \<Rightarrow> bool" where
  "has_dest I \<equiv> writesRd (ins_op I) \<and> ins_rd I \<noteq> 0"

abbreviation is_mem :: "instr \<Rightarrow> bool" where
  "is_mem I \<equiv> isLoad (ins_op I) \<or> isStore (ins_op I)"

lemma capacity_update [simp]: "r_capacity (oc_rob (rob_update idx f c)) = r_capacity (oc_rob c)"
  by (simp add: rob_update_def)

lemma rename_dest_ok:
  assumes "pending d xs idx e"
  shows "pending (rename_dest idx I d) xs idx
      (if has_dest I then e\<lparr>re_pdst := ring_head (oc_free d), re_prevPhys := oc_map d ! unat (ins_rd I)\<rparr> else e)"
    "oc_ready (rename_dest idx I d) =
      (if has_dest I then (oc_ready d)[unat (ring_head (oc_free d)) := False] else oc_ready d)"
    "oc_val (rename_dest idx I d) = oc_val d" "oc_lsq (rename_dest idx I d) = oc_lsq d" "oc_iq (rename_dest idx I d) = oc_iq d"
    "oc_units (rename_dest idx I d) = oc_units d" "oc_agus (rename_dest idx I d) = oc_agus d"
    "oc_loadOuts (rename_dest idx I d) = oc_loadOuts d" "oc_wbReady (rename_dest idx I d) = oc_wbReady d"
    "r_capacity (oc_rob (rename_dest idx I d)) = r_capacity (oc_rob d)"
proof -
  let ?p = "ring_head (oc_free d)" and ?q = "oc_map d ! unat (ins_rd I)"
  let ?d = "d\<lparr>oc_free := ring_popHead (oc_free d), oc_map := (oc_map d)[unat (ins_rd I) := ?p],
      oc_ready := (oc_ready d)[unat ?p := False]\<rparr>"
  have "pending ?d xs idx e" using assms by (simp add: pending_def)
  note u = pending_update [OF this, of "\<lambda>e. e\<lparr>re_pdst := ?p, re_prevPhys := ?q\<rparr>"]
  show "pending (rename_dest idx I d) xs idx (if has_dest I then e\<lparr>re_pdst := ?p, re_prevPhys := ?q\<rparr> else e)"
    using u assms by (simp add: rename_dest_def Let_def)
qed (simp_all add: rename_dest_def Let_def)

text \<open>The entry of the load/store queue.\<close>

lemma lsq_enter_entries:
  assumes "lsq_ok q" "\<not> ring_full (l_ring q)" "lsq_enter seq idx pc x pdst preg rdy1 v q = (li, q')"
  obtains g where "lsq_ok q'"
    "entries (l_ring q') = entries (l_ring q) @ [(unat li, entered seq idx pc x pdst preg rdy1 v g)]"
    "unat li \<notin> fst ` set (entries (l_ring q))"
proof -
  note f = enter_facts [OF assms]
  note ok = lsq_okD(1) [OF assms(1)]
  obtain i r where a: "ring_alloc lsq_entry0 (l_ring q) = (i, r)" by fastforce
  have "unat i = unat li" using ring_alloc_ok(3) [OF ok assms(2), of lsq_entry0] f by (simp add: a)
  then have li: "li = i" by (simp add: word_unat_eq_iff)
  have "l_ring q' = ring_put i (lsq_at li q') r" using f by (simp add: a li)
  then have "entries (l_ring q') = entries (l_ring q) @ [(unat li, lsq_at li q')]"
    using entries_alloc(1) [OF ok assms(2) a] by (simp add: li)
  moreover have "unat li \<notin> fst ` set (entries (l_ring q))"
    using entries_alloc(2) [OF ok assms(2) a] by (simp add: li occupied_entries)
  ultimately show thesis using that f by (auto simp: Let_def)
qed

lemma entered_sel:
  "le_seq (entered seq idx pc x pdst preg rdy1 v g) = seq" "le_robIdx (entered seq idx pc x pdst preg rdy1 v g) = idx"
  "le_op (entered seq idx pc x pdst preg rdy1 v g) = x" "le_isStore (entered seq idx pc x pdst preg rdy1 v g) = isStore x"
  "le_pdst (entered seq idx pc x pdst preg rdy1 v g) = pdst" "le_pc (entered seq idx pc x pdst preg rdy1 v g) = pc"
  "\<not> le_addrValid (entered seq idx pc x pdst preg rdy1 v g)"
  "isStore x \<Longrightarrow> le_dataPreg (entered seq idx pc x pdst preg rdy1 v g) = preg"
  "isStore x \<Longrightarrow> le_dataReady (entered seq idx pc x pdst preg rdy1 v g) = rdy1"
  "isStore x \<Longrightarrow> rdy1 \<Longrightarrow> le_data (entered seq idx pc x pdst preg rdy1 v g) = v"
  by (simp_all add: entered_def Let_def lsq_entry0_def)

text \<open>The entry of the issue queue.\<close>

lemma dispatch_iq_ok:
  fixes I :: instr and seq :: u64 and li :: u32
  assumes "iq_ok P {} (oc_iq d)" "unat idx < length (iq_e (oc_iq d))" "\<not> occ (oc_iq d) (unat idx)" "\<not> iq_full (oc_iq d)"
    and "unat ps1 < P" "unat ps2 < P"
  defines "r1 \<equiv> \<not> usesRs1 (ins_op I) \<or> oc_ready d ! unat ps1"
    and "r2 \<equiv> \<not> usesRs2 (ins_op I) \<or> isStore (ins_op I) \<or> oc_ready d ! unat ps2"
    and "x \<equiv> iq_entry0\<lparr>q_valid := True, q_robIdx := idx, q_seq := seq, q_lsqIdx := li, q_unit := fuKindOf (ins_op I),
      q_ps1 := ps1, q_ps2 := ps2\<rparr>"
  obtains q where "dispatch_iq seq idx li ps1 ps2 I d = d\<lparr>oc_iq := q\<rparr>" "iq_ok P {} q" "length (iq_e q) = length (iq_e (oc_iq d))"
    "iq_view q = (iq_view (oc_iq d))(unat idx \<mapsto> (x, \<not> r1, \<not> r2))"
proof -
  let ?f = "\<lambda>e. e\<lparr>q_seq := seq, q_lsqIdx := li, q_unit := fuKindOf (ins_op I), q_ps1 := ps1, q_ps2 := ps2\<rparr>"
  have x: "x = ?f (iq_entry0\<lparr>q_valid := True, q_robIdx := idx\<rparr>)" by (simp add: x_def)
  have "\<And>e. q_valid (?f e) = q_valid e" by simp
  note di = iq_dispatch_ok [where f = ?f and e = x, OF assms(1-3) this x, of r1 r2]
  obtain q1 where q1: "iq_allocate idx (oc_iq d) = Some q1"
    "iq_ok P {} (iq_track (unat idx) r1 r2 (iq_fill (unat idx) ?f q1))"
    "iq_view (iq_track (unat idx) r1 r2 (iq_fill (unat idx) ?f q1)) = (iq_view (oc_iq d))(unat idx \<mapsto> (x, \<not> r1, \<not> r2))"
    using di assms(4-6) by (auto simp: Let_def x_def)
  have "length (iq_e q1) = length (iq_e (oc_iq d))" using q1(1) by (auto simp: iq_allocate_def split: if_splits)
  then have "length (iq_e (iq_track (unat idx) r1 r2 (iq_fill (unat idx) ?f q1))) = length (iq_e (oc_iq d))"
    by (simp add: iq_fill_def)
  then show thesis using that q1 by (simp add: dispatch_iq_def r1_def r2_def)
qed

text \<open>The entry of the load/store queue, for an instruction that has one.\<close>

lemma dispatch_mem_ok:
  assumes q: "lsq_ok (oc_lsq d)" "is_mem I \<Longrightarrow> \<not> ring_full (l_ring (oc_lsq d))"
    and step: "dispatch_mem seq idx ps2 pc I d = (li, d')" and e: "ring_at (oc_rob d) idx = e"
  obtains q ls where "d' = d\<lparr>oc_lsq := q\<rparr>" "lsq_ok q" "entries (l_ring q) = entries (l_ring (oc_lsq d)) @ ls"
    "\<not> is_mem I \<Longrightarrow> ls = []"
    "is_mem I \<Longrightarrow> unat li \<notin> fst ` set (entries (l_ring (oc_lsq d)))"
    "is_mem I \<Longrightarrow> \<exists>g. ls = [(unat li, entered seq idx pc (ins_op I) (re_pdst e) ps2 (oc_ready d ! unat ps2) (oc_val d ! unat ps2) g)]"
proof (cases "is_mem I")
  case False
  then have "d' = d\<lparr>oc_lsq := oc_lsq d\<rparr>" using step by (simp add: dispatch_mem_def)
  then show thesis using that [of "oc_lsq d" "[]"] q(1) False by simp
next
  case True
  obtain q where l: "lsq_enter seq idx pc (ins_op I) (re_pdst e) ps2 (oc_ready d ! unat ps2) (oc_val d ! unat ps2) (oc_lsq d) = (li, q)"
    "d' = d\<lparr>oc_lsq := q\<rparr>"
    using step True by (auto simp: dispatch_mem_def e split: prod.splits)
  from lsq_enter_entries [OF q(1) q(2) [OF True] l(1)] obtain g where g: "lsq_ok q"
    "entries (l_ring q) = entries (l_ring (oc_lsq d)) @
      [(unat li, entered seq idx pc (ins_op I) (re_pdst e) ps2 (oc_ready d ! unat ps2) (oc_val d ! unat ps2) g)]"
    "unat li \<notin> fst ` set (entries (l_ring (oc_lsq d)))" by blast
  show thesis by (rule that [OF l(2) g(1,2)]) (use True g(3) in auto)
qed

text \<open>The fields of a branch.\<close>

definition branch_entry :: "fetched \<Rightarrow> instr \<Rightarrow> rob_entry \<Rightarrow> rob_entry" where
  "branch_entry f I e =
     (if fuKindOf (ins_op I) = FU_BRANCH
      then e\<lparr>re_isBranch := True, re_predictedTaken := ft_predTaken f, re_predictedTarget := ft_predTarget f,
             re_predIdx := ft_predIdx f\<rparr>
      else e)"

lemma branch_update:
  "(if fuKindOf (ins_op I) = FU_BRANCH
    then rob_update idx (\<lambda>e. e\<lparr>re_isBranch := True, re_predictedTaken := ft_predTaken f,
           re_predictedTarget := ft_predTarget f, re_predIdx := ft_predIdx f\<rparr>) c
    else c) = rob_update idx (branch_entry f I) c"
  by (simp add: branch_entry_def [abs_def] rob_update_id)

text \<open>The entry as it enters.\<close>

definition placed :: "u64 \<Rightarrow> fetched \<Rightarrow> instr \<Rightarrow> u8 \<Rightarrow> u8 \<Rightarrow> rob_entry" where
  "placed seq f I p prev =
     (if has_dest I then (dispatch_entry seq f I)\<lparr>re_pdst := p, re_prevPhys := prev\<rparr> else dispatch_entry seq f I)
       \<lparr>re_isMem := is_mem I\<rparr>"

definition new_entry :: "u64 \<Rightarrow> fetched \<Rightarrow> instr \<Rightarrow> u8 \<Rightarrow> u8 \<Rightarrow> rob_entry" where
  "new_entry seq f I p prev = branch_entry f I (placed seq f I p prev)"

lemma new_entry_sel:
  "re_seq (new_entry seq f I p prev) = seq" "re_pc (new_entry seq f I p prev) = ft_pc f"
  "re_ins (new_entry seq f I p prev) = I" "\<not> re_done (new_entry seq f I p prev)"
  "\<not> re_isSystem (new_entry seq f I p prev)" "re_isMem (new_entry seq f I p prev) = is_mem I"
  "re_isBranch (new_entry seq f I p prev) = (fuKindOf (ins_op I) = FU_BRANCH)"
  "re_pdst (new_entry seq f I p prev) = (if has_dest I then p else kNoReg)"
  by (simp_all add: new_entry_def placed_def branch_entry_def dispatch_entry_def rob_entry0_def)

section \<open>One instruction\<close>

text \<open>The states an ordinary instruction goes through.\<close>

lemma dispatch_normal_steps:
  assumes "pending d xs idx (dispatch_entry seq f I)"
  defines "p \<equiv> ring_head (oc_free d)" and "prev \<equiv> oc_map d ! unat (ins_rd I)"
    and "d2 \<equiv> rob_update idx (\<lambda>e. e\<lparr>re_isMem := is_mem I\<rparr>) (rename_dest idx I d)"
  obtains li q1 d3 where "dispatch_mem seq idx (oc_map d ! unat (ins_rs2 I)) (ft_pc f) I d2 = (li, d3)"
    "dispatch_normal seq idx f I d =
      dispatch_iq seq idx li (oc_map d ! unat (ins_rs1 I)) (oc_map d ! unat (ins_rs2 I)) I (rob_update idx (branch_entry f I) d3)"
    "pending d2 xs idx (placed seq f I p prev)"
proof -
  obtain li d3 where m: "dispatch_mem seq idx (oc_map d ! unat (ins_rs2 I)) (ft_pc f) I d2 = (li, d3)" by fastforce
  have n: "dispatch_normal seq idx f I d =
      dispatch_iq seq idx li (oc_map d ! unat (ins_rs1 I)) (oc_map d ! unat (ins_rs2 I)) I (rob_update idx (branch_entry f I) d3)"
    unfolding dispatch_normal_def branch_update using m by (simp add: Let_def d2_def)
  have "pending d2 xs idx (placed seq f I p prev)"
    unfolding d2_def p_def prev_def placed_def
    by (rule pending_update [OF rename_dest_ok(1) [OF assms(1)], of "\<lambda>e. e\<lparr>re_isMem := is_mem I\<rparr>"])
  from that [OF m n this] show thesis .
qed

lemma dispatch_normal_stays:
  assumes inv: "data_inv arch k c" and core: "core_inv arch (k + 1) c'" and cfg: "oc_cfg c' = oc_cfg c" and sys: "sysfree c"
    and room: "\<not> ring_full (oc_rob c)" "is_mem I \<Longrightarrow> \<not> ring_full (l_ring (oc_lsq c))" "\<not> iq_full (oc_iq c)"
      "has_dest I \<Longrightarrow> \<not> ring_empty (oc_free c)"
    and I: "I = decode w" "fuKindOf (ins_op I) \<noteq> FU_NONE"
    and alloc: "dispatch_alloc f I c = (idx, d)" and c': "c' = dispatch_normal (oc_seqCtr c) idx f I d"
  shows "data_inv arch (k + 1) c'" "arch_regs arch c' = arch_regs arch c" "sysfree c'"
proof -
  note data = data_invD [OF inv]
  note parts = data(2-4) [unfolded part_defs]
  have ok: "ring_ok (oc_rob c)" by (rule view_rob_ok [OF data(8)])
  note a = dispatch_alloc_ok [OF ok room(1) alloc]
  let ?seq = "oc_seqCtr c" and ?p = "ring_head (oc_free c)" and ?prev = "oc_map c ! unat (ins_rd I)"
  let ?ps1 = "oc_map c ! unat (ins_rs1 I)" and ?ps2 = "oc_map c ! unat (ins_rs2 I)"
  let ?xs = "entries (oc_rob c)" and ?e = "new_entry ?seq f I ?p ?prev"
  define d2 where "d2 = rob_update idx (\<lambda>e. e\<lparr>re_isMem := is_mem I\<rparr>) (rename_dest idx I d)"
  obtain li d3 where s: "dispatch_mem ?seq idx ?ps2 (ft_pc f) I d2 = (li, d3)"
    "c' = dispatch_iq ?seq idx li ?ps1 ?ps2 I (rob_update idx (branch_entry f I) d3)"
    "pending d2 ?xs idx (placed ?seq f I ?p ?prev)"
    using dispatch_normal_steps [OF a(1), folded d2_def] unfolding c' a(6,7) by metis
  note rd = rename_dest_ok(2-10) [OF a(1)]
  let ?ready = "if has_dest I then (oc_ready c)[unat ?p := False] else oc_ready c"
  have d2: "oc_ready d2 = ?ready" "oc_val d2 = oc_val c" "oc_lsq d2 = oc_lsq c" "oc_iq d2 = oc_iq c"
    "oc_units d2 = oc_units c" "oc_agus d2 = oc_agus c" "oc_loadOuts d2 = oc_loadOuts c" "oc_wbReady d2 = oc_wbReady c"
    "r_capacity (oc_rob d2) = r_capacity (oc_rob c)"
    by (simp_all add: d2_def rd a)
  have lsq: "lsq_ok (oc_lsq d2)" "is_mem I \<Longrightarrow> \<not> ring_full (l_ring (oc_lsq d2))" using parts room(2) by (simp_all add: d2)
  have pd: "re_pdst ?e = re_pdst (placed ?seq f I ?p ?prev)"
    by (simp add: new_entry_def branch_entry_def)
  from dispatch_mem_ok [OF lsq s(1) pendingD(4) [OF s(3)]] obtain q ls where m: "d3 = d2\<lparr>oc_lsq := q\<rparr>" "lsq_ok q"
    "entries (l_ring q) = entries (l_ring (oc_lsq d2)) @ ls" "\<not> is_mem I \<Longrightarrow> ls = []"
    "is_mem I \<Longrightarrow> unat li \<notin> fst ` set (entries (l_ring (oc_lsq d2)))"
    "is_mem I \<Longrightarrow> \<exists>g. ls = [(unat li, entered ?seq idx (ft_pc f) (ins_op I) (re_pdst ?e) ?ps2 (oc_ready d2 ! unat ?ps2)
      (oc_val d2 ! unat ?ps2) g)]"
    unfolding pd by metis
  define d4 where "d4 = rob_update idx (branch_entry f I) d3"
  have "pending d3 ?xs idx (placed ?seq f I ?p ?prev)"
    using s(3) by (simp add: pending_def m(1))
  from pending_update [OF this, of "branch_entry f I"] have p4: "pending d4 ?xs idx ?e" by (simp add: d4_def new_entry_def)
  have d4: "oc_ready d4 = ?ready" "oc_val d4 = oc_val c" "oc_lsq d4 = q" "oc_iq d4 = oc_iq c"
    "oc_units d4 = oc_units c" "oc_agus d4 = oc_agus c" "oc_loadOuts d4 = oc_loadOuts c" "oc_wbReady d4 = oc_wbReady c"
    "r_capacity (oc_rob d4) = r_capacity (oc_rob c)"
    by (simp_all add: d4_def m(1) d2)
  have src: "unat (oc_map c ! unat r) < phys c" if "unat r < 32" for r
  proof -
    have "oc_map c = renamed (ring_list (v_rob (view c))) arch"
      using data(8) by (simp add: rename_inv_def Let_def view_def)
    moreover have "unat r < length arch" using that regs_apart(1) [OF data(8)] by simp
    ultimately show ?thesis using renamed_mem [of "unat r" arch] regs_apart(6) [OF data(8)] by auto
  qed
  have rs: "unat (ins_rs1 I) < 32" "unat (ins_rs2 I) < 32" using decode_fields by (simp_all add: I(1))
  have free: "\<not> occ (oc_iq d4) (unat idx)"
  proof
    assume o: "occ (oc_iq d4) (unat idx)"
    have "iq_shape (phys c) (oc_iq c)" using parts iq_okD(1) by blast
    moreover have "unat idx < length (iq_e (oc_iq c))" using a(2) parts by simp
    ultimately have "unat idx < iq_slots (oc_iq c)" by (simp add: iq_shape_def iq_slots_def)
    then have "fl_iq (flight_of c) (unat idx) \<noteq> None" using o by (simp add: d4 iq_view_def)
    then obtain z w1 w2 where "fl_iq (flight_of c) (unat idx) = Some (z, w1, w2)" by (metis not_None_eq prod_cases3)
    from iq_refers [OF data(7) this] obtain b where "(unat idx, b) \<in> set ?xs" by (metis flight_of_sel(1))
    then have "unat idx \<in> fst ` set ?xs" by (metis fst_conv image_eqI)
    then show False using pendingD(3) [OF p4] by blast
  qed
  let ?r1 = "\<not> usesRs1 (ins_op I) \<or> oc_ready d4 ! unat ?ps1"
    and ?r2 = "\<not> usesRs2 (ins_op I) \<or> isStore (ins_op I) \<or> oc_ready d4 ! unat ?ps2"
  let ?x = "iq_entry0\<lparr>q_valid := True, q_robIdx := idx, q_seq := ?seq, q_lsqIdx := li, q_unit := fuKindOf (ins_op I),
      q_ps1 := ?ps1, q_ps2 := ?ps2\<rparr>"
  have "iq_ok (phys c) {} (oc_iq d4)" "unat idx < length (iq_e (oc_iq d4))" "\<not> iq_full (oc_iq d4)"
    using parts a(2) room(3) by (simp_all add: d4)
  from dispatch_iq_ok [OF this(1,2) free this(3) src [OF rs(1)] src [OF rs(2)], of ?seq li I]
  obtain t where t: "c' = d4\<lparr>oc_iq := t\<rparr>" "iq_ok (phys c) {} t" "length (iq_e t) = length (iq_e (oc_iq c))"
    "iq_view t = (iq_view (oc_iq c))(unat idx \<mapsto> (?x, \<not> ?r1, \<not> ?r2))"
    unfolding s(2) [folded d4_def] by (auto simp: d4(4))
  have fin: "oc_ready c' = ?ready" "oc_val c' = oc_val c" "oc_lsq c' = q" "oc_iq c' = t" "oc_units c' = oc_units c"
    "oc_agus c' = oc_agus c" "oc_loadOuts c' = oc_loadOuts c" "oc_wbReady c' = oc_wbReady c" "oc_rob c' = oc_rob d4"
    "r_capacity (oc_rob c') = r_capacity (oc_rob c)"
    by (simp_all add: t(1) d4)
  have pend: "pending c' ?xs idx ?e" using p4 by (simp add: pending_def fin(9))
  have p: "?p \<in> set (ring_list (oc_free c))" if "has_dest I"
  proof -
    have "ring_ok (oc_free c)" using data(8) by (simp add: rename_inv_def Let_def view_def)
    moreover have "r_n (oc_free c) \<noteq> 0" using room(4) [OF that] by (simp add: ring_empty_def)
    ultimately show ?thesis using ring_popHead_ok(3) [of "oc_free c"] by (simp add: ring_list_Nil)
  qed
  note seq = new_entry_sel(1) [of ?seq f I ?p ?prev]
  have ready: "oc_ready c' = oc_ready c \<or> (\<exists>p. p \<in> set (ring_list (oc_free c)) \<and> oc_ready c' = (oc_ready c)[unat p := False])"
    using p by (auto simp: fin(1))
  note en = entered_env(3) [OF inv pend seq fin(2) ready, unfolded seq]
  have pk: "unat ?p < phys c \<and> ?p \<noteq> kNoReg" if "has_dest I" using regs_apart(6) [OF data(8)] p [OF that] by blast
  have queue: "queue_part c'"
    using t(2,3) m(2) parts by (simp add: queue_part_def fin(3,4,10) cfg)
  have rl: "ring_list (oc_rob c') = ring_list (oc_rob c) @ [?e]"
    using arg_cong [OF pendingD(2) [OF pend], of "map snd"] by (simp add: entries_list)
  show sysfree: "sysfree c'" using sys by (simp add: sysfree_def rl new_entry_sel)
  have alone: "alone_part c'" using sysfree by (simp add: sysfree_def alone_part_def)
  have lsq': "entries (l_ring (oc_lsq c')) = entries (l_ring (oc_lsq c)) @ ls" using m(3) by (simp add: fin d2)
  let ?v = "env_of arch c'"
  have stat: "entry_static ?e" using I pk by (simp add: entry_static_def new_entry_sel decode_mkword_regs(1))
  have clean: "done_ok ?v ?e" "sys_ok ?v ?e" by (simp_all add: done_ok_def sys_ok_def new_entry_sel)
  have "length (oc_ready c) = phys c" using parts by simp
  then have rdy: "ready_ok ?v ?e" using pk by (simp add: ready_ok_def new_entry_sel fin(1))
  have src_rdy: "src_ready ?v ?seq r = ?ready ! unat (oc_map c ! unat r)" "opnd ?v ?seq r = oc_val c ! unat (oc_map c ! unat r)" for r
    by (simp_all only: src_ready_def opnd_def env_of_sel(1,2) en fin(1,2))
  have ls: "if re_isMem ?e then \<exists>j le. ls = [(j, le)] \<and> j \<notin> fst ` set (entries (l_ring (oc_lsq c))) \<and>
        lkey (j, le) = rkey (unat idx, ?e) \<and> mem_entry ?v ?e le else ls = []"
  proof (cases "is_mem I")
    case True
    then obtain g where g: "ls = [(unat li, entered ?seq idx (ft_pc f) (ins_op I) (re_pdst ?e) ?ps2 (?ready ! unat ?ps2)
        (oc_val c ! unat ?ps2) g)]"
      using m(6) unfolding d2(1,2) by blast
    let ?le = "entered ?seq idx (ft_pc f) (ins_op I) (re_pdst ?e) ?ps2 (?ready ! unat ?ps2) (oc_val c ! unat ?ps2) g"
    have "lkey (unat li, ?le) = rkey (unat idx, ?e)"
      by (simp add: lkey_def rkey_def entered_sel new_entry_sel del: if_split)
    moreover have "mem_entry ?v ?e ?le"
      unfolding mem_entry_def seq en src_rdy new_entry_sel using new_entry_sel(4) entered_sel(7-10) by simp
    moreover have "unat li \<notin> fst ` set (entries (l_ring (oc_lsq c)))" using m(5) [OF True] by (simp only: d2(3) not_False_eq_True)
    ultimately show ?thesis using True g by (simp only: new_entry_sel(6) if_True) blast
  next
    case False
    then show ?thesis using m(4) [OF False] by (simp only: new_entry_sel(6) if_False)
  qed
  have q: "iq_op ?v (flight_of c') (unat idx) p w1 w2" if "Some (?x, \<not> ?r1, \<not> ?r2) = Some (p, w1, w2)" for p w1 w2
  proof -
    have x: "p = ?x" "w1 = (\<not> ?r1)" "w2 = (\<not> ?r2)" using that by auto
    have mem: "\<exists>le. (unat li, le) \<in> set (fl_lsq (flight_of c')) \<and> le_seq le = ?seq \<and> \<not> le_addrValid le" if "is_mem I"
      using m(6) [OF that] entered_sel(1,7) by (auto simp: lsq')
    show ?thesis unfolding iq_op_def
    proof (intro conjI exI [of _ ?e])
      show "(unat idx, ?e) \<in> set (fl_rob (flight_of c'))" using pendingD(2) [OF pend] by simp
    qed (use mem in \<open>simp_all only: x new_entry_sel seq en src_rdy d4(1), (auto split del: if_split)\<close>)
  qed
  show "data_inv arch (k + 1) c'" "arch_regs arch c' = arch_regs arch c"
    by (rule entered_stays [where q = "Some (?x, \<not> ?r1, \<not> ?r2)", OF inv core cfg pend seq fin(2) ready fin(5-8) queue alone
          stat clean rdy lsq' ls _ q]; simp add: fin t(4) split del: if_split)+
qed

text \<open>A system instruction enters an empty reorder buffer.\<close>

lemma sys_no_mem: "fuKindOf x = FU_NONE \<Longrightarrow> \<not> isLoad x \<and> \<not> isStore x"
  by (cases x) (simp_all add: fuKindOf_def isBranch_def isStore_def isLoad_def less_eq_op_def)

lemma dispatch_system_stays:
  assumes inv: "data_inv arch k c" and core: "core_inv arch (k + 1) c'" and cfg: "oc_cfg c' = oc_cfg c"
    and room: "\<not> ring_full (oc_rob c)" "ring_empty (oc_rob c)"
    and I: "I = decode w" "fuKindOf (ins_op I) = FU_NONE"
    and alloc: "dispatch_alloc f I c = (idx, d)" and c': "c' = dispatch_system idx d"
  shows "data_inv arch (k + 1) c'" "arch_regs arch c' = arch_regs arch c"
proof -
  note data = data_invD [OF inv]
  note parts = data(2-4) [unfolded part_defs]
  have ok: "ring_ok (oc_rob c)" by (rule view_rob_ok [OF data(8)])
  note a = dispatch_alloc_ok [OF ok room(1) alloc]
  let ?seq = "oc_seqCtr c"
  let ?e = "(dispatch_entry ?seq f I)\<lparr>re_done := True, re_isSystem := True, re_sysA0 := oc_map d ! 10, re_sysA7 := oc_map d ! 17\<rparr>"
  have pend: "pending c' (entries (oc_rob c)) idx ?e"
    unfolding c' dispatch_system_def by (rule pending_update [OF a(1)])
  have fin: "oc_ready c' = oc_ready c" "oc_val c' = oc_val c" "oc_lsq c' = oc_lsq c" "oc_iq c' = oc_iq c" "oc_units c' = oc_units c"
    "oc_agus c' = oc_agus c" "oc_loadOuts c' = oc_loadOuts c" "oc_wbReady c' = oc_wbReady c"
    "r_capacity (oc_rob c') = r_capacity (oc_rob c)"
    by (simp_all add: c' dispatch_system_def a)
  have sel: "re_seq ?e = ?seq" "re_ins ?e = I" "re_done ?e" "re_isSystem ?e" "\<not> re_isMem ?e" "\<not> re_isBranch ?e"
    "re_pdst ?e = kNoReg" "re_sysA0 ?e = oc_map c ! 10" "re_sysA7 ?e = oc_map c ! 17"
    by (simp_all add: dispatch_entry_def rob_entry0_def a(6))
  have ready: "oc_ready c' = oc_ready c \<or> (\<exists>p. p \<in> set (ring_list (oc_free c)) \<and> oc_ready c' = (oc_ready c)[unat p := False])"
    by (simp add: fin)
  note en = entered_env(3) [OF inv pend sel(1) fin(2) ready, unfolded sel(1)]
  have stat: "entry_static ?e"
    unfolding entry_static_def sel using sys_no_mem [OF I(2)] sys_no_dest [OF I(2)] sel(4-6) I by (simp add: decode_mkword_regs(1))
  have clean: "done_ok (env_of arch c') ?e" "ready_ok (env_of arch c') ?e"
    by (simp_all add: done_ok_def ready_ok_def sel(7) del: env_of_sel)
  have sys: "sys_ok (env_of arch c') ?e" unfolding sys_ok_def sel en using sel(3) by simp
  have queue: "queue_part c'" using parts by (simp add: queue_part_def fin cfg)
  have "entries (oc_rob c) = []" using room(2) ok by (simp add: ring_empty_def entries_Nil)
  then have "ring_list (oc_rob c') = [?e]"
    using arg_cong [OF pendingD(2) [OF pend], of "map snd"] by (simp add: entries_list)
  then have alone: "alone_part c'" by (simp add: alone_part_def)
  have ls: "if re_isMem ?e then \<exists>j le. [] = [(j, le)] \<and> j \<notin> fst ` set (entries (l_ring (oc_lsq c))) \<and>
        lkey (j, le) = rkey (unat idx, ?e) \<and> mem_entry (env_of arch c') ?e le else [] = []"
    using sel(5) by simp
  show "data_inv arch (k + 1) c'" "arch_regs arch c' = arch_regs arch c"
    by (rule entered_stays [where q = None and ls = "[]", OF inv core cfg pend sel(1) fin(2) ready fin(5-8) queue alone
          stat clean(1) sys clean(2) _ ls]; simp add: fin)+
qed

theorem dispatch_one_stays:
  assumes inv: "data_inv arch k c" and sys: "sysfree c" and step: "dispatch_one first c = (go, c')" and k: "k + 1 < 2 ^ 64"
  shows "data_inv arch (k + 1) c'" "arch_regs arch c' = arch_regs arch c" "go \<Longrightarrow> sysfree c'"
proof -
  let ?f = "ring_head (oc_fetchQ c)"
  let ?I = "decode (ft_raw ?f)"
  have core: "core_inv arch (k + 1) c'" "oc_cfg c' = oc_cfg c" using dispatch_one_inv [OF data_invD(1) [OF inv] step k] by simp_all
  have same: "data_inv arch (k + 1) c' \<and> arch_regs arch c' = arch_regs arch c" if "data_view c' = data_view c"
  proof -
    have "data_inv arch k c'" using data_view_eq(1) [OF that] inv by simp
    then have "data_inv arch (k + 1) c'" using core(1) by (simp add: data_inv_def)
    then show ?thesis using data_view_eq(2) [OF that] by simp
  qed
  have "data_inv arch (k + 1) c' \<and> arch_regs arch c' = arch_regs arch c \<and> (go \<longrightarrow> sysfree c')"
  proof (cases "ring_empty (oc_fetchQ c)")
    case True
    then have "data_view c' = data_view c" "\<not> go" using step by (auto simp: dispatch_one_def)
    then show ?thesis using same by simp
  next
    case False
    show ?thesis
    proof (cases "dispatch_stall first ?I c")
      case (Some st)
      have "st_cycles (st s) = st_cycles s" for s
        using Some by (auto simp: dispatch_stall_def Let_def split: if_splits)
      then have "data_view c' = data_view c" "\<not> go" using step False Some by (auto simp: dispatch_one_def Let_def)
      then show ?thesis using same by simp
    next
      case None
      then have room: "\<not> ring_full (oc_rob c)" "is_mem ?I \<Longrightarrow> \<not> ring_full (l_ring (oc_lsq c))" "\<not> iq_full (oc_iq c)"
        "has_dest ?I \<Longrightarrow> \<not> ring_empty (oc_free c)" "fuKindOf (ins_op ?I) = FU_NONE \<Longrightarrow> ring_empty (oc_rob c)"
        by (auto simp: dispatch_stall_def Let_def split: if_splits)
      obtain idx d where a: "dispatch_alloc ?f ?I c = (idx, d)" by fastforce
      have c': "c' = (if fuKindOf (ins_op ?I) = FU_NONE then dispatch_system idx d
          else dispatch_normal (oc_seqCtr c) idx ?f ?I d)" "go \<longleftrightarrow> fuKindOf (ins_op ?I) \<noteq> FU_NONE"
        using step False None by (auto simp: dispatch_one_def Let_def a split: if_splits)
      show ?thesis
      proof (cases "fuKindOf (ins_op ?I) = FU_NONE")
        case True
        from dispatch_system_stays [OF inv core room(1) room(5) [OF True] refl True a] c' True show ?thesis by simp
      next
        case False
        from dispatch_normal_stays [OF inv core sys room(1-4) refl False a] c' False show ?thesis by simp
      qed
    qed
  qed
  then show "data_inv arch (k + 1) c'" "arch_regs arch c' = arch_regs arch c" "go \<Longrightarrow> sysfree c'" by blast+
qed

lemma dispatch_loop_stays:
  assumes "data_inv arch k c" "sysfree c" "k + n < 2 ^ 64"
  shows "data_inv arch (k + n) (dispatch_loop n first c) \<and> arch_regs arch (dispatch_loop n first c) = arch_regs arch c"
  using assms
proof (induction n arbitrary: k c first)
  case (Suc n)
  obtain go d where d: "dispatch_one first c = (go, d)" by fastforce
  have "k + 1 < 2 ^ 64" using Suc.prems(3) by simp
  note one = dispatch_one_stays [OF Suc.prems(1,2) d this]
  show ?case
  proof (cases go)
    case True
    then show ?thesis using Suc.IH [OF one(1) one(3), of False] one(2) Suc.prems(3) by (simp add: d)
  next
    case False
    have "core_inv arch (k + Suc n) d" by (rule core_inv_mono [OF data_invD(1) [OF one(1)]]) simp
    then show ?thesis using one False by (simp add: d data_inv_def)
  qed
qed simp

theorem dispatchStage_stays:
  assumes "data_inv arch k c" "sysfree c" "k + unat (cfg_width (oc_cfg c)) < 2 ^ 64"
  shows "data_inv arch (k + unat (cfg_width (oc_cfg c))) (dispatchStage c)" "arch_regs arch (dispatchStage c) = arch_regs arch c"
  using dispatch_loop_stays [OF assms] by (simp_all add: dispatchStage_def)

end
