(* ===== verification/In_Order.thy ===== *)
theory In_Order
  imports Reference
begin

text \<open>
  In-order execution, read off the commit stream: what the record of an instruction must say, given
  the architectural registers before it, and the registers after it.  The value a load brings and
  the value an input syscall returns are taken from the record.
\<close>

section \<open>One record\<close>

definition in_order :: "CommitRecord \<Rightarrow> u32 list \<Rightarrow> bool" where
  "in_order r regs =
     (let I = decode (cr_instruction r); p = ins_op I; a = regs ! unat (ins_rs1 I); b = regs ! unat (ins_rs2 I) in
      if fuKindOf p = FU_NONE
      then cr_memoryWrite r = None \<and> cr_exception r = (if p = ILLEGAL then Some IllegalInstruction else None) \<and>
        (let input = (p = ECALL \<and> syscallReturnsInput (regs ! 17)) in
         case cr_registerWrite r of None \<Rightarrow> \<not> input | Some w \<Rightarrow> input \<and> rw_rd w = 10)
      else case execute I (cr_pc r) a b of
        None \<Rightarrow> False
      | Some x \<Rightarrow> cr_exception r = None \<and>
          cr_memoryWrite r =
            (if isStore p then (case memory_write (x_value x) b (ucast (accessSize p)) of Inl _ \<Rightarrow> None | Inr w \<Rightarrow> Some w)
             else None) \<and>
          (let dest = (writesRd p \<and> ins_rd I \<noteq> 0) in
           case cr_registerWrite r of
             None \<Rightarrow> \<not> dest
           | Some w \<Rightarrow> dest \<and> rw_rd w = ins_rd I \<and> (isLoad p \<or> rw_value w = x_value x)))"

definition record_regs :: "CommitRecord \<Rightarrow> u32 list \<Rightarrow> u32 list" where
  "record_regs r regs =
     (case cr_registerWrite r of None \<Rightarrow> regs | Some w \<Rightarrow> regs[unat (rw_rd w) := rw_value w])"

section \<open>A stream of records\<close>

primrec replay :: "u32 list \<Rightarrow> CommitRecord list \<Rightarrow> u32 list option" where
  "replay regs [] = Some regs"
| "replay regs (r # rs) = (if in_order r regs then replay (record_regs r regs) rs else None)"

lemma replay_append: "replay regs (xs @ ys) = Option.bind (replay regs xs) (\<lambda>regs. replay regs ys)"
  by (induction xs arbitrary: regs) simp_all

lemma replay_snoc:
  "replay regs xs = Some regs' \<Longrightarrow> in_order r regs' \<Longrightarrow> replay regs (xs @ [r]) = Some (record_regs r regs')"
  by (simp add: replay_append)

end
