(* ===== verification/Core_Data_Commit.thy ===== *)
theory Core_Data_Commit
  imports Core_Data_Dispatch In_Order
begin

text \<open>
  The data flow through commit: the record of a committed instruction is that of its in-order
  execution on the committed registers, which become those of the record.
\<close>

section \<open>The head\<close>

lemma head_entry:
  assumes "data_inv arch k c" "r_n (oc_rob c) \<noteq> 0"
  defines "e \<equiv> ring_head (oc_rob c)"
  obtains i rest where "entries (oc_rob c) = (i, e) # rest"
    "ring_list (v_rob (view c)) = name_of e # map (name_of \<circ> snd) rest" "entry_static e"
    "done_ok (env_of arch c) e" "sys_ok (env_of arch c) e" "ready_ok (env_of arch c) e"
    "\<And>r. ev_src (env_of arch c) (re_seq e) r = arch ! unat r"
proof -
  note data = data_invD [OF assms(1)]
  have ok: "ring_ok (oc_rob c)" by (rule view_rob_ok [OF data(8)])
  define i where "i = unat (r_headIdx (oc_rob c))"
  have "entries (oc_rob c) \<noteq> []" using assms(2) entries_Nil [OF ok] by simp
  then obtain x rest where x: "entries (oc_rob c) = x # rest" by (cases "entries (oc_rob c)") auto
  have "x = (i, e)" using entries_hd [OF ok assms(2)] by (simp add: x i_def e_def)
  then have ent: "entries (oc_rob c) = (i, e) # rest" using x by simp
  have names: "ring_list (v_rob (view c)) = name_of e # map (name_of \<circ> snd) rest"
    by (simp add: rob_names [OF ok] ent)
  have mem: "(i, e) \<in> set (fl_rob (flight_of c))" by (simp add: ent)
  note rob = rob_okD [OF flight_invD(1) [OF data(7)]]
  have "n_seq (name_of e) = re_seq e" by (simp add: name_of_def)
  then have "older_names c (re_seq e) = []" using older_head [OF data(9) names] by simp
  then have src: "ev_src (env_of arch c) (re_seq e) r = arch ! unat r" for r by (simp add: renamed_def)
  from that [OF ent names rob(3-6) [OF mem] src] show thesis .
qed

text \<open>A system instruction is alone, so one that is not at the head is not there.\<close>

lemma sysfree_head:
  assumes "alone_part c" "ring_ok (oc_rob c)" "r_n (oc_rob c) \<noteq> 0 \<Longrightarrow> \<not> re_isSystem (ring_head (oc_rob c))"
  shows "sysfree c"
  unfolding sysfree_def
proof
  fix e
  assume e: "e \<in> set (ring_list (oc_rob c))"
  then have n: "r_n (oc_rob c) \<noteq> 0" using ring_list_Nil [of "oc_rob c"] by auto
  show "\<not> re_isSystem e"
  proof
    assume "re_isSystem e"
    then have "ring_list (oc_rob c) = [e]" using assms(1) e by (simp add: alone_part_def)
    then have "ring_head (oc_rob c) = e" using ring_popHead_ok(3) [OF assms(2) n] by simp
    then show False using assms(3) [OF n] \<open>re_isSystem e\<close> by simp
  qed
qed

lemma sysfree_waiting:
  assumes "data_inv arch k c" "ring_empty (oc_rob c) \<or> \<not> re_done (ring_head (oc_rob c))"
  shows "sysfree c"
proof (rule sysfree_head)
  show "alone_part c" "ring_ok (oc_rob c)" using data_invD(6,8) [OF assms(1)] view_rob_ok by auto
  assume n: "r_n (oc_rob c) \<noteq> 0"
  then have "\<not> re_done (ring_head (oc_rob c))" using assms(2) by (simp add: ring_empty_def)
  moreover have "sys_ok (env_of arch c) (ring_head (oc_rob c))" using head_entry [OF assms(1) n] by blast
  ultimately show "\<not> re_isSystem (ring_head (oc_rob c))" by (auto simp: sys_ok_def)
qed

text \<open>The renaming part of a commit.\<close>

lemma commit_one_core:
  assumes "core_inv arch k c" "r_n (oc_rob c) \<noteq> 0" "re_done (ring_head (oc_rob c))" "\<not> oc_halted c"
    "commit_one c = Some (Inr (go, c'))"
  shows "core_inv (if go then rename_upd (hd (ring_list (v_rob (view c)))) arch else arch) k c'"
    "ring_list (v_rob (view c')) = (if go then tl (ring_list (v_rob (view c))) else ring_list (v_rob (view c)))"
    "oc_cfg c' = oc_cfg c"
proof -
  have "commit_loop (Suc 0) 0 c = Some (Inr (if go then 1 else 0, c'))"
    using assms(2-5) by (simp add: bind_io_def ring_empty_def)
  from commit_loop_inv [OF this assms(1)] obtain m where m:
    "core_inv (renamed (take m (ring_list (v_rob (view c)))) arch) k c'"
    "ring_list (v_rob (view c')) = drop m (ring_list (v_rob (view c)))" "(if go then 1 else 0) = 0 + m"
    "v_cfg (view c') = v_cfg (view c)" by blast
  have "ring_list (v_rob (view c)) \<noteq> []" using assms(2) by (simp add: ring_list_Nil view_def)
  then have t: "take 1 (ring_list (v_rob (view c))) = [hd (ring_list (v_rob (view c)))]" by (cases "ring_list (v_rob (view c))") auto
  show "core_inv (if go then rename_upd (hd (ring_list (v_rob (view c)))) arch else arch) k c'"
    using m(1,3) t by (cases go) (auto simp: renamed_def)
  show "ring_list (v_rob (view c')) = (if go then tl (ring_list (v_rob (view c))) else ring_list (v_rob (view c)))"
    using m(2,3) by (cases go) (auto simp: drop_Suc)
  show "oc_cfg c' = oc_cfg c" using m(4) by (simp add: view_def)
qed

text \<open>The younger instructions see the same sources, for the oldest entry is now in the committed map.\<close>

lemma retire_env:
  assumes names: "ring_list (v_rob (view c)) = n # ns" "ring_list (v_rob (view c')) = ns"
    and order: "order_inv k (view c)" and s: "s \<in> n_seq ` set ns"
    and same: "oc_ready c' = oc_ready c" "oc_val c' = oc_val c"
  shows "ev_src (env_of (rename_upd n arch) c') s r = ev_src (env_of arch c) s r"
proof -
  have "sorted_wrt (<) (map n_seq (n # ns))" using order names(1) by (simp add: order_inv_def Let_def)
  then have "n_seq n < s" using s by auto
  then have "older_names c s = n # older_names c' s" by (simp add: older_names_def names)
  then show ?thesis by (simp add: renamed_def)
qed

section \<open>An ordinary instruction\<close>

lemma data_view_commit [simp]:
  "data_view (commit_branch e c) = data_view c" "oc_commits (commit_branch e c) = oc_commits c"
  "data_view (commit_dep e c) = data_view c" "oc_commits (commit_dep e c) = oc_commits c"
  "oc_commits (count_stat f c) = oc_commits c"
  by (simp_all add: commit_branch_def commit_dep_def Let_def)

lemma commit_rest_fields:
  "oc_rob (commit_rest e rec c) = ring_popHead (oc_rob c)" "oc_val (commit_rest e rec c) = oc_val c"
  "oc_ready (commit_rest e rec c) = oc_ready c" "oc_iq (commit_rest e rec c) = oc_iq c" "oc_lsq (commit_rest e rec c) = oc_lsq c"
  "oc_units (commit_rest e rec c) = oc_units c" "oc_agus (commit_rest e rec c) = oc_agus c"
  "oc_loadOuts (commit_rest e rec c) = oc_loadOuts c" "oc_wbReady (commit_rest e rec c) = oc_wbReady c"
  "oc_commits (commit_rest e rec c) = oc_commits c @
     [if re_pdst e \<noteq> kNoReg
      then rec\<lparr>cr_registerWrite := Some \<lparr>rw_rd = ins_rd (re_ins e), rw_value = oc_val c ! unat (re_pdst e)\<rparr>\<rparr> else rec]"
proof -
  let ?d = "snd (commit_dest e rec c)"
  let ?b = "count_stat (\<lambda>s. s\<lparr>st_retired := st_retired s + 1\<rparr>) (commit_dep e (commit_branch e ?d))"
  have r: "commit_rest e rec c = commit_finish (fst (commit_dest e rec c)) ?b"
    by (simp add: commit_rest_def Let_def case_prod_beta)
  have "data_view ?b = data_view ?d" by simp
  moreover have "oc_commits ?b = oc_commits ?d" by simp
  moreover have "oc_rob ?d = oc_rob c" "oc_val ?d = oc_val c" "oc_ready ?d = oc_ready c" "oc_iq ?d = oc_iq c" "oc_lsq ?d = oc_lsq c"
    "oc_units ?d = oc_units c" "oc_agus ?d = oc_agus c" "oc_loadOuts ?d = oc_loadOuts c" "oc_wbReady ?d = oc_wbReady c"
    "oc_commits ?d = oc_commits c" by (simp_all add: commit_dest_def)
  ultimately have b: "oc_rob ?b = oc_rob c" "oc_val ?b = oc_val c" "oc_ready ?b = oc_ready c" "oc_iq ?b = oc_iq c"
    "oc_lsq ?b = oc_lsq c" "oc_units ?b = oc_units c" "oc_agus ?b = oc_agus c" "oc_loadOuts ?b = oc_loadOuts c"
    "oc_wbReady ?b = oc_wbReady c" "oc_commits ?b = oc_commits c"
    by (simp_all only: data_view_def prod.inject)
  show "oc_rob (commit_rest e rec c) = ring_popHead (oc_rob c)" "oc_val (commit_rest e rec c) = oc_val c"
    "oc_ready (commit_rest e rec c) = oc_ready c" "oc_iq (commit_rest e rec c) = oc_iq c" "oc_lsq (commit_rest e rec c) = oc_lsq c"
    "oc_units (commit_rest e rec c) = oc_units c" "oc_agus (commit_rest e rec c) = oc_agus c"
    "oc_loadOuts (commit_rest e rec c) = oc_loadOuts c" "oc_wbReady (commit_rest e rec c) = oc_wbReady c"
    unfolding r commit_finish_def using b by simp_all
  show "oc_commits (commit_rest e rec c) = oc_commits c @
     [if re_pdst e \<noteq> kNoReg
      then rec\<lparr>cr_registerWrite := Some \<lparr>rw_rd = ins_rd (re_ins e), rw_value = oc_val c ! unat (re_pdst e)\<rparr>\<rparr> else rec]"
    unfolding r commit_finish_def using b(10) by (simp add: commit_dest_def)
qed

lemma commit_mem_fields:
  assumes "commit_mem e rec c = Inr (Some (rec', c'))"
  shows "oc_rob c' = oc_rob c" "oc_val c' = oc_val c" "oc_ready c' = oc_ready c" "oc_iq c' = oc_iq c"
    "oc_lsq c' = (if re_isMem e then lsq_popHead (oc_lsq c) else oc_lsq c)" "oc_units c' = oc_units c"
    "oc_agus c' = oc_agus c" "oc_loadOuts c' = oc_loadOuts c" "oc_wbReady c' = oc_wbReady c" "oc_commits c' = oc_commits c"
  using assms by (auto simp: commit_mem_def Let_def bind_result_Inr split: if_splits)

text \<open>The write of a store.\<close>

lemma commit_mem_record:
  assumes "commit_mem e rec c = Inr (Some (rec', c'))" "cr_memoryWrite rec = None"
  defines "le \<equiv> ring_head (l_ring (oc_lsq c))"
  shows "rec' = rec\<lparr>cr_memoryWrite :=
    (if re_isMem e \<and> le_isStore le
     then (case memory_write (le_addr le) (le_data le) (le_size le) of Inl _ \<Rightarrow> None | Inr w \<Rightarrow> Some w) else None)\<rparr>"
  using assms(1,2) by (auto simp: commit_mem_def Let_def bind_result_Inr le_def split: if_splits)

text \<open>The entry of the head in the load/store queue is the oldest.\<close>

lemma head_mem:
  assumes "data_inv arch k c" "r_n (oc_rob c) \<noteq> 0" "re_isMem (ring_head (oc_rob c))"
  defines "e \<equiv> ring_head (oc_rob c)" and "le \<equiv> ring_head (l_ring (oc_lsq c))"
  shows "lsq_ok (oc_lsq c)" "r_n (l_ring (oc_lsq c)) \<noteq> 0" "le_isStore le = isStore (opc e)" "mem_entry (env_of arch c) e le"
    "entries (l_ring (lsq_popHead (oc_lsq c))) = tl (entries (l_ring (oc_lsq c)))"
proof -
  note data = data_invD [OF assms(1)]
  obtain i rest where ent: "entries (oc_rob c) = (i, e) # rest" using head_entry [OF assms(1,2)] e_def by metis
  show ok: "lsq_ok (oc_lsq c)" using data(3) by (simp add: queue_part_def)
  note rok = lsq_okD(1) [OF ok]
  have pair: "map lkey (entries (l_ring (oc_lsq c))) = map rkey (filter (re_isMem \<circ> snd) ((i, e) # rest))"
    using flight_invD(2) [OF data(7)] by (simp add: pair_ok_def ent)
  also have "\<dots> = rkey (i, e) # map rkey (filter (re_isMem \<circ> snd) rest)" using assms(3) by (simp add: e_def)
  finally obtain x xs where x: "entries (l_ring (oc_lsq c)) = x # xs" "lkey x = rkey (i, e)" by auto
  show n: "r_n (l_ring (oc_lsq c)) \<noteq> 0" using entries_Nil [OF rok] x(1) by auto
  have "snd x = le" using entries_hd [OF rok n] by (simp add: x(1) le_def)
  then obtain j where j: "x = (j, le)" by (cases x) auto
  show "le_isStore le = isStore (opc e)" using x(2) by (simp add: j lkey_def rkey_def)
  have "(i, e) \<in> set (fl_rob (flight_of c))" "(j, le) \<in> set (fl_lsq (flight_of c))" "le_seq le = re_seq e"
    using x by (simp_all add: ent j lkey_def rkey_def)
  then show "mem_entry (env_of arch c) e le" using flight_invD(3) [OF data(7)] unfolding mem_ok_def by blast
  have "l_ring (lsq_popHead (oc_lsq c)) = ring_popHead (l_ring (oc_lsq c))"
    by (simp add: lsq_popHead_def Let_def lsq_remove_def)
  then show "entries (l_ring (lsq_popHead (oc_lsq c))) = tl (entries (l_ring (oc_lsq c)))" using entries_pop(1) [OF rok n] by simp
qed

text \<open>The operands of the head are the committed registers.\<close>

lemma arch_regs_nth: "i < length arch \<Longrightarrow> arch_regs arch c ! i = oc_val c ! unat (arch ! i)"
  by (simp add: arch_regs_def)

lemma head_operands:
  assumes "data_inv arch k c" "r_n (oc_rob c) \<noteq> 0"
  defines "e \<equiv> ring_head (oc_rob c)"
  shows "unat r < 32 \<Longrightarrow> opnd (env_of arch c) (re_seq e) r = arch_regs arch c ! unat r"
    "execute (re_ins e) (re_pc e) (arch_regs arch c ! unat (ins_rs1 (re_ins e))) (arch_regs arch c ! unat (ins_rs2 (re_ins e))) =
      Some (outcome (env_of arch c) e)"
    "addr_of (env_of arch c) e = arch_regs arch c ! unat (ins_rs1 (re_ins e)) + ins_imm (re_ins e)"
proof -
  have len: "length arch = 32" by (rule regs_apart(1) [OF data_invD(8) [OF assms(1)]])
  have h: "entry_static e" "ev_src (env_of arch c) (re_seq e) r = arch ! unat r" for r
    using head_entry [OF assms(1,2)] e_def by metis+
  show op: "opnd (env_of arch c) (re_seq e) r = arch_regs arch c ! unat r" if "unat r < 32" for r
    using that len unfolding opnd_def h(2) by (simp add: arch_regs_nth)
  note o = op [OF static_regs(1) [OF h(1)]] op [OF static_regs(2) [OF h(1)]]
  have "\<exists>x. execute (re_ins e) (re_pc e) (arch_regs arch c ! unat (ins_rs1 (re_ins e)))
      (arch_regs arch c ! unat (ins_rs2 (re_ins e))) = Some x" by (rule execute_total)
  then show "execute (re_ins e) (re_pc e) (arch_regs arch c ! unat (ins_rs1 (re_ins e)))
      (arch_regs arch c ! unat (ins_rs2 (re_ins e))) = Some (outcome (env_of arch c) e)"
    unfolding outcome_def o by auto
  show "addr_of (env_of arch c) e = arch_regs arch c ! unat (ins_rs1 (re_ins e)) + ins_imm (re_ins e)"
    unfolding addr_of_def o ..
qed

definition commit_record :: "core \<Rightarrow> CommitRecord" where
  "commit_record c =
     \<lparr>cr_sequence = st_retired (oc_stats c), cr_pc = re_pc (ring_head (oc_rob c)),
      cr_instruction = ins_raw (re_ins (ring_head (oc_rob c))),
      cr_registerWrite = None, cr_memoryWrite = None, cr_exception = None\<rparr>"

lemma store_no_dest: "isStore x \<Longrightarrow> \<not> writesRd x"
  by (cases x) (simp_all add: writesRd_def isBranch_def isStore_def isLoad_def less_eq_op_def)

lemma load_no_store: "isStore x \<Longrightarrow> \<not> isLoad x"
  by (cases x) (simp_all add: isStore_def isLoad_def less_eq_op_def)

lemma normal_record:
  assumes inv: "data_inv arch k c" and n: "r_n (oc_rob c) \<noteq> 0"
  defines "e \<equiv> ring_head (oc_rob c)"
  assumes fin: "re_done e" and sys: "\<not> re_isSystem e" and mem: "commit_mem e (commit_record c) c = Inr (Some (rec, d))"
  defines "r \<equiv> if re_pdst e \<noteq> kNoReg
      then rec\<lparr>cr_registerWrite := Some \<lparr>rw_rd = ins_rd (re_ins e), rw_value = oc_val c ! unat (re_pdst e)\<rparr>\<rparr> else rec"
  shows "in_order r (arch_regs arch c)"
proof -
  let ?I = "re_ins e" and ?v = "env_of arch c" and ?x = "outcome (env_of arch c) e"
  have h: "entry_static e" "done_ok ?v e" using head_entry [OF inv n] e_def by metis+
  note st = h(1) [unfolded entry_static_def]
  note ops = head_operands [OF inv n, folded e_def]
  define le where "le = ring_head (l_ring (oc_lsq c))"
  define mw where "mw = (if re_isMem e \<and> le_isStore le
     then (case memory_write (le_addr le) (le_data le) (le_size le) of Inl _ \<Rightarrow> None | Inr w \<Rightarrow> Some w) else None)"
  have rec: "rec = (commit_record c)\<lparr>cr_memoryWrite := mw\<rparr>"
    using commit_mem_record [OF mem] by (simp add: commit_record_def mw_def le_def)
  have sel: "cr_instruction r = ins_raw ?I" "cr_pc r = re_pc e" "cr_exception r = None" "cr_memoryWrite r = mw"
    "cr_registerWrite r = (if re_pdst e \<noteq> kNoReg then Some \<lparr>rw_rd = ins_rd ?I, rw_value = oc_val c ! unat (re_pdst e)\<rparr> else None)"
    by (simp_all add: r_def rec commit_record_def e_def)
  have I: "decode (ins_raw ?I) = ?I" using st by simp
  have mw: "mw = (if isStore (opc e) then
      (case memory_write (x_value ?x) (arch_regs arch c ! unat (ins_rs2 ?I)) (ucast (accessSize (opc e))) of
         Inl _ \<Rightarrow> None | Inr w \<Rightarrow> Some w) else None)"
  proof (cases "re_isMem e")
    case True
    note hm = head_mem [OF inv n True [unfolded e_def], folded e_def le_def]
    show ?thesis
    proof (cases "isStore (opc e)")
      case store: True
      have "le_addr le = addr_of ?v e" "le_size le = ucast (accessSize (opc e))"
        "le_data le = opnd ?v (re_seq e) (ins_rs2 ?I)"
        using hm(4) store fin by (simp_all add: mem_entry_def)
      moreover have "x_value ?x = addr_of ?v e"
        using execute_mem [of ?I] store by (simp add: outcome_def addr_of_def)
      ultimately show ?thesis using True store hm(3) ops(1) [OF static_regs(2) [OF h(1)]] by (simp add: mw_def)
    qed (simp add: mw_def hm(3))
  next
    case False
    then show ?thesis using st by (simp add: mw_def)
  qed
  have dest: "re_pdst e \<noteq> kNoReg \<longleftrightarrow> writesRd (opc e) \<and> ins_rd ?I \<noteq> 0" using st by simp
  have val: "oc_val c ! unat (re_pdst e) = x_value ?x" if "re_pdst e \<noteq> kNoReg" "\<not> isLoad (opc e)"
  proof -
    have "\<not> re_isMem e" using st that store_no_dest by auto
    then show ?thesis using h(2) fin sys that by (simp add: done_ok_def)
  qed
  have kind: "fuKindOf (opc e) \<noteq> FU_NONE" using st sys by simp
  show ?thesis
    unfolding in_order_def Let_def sel I ops(2) if_not_P [OF kind] option.case
  proof (intro conjI)
    show "mw = (if isStore (opc e) then
        (case memory_write (x_value ?x) (arch_regs arch c ! unat (ins_rs2 ?I)) (ucast (accessSize (opc e))) of
           Inl _ \<Rightarrow> None | Inr w \<Rightarrow> Some w) else None)" by (rule mw)
    show "case if re_pdst e \<noteq> kNoReg then Some \<lparr>rw_rd = ins_rd ?I, rw_value = oc_val c ! unat (re_pdst e)\<rparr> else None of
        None \<Rightarrow> \<not> (writesRd (opc e) \<and> ins_rd ?I \<noteq> 0)
      | Some w \<Rightarrow> (writesRd (opc e) \<and> ins_rd ?I \<noteq> 0) \<and> rw_rd w = ins_rd ?I \<and> (isLoad (opc e) \<or> rw_value w = x_value ?x)"
      using dest val by (cases "re_pdst e \<noteq> kNoReg") auto
  qed simp
qed

lemma arch_regs_dest:
  "arch_regs (rename_upd (name_of e) arch) c =
     (if re_pdst e \<noteq> kNoReg then (arch_regs arch c)[unat (ins_rd (re_ins e)) := oc_val c ! unat (re_pdst e)] else arch_regs arch c)"
  by (simp add: arch_regs_def rename_upd_def name_of_def map_update)

text \<open>The state after it.\<close>

lemma normal_state:
  assumes inv: "data_inv arch k c" and n: "r_n (oc_rob c) \<noteq> 0"
  defines "e \<equiv> ring_head (oc_rob c)"
  assumes fin: "re_done e" and sys: "\<not> re_isSystem e" and mem: "commit_mem e rec0 c = Inr (Some (rec, d))"
    and c': "c' = commit_rest e rec d"
    and core: "core_inv (rename_upd (name_of e) arch) k c'" "ring_list (v_rob (view c')) = tl (ring_list (v_rob (view c)))"
      "oc_cfg c' = oc_cfg c"
  shows "data_inv (rename_upd (name_of e) arch) k c'" "sysfree c'"
proof -
  let ?arch = "rename_upd (name_of e) arch"
  note data = data_invD [OF inv]
  note parts = data(2-4) [unfolded part_defs]
  have ok: "ring_ok (oc_rob c)" by (rule view_rob_ok [OF data(8)])
  obtain i rest where h: "entries (oc_rob c) = (i, e) # rest"
    "ring_list (v_rob (view c)) = name_of e # map (name_of \<circ> snd) rest" "ready_ok (env_of arch c) e"
    using head_entry [OF inv n] e_def by metis
  have f: "oc_rob c' = ring_popHead (oc_rob c)" "oc_val c' = oc_val c" "oc_ready c' = oc_ready c" "oc_iq c' = oc_iq c"
    "oc_lsq c' = (if re_isMem e then lsq_popHead (oc_lsq c) else oc_lsq c)" "oc_units c' = oc_units c"
    "oc_agus c' = oc_agus c" "oc_loadOuts c' = oc_loadOuts c" "oc_wbReady c' = oc_wbReady c"
    unfolding c' commit_rest_fields(1-9) by (simp_all add: commit_mem_fields [OF mem])
  have ent: "entries (oc_rob c') = rest" using entries_pop(1) [OF ok n] by (simp add: f(1) h(1))
  note names = h(2) core(2) [unfolded h(2) list.sel]
  have hm: "lsq_ok (lsq_popHead (oc_lsq c))"
    "entries (l_ring (lsq_popHead (oc_lsq c))) = tl (entries (l_ring (oc_lsq c)))" if "re_isMem e"
  proof -
    note m = head_mem [OF inv n that [unfolded e_def]]
    show "lsq_ok (lsq_popHead (oc_lsq c))" using popHead_ok [OF m(1,2)] by blast
    show "entries (l_ring (lsq_popHead (oc_lsq c))) = tl (entries (l_ring (oc_lsq c)))" by (rule m(5))
  qed
  have fl: "flight_of c' = (flight_of c)\<lparr>fl_rob := rest,
      fl_lsq := (if re_isMem e then tl (fl_lsq (flight_of c)) else fl_lsq (flight_of c))\<rparr>"
    using hm(2) by (simp add: flight_of_def f(4-8) ent)
  have step: "env_step (env_of arch c) (env_of ?arch c') ((re_seq \<circ> snd) ` set rest)"
  proof -
    have src: "ev_src (env_of ?arch c') s r = ev_src (env_of arch c) s r" if "s \<in> (re_seq \<circ> snd) ` set rest" for s r
    proof (rule retire_env [OF names data(9) _ f(3,2)])
      show "s \<in> n_seq ` set (map (name_of \<circ> snd) rest)" using that by (force simp: name_of_def)
    qed
    show ?thesis unfolding env_step_def src_ready_def using src by (simp add: f(2,3) del: env_of_sel(3))
  qed
  have "fl_rob (flight_of c) = (i, e) # rest" by (simp add: h(1))
  from retire_inv [OF data(7) this fin fl step] have flight: "flight_inv (env_of ?arch c') (flight_of c')" by (simp add: f(3))
  have regs: "regs_part ?arch c'"
  proof -
    have "oc_ready c ! unat (re_pdst e)" if "re_pdst e \<noteq> kNoReg" using h(3) fin that by (simp add: ready_ok_def)
    moreover have "set ?arch \<subseteq> insert (re_pdst e) (set arch)" "re_pdst e = kNoReg \<Longrightarrow> ?arch = arch"
      using set_update_subset_insert [of arch] by (auto simp: rename_upd_def name_of_def)
    ultimately have "\<forall>p \<in> set ?arch. oc_ready c ! unat p" using parts by (cases "re_pdst e = kNoReg") auto
    then show ?thesis using parts by (simp add: regs_part_def f(2,3) core(3))
  qed
  have cap: "r_capacity (oc_rob c') = r_capacity (oc_rob c)" by (simp add: f(1) ring_popHead_def)
  have queue: "queue_part c'" using parts hm(1) by (simp add: queue_part_def f(4,5) cap core(3))
  have port: "port_part c'" by (rule port_same [OF f(6,8,9) data(5)])
  have unit: "unit_part c'" by (rule unit_same [OF f(6,7) core(3) data(4)])
  have "sysfree c" by (rule sysfree_head [OF data(6) ok]) (use sys e_def in blast)
  moreover have "ring_list (oc_rob c') = tl (ring_list (oc_rob c))" using ring_popHead_ok(2) [OF ok n] by (simp only: f(1))
  ultimately show free: "sysfree c'" by (cases "ring_list (oc_rob c)") (auto simp: sysfree_def)
  then have alone: "alone_part c'" by (simp add: alone_part_def sysfree_def)
  show "data_inv ?arch k c'" using core(1) regs queue unit port alone flight by (simp add: data_inv_def)
qed

section \<open>A system instruction\<close>

lemma flight_single:
  assumes inv: "flight_inv v fl" and rob: "fl_rob fl = [(i, e)]" and fin: "re_done e" "\<not> re_isMem e"
  shows "fl_lsq fl = []" "fl_wb fl = {#}" "fl_agu fl = {#}" "fl_iq fl j = None"
proof -
  show "fl_lsq fl = []" using flight_invD(2) [OF inv] fin by (simp add: pair_ok_def rob)
  have no: "x \<notin># fl_wb fl + fl_agu fl" for x
  proof
    assume "x \<in># fl_wb fl + fl_agu fl"
    from op_refers [OF inv this] show False using rob fin by auto
  qed
  then have "fl_wb fl + fl_agu fl = {#}" by (metis multiset_nonemptyE)
  then show "fl_wb fl = {#}" "fl_agu fl = {#}" by simp_all
  show "fl_iq fl j = None"
  proof (rule ccontr)
    assume "fl_iq fl j \<noteq> None"
    then obtain q w1 w2 where "fl_iq fl j = Some (q, w1, w2)" by (metis not_None_eq prod_cases3)
    from iq_refers [OF inv this] show False using rob fin by auto
  qed
qed

lemma flight_empty:
  assumes "fl_rob fl = []" "fl_lsq fl = []" "fl_wb fl = {#}" "fl_agu fl = {#}" "\<And>j. fl_iq fl j = None"
  shows "flight_inv v fl"
  using assms by (simp add: flight_inv_def rob_ok_def pair_ok_def mem_ok_def uniq_ok_def)

lemma loud_arg:
  "runSyscall num a pc False rb ec n ri h = Some (Inr s) \<Longrightarrow> \<not> syscallReturnsInput num \<Longrightarrow> s_arg s = a"
  by (auto simp: runSyscall_def Let_def bind_result_Inr syscallReturnsInput_def split: if_splits option.splits)

text \<open>What a system instruction changes: the argument register of a call.\<close>

lemma commit_system_fields:
  assumes "commit_system e rec c = Some (Inr (rec', d))" "ins_op (re_ins e) = ECALL \<longrightarrow> re_sysA7 e \<noteq> re_sysA0 e"
    and "unat (re_sysA0 e) < length (oc_val c)"
  defines "x \<equiv> ins_op (re_ins e)" and "num \<equiv> oc_val c ! unat (re_sysA7 e)"
  obtains v where "data_view d = data_view (c\<lparr>oc_val := (if x = ECALL then (oc_val c)[unat (re_sysA0 e) := v] else oc_val c)\<rparr>)"
    "oc_commits d = oc_commits c" "\<not> syscallReturnsInput num \<Longrightarrow> v = oc_val c ! unat (re_sysA0 e)"
    "rec' = (if x = ECALL \<and> syscallReturnsInput num then rec\<lparr>cr_registerWrite := Some \<lparr>rw_rd = 10, rw_value = v\<rparr>\<rparr>
       else if x = ILLEGAL then rec\<lparr>cr_exception := Some IllegalInstruction\<rparr> else rec)"
proof (cases "x = ECALL")
  case False
  have "data_view d = data_view c" "oc_commits d = oc_commits c"
    "rec' = (if x = ILLEGAL then rec\<lparr>cr_exception := Some IllegalInstruction\<rparr> else rec)"
    using assms(1) False by (auto simp: commit_system_def Let_def x_def split: op.splits)
  then show thesis using that [of "oc_val c ! unat (re_sysA0 e)"] False by simp
next
  case True
  let ?a0 = "unat (re_sysA0 e)" and ?a7 = "unat (re_sysA7 e)"
  obtain s where s: "runSyscall num (oc_val c ! ?a0) (re_pc e) False (msys_peek8 (oc_msys c)) (oc_exitCode c)
      (length (bytes (ms_backing (oc_msys c)))) UINT32_MAX (oc_host c) = Some (Inr s)"
    "rec' = (if syscallReturnsInput ((oc_val c)[?a0 := s_arg s] ! ?a7)
       then rec\<lparr>cr_registerWrite := Some \<lparr>rw_rd = 10, rw_value = (oc_val c)[?a0 := s_arg s] ! ?a0\<rparr>\<rparr> else rec)"
    "data_view d = data_view (c\<lparr>oc_val := (oc_val c)[?a0 := s_arg s]\<rparr>)" "oc_commits d = oc_commits c"
    using assms(1) True by (auto simp: commit_system_def commit_ecall_def Let_def bind_result_Inr x_def num_def
        data_view_def view_def split: if_splits)
  have "?a0 \<noteq> ?a7" using assms(2) True by (simp add: x_def word_unat_eq_iff)
  then have "(oc_val c)[?a0 := s_arg s] ! ?a7 = num" by (simp add: num_def)
  moreover have "(oc_val c)[?a0 := s_arg s] ! ?a0 = s_arg s" using assms(3) by simp
  ultimately show thesis using that [of "s_arg s"] s True loud_arg [OF s(1)] by (simp add: x_def)
qed

lemma arch_regs_update:
  assumes "distinct arch" "i < length arch" "\<forall>p \<in> set arch. unat p < length vals"
  shows "map (\<lambda>p. (vals[unat (arch ! i) := v]) ! unat p) arch = (map (\<lambda>p. vals ! unat p) arch)[i := v]"
proof (rule nth_equalityI)
  fix j
  assume "j < length (map (\<lambda>p. (vals[unat (arch ! i) := v]) ! unat p) arch)"
  then have j: "j < length arch" by simp
  have "unat (arch ! i) = unat (arch ! j) \<longleftrightarrow> i = j"
    using nth_eq_iff_index_eq [OF assms(1,2) j] by (simp add: word_unat_eq_iff)
  then show "map (\<lambda>p. (vals[unat (arch ! i) := v]) ! unat p) arch ! j = (map (\<lambda>p. vals ! unat p) arch)[i := v] ! j"
    using j assms(2,3) by (cases "i = j") auto
qed simp

lemma system_stays:
  assumes inv: "data_inv arch k c" and n: "r_n (oc_rob c) \<noteq> 0"
  defines "e \<equiv> ring_head (oc_rob c)"
  assumes fin: "re_done e" and sys: "re_isSystem e"
    and step: "commit_system e (commit_record c) c = Some (Inr (r, d))" and c': "c' = commit_finish r d"
    and core: "core_inv arch k c'" "oc_cfg c' = oc_cfg c"
  shows "data_inv arch k c'" "sysfree c'" "in_order r (arch_regs arch c)" "arch_regs arch c' = record_regs r (arch_regs arch c)"
    "oc_commits c' = oc_commits c @ [r]"
proof -
  let ?v = "env_of arch c" and ?I = "re_ins e"
  note data = data_invD [OF inv]
  note parts = data(2-4) [unfolded part_defs]
  note apart = regs_apart [OF data(8)]
  have ok: "ring_ok (oc_rob c)" by (rule view_rob_ok [OF data(8)])
  obtain i rest where h: "entries (oc_rob c) = (i, e) # rest" "entry_static e" "sys_ok ?v e"
    "\<And>r. ev_src ?v (re_seq e) r = arch ! unat r"
    using head_entry [OF inv n] e_def by metis
  note st = h(2) [unfolded entry_static_def]
  have list: "ring_list (oc_rob c) = [e]"
  proof -
    have "e \<in> set (ring_list (oc_rob c))" using h(1) in_entries_list [of i e "oc_rob c"] by simp
    then show ?thesis using data(6) sys by (simp add: alone_part_def)
  qed
  then have "length (entries (oc_rob c)) = 1" using arg_cong [OF entries_list [of "oc_rob c"], of length] by simp
  then have rest: "rest = []" using h(1) by simp
  have a: "re_sysA0 e = arch ! 10" "re_sysA7 e = arch ! 17" using h(3) sys by (simp_all add: sys_ok_def h(4) del: env_of_sel)
  have A: "unat (arch ! 10) < length (oc_val c)" "arch ! 17 \<noteq> arch ! 10"
    "\<forall>p \<in> set arch. unat p < length (oc_val c)"
    using apart(1,2,6) parts by (auto simp: nth_eq_iff_index_eq)
  have regs: "arch_regs arch c ! 10 = oc_val c ! unat (arch ! 10)" "arch_regs arch c ! 17 = oc_val c ! unat (arch ! 17)"
    using apart(1) by (simp_all add: arch_regs_nth)
  obtain v where f: "data_view d =
      data_view (c\<lparr>oc_val := (if opc e = ECALL then (oc_val c)[unat (arch ! 10) := v] else oc_val c)\<rparr>)"
    "oc_commits d = oc_commits c" "\<not> syscallReturnsInput (arch_regs arch c ! 17) \<Longrightarrow> v = arch_regs arch c ! 10"
    "r = (if opc e = ECALL \<and> syscallReturnsInput (arch_regs arch c ! 17)
       then (commit_record c)\<lparr>cr_registerWrite := Some \<lparr>rw_rd = 10, rw_value = v\<rparr>\<rparr>
       else if opc e = ILLEGAL then (commit_record c)\<lparr>cr_exception := Some IllegalInstruction\<rparr> else commit_record c)"
    using commit_system_fields [OF step, unfolded a, OF _ A(1)] A(2) unfolding regs by metis
  have d: "oc_rob d = oc_rob c" "oc_ready d = oc_ready c" "oc_iq d = oc_iq c" "oc_lsq d = oc_lsq c" "oc_units d = oc_units c"
    "oc_agus d = oc_agus c" "oc_loadOuts d = oc_loadOuts c" "oc_wbReady d = oc_wbReady c"
    "oc_val d = (if opc e = ECALL then (oc_val c)[unat (arch ! 10) := v] else oc_val c)"
    using f(1) by (simp_all add: data_view_def)
  have fin': "oc_rob c' = ring_popHead (oc_rob c)" "oc_ready c' = oc_ready c" "oc_iq c' = oc_iq c" "oc_lsq c' = oc_lsq c"
    "oc_units c' = oc_units c" "oc_agus c' = oc_agus c" "oc_loadOuts c' = oc_loadOuts c" "oc_wbReady c' = oc_wbReady c"
    "oc_val c' = (if opc e = ECALL then (oc_val c)[unat (arch ! 10) := v] else oc_val c)"
    by (simp_all add: c' commit_finish_def d)
  show com: "oc_commits c' = oc_commits c @ [r]" by (simp add: c' commit_finish_def f(2))
  have "ring_list (oc_rob c') = []" using ring_popHead_ok(2) [OF ok n] list by (simp add: fin'(1))
  then show free: "sysfree c'" by (simp add: sysfree_def)
  then have alone: "alone_part c'" by (simp add: alone_part_def sysfree_def)
  have ent: "entries (oc_rob c') = []" using entries_pop(1) [OF ok n] by (simp add: fin'(1) h(1) rest)
  have "fl_rob (flight_of c) = [(i, e)]" using h(1) rest by simp
  moreover have "\<not> re_isMem e" using st sys sys_no_mem [of "opc e"] by auto
  ultimately have fl: "fl_lsq (flight_of c) = []" "fl_wb (flight_of c) = {#}" "fl_agu (flight_of c) = {#}"
    "\<And>j. fl_iq (flight_of c) j = None"
    using flight_single [OF data(7)] fin by blast+
  have flight: "flight_inv (env_of arch c') (flight_of c')"
    by (rule flight_empty) (use fl ent in \<open>simp_all add: fin'(2-8)\<close>)
  have "length (oc_val c') = length (oc_val c)" by (simp add: fin'(9))
  then have regs': "regs_part arch c'" using parts by (simp add: regs_part_def fin'(2) core(2))
  have cap: "r_capacity (oc_rob c') = r_capacity (oc_rob c)" by (simp add: fin'(1) ring_popHead_def)
  have queue: "queue_part c'" using parts by (simp add: queue_part_def fin'(3,4) cap core(2))
  have port: "port_part c'" by (rule port_same [OF fin'(5,7,8) data(5)])
  have unit: "unit_part c'" by (rule unit_same [OF fin'(5,6) core(2) data(4)])
  show "data_inv arch k c'" using core(1) regs' queue unit port alone flight by (simp add: data_inv_def)
  have I: "decode (ins_raw ?I) = ?I" using st by simp
  have kind: "fuKindOf (opc e) = FU_NONE" using st sys by simp
  have sel: "cr_instruction r = ins_raw ?I" "cr_memoryWrite r = None"
    "cr_exception r = (if opc e = ILLEGAL then Some IllegalInstruction else None)"
    "cr_registerWrite r = (if opc e = ECALL \<and> syscallReturnsInput (arch_regs arch c ! 17)
       then Some \<lparr>rw_rd = 10, rw_value = v\<rparr> else None)"
    by (simp_all add: f(4) commit_record_def e_def)
  show "in_order r (arch_regs arch c)" unfolding in_order_def Let_def sel I if_P [OF kind] by simp
  have upd: "arch_regs arch c' = (if opc e = ECALL then (arch_regs arch c)[10 := v] else arch_regs arch c)"
    using arch_regs_update [OF apart(2) _ A(3), of 10 v] apart(1) by (simp add: arch_regs_def fin'(9))
  have "(arch_regs arch c)[10 := v] = arch_regs arch c" if "\<not> syscallReturnsInput (arch_regs arch c ! 17)"
    using f(3) [OF that] by simp
  then show "arch_regs arch c' = record_regs r (arch_regs arch c)" unfolding record_regs_def sel upd by simp
qed

section \<open>The stage\<close>

text \<open>The records of a change and the registers after them.\<close>

definition replays :: "u8 list \<Rightarrow> core \<Rightarrow> u8 list \<Rightarrow> core \<Rightarrow> bool" where
  "replays arch c arch' c' \<longleftrightarrow> (\<exists>rs. oc_commits c' = oc_commits c @ rs \<and>
     replay (arch_regs arch c) rs = Some (arch_regs arch' c'))"

lemma replays_same: "oc_commits c' = oc_commits c \<Longrightarrow> arch_regs arch c' = arch_regs arch c \<Longrightarrow> replays arch c arch c'"
  by (simp add: replays_def)

lemma replays_trans: "replays arch c arch' d \<Longrightarrow> replays arch' d arch'' c' \<Longrightarrow> replays arch c arch'' c'"
  by (auto simp: replays_def replay_append)

lemma replays_one:
  "oc_commits c' = oc_commits c @ [r] \<Longrightarrow> in_order r (arch_regs arch c) \<Longrightarrow>
     arch_regs arch' c' = record_regs r (arch_regs arch c) \<Longrightarrow> replays arch c arch' c'"
  by (simp add: replays_def)

lemma commit_one_data:
  assumes inv: "data_inv arch k c" and n: "r_n (oc_rob c) \<noteq> 0" and fin: "re_done (ring_head (oc_rob c))" "\<not> oc_halted c"
    and step: "commit_one c = Some (Inr (go, c'))"
  shows "\<exists>arch'. data_inv arch' k c' \<and> replays arch c arch' c'" "sysfree c'" "oc_cfg c' = oc_cfg c"
proof -
  let ?e = "ring_head (oc_rob c)"
  note core = commit_one_core [OF data_invD(1) [OF inv] n fin step]
  have no: "commit_fault ?e c = None" using step by (auto simp: commit_one_def Let_def split: option.splits)
  obtain ns where h: "ring_list (v_rob (view c)) = name_of ?e # ns" by (rule head_entry [OF inv n]) blast
  show "oc_cfg c' = oc_cfg c" by (rule core(3))
  have "(\<exists>arch'. data_inv arch' k c' \<and> replays arch c arch' c') \<and> sysfree c'"
  proof (cases "re_isSystem ?e")
    case True
    then obtain r d where s: "commit_system ?e (commit_record c) c = Some (Inr (r, d))" "c' = commit_finish r d" "go"
      using step no by (auto simp: commit_one_def Let_def bind_io_Inr commit_record_def)
    have "re_pdst ?e = kNoReg" by (rule head_system [OF data_invD(8) [OF inv] n True])
    then have "rename_upd (name_of ?e) arch = arch" by (simp add: rename_upd_def name_of_def)
    then have "core_inv arch k c'" using core(1) s(3) by (simp add: h)
    note y = system_stays [OF inv n fin(1) True s(1,2) this core(3)]
    show ?thesis using y(1,2) replays_one [OF y(5,3,4)] by blast
  next
    case False
    then obtain out where out: "commit_mem ?e (commit_record c) c = Inr out"
      "(case out of None \<Rightarrow> Inr (False, count_stat (\<lambda>s. s\<lparr>st_sbCommitStalls := st_sbCommitStalls s + 1\<rparr>) c)
        | Some (rec, c) \<Rightarrow> Inr (True, commit_rest ?e rec c)) = (Inr (go, c') :: (bool \<times> core) result)"
      using step no by (auto simp: commit_one_def Let_def bind_result_Inr commit_record_def)
    show ?thesis
    proof (cases out)
      case None
      then have c': "data_view c' = data_view c" "oc_commits c' = oc_commits c" using out(2) by auto
      have "sysfree c" by (rule sysfree_head [OF data_invD(6) [OF inv] view_rob_ok [OF data_invD(8) [OF inv]]]) (use False in blast)
      then have "sysfree c'" using data_view_eq(4) [OF c'(1)] by (simp add: sysfree_def)
      moreover have "data_inv arch k c'" using data_view_eq(1) [OF c'(1)] inv by simp
      moreover have "replays arch c arch c'" using replays_same [OF c'(2)] data_view_eq(2) [OF c'(1)] by blast
      ultimately show ?thesis by blast
    next
      case (Some p)
      then obtain rec d where p: "out = Some (rec, d)" by (cases p) simp
      have g: "go" "c' = commit_rest ?e rec d" using out(2) by (auto simp: p)
      note mem = out(1) [unfolded p]
      let ?arch = "rename_upd (name_of ?e) arch"
      have core': "core_inv ?arch k c'" "ring_list (v_rob (view c')) = tl (ring_list (v_rob (view c)))"
        using core(1,2) g(1) by (simp_all add: h)
      note y = normal_state [OF inv n fin(1) False mem g(2) core' core(3)]
      let ?r = "if re_pdst ?e \<noteq> kNoReg
        then rec\<lparr>cr_registerWrite := Some \<lparr>rw_rd = ins_rd (re_ins ?e), rw_value = oc_val c ! unat (re_pdst ?e)\<rparr>\<rparr> else rec"
      note f = commit_mem_fields [OF mem]
      have com: "oc_commits c' = oc_commits c @ [?r]" unfolding g(2) commit_rest_fields(10) f(2,10) ..
      have rec: "cr_registerWrite rec = None" using commit_mem_record [OF mem] by (simp add: commit_record_def)
      have val: "oc_val c' = oc_val c" unfolding g(2) commit_rest_fields(2) f(2) ..
      have "arch_regs ?arch c' = record_regs ?r (arch_regs arch c)"
        unfolding arch_regs_dest using rec by (simp add: record_regs_def arch_regs_def val)
      from y replays_one [OF com normal_record [OF inv n fin(1) False mem] this] show ?thesis by blast
    qed
  qed
  then show "\<exists>arch'. data_inv arch' k c' \<and> replays arch c arch' c'" "sysfree c'" by blast+
qed

lemma commit_loop_data:
  assumes "data_inv arch k c" "commit_loop n j c = Some (Inr (j', c'))"
  shows "(\<exists>arch'. data_inv arch' k c' \<and> replays arch c arch' c') \<and> oc_cfg c' = oc_cfg c \<and>
    (0 < n \<or> sysfree c \<longrightarrow> oc_halted c' \<or> sysfree c')"
  using assms
proof (induction n arbitrary: j c arch)
  case 0
  then show ?case using replays_same [of c c arch] by auto
next
  case (Suc n)
  show ?case
  proof (cases "ring_empty (oc_rob c) \<or> \<not> re_done (ring_head (oc_rob c)) \<or> oc_halted c")
    case True
    then have "c' = c" using Suc.prems(2) by simp
    moreover have "oc_halted c \<or> sysfree c" using sysfree_waiting [OF Suc.prems(1)] True by blast
    ultimately show ?thesis using Suc.prems(1) replays_same [of c c arch] by auto
  next
    case False
    then obtain go d where d: "commit_one c = Some (Inr (go, d))"
      "(if go then commit_loop n (Suc j) d else Some (Inr (j, d))) = Some (Inr (j', c'))"
      using Suc.prems(2) by (auto simp: bind_io_Inr)
    have "r_n (oc_rob c) \<noteq> 0" "re_done (ring_head (oc_rob c))" "\<not> oc_halted c" using False by (simp_all add: ring_empty_def)
    note one = commit_one_data [OF Suc.prems(1) this d(1)]
    then obtain a where a: "data_inv a k d" "replays arch c a d" by blast
    show ?thesis
    proof (cases go)
      case False
      then show ?thesis using d(2) a one(2,3) by auto
    next
      case True
      then have "commit_loop n (Suc j) d = Some (Inr (j', c'))" using d(2) by simp
      from Suc.IH [OF a(1) this] show ?thesis using a(2) one(2,3) replays_trans by (metis (no_types))
    qed
  qed
qed

theorem commitStage_data:
  assumes inv: "data_inv arch k c" and step: "commitStage c = Some (Inr c')" and width: "0 < unat (cfg_width (oc_cfg c))"
  shows "\<exists>arch'. data_inv arch' k c' \<and> replays arch c arch' c'" "\<not> oc_halted c' \<Longrightarrow> sysfree c'" "oc_cfg c' = oc_cfg c"
proof -
  obtain j d where d: "commit_loop (unat (cfg_width (oc_cfg c))) 0 c = Some (Inr (j, d))" "data_view c' = data_view d"
    "oc_commits c' = oc_commits d" "oc_halted c' = oc_halted d"
    using step by (auto simp: commitStage_def bind_io_Inr Let_def split: if_splits)
  note loop = commit_loop_data [OF inv d(1)]
  then obtain a where a: "data_inv a k d" "replays arch c a d" by blast
  have "data_inv a k c'" using data_view_eq(1) [OF d(2)] a(1) by simp
  moreover have "replays arch c a c'" using a(2) data_view_eq(2) [OF d(2)] d(3) by (simp add: replays_def)
  ultimately show "\<exists>arch'. data_inv arch' k c' \<and> replays arch c arch' c'" by blast
  show "\<not> oc_halted c' \<Longrightarrow> sysfree c'" using loop width data_view_eq(4) [OF d(2)] d(4) by (simp add: sysfree_def)
  show "oc_cfg c' = oc_cfg c" using loop view_eqD [OF data_view_eq(3) [OF d(2)]] by simp
qed

end
