(* ===== verification/Commit_Order.thy ===== *)
theory Commit_Order
  imports Core_Data_Commit
begin

text \<open>
  The commit stream of the out-of-order core is an in-order execution: a cycle, the initial state,
  and the property of every state the core reaches.
\<close>

section \<open>A cycle\<close>





section \<open>The initial state\<close>




section \<open>Runs\<close>




end
