(* ===== verification/Recovery.thy ===== *)
theory Recovery
  imports Commit_Order
begin










end
