(* ===== verification/Disasm.thy ===== *)
theory Disasm
  imports Decode Config
begin

text \<open>
  The textual side of the instruction set: \<^verbatim>\<open>opName\<close> of \<^verbatim>\<open>isa/isa.h\<close> and the disassembler and
  register dump of \<^verbatim>\<open>isa/disasm.cpp\<close>.  The conversions of \<^verbatim>\<open>printf\<close> that are used are \<^verbatim>\<open>%d\<close>,
  \<^verbatim>\<open>%x\<close>, \<^verbatim>\<open>%08x\<close> and \<^verbatim>\<open>%4s\<close>.
\<close>

section \<open>Names\<close>

primrec opName :: "op \<Rightarrow> string" where
  "opName LUI = ''lui''" | "opName AUIPC = ''auipc''" | "opName JAL = ''jal''" | "opName JALR = ''jalr''"
| "opName BEQ = ''beq''" | "opName BNE = ''bne''" | "opName BLT = ''blt''" | "opName BGE = ''bge''"
| "opName BLTU = ''bltu''" | "opName BGEU = ''bgeu''"
| "opName LB = ''lb''" | "opName LH = ''lh''" | "opName LW = ''lw''" | "opName LBU = ''lbu''"
| "opName LHU = ''lhu''"
| "opName SB = ''sb''" | "opName SH = ''sh''" | "opName SW = ''sw''"
| "opName ADDI = ''addi''" | "opName SLTI = ''slti''" | "opName SLTIU = ''sltiu''" | "opName XORI = ''xori''"
| "opName ORI = ''ori''" | "opName ANDI = ''andi''" | "opName SLLI = ''slli''" | "opName SRLI = ''srli''"
| "opName SRAI = ''srai''"
| "opName ADD = ''add''" | "opName SUB = ''sub''" | "opName SLL = ''sll''" | "opName SLT = ''slt''"
| "opName SLTU = ''sltu''" | "opName XOR_op = ''xor''" | "opName SRL = ''srl''" | "opName SRA = ''sra''"
| "opName OR_op = ''or''" | "opName AND_op = ''and''"
| "opName MUL = ''mul''" | "opName MULH = ''mulh''" | "opName MULHSU = ''mulhsu''" | "opName MULHU = ''mulhu''"
| "opName DIV = ''div''" | "opName DIVU = ''divu''" | "opName REM = ''rem''" | "opName REMU = ''remu''"
| "opName FENCE = ''fence''" | "opName ECALL = ''ecall''" | "opName EBREAK = ''ebreak''"
| "opName ILLEGAL = ''.illegal''"

definition kRegName :: "string list" where
  "kRegName =
     [''zero'', ''ra'', ''sp'', ''gp'', ''tp'', ''t0'', ''t1'', ''t2'', ''s0'', ''s1'', ''a0'',
      ''a1'', ''a2'', ''a3'', ''a4'', ''a5'', ''a6'', ''a7'', ''s2'', ''s3'', ''s4'', ''s5'',
      ''s6'', ''s7'', ''s8'', ''s9'', ''s10'', ''s11'', ''t3'', ''t4'', ''t5'', ''t6'']"

section \<open>Conversions\<close>

definition hex_char :: "nat \<Rightarrow> char" where
  "hex_char d = (if d < 10 then digit_char d else char_of (87 + d))"

fun show_hex :: "nat \<Rightarrow> string" where
  "show_hex n = (if n < 16 then [hex_char n] else show_hex (n div 16) @ [hex_char (n mod 16)])"

declare show_hex.simps [simp del]

definition show_hex8 :: "u32 \<Rightarrow> string" where
  "show_hex8 w = (let s = show_hex (unat w) in replicate (8 - length s) (CHR ''0'') @ s)"

definition show_int :: "u32 \<Rightarrow> string" where
  "show_int w = (if sint w < 0 then CHR ''-'' # show_nat (nat (- sint w)) else show_nat (nat (sint w)))"

section \<open>Disassembly\<close>

text \<open>The text before it is cut to the buffer; the arguments are the names of the registers.\<close>

definition disasm_text :: "instr \<Rightarrow> string \<Rightarrow> string \<Rightarrow> string \<Rightarrow> string" where
  "disasm_text I rd r1 r2 =
     (let n = opName (ins_op I) @ '' ''; imm = show_int (ins_imm I); c = '','' in
      if ins_op I \<in> {LUI, AUIPC} then n @ rd @ '',0x'' @ show_hex (unat (drop_bit 12 (ins_imm I)))
      else if ins_op I = JAL then n @ rd @ c @ imm
      else if ins_op I = JALR \<or> isLoad (ins_op I) then n @ rd @ c @ imm @ ''('' @ r1 @ '')''
      else if isBranch (ins_op I) then n @ r1 @ c @ r2 @ c @ imm
      else if isStore (ins_op I) then n @ r2 @ c @ imm @ ''('' @ r1 @ '')''
      else if ADDI \<le> ins_op I \<and> ins_op I \<le> SRAI then n @ rd @ c @ r1 @ c @ imm
      else if ins_op I \<in> {FENCE, ECALL, EBREAK} then opName (ins_op I)
      else if ins_op I = ILLEGAL then ''.word 0x'' @ show_hex8 (ins_raw I)
      else n @ rd @ c @ r1 @ c @ r2)"

text \<open>\<^verbatim>\<open>kRegName\<close> has 32 entries; an index beyond is undefined, and \<open>None\<close> here.\<close>

definition reg_name :: "u8 \<Rightarrow> string option" where
  "reg_name r = (if unat r < 32 then Some (kRegName ! unat r) else None)"

definition disasm :: "instr \<Rightarrow> string option" where
  "disasm I =
     (case (reg_name (ins_rd I), reg_name (ins_rs1 I), reg_name (ins_rs2 I)) of
        (Some rd, Some r1, Some r2) \<Rightarrow> Some (take 63 (disasm_text I rd r1 r2))
      | _ \<Rightarrow> None)"

section \<open>The register dump\<close>

definition pad4 :: "string \<Rightarrow> string" where
  "pad4 s = replicate (4 - length s) (CHR '' '') @ s"

definition dumpRegisters :: "u32 list \<Rightarrow> u32 \<Rightarrow> string" where
  "dumpRegisters regs pc =
     ''--- registers ---'' @ [CHR 0x0A] @
     concat (map (\<lambda>i. pad4 (kRegName ! i) @ ''='' @ show_hex8 (regs ! i) @
       (if i mod 4 = 3 then [CHR 0x0A] else ''  '')) [0..<32]) @
     ''pc  ='' @ show_hex8 pc @ [CHR 0x0A]"

section \<open>The buffer is large enough\<close>

text \<open>
  Every decoded word has a disassembly, and \<^verbatim>\<open>snprintf\<close> never cuts it: no text has more than
  32 of the 63 characters.
\<close>

lemma length_show_hex: "n < 16 ^ Suc k \<Longrightarrow> length (show_hex n) \<le> Suc k"
proof (induction k arbitrary: n)
  case 0
  then show ?case by (simp add: show_hex.simps)
next
  case (Suc k)
  have "n div 16 < 16 ^ Suc k" using Suc.prems by (simp add: less_mult_imp_div_less)
  then show ?case using Suc.IH [of "n div 16"] by (subst show_hex.simps) simp
qed

lemma length_show_nat_le: "n < 10 ^ Suc k \<Longrightarrow> length (show_nat n) \<le> Suc k"
proof (induction k arbitrary: n)
  case 0
  then show ?case by (simp add: show_nat.simps)
next
  case (Suc k)
  have "n div 10 < 10 ^ Suc k" using Suc.prems by (simp add: less_mult_imp_div_less)
  then show ?case using Suc.IH [of "n div 10"] by (subst show_nat.simps) simp
qed

lemma length_show_int: "length (show_int w) \<le> 11"
proof -
  have r: "- (2 ^ 31) \<le> sint w" "sint w < 2 ^ 31"
    using sint_greater_eq [of w] sint_less [of w] by simp_all
  have "nat (- sint w) < 10 ^ Suc 9" "nat (sint w) < 10 ^ Suc 9" using r by simp_all
  from this [THEN length_show_nat_le] show ?thesis by (auto simp: show_int_def)
qed

lemma length_show_hex8: "length (show_hex8 w) = 8"
proof -
  have "unat w < 2 ^ LENGTH(32)" by (rule unsigned_less)
  then have "length (show_hex (unat w)) \<le> Suc 7" by (intro length_show_hex) simp
  then show ?thesis by (simp add: show_hex8_def Let_def)
qed

lemma length_opName: "length (opName x) \<le> 8"
  by (cases x) simp_all

lemma length_reg_name: "reg_name r = Some n \<Longrightarrow> length n \<le> 4"
proof -
  have "\<forall>s \<in> set kRegName. length s \<le> 4" "length kRegName = 32" by (simp_all add: kRegName_def)
  moreover assume "reg_name r = Some n"
  ultimately show "length n \<le> 4" by (auto simp: reg_name_def split: if_splits)
qed

lemma disasm_complete:
  assumes "disasm I = Some s"
  obtains rd r1 r2 where "reg_name (ins_rd I) = Some rd" "reg_name (ins_rs1 I) = Some r1"
    "reg_name (ins_rs2 I) = Some r2" "s = disasm_text I rd r1 r2" "length s \<le> 32"
proof -
  obtain rd r1 r2 where r: "reg_name (ins_rd I) = Some rd" "reg_name (ins_rs1 I) = Some r1"
    "reg_name (ins_rs2 I) = Some r2" "s = take 63 (disasm_text I rd r1 r2)"
    using assms by (auto simp: disasm_def split: option.splits)
  have "unat (drop_bit 12 (ins_imm I)) < 2 ^ LENGTH(32)" by (rule unsigned_less)
  then have "length (show_hex (unat (drop_bit 12 (ins_imm I)))) \<le> Suc 7" by (intro length_show_hex) simp
  then have "length (disasm_text I rd r1 r2) \<le> 32"
    using r(1-3) [THEN length_reg_name] length_show_int [of "ins_imm I"] length_opName [of "ins_op I"]
    by (simp add: disasm_text_def Let_def length_show_hex8)
  then show thesis using that r by simp
qed

lemma disasm_decode: "\<exists>s. disasm (decode w) = Some s"
proof -
  obtain opc rd f3 rs1 rs2 f7 where w: "w = mkword opc rd f3 rs1 rs2 f7" by (rule mkword_exhaust)
  have "unat (ucast (x :: 5 word) :: u8) < 32" for x
  proof -
    have "unat x < 2 ^ LENGTH(5)" by (rule unsigned_less)
    then show ?thesis by (simp add: unsigned_ucast_eq take_bit_nat_eq_self)
  qed
  then show ?thesis by (simp add: w disasm_def reg_name_def decode_mkword_regs)
qed

end
