(* ===== verification/Loader.thy ===== *)
theory Loader
  imports Disasm Syscall
begin

text \<open>
  Program files: \<^verbatim>\<open>sim/loader.cpp\<close>.  The contents of a file are a parameter; \<open>None\<close> is a file
  that cannot be opened.
\<close>

section \<open>Hexadecimal words\<close>

text \<open>\<^verbatim>\<open>strtoul(s, &end, 16)\<close> of the C standard with a 64-bit \<^verbatim>\<open>long\<close>; the \<^verbatim>\<open>0x\<close> may be absent.\<close>

definition strtoul16 :: "string \<Rightarrow> (u64 \<times> string) option" where
  "strtoul16 s =
     (let s1 = dropWhile c_isspace s;
          neg = first_is (\<lambda>c. c = CHR ''-'') s1;
          s2 = (if neg \<or> first_is (\<lambda>c. c = CHR ''+'') s1 then tl s1 else s1);
          hex = first_is (\<lambda>c. c = CHR ''0'') s2 \<and>
            first_is (\<lambda>c. c = CHR ''x'' \<or> c = CHR ''X'') (tl s2) \<and>
            first_is (\<lambda>c. digit_val c < 16) (tl (tl s2));
          s3 = (if hex then tl (tl s2) else s2)
      in if \<not> first_is (\<lambda>c. digit_val c < 16) s3 then None
         else let (v, rest) = scan_digits 16 0 s3
              in Some (if 2 ^ 64 \<le> v then - 1 else if neg then - word_of_nat v else word_of_nat v, rest))"

datatype load_error = No_such_file | Bad_hex_word string

text \<open>One token; what the C function sees of it ends at a zero character.\<close>

definition hex_word :: "string \<Rightarrow> load_error + u32" where
  "hex_word tok =
     (case strtoul16 (c_str tok) of
        None \<Rightarrow> Inl (Bad_hex_word tok)
      | Some (v, rest) \<Rightarrow> if rest \<noteq> [] \<or> 0xFFFFFFFF < v then Inl (Bad_hex_word tok) else Inr (ucast v))"

section \<open>Lines and tokens\<close>

text \<open>\<^verbatim>\<open>getline\<close>, the cut at a comment, and \<^verbatim>\<open>>>\<close> into a string.\<close>

function file_lines :: "string \<Rightarrow> string list" where
  "file_lines s =
     (if s = [] then []
      else takeWhile (\<lambda>c. c \<noteq> CHR 0x0A) s # file_lines (tl (dropWhile (\<lambda>c. c \<noteq> CHR 0x0A) s)))"
  by pat_completeness auto

termination
proof (relation "measure length")
  fix s :: string
  assume "s \<noteq> []"
  moreover have "length (dropWhile (\<lambda>c. c \<noteq> CHR 0x0A) s) \<le> length s" by (rule length_dropWhile_le)
  ultimately have "length (tl (dropWhile (\<lambda>c. c \<noteq> CHR 0x0A) s)) < length s" by (cases s) auto
  then show "(tl (dropWhile (\<lambda>c. c \<noteq> CHR 0x0A) s), s) \<in> measure length" by simp
qed simp

declare file_lines.simps [simp del]

primrec cut_at :: "string \<Rightarrow> string \<Rightarrow> string" where
  "cut_at p [] = []"
| "cut_at p (c # cs) = (if take (length p) (c # cs) = p then [] else c # cut_at p cs)"

function tokens :: "string \<Rightarrow> string list" where
  "tokens s =
     (let s1 = dropWhile c_isspace s in
      if s1 = [] then []
      else takeWhile (\<lambda>c. \<not> c_isspace c) s1 # tokens (dropWhile (\<lambda>c. \<not> c_isspace c) s1))"
  by pat_completeness auto

termination
proof (relation "measure length")
  fix s s1 :: string
  assume s1: "s1 = dropWhile c_isspace s" "s1 \<noteq> []"
  then obtain c cs where c: "s1 = c # cs" "\<not> c_isspace c" by (metis dropWhile_eq_Cons_conv neq_Nil_conv)
  have "length (dropWhile (\<lambda>c. \<not> c_isspace c) s1) \<le> length cs" using c by (simp add: length_dropWhile_le)
  moreover have "length s1 \<le> length s" using s1(1) by (simp add: length_dropWhile_le)
  ultimately show "(dropWhile (\<lambda>c. \<not> c_isspace c) s1, s) \<in> measure length" using c by simp
qed simp

declare tokens.simps [simp del]

primrec hex_words :: "string list \<Rightarrow> load_error + u32 list" where
  "hex_words [] = Inr []"
| "hex_words (t # ts) =
     (case hex_word t of
        Inl e \<Rightarrow> Inl e
      | Inr w \<Rightarrow> (case hex_words ts of Inl e \<Rightarrow> Inl e | Inr ws \<Rightarrow> Inr (w # ws)))"

definition hex_line :: "string \<Rightarrow> string list" where
  "hex_line line = tokens (cut_at ''//'' (cut_at ''#'' line))"

definition loadHexFile :: "string option \<Rightarrow> load_error + u32 list" where
  "loadHexFile contents =
     (case contents of
        None \<Rightarrow> Inl No_such_file
      | Some s \<Rightarrow> hex_words (concat (map hex_line (file_lines s))))"

definition loadBinFile :: "u8 list option \<Rightarrow> load_error + u8 list" where
  "loadBinFile contents = (case contents of None \<Rightarrow> Inl No_such_file | Some bs \<Rightarrow> Inr bs)"

section \<open>Reading what the simulator prints\<close>

lemma hex_char_code: "d < 16 \<Longrightarrow> (of_char (hex_char d) :: nat) = (if d < 10 then 48 + d else 87 + d)"
  by (simp add: hex_char_def digit_char_def)

lemma hex_chars:
  assumes "d < 16"
  shows "digit_val (hex_char d) = d" "\<not> c_isspace (hex_char d)"
    "hex_char d \<notin> {CHR ''-'', CHR ''+'', CHR ''x'', CHR ''X'', CHR ''#'', CHR ''/'', CHR 0x0A, CHR 0x00}"
proof -
  note c = hex_char_code [OF assms]
  show "digit_val (hex_char d) = d" using assms by (auto simp: digit_val_def c Let_def)
  show "\<not> c_isspace (hex_char d)" using assms by (auto simp: c_isspace_def c)
  have "(of_char (hex_char d) :: nat) \<notin> {45, 43, 120, 88, 35, 47, 10, 0}" using assms by (auto simp: c)
  then show "hex_char d \<notin> {CHR ''-'', CHR ''+'', CHR ''x'', CHR ''X'', CHR ''#'', CHR ''/'', CHR 0x0A, CHR 0x00}"
    by (simp only: insert_iff empty_iff) auto
qed

lemma show_hex_digits: "\<forall>c \<in> set (show_hex n). \<exists>d < 16. c = hex_char d"
proof (induction n rule: show_hex.induct)
  case (1 n)
  have "\<exists>d < 16. hex_char (n mod 16) = hex_char d" by (rule exI [of _ "n mod 16"]) simp
  then show ?case using 1 by (subst show_hex.simps) auto
qed

lemma scan_show_hex: "scan_digits 16 0 (show_hex n) = (n, [])"
proof (induction n rule: show_hex.induct)
  case (1 n)
  show ?case
  proof (cases "n < 16")
    case True
    then show ?thesis using hex_chars by (subst show_hex.simps) simp
  next
    case False
    have d: "\<forall>c \<in> set (show_hex (n div 16)). digit_val c < 16"
      using show_hex_digits [of "n div 16"] hex_chars by fastforce
    have "digit_val (hex_char (n mod 16)) = n mod 16" using hex_chars [of "n mod 16"] by simp
    then show ?thesis using 1 False d by (subst show_hex.simps) (simp add: scan_digits_append)
  qed
qed

lemma scan_zeros: "scan_digits 16 0 (replicate k (CHR ''0'') @ s) = scan_digits 16 0 s"
  by (induction k) (simp_all add: digit_val_def)

lemma show_hex8_digits: "\<forall>c \<in> set (show_hex8 w). \<exists>d < 16. c = hex_char d"
proof -
  have "CHR ''0'' = hex_char 0" by code_simp
  then have "\<exists>d < 16. CHR ''0'' = hex_char d" by (intro exI [of _ 0]) simp
  then show ?thesis using show_hex_digits [of "unat w"] by (auto simp: show_hex8_def Let_def)
qed

lemma show_hex8_chars:
  assumes "c \<in> set (show_hex8 w)"
  shows "digit_val c < 16" "\<not> c_isspace c"
    "c \<notin> {CHR ''-'', CHR ''+'', CHR ''x'', CHR ''X'', CHR ''#'', CHR ''/'', CHR 0x0A, CHR 0x00}"
proof -
  obtain d where "d < 16" "c = hex_char d" using show_hex8_digits [of w] assms by blast
  then show "digit_val c < 16" "\<not> c_isspace c"
    "c \<notin> {CHR ''-'', CHR ''+'', CHR ''x'', CHR ''X'', CHR ''#'', CHR ''/'', CHR 0x0A, CHR 0x00}"
    using hex_chars [of d] by simp_all
qed

lemma hex_word_show: "hex_word (show_hex8 w) = Inr w"
proof -
  let ?s = "show_hex8 w"
  have ne: "?s \<noteq> []" using length_show_hex8 [of w] by (metis length_0_conv zero_neq_numeral)
  have str: "c_str ?s = ?s" using show_hex8_chars(3) by (auto simp: c_str_def takeWhile_eq_all_conv)
  have drop: "dropWhile c_isspace ?s = ?s"
    using ne show_hex8_chars(2) by (cases ?s) (metis dropWhile.simps(1), metis dropWhile.simps(2) list.set_intros(1))
  have hd: "digit_val (hd ?s) < 16" "hd ?s \<noteq> CHR ''-''" "hd ?s \<noteq> CHR ''+''"
    using show_hex8_chars [of "hd ?s" w] ne by simp_all
  have x: "\<not> first_is (\<lambda>c. c = CHR ''x'' \<or> c = CHR ''X'') (tl ?s)"
  proof (cases "tl ?s")
    case (Cons c cs)
    then have "c \<in> set ?s" by (metis list.set_intros(1) list.set_sel(2) list.simps(3) tl_Nil)
    then show ?thesis using show_hex8_chars(3) [of c w] Cons by (simp add: first_is_def)
  qed (simp add: first_is_def)
  have scan: "scan_digits 16 0 ?s = (unat w, [])"
    unfolding show_hex8_def Let_def scan_zeros by (rule scan_show_hex)
  have lt: "unat w < 2 ^ LENGTH(32)" by (rule unsigned_less)
  then have u: "unat (ucast w :: u64) = unat w" by (simp add: unsigned_ucast_eq take_bit_nat_eq_self)
  have le: "(ucast w :: u64) \<le> 0xFFFFFFFF" using lt by (simp add: word_le_nat_alt u)
  have f: "\<not> first_is (\<lambda>c. c = CHR ''-'') ?s" "\<not> first_is (\<lambda>c. c = CHR ''+'') ?s"
    "first_is (\<lambda>c. digit_val c < 16) ?s"
    using ne hd by (simp_all add: first_is_def)
  have "strtoul16 ?s = Some (ucast w, [])"
    unfolding strtoul16_def drop Let_def using f x lt by (simp add: scan)
  moreover have "ucast (ucast w :: u64) = w"
    by (rule bit_word_eqI) (simp add: bit_simps)
  ultimately show ?thesis using le by (simp add: hex_word_def str not_less)
qed

lemma cut_at_plain:
  assumes "\<forall>c \<in> set s. c \<noteq> hd p" "p \<noteq> []"
  shows "cut_at p (s @ t) = s @ cut_at p t"
  using assms by (induction s) (cases p; auto)+

lemma file_lines_line:
  assumes "\<forall>c \<in> set l. c \<noteq> CHR 0x0A"
  shows "file_lines (l @ CHR 0x0A # s) = l # file_lines s"
  using assms by (subst file_lines.simps) (simp add: takeWhile_append dropWhile_append)

lemma tokens_spaced:
  assumes "\<forall>c \<in> set lead. c_isspace c" "\<forall>(w, g) \<in> set xs. w \<noteq> [] \<and> (\<forall>c \<in> set w. \<not> c_isspace c) \<and> (\<forall>c \<in> set g. c_isspace c)"
    "\<forall>(w, g) \<in> set (butlast xs). g \<noteq> []"
  shows "tokens (lead @ concat (map (\<lambda>(w, g). w @ g) xs)) = map fst xs"
  using assms
proof (induction xs arbitrary: lead)
  case Nil
  then have "dropWhile c_isspace lead = []" by (simp add: dropWhile_eq_Nil_conv)
  then show ?case by (subst tokens.simps) simp
next
  case (Cons x xs)
  obtain w g where x: "x = (w, g)" by fastforce
  let ?rest = "concat (map (\<lambda>(w, g). w @ g) xs)"
  have w: "w \<noteq> []" "\<forall>c \<in> set w. \<not> c_isspace c" "\<forall>c \<in> set g. c_isspace c" using Cons.prems(2) by (auto simp: x)
  have d: "dropWhile c_isspace (lead @ w @ g @ ?rest) = w @ g @ ?rest"
    using Cons.prems(1) w(1,2) by (cases w) (simp_all add: dropWhile_append2)
  have t: "takeWhile (\<lambda>c. \<not> c_isspace c) (w @ g @ ?rest) = w" "dropWhile (\<lambda>c. \<not> c_isspace c) (w @ g @ ?rest) = g @ ?rest"
  proof -
    have "g \<noteq> [] \<or> xs = []" using Cons.prems(3) by (auto simp: x split: if_splits)
    then have "takeWhile (\<lambda>c. \<not> c_isspace c) (g @ ?rest) = [] \<and> dropWhile (\<lambda>c. \<not> c_isspace c) (g @ ?rest) = g @ ?rest"
      using w(3) by (cases g) auto
    then show "takeWhile (\<lambda>c. \<not> c_isspace c) (w @ g @ ?rest) = w" "dropWhile (\<lambda>c. \<not> c_isspace c) (w @ g @ ?rest) = g @ ?rest"
      using w(2) by (auto simp: takeWhile_append2 dropWhile_append2)
  qed
  have "tokens (g @ ?rest) = map fst xs"
    using Cons.prems w(3) by (intro Cons.IH) (auto split: if_splits)
  then show ?case using w(1) by (subst tokens.simps) (simp add: x d t)
qed

text \<open>
  A line of a program file: white space, words printed with \<^verbatim>\<open>%08x\<close> and separated by white
  space, and after the last one a comment or nothing.
\<close>

definition comment_text :: "string \<Rightarrow> bool" where
  "comment_text c \<longleftrightarrow> (c = [] \<or> take 1 c = ''#'' \<or> take 2 c = ''//'') \<and> CHR 0x0A \<notin> set c"

definition gap_text :: "string \<Rightarrow> bool" where
  "gap_text g \<longleftrightarrow> (\<forall>c \<in> set g. c_isspace c \<and> c \<noteq> CHR 0x0A)"

fun line_text :: "string \<times> (u32 \<times> string) list \<times> string \<Rightarrow> string" where
  "line_text (lead, ws, c) = lead @ concat (map (\<lambda>(w, g). show_hex8 w @ g) ws) @ c"

fun line_ok :: "string \<times> (u32 \<times> string) list \<times> string \<Rightarrow> bool" where
  "line_ok (lead, ws, c) \<longleftrightarrow> gap_text lead \<and> (\<forall>(w, g) \<in> set ws. gap_text g) \<and>
     (\<forall>(w, g) \<in> set (butlast ws). g \<noteq> []) \<and> comment_text c"

lemma space_plain: "c_isspace c \<Longrightarrow> c \<noteq> CHR ''#'' \<and> c \<noteq> CHR ''/''"
  by (auto simp: c_isspace_def)

lemma line_body:
  assumes "line_ok (lead, ws, c)"
  shows "\<forall>x \<in> set (lead @ concat (map (\<lambda>(w, g). show_hex8 w @ g) ws)). x \<noteq> CHR ''#'' \<and> x \<noteq> CHR ''/'' \<and> x \<noteq> CHR 0x0A"
proof -
  have s: "x \<noteq> CHR ''#'' \<and> x \<noteq> CHR ''/'' \<and> x \<noteq> CHR 0x0A" if "gap_text g" "x \<in> set g" for g x
    using that space_plain [of x] by (auto simp: gap_text_def)
  have h: "x \<noteq> CHR ''#'' \<and> x \<noteq> CHR ''/'' \<and> x \<noteq> CHR 0x0A" if "x \<in> set (show_hex8 w)" for x w
    using show_hex8_chars(3) [OF that] by blast
  have g: "gap_text lead" "\<forall>(w, g) \<in> set ws. gap_text g" using assms by simp_all
  show ?thesis
  proof
    fix x assume "x \<in> set (lead @ concat (map (\<lambda>(w, g). show_hex8 w @ g) ws))"
    then consider "x \<in> set lead" | w g where "(w, g) \<in> set ws" "x \<in> set (show_hex8 w)"
      | w g where "(w, g) \<in> set ws" "x \<in> set g" unfolding set_append set_concat set_map by fastforce
    then show "x \<noteq> CHR ''#'' \<and> x \<noteq> CHR ''/'' \<and> x \<noteq> CHR 0x0A"
    proof cases
      case 1
      then show ?thesis using s [OF g(1)] by blast
    next
      case 2
      then show ?thesis using h by blast
    next
      case 3
      then show ?thesis using s g(2) by blast
    qed
  qed
qed

lemma hex_line_text:
  assumes "line_ok (lead, ws, c)"
  shows "hex_line (line_text (lead, ws, c)) = map (show_hex8 \<circ> fst) ws"
proof -
  let ?b = "lead @ concat (map (\<lambda>(w, g). show_hex8 w @ g) ws)"
  have cut: "cut_at ''#'' (?b @ t) = ?b @ cut_at ''#'' t" "cut_at ''//'' (?b @ t) = ?b @ cut_at ''//'' t" for t
    using line_body [OF assms] by (intro cut_at_plain; simp)+
  have "cut_at ''//'' (cut_at ''#'' c) = []"
  proof (cases c)
    case (Cons x xs)
    consider "x = CHR ''#''" | ys where "x = CHR ''/''" "xs = CHR ''/'' # ys"
      using assms Cons by (cases xs) (auto simp: comment_text_def)
    then show ?thesis by cases (simp_all add: Cons)
  qed simp
  then have k: "cut_at ''//'' (cut_at ''#'' (?b @ c)) = ?b" using cut [of "[]"] by (simp only: cut) simp
  have t: "tokens (lead @ concat (map (\<lambda>(w, g). w @ g) (map (\<lambda>(w, g). (show_hex8 w, g)) ws))) =
      map fst (map (\<lambda>(w, g). (show_hex8 w, g)) ws)"
  proof (rule tokens_spaced)
    show "\<forall>(w, g) \<in> set (map (\<lambda>(w, g). (show_hex8 w, g)) ws).
        w \<noteq> [] \<and> (\<forall>c \<in> set w. \<not> c_isspace c) \<and> (\<forall>c \<in> set g. c_isspace c)"
    proof -
      have n: "show_hex8 w \<noteq> []" for w using length_show_hex8 [of w] by (metis length_0_conv zero_neq_numeral)
      have h: "\<forall>c \<in> set (show_hex8 w). \<not> c_isspace c" for w using show_hex8_chars(2) by blast
      have "\<forall>(w, g) \<in> set ws. gap_text g" using assms by simp
      then have "\<forall>(w, g) \<in> set ws. \<forall>c \<in> set g. c_isspace c" unfolding gap_text_def by blast
      then show ?thesis using n h by (simp add: split_beta)
    qed
    show "\<forall>(w, g) \<in> set (butlast (map (\<lambda>(w, g). (show_hex8 w, g)) ws)). g \<noteq> []"
      using assms by (fastforce simp flip: map_butlast)
  qed (use assms in \<open>simp add: gap_text_def\<close>)
  have e: "map (\<lambda>(w, g). w @ g) (map (\<lambda>(w, g). (show_hex8 w, g)) ws) = map (\<lambda>(w, g). show_hex8 w @ g) ws"
    "map fst (map (\<lambda>(w, g). (show_hex8 w, g)) ws) = map (show_hex8 \<circ> fst) ws" by (simp_all add: split_beta)
  show ?thesis using t k by (simp only: hex_line_def line_text.simps append_assoc e)
qed

lemma file_lines_concat:
  assumes "\<forall>l \<in> set ls. CHR 0x0A \<notin> set l"
  shows "file_lines (concat (map (\<lambda>l. l @ [CHR 0x0A]) ls)) = ls"
  using assms
proof (induction ls)
  case (Cons l ls)
  then have "file_lines (l @ CHR 0x0A # concat (map (\<lambda>l. l @ [CHR 0x0A]) ls)) =
      l # file_lines (concat (map (\<lambda>l. l @ [CHR 0x0A]) ls))" by (intro file_lines_line) auto
  then show ?case using Cons by simp
qed (simp add: file_lines.simps)

text \<open>
  C36. A program file made of lines of words printed with \<^verbatim>\<open>%08x\<close>, with white space before,
  between and after them, and with a \<^verbatim>\<open>#\<close> or a \<^verbatim>\<open>//\<close> comment at the end of any line (a line may
  hold several words or none), loads as exactly those words in order; so what system call 4
  prints can be loaded again.
\<close>

theorem hex_file_roundtrip:
  assumes "\<forall>l \<in> set ls. line_ok l"
  shows "loadHexFile (Some (concat (map (\<lambda>l. line_text l @ [CHR 0x0A]) ls))) =
    Inr (concat (map (\<lambda>(lead, ws, c). map fst ws) ls))"
proof -
  have nl: "\<forall>l \<in> set (map line_text ls). CHR 0x0A \<notin> set l"
  proof
    fix l assume "l \<in> set (map line_text ls)"
    then obtain lead ws c where l: "l = line_text (lead, ws, c)" "line_ok (lead, ws, c)" using assms by auto
    have "CHR 0x0A \<notin> set c" using l(2) by (simp add: comment_text_def)
    moreover have "CHR 0x0A \<notin> set (lead @ concat (map (\<lambda>(w, g). show_hex8 w @ g) ws))" using line_body [OF l(2)] by blast
    ultimately show "CHR 0x0A \<notin> set l" unfolding l(1) line_text.simps by (simp only: set_append append_assoc Un_iff) blast
  qed
  have "file_lines (concat (map (\<lambda>l. line_text l @ [CHR 0x0A]) ls)) = map line_text ls"
    using file_lines_concat [OF nl] by (simp add: o_def)
  moreover have "concat (map hex_line (map line_text ls)) = map show_hex8 (concat (map (\<lambda>(lead, ws, c). map fst ws) ls))"
    using assms by (induction ls) (auto simp: hex_line_text simp del: line_text.simps line_ok.simps)
  moreover have "hex_words (map show_hex8 ws) = Inr ws" for ws
    by (induction ws) (simp_all add: hex_word_show)
  ultimately show ?thesis by (simp add: loadHexFile_def)
qed

theorem hex_file_roundtrip_witness:
  "loadHexFile (Some (''00100093 00000073 # li'' @ [CHR 0x0A] @ ''// end'' @ [CHR 0x0A] @ '' 00000073//'' @ [CHR 0x0A])) =
     Inr [0x00100093, 0x73, 0x73]"
proof -
  have r: "replicate 2 x = [x, x]" "replicate 6 x = [x, x, x, x, x, x]" for x :: char
    by (simp_all add: numeral_eq_Suc)
  have "show_hex8 0x00100093 = ''00100093''" "show_hex8 0x73 = ''00000073''"
    by (simp_all add: show_hex8_def show_hex.simps hex_char_def digit_char_def char_of_def r bit_0)
  then show ?thesis
    using hex_file_roundtrip [of "[([], [(0x00100093, '' ''), (0x73, '' '')], ''# li''), ([], [], ''// end''), ('' '', [(0x73, [])], ''//'')]"]
    by (simp add: gap_text_def comment_text_def c_isspace_def)
qed
end
