(* ===== verification/Driver.thy ===== *)
theory Driver
  imports Loader Core_Run
begin

text \<open>
  The command-line driver \<^verbatim>\<open>sim/main.cpp\<close>: the options, the precedence of configuration
  sources, program loading, and the differential check that runs the reference model beside the
  pipeline and compares commit records and final states.  The file system and the answers of
  \<^verbatim>\<open>fcntl\<close> are parameters.
\<close>

section \<open>Options\<close>

text \<open>\<^verbatim>\<open>strtol(s, &end, 10)\<close> with a 64-bit \<^verbatim>\<open>long\<close>; without digits the rest is the whole string.\<close>

definition strtol10 :: "string \<Rightarrow> int \<times> string" where
  "strtol10 s =
     (let s1 = dropWhile c_isspace s;
          neg = first_is (\<lambda>c. c = CHR ''-'') s1;
          s2 = (if neg \<or> first_is (\<lambda>c. c = CHR ''+'') s1 then tl s1 else s1)
      in if \<not> first_is (\<lambda>c. digit_val c < 10) s2 then (0, s)
         else let (v, rest) = scan_digits 10 0 s2
              in (if neg then max (- (2 ^ 63)) (- int v) else min (2 ^ 63 - 1) (int v), rest))"

text \<open>The lambdas \<^verbatim>\<open>fdArg\<close> and \<^verbatim>\<open>numArg\<close>; the latter takes what it can of the string.\<close>

definition fdArg :: "string \<Rightarrow> int option" where
  "fdArg s = (let (fd, rest) = strtol10 s in if s = [] \<or> rest \<noteq> [] \<or> fd < 3 \<or> 2 ^ 31 - 1 < fd then None else Some fd)"

definition numArg :: "string \<Rightarrow> u64" where
  "numArg s = (case strtoull s of None \<Rightarrow> 0 | Some (v, rest) \<Rightarrow> v)"

record settings =
  mo_cfg :: sim_config
  mo_file :: "string option"
  mo_cfgFile :: "string option"
  mo_overrides :: "string list"
  mo_printConfig :: bool
  mo_frameFd :: int
  mo_keyFd :: int

definition settings0 :: settings where
  "settings0 = \<lparr>mo_cfg = default_config, mo_file = None, mo_cfgFile = None, mo_overrides = [],
     mo_printConfig = False, mo_frameFd = - 1, mo_keyFd = - 1\<rparr>"

text \<open>How the options end: with settings, with the usage text and an exit code, or with a bad descriptor.\<close>

datatype parsed = Settings settings | Usage int | Bad_Descriptor

function parse_args :: "string list \<Rightarrow> settings \<Rightarrow> parsed" where
  "parse_args args s =
     (if args = [] then Settings s
      else let a = hd args; as = tl args; arg = hd as; next = tl as; cfg = mo_cfg s in
        if a = ''--frame-fd'' \<and> as \<noteq> []
        then (case fdArg arg of None \<Rightarrow> Bad_Descriptor | Some fd \<Rightarrow> parse_args next (s\<lparr>mo_frameFd := fd\<rparr>))
        else if a = ''--key-fd'' \<and> as \<noteq> []
        then (case fdArg arg of None \<Rightarrow> Bad_Descriptor | Some fd \<Rightarrow> parse_args next (s\<lparr>mo_keyFd := fd\<rparr>))
        else if a = ''-t'' then parse_args as (s\<lparr>mo_cfg := cfg\<lparr>cfg_trace := True\<rparr>\<rparr>)
        else if a = ''-r'' then parse_args as (s\<lparr>mo_cfg := cfg\<lparr>cfg_dumpRegs := True\<rparr>\<rparr>)
        else if a = ''-d'' then parse_args as (s\<lparr>mo_cfg := cfg\<lparr>cfg_diffCheck := True\<rparr>\<rparr>)
        else if a = ''-c'' \<and> as \<noteq> [] then parse_args next (s\<lparr>mo_cfg := cfg\<lparr>cfg_maxCycles := numArg arg\<rparr>\<rparr>)
        else if a = ''-m'' \<and> as \<noteq> [] then parse_args next (s\<lparr>mo_cfg := cfg\<lparr>cfg_memBytes := numArg arg\<rparr>\<rparr>)
        else if a = ''-C'' \<and> as \<noteq> [] then parse_args next (s\<lparr>mo_cfgFile := Some arg\<rparr>)
        else if a = ''-O'' \<and> as \<noteq> [] then parse_args next (s\<lparr>mo_overrides := mo_overrides s @ [arg]\<rparr>)
        else if a = ''-p'' then parse_args as (s\<lparr>mo_printConfig := True\<rparr>)
        else if a = ''-h'' \<or> a = ''--help'' then Usage 0
        else if first_is (\<lambda>c. c = CHR ''-'') a then Usage 1
        else parse_args as (s\<lparr>mo_file := Some a\<rparr>))"
  by pat_completeness auto

termination
  by (relation "measure (\<lambda>(args, s). length args)") (auto simp: Let_def neq_Nil_conv)

declare parse_args.simps [simp del]

section \<open>Configuration and program\<close>

definition configured :: "(string \<Rightarrow> u8 list option) \<Rightarrow> settings \<Rightarrow> config_error + sim_config" where
  "configured fs s =
     andThen (case mo_cfgFile s of
                None \<Rightarrow> Inr (mo_cfg s)
              | Some path \<Rightarrow> loadConfigFile path (map_option (map (\<lambda>b. char_of (unat b))) (fs path)) (mo_cfg s))
       (\<lambda>cfg. andThen (fold (\<lambda>kv r. andThen r (applyConfigOverride kv)) (mo_overrides s) (Inr cfg)) validateConfig)"

text \<open>The file is binary when its name is longer than four characters and ends in \<^verbatim>\<open>.bin\<close>.\<close>

definition is_bin :: "string \<Rightarrow> bool" where
  "is_bin file \<longleftrightarrow> 4 < length file \<and> drop (length file - 4) file = ''.bin''"

text \<open>The ways the differential check fails, and the ways a run ends early.\<close>

datatype divergence =
    Reference_Halted CommitRecord
  | Streams_Differ CommitRecord CommitRecord
  | Exit_Differs int bool int
  | Register_Differs nat u32 u32
  | Memory_Differs u32 u8 u8

datatype failure = Fatal fatal | Load_Failed load_error | Diverged divergence

definition loadInto :: "string \<Rightarrow> u8 list option \<Rightarrow> memory \<Rightarrow> failure + memory" where
  "loadInto file contents mem =
     (if is_bin file
      then (case loadBinFile contents of
              Inl e \<Rightarrow> Inl (Load_Failed e)
            | Inr img \<Rightarrow> (case loadBytes mem img of Inl f \<Rightarrow> Inl (Fatal f) | Inr m \<Rightarrow> Inr m))
      else (case loadHexFile (map_option (map (\<lambda>b. char_of (unat b))) contents) of
              Inl e \<Rightarrow> Inl (Load_Failed e)
            | Inr ws \<Rightarrow> (case loadWords mem ws of Inl f \<Rightarrow> Inl (Fatal f) | Inr m \<Rightarrow> Inr m)))"

section \<open>The report of a divergence\<close>

definition pad_right :: "nat \<Rightarrow> string \<Rightarrow> string" where
  "pad_right n s = s @ replicate (n - length s) (CHR '' '')"

text \<open>\<^verbatim>\<open>printCommit\<close>; the line it prints, or \<open>None\<close> for a register number beyond 31.\<close>

definition printCommit :: "string \<Rightarrow> CommitRecord \<Rightarrow> string option" where
  "printCommit who r =
     (case disasm (decode (cr_instruction r)) of
        None \<Rightarrow> None
      | Some d \<Rightarrow>
          (case (case cr_registerWrite r of
                   None \<Rightarrow> Some []
                 | Some w \<Rightarrow> map_option (\<lambda>n. ''  '' @ n @ ''=0x'' @ show_hex8 (rw_value w)) (reg_name (rw_rd w))) of
             None \<Rightarrow> None
           | Some reg \<Rightarrow>
               Some (''  '' @ who @ '': seq '' @ show_nat (unat (cr_sequence r)) @ '' pc=0x'' @ show_hex8 (cr_pc r) @
                 '' '' @ pad_right 20 d @ reg @
                 (case cr_memoryWrite r of
                    None \<Rightarrow> []
                  | Some w \<Rightarrow> ''  mem[0x'' @ show_hex8 (mw_addr w) @ '']=0x'' @ show_hex (unat (mw_value w)) @
                                '' ('' @ show_nat (unat (mw_size w)) @ '' bytes)'') @
                 (if cr_exception r = None then [] else ''  exception=illegal'') @ [CHR 0x0A])))"

section \<open>The differential check\<close>

text \<open>
  The observer of a commit: the reference model takes the input the pipeline read, steps, and its
  record has to be the same.  The number counts the verified commits.
\<close>

definition feed :: "CommitRecord \<Rightarrow> refmodel \<Rightarrow> refmodel" where
  "feed pipe m =
     (case cr_registerWrite pipe of
        None \<Rightarrow> m
      | Some w \<Rightarrow> if cr_instruction pipe = 0x00000073 \<and> syscallReturnsInput (rm_regs m ! 17)
                  then m\<lparr>rm_replayInput := rw_value w\<rparr> else m)"

definition on_commit :: "host \<Rightarrow> CommitRecord \<Rightarrow> refmodel \<times> nat \<Rightarrow> (failure + refmodel \<times> nat) option" where
  "on_commit h pipe = (\<lambda>(m, n).
     case ref_step h (feed pipe m) of
       None \<Rightarrow> None
     | Some (Inl e) \<Rightarrow> Some (Inl (Fatal e))
     | Some (Inr (None, m)) \<Rightarrow> Some (Inl (Diverged (Reference_Halted pipe)))
     | Some (Inr (Some r, m)) \<Rightarrow>
         if pipe \<noteq> r then Some (Inl (Diverged (Streams_Differ pipe r))) else Some (Inr (m, n + 1)))"

primrec on_commits :: "host \<Rightarrow> CommitRecord list \<Rightarrow> refmodel \<times> nat \<Rightarrow> (failure + refmodel \<times> nat) option" where
  "on_commits h [] s = Some (Inr s)"
| "on_commits h (r # rs) s =
     (case on_commit h r s of
        None \<Rightarrow> None
      | Some (Inl f) \<Rightarrow> Some (Inl f)
      | Some (Inr s) \<Rightarrow> on_commits h rs s)"

text \<open>
  The run with the observer, which the commit loop calls at each commit: the records a cycle hands
  over are those of its commit loop up to the point where it stops, fails or does not return, and
  they are checked before anything after them in the cycle counts.
\<close>

primrec emitted :: "nat \<Rightarrow> core \<Rightarrow> CommitRecord list" where
  "emitted 0 c = []"
| "emitted (Suc n) c =
     (if ring_empty (oc_rob c) \<or> \<not> re_done (ring_head (oc_rob c)) \<or> oc_halted c then []
      else (case commit_one c of
              Some (Inr (True, d)) \<Rightarrow> last (oc_commits d) # emitted n d
            | _ \<Rightarrow> []))"

definition cycle_commits :: "core \<Rightarrow> CommitRecord list" where
  "cycle_commits c = emitted (unat (cfg_width (oc_cfg c))) (sample_occupancy c)"

partial_function (option) diff_run :: "host \<Rightarrow> core \<Rightarrow> refmodel \<times> nat \<Rightarrow> (failure + core \<times> refmodel \<times> nat) option" where
  "diff_run h c s =
     (if oc_halted c then Some (Inr (c, s))
      else if cfg_maxCycles (oc_cfg c) \<le> st_cycles (oc_stats c) then Some (Inr (c\<lparr>oc_exitCode := 2\<rparr>, s))
      else (case on_commits h (cycle_commits c) s of
              None \<Rightarrow> None
            | Some (Inl f) \<Rightarrow> Some (Inl f)
            | Some (Inr s) \<Rightarrow>
                (case stepCycle c of
                   None \<Rightarrow> None
                 | Some (Inl e) \<Rightarrow> Some (Inl (Fatal e))
                 | Some (Inr d) \<Rightarrow> diff_run h d s)))"

text \<open>
  The final comparison: exit state, registers, and the memory up to \<^verbatim>\<open>(uint32_t)cfg.memBytes\<close>,
  read through the caches.
\<close>

primrec compare_memory :: "msys \<Rightarrow> memory \<Rightarrow> nat list \<Rightarrow> failure + unit" where
  "compare_memory ms mem [] = Inr ()"
| "compare_memory ms mem (a # as) =
     (case msys_peek8 ms (word_of_nat a) of
        Inl e \<Rightarrow> Inl (Fatal e)
      | Inr b \<Rightarrow> if b \<noteq> bytes mem ! a then Inl (Diverged (Memory_Differs (word_of_nat a) b (bytes mem ! a)))
                 else compare_memory ms mem as)"

definition final_check :: "core \<Rightarrow> refmodel \<Rightarrow> failure + unit" where
  "final_check c m =
     (if \<not> rm_halted m \<or> rm_exitCode m \<noteq> oc_exitCode c
      then Inl (Diverged (Exit_Differs (oc_exitCode c) (rm_halted m) (rm_exitCode m)))
      else case find (\<lambda>r. core_reg c r \<noteq> rm_regs m ! r) [0..<32] of
             Some r \<Rightarrow> Inl (Diverged (Register_Differs r (core_reg c r) (rm_regs m ! r)))
           | None \<Rightarrow> compare_memory (oc_msys c) (rm_mem m) [0..<unat (ucast (cfg_memBytes (oc_cfg c)) :: u32)])"

text \<open>Both together; the result is the final core and the number of verified commits.\<close>

definition checked_run :: "host \<Rightarrow> core \<Rightarrow> refmodel \<Rightarrow> (failure + core \<times> nat) option" where
  "checked_run h c m =
     (case diff_run h c (m, 0) of
        None \<Rightarrow> None
      | Some (Inl f) \<Rightarrow> Some (Inl f)
      | Some (Inr (c, m, n)) \<Rightarrow>
          if oc_exitCode c = 2 then Some (Inr (c, n))
          else Some (case final_check c m of Inl f \<Rightarrow> Inl f | Inr u \<Rightarrow> Inr (c, n)))"

section \<open>main\<close>

text \<open>
  How the process ends: the return value of \<^verbatim>\<open>main\<close> with what it prints of its own, or one of the
  fatal exits.
\<close>

datatype main_end =
    Returns int
  | Prints_Config string
  | Dumps_Registers string int
  | Config_Fails config_error
  | Bad_Fd
  | Run_Fails failure

definition run_program ::
  "sim_config \<Rightarrow> u32 list \<Rightarrow> string \<Rightarrow> u8 list option \<Rightarrow> host \<Rightarrow> (failure + core) option" where
  "run_program cfg histLen file contents h =
     (case core_new histLen cfg (msys_new cfg) h of
        None \<Rightarrow> None
      | Some c \<Rightarrow>
          (case loadInto file contents (ms_backing (oc_msys c)) of
             Inl f \<Rightarrow> Some (Inl f)
           | Inr mem \<Rightarrow>
               let c = c\<lparr>oc_msys := (oc_msys c)\<lparr>ms_backing := mem\<rparr>\<rparr> in
               if cfg_diffCheck cfg
               then (case loadInto file contents (rm_mem (refmodel_new (unat (cfg_memBytes cfg)))) of
                       Inl f \<Rightarrow> Some (Inl f)
                     | Inr mem \<Rightarrow>
                         map_option (map_sum id fst)
                           (checked_run h c ((refmodel_new (unat (cfg_memBytes cfg)))\<lparr>rm_mem := mem\<rparr>)))
               else map_option (map_sum Fatal id) (core_run c)))"

definition main ::
  "u32 list \<Rightarrow> (string \<Rightarrow> u8 list option) \<Rightarrow> access_mode option \<Rightarrow> access_mode option \<Rightarrow> bool \<Rightarrow> host \<Rightarrow>
     string list \<Rightarrow> main_end option" where
  "main histLen fs ff kf nb h args =
     (case parse_args args settings0 of
        Bad_Descriptor \<Rightarrow> Some Bad_Fd
      | Usage code \<Rightarrow> Some (Returns code)
      | Settings s \<Rightarrow>
          (case configured fs s of
             Inl e \<Rightarrow> Some (Config_Fails e)
           | Inr cfg \<Rightarrow>
               if mo_printConfig s then Some (Prints_Config (dumpConfig cfg))
               else (case mo_file s of
                  None \<Rightarrow> Some (Returns 1)
                | Some file \<Rightarrow>
                    (case configure (mo_frameFd s) (mo_keyFd s) ff kf nb h of
                       Inl e \<Rightarrow> Some (Run_Fails (Fatal e))
                     | Inr h \<Rightarrow>
                         map_option (\<lambda>out. case out of
                             Inl f \<Rightarrow> Run_Fails f
                           | Inr c \<Rightarrow>
                               if cfg_dumpRegs cfg
                               then Dumps_Registers (dumpRegisters (map (core_reg c) [0..<32]) (oc_pc c)) (oc_exitCode c)
                               else Returns (oc_exitCode c))
                           (run_program cfg histLen file (fs file) h)))))"

section \<open>A passing check is a sequential execution\<close>

lemma ref_run_append:
  "ref_run n h m = Some (Inr (rs, m')) \<Longrightarrow> length rs = n \<Longrightarrow> ref_run k h m' = Some (Inr (ts, m'')) \<Longrightarrow>
   ref_run (n + k) h m = Some (Inr (rs @ ts, m''))"
proof (induction n arbitrary: m rs)
  case (Suc n)
  obtain out m1 where s: "ref_step h m = Some (Inr (out, m1))"
    using Suc.prems(1) by (auto split: option.splits sum.splits)
  show ?case
  proof (cases out)
    case None
    then show ?thesis using Suc.prems(1,2) s by auto
  next
    case (Some r)
    then obtain qs where q: "ref_run n h m1 = Some (Inr (qs, m'))" "rs = r # qs"
      using Suc.prems(1) s by (auto simp: bind_result_Inr)
    then show ?thesis using Suc.IH [OF q(1) _ Suc.prems(3)] Suc.prems(2) s Some by simp
  qed
qed simp

text \<open>A stream without input: no environment call writes a register.\<close>

definition no_input :: "CommitRecord list \<Rightarrow> bool" where
  "no_input rs \<longleftrightarrow> (\<forall>r \<in> set rs. cr_instruction r = 0x00000073 \<longrightarrow> cr_registerWrite r = None)"

lemma feed_no_input: "no_input (r # rs) \<Longrightarrow> feed r m = m"
  by (auto simp: feed_def no_input_def split: option.split)

text \<open>
  The interpreter led by a stream: each step gives the next record, with the input it carries put
  before an input call.  \<open>None\<close> when it does not.
\<close>

primrec follows :: "host \<Rightarrow> CommitRecord list \<Rightarrow> refmodel \<Rightarrow> refmodel option" where
  "follows h [] m = Some m"
| "follows h (r # rs) m =
     (case ref_step h (feed r m) of
        Some (Inr (Some r', m)) \<Rightarrow> if r' = r then follows h rs m else None
      | _ \<Rightarrow> None)"

lemma on_commits_follows:
  assumes "on_commits h rs (m, n) = Some (Inr (m', n'))"
  shows "follows h rs m = Some m' \<and> n' = n + length rs"
  using assms
proof (induction rs arbitrary: m n)
  case (Cons r rs)
  then obtain m1 where s: "ref_step h (feed r m) = Some (Inr (Some r, m1))" "on_commits h rs (m1, n + 1) = Some (Inr (m', n'))"
    by (auto simp: on_commit_def split: option.splits sum.splits if_splits)
  show ?case using Cons.IH [OF s(2)] by (simp add: s(1))
qed simp

lemma follows_run:
  assumes "follows h rs m = Some m'" "no_input rs"
  shows "ref_run (length rs) h m = Some (Inr (rs, m'))"
  using assms
proof (induction rs arbitrary: m)
  case (Cons r rs)
  have f: "feed r m = m" using feed_no_input [OF Cons.prems(2)] .
  obtain m1 where s: "ref_step h m = Some (Inr (Some r, m1))" "follows h rs m1 = Some m'"
    using Cons.prems(1) by (auto simp: f split: option.splits sum.splits if_splits)
  have "no_input rs" using Cons.prems(2) by (simp add: no_input_def)
  from Cons.IH [OF s(2) this] show ?case by (simp add: s(1))
qed simp

lemma on_commits_append:
  "on_commits h (rs @ ts) s =
     (case on_commits h rs s of None \<Rightarrow> None | Some (Inl f) \<Rightarrow> Some (Inl f) | Some (Inr s) \<Rightarrow> on_commits h ts s)"
  by (induction rs arbitrary: s) (simp_all split: option.split sum.split)

lemma commit_loop_emitted:
  assumes "commit_loop n k c = Some (Inr (k', c'))" "numbered c"
  shows "oc_commits c' = oc_commits c @ emitted n c"
  using assms
proof (induction n arbitrary: k c)
  case (Suc n)
  show ?case
  proof (cases "ring_empty (oc_rob c) \<or> \<not> re_done (ring_head (oc_rob c)) \<or> oc_halted c")
    case True
    then show ?thesis using Suc.prems(1) by auto
  next
    case False
    then obtain go d where d: "commit_one c = Some (Inr (go, d))"
      "(if go then commit_loop n (Suc k) d else Some (Inr (k, d))) = Some (Inr (k', c'))"
      using Suc.prems(1) by (auto simp: bind_io_Inr)
    obtain rs where s: "numbered d" "oc_commits d = oc_commits c @ rs" "length rs = (if go then 1 else 0)"
      using commit_one_numbered [OF d(1) Suc.prems(2)] False by auto
    show ?thesis
    proof (cases go)
      case True
      then obtain r where r: "rs = [r]" using s(3) by (cases rs) auto
      have "oc_commits c' = oc_commits d @ emitted n d" using Suc.IH [OF _ s(1)] d(2) True by simp
      then show ?thesis using False d(1) s(2) True by (simp add: r)
    qed (use False d s in auto)
  qed
qed simp

lemma stepCycle_emits:
  assumes "stepCycle c = Some (Inr c')" "numbered c"
  shows "oc_commits c' = oc_commits c @ cycle_commits c"
proof -
  obtain d where d: "commitStage (sample_occupancy c) = Some (Inr d)" "clock c' = clock d"
    using assms(1) by (rule stepCycle_stages)
  obtain k e where e: "commit_loop (unat (cfg_width (oc_cfg c))) 0 (sample_occupancy c) = Some (Inr (k, e))"
    "clock d = clock e"
    using d(1) by (auto simp: commitStage_def bind_io_Inr Let_def sample_occupancy_def split: if_splits)
  have n: "numbered (sample_occupancy c)" "oc_commits (sample_occupancy c) = oc_commits c"
    using assms(2) by (simp_all add: numbered_def sample_occupancy_def)
  have k: "oc_commits c' = oc_commits e" using clockD [OF d(2) [unfolded e(2)]] by simp
  show ?thesis using commit_loop_emitted [OF e(1) n(1)] by (simp add: k n(2) cycle_commits_def)
qed

text \<open>The checked run is the run, and the observer has seen every commit.\<close>

lemma diff_run_core:
  assumes "diff_run h c s = Some (Inr (d, t))" "numbered c"
  shows "core_run c = Some (Inr d) \<and> (\<exists>rs. oc_commits d = oc_commits c @ rs \<and> on_commits h rs s = Some (Inr t)) \<and>
    oc_cfg d = oc_cfg c \<and> mem_len (oc_msys d) = mem_len (oc_msys c)"
  using assms
proof (induction "unat (cfg_maxCycles (oc_cfg c) - st_cycles (oc_stats c))" arbitrary: c s rule: less_induct)
  case less
  let ?max = "cfg_maxCycles (oc_cfg c)" and ?now = "st_cycles (oc_stats c)"
  show ?case
  proof (cases "oc_halted c \<or> ?max \<le> ?now")
    case True
    define e where "e = (if oc_halted c then c else c\<lparr>oc_exitCode := 2\<rparr>)"
    have "diff_run h c s = Some (Inr (e, s))" "core_run c = Some (Inr e)"
      unfolding diff_run.simps [of h c] core_run.simps [of c] e_def using True by auto
    moreover have "oc_commits e = oc_commits c" "oc_cfg e = oc_cfg c" "oc_msys e = oc_msys c" by (simp_all add: e_def)
    ultimately show ?thesis using less.prems(1) by auto
  next
    case False
    then have now: "?now < ?max" by (simp add: not_le)
    obtain e u where e: "stepCycle c = Some (Inr e)" "diff_run h e u = Some (Inr (d, t))"
      "on_commits h (cycle_commits c) s = Some (Inr u)"
      using less.prems(1) False by (subst (asm) diff_run.simps) (auto split: option.splits sum.splits)
    have run: "core_run c = core_run e" using False by (subst core_run.simps) (simp add: e(1))
    note k = stepCycle_clock [OF e(1)]
    have rs: "numbered e" "oc_commits e = oc_commits c @ cycle_commits c"
      using stepCycle_numbered [OF e(1) less.prems(2)] stepCycle_emits [OF e(1) less.prems(2)] by simp_all
    have "unat (?max - (?now + 1)) < unat (?max - ?now)" using now by unat_arith
    then have "unat (cfg_maxCycles (oc_cfg e) - st_cycles (oc_stats e)) < unat (?max - ?now)" by (simp add: k)
    from less.hyps [OF this e(2) rs(1)] obtain ts where ts: "core_run e = Some (Inr d)"
      "oc_commits d = oc_commits e @ ts" "on_commits h ts u = Some (Inr t)"
      "oc_cfg d = oc_cfg e" "mem_len (oc_msys d) = mem_len (oc_msys e)" by blast
    have "on_commits h (cycle_commits c @ ts) s = Some (Inr t)" using e(3) ts(3) by (simp add: on_commits_append rs(2))
    then show ?thesis using ts run k by (auto simp: rs(2))
  qed
qed

lemma compare_memory_ok:
  "compare_memory ms mem as = Inr u \<Longrightarrow> a \<in> set as \<Longrightarrow> msys_peek8 ms (word_of_nat a) = Inr (bytes mem ! a)"
  by (induction as) (auto split: sum.splits if_splits)

text \<open>
  C5. What a passing differential check proves.  Let the check pass with an exit code other than 2,
  a memory of less than \<^verbatim>\<open>2 ^ 32\<close> bytes and a machine that has not committed anything yet.  Then
  the run of the pipeline is that of the unchecked machine; the reference interpreter, given for
  each input call the value the pipeline read, makes its commit stream record by record; for a
  program that reads no input the interpreter run on its own makes it; and the interpreter has
  halted with the same exit code, the same 32 registers and, byte by byte as the program would read
  it through the caches, the same memory.  The first two conditions are needed: \<open>exit_two_unchecked\<close>
  and \<open>four_gib_unchecked\<close> show that without them a passing check compares no final state.
\<close>

theorem differential_check_sound:
  assumes "checked_run h c0 m0 = Some (Inr (c, n))" "oc_exitCode c \<noteq> 2"
    and "oc_commits c0 = []" "st_retired (oc_stats c0) = 0"
    and "unat (cfg_memBytes (oc_cfg c0)) < 2 ^ 32"
  shows "core_run c0 = Some (Inr c) \<and> n = length (oc_commits c) \<and>
    (\<exists>m. follows h (oc_commits c) m0 = Some m \<and>
       (no_input (oc_commits c) \<longrightarrow> ref_run n h m0 = Some (Inr (oc_commits c, m))) \<and>
       rm_halted m \<and> rm_exitCode m = oc_exitCode c \<and>
       (\<forall>r < 32. rm_regs m ! r = core_reg c r) \<and>
       (\<forall>a < unat (cfg_memBytes (oc_cfg c0)). msys_peek8 (oc_msys c) (word_of_nat a) = Inr (bytes (rm_mem m) ! a)))"
proof -
  obtain m where m: "diff_run h c0 (m0, 0) = Some (Inr (c, m, n))" "final_check c m = Inr ()"
    using assms(1,2) by (auto simp: checked_run_def split: option.splits sum.splits if_splits)
  have "numbered c0" using assms(3,4) by (simp add: numbered_def)
  from diff_run_core [OF m(1) this] have d: "core_run c0 = Some (Inr c)" "oc_cfg c = oc_cfg c0"
    "on_commits h (oc_commits c) (m0, 0) = Some (Inr (m, n))"
    using assms(3) by auto
  note r = on_commits_follows [OF d(3)]
  have f: "rm_halted m" "rm_exitCode m = oc_exitCode c" "\<forall>r < 32. rm_regs m ! r = core_reg c r"
    "compare_memory (oc_msys c) (rm_mem m) [0..<unat (ucast (cfg_memBytes (oc_cfg c)) :: u32)] = Inr ()"
    using m(2) by (auto simp: final_check_def find_None_iff split: if_splits option.splits)
  have "unat (ucast (cfg_memBytes (oc_cfg c)) :: u32) = unat (cfg_memBytes (oc_cfg c0))"
    using assms(5) by (simp add: d(2) unsigned_ucast_eq take_bit_nat_eq_self)
  then have "\<forall>a < unat (cfg_memBytes (oc_cfg c0)). msys_peek8 (oc_msys c) (word_of_nat a) = Inr (bytes (rm_mem m) ! a)"
    using compare_memory_ok [OF f(4)] by simp
  then show ?thesis using d(1) r f follows_run [of h "oc_commits c" m0 m] by (intro conjI exI [of _ m]) simp_all
qed

text \<open>A machine that has stopped, beside a reference model that has stopped, with a memory of two bytes.\<close>

definition check_cfg :: sim_config where
  "check_cfg = default_config\<lparr>cfg_physRegs := 64, cfg_memBytes := 2, cfg_flatMemory := True, cfg_maxCycles := 9\<rparr>"

definition check_core :: core where
  "check_core = (the (core_new [] check_cfg (msys_new check_cfg) host_demo))\<lparr>oc_halted := True, oc_exitCode := 7\<rparr>"

definition check_ref :: refmodel where
  "check_ref = (refmodel_new 2)\<lparr>rm_halted := True, rm_exitCode := 7\<rparr>"

lemma check_core_new:
  obtains c where "core_new [] check_cfg (msys_new check_cfg) host_demo = Some c"
    "check_core = c\<lparr>oc_halted := True, oc_exitCode := 7\<rparr>"
proof -
  have "predictor_new [] check_cfg \<noteq> None" by (simp add: predictor_new_def Let_def check_cfg_def default_config_def)
  then obtain c where "core_new [] check_cfg (msys_new check_cfg) host_demo = Some c" by (auto simp: core_new_def)
  then show thesis using that by (simp add: check_core_def)
qed

lemma check_passes: "checked_run host_demo check_core check_ref = Some (Inr (check_core, 0))"
proof -
  obtain c where c: "core_new [] check_cfg (msys_new check_cfg) host_demo = Some c"
    "check_core = c\<lparr>oc_halted := True, oc_exitCode := 7\<rparr>" by (rule check_core_new)
  have f: "oc_msys c = msys_new check_cfg" "oc_cfg c = check_cfg" "oc_map c = rmap_reset" "oc_val c = replicate 64 0"
    using c(1) by (auto simp: core_new_def check_cfg_def)
  have "core_reg check_core r = 0" if "r < 32" for r
    using that by (simp add: core_reg_def c(2) f rmap_reset_def take_bit_nat_eq_self unsigned_of_nat)
  then have "find (\<lambda>r. core_reg check_core r \<noteq> rm_regs check_ref ! r) [0..<32] = None"
    by (simp add: find_None_iff check_ref_def refmodel_new_def)
  moreover have "msys_peek8 (msys_new check_cfg) 0 = Inr 0" "msys_peek8 (msys_new check_cfg) 1 = Inr 0"
    by (simp_all add: msys_peek8_def msys_new_def check_cfg_def mem_check_def memory_new_def mem_load8_def
        mem_load_def bind_result_def load_bytes_def)
  moreover have "[0..<2] = [0, 1::nat]" by (simp add: numeral_2_eq_2)
  ultimately have "final_check check_core check_ref = Inr ()"
    by (simp add: final_check_def check_ref_def refmodel_new_def memory_new_def c(2) f check_cfg_def nth_Cons')
  moreover have "diff_run host_demo check_core (check_ref, 0) = Some (Inr (check_core, check_ref, 0))"
    by (subst diff_run.simps) (simp add: c(2))
  ultimately show ?thesis by (simp add: checked_run_def c(2))
qed

theorem differential_check_sound_witness:
  "core_run check_core = Some (Inr check_core) \<and> (\<exists>m. ref_run 0 host_demo check_ref = Some (Inr ([], m)) \<and>
     rm_halted m \<and> rm_exitCode m = 7)"
proof -
  obtain c where c: "core_new [] check_cfg (msys_new check_cfg) host_demo = Some c"
    "check_core = c\<lparr>oc_halted := True, oc_exitCode := 7\<rparr>" by (rule check_core_new)
  then have g: "oc_commits c = []" "oc_stats c = stats0" "oc_cfg c = check_cfg" by (auto simp: core_new_def)
  have f: "oc_exitCode check_core = 7" "oc_commits check_core = []" "st_retired (oc_stats check_core) = 0"
    "unat (cfg_memBytes (oc_cfg check_core)) < 2 ^ 32"
    by (simp_all add: c(2) g) (simp_all add: stats0_def check_cfg_def)
  have "no_input (oc_commits check_core)" by (simp add: f(2) no_input_def)
  with f show ?thesis using differential_check_sound [OF check_passes] by auto
qed

section \<open>What the check does not see\<close>

text \<open>A program that exits with status 2 is taken for one that used up its budget.\<close>

lemma exit_two_unchecked:
  assumes "diff_run h c0 (m0, 0) = Some (Inr (c, m, n))" "oc_exitCode c = 2"
  shows "checked_run h c0 m0 = Some (Inr (c, n))"
  using assms by (simp add: checked_run_def)

text \<open>With 4 GiB of memory the bound of the loop over the memory is cut to zero.\<close>

lemma four_gib_unchecked:
  assumes "cfg_memBytes (oc_cfg c) = push_bit 32 1" "rm_halted m" "rm_exitCode m = oc_exitCode c"
    and "\<forall>r < 32. rm_regs m ! r = core_reg c r"
  shows "final_check c m = Inr ()"
proof -
  have "unat (ucast (push_bit 32 1 :: u64) :: u32) = 0" by simp
  then show ?thesis using assms by (simp add: final_check_def find_None_iff split: option.split)
qed

end
