(* ===== verification/Guest_Files.thy ===== *)
theory Guest_Files
  imports Prelude Syscall
begin

text \<open>
  The host hooks of the Doom guest, \<^verbatim>\<open>doom/runtime.c\<close> and \<^verbatim>\<open>doom/wad_io.c\<close>: the heap of
  \<^verbatim>\<open>sbrk\<close>, the table of open files over the one embedded file, and the bulk reader.  The symbols of
  the linker script are parameters: the bounds of the heap, and the bytes between
  \<^verbatim>\<open>_binary_game_wad_start\<close> and \<^verbatim>\<open>_binary_game_wad_end\<close>.  A buffer that is filled is the list of
  the bytes written to it.  An \<^verbatim>\<open>off_t\<close> is an integer; positions stay in 31 bits
  (\<open>files_ok_step\<close>), so its width does not matter.
\<close>

section \<open>State\<close>

datatype guest_errno = ENOMEM | EBADF | ENOENT | EROFS | EMFILE | EINVAL

record guest_file =
  gf_used :: bool
  gf_position :: int

text \<open>\<open>g_top\<close> is the static \<^verbatim>\<open>top\<close> of \<^verbatim>\<open>sbrk\<close>, 0 before the first call; \<open>g_calls\<close> lists the \<^verbatim>\<open>rv_call\<close>s.\<close>

record guest =
  g_top :: u32
  g_errno :: "guest_errno option"
  g_files :: "guest_file list"
  g_calls :: "(u32 \<times> u32) list"

definition MAX_FILES :: nat where
  "MAX_FILES = 8"

definition guest_start :: guest where
  "guest_start = \<lparr>g_top = 0, g_errno = None,
     g_files = replicate MAX_FILES \<lparr>gf_used = False, gf_position = 0\<rparr>, g_calls = []\<rparr>"

definition rv_call :: "u32 \<Rightarrow> u32 \<Rightarrow> guest \<Rightarrow> guest" where
  "rv_call number argument g = g\<lparr>g_calls := g_calls g @ [(number, argument)]\<rparr>"

text \<open>A failing call sets \<^verbatim>\<open>errno\<close>; the callers return -1 with it.\<close>

definition fail_with :: "guest_errno \<Rightarrow> guest \<Rightarrow> guest" where
  "fail_with e g = g\<lparr>g_errno := Some e\<rparr>"

section \<open>Console, heap and exit\<close>

definition console_put :: "u8 \<Rightarrow> guest \<Rightarrow> int \<times> guest" where
  "console_put c g = (0, rv_call 2 (ucast c) g)"

text \<open>\<^verbatim>\<open>sbrk\<close>; \<open>None\<close> is the pointer -1.\<close>

definition sbrk :: "u32 \<Rightarrow> u32 \<Rightarrow> u32 \<Rightarrow> guest \<Rightarrow> u32 option \<times> guest" where
  "sbrk heap_start heap_end increment g =
     (let g = (if g_top g = 0 then g\<lparr>g_top := heap_start\<rparr> else g); top = g_top g
      in if increment <s 0 \<or> heap_end - top < increment then (None, fail_with ENOMEM g)
         else (Some top, g\<lparr>g_top := top + increment\<rparr>))"

text \<open>\<^verbatim>\<open>_exit\<close> up to the endless loop after the call.\<close>

definition exit_call :: "u32 \<Rightarrow> guest \<Rightarrow> guest" where
  "exit_call code g = rv_call 93 code g"

section \<open>Files\<close>

definition wad_size :: "u8 list \<Rightarrow> u32" where
  "wad_size wad = word_of_nat (length wad)"

definition file_at :: "int \<Rightarrow> guest \<Rightarrow> guest_file" where
  "file_at fd g = g_files g ! nat (fd - 3)"

definition set_file :: "int \<Rightarrow> guest_file \<Rightarrow> guest \<Rightarrow> guest" where
  "set_file fd f g = g\<lparr>g_files := (g_files g)[nat (fd - 3) := f]\<rparr>"

definition open_fd :: "int \<Rightarrow> guest \<Rightarrow> bool" where
  "open_fd fd g \<longleftrightarrow> 3 \<le> fd \<and> fd < 3 + int MAX_FILES \<and> gf_used (file_at fd g)"

definition valid_fd :: "int \<Rightarrow> guest \<Rightarrow> bool \<times> guest" where
  "valid_fd fd g = (if open_fd fd g then (True, g) else (False, fail_with EBADF g))"

definition is_wad :: "string \<Rightarrow> bool" where
  "is_wad path \<longleftrightarrow> path = ''game.wad'' \<or> path = ''./game.wad''"

text \<open>The flags of \<^verbatim>\<open>open\<close> the code looks at.\<close>

record open_flags =
  fl_mode :: access_mode
  fl_creat :: bool
  fl_trunc :: bool

definition guest_open :: "string \<Rightarrow> open_flags \<Rightarrow> guest \<Rightarrow> int \<times> guest" where
  "guest_open path flags g =
     (if \<not> is_wad path then (- 1, fail_with ENOENT g)
      else if fl_mode flags \<noteq> Read_Only \<or> fl_creat flags \<or> fl_trunc flags then (- 1, fail_with EROFS g)
      else case find (\<lambda>i. \<not> gf_used (g_files g ! i)) [0..<MAX_FILES] of
             Some i \<Rightarrow> (int i + 3, set_file (int i + 3) \<lparr>gf_used = True, gf_position = 0\<rparr> g)
           | None \<Rightarrow> (- 1, fail_with EMFILE g))"

definition guest_close :: "int \<Rightarrow> guest \<Rightarrow> int \<times> guest" where
  "guest_close fd g =
     (let (ok, g) = valid_fd fd g in
      if \<not> ok then (- 1, g) else (0, set_file fd ((file_at fd g)\<lparr>gf_used := False\<rparr>) g))"

text \<open>\<^verbatim>\<open>read\<close>; the list holds the bytes copied to the buffer.\<close>

definition guest_read :: "u8 list \<Rightarrow> int \<Rightarrow> u32 \<Rightarrow> guest \<Rightarrow> int \<times> u8 list \<times> guest" where
  "guest_read wad fd count g =
     (let (ok, g) = valid_fd fd g in
      if \<not> ok then (- 1, [], g)
      else let f = file_at fd g; pos = word_of_int (gf_position f);
               remaining = (if pos < wad_size wad then wad_size wad - pos else 0);
               count = min count remaining
           in (sint count, take (unat count) (drop (unat pos) wad),
               set_file fd (f\<lparr>gf_position := gf_position f + uint count\<rparr>) g))"

definition guest_write :: "int \<Rightarrow> u8 list \<Rightarrow> guest \<Rightarrow> int \<times> guest" where
  "guest_write fd bs g =
     (if fd \<noteq> 1 \<and> fd \<noteq> 2 then (- 1, fail_with EROFS g)
      else (int (length bs), fold (\<lambda>b g. rv_call 2 (ucast b) g) bs g))"

datatype whence = SEEK_SET | SEEK_CUR | SEEK_END | Seek_Other

definition guest_lseek :: "u8 list \<Rightarrow> int \<Rightarrow> int \<Rightarrow> whence \<Rightarrow> guest \<Rightarrow> int \<times> guest" where
  "guest_lseek wad fd offset w g =
     (let (ok, g) = valid_fd fd g in
      if \<not> ok then (- 1, g)
      else case (case w of SEEK_SET \<Rightarrow> Some 0 | SEEK_CUR \<Rightarrow> Some (gf_position (file_at fd g))
                   | SEEK_END \<Rightarrow> Some (uint (wad_size wad)) | Seek_Other \<Rightarrow> None) of
             None \<Rightarrow> (- 1, fail_with EINVAL g)
           | Some base \<Rightarrow>
               let pos = base + offset in
               if pos < 0 \<or> 2 ^ 31 - 1 < pos then (- 1, fail_with EINVAL g)
               else (pos, set_file fd ((file_at fd g)\<lparr>gf_position := pos\<rparr>) g))"

text \<open>The fields of \<^verbatim>\<open>struct stat\<close> that are not zero: \<^verbatim>\<open>S_IFREG | 0444\<close> and the size.\<close>

record guest_stat =
  gs_mode :: u32
  gs_size :: u32

definition guest_fstat :: "u8 list \<Rightarrow> int \<Rightarrow> guest \<Rightarrow> int \<times> guest_stat option \<times> guest" where
  "guest_fstat wad fd g =
     (let (ok, g) = valid_fd fd g in
      if \<not> ok then (- 1, None, g) else (0, Some \<lparr>gs_mode = 0x8124, gs_size = wad_size wad\<rparr>, g))"

definition stat_path :: "u8 list \<Rightarrow> string \<Rightarrow> guest \<Rightarrow> int \<times> guest_stat option \<times> guest" where
  "stat_path wad path g =
     (let (fd, g) = guest_open path \<lparr>fl_mode = Read_Only, fl_creat = False, fl_trunc = False\<rparr> g in
      if fd < 0 then (- 1, None, g)
      else let (r, st, g) = guest_fstat wad fd g in (r, st, snd (guest_close fd g)))"

definition guest_access :: "string \<Rightarrow> bool \<Rightarrow> guest \<Rightarrow> int \<times> guest" where
  "guest_access path w_ok g =
     (if \<not> is_wad path then (- 1, fail_with ENOENT g) else if w_ok then (- 1, fail_with EROFS g) else (0, g))"

text \<open>\<^verbatim>\<open>mkdir\<close>, \<^verbatim>\<open>remove\<close> and \<^verbatim>\<open>rename\<close>.\<close>

definition read_only_fs :: "guest \<Rightarrow> int \<times> guest" where
  "read_only_fs g = (- 1, fail_with EROFS g)"

section \<open>The bulk reader\<close>

text \<open>\<^verbatim>\<open>wad_open\<close> gives the length of the file; the object comes from the zone allocator.\<close>

definition wad_open :: "u8 list \<Rightarrow> string \<Rightarrow> u32 option" where
  "wad_open wad path = (if path \<noteq> ''game.wad'' \<and> path \<noteq> ''./game.wad'' then None else Some (word_of_nat (length wad)))"

definition wad_read :: "u8 list \<Rightarrow> u32 \<Rightarrow> u32 \<Rightarrow> u32 \<Rightarrow> u32 \<times> u8 list" where
  "wad_read wad wad_length offset n =
     (if wad_length \<le> offset then (0, [])
      else let n = (if wad_length - offset < n then wad_length - offset else n)
           in (n, take (unat n) (drop (unat offset) wad)))"

section \<open>Independent cursors\<close>

text \<open>
  What the table of files promises: every open descriptor is a cursor of its own over one
  read-only file.  The calls of a guest, their answers, and both the code's and the promised steps.
\<close>

datatype guest_op =
    Open string open_flags
  | Close int
  | Read int u32
  | Lseek int int whence
  | Fstat int
  | Stat string

datatype guest_answer = Failed "guest_errno option" | Done int "u8 list" "guest_stat option"

definition answer :: "int \<Rightarrow> u8 list \<Rightarrow> guest_stat option \<Rightarrow> guest \<Rightarrow> guest_answer" where
  "answer r bs st g = (if r < 0 then Failed (g_errno g) else Done r bs st)"

primrec guest_step :: "u8 list \<Rightarrow> guest_op \<Rightarrow> guest \<Rightarrow> guest_answer \<times> guest" where
  "guest_step wad (Open path fl) g = (let (r, g) = guest_open path fl g in (answer r [] None g, g))"
| "guest_step wad (Close fd) g = (let (r, g) = guest_close fd g in (answer r [] None g, g))"
| "guest_step wad (Read fd n) g = (let (r, bs, g) = guest_read wad fd n g in (answer r bs None g, g))"
| "guest_step wad (Lseek fd off w) g = (let (r, g) = guest_lseek wad fd off w g in (answer r [] None g, g))"
| "guest_step wad (Fstat fd) g = (let (r, st, g) = guest_fstat wad fd g in (answer r [] st g, g))"
| "guest_step wad (Stat path) g = (let (r, st, g) = stat_path wad path g in (answer r [] st g, g))"

primrec guest_run :: "u8 list \<Rightarrow> guest_op list \<Rightarrow> guest \<Rightarrow> guest_answer list" where
  "guest_run wad [] g = []"
| "guest_run wad (x # xs) g = (let (a, g) = guest_step wad x g in a # guest_run wad xs g)"

type_synonym cursors = "int \<Rightarrow> int option"

definition spec_stat :: "u8 list \<Rightarrow> guest_stat" where
  "spec_stat wad = \<lparr>gs_mode = 0x8124, gs_size = word_of_nat (length wad)\<rparr>"

definition free_fd :: "cursors \<Rightarrow> int option" where
  "free_fd m = find (\<lambda>fd. m fd = None) (map (\<lambda>i. int i + 3) [0..<8])"

primrec spec_step :: "u8 list \<Rightarrow> guest_op \<Rightarrow> cursors \<Rightarrow> guest_answer \<times> cursors" where
  "spec_step wad (Open path fl) m =
     (if path \<notin> {''game.wad'', ''./game.wad''} then (Failed (Some ENOENT), m)
      else if fl_mode fl \<noteq> Read_Only \<or> fl_creat fl \<or> fl_trunc fl then (Failed (Some EROFS), m)
      else case free_fd m of None \<Rightarrow> (Failed (Some EMFILE), m) | Some fd \<Rightarrow> (Done fd [] None, m(fd \<mapsto> 0)))"
| "spec_step wad (Close fd) m =
     (if m fd = None then (Failed (Some EBADF), m) else (Done 0 [] None, m(fd := None)))"
| "spec_step wad (Read fd n) m =
     (case m fd of
        None \<Rightarrow> (Failed (Some EBADF), m)
      | Some p \<Rightarrow> let bs = take (unat n) (drop (nat p) wad)
                  in (Done (int (length bs)) bs None, m(fd \<mapsto> p + int (length bs))))"
| "spec_step wad (Lseek fd off w) m =
     (case m fd of
        None \<Rightarrow> (Failed (Some EBADF), m)
      | Some p \<Rightarrow>
          let q = off + (case w of SEEK_SET \<Rightarrow> 0 | SEEK_CUR \<Rightarrow> p | SEEK_END \<Rightarrow> int (length wad) | Seek_Other \<Rightarrow> 0)
          in if w = Seek_Other \<or> q < 0 \<or> 2 ^ 31 \<le> q then (Failed (Some EINVAL), m)
             else (Done q [] None, m(fd \<mapsto> q)))"
| "spec_step wad (Fstat fd) m =
     (if m fd = None then (Failed (Some EBADF), m) else (Done 0 [] (Some (spec_stat wad)), m))"
| "spec_step wad (Stat path) m =
     (if path \<notin> {''game.wad'', ''./game.wad''} then (Failed (Some ENOENT), m)
      else if free_fd m = None then (Failed (Some EMFILE), m) else (Done 0 [] (Some (spec_stat wad)), m))"

primrec spec_run :: "u8 list \<Rightarrow> guest_op list \<Rightarrow> cursors \<Rightarrow> guest_answer list" where
  "spec_run wad [] m = []"
| "spec_run wad (x # xs) m = (let (a, m) = spec_step wad x m in a # spec_run wad xs m)"

text \<open>The abstraction, and the invariant of the table: positions stay in 31 bits.\<close>

definition cursors :: "guest \<Rightarrow> cursors" where
  "cursors g = (\<lambda>fd. if open_fd fd g then Some (gf_position (file_at fd g)) else None)"

definition files_ok :: "guest \<Rightarrow> bool" where
  "files_ok g \<longleftrightarrow> length (g_files g) = MAX_FILES \<and> (\<forall>f \<in> set (g_files g). 0 \<le> gf_position f \<and> gf_position f < 2 ^ 31)"

lemma fd_range: "length (g_files g) = MAX_FILES \<Longrightarrow> 3 \<le> fd \<Longrightarrow> fd < 3 + int MAX_FILES \<Longrightarrow> nat (fd - 3) < length (g_files g)"
  by simp

lemma file_at_set_file:
  assumes "files_ok g" "3 \<le> fd" "fd < 3 + int MAX_FILES" "3 \<le> x"
  shows "file_at x (set_file fd f g) = (if x = fd then f else file_at x g)"
proof -
  have l: "nat (fd - 3) < length (g_files g)" using assms fd_range by (simp add: files_ok_def)
  show ?thesis
  proof (cases "x = fd")
    case False
    then have "nat (x - 3) \<noteq> nat (fd - 3)" using assms by linarith
    then show ?thesis using False by (simp add: file_at_def set_file_def)
  qed (simp add: file_at_def set_file_def l)
qed

lemma cursors_set_file:
  assumes "files_ok g" "3 \<le> fd" "fd < 3 + int MAX_FILES"
  shows "cursors (set_file fd f g) = (cursors g)(fd := if gf_used f then Some (gf_position f) else None)"
  using file_at_set_file [OF assms] assms(2,3) by (auto simp: cursors_def open_fd_def fun_eq_iff split: if_splits)

lemma files_ok_set_file:
  "files_ok g \<Longrightarrow> 0 \<le> gf_position f \<Longrightarrow> gf_position f < 2 ^ 31 \<Longrightarrow> files_ok (set_file fd f g)"
  by (auto simp: files_ok_def set_file_def dest: set_update_subset_insert [THEN subsetD])

lemma cursors_fail [simp]: "cursors (fail_with e g) = cursors g" "files_ok (fail_with e g) = files_ok g"
  "g_errno (fail_with e g) = Some e"
  by (simp_all add: cursors_def open_fd_def file_at_def fail_with_def files_ok_def fun_eq_iff)

lemma cursors_Some:
  assumes "files_ok g" "cursors g fd = Some p"
  shows "open_fd fd g" "file_at fd g = \<lparr>gf_used = True, gf_position = p\<rparr>" "3 \<le> fd" "fd < 3 + int MAX_FILES"
    "0 \<le> p" "p < 2 ^ 31"
proof -
  show o: "open_fd fd g" using assms(2) by (simp add: cursors_def split: if_splits)
  then show r: "3 \<le> fd" "fd < 3 + int MAX_FILES" by (simp_all add: open_fd_def)
  show f: "file_at fd g = \<lparr>gf_used = True, gf_position = p\<rparr>"
    using assms(2) o by (cases "file_at fd g") (simp add: cursors_def open_fd_def)
  have "nat (fd - 3) < length (g_files g)" using assms(1) r fd_range by (simp add: files_ok_def)
  then have "file_at fd g \<in> set (g_files g)" by (simp add: file_at_def)
  then show "0 \<le> p" "p < 2 ^ 31" using assms(1) f by (auto simp: files_ok_def)
qed

lemma cursors_None: "cursors g fd = None \<longleftrightarrow> \<not> open_fd fd g"
  by (simp add: cursors_def)

lemma free_fd_cursors:
  assumes "files_ok g"
  shows "free_fd (cursors g) = map_option (\<lambda>i. int i + 3) (find (\<lambda>i. \<not> gf_used (g_files g ! i)) [0..<MAX_FILES])"
proof -
  have "find P (map f xs) = map_option f (find (P \<circ> f) xs)" for P :: "int \<Rightarrow> bool" and f :: "nat \<Rightarrow> int" and xs
    by (induction xs) auto
  moreover have "find ((\<lambda>fd. cursors g fd = None) \<circ> (\<lambda>i. int i + 3)) [0..<MAX_FILES] =
      find (\<lambda>i. \<not> gf_used (g_files g ! i)) [0..<MAX_FILES]"
    by (rule find_cong) (auto simp: cursors_None open_fd_def file_at_def)
  ultimately show ?thesis by (simp add: free_fd_def MAX_FILES_def)
qed

section \<open>The code implements the cursors\<close>

text \<open>One lemma for each call: the answers agree, and so do the states.\<close>

definition simulates :: "u8 list \<Rightarrow> guest_op \<Rightarrow> guest \<Rightarrow> bool" where
  "simulates wad x g \<longleftrightarrow> fst (guest_step wad x g) = fst (spec_step wad x (cursors g)) \<and>
     cursors (snd (guest_step wad x g)) = snd (spec_step wad x (cursors g)) \<and> files_ok (snd (guest_step wad x g))"

lemma find_less: "find P [0..<n] = Some i \<Longrightarrow> i < n \<and> P i"
  by (auto simp: find_Some_iff)

lemma simulates_open:
  assumes "files_ok g"
  shows "simulates wad (Open path fl) g"
proof (cases "is_wad path \<and> fl_mode fl = Read_Only \<and> \<not> fl_creat fl \<and> \<not> fl_trunc fl")
  case False
  then show ?thesis using assms by (auto simp: simulates_def guest_open_def is_wad_def answer_def)
next
  case True
  note free = free_fd_cursors [OF assms]
  show ?thesis
  proof (cases "find (\<lambda>i. \<not> gf_used (g_files g ! i)) [0..<MAX_FILES]")
    case None
    then show ?thesis using True free assms by (auto simp: simulates_def guest_open_def is_wad_def answer_def)
  next
    case (Some i)
    then have i: "int i + 3 < 3 + int MAX_FILES" using find_less by fastforce
    have "cursors (set_file (int i + 3) \<lparr>gf_used = True, gf_position = 0\<rparr> g) = (cursors g)(int i + 3 \<mapsto> 0)"
      using cursors_set_file [OF assms _ i] by simp
    moreover have "files_ok (set_file (int i + 3) \<lparr>gf_used = True, gf_position = 0\<rparr> g)"
      using files_ok_set_file [OF assms] by simp
    ultimately show ?thesis using Some True free
      by (auto simp: simulates_def guest_open_def is_wad_def answer_def)
  qed
qed

lemma valid_fd_cursors:
  "valid_fd fd g = (if cursors g fd = None then (False, fail_with EBADF g) else (True, g))"
  by (simp add: valid_fd_def cursors_None)

lemma simulates_close:
  assumes "files_ok g"
  shows "simulates wad (Close fd) g"
proof (cases "cursors g fd")
  case None
  then show ?thesis using assms by (simp add: simulates_def guest_close_def valid_fd_cursors answer_def)
next
  case (Some p)
  note c = cursors_Some [OF assms Some]
  show ?thesis
    using Some assms c files_ok_set_file [OF assms]
    by (simp add: simulates_def guest_close_def valid_fd_cursors answer_def cursors_set_file)
qed

lemma simulates_fstat:
  assumes "files_ok g"
  shows "simulates wad (Fstat fd) g"
  using assms by (simp add: simulates_def guest_fstat_def valid_fd_cursors answer_def spec_stat_def wad_size_def)

lemma simulates_lseek:
  assumes "files_ok g" "length wad < 2 ^ 31"
  shows "simulates wad (Lseek fd off w) g"
proof (cases "cursors g fd")
  case None
  then show ?thesis using assms by (simp add: simulates_def guest_lseek_def valid_fd_cursors answer_def)
next
  case (Some p)
  note c = cursors_Some [OF assms(1) Some]
  have size: "uint (wad_size wad) = int (length wad)"
    using assms(2) by (simp add: wad_size_def uint_nat unsigned_of_nat take_bit_nat_eq_self)
  have "files_ok (set_file fd \<lparr>gf_used = True, gf_position = q\<rparr> g)" if "0 \<le> q" "q < 2 ^ 31" for q
    using files_ok_set_file [OF assms(1)] that by simp
  moreover have "cursors (set_file fd \<lparr>gf_used = True, gf_position = q\<rparr> g) = (cursors g)(fd \<mapsto> q)" for q
    using cursors_set_file [OF assms(1) c(3,4)] by simp
  ultimately show ?thesis using Some assms(1) c(2)
    by (cases w) (auto simp: simulates_def guest_lseek_def valid_fd_cursors answer_def size Let_def add.commute)
qed

lemma simulates_read:
  assumes "files_ok g" "length wad < 2 ^ 31"
  shows "simulates wad (Read fd n) g"
proof (cases "cursors g fd")
  case None
  then show ?thesis using assms by (simp add: simulates_def guest_read_def valid_fd_cursors answer_def)
next
  case (Some p)
  note c = cursors_Some [OF assms(1) Some]
  define pos where "pos = (word_of_int p :: u32)"
  define k where "k = min n (if pos < wad_size wad then wad_size wad - pos else 0)"
  have up: "unat pos = nat p" using c(5,6) by (simp add: pos_def unat_eq_nat_uint uint_word_of_int_eq take_bit_int_eq_self)
  have us: "unat (wad_size wad) = length wad"
    using assms(2) by (simp add: wad_size_def unsigned_of_nat take_bit_nat_eq_self)
  have uk: "unat k = min (unat n) (length wad - nat p)"
  proof (cases "pos < wad_size wad")
    case True
    then have "unat (wad_size wad - pos) = length wad - nat p" by (simp add: unat_sub up us)
    then show ?thesis using True by (simp add: k_def min_def word_le_nat_alt)
  next
    case False
    then have "length wad - nat p = 0" using up us by (simp add: word_less_nat_alt)
    then show ?thesis using False by (simp add: k_def)
  qed
  let ?bs = "take (unat n) (drop (nat p) wad)"
  have len: "length ?bs = unat k" using uk by simp
  have lk: "unat k < 2 ^ 31" using uk assms(2) by simp
  have "int (unat k) < 2 ^ 31" using lk by (simp only: of_nat_less_numeral_power_cancel_iff)
  then have "0 \<le> uint k" "uint k < 2 ^ 31" by simp_all
  then have "signed_take_bit 31 (uint k) = uint k" by (intro signed_take_bit_int_eq_self) (simp_all add: order_trans [of _ 0])
  then have sk: "sint k = int (unat k)" by (simp add: sint_uint)
  have bs: "take (unat k) (drop (unat pos) wad) = ?bs" by (simp add: uk up min_def)
  have q: "0 \<le> p + int (unat k)" "p + int (unat k) < 2 ^ 31"
    using c(5,6) uk assms(2) by auto
  have "files_ok (set_file fd \<lparr>gf_used = True, gf_position = p + int (unat k)\<rparr> g)"
    using files_ok_set_file [OF assms(1)] q by simp
  moreover have "cursors (set_file fd \<lparr>gf_used = True, gf_position = p + int (unat k)\<rparr> g) =
      (cursors g)(fd \<mapsto> p + int (unat k))"
    using cursors_set_file [OF assms(1) c(3,4)] by simp
  moreover have "guest_read wad fd n g = (sint k, take (unat k) (drop (unat pos) wad),
      set_file fd ((file_at fd g)\<lparr>gf_position := gf_position (file_at fd g) + uint k\<rparr>) g)"
    using Some by (simp add: guest_read_def valid_fd_cursors Let_def k_def pos_def c(2))
  moreover have "uint k = int (min (length wad - nat p) (unat n))"
    using arg_cong [OF uk, of int] by (simp add: min.commute)
  ultimately show ?thesis using Some by (simp add: simulates_def answer_def Let_def sk bs c(2))
qed

lemma simulates_stat:
  assumes "files_ok g" "length wad < 2 ^ 31"
  shows "simulates wad (Stat path) g"
proof -
  let ?fl = "\<lparr>fl_mode = Read_Only, fl_creat = False, fl_trunc = False\<rparr>"
  note o = simulates_open [OF assms(1), of wad path ?fl]
  obtain fd h where h: "guest_open path ?fl g = (fd, h)" by fastforce
  show ?thesis
  proof (cases "path \<in> {''game.wad'', ''./game.wad''} \<and> free_fd (cursors g) \<noteq> None")
    case False
    then have "fd = - 1" using h free_fd_cursors [OF assms(1)]
      by (auto simp: guest_open_def is_wad_def split: if_splits option.splits)
    then show ?thesis using False o h by (auto simp: simulates_def stat_path_def answer_def split: if_splits)
  next
    case True
    then obtain x where x: "free_fd (cursors g) = Some x" by blast
    have "x \<in> {3..<11} \<and> cursors g x = None"
      using x by (auto simp: free_fd_def find_Some_iff)
    moreover have fd: "fd = x" "cursors h = (cursors g)(x \<mapsto> 0)" "files_ok h"
      using o h True x calculation by (auto simp: simulates_def answer_def split: if_splits)
    ultimately have x3: "\<not> x < 0" "cursors g x = None" and h': "cursors h = (cursors g)(x \<mapsto> 0)" "files_ok h" "fd = x"
      by simp_all
    have "guest_fstat wad x h = (0, Some (spec_stat wad), h)"
      using h'(1) by (simp add: guest_fstat_def valid_fd_cursors spec_stat_def wad_size_def)
    then have st: "stat_path wad path g = (0, Some (spec_stat wad), snd (guest_close x h))"
      using h h'(3) x3(1) by (simp add: stat_path_def)
    have "cursors (snd (guest_close x h)) = (cursors h)(x := None)" "files_ok (snd (guest_close x h))"
      using simulates_close [OF h'(2), of wad x] h'(1) by (simp_all add: simulates_def case_prod_beta Let_def)
    moreover have "(cursors h)(x := None) = cursors g" using h'(1) x3(2) by (simp add: fun_upd_idem)
    ultimately show ?thesis using True x by (simp add: simulates_def st answer_def)
  qed
qed

lemma guest_run_spec:
  "files_ok g \<Longrightarrow> length wad < 2 ^ 31 \<Longrightarrow> guest_run wad xs g = spec_run wad xs (cursors g)"
proof (induction xs arbitrary: g)
  case (Cons x xs)
  note ok = Cons.prems
  have "simulates wad x g"
    by (cases x) (simp_all only: simulates_open [OF ok(1)] simulates_close [OF ok(1)] simulates_read [OF ok]
      simulates_lseek [OF ok] simulates_fstat [OF ok(1)] simulates_stat [OF ok])
  then show ?case using Cons by (simp add: simulates_def case_prod_beta Let_def)
qed simp

text \<open>
  C32. The table of eight files implements independent cursors.  For every sequence of calls on a
  fresh guest, the answers, bytes and errors included, are those of the specification: an open gives
  the lowest free descriptor a cursor at 0, a read moves its own cursor over the bytes it returns and
  no other, a seek is rejected beyond 31 bits, and a call on a closed descriptor fails.
\<close>

theorem files_implement_cursors:
  assumes "length wad < 2 ^ 31"
  shows "guest_run wad xs guest_start = spec_run wad xs Map.empty"
proof -
  have "files_ok guest_start" by (simp add: files_ok_def guest_start_def MAX_FILES_def)
  moreover have "cursors guest_start = Map.empty"
    by (auto simp: cursors_def open_fd_def file_at_def guest_start_def MAX_FILES_def)
  ultimately show ?thesis using guest_run_spec [of guest_start wad xs] assms by simp
qed

theorem files_implement_cursors_witness:
  "guest_run [7, 8, 9] [Open ''game.wad'' \<lparr>fl_mode = Read_Only, fl_creat = False, fl_trunc = False\<rparr>,
       Read 3 2, Read 3 2, Read 4 1] guest_start =
     [Done 3 [] None, Done 2 [7, 8] None, Done 1 [9] None, Failed (Some EBADF)]"
proof -
  have "free_fd Map.empty = Some 3" by (simp add: free_fd_def upt_rec)
  then show ?thesis by (subst files_implement_cursors) (simp_all add: Let_def)
qed

section \<open>The bulk reader is a seek and a read\<close>

text \<open>
  Reading through \<^verbatim>\<open>wad_file_class_t\<close> gives the bytes that \<^verbatim>\<open>lseek\<close> and \<^verbatim>\<open>read\<close> on any open descriptor give.
\<close>

lemma wad_read_is_read:
  assumes "wad_open wad path = Some n" "length wad < 2 ^ 31" "unat off < 2 ^ 31" "m fd = Some p"
  shows "spec_run wad [Lseek fd (int (unat off)) SEEK_SET, Read fd k] m =
    [Done (int (unat off)) [] None,
     Done (int (unat (fst (wad_read wad n off k)))) (snd (wad_read wad n off k)) None]"
proof -
  have n: "unat n = length wad"
    using assms(1,2) by (auto simp: wad_open_def unsigned_of_nat take_bit_nat_eq_self split: if_splits)
  define bs where "bs = take (unat k) (drop (unat off) wad)"
  have "unat (fst (wad_read wad n off k)) = length bs \<and> snd (wad_read wad n off k) = bs"
  proof (cases "n \<le> off")
    case True
    then show ?thesis by (simp add: wad_read_def bs_def word_le_nat_alt n)
  next
    case False
    then have o: "unat (n - off) = length wad - unat off" by (simp add: unat_sub n)
    then have c: "n - off < k \<longleftrightarrow> length wad - unat off < unat k" by (simp add: word_less_nat_alt)
    show ?thesis using False by (cases "n - off < k") (simp_all add: wad_read_def bs_def Let_def o c not_less)
  qed
  moreover have "int (unat off) < 2 ^ 31" using assms(3) by (simp only: of_nat_less_numeral_power_cancel_iff)
  ultimately show ?thesis using assms(4) by (simp add: bs_def Let_def)
qed

section \<open>The heap\<close>

primrec sbrk_run :: "u32 \<Rightarrow> u32 \<Rightarrow> u32 list \<Rightarrow> guest \<Rightarrow> (u32 \<times> u32) list" where
  "sbrk_run s e [] g = []"
| "sbrk_run s e (n # ns) g =
     (let (r, g) = sbrk s e n g in (case r of None \<Rightarrow> [] | Some p \<Rightarrow> [(p, n)]) @ sbrk_run s e ns g)"

text \<open>
  The blocks of successive calls lie in the heap and do not overlap, in the order of the calls; a call
  that would leave the heap, or give memory back, fails and changes nothing.
\<close>

lemma sbrk_cases:
  assumes "s \<noteq> 0" "s \<le> t" "t \<le> e" "t = (if g_top g = 0 then s else g_top g)"
  shows "if n <s 0 \<or> unat e < unat t + unat n
    then sbrk s e n g = (None, g\<lparr>g_top := t, g_errno := Some ENOMEM\<rparr>)
    else sbrk s e n g = (Some t, g\<lparr>g_top := t + n\<rparr>) \<and> unat (t + n) = unat t + unat n \<and> t + n \<le> e"
proof -
  have d: "unat (e - t) = unat e - unat t" using assms(3) by (simp add: unat_sub)
  have t: "unat t \<le> unat e" using assms(3) by (simp add: word_le_nat_alt)
  have c: "e - t < n \<longleftrightarrow> unat e < unat t + unat n" using t by (auto simp: word_less_nat_alt d)
  have "unat (t + n) = unat t + unat n" if "\<not> unat e < unat t + unat n"
  proof -
    have "unat e < 2 ^ LENGTH(32)" by (rule unsigned_less)
    then show ?thesis using that by (simp add: unat_word_ariths)
  qed
  then show ?thesis using c assms(4) by (auto simp: sbrk_def Let_def fail_with_def word_le_nat_alt)
qed

lemma sbrk_run_blocks:
  assumes "s \<noteq> 0" "s \<le> t" "t \<le> e" "t = (if g_top g = 0 then s else g_top g)"
  shows "(\<forall>(p, n) \<in> set (sbrk_run s e ns g). unat t \<le> unat p \<and> unat p + unat n \<le> unat e) \<and>
    sorted_wrt (\<lambda>(p, n) (q, k). unat p + unat n \<le> unat q) (sbrk_run s e ns g)"
  using assms
proof (induction ns arbitrary: g t)
  case (Cons n ns)
  note c = sbrk_cases [OF Cons.prems, of n]
  have t0: "t \<noteq> 0" using Cons.prems(1,2) by auto
  show ?case
  proof (cases "n <s 0 \<or> unat e < unat t + unat n")
    case True
    then have r: "sbrk s e n g = (None, g\<lparr>g_top := t, g_errno := Some ENOMEM\<rparr>)" using c by simp
    have "t = (if g_top (g\<lparr>g_top := t, g_errno := Some ENOMEM\<rparr>) = 0 then s
        else g_top (g\<lparr>g_top := t, g_errno := Some ENOMEM\<rparr>))" using t0 by simp
    from Cons.IH [OF Cons.prems(1-3) this] show ?thesis by (simp add: r)
  next
    case False
    then have r: "sbrk s e n g = (Some t, g\<lparr>g_top := t + n\<rparr>)" "unat (t + n) = unat t + unat n" "t + n \<le> e"
      using c by auto
    have "t \<le> t + n" using r(2) by (simp add: word_le_nat_alt)
    then have "s \<le> t + n" "t + n \<noteq> 0" using Cons.prems(1,2) by auto
    moreover from this have "t + n = (if g_top (g\<lparr>g_top := t + n\<rparr>) = 0 then s else g_top (g\<lparr>g_top := t + n\<rparr>))" by simp
    ultimately show ?thesis using Cons.IH [OF Cons.prems(1) _ r(3), of "g\<lparr>g_top := t + n\<rparr>"] r
      by (auto simp: word_le_nat_alt)
  qed
qed simp

end
