(* ===== verification/Guest_Code.thy ===== *)
theory Guest_Code
  imports Flat_Memory Execute
begin

text \<open>
  Routines of the guest programs that replace library code: the fixed-point division of
  \<^verbatim>\<open>doom/fixed.c\<close> and the word-at-a-time \<^verbatim>\<open>memcpy\<close> and \<^verbatim>\<open>memset\<close> of \<^verbatim>\<open>doom/memops.c\<close>, with the
  byte loops of \<^verbatim>\<open>cdemo/runtime.c\<close> as their reference.  They run on the simulated machine: an access
  goes to the flat memory and traps when it is out of range or a word access is not aligned.
\<close>

section \<open>Fixed-point division\<close>

text \<open>\<^verbatim>\<open>abs(INT_MIN)\<close> is undefined in C and \<open>None\<close> here.\<close>

definition FixedDiv :: "u32 \<Rightarrow> u32 \<Rightarrow> u32 option" where
  "FixedDiv a b =
     (if sint a = - (2 ^ 31) \<or> sint b = - (2 ^ 31) then None
      else if \<bar>sint b\<bar> \<le> \<bar>sint a\<bar> div 2 ^ 14 then Some (if (a XOR b) <s 0 then 0x80000000 else 0x7FFFFFFF)
      else let ua = (if a <s 0 then 0 - a else a); ub = (if b <s 0 then 0 - b else b);
               q = (if ub \<le> 0xFFFF
                    then let whole = ua div ub; rest = ua - whole * ub
                         in push_bit 16 whole + push_bit 16 rest div ub
                    else ucast (push_bit 16 (ucast ua :: u64) div ucast ub))
           in Some (if (a XOR b) <s 0 then 0 - q else q))"

lemma unat_abs:
  assumes "sint (a :: u32) \<noteq> - (2 ^ 31)"
  shows "int (unat (if a <s 0 then 0 - a else a)) = \<bar>sint a\<bar>"
proof -
  have a: "a = word_of_int (sint a)" "0 - a = word_of_int (- sint a)" by simp_all
  have u: "uint a = sint a mod 2 ^ 32" by (simp add: uint_sint take_bit_eq_mod)
  have v: "uint (0 - a) = (- sint a) mod 2 ^ 32" by (subst a(2)) (subst uint_word_of_int, simp)
  show ?thesis using u v assms sint_range32 [of a] by (auto simp: word_sless_alt)
qed

text \<open>
  The comment of the code: where the result is not saturated it is bit-identical to the 64-bit
  quotient.  The quotient even fits, so nothing is truncated; and no divisor is zero.
\<close>

lemma quotient_split:
  fixes A B :: nat
  assumes "0 < B"
  shows "(A div B) * 2 ^ 16 + (A mod B) * 2 ^ 16 div B = A * 2 ^ 16 div B"
proof -
  have "A * 2 ^ 16 = (A div B * 2 ^ 16) * B + (A mod B) * 2 ^ 16"
    by (metis add_mult_distrib div_mult_mod_eq mult.commute mult.left_commute)
  then show ?thesis using assms by simp
qed

lemma quotient_bound:
  fixes A B :: nat
  assumes "A div 2 ^ 14 < B"
  shows "A * 2 ^ 16 div B < 2 ^ 30"
proof -
  have "A < (A div 2 ^ 14 + 1) * 2 ^ 14"
    using div_mult_mod_eq [of A "2 ^ 14"] mod_less_divisor [of "2 ^ 14" A] by simp
  also have "\<dots> \<le> B * 2 ^ 14" using assms by simp
  finally have "A * 2 ^ 16 < 2 ^ 30 * B" by simp
  then show ?thesis using assms by (intro less_mult_imp_div_less) (simp add: mult.commute)
qed

lemma unat_push_bit32: "unat (w :: u32) * 2 ^ n < 2 ^ 32 \<Longrightarrow> unat (push_bit n w) = unat w * 2 ^ n"
  by (subst unsigned_push_bit_eq) (simp add: push_bit_eq_mult take_bit_nat_eq_self)

lemma quotient_word:
  fixes ua ub :: u32
  assumes "unat ua div 2 ^ 14 < unat ub"
  shows "unat (if ub \<le> 0xFFFF
      then let whole = ua div ub; rest = ua - whole * ub in push_bit 16 whole + push_bit 16 rest div ub
      else ucast (push_bit 16 (ucast ua :: u64) div ucast ub)) = unat ua * 2 ^ 16 div unat ub"
proof -
  define A B where "A = unat ua" and "B = unat ub"
  have B: "0 < B" "A div 2 ^ 14 < B" using assms by (simp_all add: A_def B_def)
  note bound = quotient_bound [OF B(2)]
  show ?thesis
  proof (cases "ub \<le> 0xFFFF")
    case True
    have b16: "B \<le> 2 ^ 16 - 1" using True by (simp add: B_def word_le_nat_alt)
    have whole: "unat (ua div ub) = A div B" by (simp add: unat_div A_def B_def)
    have "ua - ua div ub * ub = ua mod ub" by (simp add: minus_div_mult_eq_mod)
    then have rest: "unat (ua - ua div ub * ub) = A mod B" by (simp add: unat_mod A_def B_def)
    have "A div B < 2 ^ 14"
    proof -
      have "A div B * 2 ^ 16 \<le> A * 2 ^ 16 div B" using quotient_split [OF B(1), of A] by linarith
      then show ?thesis using bound by simp
    qed
    then have p1: "unat (push_bit 16 (ua div ub)) = A div B * 2 ^ 16"
      using unat_push_bit32 [of "ua div ub" 16] by (simp only: whole) simp
    have "A mod B < 2 ^ 16 - 1" using B(1) b16 mod_less_divisor [of B A] by linarith
    then have p2: "unat (push_bit 16 (ua - ua div ub * ub)) = A mod B * 2 ^ 16"
      using unat_push_bit32 [of "ua - ua div ub * ub" 16] by (simp only: rest) simp
    then have "unat (push_bit 16 (ua - ua div ub * ub) div ub) = A mod B * 2 ^ 16 div B"
      by (simp add: unat_div B_def)
    then have "unat (push_bit 16 (ua div ub) + push_bit 16 (ua - ua div ub * ub) div ub) = A * 2 ^ 16 div B"
      using p1 quotient_split [OF B(1), of A] bound by (subst unat_add_small32) simp_all
    then show ?thesis using True by (simp add: A_def B_def Let_def)
  next
    case False
    have lt: "A < 2 ^ 32" unfolding A_def using unsigned_less [of ua] by simp
    have u: "unat (ucast ua :: u64) = A" "unat (ucast ub :: u64) = B"
      using unat_less_pow32 [of ua] unat_less_pow32 [of ub]
      by (simp_all add: unsigned_ucast_eq take_bit_nat_eq_self A_def B_def)
    have "unat (push_bit 16 (ucast ua :: u64)) = A * 2 ^ 16"
      using lt by (simp add: push_bit_eq_mult unat_word_ariths(2) u)
    then have "unat (push_bit 16 (ucast ua :: u64) div ucast ub) = A * 2 ^ 16 div B" by (simp add: unat_div u)
    then have "unat (ucast (push_bit 16 (ucast ua :: u64) div ucast ub) :: u32) = A * 2 ^ 16 div B"
      using bound by (simp add: unsigned_ucast_eq take_bit_nat_eq_self)
    then show ?thesis using False by (simp add: A_def B_def)
  qed
qed

lemma sign_xor: "(a XOR b) <s 0 \<longleftrightarrow> (sint (a :: u32) < 0) \<noteq> (sint (b :: u32) < 0)"
  by (simp add: word_sless_alt bit_last_iff [symmetric] bit_xor_iff)

text \<open>
  C34. Fixed-point division is exact.  It is defined for every pair of operands but the most negative
  ones, never divides by zero, saturates with the sign of the quotient where the quotient needs
  30 bits or more, and otherwise returns the quotient of \<^verbatim>\<open>(int64_t)a << 16\<close> by \<^verbatim>\<open>b\<close>, rounded
  towards zero, with nothing truncated.
\<close>

theorem FixedDiv_exact:
  assumes "sint a \<noteq> - (2 ^ 31)" "sint b \<noteq> - (2 ^ 31)"
  shows "\<exists>q. FixedDiv a b = Some q \<and>
    (if \<bar>sint b\<bar> \<le> \<bar>sint a\<bar> div 2 ^ 14
     then sint q = (if (sint a < 0) \<noteq> (sint b < 0) then - (2 ^ 31) else 2 ^ 31 - 1)
     else sint b \<noteq> 0 \<and> sint q = (sint a * 2 ^ 16) sdiv sint b \<and> \<bar>sint q\<bar> < 2 ^ 30)"
proof (cases "\<bar>sint b\<bar> \<le> \<bar>sint a\<bar> div 2 ^ 14")
  case True
  then show ?thesis using assms by (simp add: FixedDiv_def sign_xor)
next
  case False
  define ua ub where "ua = (if a <s 0 then 0 - a else a)" and "ub = (if b <s 0 then 0 - b else b)"
  note u = unat_abs [OF assms(1), folded ua_def] unat_abs [OF assms(2), folded ub_def]
  have "int (unat ua div 2 ^ 14) < int (unat ub)" using False by (simp only: zdiv_int u) simp
  then have lt: "unat ua div 2 ^ 14 < unat ub" by (simp only: of_nat_less_iff)
  define q where "q = (if ub \<le> 0xFFFF
      then let whole = ua div ub; rest = ua - whole * ub in push_bit 16 whole + push_bit 16 rest div ub
      else ucast (push_bit 16 (ucast ua :: u64) div ucast ub))"
  have q: "int (unat q) = \<bar>sint a\<bar> * 2 ^ 16 div \<bar>sint b\<bar>" "unat q < 2 ^ 30"
    using quotient_word [OF lt, folded q_def] quotient_bound [OF lt] by (simp_all only: zdiv_int u of_nat_mult) simp
  have r: "FixedDiv a b = Some (if (sint a < 0) \<noteq> (sint b < 0) then 0 - q else q)"
    using False assms by (simp add: FixedDiv_def sign_xor Let_def ua_def ub_def q_def)
  have b0: "sint b \<noteq> 0" using False by auto
  have "(sint a * 2 ^ 16) sdiv sint b = sgn (sint a) * sgn (sint b) * (\<bar>sint a\<bar> * 2 ^ 16 div \<bar>sint b\<bar>)"
    by (simp add: signed_divide_int_def abs_mult sgn_mult)
  moreover have "sgn (sint a) * sgn (sint b) * Q = (if (sint a < 0) \<noteq> (sint b < 0) then - Q else Q)"
    if "sint a = 0 \<longrightarrow> Q = 0" for Q :: int
    using b0 that by (auto simp: sgn_if)
  ultimately have s: "(sint a * 2 ^ 16) sdiv sint b = (if (sint a < 0) \<noteq> (sint b < 0) then - int (unat q) else int (unat q))"
    unfolding q(1) by simp
  have lt30: "int (unat q) < 2 ^ 30" using q(2) by (simp only: of_nat_less_numeral_power_cancel_iff)
  then have lt: "int (unat q) < 2 ^ 31" by (rule order_less_trans) simp
  have ge: "0 \<le> int (unat q)" by (rule of_nat_0_le_iff)
  have "sint (word_of_int (int (unat q)) :: u32) = int (unat q)"
    by (rule sint_of_int32) (use lt ge in linarith)+
  moreover have "sint (word_of_int (- int (unat q)) :: u32) = - int (unat q)"
    by (rule sint_of_int32) (use lt ge in linarith)+
  moreover have "\<bar>int (unat q)\<bar> < 2 ^ 30" using lt30 ge by linarith
  ultimately have w: "sint q = int (unat q)" "sint (0 - q) = - int (unat q)" "\<bar>int (unat q)\<bar> < 2 ^ 30"
    by simp_all
  then show ?thesis using False b0 by (simp only: r s if_False option.inject ex_simps simp_thms) auto
qed

section \<open>Access to memory\<close>

definition ld32 :: "memory \<Rightarrow> u32 \<Rightarrow> u32 result" where
  "ld32 m a = (if a AND 3 \<noteq> 0 then Inl (Misaligned a ''load'' 0) else mem_load32 m a)"

definition st32 :: "memory \<Rightarrow> u32 \<Rightarrow> u32 \<Rightarrow> memory result" where
  "st32 m a v = (if a AND 3 \<noteq> 0 then Inl (Misaligned a ''store'' 0) else mem_store m a 4 v)"

definition st8 :: "memory \<Rightarrow> u32 \<Rightarrow> u8 \<Rightarrow> memory result" where
  "st8 m a b = mem_store m a 1 (ucast b)"

section \<open>memcpy and memset\<close>

text \<open>
  A cursor is the memory, the two pointers and the count that is left; the loops only subtract what
  they have compared, so the count is a natural number.
\<close>

definition copy8 :: "memory \<Rightarrow> u32 \<Rightarrow> u32 \<Rightarrow> memory result" where
  "copy8 m out inp = bind_result (mem_load8 m inp) (st8 m out)"

definition copy32 :: "memory \<Rightarrow> u32 \<Rightarrow> u32 \<Rightarrow> memory result" where
  "copy32 m out inp = bind_result (ld32 m inp) (st32 m out)"

definition copy128 :: "memory \<Rightarrow> u32 \<Rightarrow> u32 \<Rightarrow> memory result" where
  "copy128 m wo wi =
     bind_result (ld32 m wi) (\<lambda>a. bind_result (ld32 m (wi + 4)) (\<lambda>b.
     bind_result (ld32 m (wi + 8)) (\<lambda>c. bind_result (ld32 m (wi + 12)) (\<lambda>d.
     bind_result (st32 m wo a) (\<lambda>m. bind_result (st32 m (wo + 4) b) (\<lambda>m.
     bind_result (st32 m (wo + 8) c) (\<lambda>m. st32 m (wo + 12) d)))))))"

type_synonym cursor = "memory \<times> u32 \<times> u32 \<times> nat"

primrec copy_bytes :: "nat \<Rightarrow> memory \<Rightarrow> u32 \<Rightarrow> u32 \<Rightarrow> memory result" where
  "copy_bytes 0 m out inp = Inr m"
| "copy_bytes (Suc n) m out inp = bind_result (copy8 m out inp) (\<lambda>m. copy_bytes n m (out + 1) (inp + 1))"

primrec copy_head :: "nat \<Rightarrow> memory \<Rightarrow> u32 \<Rightarrow> u32 \<Rightarrow> cursor result" where
  "copy_head 0 m out inp = Inr (m, out, inp, 0)"
| "copy_head (Suc n) m out inp =
     (if out AND 3 = 0 then Inr (m, out, inp, Suc n)
      else bind_result (copy8 m out inp) (\<lambda>m. copy_head n m (out + 1) (inp + 1)))"

fun copy_blocks :: "nat \<Rightarrow> memory \<Rightarrow> u32 \<Rightarrow> u32 \<Rightarrow> cursor result" where
  "copy_blocks n m wo wi =
     (if n < 16 then Inr (m, wo, wi, n)
      else bind_result (copy128 m wo wi) (\<lambda>m. copy_blocks (n - 16) m (wo + 16) (wi + 16)))"

fun copy_words :: "nat \<Rightarrow> memory \<Rightarrow> u32 \<Rightarrow> u32 \<Rightarrow> cursor result" where
  "copy_words n m wo wi =
     (if n < 4 then Inr (m, wo, wi, n)
      else bind_result (copy32 m wo wi) (\<lambda>m. copy_words (n - 4) m (wo + 4) (wi + 4)))"

declare copy_blocks.simps [simp del] copy_words.simps [simp del]

definition memcpy :: "memory \<Rightarrow> u32 \<Rightarrow> u32 \<Rightarrow> u32 \<Rightarrow> memory result" where
  "memcpy m out inp count =
     bind_result
       (if (out XOR inp) AND 3 = 0
        then bind_result (copy_head (unat count) m out inp) (\<lambda>(m, out, inp, n).
             bind_result (copy_blocks n m out inp) (\<lambda>(m, out, inp, n). copy_words n m out inp))
        else Inr (m, out, inp, unat count))
       (\<lambda>(m, out, inp, n). copy_bytes n m out inp)"

text \<open>The byte loop of \<^verbatim>\<open>cdemo/runtime.c\<close>, from index \<open>i\<close> on.\<close>

primrec demo_copy :: "nat \<Rightarrow> nat \<Rightarrow> memory \<Rightarrow> u32 \<Rightarrow> u32 \<Rightarrow> memory result" where
  "demo_copy 0 i m out inp = Inr m"
| "demo_copy (Suc n) i m out inp =
     bind_result (copy8 m (out + word_of_nat i) (inp + word_of_nat i)) (\<lambda>m. demo_copy n (Suc i) m out inp)"

definition demo_memcpy :: "memory \<Rightarrow> u32 \<Rightarrow> u32 \<Rightarrow> u32 \<Rightarrow> memory result" where
  "demo_memcpy m out inp count = demo_copy (unat count) 0 m out inp"

text \<open>The loops of \<^verbatim>\<open>memset\<close>, and the byte loop of \<^verbatim>\<open>cdemo/runtime.c\<close>.\<close>

primrec set_bytes :: "u8 \<Rightarrow> nat \<Rightarrow> memory \<Rightarrow> u32 \<Rightarrow> memory result" where
  "set_bytes b 0 m out = Inr m"
| "set_bytes b (Suc n) m out = bind_result (st8 m out b) (\<lambda>m. set_bytes b n m (out + 1))"

primrec set_head :: "u8 \<Rightarrow> nat \<Rightarrow> memory \<Rightarrow> u32 \<Rightarrow> (memory \<times> u32 \<times> nat) result" where
  "set_head b 0 m out = Inr (m, out, 0)"
| "set_head b (Suc n) m out =
     (if out AND 3 = 0 then Inr (m, out, Suc n)
      else bind_result (st8 m out b) (\<lambda>m. set_head b n m (out + 1)))"

fun set_blocks :: "u32 \<Rightarrow> nat \<Rightarrow> memory \<Rightarrow> u32 \<Rightarrow> (memory \<times> u32 \<times> nat) result" where
  "set_blocks p n m w =
     (if n < 16 then Inr (m, w, n)
      else bind_result (st32 m w p) (\<lambda>m. bind_result (st32 m (w + 4) p) (\<lambda>m.
           bind_result (st32 m (w + 8) p) (\<lambda>m. bind_result (st32 m (w + 12) p) (\<lambda>m.
           set_blocks p (n - 16) m (w + 16))))))"

fun set_words :: "u32 \<Rightarrow> nat \<Rightarrow> memory \<Rightarrow> u32 \<Rightarrow> (memory \<times> u32 \<times> nat) result" where
  "set_words p n m w =
     (if n < 4 then Inr (m, w, n) else bind_result (st32 m w p) (\<lambda>m. set_words p (n - 4) m (w + 4)))"

declare set_blocks.simps [simp del] set_words.simps [simp del]

definition memset :: "memory \<Rightarrow> u32 \<Rightarrow> u32 \<Rightarrow> u32 \<Rightarrow> memory result" where
  "memset m out v count =
     (let b = ucast v; pattern = ucast b * 0x01010101 in
      bind_result (set_head b (unat count) m out) (\<lambda>(m, out, n).
      bind_result (set_blocks pattern n m out) (\<lambda>(m, out, n).
      bind_result (set_words pattern n m out) (\<lambda>(m, out, n). set_bytes b n m out))))"

primrec demo_set :: "u8 \<Rightarrow> nat \<Rightarrow> nat \<Rightarrow> memory \<Rightarrow> u32 \<Rightarrow> memory result" where
  "demo_set b 0 i m out = Inr m"
| "demo_set b (Suc n) i m out = bind_result (st8 m (out + word_of_nat i) b) (\<lambda>m. demo_set b n (Suc i) m out)"

definition demo_memset :: "memory \<Rightarrow> u32 \<Rightarrow> u32 \<Rightarrow> u32 \<Rightarrow> memory result" where
  "demo_memset m out v count = demo_set (ucast v) (unat count) 0 m out"

section \<open>Both copies are one block copy\<close>

text \<open>
  The bytes after \<open>k\<close> bytes of a block at \<open>d\<close> have been written with the values \<open>f\<close>, and what a byte or
  a word store adds.
\<close>

definition written :: "u8 list \<Rightarrow> nat \<Rightarrow> (nat \<Rightarrow> u8) \<Rightarrow> nat \<Rightarrow> u8 list" where
  "written bs d f k = map (\<lambda>i. if d \<le> i \<and> i < d + k then f (i - d) else bs ! i) [0..<length bs]"

lemma length_written [simp]: "length (written bs d f k) = length bs"
  by (simp add: written_def)

lemma nth_written:
  "i < length bs \<Longrightarrow> written bs d f k ! i = (if d \<le> i \<and> i < d + k then f (i - d) else bs ! i)"
  by (simp add: written_def)

lemma written_0 [simp]: "written bs d f 0 = bs"
  by (rule nth_equalityI) (auto simp: nth_written)

lemma store_written:
  assumes "unat a = d + k" "d + k + n \<le> length bs" "length bs \<le> 2 ^ 32" "\<And>j. j < n \<Longrightarrow> ucast (drop_bit (8 * j) v) = f (k + j)"
  shows "store_bytes (written bs d f k) a n v = written bs d f (k + n)"
proof (rule nth_equalityI)
  fix i
  assume "i < length (store_bytes (written bs d f k) a n v)"
  then have i: "i < length bs" by simp
  have j: "ucast (drop_bit (8 * (i - (d + k))) v) = f (i - d)" if "d + k \<le> i" "i < d + k + n"
    using assms(4) [of "i - (d + k)"] that by simp
  show "store_bytes (written bs d f k) a n v ! i = written bs d f (k + n) ! i"
    using assms(1-3) i j by (subst nth_store_bytes) (auto simp: nth_written)
qed simp

definition alig :: "u32 \<Rightarrow> bool" where
  "alig a \<longleftrightarrow> a AND 3 = 0"

lemma alig_mod: "alig a \<longleftrightarrow> unat a mod 4 = 0"
proof -
  have "a AND 3 = take_bit 2 a" by (simp add: take_bit_eq_mask mask_eq_exp_minus_1)
  moreover have "unat (take_bit 2 a) = unat a mod 4" by (subst unsigned_take_bit_eq) (simp add: take_bit_eq_mod)
  ultimately show ?thesis unfolding alig_def by (metis unat_eq_zero)
qed

lemma unat_add_mod4: "unat (a + b :: u32) mod 4 = (unat a + unat b) mod 4"
proof -
  have "(4 :: nat) dvd 2 ^ 32" by simp
  then show ?thesis by (simp add: unat_word_ariths mod_mod_cancel)
qed

lemma alig_add4: "alig a \<Longrightarrow> unat b mod 4 = 0 \<Longrightarrow> alig (a + b)"
  by (simp add: alig_mod unat_add_mod4) (metis add_0 mod_add_eq mod_0)

text \<open>A block in memory, and one beside it.\<close>

definition room :: "u8 list \<Rightarrow> u32 \<Rightarrow> nat \<Rightarrow> bool" where
  "room bs a n \<longleftrightarrow> unat a + n \<le> length bs \<and> length bs \<le> 2 ^ 32"

lemma room_unat: "room bs a n \<Longrightarrow> k < n \<Longrightarrow> unat (a + word_of_nat k) = unat a + k"
  by (rule unat_index) (auto simp: room_def)

definition apart :: "u32 \<Rightarrow> u32 \<Rightarrow> nat \<Rightarrow> bool" where
  "apart a b n \<longleftrightarrow> unat a + n \<le> unat b \<or> unat b + n \<le> unat a"

lemma ucast_byte: "ucast (ucast (x :: u8) :: u32) = x"
  by (rule bit_word_eqI) (simp add: bit_simps)

lemma st8_written:
  assumes "room bs d n" "k < n" "f k = b"
  shows "st8 \<lparr>bytes = written bs (unat d) f k\<rparr> (d + word_of_nat k) b = Inr \<lparr>bytes = written bs (unat d) f (k + 1)\<rparr>"
proof -
  have "store_bytes (written bs (unat d) f k) (d + word_of_nat k) 1 (ucast b) = written bs (unat d) f (k + 1)"
    by (rule store_written) (use assms room_unat [OF assms(1,2)] in \<open>auto simp: room_def ucast_byte\<close>)
  then show ?thesis using assms room_unat [OF assms(1,2)] by (simp add: st8_def mem_store_Inr room_def)
qed

lemma st32_written:
  assumes "room bs d n" "k + 4 \<le> n" "alig (d + word_of_nat k)" "\<And>j. j < 4 \<Longrightarrow> ucast (drop_bit (8 * j) v) = f (k + j)"
  shows "st32 \<lparr>bytes = written bs (unat d) f k\<rparr> (d + word_of_nat k) v = Inr \<lparr>bytes = written bs (unat d) f (k + 4)\<rparr>"
proof -
  have u: "unat (d + word_of_nat k) = unat d + k" using room_unat [OF assms(1)] assms(2) by simp
  have "store_bytes (written bs (unat d) f k) (d + word_of_nat k) 4 v = written bs (unat d) f (k + 4)"
    by (rule store_written) (use assms u in \<open>auto simp: room_def\<close>)
  then show ?thesis using assms u by (simp add: st32_def mem_store_Inr room_def alig_def)
qed

text \<open>Reading the source, which the copy leaves alone.\<close>

definition source :: "u8 list \<Rightarrow> u32 \<Rightarrow> nat \<Rightarrow> u8" where
  "source bs s j = bs ! (unat s + j)"

lemma ld8_source:
  assumes "room bs s n" "apart d s n" "k < n" "j \<le> n"
  shows "mem_load8 \<lparr>bytes = written bs (unat d) f j\<rparr> (s + word_of_nat k) = Inr (source bs s k)"
proof -
  have u: "unat (s + word_of_nat k) = unat s + k" by (rule room_unat [OF assms(1,3)])
  have r: "unat s + k < length bs" using assms(1,3) by (simp add: room_def)
  have "mem_load8 \<lparr>bytes = written bs (unat d) f j\<rparr> (s + word_of_nat k) = Inr (written bs (unat d) f j ! (unat s + k))"
  proof -
    have "ucast (load_bytes cs a 1) = cs ! unat a" for cs a
      by (rule bit_word_eqI) (simp add: load_bytes_def bit_simps)
    then show ?thesis using u r by (simp add: mem_load8_def mem_load_def mem_check_def)
  qed
  then show ?thesis using assms r by (auto simp: nth_written source_def apart_def)
qed

lemma ld32_source:
  assumes "room bs s n" "apart d s n" "k + 4 \<le> n" "alig (s + word_of_nat k)" "j \<le> n"
  shows "\<exists>w. ld32 \<lparr>bytes = written bs (unat d) f j\<rparr> (s + word_of_nat k) = Inr w \<and>
    (\<forall>i < 4. ucast (drop_bit (8 * i) w) = source bs s (k + i))"
proof -
  have u: "unat (s + word_of_nat k) = unat s + k" using room_unat [OF assms(1)] assms(3) by simp
  let ?cs = "written bs (unat d) f j" and ?a = "s + word_of_nat k"
  have fit: "unat ?a + 4 \<le> 2 ^ 32" "unat ?a + 4 \<le> length bs" using assms(1,3) u by (auto simp: room_def)
  have "ucast (drop_bit (8 * i) (load_bytes ?cs ?a 4)) = ?cs ! (unat ?a + i)" if "i < 4" for i
  proof (rule bit_word_eqI)
    fix b :: nat
    assume "b < LENGTH(8)"
    then have "b < 8" "(8 * i + b) div 8 = i" "(8 * i + b) mod 8 = b" "8 * i + b < 8 * 4" using that by auto
    then show "bit (ucast (drop_bit (8 * i) (load_bytes ?cs ?a 4)) :: u8) b = bit (?cs ! (unat ?a + i)) b"
      using bit_load_bytes [OF fit(1), of ?cs "8 * i + b"] by (simp add: bit_simps)
  qed
  moreover have "?cs ! (unat ?a + i) = source bs s (k + i)" if "i < 4" for i
    using assms that u fit by (auto simp: nth_written source_def apart_def add.assoc)
  ultimately show ?thesis using assms(4) fit
    by (auto simp: ld32_def alig_def mem_load32_def mem_load_Inr)
qed

text \<open>The state of a copy after \<open>k\<close> bytes, and the steps.\<close>

definition at_copy :: "u8 list \<Rightarrow> u32 \<Rightarrow> u32 \<Rightarrow> nat \<Rightarrow> memory" where
  "at_copy bs d s k = \<lparr>bytes = written bs (unat d) (source bs s) k\<rparr>"

definition copyable :: "u8 list \<Rightarrow> u32 \<Rightarrow> u32 \<Rightarrow> nat \<Rightarrow> bool" where
  "copyable bs d s n \<longleftrightarrow> room bs d n \<and> room bs s n \<and> apart d s n"

lemma copy8_step:
  assumes "copyable bs d s n" "k < n"
  shows "copy8 (at_copy bs d s k) (d + word_of_nat k) (s + word_of_nat k) = Inr (at_copy bs d s (k + 1))"
  using assms ld8_source [of bs s n d k k "source bs s"] st8_written [of bs d n k "source bs s"]
  by (simp add: copy8_def at_copy_def copyable_def bind_result_def)

lemma copy32_step:
  assumes "copyable bs d s n" "k + 4 \<le> n" "alig (d + word_of_nat k)" "alig (s + word_of_nat k)"
  shows "copy32 (at_copy bs d s k) (d + word_of_nat k) (s + word_of_nat k) = Inr (at_copy bs d s (k + 4))"
proof -
  obtain w where "ld32 (at_copy bs d s k) (s + word_of_nat k) = Inr w"
    "\<forall>i < 4. ucast (drop_bit (8 * i) w) = source bs s (k + i)"
    using ld32_source [of bs s n d k k "source bs s"] assms by (auto simp: copyable_def at_copy_def)
  then show ?thesis using st32_written [of bs d n k w "source bs s"] assms
    by (simp add: copy32_def bind_result_def at_copy_def copyable_def)
qed

lemma plus_numeral:
  "d + word_of_nat k + 1 = d + word_of_nat (k + 1)" "d + word_of_nat k + 4 = d + word_of_nat (k + 4)"
  "d + word_of_nat k + 8 = d + word_of_nat (k + 8)" "d + word_of_nat k + 12 = d + word_of_nat (k + 12)"
  "d + word_of_nat k + 16 = d + word_of_nat (k + 16)" for d :: u32
  by (simp_all add: add.assoc)

lemma alig_steps:
  assumes "alig (d + word_of_nat k)"
  shows "alig (d + word_of_nat (k + 4))" "alig (d + word_of_nat (k + 8))" "alig (d + word_of_nat (k + 12))"
    "alig (d + word_of_nat (k + 16))"
  unfolding plus_numeral [symmetric] by (rule alig_add4 [OF assms], simp)+

lemma copy128_step:
  assumes "copyable bs d s n" "k + 16 \<le> n" "alig (d + word_of_nat k)" "alig (s + word_of_nat k)"
  shows "copy128 (at_copy bs d s k) (d + word_of_nat k) (s + word_of_nat k) = Inr (at_copy bs d s (k + 16))"
proof -
  note al = alig_steps [OF assms(3)] alig_steps [OF assms(4)]
  have ld: "\<exists>w. ld32 (at_copy bs d s k) (s + word_of_nat i) = Inr w \<and>
      (\<forall>j < 4. ucast (drop_bit (8 * j) w) = source bs s (i + j))" if "i + 4 \<le> n" "alig (s + word_of_nat i)" for i
    using ld32_source [of bs s n d i k "source bs s"] assms that by (auto simp: copyable_def at_copy_def)
  have st: "st32 (at_copy bs d s i) (d + word_of_nat i) w = Inr (at_copy bs d s (i + 4))"
    if "\<forall>j < 4. ucast (drop_bit (8 * j) w) = source bs s (i + j)" "i + 4 \<le> n" "alig (d + word_of_nat i)" for i w
    using st32_written [of bs d n i w "source bs s"] assms that by (auto simp: copyable_def at_copy_def)
  obtain a where a: "ld32 (at_copy bs d s k) (s + word_of_nat k) = Inr a"
    "\<forall>j < 4. ucast (drop_bit (8 * j) a) = source bs s (k + j)" using ld [of k] assms by auto
  obtain b where b: "ld32 (at_copy bs d s k) (s + word_of_nat (k + 4)) = Inr b"
    "\<forall>j < 4. ucast (drop_bit (8 * j) b) = source bs s (k + 4 + j)" using ld [of "k + 4"] assms al by auto
  obtain c where c: "ld32 (at_copy bs d s k) (s + word_of_nat (k + 8)) = Inr c"
    "\<forall>j < 4. ucast (drop_bit (8 * j) c) = source bs s (k + 8 + j)" using ld [of "k + 8"] assms al by auto
  obtain e where e: "ld32 (at_copy bs d s k) (s + word_of_nat (k + 12)) = Inr e"
    "\<forall>j < 4. ucast (drop_bit (8 * j) e) = source bs s (k + 12 + j)" using ld [of "k + 12"] assms al by auto
  have s1: "st32 (at_copy bs d s k) (d + word_of_nat k) a = Inr (at_copy bs d s (k + 4))"
    using st [OF a(2)] assms by simp
  have s2: "st32 (at_copy bs d s (k + 4)) (d + word_of_nat (k + 4)) b = Inr (at_copy bs d s (k + 8))"
    using st [OF b(2)] assms al by (simp add: add.assoc)
  have s3: "st32 (at_copy bs d s (k + 8)) (d + word_of_nat (k + 8)) c = Inr (at_copy bs d s (k + 12))"
    using st [OF c(2)] assms al by (simp add: add.assoc)
  have s4: "st32 (at_copy bs d s (k + 12)) (d + word_of_nat (k + 12)) e = Inr (at_copy bs d s (k + 16))"
    using st [OF e(2)] assms al by (simp add: add.assoc)
  show ?thesis
    unfolding copy128_def plus_numeral by (simp only: a(1) b(1) c(1) e(1) s1 s2 s3 s4 bind_result_def sum.case)
qed

text \<open>The loops, from byte \<open>k\<close> of \<open>n\<close> on.\<close>

lemma copy_bytes_at:
  assumes "copyable bs d s n"
  shows "k + m = n \<Longrightarrow> copy_bytes m (at_copy bs d s k) (d + word_of_nat k) (s + word_of_nat k) = Inr (at_copy bs d s n)"
proof (induction m arbitrary: k)
  case (Suc m)
  then have "copy8 (at_copy bs d s k) (d + word_of_nat k) (s + word_of_nat k) = Inr (at_copy bs d s (k + 1))"
    using copy8_step [OF assms, of k] by simp
  moreover have "copy_bytes m (at_copy bs d s (k + 1)) (d + word_of_nat (k + 1)) (s + word_of_nat (k + 1)) =
      Inr (at_copy bs d s n)"
    using Suc.IH [of "k + 1"] Suc.prems by linarith
  ultimately show ?case by (simp only: copy_bytes.simps plus_numeral bind_result_def sum.case)
qed simp

definition reaches :: "u8 list \<Rightarrow> u32 \<Rightarrow> u32 \<Rightarrow> nat \<Rightarrow> cursor result \<Rightarrow> (nat \<Rightarrow> bool) \<Rightarrow> bool" where
  "reaches bs d s n r P \<longleftrightarrow>
     (\<exists>j \<le> n. r = Inr (at_copy bs d s j, d + word_of_nat j, s + word_of_nat j, n - j) \<and> P j)"

lemma copy_head_at:
  assumes "copyable bs d s n"
  shows "k + m = n \<Longrightarrow> reaches bs d s n (copy_head m (at_copy bs d s k) (d + word_of_nat k) (s + word_of_nat k))
    (\<lambda>j. j = n \<or> alig (d + word_of_nat j))"
proof (induction m arbitrary: k)
  case 0
  then show ?case by (auto simp: reaches_def)
next
  case (Suc m)
  show ?case
  proof (cases "alig (d + word_of_nat k)")
    case True
    then show ?thesis using Suc.prems by (auto simp: reaches_def alig_def intro!: exI [of _ k])
  next
    case False
    then have "copy_head (Suc m) (at_copy bs d s k) (d + word_of_nat k) (s + word_of_nat k) =
        copy_head m (at_copy bs d s (k + 1)) (d + word_of_nat (k + 1)) (s + word_of_nat (k + 1))"
      using copy8_step [OF assms, of k] Suc.prems
      by (simp only: copy_head.simps plus_numeral alig_def if_False bind_result_def sum.case less_add_Suc1)
    moreover have "(k + 1) + m = n" using Suc.prems by simp
    ultimately show ?thesis using Suc.IH [of "k + 1"] by (simp only:)
  qed
qed

lemma copy_blocks_at:
  assumes "copyable bs d s n"
  shows "k \<le> n \<Longrightarrow> k = n \<or> (alig (d + word_of_nat k) \<and> alig (s + word_of_nat k)) \<Longrightarrow>
    reaches bs d s n (copy_blocks (n - k) (at_copy bs d s k) (d + word_of_nat k) (s + word_of_nat k))
      (\<lambda>j. j = n \<or> (alig (d + word_of_nat j) \<and> alig (s + word_of_nat j)))"
proof (induction "n - k" arbitrary: k rule: less_induct)
  case less
  show ?case
  proof (cases "n - k < 16")
    case True
    then show ?thesis using less.prems by (subst copy_blocks.simps) (auto simp: reaches_def)
  next
    case False
    then have al: "alig (d + word_of_nat k)" "alig (s + word_of_nat k)" and k: "k + 16 \<le> n" using less.prems by auto
    have "copy_blocks (n - k) (at_copy bs d s k) (d + word_of_nat k) (s + word_of_nat k) =
        copy_blocks (n - (k + 16)) (at_copy bs d s (k + 16)) (d + word_of_nat (k + 16)) (s + word_of_nat (k + 16))"
      using False copy128_step [OF assms k al]
      by (subst copy_blocks.simps) (simp only: plus_numeral if_False bind_result_def sum.case diff_diff_left)
    then show ?thesis using less.hyps [of "k + 16"] k alig_steps(4) [OF al(1)] alig_steps(4) [OF al(2)] by simp
  qed
qed

lemma copy_words_at:
  assumes "copyable bs d s n"
  shows "k \<le> n \<Longrightarrow> k = n \<or> (alig (d + word_of_nat k) \<and> alig (s + word_of_nat k)) \<Longrightarrow>
    reaches bs d s n (copy_words (n - k) (at_copy bs d s k) (d + word_of_nat k) (s + word_of_nat k)) (\<lambda>j. True)"
proof (induction "n - k" arbitrary: k rule: less_induct)
  case less
  show ?case
  proof (cases "n - k < 4")
    case True
    then show ?thesis using less.prems by (subst copy_words.simps) (auto simp: reaches_def)
  next
    case False
    then have al: "alig (d + word_of_nat k)" "alig (s + word_of_nat k)" and k: "k + 4 \<le> n" using less.prems by auto
    have "copy_words (n - k) (at_copy bs d s k) (d + word_of_nat k) (s + word_of_nat k) =
        copy_words (n - (k + 4)) (at_copy bs d s (k + 4)) (d + word_of_nat (k + 4)) (s + word_of_nat (k + 4))"
      using False copy32_step [OF assms k al]
      by (subst copy_words.simps) (simp only: plus_numeral if_False bind_result_def sum.case diff_diff_left)
    then show ?thesis using less.hyps [of "k + 4"] k alig_steps(1) [OF al(1)] alig_steps(1) [OF al(2)] by simp
  qed
qed

lemma demo_copy_at:
  assumes "copyable bs d s n"
  shows "k + m = n \<Longrightarrow> demo_copy m k (at_copy bs d s k) d s = Inr (at_copy bs d s n)"
proof (induction m arbitrary: k)
  case (Suc m)
  then have "copy8 (at_copy bs d s k) (d + word_of_nat k) (s + word_of_nat k) = Inr (at_copy bs d s (k + 1))"
    using copy8_step [OF assms, of k] by simp
  then show ?case using Suc.IH [of "k + 1"] Suc.prems by (simp add: bind_result_def)
qed simp

lemma alig_both:
  assumes "(d XOR s) AND 3 = 0" "alig (d + b)"
  shows "alig (s + b)"
proof -
  have m: "x AND 3 = take_bit 2 x" for x :: u32 by (simp add: take_bit_eq_mask mask_eq_exp_minus_1)
  have "take_bit 2 d = take_bit 2 s"
    using assms(1) unfolding m by (simp add: bit_eq_iff bit_simps)
  then have "unat (take_bit 2 d) = unat (take_bit 2 s)" by simp
  then have "unat d mod 4 = unat s mod 4" by (subst (asm) (1 2) unsigned_take_bit_eq) (simp add: take_bit_eq_mod)
  then show ?thesis using assms(2) by (simp add: alig_mod unat_add_mod4) (metis mod_add_cong)
qed

text \<open>
  C33. The word-at-a-time copy is the byte loop.  For blocks that lie in memory and do not overlap,
  whatever their alignment, \<^verbatim>\<open>memcpy\<close> of \<^verbatim>\<open>doom/memops.c\<close> performs no misaligned or
  out-of-range access, ends with the same memory as \<^verbatim>\<open>memcpy\<close> of \<^verbatim>\<open>cdemo/runtime.c\<close>, and that
  memory has the source bytes in the destination and is unchanged elsewhere.
\<close>

theorem memcpy_is_byte_loop:
  assumes "unat d + unat n \<le> length (bytes m)" "unat s + unat n \<le> length (bytes m)" "addressable m"
    and "unat d + unat n \<le> unat s \<or> unat s + unat n \<le> unat d"
  shows "\<exists>m'. memcpy m d s n = Inr m' \<and> demo_memcpy m d s n = Inr m' \<and> length (bytes m') = length (bytes m) \<and>
    (\<forall>i < length (bytes m). bytes m' ! i =
       (if unat d \<le> i \<and> i < unat d + unat n then bytes m ! (unat s + (i - unat d)) else bytes m ! i))"
proof -
  let ?bs = "bytes m" and ?n = "unat n"
  have c: "copyable ?bs d s ?n" using assms by (simp add: copyable_def room_def apart_def addressable_def)
  have m0: "m = at_copy ?bs d s 0" "x = x + word_of_nat 0" for x :: u32 by (simp_all add: at_copy_def)
  have demo: "demo_memcpy m d s n = Inr (at_copy ?bs d s ?n)"
    using demo_copy_at [OF c, of 0 ?n] m0(1) by (simp add: demo_memcpy_def)
  have tail: "(\<lambda>(m, out, inp, n). copy_bytes n m out inp)
      (at_copy ?bs d s j, d + word_of_nat j, s + word_of_nat j, ?n - j) = Inr (at_copy ?bs d s ?n)" if "j \<le> ?n" for j
    using copy_bytes_at [OF c, of j "?n - j"] that by simp
  have "memcpy m d s n = Inr (at_copy ?bs d s ?n)"
  proof (cases "(d XOR s) AND 3 = 0")
    case False
    then show ?thesis using tail [of 0] m0(1) by (simp add: memcpy_def bind_result_def)
  next
    case True
    obtain i where i: "i \<le> ?n" "i = ?n \<or> alig (d + word_of_nat i)"
      "copy_head ?n m d s = Inr (at_copy ?bs d s i, d + word_of_nat i, s + word_of_nat i, ?n - i)"
      using copy_head_at [OF c, of 0 ?n] m0(1) by (auto simp: reaches_def)
    have "i = ?n \<or> (alig (d + word_of_nat i) \<and> alig (s + word_of_nat i))" using i(2) alig_both [OF True] by blast
    from copy_blocks_at [OF c i(1) this] obtain j where j: "j \<le> ?n"
      "j = ?n \<or> (alig (d + word_of_nat j) \<and> alig (s + word_of_nat j))"
      "copy_blocks (?n - i) (at_copy ?bs d s i) (d + word_of_nat i) (s + word_of_nat i) =
        Inr (at_copy ?bs d s j, d + word_of_nat j, s + word_of_nat j, ?n - j)"
      unfolding reaches_def by blast
    from copy_words_at [OF c j(1,2)] obtain k where k: "k \<le> ?n"
      "copy_words (?n - j) (at_copy ?bs d s j) (d + word_of_nat j) (s + word_of_nat j) =
        Inr (at_copy ?bs d s k, d + word_of_nat k, s + word_of_nat k, ?n - k)"
      unfolding reaches_def by blast
    show ?thesis using True tail [OF k(1)]
      by (simp only: memcpy_def i(3) j(3) k(2) bind_result_def sum.case prod.case refl if_True)
  qed
  then show ?thesis using demo assms(1) by (auto simp: at_copy_def nth_written source_def)
qed

definition copy_demo :: memory where
  "copy_demo = \<lparr>bytes = map word_of_nat [0..<32] @ replicate 32 0\<rparr>"

theorem memcpy_is_byte_loop_witness:
  "\<exists>m'. memcpy copy_demo 35 3 22 = Inr m' \<and> demo_memcpy copy_demo 35 3 22 = Inr m' \<and> bytes m' ! 40 = 8"
proof -
  have "addressable copy_demo" "length (bytes copy_demo) = 64" by (simp_all add: addressable_def copy_demo_def)
  moreover have "bytes copy_demo ! 8 = 8" by (simp add: copy_demo_def nth_append)
  ultimately show ?thesis using memcpy_is_byte_loop [of 35 22 copy_demo 3] by auto
qed

theorem FixedDiv_exact_witness:
  "\<exists>q. FixedDiv 7 (- 2) = Some q \<and> sint q = - 229376"
  using FixedDiv_exact [of 7 "- 2"] by (auto simp: signed_divide_int_def)

section \<open>Both fills are one block fill\<close>

text \<open>The pattern has the byte four times.\<close>

lemma pattern_bytes:
  assumes "j < 4"
  shows "ucast (drop_bit (8 * j) (ucast (b :: u8) * 0x01010101 :: u32)) = b"
proof -
  let ?x = "ucast b :: u32"
  let ?p = "?x OR push_bit 8 ?x OR push_bit 16 ?x OR push_bit 24 ?x"
  have d: "?x AND push_bit 8 ?x = 0" "(?x OR push_bit 8 ?x) AND push_bit 16 ?x = 0"
    "(?x OR push_bit 8 ?x OR push_bit 16 ?x) AND push_bit 24 ?x = 0"
    by (rule bit_word_eqI, auto simp: bit_simps dest!: bit_imp_le_length)+
  have "?x * 0x01010101 = ?x + push_bit 8 ?x + push_bit 16 ?x + push_bit 24 ?x"
    by (simp add: push_bit_eq_mult algebra_simps)
  also have "\<dots> = ?p"
    using d by (simp add: disjunctive_add_eq_or or.assoc)
  finally have p: "?x * 0x01010101 = ?p" .
  have "j = 0 \<or> j = 1 \<or> j = 2 \<or> j = 3" using assms by auto
  moreover have "\<not> bit b (8 + n)" "\<not> bit b (16 + n)" "\<not> bit b (24 + n)" for n
    using bit_imp_le_length [of b] by fastforce+
  ultimately show ?thesis unfolding p by (intro bit_word_eqI) (auto simp: bit_simps)
qed

definition at_fill :: "u8 list \<Rightarrow> u32 \<Rightarrow> u8 \<Rightarrow> nat \<Rightarrow> memory" where
  "at_fill bs d b k = \<lparr>bytes = written bs (unat d) (\<lambda>_. b) k\<rparr>"

lemma fill8_step:
  assumes "room bs d n" "k < n"
  shows "st8 (at_fill bs d b k) (d + word_of_nat k) b = Inr (at_fill bs d b (k + 1))"
  using st8_written [OF assms, of "\<lambda>_. b"] by (simp add: at_fill_def)

lemma fill32_step:
  assumes "room bs d n" "k + 4 \<le> n" "alig (d + word_of_nat k)"
  shows "st32 (at_fill bs d b k) (d + word_of_nat k) (ucast b * 0x01010101) = Inr (at_fill bs d b (k + 4))"
  using st32_written [OF assms, of "ucast b * 0x01010101" "\<lambda>_. b"] pattern_bytes by (simp add: at_fill_def)

definition fills :: "u8 list \<Rightarrow> u32 \<Rightarrow> u8 \<Rightarrow> nat \<Rightarrow> (memory \<times> u32 \<times> nat) result \<Rightarrow> (nat \<Rightarrow> bool) \<Rightarrow> bool" where
  "fills bs d b n r P \<longleftrightarrow> (\<exists>j \<le> n. r = Inr (at_fill bs d b j, d + word_of_nat j, n - j) \<and> P j)"

lemma set_bytes_at:
  assumes "room bs d n"
  shows "k + m = n \<Longrightarrow> set_bytes b m (at_fill bs d b k) (d + word_of_nat k) = Inr (at_fill bs d b n)"
proof (induction m arbitrary: k)
  case (Suc m)
  then have "st8 (at_fill bs d b k) (d + word_of_nat k) b = Inr (at_fill bs d b (k + 1))"
    using fill8_step [OF assms, of k] by simp
  moreover have "set_bytes b m (at_fill bs d b (k + 1)) (d + word_of_nat (k + 1)) = Inr (at_fill bs d b n)"
    using Suc.IH [of "k + 1"] Suc.prems by linarith
  ultimately show ?case by (simp only: set_bytes.simps plus_numeral bind_result_def sum.case)
qed simp

lemma demo_set_at:
  assumes "room bs d n"
  shows "k + m = n \<Longrightarrow> demo_set b m k (at_fill bs d b k) d = Inr (at_fill bs d b n)"
proof (induction m arbitrary: k)
  case (Suc m)
  then show ?case using fill8_step [OF assms, of k b] Suc.IH [of "k + 1"] by (simp add: bind_result_def)
qed simp

lemma set_head_at:
  assumes "room bs d n"
  shows "k + m = n \<Longrightarrow> fills bs d b n (set_head b m (at_fill bs d b k) (d + word_of_nat k))
    (\<lambda>j. j = n \<or> alig (d + word_of_nat j))"
proof (induction m arbitrary: k)
  case 0
  then show ?case by (auto simp: fills_def)
next
  case (Suc m)
  show ?case
  proof (cases "alig (d + word_of_nat k)")
    case True
    then show ?thesis using Suc.prems by (auto simp: fills_def alig_def intro!: exI [of _ k])
  next
    case False
    then have "set_head b (Suc m) (at_fill bs d b k) (d + word_of_nat k) =
        set_head b m (at_fill bs d b (k + 1)) (d + word_of_nat (k + 1))"
      using fill8_step [OF assms, of k b] Suc.prems
      by (simp only: set_head.simps plus_numeral alig_def if_False bind_result_def sum.case less_add_Suc1)
    moreover have "(k + 1) + m = n" using Suc.prems by simp
    ultimately show ?thesis using Suc.IH [of "k + 1"] by (simp only:)
  qed
qed

lemma set_blocks_at:
  assumes "room bs d n"
  shows "k \<le> n \<Longrightarrow> k = n \<or> alig (d + word_of_nat k) \<Longrightarrow>
    fills bs d b n (set_blocks (ucast b * 0x01010101) (n - k) (at_fill bs d b k) (d + word_of_nat k))
      (\<lambda>j. j = n \<or> alig (d + word_of_nat j))"
proof (induction "n - k" arbitrary: k rule: less_induct)
  case less
  show ?case
  proof (cases "n - k < 16")
    case True
    then show ?thesis using less.prems by (subst set_blocks.simps) (auto simp: fills_def)
  next
    case False
    then have al: "alig (d + word_of_nat k)" and k: "k + 16 \<le> n" using less.prems by auto
    note als = alig_steps [OF al]
    have s: "st32 (at_fill bs d b k) (d + word_of_nat k) (ucast b * 0x01010101) = Inr (at_fill bs d b (k + 4))"
      "st32 (at_fill bs d b (k + 4)) (d + word_of_nat (k + 4)) (ucast b * 0x01010101) = Inr (at_fill bs d b (k + 8))"
      "st32 (at_fill bs d b (k + 8)) (d + word_of_nat (k + 8)) (ucast b * 0x01010101) = Inr (at_fill bs d b (k + 12))"
      "st32 (at_fill bs d b (k + 12)) (d + word_of_nat (k + 12)) (ucast b * 0x01010101) = Inr (at_fill bs d b (k + 16))"
      using fill32_step [OF assms, of k b] fill32_step [OF assms, of "k + 4" b] fill32_step [OF assms, of "k + 8" b]
        fill32_step [OF assms, of "k + 12" b] k al als
      by (simp_all add: add.assoc)
    have "set_blocks (ucast b * 0x01010101) (n - k) (at_fill bs d b k) (d + word_of_nat k) =
        set_blocks (ucast b * 0x01010101) (n - (k + 16)) (at_fill bs d b (k + 16)) (d + word_of_nat (k + 16))"
      using False
      by (subst set_blocks.simps) (simp only: plus_numeral if_False bind_result_def sum.case diff_diff_left s)
    then show ?thesis using less.hyps [of "k + 16"] k als(4) by simp
  qed
qed

lemma set_words_at:
  assumes "room bs d n"
  shows "k \<le> n \<Longrightarrow> k = n \<or> alig (d + word_of_nat k) \<Longrightarrow>
    fills bs d b n (set_words (ucast b * 0x01010101) (n - k) (at_fill bs d b k) (d + word_of_nat k)) (\<lambda>j. True)"
proof (induction "n - k" arbitrary: k rule: less_induct)
  case less
  show ?case
  proof (cases "n - k < 4")
    case True
    then show ?thesis using less.prems by (subst set_words.simps) (auto simp: fills_def)
  next
    case False
    then have al: "alig (d + word_of_nat k)" and k: "k + 4 \<le> n" using less.prems by auto
    have "set_words (ucast b * 0x01010101) (n - k) (at_fill bs d b k) (d + word_of_nat k) =
        set_words (ucast b * 0x01010101) (n - (k + 4)) (at_fill bs d b (k + 4)) (d + word_of_nat (k + 4))"
      using False fill32_step [OF assms k al]
      by (subst set_words.simps) (simp only: plus_numeral if_False bind_result_def sum.case diff_diff_left)
    then show ?thesis using less.hyps [of "k + 4"] k alig_steps(1) [OF al] by simp
  qed
qed

text \<open>The word-at-a-time fill is the byte loop, for every block in memory and whatever its alignment.\<close>

theorem memset_is_byte_loop:
  assumes "unat d + unat n \<le> length (bytes m)" "addressable m"
  shows "\<exists>m'. memset m d v n = Inr m' \<and> demo_memset m d v n = Inr m' \<and> length (bytes m') = length (bytes m) \<and>
    (\<forall>i < length (bytes m). bytes m' ! i = (if unat d \<le> i \<and> i < unat d + unat n then ucast v else bytes m ! i))"
proof -
  let ?bs = "bytes m" and ?n = "unat n" and ?b = "ucast v :: u8"
  have c: "room ?bs d ?n" using assms by (simp add: room_def addressable_def)
  have m0: "m = at_fill ?bs d ?b 0" by (simp add: at_fill_def)
  have demo: "demo_memset m d v n = Inr (at_fill ?bs d ?b ?n)"
    using demo_set_at [OF c, of 0 ?n ?b] m0 by (simp add: demo_memset_def)
  obtain i where i: "i \<le> ?n" "i = ?n \<or> alig (d + word_of_nat i)"
    "set_head ?b ?n m d = Inr (at_fill ?bs d ?b i, d + word_of_nat i, ?n - i)"
    using set_head_at [OF c, of 0 ?n ?b] m0 by (auto simp: fills_def)
  from set_blocks_at [OF c i(1,2), of ?b] obtain j where j: "j \<le> ?n" "j = ?n \<or> alig (d + word_of_nat j)"
    "set_blocks (ucast ?b * 0x01010101) (?n - i) (at_fill ?bs d ?b i) (d + word_of_nat i) =
      Inr (at_fill ?bs d ?b j, d + word_of_nat j, ?n - j)"
    unfolding fills_def by blast
  from set_words_at [OF c j(1,2), of ?b] obtain k where k: "k \<le> ?n"
    "set_words (ucast ?b * 0x01010101) (?n - j) (at_fill ?bs d ?b j) (d + word_of_nat j) =
      Inr (at_fill ?bs d ?b k, d + word_of_nat k, ?n - k)"
    unfolding fills_def by blast
  have "memset m d v n = Inr (at_fill ?bs d ?b ?n)"
    using set_bytes_at [OF c, of k "?n - k" ?b] k(1)
    by (simp only: memset_def Let_def i(3) j(3) k(2) bind_result_def sum.case prod.case le_add_diff_inverse)
  then show ?thesis using demo assms(1) by (auto simp: at_fill_def nth_written)
qed

end
