(* ===== verification/Viewer.thy ===== *)
theory Viewer
  imports Syscall
begin

text \<open>
  The display program \<^verbatim>\<open>doom/viewer.cpp\<close> and the guest's side of the key pipe, \<^verbatim>\<open>doom/platform.c\<close>.
  SDL is a parameter: the events it reports, the code points of its keys, and whether its calls
  succeed.  The pipes are a stream of bytes and the answers of \<^verbatim>\<open>read\<close> and \<^verbatim>\<open>write\<close>.
\<close>

section \<open>State\<close>

text \<open>\<^verbatim>\<open>SDL_Keycode\<close>: the keys with codes of their own, and the others by their code.\<close>

datatype sdl_key =
    SDLK_UP | SDLK_DOWN | SDLK_LEFT | SDLK_RIGHT | SDLK_RETURN | SDLK_ESCAPE | SDLK_TAB | SDLK_BACKSPACE
  | Code_Point nat

record key_event =
  ke_down :: bool
  ke_repeat :: bool
  ke_key :: sdl_key
  ke_ctrl :: bool
  ke_scan :: nat

datatype sdl_event = Quit | Window_Exposed | Focus_Lost | Key_Event key_event | Other_Event

text \<open>
  \<open>v_frame\<close> holds the \<^verbatim>\<open>received\<close> bytes of the buffer, whose size is \<open>v_size\<close>.  \<open>v_shown\<close> lists the
  pictures given to \<^verbatim>\<open>SDL_UpdateTexture\<close>, with their width and height, \<open>v_sent\<close> the bytes written to
  the key pipe, and \<open>v_pipe\<close> what the frame pipe still has.
\<close>

record viewer =
  v_held :: "int list"
  v_counts :: "u32 list"
  v_keys :: "u8 list"
  v_sent :: "u8 list"
  v_frame :: "u8 list"
  v_size :: nat
  v_width :: u32
  v_height :: u32
  v_texture :: "u32 \<times> u32"
  v_shown :: "(u32 \<times> u32 \<times> u32 list) list"
  v_frames :: u32
  v_redraw :: bool
  v_running :: bool
  v_result :: int
  v_pipe :: "u8 list"

text \<open>The argument is \<^verbatim>\<open>SDL_SCANCODE_COUNT\<close>.\<close>

definition viewer_start :: "nat \<Rightarrow> u8 list \<Rightarrow> viewer" where
  "viewer_start scancodes pipe =
     \<lparr>v_held = replicate scancodes (- 1), v_counts = replicate 256 0, v_keys = [], v_sent = [],
      v_frame = [], v_size = 12, v_width = 0, v_height = 0, v_texture = (0, 0), v_shown = [],
      v_frames = 0, v_redraw = True, v_running = True, v_result = 0, v_pipe = pipe\<rparr>"

section \<open>Keys\<close>

primrec keyCode :: "sdl_key \<Rightarrow> int" where
  "keyCode SDLK_UP = 0x80"
| "keyCode SDLK_DOWN = 0x81"
| "keyCode SDLK_LEFT = 0x82"
| "keyCode SDLK_RIGHT = 0x83"
| "keyCode SDLK_RETURN = 10"
| "keyCode SDLK_ESCAPE = 27"
| "keyCode SDLK_TAB = 9"
| "keyCode SDLK_BACKSPACE = 127"
| "keyCode (Code_Point k) = (if 32 \<le> k \<and> k \<le> 126 then int k else - 1)"

definition event_word :: "nat \<Rightarrow> bool \<Rightarrow> u32" where
  "event_word key down = word_of_nat key OR push_bit 8 (of_bool down)"

definition queueKey :: "nat \<Rightarrow> bool \<Rightarrow> viewer \<Rightarrow> viewer" where
  "queueKey key down v = v\<lparr>v_keys := appendWord (v_keys v) (event_word key down)\<rparr>"

text \<open>The window loses the focus: every pressed key is released.\<close>

definition release_key :: "nat \<Rightarrow> viewer \<Rightarrow> viewer" where
  "release_key k v =
     (let v = (if v_counts v ! k \<noteq> 0 then queueKey k False v else v) in v\<lparr>v_counts := (v_counts v)[k := 0]\<rparr>)"

definition release_all :: "viewer \<Rightarrow> viewer" where
  "release_all v =
     (let v = fold release_key [0..<length (v_counts v)] v in v\<lparr>v_held := map (\<lambda>_. - 1) (v_held v)\<rparr>)"

definition press :: "nat \<Rightarrow> int \<Rightarrow> viewer \<Rightarrow> viewer" where
  "press scan key v =
     (if key < 0 \<or> 0 \<le> v_held v ! scan then v
      else let v = v\<lparr>v_held := (v_held v)[scan := key]\<rparr>; k = nat key; n = v_counts v ! k;
               v = v\<lparr>v_counts := (v_counts v)[k := n + 1]\<rparr>
           in if n = 0 then queueKey k True v else v)"

definition unpress :: "nat \<Rightarrow> viewer \<Rightarrow> viewer" where
  "unpress scan v =
     (if 0 \<le> v_held v ! scan
      then let k = nat (v_held v ! scan); v = v\<lparr>v_held := (v_held v)[scan := - 1]\<rparr>; n = v_counts v ! k - 1;
               v = v\<lparr>v_counts := (v_counts v)[k := n]\<rparr>
           in if n = 0 then queueKey k False v else v
      else v)"

definition is_quit_key :: "key_event \<Rightarrow> bool" where
  "is_quit_key e \<longleftrightarrow> ke_key e = Code_Point 113 \<or> (ke_key e = Code_Point 99 \<and> ke_ctrl e)"

definition handle_event :: "sdl_event \<Rightarrow> viewer \<Rightarrow> viewer" where
  "handle_event ev v =
     (case ev of
        Quit \<Rightarrow> v\<lparr>v_running := False\<rparr>
      | Window_Exposed \<Rightarrow> v\<lparr>v_redraw := True\<rparr>
      | Focus_Lost \<Rightarrow> release_all v
      | Other_Event \<Rightarrow> v
      | Key_Event e \<Rightarrow>
          if ke_repeat e then v
          else if ke_down e \<and> is_quit_key e then v\<lparr>v_running := False\<rparr>
          else if length (v_held v) \<le> ke_scan e then v
          else if ke_down e then press (ke_scan e) (keyCode (ke_key e)) v
          else unpress (ke_scan e) v)"

text \<open>Outcomes of \<^verbatim>\<open>write\<close>; after its script the pipe is full.\<close>

datatype key_write = Wrote nat | Write_Interrupted | Write_Blocked | Write_Failed

primrec flush_keys :: "key_write list \<Rightarrow> viewer \<Rightarrow> viewer" where
  "flush_keys [] v = v"
| "flush_keys (w # ws) v =
     (if v_keys v = [] then v
      else case w of
        Wrote n \<Rightarrow>
          (let n = min n (min 256 (length (v_keys v))) in
           if n = 0 then v\<lparr>v_running := False\<rparr>
           else flush_keys ws (v\<lparr>v_keys := drop n (v_keys v), v_sent := v_sent v @ take n (v_keys v)\<rparr>))
      | Write_Interrupted \<Rightarrow> flush_keys ws v
      | Write_Blocked \<Rightarrow> v
      | Write_Failed \<Rightarrow> v\<lparr>v_running := False\<rparr>)"

section \<open>Frames\<close>

text \<open>
  What SDL answers: whether a texture can be made, whether it can be updated, and whether the picture
  can be drawn.
\<close>

record sdl =
  sdl_create :: "u32 \<Rightarrow> u32 \<Rightarrow> bool"
  sdl_update :: "u32 list \<Rightarrow> bool"
  sdl_render :: bool

text \<open>A complete header; \<open>False\<close> when it is refused.\<close>

definition take_header :: "viewer \<Rightarrow> bool \<times> viewer" where
  "take_header v =
     (let w = readWord (drop 4 (v_frame v)); h = readWord (drop 8 (v_frame v)); v = v\<lparr>v_width := w, v_height := h\<rparr>
      in if readWord (v_frame v) \<noteq> RV_FRAME_MAGIC \<or> w = 0 \<or> RV_MAX_WIDTH < w \<or> h = 0 \<or> RV_MAX_HEIGHT < h
         then (False, v\<lparr>v_result := 1, v_running := False\<rparr>)
         else (True, v\<lparr>v_size := 12 + unat w * unat h * 4\<rparr>))"

definition frame_words :: "u8 list \<Rightarrow> nat \<Rightarrow> u32 list" where
  "frame_words bs n = map (\<lambda>p. readWord (drop (p * 4) bs)) [0..<n]"

text \<open>A complete frame.\<close>

definition show_frame :: "sdl \<Rightarrow> viewer \<Rightarrow> viewer" where
  "show_frame s v =
     (let w = v_width v; h = v_height v; fresh = ((w, h) \<noteq> v_texture v) in
      if fresh \<and> \<not> sdl_create s w h then v\<lparr>v_result := 1, v_running := False\<rparr>
      else let v = v\<lparr>v_texture := (w, h)\<rparr>; px = frame_words (drop 12 (v_frame v)) (unat w * unat h) in
        if \<not> sdl_update s px then v\<lparr>v_result := 1, v_running := False\<rparr>
        else v\<lparr>v_shown := v_shown v @ [(w, h, px)], v_frames := v_frames v + 1, v_redraw := True,
               v_size := 12, v_frame := []\<rparr>)"

text \<open>
  The reading loop; it ends after one frame.  A \<^verbatim>\<open>read\<close> takes at most \<open>Suc k\<close> bytes of those the pipe
  holds; a pipe without bytes, and one at the end of its script, would block.
\<close>

datatype pipe_read = Upto nat | Interrupted | Would_Block | End_Of_File | Broken

primrec read_frame :: "sdl \<Rightarrow> pipe_read list \<Rightarrow> viewer \<Rightarrow> viewer" where
  "read_frame s [] v = v"
| "read_frame s (r # rs) v =
     (case r of
        Upto k \<Rightarrow>
          (let n = min (Suc k) (min (v_size v - length (v_frame v)) (length (v_pipe v))) in
           if n = 0 then v
           else let v = v\<lparr>v_frame := v_frame v @ take n (v_pipe v), v_pipe := drop n (v_pipe v)\<rparr> in
             if length (v_frame v) \<noteq> v_size v then read_frame s rs v
             else if v_size v = 12
             then (let (ok, v) = take_header v in if ok then read_frame s rs v else v)
             else show_frame s v)
      | Interrupted \<Rightarrow> read_frame s rs v
      | Would_Block \<Rightarrow> v
      | End_Of_File \<Rightarrow> v\<lparr>v_result := (if v_frame v \<noteq> [] then 1 else v_result v), v_running := False\<rparr>
      | Broken \<Rightarrow> v\<lparr>v_result := 1, v_running := False\<rparr>)"

text \<open>One iteration of the main loop, which ends when \<open>v_running\<close> is false.\<close>

definition viewer_step :: "sdl \<Rightarrow> sdl_event list \<times> key_write list \<times> pipe_read list \<Rightarrow> viewer \<Rightarrow> viewer" where
  "viewer_step s = (\<lambda>(evs, ws, rs) v.
     let v = fold handle_event evs v in
     if \<not> v_running v then v
     else if 65536 < length (v_keys v) then v\<lparr>v_result := 1, v_running := False\<rparr>
     else let v = flush_keys ws v; v = (if v_running v then read_frame s rs v else v) in
       if v_redraw v
       then (if sdl_render s then v else v\<lparr>v_result := 1, v_running := False\<rparr>)\<lparr>v_redraw := False\<rparr>
       else v)"

primrec viewer_run :: "sdl \<Rightarrow> (sdl_event list \<times> key_write list \<times> pipe_read list) list \<Rightarrow> viewer \<Rightarrow> viewer" where
  "viewer_run s [] v = v"
| "viewer_run s (x # xs) v = (if v_running v then viewer_run s xs (viewer_step s x v) else v)"

section \<open>The guest\<close>

text \<open>
  \<^verbatim>\<open>translate\<close>: the engine's key codes are named, the other characters stay, and \<^verbatim>\<open>q\<close> exits.
\<close>

datatype doom_key =
    KEY_UPARROW | KEY_DOWNARROW | KEY_LEFTARROW | KEY_RIGHTARROW | KEY_STRAFE_L | KEY_STRAFE_R
  | KEY_FIRE | KEY_USE | KEY_ENTER | Exit_Key | Plain_Key u32

definition translate :: "u32 \<Rightarrow> doom_key" where
  "translate c0 =
     (let c = (if 65 \<le> c0 \<and> c0 \<le> 90 then c0 + 32 else c0) in
      if c = 0x80 then KEY_UPARROW else if c = 0x81 then KEY_DOWNARROW
      else if c = 0x82 then KEY_LEFTARROW else if c = 0x83 then KEY_RIGHTARROW
      else if c = 119 then KEY_UPARROW else if c = 115 then KEY_DOWNARROW
      else if c = 97 then KEY_LEFTARROW else if c = 100 then KEY_RIGHTARROW
      else if c = 106 then KEY_STRAFE_L else if c = 108 then KEY_STRAFE_R
      else if c = 102 then KEY_FIRE else if c = 101 \<or> c = 32 then KEY_USE
      else if c = 10 then KEY_ENTER else if c = 113 then Exit_Key else Plain_Key c)"

text \<open>\<^verbatim>\<open>DG_GetKey\<close> on the answer of system call 7.\<close>

definition DG_GetKey :: "u32 \<Rightarrow> (bool \<times> doom_key) option" where
  "DG_GetKey event =
     (if event = UINT32_MAX then None else Some (drop_bit 8 event AND 1 = 1, translate (event AND 255)))"

text \<open>Virtual time.\<close>

definition DG_GetTicksMs :: "u32 \<Rightarrow> u32 \<times> u32" where
  "DG_GetTicksMs ticks = (ticks, ticks + 1)"

definition DG_SleepMs :: "u32 \<Rightarrow> u32 \<Rightarrow> u32" where
  "DG_SleepMs ms ticks = ticks + ms"

text \<open>
  The descriptor of \<^verbatim>\<open>DG_DrawFrame\<close>, with the palette when the engine draws palette indices, and
  whether the guest exits after the frame.
\<close>

definition frame_descriptor :: "bool \<Rightarrow> u32 \<Rightarrow> u32 \<Rightarrow> u32 \<Rightarrow> u32 \<Rightarrow> u32 list" where
  "frame_descriptor cmap256 screen resx resy colors =
     (if cmap256 then [screen, resx, resy, RV_PIXEL_INDEXED8, colors] else [screen, resx, resy, RV_PIXEL_XRGB8888])"

definition DG_DrawFrame :: "u32 \<Rightarrow> u32 \<Rightarrow> bool \<times> u32" where
  "DG_DrawFrame max_frames frames =
     (let frames = frames + 1 in (max_frames \<noteq> 0 \<and> max_frames \<le> frames, frames))"

section \<open>Key events are consistent\<close>

text \<open>
  A trace of key events with its bytes; for each key the events alternate, starting with a press.
\<close>

type_synonym key_trace = "(nat \<times> bool) list"

definition key_bytes :: "key_trace \<Rightarrow> u8 list" where
  "key_bytes evs = concat (map (\<lambda>(k, d). appendWord [] (event_word k d)) evs)"

definition key_log :: "nat \<Rightarrow> key_trace \<Rightarrow> bool list" where
  "key_log k evs = map snd (filter (\<lambda>e. fst e = k) evs)"

primrec alternates :: "bool \<Rightarrow> bool list \<Rightarrow> bool" where
  "alternates b [] \<longleftrightarrow> True"
| "alternates b (x # xs) \<longleftrightarrow> x = b \<and> alternates (\<not> b) xs"

definition consistent :: "key_trace \<Rightarrow> int list \<Rightarrow> bool" where
  "consistent evs held \<longleftrightarrow>
     (\<forall>k. alternates True (key_log k evs) \<and> (odd (length (key_log k evs)) \<longleftrightarrow> int k \<in> set held)) \<and>
     (\<forall>e \<in> set evs. fst e < 256)"

definition keys_inv :: "viewer \<Rightarrow> key_trace \<Rightarrow> bool" where
  "keys_inv v evs \<longleftrightarrow> length (v_counts v) = 256 \<and> length (v_held v) < 2 ^ 32 \<and>
     (\<forall>x \<in> set (v_held v). x < 256) \<and>
     (\<forall>k < 256. unat (v_counts v ! k) = count_list (v_held v) (int k)) \<and>
     v_sent v @ v_keys v = key_bytes evs \<and> consistent evs (v_held v)"

lemma alternates_snoc: "alternates b (xs @ [x]) \<longleftrightarrow> alternates b xs \<and> x = (if even (length xs) then b else \<not> b)"
  by (induction xs arbitrary: b) auto

lemma appendWord_Nil: "appendWord out w = out @ appendWord [] w"
  by (simp add: appendWord_def)

lemma key_bytes_snoc: "key_bytes (evs @ [(k, d)]) = key_bytes evs @ appendWord [] (event_word k d)"
  by (simp add: key_bytes_def)

lemma key_log_snoc: "key_log k (evs @ [(j, d)]) = key_log k evs @ (if j = k then [d] else [])"
  by (simp add: key_log_def)

lemma queueKey_keys:
  "v_sent v @ v_keys v = key_bytes evs \<Longrightarrow>
     v_sent (queueKey k d v) @ v_keys (queueKey k d v) = key_bytes (evs @ [(k, d)])"
  using appendWord_Nil [of "v_keys v"] by (simp add: queueKey_def key_bytes_snoc)

lemma queueKey_frame [simp]:
  "v_held (queueKey k d v) = v_held v" "v_counts (queueKey k d v) = v_counts v" "v_sent (queueKey k d v) = v_sent v"
  by (simp_all add: queueKey_def)

lemma count_list_update:
  "i < length xs \<Longrightarrow> count_list (xs[i := y]) k + (if xs ! i = k then 1 else 0) = count_list xs k + (if y = k then 1 else 0)"
proof (induction xs arbitrary: i)
  case (Cons x xs)
  show ?case
  proof (cases i)
    case (Suc j)
    then show ?thesis using Cons.IH [of j] Cons.prems by (cases "y = k"; cases "xs ! j = k"; simp)
  qed simp
qed simp

lemma count_list_pos: "0 < count_list xs k \<longleftrightarrow> k \<in> set xs"
  by (metis count_list_0_iff gr0I not_gr_zero)

lemma keyCode_less: "keyCode k < 256"
  by (cases k) simp_all

text \<open>A key goes down when its first scancode is pressed, and up when its last one is released.\<close>

lemma consistent_press:
  assumes "consistent evs held" "int k \<notin> set held" "\<forall>j. int j \<in> set held' \<longleftrightarrow> j = k \<or> int j \<in> set held" "k < 256"
  shows "consistent (evs @ [(k, True)]) held'"
  using assms by (auto simp: consistent_def key_log_snoc alternates_snoc)

lemma consistent_release:
  assumes "consistent evs held" "int k \<in> set held" "\<forall>j. int j \<in> set held' \<longleftrightarrow> j \<noteq> k \<and> int j \<in> set held" "k < 256"
  shows "consistent (evs @ [(k, False)]) held'"
  using assms by (auto simp: consistent_def key_log_snoc alternates_snoc)

lemma consistent_same:
  assumes "consistent evs held" "\<forall>j. int j \<in> set held' \<longleftrightarrow> int j \<in> set held"
  shows "consistent evs held'"
  using assms by (simp add: consistent_def)

text \<open>A change of the pressed scancodes and their counts, with a key event or without.\<close>

lemma keys_inv_change:
  assumes "keys_inv v evs" "length h = length (v_held v)" "length cs = 256" "\<forall>x \<in> set h. x < 256"
    "\<forall>j < 256. unat (cs ! j) = count_list h (int j)"
  shows "consistent evs h \<Longrightarrow> keys_inv (v\<lparr>v_held := h, v_counts := cs\<rparr>) evs"
    "consistent (evs @ [(k, d)]) h \<Longrightarrow> keys_inv (queueKey k d (v\<lparr>v_held := h, v_counts := cs\<rparr>)) (evs @ [(k, d)])"
proof -
  let ?w = "v\<lparr>v_held := h, v_counts := cs\<rparr>"
  have b: "v_sent ?w @ v_keys ?w = key_bytes evs" "length h < 2 ^ 32" using assms(1,2) by (simp_all add: keys_inv_def)
  show "keys_inv ?w evs" if "consistent evs h" using assms(2-5) b that unfolding keys_inv_def by simp
  show "keys_inv (queueKey k d ?w) (evs @ [(k, d)])" if "consistent (evs @ [(k, d)]) h"
    unfolding keys_inv_def queueKey_frame using assms(3-5) b(2) that queueKey_keys [OF b(1)] by simp
qed

lemma press_inv:
  assumes "keys_inv v evs" "key < 256" "scan < length (v_held v)"
  shows "\<exists>evs'. keys_inv (press scan key v) (evs @ evs')"
proof (cases "key < 0 \<or> 0 \<le> v_held v ! scan")
  case True
  then show ?thesis using assms(1) by (intro exI [of _ "[]"]) (simp add: press_def)
next
  case False
  let ?h = "(v_held v)[scan := key]"
  define k where "k = nat key"
  have key: "key = int k" "k < 256" using False assms(2) by (simp_all add: k_def)
  note i = assms(1) [unfolded keys_inv_def]
  have con: "consistent evs (v_held v)" using i by blast
  have free: "v_held v ! scan \<noteq> int j" for j using False by linarith
  have cl: "count_list ?h (int j) = count_list (v_held v) (int j) + (if j = k then 1 else 0)" for j
    using count_list_update [OF assms(3), of key "int j"] free by (auto simp: key(1))
  have mem: "int j \<in> set ?h \<longleftrightarrow> j = k \<or> int j \<in> set (v_held v)" for j
    using cl [of j] count_list_pos [of ?h "int j"] count_list_pos [of "v_held v" "int j"] by (auto split: if_splits)
  have len: "count_list (v_held v) (int k) < 2 ^ 32 - 1"
  proof -
    have "count_list ?h (int k) \<le> length ?h" by (rule count_le_length)
    then show ?thesis using i cl [of k] by simp
  qed
  let ?n = "v_counts v ! k"
  have n: "unat ?n = count_list (v_held v) (int k)" "unat (?n + 1) = unat ?n + 1"
    using i key(2) len by (simp_all add: unat_word_ariths)
  have range: "\<forall>x \<in> set ?h. x < 256" using i assms(2) by (auto dest: set_update_subset_insert [THEN subsetD])
  have counts: "\<forall>j < 256. unat ((v_counts v)[k := ?n + 1] ! j) = count_list ?h (int j)"
    using i key(2) n by (auto simp: nth_list_update cl)
  have l: "length (v_counts v) = 256" using i by blast
  note change = keys_inv_change [OF assms(1) length_list_update _ range counts, simplified length_list_update, OF l]
  show ?thesis
  proof (cases "?n = 0")
    case True
    then have "int k \<notin> set (v_held v)" using n(1) count_list_pos [of "v_held v" "int k"] by auto
    then have "consistent (evs @ [(k, True)]) ?h" using key(2) mem by (intro consistent_press [OF con]) auto
    from change(2) [OF this] show ?thesis using False True
      by (intro exI [of _ "[(k, True)]"]) (simp add: press_def Let_def k_def [symmetric])
  next
    case nz: False
    then have "int k \<in> set (v_held v)" using n(1) count_list_pos [of "v_held v" "int k"] by (metis gr0I unat_eq_zero)
    then have "consistent evs ?h" using mem by (intro consistent_same [OF con]) auto
    from change(1) [OF this] show ?thesis using False nz
      by (intro exI [of _ "[]"]) (simp add: press_def Let_def k_def [symmetric])
  qed
qed

lemma unpress_inv:
  assumes "keys_inv v evs" "scan < length (v_held v)"
  shows "\<exists>evs'. keys_inv (unpress scan v) (evs @ evs')"
proof (cases "0 \<le> v_held v ! scan")
  case False
  then show ?thesis using assms(1) by (intro exI [of _ "[]"]) (simp add: unpress_def)
next
  case True
  let ?h = "(v_held v)[scan := - 1]"
  define k where "k = nat (v_held v ! scan)"
  note i = assms(1) [unfolded keys_inv_def]
  have con: "consistent evs (v_held v)" using i by blast
  have key: "v_held v ! scan = int k" using True by (simp add: k_def)
  have k: "k < 256" using i assms(2) key by (metis nth_mem of_nat_less_iff of_nat_numeral)
  have cl: "count_list (v_held v) (int j) = count_list ?h (int j) + (if j = k then 1 else 0)" for j
    using count_list_update [OF assms(2), of "- 1" "int j"] by (auto simp: key)
  let ?n = "v_counts v ! k"
  have n: "unat ?n = count_list ?h (int k) + 1" using i k cl [of k] by simp
  then have "?n \<noteq> 0" by auto
  then have n1: "unat (?n - 1) = count_list ?h (int k)" using n by (simp add: unat_minus_one)
  have range: "\<forall>x \<in> set ?h. x < 256" using i by (auto dest: set_update_subset_insert [THEN subsetD])
  have counts: "\<forall>j < 256. unat ((v_counts v)[k := ?n - 1] ! j) = count_list ?h (int j)"
    using i k n1 cl by (auto simp: nth_list_update)
  have mem: "int j \<in> set (v_held v) \<longleftrightarrow> j = k \<or> int j \<in> set ?h" for j
    using cl [of j] count_list_pos [of ?h "int j"] count_list_pos [of "v_held v" "int j"] by (auto split: if_splits)
  have kin: "int k \<in> set ?h \<longleftrightarrow> ?n - 1 \<noteq> 0"
    using n1 count_list_pos [of ?h "int k"] by (simp add: unat_eq_zero [symmetric] del: unat_eq_zero)
  have l: "length (v_counts v) = 256" using i by blast
  note change = keys_inv_change [OF assms(1) length_list_update _ range counts, simplified length_list_update, OF l]
  show ?thesis
  proof (cases "?n - 1 = 0")
    case z: True
    then have "consistent (evs @ [(k, False)]) ?h" using k mem kin by (intro consistent_release [OF con]) auto
    from change(2) [OF this] show ?thesis using True z
      by (intro exI [of _ "[(k, False)]"]) (simp add: unpress_def Let_def k_def [symmetric])
  next
    case False
    then have "consistent evs ?h" using mem kin by (intro consistent_same [OF con]) auto
    from change(1) [OF this] show ?thesis using True False
      by (intro exI [of _ "[]"]) (simp add: unpress_def Let_def k_def [symmetric])
  qed
qed

text \<open>Losing the focus releases exactly the keys that are down.\<close>

lemma release_fold:
  assumes "n \<le> length (v_counts v)"
  shows "fold release_key [0..<n] v =
    v\<lparr>v_keys := v_keys v @ key_bytes (map (\<lambda>k. (k, False)) (filter (\<lambda>k. v_counts v ! k \<noteq> 0) [0..<n])),
      v_counts := replicate n 0 @ drop n (v_counts v)\<rparr>"
  using assms
proof (induction n)
  case 0
  then show ?case by (simp add: key_bytes_def)
next
  case (Suc n)
  let ?cs = "replicate n 0 @ drop n (v_counts v)"
  have nth: "?cs ! n = v_counts v ! n" using Suc.prems by (simp add: nth_append)
  have upd: "?cs[n := 0] = replicate (Suc n) 0 @ drop (Suc n) (v_counts v)"
    using Suc.prems by (simp add: list_update_append Cons_nth_drop_Suc [symmetric] replicate_append_same [symmetric])
  have snoc: "appendWord (a @ key_bytes l) (event_word k d) = a @ key_bytes (l @ [(k, d)])" for a l k d
    by (subst appendWord_Nil) (simp add: key_bytes_snoc)
  have IH: "fold release_key [0..<n] v =
    v\<lparr>v_keys := v_keys v @ key_bytes (map (\<lambda>k. (k, False)) (filter (\<lambda>k. v_counts v ! k \<noteq> 0) [0..<n])), v_counts := ?cs\<rparr>"
    using Suc by simp
  have "fold release_key [0..<Suc n] v = release_key n (fold release_key [0..<n] v)" by simp
  also note IH
  also have "release_key n (v\<lparr>v_keys := v_keys v @ key_bytes (map (\<lambda>k. (k, False)) (filter (\<lambda>k. v_counts v ! k \<noteq> 0) [0..<n])),
      v_counts := ?cs\<rparr>) =
    v\<lparr>v_keys := v_keys v @ key_bytes (map (\<lambda>k. (k, False)) (filter (\<lambda>k. v_counts v ! k \<noteq> 0) [0..<Suc n])),
      v_counts := replicate (Suc n) 0 @ drop (Suc n) (v_counts v)\<rparr>"
    by (simp add: release_key_def Let_def queueKey_def nth upd snoc del: replicate_Suc)
  finally show ?case .
qed

lemma key_log_releases:
  "key_log j (map (\<lambda>k. (k, False)) (filter P [0..<n])) = (if j < n \<and> P j then [False] else [])"
  by (induction n) (auto simp: key_log_def less_Suc_eq)

lemma key_bytes_append: "key_bytes (a @ b) = key_bytes a @ key_bytes b"
  by (simp add: key_bytes_def)

lemma release_all_inv:
  assumes "keys_inv v evs"
  shows "\<exists>evs'. keys_inv (release_all v) (evs @ evs')"
proof -
  note i = assms [unfolded keys_inv_def]
  define rel where "rel = map (\<lambda>k. (k, False)) (filter (\<lambda>k. v_counts v ! k \<noteq> 0) [0..<256])"
  have r: "release_all v = v\<lparr>v_keys := v_keys v @ key_bytes rel, v_counts := replicate 256 0,
      v_held := map (\<lambda>_. - 1) (v_held v)\<rparr>"
    using i by (simp add: release_all_def release_fold rel_def)
  have down: "v_counts v ! k \<noteq> 0 \<longleftrightarrow> int k \<in> set (v_held v)" if "k < 256" for k
    using i that count_list_pos [of "v_held v" "int k"] by (metis gr0I unat_eq_zero unat_0 less_irrefl)
  have high: "int k \<notin> set (v_held v)" if "\<not> k < 256" for k using i that by fastforce
  have log: "key_log k (evs @ rel) = key_log k evs @ (if int k \<in> set (v_held v) then [False] else [])" for k
    using down [of k] high [of k] key_log_releases [of k "\<lambda>k. v_counts v ! k \<noteq> 0" 256]
    by (auto simp: key_log_def rel_def)
  have none: "int k \<notin> set (map (\<lambda>_. - 1) (v_held v))" for k by auto
  have "consistent (evs @ rel) (map (\<lambda>_. - 1) (v_held v))"
    unfolding consistent_def log using i none by (auto simp: consistent_def alternates_snoc rel_def)
  moreover have "count_list (map (\<lambda>_. - 1) (v_held v)) (int k) = 0" for k
    using none [of k] by (simp only: count_list_0_iff not_False_eq_True)
  moreover have "\<forall>x \<in> set (map (\<lambda>_. - 1) (v_held v)). x < (256 :: int)" by auto
  moreover have "v_sent v @ v_keys v @ key_bytes rel = key_bytes (evs @ rel)" using i by (simp add: key_bytes_append)
  ultimately have "keys_inv (release_all v) (evs @ rel)" using i by (simp add: keys_inv_def r)
  then show ?thesis by blast
qed

lemma keys_inv_flags [simp]:
  "keys_inv (v\<lparr>v_running := b\<rparr>) evs = keys_inv v evs" "keys_inv (v\<lparr>v_redraw := b\<rparr>) evs = keys_inv v evs"
  "keys_inv (v\<lparr>v_result := r\<rparr>) evs = keys_inv v evs"
  by (simp_all add: keys_inv_def)

lemma handle_event_inv:
  assumes "keys_inv v evs"
  shows "\<exists>evs'. keys_inv (handle_event e v) (evs @ evs')"
proof -
  have same: "\<exists>evs'. keys_inv v (evs @ evs')" using assms by (intro exI [of _ "[]"]) simp
  show ?thesis
  proof (cases e)
    case (Key_Event k)
    then show ?thesis
      using same press_inv [OF assms keyCode_less, of "ke_scan k" "ke_key k"] unpress_inv [OF assms, of "ke_scan k"]
      by (simp add: handle_event_def not_le)
  qed (use same release_all_inv [OF assms] in \<open>simp_all add: handle_event_def\<close>)
qed

lemma handle_events_inv:
  "keys_inv v evs \<Longrightarrow> \<exists>evs'. keys_inv (fold handle_event es v) (evs @ evs')"
proof (induction es arbitrary: v evs)
  case Nil
  then show ?case by (intro exI [of _ "[]"]) simp
next
  case (Cons e es)
  obtain a where "keys_inv (handle_event e v) (evs @ a)" using handle_event_inv [OF Cons.prems] by blast
  from Cons.IH [OF this] show ?case by auto
qed

lemma flush_keys_inv: "keys_inv v evs \<Longrightarrow> keys_inv (flush_keys ws v) evs"
proof (induction ws arbitrary: v)
  case (Cons w ws)
  show ?case
  proof (cases w)
    case (Wrote n)
    let ?n = "min n (min 256 (length (v_keys v)))"
    have "keys_inv (v\<lparr>v_keys := drop ?n (v_keys v), v_sent := v_sent v @ take ?n (v_keys v)\<rparr>) evs"
      using Cons.prems by (simp add: keys_inv_def)
    from Cons.IH [OF this] show ?thesis using Cons.prems Wrote by (auto simp: Let_def keys_inv_def)
  qed (use Cons in \<open>auto simp: keys_inv_def\<close>)
qed simp

section \<open>Frames survive the pipe\<close>

text \<open>The packet \<^verbatim>\<open>present\<close> sends for a picture, and the pictures it accepts.\<close>

definition packet :: "u32 \<times> u32 \<times> u32 list \<Rightarrow> u8 list" where
  "packet = (\<lambda>(w, h, px).
     frame_header \<lparr>f_pixels = 0, f_width = w, f_height = h, f_indexed = False, f_palette = 0\<rparr> @
       concat (map (appendWord []) px))"

definition valid_frame :: "u32 \<times> u32 \<times> u32 list \<Rightarrow> bool" where
  "valid_frame = (\<lambda>(w, h, px). w \<noteq> 0 \<and> w \<le> RV_MAX_WIDTH \<and> h \<noteq> 0 \<and> h \<le> RV_MAX_HEIGHT \<and>
     length px = unat w * unat h)"

lemma readWord_append:
  assumes "4 \<le> length xs"
  shows "readWord (xs @ ys) = readWord xs"
proof -
  have "xs \<noteq> []" "1 < length xs" "2 < length xs" "3 < length xs" using assms by auto
  then show ?thesis by (simp add: readWord_def nth_append)
qed

lemma readWord_word [simp]: "readWord (appendWord [] w @ ys) = w"
  using readWord_appendWord [of "[]" w] by (simp add: readWord_append)

lemma frame_header_words:
  "frame_header f = appendWord [] RV_FRAME_MAGIC @ appendWord [] (f_width f) @ appendWord [] (f_height f)"
  by (simp add: frame_header_def appendWord_def)

lemma header_words:
  "readWord (packet (w, h, px) @ r) = RV_FRAME_MAGIC" "readWord (drop 4 (packet (w, h, px) @ r)) = w"
  "readWord (drop 8 (packet (w, h, px) @ r)) = h"
  by (simp_all add: packet_def frame_header_words)

lemma frame_words_read: "frame_words (concat (map (appendWord []) px) @ r) (length px) = px"
proof (induction px)
  case (Cons x px)
  have "frame_words bs (Suc n) = readWord bs # frame_words (drop 4 bs) n" for bs n
    by (simp add: frame_words_def upt_conv_Cons map_Suc_upt [symmetric] add.commute del: upt_Suc)
  then show ?case using Cons by simp
qed (simp add: frame_words_def)

lemma length_packet: "length (packet (w, h, px)) = 12 + length px * 4"
proof -
  have "length (concat (map (appendWord []) px)) = length px * 4" by (induction px) simp_all
  then show ?thesis by (simp add: packet_def frame_header_words)
qed

definition frames_inv :: "(u32 \<times> u32 \<times> u32 list) list \<Rightarrow> viewer \<Rightarrow> bool" where
  "frames_inv fs v \<longleftrightarrow> (\<exists>todo. fs = v_shown v @ todo \<and> v_frame v @ v_pipe v = concat (map packet todo) \<and>
     ((v_size v = 12 \<and> length (v_frame v) < 12) \<or>
      (todo \<noteq> [] \<and> v_size v = length (packet (hd todo)) \<and> length (v_frame v) < v_size v \<and> 12 \<le> length (v_frame v) \<and>
       v_width v = fst (hd todo) \<and> v_height v = fst (snd (hd todo)))))"

definition sdl_ok :: "sdl \<Rightarrow> bool" where
  "sdl_ok s \<longleftrightarrow> (\<forall>w h. sdl_create s w h) \<and> (\<forall>px. sdl_update s px)"

definition open_pipe :: "pipe_read list \<Rightarrow> bool" where
  "open_pipe rs \<longleftrightarrow> End_Of_File \<notin> set rs \<and> Broken \<notin> set rs"

text \<open>A complete header, and a complete frame.\<close>

lemma take_header_inv:
  assumes "fs = v_shown v @ todo" "v_frame v @ v_pipe v = concat (map packet todo)" "\<forall>f \<in> set fs. valid_frame f"
    and "length (v_frame v) = 12"
  shows "fst (take_header v) \<and> frames_inv fs (snd (take_header v))"
proof -
  obtain w h px rest where t: "todo = (w, h, px) # rest"
    using assms(2,4) by (cases todo) auto
  have val: "valid_frame (w, h, px)" using assms(1,3) t by simp
  define r where "r = concat (map packet rest)"
  have "v_frame v @ v_pipe v = packet (w, h, px) @ r" using assms(2) t by (simp add: r_def)
  then have "readWord (v_frame v @ v_pipe v) = RV_FRAME_MAGIC"
    "readWord (drop 4 (v_frame v @ v_pipe v)) = w" "readWord (drop 8 (v_frame v @ v_pipe v)) = h"
    by (simp_all only: header_words)
  then have hd: "readWord (v_frame v) = RV_FRAME_MAGIC" "readWord (drop 4 (v_frame v)) = w"
    "readWord (drop 8 (v_frame v)) = h"
    using assms(4) by (simp_all add: readWord_append)
  have th: "take_header v = (True, v\<lparr>v_width := w, v_height := h, v_size := length (packet (w, h, px))\<rparr>)"
    using hd val by (simp add: take_header_def Let_def valid_frame_def not_less length_packet)
  have "12 < length (packet (w, h, px))" using val by (simp add: valid_frame_def length_packet unat_gt_0)
  then have "frames_inv fs (v\<lparr>v_width := w, v_height := h, v_size := length (packet (w, h, px))\<rparr>)"
    unfolding frames_inv_def using assms(1,2,4) t by (intro exI [of _ todo]) simp
  then show ?thesis by (simp add: th)
qed

lemma show_frame_inv:
  assumes "fs = v_shown v @ (w, h, px) # rest" "v_frame v @ v_pipe v = packet (w, h, px) @ concat (map packet rest)"
    and "valid_frame (w, h, px)" "length (v_frame v) = length (packet (w, h, px))" "v_width v = w" "v_height v = h" "sdl_ok s"
  shows "frames_inv fs (show_frame s v)"
proof -
  have f: "v_frame v = packet (w, h, px)" "v_pipe v = concat (map packet rest)" using assms(2,4) by simp_all
  have "drop 12 (packet (w, h, px)) = concat (map (appendWord []) px)"
    by (simp add: packet_def frame_header_words)
  then have "frame_words (drop 12 (v_frame v)) (unat w * unat h) = px"
    using frame_words_read [of px "[]"] assms(3) by (simp add: f valid_frame_def)
  then show ?thesis using assms(1,5-7) f
    by (auto simp: show_frame_def Let_def sdl_ok_def frames_inv_def)
qed

lemma read_frame_inv:
  assumes "frames_inv fs v" "\<forall>f \<in> set fs. valid_frame f" "sdl_ok s" "open_pipe rs"
  shows "frames_inv fs (read_frame s rs v)"
  using assms(1,4)
proof (induction rs arbitrary: v)
  case (Cons r rs)
  have rest: "open_pipe rs" using Cons.prems(2) by (simp add: open_pipe_def)
  show ?case
  proof (cases r)
    case (Upto k)
    define n where "n = min (Suc k) (min (v_size v - length (v_frame v)) (length (v_pipe v)))"
    define u where "u = v\<lparr>v_frame := v_frame v @ take n (v_pipe v), v_pipe := drop n (v_pipe v)\<rparr>"
    obtain todo where t: "fs = v_shown v @ todo" "v_frame v @ v_pipe v = concat (map packet todo)"
      "(v_size v = 12 \<and> length (v_frame v) < 12) \<or>
       (todo \<noteq> [] \<and> v_size v = length (packet (hd todo)) \<and> length (v_frame v) < v_size v \<and> 12 \<le> length (v_frame v) \<and>
        v_width v = fst (hd todo) \<and> v_height v = fst (snd (hd todo)))"
      using Cons.prems(1) unfolding frames_inv_def by blast
    have u: "v_shown u = v_shown v" "v_size u = v_size v" "v_frame u @ v_pipe u = concat (map packet todo)"
      "v_width u = v_width v" "v_height u = v_height v" "length (v_frame u) = length (v_frame v) + n"
      using t(2) by (simp_all add: u_def n_def)
    have eq: "read_frame s (r # rs) v =
      (if n = 0 then v else if length (v_frame u) \<noteq> v_size v then read_frame s rs u
       else if v_size v = 12 then (if fst (take_header u) then read_frame s rs (snd (take_header u)) else snd (take_header u))
       else show_frame s u)"
      by (simp only: read_frame.simps Upto pipe_read.case Let_def n_def [symmetric] u_def [symmetric] u(2) case_prod_beta)
    have le: "length (v_frame u) \<le> v_size v" using t(3) u(6) by (auto simp: n_def)
    consider "n = 0" | "n \<noteq> 0" "length (v_frame u) \<noteq> v_size v" | "n \<noteq> 0" "length (v_frame u) = v_size v" "v_size v = 12"
      | "n \<noteq> 0" "length (v_frame u) = v_size v" "v_size v \<noteq> 12" by blast
    then show ?thesis
    proof cases
      case 1
      then show ?thesis unfolding eq using Cons.prems(1) by simp
    next
      case 2
      then have "length (v_frame u) < v_size v" using le by simp
      then have "frames_inv fs u" unfolding frames_inv_def u(1,2,4,5)
        using t(1,3) u(3,6) by (intro exI [of _ todo]) auto
      from Cons.IH [OF this rest] show ?thesis unfolding eq using 2 by simp
    next
      case 3
      have "fst (take_header u) \<and> frames_inv fs (snd (take_header u))"
        using take_header_inv [of fs u todo] t(1) u(1,3) assms(2) 3 by simp
      then show ?thesis unfolding eq using 3 Cons.IH [OF _ rest] by simp
    next
      case 4
      then obtain w h px todo' where c: "todo = (w, h, px) # todo'" "v_size v = length (packet (w, h, px))"
        "v_width v = w" "v_height v = h"
        using t(3) by (cases todo) auto
      have "valid_frame (w, h, px)" using assms(2) t(1) c(1) by simp
      then have "frames_inv fs (show_frame s u)"
        using show_frame_inv [of fs u w h px todo' s] t(1) c u assms(3) 4 by simp
      then show ?thesis unfolding eq using 4 by simp
    qed
  qed (use Cons rest in \<open>simp_all add: open_pipe_def\<close>)
qed simp

lemma frames_inv_other:
  "v_shown u = v_shown v \<Longrightarrow> v_frame u = v_frame v \<Longrightarrow> v_pipe u = v_pipe v \<Longrightarrow> v_size u = v_size v \<Longrightarrow>
     v_width u = v_width v \<Longrightarrow> v_height u = v_height v \<Longrightarrow> frames_inv fs u = frames_inv fs v"
  by (simp add: frames_inv_def)

text \<open>The keys do not touch the frames, and the frames do not touch the keys.\<close>

definition same_frames :: "viewer \<Rightarrow> viewer \<Rightarrow> bool" where
  "same_frames u v \<longleftrightarrow> v_shown u = v_shown v \<and> v_frame u = v_frame v \<and> v_pipe u = v_pipe v \<and> v_size u = v_size v \<and>
     v_width u = v_width v \<and> v_height u = v_height v"

lemma queueKey_same [simp]: "same_frames (queueKey k d v) w = same_frames v w"
  by (simp add: same_frames_def queueKey_def)

lemma release_fold_same: "same_frames (fold release_key ks v) v"
proof (induction ks arbitrary: v)
  case (Cons k ks)
  have "same_frames (release_key k v) v" by (simp add: same_frames_def release_key_def Let_def queueKey_def)
  then show ?case using Cons [of "release_key k v"] by (simp add: same_frames_def)
qed (simp add: same_frames_def)

lemma handle_event_same: "same_frames (handle_event e v) v"
proof (cases e)
  case Focus_Lost
  then show ?thesis using release_fold_same [of "[0..<length (v_counts v)]" v]
    by (simp add: handle_event_def release_all_def Let_def same_frames_def)
next
  case (Key_Event k)
  then show ?thesis by (simp add: handle_event_def press_def unpress_def Let_def same_frames_def queueKey_def)
qed (simp_all add: handle_event_def same_frames_def)

lemma handle_events_same: "same_frames (fold handle_event es v) v"
proof (induction es arbitrary: v)
  case (Cons e es)
  then show ?case using handle_event_same [of e v] Cons [of "handle_event e v"] by (simp add: same_frames_def)
qed (simp add: same_frames_def)

lemma flush_keys_same: "same_frames (flush_keys ws v) v"
proof (induction ws arbitrary: v)
  case (Cons w ws)
  show ?case
  proof (cases w)
    case (Wrote n)
    let ?n = "min n (min 256 (length (v_keys v)))"
    show ?thesis using Cons [of "v\<lparr>v_keys := drop ?n (v_keys v), v_sent := v_sent v @ take ?n (v_keys v)\<rparr>"] Wrote
      by (simp add: same_frames_def Let_def)
  qed (use Cons in \<open>simp_all add: same_frames_def\<close>)
qed (simp add: same_frames_def)

lemma frames_inv_same: "same_frames u v \<Longrightarrow> frames_inv fs u = frames_inv fs v"
  unfolding same_frames_def by (intro frames_inv_other) simp_all

lemma viewer_step_frames:
  assumes "frames_inv fs v" "\<forall>f \<in> set fs. valid_frame f" "sdl_ok s" "open_pipe rs"
  shows "frames_inv fs (viewer_step s (es, ws, rs) v)"
proof -
  define v1 where "v1 = fold handle_event es v"
  define v2 where "v2 = flush_keys ws v1"
  define v3 where "v3 = (if v_running v2 then read_frame s rs v2 else v2)"
  have 1: "frames_inv fs v1" using assms(1) frames_inv_same [OF handle_events_same] by (simp add: v1_def)
  have 2: "frames_inv fs v2" using 1 frames_inv_same [OF flush_keys_same] by (simp add: v2_def)
  have 3: "frames_inv fs v3" using 2 read_frame_inv [OF 2 assms(2-4)] by (simp add: v3_def)
  have u: "frames_inv fs (u\<lparr>v_result := r, v_running := b\<rparr>) = frames_inv fs u"
    "frames_inv fs (u\<lparr>v_redraw := b\<rparr>) = frames_inv fs u" for u r b
    by (rule frames_inv_other; simp)+
  show ?thesis using 1 3 u
    by (simp add: viewer_step_def Let_def v1_def [symmetric] v2_def [symmetric] v3_def [symmetric])
qed

lemma viewer_run_frames:
  assumes "frames_inv fs v" "\<forall>f \<in> set fs. valid_frame f" "sdl_ok s" "\<forall>(es, ws, rs) \<in> set its. open_pipe rs"
  shows "frames_inv fs (viewer_run s its v)"
  using assms(1,4)
proof (induction its arbitrary: v)
  case (Cons x its)
  obtain es ws rs where x: "x = (es, ws, rs)" by (metis surj_pair)
  then show ?case using Cons viewer_step_frames [OF Cons.prems(1) assms(2,3), of rs es ws] by simp
qed simp

text \<open>
  C20. Frames survive the pipe.  When the pipe delivers the packets of a list of pictures and SDL
  does not fail, then however the reads are split, interrupted or mixed with window and key events,
  the viewer has shown a prefix of exactly those pictures, in order and pixel by pixel, the bytes
  it holds and those still in the pipe are the packets of the rest, and nothing is left to show
  once the pipe is empty.
\<close>

theorem frames_survive_pipe:
  assumes "\<forall>f \<in> set fs. valid_frame f" "sdl_ok s" "\<forall>(es, ws, rs) \<in> set its. open_pipe rs"
    and "v = viewer_run s its (viewer_start n (concat (map packet fs)))"
  shows "\<exists>todo. fs = v_shown v @ todo \<and> v_frame v @ v_pipe v = concat (map packet todo) \<and> (v_pipe v = [] \<longrightarrow> todo = [])"
proof -
  have "frames_inv fs (viewer_start n (concat (map packet fs)))"
    by (simp add: frames_inv_def viewer_start_def)
  from viewer_run_frames [OF this assms(1-3)] obtain todo where t: "fs = v_shown v @ todo"
    "v_frame v @ v_pipe v = concat (map packet todo)"
    "(v_size v = 12 \<and> length (v_frame v) < 12) \<or> (todo \<noteq> [] \<and> v_size v = length (packet (hd todo)) \<and> length (v_frame v) < v_size v)"
    unfolding frames_inv_def assms(4) by blast
  have "todo = []" if "v_pipe v = []"
  proof (rule ccontr)
    assume "todo \<noteq> []"
    then obtain w h px rest where c: "todo = (w, h, px) # rest" by (cases todo) auto
    then have "length (packet (w, h, px)) \<le> length (v_frame v)" using t(2) that by simp
    then show False using t(3) c by (auto simp: length_packet)
  qed
  then show ?thesis using t by blast
qed

definition steady_sdl :: sdl where
  "steady_sdl = \<lparr>sdl_create = (\<lambda>w h. True), sdl_update = (\<lambda>px. True), sdl_render = True\<rparr>"

theorem frames_survive_pipe_witness:
  "v_shown (viewer_run steady_sdl [([], [], [Upto 4, Interrupted, Upto 99, Upto 1, Upto 99])] (viewer_start 0 (packet (1, 1, [7])))) =
     [(1, 1, [7])]"
proof -
  let ?its = "[([], [], [Upto 4, Interrupted, Upto 99, Upto 1, Upto 99])]"
  have p: "packet (1, 1, [7]) = [0x52, 0x56, 0x46, 0x31, 1, 0, 0, 0, 1, 0, 0, 0, 7, 0, 0, 0]"
    by (simp add: packet_def frame_header_words appendWord_def upt_4)
  have "v_pipe (viewer_run steady_sdl ?its (viewer_start 0 (packet (1, 1, [7])))) = []"
    by (simp add: p viewer_start_def viewer_step_def steady_sdl_def take_header_def readWord_def show_frame_def Let_def)
  moreover have "sdl_ok steady_sdl" "open_pipe [Upto 4, Interrupted, Upto 99, Upto 1, Upto 99]" "valid_frame (1, 1, [7])"
    by (simp_all add: sdl_ok_def steady_sdl_def open_pipe_def valid_frame_def)
  ultimately show ?thesis using frames_survive_pipe [of "[(1, 1, [7])]" steady_sdl ?its _ 0] by simp
qed

section \<open>Keys reach the guest\<close>

lemma viewer_step_keys:
  assumes "keys_inv v evs"
  shows "\<exists>evs'. keys_inv (viewer_step s x v) (evs @ evs')"
proof -
  obtain es ws rs where x: "x = (es, ws, rs)" by (metis surj_pair)
  obtain evs' where 1: "keys_inv (fold handle_event es v) (evs @ evs')"
    using handle_events_inv [OF assms] by blast
  have 2: "keys_inv (flush_keys ws (fold handle_event es v)) (evs @ evs')" by (rule flush_keys_inv [OF 1])
  have rd: "keys_inv (read_frame s rs u) e = keys_inv u e" for u e
  proof (induction rs arbitrary: u)
    case (Cons r rs)
    have "keys_inv (snd (take_header u)) e = keys_inv u e" "keys_inv (show_frame s u) e = keys_inv u e" for u
      by (simp_all add: keys_inv_def take_header_def show_frame_def Let_def)
    moreover have "keys_inv (u\<lparr>v_frame := f, v_pipe := p\<rparr>) e = keys_inv u e" for u f p by (simp add: keys_inv_def)
    ultimately show ?case using Cons by (cases r) (simp_all add: Let_def case_prod_beta)
  qed simp
  show ?thesis using 1 2 by (intro exI [of _ evs']) (simp add: viewer_step_def x Let_def rd)
qed

lemma viewer_run_keys: "keys_inv v evs \<Longrightarrow> \<exists>evs'. keys_inv (viewer_run s its v) (evs @ evs')"
proof (induction its arbitrary: v evs)
  case Nil
  then show ?case by (intro exI [of _ "[]"]) simp
next
  case (Cons x its)
  obtain a where "keys_inv (viewer_step s x v) (evs @ a)" using viewer_step_keys [OF Cons.prems] by blast
  from Cons.IH [OF this] obtain b where "keys_inv (viewer_run s its (viewer_step s x v)) ((evs @ a) @ b)" by blast
  then show ?case using Cons.prems
    by (cases "v_running v") (auto intro: exI [of _ "a @ b"] exI [of _ "[]"])
qed

lemma viewer_start_keys:
  assumes "n < 2 ^ 32"
  shows "keys_inv (viewer_start n p) []"
proof -
  have "count_list (replicate n (- 1 :: int)) (int k) = 0" for k by (simp add: count_list_0_iff)
  then show ?thesis using assms
    by (auto simp: keys_inv_def viewer_start_def consistent_def key_log_def key_bytes_def)
qed

text \<open>The word of an event.\<close>

lemma event_word_ucast: "k < 256 \<Longrightarrow> event_word k d = ucast (word_of_nat k :: u8) OR push_bit 8 (of_bool d)"
proof -
  assume "k < 256"
  then have "(word_of_nat k :: u32) = ucast (word_of_nat k :: u8)"
    by (intro word_unat_eq_iff [THEN iffD2]) (simp add: unsigned_ucast_eq unsigned_of_nat take_bit_nat_eq_self)
  then show ?thesis by (simp add: event_word_def)
qed

lemma event_word_bits:
  assumes "k < 256"
  shows "event_word k d \<le> 0x1FF" "drop_bit 8 (event_word k d) AND 1 = of_bool d" "event_word k d AND 255 = word_of_nat k"
proof -
  note e = event_word_ucast [OF assms, of d]
  have "event_word k d AND 0x1FF = event_word k d"
    by (rule word32_eqI) (auto simp: e bit_simps all_less_32 bit_of_bool_iff)
  then show "event_word k d \<le> 0x1FF" by (metis word_and_le1)
  show "drop_bit 8 (event_word k d) AND 1 = of_bool d"
    by (rule word32_eqI) (auto simp: e bit_simps all_less_32 bit_of_bool_iff)
  have "event_word k d AND 255 = event_word k False"
    by (rule word32_eqI) (auto simp: event_word_ucast [OF assms] bit_simps all_less_32 bit_of_bool_iff)
  then show "event_word k d AND 255 = word_of_nat k" by (simp add: event_word_def)
qed

text \<open>What successive calls of \<^verbatim>\<open>DG_GetKey\<close> report.\<close>

primrec guest_keys :: "nat \<Rightarrow> host \<Rightarrow> (bool \<times> doom_key) list result" where
  "guest_keys 0 h = Inr []"
| "guest_keys (Suc n) h =
     bind_result (pollKey h) (\<lambda>(event, h).
       bind_result (guest_keys n h) (\<lambda>ks. Inr (case DG_GetKey event of None \<Rightarrow> ks | Some e \<Rightarrow> e # ks)))"

definition reported :: "key_trace \<Rightarrow> (bool \<times> doom_key) list" where
  "reported evs = map (\<lambda>(k, d). (d, translate (word_of_nat k))) evs"

lemma DG_GetKey_event:
  assumes "k < 256"
  shows "DG_GetKey (event_word k d) = Some (d, translate (word_of_nat k))"
proof -
  note b = event_word_bits [OF assms, of d]
  have "event_word k d \<noteq> UINT32_MAX" using b(1) by auto
  then show ?thesis by (simp add: DG_GetKey_def b)
qed

lemma poll_key_loop_ok:
  "Read_Err \<notin> set rs \<Longrightarrow> \<exists>full rs' buf'. poll_key_loop rs buf = Inr (full, rs', buf') \<and> Read_Err \<notin> set rs'"
  by (induction rs arbitrary: buf) (auto split: read_outcome.split)

lemma guest_keys_prefix:
  assumes "pending_bytes h @ later = key_bytes evs" "\<forall>e \<in> set evs. fst e < 256" "0 \<le> h_keyFd h"
    and "length (h_partialKey h) < 4" "Read_Err \<notin> set (h_keyReads h)"
  shows "\<exists>j. guest_keys n h = Inr (reported (take j evs))"
  using assms
proof (induction n arbitrary: h evs)
  case 0
  show ?case by (intro exI [of _ 0]) (simp add: reported_def)
next
  case (Suc n)
  obtain full rs buf where l: "poll_key_loop (h_keyReads h) (h_partialKey h) = Inr (full, rs, buf)" "Read_Err \<notin> set rs"
    using poll_key_loop_ok [OF Suc.prems(5)] by blast
  have "length (h_partialKey h) \<le> 4" using Suc.prems(4) by simp
  note d = poll_key_loop_data [OF l(1) this]
  have fd: "\<not> h_keyFd h < 0" using Suc.prems(3) by simp
  show ?case
  proof (cases full)
    case False
    define h' where "h' = h\<lparr>h_keyReads := rs, h_partialKey := buf\<rparr>"
    have "pollKey h = Inr (UINT32_MAX, h')" using l False fd by (simp add: pollKey_def h'_def)
    moreover obtain j where "guest_keys n h' = Inr (reported (take j evs))"
      using Suc.IH [of h' evs] Suc.prems d l(2) False by (auto simp: h'_def pending_bytes_def)
    ultimately show ?thesis by (auto simp: DG_GetKey_def)
  next
    case True
    then have b: "length buf = 4" "(buf @ read_data rs) @ later = key_bytes evs"
      using d Suc.prems(1) by (simp_all add: pending_bytes_def)
    then obtain k down evs' where e: "evs = (k, down) # evs'"
      by (cases evs) (auto simp: key_bytes_def)
    then have "buf @ (read_data rs @ later) = appendWord [] (event_word k down) @ key_bytes evs'"
      using b(2) by (simp add: key_bytes_def)
    then have w: "buf = appendWord [] (event_word k down)" "read_data rs @ later = key_bytes evs'"
      using b(1) by (simp_all add: append_eq_append_conv)
    have k: "k < 256" using Suc.prems(2) e by simp
    define h' where "h' = h\<lparr>h_keyReads := rs, h_partialKey := []\<rparr>"
    have "readWord buf = event_word k down" using readWord_word [of _ "[]"] w(1) by simp
    then have "pollKey h = Inr (event_word k down, h')"
      using l True fd event_word_bits(1) [OF k] by (simp add: pollKey_def h'_def not_less Let_def)
    moreover obtain j where "guest_keys n h' = Inr (reported (take j evs'))"
      using Suc.IH [of h' evs'] Suc.prems w(2) l(2) e by (auto simp: h'_def pending_bytes_def)
    ultimately have "guest_keys (Suc n) h = Inr (reported (take (Suc j) evs))"
      by (simp add: DG_GetKey_event [OF k] e reported_def)
    then show ?thesis by blast
  qed
qed

text \<open>
  C21. Keys reach the guest as they are pressed.  Whatever events the viewer handles and however both
  pipes split the bytes, there is one trace of presses and releases such that for each key presses
  and releases alternate, beginning with a press, the key is down at the end exactly when a scancode
  of the viewer holds it, and what the guest's polls report is a prefix of that trace.
\<close>

theorem keys_reach_guest:
  assumes "v = viewer_run s its (viewer_start n p)" "n < 2 ^ 32"
    and "read_data (h_keyReads h) = v_sent v" "h_partialKey h = []" "0 \<le> h_keyFd h" "Read_Err \<notin> set (h_keyReads h)"
  shows "\<exists>evs j. guest_keys m h = Inr (map (\<lambda>(k, d). (d, translate (word_of_nat k))) (take j evs)) \<and>
    v_sent v @ v_keys v = key_bytes evs \<and>
    (\<forall>k. alternates True (key_log k evs) \<and> (odd (length (key_log k evs)) \<longleftrightarrow> int k \<in> set (v_held v)))"
proof -
  have "\<exists>e. keys_inv (viewer_run s its (viewer_start n p)) ([] @ e)"
    by (rule viewer_run_keys [OF viewer_start_keys [OF assms(2)]])
  then obtain evs where k: "keys_inv v evs" by (auto simp: assms(1))
  have c: "v_sent v @ v_keys v = key_bytes evs" "consistent evs (v_held v)" using k by (simp_all add: keys_inv_def)
  moreover obtain j where "guest_keys m h = Inr (reported (take j evs))"
    using guest_keys_prefix [of h "v_keys v" evs m] c assms(3-6) by (auto simp: pending_bytes_def consistent_def)
  ultimately show ?thesis unfolding reported_def consistent_def by blast
qed

theorem keys_reach_guest_witness:
  "\<exists>evs j. guest_keys 2 (host_demo\<lparr>h_keyReads := [Got [97], Read_Intr, Got [1, 0, 0]]\<rparr>) =
     Inr (map (\<lambda>(k, d). (d, translate (word_of_nat k))) (take j evs)) \<and> [97, 1, 0, 0] = key_bytes evs"
proof -
  let ?e = "Key_Event \<lparr>ke_down = True, ke_repeat = False, ke_key = Code_Point 97, ke_ctrl = False, ke_scan = 4\<rparr>"
  define its where "its = [([?e], [Wrote 9], [] :: pipe_read list)]"
  define v where "v = viewer_run steady_sdl its (viewer_start 8 [])"
  let ?h = "host_demo\<lparr>h_keyReads := [Got [97], Read_Intr, Got [1, 0, 0]]\<rparr>"
  have r: "replicate 8 x = [x, x, x, x, x, x, x, x]" for x :: int by (simp add: numeral_eq_Suc)
  have sent: "v_sent v = [97, 1, 0, 0]" "v_keys v = []"
    by (simp_all add: v_def its_def viewer_start_def viewer_step_def handle_event_def is_quit_key_def press_def
        queueKey_def r steady_sdl_def event_word_def appendWord_def upt_4 Let_def)
  have "read_data (h_keyReads ?h) = v_sent v" "h_partialKey ?h = []" "0 \<le> h_keyFd ?h" "Read_Err \<notin> set (h_keyReads ?h)"
    by (simp_all add: sent host_demo_def)
  from keys_reach_guest [OF v_def _ this, of 2] obtain evs j where
    "guest_keys 2 ?h = Inr (map (\<lambda>(k, d). (d, translate (word_of_nat k))) (take j evs))" "v_sent v @ v_keys v = key_bytes evs"
    by auto
  then show ?thesis unfolding sent by (intro exI conjI) simp_all
qed

end
