(* ===== verification/Spec2Isabelle.thy ===== *)
theory Spec2Isabelle
  imports Reference Issue_Queue Func_Unit Mem_Response Config Predictor Cache_Memory Core_Run
    Commit_Order Recovery Driver Guest_Files Guest_Code Viewer
begin

text \<open>
  A verification library for rv-o3, a cycle-level simulator of an out-of-order RV32IM processor
  with nonblocking caches, and for the guest and display programs that come with it.

  \<^bold>\<open>The program.\<close>  \<^verbatim>\<open>sim/main.cpp\<close> reads the options and the configuration
  (\<^verbatim>\<open>sim/config.cpp\<close>), loads a program (\<^verbatim>\<open>sim/loader.cpp\<close>) into the backing store
  (\<^verbatim>\<open>memory/memory.h\<close>) and runs the core (\<^verbatim>\<open>core/ooo.cpp\<close>).  In each cycle the core commits,
  writes back, generates addresses, operates the load/store queue, issues, dispatches and fetches;
  it talks to two ports of the memory system (\<^verbatim>\<open>memory/system.cpp\<close>: two first-level caches and a
  second level over the main memory, or the main memory alone).  System calls act at commit
  (\<^verbatim>\<open>sim/syscall.h\<close>, \<^verbatim>\<open>sim/display.h\<close>).  With \<^verbatim>\<open>-d\<close> a reference interpreter
  (\<^verbatim>\<open>core/refmodel.cpp\<close>) runs beside the core and every commit record is compared.

  \<^bold>\<open>Theories, from the leaves to the whole.\<close>
  \<^item> \<open>Prelude\<close>: machine integers, fatal errors, generic facts.
  \<^item> \<open>Isa\<close>, \<open>Decode\<close>, \<open>Execute\<close>, \<open>Disasm\<close>: \<^verbatim>\<open>isa/\<close>.  Decoding and an encoder are inverse to each
    other on the valid instructions; \<^verbatim>\<open>execute\<close> is free of undefined behaviour; division and
    multiplication have the results of the manual; every word has a disassembly, which fits its buffer.
  \<^item> \<open>Flat_Memory\<close>, \<open>Dram\<close>, \<open>Cache\<close>, \<open>System\<close>: \<^verbatim>\<open>memory/\<close>.  \<open>Cache_Lines\<close> and \<open>Cache_Memory\<close> prove
    that the cache, with its miss registers, merged requests, writeback queue and restores, answers
    every accepted request exactly once and as a sequential memory would.
  \<^item> \<open>Ring_Buffer\<close>, \<open>Slot_Set\<close>, \<open>Ring_Sets\<close>: \<^verbatim>\<open>core/ring.h\<close> and \<^verbatim>\<open>core/slot_set.h\<close>.  The ring is a
    double-ended queue (the locale \<open>deque\<close>, interpreted on the ring); bitmaps over its slots are sets of
    live entries, and their walks go from the oldest to the newest.
  \<^item> \<open>Issue_Queue\<close>, \<open>Func_Unit\<close>, \<open>Lsq\<close>, \<open>Mem_Response\<close>, \<open>Predictor\<close>: the structures of \<^verbatim>\<open>core/\<close>, each with
    its invariant, its specification and the refinement between them.
  \<^item> \<open>Reference\<close>: \<^verbatim>\<open>core/commit.h\<close> and the interpreter of \<^verbatim>\<open>core/refmodel.cpp\<close>; a commit stream replayed
    from the start gives the final state.
  \<^item> \<open>Core\<close>, \<open>Core_Stages\<close>, \<open>Core_Cycle\<close>: the class \<^verbatim>\<open>OoOCore\<close>, every stage, the cycle and the run loop.
    \<open>Frames\<close>, \<open>Core_Rename\<close>, \<open>Core_Invariant\<close> and \<open>Core_Reach\<close> prove the renaming invariant for every
    reachable state and that recovery restores exactly the state before the squashed instructions;
    \<open>Core_Run\<close> proves that runs end and that commit records are numbered without gaps.
  \<^item> \<open>Flight\<close>, \<open>Dataflow\<close>, \<open>Dataflow_Moves\<close>, \<open>Dataflow_Queues\<close>: what is in flight, as lists and multisets
    without the bit-level structures, the invariant that every operand in a queue, a unit or a register
    is the one program order asks for, and the moves that keep it.  \<open>Core_Data\<close> reads that view off a
    state of the core, and \<open>Core_Data_Back\<close>, \<open>Member_Walks\<close>, \<open>Core_Data_Mem\<close>, \<open>Core_Data_Issue\<close>,
    \<open>Core_Data_Dispatch\<close> and \<open>Core_Data_Commit\<close> take it through the stages.  \<open>In_Order\<close> says what an
    in-order execution writes and \<open>Commit_Order\<close> proves that the commit stream is one.
  \<^item> \<open>Config\<close>, \<open>Loader\<close>, \<open>Syscall\<close>, \<open>Driver\<close>: \<^verbatim>\<open>sim/\<close>.  A written configuration reads back; validation
    guarantees what the other components assume; a passing differential check shows that the commit
    stream and the final state are those of the interpreter.
  \<^item> \<open>Viewer\<close>, \<open>Guest_Files\<close>, \<open>Guest_Code\<close>: \<^verbatim>\<open>doom/\<close>.  Frames and key events survive the pipes; the
    guest's files are independent cursors; its division and memory routines agree with their references.

  \<^bold>\<open>Correspondence.\<close>  A class or structure is a record with the fields of the source, an operation is a
  function from the state to the state and its result, and the names are those of the source.  Words
  keep their width.  A fatal error is a value of \<open>fatal\<close> and a \<open>result\<close> is a sum; undefined behaviour of
  C++ is the value \<open>Undefined\<close> or \<open>None\<close>.  A reference or pointer to an entry is its index.  A visitor is
  a function on an explicit state.  Evaluated on the programs under \<^verbatim>\<open>tests/\<close> with a cached memory the
  model prints what their comments expect, and has the cycle counts the README gives.

  \<^bold>\<open>Parameters.\<close>  What the operating system answers to reads, writes, polls and \<^verbatim>\<open>fcntl\<close> is a script in the
  host state; files are functions from names to contents; SDL answers by given functions; the history
  lengths of the predictor, computed with floating point in the constructor, are an argument.

  \<^bold>\<open>Bounds and fuel.\<close>  The loops over the width, the ports and the budget of a cycle recurse on that number.
  The endless loop of \<^verbatim>\<open>aguDrain\<close> has as much fuel as there are address units, which leaves no output
  (\<open>aguDrain_empty\<close>).  \<open>core_run\<close>, \<open>diff_run\<close> and the string system call are partial functions that return
  (\<open>core_run_returns\<close>, \<open>print_string_exact\<close>).

  \<^bold>\<open>Not modelled.\<close>  The textual trace (\<^verbatim>\<open>-t\<close>) and the statistics report of \<^verbatim>\<open>OoOCore\<close> and \<^verbatim>\<open>printStats\<close>,
  which only print, partly in floating point; the usage text; the window set-up of the viewer; the
  tests and benchmarks, start-up assembly, linker scripts and Python tools.
\<close>

end
